(* ===== verification/Prelude.thy ===== *)
theory Prelude
  imports Main "HOL-Library.Multiset" "HOL-Library.Sublist"
begin

text \<open>
  Shared vocabulary of the development: the collections of rewrite rules the component
  theories add to, and generic facts on lists, options and finite maps that several
  components use.  Nothing in this theory is specific to one source file.
\<close>

named_theorems js_simps \<open>evaluation rules of the modelled operations\<close>
named_theorems obj_simps \<open>lookup and key rules of ordered property stores\<close>
named_theorems inv_intros \<open>preservation rules of component invariants\<close>

section \<open>Lists\<close>

text \<open>Enumerating a list together with the running index of the source's \<open>for\<close> loops.\<close>

fun index_from :: "nat \<Rightarrow> 'a list \<Rightarrow> (nat \<times> 'a) list" where
  "index_from i [] = []"
| "index_from i (x # xs) = (i, x) # index_from (Suc i) xs"

lemma length_index_from [simp]: "length (index_from i xs) = length xs"
  by (induction xs arbitrary: i) auto

lemma map_snd_index_from [simp]: "map snd (index_from i xs) = xs"
  by (induction xs arbitrary: i) auto

lemma map_fst_index_from [simp]: "map fst (index_from i xs) = [i ..< i + length xs]"
  by (induction xs arbitrary: i) (auto simp: upt_conv_Cons simp del: upt_Suc)

lemma nth_index_from [simp]: "k < length xs \<Longrightarrow> index_from i xs ! k = (i + k, xs ! k)"
  by (induction xs arbitrary: i k) (auto simp: nth_Cons split: nat.splits)

lemma index_from_append: "index_from i (xs @ ys) = index_from i xs @ index_from (i + length xs) ys"
  by (induction xs arbitrary: i) auto

text \<open>The position of the first element that satisfies a test.\<close>

fun first_pos :: "('a \<Rightarrow> bool) \<Rightarrow> 'a list \<Rightarrow> nat option" where
  "first_pos P [] = None"
| "first_pos P (x # xs) = (if P x then Some 0 else map_option Suc (first_pos P xs))"

lemma first_pos_None: "first_pos P xs = None \<longleftrightarrow> (\<forall>x \<in> set xs. \<not> P x)"
  by (induction xs) auto

lemma first_pos_Some:
  "first_pos P xs = Some n \<longleftrightarrow> n < length xs \<and> P (xs ! n) \<and> (\<forall>k < n. \<not> P (xs ! k))"
proof (induction xs arbitrary: n)
  case Nil
  then show ?case by simp
next
  case (Cons x xs)
  show ?case
    by (cases n) (auto simp: Cons.IH nth_Cons split: nat.splits)
qed

lemma first_pos_drop_None:
  "first_pos P (drop s xs) = None \<longleftrightarrow> (\<forall>j. s \<le> j \<longrightarrow> j < length xs \<longrightarrow> \<not> P (xs ! j))"
proof -
  have "set (drop s xs) = {xs ! j | j. s \<le> j \<and> j < length xs}"
  proof (intro equalityI subsetI)
    fix x assume "x \<in> set (drop s xs)"
    then obtain i where "i < length xs - s" "x = xs ! (s + i)"
      by (auto simp: in_set_conv_nth nth_drop)
    then show "x \<in> {xs ! j | j. s \<le> j \<and> j < length xs}" by (auto intro!: exI[of _ "s + i"])
  next
    fix x assume "x \<in> {xs ! j | j. s \<le> j \<and> j < length xs}"
    then obtain j where j: "s \<le> j" "j < length xs" "x = xs ! j" by auto
    then have "drop s xs ! (j - s) = x" "j - s < length (drop s xs)" by auto
    then show "x \<in> set (drop s xs)" by (metis nth_mem)
  qed
  then show ?thesis by (auto simp: first_pos_None)
qed

lemma first_pos_drop_Some:
  "first_pos P (drop s xs) = Some k \<longleftrightarrow>
     s + k < length xs \<and> P (xs ! (s + k)) \<and> (\<forall>i. s \<le> i \<longrightarrow> i < s + k \<longrightarrow> \<not> P (xs ! i))"
proof -
  have "(\<forall>i < k. \<not> P (xs ! (s + i))) \<longleftrightarrow> (\<forall>i. s \<le> i \<longrightarrow> i < s + k \<longrightarrow> \<not> P (xs ! i))"
    by (metis le_iff_add nat_add_left_cancel_less)
  then show ?thesis by (auto simp: first_pos_Some nth_drop less_diff_conv add.commute)
qed

lemma remdups_adj_Cons_tl: "x # tl (remdups_adj (x # xs)) = remdups_adj (x # xs)"
  by (metis hd_remdups_adj list.collapse list.sel(1) list.simps(3) remdups_adj_Nil_iff)

lemma sorted_subseq: "subseq xs ys \<Longrightarrow> sorted ys \<Longrightarrow> sorted xs"
proof (induction rule: list_emb.induct)
  case (list_emb_Cons2 x y xs ys)
  then have "set xs \<subseteq> set ys" by (auto dest: list_emb_set)
  with list_emb_Cons2 show ?case by auto
qed auto

lemma distinct_remdups_adj_sorted: "sorted xs \<Longrightarrow> distinct (remdups_adj xs)"
  by (induction xs rule: remdups_adj.induct) auto

lemma map_remdups_adj_Cons_tl:
  "f x # map f (tl (remdups_adj (x # xs))) = map f (remdups_adj (x # xs))"
  by (metis list.map(2) remdups_adj_Cons_tl)

section \<open>Integers\<close>

lemma div_less_pos:
  fixes a b c :: int
  assumes "a < c * b" "0 < b"
  shows "a div b < c"
proof (rule ccontr)
  assume "\<not> a div b < c"
  then have "c * b \<le> (a div b) * b" using assms(2) by (intro mult_right_mono) auto
  also have "\<dots> \<le> a" using assms(2) by (simp add: minus_mod_eq_div_mult[symmetric])
  finally show False using assms(1) by simp
qed

lemma div_less_iff_mult:
  fixes a b c :: int
  assumes "0 < b"
  shows "a div b < c \<longleftrightarrow> a < c * b"
proof
  assume "a div b < c"
  then have "(a div b + 1) * b \<le> c * b" using assms by (intro mult_right_mono) auto
  moreover have "a < (a div b + 1) * b"
  proof -
    have "(a div b + 1) * b = a div b * b + b" by (simp add: distrib_right)
    then show ?thesis using assms pos_mod_bound[of b a] div_mult_mod_eq[of a b] by linarith
  qed
  ultimately show "a < c * b" by simp
qed (use assms div_less_pos in blast)

section \<open>Association lists\<close>

lemma map_of_eq_Some_distinct:
  "distinct (map fst xs) \<Longrightarrow> map_of xs k = Some v \<longleftrightarrow> (k, v) \<in> set xs"
  by auto

lemma map_of_None_fst: "map_of xs k = None \<longleftrightarrow> k \<notin> fst ` set xs"
  by (rule map_of_eq_None_iff)

lemma set_option_map_of_subset: "map_of xs k = Some v \<Longrightarrow> v \<in> snd ` set xs"
  by (force dest: map_of_SomeD)

end
