(* ===== verification/JsLib.thy ===== *)
theory JsLib
  imports Prelude
begin

text \<open>
  The part of the JavaScript language and its standard library the modelled files use:
  numbers and primitive values with their two equalities and truthiness, strings and arrays
  (\<open>slice\<close>, \<open>substring\<close>, \<open>substr\<close>, \<open>indexOf\<close>, \<open>split\<close>, \<open>join\<close>, \<open>toLowerCase\<close>).

  A string is a list of code units; the development uses Isabelle's \<open>string\<close>, so the code units
  are those of Latin-1, except where a theory works on the code units themselves.  The finite
  numbers of the model are the integers, on which the double arithmetic of the source is exact
  below \<open>2 ^ 53\<close>.
\<close>

section \<open>Numbers and values\<close>

datatype jsnum = Fin int | NegZero | PosInf | NegInf | NaN

datatype jsval =
    JUndef
  | JNull
  | JBool bool
  | JNum jsnum
  | JStr string
  | JRef nat  \<comment> \<open>an array, an object or a function, by identity\<close>

fun num_eq :: "jsnum \<Rightarrow> jsnum \<Rightarrow> bool" where
  "num_eq NaN b = False"
| "num_eq a NaN = False"
| "num_eq NegZero b = (b = NegZero \<or> b = Fin 0)"
| "num_eq a NegZero = (a = Fin 0)"
| "num_eq a b = (a = b)"

fun num_lt :: "jsnum \<Rightarrow> jsnum \<Rightarrow> bool" where
  "num_lt NaN b = False"
| "num_lt a NaN = False"
| "num_lt a NegInf = False"
| "num_lt NegInf b = True"
| "num_lt PosInf b = False"
| "num_lt a PosInf = True"
| "num_lt (Fin a) (Fin b) = (a < b)"
| "num_lt NegZero (Fin b) = (0 < b)"
| "num_lt (Fin a) NegZero = (a < 0)"
| "num_lt NegZero NegZero = False"

text \<open>Strict equality \<open>===\<close>.\<close>

fun strict_eq :: "jsval \<Rightarrow> jsval \<Rightarrow> bool" where
  "strict_eq (JNum a) (JNum b) = num_eq a b"
| "strict_eq a b = (a = b)"

definition is_nullish :: "jsval \<Rightarrow> bool" where
  "is_nullish v \<longleftrightarrow> v = JUndef \<or> v = JNull"

fun truthy :: "jsval \<Rightarrow> bool" where
  "truthy JUndef = False"
| "truthy JNull = False"
| "truthy (JBool b) = b"
| "truthy (JNum n) = (n \<noteq> NaN \<and> n \<noteq> Fin 0 \<and> n \<noteq> NegZero)"
| "truthy (JStr s) = (s \<noteq> [])"
| "truthy (JRef r) = True"

definition is_nan :: "jsval \<Rightarrow> bool" where
  "is_nan v \<longleftrightarrow> v = JNum NaN"

lemma num_eq_sym: "num_eq a b = num_eq b a"
  by (cases a; cases b) auto

lemma num_eq_refl: "num_eq a a \<longleftrightarrow> a \<noteq> NaN"
  by (cases a) auto

lemma num_eq_trans: "num_eq a b \<Longrightarrow> num_eq b c \<Longrightarrow> num_eq a c"
  by (cases a; cases b; cases c) auto

lemma strict_eq_sym: "strict_eq a b = strict_eq b a"
  by (cases a; cases b) (auto simp: num_eq_sym)

lemma strict_eq_trans: "strict_eq a b \<Longrightarrow> strict_eq b c \<Longrightarrow> strict_eq a c"
  by (cases a; cases b; cases c) (auto intro: num_eq_trans)

lemma strict_eq_refl: "strict_eq a a \<longleftrightarrow> \<not> is_nan a"
  by (cases a) (auto simp: is_nan_def num_eq_refl)

lemma strict_eq_nan: "is_nan a \<Longrightarrow> \<not> strict_eq a b"
  by (cases b) (auto simp: is_nan_def)

section \<open>Arrays and strings\<close>

text \<open>A relative index of \<open>slice\<close>: negative counts from the end, clamped to the array.\<close>

definition rel_index :: "nat \<Rightarrow> int \<Rightarrow> nat" where
  "rel_index len i = (if i < 0 then nat (int len + i) else min (nat i) len)"

definition slice :: "'a list \<Rightarrow> int \<Rightarrow> int \<Rightarrow> 'a list" where
  "slice xs a b =
     (let s = rel_index (length xs) a; e = rel_index (length xs) b in take (e - s) (drop s xs))"

definition slice_from :: "'a list \<Rightarrow> int \<Rightarrow> 'a list" where
  "slice_from xs a = drop (rel_index (length xs) a) xs"

text \<open>\<open>substring\<close> clamps both positions and swaps them when they are out of order.\<close>

definition substring :: "'a list \<Rightarrow> int \<Rightarrow> int \<Rightarrow> 'a list" where
  "substring xs a b =
     (let p = min (nat a) (length xs); q = min (nat b) (length xs)
      in take (max p q - min p q) (drop (min p q) xs))"

definition substring_from :: "'a list \<Rightarrow> int \<Rightarrow> 'a list" where
  "substring_from xs a = drop (nat a) xs"

definition substr :: "'a list \<Rightarrow> int \<Rightarrow> int \<Rightarrow> 'a list" where
  "substr xs start len =
     take (nat len) (drop (if start < 0 then nat (int (length xs) + start) else nat start) xs)"

definition substr_from :: "'a list \<Rightarrow> int \<Rightarrow> 'a list" where
  "substr_from xs start =
     drop (if start < 0 then nat (int (length xs) + start) else nat start) xs"

fun is_prefix :: "'a list \<Rightarrow> 'a list \<Rightarrow> bool" where
  "is_prefix [] ys = True"
| "is_prefix (x # xs) [] = False"
| "is_prefix (x # xs) (y # ys) = (x = y \<and> is_prefix xs ys)"

fun find_sub :: "'a list \<Rightarrow> 'a list \<Rightarrow> nat option" where
  "find_sub pat [] = (if pat = [] then Some 0 else None)"
| "find_sub pat (x # xs) =
     (if is_prefix pat (x # xs) then Some 0 else map_option Suc (find_sub pat xs))"

definition str_index_of :: "'a list \<Rightarrow> 'a list \<Rightarrow> int" where
  "str_index_of hay pat = (case find_sub pat hay of None \<Rightarrow> -1 | Some i \<Rightarrow> int i)"

definition str_index_of_from :: "'a list \<Rightarrow> 'a list \<Rightarrow> nat \<Rightarrow> int" where
  "str_index_of_from hay pat k =
     (let k' = min k (length hay) in
      case find_sub pat (drop k' hay) of None \<Rightarrow> -1 | Some i \<Rightarrow> int (k' + i))"

definition last_index_of_char :: "'a list \<Rightarrow> 'a \<Rightarrow> int" where
  "last_index_of_char s c =
     (case first_pos (\<lambda>x. x = c) (rev s) of None \<Rightarrow> -1 | Some i \<Rightarrow> int (length s) - 1 - int i)"

text \<open>\<open>split\<close> at a one-character separator, and \<open>join\<close>.\<close>

fun split_char :: "'a \<Rightarrow> 'a list \<Rightarrow> 'a list list" where
  "split_char c [] = [[]]"
| "split_char c (x # xs) =
     (if x = c then [] # split_char c xs
      else case split_char c xs of [] \<Rightarrow> [[x]] | y # ys \<Rightarrow> (x # y) # ys)"

fun join :: "'a list \<Rightarrow> 'a list list \<Rightarrow> 'a list" where
  "join sep [] = []"
| "join sep [x] = x"
| "join sep (x # y # ys) = x @ sep @ join sep (y # ys)"

definition lower_char :: "char \<Rightarrow> char" where
  "lower_char c =
     (let n = of_char c :: nat in
      if 65 \<le> n \<and> n \<le> 90 \<or> 192 \<le> n \<and> n \<le> 222 \<and> n \<noteq> 215 then char_of (n + 32) else c)"

definition to_lower :: "string \<Rightarrow> string" where
  "to_lower s = map lower_char s"

text \<open>\<open>split\<close> at the runs of the characters that satisfy a test.\<close>

fun split_run :: "('a \<Rightarrow> bool) \<Rightarrow> bool \<Rightarrow> 'a list \<Rightarrow> 'a list \<Rightarrow> 'a list list" where
  "split_run P skip cur [] = [cur]"
| "split_run P skip cur (c # s) =
     (if P c then (if skip then split_run P True cur s else cur # split_run P True [] s)
      else split_run P False (cur @ [c]) s)"

text \<open>\<open>\s\<close> and \<open>$.trim\<close>.\<close>

definition is_space :: "char \<Rightarrow> bool" where
  "is_space c \<longleftrightarrow> (let n = of_char c :: nat in 9 \<le> n \<and> n \<le> 13 \<or> n = 32 \<or> n = 160)"

definition js_trim :: "string \<Rightarrow> string" where
  "js_trim s = rev (dropWhile is_space (rev (dropWhile is_space s)))"

definition is_digit :: "char \<Rightarrow> bool" where
  "is_digit c \<longleftrightarrow> 48 \<le> (of_char c :: nat) \<and> (of_char c :: nat) \<le> 57"

text \<open>Decimal conversion of natural numbers, and number to string.\<close>

definition digit_char :: "nat \<Rightarrow> char" where
  "digit_char d = char_of (48 + d)"

fun dec :: "nat \<Rightarrow> string" where
  "dec n = (if n < 10 then [digit_char n] else dec (n div 10) @ [digit_char (n mod 10)])"

declare dec.simps [simp del]

definition dec_value :: "string \<Rightarrow> nat" where
  "dec_value s = foldl (\<lambda>v c. 10 * v + (of_char c - 48)) 0 s"

definition dec_int :: "int \<Rightarrow> string" where
  "dec_int i = (if i < 0 then CHR ''-'' # dec (nat (- i)) else dec (nat i))"


subsection \<open>Facts\<close>

lemma is_prefix_prefix: "is_prefix xs ys \<longleftrightarrow> prefix xs ys"
  by (induction xs ys rule: is_prefix.induct) auto

lemma find_sub_Some:
  "find_sub p s = Some i \<longleftrightarrow>
     i \<le> length s \<and> prefix p (drop i s) \<and> (\<forall>k < i. \<not> prefix p (drop k s))"
proof (induction s arbitrary: i)
  case Nil
  then show ?case by auto
next
  case (Cons x xs)
  show ?case
  proof (cases i)
    case 0
    then show ?thesis by (auto simp: is_prefix_prefix)
  next
    case (Suc n)
    have "(\<forall>k < Suc n. \<not> prefix p (drop k (x # xs))) \<longleftrightarrow>
      \<not> prefix p (x # xs) \<and> (\<forall>k < n. \<not> prefix p (drop k xs))"
      by (auto simp: less_Suc_eq_0_disj)
    with Suc show ?thesis by (auto simp: is_prefix_prefix Cons.IH simp del: prefix_Cons)
  qed
qed

lemma find_sub_None: "find_sub p s = None \<longleftrightarrow> \<not> sublist p s"
proof (induction s)
  case Nil
  then show ?case by auto
next
  case (Cons x xs)
  then show ?case by (auto simp: is_prefix_prefix sublist_Cons_right)
qed

lemma str_index_of_found: "str_index_of s p > -1 \<longleftrightarrow> sublist p s"
proof (cases "find_sub p s")
  case None
  then show ?thesis using find_sub_None[of p s] by (simp add: str_index_of_def)
next
  case (Some i)
  then have "sublist p s" using find_sub_None[of p s] by auto
  with Some show ?thesis by (simp add: str_index_of_def)
qed

lemma str_index_of_nonneg: "0 \<le> str_index_of s p \<longleftrightarrow> sublist p s"
  using str_index_of_found[of s p] by linarith

lemma str_index_of_bounds: "-1 \<le> str_index_of s p \<and> str_index_of s p \<le> int (length s)"
  by (auto simp: str_index_of_def find_sub_Some split: option.splits)

lemma str_index_of_eqD:
  assumes "str_index_of s p = int i"
  shows "i \<le> length s" and "prefix p (drop i s)" and "k < i \<Longrightarrow> \<not> prefix p (drop k s)"
  using assms by (auto simp: str_index_of_def find_sub_Some split: option.splits)

lemma rel_index_le [simp]: "rel_index len i \<le> len"
  by (auto simp: rel_index_def)

lemma slice_nonneg:
  "0 \<le> a \<Longrightarrow> 0 \<le> b \<Longrightarrow> slice xs a b = take (nat b - nat a) (drop (nat a) xs)"
  by (cases "nat a \<le> length xs") (auto simp: slice_def rel_index_def Let_def min_def)

lemma slice_0: "0 \<le> b \<Longrightarrow> slice xs 0 b = take (nat b) xs"
  by (simp add: slice_nonneg)

lemma slice_from_nonneg: "0 \<le> a \<Longrightarrow> slice_from xs a = drop (nat a) xs"
  by (auto simp: slice_from_def rel_index_def min_def)

lemma split_char_neq_Nil [simp]: "split_char c s \<noteq> []"
  by (cases s) (auto split: list.splits)

lemma join_split_char: "join [c] (split_char c s) = s"
proof (induction s)
  case Nil
  then show ?case by simp
next
  case (Cons x xs)
  then show ?case
    by (cases "split_char c xs"; cases "tl (split_char c xs)") auto
qed

lemma split_char_no_sep: "p \<in> set (split_char c s) \<Longrightarrow> c \<notin> set p"
proof (induction s arbitrary: p)
  case Nil
  then show ?case by simp
next
  case (Cons x xs)
  then show ?case by (cases "split_char c xs") (auto split: if_splits)
qed

lemma split_char_absent: "c \<notin> set s \<Longrightarrow> split_char c s = [s]"
  by (induction s) auto

lemma split_char_append: "c \<notin> set p \<Longrightarrow> split_char c (p @ c # s) = p # split_char c s"
  by (induction p) auto

lemma split_char_join:
  "ps \<noteq> [] \<Longrightarrow> (\<And>p. p \<in> set ps \<Longrightarrow> c \<notin> set p) \<Longrightarrow> split_char c (join [c] ps) = ps"
  by (induction ps rule: induct_list012) (auto simp: split_char_absent split_char_append)

lemma lower_char_lower_char [simp]: "lower_char (lower_char c) = lower_char c"
proof -
  have "(of_char c :: nat) < 256" by (cases c) simp
  then show ?thesis
    by (auto simp: lower_char_def Let_def)
qed

lemma to_lower_to_lower [simp]: "to_lower (to_lower s) = to_lower s"
  by (simp add: to_lower_def)

lemma length_to_lower [simp]: "length (to_lower s) = length s"
  by (simp add: to_lower_def)

lemma dec_value_append: "dec_value (s @ [c]) = 10 * dec_value s + (of_char c - 48)"
  by (simp add: dec_value_def)

lemma of_char_digit_char: "d < 10 \<Longrightarrow> (of_char (digit_char d) :: nat) = 48 + d"
  by (simp add: digit_char_def)

lemma dec_value_dec [simp]: "dec_value (dec n) = n"
proof (induction n rule: dec.induct)
  case (1 n)
  show ?case
  proof (cases "n < 10")
    case True
    then show ?thesis
      by (simp add: dec.simps[of n] dec_value_def of_char_digit_char)
  next
    case False
    then show ?thesis
      using 1 by (simp add: dec.simps[of n] dec_value_append of_char_digit_char)
  qed
qed

lemma dec_inject [simp]: "dec m = dec n \<longleftrightarrow> m = n"
  by (metis dec_value_dec)

lemma is_digit_digit_char: "d < 10 \<Longrightarrow> is_digit (digit_char d)"
  by (simp add: is_digit_def of_char_digit_char)

lemma dec_digits: "c \<in> set (dec n) \<Longrightarrow> is_digit c"
proof (induction n arbitrary: c rule: dec.induct)
  case (1 n)
  show ?case
  proof (cases "n < 10")
    case True
    with 1 show ?thesis by (simp add: dec.simps[of n] is_digit_digit_char)
  next
    case False
    with 1 show ?thesis by (auto simp: dec.simps[of n] is_digit_digit_char)
  qed
qed

lemma dec_neq_Nil [simp]: "dec n \<noteq> []"
  by (subst dec.simps) simp

lemma lower_char_minus: "lower_char c = CHR ''-'' \<longleftrightarrow> c = CHR ''-''"
proof -
  have m: "(char_of n :: char) = CHR ''-'' \<Longrightarrow> n mod 256 = 45" for n :: nat
    proof -
    assume "(char_of n :: char) = CHR ''-''"
    then have "of_char (char_of n :: char) = (45 :: nat)" by simp
    then show "n mod 256 = 45" by simp
  qed
  then show ?thesis
    using m[of "of_char c + 32"]
    by (auto simp: lower_char_def Let_def mod_nat_eqI dest!: m split: if_splits)
qed

lemma split_run_word:
  "w \<noteq> [] \<Longrightarrow> list_all (\<lambda>c. \<not> P c) w \<Longrightarrow> split_run P skip cur (w @ s) = split_run P False (cur @ w) s"
proof (induction w arbitrary: skip cur)
  case (Cons c w)
  then show ?case using Cons.IH[of False "cur @ [c]"] by (cases w) auto
qed simp

lemma split_run_join:
  "P sep \<Longrightarrow> ws \<noteq> [] \<Longrightarrow> list_all (\<lambda>w. w \<noteq> [] \<and> list_all (\<lambda>c. \<not> P c) w) ws \<Longrightarrow>
     split_run P skip [] (join [sep] ws) = ws"
proof (induction ws arbitrary: skip rule: induct_list012)
  case (2 w)
  then show ?case using split_run_word[of w P skip "[]" "[]"] by simp
next
  case (3 w v ws)
  then show ?case using split_run_word[of w P skip "[]" "sep # join [sep] (v # ws)"] by simp
qed simp

lemma list_all_join:
  "list_all P sep \<Longrightarrow> list_all (list_all P) ws \<Longrightarrow> list_all P (join sep ws)"
  by (induction ws rule: induct_list012) auto

end
