(* ===== verification/JsObject.thy ===== *)
theory JsObject
  imports JsLib
begin

text \<open>
  A JavaScript object used as a dictionary: an association list in enumeration order.  Property
  keys that are array indices come first, in increasing order; the others follow in the order in
  which they were created.  The locale \<open>prop_store\<close> states what clients rely on.
\<close>

type_synonym 'v obj = "(string \<times> 'v) list"

definition is_index :: "string \<Rightarrow> bool" where
  "is_index k \<longleftrightarrow> k = dec (dec_value k) \<and> dec_value k < 4294967295"

definition key_before :: "string \<Rightarrow> string \<Rightarrow> bool" where
  "key_before k k' \<longleftrightarrow> is_index k \<and> (\<not> is_index k' \<or> dec_value k < dec_value k')"

definition has_key :: "'v obj \<Rightarrow> string \<Rightarrow> bool" where
  "has_key ob k \<longleftrightarrow> k \<in> set (map fst ob)"

abbreviation obj_keys :: "'v obj \<Rightarrow> string list" where
  "obj_keys ob \<equiv> map fst ob"

text \<open>Creating a property.\<close>

fun obj_create :: "string \<Rightarrow> 'v \<Rightarrow> 'v obj \<Rightarrow> 'v obj" where
  "obj_create k v [] = [(k, v)]"
| "obj_create k v ((k', v') # r) =
     (if key_before k k' then (k, v) # (k', v') # r else (k', v') # obj_create k v r)"

text \<open>Overwriting one keeps its place.\<close>

fun obj_overwrite :: "string \<Rightarrow> 'v \<Rightarrow> 'v obj \<Rightarrow> 'v obj" where
  "obj_overwrite k v [] = []"
| "obj_overwrite k v ((k', v') # r) =
     (if k = k' then (k, v) # r else (k', v') # obj_overwrite k v r)"

definition obj_put :: "'v obj \<Rightarrow> string \<Rightarrow> 'v \<Rightarrow> 'v obj" where
  "obj_put ob k v = (if has_key ob k then obj_overwrite k v ob else obj_create k v ob)"

definition obj_get :: "'v obj \<Rightarrow> string \<Rightarrow> 'v option" where
  "obj_get ob = map_of ob"

definition obj_delete :: "'v obj \<Rightarrow> string \<Rightarrow> 'v obj" where
  "obj_delete ob k = filter (\<lambda>p. fst p \<noteq> k) ob"

text \<open>Well-formed: no duplicate key, index keys first and in order.\<close>

definition obj_wf :: "'v obj \<Rightarrow> bool" where
  "obj_wf ob \<longleftrightarrow> distinct (obj_keys ob) \<and> sorted_wrt (\<lambda>k k'. \<not> key_before k' k) (obj_keys ob)"

lemma has_key_get: "has_key ob k \<longleftrightarrow> obj_get ob k \<noteq> None"
  by (simp add: has_key_def obj_get_def map_of_eq_None_iff)

lemma has_key_Nil [simp]: "\<not> has_key [] k"
  by (simp add: has_key_def)

lemma key_before_irrefl [simp]: "\<not> key_before k k"
  by (simp add: key_before_def)

lemma key_before_trans: "key_before a b \<Longrightarrow> \<not> key_before c b \<Longrightarrow> key_before a c"
  by (auto simp: key_before_def)

lemma is_index_inject: "is_index a \<Longrightarrow> is_index b \<Longrightarrow> dec_value a = dec_value b \<Longrightarrow> a = b"
  by (metis is_index_def)

lemma keys_create: "set (obj_keys (obj_create k v ob)) = insert k (set (obj_keys ob))"
  by (induction ob rule: obj_create.induct) auto

lemma keys_overwrite [simp]: "obj_keys (obj_overwrite k v ob) = obj_keys ob"
  by (induction ob rule: obj_overwrite.induct) auto

lemma get_create: "k \<notin> set (obj_keys ob) \<Longrightarrow> map_of (obj_create k v ob) = (map_of ob)(k \<mapsto> v)"
  by (induction ob rule: obj_create.induct) auto

lemma get_overwrite: "k \<in> set (obj_keys ob) \<Longrightarrow> map_of (obj_overwrite k v ob) = (map_of ob)(k \<mapsto> v)"
proof (induction ob rule: obj_overwrite.induct)
  case (2 k v k' v' r)
  show ?case
  proof (cases "k = k'")
    case False
    then have "k \<in> set (obj_keys r)" using 2(2) by simp
    then have "map_of (obj_overwrite k v r) = (map_of r)(k \<mapsto> v)" using 2(1) False by blast
    with False show ?thesis by (auto simp: fun_eq_iff)
  qed (auto simp: fun_eq_iff)
qed simp

lemma get_put [obj_simps]: "obj_get (obj_put ob k v) = (obj_get ob)(k \<mapsto> v)"
  by (auto simp: obj_get_def obj_put_def has_key_def get_create get_overwrite)

lemma get_empty [obj_simps]: "obj_get [] = Map.empty"
  by (auto simp: obj_get_def)

lemma map_of_filter_key: "map_of (filter (\<lambda>p. fst p \<noteq> k) ob) = (map_of ob)(k := None)"
  by (induction ob) auto

lemma get_delete [obj_simps]: "obj_get (obj_delete ob k) = (obj_get ob)(k := None)"
  by (simp add: obj_get_def obj_delete_def map_of_filter_key)

lemma keys_put [obj_simps]: "set (obj_keys (obj_put ob k v)) = insert k (set (obj_keys ob))"
  by (auto simp: obj_put_def has_key_def keys_create simp del: set_map)

lemma keys_delete [obj_simps]: "set (obj_keys (obj_delete ob k)) = set (obj_keys ob) - {k}"
  by (auto simp: obj_delete_def)

lemma has_key_put [obj_simps]: "has_key (obj_put ob k v) k' \<longleftrightarrow> k' = k \<or> has_key ob k'"
  by (simp add: has_key_def keys_put del: set_map)

lemma distinct_create:
  "distinct (obj_keys ob) \<Longrightarrow> k \<notin> set (obj_keys ob) \<Longrightarrow> distinct (obj_keys (obj_create k v ob))"
proof (induction ob rule: obj_create.induct)
  case (2 k v k' v' r)
  then show ?case using keys_create[of k v r] by auto
qed auto

lemma obj_wf_empty [simp, intro]: "obj_wf []"
  by (simp add: obj_wf_def)

lemma sorted_create:
  assumes "sorted_wrt (\<lambda>k k'. \<not> key_before k' k) (obj_keys ob)"
  shows "sorted_wrt (\<lambda>k k'. \<not> key_before k' k) (obj_keys (obj_create k v ob))"
  using assms
proof (induction ob rule: obj_create.induct)
  case (1 k v)
  then show ?case by simp
next
  case (2 k v k' v' r)
  show ?case
  proof (cases "key_before k k'")
    case True
    then have "\<not> key_before k' k" by (auto simp: key_before_def)
    moreover have "\<not> key_before x k" if "x \<in> set (obj_keys r)" for x
      using that 2(2) True key_before_trans[of x k k'] by (auto simp: key_before_def)
    ultimately show ?thesis using True 2(2) by auto
  next
    case False
    then have "sorted_wrt (\<lambda>k k'. \<not> key_before k' k) (obj_keys (obj_create k v r))"
      using 2 by simp
    moreover have "\<forall>x \<in> set (obj_keys (obj_create k v r)). \<not> key_before x k'"
      using False 2(2) by (simp only: keys_create) auto
    ultimately show ?thesis using False by simp
  qed
qed

lemma obj_wf_put [inv_intros]: "obj_wf ob \<Longrightarrow> obj_wf (obj_put ob k v)"
  by (simp add: obj_wf_def obj_put_def has_key_def distinct_create sorted_create del: set_map)

lemma obj_wf_delete [inv_intros]: "obj_wf ob \<Longrightarrow> obj_wf (obj_delete ob k)"
  unfolding obj_wf_def obj_delete_def
  by (induction ob) (auto simp: sorted_wrt_map)

text \<open>Creating a key that is not an index puts it last.\<close>

lemma create_not_index: "\<not> is_index k \<Longrightarrow> obj_create k v ob = ob @ [(k, v)]"
  by (induction ob rule: obj_create.induct) (auto simp: key_before_def)

lemma keys_put_new [obj_simps]:
  "\<not> has_key ob k \<Longrightarrow> \<not> is_index k \<Longrightarrow> obj_put ob k v = ob @ [(k, v)]"
  by (simp add: obj_put_def create_not_index)

section \<open>The interface clients rely on\<close>

locale prop_store =
  fixes put :: "'s \<Rightarrow> string \<Rightarrow> 'v \<Rightarrow> 's"
    and get :: "'s \<Rightarrow> string \<Rightarrow> 'v option"
    and del :: "'s \<Rightarrow> string \<Rightarrow> 's"
    and keys :: "'s \<Rightarrow> string list"
    and wf :: "'s \<Rightarrow> bool"
  assumes get_put: "get (put s k v) = (get s)(k \<mapsto> v)"
    and get_del: "get (del s k) = (get s)(k := None)"
    and keys_get: "set (keys s) = dom (get s)"
    and wf_put: "wf s \<Longrightarrow> wf (put s k v)"
    and wf_del: "wf s \<Longrightarrow> wf (del s k)"
    and wf_distinct: "wf s \<Longrightarrow> distinct (keys s)"
begin

text \<open>Writing a list of bindings, first to last: the later ones win.\<close>

definition puts :: "'s \<Rightarrow> (string \<times> 'v) list \<Rightarrow> 's" where
  "puts s kvs = fold (\<lambda>(k, v) s. put s k v) kvs s"

lemma puts_Nil: "puts s [] = s"
  by (simp add: puts_def)

lemma puts_Cons: "puts s ((k, v) # kvs) = puts (put s k v) kvs"
  by (simp add: puts_def)

lemma get_puts: "get (puts s kvs) = get s ++ map_of (rev kvs)"
  by (induction kvs arbitrary: s)
     (auto simp: puts_Nil puts_Cons get_put map_add_def fun_eq_iff split: option.splits)

lemma keys_puts: "set (keys (puts s kvs)) = set (keys s) \<union> fst ` set kvs"
  by (auto simp: keys_get get_puts dom_map_of_conv_image_fst)

lemma wf_puts: "wf s \<Longrightarrow> wf (puts s kvs)"
  by (induction kvs arbitrary: s) (auto simp: puts_Nil puts_Cons wf_put)

end

interpretation ob: prop_store obj_put obj_get obj_delete obj_keys obj_wf
proof unfold_locales
  show "obj_wf s \<Longrightarrow> distinct (obj_keys s)" for s :: "'a obj"
    by (simp add: obj_wf_def)
  show "set (obj_keys s) = dom (obj_get s)" for s :: "'a obj"
    by (simp add: obj_get_def dom_map_of_conv_image_fst)
qed (auto simp: obj_simps obj_wf_put obj_wf_delete)

end
