(* ===== verification/JsSort.thy ===== *)
theory JsSort
  imports JsLib
begin

text \<open>
  \<open>Array.prototype.sort\<close> with a comparison function.  The language promises a permutation of the
  array that is in order whenever the comparison is consistent; the locale \<open>comparison_sort\<close>
  states that promise, and what follows from it is proved for every sort that keeps it.
  \<open>array_sort\<close> (insertion sort) is the one the model runs.
\<close>

definition consistent :: "('a \<Rightarrow> 'a \<Rightarrow> int) \<Rightarrow> 'a set \<Rightarrow> bool" where
  "consistent cmp S \<longleftrightarrow>
     (\<forall>a \<in> S. \<forall>b \<in> S. cmp a b \<le> 0 \<or> cmp b a \<le> 0) \<and>
     (\<forall>a \<in> S. \<forall>b \<in> S. \<forall>c \<in> S. cmp a b \<le> 0 \<longrightarrow> cmp b c \<le> 0 \<longrightarrow> cmp a c \<le> 0)"

lemma consistent_subset: "consistent cmp S \<Longrightarrow> T \<subseteq> S \<Longrightarrow> consistent cmp T"
  unfolding consistent_def by (intro conjI ballI impI) (meson subsetD)+

lemma consistent_key:
  fixes key :: "'a \<Rightarrow> 'k::linorder"
  assumes "\<And>a b. a \<in> S \<Longrightarrow> b \<in> S \<Longrightarrow> cmp a b \<le> 0 \<longleftrightarrow> key a \<le> key b"
  shows "consistent cmp S"
  unfolding consistent_def
proof (intro conjI ballI impI)
  fix a b assume "a \<in> S" "b \<in> S"
  then show "cmp a b \<le> 0 \<or> cmp b a \<le> 0" using assms linear[of "key a" "key b"] by metis
next
  fix a b c assume S: "a \<in> S" "b \<in> S" "c \<in> S" and le: "cmp a b \<le> 0" "cmp b c \<le> 0"
  from S le have "key a \<le> key c" using assms order_trans[of "key a" "key b" "key c"] by metis
  with S show "cmp a c \<le> 0" using assms by metis
qed

fun insort_cmp :: "('a \<Rightarrow> 'a \<Rightarrow> int) \<Rightarrow> 'a \<Rightarrow> 'a list \<Rightarrow> 'a list" where
  "insort_cmp cmp x [] = [x]"
| "insort_cmp cmp x (y # ys) = (if cmp x y \<le> 0 then x # y # ys else y # insort_cmp cmp x ys)"

fun array_sort :: "('a \<Rightarrow> 'a \<Rightarrow> int) \<Rightarrow> 'a list \<Rightarrow> 'a list" where
  "array_sort cmp [] = []"
| "array_sort cmp (x # xs) = insort_cmp cmp x (array_sort cmp xs)"

lemma mset_insort_cmp [simp]: "mset (insort_cmp cmp x ys) = add_mset x (mset ys)"
  by (induction ys) auto

lemma mset_array_sort [simp]: "mset (array_sort cmp xs) = mset xs"
  by (induction xs) auto

lemma set_insort_cmp [simp]: "set (insort_cmp cmp x ys) = insert x (set ys)"
  by (induction ys) auto

lemma set_array_sort [simp]: "set (array_sort cmp xs) = set xs"
  by (induction xs) auto

lemma sorted_insort_cmp:
  assumes "sorted_wrt (\<lambda>a b. cmp a b \<le> 0) ys" and "consistent cmp (insert x (set ys))"
  shows "sorted_wrt (\<lambda>a b. cmp a b \<le> 0) (insort_cmp cmp x ys)"
  using assms
proof (induction ys)
  case Nil
  then show ?case by simp
next
  case (Cons y ys)
  have sub: "consistent cmp (insert x (set ys))"
    by (rule consistent_subset[OF Cons.prems(2)]) auto
  show ?case
  proof (cases "cmp x y \<le> 0")
    case True
    then have "cmp x z \<le> 0" if "z \<in> set ys" for z
      using that Cons.prems unfolding consistent_def by (auto; blast)
    with True Cons.prems show ?thesis by auto
  next
    case False
    then have "cmp y x \<le> 0" using Cons.prems(2) by (auto simp: consistent_def)
    with False Cons sub show ?thesis by auto
  qed
qed

lemma sorted_array_sort:
  "consistent cmp (set xs) \<Longrightarrow> sorted_wrt (\<lambda>a b. cmp a b \<le> 0) (array_sort cmp xs)"
proof (induction xs)
  case Nil
  then show ?case by simp
next
  case (Cons x xs)
  then have "consistent cmp (set xs)" by (auto elim: consistent_subset)
  with Cons show ?case by (auto intro: sorted_insort_cmp)
qed

text \<open>Two ordered permutations agree when only equal elements compare as equal.\<close>

lemma sorted_wrt_unique:
  assumes "mset xs = mset ys" "sorted_wrt R xs" "sorted_wrt R ys"
    and "\<And>a b. a \<in> set xs \<Longrightarrow> b \<in> set xs \<Longrightarrow> R a b \<Longrightarrow> R b a \<Longrightarrow> a = b"
  shows "xs = ys"
  using assms
proof (induction xs arbitrary: ys)
  case Nil
  then show ?case by simp
next
  case (Cons x xs)
  then obtain y ys' where ys: "ys = y # ys'" by (cases ys) auto
  have "x = y"
  proof (rule ccontr)
    assume ne: "x \<noteq> y"
    have eq: "set (x # xs) = set ys" using Cons.prems(1) mset_eq_setD by blast
    have "x \<in> set ys'" "y \<in> set xs" using eq ne ys by auto
    then show False using Cons.prems ne ys by auto
  qed
  moreover have "xs = ys'"
    using Cons.prems ys \<open>x = y\<close> by (intro Cons.IH) auto
  ultimately show ?case using ys by simp
qed

locale comparison_sort =
  fixes sort :: "('a \<Rightarrow> 'a \<Rightarrow> int) \<Rightarrow> 'a list \<Rightarrow> 'a list"
  assumes sort_mset: "mset (sort cmp xs) = mset xs"
    and sort_sorted: "consistent cmp (set xs) \<Longrightarrow> sorted_wrt (\<lambda>a b. cmp a b \<le> 0) (sort cmp xs)"
begin

lemma sort_set: "set (sort cmp xs) = set xs"
  by (metis sort_mset set_mset_mset)

lemma sort_length: "length (sort cmp xs) = length xs"
  by (metis sort_mset size_mset)

text \<open>
  With a total comparison the outcome does not depend on the sort: any ordered permutation is it.
\<close>

lemma sort_unique:
  assumes "consistent cmp (set xs)" "mset ys = mset xs" "sorted_wrt (\<lambda>a b. cmp a b \<le> 0) ys"
    and "\<And>a b. a \<in> set xs \<Longrightarrow> b \<in> set xs \<Longrightarrow> cmp a b \<le> 0 \<Longrightarrow> cmp b a \<le> 0 \<Longrightarrow> a = b"
  shows "sort cmp xs = ys"
  by (rule sorted_wrt_unique[where R = "\<lambda>a b. cmp a b \<le> 0"])
     (use assms in \<open>auto simp: sort_mset sort_sorted sort_set\<close>)

text \<open>The elements that pass a test come out in the order the sort gives them on their own.\<close>

lemma sort_filter:
  assumes "consistent cmp (set xs)"
    and "sorted_wrt (\<lambda>a b. cmp a b \<le> 0) (filter P xs)"
    and "\<And>a b. a \<in> set xs \<Longrightarrow> b \<in> set xs \<Longrightarrow> cmp a b \<le> 0 \<Longrightarrow> cmp b a \<le> 0 \<Longrightarrow> a = b"
  shows "filter P (sort cmp xs) = filter P xs"
proof (rule sorted_wrt_unique[where R = "\<lambda>a b. cmp a b \<le> 0"])
  show "mset (filter P (sort cmp xs)) = mset (filter P xs)"
    by (simp add: mset_filter sort_mset)
  show "sorted_wrt (\<lambda>a b. cmp a b \<le> 0) (filter P (sort cmp xs))"
    using assms(1) by (simp add: sort_sorted sorted_wrt_filter)
qed (use assms in \<open>auto simp: sort_set\<close>)

end

interpretation asort: comparison_sort array_sort
  by unfold_locales (auto simp: sorted_array_sort)

end
