(* ===== verification/UColl.thy ===== *)
theory UColl
  imports JsObject JsSort
begin

text \<open>
  Underscore's collection functions (\<open>underscore.js\<close>, "Collection Functions").  A collection is
  an array-like value or an object; the loops of the source run over its entries, the pairs of
  a key (the index or the property name) and a value.  Callbacks are functions of the value and
  the key; the ones that change state (the pushes of \<open>_.filter\<close>, \<open>_.partition\<close> and the
  group functions) pass it explicitly through \<open>each_u\<close>.  An absent result (\<open>undefined\<close>) is
  \<open>None\<close>.
\<close>

section \<open>Collections and the loops over them\<close>

datatype 'a coll = ArrayLike "'a list" | Object "'a obj"

datatype ckey = Idx nat | Prop string

definition MAX_ARRAY_INDEX :: int where
  "MAX_ARRAY_INDEX = 2 ^ 53 - 1"

text \<open>\<open>isArrayLike\<close> on the value of the \<open>length\<close> property.\<close>

fun isArrayLike_u :: "jsval \<Rightarrow> bool" where
  "isArrayLike_u (JNum (Fin n)) = (n \<ge> 0 \<and> n \<le> MAX_ARRAY_INDEX)"
| "isArrayLike_u (JNum NegZero) = True"
| "isArrayLike_u _ = False"

fun coll_entries :: "'a coll \<Rightarrow> (ckey \<times> 'a) list" where
  "coll_entries (ArrayLike xs) = map (\<lambda>(i, x). (Idx i, x)) (index_from 0 xs)"
| "coll_entries (Object ob) = map (\<lambda>(k, v). (Prop k, v)) ob"

fun coll_values :: "'a coll \<Rightarrow> 'a list" where
  "coll_values (ArrayLike xs) = xs"
| "coll_values (Object ob) = map snd ob"

lemma coll_values_entries: "coll_values c = map snd (coll_entries c)"
  by (cases c) (auto simp: comp_def case_prod_unfold)

fun each_loop :: "('a \<Rightarrow> ckey \<Rightarrow> 's \<Rightarrow> 's) \<Rightarrow> (ckey \<times> 'a) list \<Rightarrow> 's \<Rightarrow> 's" where
  "each_loop f [] s = s"
| "each_loop f ((k, v) # r) s = each_loop f r (f v k s)"

definition each_u :: "('a \<Rightarrow> ckey \<Rightarrow> 's \<Rightarrow> 's) \<Rightarrow> 'a coll \<Rightarrow> 's \<Rightarrow> 's" where
  "each_u iteratee ob s = each_loop iteratee (coll_entries ob) s"

definition map_u :: "('a \<Rightarrow> ckey \<Rightarrow> 'b) \<Rightarrow> 'a coll \<Rightarrow> 'b list" where
  "map_u iteratee ob = map (\<lambda>(k, v). iteratee v k) (coll_entries ob)"

datatype dir = Fwd | Bwd

fun dir_step :: "dir \<Rightarrow> int" where
  "dir_step Fwd = 1"
| "dir_step Bwd = -1"

function iterator_u ::
  "dir \<Rightarrow> ('b \<Rightarrow> 'a \<Rightarrow> ckey \<Rightarrow> 'b) \<Rightarrow> 'b \<Rightarrow> (ckey \<times> 'a) list \<Rightarrow> int \<Rightarrow> 'b" where
  "iterator_u dir iteratee memo es index =
     (if index \<ge> 0 \<and> index < int (length es)
      then iterator_u dir iteratee
             (iteratee memo (snd (es ! nat index)) (fst (es ! nat index))) es (index + dir_step dir)
      else memo)"
  by pat_completeness auto
termination
proof (relation "measure (\<lambda>(dir, f, memo, es, i).
    (case dir of Fwd \<Rightarrow> nat (int (length es) - i) | Bwd \<Rightarrow> nat (i + 1)))")
qed (auto split: dir.splits)

declare iterator_u.simps [simp del]

definition start_index :: "dir \<Rightarrow> nat \<Rightarrow> int" where
  "start_index dir len = (case dir of Fwd \<Rightarrow> 0 | Bwd \<Rightarrow> int len - 1)"

text \<open>\<open>createReduce(dir)\<close> called with an initial value, and without one.\<close>

definition createReduce :: "dir \<Rightarrow> 'a coll \<Rightarrow> ('b \<Rightarrow> 'a \<Rightarrow> ckey \<Rightarrow> 'b) \<Rightarrow> 'b \<Rightarrow> 'b" where
  "createReduce dir ob iteratee memo =
     (let es = coll_entries ob
      in iterator_u dir iteratee memo es (start_index dir (length es)))"

definition createReduce_first :: "dir \<Rightarrow> 'a coll \<Rightarrow> ('a \<Rightarrow> 'a \<Rightarrow> ckey \<Rightarrow> 'a) \<Rightarrow> 'a option" where
  "createReduce_first dir ob iteratee =
     (let es = coll_entries ob; i = start_index dir (length es)
      in if 0 \<le> i \<and> i < int (length es)
         then Some (iterator_u dir iteratee (snd (es ! nat i)) es (i + dir_step dir))
         else None)"

definition reduce_u :: "'a coll \<Rightarrow> ('b \<Rightarrow> 'a \<Rightarrow> ckey \<Rightarrow> 'b) \<Rightarrow> 'b \<Rightarrow> 'b" where
  "reduce_u = createReduce Fwd"

definition reduceRight_u :: "'a coll \<Rightarrow> ('b \<Rightarrow> 'a \<Rightarrow> ckey \<Rightarrow> 'b) \<Rightarrow> 'b \<Rightarrow> 'b" where
  "reduceRight_u = createReduce Bwd"

section \<open>Searching and filtering\<close>

function predicate_index_loop :: "dir \<Rightarrow> ('a \<Rightarrow> nat \<Rightarrow> bool) \<Rightarrow> 'a list \<Rightarrow> int \<Rightarrow> int" where
  "predicate_index_loop dir p xs index =
     (if index \<ge> 0 \<and> index < int (length xs)
      then if p (xs ! nat index) (nat index) then index
           else predicate_index_loop dir p xs (index + dir_step dir)
      else -1)"
  by pat_completeness auto
termination
proof (relation "measure (\<lambda>(dir, p, xs, i).
    (case dir of Fwd \<Rightarrow> nat (int (length xs) - i) | Bwd \<Rightarrow> nat (i + 1)))")
qed (auto split: dir.splits)

declare predicate_index_loop.simps [simp del]

definition createPredicateIndexFinder :: "dir \<Rightarrow> 'a list \<Rightarrow> ('a \<Rightarrow> nat \<Rightarrow> bool) \<Rightarrow> int" where
  "createPredicateIndexFinder dir xs p =
     predicate_index_loop dir p xs (start_index dir (length xs))"

definition findIndex_u :: "'a list \<Rightarrow> ('a \<Rightarrow> nat \<Rightarrow> bool) \<Rightarrow> int" where
  "findIndex_u = createPredicateIndexFinder Fwd"

definition findLastIndex_u :: "'a list \<Rightarrow> ('a \<Rightarrow> nat \<Rightarrow> bool) \<Rightarrow> int" where
  "findLastIndex_u = createPredicateIndexFinder Bwd"

fun findKey_u :: "'a obj \<Rightarrow> ('a \<Rightarrow> string \<Rightarrow> bool) \<Rightarrow> string option" where
  "findKey_u [] p = None"
| "findKey_u ((k, v) # r) p = (if p v k then Some k else findKey_u r p)"

fun find_u :: "'a coll \<Rightarrow> ('a \<Rightarrow> ckey \<Rightarrow> bool) \<Rightarrow> 'a option" where
  "find_u (ArrayLike xs) p =
     (let key = findIndex_u xs (\<lambda>x i. p x (Idx i)) in if key \<noteq> -1 then Some (xs ! nat key) else None)"
| "find_u (Object ob) p =
     (case findKey_u ob (\<lambda>x k. p x (Prop k)) of None \<Rightarrow> None | Some key \<Rightarrow> obj_get ob key)"

definition filter_u :: "'a coll \<Rightarrow> ('a \<Rightarrow> ckey \<Rightarrow> bool) \<Rightarrow> 'a list" where
  "filter_u ob p = each_u (\<lambda>v k results. if p v k then results @ [v] else results) ob []"

definition negate_u :: "('a \<Rightarrow> 'b \<Rightarrow> bool) \<Rightarrow> 'a \<Rightarrow> 'b \<Rightarrow> bool" where
  "negate_u p = (\<lambda>a b. \<not> p a b)"

definition reject_u :: "'a coll \<Rightarrow> ('a \<Rightarrow> ckey \<Rightarrow> bool) \<Rightarrow> 'a list" where
  "reject_u ob p = filter_u ob (negate_u p)"

fun every_loop :: "('a \<Rightarrow> ckey \<Rightarrow> bool) \<Rightarrow> (ckey \<times> 'a) list \<Rightarrow> bool" where
  "every_loop p [] = True"
| "every_loop p ((k, v) # r) = (if \<not> p v k then False else every_loop p r)"

definition every_u :: "'a coll \<Rightarrow> ('a \<Rightarrow> ckey \<Rightarrow> bool) \<Rightarrow> bool" where
  "every_u ob p = every_loop p (coll_entries ob)"

fun some_loop :: "('a \<Rightarrow> ckey \<Rightarrow> bool) \<Rightarrow> (ckey \<times> 'a) list \<Rightarrow> bool" where
  "some_loop p [] = False"
| "some_loop p ((k, v) # r) = (if p v k then True else some_loop p r)"

definition some_u :: "'a coll \<Rightarrow> ('a \<Rightarrow> ckey \<Rightarrow> bool) \<Rightarrow> bool" where
  "some_u ob p = some_loop p (coll_entries ob)"

definition partition_u :: "'a coll \<Rightarrow> ('a \<Rightarrow> ckey \<Rightarrow> bool) \<Rightarrow> 'a list \<times> 'a list" where
  "partition_u ob p =
     each_u (\<lambda>v k (pass, fail). if p v k then (pass @ [v], fail) else (pass, fail @ [v])) ob ([], [])"

definition toArray_u :: "'a coll option \<Rightarrow> 'a list" where
  "toArray_u ob = (case ob of None \<Rightarrow> []
     | Some (ArrayLike xs) \<Rightarrow> map_u (\<lambda>v k. v) (ArrayLike xs)
     | Some c \<Rightarrow> coll_values c)"

definition size_u :: "'a coll option \<Rightarrow> nat" where
  "size_u ob = (case ob of None \<Rightarrow> 0
     | Some (ArrayLike xs) \<Rightarrow> length xs
     | Some (Object o') \<Rightarrow> length (obj_keys o'))"

section \<open>Extrema\<close>

fun max_plain_loop :: "jsnum \<Rightarrow> jsnum list \<Rightarrow> jsnum" where
  "max_plain_loop result [] = result"
| "max_plain_loop result (v # r) = max_plain_loop (if num_lt result v then v else result) r"

fun max_by_step :: "(jsval \<Rightarrow> ckey \<Rightarrow> jsnum) \<Rightarrow> jsval \<Rightarrow> ckey \<Rightarrow> jsval \<times> jsnum \<Rightarrow> jsval \<times> jsnum" where
  "max_by_step f v k (result, lastComputed) =
     (let computed = f v k in
      if num_lt lastComputed computed \<or> computed = NegInf \<and> strict_eq result (JNum NegInf)
      then (v, computed) else (result, lastComputed))"

definition max_u :: "jsnum coll \<Rightarrow> jsnum" where
  "max_u ob = max_plain_loop NegInf (coll_values ob)"

definition max_by_u :: "jsval coll \<Rightarrow> (jsval \<Rightarrow> ckey \<Rightarrow> jsnum) \<Rightarrow> jsval" where
  "max_by_u ob f = fst (each_u (max_by_step f) ob (JNum NegInf, NegInf))"

fun min_plain_loop :: "jsnum \<Rightarrow> jsnum list \<Rightarrow> jsnum" where
  "min_plain_loop result [] = result"
| "min_plain_loop result (v # r) = min_plain_loop (if num_lt v result then v else result) r"

fun min_by_step :: "(jsval \<Rightarrow> ckey \<Rightarrow> jsnum) \<Rightarrow> jsval \<Rightarrow> ckey \<Rightarrow> jsval \<times> jsnum \<Rightarrow> jsval \<times> jsnum" where
  "min_by_step f v k (result, lastComputed) =
     (let computed = f v k in
      if num_lt computed lastComputed \<or> computed = PosInf \<and> strict_eq result (JNum PosInf)
      then (v, computed) else (result, lastComputed))"

definition min_u :: "jsnum coll \<Rightarrow> jsnum" where
  "min_u ob = min_plain_loop PosInf (coll_values ob)"

definition min_by_u :: "jsval coll \<Rightarrow> (jsval \<Rightarrow> ckey \<Rightarrow> jsnum) \<Rightarrow> jsval" where
  "min_by_u ob f = fst (each_u (min_by_step f) ob (JNum PosInf, PosInf))"

section \<open>Random order\<close>

text \<open>
  \<open>Math.random()\<close> returns \<open>k / 2 ^ 53\<close> for a \<open>k < 2 ^ 53\<close>, which the environment chooses: \<open>k\<close> is
  an argument.
\<close>

definition random_u :: "int \<Rightarrow> int \<Rightarrow> nat \<Rightarrow> int" where
  "random_u mn mx k = mn + (int k * (mx - mn + 1)) div 2 ^ 53"

definition random1_u :: "int \<Rightarrow> nat \<Rightarrow> int" where
  "random1_u mx k = random_u 0 mx k"

text \<open>\<open>Array(length)\<close> has holes: a cell of the array is an \<open>option\<close>. \<open>draws ! i\<close> is the outcome of
  the \<open>i\<close>-th call of \<open>Math.random\<close>.\<close>

fun shuffle_loop :: "(nat \<Rightarrow> nat) \<Rightarrow> nat \<Rightarrow> 'a list \<Rightarrow> 'a option list \<Rightarrow> 'a option list" where
  "shuffle_loop draws index [] shuffled = shuffled"
| "shuffle_loop draws index (x # r) shuffled =
     (let rand = nat (random_u 0 (int index) (draws index));
          s1 = (if rand \<noteq> index then shuffled[index := shuffled ! rand] else shuffled)
      in shuffle_loop draws (Suc index) r (s1[rand := Some x]))"

definition shuffle_u :: "'a coll \<Rightarrow> (nat \<Rightarrow> nat) \<Rightarrow> 'a option list" where
  "shuffle_u ob draws =
     (let set = coll_values ob
      in shuffle_loop draws 0 set (replicate (length set) None))"

definition sample_one_u :: "'a coll \<Rightarrow> nat \<Rightarrow> 'a option" where
  "sample_one_u ob k =
     (let xs = coll_values ob; i = random1_u (int (length xs) - 1) k
      in if 0 \<le> i \<and> i < int (length xs) then Some (xs ! nat i) else None)"

definition sample_u :: "'a coll \<Rightarrow> int \<Rightarrow> (nat \<Rightarrow> nat) \<Rightarrow> 'a option list" where
  "sample_u ob n draws = slice (shuffle_u ob draws) 0 (max 0 n)"

section \<open>Sorting by a criterion\<close>

text \<open>
  The records \<open>_.sortBy\<close> sorts; \<open>None\<close> is a criterion that is \<open>undefined\<close>.  The other criteria are
  the values of a linear order (numbers other than \<open>NaN\<close>, or strings).
\<close>

record ('a, 'k) sort_item =
  si_value :: 'a
  si_index :: ckey
  si_criteria :: "'k option"

fun js_gt :: "'k::linorder option \<Rightarrow> 'k option \<Rightarrow> bool" where
  "js_gt (Some a) (Some b) = (a > b)"
| "js_gt _ _ = False"

text \<open>
  \<open>left.index - right.index\<close>.  The indices of an array-like value are numbers.  Those of an object
  are its property names: the difference is \<open>NaN\<close>, which the sort reads as 0, unless both are the
  numerals of array indices.
\<close>

fun key_number :: "ckey \<Rightarrow> int option" where
  "key_number (Idx i) = Some (int i)"
| "key_number (Prop s) = (if is_index s then Some (int (dec_value s)) else None)"

definition index_diff :: "ckey \<Rightarrow> ckey \<Rightarrow> int" where
  "index_diff left right =
     (case (key_number left, key_number right) of (Some i, Some j) \<Rightarrow> i - j | _ \<Rightarrow> 0)"

definition sortBy_cmp :: "('a, 'k::linorder) sort_item \<Rightarrow> ('a, 'k) sort_item \<Rightarrow> int" where
  "sortBy_cmp left right =
     (let a = si_criteria left; b = si_criteria right in
      if a \<noteq> b \<and> (js_gt a b \<or> a = None) then 1
      else if a \<noteq> b \<and> (js_gt b a \<or> b = None) then -1
      else index_diff (si_index left) (si_index right))"

definition sortBy_items :: "'a coll \<Rightarrow> ('a \<Rightarrow> ckey \<Rightarrow> 'k option) \<Rightarrow> ('a, 'k) sort_item list" where
  "sortBy_items ob iteratee =
     map_u (\<lambda>value index. \<lparr>si_value = value, si_index = index, si_criteria = iteratee value index\<rparr>) ob"

text \<open>
  The sort of the engine is an argument: the language does not promise that it is stable.
\<close>

definition sortBy_u ::
  "((('a, 'k::linorder) sort_item \<Rightarrow> ('a, 'k) sort_item \<Rightarrow> int) \<Rightarrow>
     ('a, 'k) sort_item list \<Rightarrow> ('a, 'k) sort_item list) \<Rightarrow>
   'a coll \<Rightarrow> ('a \<Rightarrow> ckey \<Rightarrow> 'k option) \<Rightarrow> 'a list" where
  "sortBy_u sort_fn ob iteratee = map si_value (sort_fn sortBy_cmp (sortBy_items ob iteratee))"

section \<open>Aggregation\<close>

definition group_u :: "('r obj \<Rightarrow> 'a \<Rightarrow> string \<Rightarrow> 'r obj) \<Rightarrow> 'a coll \<Rightarrow> ('a \<Rightarrow> ckey \<Rightarrow> string) \<Rightarrow> 'r obj" where
  "group_u behavior ob f = each_u (\<lambda>v k result. behavior result v (f v k)) ob []"

definition groupBy_behavior :: "'a list obj \<Rightarrow> 'a \<Rightarrow> string \<Rightarrow> 'a list obj" where
  "groupBy_behavior result v key =
     (case obj_get result key of
        Some vs \<Rightarrow> obj_put result key (vs @ [v])
      | None \<Rightarrow> obj_put result key [v])"

definition indexBy_behavior :: "'a obj \<Rightarrow> 'a \<Rightarrow> string \<Rightarrow> 'a obj" where
  "indexBy_behavior result v key = obj_put result key v"

definition countBy_behavior :: "nat obj \<Rightarrow> 'a \<Rightarrow> string \<Rightarrow> nat obj" where
  "countBy_behavior result v key =
     (case obj_get result key of
        Some n \<Rightarrow> obj_put result key (Suc n)
      | None \<Rightarrow> obj_put result key 1)"

definition groupBy_u :: "'a coll \<Rightarrow> ('a \<Rightarrow> ckey \<Rightarrow> string) \<Rightarrow> 'a list obj" where
  "groupBy_u = group_u groupBy_behavior"

definition indexBy_u :: "'a coll \<Rightarrow> ('a \<Rightarrow> ckey \<Rightarrow> string) \<Rightarrow> 'a obj" where
  "indexBy_u = group_u indexBy_behavior"

definition countBy_u :: "'a coll \<Rightarrow> ('a \<Rightarrow> ckey \<Rightarrow> string) \<Rightarrow> nat obj" where
  "countBy_u = group_u countBy_behavior"

section \<open>Loop lemmas\<close>

lemma each_loop_fold: "each_loop f es s = fold (\<lambda>(k, v). f v k) es s"
  by (induction f es s rule: each_loop.induct) auto

lemma each_loop_append: "each_loop f (es @ fs) s = each_loop f fs (each_loop f es s)"
  by (simp add: each_loop_fold)

lemma filter_u_eq: "filter_u c p = map snd (filter (\<lambda>(k, v). p v k) (coll_entries c))"
proof -
  have "each_loop (\<lambda>v k results. if p v k then results @ [v] else results) es acc =
    acc @ map snd (filter (\<lambda>(k, v). p v k) es)" for es acc
    by (induction es arbitrary: acc) auto
  then show ?thesis by (simp add: filter_u_def each_u_def)
qed

lemma partition_u_eq:
  "partition_u c p = (map snd (filter (\<lambda>(k, v). p v k) (coll_entries c)),
                      map snd (filter (\<lambda>(k, v). \<not> p v k) (coll_entries c)))"
proof -
  have "each_loop (\<lambda>v k (pass, fail). if p v k then (pass @ [v], fail) else (pass, fail @ [v])) es (a, b) =
    (a @ map snd (filter (\<lambda>(k, v). p v k) es), b @ map snd (filter (\<lambda>(k, v). \<not> p v k) es))" for es a b
    by (induction es arbitrary: a b) auto
  then show ?thesis by (simp add: partition_u_def each_u_def)
qed

lemma every_loop_iff: "every_loop p es \<longleftrightarrow> (\<forall>(k, v) \<in> set es. p v k)"
  by (induction p es rule: every_loop.induct) auto

lemma some_loop_iff: "some_loop p es \<longleftrightarrow> (\<exists>(k, v) \<in> set es. p v k)"
  by (induction p es rule: some_loop.induct) auto

lemma iterator_Fwd:
  "i \<le> length es \<Longrightarrow> iterator_u Fwd f memo es (int i) = foldl (\<lambda>m (k, v). f m v k) memo (drop i es)"
proof (induction "length es - i" arbitrary: i memo)
  case 0
  then show ?case by (simp add: iterator_u.simps)
next
  case (Suc n)
  then have lt: "i < length es" by simp
  have "iterator_u Fwd f memo es (int i) =
      iterator_u Fwd f (f memo (snd (es ! i)) (fst (es ! i))) es (int (Suc i))"
    using lt by (subst iterator_u.simps) (simp add: add.commute)
  also have "\<dots> = foldl (\<lambda>m (k, v). f m v k) (f memo (snd (es ! i)) (fst (es ! i))) (drop (Suc i) es)"
    using Suc lt by (intro Suc.hyps) auto
  also have "\<dots> = foldl (\<lambda>m (k, v). f m v k) memo (drop i es)"
    using lt by (simp add: Cons_nth_drop_Suc[symmetric] case_prod_unfold)
  finally show ?case .
qed

lemma iterator_Bwd:
  "i < length es \<Longrightarrow>
   iterator_u Bwd f memo es (int i) = foldl (\<lambda>m (k, v). f m v k) memo (rev (take (Suc i) es))"
proof (induction i arbitrary: memo)
  case 0
  then show ?case
    by (subst iterator_u.simps) (simp add: iterator_u.simps take_Suc_conv_app_nth case_prod_unfold)
next
  case (Suc n)
  have "iterator_u Bwd f memo es (int (Suc n)) =
      iterator_u Bwd f (f memo (snd (es ! Suc n)) (fst (es ! Suc n))) es (int n)"
    using Suc.prems by (subst iterator_u.simps) (simp add: nat_add_distrib)
  also have "\<dots> = foldl (\<lambda>m (k, v). f m v k) memo (rev (take (Suc (Suc n)) es))"
    using Suc by (simp add: take_Suc_conv_app_nth[of "Suc n"] case_prod_unfold)
  finally show ?case .
qed

lemma iterator_Bwd_out: "iterator_u Bwd f memo es (-1) = memo"
  by (subst iterator_u.simps) simp

lemma createReduce_eq:
  "createReduce dir c f memo =
     foldl (\<lambda>m (k, v). f m v k) memo
       (case dir of Fwd \<Rightarrow> coll_entries c | Bwd \<Rightarrow> rev (coll_entries c))"
proof (cases dir)
  case Fwd
  then show ?thesis
    using iterator_Fwd[of 0 "coll_entries c" f memo] by (simp add: createReduce_def start_index_def)
next
  case Bwd
  show ?thesis
  proof (cases "coll_entries c")
    case Nil
    with Bwd show ?thesis by (simp add: createReduce_def start_index_def iterator_Bwd_out)
  next
    case (Cons e es)
    then have "length (coll_entries c) - 1 < length (coll_entries c)" by simp
    from iterator_Bwd[OF this, of f memo] Bwd Cons show ?thesis
      by (simp add: createReduce_def start_index_def of_nat_diff)
  qed
qed

section \<open>Shuffling\<close>

lemma random_bounds:
  assumes "k < 2 ^ 53" "mn \<le> mx"
  shows "mn \<le> random_u mn mx k" and "random_u mn mx k \<le> mx"
proof -
  let ?w = "mx - mn + 1"
  have "0 \<le> int k * ?w" using assms by simp
  then show "mn \<le> random_u mn mx k" by (simp add: random_u_def)
  have "int k < 2 ^ 53" using assms(1) by simp
  then have "int k * ?w < 2 ^ 53 * ?w" using assms(2) by (intro mult_strict_right_mono) auto
  then have "(int k * ?w) div 2 ^ 53 < ?w"
    by (intro div_less_pos) (simp_all add: mult.commute)
  then show "random_u mn mx k \<le> mx" by (simp add: random_u_def)
qed

text \<open>The invariant of the loop: the cells before \<open>index\<close> hold the values seen so far.\<close>

definition shuffle_inv :: "'a list \<Rightarrow> nat \<Rightarrow> 'a option list \<Rightarrow> bool" where
  "shuffle_inv seen len sh \<longleftrightarrow> length sh = len \<and> length seen \<le> len \<and>
     mset (take (length seen) sh) = mset (map Some seen)"

lemma mset_take_swap:
  assumes "r \<le> n" "n < length sh"
  shows "mset (take (Suc n) ((if r \<noteq> n then sh[n := sh ! r] else sh)[r := y])) =
         add_mset y (mset (take n sh))"
proof (cases "r = n")
  case True
  then show ?thesis using assms by (simp add: take_Suc_conv_app_nth)
next
  case False
  then have lt: "r < n" using assms by simp
  then have "take (Suc n) (sh[n := sh ! r, r := y]) = (take n sh)[r := y] @ [sh ! r]"
    using assms
    by (simp add: take_Suc_conv_app_nth take_update_swap list_update_append)
  moreover have "add_mset (sh ! r) (mset ((take n sh)[r := y])) = add_mset y (mset (take n sh))"
  proof -
    have r: "r < length (take n sh)" "take n sh ! r = sh ! r" using lt assms by auto
    then have "sh ! r \<in># mset (take n sh)" by (metis nth_mem set_mset_mset)
    then show ?thesis using r by (simp add: mset_update)
  qed
  ultimately show ?thesis using False by simp
qed

lemma shuffle_loop_inv:
  assumes "\<And>i. draws i < 2 ^ 53" "shuffle_inv seen (length seen + length r) sh"
  shows "shuffle_inv (seen @ r) (length seen + length r) (shuffle_loop draws (length seen) r sh)"
  using assms(2)
proof (induction r arbitrary: seen sh)
  case Nil
  then show ?case by (auto simp: shuffle_inv_def)
next
  case (Cons x r)
  let ?n = "length seen"
  define rand where "rand = nat (random_u 0 (int ?n) (draws ?n))"
  have le: "rand \<le> ?n"
    using random_bounds(2)[OF assms(1), of 0 "int ?n" ?n] by (simp add: rand_def)
  define s1 where "s1 = (if rand \<noteq> ?n then sh[?n := sh ! rand] else sh)"
  have "shuffle_inv (seen @ [x]) (length (seen @ [x]) + length r) (s1[rand := Some x])"
    using Cons.prems mset_take_swap[OF le, of sh "Some x"]
    by (auto simp: shuffle_inv_def s1_def)
  from Cons.IH[OF this] show ?case
    by (simp add: Let_def s1_def flip: rand_def)
qed

text \<open>
  \<open>_.shuffle\<close> returns a permutation of the collection's values, with no hole left, whatever
  \<open>Math.random\<close> returns.
\<close>
theorem shuffle_permutes:
  assumes "\<And>i. draws i < 2 ^ 53"
  shows "mset (shuffle_u c draws) = mset (map Some (coll_values c))"
proof -
  have "shuffle_inv [] (length ([] :: 'a list) + length (coll_values c))
      (replicate (length (coll_values c)) None)"
    by (simp add: shuffle_inv_def)
  from shuffle_loop_inv[of draws, OF assms this] show ?thesis
    by (auto simp: shuffle_inv_def shuffle_u_def Let_def)
qed

theorem shuffle_permutes_witness:
  "mset (shuffle_u (ArrayLike [1, 2, 3 :: int]) (\<lambda>_. 5000000000000000)) = {#Some 1, Some 2, Some 3#}"
  using shuffle_permutes[of "\<lambda>_. 5000000000000000" "ArrayLike [1, 2, 3 :: int]"] by simp

section \<open>\<open>_.sortBy\<close>\<close>

text \<open>The order on criteria: \<open>undefined\<close> is after everything else.\<close>

fun crit_le :: "'k::linorder option \<Rightarrow> 'k option \<Rightarrow> bool" where
  "crit_le a None = True"
| "crit_le None (Some b) = False"
| "crit_le (Some a) (Some b) = (a \<le> b)"

lemma crit_le_refl [simp]: "crit_le a a"
  by (cases a) auto

lemma crit_le_linear: "crit_le a b \<or> crit_le b a"
  by (cases a; cases b) auto

lemma crit_le_trans: "crit_le a b \<Longrightarrow> crit_le b c \<Longrightarrow> crit_le a c"
  by (cases a; cases b; cases c) auto

lemma crit_le_antisym: "crit_le a b \<Longrightarrow> crit_le b a \<Longrightarrow> a = b"
  by (cases a; cases b) auto

text \<open>
  The comparison is an order by the criteria and then by the index, where the indices are those of an
  array, and by the criteria alone, where they are names that are no numerals.
\<close>

fun key_index :: "ckey \<Rightarrow> nat" where
  "key_index (Idx i) = i"
| "key_index (Prop s) = 0"

fun named :: "ckey \<Rightarrow> bool" where
  "named (Idx i) = False"
| "named (Prop s) = (\<not> is_index s)"

definition uniform_keys :: "ckey set \<Rightarrow> bool" where
  "uniform_keys ks \<longleftrightarrow> ks \<subseteq> range Idx \<or> (\<forall>k \<in> ks. named k)"

lemma index_diff_uniform:
  "uniform_keys ks \<Longrightarrow> k \<in> ks \<Longrightarrow> l \<in> ks \<Longrightarrow> index_diff k l = int (key_index k) - int (key_index l)"
  by (cases k; cases l) (auto simp: uniform_keys_def index_diff_def)

lemma sortBy_cmp_le:
  assumes "uniform_keys ks" "si_index l \<in> ks" "si_index r \<in> ks"
  shows "sortBy_cmp l r \<le> 0 \<longleftrightarrow>
     si_criteria l \<noteq> si_criteria r \<and> crit_le (si_criteria l) (si_criteria r) \<or>
     si_criteria l = si_criteria r \<and> key_index (si_index l) \<le> key_index (si_index r)"
  using index_diff_uniform[OF assms]
  by (cases "si_criteria l"; cases "si_criteria r") (auto simp: sortBy_cmp_def Let_def)

lemma consistent_sortBy:
  assumes "uniform_keys (si_index ` S)"
  shows "consistent sortBy_cmp S"
proof -
  note le = sortBy_cmp_le[OF assms imageI imageI]
  show ?thesis
    unfolding consistent_def
  proof (intro conjI ballI impI)
    fix a b :: "('a, 'b) sort_item"
    assume "a \<in> S" "b \<in> S"
    then show "sortBy_cmp a b \<le> 0 \<or> sortBy_cmp b a \<le> 0"
      unfolding le[OF \<open>a \<in> S\<close> \<open>b \<in> S\<close>] le[OF \<open>b \<in> S\<close> \<open>a \<in> S\<close>] by (metis crit_le_linear linear)
  next
    fix a b c :: "('a, 'b) sort_item"
    assume S: "a \<in> S" "b \<in> S" "c \<in> S" and "sortBy_cmp a b \<le> 0" "sortBy_cmp b c \<le> 0"
    then have ab: "si_criteria a \<noteq> si_criteria b \<and> crit_le (si_criteria a) (si_criteria b) \<or>
        si_criteria a = si_criteria b \<and> key_index (si_index a) \<le> key_index (si_index b)"
      and bc: "si_criteria b \<noteq> si_criteria c \<and> crit_le (si_criteria b) (si_criteria c) \<or>
        si_criteria b = si_criteria c \<and> key_index (si_index b) \<le> key_index (si_index c)"
      using le[OF S(1,2)] le[OF S(2,3)] by blast+
    then have crit: "crit_le (si_criteria a) (si_criteria b)" "crit_le (si_criteria b) (si_criteria c)"
      by auto
    then have ac: "crit_le (si_criteria a) (si_criteria c)" by (rule crit_le_trans)
    have "si_criteria a = si_criteria c \<Longrightarrow> key_index (si_index a) \<le> key_index (si_index c)"
      using crit ab bc crit_le_antisym[of "si_criteria a" "si_criteria b"] by auto
    with ac show "sortBy_cmp a c \<le> 0" unfolding le[OF S(1,3)] by blast
  qed
qed

abbreviation item_entry :: "('a, 'k) sort_item \<Rightarrow> ckey \<times> 'a" where
  "item_entry it \<equiv> (si_index it, si_value it)"

lemma sortBy_items_entries: "map item_entry (sortBy_items ob f) = coll_entries ob"
  by (simp add: sortBy_items_def map_u_def comp_def case_prod_unfold)

lemma sortBy_items_keys: "si_index ` set (sortBy_items ob f) = fst ` set (coll_entries ob)"
  by (force simp: sortBy_items_def map_u_def)

lemma sortBy_items_criteria:
  "it \<in> set (sortBy_items ob f) \<Longrightarrow> si_criteria it = f (si_value it) (si_index it)"
  by (auto simp: sortBy_items_def map_u_def)

lemma filter_entries_criteria:
  assumes "set its \<subseteq> set (sortBy_items ob f)"
  shows "filter (\<lambda>(k, v). f v k = c) (map item_entry its) =
    map item_entry (filter (\<lambda>it. si_criteria it = c) its)"
  using assms by (induction its) (auto dest: sortBy_items_criteria)

lemma array_keys: "uniform_keys (fst ` set (coll_entries (ArrayLike xs)))"
  by (auto simp: uniform_keys_def)

lemma array_item:
  "it \<in> set (sortBy_items (ArrayLike xs) f) \<Longrightarrow>
   \<exists>i < length xs. it = \<lparr>si_value = xs ! i, si_index = Idx i, si_criteria = f (xs ! i) (Idx i)\<rparr>"
  by (auto simp: sortBy_items_def map_u_def in_set_conv_nth)

lemma sortBy_total:
  assumes "a \<in> set (sortBy_items (ArrayLike xs) f)" "b \<in> set (sortBy_items (ArrayLike xs) f)"
    and "sortBy_cmp a b \<le> 0" "sortBy_cmp b a \<le> 0"
  shows "a = b"
proof -
  have k: "uniform_keys (si_index ` set (sortBy_items (ArrayLike xs) f))"
    unfolding sortBy_items_keys by (rule array_keys)
  note le = sortBy_cmp_le[OF k imageI imageI]
  have "si_criteria a = si_criteria b"
    using assms(3,4) unfolding le[OF assms(1,2)] le[OF assms(2,1)] by (metis crit_le_antisym)
  then have "key_index (si_index a) = key_index (si_index b)"
    using assms(3,4) unfolding le[OF assms(1,2)] le[OF assms(2,1)] by (metis order_antisym)
  then show ?thesis using array_item[OF assms(1)] array_item[OF assms(2)] by auto
qed

lemma sorted_items_same_criteria:
  "sorted_wrt (\<lambda>a b. sortBy_cmp a b \<le> 0)
     (filter (\<lambda>it. si_criteria it = c) (sortBy_items (ArrayLike xs) f))"
proof -
  let ?its = "sortBy_items (ArrayLike xs) f"
  have k: "uniform_keys (si_index ` set ?its)" unfolding sortBy_items_keys by (rule array_keys)
  have "sorted_wrt (\<lambda>a b. key_index (si_index a) \<le> key_index (si_index b)) ?its"
    by (auto simp: sortBy_items_def map_u_def sorted_wrt_iff_nth_less)
  then have "sorted_wrt (\<lambda>a b. key_index (si_index a) \<le> key_index (si_index b))
      (filter (\<lambda>it. si_criteria it = c) ?its)"
    by (rule sorted_wrt_filter)
  then show ?thesis
    by (rule sorted_wrt_mono_rel[rotated]) (auto simp: sortBy_cmp_le[OF k imageI imageI])
qed

text \<open>
  C25. \<open>_.sortBy\<close> with any sort that keeps the promise of the language, stable or not: the result is
  the values of a permutation of the entries.  Over an array it is in the order of the criteria
  (\<open>undefined\<close> last), and the entries with the same criterion keep their order, whatever the sort
  does with equal elements.  Over an object whose names are no numerals it is in the order of the
  criteria.
\<close>
theorem sortBy_stable:
  assumes "comparison_sort sort_fn"
  shows "\<exists>es. sortBy_u sort_fn ob f = map snd es \<and> mset es = mset (coll_entries ob) \<and>
    (uniform_keys (fst ` set (coll_entries ob)) \<longrightarrow>
       sorted_wrt (\<lambda>(k, v) (l, w). crit_le (f v k) (f w l)) es) \<and>
    (\<forall>xs c. ob = ArrayLike xs \<longrightarrow>
       filter (\<lambda>(k, v). f v k = c) es = filter (\<lambda>(k, v). f v k = c) (coll_entries ob))"
proof (intro exI conjI impI allI)
  let ?its = "sortBy_items ob f"
  let ?s = "sort_fn sortBy_cmp ?its"
  let ?es = "map item_entry ?s"
  note sort_laws = comparison_sort.sort_mset[OF assms] comparison_sort.sort_set[OF assms]
  show "sortBy_u sort_fn ob f = map snd ?es" by (simp add: sortBy_u_def comp_def)
  show "mset ?es = mset (coll_entries ob)"
    by (simp only: mset_map sort_laws(1) sortBy_items_entries[of ob f, symmetric])
  {
    assume "uniform_keys (fst ` set (coll_entries ob))"
    then have k: "uniform_keys (si_index ` set ?its)" by (simp only: sortBy_items_keys)
    have "sorted_wrt (\<lambda>a b. sortBy_cmp a b \<le> 0) ?s"
      by (rule comparison_sort.sort_sorted[OF assms consistent_sortBy[OF k]])
    then have "sorted_wrt (\<lambda>a b. crit_le (f (si_value a) (si_index a)) (f (si_value b) (si_index b))) ?s"
      by (rule sorted_wrt_mono_rel[rotated])
         (auto simp: sort_laws(2) sortBy_cmp_le[OF k imageI imageI] sortBy_items_criteria[symmetric])
    then show "sorted_wrt (\<lambda>(k, v) (l, w). crit_le (f v k) (f w l)) ?es"
      by (simp add: sorted_wrt_map)
  }
  {
    fix xs c assume ob: "ob = ArrayLike xs"
    have "consistent sortBy_cmp (set ?its)"
      by (rule consistent_sortBy) (simp only: sortBy_items_keys ob array_keys)
    then have "filter (\<lambda>it. si_criteria it = c) ?s = filter (\<lambda>it. si_criteria it = c) ?its"
      unfolding ob
      by (rule comparison_sort.sort_filter[OF assms _ sorted_items_same_criteria sortBy_total])
    then show "filter (\<lambda>(k, v). f v k = c) ?es = filter (\<lambda>(k, v). f v k = c) (coll_entries ob)"
      using filter_entries_criteria[of ?s ob f c] filter_entries_criteria[of ?its ob f c]
      by (simp add: sort_laws(2) sortBy_items_entries)
  }
qed

text \<open>A sort that reverses equal elements, and criteria with ties and one that is undefined.\<close>

definition reversing_sort :: "('a \<Rightarrow> 'a \<Rightarrow> int) \<Rightarrow> 'a list \<Rightarrow> 'a list" where
  "reversing_sort cmp xs = array_sort cmp (rev xs)"

interpretation rsort: comparison_sort reversing_sort
  by unfold_locales (auto simp: reversing_sort_def sorted_array_sort)

theorem sortBy_stable_witness:
  "filter (\<lambda>v. v div 10 = 1) (sortBy_u reversing_sort (ArrayLike [19, 25, 17, 4, 18])
     (\<lambda>v k. if v < 10 then None else Some (v div 10))) = [19, 17, 18 :: nat]"
proof -
  let ?f = "\<lambda>v k. if v < 10 then None else Some (v div 10) :: nat option"
  obtain es where es: "sortBy_u reversing_sort (ArrayLike [19, 25, 17, 4, 18]) ?f = map snd es"
    and flt: "filter (\<lambda>(k, v). ?f v k = Some 1) es =
      filter (\<lambda>(k, v). ?f v k = Some 1) (coll_entries (ArrayLike [19, 25, 17, 4, 18]))"
    using sortBy_stable[OF rsort.comparison_sort_axioms, of "ArrayLike [19, 25, 17, 4, 18]" ?f] by metis
  have one: "(\<lambda>(k, v). ?f v k = Some 1) = (\<lambda>p. snd p div 10 = 1)"
    by (auto simp: fun_eq_iff)
  have "filter (\<lambda>v. v div 10 = 1) (map snd es) = map snd (filter (\<lambda>p. snd p div 10 = 1) es)"
    by (simp add: filter_map comp_def)
  also have "\<dots> = [19, 17, 18]" using flt unfolding one by simp
  finally show ?thesis using es by simp
qed

section \<open>Aggregation: what the result objects hold\<close>

abbreviation group_members :: "('a \<Rightarrow> ckey \<Rightarrow> string) \<Rightarrow> (ckey \<times> 'a) list \<Rightarrow> string \<Rightarrow> 'a list" where
  "group_members f es key \<equiv> map snd (filter (\<lambda>(k, v). f v k = key) es)"

lemma groupBy_loop:
  "obj_get (each_loop (\<lambda>v k result. groupBy_behavior result v (f v k)) es r) key =
     (case obj_get r key of
        Some us \<Rightarrow> Some (us @ group_members f es key)
      | None \<Rightarrow> if group_members f es key = [] then None else Some (group_members f es key))"
  by (induction es arbitrary: r)
     (auto simp: groupBy_behavior_def obj_simps split: option.splits)

lemma countBy_loop:
  "obj_get (each_loop (\<lambda>v k result. countBy_behavior result v (f v k)) es r) key =
     (case obj_get r key of
        Some n \<Rightarrow> Some (n + length (group_members f es key))
      | None \<Rightarrow> if group_members f es key = [] then None else Some (length (group_members f es key)))"
  by (induction es arbitrary: r)
     (auto simp: countBy_behavior_def obj_simps split: option.splits)

lemma indexBy_loop:
  "obj_get (each_loop (\<lambda>v k result. indexBy_behavior result v (f v k)) es r) key =
     (if group_members f es key = [] then obj_get r key else Some (last (group_members f es key)))"
  by (induction es arbitrary: r) (auto simp: indexBy_behavior_def obj_simps)

text \<open>
  The group functions agree on what a group is: under every key, \<open>_.groupBy\<close> holds the values
  with that key in collection order, \<open>_.countBy\<close> their number and \<open>_.indexBy\<close> the last of them,
  and a key no value has is absent from all three.
\<close>
theorem group_functions:
  "let vs = map snd (filter (\<lambda>(k, v). f v k = key) (coll_entries c)) in
   obj_get (groupBy_u c f) key = (if vs = [] then None else Some vs) \<and>
   obj_get (countBy_u c f) key = (if vs = [] then None else Some (length vs)) \<and>
   obj_get (indexBy_u c f) key = (if vs = [] then None else Some (last vs))"
  by (simp add: groupBy_u_def countBy_u_def indexBy_u_def group_u_def each_u_def
      groupBy_loop countBy_loop indexBy_loop obj_simps)

section \<open>Folds, filters and quantifiers\<close>

lemma createReduce_first_eq:
  "createReduce_first Fwd c f =
     (case coll_entries c of [] \<Rightarrow> None | (k, v) # es \<Rightarrow> Some (foldl (\<lambda>m (k, v). f m v k) v es))"
proof (cases "coll_entries c")
  case Nil
  then show ?thesis by (simp add: createReduce_first_def start_index_def)
next
  case (Cons e es)
  then show ?thesis
    using iterator_Fwd[of 1 "coll_entries c" f "snd e"]
    by (simp add: createReduce_first_def start_index_def case_prod_unfold)
qed

text \<open>
  \<open>_.reduce\<close> is the left fold over the entries and \<open>_.reduceRight\<close> the fold over them in
  reverse; without an initial value \<open>_.reduce\<close> starts from the first value and is \<open>undefined\<close>
  exactly on an empty collection.
\<close>
theorem reduce_folds:
  "reduce_u c f m = foldl (\<lambda>m (k, v). f m v k) m (coll_entries c) \<and>
   reduceRight_u c f m = foldl (\<lambda>m (k, v). f m v k) m (rev (coll_entries c)) \<and>
   createReduce_first Fwd c g =
     (case coll_entries c of [] \<Rightarrow> None | (k, v) # es \<Rightarrow> Some (foldl (\<lambda>m (k, v). g m v k) v es))"
  by (simp add: reduce_u_def reduceRight_u_def createReduce_eq createReduce_first_eq)

lemma mset_filter_split:
  "mset (map snd (filter P es)) + mset (map snd (filter (\<lambda>e. \<not> P e) es)) = mset (map snd es)"
  by (induction es) auto

text \<open>
  \<open>_.partition\<close> returns what \<open>_.filter\<close> and \<open>_.reject\<close> return, loses and duplicates
  nothing, and \<open>_.every\<close> and \<open>_.some\<close> say when its parts are empty.
\<close>
theorem partition_filter_reject:
  "partition_u c p = (filter_u c p, reject_u c p) \<and>
   mset (filter_u c p) + mset (reject_u c p) = mset (coll_values c) \<and>
   (every_u c p \<longleftrightarrow> reject_u c p = []) \<and> (some_u c p \<longleftrightarrow> filter_u c p \<noteq> [])"
proof -
  have "(\<lambda>(k, v). \<not> p v k) = (\<lambda>e. \<not> (\<lambda>(k, v). p v k) e)" by auto
  then show ?thesis
    using mset_filter_split[of "\<lambda>(k, v). p v k" "coll_entries c"]
    by (auto simp: partition_u_eq filter_u_eq reject_u_def negate_u_def every_u_def some_u_def
        every_loop_iff some_loop_iff coll_values_entries filter_empty_conv)
qed

section \<open>Extrema\<close>

lemma max_plain_loop_fin:
  "max_plain_loop (Fin a) (map Fin xs) = Fin (fold max xs a)"
  by (induction xs arbitrary: a) (auto simp: max_def)

lemma max_u_ints:
  "max_u (ArrayLike (map Fin xs)) = (if xs = [] then NegInf else Fin (Max (set xs)))"
proof (cases xs)
  case (Cons x r)
  have "fold max r x = Max (set (x # r))" by (metis Max.set_eq_fold)
  with Cons show ?thesis by (simp add: max_u_def max_plain_loop_fin)
qed (simp add: max_u_def)

lemma min_plain_loop_fin:
  "min_plain_loop (Fin a) (map Fin xs) = Fin (fold min xs a)"
  by (induction xs arbitrary: a) (auto simp: min_def)

lemma min_u_ints:
  "min_u (ArrayLike (map Fin xs)) = (if xs = [] then PosInf else Fin (Min (set xs)))"
proof (cases xs)
  case (Cons x r)
  have "fold min r x = Min (set (x # r))" by (metis Min.set_eq_fold)
  with Cons show ?thesis by (simp add: min_u_def min_plain_loop_fin)
qed (simp add: min_u_def)

definition first_max :: "('a \<Rightarrow> int) \<Rightarrow> 'a list \<Rightarrow> nat \<Rightarrow> bool" where
  "first_max g xs i \<longleftrightarrow> i < length xs \<and>
     (\<forall>j < i. g (xs ! j) < g (xs ! i)) \<and> (\<forall>j < length xs. g (xs ! j) \<le> g (xs ! i))"

lemma first_max_snoc:
  assumes "first_max g xs i"
  shows "first_max g (xs @ [x]) (if g (xs ! i) < g x then length xs else i)"
  using assms by (force simp: first_max_def nth_append less_Suc_eq)

lemma max_by_loop:
  assumes f: "\<And>v k. f v k = Fin (g v)" and "xs \<noteq> []"
  shows "\<exists>i. first_max g xs i \<and>
    each_loop (max_by_step f) (map (\<lambda>(i, x). (Idx i, x)) (index_from 0 xs)) (JNum NegInf, NegInf) =
      (xs ! i, Fin (g (xs ! i)))"
  using assms(2)
proof (induction xs rule: rev_induct)
  case Nil
  then show ?case by simp
next
  case (snoc x xs)
  show ?case
  proof (cases "xs = []")
    case True
    then show ?thesis by (auto simp: f first_max_def intro!: exI[of _ 0])
  next
    case False
    then obtain i where i: "first_max g xs i"
      "each_loop (max_by_step f) (map (\<lambda>(i, x). (Idx i, x)) (index_from 0 xs)) (JNum NegInf, NegInf) =
        (xs ! i, Fin (g (xs ! i)))"
      using snoc.IH by blast
    let ?i = "if g (xs ! i) < g x then length xs else i"
    have "first_max g (xs @ [x]) ?i" using i(1) by (rule first_max_snoc)
    moreover have "each_loop (max_by_step f)
        (map (\<lambda>(i, x). (Idx i, x)) (index_from 0 (xs @ [x]))) (JNum NegInf, NegInf) =
        ((xs @ [x]) ! ?i, Fin (g ((xs @ [x]) ! ?i)))"
      using i by (simp add: each_loop_append index_from_append f Let_def nth_append first_max_def)
    ultimately show ?thesis by blast
  qed
qed

text \<open>
  On finite numbers \<open>_.max\<close> and \<open>_.min\<close> return the extremum, and the infinity of the
  opposite sign on an empty list; with an iteratee \<open>_.max\<close> returns the first value at which the
  computed number is largest.
\<close>
theorem extrema:
  "max_u (ArrayLike (map Fin ns)) = (if ns = [] then NegInf else Fin (Max (set ns))) \<and>
   min_u (ArrayLike (map Fin ns)) = (if ns = [] then PosInf else Fin (Min (set ns))) \<and>
   max_by_u (ArrayLike []) (\<lambda>v k. Fin (g v)) = JNum NegInf \<and>
   (\<exists>i. first_max g (x # xs) i \<and>
        max_by_u (ArrayLike (x # xs)) (\<lambda>v k. Fin (g v)) = (x # xs) ! i)"
proof -
  have "\<exists>i. first_max g (x # xs) i \<and>
      max_by_u (ArrayLike (x # xs)) (\<lambda>v k. Fin (g v)) = (x # xs) ! i"
    using max_by_loop[of "\<lambda>v k. Fin (g v)" g "x # xs"] by (auto simp: max_by_u_def each_u_def)
  then show ?thesis by (simp add: max_u_ints min_u_ints max_by_u_def each_u_def)
qed

end
