(* ===== verification/UArray.thy ===== *)
theory UArray
  imports UColl
begin

text \<open>
  Underscore's array functions (\<open>underscore.js\<close>, "Array Functions"): ends of an array, flattening,
  the searches by value and by binary search, the set-like functions, transposition, conversion
  to objects and arithmetic progressions.  Elements the code compares with \<open>===\<close> are values of
  type \<open>jsval\<close>; a read out of range gives \<open>undefined\<close>, which is \<open>None\<close> where elements are
  arbitrary.
\<close>

section \<open>Ends of an array\<close>

definition initial_u :: "'a list \<Rightarrow> int option \<Rightarrow> 'a list" where
  "initial_u array n =
     slice array 0 (max 0 (int (length array) - (case n of None \<Rightarrow> 1 | Some n \<Rightarrow> n)))"

definition rest_u :: "'a list \<Rightarrow> int option \<Rightarrow> 'a list" where
  "rest_u array n = slice_from array (case n of None \<Rightarrow> 1 | Some n \<Rightarrow> n)"

text \<open>Without a count \<open>_.first\<close> and \<open>_.last\<close> return an element, with one they return an array.\<close>

definition first_elem_u :: "'a list \<Rightarrow> 'a option" where
  "first_elem_u array = (case array of [] \<Rightarrow> None | x # _ \<Rightarrow> Some x)"

definition first_u :: "'a list \<Rightarrow> int \<Rightarrow> 'a list" where
  "first_u array n = initial_u array (Some (int (length array) - n))"

definition last_elem_u :: "'a list \<Rightarrow> 'a option" where
  "last_elem_u array = (if array = [] then None else Some (array ! (length array - 1)))"

definition last_u :: "'a list \<Rightarrow> int \<Rightarrow> 'a list" where
  "last_u array n = rest_u array (Some (max 0 (int (length array) - n)))"

definition compact_u :: "jsval list \<Rightarrow> jsval list" where
  "compact_u array = filter_u (ArrayLike array) (\<lambda>v k. truthy v)"

section \<open>Flattening\<close>

text \<open>An array that may hold arrays; the model's arrays are acyclic.\<close>

datatype 'a nest = Leaf 'a | Arr "'a nest list"

fun flatten_loop :: "bool \<Rightarrow> bool \<Rightarrow> 'a nest list \<Rightarrow> 'a nest list" where
  "flatten_loop shallow strict [] = []"
| "flatten_loop shallow strict (Arr value # r) =
     (if \<not> shallow then flatten_loop shallow strict value else value) @ flatten_loop shallow strict r"
| "flatten_loop shallow strict (Leaf a # r) =
     (if \<not> strict then Leaf a # flatten_loop shallow strict r else flatten_loop shallow strict r)"

definition flatten_from :: "'a nest list \<Rightarrow> bool \<Rightarrow> bool \<Rightarrow> nat \<Rightarrow> 'a nest list" where
  "flatten_from input shallow strict startIndex = flatten_loop shallow strict (drop startIndex input)"

definition flatten_u :: "'a nest list \<Rightarrow> bool \<Rightarrow> 'a nest list" where
  "flatten_u array shallow = flatten_from array shallow False 0"

section \<open>Searching by value\<close>

function sortedIndex_loop :: "('a \<Rightarrow> 'k::linorder) \<Rightarrow> 'a list \<Rightarrow> 'k \<Rightarrow> nat \<Rightarrow> nat \<Rightarrow> nat" where
  "sortedIndex_loop iteratee array value low high =
     (if low < high
      then let mid = (low + high) div 2 in
           if iteratee (array ! mid) < value
           then sortedIndex_loop iteratee array value (mid + 1) high
           else sortedIndex_loop iteratee array value low mid
      else low)"
  by pat_completeness auto
termination
  by (relation "measure (\<lambda>(f, xs, v, low, high). high - low)") auto

declare sortedIndex_loop.simps [simp del]

definition sortedIndex_u :: "'a list \<Rightarrow> 'a \<Rightarrow> ('a \<Rightarrow> 'k::linorder) \<Rightarrow> nat" where
  "sortedIndex_u array ob iteratee = sortedIndex_loop iteratee array (iteratee ob) 0 (length array)"

function index_loop :: "dir \<Rightarrow> jsval list \<Rightarrow> jsval \<Rightarrow> int \<Rightarrow> int \<Rightarrow> int" where
  "index_loop dir array item idx len =
     (if idx \<ge> 0 \<and> idx < len \<and> idx < int (length array)
      then if strict_eq (array ! nat idx) item then idx
           else index_loop dir array item (idx + dir_step dir) len
      else -1)"
  by pat_completeness auto
termination
proof (relation "measure (\<lambda>(dir, xs, item, i, len).
    (case dir of Fwd \<Rightarrow> nat (int (length xs) - i) | Bwd \<Rightarrow> nat (i + 1)))")
qed (auto split: dir.splits)

declare index_loop.simps [simp del]

text \<open>The range the search covers, from the optional position argument.\<close>

definition index_bounds :: "dir \<Rightarrow> nat \<Rightarrow> int option \<Rightarrow> int \<times> int" where
  "index_bounds dir n idx =
     (let len = int n in
      case idx of None \<Rightarrow> (0, len)
      | Some k \<Rightarrow>
          (case dir of
             Fwd \<Rightarrow> (if k \<ge> 0 then k else max (k + len) 0, len)
           | Bwd \<Rightarrow> (0, if k \<ge> 0 then min (k + 1) len else k + len + 1)))"

definition createIndexFinder :: "dir \<Rightarrow> jsval list \<Rightarrow> jsval \<Rightarrow> int option \<Rightarrow> int" where
  "createIndexFinder dir array item idx =
     (let (i, len) = index_bounds dir (length array) idx in
      if \<not> strict_eq item item
      then let k = createPredicateIndexFinder dir (slice array i len) (\<lambda>v _. is_nan v)
           in if k \<ge> 0 then k + i else -1
      else index_loop dir array item (case dir of Fwd \<Rightarrow> i | Bwd \<Rightarrow> len - 1) len)"

definition indexOf_u :: "jsval list \<Rightarrow> jsval \<Rightarrow> int option \<Rightarrow> int" where
  "indexOf_u = createIndexFinder Fwd"

definition lastIndexOf_u :: "jsval list \<Rightarrow> jsval \<Rightarrow> int option \<Rightarrow> int" where
  "lastIndexOf_u = createIndexFinder Bwd"

text \<open>\<open>_.indexOf(array, item, true)\<close>: binary search on an ordered array.\<close>

definition indexOf_sorted_u :: "'a::linorder list \<Rightarrow> 'a \<Rightarrow> int" where
  "indexOf_sorted_u array item =
     (let idx = sortedIndex_u array item (\<lambda>x. x)
      in if idx < length array \<and> array ! idx = item then int idx else -1)"

definition contains_u :: "jsval coll \<Rightarrow> jsval \<Rightarrow> int \<Rightarrow> bool" where
  "contains_u ob item fromIndex = (indexOf_u (coll_values ob) item (Some fromIndex) \<ge> 0)"

abbreviation contains_arr :: "jsval list \<Rightarrow> jsval \<Rightarrow> bool" where
  "contains_arr xs item \<equiv> contains_u (ArrayLike xs) item 0"

section \<open>Arrays as sets\<close>

fun uniq_loop :: "(jsval \<Rightarrow> jsval) option \<Rightarrow> jsval list \<Rightarrow> jsval list \<Rightarrow> jsval list \<Rightarrow> jsval list" where
  "uniq_loop iteratee seen result [] = result"
| "uniq_loop iteratee seen result (value # r) =
     (case iteratee of
        Some f \<Rightarrow>
          if \<not> contains_arr seen (f value)
          then uniq_loop iteratee (seen @ [f value]) (result @ [value]) r
          else uniq_loop iteratee seen result r
      | None \<Rightarrow>
          if \<not> contains_arr result value then uniq_loop iteratee seen (result @ [value]) r
          else uniq_loop iteratee seen result r)"

text \<open>The variant for sorted arrays compares with the previous value only.\<close>

fun uniq_sorted_loop :: "(jsval \<Rightarrow> jsval) \<Rightarrow> jsval option \<Rightarrow> jsval list \<Rightarrow> jsval list" where
  "uniq_sorted_loop f seen [] = []"
| "uniq_sorted_loop f seen (value # r) =
     (if (case seen of None \<Rightarrow> True | Some s \<Rightarrow> \<not> strict_eq s (f value))
      then value # uniq_sorted_loop f (Some (f value)) r
      else uniq_sorted_loop f (Some (f value)) r)"

definition uniq_u :: "jsval list \<Rightarrow> bool \<Rightarrow> (jsval \<Rightarrow> jsval) option \<Rightarrow> jsval list" where
  "uniq_u array isSorted iteratee =
     (if isSorted then uniq_sorted_loop (case iteratee of None \<Rightarrow> (\<lambda>v. v) | Some f \<Rightarrow> f) None array
      else uniq_loop iteratee [] [] array)"

definition union_u :: "jsval list list \<Rightarrow> jsval list" where
  "union_u arrays = uniq_u (concat arrays) False None"

fun intersection_loop :: "jsval list list \<Rightarrow> jsval list \<Rightarrow> jsval list \<Rightarrow> jsval list" where
  "intersection_loop others result [] = result"
| "intersection_loop others result (item # r) =
     (if contains_arr result item then intersection_loop others result r
      else if list_all (\<lambda>ys. contains_arr ys item) others
           then intersection_loop others (result @ [item]) r
           else intersection_loop others result r)"

definition intersection_u :: "jsval list \<Rightarrow> jsval list list \<Rightarrow> jsval list" where
  "intersection_u array others = intersection_loop others [] array"

definition difference_u :: "jsval list \<Rightarrow> jsval list list \<Rightarrow> jsval list" where
  "difference_u array others =
     filter_u (ArrayLike array) (\<lambda>value k. \<not> contains_arr (concat others) value)"

definition without_u :: "jsval list \<Rightarrow> jsval list \<Rightarrow> jsval list" where
  "without_u array items = difference_u array [items]"

section \<open>Transposition, objects and progressions\<close>

definition at_u :: "'a option list \<Rightarrow> nat \<Rightarrow> 'a option" where
  "at_u xs i = (if i < length xs then xs ! i else None)"

definition unzip_u :: "'a option list list \<Rightarrow> 'a option list list" where
  "unzip_u array =
     (let len = fold max (map length array) 0
      in map (\<lambda>index. map (\<lambda>row. at_u row index) array) [0 ..< len])"

definition zip_u :: "'a option list list \<Rightarrow> 'a option list list" where
  "zip_u arrays = unzip_u arrays"

fun object_pairs_loop :: "'v obj \<Rightarrow> (string \<times> 'v) list \<Rightarrow> 'v obj" where
  "object_pairs_loop result [] = result"
| "object_pairs_loop result ((k, v) # r) = object_pairs_loop (obj_put result k v) r"

definition object_pairs_u :: "(string \<times> 'v) list \<Rightarrow> 'v obj" where
  "object_pairs_u kvs = object_pairs_loop [] kvs"

fun object_lists_loop :: "'v option obj \<Rightarrow> string list \<Rightarrow> 'v list \<Rightarrow> 'v option obj" where
  "object_lists_loop result [] vs = result"
| "object_lists_loop result (k # ks) [] = object_lists_loop (obj_put result k None) ks []"
| "object_lists_loop result (k # ks) (v # vs) = object_lists_loop (obj_put result k (Some v)) ks vs"

definition object_lists_u :: "string list \<Rightarrow> 'v list \<Rightarrow> 'v option obj" where
  "object_lists_u ks vs = object_lists_loop [] ks vs"

definition ceil_div :: "int \<Rightarrow> int \<Rightarrow> int" where
  "ceil_div a b = - ((- a) div b)"

fun range_loop :: "nat \<Rightarrow> int \<Rightarrow> int \<Rightarrow> int list" where
  "range_loop 0 start step = []"
| "range_loop (Suc n) start step = start # range_loop n (start + step) step"

definition range_u :: "int \<Rightarrow> int option \<Rightarrow> int \<Rightarrow> int list" where
  "range_u start0 stop0 step0 =
     (let (start, stop) = (case stop0 of None \<Rightarrow> (0, start0) | Some stop \<Rightarrow> (start0, stop));
          step = (if step0 = 0 then 1 else step0);
          len = max (ceil_div (stop - start) step) 0
      in range_loop (nat len) start step)"

section \<open>Ends of an array: facts\<close>

text \<open>
  The functions at the ends of an array cut it: \<open>_.first(n)\<close> and \<open>_.rest(n)\<close>, and
  \<open>_.initial(n)\<close> and \<open>_.last(n)\<close>, are complementary for every non-negative \<open>n\<close>, longer than the
  array or not.
\<close>
theorem ends_complementary:
  "first_u xs (int n) = take n xs \<and> first_u xs (int n) @ rest_u xs (Some (int n)) = xs \<and>
   last_u xs (int n) = drop (length xs - n) xs \<and>
   initial_u xs (Some (int n)) @ last_u xs (int n) = xs"
proof -
  have 1: "first_u xs (int n) = take n xs"
    by (simp add: first_u_def initial_u_def slice_0)
  have 2: "rest_u xs (Some (int n)) = drop n xs"
    by (simp add: rest_u_def slice_from_nonneg)
  have e: "nat (max 0 (int (length xs) - int n)) = length xs - n" by simp
  have 3: "last_u xs (int n) = drop (length xs - n) xs"
    by (simp add: last_u_def rest_u_def slice_from_nonneg e)
  have 4: "initial_u xs (Some (int n)) = take (length xs - n) xs"
    by (simp add: initial_u_def slice_0 e)
  show ?thesis by (simp add: 1 2 3 4)
qed

section \<open>Flattening: facts\<close>

fun leaves :: "'a nest \<Rightarrow> 'a list" where
  "leaves (Leaf a) = [a]"
| "leaves (Arr ns) = concat (map leaves ns)"

lemma flatten_deep: "flatten_loop False False ns = map Leaf (concat (map leaves ns))"
  by (induction False False ns rule: flatten_loop.induct) auto

lemma flatten_shallow:
  "flatten_loop True strict ns =
     concat (map (\<lambda>x. case x of Arr vs \<Rightarrow> vs | Leaf a \<Rightarrow> if strict then [] else [Leaf a]) ns)"
  by (induction True strict ns rule: flatten_loop.induct) auto

lemma flatten_arguments:
  "flatten_from (map (\<lambda>xs. Arr (map Leaf xs)) xss) True True n = map Leaf (concat (drop n xss))"
  by (simp add: flatten_from_def flatten_shallow drop_map comp_def map_concat)

text \<open>
  \<open>_.flatten\<close> lists the leaves of the nested array in order, so flattening again changes
  nothing; with \<open>shallow\<close> it removes exactly one level.
\<close>
theorem flatten_leaves:
  "flatten_u ns False = map Leaf (concat (map leaves ns)) \<and>
   flatten_u (flatten_u ns False) False = flatten_u ns False \<and>
   flatten_u (map Arr nss) True = concat nss"
  by (simp add: flatten_u_def flatten_from_def flatten_deep flatten_shallow comp_def)

section \<open>Binary search: facts\<close>

lemma sortedIndex_loop_bounds:
  "low \<le> high \<Longrightarrow>
   low \<le> sortedIndex_loop f xs v low high \<and> sortedIndex_loop f xs v low high \<le> high"
proof (induction f xs v low high rule: sortedIndex_loop.induct)
  case (1 f xs v low high)
  show ?case
  proof (cases "low < high")
    case True
    let ?mid = "(low + high) div 2"
    have m: "low \<le> ?mid" "?mid < high" using True by auto
    show ?thesis
    proof (cases "f (xs ! ?mid) < v")
      case True
      then have "?mid + 1 \<le> sortedIndex_loop f xs v (?mid + 1) high \<and>
          sortedIndex_loop f xs v (?mid + 1) high \<le> high"
        using 1(1)[OF \<open>low < high\<close> refl] m by simp
      with True m \<open>low < high\<close> show ?thesis
        by (simp add: sortedIndex_loop.simps[of f xs v low high] Let_def)
    next
      case False
      then have "low \<le> sortedIndex_loop f xs v low ?mid \<and>
          sortedIndex_loop f xs v low ?mid \<le> ?mid"
        using 1(2)[OF \<open>low < high\<close> refl] m by simp
      with False m \<open>low < high\<close> show ?thesis
        by (simp add: sortedIndex_loop.simps[of f xs v low high] Let_def)
    qed
  next
    case False
    then have "sortedIndex_loop f xs v low high = low"
      by (simp add: sortedIndex_loop.simps[of f xs v low high])
    with False 1(3) show ?thesis by simp
  qed
qed

lemma sortedIndex_loop_split:
  assumes "sorted (map f xs)" "low \<le> high" "high \<le> length xs"
    and "\<forall>k < low. f (xs ! k) < v" "\<forall>k. high \<le> k \<longrightarrow> k < length xs \<longrightarrow> v \<le> f (xs ! k)"
  shows "let i = sortedIndex_loop f xs v low high in
    (\<forall>k < i. f (xs ! k) < v) \<and> (\<forall>k. i \<le> k \<longrightarrow> k < length xs \<longrightarrow> v \<le> f (xs ! k))"
  using assms
proof (induction f xs v low high rule: sortedIndex_loop.induct)
  case (1 f xs v low high)
  show ?case
  proof (cases "low < high")
    case True
    let ?mid = "(low + high) div 2"
    have m: "low \<le> ?mid" "?mid < high" using True by auto
    have mono: "j \<le> k \<Longrightarrow> k < length xs \<Longrightarrow> f (xs ! j) \<le> f (xs ! k)" for j k
      using sorted_nth_mono[OF 1(3), of j k] by simp
    show ?thesis
    proof (cases "f (xs ! ?mid) < v")
      case True
      have "\<forall>k < ?mid + 1. f (xs ! k) < v"
      proof (intro allI impI)
        fix k assume "k < ?mid + 1"
        then have "f (xs ! k) \<le> f (xs ! ?mid)" using mono[of k ?mid] m 1(5) by simp
        with True show "f (xs ! k) < v" by simp
      qed
      with 1(1)[OF \<open>low < high\<close> refl True 1(3)] 1(5,7) m \<open>low < high\<close> True show ?thesis
        by (simp add: sortedIndex_loop.simps[of f xs v low high] Let_def)
    next
      case False
      then have "v \<le> f (xs ! ?mid)" by simp
      then have "\<forall>k. ?mid \<le> k \<longrightarrow> k < length xs \<longrightarrow> v \<le> f (xs ! k)"
        using mono[of ?mid] by (meson order_trans)
      with 1(2)[OF \<open>low < high\<close> refl False 1(3)] 1(5,6) m \<open>low < high\<close> False show ?thesis
        by (simp add: sortedIndex_loop.simps[of f xs v low high] Let_def)
    qed
  next
    case False
    then have "sortedIndex_loop f xs v low high = low"
      by (simp add: sortedIndex_loop.simps[of f xs v low high])
    with False 1(4,6,7) show ?thesis by (simp add: Let_def)
  qed
qed

text \<open>
  C33. On an array sorted by the iteratee \<open>_.sortedIndex\<close> returns the insertion point: everything
  before it is smaller than the value and nothing after it is, so inserting there keeps the
  array sorted.
\<close>
theorem sortedIndex_insertion_point:
  assumes "sorted (map f xs)"
  shows "let i = sortedIndex_u xs x f in
    i \<le> length xs \<and> (\<forall>k < i. f (xs ! k) < f x) \<and>
    (\<forall>k. i \<le> k \<longrightarrow> k < length xs \<longrightarrow> f x \<le> f (xs ! k)) \<and>
    sorted (map f (take i xs @ x # drop i xs))"
proof -
  define i where "i = sortedIndex_u xs x f"
  have le: "i \<le> length xs"
    using sortedIndex_loop_bounds[of 0 "length xs" f xs "f x"] by (simp add: i_def sortedIndex_u_def)
  have split: "\<forall>k < i. f (xs ! k) < f x" "\<forall>k. i \<le> k \<longrightarrow> k < length xs \<longrightarrow> f x \<le> f (xs ! k)"
    using sortedIndex_loop_split[OF assms, of 0 "length xs" "f x"]
    by (simp_all add: i_def sortedIndex_u_def Let_def)
  have before: "\<forall>y \<in> set (take i xs). f y \<le> f x"
    using split(1) le by (auto simp: in_set_conv_nth less_imp_le)
  have after: "\<forall>y \<in> set (drop i xs). f x \<le> f y"
    using split(2) by (force simp: in_set_conv_nth)
  have "sorted (map f (take i xs) @ map f (drop i xs))"
    using assms by (metis append_take_drop_id map_append)
  then have "sorted (map f (take i xs @ x # drop i xs))"
    using before after by (fastforce simp: sorted_append)
  with le split show ?thesis by (simp add: Let_def i_def)
qed

theorem sortedIndex_insertion_point_witness:
  "let i = sortedIndex_u [10, 20, 30, 40, 50 :: int] 35 (\<lambda>x. x) in
     i \<le> 5 \<and> sorted (take i [10, 20, 30, 40, 50] @ 35 # drop i [10, 20, 30, 40, 50 :: int])"
proof -
  have "sorted (map (\<lambda>x. x) [10, 20, 30, 40, 50 :: int])" by simp
  from sortedIndex_insertion_point[OF this, of 35] show ?thesis by (simp add: Let_def)
qed

section \<open>Linear search: facts\<close>

lemma predicate_index_Fwd:
  "i \<le> length xs \<Longrightarrow> predicate_index_loop Fwd (\<lambda>v _. P v) xs (int i) =
     (case first_pos P (drop i xs) of None \<Rightarrow> -1 | Some k \<Rightarrow> int (i + k))"
proof (induction "length xs - i" arbitrary: i)
  case 0
  then show ?case by (simp add: predicate_index_loop.simps)
next
  case (Suc n)
  then have lt: "i < length xs" by simp
  have d: "drop i xs = xs ! i # drop (Suc i) xs" using lt by (simp add: Cons_nth_drop_Suc)
  have IH: "predicate_index_loop Fwd (\<lambda>v _. P v) xs (int (Suc i)) =
      (case first_pos P (drop (Suc i) xs) of None \<Rightarrow> -1 | Some k \<Rightarrow> int (Suc i + k))"
    using Suc lt by (intro Suc.hyps) auto
  show ?case
    using lt IH by (subst predicate_index_loop.simps)
      (auto simp: d add.commute split: option.splits)
qed

lemma findIndex_first_pos:
  "findIndex_u xs (\<lambda>v _. P v) = (case first_pos P xs of None \<Rightarrow> -1 | Some k \<Rightarrow> int k)"
  using predicate_index_Fwd[of 0 xs P]
  by (simp add: findIndex_u_def createPredicateIndexFinder_def start_index_def split: option.splits)

lemma predicate_index_Bwd:
  "i < length xs \<Longrightarrow> predicate_index_loop Bwd (\<lambda>v _. P v) xs (int i) =
     (case first_pos P (rev (take (Suc i) xs)) of None \<Rightarrow> -1 | Some k \<Rightarrow> int i - int k)"
proof (induction i)
  case 0
  then show ?case
    by (subst predicate_index_loop.simps) (simp add: predicate_index_loop.simps take_Suc_conv_app_nth)
next
  case (Suc n)
  have t: "rev (take (Suc (Suc n)) xs) = xs ! Suc n # rev (take (Suc n) xs)"
    using Suc.prems by (simp add: take_Suc_conv_app_nth[of "Suc n"])
  have "predicate_index_loop Bwd (\<lambda>v _. P v) xs (int n) =
      (case first_pos P (rev (take (Suc n) xs)) of None \<Rightarrow> -1 | Some k \<Rightarrow> int n - int k)"
    using Suc by simp
  moreover have "nat (1 + int n) = Suc n" by simp
  ultimately show ?case
    using Suc.prems by (subst predicate_index_loop.simps) (auto simp: t split: option.splits)
qed

lemma index_loop_predicate:
  "index_loop dir xs item i (int (length xs)) =
     predicate_index_loop dir (\<lambda>v _. strict_eq v item) xs i"
proof (induction dir xs item i "int (length xs)" rule: index_loop.induct)
  case (1 dir xs item i)
  then show ?case
    by (subst index_loop.simps, subst predicate_index_loop.simps) auto
qed

text \<open>Equality up to the sign of zero, with \<open>NaN\<close> equal to itself: what the searches implement.\<close>

fun canon :: "jsval \<Rightarrow> jsval" where
  "canon (JNum NegZero) = JNum (Fin 0)"
| "canon v = v"

lemma num_eq_canon: "num_eq a b \<longleftrightarrow> a \<noteq> NaN \<and> canon (JNum a) = canon (JNum b)"
  by (cases a; cases b) auto

lemma canon_JNum [simp]: "canon (JNum n) = JNum (if n = NegZero then Fin 0 else n)"
  by (cases n) auto

lemma strict_eq_canon: "strict_eq a b \<longleftrightarrow> \<not> is_nan a \<and> canon a = canon b"
  by (cases a; cases b) (auto simp: num_eq_canon is_nan_def)

lemma canon_nan: "canon a = JNum NaN \<longleftrightarrow> is_nan a"
  by (cases a rule: canon.cases) (auto simp: is_nan_def)

lemma strict_refl_iff: "strict_eq a a \<longleftrightarrow> \<not> is_nan a"
  by (rule strict_eq_refl)

definition search_start :: "nat \<Rightarrow> int \<Rightarrow> nat" where
  "search_start n k = nat (if k \<ge> 0 then k else max (k + int n) 0)"

lemma first_pos_cong: "(\<And>x. x \<in> set xs \<Longrightarrow> P x = Q x) \<Longrightarrow> first_pos P xs = first_pos Q xs"
  by (induction xs) auto

lemma indexOf_eq:
  "indexOf_u xs item (Some k) =
     (case first_pos (\<lambda>v. canon v = canon item) (drop (search_start (length xs) k) xs) of
        None \<Rightarrow> -1 | Some j \<Rightarrow> int (search_start (length xs) k + j))"
proof -
  define s where "s = search_start (length xs) k"
  have b: "index_bounds Fwd (length xs) (Some k) = (int s, int (length xs))"
    by (simp add: index_bounds_def s_def search_start_def Let_def)
  show ?thesis
  proof (cases "is_nan item")
    case True
    have "slice xs (int s) (int (length xs)) = drop s xs"
      by (simp add: slice_nonneg)
    moreover have "first_pos (\<lambda>v. canon v = canon item) (drop s xs) = first_pos is_nan (drop s xs)"
      using True by (intro first_pos_cong) (metis canon_nan)
    ultimately show ?thesis
      using True b findIndex_first_pos[of "drop s xs" is_nan]
      by (auto simp: indexOf_u_def createIndexFinder_def strict_refl_iff s_def[symmetric]
          findIndex_u_def split: option.splits)
  next
    case False
    have eq: "strict_eq v item \<longleftrightarrow> canon v = canon item" for v
      using False by (metis strict_eq_canon strict_eq_sym)
    have "predicate_index_loop Fwd (\<lambda>v _. canon v = canon item) xs (int s) =
        (case first_pos (\<lambda>v. canon v = canon item) (drop s xs) of None \<Rightarrow> -1 | Some j \<Rightarrow> int (s + j))"
    proof (cases "s \<le> length xs")
      case True
      then show ?thesis by (rule predicate_index_Fwd)
    next
      case False
      then show ?thesis by (subst predicate_index_loop.simps) simp
    qed
    with False b show ?thesis
      by (simp add: indexOf_u_def createIndexFinder_def strict_refl_iff s_def
          index_loop_predicate eq split: option.splits)
  qed
qed

lemma contains_arr_iff: "contains_arr xs item \<longleftrightarrow> canon item \<in> canon ` set xs"
proof -
  have s: "search_start (length xs) 0 = 0" by (simp add: search_start_def)
  show ?thesis
  proof (cases "first_pos (\<lambda>v. canon v = canon item) xs")
    case None
    then show ?thesis
      by (simp add: contains_u_def indexOf_eq s) (auto simp: first_pos_None)
  next
    case (Some j)
    then have "j < length xs" "canon (xs ! j) = canon item" by (auto simp: first_pos_Some)
    then show ?thesis using Some
      by (auto simp: contains_u_def indexOf_eq s intro!: rev_image_eqI[of "xs ! j"])
  qed
qed

text \<open>
  \<open>_.indexOf(array, item, fromIndex)\<close> is the first position from \<open>fromIndex\<close> on (counted from
  the end when negative) that holds the item, \<open>NaN\<close> included, and \<open>-1\<close> when there is none.
\<close>
theorem indexOf_first:
  "let s = search_start (length xs) k; r = indexOf_u xs item (Some k) in
   (r = -1 \<and> (\<nexists>j. s \<le> j \<and> j < length xs \<and> canon (xs ! j) = canon item)) \<or>
   (\<exists>j. r = int j \<and> s \<le> j \<and> j < length xs \<and> canon (xs ! j) = canon item \<and>
        (\<nexists>i. s \<le> i \<and> i < j \<and> canon (xs ! i) = canon item))"
proof -
  define s where "s = search_start (length xs) k"
  show ?thesis
  proof (cases "first_pos (\<lambda>v. canon v = canon item) (drop s xs)")
    case None
    then show ?thesis
      by (simp add: Let_def indexOf_eq flip: s_def) (auto simp: first_pos_drop_None)
  next
    case (Some j)
    then show ?thesis
      by (simp add: Let_def indexOf_eq flip: s_def) (auto simp: first_pos_drop_Some intro!: exI[of _ "s + j"])
  qed
qed

text \<open>
  The backward search does not adjust the range for \<open>NaN\<close> when the position is far before the
  start: \<open>slice\<close> then counts from the end again, and \<open>NaN\<close> is found where any other item is not.
\<close>
lemma lastIndexOf_nan_out_of_range:
  "lastIndexOf_u [JNum NaN, JNum (Fin 1), JNum (Fin 2)] (JNum NaN) (Some (-5)) = 0"
  "lastIndexOf_u [JNum (Fin 7), JNum (Fin 1), JNum (Fin 2)] (JNum (Fin 7)) (Some (-5)) = -1"
  by (code_simp, code_simp)

section \<open>Arrays as sets: facts\<close>

lemma index_from_Suc: "index_from (Suc i) xs = map (\<lambda>(i, v). (Suc i, v)) (index_from i xs)"
  by (induction xs arbitrary: i) auto

lemma filter_index_from_Suc:
  "map snd (filter (\<lambda>(i, v). P i v) (index_from (Suc 0) xs)) =
   map snd (filter (\<lambda>(i, v). P (Suc i) v) (index_from 0 xs))"
  by (simp add: index_from_Suc filter_map comp_def case_prod_unfold)

text \<open>The entries whose value does not occur earlier, nor in \<open>S\<close>.\<close>

definition new_values :: "jsval set \<Rightarrow> jsval list \<Rightarrow> jsval list" where
  "new_values S xs =
     map snd (filter (\<lambda>(i, v). canon v \<notin> S \<and> canon v \<notin> canon ` set (take i xs)) (index_from 0 xs))"

lemma new_values_Nil [simp]: "new_values S [] = []"
  by (simp add: new_values_def)

lemma new_values_Cons:
  "new_values S (x # xs) =
     (if canon x \<in> S then new_values S xs else x # new_values (insert (canon x) S) xs)"
proof -
  have "new_values S (x # xs) = (if canon x \<in> S then [] else [x]) @
    map snd (filter (\<lambda>(i, v). canon v \<notin> S \<and> canon v \<notin> canon ` set (take (Suc i) (x # xs)))
      (index_from 0 xs))"
    unfolding new_values_def by (simp add: filter_index_from_Suc[simplified])
  also have "(\<lambda>(i, v). canon v \<notin> S \<and> canon v \<notin> canon ` set (take (Suc i) (x # xs))) =
    (\<lambda>(i, v). canon v \<notin> insert (canon x) S \<and> canon v \<notin> canon ` set (take i xs))"
    by (auto simp: fun_eq_iff)
  finally have "new_values S (x # xs) =
      (if canon x \<in> S then [] else [x]) @ new_values (insert (canon x) S) xs"
    by (simp only: new_values_def)
  then show ?thesis by (cases "canon x \<in> S") (auto simp: insert_absorb)
qed

lemma uniq_loop_new_values:
  "uniq_loop None seen result xs = result @ new_values (canon ` set result) xs"
proof (induction xs arbitrary: result)
  case (Cons x xs)
  show ?case
  proof (cases "canon x \<in> canon ` set result")
    case True
    then show ?thesis by (simp add: contains_arr_iff Cons.IH new_values_Cons)
  next
    case False
    then show ?thesis
      by (simp add: contains_arr_iff Cons.IH[of "result @ [x]"] new_values_Cons)
  qed
qed simp

lemma new_values_props:
  "distinct (map canon (new_values S xs)) \<and>
   canon ` set (new_values S xs) = canon ` set xs - S \<and> subseq (new_values S xs) xs"
proof (induction xs arbitrary: S)
  case (Cons x xs)
  show ?case
  proof (cases "canon x \<in> S")
    case True
    with Cons[of S] show ?thesis by (auto simp: new_values_Cons)
  next
    case False
    have "canon x \<notin> canon ` set (new_values (insert (canon x) S) xs)"
      using Cons[of "insert (canon x) S"] by blast
    with False Cons[of "insert (canon x) S"] show ?thesis
      by (auto simp: new_values_Cons)
  qed
qed simp

abbreviation jint :: "int \<Rightarrow> jsval" where
  "jint n \<equiv> JNum (Fin n)"

lemma canon_jint: "canon (jint n) = jint n"
  by simp

lemma inj_jint: "inj jint"
  by (simp add: inj_def)

lemma uniq_sorted_jint:
  "uniq_sorted_loop (\<lambda>v. v) (Some (jint a)) (map jint ns) = map jint (tl (remdups_adj (a # ns)))"
proof (induction ns arbitrary: a)
  case (Cons n ns)
  show ?case
  proof (cases "a = n")
    case True
    with Cons show ?thesis by simp
  next
    case False
    with Cons show ?thesis by (simp add: map_remdups_adj_Cons_tl[of jint])
  qed
qed simp

lemma subseq_map_jint: "subseq vs (map jint ns) \<Longrightarrow> \<exists>ms. vs = map jint ms \<and> subseq ms ns"
proof (induction ns arbitrary: vs)
  case Nil
  then show ?case by (cases vs) auto
next
  case (Cons n ns)
  show ?case
  proof (cases vs)
    case Nil
    then show ?thesis by auto
  next
    case (Cons v vs')
    show ?thesis
    proof (cases "v = jint n")
      case True
      then have "subseq vs' (map jint ns)" using Cons Cons.prems by simp
      then obtain ms where "vs' = map jint ms" "subseq ms ns" using Cons.IH by blast
      with True Cons show ?thesis by (intro exI[of _ "n # ms"]) auto
    next
      case False
      then have "subseq vs (map jint ns)" using Cons Cons.prems by simp
      then show ?thesis using Cons.IH by (metis list_emb_Cons)
    qed
  qed
qed

lemma new_values_sorted_jint:
  assumes "sorted ns"
  shows "new_values {} (map jint ns) = map jint (remdups_adj ns)"
proof -
  let ?r = "new_values {} (map jint ns)"
  have "subseq ?r (map jint ns)" using new_values_props by blast
  from subseq_map_jint[OF this] obtain ms where ms: "?r = map jint ms" "subseq ms ns" by (elim exE conjE)
  have dist: "distinct (map canon (map jint ms))"
    and img: "canon ` set (map jint ms) = canon ` set (map jint ns)"
    using new_values_props[of "{}" "map jint ns"] unfolding ms(1) by simp_all
  have "distinct ms" using dist by (metis distinct_map)
  have "jint ` set ms = jint ` set ns"
    using img by (simp only: set_map image_image canon_jint)
  then have "set ms = set ns" by (simp only: inj_image_eq_iff[OF inj_jint])
  have "sorted ms" using sorted_subseq[OF ms(2) assms] .
  have "ms = remdups_adj ns"
    using \<open>distinct ms\<close> \<open>set ms = set ns\<close> \<open>sorted ms\<close> assms
    by (intro sorted_distinct_set_unique) (auto simp: sorted_remdups_adj distinct_remdups_adj_sorted)
  with ms(1) show ?thesis by simp
qed

text \<open>
  C34. \<open>_.uniq\<close> keeps exactly the elements whose value (up to the sign of zero, and with \<open>NaN\<close>
  equal to itself) has not occurred before, so its result has each value once; on a sorted
  array of integers the fast path for sorted input gives the same array.
\<close>
theorem uniq_first_occurrences:
  "uniq_u xs False None =
     map snd (filter (\<lambda>(i, v). canon v \<notin> canon ` set (take i xs)) (index_from 0 xs)) \<and>
   distinct (map canon (uniq_u xs False None)) \<and>
   canon ` set (uniq_u xs False None) = canon ` set xs \<and>
   uniq_u (map jint (sort ns)) True None = uniq_u (map jint (sort ns)) False None"
proof -
  have 1: "uniq_u xs False None = new_values {} xs" for xs
    by (simp add: uniq_u_def uniq_loop_new_values)
  have "uniq_u (map jint (sort ns)) True None = map jint (remdups_adj (sort ns))"
  proof (cases "sort ns")
    case Nil
    then show ?thesis by (simp add: uniq_u_def)
  next
    case (Cons n ms)
    then show ?thesis by (simp add: uniq_u_def uniq_sorted_jint map_remdups_adj_Cons_tl[of jint])
  qed
  moreover have "uniq_u (map jint (sort ns)) False None = map jint (remdups_adj (sort ns))"
    using new_values_sorted_jint[of "sort ns"] by (simp add: 1)
  moreover have "new_values {} xs =
      map snd (filter (\<lambda>(i, v). canon v \<notin> canon ` set (take i xs)) (index_from 0 xs))"
    by (simp add: new_values_def)
  ultimately show ?thesis
    using new_values_props[of "{}" xs] by (metis "1" Diff_empty)
qed

lemma intersection_loop_props:
  assumes "distinct (map canon result)"
  shows "distinct (map canon (intersection_loop others result xs)) \<and>
    canon ` set (intersection_loop others result xs) =
      canon ` set result \<union> {c \<in> canon ` set xs. \<forall>ys \<in> set others. c \<in> canon ` set ys}"
  using assms
proof (induction xs arbitrary: result)
  case (Cons x xs)
  show ?case
  proof (cases "canon x \<in> canon ` set result")
    case True
    then have "intersection_loop others result (x # xs) = intersection_loop others result xs"
      by (simp add: contains_arr_iff)
    with Cons.IH[OF Cons.prems] True show ?thesis by auto
  next
    case False
    have step: "intersection_loop others result (x # xs) =
      (if \<forall>ys \<in> set others. canon x \<in> canon ` set ys
       then intersection_loop others (result @ [x]) xs else intersection_loop others result xs)"
      using False by (simp add: contains_arr_iff list_all_iff)
    have "distinct (map canon (result @ [x]))" using False Cons.prems by auto
    from Cons.IH[OF this] Cons.IH[OF Cons.prems] show ?thesis
      unfolding step by auto
  qed
qed simp

text \<open>
  \<open>_.union\<close>, \<open>_.intersection\<close> and \<open>_.difference\<close> compute the set operations on values, the
  first two without duplicates, and the difference keeps the order of its first argument.
\<close>
theorem set_operations:
  "canon ` set (union_u xss) = (\<Union>xs \<in> set xss. canon ` set xs) \<and>
   distinct (map canon (union_u xss)) \<and>
   canon ` set (intersection_u xs xss) =
     {c \<in> canon ` set xs. list_all (\<lambda>ys. c \<in> canon ` set ys) xss} \<and>
   distinct (map canon (intersection_u xs xss)) \<and>
   difference_u xs xss = filter (\<lambda>v. canon v \<notin> canon ` set (concat xss)) xs"
proof -
  have "difference_u xs xss = filter (\<lambda>v. canon v \<notin> canon ` set (concat xss)) xs"
  proof -
    have "map snd (filter (\<lambda>(k, v). P v) (map (\<lambda>(i, x). (Idx i, x)) (index_from n xs))) = filter P xs"
      for P :: "jsval \<Rightarrow> bool" and n
      by (induction xs arbitrary: n) auto
    then show ?thesis by (simp add: difference_u_def filter_u_eq contains_arr_iff del: set_concat)
  qed
  then show ?thesis
    using new_values_props[of "{}" "concat xss"] intersection_loop_props[of "[]" xss xs]
    by (auto simp: union_u_def uniq_u_def uniq_loop_new_values intersection_u_def list_all_iff)
qed

section \<open>Transposition, objects and progressions: facts\<close>

lemma fold_max_const: "xs \<noteq> [] \<Longrightarrow> (\<And>x. x \<in> set xs \<Longrightarrow> x = n) \<Longrightarrow> fold max xs 0 = (n :: nat)"
  by (metis Max.set_eq_fold Max_insert List.finite_set Max_singleton all_not_in_conv
      insertI1 max_0L set_empty set_ConsD list.set(2) singleton_iff subsetI subset_singletonD)

lemma unzip_rect:
  assumes "xss \<noteq> []" "\<And>xs. xs \<in> set xss \<Longrightarrow> length xs = n"
  shows "unzip_u xss = map (\<lambda>i. map (\<lambda>row. row ! i) xss) [0 ..< n]"
proof -
  have "fold max (map length xss) 0 = n"
    using assms by (intro fold_max_const) auto
  then show ?thesis
    using assms(2) by (auto simp: unzip_u_def at_u_def)
qed

text \<open>
  \<open>_.zip\<close> and \<open>_.unzip\<close> transpose: the cell of the result at \<open>(i, j)\<close> is the cell of the
  argument at \<open>(j, i)\<close>, and on a non-empty rectangular array \<open>_.unzip\<close> undoes \<open>_.zip\<close>.
\<close>
theorem unzip_zip:
  assumes "xss \<noteq> []" "0 < n" "\<And>xs. xs \<in> set xss \<Longrightarrow> length xs = n"
  shows "unzip_u (zip_u xss) = xss \<and>
    (\<forall>i < n. \<forall>j < length xss. zip_u xss ! i ! j = xss ! j ! i)"
proof -
  let ?t = "map (\<lambda>i. map (\<lambda>row. row ! i) xss) [0 ..< n]"
  have t: "zip_u xss = ?t" using unzip_rect[OF assms(1,3)] by (simp add: zip_u_def)
  have "unzip_u ?t = map (\<lambda>j. map (\<lambda>row. row ! j) ?t) [0 ..< length xss]"
    using assms by (intro unzip_rect) auto
  also have "\<dots> = xss"
    by (rule nth_equalityI) (auto intro!: nth_equalityI simp: assms(3))
  finally show ?thesis using t by simp
qed

theorem unzip_zip_witness:
  "unzip_u (zip_u [[Some 1, Some 2 :: int option], [Some 3, None]]) = [[Some 1, Some 2], [Some 3, None]]"
  using unzip_zip[of "[[Some 1, Some 2 :: int option], [Some 3, None]]" 2] by fastforce

lemma object_pairs_puts: "object_pairs_loop r kvs = ob.puts r kvs"
  by (induction r kvs rule: object_pairs_loop.induct) (simp_all add: ob.puts_Nil ob.puts_Cons)

lemma object_lists_pairs:
  "object_lists_loop r ks vs =
     object_pairs_loop r (zip ks (map Some (take (length ks) vs) @ replicate (length ks - length vs) None))"
  by (induction r ks vs rule: object_lists_loop.induct) auto

lemma length_range_loop [simp]: "length (range_loop n start step) = n"
  by (induction n arbitrary: start) auto

lemma nth_range_loop: "i < n \<Longrightarrow> range_loop n start step ! i = start + int i * step"
proof (induction n arbitrary: i start)
  case (Suc n)
  then show ?case by (cases i) (auto simp: algebra_simps)
qed simp

text \<open>
  \<open>_.range(start, stop, step)\<close> is the arithmetic progression from \<open>start\<close> that stops before
  \<open>stop\<close>, upwards or downwards; a step of 0 counts as 1 and a single argument as the stop.
\<close>
theorem range_progression:
  "let r = range_u start (Some stop) step; s = (if step = 0 then 1 else step) in
   (\<forall>i. i < length r \<longleftrightarrow> (if s > 0 then start + int i * s < stop else start + int i * s > stop)) \<and>
   r = map (\<lambda>i. start + int i * s) [0..<length r] \<and>
   range_u stop None step = range_u 0 (Some stop) step"
proof -
  define s where "s = (if step = 0 then 1 else step)"
  define d where "d = stop - start"
  have ne: "s \<noteq> 0" by (simp add: s_def)
  have r: "range_u start (Some stop) step = range_loop (nat (max (ceil_div d s) 0)) start s"
    by (simp add: range_u_def s_def d_def)
  have "i < nat (max (ceil_div d s) 0) \<longleftrightarrow> (if s > 0 then start + int i * s < stop else start + int i * s > stop)"
    for i
  proof -
    have "i < nat (max (ceil_div d s) 0) \<longleftrightarrow> (- d) div s < - int i"
      by (auto simp: ceil_div_def)
    also have "\<dots> \<longleftrightarrow> (if s > 0 then start + int i * s < stop else start + int i * s > stop)"
    proof (cases "s > 0")
      case True
      then show ?thesis by (simp add: div_less_iff_mult d_def algebra_simps)
    next
      case False
      then have "0 < - s" using ne by simp
      then have "d div (- s) < - int i \<longleftrightarrow> d < - int i * - s" by (rule div_less_iff_mult)
      moreover have "(- d) div s = d div (- s)" by (metis div_minus_minus minus_minus)
      ultimately show ?thesis using False by (auto simp: d_def algebra_simps)
    qed
    finally show ?thesis .
  qed
  moreover have "range_u stop None step = range_u 0 (Some stop) step"
    by (simp add: range_u_def)
  moreover have "range_loop n start s = map (\<lambda>i. start + int i * s) [0..<length (range_loop n start s)]" for n
    by (rule nth_equalityI) (simp_all add: nth_range_loop)
  ultimately show ?thesis
    by (simp add: Let_def r flip: s_def)
qed

end
