(* ===== verification/UObject.thy ===== *)
theory UObject
  imports UArray
begin

text \<open>
  Underscore's object functions (\<open>underscore.js\<close>, "Object Functions").  An object has its own
  enumerable properties and those its prototype chain adds; reading a property looks at both,
  writing one creates an own property.  The members of \<open>Object.prototype\<close>, which are not enumerable,
  are not seen by a read, and a property named \<open>__proto__\<close> is one like any other.
\<close>

record pobj =
  own :: "jsval obj"
  inherited :: "jsval obj"

definition plain :: "jsval obj \<Rightarrow> pobj" where
  "plain ob = \<lparr>own = ob, inherited = []\<rparr>"

definition has_u :: "pobj \<Rightarrow> string \<Rightarrow> bool" where
  "has_u ob key = has_key (own ob) key"

definition key_in :: "pobj \<Rightarrow> string \<Rightarrow> bool" where
  "key_in ob key \<longleftrightarrow> has_key (own ob) key \<or> has_key (inherited ob) key"

text \<open>\<open>_.property(key)\<close>, the read of a property.\<close>

definition property_u :: "string \<Rightarrow> pobj \<Rightarrow> jsval" where
  "property_u key ob =
     (case obj_get (own ob) key of Some v \<Rightarrow> v
      | None \<Rightarrow> (case obj_get (inherited ob) key of Some v \<Rightarrow> v | None \<Rightarrow> JUndef))"

text \<open>\<open>_.property\<close> and \<open>_.propertyOf\<close> on a value that may be null.\<close>

definition property_opt :: "string \<Rightarrow> pobj option \<Rightarrow> jsval" where
  "property_opt key ob = (case ob of None \<Rightarrow> JUndef | Some p \<Rightarrow> property_u key p)"

definition propertyOf_u :: "pobj option \<Rightarrow> string \<Rightarrow> jsval" where
  "propertyOf_u ob key = (case ob of None \<Rightarrow> JUndef | Some p \<Rightarrow> property_u key p)"

definition set_prop :: "pobj \<Rightarrow> string \<Rightarrow> jsval \<Rightarrow> pobj" where
  "set_prop ob key v = ob\<lparr>own := obj_put (own ob) key v\<rparr>"

section \<open>Keys and values\<close>

definition keys_u :: "pobj \<Rightarrow> string list" where
  "keys_u ob = obj_keys (own ob)"

definition allKeys_u :: "pobj \<Rightarrow> string list" where
  "allKeys_u ob = obj_keys (own ob) @
     filter (\<lambda>k. \<not> has_key (own ob) k) (obj_keys (inherited ob))"

definition values_u :: "pobj \<Rightarrow> jsval list" where
  "values_u ob = map (\<lambda>k. property_u k ob) (keys_u ob)"

definition mapObject_u :: "(jsval \<Rightarrow> string \<Rightarrow> jsval) \<Rightarrow> pobj \<Rightarrow> jsval obj" where
  "mapObject_u f ob = object_pairs_loop [] (map (\<lambda>k. (k, f (property_u k ob) k)) (keys_u ob))"

definition pairs_u :: "pobj \<Rightarrow> (string \<times> jsval) list" where
  "pairs_u ob = map (\<lambda>k. (k, property_u k ob)) (keys_u ob)"

fun invert_loop :: "string obj \<Rightarrow> (string \<times> string) list \<Rightarrow> string obj" where
  "invert_loop result [] = result"
| "invert_loop result ((k, v) # r) = invert_loop (obj_put result v k) r"

definition invert_u :: "string obj \<Rightarrow> string obj" where
  "invert_u ob = invert_loop [] ob"

section \<open>Assigners\<close>

fun assign_keys :: "bool \<Rightarrow> pobj \<Rightarrow> string list \<Rightarrow> pobj \<Rightarrow> pobj" where
  "assign_keys undefinedOnly source [] ob = ob"
| "assign_keys undefinedOnly source (key # keys) ob =
     assign_keys undefinedOnly source keys
       (if \<not> undefinedOnly \<or> property_u key ob = JUndef
        then set_prop ob key (property_u key source) else ob)"

fun assign_sources :: "(pobj \<Rightarrow> string list) \<Rightarrow> bool \<Rightarrow> pobj option list \<Rightarrow> pobj \<Rightarrow> pobj" where
  "assign_sources keysFunc undefinedOnly [] ob = ob"
| "assign_sources keysFunc undefinedOnly (None # r) ob = assign_sources keysFunc undefinedOnly r ob"
| "assign_sources keysFunc undefinedOnly (Some source # r) ob =
     assign_sources keysFunc undefinedOnly r (assign_keys undefinedOnly source (keysFunc source) ob)"

text \<open>\<open>None\<close> is a target or source that is \<open>null\<close> or \<open>undefined\<close>.\<close>

definition createAssigner ::
  "(pobj \<Rightarrow> string list) \<Rightarrow> bool \<Rightarrow> pobj option \<Rightarrow> pobj option list \<Rightarrow> pobj option" where
  "createAssigner keysFunc undefinedOnly ob sources =
     (case ob of None \<Rightarrow> None | Some p \<Rightarrow> Some (assign_sources keysFunc undefinedOnly sources p))"

definition extend_u :: "pobj option \<Rightarrow> pobj option list \<Rightarrow> pobj option" where
  "extend_u = createAssigner allKeys_u False"

definition extendOwn_u :: "pobj option \<Rightarrow> pobj option list \<Rightarrow> pobj option" where
  "extendOwn_u = createAssigner keys_u False"

definition defaults_u :: "pobj option \<Rightarrow> pobj option list \<Rightarrow> pobj option" where
  "defaults_u = createAssigner allKeys_u True"

definition baseCreate :: "pobj option \<Rightarrow> pobj" where
  "baseCreate prototype =
     (case prototype of None \<Rightarrow> plain []
      | Some p \<Rightarrow> \<lparr>own = [], inherited = map (\<lambda>k. (k, property_u k p)) (allKeys_u p)\<rparr>)"

definition create_u :: "pobj option \<Rightarrow> pobj option \<Rightarrow> pobj option" where
  "create_u prototype props =
     (case props of None \<Rightarrow> Some (baseCreate prototype)
      | Some q \<Rightarrow> extendOwn_u (Some (baseCreate prototype)) [Some q])"

definition clone_u :: "pobj \<Rightarrow> pobj option" where
  "clone_u ob = extend_u (Some (plain [])) [Some ob]"

section \<open>Selecting properties\<close>

fun pick_loop :: "(jsval \<Rightarrow> string \<Rightarrow> bool) \<Rightarrow> pobj \<Rightarrow> jsval obj \<Rightarrow> string list \<Rightarrow> jsval obj" where
  "pick_loop iteratee ob result [] = result"
| "pick_loop iteratee ob result (key # keys) =
     pick_loop iteratee ob
       (if iteratee (property_u key ob) key then obj_put result key (property_u key ob) else result) keys"

definition leaf_values :: "'a nest list \<Rightarrow> 'a list" where
  "leaf_values ns = concat (map leaves ns)"

definition pick_by_u :: "pobj option \<Rightarrow> (jsval \<Rightarrow> string \<Rightarrow> bool) \<Rightarrow> jsval obj" where
  "pick_by_u ob f =
     (case ob of None \<Rightarrow> [] | Some p \<Rightarrow> pick_loop f p [] (allKeys_u p))"

definition pick_keys_u :: "pobj option \<Rightarrow> string nest list \<Rightarrow> jsval obj" where
  "pick_keys_u ob args =
     (case ob of None \<Rightarrow> []
      | Some p \<Rightarrow> pick_loop (\<lambda>value key. key_in p key) p []
                   (leaf_values (flatten_from args False False 0)))"

definition omit_by_u :: "pobj option \<Rightarrow> (jsval \<Rightarrow> string \<Rightarrow> bool) \<Rightarrow> jsval obj" where
  "omit_by_u ob f = pick_by_u ob (negate_u f)"

definition omit_keys_u :: "pobj option \<Rightarrow> string nest list \<Rightarrow> jsval obj" where
  "omit_keys_u ob args =
     (let keys = map_u (\<lambda>k i. JStr k) (ArrayLike (leaf_values (flatten_from args False False 0)))
      in pick_by_u ob (\<lambda>value key. \<not> contains_arr keys (JStr key)))"

fun isMatch_loop :: "pobj \<Rightarrow> pobj \<Rightarrow> string list \<Rightarrow> bool" where
  "isMatch_loop ob attrs [] = True"
| "isMatch_loop ob attrs (key # keys) =
     (if \<not> strict_eq (property_u key attrs) (property_u key ob) \<or> \<not> key_in ob key then False
      else isMatch_loop ob attrs keys)"

definition isMatch_u :: "pobj option \<Rightarrow> pobj \<Rightarrow> bool" where
  "isMatch_u ob attrs =
     (case ob of None \<Rightarrow> keys_u attrs = [] | Some p \<Rightarrow> isMatch_loop p attrs (keys_u attrs))"

text \<open>\<open>_.matcher\<close> takes a copy of the attributes; \<open>_.where\<close> and \<open>_.findWhere\<close> use it.\<close>

definition matcher_u :: "pobj \<Rightarrow> pobj option \<Rightarrow> bool" where
  "matcher_u attrs =
     (let attrs' = (case extendOwn_u (Some (plain [])) [Some attrs] of None \<Rightarrow> plain [] | Some a \<Rightarrow> a)
      in (\<lambda>ob. isMatch_u ob attrs'))"

definition where_u :: "pobj option coll \<Rightarrow> pobj \<Rightarrow> pobj option list" where
  "where_u ob attrs = filter_u ob (\<lambda>v k. matcher_u attrs v)"

definition findWhere_u :: "pobj option coll \<Rightarrow> pobj \<Rightarrow> pobj option option" where
  "findWhere_u ob attrs = find_u ob (\<lambda>v k. matcher_u attrs v)"

definition pluck_u :: "pobj option coll \<Rightarrow> string \<Rightarrow> jsval list" where
  "pluck_u ob key = map_u (\<lambda>v k. property_opt key v) ob"

definition isEmpty_obj_u :: "pobj option \<Rightarrow> bool" where
  "isEmpty_obj_u ob = (case ob of None \<Rightarrow> True | Some p \<Rightarrow> keys_u p = [])"

section \<open>Reading after writing\<close>

lemma property_set [obj_simps]:
  "property_u k (set_prop ob key v) = (if k = key then v else property_u k ob)"
  by (simp add: property_u_def set_prop_def obj_simps split: option.splits)

lemma key_in_set [obj_simps]: "key_in (set_prop ob key v) k \<longleftrightarrow> k = key \<or> key_in ob k"
  by (simp add: key_in_def set_prop_def obj_simps)

lemma set_allKeys: "set (allKeys_u ob) = {k. key_in ob k}"
  by (auto simp: allKeys_u_def key_in_def has_key_def)

lemma property_not_in: "\<not> key_in ob k \<Longrightarrow> property_u k ob = JUndef"
  by (auto simp: key_in_def property_u_def has_key_get)

lemma assign_keys_all:
  "property_u k (assign_keys False source keys ob) =
     (if k \<in> set keys then property_u k source else property_u k ob)"
  by (induction keys arbitrary: ob) (auto simp: obj_simps)

lemma assign_keys_undef:
  "property_u k (assign_keys True source keys ob) =
     (if property_u k ob = JUndef \<and> k \<in> set keys then property_u k source else property_u k ob)"
  by (induction keys arbitrary: ob) (auto simp: obj_simps)

lemma assign_sources_all:
  "property_u k (assign_sources kf False srcs ob) =
     (case find (\<lambda>s. k \<in> set (kf s)) (rev (List.map_filter (\<lambda>s. s) srcs)) of
        Some s \<Rightarrow> property_u k s | None \<Rightarrow> property_u k ob)"
proof (induction srcs arbitrary: ob)
  case Nil
  then show ?case by (simp add: List.map_filter_def)
next
  case (Cons s srcs)
  have fa: "find P (xs @ [y]) = (case find P xs of None \<Rightarrow> if P y then Some y else None | Some z \<Rightarrow> Some z)"
    for P and xs :: "pobj list" and y
    by (induction xs) auto
  show ?case
    by (cases s) (auto simp: Cons.IH fa assign_keys_all List.map_filter_simps split: option.splits)
qed

lemma assign_sources_undef:
  "property_u k (assign_sources allKeys_u True srcs ob) =
     (case find (\<lambda>v. v \<noteq> JUndef) (property_u k ob # map (property_u k) (List.map_filter (\<lambda>s. s) srcs)) of
        Some v \<Rightarrow> v | None \<Rightarrow> JUndef)"
proof (induction srcs arbitrary: ob)
  case Nil
  then show ?case by (simp add: List.map_filter_def)
next
  case (Cons s srcs)
  show ?case
  proof (cases s)
    case None
    then show ?thesis by (simp add: Cons.IH List.map_filter_simps)
  next
    case (Some p)
    have "property_u k (assign_keys True p (allKeys_u p) ob) =
      (if property_u k ob = JUndef then property_u k p else property_u k ob)"
      by (auto simp: assign_keys_undef set_allKeys property_not_in)
    then show ?thesis by (simp add: Some Cons.IH List.map_filter_simps)
  qed
qed

text \<open>
  For keys that are not names of members of \<open>Object.prototype\<close>, which \<open>_.defaults\<close> finds defined on
  every object, and for sources other than the target itself, which the model takes as they are before
  the call: \<open>_.extend\<close> gives every property the value of the last source that has it, inherited
  properties included; \<open>_.extendOwn\<close> looks at own properties only; \<open>_.defaults\<close> keeps what is
  defined and fills in the first defined value; null sources are skipped.
\<close>
theorem assigners:
  "(\<exists>e o' d. extend_u (Some ob) srcs = Some e \<and> extendOwn_u (Some ob) srcs = Some o' \<and>
     defaults_u (Some ob) srcs = Some d \<and>
     (let ss = List.map_filter (\<lambda>s. s) srcs in
      property_u k e = (case find (\<lambda>s. key_in s k) (rev ss) of
        Some s \<Rightarrow> property_u k s | None \<Rightarrow> property_u k ob) \<and>
      property_u k o' = (case find (\<lambda>s. has_u s k) (rev ss) of
        Some s \<Rightarrow> property_u k s | None \<Rightarrow> property_u k ob) \<and>
      property_u k d = (case find (\<lambda>v. v \<noteq> JUndef) (property_u k ob # map (property_u k) ss) of
        Some v \<Rightarrow> v | None \<Rightarrow> JUndef)))"
  by (simp add: extend_u_def extendOwn_u_def defaults_u_def createAssigner_def Let_def
      assign_sources_all assign_sources_undef set_allKeys keys_u_def has_u_def has_key_def del: set_map)

section \<open>Selecting properties: facts\<close>

lemma pick_loop_get:
  "obj_get (pick_loop f ob result keys) k =
     (if k \<in> set keys \<and> f (property_u k ob) k then Some (property_u k ob) else obj_get result k)"
  by (induction keys arbitrary: result) (auto simp: obj_simps)

lemma leaf_values_Leaf [simp]: "leaf_values (map Leaf xs) = xs"
  by (simp add: leaf_values_def comp_def)

lemma leaf_values_flatten: "leaf_values (flatten_from args False False 0) = leaf_values args"
  by (simp add: flatten_from_def flatten_deep) (simp add: leaf_values_def)

lemma map_u_arr: "map_u (\<lambda>v k. f v) (ArrayLike xs) = map f xs"
proof -
  have "map (\<lambda>(k, v). f v) (map (\<lambda>(i, x). (Idx i, x)) (index_from n xs)) = map f xs" for n
    by (induction xs arbitrary: n) auto
  then show ?thesis by (simp add: map_u_def)
qed

text \<open>
  \<open>_.pick\<close> and \<open>_.omit\<close> split an object: under every key the picked object holds the
  object's value exactly when the key is listed (at any nesting depth) and present, the omitted
  one exactly when it is present and not listed.
\<close>
theorem pick_omit:
  "obj_get (pick_keys_u (Some ob) args) k =
     (if k \<in> set (leaf_values args) \<and> key_in ob k then Some (property_u k ob) else None) \<and>
   obj_get (omit_keys_u (Some ob) args) k =
     (if k \<notin> set (leaf_values args) \<and> key_in ob k then Some (property_u k ob) else None)"
proof -
  have "canon (JStr k) \<in> canon ` JStr ` set (leaf_values args) \<longleftrightarrow> k \<in> set (leaf_values args)"
    by (auto simp: image_iff)
  then show ?thesis
    by (simp add: pick_keys_u_def omit_keys_u_def pick_by_u_def pick_loop_get leaf_values_flatten
        map_u_arr contains_arr_iff set_allKeys obj_simps del: canon.simps)
qed

section \<open>Lists of pairs\<close>

lemma create_last:
  assumes "\<And>k'. k' \<in> set (obj_keys ob) \<Longrightarrow> \<not> key_before k k'"
  shows "obj_create k v ob = ob @ [(k, v)]"
  using assms by (induction ob rule: obj_create.induct) auto

lemma object_pairs_wf:
  assumes "obj_wf (r @ kvs)"
  shows "object_pairs_loop r kvs = r @ kvs"
  using assms
proof (induction r kvs rule: object_pairs_loop.induct)
  case (2 r k v kvs)
  have nk: "\<not> has_key r k" using "2.prems" by (auto simp: obj_wf_def has_key_def)
  have "\<not> key_before k k'" if "k' \<in> set (obj_keys r)" for k'
    using that "2.prems" by (auto simp: obj_wf_def sorted_wrt_append)
  then have "obj_create k v r = r @ [(k, v)]" by (rule create_last)
  with nk have put: "obj_put r k v = r @ [(k, v)]"
    by (simp add: obj_put_def)
  with "2.IH" "2.prems" show ?case by simp
qed simp

lemma pairs_u_own: "distinct (keys_u ob) \<Longrightarrow> pairs_u ob = own ob"
proof -
  assume d: "distinct (keys_u ob)"
  have "map (\<lambda>k. (k, property_u k ob)) (obj_keys (own ob)) = map (\<lambda>p. p) (own ob)"
    unfolding map_map
  proof (rule map_cong[OF refl])
    fix p assume "p \<in> set (own ob)"
    then have "obj_get (own ob) (fst p) = Some (snd p)"
      using d by (auto simp: obj_get_def keys_u_def)
    then show "((\<lambda>k. (k, property_u k ob)) \<circ> fst) p = p" by (simp add: property_u_def)
  qed
  then show ?thesis by (simp add: pairs_u_def keys_u_def)
qed

text \<open>
  \<open>_.object\<close> undoes \<open>_.pairs\<close>: rebuilding an object from its pairs gives the same
  properties in the same enumeration order, and \<open>_.pairs\<close> is \<open>_.keys\<close> zipped with \<open>_.values\<close>.
\<close>
theorem object_pairs_roundtrip:
  assumes "obj_wf (own ob)"
  shows "object_pairs_u (pairs_u ob) = own ob \<and> pairs_u ob = zip (keys_u ob) (values_u ob)"
proof -
  have "distinct (keys_u ob)" using assms by (simp add: keys_u_def obj_wf_def)
  then show ?thesis
    using object_pairs_wf[of "[]" "own ob"] assms
    by (simp add: object_pairs_u_def pairs_u_own)
       (simp add: pairs_u_own[symmetric] pairs_u_def values_u_def zip_map2 zip_same_conv_map)
qed

theorem object_pairs_roundtrip_witness:
  "let ob = plain (object_pairs_u [(''b'', JNull), (''7'', JBool True), (''a'', JStr ''x''), (''2'', JUndef)])
   in object_pairs_u (pairs_u ob) = own ob \<and> obj_keys (own ob) = [''2'', ''7'', ''b'', ''a'']"
proof -
  let ?ob = "plain (object_pairs_u [(''b'', JNull), (''7'', JBool True), (''a'', JStr ''x''), (''2'', JUndef)])"
  have k: "obj_keys (own ?ob) = [''2'', ''7'', ''b'', ''a'']"
    by (simp add: plain_def object_pairs_u_def obj_put_def has_key_def key_before_def is_index_def
        dec_value_def dec.simps digit_char_def char_of_def bit_0)
  have "obj_wf (own ?ob)"
    unfolding plain_def object_pairs_u_def object_pairs_puts pobj.select_convs
    by (rule ob.wf_puts[OF obj_wf_empty])
  from object_pairs_roundtrip[OF this] k show ?thesis unfolding Let_def by blast
qed

lemma invert_loop_puts: "invert_loop r kvs = ob.puts r (map (\<lambda>(k, v). (v, k)) kvs)"
  by (induction r kvs rule: invert_loop.induct) (simp_all add: ob.puts_Nil ob.puts_Cons)

lemma invert_get:
  "obj_get (invert_u ob) = map_of (rev (map (\<lambda>(k, v). (v, k)) ob))"
  by (simp add: invert_u_def invert_loop_puts ob.get_puts obj_simps)

text \<open>
  \<open>_.invert\<close> exchanges keys and values: when no two keys share a value, a key maps to a value
  exactly when the value maps back to the key, and inverting twice gives the bindings back.
\<close>
theorem invert_involution:
  assumes "distinct (map fst ob)" "distinct (map snd ob)"
  shows "(obj_get (invert_u ob) v = Some k \<longleftrightarrow> obj_get ob k = Some v) \<and>
    obj_get (invert_u (invert_u ob)) = obj_get ob"
proof -
  have inv: "obj_get (invert_u ob') w = Some j \<longleftrightarrow> obj_get ob' j = Some w"
    if d: "distinct (map fst ob')" "distinct (map snd ob')" for ob' :: "string obj" and w j
  proof -
    have "distinct (map fst (rev (map (\<lambda>(k, v). (v, k)) ob')))"
      using d(2) by (simp add: rev_map[symmetric] comp_def case_prod_unfold)
    then have "obj_get (invert_u ob') w = Some j \<longleftrightarrow> (w, j) \<in> set (rev (map (\<lambda>(k, v). (v, k)) ob'))"
      unfolding invert_get by (rule map_of_eq_Some_distinct)
    also have "\<dots> \<longleftrightarrow> (j, w) \<in> set ob'" by auto
    also have "\<dots> \<longleftrightarrow> obj_get ob' j = Some w" using d(1) by (simp add: obj_get_def)
    finally show ?thesis .
  qed
  have wf: "obj_wf (invert_u ob)"
    by (simp add: invert_u_def invert_loop_puts ob.wf_puts)
  then have d1: "distinct (map fst (invert_u ob))" by (simp add: obj_wf_def)
  have d2: "distinct (map snd (invert_u ob))"
  proof -
    have "a = b" if "a \<in> set (invert_u ob)" "b \<in> set (invert_u ob)" "snd a = snd b" for a b
    proof -
      have "obj_get (invert_u ob) (fst a) = Some (snd a)" "obj_get (invert_u ob) (fst b) = Some (snd b)"
        using map_of_is_SomeI[OF d1, of "fst a" "snd a"] map_of_is_SomeI[OF d1, of "fst b" "snd b"]
          that(1,2) by (simp_all add: obj_get_def)
      then have "obj_get ob (snd a) = Some (fst a)" "obj_get ob (snd b) = Some (fst b)"
        using inv[OF assms] by auto
      with that(3) show ?thesis by (auto intro: prod_eqI)
    qed
    moreover have "distinct (invert_u ob)" using d1 by (metis distinct_map)
    ultimately show ?thesis by (auto simp: distinct_map inj_on_def)
  qed
  have "obj_get (invert_u (invert_u ob)) k' = Some v' \<longleftrightarrow> obj_get ob k' = Some v'" for k' v'
    using inv[OF d1 d2] inv[OF assms] by simp
  then have "obj_get (invert_u (invert_u ob)) = obj_get ob"
    by (intro ext) (metis not_None_eq)
  then show ?thesis using inv[OF assms] by simp
qed

theorem invert_involution_witness:
  "obj_get (invert_u (invert_u [(''&'', ''&amp;''), (''<'', ''&lt;'')])) =
   obj_get [(''&'', ''&amp;''), (''<'', ''&lt;'')]"
  using invert_involution[of "[(''&'', ''&amp;''), (''<'', ''&lt;'')]"] by simp

section \<open>Matching\<close>

lemma isMatch_loop_iff:
  "isMatch_loop ob attrs keys \<longleftrightarrow>
     (\<forall>k \<in> set keys. strict_eq (property_u k attrs) (property_u k ob) \<and> key_in ob k)"
  by (induction keys) auto

end
