(* ===== verification/UEqual.thy ===== *)
theory UEqual
  imports UObject
begin

text \<open>
  Deep equality (\<open>eq\<close> and \<open>_.isEqual\<close> of \<open>underscore.js\<close>) on a heap of objects, where sharing
  and cycles are visible.  \<open>eq_f\<close> follows the code branch by branch, with its two stacks as one
  list of pairs (top first); the fuel bounds the nesting of the recursive calls, and
  \<open>eq_f_enough\<close> shows that one unit more than the number of objects is always enough.

  Wrapper objects created by \<open>_(...)\<close> are not among the values, so the two unwrapping lines do
  nothing here.  A constructor is its identity and whether it is a function that is an instance
  of itself (\<open>Object\<close> of any frame); \<open>None\<close> is an object without a \<open>constructor\<close> property.
\<close>

section \<open>The heap\<close>

type_synonym ctor = "(nat \<times> bool) option"

datatype jsobj =
    OArray "jsval list"
  | OObject ctor "jsval obj"
  | OFunction
  | ODate jsnum
  | ORegExp string
  | OString string
  | ONumber jsnum
  | OBoolean bool

type_synonym heap = "jsobj list"

definition deref :: "heap \<Rightarrow> nat \<Rightarrow> jsobj" where
  "deref h r = (if r < length h then h ! r else OFunction)"

text \<open>The class name \<open>Object.prototype.toString\<close> reports.\<close>

datatype js_class = CUndefined | CNull | CBoolean | CNumber | CString | CFunction | CArray
  | CDate | CRegExp | CObject

fun obj_class :: "jsobj \<Rightarrow> js_class" where
  "obj_class (OArray xs) = CArray"
| "obj_class (OObject c ps) = CObject"
| "obj_class OFunction = CFunction"
| "obj_class (ODate n) = CDate"
| "obj_class (ORegExp s) = CRegExp"
| "obj_class (OString s) = CString"
| "obj_class (ONumber n) = CNumber"
| "obj_class (OBoolean b) = CBoolean"

fun class_of :: "heap \<Rightarrow> jsval \<Rightarrow> js_class" where
  "class_of h JUndef = CUndefined"
| "class_of h JNull = CNull"
| "class_of h (JBool b) = CBoolean"
| "class_of h (JNum n) = CNumber"
| "class_of h (JStr s) = CString"
| "class_of h (JRef r) = obj_class (deref h r)"

text \<open>The primitive behind a value of class String or RegExp, Number or Date, Boolean.\<close>

fun as_string :: "heap \<Rightarrow> jsval \<Rightarrow> string" where
  "as_string h (JStr s) = s"
| "as_string h (JRef r) = (case deref h r of OString s \<Rightarrow> s | ORegExp s \<Rightarrow> s | _ \<Rightarrow> [])"
| "as_string h _ = []"

fun as_number :: "heap \<Rightarrow> jsval \<Rightarrow> jsnum" where
  "as_number h (JNum n) = n"
| "as_number h (JBool b) = (if b then Fin 1 else Fin 0)"
| "as_number h (JRef r) =
     (case deref h r of ONumber n \<Rightarrow> n | ODate n \<Rightarrow> n
      | OBoolean b \<Rightarrow> if b then Fin 1 else Fin 0 | _ \<Rightarrow> NaN)"
| "as_number h _ = NaN"

definition is_zero :: "jsnum \<Rightarrow> bool" where
  "is_zero n \<longleftrightarrow> num_eq n (Fin 0)"

text \<open>\<open>1 / a === 1 / b\<close> for a zero \<open>a\<close>: \<open>b\<close> is a zero of the same sign.\<close>

definition same_recip :: "jsnum \<Rightarrow> jsnum \<Rightarrow> bool" where
  "same_recip a b \<longleftrightarrow> is_zero b \<and> a = b"

definition number_case :: "jsnum \<Rightarrow> jsnum \<Rightarrow> bool" where
  "number_case a b =
     (if \<not> num_eq a a then \<not> num_eq b b
      else if is_zero a then same_recip a b else num_eq a b)"

definition ctor_mismatch :: "ctor \<Rightarrow> ctor \<Rightarrow> bool" where
  "ctor_mismatch ca cb =
     (case (ca, cb) of
        (Some (i, ba), Some (j, bb)) \<Rightarrow> i \<noteq> j \<and> \<not> (ba \<and> bb)
      | _ \<Rightarrow> False)"

section \<open>The recursive comparison\<close>

function (sequential)
      eq_f :: "nat \<Rightarrow> heap \<Rightarrow> jsval \<Rightarrow> jsval \<Rightarrow> (nat \<times> nat) list \<Rightarrow> bool option"
  and eq_loop :: "nat \<Rightarrow> heap \<Rightarrow> (jsval \<times> jsval) list \<Rightarrow> (nat \<times> nat) list \<Rightarrow> bool option"
  and eq_props :: "nat \<Rightarrow> heap \<Rightarrow> jsval obj \<Rightarrow> jsval obj \<Rightarrow> (nat \<times> nat) list \<Rightarrow> bool option"
where
  "eq_f 0 h a b stack = None"
| "eq_f (Suc fuel) h a b stack =
     (if strict_eq a b
      then Some (case a of JNum n \<Rightarrow> \<not> is_zero n \<or> same_recip n (as_number h b) | _ \<Rightarrow> True)
      else if is_nullish a \<or> is_nullish b then Some (strict_eq a b)
      else if class_of h a \<noteq> class_of h b then Some False
      else
        case class_of h a of
          CRegExp \<Rightarrow> Some (as_string h a = as_string h b)
        | CString \<Rightarrow> Some (as_string h a = as_string h b)
        | CNumber \<Rightarrow> Some (number_case (as_number h a) (as_number h b))
        | CDate \<Rightarrow> Some (num_eq (as_number h a) (as_number h b))
        | CBoolean \<Rightarrow> Some (num_eq (as_number h a) (as_number h b))
        | _ \<Rightarrow>
          (case (a, b) of
             (JRef ra, JRef rb) \<Rightarrow>
               (case (deref h ra, deref h rb) of
                  (OArray xs, OArray ys) \<Rightarrow>
                    (case find (\<lambda>p. fst p = ra) stack of
                       Some p \<Rightarrow> Some (snd p = rb)
                     | None \<Rightarrow>
                         if length xs \<noteq> length ys then Some False
                         else eq_loop fuel h (rev (zip xs ys)) ((ra, rb) # stack))
                | (OObject ca ps, OObject cb qs) \<Rightarrow>
                    if ctor_mismatch ca cb then Some False
                    else
                    (case find (\<lambda>p. fst p = ra) stack of
                       Some p \<Rightarrow> Some (snd p = rb)
                     | None \<Rightarrow>
                         if length (obj_keys qs) \<noteq> length (obj_keys ps) then Some False
                         else eq_props fuel h (rev ps) qs ((ra, rb) # stack))
                | _ \<Rightarrow> Some False)
           | _ \<Rightarrow> Some False))"
| "eq_loop fuel h [] stack = Some True"
| "eq_loop fuel h ((x, y) # r) stack =
     (case eq_f fuel h x y stack of
        Some True \<Rightarrow> eq_loop fuel h r stack
      | res \<Rightarrow> res)"
| "eq_props fuel h [] qs stack = Some True"
| "eq_props fuel h ((k, v) # r) qs stack =
     (case obj_get qs k of
        None \<Rightarrow> Some False
      | Some w \<Rightarrow>
          (case eq_f fuel h v w stack of
             Some True \<Rightarrow> eq_props fuel h r qs stack
           | res \<Rightarrow> res))"
  by pat_completeness auto
termination
  by (relation "measures
    [\<lambda>x. case x of Inl (fuel, _) \<Rightarrow> 2 * fuel
        | Inr (Inl (fuel, _)) \<Rightarrow> 2 * fuel + 1 | Inr (Inr (fuel, _)) \<Rightarrow> 2 * fuel + 1,
     \<lambda>x. case x of Inl _ \<Rightarrow> 0
        | Inr (Inl (_, h, r, _)) \<Rightarrow> length r | Inr (Inr (_, h, r, _)) \<Rightarrow> length r]") auto

definition isEqual_u :: "heap \<Rightarrow> jsval \<Rightarrow> jsval \<Rightarrow> bool" where
  "isEqual_u h a b = (case eq_f (Suc (length h)) h a b [] of Some r \<Rightarrow> r | None \<Rightarrow> False)"

section \<open>Enough fuel\<close>

lemma eq_loop_total:
  "(\<And>x y. (x, y) \<in> set r \<Longrightarrow> eq_f fuel h x y st \<noteq> None) \<Longrightarrow> eq_loop fuel h r st \<noteq> None"
proof (induction r)
  case (Cons p r)
  obtain x y where p: "p = (x, y)" by (cases p)
  then obtain b where "eq_f fuel h x y st = Some b" using Cons.prems[of x y] by auto
  with Cons p show ?case by (cases b) auto
qed simp

lemma eq_props_total:
  "(\<And>v w. eq_f fuel h v w st \<noteq> None) \<Longrightarrow> eq_props fuel h r qs st \<noteq> None"
proof (induction r)
  case (Cons p r)
  obtain k v where p: "p = (k, v)" by (cases p)
  show ?case
  proof (cases "obj_get qs k")
    case (Some w)
    obtain b where "eq_f fuel h v w st = Some b" using Cons.prems[of v w] by auto
    with Cons p Some show ?thesis by (cases b) auto
  qed (simp add: p)
qed simp

definition stack_ok :: "heap \<Rightarrow> (nat \<times> nat) list \<Rightarrow> bool" where
  "stack_ok h st \<longleftrightarrow> distinct (map fst st) \<and> fst ` set st \<subseteq> {..< length h}"

lemma stack_ok_length: "stack_ok h st \<Longrightarrow> length st \<le> length h"
proof -
  assume s: "stack_ok h st"
  then have "card (set (map fst st)) = length st" by (metis stack_ok_def distinct_card length_map)
  moreover have "card (set (map fst st)) \<le> card {..< length h}"
    using s by (intro card_mono) (auto simp: stack_ok_def)
  ultimately show ?thesis by simp
qed

lemma stack_ok_push:
  "stack_ok h st \<Longrightarrow> find (\<lambda>p. fst p = ra) st = None \<Longrightarrow> deref h ra \<noteq> OFunction \<Longrightarrow>
   stack_ok h ((ra, rb) # st)"
  by (auto simp: stack_ok_def find_None_iff deref_def split: if_splits)

text \<open>
  Every nested call is made with one more object on the stack, and no object is on it twice: one
  unit of fuel more than there are objects is enough.
\<close>

lemma eq_f_enough:
  "stack_ok h st \<Longrightarrow> length h < fuel + length st \<Longrightarrow> eq_f fuel h a b st \<noteq> None"
proof (induction fuel arbitrary: a b st)
  case 0
  then show ?case using stack_ok_length by fastforce
next
  case (Suc fuel)
  have rec: "eq_f fuel h x y ((ra, rb) # st) \<noteq> None"
    if "find (\<lambda>p. fst p = ra) st = None" "deref h ra \<noteq> OFunction" for x y ra rb
    using that Suc.prems by (intro Suc.IH stack_ok_push) auto
  have l: "eq_loop fuel h r ((ra, rb) # st) \<noteq> None"
    if "find (\<lambda>p. fst p = ra) st = None" "deref h ra \<noteq> OFunction" for r ra rb
    using eq_loop_total rec[OF that] by blast
  have p: "eq_props fuel h r qs ((ra, rb) # st) \<noteq> None"
    if "find (\<lambda>p. fst p = ra) st = None" "deref h ra \<noteq> OFunction" for r qs ra rb
    using eq_props_total rec[OF that] by blast
  show ?case
    using l p by (auto split: js_class.splits jsval.splits jsobj.splits option.splits)
qed

lemma isEqual_f: "eq_f (Suc (length h)) h a b [] = Some (isEqual_u h a b)"
proof -
  have "eq_f (Suc (length h)) h a b [] \<noteq> None"
    by (rule eq_f_enough) (auto simp: stack_ok_def)
  then show ?thesis by (auto simp: isEqual_u_def)
qed

section \<open>Deep equality is equality of trees\<close>

text \<open>The tree a value unfolds to; an object is the finite map of its properties.\<close>

datatype vtree =
    VUndef | VNull | VBool bool | VNum jsnum | VStr string | VFun nat | VDate jsnum | VReg string
  | VArr "vtree list"
  | VObj "string \<Rightarrow> vtree option"

fun tree_n :: "nat \<Rightarrow> heap \<Rightarrow> jsval \<Rightarrow> vtree" where
  "tree_n 0 h v = VUndef"
| "tree_n (Suc n) h v =
     (case v of
        JUndef \<Rightarrow> VUndef | JNull \<Rightarrow> VNull | JBool b \<Rightarrow> VBool b | JNum m \<Rightarrow> VNum m | JStr s \<Rightarrow> VStr s
      | JRef r \<Rightarrow>
          (case deref h r of
             OArray xs \<Rightarrow> VArr (map (tree_n n h) xs)
           | OObject c ps \<Rightarrow> VObj (\<lambda>k. map_option (tree_n n h) (obj_get ps k))
           | OFunction \<Rightarrow> VFun r
           | ODate m \<Rightarrow> VDate m
           | ORegExp s \<Rightarrow> VReg s
           | OString s \<Rightarrow> VStr s
           | ONumber m \<Rightarrow> VNum m
           | OBoolean b \<Rightarrow> VBool b))"

definition tree_of :: "heap \<Rightarrow> jsval \<Rightarrow> vtree" where
  "tree_of h v = tree_n (Suc (Suc (length h))) h v"

fun rank :: "jsval \<Rightarrow> nat" where
  "rank (JRef r) = Suc r"
| "rank _ = 0"

fun components :: "jsobj \<Rightarrow> jsval set" where
  "components (OArray xs) = set xs"
| "components (OObject c ps) = snd ` set ps"
| "components _ = {}"

text \<open>
  Plain acyclic data: objects refer to objects built before them, are made by \<open>Object\<close>, have
  distinct keys, and dates are valid.
\<close>

fun plain_object :: "jsobj \<Rightarrow> bool" where
  "plain_object (OObject c ps) \<longleftrightarrow> (\<exists>i. c = Some (i, True)) \<and> distinct (obj_keys ps)"
| "plain_object (ODate n) \<longleftrightarrow> (\<exists>k. n = Fin k)"
| "plain_object _ \<longleftrightarrow> True"

definition plain_heap :: "heap \<Rightarrow> bool" where
  "plain_heap h \<longleftrightarrow>
     (\<forall>i < length h. plain_object (h ! i) \<and> (\<forall>v \<in> components (h ! i). rank v \<le> i))"

lemma plain_deref:
  "plain_heap h \<Longrightarrow> plain_object (deref h r) \<and> (\<forall>v \<in> components (deref h r). rank v \<le> r)"
  by (auto simp: plain_heap_def deref_def)

lemma tree_n_stable:
  assumes "plain_heap h"
  shows "rank v < n \<Longrightarrow> rank v < m \<Longrightarrow> tree_n n h v = tree_n m h v"
proof (induction n arbitrary: m v)
  case (Suc n)
  then obtain m' where m: "m = Suc m'" by (cases m) auto
  have sub: "tree_n n h w = tree_n m' h w" if "v = JRef r" "w \<in> components (deref h r)" for w r
  proof -
    have "rank w \<le> r" using that plain_deref[OF assms] by auto
    then show ?thesis using Suc.prems m that by (intro Suc.IH) auto
  qed
  show ?case
  proof (cases v)
    case (JRef r)
    have "map (tree_n n h) xs = map (tree_n m' h) xs" if "deref h r = OArray xs" for xs
      using sub[OF JRef] that by auto
    moreover have "map_option (tree_n n h) (obj_get ps k) = map_option (tree_n m' h) (obj_get ps k)"
      if "deref h r = OObject c ps" for c ps k
      using sub[OF JRef] that
      by (cases "obj_get ps k") (auto simp: obj_get_def dest!: set_option_map_of_subset)
    ultimately show ?thesis using JRef m by (auto split: jsobj.splits)
  qed (auto simp: m)
qed simp

lemma tree_of_ref:
  assumes "plain_heap h" "r < length h"
  shows "tree_of h (JRef r) =
    (case deref h r of
       OArray xs \<Rightarrow> VArr (map (tree_of h) xs)
     | OObject c ps \<Rightarrow> VObj (\<lambda>k. map_option (tree_of h) (obj_get ps k))
     | OFunction \<Rightarrow> VFun r | ODate m \<Rightarrow> VDate m | ORegExp s \<Rightarrow> VReg s | OString s \<Rightarrow> VStr s
     | ONumber m \<Rightarrow> VNum m | OBoolean b \<Rightarrow> VBool b)"
proof -
  have st: "tree_n (Suc (length h)) h w = tree_of h w" if "w \<in> components (deref h r)" for w
  proof -
    have "rank w \<le> r" using that plain_deref[OF assms(1)] by auto
    then show ?thesis unfolding tree_of_def using assms by (intro tree_n_stable) auto
  qed
  have "map (tree_n (Suc (length h)) h) xs = map (tree_of h) xs" if "deref h r = OArray xs" for xs
    using st that by auto
  moreover have "map_option (tree_n (Suc (length h)) h) (obj_get ps k) = map_option (tree_of h) (obj_get ps k)"
    if "deref h r = OObject c ps" for c ps k
    using st that by (cases "obj_get ps k") (auto simp: obj_get_def dest!: set_option_map_of_subset)
  ultimately show ?thesis
    by (subst tree_of_def) (auto split: jsobj.splits simp del: tree_n.simps(2) simp: tree_n.simps(2)[of "Suc (length h)"])
qed

lemma tree_of_prim [simp]:
  "tree_of h JUndef = VUndef" "tree_of h JNull = VNull" "tree_of h (JBool b) = VBool b"
  "tree_of h (JNum n) = VNum n" "tree_of h (JStr s) = VStr s"
  by (simp_all add: tree_of_def)

lemma number_case_eq: "number_case a b \<longleftrightarrow> a = b"
  by (cases a; cases b) (auto simp: number_case_def is_zero_def same_recip_def)


definition valid_ref :: "heap \<Rightarrow> jsval \<Rightarrow> bool" where
  "valid_ref h v \<longleftrightarrow> rank v \<le> length h"

lemma valid_component:
  "plain_heap h \<Longrightarrow> r < length h \<Longrightarrow> v \<in> components (deref h r) \<Longrightarrow> valid_ref h v \<and> rank v \<le> r"
  using plain_deref[of h r] by (auto simp: valid_ref_def)

lemma eq_loop_meaning:
  "(\<And>x y b. (x, y) \<in> set r \<Longrightarrow> eq_f fuel h x y st = Some b \<Longrightarrow> b = (T x = T y)) \<Longrightarrow>
   eq_loop fuel h r st = Some res \<Longrightarrow> res = (\<forall>(x, y) \<in> set r. T x = T y)"
proof (induction r)
  case (Cons p r)
  obtain x y where p: "p = (x, y)" by (cases p)
  then obtain b where b: "eq_f fuel h x y st = Some b"
    using Cons.prems(2) by (auto split: option.splits)
  then have t: "b = (T x = T y)" using Cons.prems(1)[of x y b] p by simp
  have IH: "eq_loop fuel h r st = Some res \<Longrightarrow> res = (\<forall>(x, y) \<in> set r. T x = T y)"
    using Cons.IH Cons.prems(1) by (meson list.set_intros(2))
  show ?case
  proof (cases b)
    case True
    then show ?thesis using IH t Cons.prems(2) p b by simp
  next
    case False
    then show ?thesis using t Cons.prems(2) p b by simp
  qed
qed simp

lemma eq_props_meaning:
  "(\<And>k v w b. (k, v) \<in> set r \<Longrightarrow> obj_get qs k = Some w \<Longrightarrow> eq_f fuel h v w st = Some b \<Longrightarrow>
      b = (T v = T w)) \<Longrightarrow>
   eq_props fuel h r qs st = Some res \<Longrightarrow>
   res = (\<forall>(k, v) \<in> set r. map_option T (obj_get qs k) = Some (T v))"
proof (induction r)
  case (Cons p r)
  obtain k v where p: "p = (k, v)" by (cases p)
  show ?case
  proof (cases "obj_get qs k")
    case None
    then show ?thesis using Cons.prems(2) p by auto
  next
    case (Some w)
    then obtain b where b: "eq_f fuel h v w st = Some b"
      using Cons.prems(2) p by (auto split: option.splits)
    then have t: "b = (T v = T w)" using Cons.prems(1)[of k v w b] p Some by simp
    have IH: "eq_props fuel h r qs st = Some res \<Longrightarrow>
        res = (\<forall>(k, v) \<in> set r. map_option T (obj_get qs k) = Some (T v))"
      using Cons.IH Cons.prems(1) by (meson list.set_intros(2))
    show ?thesis
    proof (cases b)
      case True
      then show ?thesis using IH t Cons.prems(2) p b Some by simp
    next
      case False
      then show ?thesis using t Cons.prems(2) p b Some by auto
    qed
  qed
qed simp

lemma same_size_objects:
  assumes "distinct (obj_keys ps)" "distinct (obj_keys qs)"
    and "length (obj_keys qs) = length (obj_keys ps)"
  shows "(\<forall>(k, v) \<in> set ps. map_option T (obj_get qs k) = Some (T v)) \<longleftrightarrow>
    (\<lambda>k. map_option T (obj_get ps k)) = (\<lambda>k. map_option T (obj_get qs k))"
proof
  assume l: "\<forall>(k, v) \<in> set ps. map_option T (obj_get qs k) = Some (T v)"
  have sub: "set (obj_keys ps) \<subseteq> set (obj_keys qs)"
  proof
    fix k assume "k \<in> set (obj_keys ps)"
    then obtain v where "(k, v) \<in> set ps" by auto
    then have "obj_get qs k \<noteq> None" using l by fastforce
    then show "k \<in> set (obj_keys qs)" by (metis has_key_get has_key_def)
  qed
  moreover have "card (set (obj_keys ps)) = card (set (obj_keys qs))"
    using assms by (metis distinct_card)
  ultimately have same: "set (obj_keys ps) = set (obj_keys qs)"
    by (metis card_subset_eq List.finite_set)
  show "(\<lambda>k. map_option T (obj_get ps k)) = (\<lambda>k. map_option T (obj_get qs k))"
  proof
    fix k
    show "map_option T (obj_get ps k) = map_option T (obj_get qs k)"
    proof (cases "obj_get ps k")
      case None
      then have "k \<notin> set (obj_keys qs)"
        using same has_key_get[of ps k] by (simp add: has_key_def)
      then have "obj_get qs k = None" using has_key_get[of qs k] by (simp add: has_key_def)
      then show ?thesis using None by simp
    next
      case (Some v)
      then have "(k, v) \<in> set ps" by (simp add: obj_get_def map_of_SomeD)
      then show ?thesis using l Some by fastforce
    qed
  qed
next
  assume e: "(\<lambda>k. map_option T (obj_get ps k)) = (\<lambda>k. map_option T (obj_get qs k))"
  show "\<forall>(k, v) \<in> set ps. map_option T (obj_get qs k) = Some (T v)"
  proof (rule ballI)
    fix p assume "p \<in> set ps"
    then have "obj_get ps (fst p) = Some (snd p)" using assms(1) by (simp add: obj_get_def)
    then have "map_option T (obj_get qs (fst p)) = Some (T (snd p))"
      using fun_cong[OF e, of "fst p"] by simp
    then show "case p of (k, v) \<Rightarrow> map_option T (obj_get qs k) = Some (T v)"
      by (simp add: case_prod_beta)
  qed
qed

lemma different_size_objects:
  assumes "distinct (obj_keys ps)" "distinct (obj_keys qs)"
    and "length (obj_keys qs) \<noteq> length (obj_keys ps)"
  shows "(\<lambda>k. map_option T (obj_get ps k)) \<noteq> (\<lambda>k. map_option T (obj_get qs k))"
proof
  assume e: "(\<lambda>k. map_option T (obj_get ps k)) = (\<lambda>k. map_option T (obj_get qs k))"
  have "dom (obj_get ps) = dom (obj_get qs)"
    using fun_cong[OF e] unfolding dom_def by (metis option.map_disc_iff)
  then have "set (obj_keys ps) = set (obj_keys qs)" by (simp only: ob.keys_get)
  then show False using assms by (metis distinct_card)
qed

text \<open>Outside the two recursive branches the comparison is immediate.\<close>

lemma eq_f_same_ref: "eq_f (Suc fuel) h (JRef r) (JRef r) st = Some True"
  by simp

lemma obj_class_cases:
  "obj_class ob =
     (case ob of OArray xs \<Rightarrow> CArray | OObject c ps \<Rightarrow> CObject | OFunction \<Rightarrow> CFunction
      | ODate n \<Rightarrow> CDate | ORegExp s \<Rightarrow> CRegExp | OString s \<Rightarrow> CString | ONumber n \<Rightarrow> CNumber
      | OBoolean b \<Rightarrow> CBoolean)"
  by (cases ob) auto

lemma eq_f_ref_prim:
  assumes "plain_heap h" "r < length h" "\<And>s. b \<noteq> JRef s"
  shows "eq_f (Suc fuel) h (JRef r) b st = Some (tree_of h (JRef r) = tree_of h b)"
    and "eq_f (Suc fuel) h b (JRef r) st = Some (tree_of h b = tree_of h (JRef r))"
proof -
  show "eq_f (Suc fuel) h (JRef r) b st = Some (tree_of h (JRef r) = tree_of h b)"
    using assms(3) tree_of_ref[OF assms(1,2)] plain_deref[OF assms(1), of r]
    by (cases b; cases "deref h r") (simp_all add: is_nullish_def number_case_eq)
  show "eq_f (Suc fuel) h b (JRef r) st = Some (tree_of h b = tree_of h (JRef r))"
    using assms(3) tree_of_ref[OF assms(1,2)] plain_deref[OF assms(1), of r]
    by (cases b; cases "deref h r") (simp_all add: is_nullish_def number_case_eq)
qed

lemma eq_f_prims:
  assumes "\<And>s. a \<noteq> JRef s" "\<And>s. b \<noteq> JRef s"
  shows "eq_f (Suc fuel) h a b st = Some (tree_of h a = tree_of h b)"
proof (cases "\<exists>n m. a = JNum n \<and> b = JNum m")
  case True
  then obtain n m where "a = JNum n" "b = JNum m" by blast
  then show ?thesis
    by (cases n; cases m)
       (simp_all add: is_nullish_def number_case_eq is_zero_def same_recip_def)
next
  case False
  then show ?thesis using assms
    by (cases a; cases b) (auto simp: is_nullish_def)
qed

lemma eq_f_tree:
  assumes "plain_heap h"
  shows "valid_ref h a \<Longrightarrow> valid_ref h b \<Longrightarrow> (\<forall>p \<in> set st. rank a \<le> fst p) \<Longrightarrow>
    eq_f fuel h a b st = Some res \<Longrightarrow> res = (tree_of h a = tree_of h b)"
proof (induction fuel arbitrary: a b st res)
  case (Suc fuel)
  show ?case
  proof (cases "\<exists>ra rb. a = JRef ra \<and> b = JRef rb \<and> ra \<noteq> rb")
    case False
    consider (same) r where "a = JRef r" "b = JRef r"
      | (ref_prim) r where "a = JRef r" "\<And>s. b \<noteq> JRef s"
      | (prim_ref) r where "b = JRef r" "\<And>s. a \<noteq> JRef s"
      | (prims) "\<And>s. a \<noteq> JRef s" "\<And>s. b \<noteq> JRef s"
      using False by blast
    then show ?thesis
    proof cases
      case same
      then show ?thesis using Suc.prems(4) by simp
    next
      case ref_prim
      then have "r < length h" using Suc.prems(1) by (simp add: valid_ref_def)
      then show ?thesis
        using Suc.prems(4) ref_prim(1) eq_f_ref_prim(1)[OF assms _ ref_prim(2), of r fuel st] by simp
    next
      case prim_ref
      then have "r < length h" using Suc.prems(2) by (simp add: valid_ref_def)
      then show ?thesis
        using Suc.prems(4) prim_ref(1) eq_f_ref_prim(2)[OF assms _ prim_ref(2), of r fuel st] by simp
    next
      case prims
      then show ?thesis using Suc.prems(4) eq_f_prims[OF prims, of fuel h st] by simp
    qed
  next
    case True
    then obtain ra rb where ab: "a = JRef ra" "b = JRef rb" "ra \<noteq> rb" by blast
    have la: "ra < length h" and lb: "rb < length h" using Suc.prems ab by (auto simp: valid_ref_def)
    have none: "find (\<lambda>p. fst p = ra) st = None"
      using Suc.prems(3) ab by (auto simp: find_None_iff)
    have IH: "r = (tree_of h x = tree_of h y)"
      if "x \<in> components (deref h ra)" "y \<in> components (deref h rb)"
        "eq_f fuel h x y ((ra, rb) # st) = Some r" for x y r
      using valid_component[OF assms la that(1)] valid_component[OF assms lb that(2)] Suc.prems(3) ab
      by (intro Suc.IH[OF _ _ _ that(3)]) fastforce+
    show ?thesis
    proof (cases "(\<exists>xs ys. deref h ra = OArray xs \<and> deref h rb = OArray ys) \<or>
        (\<exists>ca ps cb qs. deref h ra = OObject ca ps \<and> deref h rb = OObject cb qs)")
      case False
      then show ?thesis
        using Suc.prems(4) ab tree_of_ref[OF assms la] tree_of_ref[OF assms lb]
          plain_deref[OF assms, of ra] plain_deref[OF assms, of rb]
        by (cases "deref h ra"; cases "deref h rb")
           (auto simp: is_nullish_def number_case_eq split: if_splits)
    next
      case True
      then consider (arr) xs ys where "deref h ra = OArray xs" "deref h rb = OArray ys"
        | (obj) ca ps cb qs where "deref h ra = OObject ca ps" "deref h rb = OObject cb qs" by blast
      then show ?thesis
      proof cases
        case arr
        show ?thesis
        proof (cases "length xs = length ys")
          case True
          then have "eq_loop fuel h (rev (zip xs ys)) ((ra, rb) # st) = Some res"
            using Suc.prems(4) ab arr none by (simp add: is_nullish_def)
          then have "res = (\<forall>(x, y) \<in> set (rev (zip xs ys)). tree_of h x = tree_of h y)"
            using IH arr by (intro eq_loop_meaning) (auto dest: set_zip_leftD set_zip_rightD)
          also have "\<dots> = (map (tree_of h) xs = map (tree_of h) ys)"
            using True by (auto simp: list_eq_iff_nth_eq set_zip)
          finally show ?thesis using ab arr tree_of_ref[OF assms la] tree_of_ref[OF assms lb] by simp
        next
          case False
          then have "map (tree_of h) xs \<noteq> map (tree_of h) ys" by (metis length_map)
          then show ?thesis using False Suc.prems(4) ab arr none
              tree_of_ref[OF assms la] tree_of_ref[OF assms lb] by (simp add: is_nullish_def)
        qed
      next
        case obj
        have d: "distinct (obj_keys ps)" "distinct (obj_keys qs)" and nm: "\<not> ctor_mismatch ca cb"
          using plain_deref[OF assms, of ra] plain_deref[OF assms, of rb] obj
          by (auto simp: ctor_mismatch_def)
        show ?thesis
        proof (cases "length (obj_keys qs) = length (obj_keys ps)")
          case True
          then have "eq_props fuel h (rev ps) qs ((ra, rb) # st) = Some res"
            using Suc.prems(4) ab obj none nm by (simp add: is_nullish_def)
          then have "res = (\<forall>(k, v) \<in> set (rev ps).
              map_option (tree_of h) (obj_get qs k) = Some (tree_of h v))"
          proof (rule eq_props_meaning[rotated])
            fix k v w b
            assume kv: "(k, v) \<in> set (rev ps)" "obj_get qs k = Some w"
              "eq_f fuel h v w ((ra, rb) # st) = Some b"
            then have "(k, w) \<in> set qs" by (simp add: obj_get_def map_of_SomeD)
            then have "w \<in> components (deref h rb)" using obj by force
            moreover have "v \<in> components (deref h ra)" using kv(1) obj by force
            ultimately show "b = (tree_of h v = tree_of h w)" using IH kv(3) by blast
          qed
          then show ?thesis
            using same_size_objects[OF d True, of "tree_of h"] ab obj
              tree_of_ref[OF assms la] tree_of_ref[OF assms lb] by simp
        next
          case False
          then show ?thesis using different_size_objects[OF d False, of "tree_of h"]
              Suc.prems(4) ab obj none nm tree_of_ref[OF assms la] tree_of_ref[OF assms lb]
            by (simp add: is_nullish_def)
        qed
      qed
    qed
  qed
qed simp

section \<open>Properties\<close>

text \<open>
  C4. On acyclic plain data, \<open>_.isEqual(a, b)\<close> holds exactly when \<open>a\<close> and \<open>b\<close> unfold to the
  same tree, whatever the sharing, the order of the properties and the wrapping of primitives:
  in particular it is an equivalence relation there.
\<close>

theorem isEqual_is_tree_equality:
  assumes "plain_heap h" "valid_ref h a" "valid_ref h b"
  shows "isEqual_u h a b \<longleftrightarrow> tree_of h a = tree_of h b"
  using eq_f_tree[OF assms _ isEqual_f] by simp

theorem isEqual_is_tree_equality_witness:
  "isEqual_u
     [ONumber (Fin 1),
      OObject (Some (0, True)) [(''x'', JRef 0), (''y'', JStr ''s'')],
      OObject (Some (1, True)) [(''y'', JStr ''s''), (''x'', JNum (Fin 1))]] (JRef 1) (JRef 2) \<longleftrightarrow>
   tree_of
     [ONumber (Fin 1),
      OObject (Some (0, True)) [(''x'', JRef 0), (''y'', JStr ''s'')],
      OObject (Some (1, True)) [(''y'', JStr ''s''), (''x'', JNum (Fin 1))]] (JRef 1) =
   tree_of
     [ONumber (Fin 1),
      OObject (Some (0, True)) [(''x'', JRef 0), (''y'', JStr ''s'')],
      OObject (Some (1, True)) [(''y'', JStr ''s''), (''x'', JNum (Fin 1))]] (JRef 2)"
  by (rule isEqual_is_tree_equality)
     (auto simp: plain_heap_def valid_ref_def less_Suc_eq)

text \<open>
  C35. The comparison ends on every heap, cyclic or not, and never looks at the same left-hand
  object twice on one path: one unit of fuel more than the heap has objects gives a result.  On
  cyclic structures the result is not symmetric: with \<open>a = {x: a}\<close> and \<open>b = {x: {x: b}}\<close>,
  \<open>_.isEqual(a, b)\<close> is false and \<open>_.isEqual(b, a)\<close> is true.
\<close>

theorem isEqual_terminates:
  "(\<exists>r. eq_f (Suc (length h)) h a b [] = Some r) \<and>
   (let c = [OObject (Some (0, True)) [(''x'', JRef 0)],
             OObject (Some (0, True)) [(''x'', JRef 2)],
             OObject (Some (0, True)) [(''x'', JRef 1)]]
    in \<not> isEqual_u c (JRef 0) (JRef 1) \<and> isEqual_u c (JRef 1) (JRef 0))"
proof
  show "\<exists>r. eq_f (Suc (length h)) h a b [] = Some r" using isEqual_f by blast
qed (simp add: Let_def isEqual_u_def deref_def is_nullish_def ctor_mismatch_def obj_get_def)

end
