(* ===== verification/UFunc.thy ===== *)
theory UFunc
  imports UObject
begin

text \<open>
  The function combinators of \<open>underscore.js\<close>.  A combinator that keeps variables in its closure
  is a state and a function from that state to the next one; a call of the wrapped function is an
  entry of a log (or a state change of the caller's choosing).  \<open>throttle\<close> and \<open>debounce\<close> run
  against \<open>run_events\<close>, the browser's clock and timers: times never go back, and a timer fires
  once, at its due time or later.  The interface between them is the locale \<open>timed_client\<close>.
\<close>

section \<open>Arguments: partial, bind, wrap\<close>

datatype parg = Placeholder | Bound jsval

definition arg_at :: "jsval list \<Rightarrow> nat \<Rightarrow> jsval" where
  "arg_at arguments i = (if i < length arguments then arguments ! i else JUndef)"

text \<open>The loop that fills the bound arguments, and the one that pushes the remaining ones.\<close>

fun partial_fill :: "parg list \<Rightarrow> jsval list \<Rightarrow> nat \<Rightarrow> jsval list \<Rightarrow> jsval list \<times> nat" where
  "partial_fill [] arguments position args = (args, position)"
| "partial_fill (Placeholder # r) arguments position args =
     partial_fill r arguments (Suc position) (args @ [arg_at arguments position])"
| "partial_fill (Bound v # r) arguments position args =
     partial_fill r arguments position (args @ [v])"

function partial_push :: "jsval list \<Rightarrow> nat \<Rightarrow> jsval list \<Rightarrow> jsval list" where
  "partial_push arguments position args =
     (if position < length arguments
      then partial_push arguments (Suc position) (args @ [arg_at arguments position])
      else args)"
  by auto
termination by (relation "measure (\<lambda>(arguments, position, _). length arguments - position)") auto

declare partial_push.simps [simp del]

definition partial_args :: "parg list \<Rightarrow> jsval list \<Rightarrow> jsval list" where
  "partial_args boundArgs arguments =
     (let (args, position) = partial_fill boundArgs arguments 0 []
      in partial_push arguments position args)"

fun isObject_u :: "jsval \<Rightarrow> bool" where
  "isObject_u (JRef r) = True"
| "isObject_u _ = False"

text \<open>
  \<open>fresh\<close> is the object \<open>baseCreate(sourceFunc.prototype)\<close> makes; \<open>as_new\<close> tells whether the
  bound function was called with \<open>new\<close>.
\<close>

definition executeBound ::
  "(jsval \<Rightarrow> jsval list \<Rightarrow> jsval) \<Rightarrow> bool \<Rightarrow> jsval \<Rightarrow> jsval \<Rightarrow> jsval list \<Rightarrow> jsval" where
  "executeBound sourceFunc as_new fresh context args =
     (if \<not> as_new then sourceFunc context args
      else let r = sourceFunc fresh args in if isObject_u r then r else fresh)"

definition partial_u ::
  "(jsval \<Rightarrow> jsval list \<Rightarrow> jsval) \<Rightarrow> parg list \<Rightarrow> bool \<Rightarrow> jsval \<Rightarrow> jsval \<Rightarrow> jsval list \<Rightarrow> jsval" where
  "partial_u func boundArgs as_new fresh this arguments =
     executeBound func as_new fresh this (partial_args boundArgs arguments)"

definition bind_u ::
  "(jsval \<Rightarrow> jsval list \<Rightarrow> jsval) \<Rightarrow> jsval \<Rightarrow> jsval list \<Rightarrow> bool \<Rightarrow> jsval \<Rightarrow> jsval list \<Rightarrow> jsval" where
  "bind_u func context args as_new fresh arguments =
     executeBound func as_new fresh context (args @ arguments)"

definition wrap_u ::
  "jsval \<Rightarrow> (jsval \<Rightarrow> jsval list \<Rightarrow> jsval) \<Rightarrow> bool \<Rightarrow> jsval \<Rightarrow> jsval \<Rightarrow> jsval list \<Rightarrow> jsval" where
  "wrap_u func wrapper = partial_u wrapper [Bound func]"

text \<open>The reference: placeholders take the call's arguments from the left, the rest follow.\<close>

fun fill_args :: "parg list \<Rightarrow> jsval list \<Rightarrow> jsval list" where
  "fill_args [] rest = rest"
| "fill_args (Bound v # b) rest = v # fill_args b rest"
| "fill_args (Placeholder # b) [] = JUndef # fill_args b []"
| "fill_args (Placeholder # b) (a # rest) = a # fill_args b rest"

lemma partial_push_drop: "partial_push arguments k args = args @ drop k arguments"
proof (induction arguments k args rule: partial_push.induct)
  case (1 arguments k args)
  show ?case
    using 1 by (subst partial_push.simps) (auto simp: arg_at_def Cons_nth_drop_Suc)
qed

lemma partial_fill_args:
  "(let (args', k') = partial_fill b arguments k args in args' @ drop k' arguments) =
   args @ fill_args b (drop k arguments)"
proof (induction b arguments k args rule: partial_fill.induct)
  case (2 r arguments position args)
  then show ?case
    by (cases "position < length arguments") (auto simp: arg_at_def Cons_nth_drop_Suc[symmetric])
qed auto

lemma partial_args_fill: "partial_args b arguments = fill_args b arguments"
  using partial_fill_args[of b arguments 0 "[]"]
  by (simp add: partial_args_def partial_push_drop case_prod_beta)

lemma fill_args_append:
  "fill_args (map Bound vs @ b) rest = vs @ fill_args b rest"
  by (induction vs) auto

section \<open>Calls that count: compose, after, before, once\<close>

primrec compose_loop :: "('a \<Rightarrow> 'a) list \<Rightarrow> nat \<Rightarrow> 'a \<Rightarrow> 'a" where
  "compose_loop fs 0 r = r"
| "compose_loop fs (Suc i) r = compose_loop fs i ((fs ! i) r)"

text \<open>\<open>None\<close>: calling the composition of no function is a TypeError.\<close>

definition compose_u :: "('a \<Rightarrow> 'a) list \<Rightarrow> 'a \<Rightarrow> 'a option" where
  "compose_u fs x =
     (if fs = [] then None
      else let start = length fs - 1 in Some (compose_loop fs start ((fs ! start) x)))"

lemma compose_loop_foldr: "i \<le> length fs \<Longrightarrow> compose_loop fs i r = foldr (\<lambda>f. f) (take i fs) r"
  by (induction i arbitrary: r) (simp_all add: take_Suc_conv_app_nth)

lemma compose_u_foldr: "fs \<noteq> [] \<Longrightarrow> compose_u fs x = Some (foldr (\<lambda>f. f) fs x)"
  by (cases fs rule: rev_cases) (auto simp: compose_u_def Let_def compose_loop_foldr nth_append)

definition after_call :: "('a \<Rightarrow> 'r) \<Rightarrow> int \<Rightarrow> 'a \<Rightarrow> 'r option \<times> int" where
  "after_call func tms x =
     (let tms = tms - 1 in (if tms < 1 then Some (func x) else None, tms))"

record ('a, 'r) before_state =
  b_times :: int
  b_memo :: "'r option"
  b_func :: "('a \<Rightarrow> 'r) option"

definition before_u :: "int \<Rightarrow> ('a \<Rightarrow> 'r) \<Rightarrow> ('a, 'r) before_state" where
  "before_u tms func = \<lparr>b_times = tms, b_memo = None, b_func = Some func\<rparr>"

text \<open>\<open>Inl ()\<close>: the function has been released and calling it is a TypeError.\<close>

definition before_call ::
  "('a, 'r) before_state \<Rightarrow> 'a \<Rightarrow> unit + ('r option \<times> ('a, 'r) before_state)" where
  "before_call st x =
     (let tms = b_times st - 1;
          st = st\<lparr>b_times := tms\<rparr>;
          called = (if tms > 0
                    then (case b_func st of None \<Rightarrow> Inl () | Some f \<Rightarrow> Inr (st\<lparr>b_memo := Some (f x)\<rparr>))
                    else Inr st)
      in case called of
           Inl e \<Rightarrow> Inl e
         | Inr st \<Rightarrow>
             let st = (if tms \<le> 1 then st\<lparr>b_func := None\<rparr> else st)
             in Inr (b_memo st, st))"

fun before_run ::
  "('a, 'r) before_state \<Rightarrow> 'a list \<Rightarrow> unit + 'r option list" where
  "before_run st [] = Inr []"
| "before_run st (x # xs) =
     (case before_call st x of
        Inl e \<Rightarrow> Inl e
      | Inr (r, st') \<Rightarrow> (case before_run st' xs of Inl e \<Rightarrow> Inl e | Inr rs \<Rightarrow> Inr (r # rs)))"

fun after_run :: "('a \<Rightarrow> 'r) \<Rightarrow> int \<Rightarrow> 'a list \<Rightarrow> 'r option list" where
  "after_run func tms [] = []"
| "after_run func tms (x # xs) =
     (let (r, tms') = after_call func tms x in r # after_run func tms' xs)"

definition once_u :: "('a \<Rightarrow> 'r) \<Rightarrow> ('a, 'r) before_state" where
  "once_u = before_u 2"

lemma before_run_spent:
  "t \<le> 1 \<Longrightarrow> before_run \<lparr>b_times = t, b_memo = m, b_func = F\<rparr> xs = Inr (replicate (length xs) m)"
  by (induction xs arbitrary: t F) (auto simp: before_call_def Let_def)

lemma before_run_active:
  "t > 1 \<Longrightarrow> before_run \<lparr>b_times = t, b_memo = m, b_func = Some f\<rparr> xs =
    Inr (map (\<lambda>i. Some (f (xs ! min i (nat t - 2)))) [0..<length xs])"
proof (induction xs arbitrary: t m)
  case (Cons x xs)
  show ?case
  proof (cases "t = 2")
    case True
    then show ?thesis
      by (simp add: before_call_def Let_def before_run_spent map_upt_Suc map_replicate_const
          replicate_length_same del: upt_Suc)
  next
    case False
    then have t: "t - 1 > 1" using Cons.prems by simp
    have "nat t - 2 = Suc (nat (t - 1) - 2)" using t by linarith
    then show ?thesis using Cons.IH[OF t] t
      by (simp add: before_call_def Let_def map_upt_Suc del: upt_Suc)
  qed
qed simp

lemma after_run_eq:
  "after_run f t xs = map (\<lambda>i. if int i + 1 < t then None else Some (f (xs ! i))) [0..<length xs]"
proof (induction xs arbitrary: t)
  case (Cons x xs)
  then show ?case
    by (auto simp: after_call_def Let_def map_upt_Suc simp del: upt_Suc)
qed simp

section \<open>memoize\<close>

text \<open>
  The wrapped function may use the cache itself (a memoized recursive function does), so it maps
  the pair of the cache and the caller's state.
\<close>

definition memoize_call ::
  "('a \<Rightarrow> 'v obj \<times> 's \<Rightarrow> 'v \<times> 'v obj \<times> 's) \<Rightarrow> ('a \<Rightarrow> string) \<Rightarrow> 'a \<Rightarrow> 'v obj \<times> 's \<Rightarrow>
   'v option \<times> 'v obj \<times> 's" where
  "memoize_call func hasher x st =
     (let (cache, s) = st;
          address = hasher x;
          (cache, s) =
            (if has_key cache address then (cache, s)
             else let (v, cache, s) = func x (cache, s) in (obj_put cache address v, s))
      in (obj_get cache address, cache, s))"

fun memoize_run ::
  "('a \<Rightarrow> 'v obj \<times> 's \<Rightarrow> 'v \<times> 'v obj \<times> 's) \<Rightarrow> ('a \<Rightarrow> string) \<Rightarrow> 'a list \<Rightarrow> 'v obj \<times> 's \<Rightarrow>
   'v option list \<times> 'v obj \<times> 's" where
  "memoize_run func hasher [] st = ([], st)"
| "memoize_run func hasher (x # xs) st =
     (let (r, st') = memoize_call func hasher x st;
          (rs, st'') = memoize_run func hasher xs st'
      in (r # rs, st''))"

text \<open>A pure function that logs its calls.\<close>

definition logged :: "('a \<Rightarrow> 'v) \<Rightarrow> 'a \<Rightarrow> 'v obj \<times> 'a list \<Rightarrow> 'v \<times> 'v obj \<times> 'a list" where
  "logged f x st = (f x, fst st, snd st @ [x])"

fun first_per_key :: "('a \<Rightarrow> string) \<Rightarrow> string set \<Rightarrow> 'a list \<Rightarrow> 'a list" where
  "first_per_key key seen [] = []"
| "first_per_key key seen (x # xs) =
     (if key x \<in> seen then first_per_key key seen xs
      else x # first_per_key key (insert (key x) seen) xs)"

lemma first_per_key_distinct:
  "distinct (map key (first_per_key key seen xs)) \<and>
   (\<forall>y \<in> set (first_per_key key seen xs). key y \<notin> seen)"
proof (induction xs arbitrary: seen)
  case (Cons x xs)
  then show ?case using Cons.IH[of seen] Cons.IH[of "insert (key x) seen"] by auto
qed simp

lemma memoize_run_logged:
  "memoize_run (logged f) key xs (cache, log) = (rs, cache', log') \<Longrightarrow>
   log' = log @ first_per_key key (set (obj_keys cache)) xs \<and>
   length rs = length xs \<and>
   (\<forall>i < length xs. rs ! i =
      (case obj_get cache (key (xs ! i)) of
         Some v \<Rightarrow> Some v
       | None \<Rightarrow> map_option f (find (\<lambda>y. key y = key (xs ! i)) xs)))"
proof (induction xs arbitrary: cache log rs)
  case (Cons x xs)
  obtain r cache1 log1 where c: "memoize_call (logged f) key x (cache, log) = (r, cache1, log1)"
    by (metis prod_cases3)
  obtain rs1 where m: "memoize_run (logged f) key xs (cache1, log1) = (rs1, cache', log')"
    and rs: "rs = r # rs1"
    using Cons.prems c by (auto simp: Let_def split: prod.splits)
  note IH = Cons.IH[OF m]
  show ?case
  proof (cases "has_key cache (key x)")
    case True
    then have e: "cache1 = cache" "log1 = log" "r = obj_get cache (key x)"
      using c by (auto simp: memoize_call_def Let_def)
    have in_keys: "key x \<in> set (obj_keys cache)" using True by (simp only: has_key_def)
    have "obj_get cache (key x) \<noteq> None" using True by (simp add: has_key_get)
    then show ?thesis using IH e rs in_keys
      by (auto simp: nth_Cons' less_Suc_eq_0_disj split: option.splits simp del: set_map)
  next
    case False
    then have e: "cache1 = obj_put cache (key x) (f x)" "log1 = log @ [x]" "r = Some (f x)"
      using c by (auto simp: memoize_call_def Let_def logged_def obj_simps)
    have in_keys: "key x \<notin> set (obj_keys cache)" using False unfolding has_key_def .
    have none: "obj_get cache (key x) = None" using False by (simp add: has_key_get)
    have "log' = log @ first_per_key key (set (obj_keys cache)) (x # xs)"
      using IH e in_keys by (simp add: keys_put del: set_map)
    moreover have "rs ! i = (case obj_get cache (key ((x # xs) ! i)) of Some v \<Rightarrow> Some v
        | None \<Rightarrow> map_option f (find (\<lambda>y. key y = key ((x # xs) ! i)) (x # xs)))"
      if "i < length (x # xs)" for i
      using that IH e rs none
      by (cases i) (auto simp: get_put split: option.splits if_splits)
    ultimately show ?thesis using IH rs by simp
  qed
qed simp

section \<open>Timers\<close>

text \<open>
  The environment of a timed wrapper with one timer: a call at a time, or the timer firing at a
  time not before it is due.  \<open>None\<close>: the events are not possible in this order.
\<close>

datatype 'a event = ECall int 'a | EFire int

fun event_time :: "'a event \<Rightarrow> int" where
  "event_time (ECall t a) = t"
| "event_time (EFire t) = t"

fun run_events ::
  "(int \<Rightarrow> 'a \<Rightarrow> 's \<Rightarrow> 's) \<Rightarrow> (int \<Rightarrow> 's \<Rightarrow> 's) \<Rightarrow> ('s \<Rightarrow> int option) \<Rightarrow>
   'a event list \<Rightarrow> int \<times> 's \<Rightarrow> (int \<times> 's) option" where
  "run_events call fire due [] ts = Some ts"
| "run_events call fire due (ECall now a # es) (t, s) =
     (if t \<le> now then run_events call fire due es (now, call now a s) else None)"
| "run_events call fire due (EFire now # es) (t, s) =
     (case due s of
        Some d \<Rightarrow> if t \<le> now \<and> d \<le> now then run_events call fire due es (now, fire now s) else None
      | None \<Rightarrow> None)"

lemma run_events_append:
  "run_events call fire due (es @ es') ts =
     (case run_events call fire due es ts of
        None \<Rightarrow> None | Some ts' \<Rightarrow> run_events call fire due es' ts')"
  by (induction call fire due es ts rule: run_events.induct) (auto split: option.splits)

lemma run_events_snoc_call:
  "run_events call fire due (es @ [ECall now a]) ts = Some (t', s') \<longleftrightarrow>
   (\<exists>t s. run_events call fire due es ts = Some (t, s) \<and> t \<le> now \<and> t' = now \<and> s' = call now a s)"
  by (auto simp: run_events_append split: option.splits if_splits)

lemma run_events_snoc_fire:
  "run_events call fire due (es @ [EFire now]) ts = Some (t', s') \<longleftrightarrow>
   (\<exists>t s d. run_events call fire due es ts = Some (t, s) \<and> due s = Some d \<and> t \<le> now \<and> d \<le> now \<and>
      t' = now \<and> s' = fire now s)"
  by (auto simp: run_events_append split: option.splits if_splits)

text \<open>The last call among the events.\<close>

fun last_call :: "'a event list \<Rightarrow> (int \<times> 'a) option" where
  "last_call [] = None"
| "last_call (e # es) =
     (case last_call es of
        Some c \<Rightarrow> Some c
      | None \<Rightarrow> (case e of ECall t a \<Rightarrow> Some (t, a) | EFire t \<Rightarrow> None))"

lemma last_call_snoc [simp]:
  "last_call (es @ [ECall t a]) = Some (t, a)"
  "last_call (es @ [EFire t]) = last_call es"
  by (induction es) (auto split: option.splits)

lemma last_call_le:
  "run_events call fire due es ts = Some (t', s') \<Longrightarrow> last_call es = Some (tc, a) \<Longrightarrow> tc \<le> t'"
proof (induction es arbitrary: t' s' rule: rev_induct)
  case (snoc e es)
  then show ?case
    by (cases e) (force simp: run_events_snoc_call run_events_snoc_fire)+
qed simp

locale timed_client =
  fixes call :: "int \<Rightarrow> 'a \<Rightarrow> 's \<Rightarrow> 's"
    and fire :: "int \<Rightarrow> 's \<Rightarrow> 's"
    and due :: "'s \<Rightarrow> int option"
    and inv :: "int \<Rightarrow> 's \<Rightarrow> bool"
  assumes call_inv: "inv t s \<Longrightarrow> t \<le> now \<Longrightarrow> inv now (call now a s)"
    and fire_inv: "inv t s \<Longrightarrow> t \<le> now \<Longrightarrow> due s = Some d \<Longrightarrow> d \<le> now \<Longrightarrow> inv now (fire now s)"
begin

lemma run_inv:
  "inv t s \<Longrightarrow> run_events call fire due es (t, s) = Some (t', s') \<Longrightarrow> inv t' s'"
proof (induction es arbitrary: t s)
  case (Cons e es)
  then show ?case
    by (cases e) (auto split: if_splits option.splits dest: call_inv fire_inv)
qed simp

end

section \<open>throttle\<close>

text \<open>
  \<open>th_timeout\<close> is the time the pending timer is due, \<open>th_log\<close> the calls of the wrapped function,
  newest first.  The wrapped function does not call the throttled one.
\<close>

record 'a throttle =
  th_timeout :: "int option"
  th_previous :: int
  th_args :: "'a option"
  th_log :: "(int \<times> 'a option) list"

record options = leading :: bool trailing :: bool

definition throttle_init :: "'a throttle" where
  "throttle_init = \<lparr>th_timeout = None, th_previous = 0, th_args = None, th_log = []\<rparr>"

definition invoke_throttled :: "int \<Rightarrow> 'a throttle \<Rightarrow> 'a throttle" where
  "invoke_throttled now st =
     st\<lparr>th_log := (now, th_args st) # th_log st,
        th_args := (if th_timeout st = None then None else th_args st)\<rparr>"

definition throttle_later :: "options \<Rightarrow> int \<Rightarrow> 'a throttle \<Rightarrow> 'a throttle" where
  "throttle_later opts now st =
     invoke_throttled now
       (st\<lparr>th_previous := (if \<not> leading opts then 0 else now), th_timeout := None\<rparr>)"

definition throttle_call :: "options \<Rightarrow> int \<Rightarrow> int \<Rightarrow> 'a \<Rightarrow> 'a throttle \<Rightarrow> 'a throttle" where
  "throttle_call opts wait now a st =
     (let previous = (if th_previous st = 0 \<and> \<not> leading opts then now else th_previous st);
          st = st\<lparr>th_previous := previous, th_args := Some a\<rparr>;
          remaining = wait - (now - previous)
      in if remaining \<le> 0 \<or> remaining > wait
         then invoke_throttled now (st\<lparr>th_timeout := None, th_previous := now\<rparr>)
         else if th_timeout st = None \<and> trailing opts
         then st\<lparr>th_timeout := Some (now + remaining)\<rparr>
         else st)"

text \<open>
  While no timer is armed nothing older than \<open>wait\<close> after the last call of the function matters;
  a pending timer is due exactly \<open>wait\<close> after \<open>previous\<close>.
\<close>

definition throttle_inv :: "options \<Rightarrow> int \<Rightarrow> int \<Rightarrow> 'a throttle \<Rightarrow> bool" where
  "throttle_inv opts wait t st \<longleftrightarrow>
     0 < t \<and> 0 \<le> th_previous st \<and> th_previous st \<le> t \<and>
     (\<forall>d. th_timeout st = Some d \<longrightarrow>
        th_previous st \<noteq> 0 \<and> d = th_previous st + wait \<or>
        th_previous st = 0 \<and> leading opts \<and> d = wait) \<and>
     (\<forall>d. th_timeout st = Some d \<longrightarrow> th_args st \<noteq> None) \<and>
     (trailing opts \<longrightarrow> th_timeout st = None \<longrightarrow> th_args st = None) \<and>
     (\<forall>e \<in> set (th_log st). fst e \<le> t \<and> snd e \<noteq> None \<and>
        (th_previous st = 0 \<longrightarrow> \<not> leading opts) \<and>
        (th_previous st \<noteq> 0 \<longrightarrow> fst e \<le> th_previous st)) \<and>
     sorted_wrt (\<lambda>e e'. fst e' + wait \<le> fst e) (th_log st)"

lemma throttle_call_inv:
  assumes "0 < wait" "throttle_inv opts wait t st" "t \<le> now"
  shows "throttle_inv opts wait now (throttle_call opts wait now a st)"
  using assms
  by (auto simp: throttle_inv_def throttle_call_def invoke_throttled_def Let_def)

lemma throttle_later_inv:
  assumes "0 < wait" "throttle_inv opts wait t st" "t \<le> now" "th_timeout st = Some d" "d \<le> now"
  shows "throttle_inv opts wait now (throttle_later opts now st)"
  using assms
  by (auto simp: throttle_inv_def throttle_later_def invoke_throttled_def)

lemma throttle_init_inv: "0 < t \<Longrightarrow> throttle_inv opts wait t throttle_init"
  by (simp add: throttle_inv_def throttle_init_def)

definition throttle_run ::
  "options \<Rightarrow> int \<Rightarrow> 'a event list \<Rightarrow> int \<Rightarrow> (int \<times> 'a throttle) option" where
  "throttle_run opts wait es t0 =
     run_events (throttle_call opts wait) (throttle_later opts) th_timeout es (t0, throttle_init)"

section \<open>debounce\<close>

record 'a debounce =
  db_timeout :: "int option"
  db_args :: "'a option"
  db_timestamp :: int
  db_log :: "(int \<times> 'a option) list"

definition debounce_init :: "'a debounce" where
  "debounce_init = \<lparr>db_timeout = None, db_args = None, db_timestamp = 0, db_log = []\<rparr>"

definition debounce_later :: "bool \<Rightarrow> int \<Rightarrow> int \<Rightarrow> 'a debounce \<Rightarrow> 'a debounce" where
  "debounce_later immediate wait now st =
     (let elapsed = now - db_timestamp st
      in if elapsed < wait \<and> 0 \<le> elapsed
         then st\<lparr>db_timeout := Some (now + (wait - elapsed))\<rparr>
         else if immediate then st\<lparr>db_timeout := None\<rparr>
         else st\<lparr>db_timeout := None, db_log := (now, db_args st) # db_log st, db_args := None\<rparr>)"

definition debounce_call :: "bool \<Rightarrow> int \<Rightarrow> int \<Rightarrow> 'a \<Rightarrow> 'a debounce \<Rightarrow> 'a debounce" where
  "debounce_call immediate wait now a st =
     (let st = st\<lparr>db_args := Some a, db_timestamp := now\<rparr>;
          callNow = (immediate \<and> db_timeout st = None);
          st = (if db_timeout st = None then st\<lparr>db_timeout := Some (now + wait)\<rparr> else st)
      in if callNow then st\<lparr>db_log := (now, db_args st) # db_log st, db_args := None\<rparr> else st)"

definition debounce_inv :: "bool \<Rightarrow> int \<Rightarrow> int \<Rightarrow> 'a debounce \<Rightarrow> bool" where
  "debounce_inv immediate wait t st \<longleftrightarrow>
     (\<forall>d. db_timeout st = Some d \<longrightarrow> db_timestamp st \<le> t \<and> d \<le> db_timestamp st + wait) \<and>
     (\<not> immediate \<longrightarrow> (db_timeout st = None \<longleftrightarrow> db_args st = None)) \<and>
     (\<forall>e \<in> set (db_log st). snd e \<noteq> None \<and> fst e \<le> t \<and>
        (db_timeout st \<noteq> None \<longrightarrow> fst e \<le> db_timestamp st) \<and>
        (immediate \<longrightarrow> db_timeout st = None \<longrightarrow> fst e + wait \<le> t)) \<and>
     sorted_wrt (\<lambda>e e'. fst e' + wait \<le> fst e) (db_log st)"

lemma debounce_call_inv:
  assumes "0 < wait" "debounce_inv immediate wait t st" "t \<le> now"
  shows "debounce_inv immediate wait now (debounce_call immediate wait now a st)"
  using assms
  by (auto simp: debounce_inv_def debounce_call_def Let_def)

lemma debounce_later_inv:
  assumes "0 < wait" "debounce_inv immediate wait t st" "t \<le> now"
    "db_timeout st = Some d" "d \<le> now"
  shows "debounce_inv immediate wait now (debounce_later immediate wait now st)"
  using assms
  by (auto simp: debounce_inv_def debounce_later_def Let_def)

definition debounce_run ::
  "bool \<Rightarrow> int \<Rightarrow> 'a event list \<Rightarrow> int \<Rightarrow> (int \<times> 'a debounce) option" where
  "debounce_run immediate wait es t0 =
     run_events (debounce_call immediate wait) (debounce_later immediate wait) db_timeout es
       (t0, debounce_init)"

interpretation th: timed_client "throttle_call opts wait" "throttle_later opts" th_timeout
  "\<lambda>t st. 0 < wait \<and> throttle_inv opts wait t st" for opts wait
  by unfold_locales (auto intro: throttle_call_inv throttle_later_inv)

interpretation db: timed_client "debounce_call immediate wait" "debounce_later immediate wait"
  db_timeout "\<lambda>t st. 0 < wait \<and> debounce_inv immediate wait t st" for immediate wait
  by unfold_locales (auto intro: debounce_call_inv debounce_later_inv)

lemma throttle_run_inv:
  assumes "0 < wait" "0 < t0" "throttle_run opts wait es t0 = Some (t, st)"
  shows "throttle_inv opts wait t st"
  using th.run_inv[of wait opts t0 throttle_init es t st] assms throttle_init_inv
  by (auto simp: throttle_run_def)

lemma debounce_run_inv:
  assumes "0 < wait" "debounce_run immediate wait es t0 = Some (t, st)"
  shows "debounce_inv immediate wait t st"
proof -
  have "debounce_inv immediate wait t0 debounce_init"
    by (simp add: debounce_inv_def debounce_init_def)
  then show ?thesis
    using db.run_inv[of wait immediate t0 debounce_init es t st] assms
    by (auto simp: debounce_run_def)
qed

definition throttle_settled :: "int \<Rightarrow> (int \<times> 'a) option \<Rightarrow> 'a throttle \<Rightarrow> bool" where
  "throttle_settled wait c st \<longleftrightarrow>
     (case c of
        None \<Rightarrow> th_log st = [] \<and> th_timeout st = None
      | Some (tc, a) \<Rightarrow>
          (case th_timeout st of
             Some d \<Rightarrow> th_args st = Some a \<and> d \<le> tc + wait
           | None \<Rightarrow> \<exists>ti l. th_log st = (ti, Some a) # l \<and> tc \<le> ti))"

lemma throttle_run_settled:
  assumes "0 < wait" "0 < t0" "trailing opts" "throttle_run opts wait es t0 = Some (t, st)"
  shows "throttle_settled wait (last_call es) st"
  using assms(4)
proof (induction es arbitrary: t st rule: rev_induct)
  case Nil
  then show ?case by (auto simp: throttle_run_def throttle_settled_def throttle_init_def)
next
  case (snoc e es)
  show ?case
  proof (cases e)
    case (ECall now a)
    then obtain t1 s1 where r: "throttle_run opts wait es t0 = Some (t1, s1)" "t1 \<le> now"
      "st = throttle_call opts wait now a s1"
      using snoc.prems by (auto simp: throttle_run_def run_events_snoc_call)
    have "throttle_inv opts wait t1 s1" using throttle_run_inv assms(1,2) r(1) by blast
    then show ?thesis using r assms(1,3) ECall
      by (auto simp: throttle_settled_def throttle_inv_def throttle_call_def invoke_throttled_def
          Let_def split: option.splits)
  next
    case (EFire now)
    then obtain t1 s1 d where r: "throttle_run opts wait es t0 = Some (t1, s1)" "t1 \<le> now"
      "th_timeout s1 = Some d" "st = throttle_later opts now s1"
      using snoc.prems by (auto simp: throttle_run_def run_events_snoc_fire)
    have "throttle_inv opts wait t1 s1" using throttle_run_inv assms(1,2) r(1) by blast
    moreover have "tc \<le> t1" if "last_call es = Some (tc, a)" for tc a
      by (rule last_call_le[OF r(1)[unfolded throttle_run_def] that])
    ultimately show ?thesis using r snoc.IH[OF r(1)] EFire
      by (fastforce simp: throttle_settled_def throttle_inv_def throttle_later_def invoke_throttled_def
          split: option.splits)
  qed
qed

definition debounce_settled :: "int \<Rightarrow> (int \<times> 'a) option \<Rightarrow> 'a debounce \<Rightarrow> bool" where
  "debounce_settled wait c st \<longleftrightarrow>
     (case c of
        None \<Rightarrow> db_log st = [] \<and> db_timeout st = None
      | Some (tc, a) \<Rightarrow>
          db_timestamp st = tc \<and>
          (case db_timeout st of
             Some d \<Rightarrow> db_args st = Some a \<and> d \<le> tc + wait \<and> (\<forall>e \<in> set (db_log st). fst e \<le> tc)
           | None \<Rightarrow> \<exists>ti l. db_log st = (ti, Some a) # l \<and> tc + wait \<le> ti))"

lemma debounce_run_settled:
  assumes "0 < wait" "debounce_run False wait es t0 = Some (t, st)"
  shows "debounce_settled wait (last_call es) st"
  using assms(2)
proof (induction es arbitrary: t st rule: rev_induct)
  case Nil
  then show ?case by (auto simp: debounce_run_def debounce_settled_def debounce_init_def)
next
  case (snoc e es)
  show ?case
  proof (cases e)
    case (ECall now a)
    then obtain t1 s1 where r: "debounce_run False wait es t0 = Some (t1, s1)" "t1 \<le> now"
      "st = debounce_call False wait now a s1"
      using snoc.prems by (auto simp: debounce_run_def run_events_snoc_call)
    have "debounce_inv False wait t1 s1" using debounce_run_inv assms(1) r(1) by blast
    then show ?thesis using r ECall
      by (fastforce simp: debounce_settled_def debounce_inv_def debounce_call_def Let_def
          split: option.splits)
  next
    case (EFire now)
    then obtain t1 s1 d where r: "debounce_run False wait es t0 = Some (t1, s1)" "t1 \<le> now"
      "db_timeout s1 = Some d" "st = debounce_later False wait now s1"
      using snoc.prems by (auto simp: debounce_run_def run_events_snoc_fire)
    have "debounce_inv False wait t1 s1" using debounce_run_inv assms(1) r(1) by blast
    then show ?thesis using r snoc.IH[OF r(1)] EFire
      by (auto simp: debounce_settled_def debounce_inv_def debounce_later_def Let_def
          split: option.splits)
  qed
qed

section \<open>Properties\<close>

text \<open>
  C24. However calls and timers interleave, two executions of a debounced function are at least
  \<open>wait\<close> apart; in the trailing mode, the arguments of the last call are either still waiting
  under a timer due at most \<open>wait\<close> after that call, or were those of the last execution, at least
  \<open>wait\<close> after it.
\<close>

theorem debounce_correct:
  assumes "0 < wait" "debounce_run immediate wait es t0 = Some (t, st)"
  shows "sorted_wrt (\<lambda>e e'. fst e' + wait \<le> fst e) (db_log st) \<and>
    (\<not> immediate \<longrightarrow> debounce_settled wait (last_call es) st)"
  using debounce_run_inv[OF assms] debounce_run_settled[OF assms(1)] assms(2)
  by (auto simp: debounce_inv_def)

theorem debounce_correct_witness:
  "let es = [ECall 5 ''a'', ECall 12 ''b'', EFire 15, EFire 22, ECall 30 ''c'']
   in case debounce_run False 10 es 1 of
        None \<Rightarrow> False
      | Some (t, st) \<Rightarrow>
          db_log st = [(22, Some ''b'')] \<and> sorted_wrt (\<lambda>e e'. fst e' + 10 \<le> fst e) (db_log st) \<and>
          debounce_settled 10 (Some (30, ''c'')) st"
proof -
  have r: "debounce_run False 10
      [ECall 5 ''a'', ECall 12 ''b'', EFire 15, EFire 22, ECall 30 ''c''] 1 =
    Some (30, \<lparr>db_timeout = Some 40, db_args = Some ''c'', db_timestamp = 30,
               db_log = [(22, Some ''b'')]\<rparr>)"
    by (simp add: debounce_run_def debounce_call_def debounce_later_def debounce_init_def Let_def)
  show ?thesis using debounce_correct[OF _ r] r by simp
qed

text \<open>
  C23. Two executions of a throttled function are at least \<open>wait\<close> apart, with every combination
  of the options; unless \<open>trailing\<close> is off, the last call's arguments are those of an execution
  not before it, or wait under a timer that is due within \<open>wait\<close>.
\<close>

theorem throttle_correct:
  assumes "0 < wait" "0 < t0" "throttle_run opts wait es t0 = Some (t, st)"
  shows "sorted_wrt (\<lambda>e e'. fst e' + wait \<le> fst e) (th_log st) \<and>
    (trailing opts \<longrightarrow> throttle_settled wait (last_call es) st)"
  using throttle_run_inv[OF assms] throttle_run_settled[OF assms(1,2)] assms(3)
  by (auto simp: throttle_inv_def)

theorem throttle_correct_witness:
  "let es = [ECall 50 ''a'', ECall 53 ''b'', ECall 55 ''c'', EFire 61, ECall 62 ''d'']
   in case throttle_run \<lparr>leading = True, trailing = True\<rparr> 10 es 1 of
        None \<Rightarrow> False
      | Some (t, st) \<Rightarrow>
          th_log st = [(61, Some ''c''), (50, Some ''a'')] \<and>
          sorted_wrt (\<lambda>e e'. fst e' + 10 \<le> fst e) (th_log st) \<and>
          throttle_settled 10 (Some (62, ''d'')) st"
proof -
  have r: "throttle_run \<lparr>leading = True, trailing = True\<rparr> 10
      [ECall 50 ''a'', ECall 53 ''b'', ECall 55 ''c'', EFire 61, ECall 62 ''d''] 1 =
    Some (62, \<lparr>th_timeout = Some 71, th_previous = 61, th_args = Some ''d'',
               th_log = [(61, Some ''c''), (50, Some ''a'')]\<rparr>)"
    by (simp add: throttle_run_def throttle_call_def throttle_later_def throttle_init_def
        invoke_throttled_def Let_def)
  show ?thesis using throttle_correct[OF _ _ r] r by simp
qed

text \<open>
  Called in any sequence, a memoized function runs once per address, on the first argument
  that has it, and every call returns the value of that run.
\<close>

theorem memoize_correct:
  "\<exists>rs cache log. memoize_run (logged f) key xs ([], []) = (rs, cache, log) \<and>
     log = first_per_key key {} xs \<and> distinct (map key log) \<and>
     rs = map (\<lambda>x. map_option f (find (\<lambda>y. key y = key x) xs)) xs"
proof -
  obtain rs cache log where r: "memoize_run (logged f) key xs ([], []) = (rs, cache, log)"
    by (metis prod_cases3)
  note M = memoize_run_logged[OF r]
  have "rs = map (\<lambda>x. map_option f (find (\<lambda>y. key y = key x) xs)) xs"
    using M by (intro nth_equalityI) (auto simp: get_empty)
  then show ?thesis using M r first_per_key_distinct[of key "{}" xs] by simp
qed

text \<open>
  \<open>_.before(n, f)\<close> runs \<open>f\<close> on the first \<open>n - 1\<close> calls and then repeats the last result
  without ever touching the released function (\<open>_.once\<close> is \<open>n = 2\<close>); \<open>_.after(n, f)\<close> runs it
  from the \<open>n\<close>-th call on; \<open>_.compose\<close> is composition, right to left; and filling arguments twice
  with \<open>_.partial\<close> is filling them once.
\<close>

theorem call_combinators:
  "before_run (before_u n f) xs =
     Inr (map (\<lambda>i. if n \<le> 1 then None else Some (f (xs ! min i (nat n - 2)))) [0..<length xs]) \<and>
   before_run (once_u f) (x # xs) = Inr (replicate (Suc (length xs)) (Some (f x))) \<and>
   after_run f n xs =
     map (\<lambda>i. if int i + 1 < n then None else Some (f (xs ! i))) [0..<length xs] \<and>
   compose_u (fs @ [g]) x = Some (foldr (\<lambda>f. f) fs (g x)) \<and>
   partial_args (map Bound us @ b) args = us @ partial_args b args \<and>
   partial_args b args = fill_args b args"
proof -
  have "before_run (before_u n f) xs =
     Inr (map (\<lambda>i. if n \<le> 1 then None else Some (f (xs ! min i (nat n - 2)))) [0..<length xs])"
    by (cases "n \<le> 1")
       (simp_all add: before_u_def before_run_spent before_run_active map_replicate_trivial
          map_replicate_const)
  moreover have "before_run (once_u f) (x # xs) = Inr (replicate (Suc (length xs)) (Some (f x)))"
    unfolding once_u_def before_u_def
    by (simp only: before_run_active[of 2]) (simp add: map_replicate_const del: upt_Suc)
  ultimately show ?thesis
    by (simp add: after_run_eq compose_u_foldr partial_args_fill fill_args_append)
qed

end
