(* ===== verification/UText.thy ===== *)
theory UText
  imports UObject
begin

text \<open>
  Strings in \<open>underscore.js\<close>: \<open>_.escape\<close> and \<open>_.unescape\<close>, \<open>_.uniqueId\<close>, \<open>_.result\<close>, the wrapper
  objects of \<open>_.chain\<close>, and the compiler \<open>_.template\<close> up to the source text it hands to
  \<open>new Function\<close>.
\<close>

section \<open>Escaping\<close>

definition escapeMap :: "string obj" where
  "escapeMap =
     [(''&'', ''&amp;''), (''<'', ''&lt;''), (''>'', ''&gt;''), ([CHR 0x22], ''&quot;''),
      ([CHR 0x27], ''&#x27;''), ([CHR 0x60], ''&#x60;'')]"

definition unescapeMap :: "string obj" where
  "unescapeMap = invert_u escapeMap"

text \<open>
  \<open>string.replace(RegExp('(?:k1|k2|...)', 'g'), escaper)\<close> for non-empty keys without special
  characters: at each position the first key that matches is replaced.
\<close>

function replace_keys :: "string obj \<Rightarrow> string \<Rightarrow> string" where
  "replace_keys m [] = []"
| "replace_keys m (c # cs) =
     (case find (\<lambda>kv. is_prefix (fst kv) (c # cs)) m of
        None \<Rightarrow> c # replace_keys m cs
      | Some (k, v) \<Rightarrow> v @ replace_keys m (drop (length k - 1) cs))"
  by pat_completeness auto
termination by (relation "measure (\<lambda>(m, s). length s)") auto

fun test_keys :: "string obj \<Rightarrow> string \<Rightarrow> bool" where
  "test_keys m [] = False"
| "test_keys m (c # cs) \<longleftrightarrow> (\<exists>kv \<in> set m. is_prefix (fst kv) (c # cs)) \<or> test_keys m cs"

definition createEscaper :: "string obj \<Rightarrow> string option \<Rightarrow> string" where
  "createEscaper m str =
     (let str = (case str of None \<Rightarrow> [] | Some s \<Rightarrow> s)
      in if test_keys m str then replace_keys m str else str)"

definition escape_u :: "string option \<Rightarrow> string" where
  "escape_u = createEscaper escapeMap"

definition unescape_u :: "string option \<Rightarrow> string" where
  "unescape_u = createEscaper unescapeMap"

lemma replace_keys_untested: "\<not> test_keys m s \<Longrightarrow> replace_keys m s = s"
proof (induction s)
  case (Cons c cs)
  then have "find (\<lambda>kv. is_prefix (fst kv) (c # cs)) m = None" by (auto simp: find_None_iff)
  then show ?case using Cons by simp
qed simp

lemma createEscaper_replace: "createEscaper m (Some s) = replace_keys m s"
  by (simp add: createEscaper_def replace_keys_untested)

definition entity :: "char \<Rightarrow> string" where
  "entity c = (case obj_get escapeMap [c] of None \<Rightarrow> [c] | Some e \<Rightarrow> e)"

lemma escape_Cons: "replace_keys escapeMap (c # cs) = entity c @ replace_keys escapeMap cs"
  by (simp add: escapeMap_def entity_def obj_get_def)

lemma escape_entities: "replace_keys escapeMap s = concat (map entity s)"
  by (induction s) (simp_all only: escape_Cons replace_keys.simps(1) list.map concat.simps)

lemma is_index_digits: "is_index k \<Longrightarrow> c \<in> set k \<Longrightarrow> is_digit c"
  unfolding is_index_def by (metis dec_digits)

lemma amp_not_index: "\<not> is_index (CHR ''&'' # s)"
  using is_index_digits[of "CHR ''&'' # s" "CHR ''&''"] by (auto simp: is_digit_def)

lemma unescapeMap_eq:
  "unescapeMap =
     [(''&amp;'', ''&''), (''&lt;'', ''<''), (''&gt;'', ''>''), (''&quot;'', [CHR 0x22]),
      (''&#x27;'', [CHR 0x27]), (''&#x60;'', [CHR 0x60])]"
  unfolding unescapeMap_def invert_u_def escapeMap_def
  by (simp add: obj_put_def has_key_def create_not_index amp_not_index key_before_def)

lemma unescape_entity: "replace_keys unescapeMap (entity c @ s) = c # replace_keys unescapeMap s"
proof (cases "c \<in> {CHR ''&'', CHR ''<'', CHR ''>'', CHR 0x22, CHR 0x27, CHR 0x60}")
  case True
  then show ?thesis
    by (elim insertE; simp add: entity_def escapeMap_def unescapeMap_eq obj_get_def)
next
  case False
  then have "CHR ''&'' \<noteq> c" and "entity c = [c]" by (auto simp: entity_def escapeMap_def obj_get_def)
  then show ?thesis by (simp add: unescapeMap_eq)
qed

lemma unescape_escape: "replace_keys unescapeMap (concat (map entity s)) = s"
  by (induction s) (simp_all add: unescape_entity)

lemma entity_safe:
  "x \<in> set (entity c) \<Longrightarrow> x \<notin> {CHR ''<'', CHR ''>'', CHR 0x22, CHR 0x27, CHR 0x60}"
  by (cases "c \<in> {CHR ''&'', CHR ''<'', CHR ''>'', CHR 0x22, CHR 0x27, CHR 0x60}")
     (auto simp: entity_def escapeMap_def obj_get_def)

section \<open>Identifiers, results, chains\<close>

definition uniqueId_u :: "string \<Rightarrow> nat \<Rightarrow> string \<times> nat" where
  "uniqueId_u pre idCounter =
     (let idCounter = Suc idCounter; id = dec idCounter
      in (if pre \<noteq> [] then pre @ id else id, idCounter))"

fun uniqueId_run :: "string list \<Rightarrow> nat \<Rightarrow> string list" where
  "uniqueId_run [] k = []"
| "uniqueId_run (p # ps) k = (let (i, k') = uniqueId_u p k in i # uniqueId_run ps k')"

lemma uniqueId_run_nth:
  "i < length ps \<Longrightarrow> uniqueId_run ps k ! i = ps ! i @ dec (k + Suc i)"
  by (induction ps arbitrary: i k) (auto simp: uniqueId_u_def Let_def nth_Cons' split: if_splits)

lemma length_uniqueId_run [simp]: "length (uniqueId_run ps k) = length ps"
  by (induction ps arbitrary: k) (auto simp: uniqueId_u_def Let_def)

lemma takeWhile_digits_dec:
  "p = [] \<or> \<not> is_digit (last p) \<Longrightarrow> takeWhile is_digit (rev (p @ dec n)) = rev (dec n)"
proof -
  assume p: "p = [] \<or> \<not> is_digit (last p)"
  have "takeWhile is_digit (rev (dec n) @ rev p) = rev (dec n) @ takeWhile is_digit (rev p)"
    using dec_digits[of _ n] by (intro takeWhile_append2) simp
  moreover have "takeWhile is_digit (rev p) = []" using p by (cases p rule: rev_cases) auto
  ultimately show ?thesis by simp
qed

lemma uniqueId_distinct:
  assumes "\<And>p. p \<in> set ps \<Longrightarrow> p = [] \<or> \<not> is_digit (last p)"
  shows "distinct (uniqueId_run ps k)"
proof -
  have "i = j" if "i < length ps" "j < length ps" "ps ! i @ dec (k + Suc i) = ps ! j @ dec (k + Suc j)" for i j
  proof -
    have "rev (dec (k + Suc i)) = rev (dec (k + Suc j))"
      using takeWhile_digits_dec[OF assms[OF nth_mem[OF that(1)]], of "k + Suc i"]
        takeWhile_digits_dec[OF assms[OF nth_mem[OF that(2)]], of "k + Suc j"] that(3)
      by (simp only:)
    then show ?thesis by (simp only: rev_is_rev_conv dec_inject)
  qed
  then show ?thesis unfolding distinct_conv_nth by (metis uniqueId_run_nth length_uniqueId_run)
qed

text \<open>With prefixes that end in digits the identifiers can clash.\<close>

lemma uniqueId_clash:
  "fst (uniqueId_u ''1'' 0) = fst (uniqueId_u [] 10)"
  by (simp add: uniqueId_u_def dec.simps digit_char_def char_of_def bit_0)

datatype member = Value jsval | Method "pobj option \<Rightarrow> jsval"

definition result_u :: "(pobj \<times> (string \<Rightarrow> member)) option \<Rightarrow> string \<Rightarrow> member \<Rightarrow> jsval" where
  "result_u ob prop fallback =
     (let v = (case ob of None \<Rightarrow> Value JUndef | Some (self, members) \<Rightarrow> members prop);
          v = (if v = Value JUndef then fallback else v)
      in case v of Value x \<Rightarrow> x | Method f \<Rightarrow> f (map_option fst ob))"

text \<open>
  A wrapper holds a value and whether its methods are to be chained; a method applies a function
  of the library to the value.
\<close>

record 'v wrapper =
  wrapped :: 'v
  chained :: bool

datatype 'v answer = Wrapped "'v wrapper" | Plain 'v

definition chain_u :: "'v \<Rightarrow> 'v wrapper" where
  "chain_u v = \<lparr>wrapped = v, chained = True\<rparr>"

definition wrap_result :: "'v wrapper \<Rightarrow> 'v \<Rightarrow> 'v answer" where
  "wrap_result inst v = (if chained inst then Wrapped (chain_u v) else Plain v)"

definition mixin_method :: "('v \<Rightarrow> 'b list \<Rightarrow> 'v) \<Rightarrow> 'v wrapper \<Rightarrow> 'b list \<Rightarrow> 'v answer" where
  "mixin_method func inst args = wrap_result inst (func (wrapped inst) args)"

fun chain_run :: "'v wrapper \<Rightarrow> (('v \<Rightarrow> 'b list \<Rightarrow> 'v) \<times> 'b list) list \<Rightarrow> 'v answer" where
  "chain_run inst [] = Wrapped inst"
| "chain_run inst ((f, args) # r) =
     (case mixin_method f inst args of Wrapped inst' \<Rightarrow> chain_run inst' r | Plain v \<Rightarrow> Plain v)"

lemma chain_run_fold:
  "chain_run (chain_u v) ms = Wrapped (chain_u (fold (\<lambda>(f, args) v. f v args) ms v))"
  by (induction ms arbitrary: v) (auto simp: mixin_method_def wrap_result_def chain_u_def)

section \<open>Templates\<close>

datatype tmatch = TEscape string | TInterpolate string | TEvaluate string | TEnd

text \<open>One alternative of the matcher: an opening delimiter, \<open>[\s\S]+?\<close>, and the closing one.\<close>

definition delim_at :: "string \<Rightarrow> string \<Rightarrow> string option" where
  "delim_at opening t =
     (if is_prefix opening t
      then (case drop (length opening) t of
              [] \<Rightarrow> None
            | c # r \<Rightarrow> map_option (\<lambda>i. c # take i r) (find_sub ''%>'' r))
      else None)"

definition match_at :: "string \<Rightarrow> (tmatch \<times> nat) option" where
  "match_at t =
     (case delim_at ''<%-'' t of
        Some e \<Rightarrow> Some (TEscape e, 5 + length e)
      | None \<Rightarrow>
        (case delim_at ''<%='' t of
           Some e \<Rightarrow> Some (TInterpolate e, 5 + length e)
         | None \<Rightarrow>
           (case delim_at ''<%'' t of
              Some e \<Rightarrow> Some (TEvaluate e, 4 + length e)
            | None \<Rightarrow> if t = [] then Some (TEnd, 0) else None)))"

text \<open>All matches in order, each with its offset and length; the last one is the empty match at the end.\<close>

function template_matches :: "string \<Rightarrow> nat \<Rightarrow> (tmatch \<times> nat \<times> nat) list" where
  "template_matches tx pos =
     (if pos > length tx then []
      else case match_at (drop pos tx) of
             None \<Rightarrow> template_matches tx (Suc pos)
           | Some (m, n) \<Rightarrow>
               if n = 0 then [(m, pos, n)] else (m, pos, n) # template_matches tx (pos + n))"
  by auto
termination by (relation "measure (\<lambda>(tx, pos). Suc (length tx) - pos)") auto

declare template_matches.simps [simp del]

fun escapeChar :: "char \<Rightarrow> string" where
  "escapeChar c =
     (if c = CHR 0x5C then [CHR 0x5C, CHR 0x5C]
      else if c = CHR 0x27 then [CHR 0x5C, CHR 0x27]
      else if c = CHR 0x0D then [CHR 0x5C, CHR ''r'']
      else if c = CHR 0x0A then [CHR 0x5C, CHR ''n'']
      else [c])"

definition escape_literal :: "string \<Rightarrow> string" where
  "escape_literal s = concat (map escapeChar s)"

definition nl :: string where "nl = [CHR 0x0A]"
definition quote :: string where "quote = [CHR 0x27]"

fun template_code :: "tmatch \<Rightarrow> string" where
  "template_code (TEscape e) =
     quote @ ''+'' @ nl @ ''((__t=('' @ e @ ''))==null?'' @ quote @ quote @ '':_.escape(__t))+'' @ nl @ quote"
| "template_code (TInterpolate e) =
     quote @ ''+'' @ nl @ ''((__t=('' @ e @ ''))==null?'' @ quote @ quote @ '':__t)+'' @ nl @ quote"
| "template_code (TEvaluate e) = quote @ '';'' @ nl @ e @ nl @ ''__p+='' @ quote"
| "template_code TEnd = []"

fun template_step :: "string \<Rightarrow> tmatch \<times> nat \<times> nat \<Rightarrow> nat \<times> string \<Rightarrow> nat \<times> string" where
  "template_step tx (m, offset, len) (index, source) =
     (offset + len,
      source @ escape_literal (slice tx (int index) (int offset)) @ template_code m)"

text \<open>What follows the last piece, and the frame around the whole.\<close>

definition template_frame :: "string option \<Rightarrow> string \<Rightarrow> string" where
  "template_frame variable source =
     (let source = source @ quote @ '';'' @ nl;
          source = (if variable = None \<or> variable = Some []
                    then ''with(obj||{}){'' @ nl @ source @ ''}'' @ nl
                    else source)
      in ''var __t,__p='' @ quote @ quote @ '',__j=Array.prototype.join,'' @
         ''print=function(){__p+=__j.call(arguments,'' @ quote @ quote @ '');};'' @ nl @
         source @ ''return __p;'' @ nl)"

definition template_source :: "string \<Rightarrow> string option \<Rightarrow> string" where
  "template_source tx variable =
     template_frame variable (snd (fold (template_step tx) (template_matches tx 0) (0, ''__p+='' @ quote)))"

text \<open>Reading a single-quoted literal up to its closing quote.\<close>

fun read_literal :: "string \<Rightarrow> (string \<times> string) option" where
  "read_literal [] = None"
| "read_literal (c # r) =
     (if c = CHR 0x27 then Some ([], r)
      else if c = CHR 0x0A \<or> c = CHR 0x0D then None
      else if c = CHR 0x5C then
        (case r of
           [] \<Rightarrow> None
         | e # r' \<Rightarrow>
             map_option (\<lambda>(s, r''). ((if e = CHR ''r'' then CHR 0x0D
                                      else if e = CHR ''n'' then CHR 0x0A else e) # s, r''))
               (read_literal r'))
      else map_option (\<lambda>(s, r''). (c # s, r'')) (read_literal r))"

lemma read_escape_literal: "read_literal (escape_literal s @ quote @ r) = Some (s, r)"
  by (induction s) (auto simp: escape_literal_def quote_def)

text \<open>The template between its matches, and the text a match stands for.\<close>

fun match_text :: "tmatch \<Rightarrow> string" where
  "match_text (TEscape e) = ''<%-'' @ e @ ''%>''"
| "match_text (TInterpolate e) = ''<%='' @ e @ ''%>''"
| "match_text (TEvaluate e) = ''<%'' @ e @ ''%>''"
| "match_text TEnd = []"

lemma delim_at_Some:
  assumes "delim_at opening t = Some e"
  shows "prefix (opening @ e @ ''%>'') t" "e \<noteq> []"
proof -
  obtain c r i where t: "t = opening @ c # r" and i: "find_sub ''%>'' r = Some i"
    and e: "e = c # take i r"
    using assms
    by (auto simp: delim_at_def is_prefix_prefix prefix_def split: if_splits list.splits)
  have "prefix ''%>'' (drop i r)" using i by (simp add: find_sub_Some)
  then have "prefix (take i r @ ''%>'') r"
    by (metis append_take_drop_id same_prefix_prefix)
  then show "prefix (opening @ e @ ''%>'') t" "e \<noteq> []" using t e by auto
qed

lemma match_at_text:
  assumes "match_at t = Some (m, n)"
  shows "prefix (match_text m) t" "n = length (match_text m)" "n = 0 \<longleftrightarrow> t = []"
  using assms delim_at_Some[of "''<%-''" t] delim_at_Some[of "''<%=''" t] delim_at_Some[of "''<%''" t]
  by (auto simp: match_at_def split: option.splits if_splits)

lemma match_at_None: "match_at t = None \<Longrightarrow> t \<noteq> []"
  by (auto simp: match_at_def split: option.splits if_splits)

text \<open>The compiled body, piece by piece; the pieces and the matches put together are the template.\<close>

fun template_pieces :: "string \<Rightarrow> (tmatch \<times> nat \<times> nat) list \<Rightarrow> nat \<Rightarrow> (string \<times> tmatch) list" where
  "template_pieces tx [] index = []"
| "template_pieces tx ((m, offset, len) # ms) index =
     (take (offset - index) (drop index tx), m) # template_pieces tx ms (offset + len)"

lemma template_fold_pieces:
  "snd (fold (template_step tx) ms (index, source)) =
   source @ concat (map (\<lambda>(lit, m). escape_literal lit @ template_code m) (template_pieces tx ms index))"
  by (induction ms arbitrary: index source) (auto simp: slice_nonneg)

lemma template_pieces_text:
  assumes "index \<le> pos" "pos \<le> length tx"
  shows "concat (map (\<lambda>(lit, m). lit @ match_text m)
      (template_pieces tx (template_matches tx pos) index)) = drop index tx"
  using assms
proof (induction tx pos arbitrary: index rule: template_matches.induct)
  case (1 tx pos)
  show ?case
  proof (cases "match_at (drop pos tx)")
    case None
    then have "pos < length tx" using match_at_None[OF None] 1(4) by simp
    then have "concat (map (\<lambda>(lit, m). lit @ match_text m)
        (template_pieces tx (template_matches tx (Suc pos)) index)) = drop index tx"
      using 1(1)[OF _ None] 1(3,4) by simp
    then show ?thesis using None 1(4) by (subst template_matches.simps) simp
  next
    case (Some mn)
    obtain m n where mn: "mn = (m, n)" by (cases mn)
    note M = match_at_text[OF Some[unfolded mn]]
    obtain r where r: "drop pos tx = match_text m @ r" using M(1) by (auto simp: prefix_def)
    have front: "drop index tx = take (pos - index) (drop index tx) @ drop pos tx"
      using 1(3) by (metis append_take_drop_id drop_drop le_add_diff_inverse2)
    show ?thesis
    proof (cases "n = 0")
      case True
      then have "match_text m = []" "drop pos tx = []" using M by auto
      then show ?thesis using Some mn True 1(4) front
        by (subst template_matches.simps) simp
    next
      case False
      have le: "pos + n \<le> length tx"
        using r M(2) 1(4) by (metis append_eq_conv_conj drop_drop length_append length_drop
            le_add1 le_add_diff_inverse add_le_cancel_left)
      have "drop (pos + n) tx = r" using r M(2) by (metis add.commute append_eq_conv_conj drop_drop)
      moreover have "concat (map (\<lambda>(lit, m). lit @ match_text m)
          (template_pieces tx (template_matches tx (pos + n)) (pos + n))) = drop (pos + n) tx"
        using 1(2)[OF _ Some mn[symmetric] False, of "pos + n"] 1(4) le by simp
      ultimately show ?thesis using Some mn False 1(4) front r
        by (subst template_matches.simps) simp
    qed
  qed
qed

section \<open>Properties\<close>

text \<open>
  \<open>_.unescape(_.escape(s))\<close> is \<open>s\<close>, and the escaped text holds none of the characters that
  could leave HTML text or an attribute value.
\<close>

theorem escape_roundtrip:
  "unescape_u (Some (escape_u (Some s))) = s \<and>
   set (escape_u (Some s)) \<inter> {CHR ''<'', CHR ''>'', CHR 0x22, CHR 0x27, CHR 0x60} = {}"
  using entity_safe
  by (auto simp: escape_u_def unescape_u_def createEscaper_replace escape_entities unescape_escape
      simp del: insert_iff)

text \<open>
  C36. \<open>_.template\<close> loses nothing: its source is the fixed frame around the pieces in order, the
  pieces and the delimited code put back together are the template, and every piece of literal
  text, escaped, is read back by a JavaScript parser up to the closing quote the compiler adds.
\<close>

theorem template_lossless:
  "\<exists>pieces.
     concat (map (\<lambda>(lit, m). lit @ match_text m) pieces) = tx \<and>
     template_source tx variable =
       template_frame variable (''__p+='' @ quote @
         concat (map (\<lambda>(lit, m). escape_literal lit @ template_code m) pieces)) \<and>
     list_all (\<lambda>(lit, m). \<forall>rest. read_literal (escape_literal lit @ quote @ rest) = Some (lit, rest)) pieces"
  using template_pieces_text[of 0 0 tx] read_escape_literal
  by (intro exI[of _ "template_pieces tx (template_matches tx 0) 0"])
     (auto simp: template_source_def template_fold_pieces list_all_iff)

end
