(* ===== verification/SearchSplit.thy ===== *)
theory SearchSplit
  imports JsLib
begin

text \<open>
  The query splitter of \<open>searchtools.js\<close>: the table \<open>splitChars\<close> of code units that separate
  words, and \<open>splitQuery\<close>.  A query is a list of UTF-16 code units.
\<close>

section \<open>The separators\<close>

definition split_singles :: "nat list" where
  "split_singles =
     [96, 180, 187, 191, 215, 247, 749, 885, 903, 907, 909, 930, 1014, 1648, 1748, 1809, 2416,
      2473, 2481, 2526, 2601, 2609, 2612, 2615, 2653, 2702, 2706, 2729, 2737, 2740, 2857,
      2865, 2868, 2910, 2928, 2948, 2961, 2971, 2973, 3085, 3089, 3113, 3124, 3213, 3217,
      3241, 3252, 3295, 3341, 3345, 3369, 3506, 3516, 3633, 3715, 3721, 3736, 3744, 3748,
      3750, 3756, 3761, 3781, 3912, 4239, 4347, 4681, 4695, 4697, 4745, 4785, 4799, 4801,
      4823, 4881, 5760, 5901, 5997, 6313, 7405, 8024, 8026, 8028, 8030, 8117, 8125, 8133,
      8181, 8468, 8485, 8487, 8489, 8494, 8527, 11311, 11359, 11687, 11695, 11703, 11711,
      11719, 11727, 11735, 12448, 12539, 43010, 43014, 43019, 43587, 43696, 43713, 64286,
      64297, 64311, 64317, 64319, 64322, 64325, 65141]"

definition split_ranges :: "(nat \<times> nat) list" where
  "split_ranges =
     [(0, 47), (58, 64), (91, 94), (123, 169), (171, 177), (182, 184), (706, 709), (722, 735),
      (741, 747), (751, 879), (888, 889), (894, 901), (1154, 1161), (1318, 1328), (1367,
      1368), (1370, 1376), (1416, 1487), (1515, 1519), (1523, 1568), (1611, 1631), (1642,
      1645), (1750, 1764), (1767, 1773), (1789, 1790), (1792, 1807), (1840, 1868), (1958,
      1968), (1970, 1983), (2027, 2035), (2038, 2041), (2043, 2047), (2070, 2073), (2075,
      2083), (2085, 2087), (2089, 2307), (2362, 2364), (2366, 2383), (2385, 2391), (2402,
      2405), (2419, 2424), (2432, 2436), (2445, 2446), (2449, 2450), (2483, 2485), (2490,
      2492), (2494, 2509), (2511, 2523), (2530, 2533), (2546, 2547), (2554, 2564), (2571,
      2574), (2577, 2578), (2618, 2648), (2655, 2661), (2672, 2673), (2677, 2692), (2746,
      2748), (2750, 2767), (2769, 2783), (2786, 2789), (2800, 2820), (2829, 2830), (2833,
      2834), (2874, 2876), (2878, 2907), (2914, 2917), (2930, 2946), (2955, 2957), (2966,
      2968), (2976, 2978), (2981, 2983), (2987, 2989), (3002, 3023), (3025, 3045), (3059,
      3076), (3130, 3132), (3134, 3159), (3162, 3167), (3170, 3173), (3184, 3191), (3199,
      3204), (3258, 3260), (3262, 3293), (3298, 3301), (3312, 3332), (3386, 3388), (3390,
      3423), (3426, 3429), (3446, 3449), (3456, 3460), (3479, 3481), (3518, 3519), (3527,
      3584), (3636, 3647), (3655, 3663), (3674, 3712), (3717, 3718), (3723, 3724), (3726,
      3731), (3752, 3753), (3764, 3772), (3774, 3775), (3783, 3791), (3802, 3803), (3806,
      3839), (3841, 3871), (3892, 3903), (3949, 3975), (3980, 4095), (4139, 4158), (4170,
      4175), (4182, 4185), (4190, 4192), (4194, 4196), (4199, 4205), (4209, 4212), (4226,
      4237), (4250, 4255), (4294, 4303), (4349, 4351), (4686, 4687), (4702, 4703), (4750,
      4751), (4790, 4791), (4806, 4807), (4886, 4887), (4955, 4968), (4989, 4991), (5008,
      5023), (5109, 5120), (5741, 5742), (5787, 5791), (5867, 5869), (5873, 5887), (5906,
      5919), (5938, 5951), (5970, 5983), (6001, 6015), (6068, 6102), (6104, 6107), (6109,
      6111), (6122, 6127), (6138, 6159), (6170, 6175), (6264, 6271), (6315, 6319), (6390,
      6399), (6429, 6469), (6510, 6511), (6517, 6527), (6572, 6592), (6600, 6607), (6619,
      6655), (6679, 6687), (6741, 6783), (6794, 6799), (6810, 6822), (6824, 6916), (6964,
      6980), (6988, 6991), (7002, 7042), (7073, 7085), (7098, 7167), (7204, 7231), (7242,
      7244), (7294, 7400), (7410, 7423), (7616, 7679), (7958, 7959), (7966, 7967), (8006,
      8007), (8014, 8015), (8062, 8063), (8127, 8129), (8141, 8143), (8148, 8149), (8156,
      8159), (8173, 8177), (8189, 8303), (8306, 8307), (8314, 8318), (8330, 8335), (8341,
      8449), (8451, 8454), (8456, 8457), (8470, 8472), (8478, 8483), (8506, 8507), (8512,
      8516), (8522, 8525), (8586, 9311), (9372, 9449), (9472, 10101), (10132, 11263), (11493,
      11498), (11503, 11516), (11518, 11519), (11558, 11567), (11622, 11630), (11632, 11647),
      (11671, 11679), (11743, 11822), (11824, 12292), (12296, 12320), (12330, 12336), (12342,
      12343), (12349, 12352), (12439, 12444), (12544, 12548), (12590, 12592), (12687, 12689),
      (12694, 12703), (12728, 12783), (12800, 12831), (12842, 12880), (12896, 12927), (12938,
      12976), (12992, 13311), (19894, 19967), (40908, 40959), (42125, 42191), (42238, 42239),
      (42509, 42511), (42540, 42559), (42592, 42593), (42607, 42622), (42648, 42655), (42736,
      42774), (42784, 42785), (42889, 42890), (42893, 43002), (43043, 43055), (43062, 43071),
      (43124, 43137), (43188, 43215), (43226, 43249), (43256, 43258), (43260, 43263), (43302,
      43311), (43335, 43359), (43389, 43395), (43443, 43470), (43482, 43519), (43561, 43583),
      (43596, 43599), (43610, 43615), (43639, 43641), (43643, 43647), (43698, 43700), (43703,
      43704), (43710, 43711), (43715, 43738), (43742, 43967), (44003, 44015), (44026, 44031),
      (55204, 55215), (55239, 55242), (55292, 55295), (57344, 63743), (64046, 64047), (64110,
      64111), (64218, 64255), (64263, 64274), (64280, 64284), (64434, 64466), (64830, 64847),
      (64912, 64913), (64968, 65007), (65020, 65135), (65277, 65295), (65306, 65312), (65339,
      65344), (65371, 65381), (65471, 65473), (65480, 65481), (65488, 65489), (65496, 65497)]"

text \<open>The two loops that fill the table.\<close>

fun fill_singles :: "nat list \<Rightarrow> (nat \<Rightarrow> bool) \<Rightarrow> nat \<Rightarrow> bool" where
  "fill_singles [] result = result"
| "fill_singles (c # cs) result = fill_singles cs (result(c := True))"

function fill_range :: "nat \<Rightarrow> nat \<Rightarrow> (nat \<Rightarrow> bool) \<Rightarrow> nat \<Rightarrow> bool" where
  "fill_range j e result =
     (if j \<le> e then fill_range (Suc j) e (result(j := True)) else result)"
  by auto
termination by (relation "measure (\<lambda>(j, e, _). Suc e - j)") auto

declare fill_range.simps [simp del]

fun fill_ranges :: "(nat \<times> nat) list \<Rightarrow> (nat \<Rightarrow> bool) \<Rightarrow> nat \<Rightarrow> bool" where
  "fill_ranges [] result = result"
| "fill_ranges ((s, e) # r) result = fill_ranges r (fill_range s e result)"

definition splitChars :: "nat \<Rightarrow> bool" where
  "splitChars = fill_ranges split_ranges (fill_singles split_singles (\<lambda>_. False))"

lemma fill_singles_iff: "fill_singles cs result c \<longleftrightarrow> c \<in> set cs \<or> result c"
  by (induction cs arbitrary: result) auto

lemma fill_range_iff: "fill_range j e result c \<longleftrightarrow> j \<le> c \<and> c \<le> e \<or> result c"
proof (induction j e result rule: fill_range.induct)
  case (1 j e result)
  then have IH: "j \<le> e \<Longrightarrow> fill_range (Suc j) e (result(j := True)) c \<longleftrightarrow>
      Suc j \<le> c \<and> c \<le> e \<or> c = j \<or> result c"
    by (simp add: fun_upd_def)
  show ?case
  proof (cases "j \<le> e")
    case True
    then have "fill_range j e result c = fill_range (Suc j) e (result(j := True)) c"
      by (subst fill_range.simps) simp
    with IH[OF True] True show ?thesis by linarith
  next
    case False
    then have "fill_range j e result c = result c" by (subst fill_range.simps) simp
    with False show ?thesis by linarith
  qed
qed

lemma fill_ranges_iff:
  "fill_ranges rs result c \<longleftrightarrow> (\<exists>(s, e) \<in> set rs. s \<le> c \<and> c \<le> e) \<or> result c"
proof (induction rs arbitrary: result)
  case (Cons r rs)
  then show ?case by (cases r) (simp add: fill_range_iff disj_assoc disj_left_commute)
qed simp

lemma splitChars_iff:
  "splitChars c \<longleftrightarrow> c \<in> set split_singles \<or> list_ex (\<lambda>(s, e). s \<le> c \<and> c \<le> e) split_ranges"
  by (auto simp: splitChars_def fill_ranges_iff fill_singles_iff list_ex_iff)

section \<open>Splitting\<close>

text \<open>The loop, with \<open>start\<close> (-1 outside a word) and the words found so far.\<close>

function splitQuery_loop :: "nat list \<Rightarrow> nat \<Rightarrow> int \<Rightarrow> nat list list \<Rightarrow> nat list list \<times> int" where
  "splitQuery_loop query i start result =
     (if i < length query
      then if splitChars (query ! i)
           then if start \<noteq> -1
                then splitQuery_loop query (Suc i) (-1) (result @ [slice query start (int i)])
                else splitQuery_loop query (Suc i) start result
           else if start = -1 then splitQuery_loop query (Suc i) (int i) result
           else splitQuery_loop query (Suc i) start result
      else (result, start))"
  by auto
termination by (relation "measure (\<lambda>(query, i, _). length query - i)") auto

declare splitQuery_loop.simps [simp del]

definition splitQuery :: "nat list \<Rightarrow> nat list list" where
  "splitQuery query =
     (let (result, start) = splitQuery_loop query 0 (-1) []
      in if start \<noteq> -1 then result @ [slice_from query start] else result)"

text \<open>The words of a list: its maximal blocks of elements that are not separators.\<close>

fun words :: "('a \<Rightarrow> bool) \<Rightarrow> 'a list \<Rightarrow> 'a list \<Rightarrow> 'a list list" where
  "words P w [] = (if w = [] then [] else [w])"
| "words P w (c # cs) =
     (if P c then (if w = [] then [] else [w]) @ words P [] cs else words P (w @ [c]) cs)"

definition in_word :: "nat list \<Rightarrow> nat \<Rightarrow> int \<Rightarrow> nat list" where
  "in_word query i start = (if start = -1 then [] else take (i - nat start) (drop (nat start) query))"

lemma splitQuery_loop_words:
  assumes "i \<le> length query" "start = -1 \<or> 0 \<le> start \<and> start < int i"
  shows "(let (res, st) = splitQuery_loop query i start result
      in if st \<noteq> -1 then res @ [slice_from query st] else res) =
    result @ words splitChars (in_word query i start) (drop i query)"
  using assms
proof (induction query i start result rule: splitQuery_loop.induct)
  case (1 query i start result)
  show ?case
  proof (cases "i < length query")
    case True
    have d: "drop i query = query ! i # drop (Suc i) query" using True by (simp add: Cons_nth_drop_Suc)
    have ne: "in_word query i start = [] \<longleftrightarrow> start = -1" using 1(6) True by (auto simp: in_word_def)
    have sl: "slice query start (int i) = in_word query i start" if "start \<noteq> -1"
      using that 1(6) by (simp add: slice_nonneg in_word_def)
    have ext: "in_word query (Suc i) (if start = -1 then int i else start) = in_word query i start @ [query ! i]"
      using 1(6) True by (auto simp: in_word_def Suc_diff_le nat_less_iff take_Suc_conv_app_nth)
    have nil: "in_word query (Suc i) (-1) = []" by (simp add: in_word_def)
    show ?thesis
      using 1 True d ne sl ext nil
      by (subst splitQuery_loop.simps) (auto split: if_splits)
  next
    case False
    then have "i = length query" using 1(5) by simp
    then show ?thesis using 1(6)
      by (subst splitQuery_loop.simps) (auto simp: in_word_def slice_from_nonneg)
  qed
qed

lemma splitQuery_words: "splitQuery query = words splitChars [] query"
  using splitQuery_loop_words[of 0 query "-1" "[]"] by (simp add: splitQuery_def in_word_def)

lemma words_sound: "x \<in> set (words P w s) \<Longrightarrow> \<forall>c \<in> set w. \<not> P c \<Longrightarrow> x \<noteq> [] \<and> (\<forall>c \<in> set x. \<not> P c)"
  by (induction P w s rule: words.induct) (auto split: if_splits)

lemma concat_words: "concat (words P w s) = w @ filter (\<lambda>c. \<not> P c) s"
  by (induction P w s rule: words.induct) auto

lemma words_block: "\<forall>c \<in> set x. \<not> P c \<Longrightarrow> words P w (x @ s) = words P (w @ x) s"
  by (induction x arbitrary: w) auto

text \<open>
  A query cut into words \<open>map snd ps\<close>, each with the separators before it, and the separators
  \<open>g\<close> at the end.
\<close>

definition query_cut :: "nat list \<Rightarrow> (nat list \<times> nat list) list \<Rightarrow> nat list \<Rightarrow> bool" where
  "query_cut q ps g \<longleftrightarrow>
     q = concat (map (\<lambda>(s, w). s @ w) ps) @ g \<and>
     list_all (\<lambda>(s, w). list_all splitChars s \<and> w \<noteq> [] \<and> list_all (\<lambda>c. \<not> splitChars c) w) ps \<and>
     list_all splitChars g \<and> list_all (\<lambda>(s, w). s \<noteq> []) (tl ps)"

lemma words_skip: "list_all P g \<Longrightarrow> words P [] (g @ s) = words P [] s"
  by (induction g) auto

lemma words_word:
  assumes "w \<noteq> []" "list_all (\<lambda>c. \<not> P c) w" "r = [] \<or> P (hd r)"
  shows "words P [] (w @ r) = w # words P [] r"
  using assms words_block[of w P "[]" r] by (cases r) (auto simp: list_all_iff)

lemma query_cut_Cons:
  assumes "query_cut q ((s, w) # ps) g"
  shows "\<exists>r. q = s @ w @ r \<and> query_cut r ps g \<and> (r = [] \<or> splitChars (hd r)) \<and>
    list_all splitChars s \<and> w \<noteq> [] \<and> list_all (\<lambda>c. \<not> splitChars c) w"
proof (intro exI conjI)
  let ?r = "concat (map (\<lambda>(s, w). s @ w) ps) @ g"
  show "q = s @ w @ ?r" using assms by (simp add: query_cut_def)
  show "query_cut ?r ps g" using assms by (cases ps) (auto simp: query_cut_def)
  show "?r = [] \<or> splitChars (hd ?r)"
  proof (cases ps)
    case Nil
    then show ?thesis using assms by (cases g) (auto simp: query_cut_def)
  next
    case (Cons p ps')
    then obtain c u v where "p = (c # u, v)" "splitChars c"
      using assms by (cases p; cases "fst p") (auto simp: query_cut_def)
    then show ?thesis using Cons by simp
  qed
qed (use assms in \<open>auto simp: query_cut_def\<close>)

lemma splitQuery_cut: "query_cut q ps g \<Longrightarrow> splitQuery q = map snd ps"
proof (induction ps arbitrary: q)
  case Nil
  then show ?case using words_skip[of splitChars g "[]"] by (simp add: query_cut_def splitQuery_words)
next
  case (Cons p ps)
  obtain s w where p: "p = (s, w)" by fastforce
  from query_cut_Cons[OF Cons.prems[unfolded p]] obtain r where
    "q = s @ w @ r" "query_cut r ps g" "r = [] \<or> splitChars (hd r)"
    "list_all splitChars s" "w \<noteq> []" "list_all (\<lambda>c. \<not> splitChars c) w" by blast
  then show ?case
    using Cons.IH[of r] words_skip[of splitChars s] words_word[of w splitChars r]
    by (simp add: splitQuery_words p)
qed

lemma query_cut_exists: "\<exists>ps g. query_cut q ps g"
proof (induction q rule: length_induct)
  case (1 q)
  let ?s = "takeWhile splitChars q" and ?u = "dropWhile splitChars q"
  let ?w = "takeWhile (\<lambda>c. \<not> splitChars c) ?u" and ?r = "dropWhile (\<lambda>c. \<not> splitChars c) ?u"
  have s: "list_all splitChars ?s" by (auto simp: list_all_iff dest: set_takeWhileD)
  show ?case
  proof (cases "?u = []")
    case True
    then have "query_cut q [] q" by (simp add: query_cut_def list_all_iff dropWhile_eq_Nil_conv)
    then show ?thesis by blast
  next
    case False
    then have "\<not> splitChars (hd ?u)" by (rule hd_dropWhile)
    with False have w: "?w \<noteq> []" by (cases ?u) auto
    have nw: "list_all (\<lambda>c. \<not> splitChars c) ?w" by (auto simp: list_all_iff dest: set_takeWhileD)
    have q: "q = ?s @ ?w @ ?r" by simp
    have "length ?w + length ?r = length ?u" by (simp flip: length_append)
    moreover have "length ?w > 0" "length ?u \<le> length q" using w length_dropWhile_le by auto
    ultimately have "length ?r < length q" by linarith
    then obtain ps g where cut: "query_cut ?r ps g" using 1 by blast
    have hd: "?r = [] \<or> splitChars (hd ?r)" using hd_dropWhile by blast
    have gap: "list_all (\<lambda>(s, w). s \<noteq> []) ps"
    proof (cases ps)
      case (Cons p ps')
      then have "fst p \<noteq> []" using cut hd by (cases p; cases "snd p") (auto simp: query_cut_def)
      then show ?thesis using cut Cons by (auto simp: query_cut_def)
    qed simp
    have "q = ?s @ ?w @ concat (map (\<lambda>(s, w). s @ w) ps) @ g"
      using cut q unfolding query_cut_def by argo
    then have "query_cut q ((?s, ?w) # ps) g"
      using cut s w nw gap unfolding query_cut_def by simp
    then show ?thesis by blast
  qed
qed

text \<open>The words of a query string, and in lower case.\<close>

definition query_words :: "string \<Rightarrow> string list" where
  "query_words query = map (map char_of) (splitQuery (map of_char query))"

lemma minus_splits: "splitChars 45"
  by (simp add: splitChars_iff split_ranges_def)

lemma query_words_sound:
  assumes "w \<in> set (query_words q)"
  shows "w \<noteq> []" "c \<in> set w \<Longrightarrow> \<not> splitChars (of_char c)"
proof -
  obtain x where x: "w = map char_of x" "x \<in> set (words splitChars [] (map of_char q))"
    using assms by (auto simp: query_words_def splitQuery_words)
  note S = words_sound[OF x(2)]
  show "w \<noteq> []" using S x by auto
  have sub: "set x \<subseteq> set (map of_char q)"
  proof -
    have "set x \<subseteq> set (concat (words splitChars [] (map of_char q)))" using x(2) by auto
    then show ?thesis by (auto simp: concat_words)
  qed
  show "\<not> splitChars (of_char c)" if cw: "c \<in> set w"
  proof -
    obtain n where n: "c = char_of n" "n \<in> set x" using cw x(1) by auto
    then have "n < 256" using sub by auto
    then have "of_char c = n" using n by (simp add: of_char_of)
    then show ?thesis using S n(2) by auto
  qed
qed

section \<open>Properties\<close>

text \<open>
  C38. \<open>splitQuery\<close> cuts a query into its maximal blocks of non-separators, whatever separators stand
  before, between and behind them and however many: \<open>ws\<close> is the result exactly when the query is a
  sequence of blocks and words, the blocks of separators only, the words of non-separators only, no
  word empty and no block between two words empty, and \<open>ws\<close> are its words in order.
\<close>

theorem splitQuery_correct:
  "splitQuery q = ws \<longleftrightarrow> (\<exists>ps g. query_cut q ps g \<and> ws = map snd ps)"
  using query_cut_exists[of q] splitQuery_cut by metis

theorem splitQuery_correct_witness:
  "splitQuery [32, 45, 97, 98, 32, 32, 99, 45] = [[97, 98], [99]]"
proof -
  have s: "splitChars 32" "splitChars 45" "\<not> splitChars 97" "\<not> splitChars 98" "\<not> splitChars 99"
    by (simp_all add: splitChars_iff split_ranges_def split_singles_def)
  have "query_cut [32, 45, 97, 98, 32, 32, 99, 45] [([32, 45], [97, 98]), ([32, 32], [99])] [45]"
    using s by (simp add: query_cut_def)
  then show ?thesis unfolding splitQuery_correct by force
qed

end
