(* ===== verification/JsRegex.thy ===== *)
theory JsRegex
  imports JsObject
begin

text \<open>
  The regular expressions the modelled files use, with the backtracking semantics of the
  language: \<open>runs\<close> lists the ways an expression can match at the front of a string, in the order
  in which the engine tries them, each with the captured groups and the rest of the string.
\<close>

datatype rx =
    RClass "char \<Rightarrow> bool"
  | RSeq rx rx
  | RAlt rx rx
  | RStar "char \<Rightarrow> bool"  \<comment> \<open>greedy\<close>
  | RPlusLazy "char \<Rightarrow> bool"
  | ROpt rx
  | RGroup nat rx
  | RBack nat
  | REnd
  | REmpty
  | RMany rx  \<comment> \<open>greedy, of any expression\<close>

type_synonym mstate = "(nat \<Rightarrow> string) \<times> string"

fun star_ends :: "(char \<Rightarrow> bool) \<Rightarrow> string \<Rightarrow> string list" where
  "star_ends P [] = [[]]"
| "star_ends P (c # s) = (if P c then star_ends P s @ [c # s] else [c # s])"

fun lazy_ends :: "(char \<Rightarrow> bool) \<Rightarrow> string \<Rightarrow> string list" where
  "lazy_ends P [] = [[]]"
| "lazy_ends P (c # s) = (c # s) # (if P c then lazy_ends P s else [])"

text \<open>
  Repetition of an expression, longest first.  An iteration that consumes nothing is given up, so the length of
  the string is fuel enough.
\<close>

fun many_runs :: "(mstate \<Rightarrow> mstate list) \<Rightarrow> nat \<Rightarrow> mstate \<Rightarrow> mstate list" where
  "many_runs f 0 st = [st]"
| "many_runs f (Suc k) st =
     concat (map (many_runs f k) (filter (\<lambda>st'. length (snd st') < length (snd st)) (f st))) @ [st]"

fun runs :: "rx \<Rightarrow> mstate \<Rightarrow> mstate list" where
  "runs (RClass P) (cap, s) = (case s of [] \<Rightarrow> [] | c # r \<Rightarrow> if P c then [(cap, r)] else [])"
| "runs (RSeq a b) st = concat (map (runs b) (runs a st))"
| "runs (RAlt a b) st = runs a st @ runs b st"
| "runs (RStar P) (cap, s) = map (Pair cap) (star_ends P s)"
| "runs (RPlusLazy P) (cap, s) =
     (case s of [] \<Rightarrow> [] | c # r \<Rightarrow> if P c then map (Pair cap) (lazy_ends P r) else [])"
| "runs (ROpt a) st = runs a st @ [st]"
| "runs (RGroup n a) (cap, s) =
     map (\<lambda>(cap', r). (cap'(n := take (length s - length r) s), r)) (runs a (cap, s))"
| "runs (RBack n) (cap, s) =
     (if is_prefix (cap n) s then [(cap, drop (length (cap n)) s)] else [])"
| "runs REnd (cap, s) = (if s = [] then [(cap, s)] else [])"
| "runs REmpty st = [st]"
| "runs (RMany a) (cap, s) = many_runs (runs a) (length s) (cap, s)"

fun rx_lit :: "string \<Rightarrow> rx" where
  "rx_lit [] = REmpty"
| "rx_lit [c] = RClass (\<lambda>x. x = c)"
| "rx_lit (c # s) = RSeq (RClass (\<lambda>x. x = c)) (rx_lit s)"

fun rx_alts :: "string list \<Rightarrow> rx" where
  "rx_alts [] = RClass (\<lambda>_. False)"
| "rx_alts [a] = rx_lit a"
| "rx_alts (a # r) = RAlt (rx_lit a) (rx_alts r)"

definition not_newline :: "char \<Rightarrow> bool" where
  "not_newline c \<longleftrightarrow> c \<noteq> CHR 0x0A \<and> c \<noteq> CHR 0x0D"

text \<open>A match anchored at the front: the groups and the rest.\<close>

definition exec_front :: "rx \<Rightarrow> string \<Rightarrow> mstate option" where
  "exec_front r s = (case runs r (\<lambda>_. [], s) of [] \<Rightarrow> None | st # _ \<Rightarrow> Some st)"

definition test_front :: "rx \<Rightarrow> string \<Rightarrow> bool" where
  "test_front r s \<longleftrightarrow> runs r (\<lambda>_. [], s) \<noteq> []"

text \<open>A search: what precedes the leftmost match, the match, and the state after it.\<close>

fun exec_search :: "rx \<Rightarrow> string \<Rightarrow> string \<Rightarrow> (string \<times> mstate) option" where
  "exec_search r pre s =
     (case exec_front r s of
        Some st \<Rightarrow> Some (pre, st)
      | None \<Rightarrow> (case s of [] \<Rightarrow> None | c # s' \<Rightarrow> exec_search r (pre @ [c]) s'))"

declare exec_search.simps [simp del]

definition test_search :: "rx \<Rightarrow> string \<Rightarrow> bool" where
  "test_search r s \<longleftrightarrow> exec_search r [] s \<noteq> None"

text \<open>\<open>s.replace(r, "")\<close> without the global flag.\<close>

definition remove_first :: "rx \<Rightarrow> string \<Rightarrow> string" where
  "remove_first r s =
     (case exec_search r [] s of None \<Rightarrow> s | Some (pre, _, rest) \<Rightarrow> pre @ rest)"

section \<open>Facts\<close>

lemma star_ends_set:
  "set (star_ends P s) = {r. \<exists>t. s = t @ r \<and> (\<forall>c \<in> set t. P c)}"
proof (induction s)
  case (Cons c s)
  show ?case
  proof (intro set_eqI iffI)
    fix r assume "r \<in> set (star_ends P (c # s))"
    then consider "r = c # s" | "P c" "r \<in> set (star_ends P s)" by (auto split: if_splits)
    then show "r \<in> {r. \<exists>t. c # s = t @ r \<and> (\<forall>c \<in> set t. P c)}"
    proof cases
      case 2
      then obtain t where "s = t @ r" "\<forall>c \<in> set t. P c" using Cons by auto
      then show ?thesis using 2(1) by (intro CollectI exI[of _ "c # t"]) auto
    qed auto
  next
    fix r assume "r \<in> {r. \<exists>t. c # s = t @ r \<and> (\<forall>c \<in> set t. P c)}"
    then obtain t where t: "c # s = t @ r" "\<forall>c \<in> set t. P c" by auto
    show "r \<in> set (star_ends P (c # s))"
    proof (cases t)
      case (Cons c' t')
      then have "P c" "r \<in> set (star_ends P s)" using t Cons.IH by auto
      then show ?thesis by simp
    qed (use t in auto)
  qed
qed auto

lemma lazy_ends_set: "set (lazy_ends P s) = set (star_ends P s)"
  by (induction s) auto

lemma runs_lit:
  "set (runs (rx_lit a) (cap, s)) = {(cap, r) | r. s = a @ r}"
proof (induction a arbitrary: s rule: rx_lit.induct)
  case (3 c d e)
  then show ?case by (cases s) auto
qed (auto split: list.splits)

lemma runs_alts:
  "set (runs (rx_alts as) (cap, s)) = {(cap, r) | r a. a \<in> set as \<and> s = a @ r}"
  by (induction as rule: rx_alts.induct) (auto simp: runs_lit split: list.splits)

text \<open>\<open>^(.+?)tail$\<close> and \<open>^(.+?)(r)tail$\<close>, the shapes the stemmer takes words apart with.\<close>

definition rx_stem :: "string \<Rightarrow> rx" where
  "rx_stem tail = RSeq (RGroup 1 (RPlusLazy not_newline)) (RSeq (rx_lit tail) REnd)"

definition rx_word :: "rx \<Rightarrow> string \<Rightarrow> rx" where
  "rx_word r tail =
     RSeq (RGroup 1 (RPlusLazy not_newline)) (RSeq (RGroup 2 r) (RSeq (rx_lit tail) REnd))"

lemma exec_front_run: "exec_front r w = Some st \<Longrightarrow> st \<in> set (runs r (\<lambda>_. [], w))"
  by (auto simp: exec_front_def split: list.splits)

lemma plus_lazy_run:
  "set (runs (RGroup n (RPlusLazy P)) (cap, s)) =
   {(cap(n := t), r) | t r. t \<noteq> [] \<and> s = t @ r \<and> (\<forall>c \<in> set t. P c)}"
proof (cases s)
  case (Cons c s')
  have A: "(\<exists>t r. x = (cap(n := c # t), r) \<and> s' = t @ r \<and> P c \<and> (\<forall>c \<in> set t. P c)) \<longleftrightarrow>
    x \<in> {(cap(n := t), r) | t r. t \<noteq> [] \<and> s = t @ r \<and> (\<forall>c \<in> set t. P c)}" for x
    using Cons by (auto simp: Cons_eq_append_conv)
  have B: "x \<in> set (runs (RGroup n (RPlusLazy P)) (cap, s)) \<longleftrightarrow>
    (\<exists>t r. x = (cap(n := c # t), r) \<and> s' = t @ r \<and> P c \<and> (\<forall>c \<in> set t. P c))" for x
    using Cons by (auto simp: lazy_ends_set star_ends_set image_iff)
  show ?thesis by (rule set_eqI, rule trans[OF B A])
qed auto

lemma rx_stem_Some:
  assumes "exec_front (rx_stem tail) w = Some (cap, rest)"
  shows "w = cap 1 @ tail" "cap 1 \<noteq> []"
  using exec_front_run[OF assms]
  by (auto simp: rx_stem_def plus_lazy_run runs_lit simp del: runs.simps(5,7))

lemma rx_word_Some:
  assumes "exec_front (rx_word r tail) w = Some (cap, rest)"
    and keep: "\<And>c s c' t. (c', t) \<in> set (runs r (c, s)) \<Longrightarrow> c' = c \<and> (\<exists>a. s = a @ t \<and> Q a)"
  shows "w = cap 1 @ cap 2 @ tail" "cap 1 \<noteq> []" "Q (cap 2)"
proof -
  obtain t s where w: "w = t @ s" "t \<noteq> []"
    and r: "(cap, rest) \<in> set (runs (RSeq (RGroup 2 r) (RSeq (rx_lit tail) REnd)) ((\<lambda>_. [])(1 := t), s))"
    using exec_front_run[OF assms(1)]
    by (auto simp: rx_word_def plus_lazy_run simp del: runs.simps(5,7))
  then obtain c' u where c': "(c', u) \<in> set (runs r ((\<lambda>_. [])(1 := t), s))"
    and cap: "cap = c'(2 := take (length s - length u) s)" and u: "u = tail"
    by (auto simp: runs_lit)
  then obtain a where "c' = (\<lambda>_. [])(1 := t)" "s = a @ u" "Q a" using keep by blast
  then show "w = cap 1 @ cap 2 @ tail" "cap 1 \<noteq> []" "Q (cap 2)" using w cap u by auto
qed

lemma rx_word_alts:
  assumes "exec_front (rx_word (rx_alts as) tail) w = Some (cap, rest)"
  shows "w = cap 1 @ cap 2 @ tail" "cap 1 \<noteq> []" "cap 2 \<in> set as"
  using rx_word_Some[OF assms, of "\<lambda>a. a \<in> set as"] by (auto simp: runs_alts)

lemma rx_word_class:
  assumes "exec_front (rx_word (RClass P) tail) w = Some (cap, rest)"
  shows "w = cap 1 @ cap 2 @ tail" "cap 1 \<noteq> []" "\<exists>c. cap 2 = [c] \<and> P c"
proof -
  have k: "(c', t) \<in> set (runs (RClass P) (c, s)) \<Longrightarrow> c' = c \<and> (\<exists>a. s = a @ t \<and> (\<exists>x. a = [x] \<and> P x))"
    for c s c' t by (auto split: list.splits if_splits)
  show "w = cap 1 @ cap 2 @ tail" "cap 1 \<noteq> []" "\<exists>c. cap 2 = [c] \<and> P c"
    using rx_word_Some[OF assms k] by auto
qed

text \<open>\<open>/.$/\<close>: removing the last character.\<close>

definition rx_last :: rx where
  "rx_last = RSeq (RClass not_newline) REnd"

lemma exec_search_last:
  "exec_search rx_last b s =
     (if s \<noteq> [] \<and> not_newline (last s) then Some (b @ butlast s, (\<lambda>_. []), []) else None)"
proof (induction rx_last b s rule: exec_search.induct)
  case (1 b s)
  then show ?case
    by (cases s; cases "tl s")
       (subst exec_search.simps, auto simp: exec_front_def rx_last_def split: list.splits)+
qed

lemma remove_last: "remove_first rx_last s = (if s \<noteq> [] \<and> not_newline (last s) then butlast s else s)"
  by (simp add: remove_first_def exec_search_last)

section \<open>Matching without looking at the groups\<close>

text \<open>\<open>consumes r R\<close>: whatever the groups hold, \<open>r\<close> can leave exactly the rests that \<open>R\<close> names.\<close>

definition consumes :: "rx \<Rightarrow> (string \<Rightarrow> string \<Rightarrow> bool) \<Rightarrow> bool" where
  "consumes r R \<longleftrightarrow> (\<forall>cap s x. (\<exists>cap'. (cap', x) \<in> set (runs r (cap, s))) \<longleftrightarrow> R s x)"

lemma consumesD: "consumes r R \<Longrightarrow> (\<exists>cap'. (cap', x) \<in> set (runs r (cap, s))) \<longleftrightarrow> R s x"
  by (simp add: consumes_def)

lemma consumes_cong: "consumes r R \<Longrightarrow> (\<And>s x. R s x \<longleftrightarrow> R' s x) \<Longrightarrow> consumes r R'"
  by (simp add: consumes_def)

lemma consumes_class: "consumes (RClass P) (\<lambda>s x. \<exists>c. s = c # x \<and> P c)"
  by (auto simp: consumes_def split: list.splits)

lemma consumes_star: "consumes (RStar P) (\<lambda>s x. \<exists>t. s = t @ x \<and> (\<forall>c \<in> set t. P c))"
  by (auto simp: consumes_def star_ends_set)

lemma consumes_end: "consumes REnd (\<lambda>s x. s = [] \<and> x = [])"
  by (auto simp: consumes_def)

lemma consumes_seq:
  assumes "consumes a A" "consumes b B"
  shows "consumes (RSeq a b) (\<lambda>s x. \<exists>m. A s m \<and> B m x)"
proof -
  have "(\<exists>cap'. (cap', x) \<in> set (runs (RSeq a b) (cap, s))) \<longleftrightarrow>
    (\<exists>m cap1. (cap1, m) \<in> set (runs a (cap, s)) \<and> (\<exists>cap'. (cap', x) \<in> set (runs b (cap1, m))))"
    for cap s x by fastforce
  then show ?thesis
    unfolding consumes_def using consumesD[OF assms(1)] consumesD[OF assms(2)] by simp
qed

lemma consumes_group: "consumes a A \<Longrightarrow> consumes (RGroup n a) A"
  unfolding consumes_def by (force simp: image_iff)

lemma consumes_opt:
  assumes "consumes a A"
  shows "consumes (ROpt a) (\<lambda>s x. A s x \<or> x = s)"
  unfolding consumes_def
proof (intro allI)
  fix cap s x
  show "(\<exists>cap'. (cap', x) \<in> set (runs (ROpt a) (cap, s))) \<longleftrightarrow> A s x \<or> x = s"
    using consumesD[OF assms, of x cap s] by fastforce
qed

lemma test_front_consumes: "consumes r R \<Longrightarrow> test_front r w \<longleftrightarrow> (\<exists>x. R w x)"
  unfolding consumes_def test_front_def by (metis list.set_intros(1) empty_iff list.set(1) prod.exhaust neq_Nil_conv)

text \<open>The run that the engine finds first, for proofs about expressions that never have to go back.\<close>

definition leads :: "rx \<Rightarrow> mstate \<Rightarrow> mstate \<Rightarrow> bool" where
  "leads r st st' \<longleftrightarrow> (\<exists>l. runs r st = st' # l)"

lemma leads_front: "leads r (\<lambda>_. [], s) st \<Longrightarrow> exec_front r s = Some st"
  by (auto simp: leads_def exec_front_def)

lemma leads_class: "P c \<Longrightarrow> leads (RClass P) (cap, c # s) (cap, s)"
  by (simp add: leads_def)

lemma leads_empty: "leads REmpty st st"
  by (simp add: leads_def)

lemma leads_end: "leads REnd (cap, []) (cap, [])"
  by (simp add: leads_def)

lemma leads_seq: "leads a st st' \<Longrightarrow> leads b st' st'' \<Longrightarrow> leads (RSeq a b) st st''"
  by (auto simp: leads_def)

lemma leads_left: "leads a st st' \<Longrightarrow> leads (RAlt a b) st st'"
  by (auto simp: leads_def)

lemma leads_right: "runs a st = [] \<Longrightarrow> leads b st st' \<Longrightarrow> leads (RAlt a b) st st'"
  by (auto simp: leads_def)

lemma leads_opt: "leads a st st' \<Longrightarrow> leads (ROpt a) st st'"
  by (auto simp: leads_def)

lemma leads_skip: "runs a st = [] \<Longrightarrow> leads (ROpt a) st st"
  by (auto simp: leads_def)

lemma leads_group:
  "leads a (cap, s) (cap', s') \<Longrightarrow> leads (RGroup n a) (cap, s) (cap'(n := take (length s - length s') s), s')"
  by (auto simp: leads_def)

lemma leads_capture: "leads a (cap, t @ s) (cap', s) \<Longrightarrow> leads (RGroup n a) (cap, t @ s) (cap'(n := t), s)"
  using leads_group [of a cap "t @ s" cap' s n] by simp

lemma star_ends_greedy:
  "\<forall>c\<in>set t. P c \<Longrightarrow> (case s of [] \<Rightarrow> True | c # _ \<Rightarrow> \<not> P c) \<Longrightarrow> \<exists>l. star_ends P (t @ s) = s # l"
  by (induction t) (auto split: list.splits)

lemma leads_star:
  "\<forall>c\<in>set t. P c \<Longrightarrow> (case s of [] \<Rightarrow> True | c # _ \<Rightarrow> \<not> P c) \<Longrightarrow> leads (RStar P) (cap, t @ s) (cap, s)"
  using star_ends_greedy [of t P s] by (auto simp: leads_def)

lemma runs_seq_none: "runs a st = [] \<Longrightarrow> runs (RSeq a b) st = []"
  by simp

text \<open>What a match leaves is an end of the string.\<close>

lemma many_runs_suffix:
  assumes "\<And>st st'. st' \<in> set (f st) \<Longrightarrow> \<exists>t. snd st = t @ snd st'" "st' \<in> set (many_runs f k st)"
  shows "\<exists>t. snd st = t @ snd st'"
  using assms(2)
proof (induction k arbitrary: st)
  case (Suc k)
  from Suc.prems consider "st' = st" | st1 where "st1 \<in> set (f st)" "st' \<in> set (many_runs f k st1)"
    by auto
  then show ?case
  proof cases
    case 2
    then show ?thesis
      using Suc.IH [OF 2(2)] assms(1) [OF 2(1)] by (metis append.assoc)
  qed simp
qed simp

lemma runs_suffix: "st' \<in> set (runs r st) \<Longrightarrow> \<exists>t. snd st = t @ snd st'"
proof (induction r arbitrary: st st')
  case (RClass P)
  then show ?case
    by (cases st) (auto split: list.splits if_splits)
next
  case (RSeq a b)
  from RSeq.prems obtain st1 where st1: "st1 \<in> set (runs a st)" "st' \<in> set (runs b st1)"
    by auto
  show ?case
    using RSeq.IH(1) [OF st1(1)] RSeq.IH(2) [OF st1(2)] by (metis append.assoc)
next
  case (RStar P)
  then show ?case
    by (cases st) (auto simp: star_ends_set)
next
  case (RPlusLazy P)
  then show ?case
    by (cases st) (auto simp: lazy_ends_set star_ends_set split: list.splits if_splits)
next
  case (RMany a)
  obtain cap s where st: "st = (cap, s)"
    by (cases st)
  show ?case
    using many_runs_suffix [of "runs a" st' "length s" "(cap, s)"] RMany by (simp add: st)
next
  case (RGroup n a)
  obtain cap s where st: "st = (cap, s)"
    by (cases st)
  show ?case
    using RGroup.prems RGroup.IH [of _ "(cap, s)"] by (fastforce simp: st)
next
  case (RBack n)
  then show ?case
    by (cases st) (auto simp: is_prefix_prefix prefix_def split: if_splits)
qed (cases st; auto split: if_splits)+

lemma exec_front_suffix: "exec_front r s = Some (cap, s') \<Longrightarrow> \<exists>t. s = t @ s'"
  using runs_suffix [of "(cap, s')" r "(\<lambda>_. [], s)"] by (auto simp: exec_front_def split: list.splits)

text \<open>A repetition that takes one piece after the other, and stops where no further one can begin.\<close>

lemma many_leads:
  assumes "\<And>u t. u \<in> set us \<Longrightarrow> u \<noteq> [] \<and> leads r (cap, u @ t) (cap, t)" "runs r (cap, s) = []"
    and "length (concat us) \<le> k"
  shows "\<exists>l. many_runs (runs r) k (cap, concat us @ s) = (cap, s) # l"
  using assms(1,3)
proof (induction us arbitrary: k)
  case Nil
  then show ?case
    using assms(2) by (cases k) simp_all
next
  case (Cons u us)
  have u: "u \<noteq> []" "leads r (cap, u @ concat us @ s) (cap, concat us @ s)"
    using Cons.prems(1) [of u] by simp_all
  then obtain k' where k: "k = Suc k'" "length (concat us) \<le> k'"
    using Cons.prems(2) by (cases k; cases u) auto
  obtain l where "runs r (cap, u @ concat us @ s) = (cap, concat us @ s) # l"
    using u(2) by (auto simp: leads_def)
  moreover obtain l' where "many_runs (runs r) k' (cap, concat us @ s) = (cap, s) # l'"
    using Cons.IH [OF Cons.prems(1) k(2)] by auto
  ultimately show ?case
    using u(1) k(1) by simp
qed

lemma leads_many:
  assumes "\<And>u t. u \<in> set us \<Longrightarrow> u \<noteq> [] \<and> leads r (cap, u @ t) (cap, t)" "runs r (cap, s) = []"
  shows "leads (RMany r) (cap, concat us @ s) (cap, s)"
  unfolding leads_def runs.simps by (rule many_leads [OF assms]) simp_all

text \<open>A captured group is not longer than the text before the match.\<close>

lemma many_runs_captures:
  assumes "\<And>st st'. st' \<in> set (f st) \<Longrightarrow> length (fst st' n) \<le> max (length (fst st n)) (length (snd st))"
    and "\<And>st st'. st' \<in> set (f st) \<Longrightarrow> length (snd st') \<le> length (snd st)" "st' \<in> set (many_runs f k st)"
  shows "length (fst st' n) \<le> max (length (fst st n)) (length (snd st))"
  using assms(3)
proof (induction k arbitrary: st)
  case (Suc k)
  from Suc.prems consider "st' = st" | st1 where "st1 \<in> set (f st)" "st' \<in> set (many_runs f k st1)"
    by auto
  then show ?case
  proof cases
    case 2
    then show ?thesis
      using Suc.IH [OF 2(2)] assms(1,2) [OF 2(1)] by linarith
  qed simp
qed simp

lemma runs_shorter: "st' \<in> set (runs r st) \<Longrightarrow> length (snd st') \<le> length (snd st)"
  using runs_suffix by fastforce

lemma runs_captures: "st' \<in> set (runs r st) \<Longrightarrow> length (fst st' n) \<le> max (length (fst st n)) (length (snd st))"
proof (induction r arbitrary: st st')
  case (RSeq a b)
  from RSeq.prems obtain st1 where st1: "st1 \<in> set (runs a st)" "st' \<in> set (runs b st1)"
    by auto
  show ?case
    using RSeq.IH(1) [OF st1(1)] RSeq.IH(2) [OF st1(2)] runs_shorter [OF st1(1)] by linarith
next
  case (RMany a)
  obtain cap s where st: "st = (cap, s)"
    by (cases st)
  show ?case
    using many_runs_captures [of "runs a" n st' "length s" "(cap, s)"] RMany runs_shorter by (simp add: st)
next
  case (RGroup m a)
  obtain cap s where st: "st = (cap, s)"
    by (cases st)
  from RGroup.prems obtain cap' s' where
    st': "(cap', s') \<in> set (runs a (cap, s))" "st' = (cap'(m := take (length s - length s') s), s')"
    by (auto simp: st)
  show ?case
    using RGroup.IH [OF st'(1)] by (simp add: st st'(2) le_max_iff_disj)
next
  case (RClass P)
  then show ?case
    by (cases st) (auto split: list.splits if_splits)
next
  case (RPlusLazy P)
  then show ?case
    by (cases st) (auto split: list.splits if_splits)
qed (cases st; auto split: if_splits)+

end
