(* ===== verification/Stemmer.thy ===== *)
theory Stemmer
  imports JsRegex
begin

text \<open>
  The Porter stemmer of \<open>searchtools.js\<close>: \<open>stemWord\<close> step by step, with its regular expressions.
  The four expressions on consonant and vowel sequences are shown to decide Porter's measure.
\<close>

section \<open>The program\<close>

definition aeiou :: "char \<Rightarrow> bool" where
  "aeiou c \<longleftrightarrow> c \<in> set ''aeiou''"

definition aeiouy :: "char \<Rightarrow> bool" where
  "aeiouy c \<longleftrightarrow> c \<in> set ''aeiouy''"

definition step2list :: "string obj" where
  "step2list =
     [(''ational'', ''ate''), (''tional'', ''tion''), (''enci'', ''ence''), (''anci'', ''ance''),
      (''izer'', ''ize''), (''bli'', ''ble''), (''alli'', ''al''), (''entli'', ''ent''),
      (''eli'', ''e''), (''ousli'', ''ous''), (''ization'', ''ize''), (''ation'', ''ate''),
      (''ator'', ''ate''), (''alism'', ''al''), (''iveness'', ''ive''), (''fulness'', ''ful''),
      (''ousness'', ''ous''), (''aliti'', ''al''), (''iviti'', ''ive''), (''biliti'', ''ble''),
      (''logi'', ''log'')]"

definition step3list :: "string obj" where
  "step3list =
     [(''icate'', ''ic''), (''ative'', ''''), (''alize'', ''al''), (''iciti'', ''ic''),
      (''ical'', ''ic''), (''ful'', ''''), (''ness'', '''')]"

definition step4_suffixes :: "string list" where
  "step4_suffixes =
     [''al'', ''ance'', ''ence'', ''er'', ''ic'', ''able'', ''ible'', ''ant'', ''ement'', ''ment'',
      ''ent'', ''ou'', ''ism'', ''ate'', ''iti'', ''ous'', ''ive'', ''ize'']"

definition rx_C :: rx where
  "rx_C = RSeq (RClass (\<lambda>c. \<not> aeiou c)) (RStar (\<lambda>c. \<not> aeiouy c))"

definition rx_V :: rx where
  "rx_V = RSeq (RClass aeiouy) (RStar aeiou)"

definition rx_start :: rx where
  "rx_start = ROpt (RGroup 1 rx_C)"

definition mgr0 :: rx where
  "mgr0 = RSeq rx_start (RSeq rx_V rx_C)"

definition meq1 :: rx where
  "meq1 = RSeq rx_start (RSeq rx_V (RSeq rx_C (RSeq (ROpt (RGroup 2 rx_V)) REnd)))"

definition mgr1 :: rx where
  "mgr1 = RSeq rx_start (RSeq rx_V (RSeq rx_C (RSeq rx_V rx_C)))"

definition s_v :: rx where
  "s_v = RSeq rx_start (RClass aeiouy)"

text \<open>\<open>^C v [^aeiouwxy]$\<close>\<close>

definition rx_cvc :: rx where
  "rx_cvc =
     RSeq rx_C (RSeq (RClass aeiouy) (RSeq (RClass (\<lambda>c. c \<notin> set ''aeiouwxy'')) REnd))"

text \<open>\<open>([^aeiouylsz])\1$\<close>\<close>

definition rx_double :: rx where
  "rx_double = RSeq (RGroup 1 (RClass (\<lambda>c. c \<notin> set ''aeiouylsz''))) (RSeq (RBack 1) REnd)"

definition rx_tail :: "string list \<Rightarrow> rx" where
  "rx_tail as = RSeq (rx_alts as) REnd"

definition step1a :: "string \<Rightarrow> string" where
  "step1a w =
     (case exec_front (rx_word (rx_alts [''ss'', ''i'']) ''es'') w of
        Some (g, _) \<Rightarrow> g 1 @ g 2
      | None \<Rightarrow>
        (case exec_front (rx_word (RClass (\<lambda>c. c \<noteq> CHR ''s'')) ''s'') w of
           Some (g, _) \<Rightarrow> g 1 @ g 2
         | None \<Rightarrow> w))"

definition step1b :: "string \<Rightarrow> string" where
  "step1b w =
     (case exec_front (rx_stem ''eed'') w of
        Some (g, _) \<Rightarrow> if test_front mgr0 (g 1) then remove_first rx_last w else w
      | None \<Rightarrow>
        (case exec_front (rx_word (rx_alts [''ed'', ''ing'']) []) w of
           Some (g, _) \<Rightarrow>
             if test_front s_v (g 1)
             then
               let w = g 1
               in if test_search (rx_tail [''at'', ''bl'', ''iz'']) w then w @ ''e''
                  else if test_search rx_double w then remove_first rx_last w
                  else if test_front rx_cvc w then w @ ''e''
                  else w
             else w
         | None \<Rightarrow> w))"

definition step1c :: "string \<Rightarrow> string" where
  "step1c w =
     (case exec_front (rx_stem ''y'') w of
        Some (g, _) \<Rightarrow> if test_front s_v (g 1) then g 1 @ ''i'' else w
      | None \<Rightarrow> w)"

text \<open>Steps 2 and 3: a suffix of the table is replaced after a stem of positive measure.\<close>

definition step_table :: "string obj \<Rightarrow> string \<Rightarrow> string" where
  "step_table tbl w =
     (case exec_front (rx_word (rx_alts (obj_keys tbl)) []) w of
        Some (g, _) \<Rightarrow>
          if test_front mgr0 (g 1)
          then g 1 @ (case obj_get tbl (g 2) of Some r \<Rightarrow> r | None \<Rightarrow> ''undefined'')
          else w
      | None \<Rightarrow> w)"

definition step2 :: "string \<Rightarrow> string" where
  "step2 = step_table step2list"

definition step3 :: "string \<Rightarrow> string" where
  "step3 = step_table step3list"

definition step4 :: "string \<Rightarrow> string" where
  "step4 w =
     (case exec_front (rx_word (rx_alts step4_suffixes) []) w of
        Some (g, _) \<Rightarrow> if test_front mgr1 (g 1) then g 1 else w
      | None \<Rightarrow>
        (case exec_front (rx_word (rx_alts [''s'', ''t'']) ''ion'') w of
           Some (g, _) \<Rightarrow> if test_front mgr1 (g 1 @ g 2) then g 1 @ g 2 else w
         | None \<Rightarrow> w))"

definition step5 :: "string \<Rightarrow> string" where
  "step5 w =
     (let w =
        (case exec_front (rx_stem ''e'') w of
           Some (g, _) \<Rightarrow>
             if test_front mgr1 (g 1) \<or> test_front meq1 (g 1) \<and> \<not> test_front rx_cvc (g 1)
             then g 1 else w
         | None \<Rightarrow> w)
      in if test_search (rx_tail [''ll'']) w \<and> test_front mgr1 w then remove_first rx_last w else w)"

definition stemWord :: "string \<Rightarrow> string" where
  "stemWord w =
     (if length w < 3 then w
      else
        let firstch = substr w 0 1;
            w = (if firstch = ''y'' then ''Y'' @ substr_from w 1 else w);
            w = step5 (step4 (step3 (step2 (step1c (step1b (step1a w))))))
        in if firstch = ''y'' then to_lower firstch @ substr_from w 1 else w)"

section \<open>Porter's measure\<close>

text \<open>
  A consonant is a letter other than \<open>a, e, i, o, u\<close>, and other than \<open>y\<close> preceded by a
  consonant.  The measure of a word is the number of times a vowel is followed by a consonant.
\<close>

datatype letter = Vowel | Consonant

definition kind_after :: "letter option \<Rightarrow> char \<Rightarrow> letter" where
  "kind_after prev c =
     (if aeiou c \<or> c = CHR ''y'' \<and> prev = Some Consonant then Vowel else Consonant)"

fun letters_from :: "letter option \<Rightarrow> string \<Rightarrow> letter list" where
  "letters_from prev [] = []"
| "letters_from prev (c # s) = kind_after prev c # letters_from (Some (kind_after prev c)) s"

fun vc_count :: "letter list \<Rightarrow> nat" where
  "vc_count (Vowel # Consonant # r) = Suc (vc_count (Consonant # r))"
| "vc_count (_ # r) = vc_count r"
| "vc_count [] = 0"

definition measure_of :: "string \<Rightarrow> nat" where
  "measure_of w = vc_count (letters_from None w)"

definition has_vowel :: "string \<Rightarrow> bool" where
  "has_vowel w \<longleftrightarrow> Vowel \<in> set (letters_from None w)"

section \<open>The expressions decide the measure\<close>

definition C_word :: "string \<Rightarrow> bool" where
  "C_word t \<longleftrightarrow> (\<exists>c u. t = c # u \<and> \<not> aeiou c \<and> (\<forall>x \<in> set u. \<not> aeiouy x))"

definition V_word :: "string \<Rightarrow> bool" where
  "V_word t \<longleftrightarrow> (\<exists>c u. t = c # u \<and> aeiouy c \<and> (\<forall>x \<in> set u. aeiou x))"

lemma aeiouy_iff: "aeiouy c \<longleftrightarrow> aeiou c \<or> c = CHR ''y''"
  by (auto simp: aeiou_def aeiouy_def)

lemma consumes_C: "consumes rx_C (\<lambda>s x. \<exists>t. s = t @ x \<and> C_word t)"
  unfolding rx_C_def
  by (rule consumes_cong[OF consumes_seq[OF consumes_class consumes_star]])
     (auto simp: C_word_def Cons_eq_append_conv)

lemma consumes_V: "consumes rx_V (\<lambda>s x. \<exists>t. s = t @ x \<and> V_word t)"
  unfolding rx_V_def
  by (rule consumes_cong[OF consumes_seq[OF consumes_class consumes_star]])
     (auto simp: V_word_def Cons_eq_append_conv)

lemma consumes_start: "consumes rx_start (\<lambda>s x. \<exists>t. s = t @ x \<and> (t = [] \<or> C_word t))"
  unfolding rx_start_def
  by (rule consumes_cong[OF consumes_opt[OF consumes_group[OF consumes_C]]]) auto

lemmas consumes_rules = consumes_seq consumes_class consumes_end consumes_opt consumes_group
  consumes_C consumes_V consumes_start

lemma mgr0_iff:
  "test_front mgr0 w \<longleftrightarrow>
   (\<exists>p v c r. w = p @ v @ c @ r \<and> (p = [] \<or> C_word p) \<and> V_word v \<and> C_word c)"
  unfolding mgr0_def by (subst test_front_consumes, (rule consumes_rules)+) blast

lemma mgr1_iff:
  "test_front mgr1 w \<longleftrightarrow>
   (\<exists>p v c v' c' r. w = p @ v @ c @ v' @ c' @ r \<and> (p = [] \<or> C_word p) \<and> V_word v \<and> C_word c \<and>
      V_word v' \<and> C_word c')"
  unfolding mgr1_def by (subst test_front_consumes, (rule consumes_rules)+) blast

lemma meq1_iff:
  "test_front meq1 w \<longleftrightarrow>
   (\<exists>p v c q. w = p @ v @ c @ q \<and> (p = [] \<or> C_word p) \<and> V_word v \<and> C_word c \<and>
      (q = [] \<or> V_word q))"
  unfolding meq1_def by (subst test_front_consumes, (rule consumes_rules)+) (simp, blast)

lemma s_v_iff:
  "test_front s_v w \<longleftrightarrow>
   (\<exists>p c r. w = p @ c # r \<and> (p = [] \<or> C_word p) \<and> aeiouy c)"
  unfolding s_v_def by (subst test_front_consumes, (rule consumes_rules)+) auto

text \<open>The count after a vowel, and after a consonant.\<close>

definition count_after :: "letter \<Rightarrow> string \<Rightarrow> nat" where
  "count_after k s = vc_count (k # letters_from (Some k) s)"

lemma count_after_Nil [simp]: "count_after k [] = 0"
  by (cases k) (simp_all add: count_after_def)

lemma count_after_Vowel [simp]:
  "count_after Vowel (c # s) = (if aeiou c then count_after Vowel s else Suc (count_after Consonant s))"
  by (simp add: count_after_def kind_after_def)

lemma count_after_Consonant [simp]:
  "count_after Consonant (c # s) = (if aeiouy c then count_after Vowel s else count_after Consonant s)"
  by (auto simp: count_after_def kind_after_def aeiouy_iff)

lemma count_vowels: "\<forall>x \<in> set t. aeiou x \<Longrightarrow> count_after Vowel (t @ s) = count_after Vowel s"
  by (induction t) auto

lemma count_consonants:
  "\<forall>x \<in> set t. \<not> aeiouy x \<Longrightarrow> count_after Consonant (t @ s) = count_after Consonant s"
  by (induction t) auto

lemma count_V_word: "V_word v \<Longrightarrow> count_after Consonant (v @ s) = count_after Vowel s"
  by (auto simp: V_word_def count_vowels)

lemma count_C_word: "C_word c \<Longrightarrow> count_after Vowel (c @ s) = Suc (count_after Consonant s)"
  by (auto simp: C_word_def count_consonants)

lemma measure_Cons:
  "measure_of (c # s) = count_after (if aeiou c then Vowel else Consonant) s"
  by (simp add: measure_of_def count_after_def kind_after_def)

lemma measure_start:
  assumes "p = [] \<or> C_word p" "V_word v" "p @ v = [] \<or> hd (p @ v) \<noteq> CHR ''y''"
  shows "measure_of (p @ v @ s) = count_after Vowel s"
proof (cases p)
  case Nil
  obtain c u where v: "v = c # u" "aeiouy c" "\<forall>x \<in> set u. aeiou x"
    using assms(2) unfolding V_word_def by blast
  then have "aeiou c" using assms(3) Nil by (simp add: aeiouy_iff)
  then show ?thesis using Nil v by (simp add: measure_Cons count_vowels)
next
  case (Cons c u)
  then have "\<not> aeiou c" "\<forall>x \<in> set u. \<not> aeiouy x" using assms(1) by (auto simp: C_word_def)
  then show ?thesis using Cons assms(2) by (simp add: measure_Cons count_consonants count_V_word)
qed

text \<open>Conversely, a word can be taken apart.\<close>

lemma split_V: "\<exists>t r. s = t @ r \<and> (\<forall>x \<in> set t. aeiou x) \<and> (r = [] \<or> \<not> aeiou (hd r))"
proof -
  have "s = takeWhile aeiou s @ dropWhile aeiou s" by simp
  moreover have "\<forall>x \<in> set (takeWhile aeiou s). aeiou x" using set_takeWhileD by fast
  moreover have "dropWhile aeiou s = [] \<or> \<not> aeiou (hd (dropWhile aeiou s))"
    using hd_dropWhile[of aeiou s] by blast
  ultimately show ?thesis by (intro exI conjI)
qed

lemma split_C: "\<exists>t r. s = t @ r \<and> (\<forall>x \<in> set t. \<not> aeiouy x) \<and> (r = [] \<or> aeiouy (hd r))"
proof -
  let ?P = "\<lambda>x. \<not> aeiouy x"
  have "s = takeWhile ?P s @ dropWhile ?P s" by simp
  moreover have "\<forall>x \<in> set (takeWhile ?P s). ?P x" using set_takeWhileD by fast
  moreover have "dropWhile ?P s = [] \<or> aeiouy (hd (dropWhile ?P s))"
    using hd_dropWhile[of ?P s] by blast
  ultimately show ?thesis by (intro exI conjI)
qed

lemma take_V:
  assumes "r \<noteq> []" "aeiouy (hd r)"
  shows "\<exists>v s. r = v @ s \<and> V_word v \<and> (s = [] \<or> \<not> aeiou (hd s)) \<and>
    count_after Consonant r = count_after Vowel s"
proof -
  obtain c r' where r: "r = c # r'" using assms by (cases r) auto
  obtain t s where t: "r' = t @ s" "\<forall>x \<in> set t. aeiou x" "s = [] \<or> \<not> aeiou (hd s)"
    using split_V by blast
  then have "V_word (c # t)" using assms r by (auto simp: V_word_def)
  moreover have "r = (c # t) @ s" using r t by simp
  ultimately show ?thesis using t count_V_word by blast
qed

lemma take_C:
  assumes "s \<noteq> []" "\<not> aeiou (hd s)"
  shows "\<exists>c r. s = c @ r \<and> C_word c \<and> (r = [] \<or> aeiouy (hd r)) \<and>
    count_after Vowel s = Suc (count_after Consonant r)"
proof -
  obtain x s' where s: "s = x # s'" using assms by (cases s) auto
  obtain t r where t: "s' = t @ r" "\<forall>x \<in> set t. \<not> aeiouy x" "r = [] \<or> aeiouy (hd r)"
    using split_C by blast
  then have "C_word (x # t)" using assms s by (auto simp: C_word_def)
  moreover have "s = (x # t) @ r" using s t by simp
  ultimately show ?thesis using t count_C_word by blast
qed

lemma take_start:
  "(\<exists>p r. w = p @ r \<and> (p = [] \<or> C_word p) \<and> r \<noteq> [] \<and> aeiouy (hd r)) \<or> w = [] \<or> C_word w"
proof (cases w)
  case (Cons c s)
  show ?thesis
  proof (cases "aeiou c")
    case True
    then show ?thesis using Cons by (intro disjI1 exI[of _ "[]"] exI[of _ w]) (auto simp: aeiouy_iff)
  next
    case False
    obtain t r where t: "s = t @ r" "\<forall>x \<in> set t. \<not> aeiouy x" "r = [] \<or> aeiouy (hd r)"
      using split_C by blast
    then have C: "C_word (c # t)" using False by (auto simp: C_word_def)
    show ?thesis
    proof (cases "r = []")
      case True
      then show ?thesis using C t Cons by simp
    next
      case False
      then show ?thesis using C t Cons
        by (intro disjI1 exI[of _ "c # t"] exI[of _ r]) auto
    qed
  qed
qed simp

lemma measure_C_word: "w = [] \<or> C_word w \<Longrightarrow> measure_of w = 0"
  using count_consonants[of _ "[]"] by (auto simp: C_word_def measure_Cons) (simp add: measure_of_def)

text \<open>Every word with a vowel is \<open>[C] V s\<close>, with \<open>s\<close> empty or starting with a consonant.\<close>

lemma take_front:
  assumes "w = [] \<or> hd w \<noteq> CHR ''y''" "\<not> (w = [] \<or> C_word w)"
  shows "\<exists>p v s. w = p @ v @ s \<and> (p = [] \<or> C_word p) \<and> V_word v \<and> (s = [] \<or> \<not> aeiou (hd s)) \<and>
    measure_of w = count_after Vowel s"
proof -
  obtain p r where p: "w = p @ r" "p = [] \<or> C_word p" "r \<noteq> []" "aeiouy (hd r)"
    using take_start assms(2) by blast
  obtain v s where v: "r = v @ s" "V_word v" "s = [] \<or> \<not> aeiou (hd s)" using take_V[OF p(3,4)] by blast
  have "p @ v = [] \<or> hd (p @ v) \<noteq> CHR ''y''"
    using assms(1) p v by (cases p) (auto simp: V_word_def)
  then have "measure_of w = count_after Vowel s" using measure_start p v by simp
  then show ?thesis using p v by blast
qed

lemma letters_consonants:
  "\<forall>x \<in> set u. \<not> aeiouy x \<Longrightarrow>
   letters_from (Some Consonant) (u @ s) =
     replicate (length u) Consonant @ letters_from (Some Consonant) s"
  by (induction u) (auto simp: kind_after_def aeiouy_iff)

lemma letters_C_word:
  "C_word p \<Longrightarrow> letters_from None (p @ s) = replicate (length p) Consonant @ letters_from (Some Consonant) s"
  by (auto simp: C_word_def letters_consonants kind_after_def)

lemma s_v_has_vowel:
  assumes "w = [] \<or> hd w \<noteq> CHR ''y''"
  shows "test_front s_v w \<longleftrightarrow> has_vowel w"
proof
  assume "test_front s_v w"
  then obtain p c r where w: "w = p @ c # r" "p = [] \<or> C_word p" "aeiouy c" using s_v_iff by blast
  then show "has_vowel w"
    using assms letters_C_word[of p "c # r"]
    by (auto simp: has_vowel_def kind_after_def aeiouy_iff)
next
  assume v: "has_vowel w"
  have "\<not> (w = [] \<or> C_word w)"
    using v letters_C_word[of w "[]"] by (auto simp: has_vowel_def)
  then obtain p r where "w = p @ r" "p = [] \<or> C_word p" "r \<noteq> []" "aeiouy (hd r)"
    using take_start by blast
  then show "test_front s_v w" unfolding s_v_iff by (metis list.collapse)
qed

lemma measure_tests:
  assumes y: "w = [] \<or> hd w \<noteq> CHR ''y''"
  shows "test_front mgr0 w \<Longrightarrow> 0 < measure_of w"
    and "test_front meq1 w \<Longrightarrow> measure_of w = 1"
    and "test_front mgr1 w \<Longrightarrow> 1 < measure_of w"
proof -
  have front: "measure_of (p @ v @ c @ r) = Suc (count_after Consonant r)"
    if "w = p @ v @ c @ r" "p = [] \<or> C_word p" "V_word v" "C_word c" for p v c r
  proof -
    have "p @ v = [] \<or> hd (p @ v) \<noteq> CHR ''y''"
      using y that by (cases p) (auto simp: V_word_def)
    then show ?thesis using measure_start[OF that(2,3), of "c @ r"] count_C_word[OF that(4)] by simp
  qed
  show "0 < measure_of w" if t: "test_front mgr0 w"
  proof -
    obtain p v c r where "w = p @ v @ c @ r" "p = [] \<or> C_word p" "V_word v" "C_word c"
      using t mgr0_iff by blast
    then show ?thesis using front by simp
  qed
  show "measure_of w = 1" if t: "test_front meq1 w"
  proof -
    obtain p v c q where w: "w = p @ v @ c @ q" "p = [] \<or> C_word p" "V_word v" "C_word c"
      and q: "q = [] \<or> V_word q"
      using t meq1_iff by blast
    then show ?thesis using front[OF w] count_V_word[of q "[]"] by auto
  qed
  show "1 < measure_of w" if t: "test_front mgr1 w"
  proof -
    obtain p v c v' c' r where w: "w = p @ v @ c @ v' @ c' @ r" "p = [] \<or> C_word p" "V_word v" "C_word c"
      and r: "V_word v'" "C_word c'"
      using iffD1[OF mgr1_iff t] by (elim exE conjE) (rule that, assumption+)
    then show ?thesis using front[OF w] count_V_word[OF r(1)] count_C_word[OF r(2)] by simp
  qed
qed

lemma measure_decomposes:
  assumes "w = [] \<or> hd w \<noteq> CHR ''y''" "0 < measure_of w"
  shows "(measure_of w = 1 \<and> test_front meq1 w \<or> 1 < measure_of w \<and> test_front mgr1 w) \<and>
    test_front mgr0 w"
proof -
  have "\<not> (w = [] \<or> C_word w)" using assms(2) measure_C_word by force
  then obtain p v s where w: "w = p @ v @ s" "p = [] \<or> C_word p" "V_word v"
    "s = [] \<or> \<not> aeiou (hd s)" "measure_of w = count_after Vowel s"
    using take_front[OF assms(1)] by blast
  then have "s \<noteq> []" using assms(2) by auto
  then obtain c r where s: "s = c @ r" "C_word c" "r = [] \<or> aeiouy (hd r)"
    "count_after Vowel s = Suc (count_after Consonant r)"
    using take_C[of s] w(4) by blast
  have wr: "w = p @ v @ c @ r" using w(1) s(1) by simp
  then have g0: "test_front mgr0 w" unfolding mgr0_iff using w(2,3) s(2) by blast
  show ?thesis
  proof (cases "r = []")
    case True
    then have "measure_of w = 1" using w s by simp
    moreover have "test_front meq1 w" unfolding meq1_iff using wr w(2,3) s(2) True by blast
    ultimately show ?thesis using g0 by simp
  next
    case False
    then obtain v' s' where r: "r = v' @ s'" "V_word v'" "s' = [] \<or> \<not> aeiou (hd s')"
      "count_after Consonant r = count_after Vowel s'"
      using take_V s(3) by blast
    show ?thesis
    proof (cases "s' = []")
      case True
      then have "measure_of w = 1" using w s r by simp
      moreover have "w = p @ v @ c @ v'" using wr r(1) True by simp
      then have "test_front meq1 w" unfolding meq1_iff using w(2,3) s(2) r(2) by blast
      ultimately show ?thesis using g0 by simp
    next
      case False
      then obtain c' r' where s': "s' = c' @ r'" "C_word c'"
        "count_after Vowel s' = Suc (count_after Consonant r')"
        using take_C r(3) by blast
      then have "1 < measure_of w" using w s r by simp
      moreover have "w = p @ v @ c @ v' @ c' @ r'" using wr r(1) s'(1) by simp
      then have "test_front mgr1 w" unfolding mgr1_iff using w(2,3) s(2) r(2) s'(2) by blast
      ultimately show ?thesis using g0 by simp
    qed
  qed
qed

section \<open>What a step can do to a word\<close>

text \<open>A word after a step: not longer, not empty, and starting with the same letter.\<close>

definition shrinks :: "string \<Rightarrow> string \<Rightarrow> bool" where
  "shrinks w w' \<longleftrightarrow> w' \<noteq> [] \<and> length w' \<le> length w \<and> hd w' = hd w"

lemma shrinks_refl: "w \<noteq> [] \<Longrightarrow> shrinks w w"
  by (simp add: shrinks_def)

lemma shrinks_trans: "shrinks a b \<Longrightarrow> shrinks b c \<Longrightarrow> shrinks a c"
  by (simp add: shrinks_def)

lemma shrinks_stem: "g \<noteq> [] \<Longrightarrow> length s \<le> length t \<Longrightarrow> shrinks (g @ t) (g @ s)"
  by (simp add: shrinks_def)

lemma shrinks_butlast: "1 < length w \<Longrightarrow> shrinks w (butlast w)"
  by (cases w) (auto simp: shrinks_def)

lemma shrinks_remove_last: "1 < length w \<Longrightarrow> shrinks w (remove_first rx_last w)"
proof -
  assume "1 < length w"
  moreover from this have "w \<noteq> []" by auto
  ultimately show ?thesis by (simp add: remove_last shrinks_butlast shrinks_refl)
qed

lemma shrinks_alts:
  assumes "exec_front (rx_word (rx_alts as) tail) w = Some (g, x)"
    and "length s \<le> length (g 2) + length tail"
  shows "shrinks w (g 1 @ s)"
  using rx_word_alts[OF assms(1)] assms(2) shrinks_stem[of "g 1" s "g 2 @ tail"] by simp

lemma shrinks_class:
  assumes "exec_front (rx_word (RClass P) tail) w = Some (g, x)"
  shows "shrinks w (g 1 @ g 2)"
  using rx_word_class[OF assms] shrinks_stem[of "g 1" "g 2" "g 2 @ tail"] by simp

lemma shrinks_rx_stem:
  assumes "exec_front (rx_stem tail) w = Some (g, x)" "length s \<le> length tail"
  shows "shrinks w (g 1 @ s)"
  using rx_stem_Some[OF assms(1)] assms(2) shrinks_stem[of "g 1" s tail] by simp

lemma shrinks_match:
  "(m = None \<Longrightarrow> shrinks w a) \<Longrightarrow> (\<And>g x. m = Some (g, x) \<Longrightarrow> shrinks w (f g x)) \<Longrightarrow>
   shrinks w (case m of None \<Rightarrow> a | Some (g, x) \<Rightarrow> f g x)"
  by (auto split: option.split)

lemma shrinks_if: "(c \<Longrightarrow> shrinks w a) \<Longrightarrow> (\<not> c \<Longrightarrow> shrinks w b) \<Longrightarrow> shrinks w (if c then a else b)"
  by simp

lemma step1a_shrinks: "w \<noteq> [] \<Longrightarrow> shrinks w (step1a w)"
  unfolding step1a_def
proof (intro shrinks_match)
  fix g x assume "exec_front (rx_word (rx_alts [''ss'', ''i'']) ''es'') w = Some (g, x)"
  then show "shrinks w (g 1 @ g 2)" by (rule shrinks_alts) simp
next
  fix g x assume "exec_front (rx_word (RClass (\<lambda>c. c \<noteq> CHR ''s'')) ''s'') w = Some (g, x)"
  then show "shrinks w (g 1 @ g 2)" by (rule shrinks_class)
qed (simp add: shrinks_refl)

lemma search_suffix:
  "exec_search r b s = Some res \<Longrightarrow> \<exists>t. exec_front r t \<noteq> None \<and> length t \<le> length s"
proof (induction r b s rule: exec_search.induct)
  case (1 r b s)
  show ?case
  proof (cases "exec_front r s")
    case None
    then obtain c s' where "s = c # s'" "exec_search r (b @ [c]) s' = Some res"
      using 1(2) by (subst (asm) exec_search.simps) (auto split: list.splits)
    then show ?thesis using 1(1)[OF None] by (metis le_Suc_eq length_Cons)
  qed auto
qed

lemma double_length: "test_search rx_double w \<Longrightarrow> 1 < length w"
proof -
  assume "test_search rx_double w"
  then obtain t where t: "exec_front rx_double t \<noteq> None" "length t \<le> length w"
    unfolding test_search_def using search_suffix by blast
  then show ?thesis
    by (cases t; cases "tl t") (auto simp: exec_front_def rx_double_def split: if_splits)
qed

lemma ll_length: "test_search (rx_tail [''ll'']) w \<Longrightarrow> 1 < length w"
proof -
  assume "test_search (rx_tail [''ll'']) w"
  then obtain t where t: "exec_front (rx_tail [''ll'']) t \<noteq> None" "length t \<le> length w"
    unfolding test_search_def using search_suffix by blast
  then show ?thesis
    by (cases t; cases "tl t") (auto simp: exec_front_def rx_tail_def split: if_splits)
qed

lemma step1b_shrinks: "w \<noteq> [] \<Longrightarrow> shrinks w (step1b w)"
  unfolding step1b_def Let_def
proof (intro shrinks_match shrinks_if)
  fix g x assume "exec_front (rx_stem ''eed'') w = Some (g, x)"
  then show "shrinks w (remove_first rx_last w)"
    using rx_stem_Some[of "''eed''" w g x] by (intro shrinks_remove_last) simp
next
  fix g x assume m: "exec_front (rx_word (rx_alts [''ed'', ''ing'']) []) w = Some (g, x)"
  then show s: "shrinks w (g 1)" using shrinks_alts[of "[''ed'', ''ing'']" "[]" w g x "[]"] by simp
  have "length ''e'' \<le> length (g 2)" using rx_word_alts(3)[OF m] by auto
  then show "shrinks w (g 1 @ ''e'')" "shrinks w (g 1 @ ''e'')"
    using shrinks_alts[OF m, of "''e''"] by simp_all
  assume "test_search rx_double (g 1)"
  then show "shrinks w (remove_first rx_last (g 1))"
    using shrinks_trans[OF s] shrinks_remove_last double_length by blast
qed (simp_all add: shrinks_refl)

lemma step1c_shrinks: "w \<noteq> [] \<Longrightarrow> shrinks w (step1c w)"
  unfolding step1c_def
proof (intro shrinks_match shrinks_if)
  fix g x assume "exec_front (rx_stem ''y'') w = Some (g, x)"
  then show "shrinks w (g 1 @ ''i'')" by (rule shrinks_rx_stem) simp
qed (simp_all add: shrinks_refl)

lemma step2list_shorter: "\<forall>(k, v) \<in> set step2list. length v \<le> length k"
  by (simp add: step2list_def)

lemma step3list_shorter: "\<forall>(k, v) \<in> set step3list. length v \<le> length k"
  by (simp add: step3list_def)

lemma step_table_shrinks:
  assumes "w \<noteq> []" "\<forall>(k, v) \<in> set tbl. length v \<le> length k"
  shows "shrinks w (step_table tbl w)"
  unfolding step_table_def
proof (intro shrinks_match shrinks_if)
  fix g x assume m: "exec_front (rx_word (rx_alts (obj_keys tbl)) []) w = Some (g, x)"
  have "g 2 \<in> set (obj_keys tbl)" using rx_word_alts(3)[OF m] .
  then obtain r where r: "obj_get tbl (g 2) = Some r"
    by (metis has_key_def has_key_get not_None_eq)
  then have "length r \<le> length (g 2)" using assms(2) by (auto simp: obj_get_def dest!: map_of_SomeD)
  then show "shrinks w (g 1 @ (case obj_get tbl (g 2) of Some r \<Rightarrow> r | None \<Rightarrow> ''undefined''))"
    using shrinks_alts[OF m, of r] r by simp
qed (simp_all add: shrinks_refl assms)

lemma step4_shrinks: "w \<noteq> [] \<Longrightarrow> shrinks w (step4 w)"
  unfolding step4_def
proof (intro shrinks_match shrinks_if)
  fix g x assume "exec_front (rx_word (rx_alts step4_suffixes) []) w = Some (g, x)"
  then show "shrinks w (g 1)" using shrinks_alts[of step4_suffixes "[]" w g x "[]"] by simp
next
  fix g x assume "exec_front (rx_word (rx_alts [''s'', ''t'']) ''ion'') w = Some (g, x)"
  then show "shrinks w (g 1 @ g 2)" by (rule shrinks_alts) simp
qed (simp_all add: shrinks_refl)

lemma step5_shrinks:
  assumes "w \<noteq> []"
  shows "shrinks w (step5 w)"
proof -
  let ?w = "case exec_front (rx_stem ''e'') w of
      Some (g, _) \<Rightarrow>
        if test_front mgr1 (g 1) \<or> test_front meq1 (g 1) \<and> \<not> test_front rx_cvc (g 1) then g 1 else w
    | None \<Rightarrow> w"
  have s: "shrinks w ?w"
  proof (intro shrinks_match shrinks_if)
    fix g x assume "exec_front (rx_stem ''e'') w = Some (g, x)"
    then show "shrinks w (g 1)" using shrinks_rx_stem[of "''e''" w g x "[]"] by simp
  qed (simp_all add: shrinks_refl assms)
  have "step5 w = (if test_search (rx_tail [''ll'']) ?w \<and> test_front mgr1 ?w
      then remove_first rx_last ?w else ?w)"
    unfolding step5_def Let_def by simp
  then show ?thesis
    using s shrinks_trans[OF s] shrinks_remove_last[OF ll_length] by simp
qed

lemma stem_steps_shrink:
  assumes "w \<noteq> []"
  shows "shrinks w (step5 (step4 (step3 (step2 (step1c (step1b (step1a w)))))))"
proof -
  have ne: "w' \<noteq> []" if "shrinks v w'" for v w' using that by (simp add: shrinks_def)
  note s1 = step1a_shrinks[OF assms]
  note s2 = shrinks_trans[OF s1 step1b_shrinks[OF ne[OF s1]]]
  note s3 = shrinks_trans[OF s2 step1c_shrinks[OF ne[OF s2]]]
  have s4: "shrinks w (step2 (step1c (step1b (step1a w))))"
    unfolding step2_def
    using shrinks_trans[OF s3 step_table_shrinks[OF ne[OF s3] step2list_shorter]] .
  have s5: "shrinks w (step3 (step2 (step1c (step1b (step1a w)))))"
    unfolding step3_def
    using shrinks_trans[OF s4 step_table_shrinks[OF ne[OF s4] step3list_shorter]] .
  note s6 = shrinks_trans[OF s5 step4_shrinks[OF ne[OF s5]]]
  show ?thesis using shrinks_trans[OF s6 step5_shrinks[OF ne[OF s6]]] .
qed

lemma stemWord_facts:
  "length (stemWord w) \<le> length w \<and> (w \<noteq> [] \<longrightarrow> stemWord w \<noteq> [] \<and> hd (stemWord w) = hd w) \<and>
   (length w < 3 \<longrightarrow> stemWord w = w)"
proof (cases "length w < 3")
  case False
  then obtain c s where w: "w = c # s" by (cases w) auto
  show ?thesis
  proof (cases "c = CHR ''y''")
    case True
    have "shrinks (CHR ''Y'' # s) (step5 (step4 (step3 (step2 (step1c (step1b (step1a (CHR ''Y'' # s))))))))"
      by (rule stem_steps_shrink) simp
    then show ?thesis using w True False
      by (cases "step5 (step4 (step3 (step2 (step1c (step1b (step1a (CHR ''Y'' # s)))))))")
         (auto simp: stemWord_def substr_def substr_from_def shrinks_def to_lower_def lower_char_def Let_def)
  next
    case c: False
    have "shrinks w (step5 (step4 (step3 (step2 (step1c (step1b (step1a w)))))))"
      using w by (intro stem_steps_shrink) simp
    then show ?thesis using w c False
      by (auto simp: stemWord_def substr_def shrinks_def Let_def)
  qed
qed (simp add: stemWord_def)

section \<open>Properties\<close>

text \<open>
  C37. The stemmer's regular expressions decide Porter's definitions: on every stem that does not
  start with a small \<open>y\<close> (\<open>stemWord\<close> writes it \<open>Y\<close>), \<open>mgr0\<close>, \<open>meq1\<close> and \<open>mgr1\<close> match exactly
  when the measure, the number of vowel-consonant changes, is positive, one, or greater than one,
  and \<open>s_v\<close> exactly when the stem contains a vowel.
\<close>

theorem stemmer_measure:
  assumes "w = [] \<or> hd w \<noteq> CHR ''y''"
  shows "(test_front mgr0 w \<longleftrightarrow> 0 < measure_of w) \<and>
    (test_front meq1 w \<longleftrightarrow> measure_of w = 1) \<and>
    (test_front mgr1 w \<longleftrightarrow> 1 < measure_of w) \<and>
    (test_front s_v w \<longleftrightarrow> has_vowel w)"
proof -
  note T = measure_tests[OF assms] and D = measure_decomposes[OF assms]
  have "test_front mgr0 w \<longleftrightarrow> 0 < measure_of w" using T(1) D by blast
  moreover have "test_front meq1 w \<longleftrightarrow> measure_of w = 1" using T(2) D by auto
  moreover have "test_front mgr1 w \<longleftrightarrow> 1 < measure_of w" using T(3) D by auto
  ultimately show ?thesis using s_v_has_vowel[OF assms] by simp
qed

theorem stemmer_measure_witness:
  "test_front mgr0 ''trouble'' \<and> test_front meq1 ''trouble'' \<and> \<not> test_front mgr1 ''trouble'' \<and>
   test_front s_v ''trouble''"
proof -
  have m: "measure_of ''trouble'' = 1" "has_vowel ''trouble''"
    by (simp_all add: measure_of_def has_vowel_def kind_after_def aeiou_def)
  show ?thesis using stemmer_measure[of "''trouble''"] m by simp
qed

text \<open>
  Stemming never lengthens a word, never empties it, keeps its first letter (the \<open>y\<close> that is
  hidden as \<open>Y\<close> meanwhile included), and leaves words of at most two letters alone.
\<close>

theorem stemWord_shrinks:
  "length (stemWord w) \<le> length w \<and> (w \<noteq> [] \<longrightarrow> stemWord w \<noteq> [] \<and> hd (stemWord w) = hd w) \<and>
   (length w < 3 \<longrightarrow> stemWord w = w)"
  by (rule stemWord_facts)

theorem stemWord_shrinks_witness:
  "length (stemWord ''yesterday'') \<le> 9 \<and> hd (stemWord ''yesterday'') = CHR ''y'' \<and> stemWord ''is'' = ''is''"
  using stemWord_shrinks[of "''yesterday''"] stemWord_shrinks[of "''is''"] by simp

end
