(* ===== verification/Search.thy ===== *)
theory Search
  imports SearchSplit Stemmer JsSort
begin

text \<open>
  The search of \<open>searchtools.js\<close>: reading a query, looking it up among the documented objects and
  in the full-text index, ranking and displaying the results, and the excerpt shown with each.

  The index is the one Sphinx generates.  Its arrays are read with \<open>at\<close>, which is \<open>None\<close> out of
  range; a missing string is written \<open>undefined\<close> when it is concatenated.  Words that are names of
  properties of \<open>Object.prototype\<close> (such as \<open>constructor\<close>) are not looked up in this model.
\<close>

section \<open>The index and the results\<close>

datatype postings = One nat | Many "nat list"

record obj_match =
  m_doc :: nat
  m_type :: nat
  m_prio :: int
  m_anchor :: string

record index =
  docnames :: "string list"
  filenames :: "string list"
  titles :: "string list"
  objects :: "obj_match obj obj"
  objnames :: "(string \<times> string \<times> string) list"
  terms :: "postings obj"
  titleterms :: "postings obj"

record result =
  r_doc :: "string option"
  r_title :: "string option"
  r_anchor :: string
  r_descr :: "string option"
  r_score :: int
  r_file :: "string option"

definition at :: "'a list \<Rightarrow> nat \<Rightarrow> 'a option" where
  "at xs i = (if i < length xs then Some (xs ! i) else None)"

definition text_of :: "string option \<Rightarrow> string" where
  "text_of s = (case s of None \<Rightarrow> ''undefined'' | Some s \<Rightarrow> s)"

fun files_of :: "postings \<Rightarrow> nat list" where
  "files_of (One n) = [n]"
| "files_of (Many ns) = ns"

text \<open>The scores of \<open>Scorer\<close>.\<close>

definition objNameMatch :: int where "objNameMatch = 11"
definition objPartialMatch :: int where "objPartialMatch = 6"
definition objPrioDefault :: int where "objPrioDefault = 0"
definition score_title :: int where "score_title = 15"
definition score_term :: int where "score_term = 5"

definition objPrio :: "int \<Rightarrow> int option" where
  "objPrio p = (if p = 0 then Some 15 else if p = 1 then Some 5 else if p = 2 then Some (-5) else None)"

section \<open>Reading the query\<close>

definition stopwords :: "string list" where
  "stopwords =
     [''a'', ''and'', ''are'', ''as'', ''at'', ''be'', ''but'', ''by'', ''for'', ''if'', ''in'', ''into'',
      ''is'', ''it'', ''near'', ''no'', ''not'', ''of'', ''on'', ''or'', ''such'', ''that'', ''the'',
      ''their'', ''then'', ''there'', ''these'', ''they'', ''this'', ''to'', ''was'', ''will'', ''with'']"

definition is_number :: "string \<Rightarrow> bool" where
  "is_number s \<longleftrightarrow> s \<noteq> [] \<and> list_all is_digit s"

record query_terms =
  searchterms :: "string list"
  excluded :: "string list"
  hlterms :: "string list"
  objectterms :: "string list"

definition add_new :: "string list \<Rightarrow> string \<Rightarrow> string list" where
  "add_new ws w = (if w \<in> set ws then ws else ws @ [w])"

definition query_word :: "string \<Rightarrow> string" where
  "query_word t =
     (let word = stemWord (to_lower t) in if length word < 3 \<and> 3 \<le> length t then t else word)"

fun read_words :: "string list \<Rightarrow> query_terms \<Rightarrow> query_terms" where
  "read_words [] q = q"
| "read_words (t # ts) q =
     (let q = (if t \<noteq> [] then q\<lparr>objectterms := objectterms q @ [to_lower t]\<rparr> else q)
      in if to_lower t \<in> set stopwords \<or> is_number t \<or> t = [] then read_words ts q
         else
           let word = query_word t
           in if word \<noteq> [] \<and> hd word = CHR ''-''
              then read_words ts (q\<lparr>excluded := add_new (excluded q) (substr_from word 1)\<rparr>)
              else read_words ts
                     (q\<lparr>hlterms := hlterms q @ [to_lower t],
                        searchterms := add_new (searchterms q) word\<rparr>))"

definition read_query :: "string \<Rightarrow> query_terms" where
  "read_query query =
     read_words (query_words query)
       \<lparr>searchterms = [], excluded = [], hlterms = [], objectterms = []\<rparr>"

section \<open>Objects\<close>

definition full_name :: "string \<Rightarrow> string \<Rightarrow> string" where
  "full_name pre name = (if pre \<noteq> [] then pre @ ''.'' else []) @ name"

definition name_score :: "string \<Rightarrow> string \<Rightarrow> int" where
  "name_score fullname obj =
     (let lastpart = last (split_char CHR ''.'' fullname)
      in if fullname = obj \<or> lastpart = obj then objNameMatch
         else if str_index_of lastpart obj > -1 then objPartialMatch
         else 0)"

text \<open>
  One object: \<open>None\<close> is the TypeError of an object type that \<open>objnames\<close> does not have, \<open>Some None\<close>
  no hit.  \<open>tr\<close> is the translation function.
\<close>

definition object_hit ::
  "index \<Rightarrow> (string \<Rightarrow> string) \<Rightarrow> string \<Rightarrow> string list \<Rightarrow> string \<Rightarrow> string \<Rightarrow> obj_match \<Rightarrow>
   result option option" where
  "object_hit idx tr obj otherterms pre name match =
     (let fullname = full_name pre name
      in if str_index_of (to_lower fullname) obj > -1
         then case at (objnames idx) (m_type match) of
                None \<Rightarrow> None
              | Some (_, role, objname) \<Rightarrow>
                  let title = text_of (at (titles idx) (m_doc match));
                      haystack = to_lower (pre @ '' '' @ name @ '' '' @ objname @ '' '' @ title);
                      allfound = list_all (\<lambda>t. str_index_of haystack t \<noteq> -1) otherterms
                  in if otherterms \<noteq> [] \<and> \<not> allfound then Some None
                     else
                       let descr = objname @ tr '', in '' @ title;
                           anchor = (if m_anchor match = [] then fullname
                                     else if m_anchor match = ''-'' then role @ ''-'' @ fullname
                                     else m_anchor match);
                           score = name_score fullname obj +
                             (case objPrio (m_prio match) of Some p \<Rightarrow> p | None \<Rightarrow> objPrioDefault)
                       in Some (Some
                            \<lparr>r_doc = at (docnames idx) (m_doc match), r_title = Some fullname,
                             r_anchor = ''#'' @ anchor, r_descr = Some descr, r_score = score,
                             r_file = at (filenames idx) (m_doc match)\<rparr>)
         else Some None)"

fun collect :: "'a option option list \<Rightarrow> 'a list option" where
  "collect [] = Some []"
| "collect (None # r) = None"
| "collect (Some h # r) =
     (case collect r of None \<Rightarrow> None | Some rs \<Rightarrow> Some ((case h of None \<Rightarrow> [] | Some x \<Rightarrow> [x]) @ rs))"

definition performObjectSearch ::
  "index \<Rightarrow> (string \<Rightarrow> string) \<Rightarrow> string \<Rightarrow> string list \<Rightarrow> result list option" where
  "performObjectSearch idx tr obj otherterms =
     collect (concat (map (\<lambda>(pre, names).
        map (\<lambda>(name, match). object_hit idx tr obj otherterms pre name match) names) (objects idx)))"

section \<open>Full text\<close>

fun set_scores :: "string \<Rightarrow> int \<Rightarrow> nat list \<Rightarrow> int obj obj \<Rightarrow> int obj obj" where
  "set_scores word score [] scoreMap = scoreMap"
| "set_scores word score (f # fs) scoreMap =
     set_scores word score fs
       (obj_put scoreMap (dec f)
          (obj_put (case obj_get scoreMap (dec f) of None \<Rightarrow> [] | Some m \<Rightarrow> m) word score))"

fun map_files :: "string \<Rightarrow> nat list \<Rightarrow> string list obj \<Rightarrow> string list obj" where
  "map_files word [] fileMap = fileMap"
| "map_files word (f # fs) fileMap =
     map_files word fs
       (obj_put fileMap (dec f)
          ((case obj_get fileMap (dec f) of None \<Rightarrow> [] | Some ws \<Rightarrow> ws) @ [word]))"

definition found :: "postings option \<Rightarrow> nat list" where
  "found p = (case p of None \<Rightarrow> [] | Some p \<Rightarrow> files_of p)"

fun terms_loop ::
  "index \<Rightarrow> string list \<Rightarrow> string list obj \<Rightarrow> int obj obj \<Rightarrow> string list obj \<times> int obj obj" where
  "terms_loop idx [] fileMap scoreMap = (fileMap, scoreMap)"
| "terms_loop idx (word # ws) fileMap scoreMap =
     (let t = obj_get (terms idx) word; tt = obj_get (titleterms idx) word
      in if t = None \<and> tt = None then (fileMap, scoreMap)
         else
           let scoreMap = set_scores word score_term (found t) scoreMap;
               scoreMap = set_scores word score_title (found tt) scoreMap;
               fileMap = map_files word (found t @ found tt) fileMap
           in terms_loop idx ws fileMap scoreMap)"

text \<open>
  \<open>p == file\<close>, for a number or an array of numbers and a file name of \<open>fileMap\<close>: the comparison is
  on the text of \<open>p\<close>.  The two calls of \<open>$u.contains\<close> compare numbers with the string \<open>file\<close> by
  \<open>===\<close> and are never true.
\<close>

fun loosely_equal :: "postings option \<Rightarrow> string \<Rightarrow> bool" where
  "loosely_equal None file = False"
| "loosely_equal (Some (One n)) file = (dec n = file)"
| "loosely_equal (Some (Many ns)) file = (join '','' (map dec ns) = file)"

definition is_excluded :: "index \<Rightarrow> string list \<Rightarrow> string \<Rightarrow> bool" where
  "is_excluded idx exs file =
     list_ex (\<lambda>w. loosely_equal (obj_get (terms idx) w) file \<or>
                  loosely_equal (obj_get (titleterms idx) w) file) exs"

text \<open>The scores of the words of a file; there is at least one word.\<close>

definition word_scores :: "int obj obj \<Rightarrow> string \<Rightarrow> string list \<Rightarrow> int list" where
  "word_scores scoreMap file ws =
     map (\<lambda>w. case obj_get scoreMap file of
                None \<Rightarrow> 0
              | Some m \<Rightarrow> (case obj_get m w of None \<Rightarrow> 0 | Some s \<Rightarrow> s)) ws"

fun max_list :: "int list \<Rightarrow> int" where
  "max_list [] = 0"
| "max_list [x] = x"
| "max_list (x # y # r) = max x (max_list (y # r))"

fun valid_files ::
  "index \<Rightarrow> string list \<Rightarrow> string list \<Rightarrow> int obj obj \<Rightarrow> string list obj \<Rightarrow> (string \<times> int) list" where
  "valid_files idx sts exs scoreMap [] = []"
| "valid_files idx sts exs scoreMap ((file, ws) # r) =
     (if length ws \<noteq> length sts \<or> is_excluded idx exs file
      then valid_files idx sts exs scoreMap r
      else (file, max_list (word_scores scoreMap file ws)) # valid_files idx sts exs scoreMap r)"

definition terms_files :: "index \<Rightarrow> string list \<Rightarrow> string list \<Rightarrow> (string \<times> int) list" where
  "terms_files idx sts exs =
     (let (fileMap, scoreMap) = terms_loop idx sts [] []
      in valid_files idx sts exs scoreMap fileMap)"

definition file_result :: "index \<Rightarrow> string \<times> int \<Rightarrow> result" where
  "file_result idx p =
     (let n = dec_value (fst p)
      in \<lparr>r_doc = at (docnames idx) n, r_title = at (titles idx) n, r_anchor = [], r_descr = None,
          r_score = snd p, r_file = at (filenames idx) n\<rparr>)"

definition performTermsSearch :: "index \<Rightarrow> string list \<Rightarrow> string list \<Rightarrow> result list" where
  "performTermsSearch idx sts exs = map (file_result idx) (terms_files idx sts exs)"

section \<open>Ranking and display\<close>

fun str_lt :: "string \<Rightarrow> string \<Rightarrow> bool" where
  "str_lt s [] = False"
| "str_lt [] (d # t) = True"
| "str_lt (c # s) (d # t) \<longleftrightarrow> (of_char c :: nat) < of_char d \<or> c = d \<and> str_lt s t"

definition title_lower :: "result \<Rightarrow> string option" where
  "title_lower r = map_option to_lower (r_title r)"

text \<open>
  The comparison; \<open>None\<close> is the TypeError of \<open>toLowerCase\<close> on a title that is \<open>undefined\<close>.
\<close>

definition result_cmp :: "result \<Rightarrow> result \<Rightarrow> int option" where
  "result_cmp a b =
     (if r_score b < r_score a then Some 1
      else if r_score a < r_score b then Some (-1)
      else (case (title_lower a, title_lower b) of
              (Some left, Some right) \<Rightarrow>
                Some (if str_lt right left then -1 else if str_lt left right then 1 else 0)
            | _ \<Rightarrow> None))"

fun some_throws :: "('a \<Rightarrow> 'a \<Rightarrow> int option) \<Rightarrow> 'a list \<Rightarrow> bool" where
  "some_throws cmp [] = False"
| "some_throws cmp (x # xs) = (list_ex (\<lambda>y. cmp x y = None) xs \<or> some_throws cmp xs)"

definition cmp_value :: "int option \<Rightarrow> int" where
  "cmp_value d = (case d of None \<Rightarrow> 0 | Some d \<Rightarrow> d)"

text \<open>
  Sorting the results.  Two results whose comparison throws have the same score.  The results of one
  score end up next to each other, and a sort cannot order two neighbours without comparing them: if
  one of several results of a score has no title, every sort makes a comparison that throws.
\<close>

definition sort_results :: "result list \<Rightarrow> result list option" where
  "sort_results rs =
     (if some_throws result_cmp rs then None
      else Some (array_sort (\<lambda>a b. cmp_value (result_cmp a b)) rs))"

fun concat_results :: "result list option list \<Rightarrow> result list option" where
  "concat_results [] = Some []"
| "concat_results (r # rs) =
     (case r of
        None \<Rightarrow> None
      | Some xs \<Rightarrow> (case concat_results rs of None \<Rightarrow> None | Some ys \<Rightarrow> Some (xs @ ys)))"

definition object_results ::
  "index \<Rightarrow> (string \<Rightarrow> string) \<Rightarrow> string list \<Rightarrow> result list option" where
  "object_results idx tr ots =
     concat_results
       (map (\<lambda>i. performObjectSearch idx tr (ots ! i) (take i ots @ drop (Suc i) ots)) [0..<length ots])"

definition query_results :: "index \<Rightarrow> (string \<Rightarrow> string) \<Rightarrow> string \<Rightarrow> result list option" where
  "query_results idx tr query =
     (let q = read_query query
      in case object_results idx tr (objectterms q) of
           None \<Rightarrow> None
         | Some rs \<Rightarrow>
             sort_results (rs @ performTermsSearch idx (searchterms q) (excluded q)))"

record doc_options =
  URL_ROOT :: string
  FILE_SUFFIX :: string

definition item_href :: "doc_options \<Rightarrow> string \<Rightarrow> result \<Rightarrow> string" where
  "item_href opts highlightstring item =
     (if FILE_SUFFIX opts = []
      then let dirname = text_of (r_doc item) @ ''/'';
               dirname =
                 (if is_prefix (rev ''/index/'') (rev dirname)
                  then substring dirname 0 (int (length dirname) - 6)
                  else if dirname = ''index/'' then [] else dirname)
           in URL_ROOT opts @ dirname @ highlightstring @ r_anchor item
      else text_of (r_doc item) @ FILE_SUFFIX opts @ highlightstring @ r_anchor item)"

text \<open>\<open>displayNextItem\<close>: results are taken off the end of the array, one at a time.\<close>

function display_items :: "(result \<Rightarrow> 'd) \<Rightarrow> result list \<Rightarrow> 'd list \<Rightarrow> 'd list" where
  "display_items render results output =
     (if results = [] then output
      else display_items render (butlast results) (output @ [render (last results)]))"
  by auto
termination by (relation "measure (\<lambda>(_, results, _). length results)") auto

declare display_items.simps [simp del]

definition status_text :: "(string \<Rightarrow> string) \<Rightarrow> nat \<Rightarrow> string" where
  "status_text tr resultCount =
     (if resultCount = 0
      then tr (''Your search did not match any documents. Please make sure that all words are spelled correctly and that you'' @ [CHR 0x27] @ ''ve selected enough categories.'')
      else let t = tr ''Search finished, found %s page(s) matching the search query.''
           in case find_sub ''%s'' t of
                None \<Rightarrow> t
              | Some i \<Rightarrow> take i t @ dec resultCount @ drop (i + 2) t)"

section \<open>The excerpt\<close>

fun summary_start :: "string \<Rightarrow> string list \<Rightarrow> int \<Rightarrow> int" where
  "summary_start textLower [] start = start"
| "summary_start textLower (k # ks) start =
     (let i = str_index_of textLower (to_lower k)
      in summary_start textLower ks (if i > -1 then i else start))"

definition makeSearchSummary :: "string \<Rightarrow> string list \<Rightarrow> string" where
  "makeSearchSummary tx keywords =
     (let start = summary_start (to_lower tx) keywords 0;
          start = max (start - 120) 0
      in (if start > 0 then ''...'' else []) @
         js_trim (substr tx start 240) @
         (if start + 240 - int (length tx) \<noteq> 0 then ''...'' else []))"

section \<open>Facts about queries\<close>

definition significant :: "string \<Rightarrow> bool" where
  "significant t \<longleftrightarrow> to_lower t \<notin> set stopwords \<and> \<not> is_number t \<and> t \<noteq> []"

lemma query_word_hd:
  assumes "t \<noteq> []" "CHR ''-'' \<notin> set t"
  shows "query_word t \<noteq> []" "hd (query_word t) \<noteq> CHR ''-''"
proof -
  have t: "to_lower t \<noteq> []" using assms(1) by (simp add: to_lower_def)
  have "hd (to_lower t) = lower_char (hd t)" using assms(1) by (simp add: to_lower_def hd_map)
  moreover have ht: "hd t \<noteq> CHR ''-''" using assms hd_in_set[of t] by metis
  ultimately have "hd (to_lower t) \<noteq> CHR ''-''" by (simp add: lower_char_minus)
  then show "query_word t \<noteq> []" "hd (query_word t) \<noteq> CHR ''-''"
    using stemWord_facts[of "to_lower t"] t ht assms(1)
    by (auto simp: query_word_def Let_def)
qed

definition add_all :: "string list \<Rightarrow> string list \<Rightarrow> string list" where
  "add_all ws xs = fold (\<lambda>x ws. add_new ws x) xs ws"

lemma add_all_Cons: "add_all ws (x # xs) = add_all (add_new ws x) xs"
  by (simp add: add_all_def)

lemma add_all_set: "set (add_all ws xs) = set ws \<union> set xs"
  by (induction xs arbitrary: ws) (auto simp: add_all_def add_new_def)

lemma add_all_distinct: "distinct ws \<Longrightarrow> distinct (add_all ws xs)"
  by (induction xs arbitrary: ws) (auto simp: add_all_def add_new_def)

lemma read_words_spec:
  "\<forall>t \<in> set ts. t \<noteq> [] \<and> CHR ''-'' \<notin> set t \<Longrightarrow>
   read_words ts q =
     q\<lparr>searchterms := add_all (searchterms q) (map query_word (filter significant ts)),
       hlterms := hlterms q @ map to_lower (filter significant ts),
       objectterms := objectterms q @ map to_lower ts\<rparr>"
proof (induction ts arbitrary: q)
  case (Cons t ts)
  then have t: "t \<noteq> []" "CHR ''-'' \<notin> set t" by auto
  show ?case
    using Cons query_word_hd[OF t] t
    by (simp add: Let_def add_all_Cons significant_def)
qed (simp add: add_all_def)

lemma query_words_no_minus: "t \<in> set (query_words q) \<Longrightarrow> t \<noteq> [] \<and> CHR ''-'' \<notin> set t"
  using query_words_sound[of t q] query_words_sound(2)[of t q "CHR ''-''"] minus_splits by auto

section \<open>Facts about the full-text search\<close>

text \<open>
  What the index promises: a word's file list has no duplicates, and a file that has the word in
  its title is not listed again under the text.
\<close>

definition text_files :: "index \<Rightarrow> string \<Rightarrow> nat list" where
  "text_files idx w = found (obj_get (terms idx) w)"

definition title_files :: "index \<Rightarrow> string \<Rightarrow> nat list" where
  "title_files idx w = found (obj_get (titleterms idx) w)"

definition index_ok :: "index \<Rightarrow> bool" where
  "index_ok idx \<longleftrightarrow> (\<forall>w. distinct (text_files idx w @ title_files idx w))"

definition posts :: "index \<Rightarrow> string \<Rightarrow> string \<Rightarrow> bool" where
  "posts idx w file \<longleftrightarrow> file \<in> dec ` set (text_files idx w @ title_files idx w)"

definition file_score :: "index \<Rightarrow> string \<Rightarrow> string \<Rightarrow> int" where
  "file_score idx w file = (if file \<in> dec ` set (title_files idx w) then score_title else score_term)"

definition words_at :: "string list obj \<Rightarrow> string \<Rightarrow> string list" where
  "words_at fm k = (case obj_get fm k of None \<Rightarrow> [] | Some ws \<Rightarrow> ws)"

definition score_at :: "int obj obj \<Rightarrow> string \<Rightarrow> string \<Rightarrow> int option" where
  "score_at sm k w = (case obj_get sm k of None \<Rightarrow> None | Some m \<Rightarrow> obj_get m w)"

lemma words_at_map_files:
  "distinct fs \<Longrightarrow>
   words_at (map_files w fs fm) k = words_at fm k @ (if k \<in> dec ` set fs then [w] else [])"
  by (induction w fs fm rule: map_files.induct)
     (auto simp: words_at_def get_put split: option.splits)

lemma map_files_nonempty:
  "(\<forall>k. obj_get fm k \<noteq> Some []) \<Longrightarrow> obj_get (map_files w fs fm) k \<noteq> Some []"
  by (induction w fs fm rule: map_files.induct) (auto simp: get_put)

lemma map_files_wf: "obj_wf fm \<Longrightarrow> obj_wf (map_files w fs fm)"
  by (induction w fs fm rule: map_files.induct) (auto simp: obj_wf_put)

lemma score_at_set_scores:
  "score_at (set_scores w s fs sm) k w' =
   (if k \<in> dec ` set fs \<and> w' = w then Some s else score_at sm k w')"
proof (induction w s fs sm rule: set_scores.induct)
  case (2 w s f fs sm)
  then show ?case by (auto simp: score_at_def get_put get_empty split: option.splits)
qed simp

lemma terms_loop_spec:
  assumes "index_ok idx" "obj_wf fm" "\<forall>k. obj_get fm k \<noteq> Some []"
    "terms_loop idx ws fm sm = (fm', sm')"
  shows "obj_wf fm' \<and> (\<forall>k. obj_get fm' k \<noteq> Some []) \<and>
    (\<exists>ws1 ws2. ws = ws1 @ ws2 \<and> (ws2 \<noteq> [] \<longrightarrow> (\<forall>k. \<not> posts idx (hd ws2) k)) \<and>
      (\<forall>k. words_at fm' k = words_at fm k @ filter (\<lambda>w. posts idx w k) ws1) \<and>
      (\<forall>k w. score_at sm' k w =
         (if w \<in> set ws1 \<and> posts idx w k then Some (file_score idx w k) else score_at sm k w)))"
  using assms(2-)
proof (induction ws arbitrary: fm sm)
  case Nil
  then show ?case by auto
next
  case (Cons word ws)
  let ?t = "obj_get (terms idx) word" and ?tt = "obj_get (titleterms idx) word"
  show ?case
  proof (cases "?t = None \<and> ?tt = None")
    case True
    then have "\<not> posts idx word k" for k
      by (simp add: posts_def text_files_def title_files_def found_def)
    then show ?thesis using True Cons.prems
      by (intro conjI exI[of _ "[]"] exI[of _ "word # ws"]) auto
  next
    case False
    let ?fm = "map_files word (text_files idx word @ title_files idx word) fm"
    let ?sm = "set_scores word score_title (title_files idx word)
        (set_scores word score_term (text_files idx word) sm)"
    have r: "terms_loop idx ws ?fm ?sm = (fm', sm')"
      using Cons.prems(3) False by (auto simp: Let_def text_files_def title_files_def)
    have d: "distinct (text_files idx word @ title_files idx word)"
      using assms(1) by (simp add: index_ok_def)
    have words: "words_at ?fm k = words_at fm k @ filter (\<lambda>w. posts idx w k) [word]" for k
      using words_at_map_files[OF d, of word fm k] by (simp add: posts_def)
    have score: "score_at ?sm k w = (if w \<in> set [word] \<and> posts idx w k
        then Some (file_score idx w k) else score_at sm k w)" for k w
      by (auto simp: score_at_set_scores posts_def file_score_def)
    obtain ws1 ws2 where IH: "obj_wf fm'" "\<forall>k. obj_get fm' k \<noteq> Some []" "ws = ws1 @ ws2"
      "ws2 \<noteq> [] \<longrightarrow> (\<forall>k. \<not> posts idx (hd ws2) k)"
      "\<forall>k. words_at fm' k = words_at ?fm k @ filter (\<lambda>w. posts idx w k) ws1"
      "\<forall>k w. score_at sm' k w =
         (if w \<in> set ws1 \<and> posts idx w k then Some (file_score idx w k) else score_at ?sm k w)"
      using Cons.IH[OF map_files_wf[OF Cons.prems(1)] _ r] map_files_nonempty[OF Cons.prems(2)] by blast
    have "words_at fm' k = words_at fm k @ filter (\<lambda>w. posts idx w k) (word # ws1)" for k
      using IH(5) words[of k] by simp
    moreover have "score_at sm' k w =
         (if w \<in> set (word # ws1) \<and> posts idx w k then Some (file_score idx w k) else score_at sm k w)" for k w
      unfolding IH(6)[rule_format] score by auto
    moreover have "word # ws = (word # ws1) @ ws2" using IH(3) by simp
    ultimately show ?thesis using IH(1,2,4) by blast
  qed
qed

lemma max_list_Max: "xs \<noteq> [] \<Longrightarrow> max_list xs = Max (set xs)"
  by (induction xs rule: max_list.induct) auto

lemma valid_files_filter:
  "valid_files idx sts exs sm fm =
   map (\<lambda>(file, ws). (file, max_list (word_scores sm file ws)))
     (filter (\<lambda>(file, ws). length ws = length sts \<and> \<not> is_excluded idx exs file) fm)"
  by (induction idx sts exs sm fm rule: valid_files.induct) auto

lemma Max_two:
  assumes "finite S" "S \<noteq> {}" "S \<subseteq> {score_term, score_title}"
  shows "Max S = (if score_title \<in> S then score_title else score_term)"
proof (cases "score_title \<in> S")
  case True
  then have "Max S = score_title"
    using assms by (intro Max_eqI) (auto simp: score_term_def score_title_def)
  then show ?thesis using True by simp
next
  case False
  then have "S = {score_term}" using assms by auto
  then show ?thesis by (auto simp: score_term_def score_title_def)
qed

lemma terms_files_spec:
  assumes "index_ok idx"
  shows "set (terms_files idx sts []) =
    {(k, sc). sts \<noteq> [] \<and> (\<forall>w \<in> set sts. posts idx w k) \<and>
       sc = (if \<exists>w \<in> set sts. k \<in> dec ` set (title_files idx w) then score_title else score_term)}"
    and "distinct (map fst (terms_files idx sts []))"
proof -
  obtain fm sm where r: "terms_loop idx sts [] [] = (fm, sm)" by (metis surj_pair)
  have tf: "terms_files idx sts [] =
    map (\<lambda>(file, ws). (file, max_list (word_scores sm file ws)))
      (filter (\<lambda>(file, ws). length ws = length sts) fm)"
    by (simp add: terms_files_def r valid_files_filter is_excluded_def)
  have e: "\<forall>k. obj_get [] k \<noteq> Some ([] :: string list)" "\<And>k. words_at [] k = []"
    by (simp_all add: get_empty words_at_def)
  obtain ws1 ws2 where S1: "obj_wf fm" "\<forall>k. obj_get fm k \<noteq> Some []" "sts = ws1 @ ws2"
      "ws2 \<noteq> [] \<longrightarrow> (\<forall>k. \<not> posts idx (hd ws2) k)"
      "\<forall>k. words_at fm k = words_at [] k @ filter (\<lambda>w. posts idx w k) ws1"
      "\<forall>k w. score_at sm k w = (if w \<in> set ws1 \<and> posts idx w k
         then Some (file_score idx w k) else score_at [] k w)"
    using terms_loop_spec[OF assms obj_wf_empty e(1) r] by blast
  have S: "obj_wf fm" "\<forall>k. obj_get fm k \<noteq> Some []" "sts = ws1 @ ws2"
      "ws2 \<noteq> [] \<longrightarrow> (\<forall>k. \<not> posts idx (hd ws2) k)"
      "\<forall>k. words_at fm k = filter (\<lambda>w. posts idx w k) ws1"
      "\<forall>k w. w \<in> set ws1 \<and> posts idx w k \<longrightarrow> score_at sm k w = Some (file_score idx w k)"
    using S1 e(2) by simp_all
  have entry: "(k, ws) \<in> set fm \<longleftrightarrow> ws \<noteq> [] \<and> ws = filter (\<lambda>w. posts idx w k) ws1" for k ws
  proof -
    have "(k, ws) \<in> set fm \<longleftrightarrow> obj_get fm k = Some ws"
      using S(1) by (simp add: obj_get_def obj_wf_def)
    moreover have "words_at fm k = filter (\<lambda>w. posts idx w k) ws1" using S(5) by blast
    ultimately show ?thesis using S(2) by (auto simp: words_at_def split: option.splits)
  qed
  have full: "length (filter (\<lambda>w. posts idx w k) ws1) = length sts \<longleftrightarrow> (\<forall>w \<in> set sts. posts idx w k)" for k
  proof
    assume l: "length (filter (\<lambda>w. posts idx w k) ws1) = length sts"
    have "length (filter (\<lambda>w. posts idx w k) ws1) \<le> length ws1" by simp
    then have w2: "ws2 = []" using l S(3) by simp
    have "posts idx w k" if "w \<in> set ws1" for w
      using length_filter_less[OF that, of "\<lambda>w. posts idx w k"] l S(3) w2 by auto
    then show "\<forall>w \<in> set sts. posts idx w k" using S(3) w2 by simp
  next
    assume a: "\<forall>w \<in> set sts. posts idx w k"
    have "ws2 = []"
    proof (rule ccontr)
      assume n: "ws2 \<noteq> []"
      then have "hd ws2 \<in> set sts" using S(3) by simp
      then show False using a S(4) n by blast
    qed
    then show "length (filter (\<lambda>w. posts idx w k) ws1) = length sts" using a S(3) by simp
  qed
  have score: "max_list (word_scores sm k (filter (\<lambda>w. posts idx w k) ws1)) =
      (if \<exists>w \<in> set sts. k \<in> dec ` set (title_files idx w) then score_title else score_term)"
    if a: "\<forall>w \<in> set sts. posts idx w k" and ne: "sts \<noteq> []" for k
  proof -
    have f: "filter (\<lambda>w. posts idx w k) ws1 = sts" and w1: "ws1 = sts"
      using full[of k] a S(3) by (auto simp: filter_id_conv)
    have ws: "word_scores sm k sts = map (\<lambda>w. file_score idx w k) sts"
      using S(6) a w1 by (fastforce simp: word_scores_def score_at_def split: option.splits)
    have "max_list (word_scores sm k sts) = Max ((\<lambda>w. file_score idx w k) ` set sts)"
      using ne by (simp add: ws max_list_Max)
    also have "\<dots> = (if score_title \<in> (\<lambda>w. file_score idx w k) ` set sts then score_title else score_term)"
    proof (rule Max_two)
      show "(\<lambda>w. file_score idx w k) ` set sts \<noteq> {}" using ne by simp
      show "(\<lambda>w. file_score idx w k) ` set sts \<subseteq> {score_term, score_title}"
        by (auto simp: file_score_def)
    qed simp
    also have "\<dots> = (if \<exists>w \<in> set sts. k \<in> dec ` set (title_files idx w) then score_title else score_term)"
      by (auto simp: file_score_def score_title_def score_term_def image_iff)
    finally show ?thesis using f by simp
  qed
  have "(k, sc) \<in> set (terms_files idx sts []) \<longleftrightarrow>
      sts \<noteq> [] \<and> (\<forall>w \<in> set sts. posts idx w k) \<and>
       sc = (if \<exists>w \<in> set sts. k \<in> dec ` set (title_files idx w) then score_title else score_term)" for k sc
  proof -
    have "(k, sc) \<in> set (terms_files idx sts []) \<longleftrightarrow>
        (\<exists>ws. (k, ws) \<in> set fm \<and> length ws = length sts \<and> sc = max_list (word_scores sm k ws))"
      unfolding tf by force
    also have "\<dots> \<longleftrightarrow> filter (\<lambda>w. posts idx w k) ws1 \<noteq> [] \<and> (\<forall>w \<in> set sts. posts idx w k) \<and>
        sc = max_list (word_scores sm k (filter (\<lambda>w. posts idx w k) ws1))"
      unfolding entry using full[of k] by auto
    also have "\<dots> \<longleftrightarrow> sts \<noteq> [] \<and> (\<forall>w \<in> set sts. posts idx w k) \<and>
       sc = (if \<exists>w \<in> set sts. k \<in> dec ` set (title_files idx w) then score_title else score_term)"
      using full[of k] score[of k] by (metis length_0_conv)
    finally show ?thesis .
  qed
  then show "set (terms_files idx sts []) =
    {(k, sc). sts \<noteq> [] \<and> (\<forall>w \<in> set sts. posts idx w k) \<and>
       sc = (if \<exists>w \<in> set sts. k \<in> dec ` set (title_files idx w) then score_title else score_term)}"
    by auto
  have "map fst (terms_files idx sts []) = map fst (filter (\<lambda>(file, ws). length ws = length sts) fm)"
    unfolding tf by (simp add: comp_def case_prod_beta)
  then show "distinct (map fst (terms_files idx sts []))"
    using S(1) by (simp add: obj_wf_def distinct_map_filter)
qed

section \<open>Facts about the ranking\<close>

lemma str_lt_irrefl: "\<not> str_lt s s"
  by (induction s) auto

lemma str_lt_trans: "str_lt a b \<Longrightarrow> str_lt b c \<Longrightarrow> str_lt a c"
proof (induction a b arbitrary: c rule: str_lt.induct)
  case (2 d t)
  then show ?case by (cases c) auto
next
  case (3 x s y t)
  then show ?case by (cases c) auto
qed simp

lemma str_lt_total: "str_lt a b \<or> a = b \<or> str_lt b a"
proof (induction a b rule: str_lt.induct)
  case (1 s)
  then show ?case by (cases s) auto
next
  case (3 c s d t)
  show ?case
  proof (cases "(of_char c :: nat) = of_char d")
    case True
    then have "c = d" by simp
    then show ?thesis using 3 by auto
  next
    case False
    then show ?thesis by (metis linorder_neqE_nat str_lt.simps(3))
  qed
qed simp

text \<open>Before in the array: lower score, or the same score and a title later in the alphabet.\<close>

definition ranks_below :: "result \<Rightarrow> result \<Rightarrow> bool" where
  "ranks_below a b \<longleftrightarrow>
     r_score a < r_score b \<or>
     r_score a = r_score b \<and>
       (case (title_lower a, title_lower b) of
          (Some s, Some t) \<Rightarrow> \<not> str_lt s t
        | _ \<Rightarrow> False)"

definition title_key :: "result \<Rightarrow> string" where
  "title_key r = (case title_lower r of None \<Rightarrow> [] | Some t \<Rightarrow> t)"

definition key_below :: "result \<Rightarrow> result \<Rightarrow> bool" where
  "key_below a b \<longleftrightarrow>
     r_score a < r_score b \<or> r_score a = r_score b \<and> \<not> str_lt (title_key a) (title_key b)"

lemma key_below_total: "key_below a b \<or> key_below b a"
  using str_lt_trans[of "title_key a" "title_key b" "title_key a"] str_lt_irrefl
  by (auto simp: key_below_def)

lemma key_below_trans: "key_below a b \<Longrightarrow> key_below b c \<Longrightarrow> key_below a c"
  using str_lt_total[of "title_key a" "title_key b"] str_lt_trans[of "title_key b" "title_key a" "title_key c"]
  by (auto simp: key_below_def)

lemma result_cmp_le:
  "result_cmp a b \<noteq> None \<or> a = b \<Longrightarrow> cmp_value (result_cmp a b) \<le> 0 \<longleftrightarrow> key_below a b"
  using str_lt_trans str_lt_irrefl
  by (auto simp: result_cmp_def cmp_value_def key_below_def title_key_def split: option.splits)

lemma result_cmp_ranks:
  "result_cmp a b \<noteq> None \<Longrightarrow> cmp_value (result_cmp a b) \<le> 0 \<Longrightarrow> ranks_below a b"
  using str_lt_trans str_lt_irrefl
  by (auto simp: result_cmp_def cmp_value_def ranks_below_def split: option.splits if_splits)

lemma result_cmp_sym: "result_cmp a b = None \<longleftrightarrow> result_cmp b a = None"
  by (auto simp: result_cmp_def split: option.splits)

lemma no_throw_wrt: "\<not> some_throws cmp xs \<longleftrightarrow> sorted_wrt (\<lambda>a b. cmp a b \<noteq> None) xs"
  by (induction xs) (auto simp: list_ex_iff)

lemma sorted_wrt_insort_sym:
  assumes "\<And>a b. R a b \<longleftrightarrow> R b a"
  shows "sorted_wrt R (insort_cmp c x ys) \<longleftrightarrow> sorted_wrt R (x # ys)"
  by (induction ys) (use assms in auto)

lemma sorted_wrt_sort_sym:
  assumes "\<And>a b. R a b \<longleftrightarrow> R b a"
  shows "sorted_wrt R (array_sort c xs) \<longleftrightarrow> sorted_wrt R xs"
  by (induction xs) (use sorted_wrt_insort_sym[of R, OF assms] in auto)

lemma sort_results_sorted:
  assumes "sort_results xs = Some rs"
  shows "sorted_wrt ranks_below rs \<and> mset rs = mset xs"
proof -
  let ?c = "\<lambda>a b. cmp_value (result_cmp a b)"
  have nt: "sorted_wrt (\<lambda>a b. result_cmp a b \<noteq> None) xs" and rs: "rs = array_sort ?c xs"
    using assms by (auto simp: sort_results_def no_throw_wrt split: if_splits)
  have pair: "result_cmp a b \<noteq> None \<or> a = b" if "a \<in> set xs" "b \<in> set xs" for a b
  proof -
    obtain i j where ij: "i < length xs" "j < length xs" "a = xs ! i" "b = xs ! j"
      using \<open>a \<in> set xs\<close> \<open>b \<in> set xs\<close> by (metis in_set_conv_nth)
    show ?thesis
      using nt ij result_cmp_sym[of a b] unfolding sorted_wrt_iff_nth_less by (metis linorder_neqE_nat)
  qed
  have "consistent ?c (set xs)"
    unfolding consistent_def
    by (intro conjI ballI impI; unfold result_cmp_le[OF pair])
       (use key_below_total key_below_trans in blast)+
  then have s: "sorted_wrt (\<lambda>a b. ?c a b \<le> 0) rs"
    unfolding rs by (rule asort.sort_sorted)
  have n: "sorted_wrt (\<lambda>a b. result_cmp a b \<noteq> None) rs"
    unfolding rs using nt
    by (subst sorted_wrt_sort_sym) (use result_cmp_sym in auto)
  from s n have "sorted_wrt ranks_below rs"
    by (induction rs) (auto intro: result_cmp_ranks)
  then show ?thesis unfolding rs by simp
qed

text \<open>
  An index that has a title for each file it lists and a description for each type of object: on such
  an index no lookup and no comparison throws.
\<close>

definition index_complete :: "index \<Rightarrow> bool" where
  "index_complete idx \<longleftrightarrow>
     list_all (\<lambda>(w, p). list_all (\<lambda>f. f < length (titles idx)) (files_of p)) (terms idx @ titleterms idx) \<and>
     list_all (\<lambda>(pre, names). list_all (\<lambda>(name, m). m_type m < length (objnames idx)) names) (objects idx)"

lemma object_hit_titled:
  assumes "m_type m < length (objnames idx)"
  shows "\<exists>h. object_hit idx tr obj others pre name m = Some h \<and> (\<forall>r. h = Some r \<longrightarrow> r_title r \<noteq> None)"
  using assms by (auto simp: object_hit_def at_def Let_def split: prod.splits)

lemma collect_titled:
  "(\<forall>h \<in> set hs. \<exists>x. h = Some x \<and> (\<forall>r. x = Some r \<longrightarrow> P r)) \<Longrightarrow>
   \<exists>rs. collect hs = Some rs \<and> (\<forall>r \<in> set rs. P r)"
  by (induction hs rule: collect.induct) (auto split: option.splits)

lemma concat_results_titled:
  "(\<forall>x \<in> set xs. \<exists>rs. x = Some rs \<and> (\<forall>r \<in> set rs. P r)) \<Longrightarrow>
   \<exists>rs. concat_results xs = Some rs \<and> (\<forall>r \<in> set rs. P r)"
  by (induction xs rule: concat_results.induct) auto

lemma object_results_titled:
  assumes "index_complete idx"
  shows "\<exists>rs. object_results idx tr ots = Some rs \<and> (\<forall>r \<in> set rs. r_title r \<noteq> None)"
proof -
  have "\<exists>rs. performObjectSearch idx tr obj others = Some rs \<and> (\<forall>r \<in> set rs. r_title r \<noteq> None)" for obj others
    unfolding performObjectSearch_def
  proof (rule collect_titled, rule ballI)
    fix h
    assume "h \<in> set (concat (map (\<lambda>(pre, names).
      map (\<lambda>(name, match). object_hit idx tr obj others pre name match) names) (objects idx)))"
    then obtain pre names name m where h: "(pre, names) \<in> set (objects idx)" "(name, m) \<in> set names"
        "h = object_hit idx tr obj others pre name m" by auto
    then have "m_type m < length (objnames idx)"
      using assms by (fastforce simp: index_complete_def list_all_iff)
    then show "\<exists>x. h = Some x \<and> (\<forall>r. x = Some r \<longrightarrow> r_title r \<noteq> None)"
      unfolding h(3) by (rule object_hit_titled)
  qed
  then show ?thesis
    unfolding object_results_def by (intro concat_results_titled) auto
qed

definition known_keys :: "nat \<Rightarrow> 'v obj \<Rightarrow> bool" where
  "known_keys n fm \<longleftrightarrow> (\<forall>k \<in> set (obj_keys fm). \<exists>f < n. k = dec f)"

lemma known_keys_put: "known_keys n fm \<Longrightarrow> f < n \<Longrightarrow> known_keys n (obj_put fm (dec f) v)"
  unfolding known_keys_def keys_put by auto

lemma map_files_known: "known_keys n fm \<Longrightarrow> \<forall>f \<in> set fs. f < n \<Longrightarrow> known_keys n (map_files w fs fm)"
  by (induction w fs fm rule: map_files.induct) (auto intro: known_keys_put)

lemma found_known:
  assumes "index_complete idx" "f \<in> set (found (obj_get (terms idx) w) @ found (obj_get (titleterms idx) w))"
  shows "f < length (titles idx)"
proof -
  have "\<exists>p. (w, p) \<in> set (terms idx @ titleterms idx) \<and> f \<in> set (files_of p)"
    using assms(2) map_of_SomeD[of "terms idx" w] map_of_SomeD[of "titleterms idx" w]
    by (cases "map_of (terms idx) w"; cases "map_of (titleterms idx) w") (auto simp: found_def obj_get_def)
  then show ?thesis using assms(1) by (fastforce simp: index_complete_def list_all_iff)
qed

lemma terms_loop_known:
  assumes "index_complete idx"
  shows "known_keys (length (titles idx)) fm \<Longrightarrow>
    known_keys (length (titles idx)) (fst (terms_loop idx ws fm sm))"
proof (induction ws arbitrary: fm sm)
  case (Cons w ws)
  then show ?case
    using found_known[OF assms, of _ w] by (simp add: Let_def map_files_known)
qed simp

lemma terms_results_titled:
  assumes "index_complete idx" "r \<in> set (performTermsSearch idx sts exs)"
  shows "r_title r \<noteq> None"
proof -
  obtain fm sm where l: "terms_loop idx sts [] [] = (fm, sm)" by fastforce
  have "known_keys (length (titles idx)) fm"
    using terms_loop_known[OF assms(1), of "[]" sts "[]"] l by (simp add: known_keys_def)
  then show ?thesis
    using assms(2) l
    by (auto simp: performTermsSearch_def terms_files_def valid_files_filter file_result_def
        known_keys_def at_def Let_def)
qed

lemma result_cmp_titled: "r_title a \<noteq> None \<Longrightarrow> r_title b \<noteq> None \<Longrightarrow> result_cmp a b \<noteq> None"
  by (cases "r_title a"; cases "r_title b") (auto simp: result_cmp_def title_lower_def)

lemma sort_results_titled:
  assumes "\<forall>r \<in> set rs. r_title r \<noteq> None"
  shows "sort_results rs \<noteq> None"
proof -
  have "\<not> some_throws result_cmp rs"
    unfolding no_throw_wrt
    by (rule sorted_wrt_mono_rel[of _ "\<lambda>a b. True"])
       (use assms result_cmp_titled in \<open>blast, simp add: sorted_wrt_iff_nth_less\<close>)
  then show ?thesis by (simp add: sort_results_def)
qed

lemma query_results_total:
  assumes "index_complete idx"
  shows "query_results idx tr query \<noteq> None"
proof -
  let ?q = "read_query query"
  let ?ts = "performTermsSearch idx (searchterms ?q) (excluded ?q)"
  obtain os where os: "object_results idx tr (objectterms ?q) = Some os" "\<forall>r \<in> set os. r_title r \<noteq> None"
    using object_results_titled[OF assms] by blast
  have "\<forall>r \<in> set (os @ ?ts). r_title r \<noteq> None"
    using os(2) terms_results_titled[OF assms] by (simp only: set_append) blast
  then have "sort_results (os @ ?ts) \<noteq> None" by (rule sort_results_titled)
  then show ?thesis by (simp add: query_results_def Let_def os(1))
qed

lemma display_items_rev: "display_items render rs out = out @ map render (rev rs)"
proof (induction rs arbitrary: out rule: rev_induct)
  case Nil
  show ?case by (subst display_items.simps) simp
next
  case (snoc x xs)
  show ?case by (subst display_items.simps) (simp add: snoc)
qed

lemma summary_start_Cons_none:
  "(\<forall>k \<in> set ks. \<not> sublist (to_lower k) t) \<Longrightarrow> summary_start t ks s = s"
  by (induction ks arbitrary: s) (auto simp: str_index_of_found Let_def)

lemma summary_start_last:
  "sublist (to_lower k) t \<Longrightarrow> (\<forall>k \<in> set ks2. \<not> sublist (to_lower k) t) \<Longrightarrow>
   summary_start t (ks1 @ k # ks2) s = str_index_of t (to_lower k)"
  by (induction ks1 arbitrary: s) (auto simp: str_index_of_found summary_start_Cons_none Let_def)

section \<open>Where the search falls short\<close>

text \<open>
  On an index that lists a file under the text and the title of one word, the counting of words is
  wrong both ways: the file is lost when it matches, and found when another word is unknown.
\<close>

lemma double_posting:
  "terms_files \<lparr>docnames = [''d''], filenames = [''d.rst''], titles = [''D''], objects = [], objnames = [],
     terms = [(''a'', One 0)], titleterms = [(''a'', One 0)]\<rparr> [''a''] [] = []"
  "terms_files \<lparr>docnames = [''d''], filenames = [''d.rst''], titles = [''D''], objects = [], objnames = [],
     terms = [(''a'', One 0)], titleterms = [(''a'', One 0)]\<rparr> [''a'', ''zz''] [] = [(dec 0, 15)]"
  by (simp_all add: terms_files_def obj_get_def found_def obj_put_def has_key_def Let_def
      word_scores_def score_title_def is_excluded_def)

text \<open>A word listed in two files excludes neither of them.\<close>

lemma excluded_twice:
  "is_excluded \<lparr>docnames = [''d'', ''e''], filenames = [], titles = [], objects = [], objnames = [],
     terms = [(''a'', Many [0, 1])], titleterms = []\<rparr> [''a''] (dec 0) = False"
  by (simp add: is_excluded_def obj_get_def dec.simps digit_char_def)

text \<open>
  The search term is in lower case and the object's name is not: a name with a capital in its last
  part never counts as an exact match.
\<close>

lemma split_char_sub: "p \<in> set (split_char c s) \<Longrightarrow> set p \<subseteq> set s"
proof (induction s arbitrary: p)
  case (Cons x xs)
  then show ?case by (cases "split_char c xs") (fastforce split: if_splits)+
qed simp

lemma name_score_capital:
  assumes "to_lower obj = obj" "to_lower (last (split_char CHR ''.'' fullname)) \<noteq> last (split_char CHR ''.'' fullname)"
  shows "name_score fullname obj \<noteq> objNameMatch"
proof -
  have "last (split_char CHR ''.'' fullname) \<noteq> obj" using assms by auto
  moreover have "fullname \<noteq> obj"
  proof
    assume "fullname = obj"
    then have "\<forall>c \<in> set fullname. lower_char c = c"
      using assms(1) by (metis map_eq_conv list.map_ident to_lower_def map_idI nth_map in_set_conv_nth)
    moreover have "set (last (split_char CHR ''.'' fullname)) \<subseteq> set fullname"
      by (rule split_char_sub[of _ "CHR ''.''"]) simp
    ultimately have "to_lower (last (split_char CHR ''.'' fullname)) = last (split_char CHR ''.'' fullname)"
      by (auto simp: to_lower_def intro!: map_idI)
    then show False using assms(2) by simp
  qed
  ultimately show ?thesis by (simp add: name_score_def Let_def objNameMatch_def objPartialMatch_def)
qed

lemma summary_dots: "makeSearchSummary ''aide'' [] = ''aide...''"
  by (simp add: makeSearchSummary_def substr_def js_trim_def is_space_def)

section \<open>Facts about the excerpt\<close>

lemma is_space_lower: "is_space (lower_char c) \<longleftrightarrow> is_space c"
proof -
  have "(of_char c :: nat) < 256" by (cases c) simp
  then show ?thesis by (auto simp: is_space_def lower_char_def Let_def)
qed

lemma to_lower_trim: "to_lower (js_trim s) = js_trim (to_lower s)"
  by (simp add: js_trim_def to_lower_def rev_map dropWhile_map comp_def is_space_lower)

lemma sublist_dropWhile:
  assumes "k \<noteq> []" "\<not> P (hd k)" "sublist k w"
  shows "sublist k (dropWhile P w)"
proof -
  obtain a b where w: "w = a @ k @ b" using assms(3) by (auto simp: sublist_def)
  show ?thesis
  proof (cases "\<forall>x \<in> set a. P x")
    case True
    moreover have "dropWhile P (k @ b) = k @ b" using assms by (cases k) auto
    ultimately have "dropWhile P w = k @ b" using w by (simp add: dropWhile_append)
    then show ?thesis by simp
  next
    case False
    then have "dropWhile P w = dropWhile P a @ k @ b"
      using w by (simp add: dropWhile_append1) (metis dropWhile_append)
    then show ?thesis by (metis sublist_appendI append_assoc)
  qed
qed

lemma sublist_trim:
  assumes "k \<noteq> []" "\<forall>c \<in> set k. \<not> is_space c" "sublist k w"
  shows "sublist k (js_trim w)"
proof -
  have "sublist k (dropWhile is_space w)" using assms by (intro sublist_dropWhile) auto
  then have "sublist (rev k) (rev (dropWhile is_space w))" by simp
  then have "sublist (rev k) (dropWhile is_space (rev (dropWhile is_space w)))"
    using assms by (intro sublist_dropWhile) (auto simp: hd_rev)
  then show ?thesis unfolding js_trim_def by (metis sublist_rev_left rev_rev_ident sublist_rev)
qed

lemma js_trim_length: "length (js_trim s) \<le> length s"
  unfolding js_trim_def by (metis length_dropWhile_le length_rev order_trans)

lemma window_sublist:
  assumes "prefix k (drop i s)" "st \<le> i" "i - st + length k \<le> n"
  shows "sublist k (take n (drop st s))"
proof -
  obtain r where r: "drop i s = k @ r" using assms(1) by (auto simp: prefix_def)
  have "drop st s = take (i - st) (drop st s) @ k @ r"
    using r assms(2) by (metis append_take_drop_id drop_drop le_add_diff_inverse2)
  then obtain u where u: "drop st s = u @ k @ r" "length u \<le> i - st"
    using length_take[of "i - st" "drop st s"] by (metis min.cobounded2)
  then have "length u + length k \<le> n" using assms(3) by linarith
  then have "take n (drop st s) = u @ k @ take (n - length u - length k) r" using u(1) by simp
  then show ?thesis by (metis sublist_appendI)
qed

section \<open>Properties\<close>

text \<open>
  Reading a query: the search terms are, without duplicates, the stems of its words that are
  neither stop words nor numbers; nothing can ever be excluded, because the splitter treats the
  minus sign as a separator.
\<close>

theorem read_query_correct:
  "let q = read_query query; ws = query_words query
   in excluded q = [] \<and> distinct (searchterms q) \<and>
      set (searchterms q) = query_word ` set (filter significant ws) \<and>
      hlterms q = map to_lower (filter significant ws) \<and> objectterms q = map to_lower ws"
proof -
  have "\<forall>t \<in> set (query_words query). t \<noteq> [] \<and> CHR ''-'' \<notin> set t"
    using query_words_no_minus by blast
  then show ?thesis
    by (simp add: read_query_def read_words_spec add_all_set add_all_distinct Let_def)
qed

text \<open>
  C3. The full-text search returns exactly the files that have every search term, in the text or
  in the title, each once, scored 15 when some term is in its title and 5 otherwise, on every
  index that does not list a file twice for one word.
\<close>

theorem performTermsSearch_correct:
  assumes "index_ok idx"
  shows "performTermsSearch idx sts [] = map (file_result idx) (terms_files idx sts []) \<and>
    distinct (map fst (terms_files idx sts [])) \<and>
    set (terms_files idx sts []) =
      {(k, sc). sts \<noteq> [] \<and> (\<forall>w \<in> set sts. posts idx w k) \<and>
         sc = (if \<exists>w \<in> set sts. k \<in> dec ` set (title_files idx w) then score_title else score_term)}"
  using terms_files_spec[OF assms, of sts] by (simp add: performTermsSearch_def)

theorem performTermsSearch_correct_witness:
  "set (terms_files \<lparr>docnames = [''a'', ''b''], filenames = [''a.rst'', ''b.rst''], titles = [''A'', ''B''],
     objects = [], objnames = [], terms = [(''scm'', Many [0, 1]), (''aid'', One 1)],
     titleterms = [(''imag'', One 0)]\<rparr> [''scm'', ''aid''] []) = {(dec 1, 5)}"
proof -
  obtain idx where idx: "idx = \<lparr>docnames = [''a'', ''b''], filenames = [''a.rst'', ''b.rst''],
     titles = [''A'', ''B''], objects = [], objnames = [],
     terms = [(''scm'', Many [0, 1]), (''aid'', One 1)], titleterms = [(''imag'', One 0)]\<rparr>" by simp
  have files: "text_files idx w = (if w = ''scm'' then [0, 1] else if w = ''aid'' then [1] else [])"
    "title_files idx w = (if w = ''imag'' then [0] else [])" for w
    by (simp_all add: idx text_files_def title_files_def found_def obj_get_def)
  have ok: "index_ok idx" by (simp add: index_ok_def files)
  show ?thesis
    using performTermsSearch_correct[OF ok, of "[''scm'', ''aid'']"]
    unfolding idx[symmetric] by (auto simp: posts_def files score_term_def)
qed

text \<open>
  C20. The displayed list holds exactly the results found, the highest score first and equal scores
  by title in alphabetical order, case ignored.  There is a list on every index that has a title for
  each file it lists and a description for each type of object; no comparison throws there.
\<close>

theorem query_results_ranked:
  "(index_complete idx \<longrightarrow> query_results idx tr query \<noteq> None) \<and>
   (\<forall>rs. query_results idx tr query = Some rs \<longrightarrow>
      sorted_wrt (\<lambda>a b. ranks_below b a) (display_items (\<lambda>r. r) rs []) \<and>
      (\<exists>os. object_results idx tr (objectterms (read_query query)) = Some os \<and>
         mset (display_items (\<lambda>r. r) rs []) =
           mset os + mset (performTermsSearch idx (searchterms (read_query query)) (excluded (read_query query)))))"
proof (intro conjI impI allI)
  show "query_results idx tr query \<noteq> None" if "index_complete idx" by (rule query_results_total[OF that])
  fix rs
  assume "query_results idx tr query = Some rs"
  then obtain os where os: "object_results idx tr (objectterms (read_query query)) = Some os"
    and rs: "sort_results (os @ performTermsSearch idx (searchterms (read_query query))
      (excluded (read_query query))) = Some rs"
    by (auto simp: query_results_def Let_def split: option.splits)
  then show "sorted_wrt (\<lambda>a b. ranks_below b a) (display_items (\<lambda>r. r) rs [])"
    and "\<exists>os. object_results idx tr (objectterms (read_query query)) = Some os \<and>
       mset (display_items (\<lambda>r. r) rs []) =
         mset os + mset (performTermsSearch idx (searchterms (read_query query)) (excluded (read_query query)))"
    using sort_results_sorted[OF rs] by (simp_all add: display_items_rev sorted_wrt_rev)
qed

definition sample_search_index :: index where
  "sample_search_index =
     \<lparr>docnames = [''b'', ''a'', ''c''], filenames = [''b.rst'', ''a.rst'', ''c.rst''],
      titles = [''Birds'', ''Animals'', ''AI''], objects = [], objnames = [],
      terms = [(''ai'', Many [0, 1])], titleterms = [(''ai'', One 2)]\<rparr>"

lemma read_query_AI:
  "searchterms (read_query ''AI'') = [''ai''] \<and> excluded (read_query ''AI'') = []"
proof -
  have "\<not> splitChars 65" "\<not> splitChars 73"
    by (simp_all add: splitChars_iff split_ranges_def split_singles_def)
  then have "query_words ''AI'' = [''AI'']"
    by (simp add: query_words_def splitQuery_words char_of_def bit_0)
  moreover have "to_lower ''AI'' = ''ai''"
    by (simp add: to_lower_def lower_char_def char_of_def bit_0)
  ultimately show ?thesis
    by (simp add: read_query_def query_word_def stemWord_def stopwords_def is_number_def is_digit_def
        add_new_def Let_def)
qed

lemma dec_files: "dec 0 = ''0''" "dec 1 = ''1''" "dec 2 = ''2''"
  by (subst dec.simps, simp add: digit_char_def char_of_def bit_0)+

lemma terms_files_AI:
  "terms_files sample_search_index [''ai''] [] = [(''0'', 5), (''1'', 5), (''2'', 15)]"
  using dec_files
  by (simp add: terms_files_def sample_search_index_def obj_get_def found_def obj_put_def has_key_def Let_def
      word_scores_def score_title_def score_term_def is_excluded_def is_index_def is_digit_def dec_value_def
      key_before_def)

theorem query_results_ranked_witness:
  "\<exists>rs. query_results sample_search_index (\<lambda>s. s) ''AI'' = Some rs \<and>
    sorted_wrt (\<lambda>a b. ranks_below b a) (display_items (\<lambda>r. r) rs []) \<and>
    image_mset r_title (mset (display_items (\<lambda>r. r) rs [])) =
      {#Some ''Birds'', Some ''Animals'', Some ''AI''#}"
proof -
  have "index_complete sample_search_index" by (simp add: index_complete_def sample_search_index_def)
  then obtain rs where rs: "query_results sample_search_index (\<lambda>s. s) ''AI'' = Some rs"
    using query_results_ranked by blast
  then obtain os where os: "object_results sample_search_index (\<lambda>s. s) (objectterms (read_query ''AI'')) = Some os"
    and m: "mset (display_items (\<lambda>r. r) rs []) = mset os + mset (performTermsSearch sample_search_index [''ai''] [])"
    using query_results_ranked[of sample_search_index "\<lambda>s. s" "''AI''"] read_query_AI by auto
  have e: "object_results sample_search_index (\<lambda>s. s) ots = Some []" for ots
  proof -
    have "concat_results (map (\<lambda>i. Some []) xs) = Some []" for xs :: "nat list" by (induction xs) auto
    then show ?thesis by (simp add: object_results_def performObjectSearch_def sample_search_index_def)
  qed
  have "image_mset r_title (mset (display_items (\<lambda>r. r) rs [])) =
      {#Some ''Birds'', Some ''Animals'', Some ''AI''#}"
    using os e[of "objectterms (read_query ''AI'')"] unfolding m performTermsSearch_def terms_files_AI
    by (simp add: file_result_def sample_search_index_def at_def dec_value_def Let_def)
  then show ?thesis using rs query_results_ranked[of sample_search_index "\<lambda>s. s" "''AI''"] by blast
qed

text \<open>
  The excerpt shown with a result is a window of at most 240 characters and two ellipses, and
  the last search term that occurs in the document occurs in it, whatever the case of the text.
\<close>

theorem makeSearchSummary_shows_keyword:
  assumes "sublist (to_lower k) (to_lower tx)"
    and "\<forall>k' \<in> set ks2. \<not> sublist (to_lower k') (to_lower tx)"
    and "k \<noteq> []" "length k \<le> 120" "\<forall>c \<in> set k. \<not> is_space c"
  shows "sublist (to_lower k) (to_lower (makeSearchSummary tx (ks1 @ k # ks2))) \<and>
    length (makeSearchSummary tx (ks1 @ k # ks2)) \<le> 246"
proof -
  let ?t = "to_lower tx" and ?k = "to_lower k"
  obtain i where i: "find_sub ?k ?t = Some i" using assms(1) by (metis find_sub_None not_None_eq)
  then have "str_index_of ?t ?k = int i" by (simp add: str_index_of_def)
  then have st: "max (summary_start ?t (ks1 @ k # ks2) 0 - 120) 0 = int (i - 120)"
    using summary_start_last[OF assms(1,2), of ks1 0] by simp
  have "prefix ?k (drop i ?t)" using i by (simp add: find_sub_Some)
  then have "sublist ?k (take 240 (drop (i - 120) ?t))"
    by (rule window_sublist) (use assms(4) in \<open>simp_all add: to_lower_def\<close>)
  then have w: "sublist ?k (to_lower (substr tx (int (i - 120)) 240))"
    by (simp add: substr_def to_lower_def take_map drop_map)
  have "sublist ?k (js_trim (to_lower (substr tx (int (i - 120)) 240)))"
    using assms(3,5) w by (intro sublist_trim) (auto simp: to_lower_def is_space_lower)
  then have sub: "sublist ?k (to_lower (js_trim (substr tx (int (i - 120)) 240)))"
    by (simp add: to_lower_trim)
  have len: "length (js_trim (substr tx (int (i - 120)) 240)) \<le> 240"
    by (rule order_trans[OF js_trim_length]) (simp add: substr_def)
  obtain a b where ab: "makeSearchSummary tx (ks1 @ k # ks2) =
      a @ js_trim (substr tx (int (i - 120)) 240) @ b" "length a \<le> 3" "length b \<le> 3"
    unfolding makeSearchSummary_def Let_def st by fastforce
  have "sublist ?k (to_lower a @ to_lower (js_trim (substr tx (int (i - 120)) 240)) @ to_lower b)"
    using sub by (metis sublist_append sublist_append_leftI sublist_append_rightI)
  then show ?thesis using ab len by (simp add: to_lower_def)
qed

theorem makeSearchSummary_shows_keyword_witness:
  "sublist ''aide'' (to_lower (makeSearchSummary ''Using AIDE here'' [''scm'', ''aide'']))"
proof -
  have "find_sub ''aide'' (to_lower ''Using AIDE here'') = Some 6"
    by (simp add: to_lower_def lower_char_def Let_def char_of_def bit_0)
  then have s: "sublist (to_lower ''aide'') (to_lower ''Using AIDE here'')"
    using find_sub_None[of "''aide''" "to_lower ''Using AIDE here''"]
    by (simp add: to_lower_def lower_char_def Let_def char_of_def bit_0)
  have "sublist (to_lower ''aide'') (to_lower (makeSearchSummary ''Using AIDE here'' ([''scm''] @ ''aide'' # [])))"
    using makeSearchSummary_shows_keyword[OF s, of "[]" "[''scm'']"] by (simp add: is_space_def)
  then show ?thesis by (simp add: to_lower_def lower_char_def Let_def)
qed

end
