(* ===== verification/SearchState.thy ===== *)
theory SearchState
  imports Search
begin

text \<open>
  The life of the \<open>Search\<close> object of \<open>searchtools.js\<close>: a query arrives, possibly before the index
  has been loaded, and a pulse of dots runs on a timer meanwhile.  The events of the page are the
  steps of a relation; \<open>s_log\<close> records the calls of \<open>query\<close>, \<open>s_timers\<close> the pulse timers pending.
\<close>

section \<open>The operations\<close>

record 'i search =
  s_index :: "'i option"
  s_queued :: "string option"
  s_pulse :: int
  s_dots :: string
  s_timers :: nat
  s_log :: "('i \<times> string) list"

definition search_object :: "'i search" where
  "search_object =
     \<lparr>s_index = None, s_queued = None, s_pulse = -1, s_dots = [], s_timers = 0, s_log = []\<rparr>"

definition hasIndex :: "'i search \<Rightarrow> bool" where
  "hasIndex st \<longleftrightarrow> s_index st \<noteq> None"

definition deferQuery :: "string \<Rightarrow> 'i search \<Rightarrow> 'i search" where
  "deferQuery query st = st\<lparr>s_queued := Some query\<rparr>"

definition run_query :: "string \<Rightarrow> 'i search \<Rightarrow> 'i search" where
  "run_query query st =
     (case s_index st of
        None \<Rightarrow> st
      | Some idx \<Rightarrow> st\<lparr>s_log := s_log st @ [(idx, query)]\<rparr>)"

definition setIndex :: "'i \<Rightarrow> 'i search \<Rightarrow> 'i search" where
  "setIndex idx st =
     (let st = st\<lparr>s_index := Some idx\<rparr>
      in case s_queued st of
           None \<Rightarrow> st
         | Some q \<Rightarrow> run_query q (st\<lparr>s_queued := None\<rparr>))"

definition stopPulse :: "'i search \<Rightarrow> 'i search" where
  "stopPulse st = st\<lparr>s_pulse := 0\<rparr>"

definition pulse :: "'i search \<Rightarrow> 'i search" where
  "pulse st =
     (let p = (s_pulse st + 1) mod 4;
          st = st\<lparr>s_pulse := p, s_dots := replicate (nat p) CHR ''.''\<rparr>
      in if s_pulse st > -1 then st\<lparr>s_timers := s_timers st + 1\<rparr> else st)"

definition startPulse :: "'i search \<Rightarrow> 'i search" where
  "startPulse st = (if s_pulse st \<ge> 0 then st else pulse st)"

definition performSearch :: "string \<Rightarrow> 'i search \<Rightarrow> 'i search" where
  "performSearch query st =
     (let st = startPulse st
      in if hasIndex st then run_query query st else deferQuery query st)"

text \<open>\<open>init\<close>, with the values of the parameter \<open>q\<close> of the page's address (at least one).\<close>

definition search_init :: "(string \<times> string list) option \<Rightarrow> 'i search \<Rightarrow> 'i search" where
  "search_init q st = (case q of Some (query, _) \<Rightarrow> performSearch query st | None \<Rightarrow> st)"

section \<open>The page\<close>

datatype 'i page_event =
    Perform string
  | Loaded 'i
  | Tick
  | Shown  \<comment> \<open>a query has displayed its last item\<close>

inductive search_step :: "'i search \<Rightarrow> 'i page_event \<Rightarrow> 'i search \<Rightarrow> bool" where
  step_perform: "search_step st (Perform q) (performSearch q st)"
| step_loaded: "search_step st (Loaded idx) (setIndex idx st)"
| step_tick: "s_timers st = Suc n \<Longrightarrow> search_step st Tick (pulse (st\<lparr>s_timers := n\<rparr>))"
| step_shown: "s_log st \<noteq> [] \<Longrightarrow> search_step st Shown (stopPulse st)"

inductive search_run :: "'i search \<Rightarrow> 'i page_event list \<Rightarrow> 'i search \<Rightarrow> bool" where
  run_nil: "search_run st [] st"
| run_step: "search_step st e st' \<Longrightarrow> search_run st' es st'' \<Longrightarrow> search_run st (e # es) st''"

inductive_cases step_cases: "search_step st e st'"
inductive_simps run_Nil_iff [simp]: "search_run st [] st'"
inductive_simps run_Cons_iff: "search_run st (e # es) st'"
inductive_simps step_Perform_iff: "search_step st (Perform q) st'"
inductive_simps step_Loaded_iff: "search_step st (Loaded i) st'"

lemma run_append:
  "search_run st (es @ es') st'' \<longleftrightarrow> (\<exists>st'. search_run st es st' \<and> search_run st' es' st'')"
  by (induction es arbitrary: st) (auto simp: run_Cons_iff)

lemmas search_defs = performSearch_def setIndex_def run_query_def deferQuery_def hasIndex_def
  startPulse_def pulse_def stopPulse_def Let_def

text \<open>The queries asked for.\<close>

fun performed :: "'i page_event list \<Rightarrow> string list" where
  "performed [] = []"
| "performed (Perform q # es) = q # performed es"
| "performed (_ # es) = performed es"

fun loads :: "'i page_event list \<Rightarrow> bool" where
  "loads [] = False"
| "loads (Loaded i # es) = True"
| "loads (_ # es) = loads es"

lemma pulse_fields [simp]:
  "s_index (pulse st) = s_index st" "s_queued (pulse st) = s_queued st" "s_log (pulse st) = s_log st"
  by (simp_all add: pulse_def Let_def)

lemma startPulse_fields [simp]:
  "s_index (startPulse st) = s_index st" "s_queued (startPulse st) = s_queued st"
  "s_log (startPulse st) = s_log st"
  by (simp_all add: startPulse_def)

lemma run_before_load:
  "search_run st es st' \<Longrightarrow> \<not> loads es \<Longrightarrow> s_index st = None \<Longrightarrow>
   s_index st' = None \<and> s_log st' = s_log st \<and>
   s_queued st' = (if performed es = [] then s_queued st else Some (last (performed es)))"
proof (induction rule: search_run.induct)
  case (run_step st e st' es st'')
  from run_step.hyps(1) show ?case
    using run_step.IH run_step.prems
    by (cases rule: search_step.cases)
       (auto simp: performSearch_def hasIndex_def deferQuery_def stopPulse_def Let_def)
qed simp

lemma run_after_load:
  "search_run st es st' \<Longrightarrow> \<not> loads es \<Longrightarrow> s_index st = Some i \<Longrightarrow> s_queued st = None \<Longrightarrow>
   s_log st' = s_log st @ map (Pair i) (performed es)"
proof (induction rule: search_run.induct)
  case (run_step st e st' es st'')
  from run_step.hyps(1) show ?case
    using run_step.IH run_step.prems
    by (cases rule: search_step.cases)
       (auto simp: performSearch_def hasIndex_def run_query_def stopPulse_def Let_def)
qed simp

definition pulse_inv :: "'i search \<Rightarrow> bool" where
  "pulse_inv st \<longleftrightarrow>
     -1 \<le> s_pulse st \<and> s_pulse st \<le> 3 \<and> s_timers st = (if s_pulse st \<ge> 0 then 1 else 0) \<and>
     (s_queued st \<noteq> None \<longrightarrow> s_index st = None) \<and>
     (s_queued st \<noteq> None \<or> s_log st \<noteq> [] \<longrightarrow> s_pulse st \<ge> 0)"

lemma pulse_inv_object: "pulse_inv search_object"
  by (simp add: pulse_inv_def search_object_def)

lemma pulse_inv_pulse:
  assumes "s_timers st = 0" "s_queued st \<noteq> None \<longrightarrow> s_index st = None"
  shows "pulse_inv (pulse st)"
proof -
  obtain m where "(s_pulse st + 1) mod 4 = m" "0 \<le> m" "m < 4" by simp
  then show ?thesis using assms by (simp add: pulse_inv_def pulse_def Let_def)
qed

lemma pulse_inv_start:
  "pulse_inv st \<Longrightarrow> pulse_inv (startPulse st) \<and> s_pulse (startPulse st) \<ge> 0"
  by (auto simp: startPulse_def pulse_inv_def pulse_def Let_def)

lemma pulse_inv_step: "search_step st e st' \<Longrightarrow> pulse_inv st \<Longrightarrow> pulse_inv st'"
proof (induction rule: search_step.induct)
  case (step_perform st q)
  then show ?case using pulse_inv_start[of st]
    by (auto simp: performSearch_def pulse_inv_def hasIndex_def run_query_def deferQuery_def Let_def
        split: option.splits)
next
  case (step_tick st n)
  then show ?case by (intro pulse_inv_pulse) (auto simp: pulse_inv_def split: if_splits)
next
  case (step_shown st)
  then show ?case by (auto simp: pulse_inv_def stopPulse_def)
qed (auto simp: setIndex_def run_query_def pulse_inv_def Let_def split: option.splits)

lemma pulse_inv_run: "search_run st es st' \<Longrightarrow> pulse_inv st \<Longrightarrow> pulse_inv st'"
  by (induction rule: search_run.induct) (auto intro: pulse_inv_step)

lemma pulse_stays_started:
  "search_step st e st' \<Longrightarrow> s_pulse st \<ge> 0 \<Longrightarrow> s_pulse st' \<ge> 0"
  by (cases rule: search_step.cases)
     (auto simp: search_defs split: option.splits)

lemma pulse_stays_started_run:
  "search_run st es st' \<Longrightarrow> s_pulse st \<ge> 0 \<Longrightarrow> s_pulse st' \<ge> 0"
  by (induction rule: search_run.induct) (auto intro: pulse_stays_started)

section \<open>Properties\<close>

text \<open>
  C30. No search is lost and none runs without an index: the last query asked for before the index
  arrives runs when it arrives, and every later query runs at once, in order.
\<close>

theorem searches_run:
  assumes "search_run search_object (es @ Loaded i # es') st" "\<not> loads es" "\<not> loads es'"
  shows "s_log st = map (Pair i)
    ((if performed es = [] then [] else [last (performed es)]) @ performed es')"
proof -
  obtain s1 where s1: "search_run search_object es s1" "search_run (setIndex i s1) es' st"
    using assms(1) by (auto simp: run_append run_Cons_iff step_Loaded_iff)
  have b: "s_index s1 = None" "s_log s1 = []"
    "s_queued s1 = (if performed es = [] then None else Some (last (performed es)))"
    using run_before_load[OF s1(1) assms(2)] by (auto simp: search_object_def)
  have a: "s_index (setIndex i s1) = Some i" "s_queued (setIndex i s1) = None"
    "s_log (setIndex i s1) = map (Pair i) (if performed es = [] then [] else [last (performed es)])"
    using b by (auto simp: setIndex_def run_query_def Let_def split: option.splits)
  show ?thesis using run_after_load[OF s1(2) assms(3) a(1,2)] a(3) by simp
qed

theorem searches_run_witness:
  "\<exists>st. search_run search_object ([Perform ''a'', Perform ''b''] @ Loaded (7 :: nat) # [Perform ''c'']) st \<and>
    s_log st = [(7, ''b''), (7, ''c'')]"
proof -
  have "search_run search_object [Perform ''a'', Perform ''b'', Loaded (7 :: nat), Perform ''c'']
      (performSearch ''c'' (setIndex 7 (performSearch ''b'' (performSearch ''a'' search_object))))"
    by (rule run_step[OF step_perform run_step[OF step_perform run_step[OF step_loaded
          run_step[OF step_perform run_nil]]]])
  then have r: "search_run search_object ([Perform ''a'', Perform ''b''] @ Loaded (7 :: nat) # [Perform ''c''])
      (performSearch ''c'' (setIndex 7 (performSearch ''b'' (performSearch ''a'' search_object))))" by simp
  have l: "\<not> loads [Perform ''a'', Perform ''b'' :: nat page_event]" "\<not> loads [Perform ''c'' :: nat page_event]"
    by (simp_all only: loads.simps not_False_eq_True)
  have p: "performed [Perform ''a'', Perform ''b'' :: nat page_event] = [''a'', ''b'']"
    "performed [Perform ''c'' :: nat page_event] = [''c'']" by (simp_all only: performed.simps)
  have "s_log (performSearch ''c'' (setIndex (7 :: nat) (performSearch ''b'' (performSearch ''a'' search_object))))
      = [(7, ''b''), (7, ''c'')]"
    using searches_run[OF r l] unfolding p by simp
  then show ?thesis using r by blast
qed

text \<open>
  C31. The pulse: in every state the page can reach, exactly one timer is pending once a search has
  started, and none before; the number of dots stays below four.  The pulse never ends: after
  \<open>stopPulse\<close> the status is 0, which \<open>pulse\<close> takes as a reason to go on.
\<close>

theorem pulse_never_stops:
  assumes "search_run search_object es st"
  shows "s_timers st \<le> 1 \<and> (s_timers st = 1 \<longleftrightarrow> s_pulse st \<ge> 0) \<and> s_pulse st < 4 \<and>
    (\<forall>es' st'. s_timers st = 1 \<longrightarrow> search_run st es' st' \<longrightarrow> s_timers st' = 1)"
proof -
  have inv: "pulse_inv st" using pulse_inv_run[OF assms pulse_inv_object] .
  have "s_timers st' = 1" if "s_timers st = 1" "search_run st es' st'" for es' st'
  proof -
    have "s_pulse st \<ge> 0" using inv that(1) unfolding pulse_inv_def by (metis zero_neq_one)
    then have "s_pulse st' \<ge> 0" using pulse_stays_started_run[OF that(2)] by blast
    then show ?thesis using pulse_inv_run[OF that(2) inv] by (simp add: pulse_inv_def)
  qed
  moreover have "s_timers st \<le> 1 \<and> (s_timers st = 1 \<longleftrightarrow> s_pulse st \<ge> 0) \<and> s_pulse st < 4"
    using inv by (simp add: pulse_inv_def)
  ultimately show ?thesis by blast
qed

theorem pulse_never_stops_witness:
  "\<exists>st. search_run search_object [Loaded (7 :: nat), Perform ''a'', Shown] st \<and> s_timers st = 1 \<and>
    (\<forall>es' st'. search_run st es' st' \<longrightarrow> s_timers st' = 1)"
proof -
  let ?st = "stopPulse (performSearch ''a'' (setIndex (7 :: nat) search_object))"
  have l: "s_log (performSearch ''a'' (setIndex (7 :: nat) search_object)) \<noteq> []"
    by (simp add: search_defs search_object_def)
  have r: "search_run search_object [Loaded 7, Perform ''a'', Shown] ?st"
    by (rule run_step[OF step_loaded run_step[OF step_perform run_step[OF step_shown[OF l] run_nil]]])
  show ?thesis using pulse_never_stops[OF r] r by (auto simp: stopPulse_def)
qed

end
