(* ===== verification/JsUri.thy ===== *)
theory JsUri
  imports JsLib
begin

text \<open>
  \<open>encodeURIComponent\<close> and \<open>decodeURIComponent\<close> of the language, on lists of UTF-16 code units;
  \<open>None\<close> is a URIError.
\<close>

section \<open>Code points\<close>

definition is_lead :: "nat \<Rightarrow> bool" where
  "is_lead u \<longleftrightarrow> 55296 \<le> u \<and> u \<le> 56319"

definition is_trail :: "nat \<Rightarrow> bool" where
  "is_trail u \<longleftrightarrow> 56320 \<le> u \<and> u \<le> 57343"

definition utf8 :: "nat \<Rightarrow> nat list" where
  "utf8 c =
     (if c < 128 then [c]
      else if c < 2048 then [192 + c div 64, 128 + c mod 64]
      else if c < 65536 then [224 + c div 4096, 128 + c div 64 mod 64, 128 + c mod 64]
      else [240 + c div 262144, 128 + c div 4096 mod 64, 128 + c div 64 mod 64, 128 + c mod 64])"

definition units_of :: "nat \<Rightarrow> nat list" where
  "units_of c = (if c < 65536 then [c] else [55296 + (c - 65536) div 1024, 56320 + (c - 65536) mod 1024])"

section \<open>Encoding\<close>

text \<open>Letters, digits and \<open>- _ . ! ~ * ' ( )\<close> stand for themselves.\<close>

definition unreserved :: "nat \<Rightarrow> bool" where
  "unreserved u \<longleftrightarrow> 48 \<le> u \<and> u \<le> 57 \<or> 65 \<le> u \<and> u \<le> 90 \<or> 97 \<le> u \<and> u \<le> 122 \<or>
     u \<in> {45, 95, 46, 33, 126, 42, 39, 40, 41}"

definition hex_digit :: "nat \<Rightarrow> nat" where
  "hex_digit d = (if d < 10 then 48 + d else 55 + d)"

definition percent :: "nat \<Rightarrow> nat list" where
  "percent b = [37, hex_digit (b div 16), hex_digit (b mod 16)]"

definition encode_point :: "nat \<Rightarrow> nat list" where
  "encode_point c = concat (map percent (utf8 c))"

fun encodeURIComponent :: "nat list \<Rightarrow> nat list option" where
  "encodeURIComponent [] = Some []"
| "encodeURIComponent (u # r) =
     (if unreserved u then map_option (Cons u) (encodeURIComponent r)
      else if is_trail u then None
      else if is_lead u then
        (case r of
           [] \<Rightarrow> None
         | t # r' \<Rightarrow>
             if is_trail t
             then map_option ((@) (encode_point ((u - 55296) * 1024 + (t - 56320) + 65536)))
                    (encodeURIComponent r')
             else None)
      else map_option ((@) (encode_point u)) (encodeURIComponent r))"

section \<open>Decoding\<close>

definition hex_value :: "nat \<Rightarrow> nat option" where
  "hex_value u =
     (if 48 \<le> u \<and> u \<le> 57 then Some (u - 48)
      else if 65 \<le> u \<and> u \<le> 70 then Some (u - 55)
      else if 97 \<le> u \<and> u \<le> 102 then Some (u - 87)
      else None)"

text \<open>One escaped byte and what follows it.\<close>

fun take_byte :: "nat list \<Rightarrow> (nat \<times> nat list) option" where
  "take_byte (p # h # l # r) =
     (if p = 37
      then (case (hex_value h, hex_value l) of
              (Some x, Some y) \<Rightarrow> Some (16 * x + y, r)
            | _ \<Rightarrow> None)
      else None)"
| "take_byte _ = None"

fun take_tail :: "nat \<Rightarrow> nat \<Rightarrow> nat list \<Rightarrow> (nat \<times> nat list) option" where
  "take_tail 0 v r = Some (v, r)"
| "take_tail (Suc n) v r =
     (case take_byte r of
        Some (b, r') \<Rightarrow> if 128 \<le> b \<and> b < 192 then take_tail n (64 * v + (b - 128)) r' else None
      | None \<Rightarrow> None)"

definition take_point :: "nat list \<Rightarrow> (nat \<times> nat list) option" where
  "take_point s =
     (case take_byte s of
        None \<Rightarrow> None
      | Some (b, r) \<Rightarrow>
          let (n, v, low) = (if b < 128 then (0, b, 0)
                             else if b < 192 then (0, 0, 1)
                             else if b < 224 then (1, b - 192, 128)
                             else if b < 240 then (2, b - 224, 2048)
                             else if b < 248 then (3, b - 240, 65536)
                             else (0, 0, 1))
          in case take_tail n v r of
               None \<Rightarrow> None
             | Some (c, r') \<Rightarrow>
                 if low \<le> c \<and> c < 1114112 \<and> \<not> is_lead c \<and> \<not> is_trail c then Some (c, r') else None)"

lemma take_byte_length: "take_byte s = Some (b, r) \<Longrightarrow> length r < length s"
  by (induction s rule: take_byte.induct) (auto split: if_splits option.splits)

lemma take_tail_length: "take_tail n v s = Some (c, r) \<Longrightarrow> length r \<le> length s"
proof (induction n arbitrary: v s)
  case (Suc n)
  then obtain b s' where "take_byte s = Some (b, s')" "take_tail n (64 * v + (b - 128)) s' = Some (c, r)"
    by (auto split: option.splits if_splits)
  with Suc.IH take_byte_length show ?case by (meson le_trans less_imp_le)
qed simp

lemma take_point_length: "take_point s = Some (c, r) \<Longrightarrow> length r < length s"
  by (auto simp: take_point_def Let_def split: option.splits prod.splits if_splits
      dest!: take_byte_length take_tail_length)

function decodeURIComponent :: "nat list \<Rightarrow> nat list option" where
  "decodeURIComponent [] = Some []"
| "decodeURIComponent (u # s) =
     (if u \<noteq> 37 then map_option (Cons u) (decodeURIComponent s)
      else case take_point (u # s) of
             None \<Rightarrow> None
           | Some (c, r) \<Rightarrow> map_option ((@) (units_of c)) (decodeURIComponent r))"
  by pat_completeness auto
termination
  by (relation "measure length") (use take_point_length in \<open>fastforce simp del: take_byte.simps\<close>)+

section \<open>Decoding inverts encoding\<close>

lemma hex_value_digit: "d < 16 \<Longrightarrow> hex_value (hex_digit d) = Some d"
  by (auto simp: hex_value_def hex_digit_def)

lemma take_byte_percent: "b < 256 \<Longrightarrow> take_byte (percent b @ r) = Some (b, r)"
proof -
  assume "b < 256"
  then have "b div 16 < 16" by simp
  then show ?thesis by (simp add: percent_def hex_value_digit)
qed

lemma take_tail_percent:
  "b < 64 \<Longrightarrow> take_tail (Suc n) v (percent (128 + b) @ r) = take_tail n (64 * v + b) r"
  by (simp add: take_byte_percent)

lemma take_point_start:
  "b < 256 \<Longrightarrow> take_point (percent b @ r) =
     (let (n, v, low) = (if b < 128 then (0, b, 0)
                         else if b < 192 then (0, 0, 1)
                         else if b < 224 then (1, b - 192, 128)
                         else if b < 240 then (2, b - 224, 2048)
                         else if b < 248 then (3, b - 240, 65536)
                         else (0, 0, 1))
      in case take_tail n v r of
           None \<Rightarrow> None
         | Some (c, r') \<Rightarrow>
             if low \<le> c \<and> c < 1114112 \<and> \<not> is_lead c \<and> \<not> is_trail c then Some (c, r') else None)"
  by (simp only: take_point_def take_byte_percent option.case prod.case)

lemma take_point_encode:
  assumes "c < 1114112" "\<not> is_lead c" "\<not> is_trail c"
  shows "take_point (encode_point c @ r) = Some (c, r)"
proof -
  have tail1: "take_tail (Suc 0) v (percent (128 + a) @ q) = Some (64 * v + a, q)"
    if "a < 64" for a v q
    using that by (simp only: take_tail_percent take_tail.simps(1))
  have tail2: "take_tail 2 v (percent (128 + a) @ percent (128 + b) @ q) = Some (64 * (64 * v + a) + b, q)"
    if "a < 64" "b < 64" for a b v q
    using that by (simp only: numeral_2_eq_2 take_tail_percent take_tail.simps(1))
  have tail3: "take_tail 3 v (percent (128 + a) @ percent (128 + b) @ percent (128 + d) @ q) =
      Some (64 * (64 * (64 * v + a) + b) + d, q)"
    if "a < 64" "b < 64" "d < 64" for a b d v q
    using that by (simp only: numeral_3_eq_3 take_tail_percent take_tail.simps(1))
  have m: "x mod 64 < (64::nat)" for x by simp
  have d2: "64 * (c div 64) + c mod 64 = c" by simp
  have "64 * (c div 4096) + c div 64 mod 64 = c div 64"
    using div_mult2_eq[of c 64 64] by simp
  then have d3: "4096 * (c div 4096) + 64 * (c div 64 mod 64) + c mod 64 = c"
    using d2 by linarith
  have "64 * (c div 262144) + c div 4096 mod 64 = c div 4096"
    using div_mult2_eq[of c 4096 64] by simp
  then have d4: "262144 * (c div 262144) + 4096 * (c div 4096 mod 64) + 64 * (c div 64 mod 64) + c mod 64 = c"
    using d3 by linarith
  consider "c < 128" | "128 \<le> c" "c < 2048" | "2048 \<le> c" "c < 65536" | "65536 \<le> c" by linarith
  then show ?thesis
  proof cases
    case 1
    then show ?thesis using assms by (simp add: encode_point_def utf8_def take_point_start)
  next
    case 2
    then have "c div 64 < 32" by simp
    with 2 show ?thesis using assms
      by (simp add: encode_point_def utf8_def take_point_start tail1 tail2 tail3 m d2 del: take_tail.simps)
  next
    case 3
    then have "c div 4096 < 16" by simp
    with 3 show ?thesis using assms
      by (simp add: encode_point_def utf8_def take_point_start tail1 tail2 tail3 m d3 del: take_tail.simps)
  next
    case 4
    then have "c div 262144 < 5" using assms by simp
    with 4 show ?thesis using assms
      by (simp add: encode_point_def utf8_def take_point_start tail1 tail2 tail3 m d4 del: take_tail.simps)
  qed
qed

lemma encode_point_starts: "\<exists>r. encode_point c = 37 # r"
  by (simp add: encode_point_def utf8_def percent_def)

lemma decode_encode_point:
  assumes "c < 1114112" "\<not> is_lead c" "\<not> is_trail c"
  shows "decodeURIComponent (encode_point c @ s) = map_option ((@) (units_of c)) (decodeURIComponent s)"
proof -
  obtain r where r: "encode_point c = 37 # r" using encode_point_starts by blast
  have "take_point (37 # r @ s) = Some (c, s)" using take_point_encode[OF assms] r by simp
  then show ?thesis by (simp add: r)
qed

lemma unreserved_small: "unreserved u \<Longrightarrow> u \<noteq> 37 \<and> u \<noteq> 43 \<and> u \<noteq> 38 \<and> u \<noteq> 61"
  by (auto simp: unreserved_def)

lemma decode_encode:
  "list_all (\<lambda>u. u < 65536) s \<Longrightarrow> encodeURIComponent s = Some e \<Longrightarrow> decodeURIComponent e = Some s"
proof (induction s arbitrary: e rule: encodeURIComponent.induct)
  case (2 u r)
  consider (own) "unreserved u" | (lead) "\<not> unreserved u" "is_lead u" "\<not> is_trail u"
    | (other) "\<not> unreserved u" "\<not> is_lead u" "\<not> is_trail u"
    using 2 by (auto split: if_splits)
  then show ?case
  proof cases
    case own
    then obtain e' where "encodeURIComponent r = Some e'" "e = u # e'" using 2 by auto
    with 2 own show ?thesis using unreserved_small by simp
  next
    case other
    then obtain e' where e: "encodeURIComponent r = Some e'" "e = encode_point u @ e'"
      using 2 by auto
    have "units_of u = [u]" using 2 by (simp add: units_of_def)
    with e 2 other show ?thesis by (simp add: decode_encode_point)
  next
    case lead
    then obtain t r' where t: "r = t # r'" "is_trail t"
      using 2 by (auto split: list.splits if_splits)
    define c where "c = (u - 55296) * 1024 + (t - 56320) + 65536"
    obtain e' where e: "encodeURIComponent r' = Some e'" "e = encode_point c @ e'"
      using 2 lead t by (auto simp: c_def)
    have ih: "decodeURIComponent e' = Some r'" using 2 lead t e by simp
    have c: "c < 1114112" "\<not> is_lead c" "\<not> is_trail c" "65536 \<le> c"
      using lead t by (auto simp: c_def is_lead_def is_trail_def)
    have "t - 56320 < 1024" using t unfolding is_trail_def by linarith
    then have "(c - 65536) div 1024 = u - 55296" "(c - 65536) mod 1024 = t - 56320"
      by (simp_all add: c_def)
    then have "units_of c = [u, t]"
      using c lead t by (simp add: units_of_def is_lead_def is_trail_def)
    with c e ih show ?thesis using t by (simp add: decode_encode_point)
  qed
qed simp

text \<open>Encoded text holds neither of the separators of a query string.\<close>

lemma percent_chars: "b < 256 \<Longrightarrow> set (percent b) \<inter> {38, 43, 61} = {}"
proof -
  have "hex_digit d \<notin> {38, 43, 61}" for d by (simp add: hex_digit_def)
  then show ?thesis by (simp add: percent_def)
qed

end
