(* ===== verification/DocQuery.thy ===== *)
theory DocQuery
  imports JsUri
begin

text \<open>
  The query string in \<open>doctools.js\<close>: \<open>$.urlencode\<close>, \<open>$.urldecode\<close>, \<open>$.getQueryParameters\<close>, and the
  terms \<open>Documentation.highlightSearchWords\<close> reads from it.  Strings are lists of UTF-16 code
  units.  The last section composes it with the links the search page writes.
\<close>

section \<open>Strings as code units\<close>

definition codes :: "string \<Rightarrow> nat list" where
  "codes s = map of_char s"

definition is_ws :: "nat \<Rightarrow> bool" where
  "is_ws u \<longleftrightarrow> 9 \<le> u \<and> u \<le> 13 \<or> 8192 \<le> u \<and> u \<le> 8202 \<or>
     u \<in> {32, 160, 5760, 8232, 8233, 8239, 8287, 12288, 65279}"

text \<open>\<open>s.split(/\s+/)\<close>.\<close>

definition split_ws :: "nat list \<Rightarrow> nat list list" where
  "split_ws s = split_run is_ws False [] s"

section \<open>Encoding and decoding\<close>

text \<open>\<open>x.replace(/\+/g, ' ')\<close>.\<close>

definition plus_to_space :: "nat list \<Rightarrow> nat list" where
  "plus_to_space = map (\<lambda>u. if u = 43 then 32 else u)"

definition urldecode :: "nat list \<Rightarrow> nat list option" where
  "urldecode x = map_option plus_to_space (decodeURIComponent x)"

definition urlencode :: "nat list \<Rightarrow> nat list option" where
  "urlencode = encodeURIComponent"

section \<open>Query parameters\<close>

datatype query_error = URIError | TypeError

type_synonym params = "nat list \<rightharpoonup> nat list list"

text \<open>Names that \<open>key in result\<close> finds on every object.\<close>

definition object_prototype :: "string list" where
  "object_prototype =
     [''constructor'', ''hasOwnProperty'', ''isPrototypeOf'', ''propertyIsEnumerable'',
      ''toLocaleString'', ''toString'', ''valueOf'', ''__proto__'', ''__defineGetter__'',
      ''__defineSetter__'', ''__lookupGetter__'', ''__lookupSetter__'']"

definition inherited :: "nat list \<Rightarrow> bool" where
  "inherited k \<longleftrightarrow> k \<in> set (map codes object_prototype)"

definition add_value :: "nat list \<Rightarrow> nat list \<Rightarrow> params \<Rightarrow> query_error + params" where
  "add_value key v result =
     (case result key of
        Some vs \<Rightarrow> Inr (result(key \<mapsto> vs @ [v]))
      | None \<Rightarrow> if inherited key then Inl TypeError else Inr (result(key \<mapsto> [v])))"

text \<open>A part without \<open>=\<close> has no second piece; \<open>decodeURIComponent\<close> turns \<open>undefined\<close> into its name.\<close>

fun params_loop :: "nat list list \<Rightarrow> params \<Rightarrow> query_error + params" where
  "params_loop [] result = Inr result"
| "params_loop (part # parts) result =
     (let tmp = take 2 (split_char 61 part);
          piece = (if length tmp = 2 then tmp ! 1 else codes ''undefined'')
      in case urldecode (tmp ! 0) of
           None \<Rightarrow> Inl URIError
         | Some key \<Rightarrow>
             (case urldecode piece of
                None \<Rightarrow> Inl URIError
              | Some v \<Rightarrow>
                  (case add_value key v result of
                     Inl e \<Rightarrow> Inl e
                   | Inr result' \<Rightarrow> params_loop parts result')))"

definition getQueryParameters :: "nat list \<Rightarrow> query_error + params" where
  "getQueryParameters s =
     params_loop (split_char 38 (substr_from s (str_index_of s [63] + 1))) Map.empty"

section \<open>Highlighted words\<close>

definition highlight_terms :: "nat list \<Rightarrow> query_error + nat list list" where
  "highlight_terms search =
     (case getQueryParameters search of
        Inl e \<Rightarrow> Inl e
      | Inr ps \<Rightarrow>
          (case ps (codes ''highlight'') of
             None \<Rightarrow> Inr []
           | Some vs \<Rightarrow> Inr (split_ws (vs ! 0))))"

text \<open>The query the search page adds to the links of its results.\<close>

definition highlightstring :: "nat list list \<Rightarrow> nat list option" where
  "highlightstring hlterms = map_option ((@) (codes ''?highlight='')) (urlencode (join [32] hlterms))"

section \<open>Specification: grouping of pairs\<close>

definition encode_pair :: "nat list \<times> nat list \<Rightarrow> nat list option" where
  "encode_pair kv =
     (case (urlencode (fst kv), urlencode (snd kv)) of
        (Some k, Some v) \<Rightarrow> Some (k @ [61] @ v)
      | _ \<Rightarrow> None)"

fun encode_pairs :: "(nat list \<times> nat list) list \<Rightarrow> nat list list option" where
  "encode_pairs [] = Some []"
| "encode_pairs (kv # kvs) =
     (case (encode_pair kv, encode_pairs kvs) of
        (Some p, Some ps) \<Rightarrow> Some (p # ps)
      | _ \<Rightarrow> None)"

definition query_string :: "(nat list \<times> nat list) list \<Rightarrow> nat list option" where
  "query_string kvs = map_option (\<lambda>ps. 63 # join [38] ps) (encode_pairs kvs)"

definition spaced_pair :: "nat list \<times> nat list \<Rightarrow> nat list \<times> nat list" where
  "spaced_pair kv = (plus_to_space (fst kv), plus_to_space (snd kv))"

definition values_of :: "(nat list \<times> nat list) list \<Rightarrow> nat list \<Rightarrow> nat list list" where
  "values_of kvs k = map snd (filter (\<lambda>kv. fst kv = k) kvs)"

definition grouped :: "(nat list \<times> nat list) list \<Rightarrow> params" where
  "grouped kvs k = (if values_of kvs k = [] then None else Some (values_of kvs k))"

definition good_pair :: "nat list \<times> nat list \<Rightarrow> bool" where
  "good_pair kv \<longleftrightarrow> list_all (\<lambda>u. u < 65536) (fst kv) \<and> list_all (\<lambda>u. u < 65536) (snd kv) \<and>
     \<not> inherited (plus_to_space (fst kv))"

section \<open>Facts\<close>

lemma encoded_chars: "list_all (\<lambda>u. u < 65536) s \<Longrightarrow> encodeURIComponent s = Some e \<Longrightarrow> set e \<inter> {38, 43, 61} = {}"
proof (induction s arbitrary: e rule: encodeURIComponent.induct)
  case (2 u r)
  have pt: "set (encode_point c) \<inter> {38, 43, 61} = {}" if "c < 1114112" for c
  proof -
    have "list_all (\<lambda>b. b < 256) (utf8 c)"
      using that by (auto simp: utf8_def div_less_iff_less_mult)
    then show ?thesis using percent_chars by (fastforce simp: encode_point_def list_all_iff)
  qed
  consider (own) "unreserved u" | (lead) "\<not> unreserved u" "is_lead u" "\<not> is_trail u"
    | (other) "\<not> unreserved u" "\<not> is_lead u" "\<not> is_trail u"
    using 2 by (auto split: if_splits)
  then show ?case
  proof cases
    case own
    then obtain e' where "encodeURIComponent r = Some e'" "e = u # e'" using 2 by auto
    with 2 own show ?thesis using unreserved_small[of u] by simp
  next
    case other
    then obtain e' where e: "encodeURIComponent r = Some e'" "e = encode_point u @ e'"
      using 2 by auto
    have "u < 1114112" using 2 by simp
    with e 2 other show ?thesis using pt[of u] by auto
  next
    case lead
    then obtain t r' where t: "r = t # r'" "is_trail t"
      using 2 by (auto split: list.splits if_splits)
    define c where "c = (u - 55296) * 1024 + (t - 56320) + 65536"
    obtain e' where e: "encodeURIComponent r' = Some e'" "e = encode_point c @ e'"
      using 2 lead t by (auto simp: c_def)
    have "set e' \<inter> {38, 43, 61} = {}" using 2 lead t e by simp
    moreover have "c < 1114112" using lead t by (auto simp: c_def is_lead_def is_trail_def)
    ultimately show ?thesis using e pt[of c] by auto
  qed
qed simp

lemma urldecode_urlencode:
  "list_all (\<lambda>u. u < 65536) s \<Longrightarrow> urlencode s = Some e \<Longrightarrow> urldecode e = Some (plus_to_space s)"
  by (simp add: urldecode_def urlencode_def decode_encode)

lemma encode_pairs_Cons:
  "encode_pairs (kv # kvs) = Some es \<longleftrightarrow>
     (\<exists>k v ps. urlencode (fst kv) = Some k \<and> urlencode (snd kv) = Some v \<and>
        encode_pairs kvs = Some ps \<and> es = (k @ [61] @ v) # ps)"
  by (auto simp: encode_pair_def split: option.splits)

declare encode_pairs.simps(2) [simp del]

lemma grouped_Nil [simp]: "grouped [] = Map.empty"
  by (simp add: grouped_def values_of_def fun_eq_iff)

lemma encoded_part:
  assumes "list_all (\<lambda>u. u < 65536) x" "list_all (\<lambda>u. u < 65536) y"
    and "urlencode x = Some k" "urlencode y = Some v"
  shows "split_char 61 (k @ [61] @ v) = [k, v]" and "38 \<notin> set (k @ [61] @ v)"
  using encoded_chars[OF assms(1)] encoded_chars[OF assms(2)] assms(3,4)
  by (auto simp: urlencode_def split_char_append split_char_absent)

lemma values_of_snoc: "values_of (kvs @ [kv]) k = values_of kvs k @ (if fst kv = k then [snd kv] else [])"
  by (simp add: values_of_def)

lemma grouped_snoc:
  "grouped (kvs @ [(k, v)]) = (grouped kvs)(k \<mapsto> values_of kvs k @ [v])"
  by (auto simp: grouped_def values_of_snoc)

lemma add_value_grouped:
  "\<not> inherited k \<Longrightarrow> add_value k v (grouped kvs) = Inr (grouped (kvs @ [(k, v)]))"
  by (simp add: add_value_def grouped_snoc) (simp add: grouped_def)

lemma params_loop_grouped:
  "list_all good_pair kvs \<Longrightarrow> encode_pairs kvs = Some ps \<Longrightarrow>
     params_loop ps (grouped done) = Inr (grouped (done @ map spaced_pair kvs))"
proof (induction kvs arbitrary: ps "done")
  case (Cons kv kvs)
  then obtain k v qs where e: "urlencode (fst kv) = Some k" "urlencode (snd kv) = Some v"
      "encode_pairs kvs = Some qs" "ps = (k @ [61] @ v) # qs"
    by (auto simp: encode_pairs_Cons)
  have g: "good_pair kv" using Cons.prems by simp
  have tmp: "split_char 61 (k @ [61] @ v) = [k, v]"
    using encoded_part(1)[OF _ _ e(1,2)] g by (simp add: good_pair_def)
  have dec: "urldecode k = Some (plus_to_space (fst kv))" "urldecode v = Some (plus_to_space (snd kv))"
    using urldecode_urlencode[OF _ e(1)] urldecode_urlencode[OF _ e(2)] g by (simp_all add: good_pair_def)
  have add: "add_value (plus_to_space (fst kv)) (plus_to_space (snd kv)) (grouped done) =
      Inr (grouped (done @ [spaced_pair kv]))"
    using g by (simp add: add_value_grouped good_pair_def spaced_pair_def)
  have "params_loop ps (grouped done) = params_loop qs (grouped (done @ [spaced_pair kv]))"
    using tmp by (simp add: e(4) dec add)
  then show ?case using Cons e(3) by simp
qed simp

lemma encoded_parts_split:
  assumes "list_all good_pair kvs" "encode_pairs kvs = Some ps" "kvs \<noteq> []"
  shows "split_char 38 (join [38] ps) = ps"
proof (rule split_char_join)
  show "ps \<noteq> []" using assms by (cases kvs) (auto simp: encode_pairs_Cons)
  show "38 \<notin> set p" if "p \<in> set ps" for p
    using assms(1,2) that
  proof (induction kvs arbitrary: ps)
    case (Cons kv kvs)
    then show ?case
      using encoded_part(2)[of "fst kv" "snd kv"]
      by (auto simp: encode_pairs_Cons good_pair_def)
  qed simp
qed

lemma getQueryParameters_grouped:
  assumes "list_all good_pair kvs" "kvs \<noteq> []" "query_string kvs = Some q"
  shows "getQueryParameters q = Inr (grouped (map spaced_pair kvs))"
proof -
  obtain ps where ps: "encode_pairs kvs = Some ps" "q = 63 # join [38] ps"
    using assms(3) by (auto simp: query_string_def)
  have "str_index_of q [63] = 0" by (simp add: ps str_index_of_def)
  then have "getQueryParameters q = params_loop ps (grouped [])"
    using encoded_parts_split[OF assms(1) ps(1) assms(2)]
    by (simp add: getQueryParameters_def ps substr_from_def)
  then show ?thesis using params_loop_grouped[OF assms(1) ps(1), of "[]"] by simp
qed

lemma split_ws_join:
  "ws \<noteq> [] \<Longrightarrow> list_all (\<lambda>w. w \<noteq> [] \<and> list_all (\<lambda>c. \<not> is_ws c) w) ws \<Longrightarrow> split_ws (join [32] ws) = ws"
  unfolding split_ws_def by (intro split_run_join) (simp_all add: is_ws_def)

lemma plus_to_space_id: "43 \<notin> set s \<Longrightarrow> plus_to_space s = s"
  by (induction s) (auto simp: plus_to_space_def)

lemma urlencode_highlight: "urlencode (codes ''highlight'') = Some (codes ''highlight'')"
  by (simp add: urlencode_def codes_def unreserved_def char_of_def)

lemma highlight_string_query:
  "highlightstring ws = query_string [(codes ''highlight'', join [32] ws)]"
  by (cases "urlencode (join [32] ws)")
     (simp_all add: highlightstring_def query_string_def encode_pairs.simps encode_pair_def
       urlencode_highlight, simp add: codes_def)

section \<open>Properties\<close>

text \<open>
  C39. \<open>$.getQueryParameters\<close> reads back what \<open>$.urlencode\<close> wrote: for a query built from pairs of
  encoded keys and values the result maps every key to the list of its values in the order of the
  query, and nothing else.  Plus signs do not survive: the decoder turns them into spaces even
  when they were encoded as \<open>%2B\<close>.
\<close>

theorem query_parameters_roundtrip:
  assumes "list_all good_pair kvs" "kvs \<noteq> []" "query_string kvs = Some q"
  shows "getQueryParameters q = Inr (grouped (map spaced_pair kvs))"
  by (rule getQueryParameters_grouped[OF assms])

text \<open>The pairs \<open>(a, x+y)\<close>, \<open>(a, &)\<close> and \<open>(b, =)\<close>.\<close>

definition sample_pairs :: "(nat list \<times> nat list) list" where
  "sample_pairs = [([97], [120, 43, 121]), ([97], [38]), ([98], [61])]"

theorem query_parameters_roundtrip_witness:
  "map (\<lambda>ps. (ps [97], ps [98], ps [99]))
       (case map_option getQueryParameters (query_string sample_pairs) of Some (Inr ps) \<Rightarrow> [ps] | _ \<Rightarrow> []) =
     [(Some [[120, 32, 121], [38]], Some [[61]], None)]"
proof -
  have good: "list_all good_pair sample_pairs"
    by (simp add: sample_pairs_def good_pair_def inherited_def object_prototype_def codes_def
        plus_to_space_def char_of_def)
  have ne: "sample_pairs \<noteq> []" by (simp add: sample_pairs_def)
  obtain q where q: "query_string sample_pairs = Some q"
    by (simp add: sample_pairs_def query_string_def encode_pairs.simps encode_pair_def urlencode_def
        unreserved_def is_lead_def is_trail_def)
  show ?thesis
    using query_parameters_roundtrip[OF good ne q]
    by (simp add: q) (simp add: sample_pairs_def spaced_pair_def plus_to_space_def grouped_def values_of_def)
qed

text \<open>
  The search page and the documentation pages agree on the words to highlight: from the link
  \<open>Search.query\<close> builds for a list of words, \<open>Documentation.highlightSearchWords\<close> recovers exactly
  that list, provided that no word holds a plus sign.
\<close>

theorem highlight_link_roundtrip:
  assumes "ws \<noteq> []"
    and "list_all (\<lambda>w. w \<noteq> [] \<and> list_all (\<lambda>c. \<not> is_ws c \<and> c \<noteq> 43 \<and> c < 65536) w) ws"
    and "highlightstring ws = Some q"
  shows "highlight_terms q = Inr ws"
proof -
  let ?kv = "(codes ''highlight'', join [32] ws)"
  have "list_all (list_all (\<lambda>c. c \<noteq> 43 \<and> c < 65536)) ws"
    using assms(2) by (simp add: list_all_iff)
  then have chars: "list_all (\<lambda>c. c \<noteq> 43 \<and> c < 65536) (join [32] ws)"
    by (intro list_all_join) simp_all
  have plain: "plus_to_space (join [32] ws) = join [32] ws"
    by (rule plus_to_space_id) (use chars in \<open>auto simp: list_all_iff\<close>)
  have key: "plus_to_space (codes ''highlight'') = codes ''highlight''"
      "\<not> inherited (codes ''highlight'')" "list_all (\<lambda>u. u < 65536) (codes ''highlight'')"
    by (simp_all add: codes_def plus_to_space_def inherited_def object_prototype_def char_of_def)
  have good: "list_all good_pair [?kv]"
    using chars key by (simp add: good_pair_def list_all_iff)
  have "query_string [?kv] = Some q" using assms(3) by (simp add: highlight_string_query)
  then have "getQueryParameters q = Inr (grouped (map spaced_pair [?kv]))"
    by (rule getQueryParameters_grouped[OF good list.distinct(2)])
  moreover have "list_all (\<lambda>w. w \<noteq> [] \<and> list_all (\<lambda>c. \<not> is_ws c) w) ws"
    using assms(2) by (auto simp: list_all_iff)
  ultimately show ?thesis
    using split_ws_join[OF assms(1)]
    by (simp add: highlight_terms_def spaced_pair_def plain key grouped_def values_of_def)
qed

theorem highlight_link_roundtrip_witness:
  "map_option highlight_terms (highlightstring [[108, 105, 115, 112], [228, 120]]) =
     Some (Inr [[108, 105, 115, 112], [228, 120]])"
proof -
  obtain q where q: "highlightstring [[108, 105, 115, 112], [228, 120]] = Some q"
    by (simp add: highlightstring_def urlencode_def unreserved_def is_lead_def is_trail_def)
  have "highlight_terms q = Inr [[108, 105, 115, 112], [228, 120]]"
    by (rule highlight_link_roundtrip[OF _ _ q]) (simp_all add: is_ws_def)
  with q show ?thesis by simp
qed

text \<open>A page opened without a query has the empty parameter with the value \<open>undefined\<close>.\<close>

lemma no_query: "getQueryParameters [] = Inr [[] \<mapsto> [codes ''undefined'']]"
  by (simp add: getQueryParameters_def substr_from_def str_index_of_def urldecode_def plus_to_space_def
      codes_def add_value_def inherited_def object_prototype_def char_of_def)

text \<open>A parameter named like a method of every object stops the parser.\<close>

lemma inherited_parameter:
  assumes "inherited k" "urldecode k = Some k" "61 \<notin> set k"
  shows "params_loop ((k @ [61]) # parts) Map.empty = Inl TypeError"
proof -
  have "split_char 61 (k @ [61]) = [k, []]" using assms(3) by (simp add: split_char_append)
  moreover have "urldecode [] = Some []" by (simp add: urldecode_def plus_to_space_def)
  ultimately show ?thesis using assms(1,2) by (simp add: add_value_def)
qed

text \<open>A search for \<open>c++\<close> loses its plus signs on the way to the page it links to.\<close>

lemma plus_is_lost: "map_option highlight_terms (highlightstring [[99, 43, 43]]) = Some (Inr [[99], []])"
proof -
  let ?kv = "(codes ''highlight'', [99, 43, 43])"
  obtain q where q: "highlightstring [[99, 43, 43]] = Some q"
    by (simp add: highlightstring_def urlencode_def unreserved_def is_lead_def is_trail_def)
  have "list_all good_pair [?kv]"
    by (simp add: good_pair_def codes_def plus_to_space_def inherited_def object_prototype_def char_of_def)
  moreover have "query_string [?kv] = Some q" using q by (simp add: highlight_string_query)
  ultimately have "getQueryParameters q = Inr (grouped (map spaced_pair [?kv]))"
    by (intro getQueryParameters_grouped) simp_all
  moreover have "spaced_pair ?kv = (codes ''highlight'', [99, 32, 32])"
    by (simp add: spaced_pair_def plus_to_space_def codes_def char_of_def)
  ultimately show ?thesis
    by (simp add: q highlight_terms_def grouped_def values_of_def split_ws_def is_ws_def)
qed

end
