(* ===== verification/DocTools.thy ===== *)
theory DocTools
  imports DocQuery JsRegex
begin

text \<open>
  The rest of \<open>doctools.js\<close>: the browser test \<open>jQuery.uaMatch\<close>, translations, the toggle buttons of
  the domain index, URLs and the keyboard navigation of the \<open>Documentation\<close> object.
\<close>

section \<open>jQuery.uaMatch\<close>

definition version_char :: "char \<Rightarrow> bool" where
  "version_char c \<longleftrightarrow>
     (let n = of_char c :: nat in
      48 \<le> n \<and> n \<le> 57 \<or> 65 \<le> n \<and> n \<le> 90 \<or> 97 \<le> n \<and> n \<le> 122 \<or> n = 95 \<or> n = 46)"

text \<open>\<open>([\w.]+)\<close> as the second group, \<open>[ \/]\<close>, and the five expressions.\<close>

definition rx_version :: rx where
  "rx_version = RGroup 2 (RSeq (RClass version_char) (RStar version_char))"

definition rx_sep :: rx where
  "rx_sep = RClass (\<lambda>c. c = CHR 0x20 \<or> c = CHR 0x2F)"

definition rx_chrome :: rx where
  "rx_chrome = RSeq (RGroup 1 (rx_lit ''chrome'')) (RSeq rx_sep rx_version)"

definition rx_webkit :: rx where
  "rx_webkit = RSeq (RGroup 1 (rx_lit ''webkit'')) (RSeq rx_sep rx_version)"

definition rx_opera :: rx where
  "rx_opera =
     RSeq (RGroup 1 (rx_lit ''opera''))
       (RSeq (RAlt (RSeq (RStar not_newline) (rx_lit ''version'')) REmpty) (RSeq rx_sep rx_version))"

definition rx_msie :: rx where
  "rx_msie = RSeq (RGroup 1 (rx_lit ''msie'')) (RSeq (rx_lit '' '') rx_version)"

definition rx_mozilla :: rx where
  "rx_mozilla =
     RSeq (RGroup 1 (rx_lit ''mozilla''))
       (RAlt (RSeq (RAlt REmpty (RPlusLazy not_newline)) (RSeq (rx_lit '' rv:'') rx_version)) REmpty)"

definition exec_groups :: "rx \<Rightarrow> string \<Rightarrow> (nat \<Rightarrow> string) option" where
  "exec_groups r s = map_option (\<lambda>(pre, cap, rest). cap) (exec_search r [] s)"

definition or_else :: "'a option \<Rightarrow> 'a option \<Rightarrow> 'a option" where
  "or_else a b = (case a of None \<Rightarrow> b | Some x \<Rightarrow> Some x)"

definition uaMatch :: "string \<Rightarrow> string \<times> string" where
  "uaMatch agent =
     (let ua = to_lower agent;
          found = or_else (exec_groups rx_chrome ua) (or_else (exec_groups rx_webkit ua)
                    (or_else (exec_groups rx_opera ua) (or_else (exec_groups rx_msie ua)
                      (if str_index_of ua ''compatible'' < 0 then exec_groups rx_mozilla ua else None))))
      in case found of
           None \<Rightarrow> ('''', ''0'')
         | Some cap \<Rightarrow> (cap 1, if cap 2 = '''' then ''0'' else cap 2))"

section \<open>Translations\<close>

datatype translation = One string | Forms "string list"

record catalog =
  messages :: "translation obj"
  plural_expr :: string
  locale_name :: string

record i18n =
  TRANSLATIONS :: "translation obj"
  PLURAL_EXPR :: "int \<Rightarrow> int"
  LOCALE :: string

definition initial_i18n :: i18n where
  "initial_i18n = \<lparr>TRANSLATIONS = [], PLURAL_EXPR = (\<lambda>n. if n = 1 then 0 else 1), LOCALE = ''unknown''\<rparr>"

text \<open>\<open>None\<close> is \<open>undefined\<close>: a method every object has is found, but has no element 0.\<close>

definition gettext :: "i18n \<Rightarrow> string \<Rightarrow> string option" where
  "gettext st s =
     (case obj_get (TRANSLATIONS st) s of
        None \<Rightarrow> if s \<in> set object_prototype then None else Some s
      | Some (One t) \<Rightarrow> Some t
      | Some (Forms ts) \<Rightarrow> if ts = [] then None else Some (ts ! 0))"

text \<open>The members of \<open>Documentation\<close>; \<open>ngettext\<close> calls \<open>PLURALEXPR\<close>.\<close>

definition documentation_members :: "string list" where
  "documentation_members =
     [''init'', ''TRANSLATIONS'', ''PLURAL_EXPR'', ''LOCALE'', ''gettext'', ''ngettext'',
      ''addTranslations'', ''addContextElements'', ''fixFirefoxAnchorBug'', ''highlightSearchWords'',
      ''initIndexTable'', ''hideSearchWords'', ''makeURL'', ''getCurrentURL'', ''initOnKeyListeners'']"

definition PLURALEXPR :: "i18n \<Rightarrow> (int \<Rightarrow> int) option" where
  "PLURALEXPR st =
     (if ''PLURALEXPR'' \<in> set documentation_members then Some (PLURAL_EXPR st) else None)"

definition ngettext :: "i18n \<Rightarrow> string \<Rightarrow> string \<Rightarrow> int \<Rightarrow> query_error + string option" where
  "ngettext st singular plural n =
     (if obj_get (TRANSLATIONS st) singular = None \<and> singular \<notin> set object_prototype
      then Inr (Some (if n = 1 then singular else plural))
      else case PLURALEXPR st of
             None \<Rightarrow> Inl TypeError
           | Some f \<Rightarrow>
               Inr (case obj_get (TRANSLATIONS st) singular of
                      Some (Forms ts) \<Rightarrow> if 0 \<le> f n \<and> f n < int (length ts) then Some (ts ! nat (f n)) else None
                    | Some (One t) \<Rightarrow> if 0 \<le> f n \<and> f n < int (length t) then Some [t ! nat (f n)] else None
                    | None \<Rightarrow> None))"

text \<open>\<open>compile\<close> stands for \<open>new Function\<close>, \<open>None\<close> for the SyntaxError it may throw.\<close>

definition addTranslations ::
  "(string \<Rightarrow> (int \<Rightarrow> int) option) \<Rightarrow> catalog \<Rightarrow> i18n \<Rightarrow> i18n \<times> bool" where
  "addTranslations compile cat st =
     (let st1 = st\<lparr>TRANSLATIONS := fold (\<lambda>(k, v) t. obj_put t k v) (messages cat) (TRANSLATIONS st)\<rparr>
      in case compile (''return +('' @ plural_expr cat @ '')'') of
           None \<Rightarrow> (st1, False)
         | Some f \<Rightarrow> (st1\<lparr>PLURAL_EXPR := f, LOCALE := locale_name cat\<rparr>, True))"

section \<open>The index table\<close>

record toggler =
  img_id :: string
  img_src :: string
  img_shown :: bool

record index_table =
  togglers :: "toggler list"
  rows :: "(string \<times> bool) list"  \<comment> \<open>the number in the class \<open>cg-\<close>, and whether it is shown\<close>

definition idnum :: "toggler \<Rightarrow> string" where
  "idnum im = substr_from (img_id im) 7"

definition toggle_src :: "string \<Rightarrow> string" where
  "toggle_src src =
     (if substr_from src (-9) = ''minus.png''
      then substr src 0 (int (length src) - 9) @ ''plus.png''
      else substr src 0 (int (length src) - 8) @ ''minus.png'')"

definition toggle_rows :: "string \<Rightarrow> (string \<times> bool) list \<Rightarrow> (string \<times> bool) list" where
  "toggle_rows num rs = map (\<lambda>(k, vis). (k, if k = num then \<not> vis else vis)) rs"

definition click_toggler :: "nat \<Rightarrow> index_table \<Rightarrow> index_table" where
  "click_toggler i t =
     (let im = togglers t ! i
      in t\<lparr>togglers := (togglers t)[i := im\<lparr>img_src := toggle_src (img_src im)\<rparr>],
           rows := toggle_rows (idnum im) (rows t)\<rparr>)"

definition initIndexTable :: "bool \<Rightarrow> index_table \<Rightarrow> index_table" where
  "initIndexTable collapse_index t =
     (let t1 = t\<lparr>togglers := map (\<lambda>im. im\<lparr>img_shown := True\<rparr>) (togglers t)\<rparr>
      in if collapse_index then fold click_toggler [0 ..< length (togglers t1)] t1 else t1)"

section \<open>URLs\<close>

definition makeURL :: "string \<Rightarrow> string \<Rightarrow> string" where
  "makeURL url_root relativeURL = url_root @ ''/'' @ relativeURL"

text \<open>
  The callback of \<open>$.each\<close> sees each piece as \<open>this\<close>: outside strict mode an object that wraps the
  string, which is never \<open>===\<close> to a string.
\<close>

datatype this_value = Boxed string

fun this_is :: "this_value \<Rightarrow> string \<Rightarrow> bool" where
  "this_is (Boxed s) t = False"

fun pop_parts :: "string list \<Rightarrow> string list \<Rightarrow> string list" where
  "pop_parts [] parts = parts"
| "pop_parts (s # ss) parts =
     pop_parts ss (if this_is (Boxed s) ''..'' then butlast parts else parts)"

definition getCurrentURL :: "string \<Rightarrow> string \<Rightarrow> string" where
  "getCurrentURL url_root path =
     (let parts = pop_parts (split_char (CHR 0x2F) url_root) (split_char (CHR 0x2F) path);
          url = join ''/'' parts
      in substring path (last_index_of_char url (CHR 0x2F) + 1) (int (length path) - 1))"

section \<open>Keyboard navigation\<close>

definition go_to :: "string option \<Rightarrow> string option" where
  "go_to href = (if href = None \<or> href = Some '''' then None else href)"

text \<open>The address the key leads to; \<open>case 37\<close> has no \<open>break\<close>.\<close>

definition keyup :: "string \<Rightarrow> string option \<Rightarrow> string option \<Rightarrow> nat \<Rightarrow> string option" where
  "keyup activeElementType prevHref nextHref keyCode =
     (if activeElementType \<notin> {''TEXTAREA'', ''INPUT'', ''SELECT''}
      then if keyCode = 37 \<and> go_to prevHref \<noteq> None then go_to prevHref
           else if keyCode = 37 \<or> keyCode = 39 then go_to nextHref
           else None
      else None)"

section \<open>Facts\<close>

subsection \<open>Toggling\<close>

lemma toggle_src_minus: "toggle_src (b @ ''minus.png'') = b @ ''plus.png''"
  by (simp add: toggle_src_def substr_from_def substr_def)

lemma toggle_src_plus: "toggle_src (b @ ''plus.png'') = b @ ''minus.png''"
proof -
  have "substr_from (b @ ''plus.png'') (-9) \<noteq> ''minus.png''"
  proof (cases "length b")
    case 0
    then show ?thesis by (simp add: substr_from_def)
  next
    case (Suc n)
    then obtain d c where "b = d @ [c]" "length d = n" by (cases b rule: rev_cases) auto
    then show ?thesis by (simp add: substr_from_def)
  qed
  then show ?thesis by (simp add: toggle_src_def substr_def)
qed

definition opened :: "string \<Rightarrow> bool" where
  "opened src \<longleftrightarrow> suffix ''minus.png'' src"

definition a_button :: "string \<Rightarrow> bool" where
  "a_button src \<longleftrightarrow> suffix ''minus.png'' src \<or> suffix ''plus.png'' src"

lemma not_both: "\<not> (suffix ''minus.png'' s \<and> suffix ''plus.png'' s)"
proof
  assume "suffix ''minus.png'' s \<and> suffix ''plus.png'' s"
  then obtain a b where "s = a @ ''minus.png''" "s = b @ ''plus.png''" by (auto simp: suffix_def)
  then have "rev (a @ ''minus.png'') = rev (b @ ''plus.png'')" by simp
  then show False by simp
qed

lemma toggle_src_button:
  assumes "a_button src"
  shows "a_button (toggle_src src)" "opened (toggle_src src) \<longleftrightarrow> \<not> opened src"
    "toggle_src (toggle_src src) = src"
proof -
  consider b where "src = b @ ''minus.png''" | b where "src = b @ ''plus.png''"
    using assms by (auto simp: a_button_def suffix_def)
  then show "a_button (toggle_src src)" "opened (toggle_src src) \<longleftrightarrow> \<not> opened src"
      "toggle_src (toggle_src src) = src"
    by (cases; use not_both in \<open>force simp: toggle_src_minus toggle_src_plus a_button_def opened_def suffix_def\<close>)+
qed

text \<open>The table is in step: a row is shown exactly when the button of its group offers to close it.\<close>

definition in_step :: "index_table \<Rightarrow> bool" where
  "in_step t \<longleftrightarrow> distinct (map idnum (togglers t)) \<and> list_all (a_button \<circ> img_src) (togglers t) \<and>
     list_all (\<lambda>im. list_all (\<lambda>(k, vis). k = idnum im \<longrightarrow> vis = opened (img_src im)) (rows t)) (togglers t)"

lemma idnum_src [simp]: "idnum (im\<lparr>img_src := s\<rparr>) = idnum im" "idnum (im\<lparr>img_shown := b\<rparr>) = idnum im"
  by (simp_all add: idnum_def)

lemma in_step_click:
  assumes "in_step t" "i < length (togglers t)"
  shows "in_step (click_toggler i t)"
proof -
  let ?im = "togglers t ! i"
  let ?im' = "?im\<lparr>img_src := toggle_src (img_src ?im)\<rparr>"
  let ?t = "click_toggler i t"
  have im: "?im \<in> set (togglers t)" using assms(2) by simp
  have b: "a_button (img_src ?im)" using assms(1) im by (auto simp: in_step_def list_all_iff)
  have nums: "map idnum (togglers ?t) = map idnum (togglers t)"
    using assms(2) by (simp add: click_toggler_def Let_def map_update list_update_same_conv)
  have rows: "rows ?t = toggle_rows (idnum ?im) (rows t)" by (simp add: click_toggler_def Let_def)
  have tog: "togglers ?t = (togglers t)[i := ?im']" by (simp add: click_toggler_def Let_def)
  have one: "a_button (img_src m) \<and> (\<forall>(k, vis) \<in> set (rows ?t). k = idnum m \<longrightarrow> vis = opened (img_src m))"
    if "j < length (togglers t)" "m = togglers ?t ! j" for j m
  proof (cases "j = i")
    case True
    then have m: "m = ?im'" using that assms(2) tog by simp
    have "\<forall>(k, vis) \<in> set (rows t). k = idnum ?im \<longrightarrow> vis = opened (img_src ?im)"
      using assms(1) im by (auto simp: in_step_def list_all_iff)
    then show ?thesis using toggle_src_button[OF b] by (auto simp: m rows toggle_rows_def)
  next
    case False
    then have m: "m = togglers t ! j" using that tog by simp
    then have "m \<in> set (togglers t)" using that by simp
    then have old: "a_button (img_src m)" "\<forall>(k, vis) \<in> set (rows t). k = idnum m \<longrightarrow> vis = opened (img_src m)"
      using assms(1) by (auto simp: in_step_def list_all_iff)
    have "distinct (map idnum (togglers t))" using assms(1) by (simp add: in_step_def)
    then have "idnum m \<noteq> idnum ?im"
      using False that(1) m assms(2) nth_eq_iff_index_eq[of "map idnum (togglers t)" j i] by simp
    then show ?thesis using old by (auto simp: rows toggle_rows_def)
  qed
  have len: "length (togglers ?t) = length (togglers t)" by (simp add: tog)
  have "\<forall>m \<in> set (togglers ?t). a_button (img_src m) \<and>
      (\<forall>(k, vis) \<in> set (rows ?t). k = idnum m \<longrightarrow> vis = opened (img_src m))"
    using one len by (metis in_set_conv_nth)
  then show ?thesis using assms(1) nums by (simp add: in_step_def list_all_iff case_prod_unfold)
qed

lemma length_click [simp]: "length (togglers (click_toggler i t)) = length (togglers t)"
  by (simp add: click_toggler_def Let_def)

lemma in_step_clicks:
  "in_step t \<Longrightarrow> list_all (\<lambda>i. i < length (togglers t)) is \<Longrightarrow> in_step (fold click_toggler is t)"
  by (induction "is" arbitrary: t) (simp_all add: in_step_click)

lemma in_step_show:
  "in_step t \<Longrightarrow> in_step (t\<lparr>togglers := map (\<lambda>im. im\<lparr>img_shown := True\<rparr>) (togglers t)\<rparr>)"
  by (simp add: in_step_def list.pred_map comp_def)

lemma toggle_rows_twice: "toggle_rows k (toggle_rows k rs) = rs"
proof -
  have "(\<lambda>(j, vis). (j, if j = k then \<not> vis else vis)) ((\<lambda>(j, vis). (j, if j = k then \<not> vis else vis)) p) = p"
    for p :: "string \<times> bool" by (cases p) simp
  then show ?thesis by (simp add: toggle_rows_def comp_def)
qed

lemma click_twice:
  assumes "i < length (togglers t)" "a_button (img_src (togglers t ! i))"
  shows "click_toggler i (click_toggler i t) = t"
  using assms toggle_src_button(3)[OF assms(2)]
  by (simp add: click_toggler_def Let_def toggle_rows_twice)

section \<open>Properties\<close>

text \<open>
  Plural translations never work: once a catalogue translates a message, by one text or by a list of
  plural forms, \<open>ngettext\<close> for that message ends in a TypeError, because it calls a member the object
  does not have.
\<close>

lemma ngettext_translated_fails:
  assumes "addTranslations compile cat st = (st', ok)"
    and "obj_get (messages cat) singular = Some tr" and "distinct (obj_keys (messages cat))"
  shows "ngettext st' singular plural n = Inl TypeError"
proof -
  have "TRANSLATIONS st' = ob.puts (TRANSLATIONS st) (messages cat)"
    using assms(1) by (auto simp: addTranslations_def ob.puts_def Let_def case_prod_unfold split: option.splits)
  then have "obj_get (TRANSLATIONS st') singular = Some tr"
    using map_of_SomeD[of "messages cat" singular] assms(2,3)
    by (simp add: ob.get_puts map_add_Some_iff) (simp add: obj_get_def rev_map[symmetric])
  then show ?thesis
    by (simp add: ngettext_def PLURALEXPR_def documentation_members_def)
qed

text \<open>
  The buttons and rows of the domain index stay in step: a row is visible exactly when the
  button of its group shows the minus sign, after initialisation, collapsed or not, and after any
  click; clicking the same button twice restores the whole table.
\<close>

theorem index_table_in_step:
  assumes "in_step t" and "list_all (\<lambda>i. i < length (togglers t)) clicks"
  shows "in_step (fold click_toggler clicks (initIndexTable collapse_index t)) \<and>
    list_all (\<lambda>i. click_toggler i (click_toggler i t) = t) clicks"
proof
  let ?t1 = "t\<lparr>togglers := map (\<lambda>im. im\<lparr>img_shown := True\<rparr>) (togglers t)\<rparr>"
  have len: "length (togglers (fold click_toggler is s)) = length (togglers s)" for "is" s
    by (induction "is" arbitrary: s) simp_all
  have "in_step (initIndexTable collapse_index t)"
    using in_step_clicks[OF in_step_show[OF assms(1)], of "[0 ..< length (togglers ?t1)]"] in_step_show[OF assms(1)]
    by (simp add: initIndexTable_def Let_def list_all_iff)
  moreover have "length (togglers (initIndexTable collapse_index t)) = length (togglers t)"
    using len[of "[0 ..< length (togglers ?t1)]" ?t1] by (simp add: initIndexTable_def Let_def)
  ultimately show "in_step (fold click_toggler clicks (initIndexTable collapse_index t))"
    using assms(2) in_step_clicks by simp
  show "list_all (\<lambda>i. click_toggler i (click_toggler i t) = t) clicks"
    using assms click_twice by (simp add: list_all_iff in_step_def)
qed

definition sample_index :: index_table where
  "sample_index =
     \<lparr>togglers = [\<lparr>img_id = ''toggle-1'', img_src = ''_static/minus.png'', img_shown = False\<rparr>],
      rows = [(''1'', True), (''1'', True)]\<rparr>"

theorem index_table_in_step_witness:
  "in_step (fold click_toggler [0, 0, 0] (initIndexTable True sample_index))"
proof -
  have "in_step sample_index"
    by (simp add: in_step_def sample_index_def idnum_def substr_from_def a_button_def opened_def suffix_def)
  moreover have "list_all (\<lambda>i. i < length (togglers sample_index)) [0, 0, 0]" by (simp add: sample_index_def)
  ultimately show ?thesis using index_table_in_step[of sample_index "[0, 0, 0]" True] by blast
qed

text \<open>
  \<open>getCurrentURL\<close> never pops a part, so it ignores \<open>URL_ROOT\<close>.
\<close>

lemma pop_parts_none: "pop_parts ss parts = parts"
  by (induction ss arbitrary: parts) auto

lemma getCurrentURL_ignores_root: "getCurrentURL url_root path = getCurrentURL [] path"
  by (simp add: getCurrentURL_def pop_parts_none)

text \<open>Without a previous page the left arrow key leads to the next one.\<close>

lemma left_key_goes_forward:
  "go_to (Some n) = Some n \<Longrightarrow> keyup ''BODY'' None (Some n) 37 = Some n"
  by (simp add: keyup_def go_to_def)

end
