(* ===== verification/JqClass.thy ===== *)
theory JqClass
  imports JsLib
begin

text \<open>
  Class attributes in \<open>jquery.js\<close>: \<open>addClass\<close>, \<open>removeClass\<close>, \<open>toggleClass\<close> and \<open>hasClass\<close> work on
  the text of the \<open>class\<close> attribute.  The theory shows that they implement an ordered set of
  tokens.
\<close>

section \<open>Tokens of an attribute\<close>

definition html_space :: "char \<Rightarrow> bool" where
  "html_space c \<longleftrightarrow> c \<in> {CHR 0x20, CHR 0x09, CHR 0x0D, CHR 0x0A, CHR 0x0C}"

text \<open>\<open>value.match(/[^\x20\t\r\n\f]+/g) || []\<close>.\<close>

fun tokens_loop :: "string \<Rightarrow> string \<Rightarrow> string list" where
  "tokens_loop cur [] = (if cur = [] then [] else [cur])"
| "tokens_loop cur (c # s) =
     (if html_space c then (if cur = [] then [] else [cur]) @ tokens_loop [] s
      else tokens_loop (cur @ [c]) s)"

definition rnothtmlwhite :: "string \<Rightarrow> string list" where
  "rnothtmlwhite v = tokens_loop [] v"

definition stripAndCollapse :: "string \<Rightarrow> string" where
  "stripAndCollapse v = join '' '' (rnothtmlwhite v)"

section \<open>Elements\<close>

record class_node =
  node_type :: nat
  class_attr :: "string option"
  saved_name :: "string option"  \<comment> \<open>\<open>__className__\<close> in \<open>dataPriv\<close>\<close>

definition getClass :: "class_node \<Rightarrow> string" where
  "getClass e = (case class_attr e of None \<Rightarrow> '''' | Some s \<Rightarrow> s)"

definition padded :: "string \<Rightarrow> string" where
  "padded v = '' '' @ stripAndCollapse v @ '' ''"

definition set_if_changed :: "class_node \<Rightarrow> string \<Rightarrow> class_node" where
  "set_if_changed e cur =
     (let finalValue = stripAndCollapse cur
      in if getClass e \<noteq> finalValue then e\<lparr>class_attr := Some finalValue\<rparr> else e)"

text \<open>The argument: a string, a function of index and current value, nothing, or a boolean.\<close>

datatype class_value =
    StrValue string
  | FunValue "nat \<Rightarrow> string \<Rightarrow> string"
  | NoValue
  | BoolValue bool

fun each_from :: "nat \<Rightarrow> (nat \<Rightarrow> 'a \<Rightarrow> 'a) \<Rightarrow> 'a list \<Rightarrow> 'a list" where
  "each_from i f [] = []"
| "each_from i f (e # es) = f i e # each_from (Suc i) f es"

section \<open>Adding\<close>

fun add_loop :: "string list \<Rightarrow> string \<Rightarrow> string" where
  "add_loop [] cur = cur"
| "add_loop (clazz # classes) cur =
     add_loop classes
       (if str_index_of cur ('' '' @ clazz @ '' '') < 0 then cur @ clazz @ '' '' else cur)"

definition add_to :: "string \<Rightarrow> class_node \<Rightarrow> class_node" where
  "add_to value e =
     (if value \<noteq> '''' \<and> node_type e = 1
      then set_if_changed e (add_loop (rnothtmlwhite value) (padded (getClass e)))
      else e)"

fun addClass :: "class_value \<Rightarrow> class_node list \<Rightarrow> class_node list" where
  "addClass (FunValue f) es = each_from 0 (\<lambda>j e. add_to (f j (getClass e)) e) es"
| "addClass (StrValue v) es = map (add_to v) es"
| "addClass _ es = es"

section \<open>Removing\<close>

text \<open>\<open>cur.replace(p, r)\<close> for a string \<open>p\<close>.\<close>

definition replace_first :: "'a list \<Rightarrow> 'a list \<Rightarrow> 'a list \<Rightarrow> 'a list" where
  "replace_first p r s =
     (case find_sub p s of None \<Rightarrow> s | Some i \<Rightarrow> take i s @ r @ drop (i + length p) s)"

lemma replace_first_shorter:
  assumes "str_index_of s p > -1" "length r < length p"
  shows "length (replace_first p r s) < length s"
proof -
  obtain i where i: "find_sub p s = Some i"
    using assms(1) by (auto simp: str_index_of_def split: option.splits)
  then have "i + length p \<le> length s"
    using prefix_length_le[of p "drop i s"] by (auto simp: find_sub_Some)
  with i assms(2) show ?thesis by (simp add: replace_first_def)
qed

function remove_all :: "string \<Rightarrow> string \<Rightarrow> string" where
  "remove_all clazz cur =
     (if str_index_of cur ('' '' @ clazz @ '' '') > -1
      then remove_all clazz (replace_first ('' '' @ clazz @ '' '') '' '' cur)
      else cur)"
  by pat_completeness auto
termination
  by (relation "measure (length \<circ> snd)") (use replace_first_shorter in \<open>fastforce\<close>)+

declare remove_all.simps [simp del]

fun remove_loop :: "string list \<Rightarrow> string \<Rightarrow> string" where
  "remove_loop [] cur = cur"
| "remove_loop (clazz # classes) cur = remove_loop classes (remove_all clazz cur)"

definition remove_from :: "string \<Rightarrow> class_node \<Rightarrow> class_node" where
  "remove_from value e =
     (if value \<noteq> '''' \<and> node_type e = 1
      then set_if_changed e (remove_loop (rnothtmlwhite value) (padded (getClass e)))
      else e)"

text \<open>Without an argument \<open>removeClass\<close> is \<open>attr("class", "")\<close>, which skips other node types.\<close>

fun removeClass :: "class_value option \<Rightarrow> class_node list \<Rightarrow> class_node list" where
  "removeClass None es =
     map (\<lambda>e. if node_type e \<in> {3, 8, 2} then e else e\<lparr>class_attr := Some ''''\<rparr>) es"
| "removeClass (Some (FunValue f)) es = each_from 0 (\<lambda>j e. remove_from (f j (getClass e)) e) es"
| "removeClass (Some (StrValue v)) es = map (remove_from v) es"
| "removeClass (Some _) es = es"

section \<open>Asking\<close>

definition hasClass :: "string \<Rightarrow> class_node list \<Rightarrow> bool" where
  "hasClass selector es \<longleftrightarrow>
     (\<exists>e \<in> set es. node_type e = 1 \<and>
        str_index_of (padded (getClass e)) ('' '' @ selector @ '' '') > -1)"

section \<open>Toggling\<close>

fun toggle_names :: "string list \<Rightarrow> class_node \<Rightarrow> class_node" where
  "toggle_names [] e = e"
| "toggle_names (className # r) e =
     toggle_names r (if hasClass className [e] then remove_from className e else add_to className e)"

definition toggle_whole :: "class_value \<Rightarrow> class_node \<Rightarrow> class_node" where
  "toggle_whole value e =
     (let className = getClass e;
          e' = (if className \<noteq> '''' then e\<lparr>saved_name := Some className\<rparr> else e)
      in if node_type e = 1
         then e'\<lparr>class_attr := Some (if className \<noteq> '''' \<or> value = BoolValue False then ''''
                                   else case saved_name e' of None \<Rightarrow> '''' | Some s \<Rightarrow> s)\<rparr>
         else e')"

fun toggle_one :: "class_value \<Rightarrow> class_node \<Rightarrow> class_node" where
  "toggle_one (StrValue v) e = toggle_names (rnothtmlwhite v) e"
| "toggle_one (FunValue f) e = e"
| "toggle_one value e = toggle_whole value e"

fun toggleClass :: "class_value \<Rightarrow> bool option \<Rightarrow> class_node list \<Rightarrow> class_node list" where
  "toggleClass (StrValue v) (Some b) es =
     (if b then addClass (StrValue v) es else removeClass (Some (StrValue v)) es)"
| "toggleClass (FunValue f) None es =
     each_from 0 (\<lambda>i e. toggle_one (StrValue (f i (getClass e))) e) es"
| "toggleClass (FunValue f) (Some b) es =
     each_from 0 (\<lambda>i e. if b then add_to (f i (getClass e)) e else remove_from (f i (getClass e)) e) es"
| "toggleClass value stateVal es = map (toggle_one value) es"

section \<open>Padded token lists\<close>

definition token :: "string \<Rightarrow> bool" where
  "token t \<longleftrightarrow> t \<noteq> [] \<and> list_all (\<lambda>c. \<not> html_space c) t"

fun pad :: "string list \<Rightarrow> string" where
  "pad [] = '' ''"
| "pad (t # ts) = CHR 0x20 # t @ pad ts"

definition spaced :: "nat \<Rightarrow> string list \<Rightarrow> string" where
  "spaced n ts = replicate n (CHR 0x20) @ pad ts"

lemma html_space_blank [simp]: "html_space (CHR 0x20)"
  by (simp add: html_space_def)

lemma token_no_blank: "token t \<Longrightarrow> CHR 0x20 \<notin> set t"
  using html_space_blank unfolding token_def list_all_iff by blast

lemma tokens_loop_word:
  "list_all (\<lambda>c. \<not> html_space c) t \<Longrightarrow> tokens_loop cur (t @ s) = tokens_loop (cur @ t) s"
  by (induction t arbitrary: cur) auto

lemma tokens_loop_token:
  "list_all (\<lambda>c. \<not> html_space c) cur \<Longrightarrow> t \<in> set (tokens_loop cur s) \<Longrightarrow> token t"
  by (induction cur s rule: tokens_loop.induct) (auto simp: token_def split: if_splits)

lemma tokens_are_tokens [simp]: "list_all token (rnothtmlwhite v)"
  by (auto simp: list_all_iff rnothtmlwhite_def intro: tokens_loop_token[of "[]"])

lemma tokens_of_pad: "list_all token ts \<Longrightarrow> tokens_loop [] (pad ts) = ts"
proof (induction ts)
  case (Cons t ts)
  obtain w where w: "pad ts = CHR 0x20 # w" by (cases ts) auto
  have "tokens_loop [] (pad (t # ts)) = tokens_loop t (pad ts)"
    using Cons.prems tokens_loop_word[of t "[]" "pad ts"] by (simp add: token_def)
  also have "\<dots> = t # tokens_loop [] w" using w Cons.prems by (simp add: token_def)
  also have "tokens_loop [] w = tokens_loop [] (pad ts)" using w by simp
  finally show ?case using Cons by simp
qed simp

lemma tokens_of_spaced: "list_all token ts \<Longrightarrow> rnothtmlwhite (spaced n ts) = ts"
  by (induction n) (simp_all add: rnothtmlwhite_def spaced_def tokens_of_pad)

lemma pad_join: "ts \<noteq> [] \<Longrightarrow> CHR 0x20 # join '' '' ts @ '' '' = pad ts"
  by (induction ts rule: induct_list012) auto

lemma padded_spaced:
  "padded v = spaced (if rnothtmlwhite v = [] then 1 else 0) (rnothtmlwhite v)"
  by (simp add: padded_def stripAndCollapse_def spaced_def pad_join)

lemma tokens_of_join: "list_all token ts \<Longrightarrow> rnothtmlwhite (join '' '' ts) = ts"
proof (induction ts rule: induct_list012)
  case (2 t)
  then show ?case using tokens_loop_word[of t "[]" "[]"] by (simp add: rnothtmlwhite_def token_def)
next
  case (3 t u ts)
  then show ?case using tokens_loop_word[of t "[]" "CHR 0x20 # join '' '' (u # ts)"]
    by (simp add: rnothtmlwhite_def token_def)
qed (simp add: rnothtmlwhite_def)

subsection \<open>Searching them\<close>

lemma prefix_blank_iff:
  "CHR 0x20 \<notin> set c \<Longrightarrow> CHR 0x20 \<notin> set t \<Longrightarrow> prefix (c @ [CHR 0x20]) (t @ CHR 0x20 # w) \<longleftrightarrow> c = t"
proof (induction c arbitrary: t)
  case Nil
  then show ?case by (cases t) auto
next
  case (Cons x c)
  then show ?case by (cases t) auto
qed

lemma find_sub_skip:
  "CHR 0x20 \<notin> set t \<Longrightarrow>
     find_sub (CHR 0x20 # p) (t @ s) = map_option (\<lambda>i. length t + i) (find_sub (CHR 0x20 # p) s)"
proof (induction t)
  case Nil
  then show ?case by (cases "find_sub (CHR 0x20 # p) s") auto
next
  case (Cons a t)
  then show ?case by (cases "find_sub (CHR 0x20 # p) s") auto
qed

lemma find_in_pad:
  assumes "token c" "token t"
  shows "find_sub (CHR 0x20 # c @ '' '') (pad (t # ts)) =
    (if c = t then Some 0
     else map_option (\<lambda>i. Suc (length t + i)) (find_sub (CHR 0x20 # c @ '' '') (pad ts)))"
proof -
  obtain w where w: "pad ts = CHR 0x20 # w" by (cases ts) auto
  have "is_prefix (CHR 0x20 # c @ '' '') (CHR 0x20 # t @ pad ts) \<longleftrightarrow> c = t"
    using prefix_blank_iff[OF token_no_blank token_no_blank, OF assms] w
    by (simp add: is_prefix_prefix)
  then show ?thesis
    using find_sub_skip[OF token_no_blank[OF assms(2)], of "c @ '' ''" "pad ts"]
    by (simp add: option.map_comp comp_def)
qed

lemma find_in_blank: "token c \<Longrightarrow> find_sub (CHR 0x20 # c @ '' '') '' '' = None"
  by (cases c) (auto simp: token_def)

lemma find_in_spaced:
  "token c \<Longrightarrow> find_sub (CHR 0x20 # c @ '' '') (spaced n ts) =
     map_option (\<lambda>i. n + i) (find_sub (CHR 0x20 # c @ '' '') (pad ts))"
proof (induction n)
  case 0
  then show ?case by (simp add: spaced_def option.map_ident)
next
  case (Suc n)
  obtain w where w: "spaced n ts = CHR 0x20 # w" by (cases n; cases ts) (auto simp: spaced_def)
  obtain x c' where c: "c = x # c'" "CHR 0x20 \<noteq> x"
    using Suc.prems token_no_blank[of c] by (cases c) (simp_all add: token_def)
  have "\<not> is_prefix (CHR 0x20 # c @ '' '') (CHR 0x20 # spaced n ts)" using c w by simp
  moreover have "spaced (Suc n) ts = CHR 0x20 # spaced n ts" by (simp add: spaced_def)
  ultimately show ?case using Suc by (simp add: option.map_comp comp_def)
qed

text \<open>A token is found iff it is in the list, and the first occurrence is the one found.\<close>

lemma find_pad_None:
  "token c \<Longrightarrow> list_all token ts \<Longrightarrow>
     find_sub (CHR 0x20 # c @ '' '') (pad ts) = None \<longleftrightarrow> c \<notin> set ts"
  by (induction ts) (auto simp: find_in_pad find_in_blank simp del: pad.simps(2) find_sub.simps(2))

lemma spaced_contains:
  assumes "token c" "list_all token ts"
  shows "str_index_of (spaced n ts) ('' '' @ c @ '' '') > -1 \<longleftrightarrow> c \<in> set ts"
    and "str_index_of (spaced n ts) ('' '' @ c @ '' '') < 0 \<longleftrightarrow> c \<notin> set ts"
  using find_in_spaced[OF assms(1), of n ts] find_pad_None[OF assms]
  by (cases "find_sub (CHR 0x20 # c @ '' '') (pad ts)"; force simp: str_index_of_def)+

lemma replace_in_pad:
  "token c \<Longrightarrow> list_all token ts \<Longrightarrow> find_sub (CHR 0x20 # c @ '' '') (pad ts) = Some i \<Longrightarrow>
     take i (pad ts) @ '' '' @ drop (i + length (CHR 0x20 # c @ '' '')) (pad ts) = pad (remove1 c ts)"
proof (induction ts arbitrary: i)
  case Nil
  then show ?case by (simp add: find_in_blank del: find_sub.simps)
next
  case (Cons t ts)
  show ?case
  proof (cases "c = t")
    case True
    obtain w where w: "pad ts = CHR 0x20 # w" by (cases ts) auto
    have "i = 0" using True Cons.prems by (simp add: find_in_pad del: find_sub.simps pad.simps)
    with True w show ?thesis by simp
  next
    case False
    then obtain j where "find_sub (CHR 0x20 # c @ '' '') (pad ts) = Some j" "i = Suc (length t + j)"
      using Cons.prems by (auto simp: find_in_pad simp del: pad.simps(2) find_sub.simps)
    with False Cons show ?thesis by simp
  qed
qed

lemma replace_in_spaced:
  assumes "token c" "list_all token ts" "c \<in> set ts"
  shows "replace_first ('' '' @ c @ '' '') '' '' (spaced n ts) = spaced n (remove1 c ts)"
proof -
  obtain i where i: "find_sub (CHR 0x20 # c @ '' '') (pad ts) = Some i"
    using find_pad_None[OF assms(1,2)] assms(3) by fastforce
  have "find_sub (CHR 0x20 # c @ '' '') (spaced n ts) = Some (n + i)"
    using find_in_spaced[OF assms(1), of n ts] i by simp
  then have "replace_first ('' '' @ c @ '' '') '' '' (spaced n ts) =
      replicate n (CHR 0x20) @
        take i (pad ts) @ '' '' @ drop (i + length (CHR 0x20 # c @ '' '')) (pad ts)"
    by (simp add: replace_first_def spaced_def)
  then show ?thesis using replace_in_pad[OF assms(1,2) i] by (simp add: spaced_def)
qed

section \<open>The loops on token lists\<close>

definition add_token :: "string \<Rightarrow> string list \<Rightarrow> string list" where
  "add_token c ts = (if c \<in> set ts then ts else ts @ [c])"

lemma pad_snoc: "pad ts @ c @ '' '' = pad (ts @ [c])"
  by (induction ts) auto

lemma list_all_add_token: "token c \<Longrightarrow> list_all token ts \<Longrightarrow> list_all token (add_token c ts)"
  by (simp add: add_token_def)

lemma add_loop_spaced:
  "list_all token cs \<Longrightarrow> list_all token ts \<Longrightarrow>
     add_loop cs (spaced n ts) = spaced n (fold add_token cs ts)"
proof (induction cs arbitrary: ts)
  case (Cons c cs)
  have snoc: "spaced n ts @ c @ '' '' = spaced n (ts @ [c])"
    using pad_snoc[of ts c] by (simp add: spaced_def)
  have "add_loop (c # cs) (spaced n ts) = add_loop cs (spaced n (add_token c ts))"
    using Cons.prems spaced_contains(2)[of c ts n] snoc by (auto simp: add_token_def)
  also have "\<dots> = spaced n (fold add_token cs (add_token c ts))"
    using Cons list_all_add_token[of c ts] by simp
  finally show ?case by simp
qed simp

lemma list_all_remove1: "list_all P ts \<Longrightarrow> list_all P (remove1 c ts)"
  by (simp add: list_all_iff notin_set_remove1) (metis notin_set_remove1)

lemma filter_remove1_self: "filter (\<lambda>t. t \<noteq> c) (remove1 c ts) = filter (\<lambda>t. t \<noteq> c) ts"
  by (induction ts) auto

lemma remove_all_spaced:
  "token c \<Longrightarrow> list_all token ts \<Longrightarrow>
     remove_all c (spaced n ts) = spaced n (filter (\<lambda>t. t \<noteq> c) ts)"
proof (induction "length ts" arbitrary: ts rule: less_induct)
  case less
  show ?case
  proof (cases "c \<in> set ts")
    case True
    then have "length (remove1 c ts) < length ts" using length_pos_if_in_set[of c ts] by (simp add: length_remove1)
    then have "remove_all c (spaced n (remove1 c ts)) = spaced n (filter (\<lambda>t. t \<noteq> c) ts)"
      using less list_all_remove1 filter_remove1_self by metis
    then show ?thesis
      using True less.prems spaced_contains(1)[of c ts n] replace_in_spaced[of c ts n]
      by (subst remove_all.simps) simp
  next
    case False
    then have "filter (\<lambda>t. t \<noteq> c) ts = ts" by (auto intro: filter_True)
    with False show ?thesis
      using less.prems spaced_contains(1)[of c ts n] by (subst remove_all.simps) simp
  qed
qed

lemma remove_loop_spaced:
  "list_all token cs \<Longrightarrow> list_all token ts \<Longrightarrow>
     remove_loop cs (spaced n ts) = spaced n (filter (\<lambda>t. t \<notin> set cs) ts)"
proof (induction cs arbitrary: ts)
  case (Cons c cs)
  have "list_all token (filter (\<lambda>t. t \<noteq> c) ts)" using Cons.prems by (auto simp: list_all_iff)
  moreover have "filter (\<lambda>t. t \<notin> set cs) (filter (\<lambda>t. t \<noteq> c) ts) = filter (\<lambda>t. t \<notin> set (c # cs)) ts"
    by (simp add: conj_commute)
  ultimately show ?case using Cons remove_all_spaced[of c ts n] by simp
qed simp

section \<open>Tokens of an element\<close>

definition class_tokens :: "class_node \<Rightarrow> string list" where
  "class_tokens e = rnothtmlwhite (getClass e)"

lemma class_tokens_all [simp]: "list_all token (class_tokens e)"
  by (simp add: class_tokens_def)

lemma class_tokens_set_if_changed:
  "class_tokens (set_if_changed e cur) = rnothtmlwhite cur"
proof (cases "getClass e = stripAndCollapse cur")
  case True
  then show ?thesis
    using tokens_of_join[of "rnothtmlwhite cur"]
    by (simp add: set_if_changed_def class_tokens_def stripAndCollapse_def)
next
  case False
  then show ?thesis
    using tokens_of_join[of "rnothtmlwhite cur"]
    by (simp add: set_if_changed_def class_tokens_def getClass_def stripAndCollapse_def)
qed

lemma node_type_set_if_changed [simp]: "node_type (set_if_changed e cur) = node_type e"
  by (simp add: set_if_changed_def Let_def)

lemma fold_add_tokens:
  "list_all token cs \<Longrightarrow> list_all token ts \<Longrightarrow> list_all token (fold add_token cs ts)"
  by (induction cs arbitrary: ts) (auto simp: list_all_add_token)

lemma class_tokens_add:
  assumes "node_type e = 1"
  shows "class_tokens (add_to v e) = fold add_token (rnothtmlwhite v) (class_tokens e)"
proof (cases "v = ''''")
  case True
  then show ?thesis by (simp add: add_to_def rnothtmlwhite_def)
next
  case False
  then have "class_tokens (add_to v e) = rnothtmlwhite (add_loop (rnothtmlwhite v) (padded (getClass e)))"
    using assms by (simp add: add_to_def class_tokens_set_if_changed)
  then show ?thesis
    by (simp add: padded_spaced add_loop_spaced tokens_of_spaced fold_add_tokens class_tokens_def)
qed

lemma list_all_filter: "list_all P xs \<Longrightarrow> list_all P (filter Q xs)"
  by (auto simp: list_all_iff)

lemma class_tokens_remove:
  assumes "node_type e = 1"
  shows "class_tokens (remove_from v e) =
    filter (\<lambda>t. t \<notin> set (rnothtmlwhite v)) (class_tokens e)"
proof (cases "v = ''''")
  case True
  then show ?thesis by (simp add: remove_from_def rnothtmlwhite_def)
next
  case False
  then have "class_tokens (remove_from v e) =
      rnothtmlwhite (remove_loop (rnothtmlwhite v) (padded (getClass e)))"
    using assms by (simp add: remove_from_def class_tokens_set_if_changed)
  then show ?thesis
    by (simp add: padded_spaced remove_loop_spaced tokens_of_spaced list_all_filter class_tokens_def)
qed

lemma set_fold_add_token: "set (fold add_token cs ts) = set ts \<union> set cs"
  by (induction cs arbitrary: ts) (auto simp: add_token_def)

lemma hasClass_token:
  assumes "token c"
  shows "hasClass c es \<longleftrightarrow> (\<exists>e \<in> set es. node_type e = 1 \<and> c \<in> set (class_tokens e))"
  using spaced_contains(1)[OF assms] by (simp add: hasClass_def padded_spaced class_tokens_def)

lemma tokens_of_token: "token c \<Longrightarrow> rnothtmlwhite c = [c]"
  using tokens_of_join[of "[c]"] by simp

section \<open>A set of names behind add, remove and test\<close>

locale name_set =
  fixes ok :: "'e \<Rightarrow> bool"
    and nm :: "'c \<Rightarrow> bool"
    and add :: "'c \<Rightarrow> 'e \<Rightarrow> 'e"
    and rm :: "'c \<Rightarrow> 'e \<Rightarrow> 'e"
    and has :: "'c \<Rightarrow> 'e \<Rightarrow> bool"
  assumes ok_add: "ok e \<Longrightarrow> ok (add c e)"
    and ok_rm: "ok e \<Longrightarrow> ok (rm c e)"
    and has_add: "ok e \<Longrightarrow> nm c \<Longrightarrow> nm d \<Longrightarrow> has d (add c e) \<longleftrightarrow> d = c \<or> has d e"
    and has_rm: "ok e \<Longrightarrow> nm c \<Longrightarrow> nm d \<Longrightarrow> has d (rm c e) \<longleftrightarrow> d \<noteq> c \<and> has d e"
begin

definition toggle :: "'c \<Rightarrow> 'e \<Rightarrow> 'e" where
  "toggle c e = (if has c e then rm c e else add c e)"

lemma ok_toggle: "ok e \<Longrightarrow> ok (toggle c e)"
  by (simp add: toggle_def ok_add ok_rm)

lemma has_toggle: "ok e \<Longrightarrow> nm c \<Longrightarrow> nm d \<Longrightarrow> has d (toggle c e) \<longleftrightarrow> (d = c) \<noteq> has d e"
  by (auto simp: toggle_def has_add has_rm)

lemma toggle_twice: "ok e \<Longrightarrow> nm c \<Longrightarrow> nm d \<Longrightarrow> has d (toggle c (toggle c e)) \<longleftrightarrow> has d e"
  by (auto simp: has_toggle ok_toggle)

lemma rm_add: "ok e \<Longrightarrow> nm c \<Longrightarrow> nm d \<Longrightarrow> \<not> has c e \<Longrightarrow> has d (rm c (add c e)) \<longleftrightarrow> has d e"
  by (auto simp: has_add has_rm ok_add)

end

lemma node_type_add [simp]: "node_type (add_to v e) = node_type e"
  by (simp add: add_to_def)

lemma node_type_remove [simp]: "node_type (remove_from v e) = node_type e"
  by (simp add: remove_from_def)

interpretation cls: name_set "\<lambda>e :: class_node. node_type e = 1" token add_to remove_from "\<lambda>c e. hasClass c [e]"
proof unfold_locales
  fix e :: class_node and c d
  assume e: "node_type e = 1" and c: "token c" and d: "token d"
  show "hasClass d [add_to c e] \<longleftrightarrow> d = c \<or> hasClass d [e]"
    using e by (auto simp: hasClass_token[OF d] class_tokens_add add_token_def tokens_of_token[OF c])
  show "hasClass d [remove_from c e] \<longleftrightarrow> d \<noteq> c \<and> hasClass d [e]"
    using e by (auto simp: hasClass_token[OF d] class_tokens_remove tokens_of_token[OF c])
qed simp_all

lemma toggle_names_token:
  "token c \<Longrightarrow> toggle_one (StrValue c) e = cls.toggle c e"
  by (simp add: tokens_of_token cls.toggle_def)

section \<open>Properties\<close>

text \<open>
  C32. The operations on the text of the \<open>class\<close> attribute refine operations on its token list:
  \<open>addClass\<close> appends the names that are absent, in order; \<open>removeClass\<close> keeps the tokens that are
  not named, in order and however often they occur; \<open>hasClass\<close> is membership.
\<close>

theorem class_text_refines_tokens:
  assumes "list_all (\<lambda>e. node_type e = 1) es" and "token c"
  shows "map class_tokens (addClass (StrValue v) es) =
           map (\<lambda>e. fold add_token (rnothtmlwhite v) (class_tokens e)) es \<and>
         map class_tokens (removeClass (Some (StrValue v)) es) =
           map (\<lambda>e. filter (\<lambda>t. t \<notin> set (rnothtmlwhite v)) (class_tokens e)) es \<and>
         (hasClass c es \<longleftrightarrow> c \<in> (\<Union>e \<in> set es. set (class_tokens e)))"
  using assms(1)
  by (auto simp: class_tokens_add class_tokens_remove hasClass_token[OF assms(2)] list_all_iff)

definition sample_node :: class_node where
  "sample_node = \<lparr>node_type = 1, class_attr = Some ''a b  a'', saved_name = None\<rparr>"

theorem class_text_refines_tokens_witness:
  "map class_tokens (removeClass (Some (StrValue ''a'')) [sample_node]) = [[''b'']]
   \<and> hasClass ''b'' [sample_node]"
proof -
  have s: "list_all (\<lambda>e. node_type e = 1) [sample_node]" and t: "token ''b''"
    by (simp_all add: sample_node_def token_def html_space_def)
  have toks: "class_tokens sample_node = [''a'', ''b'', ''a'']"
    by (simp add: class_tokens_def sample_node_def getClass_def rnothtmlwhite_def html_space_def)
  show ?thesis
    using class_text_refines_tokens[OF s t, of "''a''"]
    by (simp add: toks rnothtmlwhite_def html_space_def)
qed

text \<open>
  Toggling a class name flips the answer of \<open>hasClass\<close> for that name only, and toggling it
  twice leaves every answer as it was.  Removing a name just added undoes the addition.
\<close>

theorem toggleClass_involution:
  assumes "node_type e = 1" and "token c" and "token d"
  shows "(hasClass d (toggleClass (StrValue c) None [e]) \<longleftrightarrow> (d = c) \<noteq> hasClass d [e]) \<and>
    (hasClass d (toggleClass (StrValue c) None (toggleClass (StrValue c) None [e])) \<longleftrightarrow>
       hasClass d [e]) \<and>
    (\<not> hasClass c [e] \<longrightarrow>
       hasClass d (removeClass (Some (StrValue c)) (addClass (StrValue c) [e])) = hasClass d [e])"
  using cls.has_toggle[OF assms] cls.toggle_twice[OF assms] cls.rm_add[OF assms]
  by (simp add: toggle_names_token[OF assms(2)] del: toggle_one.simps)

theorem toggleClass_involution_witness:
  "hasClass ''a'' (toggleClass (StrValue ''a'') None (toggleClass (StrValue ''a'') None [sample_node]))
     = hasClass ''a'' [sample_node]"
proof -
  have "node_type sample_node = 1" "token ''a''" by (simp_all add: sample_node_def token_def html_space_def)
  then show ?thesis using toggleClass_involution[of sample_node "''a''" "''a''"] by blast
qed

end
