(* ===== verification/DocHighlight.thy ===== *)
theory DocHighlight
  imports JqClass
begin

text \<open>
  \<open>$.fn.highlightText\<close> in \<open>doctools.js\<close> on a document tree.  The walk visits the children of an
  element by index, up to the number of children there were at the start, while marking an
  occurrence inserts two nodes behind the one being visited.
\<close>

section \<open>Documents\<close>

datatype node =
    TextN string
  | OtherN
  | ElemN nat (node_tag: string) (class_text: string) (geometry: "int list") (child_nodes: "node list")

definition class_elem :: "string \<Rightarrow> class_node" where
  "class_elem c = \<lparr>node_type = 1, class_attr = Some c, saved_name = None\<rparr>"

text \<open>\<open>closest("body, svg, foreignObject").is("svg")\<close>, maintained on the way down.\<close>

definition enter_svg :: "bool \<Rightarrow> string \<Rightarrow> bool" where
  "enter_svg svg tag =
     (if tag = ''svg'' then True else if tag \<in> {''body'', ''foreignObject''} then False else svg)"

text \<open>
  What is looked for, the class of the marks, and the layout engine's \<open>getBBox\<close> (not part of the
  program) for the element with a given number.
\<close>

record highlighter =
  hl_text :: string
  hl_class :: string
  hl_bbox :: "nat \<Rightarrow> int list"

record walk =
  next_id :: nat
  add_items :: "(nat \<times> node) list"

section \<open>The walk\<close>

fun weight :: "node \<Rightarrow> nat" where
  "weight (TextN s) = 1"
| "weight OtherN = 1"
| "weight (ElemN i tag c g ks) = 1 + sum_list (map weight ks)"

definition skipped :: "string \<Rightarrow> bool" where
  "skipped tag \<longleftrightarrow> tag \<in> {''button'', ''select'', ''textarea''}"

definition matches_at :: "highlighter \<Rightarrow> string \<Rightarrow> string \<Rightarrow> int" where
  "matches_at h parent_class val =
     (if hasClass (hl_class h) [class_elem parent_class] then -1
      else str_index_of (to_lower val) (hl_text h))"

definition make_span :: "highlighter \<Rightarrow> bool \<Rightarrow> string \<Rightarrow> nat \<Rightarrow> walk \<Rightarrow> node" where
  "make_span h svg val p w =
     (let t = TextN (substr val (int p) (int (length (hl_text h))))
      in if svg then ElemN (next_id w) ''tspan'' '''' [] [t]
         else ElemN (next_id w) ''span'' (hl_class h) [] [t])"

definition note_span :: "highlighter \<Rightarrow> bool \<Rightarrow> nat \<Rightarrow> walk \<Rightarrow> walk" where
  "note_span h svg parent w =
     (if svg
      then w\<lparr>next_id := next_id w + 2,
             add_items := add_items w @
               [(parent, ElemN (next_id w + 1) ''rect'' (hl_class h) (hl_bbox h (next_id w)) [])]\<rparr>
      else w\<lparr>next_id := next_id w + 1\<rparr>)"

text \<open>
  \<open>visit h svg parent class todo rest w\<close>: the children still within the cached length are \<open>todo\<close>,
  the others \<open>rest\<close>.
\<close>

function visit ::
  "highlighter \<Rightarrow> bool \<Rightarrow> nat \<Rightarrow> string \<Rightarrow> node list \<Rightarrow> node list \<Rightarrow> walk \<Rightarrow> node list \<times> walk" where
  "visit h svg par pc [] rest w = (rest, w)"
| "visit h svg par pc (OtherN # todo) rest w =
     (case visit h svg par pc todo rest w of (out, w') \<Rightarrow> (OtherN # out, w'))"
| "visit h svg par pc (TextN val # todo) rest w =
     (let pos = matches_at h pc val; p = nat pos;
          later = make_span h svg val p w #
                  TextN (substr_from val (int (p + length (hl_text h)))) # todo @ rest
      in if pos \<ge> 0
         then case visit h svg par pc (take (length todo) later) (drop (length todo) later)
                     (note_span h svg par w)
              of (out, w') \<Rightarrow> (TextN (substr val 0 (int p)) # out, w')
         else case visit h svg par pc todo rest w of (out, w') \<Rightarrow> (TextN val # out, w'))"
| "visit h svg par pc (ElemN i tag c g ks # todo) rest w =
     (if skipped tag
      then case visit h svg par pc todo rest w of (out, w') \<Rightarrow> (ElemN i tag c g ks # out, w')
      else case visit h (enter_svg svg tag) i c ks [] w of
             (ks', w') \<Rightarrow>
               (case visit h svg par pc todo rest w' of
                  (out, w'') \<Rightarrow> (ElemN i tag c g ks' # out, w'')))"
  by pat_completeness auto

lemma weight_pos: "weight n > 0"
  by (cases n) auto

lemma weight_take2: "2 \<le> length todo \<Longrightarrow>
  sum_list (map weight (take (length todo - 2) todo)) + 2 \<le> sum_list (map weight todo)"
proof -
  assume len: "2 \<le> length todo"
  have "length ns \<le> sum_list (map weight ns)" for ns
  proof (induction ns)
    case (Cons a ns)
    then show ?case using weight_pos[of a] by simp
  qed simp
  then have "length (drop (length todo - 2) todo) \<le> sum_list (map weight (drop (length todo - 2) todo))" .
  moreover have "sum_list (map weight todo) =
      sum_list (map weight (take (length todo - 2) todo)) + sum_list (map weight (drop (length todo - 2) todo))"
    by (metis append_take_drop_id map_append sum_list_append)
  ultimately show ?thesis using len by simp
qed

lemma weight_later:
  assumes "weight s = 2" "weight t = 1"
  shows "sum_list (map weight (take (length todo) (s # t # todo @ rest))) \<le> 1 + sum_list (map weight todo)"
proof (cases "length todo")
  case (Suc n)
  show ?thesis
  proof (cases n)
    case 0
    then obtain x where "todo = [x]" using Suc by (cases todo) auto
    then show ?thesis using assms weight_pos[of x] by simp
  next
    case (Suc m)
    then have "length todo = Suc (Suc m)" using \<open>length todo = Suc n\<close> by simp
    then show ?thesis using assms weight_take2[of todo] by simp
  qed
qed simp

lemma weight_make_span: "weight (make_span h svg val p w) = 2"
  by (simp add: make_span_def Let_def)

termination visit
proof (relation "inv_image (less_than <*lex*> less_than)
    (\<lambda>(h, svg, par, pc, todo, rest, w). (sum_list (map weight todo), length todo))", goal_cases)
  case (3 h svg par pc val todo rest w x xa xb)
  have "sum_list (map weight (take (length todo)
      (make_span h svg val xa w # TextN (substr_from val (int (xa + length (hl_text h)))) # todo @ rest)))
      \<le> 1 + sum_list (map weight todo)"
    by (rule weight_later) (simp_all add: weight_make_span)
  with 3 show ?case by (auto simp: less_Suc_eq_le order_le_less)
qed (auto simp: weight_pos)

section \<open>The document\<close>

definition highlight_root :: "highlighter \<Rightarrow> bool \<Rightarrow> node \<Rightarrow> walk \<Rightarrow> node \<times> walk" where
  "highlight_root h svg n w =
     (case n of
        ElemN i tag c g ks \<Rightarrow>
          if skipped tag then (n, w)
          else (case visit h (enter_svg svg tag) i c ks [] w of (ks', w') \<Rightarrow> (ElemN i tag c g ks', w'))
      | _ \<Rightarrow> (n, w))"

fun apply_at ::
  "(bool \<Rightarrow> node \<Rightarrow> walk \<Rightarrow> node \<times> walk) \<Rightarrow> nat \<Rightarrow> bool \<Rightarrow> node list \<Rightarrow> walk \<Rightarrow> node list \<times> walk" where
  "apply_at f i svg [] w = ([], w)"
| "apply_at f i svg (ElemN j tag c g ks # ns) w =
     (if i = j then (case f svg (ElemN j tag c g ks) w of (n, w') \<Rightarrow> (n # ns, w'))
      else case apply_at f i (enter_svg svg tag) ks w of
             (ks', w') \<Rightarrow> (case apply_at f i svg ns w' of (ns', w'') \<Rightarrow> (ElemN j tag c g ks' # ns', w'')))"
| "apply_at f i svg (n # ns) w = (case apply_at f i svg ns w of (ns', w') \<Rightarrow> (n # ns', w'))"

fun each_root :: "highlighter \<Rightarrow> nat list \<Rightarrow> node list \<Rightarrow> walk \<Rightarrow> node list \<times> walk" where
  "each_root h [] doc w = (doc, w)"
| "each_root h (i # is) doc w =
     (case apply_at (highlight_root h) i False doc w of (doc', w') \<Rightarrow> each_root h is doc' w')"

text \<open>\<open>jQuery(parent).before(target)\<close>.\<close>

fun insert_before :: "nat \<Rightarrow> node \<Rightarrow> node list \<Rightarrow> node list" where
  "insert_before i x [] = []"
| "insert_before i x (ElemN j tag c g ks # ns) =
     (if i = j then x # ElemN j tag c g ks # ns
      else ElemN j tag c g (insert_before i x ks) # insert_before i x ns)"
| "insert_before i x (n # ns) = n # insert_before i x ns"

definition insert_items :: "(nat \<times> node) list \<Rightarrow> node list \<Rightarrow> node list" where
  "insert_items items doc = fold (\<lambda>(par, target). insert_before par target) items doc"

text \<open>\<open>highlightText\<close> on the elements numbered \<open>roots\<close>; new elements are numbered from \<open>n\<close>.\<close>

definition highlightText :: "highlighter \<Rightarrow> nat list \<Rightarrow> node list \<Rightarrow> nat \<Rightarrow> node list \<times> nat" where
  "highlightText h roots doc n =
     (case each_root h roots doc \<lparr>next_id = n, add_items = []\<rparr> of
        (doc', w) \<Rightarrow> (insert_items (add_items w) doc', next_id w))"

fun select_nodes :: "(string \<Rightarrow> string \<Rightarrow> bool) \<Rightarrow> node list \<Rightarrow> nat list" where
  "select_nodes P [] = []"
| "select_nodes P (ElemN i tag c g ks # ns) =
     (if P tag c then [i] else []) @ select_nodes P ks @ select_nodes P ns"
| "select_nodes P (n # ns) = select_nodes P ns"

text \<open>\<open>$('div.body')\<close>, or \<open>$('body')\<close> when there is none.\<close>

definition body_nodes :: "node list \<Rightarrow> nat list" where
  "body_nodes doc =
     (let body = select_nodes (\<lambda>tag c. tag = ''div'' \<and> hasClass ''body'' [class_elem c]) doc
      in if length body = 0 then select_nodes (\<lambda>tag c. tag = ''body'') doc else body)"

fun highlight_words ::
  "(nat \<Rightarrow> int list) \<Rightarrow> nat list \<Rightarrow> string list \<Rightarrow> node list \<Rightarrow> nat \<Rightarrow> node list \<times> nat" where
  "highlight_words bbox body [] doc n = (doc, n)"
| "highlight_words bbox body (t # ts) doc n =
     (case highlightText \<lparr>hl_text = to_lower t, hl_class = ''highlighted'', hl_bbox = bbox\<rparr> body doc n of
        (doc', n') \<Rightarrow> highlight_words bbox body ts doc' n')"

text \<open>The document after the timer has run, and whether the link that hides the marks was added.\<close>

definition highlightSearchWords ::
  "(nat \<Rightarrow> int list) \<Rightarrow> string list \<Rightarrow> node list \<Rightarrow> nat \<Rightarrow> (node list \<times> nat) \<times> bool" where
  "highlightSearchWords bbox terms doc n =
     (if terms \<noteq> [] then (highlight_words bbox (body_nodes doc) terms doc n, True) else ((doc, n), False))"

text \<open>\<open>$('span.highlighted').removeClass('highlighted')\<close>.\<close>

fun hideSearchWords :: "node list \<Rightarrow> node list" where
  "hideSearchWords [] = []"
| "hideSearchWords (ElemN i tag c g ks # ns) =
     ElemN i tag
       (if tag = ''span'' \<and> hasClass ''highlighted'' [class_elem c]
        then getClass (hd (removeClass (Some (StrValue ''highlighted'')) [class_elem c])) else c)
       g (hideSearchWords ks) # hideSearchWords ns"
| "hideSearchWords (n # ns) = n # hideSearchWords ns"

section \<open>Text and marks\<close>

fun text_of :: "node list \<Rightarrow> string" where
  "text_of [] = []"
| "text_of (TextN s # ns) = s @ text_of ns"
| "text_of (OtherN # ns) = text_of ns"
| "text_of (ElemN i tag c g ks # ns) = text_of ks @ text_of ns"

text \<open>The elements numbered from \<open>n\<close> on are marks of the text looked for, or backgrounds.\<close>

definition is_mark :: "highlighter \<Rightarrow> string \<Rightarrow> string \<Rightarrow> string \<Rightarrow> bool" where
  "is_mark h tag c t \<longleftrightarrow>
     tag = ''span'' \<and> c = hl_class h \<and> to_lower t = hl_text h \<or>
     tag = ''tspan'' \<and> to_lower t = hl_text h \<or> tag = ''rect'' \<and> c = hl_class h \<and> t = []"

fun marks_ok :: "highlighter \<Rightarrow> nat \<Rightarrow> node list \<Rightarrow> bool" where
  "marks_ok h n [] = True"
| "marks_ok h n (ElemN i tag c g ks # ns) =
     ((n \<le> i \<longrightarrow> is_mark h tag c (text_of ks)) \<and> marks_ok h n ks \<and> marks_ok h n ns)"
| "marks_ok h n (m # ns) = marks_ok h n ns"

fun ids_below :: "nat \<Rightarrow> node list \<Rightarrow> bool" where
  "ids_below n [] = True"
| "ids_below n (ElemN i tag c g ks # ns) = (i < n \<and> ids_below n ks \<and> ids_below n ns)"
| "ids_below n (m # ns) = ids_below n ns"

text \<open>Whether a text the walk may mark holds the text looked for.\<close>

fun occurs_in :: "highlighter \<Rightarrow> string \<Rightarrow> node list \<Rightarrow> bool" where
  "occurs_in h pc [] = False"
| "occurs_in h pc (TextN s # ns) = (matches_at h pc s \<ge> 0 \<or> occurs_in h pc ns)"
| "occurs_in h pc (OtherN # ns) = occurs_in h pc ns"
| "occurs_in h pc (ElemN i tag c g ks # ns) = (\<not> skipped tag \<and> occurs_in h c ks \<or> occurs_in h pc ns)"

fun occurs_at :: "highlighter \<Rightarrow> nat \<Rightarrow> node list \<Rightarrow> bool" where
  "occurs_at h i [] = False"
| "occurs_at h i (ElemN j tag c g ks # ns) =
     (if i = j then \<not> skipped tag \<and> occurs_in h c ks else occurs_at h i ks \<or> occurs_at h i ns)"
| "occurs_at h i (m # ns) = occurs_at h i ns"

text \<open>How many elements of a tree mark the text looked for: the tag, the class and the text count.\<close>

definition is_word_mark :: "highlighter \<Rightarrow> string \<Rightarrow> string \<Rightarrow> string \<Rightarrow> bool" where
  "is_word_mark h tag c t \<longleftrightarrow>
     to_lower t = hl_text h \<and> (tag = ''span'' \<and> c = hl_class h \<or> tag = ''tspan'')"

fun mark_count :: "highlighter \<Rightarrow> node list \<Rightarrow> nat" where
  "mark_count h [] = 0"
| "mark_count h (ElemN i tag c g ks # ns) =
     (if is_word_mark h tag c (text_of ks) then 1 else 0) + mark_count h ks + mark_count h ns"
| "mark_count h (m # ns) = mark_count h ns"

subsection \<open>Facts\<close>

lemma mark_count_append [simp]: "mark_count h (xs @ ys) = mark_count h xs + mark_count h ys"
  by (induction h xs rule: mark_count.induct) auto

lemma text_of_append [simp]: "text_of (xs @ ys) = text_of xs @ text_of ys"
  by (induction xs rule: text_of.induct) auto

lemma marks_ok_append [simp]: "marks_ok h n (xs @ ys) \<longleftrightarrow> marks_ok h n xs \<and> marks_ok h n ys"
  by (induction h n xs rule: marks_ok.induct) auto

lemma marks_ok_below: "ids_below n ns \<Longrightarrow> marks_ok h n ns"
  by (induction n ns rule: ids_below.induct) auto

lemma matches_at_bounds:
  assumes "matches_at h pc val \<ge> 0"
  defines "p \<equiv> nat (matches_at h pc val)"
  shows "p + length (hl_text h) \<le> length val"
    and "to_lower (take (length (hl_text h)) (drop p val)) = hl_text h"
proof -
  have pos: "str_index_of (to_lower val) (hl_text h) = int p"
    using assms by (auto simp: matches_at_def split: if_splits)
  have pre: "prefix (hl_text h) (drop p (to_lower val))" using str_index_of_eqD(2)[OF pos] .
  have le: "p \<le> length val" using str_index_of_eqD(1)[OF pos] by simp
  have "length (hl_text h) \<le> length (drop p (to_lower val))" using prefix_length_le[OF pre] .
  then show "p + length (hl_text h) \<le> length val" using le by simp
  have "take (length (hl_text h)) (drop p (to_lower val)) = hl_text h"
    using pre by (auto simp: prefix_def)
  then show "to_lower (take (length (hl_text h)) (drop p val)) = hl_text h"
    by (simp add: to_lower_def take_map drop_map)
qed

lemma substr_pieces:
  "substr val 0 (int p) = take p val" "substr val (int p) (int n) = take n (drop p val)"
  "substr_from val (int p) = drop p val"
  by (simp_all add: substr_def substr_from_def)

lemma pieces_join: "take p s @ take n (drop p s) @ drop (p + n) s = s"
  by (metis append_take_drop_id drop_drop add.commute)

subsection \<open>One induction rule for the walk\<close>

text \<open>What a marked text is replaced by, as far as it is still to be visited.\<close>

definition behind :: "highlighter \<Rightarrow> bool \<Rightarrow> string \<Rightarrow> nat \<Rightarrow> walk \<Rightarrow> node list \<Rightarrow> node list" where
  "behind h svg val p w ns =
     make_span h svg val p w # TextN (drop (p + length (hl_text h)) val) # ns"

lemma visit_hit:
  assumes "matches_at h pc val = int p"
  shows "visit h svg par pc (TextN val # todo) rest w =
    (case visit h svg par pc (take (length todo) (behind h svg val p w (todo @ rest)))
            (drop (length todo) (behind h svg val p w (todo @ rest))) (note_span h svg par w)
     of (out, w') \<Rightarrow> (TextN (take p val) # out, w'))"
  using assms by (simp add: Let_def behind_def substr_pieces del: of_nat_add)

lemma visit_miss:
  assumes "\<not> matches_at h pc val \<ge> 0"
  shows "visit h svg par pc (TextN val # todo) rest w =
    (case visit h svg par pc todo rest w of (out, w') \<Rightarrow> (TextN val # out, w'))"
  using assms by (simp add: Let_def)

lemma visit_rule_induct [consumes 1, case_names Nil Other Hit Miss Skip Elem]:
  assumes run: "visit h svg par pc todo rest w = (out, w')"
    and nil: "\<And>h svg par pc rest w. P h svg par pc [] rest w rest w"
    and other: "\<And>h svg par pc todo rest w out w'. P h svg par pc todo rest w out w' \<Longrightarrow>
      P h svg par pc (OtherN # todo) rest w (OtherN # out) w'"
    and hit: "\<And>h svg par pc val todo rest w out w' p later. matches_at h pc val = int p \<Longrightarrow>
      later = behind h svg val p w (todo @ rest) \<Longrightarrow>
      P h svg par pc (take (length todo) later) (drop (length todo) later) (note_span h svg par w) out w' \<Longrightarrow>
      P h svg par pc (TextN val # todo) rest w (TextN (take p val) # out) w'"
    and miss: "\<And>h svg par pc val todo rest w out w'. \<not> matches_at h pc val \<ge> 0 \<Longrightarrow>
      P h svg par pc todo rest w out w' \<Longrightarrow> P h svg par pc (TextN val # todo) rest w (TextN val # out) w'"
    and skip: "\<And>h svg par pc i tag c g ks todo rest w out w'. skipped tag \<Longrightarrow>
      P h svg par pc todo rest w out w' \<Longrightarrow>
      P h svg par pc (ElemN i tag c g ks # todo) rest w (ElemN i tag c g ks # out) w'"
    and elem: "\<And>h svg par pc i tag c g ks todo rest w ks' w1 out w'. \<not> skipped tag \<Longrightarrow>
      P h (enter_svg svg tag) i c ks [] w ks' w1 \<Longrightarrow> P h svg par pc todo rest w1 out w' \<Longrightarrow>
      P h svg par pc (ElemN i tag c g ks # todo) rest w (ElemN i tag c g ks' # out) w'"
  shows "P h svg par pc todo rest w out w'"
  using run
proof (induction h svg par pc todo rest w arbitrary: out w' rule: visit.induct)
  case (3 h svg par pc val todo rest w)
  show ?case
  proof (cases "matches_at h pc val \<ge> 0")
    case True
    then obtain p where p: "matches_at h pc val = int p" by (metis nonneg_int_cases)
    obtain out1 w1 where v: "visit h svg par pc (take (length todo) (behind h svg val p w (todo @ rest)))
            (drop (length todo) (behind h svg val p w (todo @ rest))) (note_span h svg par w) = (out1, w1)"
      by fastforce
    have "out = TextN (take p val) # out1" "w' = w1"
      using "3.prems" visit_hit[OF p] v by auto
    moreover have "P h svg par pc (take (length todo) (behind h svg val p w (todo @ rest)))
            (drop (length todo) (behind h svg val p w (todo @ rest))) (note_span h svg par w) out1 w1"
      using "3.IH"(1) v p by (simp add: behind_def substr_pieces del: of_nat_add)
    ultimately show ?thesis using hit p by metis
  next
    case False
    then show ?thesis using 3 miss visit_miss[OF False] by (auto split: prod.splits)
  qed
next
  case (4 h svg par pc i tag c g ks todo rest w)
  show ?case
  proof (cases "skipped tag")
    case True
    then show ?thesis using 4 skip by (auto split: prod.splits)
  next
    case False
    obtain ks' w1 where k: "visit h (enter_svg svg tag) i c ks [] w = (ks', w1)" by fastforce
    obtain out1 w2 where r: "visit h svg par pc todo rest w1 = (out1, w2)" by fastforce
    have "out = ElemN i tag c g ks' # out1" "w' = w2" using "4.prems" False k r by auto
    then show ?thesis using False k r "4.IH"(2,3) elem by metis
  qed
qed (auto intro: nil other split: prod.splits)

subsection \<open>The walk keeps the text and makes only marks\<close>

lemma text_of_behind:
  "take p val @ text_of (behind h svg val p w ns) = val @ text_of ns"
  using pieces_join[of p val "length (hl_text h)"]
  by (simp add: behind_def make_span_def substr_pieces Let_def del: of_nat_add)

lemma visit_text:
  "visit h svg par pc todo rest w = (out, w') \<Longrightarrow> text_of out = text_of (todo @ rest)"
proof (induction rule: visit_rule_induct)
  case (Hit h svg par pc val todo rest w out w' p later)
  have "text_of out = text_of later" using Hit(3) by simp
  then show ?case using text_of_behind[of p val h svg w "todo @ rest"] Hit(2) by simp
qed auto

lemma marks_behind:
  assumes "matches_at h pc val = int p" "marks_ok h n ns"
  shows "marks_ok h n (behind h svg val p w ns)"
  using assms matches_at_bounds(2)[of h pc val]
  by (simp add: behind_def make_span_def substr_pieces Let_def is_mark_def)

definition walk_ok :: "highlighter \<Rightarrow> nat \<Rightarrow> walk \<Rightarrow> bool" where
  "walk_ok h n w \<longleftrightarrow> n \<le> next_id w \<and>
     list_all (\<lambda>(par, t). n \<le> next_id w \<and> marks_ok h n [t] \<and> text_of [t] = []) (add_items w)"

lemma walk_ok_note: "walk_ok h n w \<Longrightarrow> walk_ok h n (note_span h svg par w)"
  by (auto simp: walk_ok_def note_span_def is_mark_def list_all_iff)

lemma visit_marks:
  "visit h svg par pc todo rest w = (out, w') \<Longrightarrow>
     text_of out = text_of (todo @ rest) \<and>
     (marks_ok h n (todo @ rest) \<longrightarrow> walk_ok h n w \<longrightarrow> marks_ok h n out \<and> walk_ok h n w')"
proof (induction rule: visit_rule_induct)
  case (Hit h svg par pc val todo rest w out w' p later)
  have "take p val @ text_of out = val @ text_of (todo @ rest)"
    using Hit(3) text_of_behind[of p val h svg w "todo @ rest"] Hit(2) by simp
  moreover have "marks_ok h n later" if "marks_ok h n (todo @ rest)"
    using that Hit(1,2) marks_behind by simp
  ultimately show ?case
    using Hit(3) walk_ok_note by (auto simp del: append_assoc)
qed auto

subsection \<open>A mark is made iff there is an occurrence\<close>

lemma visit_none:
  "visit h svg par pc todo rest w = (out, w') \<Longrightarrow> \<not> occurs_in h pc todo \<longrightarrow> out = todo @ rest \<and> w' = w"
  by (induction rule: visit_rule_induct) auto

lemma mark_count_behind:
  assumes "matches_at h pc val = int p"
  shows "mark_count h (behind h svg val p w ns) = Suc (mark_count h ns)"
  using assms matches_at_bounds(2)[of h pc val]
  by (simp add: behind_def make_span_def substr_pieces Let_def is_word_mark_def)

text \<open>The nodes put aside are the backgrounds of marks in pictures.\<close>

definition only_rects :: "(nat \<times> node) list \<Rightarrow> bool" where
  "only_rects items \<longleftrightarrow> (\<forall>t \<in> snd ` set items. \<exists>j c g. t = ElemN j ''rect'' c g [])"

lemma only_rects_note: "only_rects (add_items w) \<Longrightarrow> only_rects (add_items (note_span h svg par w))"
  by (auto simp: only_rects_def note_span_def)

lemma visit_counts:
  "visit h svg par pc todo rest w = (out, w') \<Longrightarrow>
     text_of out = text_of (todo @ rest) \<and>
     mark_count h (todo @ rest) \<le> mark_count h out \<and>
     (occurs_in h pc todo \<longrightarrow> mark_count h (todo @ rest) < mark_count h out) \<and>
     (only_rects (add_items w) \<longrightarrow> only_rects (add_items w'))"
proof (induction rule: visit_rule_induct)
  case (Hit h svg par pc val todo rest w out w' p later)
  have later: "take (length todo) later @ drop (length todo) later = later" by simp
  have "take p val @ text_of out = val @ text_of (todo @ rest)"
    using Hit(3) text_of_behind[of p val h svg w "todo @ rest"] Hit(2) unfolding later by simp
  moreover have "mark_count h (todo @ rest) < mark_count h out"
    using Hit(3) mark_count_behind[OF Hit(1), of svg w "todo @ rest"] Hit(2) unfolding later by simp
  ultimately show ?case using Hit(3) only_rects_note by (simp del: append_assoc)
qed auto

subsection \<open>The whole document\<close>

definition keeps :: "highlighter \<Rightarrow> nat \<Rightarrow> node list \<Rightarrow> walk \<Rightarrow> node list \<Rightarrow> walk \<Rightarrow> bool" where
  "keeps h n ns w ns' w' \<longleftrightarrow> text_of ns' = text_of ns \<and>
     (marks_ok h n ns \<longrightarrow> walk_ok h n w \<longrightarrow> marks_ok h n ns' \<and> walk_ok h n w') \<and>
     mark_count h ns \<le> mark_count h ns' \<and> (only_rects (add_items w) \<longrightarrow> only_rects (add_items w'))"

definition node_step :: "highlighter \<Rightarrow> nat \<Rightarrow> (bool \<Rightarrow> node \<Rightarrow> walk \<Rightarrow> node \<times> walk) \<Rightarrow> bool" where
  "node_step h n f \<longleftrightarrow> (\<forall>svg m w m' w'. f svg m w = (m', w') \<longrightarrow> keeps h n [m] w [m'] w')"

lemma highlight_root_keeps: "node_step h n (highlight_root h)"
  unfolding node_step_def keeps_def
  using visit_marks[where rest = "[]" and n = n] visit_counts[where rest = "[]"]
  by (fastforce simp: highlight_root_def split: node.splits if_splits prod.splits)

lemma keeps_refl: "keeps h n ns w ns w"
  by (simp add: keeps_def)

lemma keeps_trans: "keeps h n a u b v \<Longrightarrow> keeps h n b v c w \<Longrightarrow> keeps h n a u c w"
  by (auto simp: keeps_def)

lemma keeps_append:
  "keeps h n a u a' v \<Longrightarrow> keeps h n b v b' w \<Longrightarrow> keeps h n (a @ b) u (a' @ b') w"
  by (auto simp: keeps_def)

lemma keeps_Cons: "keeps h n ns w ns' w' \<Longrightarrow> keeps h n (m # ns) w (m # ns') w'"
  using keeps_append[OF keeps_refl, of h n ns w ns' w' "[m]"] by simp

lemma keeps_elem: "keeps h n ks u ks' v \<Longrightarrow> keeps h n [ElemN j tag c g ks] u [ElemN j tag c g ks'] v"
  by (auto simp: keeps_def)

lemma apply_at_keeps:
  "node_step h n f \<Longrightarrow> apply_at f i svg ns w = (out, w') \<Longrightarrow> keeps h n ns w out w'"
proof (induction f i svg ns w arbitrary: out w' rule: apply_at.induct)
  case (1 f i svg w)
  then show ?case by (simp add: keeps_refl)
next
  case (2 f i svg j tag c g ks ns w)
  show ?case
  proof (cases "i = j")
    case True
    obtain m w1 where m: "f svg (ElemN j tag c g ks) w = (m, w1)" by fastforce
    then have "out = [m] @ ns" "w' = w1" using "2.prems"(2) True by auto
    moreover have ke: "keeps h n [ElemN j tag c g ks] w [m] w1"
      using "2.prems"(1) m unfolding node_step_def by blast
    ultimately show ?thesis using keeps_append[OF ke keeps_refl, of ns] by simp
  next
    case False
    obtain ks' w1 where k: "apply_at f i (enter_svg svg tag) ks w = (ks', w1)" by fastforce
    obtain ns' w2 where r: "apply_at f i svg ns w1 = (ns', w2)" by fastforce
    have out: "out = [ElemN j tag c g ks'] @ ns'" "w' = w2" using "2.prems"(2) False k r by auto
    have "keeps h n ks w ks' w1" using "2.IH"(1) False "2.prems"(1) k by blast
    moreover have "keeps h n ns w1 ns' w2" using "2.IH"(2) False k[symmetric] "2.prems"(1) r by blast
    ultimately show ?thesis
      using keeps_append[OF keeps_elem, of h n ks w ks' w1 ns ns' w2 j tag c g] out by simp
  qed
next
  case "3_1"
  then show ?case by (auto intro: keeps_Cons split: prod.splits)
next
  case "3_2"
  then show ?case by (auto intro: keeps_Cons split: prod.splits)
qed

lemma each_root_keeps: "each_root h is doc w = (doc', w') \<Longrightarrow> keeps h n doc w doc' w'"
proof (induction h "is" doc w arbitrary: doc' w' rule: each_root.induct)
  case (2 h i "is" doc w)
  obtain d1 w1 where d: "apply_at (highlight_root h) i False doc w = (d1, w1)" by fastforce
  with 2 show ?case
    using keeps_trans[OF apply_at_keeps[OF highlight_root_keeps d]] by auto
qed (simp add: keeps_refl)

lemma insert_before_marks:
  "text_of [x] = [] \<Longrightarrow> text_of (insert_before i x ns) = text_of ns \<and>
     (marks_ok h n [x] \<longrightarrow> marks_ok h n ns \<longrightarrow> marks_ok h n (insert_before i x ns))"
proof (induction i x ns rule: insert_before.induct)
  case (2 i x j tag c g ks ns)
  show ?case
  proof (cases "i = j")
    case True
    then show ?thesis
      using 2(3) text_of_append[of "[x]" "ElemN j tag c g ks # ns"]
        marks_ok_append[of h n "[x]" "ElemN j tag c g ks # ns"] by simp
  next
    case False
    with 2 show ?thesis by simp
  qed
qed auto

lemma insert_items_marks:
  "list_all (\<lambda>(par, t). marks_ok h n [t] \<and> text_of [t] = []) items \<Longrightarrow>
     text_of (insert_items items ns) = text_of ns \<and>
     (marks_ok h n ns \<longrightarrow> marks_ok h n (insert_items items ns))"
proof (induction items arbitrary: ns)
  case (Cons it items)
  obtain par t where it: "it = (par, t)" by fastforce
  have "insert_items (it # items) ns = insert_items items (insert_before par t ns)"
    by (simp add: insert_items_def it)
  then show ?case using Cons insert_before_marks[of t par ns h n] it by auto
qed (simp add: insert_items_def)

lemma insert_before_count:
  "insert_before i (ElemN j ''rect'' c g []) ns = ns' \<Longrightarrow> mark_count h ns' = mark_count h ns \<and> text_of ns' = text_of ns"
  by (induction i "ElemN j ''rect'' c g []" ns arbitrary: ns' rule: insert_before.induct)
     (auto simp: is_word_mark_def)

lemma insert_items_count: "only_rects items \<Longrightarrow> mark_count h (insert_items items ns) = mark_count h ns"
proof (induction items arbitrary: ns)
  case (Cons it items)
  then obtain par j c g where it: "it = (par, ElemN j ''rect'' c g [])"
    by (cases it) (auto simp: only_rects_def)
  have "insert_items (it # items) ns = insert_items items (insert_before par (ElemN j ''rect'' c g []) ns)"
    by (simp add: insert_items_def it)
  then show ?case
    using Cons insert_before_count[OF refl, of h par j c g ns] by (simp add: only_rects_def)
qed (simp add: insert_items_def)

lemma highlight_root_occurs:
  assumes "highlight_root h svg (ElemN i tag c g ks) w = (e, w')"
  shows "if \<not> skipped tag \<and> occurs_in h c ks then mark_count h [ElemN i tag c g ks] < mark_count h [e]
    else e = ElemN i tag c g ks \<and> w' = w"
proof (cases "skipped tag")
  case True
  then show ?thesis using assms by (simp add: highlight_root_def)
next
  case False
  then obtain ks' where "visit h (enter_svg svg tag) i c ks [] w = (ks', w')" "e = ElemN i tag c g ks'"
    using assms by (auto simp: highlight_root_def split: prod.splits)
  then show ?thesis
    using False visit_none[of h _ i c ks "[]" w ks' w'] visit_counts[of h _ i c ks "[]" w ks' w'] by auto
qed

lemma apply_at_occurs:
  "apply_at (highlight_root h) i svg ns w = (out, w') \<Longrightarrow>
   if occurs_at h i ns then mark_count h ns < mark_count h out else out = ns \<and> w' = w"
proof (induction "highlight_root h" i svg ns w arbitrary: out w' rule: apply_at.induct)
  case (2 i svg j tag c g ks ns w)
  show ?case
  proof (cases "i = j")
    case True
    obtain m w1 where m: "highlight_root h svg (ElemN j tag c g ks) w = (m, w1)" by fastforce
    then have out: "out = [m] @ ns" "w' = w1" using 2(3) True by auto
    have "mark_count h out = mark_count h [m] + mark_count h ns"
      "mark_count h (ElemN j tag c g ks # ns) = mark_count h [ElemN j tag c g ks] + mark_count h ns"
      unfolding out(1) by (simp_all only: mark_count_append) simp
    then show ?thesis using highlight_root_occurs[OF m] True out by (auto split: if_splits)
  next
    case False
    obtain ks' w1 where k: "apply_at (highlight_root h) i (enter_svg svg tag) ks w = (ks', w1)" by fastforce
    obtain ns' w2 where r: "apply_at (highlight_root h) i svg ns w1 = (ns', w2)" by fastforce
    have out: "out = ElemN j tag c g ks' # ns'" "w' = w2" using 2(3) False k r by auto
    have ke: "keeps h 0 ks w ks' w1" "keeps h 0 ns w1 ns' w2"
      using apply_at_keeps[OF highlight_root_keeps] k r by blast+
    have "if occurs_at h i ks then mark_count h ks < mark_count h ks' else ks' = ks \<and> w1 = w"
      using 2(1)[OF False k] .
    moreover have "if occurs_at h i ns then mark_count h ns < mark_count h ns' else ns' = ns \<and> w2 = w1"
      using 2(2)[OF False k[symmetric] r] .
    ultimately show ?thesis using ke False out by (auto simp: keeps_def split: if_splits)
  qed
qed (fastforce split: prod.splits if_splits)+

lemma each_root_occurs:
  "each_root h is doc w = (doc', w') \<Longrightarrow>
   if (\<exists>i \<in> set is. occurs_at h i doc) then mark_count h doc < mark_count h doc' else doc' = doc \<and> w' = w"
proof (induction h "is" doc w arbitrary: doc' w' rule: each_root.induct)
  case (2 h i "is" doc w)
  obtain d1 w1 where d: "apply_at (highlight_root h) i False doc w = (d1, w1)" by fastforce
  have rest: "each_root h is d1 w1 = (doc', w')" using 2(2) d by simp
  have "mark_count h d1 \<le> mark_count h doc'" using each_root_keeps[OF rest, of 0] by (simp add: keeps_def)
  then show ?case
    using apply_at_occurs[OF d] 2(1)[OF d[symmetric] rest] by (auto split: if_splits)
qed simp

lemma highlightText_marks:
  assumes "highlightText h roots doc n = (doc', n')" "ids_below n doc"
  shows "text_of doc' = text_of doc" and "marks_ok h n doc'"
proof -
  let ?w = "\<lparr>next_id = n, add_items = []\<rparr>"
  obtain d w where d: "each_root h roots doc ?w = (d, w)" by fastforce
  have "walk_ok h n ?w" by (simp add: walk_ok_def)
  then have d_ok: "text_of d = text_of doc" "marks_ok h n d" "walk_ok h n w"
    using each_root_keeps[OF d, of n] marks_ok_below[OF assms(2)] by (auto simp: keeps_def)
  have "doc' = insert_items (add_items w) d" using assms(1) d by (simp add: highlightText_def)
  moreover have "list_all (\<lambda>(par, t). marks_ok h n [t] \<and> text_of [t] = []) (add_items w)"
    using d_ok(3) by (auto simp: walk_ok_def list_all_iff)
  ultimately show "text_of doc' = text_of doc" and "marks_ok h n doc'"
    using insert_items_marks[of h n "add_items w" d] d_ok by auto
qed

lemma removeClass_gone:
  assumes "token t"
  shows "\<not> hasClass t [class_elem (getClass (hd (removeClass (Some (StrValue t)) [class_elem c])))]"
proof -
  let ?e = "remove_from t (class_elem c)"
  have e: "node_type (class_elem c) = 1" by (simp add: class_elem_def)
  have "\<not> hasClass t [?e]" using cls.has_rm[OF e assms assms] by simp
  moreover have "hasClass t [class_elem (getClass ?e)] = hasClass t [?e]"
    using e by (simp add: hasClass_def class_elem_def getClass_def)
  ultimately show ?thesis by simp
qed

lemma token_highlighted: "token ''highlighted''"
  by (simp add: token_def html_space_def)

lemma hide_none:
  "select_nodes (\<lambda>tag c. tag = ''span'' \<and> hasClass ''highlighted'' [class_elem c]) (hideSearchWords doc) = []"
  by (induction doc rule: hideSearchWords.induct)
     (use removeClass_gone[OF token_highlighted] in \<open>auto simp del: removeClass.simps\<close>)

lemma hide_text: "text_of (hideSearchWords doc) = text_of doc"
  by (induction doc rule: hideSearchWords.induct) auto

section \<open>Properties\<close>

text \<open>
  C21. Highlighting never changes what the page says: the text of the document is the same before
  and after, in the same order, and every element \<open>highlightText\<close> creates is a mark whose text is an
  occurrence of the text looked for (ignoring case), or an empty background rectangle in an SVG
  picture.
\<close>

theorem highlightText_keeps_text:
  assumes "highlightText h roots doc n = (doc', n')" and "ids_below n doc"
  shows "text_of doc' = text_of doc \<and> marks_ok h n doc'"
  using highlightText_marks[OF assms] by blast

definition sample_doc :: "node list" where
  "sample_doc =
     [ElemN 0 ''body'' '''' [] [ElemN 1 ''p'' '''' [] [TextN ''An Owl and an owl''], TextN ''no bird'']]"

definition sample_highlighter :: highlighter where
  "sample_highlighter = \<lparr>hl_text = ''owl'', hl_class = ''highlighted'', hl_bbox = (\<lambda>_. [])\<rparr>"

theorem highlightText_keeps_text_witness:
  "text_of (fst (highlightText sample_highlighter [0] sample_doc 2)) = ''An Owl and an owlno bird''"
proof -
  obtain d m where h: "highlightText sample_highlighter [0] sample_doc 2 = (d, m)" by fastforce
  have "ids_below 2 sample_doc" by (simp add: sample_doc_def)
  then have "text_of d = text_of sample_doc" using highlightText_keeps_text[OF h] by blast
  then show ?thesis unfolding h by (simp add: sample_doc_def)
qed

text \<open>
  C22. Highlighting adds marks to the document exactly when a text that may be marked, below one of the
  elements it is applied to, holds the text looked for: the resulting tree then has more elements that
  are marks by their tag, class and text than the tree before.  Texts inside buttons, selections and
  text areas, and texts whose parent already has the class, do not count.  Without an occurrence the
  document is unchanged.
\<close>

theorem highlight_marks_iff_occurs:
  assumes "highlightText h roots doc n = (doc', n')"
  shows "(mark_count h doc < mark_count h doc' \<longleftrightarrow> (\<exists>i \<in> set roots. occurs_at h i doc)) \<and>
    (\<not> (\<exists>i \<in> set roots. occurs_at h i doc) \<longrightarrow> doc' = doc)"
proof -
  let ?w = "\<lparr>next_id = n, add_items = []\<rparr>"
  obtain d w where d: "each_root h roots doc ?w = (d, w)" by fastforce
  then have doc': "doc' = insert_items (add_items w) d" using assms by (simp add: highlightText_def)
  have "only_rects (add_items w)" using each_root_keeps[OF d, of 0] by (simp add: keeps_def only_rects_def)
  then have "mark_count h doc' = mark_count h d" unfolding doc' by (rule insert_items_count)
  then show ?thesis
    using each_root_occurs[OF d] doc' by (auto simp: insert_items_def split: if_splits)
qed

theorem highlight_marks_iff_occurs_witness:
  "mark_count sample_highlighter sample_doc = 0 \<and>
   0 < mark_count sample_highlighter (fst (highlightText sample_highlighter [0] sample_doc 2)) \<and>
   fst (highlightText (sample_highlighter\<lparr>hl_text := ''cat''\<rparr>) [0] sample_doc 2) = sample_doc"
proof (intro conjI)
  note eval = sample_doc_def sample_highlighter_def matches_at_def hasClass_def class_elem_def padded_def
    getClass_def stripAndCollapse_def rnothtmlwhite_def html_space_def str_index_of_def to_lower_def
    lower_char_def char_of_def bit_0 skipped_def
  obtain d m where h: "highlightText sample_highlighter [0] sample_doc 2 = (d, m)" by fastforce
  obtain d2 m2 where h2: "highlightText (sample_highlighter\<lparr>hl_text := ''cat''\<rparr>) [0] sample_doc 2 = (d2, m2)"
    by fastforce
  show "mark_count sample_highlighter sample_doc = 0" by (simp add: sample_doc_def is_word_mark_def)
  have "occurs_at sample_highlighter 0 sample_doc" by (simp add: eval)
  then show "0 < mark_count sample_highlighter (fst (highlightText sample_highlighter [0] sample_doc 2))"
    using highlight_marks_iff_occurs[OF h] h by auto
  have "\<not> occurs_at (sample_highlighter\<lparr>hl_text := ''cat''\<rparr>) 0 sample_doc" by (simp add: eval)
  then show "fst (highlightText (sample_highlighter\<lparr>hl_text := ''cat''\<rparr>) [0] sample_doc 2) = sample_doc"
    using highlight_marks_iff_occurs[OF h2] h2 by auto
qed

text \<open>
  \<open>Documentation.hideSearchWords\<close> leaves no highlighted span behind, whatever other classes the
  spans have and however often the class is repeated, and keeps the text.
\<close>

theorem hideSearchWords_clears:
  "select_nodes (\<lambda>tag c. tag = ''span'' \<and> hasClass ''highlighted'' [class_elem c]) (hideSearchWords doc) = []
   \<and> text_of (hideSearchWords doc) = text_of doc"
  using hide_none hide_text by blast

text \<open>
  The number of children is read once, before the walk: in an element with a single text only the
  first occurrence is marked, and the text behind it, whatever it holds, is not visited.
\<close>

lemma only_first_occurrence:
  assumes "matches_at h c val = int p"
  shows "visit h False i c [TextN val] [] w =
    ([TextN (take p val), make_span h False val p w, TextN (drop (p + length (hl_text h)) val)],
     w\<lparr>next_id := next_id w + 1\<rparr>)"
  by (simp only: visit_hit[OF assms] behind_def) (simp add: note_span_def)

end
