(* ===== verification/WsComments.thy ===== *)
theory WsComments
  imports JsSort
begin

text \<open>
  Comment trees in \<open>websupport.js\<close>: the comparison chosen by the user, sorting, and the translation
  between the comments of the server and the nested lists of the page
  (\<open>createCommentDiv\<close>, \<open>appendComments\<close>, \<open>insertComment\<close>, \<open>getChildren\<close>, \<open>sortComments\<close>).
\<close>

section \<open>Comments\<close>

text \<open>A missing node, parent or proposal is the empty string: the code only tests for truth.\<close>

record cdata =
  cid :: string
  cnode :: string
  cparent :: string
  username :: string
  ctext :: string
  rating :: int
  vote :: int
  age :: int
  displayed :: bool
  proposal_diff :: string

datatype ctree = CTree (dat: cdata) (kids: "ctree list")

section \<open>The comparison\<close>

text \<open>
  \<open>a[i]\<close> as a number, \<open>None\<close> for \<open>NaN\<close>: the other members are missing or texts, which are taken for
  texts that are no numerals; the orders the page offers only read the numeric members.
\<close>

definition field :: "string \<Rightarrow> cdata \<Rightarrow> int option" where
  "field i c =
     (if i = ''rating'' then Some (rating c)
      else if i = ''age'' then Some (age c)
      else if i = ''vote'' then Some (vote c)
      else if i = ''displayed'' then Some (if displayed c then 1 else 0)
      else None)"

definition num_minus :: "int option \<Rightarrow> int option \<Rightarrow> int option" where
  "num_minus x y = (case (x, y) of (Some a, Some b) \<Rightarrow> Some (a - b) | _ \<Rightarrow> None)"

definition comp_by :: "string \<Rightarrow> cdata \<Rightarrow> cdata \<Rightarrow> int option" where
  "comp_by by a b =
     (if substring by 0 3 = ''asc''
      then num_minus (field (substring_from by 3) a) (field (substring_from by 3) b)
      else num_minus (field by b) (field by a))"

text \<open>\<open>sort\<close> takes \<open>NaN\<close> for 0.\<close>

definition sort_comp :: "string \<Rightarrow> cdata \<Rightarrow> cdata \<Rightarrow> int" where
  "sort_comp by a b = (case comp_by by a b of None \<Rightarrow> 0 | Some d \<Rightarrow> d)"

definition tree_comp :: "string \<Rightarrow> ctree \<Rightarrow> ctree \<Rightarrow> int" where
  "tree_comp by s t = sort_comp by (dat s) (dat t)"

lemma size_kids: "c \<in> set cs \<Longrightarrow> size_list size (kids c) < size_list size cs"
proof (induction cs)
  case (Cons d cs)
  then show ?case by (cases d) auto
qed simp

function sortComments :: "string \<Rightarrow> ctree list \<Rightarrow> ctree list" where
  "sortComments by cs =
     map (\<lambda>c. CTree (dat c) (sortComments by (kids c))) (array_sort (tree_comp by) cs)"
  by pat_completeness auto
termination
  by (relation "measure (\<lambda>(by, cs). size_list size cs)") (auto simp: size_kids)

declare sortComments.simps [simp del]

lemma sortComments_Nil [simp]: "sortComments by [] = []"
  by (subst sortComments.simps) simp

lemma sortComments_single: "sortComments by [CTree c []] = [CTree c []]"
  by (subst sortComments.simps) simp

section \<open>The page\<close>

record ws_opts =
  voting :: bool
  moderator :: bool
  opt_username :: "string option"

text \<open>The options before the page's own are added.\<close>

definition default_opts :: ws_opts where
  "default_opts = \<lparr>voting = False, moderator = False, opt_username = None\<rparr>"

text \<open>
  A comment's \<open>div\<close>: the comment kept in its data, the elements (by the two letters before the id)
  that exist and those that are shown, the class \<open>moderate\<close>, and the texts displayed.
\<close>

record cview =
  vdata :: cdata
  velems :: "string set"
  vshown :: "string set"
  vmoderate :: bool
  vrating :: string
  vuser :: string
  vtext :: string

datatype item =
    EmptyNote            \<comment> \<open>\<open>No comments yet.\<close>\<close>
  | ReplyForm string     \<comment> \<open>the form \<open>rd<id>\<close>\<close>
  | Notice               \<comment> \<open>waiting for a moderator\<close>
  | Hollow               \<comment> \<open>a list item whose content has been removed\<close>
  | CDiv cview "item list"

definition pretty_rating :: "int \<Rightarrow> string" where
  "pretty_rating r = dec_int r @ '' point'' @ (if r = 1 then '''' else ''s'')"

definition template_elems :: "string set" where
  "template_elems =
     {''uv'', ''uu'', ''dv'', ''du'', ''da'', ''rl'', ''cr'', ''sp'', ''hp'', ''dc'', ''cm'', ''ac'', ''pr'', ''cl''}"

definition swap_shown :: "string \<Rightarrow> string \<Rightarrow> string set \<Rightarrow> string set" where
  "swap_shown out into s = insert into (s - {out})"

definition vote_arrows :: "int \<Rightarrow> string set" where
  "vote_arrows v =
     (let s = {''uv'', ''dv''}
      in if v = 0 then s
         else if v = 1 then swap_shown ''uv'' ''uu'' s
         else swap_shown ''dv'' ''du'' s)"

definition reply_links :: "ws_opts \<Rightarrow> cdata \<Rightarrow> string set" where
  "reply_links opts c =
     (if moderator opts \<or> ctext c \<noteq> ''[deleted]''
      then {''rl''} \<union> (if proposal_diff c \<noteq> '''' then {''sp''} else {})
           \<union> (if moderator opts \<and> \<not> displayed c then {''cm'', ''ac''} else {})
           \<union> (if moderator opts \<or> opt_username opts = Some (username c) then {''dc''} else {})
      else {})"

definition createCommentDiv :: "ws_opts \<Rightarrow> cdata \<Rightarrow> item" where
  "createCommentDiv opts c =
     (if \<not> displayed c \<and> \<not> moderator opts then Notice
      else CDiv \<lparr>vdata = c, velems = template_elems, vshown = vote_arrows (vote c) \<union> reply_links opts c,
                 vmoderate = (\<not> displayed c), vrating = pretty_rating (rating c),
                 vuser = username c, vtext = ctext c\<rparr> [])"

fun fill_children :: "item \<Rightarrow> item list \<Rightarrow> item" where
  "fill_children (CDiv v _) its = CDiv v its"
| "fill_children it _ = it"

fun appendComments :: "ws_opts \<Rightarrow> ctree list \<Rightarrow> item list \<Rightarrow> item list" where
  "appendComments opts [] ul = ul"
| "appendComments opts (CTree c cs # rest) ul =
     appendComments opts rest
       (ul @ [fill_children (createCommentDiv opts c) (appendComments opts cs [])])"

fun getChildren :: "bool \<Rightarrow> item list \<Rightarrow> ctree list" where
  "getChildren recursive [] = []"
| "getChildren recursive (CDiv v its # rest) =
     CTree (vdata v) (if recursive then getChildren True its else []) # getChildren recursive rest"
| "getChildren recursive (it # rest) = getChildren recursive rest"

text \<open>The list item goes before the first comment that does not come before it, else to the end.\<close>

fun insert_item :: "(cdata \<Rightarrow> bool) \<Rightarrow> item \<Rightarrow> item list \<Rightarrow> item list" where
  "insert_item P x [] = [x]"
| "insert_item P x (CDiv v its # rest) =
     (if P (vdata v) then x # CDiv v its # rest else CDiv v its # insert_item P x rest)"
| "insert_item P x (it # rest) = it # insert_item P x rest"

definition not_after :: "string \<Rightarrow> cdata \<Rightarrow> cdata \<Rightarrow> bool" where
  "not_after by c s = (case comp_by by c s of None \<Rightarrow> False | Some d \<Rightarrow> d \<le> 0)"

definition insertComment :: "string \<Rightarrow> ws_opts \<Rightarrow> cdata \<Rightarrow> item list \<Rightarrow> item list" where
  "insertComment by opts c ul = insert_item (not_after by c) (createCommentDiv opts c) ul"

section \<open>Specification\<close>

definition numeric :: "string \<Rightarrow> bool" where
  "numeric by \<longleftrightarrow>
     (if substring by 0 3 = ''asc'' then substring_from by 3 else by)
       \<in> {''rating'', ''age'', ''vote'', ''displayed''}"

definition in_order :: "string \<Rightarrow> cdata list \<Rightarrow> bool" where
  "in_order by cs \<longleftrightarrow> sorted_wrt (\<lambda>a b. sort_comp by a b \<le> 0) cs"

text \<open>The comments of a list in order, and so are the children of each.\<close>

fun trees_in_order :: "string \<Rightarrow> ctree list \<Rightarrow> bool" where
  "trees_in_order by [] = True"
| "trees_in_order by (CTree c cs # rest) =
     (list_all (\<lambda>t. sort_comp by c (dat t) \<le> 0) rest \<and> trees_in_order by cs \<and> trees_in_order by rest)"

fun all_comments :: "ctree list \<Rightarrow> cdata list" where
  "all_comments [] = []"
| "all_comments (CTree c cs # rest) = c # all_comments cs @ all_comments rest"

text \<open>Without the comments a visitor may not see yet, and their answers.\<close>

fun visible_trees :: "ws_opts \<Rightarrow> ctree list \<Rightarrow> ctree list" where
  "visible_trees opts [] = []"
| "visible_trees opts (CTree c cs # rest) =
     (if displayed c \<or> moderator opts then [CTree c (visible_trees opts cs)] else [])
       @ visible_trees opts rest"

section \<open>Facts\<close>

lemma getChildren_append [simp]:
  "getChildren r (xs @ ys) = getChildren r xs @ getChildren r ys"
  by (induction r xs rule: getChildren.induct) auto

lemma getChildren_div:
  "getChildren True [fill_children (createCommentDiv opts c) its] =
     (if displayed c \<or> moderator opts then [CTree c (getChildren True its)] else [])"
  by (simp add: createCommentDiv_def)

lemma getChildren_appendComments:
  "getChildren True (appendComments opts cs ul) = getChildren True ul @ visible_trees opts cs"
proof (induction opts cs ul rule: appendComments.induct)
  case (2 opts c cs rest ul)
  then show ?case by (simp only: appendComments.simps getChildren_append getChildren_div visible_trees.simps) simp
qed simp

lemma visible_all: "list_all (\<lambda>c. displayed c) (all_comments cs) \<or> moderator opts \<Longrightarrow> visible_trees opts cs = cs"
  by (induction opts cs rule: visible_trees.induct) auto

lemma field_numeric: "i \<in> {''rating'', ''age'', ''vote'', ''displayed''} \<Longrightarrow> field i c = Some (the (field i c))"
  by (elim insertE) (simp_all add: field_def)

lemma comp_by_numeric:
  assumes "numeric by"
  shows "comp_by by a b = Some (sort_comp by a b)"
proof (cases "substring by 0 3 = ''asc''")
  case True
  then have "substring_from by 3 \<in> {''rating'', ''age'', ''vote'', ''displayed''}"
    using assms by (simp add: numeric_def)
  then show ?thesis
    using True field_numeric[of "substring_from by 3" a] field_numeric[of "substring_from by 3" b]
    by (cases "field (substring_from by 3) a"; cases "field (substring_from by 3) b")
      (simp_all add: sort_comp_def comp_by_def num_minus_def)
next
  case False
  then have "by \<in> {''rating'', ''age'', ''vote'', ''displayed''}"
    using assms by (simp add: numeric_def)
  then show ?thesis
    using False field_numeric[of "by" a] field_numeric[of "by" b]
    by (cases "field by a"; cases "field by b") (simp_all add: sort_comp_def comp_by_def num_minus_def)
qed

lemma not_after_numeric: "numeric by \<Longrightarrow> not_after by a b \<longleftrightarrow> sort_comp by a b \<le> 0"
  by (simp add: not_after_def comp_by_numeric)

definition sort_key :: "string \<Rightarrow> cdata \<Rightarrow> int" where
  "sort_key by c =
     (if substring by 0 3 = ''asc'' then the (field (substring_from by 3) c) else - the (field by c))"

lemma sort_comp_key:
  assumes "numeric by"
  shows "sort_comp by a b = sort_key by a - sort_key by b"
proof -
  have "comp_by by a b = Some (sort_comp by a b)" by (rule comp_by_numeric[OF assms])
  then show ?thesis
    by (auto simp: comp_by_def sort_key_def num_minus_def split: option.splits if_splits)
qed

lemma consistent_sort_comp: "numeric by \<Longrightarrow> consistent (sort_comp by) S"
  by (rule consistent_key[where key = "sort_key by"]) (simp add: sort_comp_key)

lemma consistent_tree_comp: "numeric by \<Longrightarrow> consistent (tree_comp by) S"
  by (rule consistent_key[where key = "\<lambda>t. sort_key by (dat t)"]) (simp add: tree_comp_def sort_comp_key)

lemma mset_all_comments: "mset (all_comments cs) = (\<Sum>t\<in>#mset cs. add_mset (dat t) (mset (all_comments (kids t))))"
  by (induction cs rule: all_comments.induct) auto

lemma mset_all_map:
  "mset (all_comments (map (\<lambda>t. CTree (dat t) (f (kids t))) ts)) =
     (\<Sum>t\<in>#mset ts. add_mset (dat t) (mset (all_comments (f (kids t)))))"
  by (induction ts) simp_all

lemma mset_sortComments: "mset (all_comments (sortComments by cs)) = mset (all_comments cs)"
proof (induction "by" cs rule: sortComments.induct)
  case (1 "by" cs)
  have "mset (all_comments (sortComments by cs)) =
      (\<Sum>t\<in>#mset (array_sort (tree_comp by) cs).
         add_mset (dat t) (mset (all_comments (sortComments by (kids t)))))"
    by (subst sortComments.simps) (rule mset_all_map)
  also have "\<dots> = (\<Sum>t\<in>#mset (array_sort (tree_comp by) cs). add_mset (dat t) (mset (all_comments (kids t))))"
    using 1 by (intro arg_cong[where f = sum_mset] image_mset_cong) simp
  also have "\<dots> = mset (all_comments cs)" by (simp only: mset_array_sort mset_all_comments[of cs])
  finally show ?case .
qed

lemma trees_in_order_map:
  "sorted_wrt (\<lambda>s t. tree_comp by s t \<le> 0) ts \<Longrightarrow> (\<And>t. t \<in> set ts \<Longrightarrow> trees_in_order by (f (kids t))) \<Longrightarrow>
     trees_in_order by (map (\<lambda>t. CTree (dat t) (f (kids t))) ts)"
  by (induction ts) (auto simp: list_all_iff tree_comp_def)

lemma sortComments_in_order: "numeric by \<Longrightarrow> trees_in_order by (sortComments by cs)"
proof (induction "by" cs rule: sortComments.induct)
  case (1 "by" cs)
  then show ?case
    by (subst sortComments.simps, intro trees_in_order_map)
       (simp_all add: asort.sort_sorted consistent_tree_comp)
qed

lemma visible_dats: "t \<in> set (visible_trees opts cs) \<Longrightarrow> dat t \<in> dat ` set cs"
  by (induction opts cs rule: visible_trees.induct) (auto split: if_splits)

lemma visible_in_order: "trees_in_order by cs \<Longrightarrow> trees_in_order by (visible_trees opts cs)"
proof (induction opts cs rule: visible_trees.induct)
  case (2 opts c cs rest)
  have "list_all (\<lambda>t. sort_comp by c (dat t) \<le> 0) (visible_trees opts rest)"
    using 2(3) visible_dats[of _ opts rest] by (fastforce simp: list_all_iff)
  with 2 show ?case by simp
qed simp

abbreviation shown_comments :: "item list \<Rightarrow> cdata list" where
  "shown_comments ul \<equiv> map dat (getChildren False ul)"

lemma insert_item_notice: "shown_comments (insert_item P Notice ul) = shown_comments ul"
  by (induction P Notice ul rule: insert_item.induct) auto

lemma insert_item_shown:
  "shown_comments (insert_item (\<lambda>s. cmp (vdata v) s \<le> 0) (CDiv v its) ul) =
     insort_cmp cmp (vdata v) (shown_comments ul)"
  by (induction "\<lambda>s. cmp (vdata v) s \<le> 0" "CDiv v its" ul rule: insert_item.induct) auto

text \<open>The item goes between two parts of the list, which stay as they are.\<close>

lemma insert_item_cut:
  obtains xs ys where "ul = xs @ ys" "insert_item P x ul = xs @ [x] @ ys"
    "\<forall>s \<in> set (shown_comments xs). \<not> P s"
    "ys = [] \<or> (\<exists>v its rest. ys = CDiv v its # rest \<and> P (vdata v))"
proof -
  have "\<exists>xs ys. ul = xs @ ys \<and> insert_item P x ul = xs @ [x] @ ys \<and>
      (\<forall>s \<in> set (shown_comments xs). \<not> P s) \<and>
      (ys = [] \<or> (\<exists>v its rest. ys = CDiv v its # rest \<and> P (vdata v)))"
  proof (induction ul)
    case (Cons it rest)
    then obtain xs ys where IH: "rest = xs @ ys" "insert_item P x rest = xs @ [x] @ ys"
        "\<forall>s \<in> set (shown_comments xs). \<not> P s"
        "ys = [] \<or> (\<exists>v its r. ys = CDiv v its # r \<and> P (vdata v))"
      by blast
    have step: ?case if "insert_item P x (it # rest) = it # insert_item P x rest"
      "\<forall>s \<in> set (shown_comments (it # xs)). \<not> P s"
      by (rule exI[of _ "it # xs"], rule exI[of _ ys]) (use that IH in simp)
    have stop: ?case if "it = CDiv v its" "P (vdata v)" for v its
      by (rule exI[of _ "[]"], rule exI[of _ "it # rest"]) (use that in simp)
    show ?case
    proof (cases it)
      case (CDiv v its)
      then show ?thesis using stop step IH(3) by (cases "P (vdata v)") simp_all
    qed (use step IH(3) in simp_all)
  qed simp
  then show thesis using that by blast
qed

text \<open>Inserting into the page refines inserting into the list of its comments.\<close>

lemma insertComment_shown:
  assumes "numeric by"
  shows "shown_comments (insertComment by opts c ul) =
    (if displayed c \<or> moderator opts then insort_cmp (sort_comp by) c (shown_comments ul)
     else shown_comments ul)"
proof -
  have "not_after by c = (\<lambda>s. sort_comp by c s \<le> 0)"
    by (simp add: fun_eq_iff not_after_numeric[OF assms])
  moreover obtain v where "createCommentDiv opts c = CDiv v []" "vdata v = c" if "displayed c \<or> moderator opts"
    by (auto simp: createCommentDiv_def)
  moreover have "createCommentDiv opts c = Notice" if "\<not> (displayed c \<or> moderator opts)"
    using that by (simp add: createCommentDiv_def)
  ultimately show ?thesis
    using insert_item_shown[of "sort_comp by" v "[]" ul]
    by (cases "displayed c \<or> moderator opts") (simp_all add: insertComment_def insert_item_notice del: map_map)
qed

lemma shown_in_order:
  assumes "numeric by"
  shows "trees_in_order by (getChildren True (appendComments opts (sortComments by cs) [])) \<and>
    (moderator opts \<or> list_all displayed (all_comments cs) \<longrightarrow>
       mset (all_comments (getChildren True (appendComments opts (sortComments by cs) []))) =
         mset (all_comments cs))"
proof
  have g: "getChildren True (appendComments opts (sortComments by cs) []) = visible_trees opts (sortComments by cs)"
    by (simp add: getChildren_appendComments)
  show "trees_in_order by (getChildren True (appendComments opts (sortComments by cs) []))"
    unfolding g by (intro visible_in_order sortComments_in_order assms)
  have "set (all_comments (sortComments by cs)) = set (all_comments cs)"
    using mset_sortComments mset_eq_setD by blast
  then show "moderator opts \<or> list_all displayed (all_comments cs) \<longrightarrow>
      mset (all_comments (getChildren True (appendComments opts (sortComments by cs) []))) = mset (all_comments cs)"
    unfolding g using visible_all[of "sortComments by cs" opts] mset_sortComments[of "by" cs]
    by (auto simp: list_all_iff)
qed

section \<open>Properties\<close>

text \<open>
  C26. Loading comments shows each of them once and in order: for each of the orders offered, what the
  page displays after \<open>sortComments\<close> and \<open>appendComments\<close> is sorted at every level of the tree, and
  for a moderator, or when everything has been approved, it is exactly the comments of the server.
\<close>

theorem comments_displayed_in_order:
  assumes "numeric by"
  shows "trees_in_order by (getChildren True (appendComments opts (sortComments by cs) [])) \<and>
    (moderator opts \<or> list_all displayed (all_comments cs) \<longrightarrow>
       mset (all_comments (getChildren True (appendComments opts (sortComments by cs) []))) =
         mset (all_comments cs))"
  by (rule shown_in_order[OF assms])

definition sample_comment :: "string \<Rightarrow> int \<Rightarrow> int \<Rightarrow> cdata" where
  "sample_comment i r a =
     \<lparr>cid = i, cnode = ''n'', cparent = '''', username = ''ann'', ctext = ''hi'', rating = r, vote = 0,
      age = a, displayed = True, proposal_diff = ''''\<rparr>"

definition sample_opts :: ws_opts where
  "sample_opts = \<lparr>voting = True, moderator = False, opt_username = None\<rparr>"

theorem comments_displayed_in_order_witness:
  "trees_in_order ''ascage''
     (getChildren True (appendComments sample_opts
        (sortComments ''ascage'' [CTree (sample_comment ''1'' 3 9) [], CTree (sample_comment ''2'' 5 4) []]) []))"
proof -
  have "numeric ''ascage''" by (simp add: numeric_def substring_def substring_from_def)
  then show ?thesis using comments_displayed_in_order by blast
qed

text \<open>
  C27. A new comment is put into the list of its place and nothing else of the list changes: the list is cut
  in two, the new item stands between the parts, and every other item is where it was, with its
  replies.  The comments before the cut come strictly before the new one in the chosen order, and the
  cut is just before the first comment that does not, or at the end.  So a list in order stays in
  order.  A comment that awaits approval leaves a notice at that place, for all but moderators.
\<close>

theorem insertComment_in_order:
  assumes "numeric by"
  shows "\<exists>xs ys. ul = xs @ ys \<and> insertComment by opts c ul = xs @ [createCommentDiv opts c] @ ys \<and>
    (\<forall>s \<in> set (shown_comments xs). sort_comp by s c < 0) \<and>
    (ys = [] \<or> (\<exists>v its rest. ys = CDiv v its # rest \<and> sort_comp by c (vdata v) \<le> 0)) \<and>
    (in_order by (shown_comments ul) \<longrightarrow> in_order by (shown_comments (insertComment by opts c ul)))"
proof -
  obtain xs ys where cut: "ul = xs @ ys"
      "insertComment by opts c ul = xs @ [createCommentDiv opts c] @ ys"
      "\<forall>s \<in> set (shown_comments xs). \<not> not_after by c s"
      "ys = [] \<or> (\<exists>v its rest. ys = CDiv v its # rest \<and> not_after by c (vdata v))"
    unfolding insertComment_def by (rule insert_item_cut)
  have "sort_comp by s c < 0" if "\<not> not_after by c s" for s
    using that by (simp add: not_after_numeric[OF assms] sort_comp_key[OF assms])
  with cut(3) have before: "\<forall>s \<in> set (shown_comments xs). sort_comp by s c < 0" by blast
  have "in_order by (shown_comments (insertComment by opts c ul))" if "in_order by (shown_comments ul)"
    using that sorted_insort_cmp[of "sort_comp by" "shown_comments ul" c] consistent_sort_comp[OF assms]
    by (simp add: insertComment_shown[OF assms] in_order_def del: map_map)
  with cut(1,2,4) before show ?thesis
    by - (rule exI[of _ xs], rule exI[of _ ys], simp only: not_after_numeric[OF assms], blast)
qed

definition sample_list :: "item list" where
  "sample_list =
     appendComments sample_opts
       [CTree (sample_comment ''1'' 7 9) [CTree (sample_comment ''4'' 2 1) []],
        CTree (sample_comment ''2'' 3 4) []] []"

theorem insertComment_in_order_witness:
  "shown_comments sample_list = [sample_comment ''1'' 7 9, sample_comment ''2'' 3 4] \<and>
   in_order ''rating'' (shown_comments (insertComment ''rating'' sample_opts (sample_comment ''3'' 5 1) sample_list))"
proof
  show shown: "shown_comments sample_list = [sample_comment ''1'' 7 9, sample_comment ''2'' 3 4]"
    by (simp add: sample_list_def createCommentDiv_def sample_comment_def)
  have "numeric ''rating''" "in_order ''rating'' (shown_comments sample_list)"
    unfolding shown
    by (simp_all add: numeric_def substring_def in_order_def sort_comp_def comp_by_def field_def
        num_minus_def sample_comment_def)
  then show "in_order ''rating'' (shown_comments (insertComment ''rating'' sample_opts (sample_comment ''3'' 5 1) sample_list))"
    using insertComment_in_order by blast
qed

text \<open>
  C28. Reading the comments back from the page inverts writing them: \<open>getChildren\<close> after
  \<open>appendComments\<close> returns the comments, their order and their nesting, except for those a visitor
  may not see yet.
\<close>

theorem page_roundtrip:
  "getChildren True (appendComments opts cs []) = visible_trees opts cs
   \<and> getChildren True (appendComments (opts\<lparr>moderator := True\<rparr>) cs []) = cs"
  using visible_all[of cs "opts\<lparr>moderator := True\<rparr>"] by (simp add: getChildren_appendComments)

end
