(* ===== verification/WsPage.thy ===== *)
theory WsPage
  imports WsComments JqClass
begin

text \<open>
  The commenting widget of \<open>websupport.js\<close> as a state machine: the page keeps the order chosen by the
  user, the cookies, the comment windows that are open with their lists of comments, and the error
  messages; each user action and each answer of the server is one operation.
\<close>

section \<open>Cookies\<close>

definition hex_char :: "nat \<Rightarrow> char" where
  "hex_char d = char_of (if d < 10 then 48 + d else 55 + d)"

definition hex_val :: "char \<Rightarrow> nat option" where
  "hex_val c =
     (let u = of_char c :: nat in
      if 48 \<le> u \<and> u \<le> 57 then Some (u - 48)
      else if 65 \<le> u \<and> u \<le> 70 then Some (u - 55)
      else if 97 \<le> u \<and> u \<le> 102 then Some (u - 87)
      else None)"

definition escape_plain :: "char \<Rightarrow> bool" where
  "escape_plain c \<longleftrightarrow>
     (let u = of_char c :: nat in
      48 \<le> u \<and> u \<le> 57 \<or> 64 \<le> u \<and> u \<le> 90 \<or> 97 \<le> u \<and> u \<le> 122 \<or>
      u \<in> {42, 43, 45, 46, 47, 95})"

text \<open>\<open>escape\<close> and \<open>unescape\<close> of the language, on Latin-1 texts.\<close>

fun js_escape :: "string \<Rightarrow> string" where
  "js_escape [] = []"
| "js_escape (c # s) =
     (if escape_plain c then [c]
      else [CHR 0x25, hex_char (of_char c div 16), hex_char (of_char c mod 16)]) @ js_escape s"

fun js_unescape :: "string \<Rightarrow> string" where
  "js_unescape (p # h # l # s) =
     (case (hex_val h, hex_val l) of
        (Some x, Some y) \<Rightarrow>
          if p = CHR 0x25 then char_of (16 * x + y) # js_unescape s else p # js_unescape (h # l # s)
      | _ \<Rightarrow> p # js_unescape (h # l # s))"
| "js_unescape (c # s) = c # js_unescape s"
| "js_unescape [] = []"

type_synonym cookie_jar = "(string \<times> string) list"

text \<open>Reading \<open>document.cookie\<close>, and assigning to it: a cookie that exists keeps its place.\<close>

definition cookie_text :: "cookie_jar \<Rightarrow> string" where
  "cookie_text jar = join ''; '' (map (\<lambda>(k, v). k @ ''='' @ v) jar)"

fun set_cookie :: "string \<Rightarrow> string \<Rightarrow> cookie_jar \<Rightarrow> cookie_jar" where
  "set_cookie k v [] = [(k, v)]"
| "set_cookie k v ((k', v') # jar) = (if k = k' then (k, v) # jar else (k', v') # set_cookie k v jar)"

definition initComparator :: "string \<Rightarrow> string" where
  "initComparator cookie =
     (if length cookie > 0 \<and> str_index_of cookie ''sortBy='' \<noteq> -1
      then let start = str_index_of cookie ''sortBy='' + 7;
               end_pos = str_index_of_from cookie '';'' (nat start)
           in if end_pos = -1 then js_unescape (substring cookie start (int (length cookie)))
              else ''rating''
      else ''rating'')"

section \<open>The page\<close>

record sort_link =
  link_node :: class_node
  href :: "string option"

record popup =
  pop_id :: string
  pop_links :: "sort_link list"
  pop_list :: "item list"       \<comment> \<open>the list \<open>cl<id>\<close>\<close>
  pop_empty :: bool             \<comment> \<open>its data \<open>empty\<close>\<close>
  pop_shown :: "string set"     \<comment> \<open>elements shown, by the letters before the id\<close>
  pop_source :: "string option" \<comment> \<open>data \<open>source\<close> of the proposal box\<close>
  comment_box :: string
  proposal_box :: string
  form_disabled :: bool

record page =
  sort_by :: string
  cookies :: cookie_jar
  opened_ids :: "string list"  \<comment> \<open>nodes whose close link \<open>ah<id>\<close> is shown instead of \<open>ao<id>\<close>\<close>
  bright_ids :: "string list"  \<comment> \<open>nodes whose icon has been set to the bright one\<close>
  popups :: "popup list"
  messages :: "string list"    \<comment> \<open>\<open>showError\<close>\<close>

definition show_error :: "string \<Rightarrow> page \<Rightarrow> page" where
  "show_error m p = p\<lparr>messages := messages p @ [m]\<rparr>"

definition on_popup :: "string \<Rightarrow> (popup \<Rightarrow> popup) \<Rightarrow> page \<Rightarrow> page" where
  "on_popup i f p = p\<lparr>popups := map (\<lambda>u. if pop_id u = i then f u else u) (popups p)\<rparr>"

text \<open>The comment \<open>cd<id>\<close>, and the list \<open>cl<id>\<close> of a comment or of a window.\<close>

fun on_comment :: "string \<Rightarrow> (cview \<Rightarrow> item list \<Rightarrow> item) \<Rightarrow> item list \<Rightarrow> item list" where
  "on_comment i f [] = []"
| "on_comment i f (CDiv v its # rest) =
     (if cid (vdata v) = i then f v its else CDiv v (on_comment i f its)) # on_comment i f rest"
| "on_comment i f (it # rest) = it # on_comment i f rest"

definition on_view :: "string \<Rightarrow> (cview \<Rightarrow> cview) \<Rightarrow> page \<Rightarrow> page" where
  "on_view i f p =
     p\<lparr>popups := map (\<lambda>u. u\<lparr>pop_list := on_comment i (\<lambda>v its. CDiv (f v) its) (pop_list u)\<rparr>) (popups p)\<rparr>"

definition on_list :: "string \<Rightarrow> (item list \<Rightarrow> item list) \<Rightarrow> page \<Rightarrow> page" where
  "on_list i f p =
     p\<lparr>popups := map (\<lambda>u. if pop_id u = i then u\<lparr>pop_list := f (pop_list u)\<rparr>
                        else u\<lparr>pop_list := on_comment i (\<lambda>v its. CDiv v (f its)) (pop_list u)\<rparr>)
                   (popups p)\<rparr>"

definition set_shown :: "string set \<Rightarrow> string set \<Rightarrow> popup \<Rightarrow> popup" where
  "set_shown out into u = u\<lparr>pop_shown := pop_shown u - out \<union> into\<rparr>"

section \<open>The order of the comments\<close>

definition select_link :: "string \<Rightarrow> sort_link \<Rightarrow> sort_link" where
  "select_link b l =
     (let l1 = (if hasClass ''sel'' [link_node l]
                then l\<lparr>href := Some ''#'', link_node := remove_from ''sel'' (link_node l)\<rparr> else l)
      in if hasClass (''by'' @ b) [link_node l1]
         then l1\<lparr>href := None, link_node := add_to ''sel'' (link_node l1)\<rparr> else l1)"

definition setComparator :: "string \<Rightarrow> page \<Rightarrow> page" where
  "setComparator b p =
     p\<lparr>sort_by := b, popups := map (\<lambda>u. u\<lparr>pop_links := map (select_link b) (pop_links u)\<rparr>) (popups p)\<rparr>"

definition resort_list :: "ws_opts \<Rightarrow> string \<Rightarrow> item list \<Rightarrow> item list" where
  "resort_list opts b ul = appendComments opts (sortComments b (getChildren True ul)) []"

text \<open>The last class other than \<open>sort-option\<close>, without its first two letters, names the order.\<close>

fun link_order :: "string list \<Rightarrow> string \<Rightarrow> string" where
  "link_order [] b = b"
| "link_order (c # cs) b = link_order cs (if c \<noteq> ''sort-option'' then substring_from c 2 else b)"

definition handleReSort :: "ws_opts \<Rightarrow> sort_link \<Rightarrow> page \<Rightarrow> page" where
  "handleReSort opts l p =
     (let b = link_order (split_run is_space False [] (getClass (link_node l))) (sort_by p);
          p1 = setComparator b p;
          p2 = p1\<lparr>cookies := set_cookie ''sortBy'' (js_escape b) (cookies p1)\<rparr>
      in p2\<lparr>popups := map (\<lambda>u. u\<lparr>pop_list := resort_list opts b (pop_list u)\<rparr>) (popups p2)\<rparr>)"

section \<open>Windows\<close>

definition link_with :: "string \<Rightarrow> sort_link" where
  "link_with c = \<lparr>link_node = \<lparr>node_type = 1, class_attr = Some c, saved_name = None\<rparr>, href = Some ''#''\<rparr>"

text \<open>The links of the template, with the class of the current order marked.\<close>

definition new_links :: "string \<Rightarrow> sort_link list" where
  "new_links b =
     map (\<lambda>l. if hasClass (''by'' @ b) [link_node l] then l\<lparr>link_node := add_to ''sel'' (link_node l)\<rparr> else l)
       [link_with ''sort-option byrating'', link_with ''sort-option byascage'', link_with ''sort-option byage'']"

definition new_popup :: "string \<Rightarrow> string \<Rightarrow> popup" where
  "new_popup b i =
     \<lparr>pop_id = i, pop_links = new_links b, pop_list = [], pop_empty = False,
      pop_shown = {''cn'', ''ca'', ''ab'', ''pc''}, pop_source = None,
      comment_box = '''', proposal_box = '''', form_disabled = False\<rparr>"

definition show_window :: "string \<Rightarrow> page \<Rightarrow> page" where
  "show_window i p =
     p\<lparr>opened_ids := i # opened_ids p, popups := popups p @ [new_popup (sort_by p) i]\<rparr>"

definition hide_window :: "string \<Rightarrow> page \<Rightarrow> page" where
  "hide_window i p =
     p\<lparr>opened_ids := filter (\<lambda>j. j \<noteq> i) (opened_ids p),
       popups := filter (\<lambda>u. pop_id u \<noteq> i) (popups p)\<rparr>"

text \<open>The answer to \<open>getComments\<close>, or its failure.\<close>

definition comments_loaded :: "ws_opts \<Rightarrow> string \<Rightarrow> ctree list \<Rightarrow> string \<Rightarrow> page \<Rightarrow> page" where
  "comments_loaded opts i comments src p =
     on_popup i (\<lambda>u. set_shown {''cn''} {''cl''}
       (let u1 = u\<lparr>pop_source := Some src\<rparr>
        in if length comments = 0 then u1\<lparr>pop_list := [EmptyNote], pop_empty := True\<rparr>
           else u1\<lparr>pop_list := appendComments opts (sortComments (sort_by p) comments) (pop_list u1),
                   pop_empty := False\<rparr>)) p"

definition comments_failed :: "page \<Rightarrow> page" where
  "comments_failed = show_error ''Oops, there was a problem retrieving the comments.''"

section \<open>Adding a comment\<close>

record request =
  req_node :: string
  req_parent :: string
  req_text :: string
  req_proposal :: string

text \<open>Submitting a form: the request to the server, if one is sent.\<close>

definition addComment :: "request \<Rightarrow> page \<Rightarrow> page \<times> request option" where
  "addComment r p =
     (if req_text r = '''' then (show_error ''Please enter a comment.'' p, None)
      else (on_popup (req_node r) (\<lambda>u. u\<lparr>form_disabled := True\<rparr>) p, Some r))"

definition hideProposeChange :: "string \<Rightarrow> page \<Rightarrow> page" where
  "hideProposeChange i =
     on_popup i (\<lambda>u. (set_shown {''hc'', ''pt''} {''pc''} u)\<lparr>proposal_box := ''''\<rparr>)"

definition showProposeChange :: "string \<Rightarrow> page \<Rightarrow> page" where
  "showProposeChange i =
     on_popup i (\<lambda>u. (set_shown {''pc''} {''hc'', ''pt''} u)
       \<lparr>proposal_box := (case pop_source u of None \<Rightarrow> '''' | Some s \<Rightarrow> s)\<rparr>)"

definition toggleCommentMarkupBox :: "string \<Rightarrow> page \<Rightarrow> page" where
  "toggleCommentMarkupBox i =
     on_popup i (\<lambda>u. if ''mb'' \<in> pop_shown u then set_shown {''mb''} {} u else set_shown {} {''mb''} u)"

definition target :: "string \<Rightarrow> string \<Rightarrow> string" where
  "target nd par = (if nd \<noteq> '''' then nd else par)"

definition comment_added :: "ws_opts \<Rightarrow> request \<Rightarrow> cdata \<Rightarrow> page \<Rightarrow> page" where
  "comment_added opts r c p =
     (let p1 = (if req_node r \<noteq> '''' then hideProposeChange (req_node r) p else p);
          p2 = on_popup (req_node r)
                 (\<lambda>u. u\<lparr>comment_box := '''', proposal_box := '''', form_disabled := False\<rparr>) p1;
          p3 = on_popup (target (req_node r) (req_parent r))
                 (\<lambda>u. if pop_empty u then u\<lparr>pop_list := [], pop_empty := False\<rparr> else u) p2;
          p4 = on_list (target (cnode c) (cparent c)) (insertComment (sort_by p) opts c) p3
      in if req_node r \<noteq> ''''
         then (on_popup (req_node r) (set_shown {''ca''} {}) p4)\<lparr>bright_ids := req_node r # bright_ids p4\<rparr>
         else p4)"

definition comment_failed :: "request \<Rightarrow> page \<Rightarrow> page" where
  "comment_failed r p =
     show_error ''Oops, there was a problem adding the comment.''
       (on_popup (req_node r) (\<lambda>u. u\<lparr>form_disabled := False\<rparr>) p)"

section \<open>Moderating\<close>

definition accept_view :: "cview \<Rightarrow> cview" where
  "accept_view v = v\<lparr>vshown := vshown v - {''cm''}, vmoderate := False\<rparr>"

definition comment_accepted :: "string \<Rightarrow> page \<Rightarrow> page" where
  "comment_accepted i = on_view i accept_view"

definition comment_deleted :: "string \<Rightarrow> page \<Rightarrow> page" where
  "comment_deleted i p =
     p\<lparr>popups := map (\<lambda>u. u\<lparr>pop_list := on_comment i (\<lambda>v its. Hollow) (pop_list u)\<rparr>) (popups p)\<rparr>"

definition delete_view :: "cview \<Rightarrow> cview" where
  "delete_view v =
     (let gone = {''cm'', ''dc'', ''ac'', ''rc'', ''sp'', ''hp'', ''cr'', ''rl''}
      in v\<lparr>velems := velems v - gone, vshown := vshown v - gone, vuser := ''[deleted]'',
           vtext := ''[deleted]'', vdata := (vdata v)\<lparr>username := ''[deleted]'', ctext := ''[deleted]''\<rparr>\<rparr>)"

definition comment_marked_deleted :: "string \<Rightarrow> page \<Rightarrow> page" where
  "comment_marked_deleted i = on_view i delete_view"

definition moderation_failed :: "bool \<Rightarrow> page \<Rightarrow> page" where
  "moderation_failed accepting =
     show_error (if accepting then ''Oops, there was a problem accepting the comment.''
                 else ''Oops, there was a problem deleting the comment.'')"

definition show_elem :: "string \<Rightarrow> cview \<Rightarrow> cview" where
  "show_elem e v = (if e \<in> velems v then v\<lparr>vshown := insert e (vshown v)\<rparr> else v)"

definition hide_elem :: "string \<Rightarrow> cview \<Rightarrow> cview" where
  "hide_elem e v = v\<lparr>vshown := vshown v - {e}\<rparr>"

definition showProposal :: "string \<Rightarrow> page \<Rightarrow> page" where
  "showProposal i = on_view i (\<lambda>v. show_elem ''pr'' (show_elem ''hp'' (hide_elem ''sp'' v)))"

definition hideProposal :: "string \<Rightarrow> page \<Rightarrow> page" where
  "hideProposal i = on_view i (\<lambda>v. hide_elem ''pr'' (show_elem ''sp'' (hide_elem ''hp'' v)))"

section \<open>Voting\<close>

definition vote_value :: "string \<Rightarrow> int" where
  "vote_value i = (if i ! 1 \<noteq> CHR ''u'' then (if i ! 0 = CHR ''u'' then 1 else -1) else 0)"

text \<open>What a vote does to the comment; \<open>i\<close> is the id of the arrow.\<close>

definition vote_view :: "string \<Rightarrow> cview \<Rightarrow> cview" where
  "vote_view i v =
     (let val = vote_value i; c = vdata v;
          v1 = show_elem [i ! 0, if i ! 1 = CHR ''u'' then CHR ''v'' else CHR ''u''] (hide_elem [i ! 0, i ! 1] v);
          other = (if val = 1 then CHR ''d'' else CHR ''u'');
          v2 = (if val \<noteq> 0 \<and> vote c = - val
                then show_elem [other, CHR ''v''] (hide_elem [other, CHR ''u''] v1) else v1);
          r = rating c + (if vote c = 0 then val else val - vote c)
      in v2\<lparr>vdata := c\<lparr>rating := r, vote := val\<rparr>, vrating := pretty_rating r\<rparr>)"

definition handleVote :: "ws_opts \<Rightarrow> string \<Rightarrow> page \<Rightarrow> page" where
  "handleVote opts i p =
     (if \<not> voting opts then show_error ''You'll need to login to vote.'' p
      else if i = '''' then p
      else on_view (drop 2 i) (vote_view i) p)"

definition vote_failed :: "page \<Rightarrow> page" where
  "vote_failed = show_error ''Oops, there was a problem casting that vote.''"

section \<open>Replies\<close>

fun without_reply :: "string \<Rightarrow> item list \<Rightarrow> item list" where
  "without_reply i [] = []"
| "without_reply i (ReplyForm j # rest) =
     (if i = j then Hollow # rest else ReplyForm j # without_reply i rest)"
| "without_reply i (it # rest) = it # without_reply i rest"

definition openReply :: "string \<Rightarrow> page \<Rightarrow> page" where
  "openReply i p =
     on_list i (Cons (ReplyForm i)) (on_view i (\<lambda>v. show_elem ''cr'' (hide_elem ''rl'' v)) p)"

definition closeReply :: "string \<Rightarrow> page \<Rightarrow> page" where
  "closeReply i p =
     on_view i (\<lambda>v. show_elem ''rl'' (hide_elem ''cr'' v)) (on_list i (without_reply i) p)"

text \<open>Submitting a reply closes its form at once, whether or not the comment was sent.\<close>

definition submit_reply :: "request \<Rightarrow> page \<Rightarrow> page \<times> request option" where
  "submit_reply r p = (let (p', sent) = addComment r p in (closeReply (req_parent r) p', sent))"

section \<open>Invariant of the page\<close>

definition arrows :: "string set" where
  "arrows = {''uv'', ''uu'', ''dv'', ''du''}"

definition view_ok :: "cview \<Rightarrow> bool" where
  "view_ok v \<longleftrightarrow> vote (vdata v) \<in> {-1, 0, 1} \<and> vrating v = pretty_rating (rating (vdata v)) \<and>
     arrows \<subseteq> velems v \<and> vshown v \<inter> arrows = vote_arrows (vote (vdata v))"

fun items_all :: "(cview \<Rightarrow> bool) \<Rightarrow> item list \<Rightarrow> bool" where
  "items_all P [] = True"
| "items_all P (CDiv v its # rest) = (P v \<and> items_all P its \<and> items_all P rest)"
| "items_all P (it # rest) = items_all P rest"

definition page_all :: "(cview \<Rightarrow> bool) \<Rightarrow> page \<Rightarrow> bool" where
  "page_all P p \<longleftrightarrow> list_all (\<lambda>u. items_all P (pop_list u)) (popups p)"

definition votes_valid :: "ctree list \<Rightarrow> bool" where
  "votes_valid cs \<longleftrightarrow> list_all (\<lambda>c. vote c \<in> {-1, 0, 1}) (all_comments cs)"

text \<open>The arrow \<open>i\<close> can be clicked: it is an arrow, and it is shown.\<close>

definition arrow_shown :: "string \<Rightarrow> page \<Rightarrow> bool" where
  "arrow_shown i p \<longleftrightarrow> 2 \<le> length i \<and> [i ! 0, i ! 1] \<in> arrows \<and>
     page_all (\<lambda>v. cid (vdata v) = drop 2 i \<longrightarrow> [i ! 0, i ! 1] \<in> vshown v) p"

text \<open>What can happen next.\<close>

inductive ws_step :: "ws_opts \<Rightarrow> page \<Rightarrow> page \<Rightarrow> bool" for opts where
  Show: "ws_step opts p (show_window i p)"
| Hide: "ws_step opts p (hide_window i p)"
| Loaded: "votes_valid cs \<Longrightarrow> ws_step opts p (comments_loaded opts i cs src p)"
| Load_failed: "ws_step opts p (comments_failed p)"
| Submit: "ws_step opts p (fst (addComment r p))"
| Reply: "ws_step opts p (fst (submit_reply r p))"
| Added: "vote c \<in> {-1, 0, 1} \<Longrightarrow> ws_step opts p (comment_added opts r c p)"
| Add_failed: "ws_step opts p (comment_failed r p)"
| Accepted: "ws_step opts p (comment_accepted i p)"
| Deleted: "ws_step opts p (comment_deleted i p)"
| Marked: "ws_step opts p (comment_marked_deleted i p)"
| Moderation_failed: "ws_step opts p (moderation_failed b p)"
| Proposal: "ws_step opts p (showProposal i p)"
| Proposal_closed: "ws_step opts p (hideProposal i p)"
| Change: "ws_step opts p (showProposeChange i p)"
| Change_closed: "ws_step opts p (hideProposeChange i p)"
| Markup: "ws_step opts p (toggleCommentMarkupBox i p)"
| Sort: "ws_step opts p (handleReSort opts l p)"
| Vote: "arrow_shown i p \<Longrightarrow> ws_step opts p (handleVote opts i p)"
| Vote_failed: "ws_step opts p (vote_failed p)"
| Reply_opened: "ws_step opts p (openReply i p)"
| Reply_closed: "ws_step opts p (closeReply i p)"

inductive_cases ws_stepE: "ws_step opts p q"

subsection \<open>Preservation\<close>

lemma items_all_append [simp]: "items_all P (xs @ ys) \<longleftrightarrow> items_all P xs \<and> items_all P ys"
  by (induction P xs rule: items_all.induct) auto

lemma items_all_Cons: "items_all P (x # xs) \<longleftrightarrow> items_all P [x] \<and> items_all P xs"
  by (cases x) auto

definition item_step :: "(cview \<Rightarrow> bool) \<Rightarrow> string \<Rightarrow> (cview \<Rightarrow> item list \<Rightarrow> item) \<Rightarrow> bool" where
  "item_step P i f \<longleftrightarrow>
     (\<forall>v its. P v \<longrightarrow> cid (vdata v) = i \<longrightarrow> items_all P its \<longrightarrow> items_all P [f v its])"

lemma items_all_on_comment: "item_step P i f \<Longrightarrow> items_all P its \<Longrightarrow> items_all P (on_comment i f its)"
proof (induction i f its rule: on_comment.induct)
  case (2 i f v its rest)
  then have "items_all P [if cid (vdata v) = i then f v its else CDiv v (on_comment i f its)]"
    by (simp add: item_step_def)
  with 2 show ?case using items_all_Cons by (metis items_all.simps(2) on_comment.simps(2))
qed auto

lemma vote_arrows_sub: "vote_arrows v \<subseteq> arrows"
  by (auto simp: vote_arrows_def arrows_def swap_shown_def Let_def)

lemma reply_links_arrows: "reply_links opts c \<inter> arrows = {}"
  by (auto simp: reply_links_def arrows_def)

lemma view_ok_create:
  "vote c \<in> {-1, 0, 1} \<Longrightarrow> items_all view_ok its \<Longrightarrow>
     items_all view_ok [fill_children (createCommentDiv opts c) its]"
  using vote_arrows_sub[of "vote c"] reply_links_arrows[of opts c]
  by (auto simp: createCommentDiv_def view_ok_def template_elems_def arrows_def)

lemma view_ok_append:
  "votes_valid cs \<Longrightarrow> items_all view_ok ul \<Longrightarrow> items_all view_ok (appendComments opts cs ul)"
proof (induction opts cs ul rule: appendComments.induct)
  case (2 opts c cs rest ul)
  then show ?case using view_ok_create[of c "appendComments opts cs []" opts] by (simp add: votes_valid_def)
qed simp

lemma votes_valid_sort: "votes_valid cs \<Longrightarrow> votes_valid (sortComments b cs)"
  using mset_sortComments[of b cs] mset_eq_setD[of "all_comments (sortComments b cs)" "all_comments cs"]
  by (simp add: votes_valid_def list_all_iff)

lemma votes_valid_page: "items_all view_ok its \<Longrightarrow> votes_valid (getChildren True its)"
  by (induction True its rule: getChildren.induct) (auto simp: votes_valid_def view_ok_def)

lemma view_ok_insert_item:
  "items_all view_ok [x] \<Longrightarrow> items_all view_ok ul \<Longrightarrow> items_all view_ok (insert_item P x ul)"
  by (induction P x ul rule: insert_item.induct) (auto simp: items_all_Cons[of _ _ "_ # _"])

lemma view_ok_without_reply: "items_all P ul \<Longrightarrow> items_all P (without_reply i ul)"
  by (induction i ul rule: without_reply.induct) auto

lemma page_all_popups:
  "page_all P p \<Longrightarrow> (\<And>u. items_all P (pop_list u) \<Longrightarrow> items_all P (pop_list (f u))) \<Longrightarrow>
     page_all P (p\<lparr>popups := map f (popups p)\<rparr>)"
  by (simp add: page_all_def list.pred_map comp_def list.pred_mono_strong)

lemma page_all_on_popup [inv_intros]:
  "page_all P p \<Longrightarrow> (\<And>u. items_all P (pop_list u) \<Longrightarrow> items_all P (pop_list (f u))) \<Longrightarrow>
     page_all P (on_popup i f p)"
  unfolding on_popup_def by (rule page_all_popups) auto

lemma page_all_on_view [inv_intros]:
  assumes "page_all P p" "\<And>v. P v \<Longrightarrow> cid (vdata v) = i \<Longrightarrow> P (f v)"
  shows "page_all P (on_view i f p)"
proof -
  have "item_step P i (\<lambda>v its. CDiv (f v) its)" using assms(2) by (simp add: item_step_def)
  then show ?thesis
    unfolding on_view_def using assms(1) by (intro page_all_popups) (simp_all add: items_all_on_comment)
qed

lemma page_all_on_list [inv_intros]:
  assumes "page_all P p" "\<And>its. items_all P its \<Longrightarrow> items_all P (f its)"
  shows "page_all P (on_list i f p)"
proof -
  have "item_step P i (\<lambda>v its. CDiv v (f its))" using assms(2) by (simp add: item_step_def)
  then show ?thesis
    unfolding on_list_def using assms by (intro page_all_popups) (simp_all add: items_all_on_comment)
qed

lemma page_all_show_error [inv_intros]: "page_all P p \<Longrightarrow> page_all P (show_error m p)"
  by (simp add: show_error_def page_all_def)

lemma pop_list_set_shown [simp]: "pop_list (set_shown x y u) = pop_list u"
  by (simp add: set_shown_def)

lemma shown_outside:
  "X \<inter> arrows = {} \<Longrightarrow> (S - X) \<inter> arrows = S \<inter> arrows"
  "e \<notin> arrows \<Longrightarrow> insert e S \<inter> arrows = S \<inter> arrows"
  by blast+

lemma view_ok_elems:
  "view_ok v \<Longrightarrow> e \<notin> arrows \<Longrightarrow> view_ok (show_elem e v)"
  "view_ok v \<Longrightarrow> e \<notin> arrows \<Longrightarrow> view_ok (hide_elem e v)"
  by (simp_all add: view_ok_def show_elem_def hide_elem_def shown_outside)

lemma view_ok_accept: "view_ok v \<Longrightarrow> view_ok (accept_view v)"
proof -
  have "{''cm''} \<inter> arrows = {}" by (simp add: arrows_def)
  then show "view_ok v \<Longrightarrow> view_ok (accept_view v)" by (simp add: view_ok_def accept_view_def shown_outside)
qed

lemma view_ok_delete: "view_ok v \<Longrightarrow> view_ok (delete_view v)"
proof -
  have g: "{''cm'', ''dc'', ''ac'', ''rc'', ''sp'', ''hp'', ''cr'', ''rl''} \<inter> arrows = {}"
    by (simp add: arrows_def)
  have "arrows \<subseteq> E \<Longrightarrow> arrows \<subseteq> E - {''cm'', ''dc'', ''ac'', ''rc'', ''sp'', ''hp'', ''cr'', ''rl''}" for E
    using g by blast
  then show "view_ok v \<Longrightarrow> view_ok (delete_view v)"
    using g by (simp add: view_ok_def delete_view_def shown_outside Let_def)
qed

text \<open>The arrows shown, one by one.\<close>

lemma arrows_iff:
  assumes "w \<in> {-1, 0, 1}"
  shows "S \<inter> arrows = vote_arrows w \<longleftrightarrow>
    (''uv'' \<in> S \<longleftrightarrow> w \<noteq> 1) \<and> (''uu'' \<in> S \<longleftrightarrow> w = 1) \<and> (''dv'' \<in> S \<longleftrightarrow> w \<noteq> -1) \<and> (''du'' \<in> S \<longleftrightarrow> w = -1)"
proof -
  have "S \<inter> arrows = vote_arrows w \<longleftrightarrow> (\<forall>e \<in> arrows. e \<in> S \<longleftrightarrow> e \<in> vote_arrows w)"
    using vote_arrows_sub[of w] by blast
  also have "\<dots> \<longleftrightarrow> (''uv'' \<in> S \<longleftrightarrow> w \<noteq> 1) \<and> (''uu'' \<in> S \<longleftrightarrow> w = 1) \<and>
      (''dv'' \<in> S \<longleftrightarrow> w \<noteq> -1) \<and> (''du'' \<in> S \<longleftrightarrow> w = -1)"
    using assms by (elim insertE) (simp_all add: arrows_def vote_arrows_def swap_shown_def Let_def)
  finally show ?thesis .
qed

lemma velems_elem [simp]:
  "velems (show_elem e v) = velems v" "velems (hide_elem e v) = velems v"
  by (simp_all add: show_elem_def hide_elem_def)

lemma vshown_elem:
  "x \<in> vshown (show_elem e v) \<longleftrightarrow> x = e \<and> e \<in> velems v \<or> x \<in> vshown v"
  "x \<in> vshown (hide_elem e v) \<longleftrightarrow> x \<noteq> e \<and> x \<in> vshown v"
  by (auto simp: show_elem_def hide_elem_def)

lemma vote_view_facts:
  "velems (vote_view i v) = velems v"
  "vote (vdata (vote_view i v)) = vote_value i"
  "rating (vdata (vote_view i v)) - vote_value i = rating (vdata v) - vote (vdata v)"
  "vrating (vote_view i v) = pretty_rating (rating (vdata (vote_view i v)))"
  by (simp_all add: vote_view_def Let_def)

lemma vshown_vote_view:
  "x \<in> vshown (vote_view i v) \<longleftrightarrow>
     (let val = vote_value i;
          v1 = show_elem [i ! 0, if i ! 1 = CHR ''u'' then CHR ''v'' else CHR ''u''] (hide_elem [i ! 0, i ! 1] v);
          other = (if val = 1 then CHR ''d'' else CHR ''u'')
      in if val \<noteq> 0 \<and> vote (vdata v) = - val
         then x \<in> vshown (show_elem [other, CHR ''v''] (hide_elem [other, CHR ''u''] v1)) else x \<in> vshown v1)"
  by (simp add: vote_view_def Let_def)

lemma view_ok_vote:
  assumes ok: "view_ok v" and "[i ! 0, i ! 1] \<in> arrows" and sh: "[i ! 0, i ! 1] \<in> vshown v"
  shows "view_ok (vote_view i v)"
proof -
  let ?w = "vote (vdata v)"
  have el: "''uv'' \<in> velems v" "''uu'' \<in> velems v" "''dv'' \<in> velems v" "''du'' \<in> velems v"
    using ok by (auto simp: view_ok_def arrows_def)
  have w: "?w \<in> {-1, 0, 1}" using ok by (simp add: view_ok_def)
  have m: "(''uv'' \<in> vshown v \<longleftrightarrow> ?w \<noteq> 1) \<and> (''uu'' \<in> vshown v \<longleftrightarrow> ?w = 1) \<and>
      (''dv'' \<in> vshown v \<longleftrightarrow> ?w \<noteq> -1) \<and> (''du'' \<in> vshown v \<longleftrightarrow> ?w = -1)"
    using ok arrows_iff[OF w] by (simp add: view_ok_def)
  have val: "vote_value i \<in> {-1, 0, 1}" by (simp add: vote_value_def)
  consider (uv) "i ! 0 = CHR ''u''" "i ! 1 = CHR ''v''" | (uu) "i ! 0 = CHR ''u''" "i ! 1 = CHR ''u''"
    | (dv) "i ! 0 = CHR ''d''" "i ! 1 = CHR ''v''" | (du) "i ! 0 = CHR ''d''" "i ! 1 = CHR ''u''"
    using assms(2) by (auto simp: arrows_def)
  then have "vshown (vote_view i v) \<inter> arrows = vote_arrows (vote_value i)"
    unfolding arrows_iff[OF val]
    by cases (use sh w m el in \<open>auto simp: vshown_vote_view vshown_elem vote_value_def Let_def\<close>)
  then show ?thesis using ok val by (simp add: view_ok_def vote_view_facts)
qed

definition page_ok :: "page \<Rightarrow> bool" where
  "page_ok p \<longleftrightarrow> page_all view_ok p"

lemma fill_create: "fill_children (createCommentDiv opts c) [] = createCommentDiv opts c"
  by (simp add: createCommentDiv_def)

lemma page_ok_comment_added:
  assumes "page_ok p" "vote c \<in> {-1, 0, 1}"
  shows "page_ok (comment_added opts r c p)"
proof -
  have ins: "items_all view_ok its \<Longrightarrow> items_all view_ok (insertComment (sort_by p) opts c its)" for its
    unfolding insertComment_def using view_ok_create[of c "[]" opts] assms(2) fill_create[of opts c]
    by (intro view_ok_insert_item) simp_all
  have bright: "page_all P (q\<lparr>bright_ids := b\<rparr>) = page_all P q" for P q b
    by (simp add: page_all_def)
  show ?thesis
    unfolding comment_added_def Let_def hideProposeChange_def page_ok_def
    using assms(1)[unfolded page_ok_def] ins
    by (simp add: bright) (intro conjI impI page_all_on_popup page_all_on_list; simp)
qed

lemma page_ok_resort:
  assumes "page_ok p"
  shows "page_ok (handleReSort opts l p)"
proof -
  have "items_all view_ok (resort_list opts b ul)" if "items_all view_ok ul" for b ul
    unfolding resort_list_def using votes_valid_page[OF that]
    by (intro view_ok_append votes_valid_sort) simp_all
  then show ?thesis using assms
    by (simp add: page_ok_def page_all_def handleReSort_def setComparator_def Let_def list.pred_map comp_def
        list.pred_mono_strong)
qed

lemma page_ok_vote:
  assumes "page_ok p" "arrow_shown i p"
  shows "page_ok (handleVote opts i p)"
proof -
  have both: "page_all (\<lambda>v. view_ok v \<and> (cid (vdata v) = drop 2 i \<longrightarrow> [i ! 0, i ! 1] \<in> vshown v)) p"
  proof -
    have "items_all P its \<Longrightarrow> items_all Q its \<Longrightarrow> items_all (\<lambda>v. P v \<and> Q v) its" for P Q its
      by (induction P its rule: items_all.induct) auto
    then show ?thesis
      using assms unfolding page_ok_def arrow_shown_def page_all_def list_all_iff by blast
  qed
  have weak: "items_all (\<lambda>v. P v \<and> Q v) its \<Longrightarrow> items_all P its" for P Q its
    by (induction P its rule: items_all.induct) auto
  have step: "item_step (\<lambda>v. view_ok v) (drop 2 i)
      (\<lambda>v its. if [i ! 0, i ! 1] \<in> vshown v then CDiv (vote_view i v) its else CDiv v its)"
    using view_ok_vote assms(2) by (simp add: item_step_def arrow_shown_def)
  have same: "on_comment (drop 2 i) (\<lambda>v its. CDiv (vote_view i v) its) its =
      on_comment (drop 2 i) (\<lambda>v its. if [i ! 0, i ! 1] \<in> vshown v then CDiv (vote_view i v) its else CDiv v its) its"
    if "items_all (\<lambda>v. cid (vdata v) = drop 2 i \<longrightarrow> [i ! 0, i ! 1] \<in> vshown v) its" for its
    using that
    by (induction "drop 2 i" "\<lambda>v its. CDiv (vote_view i v) its" its rule: on_comment.induct) auto
  have "page_all view_ok (on_view (drop 2 i) (vote_view i) p)"
    using assms items_all_on_comment[OF step] same
    unfolding on_view_def page_ok_def arrow_shown_def page_all_def list_all_iff by auto
  then show ?thesis using assms(1) by (simp add: handleVote_def page_ok_def page_all_show_error)
qed

lemma page_ok_loaded:
  assumes "page_ok p" "votes_valid cs"
  shows "page_ok (comments_loaded opts i cs src p)"
  unfolding comments_loaded_def page_ok_def
  by (rule page_all_on_popup) (use assms in \<open>simp_all add: page_ok_def Let_def view_ok_append votes_valid_sort\<close>)

lemma page_ok_deleted: "page_ok p \<Longrightarrow> page_ok (comment_deleted i p)"
proof -
  have "item_step view_ok i (\<lambda>v its. Hollow)" by (simp add: item_step_def)
  then show "page_ok p \<Longrightarrow> page_ok (comment_deleted i p)"
    unfolding comment_deleted_def page_ok_def by (intro page_all_popups) (simp_all add: items_all_on_comment)
qed

lemma page_ok_show: "page_ok p \<Longrightarrow> page_ok (show_window i p)"
  by (simp add: page_ok_def page_all_def show_window_def new_popup_def)

lemma page_ok_hide: "page_ok p \<Longrightarrow> page_ok (hide_window i p)"
  by (auto simp: page_ok_def page_all_def hide_window_def list_all_iff)

lemma page_ok_error: "page_ok p \<Longrightarrow> page_ok (show_error m p)"
  by (simp add: page_ok_def page_all_show_error)

lemma page_ok_boxes:
  assumes "page_ok p"
  shows "page_ok (showProposeChange i p)" "page_ok (hideProposeChange i p)"
    "page_ok (toggleCommentMarkupBox i p)" "page_ok (fst (addComment r p))" "page_ok (comment_failed r p)"
  using assms unfolding page_ok_def showProposeChange_def hideProposeChange_def toggleCommentMarkupBox_def
    addComment_def comment_failed_def
  by (auto intro!: page_all_on_popup page_all_show_error)

lemma page_ok_links:
  assumes "page_ok p"
  shows "page_ok (comment_accepted i p)" "page_ok (comment_marked_deleted i p)"
    "page_ok (showProposal i p)" "page_ok (hideProposal i p)"
  using assms unfolding page_ok_def comment_accepted_def comment_marked_deleted_def showProposal_def hideProposal_def
  by (auto intro!: page_all_on_view view_ok_accept view_ok_delete view_ok_elems simp: arrows_def)

lemma page_ok_replies:
  assumes "page_ok p"
  shows "page_ok (openReply i p)" "page_ok (closeReply i p)"
  using assms unfolding page_ok_def openReply_def closeReply_def
  by (auto intro!: page_all_on_view page_all_on_list view_ok_elems view_ok_without_reply simp: arrows_def)

lemma page_ok_step: "ws_step opts p q \<Longrightarrow> page_ok p \<Longrightarrow> page_ok q"
  by (induction rule: ws_step.induct)
     (simp_all add: page_ok_show page_ok_hide page_ok_loaded page_ok_comment_added page_ok_boxes page_ok_links
       page_ok_replies page_ok_deleted page_ok_resort page_ok_vote page_ok_error comments_failed_def
       moderation_failed_def vote_failed_def submit_reply_def case_prod_unfold Let_def)

section \<open>Cookies round trip\<close>

lemma hex_val_char: "d < 16 \<Longrightarrow> hex_val (hex_char d) = Some d"
  by (auto simp: hex_val_def hex_char_def Let_def)

lemma js_unescape_plain:
  "c \<noteq> CHR 0x25 \<Longrightarrow> js_unescape (c # s) = c # js_unescape s"
  by (cases s; cases "tl s") (auto split: option.splits)

lemma of_char_bound: "(of_char c :: nat) < 256"
  by (metis of_char_mod_256 mod_less_divisor zero_less_numeral)

lemma js_unescape_escape: "js_unescape (js_escape s) = s"
proof (induction s)
  case (Cons c s)
  show ?case
  proof (cases "escape_plain c")
    case True
    then have "c \<noteq> CHR 0x25" by (auto simp: escape_plain_def)
    with True Cons show ?thesis by (simp add: js_unescape_plain)
  next
    case False
    have "of_char c < (256::nat)" by (rule of_char_bound)
    then have "of_char c div 16 < (16::nat)" by (intro less_mult_imp_div_less) simp
    then show ?thesis using False Cons by (simp add: hex_val_char)
  qed
qed simp

lemma substring_behind: "substring (p @ x) (int (length p)) (int (length p + length x)) = x"
  by (simp add: substring_def Let_def)

lemma escape_no_semicolon: "CHR '';'' \<notin> set (js_escape s)"
proof -
  have h: "hex_char d \<noteq> CHR '';''" if "d < 16" for d
  proof
    assume "hex_char d = CHR '';''"
    then have "hex_val (hex_char d) = None" by (simp add: hex_val_def)
    with that show False by (simp add: hex_val_char)
  qed
  show ?thesis
  proof (induction s)
    case (Cons c s)
    have "of_char c < (256::nat)" by (rule of_char_bound)
    then have "of_char c div 16 < (16::nat)" by (intro less_mult_imp_div_less) simp
    then have "hex_char (of_char c div 16) \<noteq> CHR '';''" "hex_char (of_char c mod 16) \<noteq> CHR '';''"
      using h by simp_all
    then show ?case using Cons by (auto simp: escape_plain_def)
  qed simp
qed

lemma find_sub_absent: "p \<noteq> [] \<Longrightarrow> hd p \<notin> set s \<Longrightarrow> find_sub p s = None"
  by (induction s) (auto simp: neq_Nil_conv)

lemma find_sub_behind: "hd p \<notin> set s \<Longrightarrow> p \<noteq> [] \<Longrightarrow> is_prefix p t \<Longrightarrow> find_sub p (s @ t) = Some (length s)"
proof (induction s)
  case Nil
  then show ?case by (cases t) (auto simp: neq_Nil_conv)
next
  case (Cons c s)
  then show ?case by (auto simp: neq_Nil_conv)
qed

lemma initComparator_last: "initComparator (''sortBy='' @ js_escape b) = b"
proof -
  have "str_index_of_from (''sortBy='' @ js_escape b) '';'' 7 = -1"
    using find_sub_absent[of "'';''" "js_escape b"] escape_no_semicolon[of b]
    by (simp add: str_index_of_from_def)
  moreover have "str_index_of (''sortBy='' @ js_escape b) ''sortBy='' = 0"
    by (simp add: str_index_of_def)
  moreover have "substring (''sortBy='' @ js_escape b) 7 (int (length (''sortBy='' @ js_escape b))) = js_escape b"
    using substring_behind[of "''sortBy=''" "js_escape b"] by simp
  ultimately show ?thesis
    by (simp only: initComparator_def Let_def) (simp add: js_unescape_escape del: js_unescape.simps)
qed

lemma initComparator_followed: "initComparator (''sortBy='' @ js_escape b @ CHR '';'' # rest) = ''rating''"
proof -
  have "find_sub '';'' (js_escape b @ CHR '';'' # rest) = Some (length (js_escape b))"
    by (rule find_sub_behind) (simp_all add: escape_no_semicolon)
  then have "str_index_of_from (''sortBy='' @ js_escape b @ CHR '';'' # rest) '';'' 7 = int (7 + length (js_escape b))"
    by (simp add: str_index_of_from_def)
  moreover have "str_index_of (''sortBy='' @ js_escape b @ CHR '';'' # rest) ''sortBy='' = 0"
    by (simp add: str_index_of_def)
  ultimately show ?thesis by (simp add: initComparator_def Let_def)
qed

section \<open>Properties\<close>

definition start_page :: "cookie_jar \<Rightarrow> page" where
  "start_page jar =
     \<lparr>sort_by = initComparator (cookie_text jar), cookies = jar, opened_ids = [], bright_ids = [],
      popups = [], messages = []\<rparr>"

text \<open>
  C7. Whatever the user does and the server answers, in any order: for every comment on the page the
  displayed rating is that of the comment's data, the vote is up, down or none, and the arrows shown
  are those of that vote (the pressed one of the direction voted for, the open ones otherwise), so
  that both arrows can never be pressed at once.
\<close>

theorem widget_stays_consistent:
  assumes "(ws_step opts)\<^sup>*\<^sup>* (start_page jar) p"
  shows "page_all view_ok p"
proof -
  have "page_ok (start_page jar)" by (simp add: page_ok_def page_all_def start_page_def)
  with assms have "page_ok p" by induction (auto intro: page_ok_step)
  then show ?thesis by (simp add: page_ok_def)
qed

theorem widget_stays_consistent_witness:
  "page_all view_ok (handleVote sample_opts ''uv7''
     (comments_loaded sample_opts ''n'' [CTree (sample_comment ''7'' 2 1) []] '''' (show_window ''n'' (start_page []))))"
proof -
  let ?p1 = "show_window ''n'' (start_page [])"
  let ?p2 = "comments_loaded sample_opts ''n'' [CTree (sample_comment ''7'' 2 1) []] '''' ?p1"
  have s1: "ws_step sample_opts (start_page []) ?p1" by (rule ws_step.Show)
  have s2: "ws_step sample_opts ?p1 ?p2"
    by (rule ws_step.Loaded) (simp add: votes_valid_def sample_comment_def)
  have lists: "map pop_list (popups ?p2) =
      [[createCommentDiv sample_opts (sample_comment ''7'' 2 1)]]"
    by (simp add: comments_loaded_def on_popup_def show_window_def start_page_def new_popup_def Let_def
        sortComments_single fill_create del: new_links_def)
  have item: "items_all (\<lambda>v. cid (vdata v) = ''7'' \<longrightarrow> ''uv'' \<in> vshown v)
      [createCommentDiv sample_opts (sample_comment ''7'' 2 1)]"
    by (simp add: createCommentDiv_def sample_comment_def vote_arrows_def)
  have pages: "page_all P q \<longleftrightarrow> list_all (items_all P) (map pop_list (popups q))" for P q
    by (simp add: page_all_def list.pred_map comp_def)
  have arrow: "arrow_shown ''uv7'' q"
    if "page_all (\<lambda>v. cid (vdata v) = ''7'' \<longrightarrow> ''uv'' \<in> vshown v) q" for q
    using that by (simp add: arrow_shown_def arrows_def)
  have "arrow_shown ''uv7'' ?p2"
    by (rule arrow, subst pages, subst lists) (use item in \<open>simp only: list.pred_inject\<close>)
  then have s3: "ws_step sample_opts ?p2 (handleVote sample_opts ''uv7'' ?p2)" by (rule ws_step.Vote)
  have r1: "(ws_step sample_opts)\<^sup>*\<^sup>* (start_page []) ?p1" by (rule r_into_rtranclp, rule s1)
  have r2: "(ws_step sample_opts)\<^sup>*\<^sup>* (start_page []) ?p2" by (rule rtranclp.rtrancl_into_rtrancl, rule r1, rule s2)
  have r3: "(ws_step sample_opts)\<^sup>*\<^sup>* (start_page []) (handleVote sample_opts ''uv7'' ?p2)"
    by (rule rtranclp.rtrancl_into_rtrancl, rule r2, rule s3)
  show ?thesis by (rule widget_stays_consistent, rule r3)
qed

text \<open>
  C29. Votes are counted once: after any sequence of clicks on the arrows of a comment, the rating is
  the rating without the user's vote plus the value of the last arrow clicked, which is the vote kept.
\<close>

theorem votes_count_once:
  assumes "is \<noteq> []"
  shows "vote (vdata (fold vote_view is v)) = vote_value (last is) \<and>
    rating (vdata (fold vote_view is v)) =
      rating (vdata v) - vote (vdata v) + vote_value (last is)"
  using assms
proof (induction "is" arbitrary: v)
  case (Cons i "is")
  have v: "vote (vdata (vote_view i v)) = vote_value i"
    "rating (vdata (vote_view i v)) - vote_value i = rating (vdata v) - vote (vdata v)"
    by (rule vote_view_facts)+
  show ?case
  proof (cases "is = []")
    case True
    then show ?thesis using v by simp
  next
    case False
    then show ?thesis using Cons.IH[of "vote_view i v"] v by simp
  qed
qed simp

theorem votes_count_once_witness:
  "\<forall>v. vote (vdata (fold vote_view [''uv7'', ''dv7'', ''du7''] v)) = 0 \<and>
       rating (vdata (fold vote_view [''uv7'', ''dv7'', ''du7''] v)) = rating (vdata v) - vote (vdata v)"
  using votes_count_once[of "[''uv7'', ''dv7'', ''du7'']"] by (simp add: vote_value_def)

text \<open>
  Choosing another order rearranges the comments of every open window and loses none: each list
  is then in the new order at every level and, for a moderator or when everything on the page has
  been approved, holds the same comments as before.
\<close>

theorem handleReSort_rearranges:
  assumes "numeric (sort_by (handleReSort opts l p))"
  shows "list_all2 (\<lambda>u u'.
      trees_in_order (sort_by (handleReSort opts l p)) (getChildren True (pop_list u')) \<and>
      (moderator opts \<or> list_all displayed (all_comments (getChildren True (pop_list u))) \<longrightarrow>
        mset (all_comments (getChildren True (pop_list u'))) =
          mset (all_comments (getChildren True (pop_list u)))))
    (popups p) (popups (handleReSort opts l p))"
proof -
  define b where "b = link_order (split_run is_space False [] (getClass (link_node l))) (sort_by p)"
  have b: "sort_by (handleReSort opts l p) = b"
    by (simp add: handleReSort_def setComparator_def Let_def b_def)
  have pops: "map pop_list (popups (handleReSort opts l p)) = map (resort_list opts b \<circ> pop_list) (popups p)"
    by (simp add: handleReSort_def setComparator_def Let_def b_def[symmetric])
  have one: "trees_in_order b (getChildren True (resort_list opts b ul)) \<and>
      (moderator opts \<or> list_all displayed (all_comments (getChildren True ul)) \<longrightarrow>
        mset (all_comments (getChildren True (resort_list opts b ul))) = mset (all_comments (getChildren True ul)))"
    for ul
    unfolding resort_list_def using shown_in_order[of b opts "getChildren True ul"] assms b by simp
  show ?thesis
    unfolding list_all2_conv_all_nth b
  proof (intro conjI allI impI)
    show len: "length (popups p) = length (popups (handleReSort opts l p))"
      using arg_cong[OF pops, of length] by simp
    fix i assume "i < length (popups p)"
    then have "pop_list (popups (handleReSort opts l p) ! i) = resort_list opts b (pop_list (popups p ! i))"
      using arg_cong[OF pops, of "\<lambda>xs. xs ! i"] len by simp
    then show "trees_in_order b (getChildren True (pop_list (popups (handleReSort opts l p) ! i)))"
      and "moderator opts \<or> list_all displayed (all_comments (getChildren True (pop_list (popups p ! i)))) \<Longrightarrow>
        mset (all_comments (getChildren True (pop_list (popups (handleReSort opts l p) ! i)))) =
          mset (all_comments (getChildren True (pop_list (popups p ! i))))"
      using one[of "pop_list (popups p ! i)"] by simp_all
  qed
qed

lemma link_order_newest: "link_order (split_run is_space False [] ''sort-option byascage'') b = ''ascage''"
  by (simp add: is_space_def Let_def substring_from_def)

theorem handleReSort_rearranges_witness:
  "length (popups (handleReSort sample_opts (link_with ''sort-option byascage'') (show_window ''n'' (start_page [])))) = 1"
proof -
  let ?l = "link_with ''sort-option byascage''" and ?p = "show_window ''n'' (start_page [])"
  have "sort_by (handleReSort sample_opts ?l ?p) = ''ascage''"
    using link_order_newest by (simp add: handleReSort_def setComparator_def Let_def link_with_def getClass_def)
  then have "numeric (sort_by (handleReSort sample_opts ?l ?p))"
    by (simp add: numeric_def substring_def substring_from_def)
  from list_all2_lengthD[OF handleReSort_rearranges[OF this]]
  show ?thesis by (simp add: show_window_def start_page_def)
qed

text \<open>
  The chosen order survives in the cookie only if no other cookie follows: on a page whose only
  cookie is the one \<open>handleReSort\<close> sets, \<open>initComparator\<close> returns the order chosen; with any further
  cookie behind it, it falls back to the rating.
\<close>

theorem sort_cookie_roundtrip:
  "initComparator (cookie_text (set_cookie ''sortBy'' (js_escape b) [])) = b \<and>
   initComparator (cookie_text (set_cookie ''sortBy'' (js_escape b) [(''sortBy'', old), (k, v)])) = ''rating''"
  using initComparator_last[of b] initComparator_followed[of b "CHR '' '' # k @ ''='' @ v"]
  by (simp add: cookie_text_def)

text \<open>
  Clicking the link of the order in force, which still reacts to clicks, takes the class \<open>sel\<close> for an
  order: the comparison then compares no field at all.
\<close>

lemma selected_link_classes:
  "getClass (link_node (select_link ''rating'' (link_with ''sort-option byrating''))) = ''sort-option byrating sel''"
  by (simp add: select_link_def Let_def link_with_def hasClass_def padded_def getClass_def stripAndCollapse_def
      rnothtmlwhite_def html_space_def str_index_of_def add_to_def set_if_changed_def)

lemma link_order_selected:
  "link_order (split_run is_space False [] ''sort-option byrating sel'') b = ''l''"
  by (simp add: is_space_def Let_def substring_from_def)

lemma no_field: "comp_by ''l'' c d = None"
  by (simp add: comp_by_def field_def num_minus_def substring_def)

lemma resort_selected:
  "sort_by (handleReSort opts (select_link ''rating'' (link_with ''sort-option byrating'')) p) = ''l'' \<and>
   comp_by ''l'' c d = None"
  unfolding no_field handleReSort_def setComparator_def Let_def selected_link_classes link_order_selected
  by simp

text \<open>An accepted comment still counts as not approved in its data: sorting marks it again.\<close>

lemma accepted_is_forgotten:
  "vdata (accept_view v) = vdata v"
  by (simp add: accept_view_def)

end
