(* ===== verification/WsTemplate.thy ===== *)
theory WsTemplate
  imports WsPage
begin

text \<open>
  Text output of \<open>websupport.js\<close>: the template renderer, the height of growing text areas, the link
  that opens a comment window, and the table of click handlers.
\<close>

section \<open>renderTemplate\<close>

datatype ctx = CUndef | CNull | CBool bool | CNum int | CStr string | CObj "(string \<times> ctx) list"

text \<open>
  \<open>cur[name]\<close>: a TypeError for \<open>undefined\<close> and \<open>null\<close>.  The contexts are the comments and options of
  the page: they hold no arrays, and their templates name no member of \<open>Object.prototype\<close>.
\<close>

fun ctx_member :: "ctx \<Rightarrow> string \<Rightarrow> ctx option" where
  "ctx_member CUndef k = None"
| "ctx_member CNull k = None"
| "ctx_member (CObj fs) k = Some (case map_of fs k of None \<Rightarrow> CUndef | Some v \<Rightarrow> v)"
| "ctx_member (CStr s) k = Some (if k = ''length'' then CNum (int (length s))
     else if k = dec (dec_value k) \<and> dec_value k < length s then CStr [s ! dec_value k]
     else CUndef)"
| "ctx_member v k = Some CUndef"

fun ctx_path :: "ctx \<Rightarrow> string list \<Rightarrow> ctx option" where
  "ctx_path cur [] = Some cur"
| "ctx_path cur (k # ks) = (case ctx_member cur k of None \<Rightarrow> None | Some v \<Rightarrow> ctx_path v ks)"

fun ctx_text :: "ctx \<Rightarrow> string" where
  "ctx_text CUndef = ''undefined''"
| "ctx_text CNull = ''null''"
| "ctx_text (CBool b) = (if b then ''true'' else ''false'')"
| "ctx_text (CNum n) = dec_int n"
| "ctx_text (CStr s) = s"
| "ctx_text (CObj fs) = ''[object Object]''"

definition ctx_truthy :: "ctx \<Rightarrow> bool" where
  "ctx_truthy v \<longleftrightarrow> v \<notin> {CUndef, CNull, CBool False, CNum 0, CStr ''''}"

text \<open>\<open>esc.text(s).html()\<close>: how a text node is written out.\<close>

definition html_char :: "char \<Rightarrow> string" where
  "html_char c =
     (if c = CHR ''&'' then ''&amp;'' else if c = CHR ''<'' then ''&lt;''
      else if c = CHR ''>'' then ''&gt;'' else if c = CHR 0xA0 then ''&nbsp;'' else [c])"

definition esc_html :: "string \<Rightarrow> string" where
  "esc_html s = concat (map html_char s)"

definition handle_ph :: "ctx \<Rightarrow> string \<Rightarrow> bool \<Rightarrow> string option" where
  "handle_ph context ph escaped =
     (case ctx_path context (split_char (CHR ''.'') ph) of
        None \<Rightarrow> None
      | Some cur \<Rightarrow> Some (if escaped then esc_html (ctx_text (if ctx_truthy cur then cur else CStr '''')) else ctx_text cur))"

definition ph_char :: "char \<Rightarrow> bool" where
  "ph_char c \<longleftrightarrow>
     (let n = of_char c :: nat in
      48 \<le> n \<and> n \<le> 57 \<or> 65 \<le> n \<and> n \<le> 90 \<or> 97 \<le> n \<and> n \<le> 122 \<or> n = 95 \<or> n = 46)"

text \<open>\<open>/<([%#])([\w\.]*)\1>/\<close> at the front: the kind, the name, and what follows.\<close>

definition placeholder :: "string \<Rightarrow> (char \<times> string \<times> string) option" where
  "placeholder s =
     (case s of
        lt # k # r \<Rightarrow>
          if lt = CHR ''<'' \<and> (k = CHR ''%'' \<or> k = CHR ''#'') \<and> is_prefix [k, CHR ''>''] (dropWhile ph_char r)
          then Some (k, takeWhile ph_char r, drop 2 (dropWhile ph_char r)) else None
      | _ \<Rightarrow> None)"

lemma placeholder_shorter: "placeholder s = Some (k, n, r) \<Longrightarrow> length r < length s"
proof -
  assume "placeholder s = Some (k, n, r)"
  then obtain lt t where "s = lt # k # t" "r = drop 2 (dropWhile ph_char t)"
    by (auto simp: placeholder_def split: list.splits if_splits)
  moreover have "length (dropWhile ph_char t) \<le> length t" by (rule length_dropWhile_le)
  ultimately show ?thesis by simp
qed

datatype piece = Lit char | Esc string | Raw string

function pieces :: "string \<Rightarrow> piece list" where
  "pieces [] = []"
| "pieces (c # s) =
     (case placeholder (c # s) of
        None \<Rightarrow> Lit c # pieces s
      | Some (k, n, r) \<Rightarrow> (if k = CHR ''%'' then Esc n else Raw n) # pieces r)"
  by pat_completeness auto
termination
  by (relation "measure length") (auto dest: placeholder_shorter)

fun piece_text :: "ctx \<Rightarrow> piece \<Rightarrow> string option" where
  "piece_text context (Lit c) = Some [c]"
| "piece_text context (Esc n) = handle_ph context n True"
| "piece_text context (Raw n) = handle_ph context n False"

fun render_pieces :: "ctx \<Rightarrow> piece list \<Rightarrow> string option" where
  "render_pieces context [] = Some []"
| "render_pieces context (p # ps) =
     (case piece_text context p of
        None \<Rightarrow> None
      | Some t \<Rightarrow> map_option ((@) t) (render_pieces context ps))"

text \<open>\<open>None\<close> is the TypeError of a path through an undefined member.\<close>

definition renderTemplate :: "string \<Rightarrow> ctx \<Rightarrow> string option" where
  "renderTemplate template context = render_pieces context (pieces template)"

text \<open>The three templates, one string for each line of the source.\<close>

definition popup_lines :: "string list" where
  "popup_lines =
     [''    <div class=\"sphinx-comments\" id=\"sc<%id%>\">'',
      ''      <p class=\"sort-options\">'',
      ''        Sort by:'',
      ''        <a href=\"#\" class=\"sort-option byrating\">best rated</a>'',
      ''        <a href=\"#\" class=\"sort-option byascage\">newest</a>'',
      ''        <a href=\"#\" class=\"sort-option byage\">oldest</a>'',
      ''      </p>'',
      ''      <div class=\"comment-header\">Comments</div>'',
      ''      <div class=\"comment-loading\" id=\"cn<%id%>\">'',
      ''        loading comments... <img src=\"<%loadingImage%>\" alt=\"\" /></div>'',
      ''      <ul id=\"cl<%id%>\" class=\"comment-ul\"></ul>'',
      ''      <div id=\"ca<%id%>\">'',
      ''      <p class=\"add-a-comment\">Add a comment'',
      ''        (<a href=\"#\" class=\"comment-markup\" id=\"ab<%id%>\">markup</a>):</p>'',
      ''      <div class=\"comment-markup-box\" id=\"mb<%id%>\">'',
      ''        reStructured text markup: <i>*emph*</i>, <b>**strong**</b>, '',
      ''        <code>``code``</code>, '',
      ''        code blocks: <code>::</code> and an indented block after blank line</div>'',
      ''      <form method=\"post\" id=\"cf<%id%>\" class=\"comment-form\" action=\"\">'',
      ''        <textarea name=\"comment\" cols=\"80\"></textarea>'',
      ''        <p class=\"propose-button\">'',
      ''          <a href=\"#\" id=\"pc<%id%>\" class=\"show-propose-change\">'',
      ''            Propose a change &#9657;'',
      ''          </a>'',
      ''          <a href=\"#\" id=\"hc<%id%>\" class=\"hide-propose-change\">'',
      ''            Propose a change &#9663;'',
      ''          </a>'',
      ''        </p>'',
      ''        <textarea name=\"proposal\" id=\"pt<%id%>\" cols=\"80\"'',
      ''                  spellcheck=\"false\"></textarea>'',
      ''        <input type=\"submit\" value=\"Add comment\" />'',
      ''        <input type=\"hidden\" name=\"node\" value=\"<%id%>\" />'',
      ''        <input type=\"hidden\" name=\"parent\" value=\"\" />'',
      ''      </form>'',
      ''      </div>'',
      ''    </div>'']"

definition comment_lines :: "string list" where
  "comment_lines =
     [''    <div id=\"cd<%id%>\" class=\"sphinx-comment<%css_class%>\">'',
      ''      <div class=\"vote\">'',
      ''        <div class=\"arrow\">'',
      ''          <a href=\"#\" id=\"uv<%id%>\" class=\"vote\" title=\"vote up\">'',
      ''            <img src=\"<%upArrow%>\" />'',
      ''          </a>'',
      ''          <a href=\"#\" id=\"uu<%id%>\" class=\"un vote\" title=\"vote up\">'',
      ''            <img src=\"<%upArrowPressed%>\" />'',
      ''          </a>'',
      ''        </div>'',
      ''        <div class=\"arrow\">'',
      ''          <a href=\"#\" id=\"dv<%id%>\" class=\"vote\" title=\"vote down\">'',
      ''            <img src=\"<%downArrow%>\" id=\"da<%id%>\" />'',
      ''          </a>'',
      ''          <a href=\"#\" id=\"du<%id%>\" class=\"un vote\" title=\"vote down\">'',
      ''            <img src=\"<%downArrowPressed%>\" />'',
      ''          </a>'',
      ''        </div>'',
      ''      </div>'',
      ''      <div class=\"comment-content\">'',
      ''        <p class=\"tagline comment\">'',
      ''          <span class=\"user-id\"><%username%></span>'',
      ''          <span class=\"rating\"><%pretty_rating%></span>'',
      ''          <span class=\"delta\"><%time.delta%></span>'',
      ''        </p>'',
      ''        <div class=\"comment-text comment\"><#text#></div>'',
      ''        <p class=\"comment-opts comment\">'',
      ''          <a href=\"#\" class=\"reply hidden\" id=\"rl<%id%>\">reply &#9657;</a>'',
      ''          <a href=\"#\" class=\"close-reply\" id=\"cr<%id%>\">reply &#9663;</a>'',
      ''          <a href=\"#\" id=\"sp<%id%>\" class=\"show-proposal\">proposal &#9657;</a>'',
      ''          <a href=\"#\" id=\"hp<%id%>\" class=\"hide-proposal\">proposal &#9663;</a>'',
      ''          <a href=\"#\" id=\"dc<%id%>\" class=\"delete-comment hidden\">delete</a>'',
      ''          <span id=\"cm<%id%>\" class=\"moderation hidden\">'',
      ''            <a href=\"#\" id=\"ac<%id%>\" class=\"accept-comment\">accept</a>'',
      ''          </span>'',
      ''        </p>'',
      ''        <pre class=\"proposal\" id=\"pr<%id%>\">'',
      ''<#proposal_diff#>'',
      ''        </pre>'',
      ''          <ul class=\"comment-children\" id=\"cl<%id%>\"></ul>'',
      ''        </div>'',
      ''        <div class=\"clearleft\"></div>'',
      ''      </div>'',
      ''    </div>'']"

definition reply_lines :: "string list" where
  "reply_lines =
     [''    <li>'',
      ''      <div class=\"reply-div\" id=\"rd<%id%>\">'',
      ''        <form id=\"rf<%id%>\">'',
      ''          <textarea name=\"comment\" cols=\"80\"></textarea>'',
      ''          <input type=\"submit\" value=\"Add reply\" />'',
      ''          <input type=\"button\" value=\"Cancel\" />'',
      ''          <input type=\"hidden\" name=\"parent\" value=\"<%id%>\" />'',
      ''          <input type=\"hidden\" name=\"node\" value=\"\" />'',
      ''        </form>'',
      ''      </div>'',
      ''    </li>'']"

definition popupTemplate :: string where
  "popupTemplate = concat popup_lines"

definition commentTemplate :: string where
  "commentTemplate = concat comment_lines"

definition replyTemplate :: string where
  "replyTemplate = concat reply_lines"

section \<open>Growing text areas\<close>

text \<open>\<open>Math.ceil(length / columns) || 1\<close>; without columns the quotient is infinite or \<open>NaN\<close>.\<close>

definition line_rows :: "nat \<Rightarrow> string \<Rightarrow> nat" where
  "line_rows columns l = (if l = [] then 1 else (length l + columns - 1) div columns)"

definition area_height :: "nat \<Rightarrow> nat \<Rightarrow> string \<Rightarrow> nat" where
  "area_height lineHeight columns val =
     lineHeight * (sum_list (map (line_rows columns) (split_char (CHR 0x0A) val)) + 1)"

section \<open>Opening a window\<close>

record open_link =
  ol_id :: string
  ol_class :: string
  ol_title :: string
  ol_bright :: bool

text \<open>\<open>$.fn.comment\<close> for the element \<open>s<id>\<close> with the count of its comments.\<close>

definition comment_link :: "string \<Rightarrow> nat \<Rightarrow> open_link" where
  "comment_link elem_id n =
     \<lparr>ol_id = ''ao'' @ substring_from elem_id 1,
      ol_class = ''sphinx-comment-open'' @ (if n = 0 then '' nocomment'' else ''''),
      ol_title = dec n @ '' comment'' @ (if n = 1 then '''' else ''s''),
      ol_bright = (n > 0)\<rparr>"

text \<open>The window the anchor asks for.\<close>

definition anchored_window :: "string \<Rightarrow> string option" where
  "anchored_window hash = (if substring hash 0 9 = ''#comment-'' then Some (substring_from hash 9) else None)"

section \<open>Click handlers\<close>

datatype ws_action =
    AHide string | AVote string | AOpenReply string | ACloseReply string | AReSort
  | AShowProposal string | AHideProposal string | AShowChange string | AHideChange string
  | AAccept string | ADelete string | AMarkup string

text \<open>The delegated handlers in the order \<open>initEvents\<close> registers them; most drop two letters of the id.\<close>

definition handlers :: "(string \<times> (string \<Rightarrow> ws_action)) list" where
  "handlers =
     [(''comment-close'', \<lambda>i. AHide (substring_from i 2)),
      (''vote'', AVote),
      (''reply'', \<lambda>i. AOpenReply (substring_from i 2)),
      (''close-reply'', \<lambda>i. ACloseReply (substring_from i 2)),
      (''sort-option'', \<lambda>i. AReSort),
      (''show-proposal'', \<lambda>i. AShowProposal (substring_from i 2)),
      (''hide-proposal'', \<lambda>i. AHideProposal (substring_from i 2)),
      (''show-propose-change'', \<lambda>i. AShowChange (substring_from i 2)),
      (''hide-propose-change'', \<lambda>i. AHideChange (substring_from i 2)),
      (''accept-comment'', \<lambda>i. AAccept (substring_from i 2)),
      (''delete-comment'', \<lambda>i. ADelete (substring_from i 2)),
      (''comment-markup'', \<lambda>i. AMarkup (substring_from i 2))]"

definition click_actions :: "class_node \<Rightarrow> string \<Rightarrow> ws_action list" where
  "click_actions e i = map (\<lambda>(c, h). h i) (filter (\<lambda>(c, h). hasClass c [e]) handlers)"

text \<open>What an action does at once; accepting and deleting only ask the server.\<close>

fun run_action :: "ws_opts \<Rightarrow> sort_link \<Rightarrow> ws_action \<Rightarrow> page \<Rightarrow> page" where
  "run_action opts l (AHide i) p = hide_window i p"
| "run_action opts l (AVote i) p = handleVote opts i p"
| "run_action opts l (AOpenReply i) p = openReply i p"
| "run_action opts l (ACloseReply i) p = closeReply i p"
| "run_action opts l AReSort p = handleReSort opts l p"
| "run_action opts l (AShowProposal i) p = showProposal i p"
| "run_action opts l (AHideProposal i) p = hideProposal i p"
| "run_action opts l (AShowChange i) p = showProposeChange i p"
| "run_action opts l (AHideChange i) p = hideProposeChange i p"
| "run_action opts l (AMarkup i) p = toggleCommentMarkupBox i p"
| "run_action opts l (AAccept i) p = p"
| "run_action opts l (ADelete i) p = p"

section \<open>Facts\<close>

definition angle :: "char \<Rightarrow> bool" where
  "angle c \<longleftrightarrow> c = CHR ''<'' \<or> c = CHR ''>''"

fun escaped_piece :: "piece \<Rightarrow> bool" where
  "escaped_piece (Raw n) = False"
| "escaped_piece _ = True"

fun literal :: "piece \<Rightarrow> string" where
  "literal (Lit c) = [c]"
| "literal _ = []"

fun raw_names :: "piece list \<Rightarrow> string list" where
  "raw_names [] = []"
| "raw_names (Raw n # ps) = n # raw_names ps"
| "raw_names (_ # ps) = raw_names ps"

lemma esc_html_angle: "filter angle (esc_html s) = []"
  by (induction s) (auto simp: esc_html_def html_char_def angle_def)

lemma piece_text_angle:
  "escaped_piece p \<Longrightarrow> piece_text context p = Some t \<Longrightarrow> filter angle t = filter angle (literal p)"
  by (cases p) (auto simp: handle_ph_def esc_html_angle split: option.splits)

lemma render_pieces_angle:
  "list_all escaped_piece ps \<Longrightarrow> render_pieces context ps = Some out \<Longrightarrow>
     filter angle out = filter angle (concat (map literal ps))"
proof (induction ps arbitrary: out)
  case (Cons p ps)
  then obtain t o' where "piece_text context p = Some t" "render_pieces context ps = Some o'" "out = t @ o'"
    by (auto split: option.splits)
  with Cons piece_text_angle[of p "context" t] show ?case by simp
qed simp

text \<open>A text in which no placeholder is left open can be read on its own.\<close>

function closed :: "string \<Rightarrow> bool" where
  "closed [] = True"
| "closed (c # s) =
     (case placeholder (c # s) of
        Some (k, n, r) \<Rightarrow> closed r
      | None \<Rightarrow> (c \<noteq> CHR ''<'' \<or> s \<noteq> [] \<and> hd s \<noteq> CHR ''%'' \<and> hd s \<noteq> CHR ''#'') \<and> closed s)"
  by pat_completeness auto
termination
  by (relation "measure length") (auto dest: placeholder_shorter)

declare closed.simps(2) [simp del] pieces.simps(2) [simp del]

lemma placeholder_not_lt: "c \<noteq> CHR ''<'' \<Longrightarrow> placeholder (c # s) = None"
  by (cases s) (auto simp: placeholder_def)

lemma placeholder_other: "k \<noteq> CHR ''%'' \<Longrightarrow> k \<noteq> CHR ''#'' \<Longrightarrow> placeholder (c # k # s) = None"
  by (auto simp: placeholder_def)

lemma read_plain:
  assumes "c \<noteq> CHR ''<''"
  shows "closed (c # s) = closed s" "pieces (c # s) = Lit c # pieces s"
  using placeholder_not_lt[OF assms, of s] assms by (simp_all add: closed.simps(2) pieces.simps(2))

lemma read_lt:
  assumes "k \<noteq> CHR ''%''" "k \<noteq> CHR ''#''"
  shows "closed (CHR ''<'' # k # s) = closed (k # s)" "pieces (CHR ''<'' # k # s) = Lit (CHR ''<'') # pieces (k # s)"
  using placeholder_other[OF assms, of "CHR ''<''" s] assms
  by (simp_all add: closed.simps(2)[of "CHR ''<''"] pieces.simps(2)[of "CHR ''<''"])

text \<open>Reading a placeholder, letter by letter.\<close>

fun read_name :: "char \<Rightarrow> string \<Rightarrow> string \<Rightarrow> (string \<times> string) option" where
  "read_name k n [] = None"
| "read_name k n (c # s) =
     (if c = k then (case s of [] \<Rightarrow> None | d # r \<Rightarrow> if d = CHR ''>'' then Some (n, r) else None)
      else if ph_char c then read_name k (n @ [c]) s else None)"

lemma read_name_placeholder:
  assumes "k = CHR ''%'' \<or> k = CHR ''#''"
  shows "placeholder (CHR ''<'' # k # s) = map_option (Pair k) (read_name k [] s)"
proof -
  have k: "\<not> ph_char k" using assms by (auto simp: ph_char_def)
  have "map_option (\<lambda>(m, r). (m, r)) (read_name k n s) =
      (if is_prefix [k, CHR ''>''] (dropWhile ph_char s)
       then Some (n @ takeWhile ph_char s, drop 2 (dropWhile ph_char s)) else None)" for n
  proof (induction s arbitrary: n)
    case (Cons c s)
    show ?case
    proof (cases "c = k")
      case True
      then show ?thesis using k by (cases s) auto
    next
      case False
      then show ?thesis using Cons[of "n @ [c]"] by auto
    qed
  qed simp
  from this[of "[]"] show ?thesis using assms by (auto simp: placeholder_def)
qed

lemma read_ph:
  assumes "k = CHR ''%'' \<or> k = CHR ''#''" "read_name k [] s = Some (n, r)"
  shows "closed (CHR ''<'' # k # s) = closed r"
    and "pieces (CHR ''<'' # k # s) = (if k = CHR ''%'' then Esc n else Raw n) # pieces r"
  using read_name_placeholder[OF assms(1), of s] assms(2)
  by (simp_all add: closed.simps(2) pieces.simps(2))

lemmas read_rules = read_plain read_lt read_ph

lemma reply_closed: "list_all closed reply_lines"
  by (simp add: reply_lines_def read_rules ph_char_def)

lemma comment_closed: "list_all closed comment_lines"
  by (simp add: comment_lines_def read_rules ph_char_def)

lemma comment_raw_lines: "concat (map (raw_names \<circ> pieces) comment_lines) = [''text'', ''proposal_diff'']"
  by (simp add: comment_lines_def read_rules ph_char_def)

lemma others_raw_lines:
  "list_all closed popup_lines" "concat (map (raw_names \<circ> pieces) popup_lines) = []"
  "concat (map (raw_names \<circ> pieces) reply_lines) = []"
  by (simp_all add: popup_lines_def reply_lines_def read_rules ph_char_def)

lemma placeholder_append:
  assumes "placeholder s = Some (k, n, r)"
  shows "placeholder (s @ t) = Some (k, n, r @ t)"
proof -
  obtain u where s: "s = CHR ''<'' # k # u" and k: "k = CHR ''%'' \<or> k = CHR ''#''"
    and n: "n = takeWhile ph_char u" "r = drop 2 (dropWhile ph_char u)"
    and p: "is_prefix [k, CHR ''>''] (dropWhile ph_char u)"
    using assms by (auto simp: placeholder_def split: list.splits if_splits)
  obtain v where v: "dropWhile ph_char u = k # CHR ''>'' # v"
    using p by (auto simp: is_prefix_prefix prefix_def)
  then have "\<not> (\<forall>c \<in> set u. ph_char c)" by (auto simp: dropWhile_eq_Nil_conv[symmetric])
  then obtain c where "c \<in> set u" "\<not> ph_char c" by auto
  then have "dropWhile ph_char (u @ t) = dropWhile ph_char u @ t" "takeWhile ph_char (u @ t) = takeWhile ph_char u"
    by (simp_all add: dropWhile_append1 takeWhile_append1)
  with s k n v show ?thesis by (auto simp: placeholder_def)
qed

lemma pieces_append: "closed s \<Longrightarrow> pieces (s @ t) = pieces s @ pieces t"
proof (induction s rule: closed.induct)
  case (2 c s)
  show ?case
  proof (cases "placeholder (c # s)")
    case None
    have "placeholder (c # s @ t) = None"
    proof (cases "c = CHR ''<''")
      case True
      then obtain d u where "s = d # u" "d \<noteq> CHR ''%''" "d \<noteq> CHR ''#''"
        using "2.prems" None by (cases s) (auto simp: closed.simps(2))
      then show ?thesis by (simp add: placeholder_other)
    qed (rule placeholder_not_lt)
    moreover have "pieces (s @ t) = pieces s @ pieces t"
      using 2 None by (simp add: closed.simps(2))
    ultimately show ?thesis using None by (simp add: pieces.simps(2))
  next
    case (Some x)
    obtain k n r where x: "x = (k, n, r)" by (cases x) auto
    have "placeholder (c # s @ t) = Some (k, n, r @ t)"
      using placeholder_append[of "c # s" k n r t] Some x by simp
    moreover have "pieces (r @ t) = pieces r @ pieces t"
      using 2 Some x by (simp add: closed.simps(2))
    ultimately show ?thesis using Some x by (simp add: pieces.simps(2))
  qed
qed simp

lemma raw_names_append [simp]: "raw_names (xs @ ys) = raw_names xs @ raw_names ys"
  by (induction xs rule: raw_names.induct) auto

lemma raw_names_concat:
  "list_all closed ls \<Longrightarrow> raw_names (pieces (concat ls)) = concat (map (raw_names \<circ> pieces) ls)"
  by (induction ls) (simp_all add: pieces_append)

lemma raw_names_escaped: "raw_names ps = [] \<Longrightarrow> list_all escaped_piece ps"
  by (induction ps rule: raw_names.induct) auto

lemma line_rows_fit:
  assumes "columns > 0"
  shows "length l \<le> columns * line_rows columns l" "l \<noteq> [] \<Longrightarrow> columns * (line_rows columns l - 1) < length l"
proof -
  let ?n = "length l + columns - 1"
  have "?n = columns * (?n div columns) + ?n mod columns" by simp
  moreover have "?n mod columns \<le> columns - 1" using assms by (simp add: Suc_leI less_Suc_eq_le[symmetric])
  ultimately have d: "length l \<le> columns * (?n div columns)" "columns * (?n div columns) \<le> ?n"
    using assms by linarith+
  show "length l \<le> columns * line_rows columns l"
    using d by (cases "l = []") (simp_all add: line_rows_def)
  show "columns * (line_rows columns l - 1) < length l" if "l \<noteq> []"
  proof -
    have "0 < length l" using that by simp
    then have "columns * (?n div columns) - columns < length l" using d(2) assms by linarith
    then show ?thesis using that by (simp only: line_rows_def right_diff_distrib') simp
  qed
qed

section \<open>Properties\<close>

text \<open>
  C40. What a visitor wrote cannot open or close a tag through an escaped placeholder: a template
  without raw placeholders renders to a text whose angle brackets are those of the template, whatever
  the context.  The windows and the reply form are such templates; a comment has exactly two raw
  placeholders, its text and its proposal, which the server has rendered.
\<close>

theorem renderTemplate_markup:
  assumes "raw_names (pieces template) = []" and "renderTemplate template ctxt = Some out"
  shows "filter angle out = filter angle (concat (map literal (pieces template))) \<and>
    raw_names (pieces popupTemplate) = [] \<and> raw_names (pieces replyTemplate) = [] \<and>
    raw_names (pieces commentTemplate) = [''text'', ''proposal_diff'']"
proof (intro conjI)
  show "filter angle out = filter angle (concat (map literal (pieces template)))"
    using render_pieces_angle[OF raw_names_escaped[OF assms(1)]] assms(2) by (simp add: renderTemplate_def)
  show "raw_names (pieces popupTemplate) = []" "raw_names (pieces replyTemplate) = []"
    using others_raw_lines reply_closed by (simp_all add: popupTemplate_def replyTemplate_def raw_names_concat)
  show "raw_names (pieces commentTemplate) = [''text'', ''proposal_diff'']"
    using comment_closed comment_raw_lines by (simp add: commentTemplate_def raw_names_concat)
qed

theorem renderTemplate_markup_witness:
  "filter angle (the (renderTemplate ''<b><%who%>'' (CObj [(''who'', CStr ''<i>'')]))) = ''<>''"
proof -
  have p: "pieces ''<b><%who%>'' = [Lit (CHR ''<''), Lit (CHR ''b''), Lit (CHR ''>''), Esc ''who'']"
    by (simp add: read_rules ph_char_def)
  obtain out where r: "renderTemplate ''<b><%who%>'' (CObj [(''who'', CStr ''<i>'')]) = Some out"
    by (simp add: renderTemplate_def p handle_ph_def)
  have "raw_names (pieces ''<b><%who%>'') = []" by (simp add: p)
  from renderTemplate_markup[OF this r] show ?thesis by (simp add: r p angle_def)
qed

text \<open>
  Every line of a text area gets as many rows as it needs, and no more.
\<close>

lemma area_height_bounds:
  assumes "columns > 0"
  shows "lineHeight * (length (split_char (CHR 0x0A) val) + 1) \<le> area_height lineHeight columns val"
proof -
  have one: "1 \<le> line_rows columns l" for l
  proof (cases "l = []")
    case False
    then show ?thesis using line_rows_fit(1)[OF assms, of l] by (cases "line_rows columns l") auto
  qed (simp add: line_rows_def)
  have "length ls \<le> sum_list (map (line_rows columns) ls)" for ls
  proof (induction ls)
    case (Cons l ls)
    then show ?case using one[of l] by simp
  qed simp
  then show ?thesis by (simp add: area_height_def)
qed

text \<open>A click on a link of the templates runs one handler; links that are not the widget's run none.\<close>

lemma click_actions_tokens:
  "node_type e = 1 \<Longrightarrow>
     click_actions e i = map (\<lambda>(c, h). h i) (filter (\<lambda>(c, h). c \<in> set (class_tokens e)) handlers)"
proof -
  assume e: "node_type e = 1"
  have "list_all token (map fst handlers)" by (simp add: handlers_def token_def html_space_def)
  then have "hasClass c [e] \<longleftrightarrow> c \<in> set (class_tokens e)" if "(c, h) \<in> set handlers" for c h
    using that e hasClass_token[of c "[e]"] by (force simp: list_all_iff)
  then show ?thesis unfolding click_actions_def by (intro arg_cong[where f = "map _"] filter_cong) auto
qed

lemma pressed_arrow_votes:
  "click_actions \<lparr>node_type = 1, class_attr = Some ''un vote'', saved_name = None\<rparr> i = [AVote i]"
  "click_actions \<lparr>node_type = 1, class_attr = Some ''close-reply'', saved_name = None\<rparr> i = [ACloseReply (substring_from i 2)]"
  "click_actions \<lparr>node_type = 1, class_attr = Some ''headerlink'', saved_name = None\<rparr> i = []"
  by (simp_all add: click_actions_tokens class_tokens_def getClass_def rnothtmlwhite_def html_space_def handlers_def)

end
