(* ===== verification/JqAjaxData.thy ===== *)
theory JqAjaxData
  imports JsObject JqClass
begin

text \<open>
  Data types of requests in \<open>jquery.js\<close>: the tables of prefilters and transports, the choice of a
  response (\<open>ajaxHandleResponses\<close>) and the chain of converters (\<open>ajaxConvert\<close>).  Names that every
  JavaScript object inherits, such as \<open>constructor\<close>, are not data types of the model.
\<close>

section \<open>Prefilters and transports\<close>

definition listed :: "'f list obj \<Rightarrow> string \<Rightarrow> 'f list" where
  "listed t d = (case obj_get t d of None \<Rightarrow> [] | Some fs \<Rightarrow> fs)"

definition register_one :: "'f \<Rightarrow> string \<Rightarrow> 'f list obj \<Rightarrow> 'f list obj" where
  "register_one f d t =
     (if is_prefix ''+'' d
      then (let n = (if tl d = '''' then ''*'' else tl d) in obj_put t n (f # listed t n))
      else obj_put t d (listed t d @ [f]))"

text \<open>Without a string as its first argument the method registers for every data type.\<close>

definition addToPrefiltersOrTransports :: "string option \<Rightarrow> 'f \<Rightarrow> 'f list obj \<Rightarrow> 'f list obj" where
  "addToPrefiltersOrTransports expr f t =
     fold (register_one f) (rnothtmlwhite (to_lower (case expr of None \<Rightarrow> ''*'' | Some e \<Rightarrow> e))) t"

datatype 't answer = Name string | Transport 't | Falsy

type_synonym ('s, 't) prefilter = "string list \<times> 's \<Rightarrow> (string list \<times> 's) \<times> 't answer"

definition first_type :: "string list \<Rightarrow> string" where
  "first_type dts = (case dts of [] \<Rightarrow> ''undefined'' | d # _ \<Rightarrow> d)"

text \<open>
  A prefilter sees the data types and the rest of the options and may change them.  Its answer may
  name another data type, where the inspection goes on, never to come back.
\<close>

function inspect_loop ::
  "('s, 't) prefilter list obj \<Rightarrow> ('s, 't) prefilter list \<Rightarrow> string list \<Rightarrow> string list \<times> 's \<Rightarrow>
     string list \<times> (string list \<times> 's)" where
  "inspect_loop t [] seen st = (seen, st)"
| "inspect_loop t (f # fs) seen st =
     (case f st of
        (st', Name n) \<Rightarrow>
          if n \<notin> set seen
          then inspect_loop t (listed t n) (n # seen) (n # fst st', snd st')
          else inspect_loop t fs seen st'
      | (st', _) \<Rightarrow> inspect_loop t fs seen st')"
  by pat_completeness auto
termination
proof (relation "measures [\<lambda>(t, fs, seen, st). card (set (obj_keys t) - set seen), \<lambda>(t, fs, seen, st). length fs]",
    goal_cases)
  case (2 t f fs seen st p a b)
  show ?case
  proof (cases "listed t b = []")
    case True
    have "card (set (obj_keys t) - set (b # seen)) \<le> card (set (obj_keys t) - set seen)"
      by (rule card_mono) auto
    then show ?thesis using True by auto
  next
    case False
    then have "has_key t b" by (auto simp: listed_def has_key_get split: option.splits)
    then have "b \<in> set (obj_keys t)" by (simp add: has_key_def)
    then have "card (set (obj_keys t) - set (b # seen)) < card (set (obj_keys t) - set seen)"
      using 2 by (intro psubset_card_mono) auto
    then show ?thesis by simp
  qed
qed auto

definition inspectPrefilters ::
  "('s, 't) prefilter list obj \<Rightarrow> string list \<times> 's \<Rightarrow> string list \<times> (string list \<times> 's)" where
  "inspectPrefilters t st =
     (let d = first_type (fst st)
      in case inspect_loop t (listed t d) [d] st of
           (seen, st') \<Rightarrow>
             if ''*'' \<notin> set seen then inspect_loop t (listed t ''*'') (''*'' # seen) st' else (seen, st'))"

text \<open>Looking for a transport, the first truthy answer is taken.\<close>

fun chosen :: "'t answer \<Rightarrow> bool" where
  "chosen (Name n) = (n \<noteq> '''')"
| "chosen (Transport t) = True"
| "chosen Falsy = False"

fun seek_transport ::
  "('s, 't) prefilter list \<Rightarrow> string list \<times> 's \<Rightarrow> 't answer \<times> (string list \<times> 's)" where
  "seek_transport [] st = (Falsy, st)"
| "seek_transport (f # fs) st =
     (case f st of (st', a) \<Rightarrow> if chosen a then (a, st') else seek_transport fs st')"

definition inspectTransports ::
  "('s, 't) prefilter list obj \<Rightarrow> string list \<times> 's \<Rightarrow> 't answer \<times> (string list \<times> 's)" where
  "inspectTransports t st =
     (let d = first_type (fst st)
      in case seek_transport (listed t d) st of
           (a, st') \<Rightarrow>
             if \<not> chosen a \<and> d \<noteq> ''*'' then seek_transport (listed t ''*'') st' else (a, st'))"

section \<open>Choosing the response\<close>

text \<open>
  A converter is an entry of \<open>converters\<close>: \<open>true\<close>, a function that may throw, or falsy.  Another
  truthy value throws when it is called.
\<close>

datatype ('r, 'e) conv = NoConv | Equiv | Conv "'r \<Rightarrow> 'e + 'r"

type_synonym ('r, 'e) convs = "('r, 'e) conv obj"

definition converter :: "('r, 'e) convs \<Rightarrow> string \<Rightarrow> string \<Rightarrow> ('r, 'e) conv" where
  "converter cs d d' = (case obj_get cs (d @ '' '' @ d') of None \<Rightarrow> NoConv | Some c \<Rightarrow> c)"

text \<open>The regular expressions of \<open>contents\<close>.\<close>

definition word_char :: "char \<Rightarrow> bool" where
  "word_char c \<longleftrightarrow>
     (let n = of_char c :: nat in is_digit c \<or> 97 \<le> n \<and> n \<le> 122 \<or> 65 \<le> n \<and> n \<le> 90 \<or> n = 95)"

fun word_from :: "bool \<Rightarrow> string \<Rightarrow> bool \<Rightarrow> string \<Rightarrow> bool" where
  "word_from closed w inside [] = False"
| "word_from closed w inside (c # s) =
     (\<not> inside \<and> is_prefix w (c # s) \<and>
        (closed \<longrightarrow> (case drop (length w) (c # s) of [] \<Rightarrow> True | x # _ \<Rightarrow> \<not> word_char x)) \<or>
      word_from closed w (word_char c) s)"

definition default_contents :: "(string \<Rightarrow> bool) obj" where
  "default_contents =
     [(''xml'', word_from True ''xml'' False), (''html'', word_from False ''html'' False),
      (''json'', word_from True ''json'' False)]"

definition falsy_type :: "string list \<Rightarrow> bool" where
  "falsy_type dts \<longleftrightarrow> dts = [] \<or> hd dts = ''''"

definition known_type :: "(string \<Rightarrow> bool) obj \<Rightarrow> string option \<Rightarrow> string list \<Rightarrow> string list" where
  "known_type contents ct dts =
     (case ct of
        None \<Rightarrow> dts
      | Some c \<Rightarrow> if c = '''' then dts
                  else (case find (\<lambda>(d, test). test c) contents of None \<Rightarrow> dts | Some (d, _) \<Rightarrow> d # dts))"

fun seek_response :: "('r, 'e) convs \<Rightarrow> string list \<Rightarrow> string option \<Rightarrow> string list \<Rightarrow> string option" where
  "seek_response cs dts first [] = first"
| "seek_response cs dts first (d # ds) =
     (if falsy_type dts \<or> (case converter cs d (hd dts) of NoConv \<Rightarrow> False | _ \<Rightarrow> True)
      then (if d = '''' then first else Some d)
      else seek_response cs dts (case first of None \<Rightarrow> if d = '''' then None else Some d | _ \<Rightarrow> first) ds)"

text \<open>
  \<open>mime\<close> is \<open>s.mimeType\<close> or the header, looked at when a leading \<open>*\<close> was removed.  The data types
  are changed in place.
\<close>

definition ajaxHandleResponses ::
  "(string \<Rightarrow> bool) obj \<Rightarrow> ('r, 'e) convs \<Rightarrow> string option \<Rightarrow> string list \<Rightarrow> 'r obj \<Rightarrow>
     string list \<times> 'r option" where
  "ajaxHandleResponses contents cs mime dts responses =
     (let ct = (if first_type dts = ''*'' then mime else None);
          dts1 = known_type contents ct (dropWhile (\<lambda>d. d = ''*'') dts);
          final = (if has_key responses (first_type dts1)
                   then (if dts1 = [] then None else Some (hd dts1))
                   else seek_response cs dts1 None (obj_keys responses))
      in case final of
           None \<Rightarrow> (dts1, None)
         | Some d \<Rightarrow>
             if d = '''' then (dts1, None)
             else ((if dts1 \<noteq> [] \<and> d = hd dts1 then dts1 else d # dts1), obj_get responses d))"

section \<open>Properties\<close>

lemma listed_put [obj_simps]: "listed (obj_put t n fs) d = (if d = n then fs else listed t d)"
  by (simp add: listed_def obj_simps)

text \<open>A prefilter is added behind the others of its data type, with a plus sign in front of them.\<close>

lemma register_one_behind:
  "\<not> is_prefix ''+'' n \<Longrightarrow> listed (register_one f n t) d = (if d = n then listed t d @ [f] else listed t d)"
  by (simp add: register_one_def listed_put)

lemma register_one_front:
  "listed (register_one f (CHR ''+'' # n) t) d =
     (if d = (if n = '''' then ''*'' else n) then f # listed t d else listed t d)"
  by (simp add: register_one_def Let_def listed_put)

lemma inspect_rule [case_names finished redirected skipped]:
  assumes "\<And>seen st. P [] seen st (seen, st)"
    and "\<And>f fs seen st st' n out. f st = (st', Name n) \<Longrightarrow> n \<notin> set seen \<Longrightarrow>
           P (listed t n) (n # seen) (n # fst st', snd st') out \<Longrightarrow> P (f # fs) seen st out"
    and "\<And>f fs seen st st' a out. f st = (st', a) \<Longrightarrow> P fs seen st' out \<Longrightarrow> P (f # fs) seen st out"
  shows "P fs seen st (inspect_loop t fs seen st)"
  using assms(2,3)
proof (induction t fs seen st rule: inspect_loop.induct)
  case (1 t seen st)
  show ?case using assms(1) by simp
next
  case (2 t f fs seen st)
  obtain st' a where f: "f st = (st', a)" by fastforce
  show ?case
  proof (cases a)
    case (Name n)
    show ?thesis
    proof (cases "n \<in> set seen")
      case True
      then have "P fs seen st' (inspect_loop t fs seen st')"
        using 2(2)[OF f[symmetric] Name] 2(5,6) by simp
      then show ?thesis using 2(6)[of f st st' a fs seen] f Name True by simp
    next
      case False
      then have "P (listed t n) (n # seen) (n # fst st', snd st')
          (inspect_loop t (listed t n) (n # seen) (n # fst st', snd st'))"
        using 2(1)[OF f[symmetric] Name] 2(5,6) by simp
      then show ?thesis using 2(5)[of f st st' n] f Name False by simp
    qed
  next
    case (Transport tr)
    have "P fs seen st' (inspect_loop t fs seen st')"
      using 2(3)[OF f[symmetric] Transport] 2(5,6) by simp
    then show ?thesis using 2(6)[of f st st' a fs seen] f Transport by simp
  next
    case Falsy
    have "P fs seen st' (inspect_loop t fs seen st')"
      using 2(4)[OF f[symmetric] Falsy] 2(5,6) by simp
    then show ?thesis using 2(6)[of f st st' a fs seen] f Falsy by simp
  qed
qed

lemma inspect_seen:
  "distinct seen \<longrightarrow> distinct (fst (inspect_loop t fs seen st)) \<and> set seen \<subseteq> set (fst (inspect_loop t fs seen st))"
  by (rule inspect_rule[where P = "\<lambda>fs seen st out. distinct seen \<longrightarrow> distinct (fst out) \<and> set seen \<subseteq> set (fst out)"])
     auto

text \<open>Prefilters that leave the list of data types alone, as all those of jQuery do.\<close>

definition tame :: "('s, 't) prefilter \<Rightarrow> bool" where
  "tame f \<longleftrightarrow> (\<forall>st. fst (fst (f st)) = fst st)"

lemma inspect_types:
  assumes "\<And>d. list_all tame (listed t d)"
  shows "list_all tame fs \<longrightarrow> (\<exists>ns. fst (inspect_loop t fs seen st) = ns @ seen \<and>
    fst (snd (inspect_loop t fs seen st)) = ns @ fst st)"
proof (rule inspect_rule[where P = "\<lambda>fs seen st out. list_all tame fs \<longrightarrow>
    (\<exists>ns. fst out = ns @ seen \<and> fst (snd out) = ns @ fst st)"], goal_cases finished redirected skipped)
  case (redirected f fs seen st st' n out)
  show ?case
  proof
    assume "list_all tame (f # fs)"
    then have st': "fst st' = fst st" using redirected(1) by (metis fst_conv list.pred_inject(2) tame_def)
    obtain ns where "fst out = ns @ n # seen" "fst (snd out) = ns @ n # fst st'"
      using redirected(3) assms by auto
    then show "\<exists>ns. fst out = ns @ seen \<and> fst (snd out) = ns @ fst st"
      using st' by (intro exI[of _ "ns @ [n]"]) simp
  qed
next
  case (skipped f fs seen st st' a out)
  then show ?case by (metis fst_conv list.pred_inject(2) tame_def)
qed simp_all

text \<open>
  The prefilters of a data type are consulted at most once, however they redirect to each other:
  the inspection ends, and every request passes the catch-all prefilters.  Each redirection puts its
  data type in front of those of the request.
\<close>

theorem prefilters_once:
  assumes "\<And>d. list_all tame (listed t d)" and "inspectPrefilters t (dts, s) = (seen, (dts', s'))"
  shows "distinct seen \<and> first_type dts \<in> set seen \<and> ''*'' \<in> set seen \<and>
    (\<exists>ns. dts' = ns @ dts \<and> set seen = set ns \<union> {first_type dts, ''*''})"
proof -
  let ?d = "first_type dts"
  obtain seen1 dts1 s1 where one: "inspect_loop t (listed t ?d) [?d] (dts, s) = (seen1, (dts1, s1))"
    by (metis prod.exhaust)
  have d1: "distinct seen1" using inspect_seen[of "[?d]" t "listed t ?d" "(dts, s)"] by (simp add: one)
  obtain ns where ns: "seen1 = ns @ [?d]" "dts1 = ns @ dts"
    using inspect_types[OF assms(1), of "listed t ?d" "[?d]" "(dts, s)"] assms(1) one by auto
  show ?thesis
  proof (cases "''*'' \<in> set seen1")
    case True
    then show ?thesis using assms(2) one d1 ns by (auto simp: inspectPrefilters_def)
  next
    case False
    then have two: "inspect_loop t (listed t ''*'') (''*'' # seen1) (dts1, s1) = (seen, (dts', s'))"
      using assms(2) one by (simp add: inspectPrefilters_def)
    have "distinct seen" using inspect_seen[of "''*'' # seen1" t "listed t ''*''" "(dts1, s1)"] d1 False by (simp add: two)
    moreover obtain ms where "seen = ms @ ''*'' # seen1" "dts' = ms @ dts1"
      using inspect_types[OF assms(1), of "listed t ''*''" "''*'' # seen1" "(dts1, s1)"] assms(1) two by auto
    ultimately show ?thesis using ns by (auto intro!: exI[of _ "ms @ ns"])
  qed
qed

text \<open>Two prefilters that redirect to each other, the one for \<open>json\<close> counting its calls.\<close>

definition circular :: "(nat, unit) prefilter list obj" where
  "circular = [(''json'', [\<lambda>(d, k). ((d, Suc k), Name ''jsonp'')]), (''jsonp'', [\<lambda>(d, k). ((d, k), Name ''json'')])]"

theorem prefilters_once_witness:
  "inspectPrefilters circular ([''json''], 0) = ([''*'', ''jsonp'', ''json''], ([''jsonp'', ''json''], 1)) \<and>
   distinct [''*'', ''jsonp'', ''json'']"
proof -
  have t: "list_all tame (listed circular d)" for d
    by (auto simp: circular_def listed_def obj_get_def tame_def split: option.splits if_splits)
  have r: "inspectPrefilters circular ([''json''], 0) = ([''*'', ''jsonp'', ''json''], ([''jsonp'', ''json''], 1))"
    by (simp add: inspectPrefilters_def circular_def first_type_def listed_def obj_get_def Let_def)
  then show ?thesis using prefilters_once[OF t r] by simp
qed

end
