(* ===== verification/JqAjaxConvert.thy ===== *)
theory JqAjaxConvert
  imports JqAjaxData
begin

text \<open>
  The chain of converters in \<open>jquery.js\<close> (\<open>ajaxConvert\<close>): the response is taken from each data
  type to the next, directly or through one data type in between.  The code loops; with a disabled
  converter it may loop for ever, so the model has fuel.
\<close>

section \<open>The code\<close>

record ('r, 'e) conv_settings =
  converters :: "('r, 'e) convs"
  responseFields :: "string obj"
  dataFilter :: "('r \<Rightarrow> 'e + 'r) option"
  throws :: bool

datatype 'e conv_error = Thrown 'e | NoConversion string string

datatype ('r, 'e) outcome = Success 'r | ParserError "'e conv_error" | Escapes 'e

definition lower_convs :: "string list \<Rightarrow> ('r, 'e) convs \<Rightarrow> ('r, 'e) convs" where
  "lower_convs dts cs =
     (if length dts > 1 \<and> dts ! 1 \<noteq> '''' then fold (\<lambda>(k, c) ob. obj_put ob (to_lower k) c) cs [] else [])"

definition direct :: "('r, 'e) convs \<Rightarrow> string \<Rightarrow> string \<Rightarrow> ('r, 'e) conv" where
  "direct cs p c = (case converter cs p c of NoConv \<Rightarrow> converter cs ''*'' c | v \<Rightarrow> v)"

text \<open>The converter, the data type to convert to now, and the one put again for the next round.\<close>

fun seek_pair ::
  "('r, 'e) convs \<Rightarrow> string \<Rightarrow> string \<Rightarrow> ('r, 'e) convs \<Rightarrow> ('r, 'e) conv \<times> string \<times> string list" where
  "seek_pair cs prev cur [] = (NoConv, cur, [])"
| "seek_pair cs prev cur ((k, v) # rest) =
     (case split_char CHR '' '' k of
        a # b # _ \<Rightarrow>
          if b = cur
          then (case direct cs prev a of
                  NoConv \<Rightarrow> seek_pair cs prev cur rest
                | Equiv \<Rightarrow> (v, cur, [])
                | Conv f \<Rightarrow> (case v of Equiv \<Rightarrow> (Conv f, cur, []) | _ \<Rightarrow> (Conv f, a, [b])))
          else seek_pair cs prev cur rest
      | _ \<Rightarrow> seek_pair cs prev cur rest)"

definition seek_converter ::
  "('r, 'e) convs \<Rightarrow> string \<Rightarrow> string \<Rightarrow> ('r, 'e) conv \<times> string \<times> string list" where
  "seek_converter cs prev cur =
     (case direct cs prev cur of NoConv \<Rightarrow> seek_pair cs prev cur cs | v \<Rightarrow> (v, cur, []))"

fun apply_conv ::
  "bool \<Rightarrow> string \<Rightarrow> string \<Rightarrow> ('r, 'e) conv \<Rightarrow> 'r \<Rightarrow> ('r, 'e) outcome" where
  "apply_conv thr prev cur NoConv r = ParserError (NoConversion prev cur)"
| "apply_conv thr prev cur Equiv r = Success r"
| "apply_conv thr prev cur (Conv f) r =
     (case f r of Inr r' \<Rightarrow> Success r' | Inl e \<Rightarrow> if thr then Escapes e else ParserError (Thrown e))"

definition note_field :: "('r, 'e) conv_settings \<Rightarrow> string \<Rightarrow> 'r \<Rightarrow> 'r obj \<Rightarrow> 'r obj" where
  "note_field s cur r xhr =
     (case obj_get (responseFields s) cur of
        None \<Rightarrow> xhr
      | Some n \<Rightarrow> if n = '''' then xhr else obj_put xhr n r)"

definition filtered :: "('r, 'e) conv_settings \<Rightarrow> bool \<Rightarrow> 'r \<Rightarrow> 'e + 'r" where
  "filtered s use r = (case dataFilter s of Some f \<Rightarrow> if use then f r else Inr r | None \<Rightarrow> Inr r)"

text \<open>\<open>first\<close>: no data type has been handled before.\<close>

fun convert_loop ::
  "('r, 'e) conv_settings \<Rightarrow> ('r, 'e) convs \<Rightarrow> bool \<Rightarrow> nat \<Rightarrow> bool \<Rightarrow> string list \<Rightarrow> 'r \<Rightarrow> 'r obj \<Rightarrow>
     (('r, 'e) outcome \<times> 'r obj) option" where
  "convert_loop s cs ok 0 first dts r xhr = None"
| "convert_loop s cs ok (Suc n) first dts r xhr =
     (if falsy_type dts then Some (Success r, xhr)
      else let cur = hd dts; xhr' = note_field s cur r xhr
           in case filtered s (first \<and> ok) r of
                Inl e \<Rightarrow> Some (Escapes e, xhr')
              | Inr r' \<Rightarrow>
                  (if falsy_type (tl dts) then Some (Success r', xhr')
                   else let c = hd (tl dts); rest = tl (tl dts)
                        in if c = ''*'' then convert_loop s cs ok n False (cur # rest) r' xhr'
                           else if cur \<noteq> ''*'' \<and> cur \<noteq> c
                           then (case seek_converter cs cur c of
                                   (conv, c', again) \<Rightarrow>
                                     (case apply_conv (throws s) cur c' conv r' of
                                        Success r'' \<Rightarrow> convert_loop s cs ok n False (c' # again @ rest) r'' xhr'
                                      | out \<Rightarrow> Some (out, xhr')))
                           else convert_loop s cs ok n False (c # rest) r' xhr'))"

definition ajaxConvert ::
  "('r, 'e) conv_settings \<Rightarrow> nat \<Rightarrow> string list \<Rightarrow> bool \<Rightarrow> 'r \<Rightarrow> 'r obj \<Rightarrow>
     (('r, 'e) outcome \<times> 'r obj) option" where
  "ajaxConvert s fuel dts ok r xhr =
     convert_loop s (lower_convs dts (converters s)) ok fuel True dts r xhr"

section \<open>Proper converters\<close>

definition usable :: "('r, 'e) conv \<Rightarrow> bool" where
  "usable c = (case c of NoConv \<Rightarrow> False | _ \<Rightarrow> True)"

lemma usable_iff: "usable c \<longleftrightarrow> c \<noteq> NoConv"
  by (cases c) (auto simp: usable_def)

fun conv_ok :: "string \<times> ('r, 'e) conv \<Rightarrow> bool" where
  "conv_ok (k, c) \<longleftrightarrow>
     usable c \<and> (case split_char CHR '' '' k of [a, b] \<Rightarrow> a \<noteq> '''' \<and> b \<noteq> '''' | _ \<Rightarrow> False)"

definition convs_ok :: "('r, 'e) convs \<Rightarrow> bool" where
  "convs_ok cs \<longleftrightarrow> list_all conv_ok cs"

lemma split_two:
  "split_char c k = [a, b] \<Longrightarrow> k = a @ c # b"
  using join_split_char[of c k] by simp

lemma conv_okD:
  assumes "conv_ok (k, c)"
  obtains a b where "split_char CHR '' '' k = [a, b]" "k = a @ '' '' @ b" "a \<noteq> ''''" "b \<noteq> ''''" "c \<noteq> NoConv"
proof -
  obtain a b where ab: "split_char CHR '' '' k = [a, b]" "a \<noteq> ''''" "b \<noteq> ''''"
    using assms by (auto split: list.splits)
  with split_two[OF ab(1)] assms that show thesis by (auto simp: usable_iff)
qed

lemma lower_space: "lower_char c = CHR '' '' \<longleftrightarrow> c = CHR '' ''"
proof -
  have m: "(char_of n :: char) = CHR '' '' \<Longrightarrow> n mod 256 = 32" for n :: nat
  proof -
    assume "(char_of n :: char) = CHR '' ''"
    then have "of_char (char_of n :: char) = (32 :: nat)" by simp
    then show "n mod 256 = 32" by simp
  qed
  then show ?thesis
    using m[of "of_char c + 32"]
    by (auto simp: lower_char_def Let_def mod_nat_eqI dest!: m split: if_splits)
qed

lemma split_char_lower: "split_char CHR '' '' (to_lower k) = map to_lower (split_char CHR '' '' k)"
  unfolding to_lower_def
proof (induction k)
  case (Cons c k)
  obtain p ps where p: "split_char CHR '' '' k = p # ps" by (metis neq_Nil_conv split_char_neq_Nil)
  then show ?case using Cons.IH by (simp add: lower_space)
qed simp

lemma conv_ok_lower:
  assumes "conv_ok (k, c)"
  shows "conv_ok (to_lower k, c)"
proof -
  obtain a b where "split_char CHR '' '' k = [a, b]" "a \<noteq> ''''" "b \<noteq> ''''" "c \<noteq> NoConv"
    by (rule conv_okD[OF assms])
  then show ?thesis by (simp add: split_char_lower usable_iff) (simp add: to_lower_def)
qed

declare conv_ok.simps [simp del]

lemma obj_put_entries: "p \<in> set (obj_put ob k v) \<Longrightarrow> p = (k, v) \<or> p \<in> set ob"
proof -
  have "set (obj_create k v ob) \<subseteq> insert (k, v) (set ob)"
    by (induction k v ob rule: obj_create.induct) auto
  moreover have "set (obj_overwrite k v ob) \<subseteq> insert (k, v) (set ob)"
    by (induction k v ob rule: obj_overwrite.induct) auto
  ultimately show "p \<in> set (obj_put ob k v) \<Longrightarrow> p = (k, v) \<or> p \<in> set ob"
    by (auto simp: obj_put_def split: if_splits)
qed

lemma convs_ok_put: "convs_ok ob \<Longrightarrow> conv_ok (k, c) \<Longrightarrow> convs_ok (obj_put ob k c)"
  by (auto simp: convs_ok_def list_all_iff dest: obj_put_entries)

lemma convs_ok_fold:
  "convs_ok cs \<Longrightarrow> convs_ok ob \<Longrightarrow> convs_ok (fold (\<lambda>(k, c) ob. obj_put ob (to_lower k) c) cs ob)"
proof (induction cs arbitrary: ob)
  case (Cons p cs)
  obtain k c where p: "p = (k, c)" by fastforce
  have "conv_ok (k, c)" "convs_ok cs" using Cons.prems(1) p by (auto simp: convs_ok_def)
  then show ?case
    using Cons.IH[of "obj_put ob (to_lower k) c"] convs_ok_put[OF Cons.prems(2) conv_ok_lower] p by simp
qed simp

lemma convs_ok_lower: "convs_ok cs \<Longrightarrow> convs_ok (lower_convs dts cs)"
  using convs_ok_fold[of cs "[]"] by (auto simp: lower_convs_def convs_ok_def)

lemma obj_wf_lower: "obj_wf (lower_convs dts cs)"
proof -
  have "obj_wf ob \<Longrightarrow> obj_wf (fold (\<lambda>(k, c) ob. obj_put ob (to_lower k) c) cs ob)" for ob
    by (induction cs arbitrary: ob) (auto intro: obj_wf_put)
  then show ?thesis by (simp add: lower_convs_def)
qed

lemma converter_entry:
  assumes "convs_ok cs" "converter cs a b = v" "v \<noteq> NoConv"
  shows "(a @ '' '' @ b, v) \<in> set cs" "split_char CHR '' '' (a @ '' '' @ b) = [a, b]" "a \<noteq> ''''" "b \<noteq> ''''"
proof -
  show e: "(a @ '' '' @ b, v) \<in> set cs"
    using assms(2,3) by (auto simp: converter_def obj_get_def dest: map_of_SomeD split: option.splits)
  then have "conv_ok (a @ '' '' @ b, v)" using assms(1) by (auto simp: convs_ok_def list_all_iff)
  then obtain x y where xy: "split_char CHR '' '' (a @ '' '' @ b) = [x, y]" "a @ '' '' @ b = x @ '' '' @ y"
      "x \<noteq> ''''" "y \<noteq> ''''" by (rule conv_okD)
  have "CHR '' '' \<notin> set x" "CHR '' '' \<notin> set y"
    using split_char_no_sep[of _ "CHR '' ''" "a @ '' '' @ b"] xy(1) by auto
  then have "a = x \<and> b = y" using xy(2) append_Cons_eq_iff[of "CHR '' ''" x y a b] by simp
  with xy show "split_char CHR '' '' (a @ '' '' @ b) = [a, b]" "a \<noteq> ''''" "b \<noteq> ''''" by auto
qed

lemma entry_converter:
  assumes "obj_wf cs" "(a @ '' '' @ b, v) \<in> set cs"
  shows "converter cs a b = v"
  using assms map_of_eq_Some_distinct[of cs "a @ '' '' @ b" v]
  by (simp add: converter_def obj_get_def obj_wf_def)

text \<open>What the search for a pair finds.\<close>

definition pair_found ::
  "('r, 'e) convs \<Rightarrow> string \<Rightarrow> string \<Rightarrow> string \<Rightarrow> ('r, 'e) conv \<Rightarrow> ('r, 'e) conv \<times> string \<times> string list \<Rightarrow> bool" where
  "pair_found cs prev cur a v out \<longleftrightarrow>
     direct cs prev a = Equiv \<and> out = (v, cur, []) \<or>
     (\<exists>f. direct cs prev a = Conv f \<and>
          (v = Equiv \<and> out = (Conv f, cur, []) \<or> v \<noteq> Equiv \<and> out = (Conv f, a, [cur])))"

lemma seek_pair_cases:
  assumes "list_all conv_ok rest"
  shows "seek_pair cs prev cur rest = (NoConv, cur, []) \<and>
      (\<forall>a v. split_char CHR '' '' (a @ '' '' @ cur) = [a, cur] \<longrightarrow> (a @ '' '' @ cur, v) \<in> set rest \<longrightarrow>
             direct cs prev a = NoConv) \<or>
    (\<exists>a v. (a @ '' '' @ cur, v) \<in> set rest \<and> a \<noteq> '''' \<and> v \<noteq> NoConv \<and>
           pair_found cs prev cur a v (seek_pair cs prev cur rest))"
  using assms
proof (induction rest)
  case (Cons p rest)
  obtain k v where p: "p = (k, v)" by fastforce
  then have "conv_ok (k, v)" using Cons.prems by simp
  then obtain a b where k: "split_char CHR '' '' k = [a, b]" "k = a @ '' '' @ b" "a \<noteq> ''''" "b \<noteq> ''''" "v \<noteq> NoConv"
    by (rule conv_okD)
  have ih: "seek_pair cs prev cur rest = (NoConv, cur, []) \<and>
      (\<forall>a v. split_char CHR '' '' (a @ '' '' @ cur) = [a, cur] \<longrightarrow> (a @ '' '' @ cur, v) \<in> set rest \<longrightarrow>
             direct cs prev a = NoConv) \<or>
    (\<exists>a v. (a @ '' '' @ cur, v) \<in> set rest \<and> a \<noteq> '''' \<and> v \<noteq> NoConv \<and>
           pair_found cs prev cur a v (seek_pair cs prev cur rest))"
    using Cons by simp
  show ?case
  proof (cases "b = cur \<and> direct cs prev a \<noteq> NoConv")
    case True
    then have "pair_found cs prev cur a v (seek_pair cs prev cur (p # rest))"
      using k p by (auto simp: pair_found_def split: conv.splits)
    then show ?thesis using True k p by auto
  next
    case False
    then have "seek_pair cs prev cur (p # rest) = seek_pair cs prev cur rest"
      using k(1) p by (auto split: conv.splits)
    moreover have "direct cs prev a' = NoConv" if "split_char CHR '' '' (a' @ '' '' @ cur) = [a', cur]" "k = a' @ '' '' @ cur" for a'
      using False k(1) that by auto
    ultimately show ?thesis using ih p by auto
  qed
qed simp

lemma seek_converter_cases:
  assumes "convs_ok cs" "obj_wf cs"
  obtains (none) "seek_converter cs prev cur = (NoConv, cur, [])" "direct cs prev cur = NoConv"
      "\<And>a. direct cs prev a = NoConv \<or> converter cs a cur = NoConv"
  | (one) v where "seek_converter cs prev cur = (v, cur, [])" "direct cs prev cur = v" "v \<noteq> NoConv"
  | (two) a v where "direct cs prev cur = NoConv" "a \<noteq> ''''" "a \<noteq> ''*''" "converter cs a cur = v" "v \<noteq> NoConv"
      "pair_found cs prev cur a v (seek_converter cs prev cur)"
proof (cases "direct cs prev cur = NoConv")
  case d: True
  then have s: "seek_converter cs prev cur = seek_pair cs prev cur cs" by (simp add: seek_converter_def)
  have "list_all conv_ok cs" using assms(1) by (simp add: convs_ok_def)
  then consider (N) "seek_pair cs prev cur cs = (NoConv, cur, [])"
      "\<forall>a v. split_char CHR '' '' (a @ '' '' @ cur) = [a, cur] \<longrightarrow> (a @ '' '' @ cur, v) \<in> set cs \<longrightarrow>
             direct cs prev a = NoConv"
    | (P) a v where "(a @ '' '' @ cur, v) \<in> set cs" "a \<noteq> []" "v \<noteq> NoConv"
      "pair_found cs prev cur a v (seek_pair cs prev cur cs)"
    using seek_pair_cases[of cs cs prev cur] by blast
  then show thesis
  proof cases
    case N
    have "direct cs prev a = NoConv \<or> converter cs a cur = NoConv" for a
      using N(2) converter_entry[OF assms(1), of a cur "converter cs a cur"] by blast
    then show ?thesis using none N(1) s d by simp
  next
    case (P a v)
    have v: "converter cs a cur = v" using entry_converter[OF assms(2) P(1)] .
    moreover have "a \<noteq> ''*''" using d v P(3) by (auto simp: direct_def split: conv.splits)
    ultimately show ?thesis using two[of a v] P s d by simp
  qed
next
  case False
  then show thesis
    by (intro one[of "direct cs prev cur"]) (auto simp: seek_converter_def split: conv.splits)
qed

section \<open>The loop ends\<close>

text \<open>
  Two rounds for each data type after the first, and one more when the first conversion is not direct:
  after a data type has been put in between, the next conversion is direct.
\<close>

definition rounds :: "('r, 'e) convs \<Rightarrow> string list \<Rightarrow> nat" where
  "rounds cs dts =
     (if tl dts = [] then 1
      else 2 * length (tl dts) + (if direct cs (hd dts) (hd (tl dts)) = NoConv then 1 else 0))"

lemma rounds_next: "rounds cs (x # ds) \<le> Suc (2 * length ds)"
  by (simp add: rounds_def)

lemma rounds_two: "ds \<noteq> [] \<Longrightarrow> 2 * length ds \<le> rounds cs (x # ds)"
  by (simp add: rounds_def)

lemma rounds_back:
  assumes "converter cs a cur = v" "v \<noteq> NoConv"
  shows "rounds cs (a # cur # rest) = Suc (Suc (2 * length rest))"
  using assms by (auto simp: rounds_def direct_def split: conv.splits)

lemma convert_step_shorter:
  assumes "convs_ok cs" "obj_wf cs" "seek_converter cs cur c = (conv, c', again)" "conv \<noteq> NoConv"
  shows "rounds cs (c' # again @ rest) < rounds cs (cur # c # rest)"
proof -
  from assms(1,2) show ?thesis
  proof (cases rule: seek_converter_cases[of cs cur c])
    case none
    then show ?thesis using assms(3,4) by simp
  next
    case (one v)
    then have "c' # again @ rest = c # rest" using assms(3) by simp
    then have "rounds cs (c' # again @ rest) \<le> Suc (2 * length rest)" by (simp add: rounds_next)
    then show ?thesis using rounds_two[of "c # rest" cs cur] by simp
  next
    case (two a v)
    have "rounds cs (cur # c # rest) = Suc (Suc (Suc (2 * length rest)))"
      using two(1) by (simp add: rounds_def)
    moreover have "c' = c \<and> again = [] \<or> c' = a \<and> again = [c]"
      using two(6) assms(3) by (auto simp: pair_found_def)
    ultimately show ?thesis
      using rounds_next[of cs c rest] rounds_back[OF two(4,5), of rest] by auto
  qed
qed

lemma dts_parts: "\<not> falsy_type dts \<Longrightarrow> \<not> falsy_type (tl dts) \<Longrightarrow> dts = hd dts # hd (tl dts) # tl (tl dts)"
  by (cases dts; cases "tl dts") (auto simp: falsy_type_def)

lemma convert_loop_ends:
  assumes "convs_ok cs" "obj_wf cs"
  shows "rounds cs dts \<le> n \<Longrightarrow> convert_loop s cs ok n first dts r x \<noteq> None"
proof (induction n arbitrary: first dts r x)
  case 0
  then show ?case by (cases dts; cases "tl dts") (auto simp: rounds_def split: if_splits)
next
  case (Suc n)
  show ?case
  proof (cases "falsy_type dts \<or> falsy_type (tl dts)")
    case True
    then show ?thesis by (auto simp: Let_def split: sum.splits)
  next
    case False
    define cur c rest where "cur = hd dts" "c = hd (tl dts)" "rest = tl (tl dts)"
    have dts: "dts = cur # c # rest" using False dts_parts cur_c_rest_def by metis
    have same: "rounds cs (y # rest) \<le> n" for y
      using rounds_next[of cs y rest] rounds_two[of "c # rest" cs cur] Suc.prems dts by simp
    have "rounds cs (c' # again @ rest) \<le> n" if "seek_converter cs cur c = (conv, c', again)" "conv \<noteq> NoConv" for conv c' again
      using convert_step_shorter[OF assms that, of rest] Suc.prems dts by simp
    then have step: "convert_loop s cs ok n False (c' # again @ rest) r' x' \<noteq> None"
      if "seek_converter cs cur c = (conv, c', again)" "conv \<noteq> NoConv" for conv c' again r' x'
      using Suc.IH that by blast
    have keep: "convert_loop s cs ok n False (y # rest) r' x' \<noteq> None" for y r' x'
      using Suc.IH[OF same] .
    show ?thesis
    proof (cases "filtered s (first \<and> ok) r")
      case (Inl e)
      then show ?thesis using False by (simp add: Let_def)
    next
      case (Inr r')
      obtain conv c' again where k: "seek_converter cs cur c = (conv, c', again)" using prod_cases3 by blast
      show ?thesis
      proof (cases conv)
        case NoConv
        then show ?thesis using False Inr k keep dts by (simp add: Let_def)
      next
        case Equiv
        then show ?thesis using False Inr k keep step[OF k] dts by (simp add: Let_def)
      next
        case (Conv f)
        then show ?thesis using False Inr k keep step[OF k] dts by (simp add: Let_def split: sum.splits)
      qed
    qed
  qed
qed

section \<open>The way a response takes\<close>

text \<open>A converter from \<open>d\<close> to \<open>e\<close>: registered for the two, or for everything to \<open>e\<close>.\<close>

definition link :: "('r, 'e) convs \<Rightarrow> string \<Rightarrow> string \<Rightarrow> ('r, 'e) conv \<Rightarrow> bool" where
  "link cs d e c \<longleftrightarrow> c \<noteq> NoConv \<and> (converter cs d e = c \<or> converter cs ''*'' e = c)"

inductive route :: "('r, 'e) convs \<Rightarrow> string \<Rightarrow> 'r \<Rightarrow> string \<Rightarrow> 'r \<Rightarrow> bool"
  for cs :: "('r, 'e) convs" and d :: string and r :: 'r where
  route_start: "route cs d r d r"
| route_same: "route cs d r e s \<Longrightarrow> link cs e f Equiv \<Longrightarrow> route cs d r f s"
| route_conv: "route cs d r e s \<Longrightarrow> link cs e f (Conv g) \<Longrightarrow> g s = Inr t \<Longrightarrow> route cs d r f t"

lemma link_direct: "direct cs p c = v \<Longrightarrow> v \<noteq> NoConv \<Longrightarrow> link cs p c v"
  by (auto simp: direct_def link_def split: conv.splits)

lemma link_converter: "converter cs p c = v \<Longrightarrow> v \<noteq> NoConv \<Longrightarrow> link cs p c v"
  by (simp add: link_def)

lemma route_apply:
  "route cs d r e s \<Longrightarrow> link cs e f c \<Longrightarrow> apply_conv thr p q c s = Success t \<Longrightarrow> route cs d r f t"
  by (cases c) (auto intro: route_same route_conv split: sum.splits if_splits simp: link_def)

lemma route_step:
  assumes "convs_ok cs" "obj_wf cs" "seek_converter cs cur c = (conv, c', again)"
    and "apply_conv thr cur c' conv s = Success t" "route cs d r cur s"
  shows "route cs d r c' t \<and> (c' = c \<and> again = [] \<or> c' \<noteq> '''' \<and> c' \<noteq> ''*'' \<and> again = [c])"
proof -
  from assms(1,2) show ?thesis
  proof (cases rule: seek_converter_cases[of cs cur c])
    case none
    then show ?thesis using assms(3,4) by simp
  next
    case (one v)
    then show ?thesis using assms(3,4) route_apply[OF assms(5) link_direct[OF one(2,3)]] by simp
  next
    case (two a v)
    show ?thesis
    proof (cases "direct cs cur a")
      case NoConv
      then show ?thesis using two(6) by (simp add: pair_found_def)
    next
      case Equiv
      then have "route cs d r a s" using route_same[OF assms(5)] link_direct by blast
      moreover have "conv = v" "c' = c" "again = []" using two(6) assms(3) Equiv by (auto simp: pair_found_def)
      ultimately show ?thesis
        using route_apply[of cs d r a s c v thr cur c' t] link_converter[OF two(4,5)] assms(4) by simp
    next
      case (Conv f)
      then have conv: "conv = Conv f" using two(6) assms(3) by (auto simp: pair_found_def)
      have a: "route cs d r a t"
        using route_apply[OF assms(5) link_direct[OF Conv]] assms(4) conv by simp
      then have "route cs d r c t" if "v = Equiv"
        using route_same[OF a] link_converter[OF two(4,5)] that by simp
      then show ?thesis using a two(2,3,6) assms(3) Conv by (auto simp: pair_found_def)
    qed
  qed
qed

definition target :: "string list \<Rightarrow> string" where
  "target dts = last (filter (\<lambda>d. d \<noteq> ''*'') dts)"

lemma convert_loop_route:
  assumes "convs_ok cs" "obj_wf cs"
  shows "convert_loop s cs ok n first dts r0 x = Some (Success r', x') \<Longrightarrow>
    filtered s (first \<and> ok) r0 = Inr r \<Longrightarrow> route cs d q (hd dts) r \<Longrightarrow>
    dts \<noteq> [] \<Longrightarrow> list_all (\<lambda>d. d \<noteq> '''') dts \<Longrightarrow> hd dts \<noteq> ''*'' \<Longrightarrow> route cs d q (target dts) r'"
proof (induction n arbitrary: first dts r0 r x)
  case (Suc n)
  have f1: "\<not> falsy_type dts" using Suc.prems(4,5) by (cases dts) (auto simp: falsy_type_def)
  have nofilter: "filtered s (False \<and> ok) y = Inr y" for y by (simp add: filtered_def split: option.splits)
  show ?case
  proof (cases "falsy_type (tl dts)")
    case True
    then have "tl dts = []" using Suc.prems(4,5) by (cases dts; cases "tl dts") (auto simp: falsy_type_def)
    then have "target dts = hd dts" using Suc.prems(4,6) by (cases dts) (auto simp: target_def)
    moreover have "r' = r" using Suc.prems(1,2) f1 True by (simp add: Let_def)
    ultimately show ?thesis using Suc.prems(3) by simp
  next
    case False
    define cur c rest where "cur = hd dts" "c = hd (tl dts)" "rest = tl (tl dts)"
    have dts: "dts = cur # c # rest" using False f1 dts_parts cur_c_rest_def by metis
    have cur: "cur \<noteq> ''*''" "cur \<noteq> ''''" "c \<noteq> ''''" "list_all (\<lambda>d. d \<noteq> '''') rest" "route cs d q cur r"
      using Suc.prems(3,5,6) by (auto simp: dts)
    consider "c = ''*''" | "c \<noteq> ''*''" "cur = c" | "c \<noteq> ''*''" "cur \<noteq> c" by blast
    then show ?thesis
    proof cases
      case 1
      then have "convert_loop s cs ok n False (cur # rest) r (note_field s cur r0 x) = Some (Success r', x')"
        using Suc.prems(1,2) by (simp add: dts Let_def falsy_type_def cur)
      from Suc.IH[OF this nofilter] cur 1 show ?thesis by (simp add: target_def dts)
    next
      case 2
      then have "convert_loop s cs ok n False (c # rest) r (note_field s cur r0 x) = Some (Success r', x')"
        using Suc.prems(1,2) by (simp add: dts Let_def falsy_type_def cur)
      from Suc.IH[OF this nofilter] cur 2 show ?thesis by (simp add: target_def dts)
    next
      case 3
      obtain conv c' again where k: "seek_converter cs cur c = (conv, c', again)" using prod_cases3 by blast
      obtain t where t: "apply_conv (throws s) cur c' conv r = Success t"
          "convert_loop s cs ok n False (c' # again @ rest) t (note_field s cur r0 x) = Some (Success r', x')"
        using Suc.prems(1,2) 3 by (auto simp: dts Let_def falsy_type_def cur k split: outcome.splits)
      have w: "route cs d q c' t" "c' = c \<and> again = [] \<or> c' \<noteq> '''' \<and> c' \<noteq> ''*'' \<and> again = [c]"
        using route_step[OF assms k t(1) cur(5)] by auto
      from Suc.IH[OF t(2) nofilter] w cur 3 show ?thesis by (auto simp: target_def dts)
    qed
  qed
qed simp

lemma convert_loop_no_conversion:
  assumes "convs_ok cs" "obj_wf cs"
  shows "convert_loop s cs ok n first dts r x = Some (ParserError (NoConversion p c), x') \<Longrightarrow>
    direct cs p c = NoConv \<and> (\<forall>a. direct cs p a = NoConv \<or> converter cs a c = NoConv)"
proof (induction n arbitrary: first dts r x)
  case (Suc n)
  have "direct cs p c = NoConv \<and> (\<forall>a. direct cs p a = NoConv \<or> converter cs a c = NoConv)"
    if k: "seek_converter cs cur d = (conv, d', again)"
      and a: "apply_conv thr cur d' conv t = ParserError (NoConversion p c)"
    for cur d conv d' again t thr
  proof -
    have n: "conv = NoConv" "p = cur" "c = d'" using a by (cases conv; auto split: sum.splits if_splits)+
    from assms show ?thesis
    proof (cases rule: seek_converter_cases[of cs cur d])
      case none
      then show ?thesis using k n by simp
    next
      case (one v)
      then show ?thesis using k n by simp
    next
      case (two b v)
      then show ?thesis using k n by (auto simp: pair_found_def)
    qed
  qed
  then show ?case using Suc
    by (auto simp: Let_def split: if_splits sum.splits prod.splits outcome.splits)
qed simp

section \<open>Properties\<close>

lemma rounds_le: "rounds cs dts \<le> Suc (2 * length dts)"
  by (cases dts) (auto simp: rounds_def)

definition default_converters ::
  "('r \<Rightarrow> 'r) \<Rightarrow> ('r \<Rightarrow> 'e + 'r) \<Rightarrow> ('r \<Rightarrow> 'e + 'r) \<Rightarrow> ('r, 'e) convs" where
  "default_converters str json xml =
     [(''* text'', Conv (\<lambda>r. Inr (str r))), (''text html'', Equiv), (''text json'', Conv json),
      (''text xml'', Conv xml)]"

lemma default_convs_ok: "convs_ok (default_converters str json xml)"
  by (simp add: convs_ok_def default_converters_def conv_ok.simps usable_def)

lemma not_index: "\<not> list_all is_digit k \<Longrightarrow> \<not> is_index k"
  using dec_digits unfolding is_index_def list_all_iff by metis

lemma converter_keys:
  "\<not> is_index ''* text''" "\<not> is_index ''text html''" "\<not> is_index ''text json''" "\<not> is_index ''text xml''"
  "to_lower ''* text'' = ''* text''" "to_lower ''text html'' = ''text html''"
  "to_lower ''text json'' = ''text json''" "to_lower ''text xml'' = ''text xml''"
  by (rule not_index, simp add: is_digit_def)+ (simp_all add: to_lower_def lower_char_def)

lemma lower_default:
  "lower_convs [d, ''json''] (default_converters str json xml) = default_converters str json xml"
  by (simp add: lower_convs_def default_converters_def converter_keys keys_put_new has_key_def)

definition default_fields :: "string obj" where
  "default_fields = [(''xml'', ''responseXML''), (''text'', ''responseText''), (''json'', ''responseJSON'')]"

lemma default_index: "\<not> is_index ''responseText''" "\<not> is_index ''responseJSON''"
  by (rule not_index, simp add: is_digit_def)+

text \<open>The settings of \<open>ajaxSettings\<close>; responses are numbers, and 0 is not a JSON text.\<close>

definition number_settings :: "(nat, string) conv_settings" where
  "number_settings =
     \<lparr>converters = default_converters (\<lambda>n. n) (\<lambda>n. if n = 0 then Inl ''SyntaxError'' else Inr (n + 100)) Inr,
      responseFields = default_fields, dataFilter = None, throws = False\<rparr>"

lemma number_settings_ok: "convs_ok (converters number_settings)"
  by (simp add: number_settings_def default_convs_ok)

lemma ajaxConvert_total:
  "convs_ok (converters s) \<Longrightarrow> Suc (2 * length dts) \<le> n \<Longrightarrow> \<exists>out. ajaxConvert s n dts ok r x = Some out"
  using convert_loop_ends[OF convs_ok_lower obj_wf_lower, of "converters s" dts dts n]
    rounds_le[of "lower_convs dts (converters s)" dts] by (simp add: ajaxConvert_def)

text \<open>
  Converting a response ends: with converters that are functions or \<open>true\<close> under keys of two
  words, two rounds for each data type are enough, whatever the data types are.
\<close>

theorem ajaxConvert_ends:
  assumes "convs_ok (converters s)" and "Suc (2 * length dts) \<le> n"
  shows "\<exists>out. ajaxConvert s n dts ok r x = Some out"
  by (rule ajaxConvert_total[OF assms])

theorem ajaxConvert_ends_witness: "\<exists>out. ajaxConvert number_settings 5 [''html'', ''json''] True 7 [] = Some out"
  using ajaxConvert_ends[OF number_settings_ok, of "[''html'', ''json'']" 5] by simp

text \<open>
  A converted response comes from the given one, after the data filter, along registered
  converters: from the first data type to the last that is not \<open>*\<close>.  The answer \<open>No conversion\<close> is
  given only when there is no converter between the two types it names, nor a pair through a third.
\<close>

theorem ajaxConvert_sound:
  assumes "convs_ok (converters s)" and "list_all (\<lambda>d. d \<noteq> '''') (d # ds)" and "d \<noteq> ''*''"
    and "filtered s ok r = Inr r1" and "ajaxConvert s n (d # ds) ok r x = Some (out, x')"
  shows "(out = Success r' \<longrightarrow>
      route (lower_convs (d # ds) (converters s)) d r1 (target (d # ds)) r') \<and>
    (out = ParserError (NoConversion p c) \<longrightarrow>
      direct (lower_convs (d # ds) (converters s)) p c = NoConv \<and>
      (\<forall>a. direct (lower_convs (d # ds) (converters s)) p a = NoConv \<or>
            converter (lower_convs (d # ds) (converters s)) a c = NoConv))"
proof -
  let ?cs = "lower_convs (d # ds) (converters s)"
  have cs: "convs_ok ?cs" "obj_wf ?cs" using convs_ok_lower[OF assms(1)] obj_wf_lower by auto
  show ?thesis
    using convert_loop_route[OF cs, where s = s and ok = ok and n = n and first = True and dts = "d # ds" and
        ?r0.0 = r and r = r1 and q = r1 and d = d and r' = r' and x' = x' and x = x] assms route_start[of ?cs d r1]
      convert_loop_no_conversion[OF cs, where s = s and ok = ok and n = n and first = True and dts = "d # ds" and
        r = r and x = x and x' = x' and p = p and c = c]
    unfolding ajaxConvert_def by auto
qed

lemma number_loop:
  "ajaxConvert number_settings 5 [''html'', ''json''] True 7 [] =
     Some (Success 107, [(''responseText'', 7), (''responseJSON'', 107)])"
proof -
  have "seek_converter (default_converters str json xml) ''html'' ''json'' = (Conv (\<lambda>r. Inr (str r)), ''text'', [''json''])"
      "seek_converter (default_converters str json xml) ''text'' ''json'' = (Conv json, ''json'', [])"
    for str :: "nat \<Rightarrow> nat" and json xml :: "nat \<Rightarrow> string + nat"
    by (simp_all add: seek_converter_def direct_def converter_def default_converters_def obj_get_def)
  then show ?thesis
    by (simp add: ajaxConvert_def number_settings_def lower_default eval_nat_numeral Let_def falsy_type_def
        filtered_def note_field_def default_fields_def obj_get_def default_index keys_put_new has_key_def)
qed

theorem ajaxConvert_sound_witness:
  "route (lower_convs [''html'', ''json''] (converters number_settings)) ''html'' 7 ''json'' 107"
  using ajaxConvert_sound[OF number_settings_ok, of "''html''" "[''json'']" True 7 7 5 "[]" "Success 107"
      "[(''responseText'', 7), (''responseJSON'', 107)]" 107] number_loop
  by (simp add: filtered_def number_settings_def target_def)

lemma json_handled:
  assumes "word_from True ''json'' False mime" and "\<not> word_from True ''xml'' False mime"
    and "\<not> word_from False ''html'' False mime"
    and "converters s = default_converters str json xml" and "dataFilter s = None" and "\<not> throws s"
    and "dts = [''*''] \<or> dts = [''json'']"
  shows "ajaxHandleResponses default_contents (converters s) (Some mime) dts [(''text'', t)] =
      ([''text'', ''json''], Some t) \<and>
    map_option fst (ajaxConvert s (Suc (Suc (Suc n))) [''text'', ''json''] True t x) =
      Some (case json t of Inr v \<Rightarrow> Success v | Inl e \<Rightarrow> ParserError (Thrown e))"
proof
  have "mime \<noteq> []" using assms(1) by auto
  then have k: "known_type default_contents (Some mime) [] = [''json'']"
    using assms(1-3) by (simp add: known_type_def default_contents_def)
  have c: "converter (default_converters str json xml) ''text'' ''json'' = Conv json"
    by (simp add: converter_def default_converters_def obj_get_def)
  show "ajaxHandleResponses default_contents (converters s) (Some mime) dts [(''text'', t)] =
      ([''text'', ''json''], Some t)"
  proof (cases "dts = [''*'']")
    case True
    show ?thesis unfolding True assms(4) ajaxHandleResponses_def
      by (simp add: k c first_type_def has_key_def obj_get_def falsy_type_def Let_def)
  next
    case False
    then have "dts = [''json'']" using assms(7) by simp
    then show ?thesis unfolding assms(4) ajaxHandleResponses_def
      by (simp add: known_type_def c first_type_def has_key_def obj_get_def falsy_type_def Let_def)
  qed
next
  have l: "lower_convs [''text'', ''json''] (converters s) = default_converters str json xml"
    by (simp add: assms(4) lower_default)
  have "seek_converter (default_converters str json xml) ''text'' ''json'' = (Conv json, ''json'', [])"
    by (simp add: seek_converter_def direct_def converter_def default_converters_def obj_get_def)
  then show "map_option fst (ajaxConvert s (Suc (Suc (Suc n))) [''text'', ''json''] True t x) =
      Some (case json t of Inr v \<Rightarrow> Success v | Inl e \<Rightarrow> ParserError (Thrown e))"
    using assms(5,6)
    by (simp add: ajaxConvert_def l Let_def falsy_type_def filtered_def split: sum.splits)
qed

text \<open>
  With the default settings, a text that arrives as JSON (or that was asked for as JSON) is parsed:
  the request succeeds with the parsed value, or ends in a parser error with what the parser threw.
\<close>

theorem json_response:
  assumes "word_from True ''json'' False mime" and "\<not> word_from True ''xml'' False mime"
    and "\<not> word_from False ''html'' False mime"
    and "converters s = default_converters str json xml" and "dataFilter s = None" and "\<not> throws s"
    and "dts = [''*''] \<or> dts = [''json'']"
  shows "ajaxHandleResponses default_contents (converters s) (Some mime) dts [(''text'', t)] =
      ([''text'', ''json''], Some t) \<and>
    map_option fst (ajaxConvert s 3 [''text'', ''json''] True t x) =
      Some (case json t of Inr v \<Rightarrow> Success v | Inl e \<Rightarrow> ParserError (Thrown e))"
  using json_handled[OF assms, where n = 0 and t = t and x = x] by (simp add: numeral_3_eq_3)

theorem json_response_witness:
  "ajaxHandleResponses default_contents (converters number_settings) (Some ''application/json'') [''*''] [(''text'', 0)] =
     ([''text'', ''json''], Some 0) \<and>
   map_option fst (ajaxConvert number_settings 3 [''text'', ''json''] True 0 []) =
     Some (ParserError (Thrown ''SyntaxError''))"
proof -
  have w: "word_from True ''json'' False ''application/json''" "\<not> word_from True ''xml'' False ''application/json''"
      "\<not> word_from False ''html'' False ''application/json''" by code_simp+
  show ?thesis
    using json_response[OF w, where s = number_settings and str = "\<lambda>n. n" and xml = Inr and
        json = "\<lambda>n. if n = 0 then Inl ''SyntaxError'' else Inr (n + 100)" and dts = "[''*'']" and t = 0 and x = "[]"]
    by (simp add: number_settings_def)
qed

text \<open>A converter disabled by \<open>false\<close>, with the catch-all one to text, makes the loop run for ever.\<close>

lemma disabled_converter_loops:
  assumes "converters s = [(''* text'', Conv (\<lambda>r. Inr (str r))), (''text json'', NoConv)]"
    and "dataFilter s = None"
  shows "ajaxConvert s n [''text'', ''json''] ok r x = None"
proof -
  let ?cs = "[(''* text'', Conv (\<lambda>r. Inr (str r))), (''text json'', NoConv)]"
  have l: "lower_convs [''text'', ''json''] (converters s) = ?cs"
    by (simp add: assms(1) lower_convs_def converter_keys keys_put_new has_key_def)
  have "seek_converter ?cs ''text'' ''json'' = (Conv (\<lambda>r. Inr (str r)), ''text'', [''json''])"
    by (simp add: seek_converter_def direct_def converter_def obj_get_def)
  note k = this
  have "convert_loop s ?cs ok n first [''text'', ''json''] r x = None" for first
    by (induction n arbitrary: first r x) (auto simp: k assms(2) Let_def falsy_type_def filtered_def)
  then show ?thesis by (simp add: ajaxConvert_def l)
qed

end
