(* ===== verification/JqRequest.thy ===== *)
theory JqRequest
  imports JqAjaxConvert
begin

text \<open>
  The texts of an ajax request in \<open>jquery.js\<close>: its URL with and without the fragment and the
  anti-cache parameter, the headers it sends (whose names ignore case) and those of the response.
\<close>

section \<open>The URL\<close>

definition upper_char :: "char \<Rightarrow> char" where
  "upper_char c = (let n = of_char c :: nat in if 97 \<le> n \<and> n \<le> 122 then char_of (n - 32) else c)"

definition has_content :: "string \<Rightarrow> bool" where
  "has_content method = (map upper_char method \<notin> {''GET'', ''HEAD''})"

definition line_break :: "char \<Rightarrow> bool" where
  "line_break c \<longleftrightarrow> c = CHR 0x0A \<or> c = CHR 0x0D"

text \<open>\<open>rhash\<close>: a number sign and what follows it up to the end of the text, on one line.\<close>

fun strip_hash :: "string \<Rightarrow> string" where
  "strip_hash [] = []"
| "strip_hash (c # s) = (if c = CHR ''#'' \<and> list_all (\<lambda>x. \<not> line_break x) s then [] else c # strip_hash s)"

text \<open>\<open>rantiCache\<close>: the first anti-cache parameter.\<close>

fun drop_anti_cache :: "string \<Rightarrow> string" where
  "drop_anti_cache [] = []"
| "drop_anti_cache (c # s) =
     (if (c = CHR ''?'' \<or> c = CHR ''&'') \<and> is_prefix ''_='' s
      then c # dropWhile (\<lambda>x. x \<noteq> CHR ''&'') (drop 2 s) else c # drop_anti_cache s)"

fun plus_for_20 :: "string \<Rightarrow> string" where
  "plus_for_20 [] = []"
| "plus_for_20 (c # s) =
     (if is_prefix ''%20'' (c # s) then CHR ''+'' # plus_for_20 (drop 2 s) else c # plus_for_20 s)"

definition separator :: "string \<Rightarrow> char" where
  "separator u = (if CHR ''?'' \<in> set u then CHR ''&'' else CHR ''?'')"

text \<open>The data is \<open>None\<close> when it is falsy.  The result: URL, URL without anti-cache, data, nonce.\<close>

definition get_url :: "bool \<Rightarrow> string option \<Rightarrow> string \<Rightarrow> nat \<Rightarrow> string \<times> string \<times> string option \<times> nat" where
  "get_url no_cache data url nonce =
     (let cache0 = strip_hash url;
          uncached = drop (length cache0) url;
          cache1 = (case data of None \<Rightarrow> cache0 | Some d \<Rightarrow> cache0 @ separator cache0 # d)
      in if no_cache
         then let cache2 = drop_anti_cache cache1
              in (cache2 @ separator cache2 # ''_='' @ dec nonce @ uncached, cache2, None, nonce + 1)
         else (cache1 @ uncached, cache1, None, nonce))"

definition form_type :: string where
  "form_type = ''application/x-www-form-urlencoded''"

definition post_url ::
  "bool \<Rightarrow> string option \<Rightarrow> string option \<Rightarrow> string \<Rightarrow> nat \<Rightarrow> string \<times> string \<times> string option \<times> nat" where
  "post_url processData contentType data url nonce =
     (url, strip_hash url,
      (if processData \<and> is_prefix form_type (case contentType of None \<Rightarrow> '''' | Some c \<Rightarrow> c)
       then map_option plus_for_20 data else data), nonce)"

section \<open>Request headers\<close>

text \<open>The spelling of the first header with a name is kept.\<close>

definition put_header :: "string \<Rightarrow> string \<Rightarrow> string obj \<times> string obj \<Rightarrow> string obj \<times> string obj" where
  "put_header name value hs =
     (case hs of (names, headers) \<Rightarrow>
        let n = (case obj_get names (to_lower name) of
                   None \<Rightarrow> name | Some n \<Rightarrow> if n = '''' then name else n)
        in (obj_put names (to_lower name) n, obj_put headers n value))"

definition header_names_ok :: "string obj \<times> string obj \<Rightarrow> bool" where
  "header_names_ok hs \<longleftrightarrow>
     (\<forall>k n. obj_get (fst hs) k = Some n \<longrightarrow> to_lower n = k) \<and>
     (\<forall>n. obj_get (snd hs) n \<noteq> None \<longrightarrow> obj_get (fst hs) (to_lower n) = Some n)"

text \<open>The value sent under a name, whatever its case.\<close>

definition header_value :: "string obj \<times> string obj \<Rightarrow> string \<Rightarrow> string option" where
  "header_value hs name =
     (case obj_get (fst hs) (to_lower name) of None \<Rightarrow> None | Some n \<Rightarrow> obj_get (snd hs) n)"

section \<open>Response headers\<close>

fun split_lines :: "string \<Rightarrow> string list" where
  "split_lines [] = [[]]"
| "split_lines (c # s) =
     (if line_break c then [] # split_lines s
      else (case split_lines s of [] \<Rightarrow> [[c]] | l # ls \<Rightarrow> (c # l) # ls))"

definition header_of_line :: "string \<Rightarrow> (string \<times> string) list" where
  "header_of_line l =
     (if CHR '':'' \<in> set l
      then [(takeWhile (\<lambda>c. c \<noteq> CHR '':'') l,
             dropWhile (\<lambda>c. c = CHR '' '' \<or> c = CHR 0x09) (tl (dropWhile (\<lambda>c. c \<noteq> CHR '':'') l)))]
      else [])"

definition parse_headers :: "string \<Rightarrow> string obj" where
  "parse_headers s =
     fold (\<lambda>(k, v) m. obj_put m (to_lower k) v) (concat (map header_of_line (split_lines s))) []"

definition render_headers :: "(string \<times> string) list \<Rightarrow> string" where
  "render_headers hs = concat (map (\<lambda>(k, v). k @ '': '' @ v @ [CHR 0x0D, CHR 0x0A]) hs)"

definition header_ok :: "string \<times> string \<Rightarrow> bool" where
  "header_ok h =
     (case h of (k, v) \<Rightarrow>
        list_all (\<lambda>c. \<not> line_break c \<and> c \<noteq> CHR '':'') k \<and> list_all (\<lambda>c. \<not> line_break c) v \<and>
        (v = '''' \<or> hd v \<noteq> CHR '' '' \<and> hd v \<noteq> CHR 0x09))"

section \<open>Lemmas\<close>

lemma strip_hash_prefix: "strip_hash u @ drop (length (strip_hash u)) u = u"
  by (induction u rule: strip_hash.induct) auto

lemma split_lines_word:
  "list_all (\<lambda>c. \<not> line_break c) w \<Longrightarrow> line_break b \<Longrightarrow> split_lines (w @ b # s) = w # split_lines s"
  by (induction w) auto

lemma takeWhile_colon:
  "list_all (\<lambda>c. \<not> line_break c \<and> c \<noteq> CHR '':'') k \<Longrightarrow>
     takeWhile (\<lambda>c. c \<noteq> CHR '':'') (k @ CHR '':'' # s) = k \<and> dropWhile (\<lambda>c. c \<noteq> CHR '':'') (k @ CHR '':'' # s) = CHR '':'' # s"
  by (induction k) auto

lemma header_of_line_render:
  assumes "header_ok (k, v)"
  shows "header_of_line (k @ '': '' @ v) = [(k, v)]"
proof -
  have "dropWhile (\<lambda>c. c = CHR '' '' \<or> c = CHR 0x09) v = v"
    using assms by (cases v) (auto simp: header_ok_def)
  then show ?thesis
    using takeWhile_colon[of k "CHR '' '' # v"] assms by (simp add: header_of_line_def header_ok_def)
qed

lemma parsed_lines:
  "list_all header_ok hs \<Longrightarrow> concat (map header_of_line (split_lines (render_headers hs))) = hs"
proof (induction hs)
  case Nil
  then show ?case by (simp add: render_headers_def header_of_line_def)
next
  case (Cons h hs)
  obtain k v where h: "h = (k, v)" by fastforce
  then have ok: "header_ok (k, v)" using Cons.prems by simp
  have br: "line_break (CHR 0x0D)" "line_break (CHR 0x0A)" by (simp_all add: line_break_def)
  have "list_all (\<lambda>c. \<not> line_break c) (k @ '': '' @ v)"
    using ok by (auto simp: header_ok_def line_break_def list_all_iff)
  then have "split_lines ((k @ '': '' @ v) @ CHR 0x0D # CHR 0x0A # render_headers hs) =
      (k @ '': '' @ v) # [] # split_lines (render_headers hs)"
    using br by (subst split_lines_word) auto
  moreover have "render_headers (h # hs) = (k @ '': '' @ v) @ CHR 0x0D # CHR 0x0A # render_headers hs"
    by (simp add: render_headers_def h)
  ultimately have "concat (map header_of_line (split_lines (render_headers (h # hs)))) =
      header_of_line (k @ '': '' @ v) @ header_of_line [] @ concat (map header_of_line (split_lines (render_headers hs)))"
    by (simp only: list.map concat.simps)
  moreover have "header_of_line [] = []" by (simp add: header_of_line_def)
  ultimately show ?case using Cons.IH Cons.prems header_of_line_render[OF ok] h by simp
qed

lemma header_fold:
  "obj_get (fold (\<lambda>(k, v) m. obj_put m (to_lower k) v) hs m) =
     obj_get m ++ map_of (rev (map (\<lambda>(k, v). (to_lower k, v)) hs))"
  by (induction hs arbitrary: m) (auto simp: get_put map_add_def fun_eq_iff split: option.splits)

lemma parse_render:
  "list_all header_ok hs \<Longrightarrow>
     obj_get (parse_headers (render_headers hs)) = map_of (rev (map (\<lambda>(k, v). (to_lower k, v)) hs))"
  by (simp add: parse_headers_def parsed_lines header_fold get_empty)

lemma put_header_spec:
  assumes "header_names_ok hs"
  shows "header_names_ok (put_header name value hs) \<and>
    header_value (put_header name value hs) other =
      (if to_lower other = to_lower name then Some value else header_value hs other)"
proof (cases hs)
  case (Pair names headers)
  define n where "n = (case obj_get names (to_lower name) of None \<Rightarrow> name | Some n \<Rightarrow> if n = [] then name else n)"
  have n: "to_lower n = to_lower name"
    using assms Pair by (auto simp: n_def header_names_ok_def split: option.splits)
  have p: "put_header name value (names, headers) = (obj_put names (to_lower name) n, obj_put headers n value)"
    by (simp add: put_header_def Pair n_def Let_def)
  have keep: "m = n" if "obj_get names (to_lower name) = Some m" for m
  proof -
    have "to_lower m = to_lower name" using that assms Pair by (auto simp: header_names_ok_def)
    then have "m = [] \<Longrightarrow> name = []" by (simp add: to_lower_def)
    moreover have "n = (if m = [] then name else m)" by (simp add: n_def that)
    ultimately show ?thesis by simp
  qed
  let ?k = "to_lower name"
  have N: "to_lower m = k" if "obj_get names k = Some m" for k m
    using that assms Pair by (simp add: header_names_ok_def)
  have H: "obj_get names (to_lower m) = Some m" if "obj_get headers m \<noteq> None" for m
    using that assms Pair by (simp add: header_names_ok_def)
  have "to_lower m = k" if "obj_get (obj_put names ?k n) k = Some m" for k m
    using that N[of k m] n by (simp add: get_put split: if_splits)
  moreover have "obj_get (obj_put names ?k n) (to_lower m) = Some m"
    if "obj_get (obj_put headers n value) m \<noteq> None" for m
  proof (cases "m = n")
    case False
    then have "obj_get names (to_lower m) = Some m" using that H by (simp add: get_put)
    then show ?thesis using keep[of m] False by (auto simp: get_put)
  qed (simp add: get_put n)
  ultimately have "header_names_ok (put_header name value hs)"
    unfolding Pair p header_names_ok_def by simp
  moreover have "header_value (put_header name value hs) other =
      (if to_lower other = ?k then Some value else header_value hs other)"
  proof (cases "to_lower other = ?k")
    case False
    then have "m \<noteq> n" if "obj_get names (to_lower other) = Some m" for m using N[OF that] n by auto
    then show ?thesis using False unfolding Pair p header_value_def
      by (auto simp: get_put split: option.splits)
  qed (simp add: Pair p header_value_def get_put)
  ultimately show ?thesis by simp
qed

section \<open>Properties\<close>

text \<open>
  Two requests with the anti-cache parameter have different URLs unless their nonces agree; the
  URL kept for conditional requests does not depend on the nonce, and the fragment of the URL stays
  at its end.
\<close>

theorem anti_cache_fresh:
  "(fst (get_url True data u m) = fst (get_url True data u n) \<longleftrightarrow> m = n) \<and>
   fst (snd (get_url True data u m)) = fst (snd (get_url True data u n)) \<and>
   snd (snd (snd (get_url True data u n))) = Suc n \<and>
   (\<exists>v. u = strip_hash u @ v \<and> (\<exists>w. fst (get_url True data u n) = fst (snd (get_url True data u n)) @ w @ v))"
proof -
  let ?v = "drop (length (strip_hash u)) u"
  have "fst (get_url True data u n) =
      fst (snd (get_url True data u n)) @ (separator (fst (snd (get_url True data u n))) # ''_='' @ dec n) @ ?v"
    by (simp add: get_url_def Let_def)
  moreover have "u = strip_hash u @ ?v" by (simp add: strip_hash_prefix)
  ultimately show ?thesis by (auto simp: get_url_def Let_def)
qed

text \<open>
  Response headers are read back: a name, in any case, gives the value of the last header with that
  name, and a name that no header has gives none.
\<close>

theorem response_headers_roundtrip:
  assumes "list_all header_ok hs"
  shows "obj_get (parse_headers (render_headers hs)) (to_lower name) =
    map_of (rev (map (\<lambda>(k, v). (to_lower k, v)) hs)) (to_lower name)"
  by (simp add: parse_render[OF assms])

theorem response_headers_roundtrip_witness:
  "obj_get (parse_headers (render_headers [(''A'', ''x: y''), (''b'', ''''), (''a'', ''2'')])) (to_lower ''A'') = Some ''2''"
proof -
  have "list_all header_ok [(''A'', ''x: y''), (''b'', ''''), (''a'', ''2'')]"
    by (simp add: header_ok_def line_break_def)
  moreover have "to_lower ''A'' = ''a''" "to_lower ''a'' = ''a''" "to_lower ''b'' = ''b''" by code_simp+
  ultimately show ?thesis
    using response_headers_roundtrip[of "[(''A'', ''x: y''), (''b'', ''''), (''a'', ''2'')]" "''A''"] by simp
qed

end
