(* ===== verification/JqXhr.thy ===== *)
theory JqXhr
  imports JqRequest
begin

text \<open>
  The life of an ajax request in \<open>jquery.js\<close>: \<open>jQuery.ajax\<close>, the methods of \<open>jqXHR\<close>, the function
  \<open>done\<close> and the counter of active requests.  What hooks and callbacks can do to the request is a
  list of method calls; what the request does to the outside is a log.  An exception of a transport
  or a converter is known by its text.  Callbacks of one request do not start another.
\<close>

section \<open>Settings and state\<close>

datatype xcmd =
  SetHeader string string | OverrideMime string | StatusCode "(int \<times> nat list) list" | Abort string

datatype failure = Message string | Conversion "string conv_error"

datatype 'r xevent =
    Triggered string | Sent "string obj" | TransportAborted string
  | Resolved "'r option" string | Rejected string failure
  | StatusCalled nat | CompleteCalled string | ThrownOut string

record 'r reply =
  r_status :: int
  r_text :: string
  r_responses :: "'r obj option"
  r_headers :: string

record 'r xsettings =
  x_url :: string
  x_method :: string
  x_data :: "string option"
  x_processData :: bool
  x_contentType :: "string option"  \<comment> \<open>\<open>None\<close> for \<open>false\<close>\<close>
  x_ownType :: bool  \<comment> \<open>\<open>options.contentType\<close> is given\<close>
  x_noCache :: bool
  x_ifModified :: bool
  x_async :: bool
  x_timeout :: nat
  x_global :: bool
  x_headers :: "string obj"
  x_types :: "string list"
  x_contents :: "(string \<Rightarrow> bool) obj"
  x_accepts :: "string obj"
  x_conv :: "('r, string) conv_settings"
  x_undefined :: 'r
  x_mime :: "string option"
  x_statusCode :: "(int \<times> nat list) list"
  \<comment> \<open>the hooks: prefilters, \<open>beforeSend\<close> with \<open>True\<close> for the answer \<open>false\<close>, handlers of \<open>ajaxSend\<close>\<close>
  x_prefilters :: "xcmd list"
  x_beforeSend :: "(xcmd list \<times> bool) option"
  x_sendHandlers :: "xcmd list"
  \<comment> \<open>whether there is a transport; the reply it gives and the exception it throws while sending\<close>
  x_transport :: bool
  x_sendReply :: "'r reply option"
  x_sendThrows :: "string option"

record 'r xhr =
  completed :: "bool option"
  readyState :: nat
  transport :: bool
  strAbort :: string
  timer :: bool
  sent_headers :: "string obj \<times> string obj"
  mimeType :: "string option"
  dataTypes :: "string list"
  statusCodes :: "(int \<times> nat list) list"
  responseHeaders :: string
  xstatus :: int
  xstatusText :: string
  fireGlobals :: bool
  cacheURL :: string
  xfields :: "'r obj"
  log :: "'r xevent list"

record ajax_globals =
  active :: int
  lastModified :: "string obj"
  etags :: "string obj"
  nonce :: nat

definition emit :: "'r xevent list \<Rightarrow> 'r xhr \<Rightarrow> 'r xhr" where
  "emit es x = x\<lparr>log := log x @ es\<rparr>"

section \<open>The methods of jqXHR\<close>

definition done_called :: "'r xhr \<Rightarrow> bool" where
  "done_called x \<longleftrightarrow> completed x = Some True"

definition getResponseHeader :: "string \<Rightarrow> 'r xhr \<Rightarrow> string option" where
  "getResponseHeader key x =
     (if done_called x then obj_get (parse_headers (responseHeaders x)) (to_lower key) else None)"

definition getAllResponseHeaders :: "'r xhr \<Rightarrow> string option" where
  "getAllResponseHeaders x = (if done_called x then Some (responseHeaders x) else None)"

definition setRequestHeader :: "string \<Rightarrow> string \<Rightarrow> 'r xhr \<Rightarrow> 'r xhr" where
  "setRequestHeader name value x =
     (if completed x = None then x\<lparr>sent_headers := put_header name value (sent_headers x)\<rparr> else x)"

definition overrideMimeType :: "string \<Rightarrow> 'r xhr \<Rightarrow> 'r xhr" where
  "overrideMimeType t x = (if completed x = None then x\<lparr>mimeType := Some t\<rparr> else x)"

definition callbacks_for :: "int \<Rightarrow> (int \<times> nat list) list \<Rightarrow> nat list" where
  "callbacks_for code m = concat (map snd (filter (\<lambda>(c, fs). c = code) m))"

text \<open>After completion the callbacks of the status are called at once.\<close>

definition statusCode :: "(int \<times> nat list) list \<Rightarrow> 'r xhr \<Rightarrow> 'r xhr" where
  "statusCode m x =
     (if done_called x then emit (map StatusCalled (callbacks_for (xstatus x) m)) x
      else x\<lparr>statusCodes := statusCodes x @ m\<rparr>)"

section \<open>The function done\<close>

definition truthy_text :: "string option \<Rightarrow> string option" where
  "truthy_text t = (case t of Some s \<Rightarrow> if s = '''' then None else Some s | None \<Rightarrow> None)"

definition remember_times :: "'r xsettings \<Rightarrow> 'r xhr \<Rightarrow> ajax_globals \<Rightarrow> ajax_globals" where
  "remember_times s x g =
     (if x_ifModified s
      then let g1 = (case truthy_text (getResponseHeader ''Last-Modified'' x) of
                       None \<Rightarrow> g | Some m \<Rightarrow> g\<lparr>lastModified := obj_put (lastModified g) (cacheURL x) m\<rparr>)
           in (case truthy_text (getResponseHeader ''etag'' x) of
                 None \<Rightarrow> g1 | Some m \<Rightarrow> g1\<lparr>etags := obj_put (etags g1) (cacheURL x) m\<rparr>)
      else g)"

definition is_success :: "int \<Rightarrow> bool" where
  "is_success status \<longleftrightarrow> 200 \<le> status \<and> status < 300 \<or> status = 304"

text \<open>The status text and what the deferred object is settled with.\<close>

definition verdict ::
  "'r xsettings \<Rightarrow> int \<Rightarrow> string \<Rightarrow> ('r, string) outcome \<Rightarrow> string \<times> (failure + 'r option)" where
  "verdict s status native out =
     (if is_success status
      then if status = 204 \<or> map upper_char (x_method s) = ''HEAD'' then (''nocontent'', Inr None)
           else if status = 304 then (''notmodified'', Inr None)
           else (case out of
                   Success r \<Rightarrow> (''success'', Inr (Some r))
                 | ParserError e \<Rightarrow> (''parsererror'', Inl (Conversion e))
                 | Escapes e \<Rightarrow> ('''', Inl (Message e)))
      else (if status \<noteq> 0 \<or> native = '''' then ''error'' else native, Inl (Message native)))"

definition settled :: "string \<times> (failure + 'r option) \<Rightarrow> 'r xevent" where
  "settled v = (case v of (t, Inr r) \<Rightarrow> Resolved r t | (t, Inl e) \<Rightarrow> Rejected t e)"

definition finish ::
  "'r xsettings \<Rightarrow> int \<Rightarrow> string \<Rightarrow> string \<times> (failure + 'r option) \<Rightarrow> 'r xhr \<Rightarrow> ajax_globals \<Rightarrow> 'r xhr \<times> ajax_globals" where
  "finish s status native v x g =
     (let st = (if \<not> is_success status \<and> (status \<noteq> 0 \<or> native = '''') \<and> status < 0 then 0 else status);
          x1 = x\<lparr>xstatus := st, xstatusText := (if native \<noteq> '''' then native else fst v)\<rparr>;
          x2 = statusCode (statusCodes x) (emit [settled v] x1);
          ok = (case snd v of Inr r \<Rightarrow> True | Inl e \<Rightarrow> False);
          x3 = (if fireGlobals x then emit [Triggered (if ok then ''ajaxSuccess'' else ''ajaxError'')] x2 else x2);
          x4 = emit [CompleteCalled (fst v)] x3
      in if fireGlobals x
         then let g1 = g\<lparr>active := active g - 1\<rparr>
              in (emit (Triggered ''ajaxComplete'' # (if active g1 = 0 then [Triggered ''ajaxStop''] else [])) x4, g1)
         else (x4, g))"

text \<open>
  \<open>done\<close>.  The fuel is enough for proper converters (see \<open>ajaxConvert_ends\<close>); the answer is \<open>None\<close>
  when the conversion does not end.  A converter may throw out of \<open>done\<close> when \<open>throws\<close> is set.
\<close>

definition done_u ::
  "'r xsettings \<Rightarrow> 'r reply \<Rightarrow> 'r xhr \<times> ajax_globals \<Rightarrow> ('r xhr \<times> ajax_globals) option" where
  "done_u s r xg =
     (case xg of (x, g) \<Rightarrow>
        if done_called x then Some (x, g)
        else
          let x1 = x\<lparr>completed := Some True, timer := False, transport := False,
                     responseHeaders := r_headers r, readyState := (if r_status r > 0 then 4 else 0)\<rparr>;
              mime = (case truthy_text (mimeType x1) of
                        None \<Rightarrow> getResponseHeader ''Content-Type'' x1 | Some m \<Rightarrow> Some m);
              (dts, response) =
                (case r_responses r of
                   None \<Rightarrow> (dataTypes x1, None)
                 | Some rs \<Rightarrow>
                     ajaxHandleResponses (x_contents s) (converters (x_conv s)) mime (dataTypes x1) rs)
          in (case ajaxConvert (x_conv s) (Suc (2 * length dts)) dts (is_success (r_status r))
                     (case response of None \<Rightarrow> x_undefined s | Some v \<Rightarrow> v) (xfields x1) of
                None \<Rightarrow> None
              | Some (Escapes e, fs) \<Rightarrow>
                  Some (emit [ThrownOut e] (x1\<lparr>dataTypes := dts, xfields := fs\<rparr>), g)
              | Some (out, fs) \<Rightarrow>
                  (let x2 = x1\<lparr>dataTypes := dts, xfields := fs\<rparr>;
                       g1 = (if is_success (r_status r) then remember_times s x2 g else g)
                   in Some (finish s (r_status r) (r_text r)
                        (verdict s (r_status r) (r_text r) out) x2 g1))))"

definition failure_reply :: "int \<Rightarrow> string \<Rightarrow> 'r reply" where
  "failure_reply status t = \<lparr>r_status = status, r_text = t, r_responses = None, r_headers = ''''\<rparr>"

definition abort ::
  "'r xsettings \<Rightarrow> string \<Rightarrow> 'r xhr \<times> ajax_globals \<Rightarrow> ('r xhr \<times> ajax_globals) option" where
  "abort s t xg =
     (case xg of (x, g) \<Rightarrow>
        let final = (if t = '''' then strAbort x else t);
            x1 = (if transport x then emit [TransportAborted final] x else x)
        in done_u s (failure_reply 0 final) (x1, g))"

fun xcall :: "'r xsettings \<Rightarrow> xcmd \<Rightarrow> 'r xhr \<times> ajax_globals \<Rightarrow> ('r xhr \<times> ajax_globals) option" where
  "xcall s (SetHeader n v) (x, g) = Some (setRequestHeader n v x, g)"
| "xcall s (OverrideMime t) (x, g) = Some (overrideMimeType t x, g)"
| "xcall s (StatusCode m) (x, g) = Some (statusCode m x, g)"
| "xcall s (Abort t) xg = abort s t xg"

fun xcalls :: "'r xsettings \<Rightarrow> xcmd list \<Rightarrow> 'r xhr \<times> ajax_globals \<Rightarrow> ('r xhr \<times> ajax_globals) option" where
  "xcalls s [] xg = Some xg"
| "xcalls s (c # cs) xg = (case xcall s c xg of None \<Rightarrow> None | Some xg' \<Rightarrow> xcalls s cs xg')"

section \<open>jQuery.ajax\<close>

definition accept_header :: "'r xsettings \<Rightarrow> string list \<Rightarrow> string" where
  "accept_header s dts =
     (let star = (case obj_get (x_accepts s) ''*'' of None \<Rightarrow> ''undefined'' | Some a \<Rightarrow> a)
      in if falsy_type dts then star
         else (case truthy_text (obj_get (x_accepts s) (hd dts)) of
                 None \<Rightarrow> star
               | Some a \<Rightarrow> if hd dts \<noteq> ''*'' then a @ '', */*; q=0.01'' else a))"

definition set_if :: "string \<Rightarrow> string option \<Rightarrow> 'r xhr \<Rightarrow> 'r xhr" where
  "set_if name v x = (case truthy_text v of None \<Rightarrow> x | Some t \<Rightarrow> setRequestHeader name t x)"

definition default_headers :: "'r xsettings \<Rightarrow> bool \<Rightarrow> ajax_globals \<Rightarrow> 'r xhr \<Rightarrow> 'r xhr" where
  "default_headers s data g x =
     (let x1 = (if x_ifModified s
                then set_if ''If-None-Match'' (obj_get (etags g) (cacheURL x))
                       (set_if ''If-Modified-Since'' (obj_get (lastModified g) (cacheURL x)) x)
                else x);
          x2 = (if data \<and> has_content (x_method s) \<and> x_contentType s \<noteq> None \<or> x_ownType s
                then setRequestHeader ''Content-Type''
                       (case x_contentType s of None \<Rightarrow> ''false'' | Some c \<Rightarrow> c) x1 else x1);
          x3 = setRequestHeader ''Accept'' (accept_header s (dataTypes x)) x2
      in fold (\<lambda>(n, v). setRequestHeader n v) (x_headers s) x3)"

definition initial_xhr :: "'r xsettings \<Rightarrow> 'r xhr" where
  "initial_xhr s =
     \<lparr>completed = None, readyState = 0, transport = False, strAbort = ''canceled'', timer = False,
      sent_headers = ([], []), mimeType = x_mime s, dataTypes = x_types s, statusCodes = x_statusCode s,
      responseHeaders = '''', xstatus = 0, xstatusText = '''', fireGlobals = False, cacheURL = '''',
      xfields = [], log = []\<rparr>"

text \<open>From the prefilters to the request's URL.\<close>

definition request_url :: "'r xsettings \<Rightarrow> nat \<Rightarrow> string \<times> string \<times> string option \<times> nat" where
  "request_url s n =
     (if has_content (x_method s)
      then post_url (x_processData s) (x_contentType s) (truthy_text (x_data s)) (x_url s) n
      else get_url (x_noCache s) (truthy_text (x_data s)) (x_url s) n)"

definition prepare :: "'r xsettings \<Rightarrow> 'r xhr \<times> ajax_globals \<Rightarrow> 'r xhr \<times> ajax_globals" where
  "prepare s xg =
     (case xg of (x, g) \<Rightarrow>
        let x1 = x\<lparr>fireGlobals := x_global s\<rparr>;
            (x2, g1) = (if x_global s
                        then (emit (if active g = 0 then [Triggered ''ajaxStart''] else []) x1, g\<lparr>active := active g + 1\<rparr>)
                        else (x1, g));
            (url, cache, data, n) = request_url s (nonce g)
        in (default_headers s (data \<noteq> None) g1 (x2\<lparr>cacheURL := cache\<rparr>), g1\<lparr>nonce := n\<rparr>))"

text \<open>Sending: the transport may reply before it returns, and it may throw.\<close>

definition send :: "'r xsettings \<Rightarrow> 'r xhr \<times> ajax_globals \<Rightarrow> ('r xhr \<times> ajax_globals) option" where
  "send s xg =
     (case xg of (x, g) \<Rightarrow>
        let x1 = x\<lparr>timer := (x_async s \<and> x_timeout s > 0), completed := Some False\<rparr>;
            x2 = emit [Sent (snd (sent_headers x1))] x1
        in case (case x_sendReply s of None \<Rightarrow> Some (x2, g) | Some r \<Rightarrow> done_u s r (x2, g)) of
             None \<Rightarrow> None
           | Some (x3, g3) \<Rightarrow>
               (case x_sendThrows s of
                  None \<Rightarrow> Some (x3, g3)
                | Some e \<Rightarrow>
                    if done_called x3 then Some (emit [ThrownOut e] x3, g3)
                    else done_u s (failure_reply (-1) e) (x3, g3)))"

definition open_transport ::
  "'r xsettings \<Rightarrow> 'r xhr \<times> ajax_globals \<Rightarrow> ('r xhr \<times> ajax_globals) option" where
  "open_transport s xg =
     (case xg of (x, g) \<Rightarrow>
        let x1 = x\<lparr>strAbort := ''abort''\<rparr>
        in if \<not> x_transport s then done_u s (failure_reply (-1) ''No Transport'') (x1, g)
           else
             let x2 = x1\<lparr>transport := True, readyState := 1\<rparr>
             in case (if fireGlobals x2
                      then xcalls s (x_sendHandlers s) (emit [Triggered ''ajaxSend''] x2, g) else Some (x2, g)) of
                  None \<Rightarrow> None
                | Some (x3, g3) \<Rightarrow> if done_called x3 then Some (x3, g3) else send s (x3, g3))"

definition before_send ::
  "'r xsettings \<Rightarrow> 'r xhr \<times> ajax_globals \<Rightarrow> ('r xhr \<times> ajax_globals) option" where
  "before_send s xg =
     (case x_beforeSend s of
        None \<Rightarrow> open_transport s xg
      | Some (cs, refuses) \<Rightarrow>
          (case xcalls s cs xg of
             None \<Rightarrow> None
           | Some (x, g) \<Rightarrow>
               if refuses \<or> done_called x then abort s '''' (x, g) else open_transport s (x, g)))"

definition ajax :: "'r xsettings \<Rightarrow> ajax_globals \<Rightarrow> ('r xhr \<times> ajax_globals) option" where
  "ajax s g =
     (case xcalls s (x_prefilters s) (initial_xhr s, g) of
        None \<Rightarrow> None
      | Some (x, g1) \<Rightarrow> if done_called x then Some (x, g1) else before_send s (prepare s (x, g1)))"

section \<open>What happens later\<close>

datatype 'r later = Reply "'r reply" | TimerFires | Call xcmd

fun later_step :: "'r xsettings \<Rightarrow> 'r later \<Rightarrow> 'r xhr \<times> ajax_globals \<Rightarrow> ('r xhr \<times> ajax_globals) option" where
  "later_step s (Reply r) xg = done_u s r xg"
| "later_step s TimerFires xg = (if timer (fst xg) then abort s ''timeout'' xg else Some xg)"
| "later_step s (Call c) xg = xcall s c xg"

fun later_run :: "'r xsettings \<Rightarrow> 'r later list \<Rightarrow> 'r xhr \<times> ajax_globals \<Rightarrow> ('r xhr \<times> ajax_globals) option" where
  "later_run s [] xg = Some xg"
| "later_run s (e # es) xg = (case later_step s e xg of None \<Rightarrow> None | Some xg' \<Rightarrow> later_run s es xg')"

section \<open>What a request does to the outside\<close>

fun settling :: "'r xevent \<Rightarrow> bool" where
  "settling (Resolved r t) = True"
| "settling (Rejected t e) = True"
| "settling (CompleteCalled t) = True"
| "settling _ = False"

definition settles :: "'r xhr \<Rightarrow> 'r xevent list" where
  "settles x = filter settling (log x)"

text \<open>A step that neither completes the request nor touches a completed one, except for its log.\<close>

definition quiet_step :: "'r xhr \<Rightarrow> 'r xhr \<Rightarrow> bool" where
  "quiet_step x x' \<longleftrightarrow> done_called x' = done_called x \<and> fireGlobals x' = fireGlobals x \<and>
     (\<exists>es. log x' = log x @ es \<and> filter settling es = [] \<and> (done_called x \<longrightarrow> x' = emit es x))"

lemma quiet_emit: "filter settling es = [] \<Longrightarrow> quiet_step x (emit es x)"
  by (auto simp: quiet_step_def emit_def done_called_def)

lemma quiet_same_log:
  "\<not> done_called x \<Longrightarrow> \<not> done_called x' \<Longrightarrow> fireGlobals x' = fireGlobals x \<Longrightarrow> log x' = log x \<Longrightarrow> quiet_step x x'"
  by (simp add: quiet_step_def)

lemma quiet_refl: "quiet_step x x"
  using quiet_emit[of "[]" x] by (simp add: emit_def)

lemma quiet_setRequestHeader: "quiet_step x (setRequestHeader n v x)"
  using quiet_refl[of x] by (auto simp: setRequestHeader_def done_called_def intro!: quiet_same_log)

lemma quiet_overrideMimeType: "quiet_step x (overrideMimeType t x)"
  using quiet_refl[of x] by (auto simp: overrideMimeType_def done_called_def intro!: quiet_same_log)

lemma quiet_statusCode: "quiet_step x (statusCode m x)"
proof (cases "done_called x")
  case True
  have "filter settling (map StatusCalled fs) = ([] :: 'a xevent list)" for fs by (induction fs) auto
  then show ?thesis using True quiet_emit[of _ x] by (simp add: statusCode_def)
next
  case False
  then show ?thesis by (auto simp: statusCode_def done_called_def intro!: quiet_same_log)
qed

lemma xcall_fields:
  "fireGlobals (setRequestHeader n v x) = fireGlobals x" "done_called (setRequestHeader n v x) = done_called x"
  "settles (setRequestHeader n v x) = settles x" "log (setRequestHeader n v x) = log x"
  by (auto simp: setRequestHeader_def done_called_def settles_def)

lemma set_headers_fields:
  "fireGlobals (fold (\<lambda>(n, v). setRequestHeader n v) hs x) = fireGlobals x"
  "done_called (fold (\<lambda>(n, v). setRequestHeader n v) hs x) = done_called x"
  "log (fold (\<lambda>(n, v). setRequestHeader n v) hs x) = log x"
  by (induction hs arbitrary: x) (auto simp: xcall_fields)

lemma set_if_fields:
  "fireGlobals (set_if n v x) = fireGlobals x" "done_called (set_if n v x) = done_called x" "log (set_if n v x) = log x"
  by (simp_all add: set_if_def xcall_fields split: option.split)

lemma default_headers_fields:
  "fireGlobals (default_headers s d g x) = fireGlobals x"
  "done_called (default_headers s d g x) = done_called x"
  "log (default_headers s d g x) = log x"
  by (simp_all add: default_headers_def Let_def set_headers_fields set_if_fields xcall_fields)

text \<open>
  Relations between an earlier and a later state of a request: it is enough that they hold for
  \<open>done\<close> and for quiet steps.
\<close>

locale request_steps =
  fixes s :: "'r xsettings" and R :: "'r xhr \<times> ajax_globals \<Rightarrow> 'r xhr \<times> ajax_globals \<Rightarrow> bool"
  assumes R_refl: "R xg xg"
    and R_trans: "R xg xg' \<Longrightarrow> R xg' xg'' \<Longrightarrow> R xg xg''"
    and R_quiet: "quiet_step x x' \<Longrightarrow> R (x, g) (x', g)"
    and R_done: "done_u s r xg = Some xg' \<Longrightarrow> R xg xg'"
begin

lemma R_abort: "abort s t xg = Some xg' \<Longrightarrow> R xg xg'"
proof -
  assume a: "abort s t xg = Some xg'"
  obtain x g where xg: "xg = (x, g)" by fastforce
  define x1 where "x1 = (if transport x then emit [TransportAborted (if t = '''' then strAbort x else t)] x else x)"
  have "quiet_step x x1" by (simp add: x1_def quiet_emit quiet_refl)
  then have "R (x, g) (x1, g)" by (rule R_quiet)
  moreover have "R (x1, g) xg'" using a R_done by (simp add: abort_def xg x1_def Let_def)
  ultimately show ?thesis using R_trans xg by blast
qed

lemma R_xcall: "xcall s c xg = Some xg' \<Longrightarrow> R xg xg'"
proof (cases c)
  case (Abort t)
  then show "xcall s c xg = Some xg' \<Longrightarrow> R xg xg'" using R_abort by simp
qed (cases xg; auto intro!: R_quiet quiet_setRequestHeader quiet_overrideMimeType quiet_statusCode)+

lemma R_xcalls: "xcalls s cs xg = Some xg' \<Longrightarrow> R xg xg'"
proof (induction cs arbitrary: xg)
  case (Cons c cs)
  then obtain xg1 where "xcall s c xg = Some xg1" "xcalls s cs xg1 = Some xg'" by (auto split: option.splits)
  then show ?case using Cons.IH R_xcall R_trans by blast
qed (simp add: R_refl)

lemma R_send:
  assumes "send s (x, g) = Some xg'" "\<not> done_called x"
  shows "R (x, g) xg'"
proof -
  define x1 where "x1 = x\<lparr>timer := (x_async s \<and> x_timeout s > 0), completed := Some False\<rparr>"
  define x2 where "x2 = emit [Sent (snd (sent_headers x1))] x1"
  have "quiet_step x x1" using assms(2) by (intro quiet_same_log) (auto simp: x1_def done_called_def)
  moreover have "quiet_step x1 x2" by (simp add: x2_def quiet_emit)
  ultimately have "R (x, g) (x2, g)" using R_quiet R_trans by blast
  moreover obtain x3 g3 where x3: "(case x_sendReply s of None \<Rightarrow> Some (x2, g) | Some r \<Rightarrow> done_u s r (x2, g)) = Some (x3, g3)"
      "(case x_sendThrows s of None \<Rightarrow> Some (x3, g3)
        | Some e \<Rightarrow> if done_called x3 then Some (emit [ThrownOut e] x3, g3)
                    else done_u s (failure_reply (-1) e) (x3, g3)) = Some xg'"
    using assms(1) by (auto simp: send_def Let_def x1_def x2_def split: option.splits)
  then have "R (x2, g) (x3, g3)" using R_refl R_done by (auto split: option.splits)
  moreover have "R (x3, g3) xg'"
    using x3(2) R_refl R_done R_quiet[OF quiet_emit[of "[ThrownOut _]"]] by (auto split: option.splits if_splits)
  ultimately show ?thesis using R_trans by blast
qed

lemma R_open_transport:
  assumes "open_transport s (x, g) = Some xg'" "\<not> done_called x"
  shows "R (x, g) xg'"
proof -
  define x1 where "x1 = x\<lparr>strAbort := ''abort''\<rparr>"
  define x2 where "x2 = x1\<lparr>transport := True, readyState := 1\<rparr>"
  have q: "quiet_step x x1" "quiet_step x x2"
    using assms(2) by (intro quiet_same_log; auto simp: x1_def x2_def done_called_def)+
  show ?thesis
  proof (cases "x_transport s")
    case False
    then have "R (x1, g) xg'" using assms(1) R_done by (simp add: open_transport_def x1_def Let_def)
    then show ?thesis using R_quiet[OF q(1)] R_trans by blast
  next
    case True
    then have "open_transport s (x, g) =
        (case (if fireGlobals x2 then xcalls s (x_sendHandlers s) (emit [Triggered ''ajaxSend''] x2, g)
               else Some (x2, g)) of
           None \<Rightarrow> None
         | Some (x3, g3) \<Rightarrow> if done_called x3 then Some (x3, g3) else send s (x3, g3))"
      by (simp add: open_transport_def x1_def x2_def Let_def)
    then obtain x3 g3 where x3: "(if fireGlobals x2 then xcalls s (x_sendHandlers s) (emit [Triggered ''ajaxSend''] x2, g)
          else Some (x2, g)) = Some (x3, g3)"
        "(if done_called x3 then Some (x3, g3) else send s (x3, g3)) = Some xg'"
      using assms(1) by (auto split: option.splits)
    have "R (x2, g) (emit [Triggered ''ajaxSend''] x2, g)" by (simp add: R_quiet quiet_emit)
    then have "R (x2, g) (x3, g3)"
      using x3(1) R_refl R_xcalls R_trans by (auto split: if_splits)
    moreover have "R (x3, g3) xg'" using x3(2) R_refl R_send by (auto split: if_splits)
    ultimately show ?thesis using R_quiet[OF q(2)] R_trans by blast
  qed
qed

lemma R_before_send:
  assumes "before_send s (x, g) = Some xg'" "\<not> done_called x"
  shows "R (x, g) xg'"
proof (cases "x_beforeSend s")
  case None
  then show ?thesis using assms R_open_transport by (simp add: before_send_def)
next
  case (Some b)
  then obtain cs refuses x1 g1 where b: "xcalls s cs (x, g) = Some (x1, g1)"
      "(if refuses \<or> done_called x1 then abort s '''' (x1, g1) else open_transport s (x1, g1)) = Some xg'"
    using assms(1) by (auto simp: before_send_def split: option.splits prod.splits)
  then show ?thesis using R_xcalls[OF b(1)] R_abort R_open_transport R_trans by (auto split: if_splits)
qed

lemma R_later_step: "later_step s e xg = Some xg' \<Longrightarrow> R xg xg'"
  by (cases e) (auto intro: R_done R_abort R_xcall R_refl split: if_splits)

lemma R_later_run: "later_run s es xg = Some xg' \<Longrightarrow> R xg xg'"
proof (induction es arbitrary: xg)
  case (Cons e es)
  then obtain xg1 where "later_step s e xg = Some xg1" "later_run s es xg1 = Some xg'" by (auto split: option.splits)
  then show ?case using Cons.IH R_later_step R_trans by blast
qed (simp add: R_refl)

end

section \<open>Completion\<close>

lemma emit_fields [simp]:
  "done_called (emit es x) = done_called x" "fireGlobals (emit es x) = fireGlobals x"
  "log (emit es x) = log x @ es" "transport (emit es x) = transport x" "timer (emit es x) = timer x" "responseHeaders (emit es x) = responseHeaders x"
  "xstatus (emit es x) = xstatus x" "xstatusText (emit es x) = xstatusText x"
  by (simp_all add: emit_def done_called_def)

lemma statusCode_done [simp]: "done_called x \<Longrightarrow> statusCode m x = emit (map StatusCalled (callbacks_for (xstatus x) m)) x"
  by (simp add: statusCode_def)

lemma filter_status [simp]: "filter settling (map StatusCalled fs) = []"
  by (induction fs) auto

lemma settling_settled [simp]: "settling (settled v)"
  by (cases v; cases "snd v") (auto simp: settled_def)

definition frozen :: "'r xhr \<Rightarrow> bool" where
  "frozen x \<longleftrightarrow> done_called x \<and> \<not> transport x \<and> \<not> timer x"

lemma emit_emit [simp]: "emit es (emit ds x) = emit (ds @ es) x"
  by (simp add: emit_def)

definition finish_events :: "'r xhr \<Rightarrow> string \<times> (failure + 'r option) \<Rightarrow> ajax_globals \<Rightarrow> 'r xevent list" where
  "finish_events x v g =
     settled v # map StatusCalled (callbacks_for (xstatus x) (statusCodes x)) @
     (if fireGlobals x
      then [Triggered (case snd v of Inr r \<Rightarrow> ''ajaxSuccess'' | Inl e \<Rightarrow> ''ajaxError'')] else []) @
     CompleteCalled (fst v) #
     (if fireGlobals x
      then Triggered ''ajaxComplete'' # (if active g = 1 then [Triggered ''ajaxStop''] else []) else [])"

lemma finish_log:
  assumes "done_called x"
  shows "\<exists>x1. finish s st t v x g =
      (emit (finish_events x1 v g) x1, if fireGlobals x then g\<lparr>active := active g - 1\<rparr> else g) \<and>
    x1 = x\<lparr>xstatus := xstatus x1, xstatusText := xstatusText x1\<rparr>"
proof -
  define x1 where "x1 = x\<lparr>xstatus := (if \<not> is_success st \<and> (st \<noteq> 0 \<or> t = '''') \<and> st < 0 then 0 else st),
    xstatusText := (if t \<noteq> '''' then t else fst v)\<rparr>"
  have d: "done_called x1" "statusCodes x1 = statusCodes x" "fireGlobals x1 = fireGlobals x"
    using assms by (simp_all add: x1_def done_called_def)
  have "finish s st t v x g =
      (emit (finish_events x1 v g) x1, if fireGlobals x then g\<lparr>active := active g - 1\<rparr> else g)"
    unfolding finish_def x1_def[symmetric] Let_def d(2)[symmetric]
    by (cases "fireGlobals x"; cases "snd v") (simp_all add: d finish_events_def)
  moreover have "x1 = x\<lparr>xstatus := xstatus x1, xstatusText := xstatusText x1\<rparr>"
    unfolding x1_def by simp
  ultimately show ?thesis by blast
qed

lemma finish_events_facts:
  "filter settling (finish_events x v g) = [settled v, CompleteCalled (fst v)]"
  by (cases v; cases "snd v") (auto simp: finish_events_def settled_def)

lemma finish_facts:
  assumes "finish s st t v x g = (x', g')" "frozen x"
  shows "frozen x' \<and> fireGlobals x' = fireGlobals x \<and>
    settles x' = settles x @ [settled v, CompleteCalled (fst v)] \<and>
    active g' = (if fireGlobals x then active g - 1 else active g) \<and>
    lastModified g' = lastModified g \<and> responseHeaders x' = responseHeaders x"
proof -
  obtain x1 where x1: "x' = emit (finish_events x1 v g) x1"
      "g' = (if fireGlobals x then g\<lparr>active := active g - 1\<rparr> else g)"
      "x1 = x\<lparr>xstatus := xstatus x1, xstatusText := xstatusText x1\<rparr>"
    using finish_log[of x s st t v g] assms by (auto simp: frozen_def)
  have "log x1 = log x" "frozen x1" "fireGlobals x1 = fireGlobals x" "responseHeaders x1 = responseHeaders x"
    using assms(2) by (subst x1(3), simp add: frozen_def done_called_def)+
  then show ?thesis using x1(1,2) finish_events_facts[of x1 v g] by (auto simp: settles_def frozen_def)
qed

lemma apply_conv_escapes: "apply_conv thr p c v r = Escapes e \<Longrightarrow> thr"
  by (cases v) (auto split: sum.splits if_splits)

lemma convert_loop_escapes:
  "convert_loop s cs ok n first dts r x = Some (Escapes e, x') \<Longrightarrow> throws s \<or> dataFilter s \<noteq> None"
proof (induction n arbitrary: first dts r x)
  case (Suc n)
  then show ?case
    by (auto simp: Let_def filtered_def dest!: apply_conv_escapes
        split: if_splits sum.splits prod.splits outcome.splits option.splits)
qed simp

lemma remember_times_active: "active (remember_times s x g) = active g"
  by (simp add: remember_times_def Let_def split: option.split)

lemma done_u_converted:
  assumes "\<not> done_called x"
    and "x1 = x\<lparr>completed := Some True, timer := False, transport := False,
      responseHeaders := r_headers r, readyState := (if r_status r > 0 then 4 else 0)\<rparr>"
    and "(case r_responses r of None \<Rightarrow> (dataTypes x1, None)
      | Some rs \<Rightarrow> ajaxHandleResponses (x_contents s) (converters (x_conv s))
          (case truthy_text (mimeType x1) of None \<Rightarrow> getResponseHeader ''Content-Type'' x1 | Some m \<Rightarrow> Some m)
          (dataTypes x1) rs) = (dts, response)"
    and "ajaxConvert (x_conv s) (Suc (2 * length dts)) dts (is_success (r_status r))
      (case response of None \<Rightarrow> x_undefined s | Some v \<Rightarrow> v) (xfields x1) = Some (out, fs)"
    and "x2 = x1\<lparr>dataTypes := dts, xfields := fs\<rparr>"
  shows "done_u s r (x, g) =
    (case out of
       Escapes e \<Rightarrow> Some (emit [ThrownOut e] x2, g)
     | _ \<Rightarrow> Some (finish s (r_status r) (r_text r) (verdict s (r_status r) (r_text r) out) x2
              (if is_success (r_status r) then remember_times s x2 g else g)))"
  using assms(1) unfolding done_u_def assms(2)[symmetric] Let_def prod.case assms(3)
  by (cases out) (simp_all add: assms(4,5) Let_def)

lemma done_u_cases:
  assumes "done_u s r (x, g) = Some (x', g')" "\<not> done_called x"
  obtains (thrown) x2 e where "x' = emit [ThrownOut e] x2" "g' = g" "frozen x2" "fireGlobals x2 = fireGlobals x"
      "log x2 = log x" "throws (x_conv s) \<or> dataFilter (x_conv s) \<noteq> None"
  | (finished) x2 g2 v where "finish s (r_status r) (r_text r) v x2 g2 = (x', g')"
      "frozen x2" "fireGlobals x2 = fireGlobals x" "log x2 = log x" "active g2 = active g"
      "cacheURL x2 = cacheURL x" "responseHeaders x2 = r_headers r"
      "g2 = (if is_success (r_status r) then remember_times s x2 g else g)"
proof -
  define x1 where "x1 = x\<lparr>completed := Some True, timer := False, transport := False,
      responseHeaders := r_headers r, readyState := (if r_status r > 0 then 4 else 0)\<rparr>"
  define mime where "mime = (case truthy_text (mimeType x1) of
      None \<Rightarrow> getResponseHeader ''Content-Type'' x1 | Some m \<Rightarrow> Some m)"
  obtain dts response where h: "(case r_responses r of None \<Rightarrow> (dataTypes x1, None)
      | Some rs \<Rightarrow> ajaxHandleResponses (x_contents s) (converters (x_conv s)) mime (dataTypes x1) rs) = (dts, response)"
    by fastforce
  let ?conv = "ajaxConvert (x_conv s) (Suc (2 * length dts)) dts (is_success (r_status r))
      (case response of None \<Rightarrow> x_undefined s | Some v \<Rightarrow> v) (xfields x1)"
  have "?conv \<noteq> None"
  proof
    assume "?conv = None"
    then have "done_u s r (x, g) = None"
      using assms(2) unfolding done_u_def x1_def[symmetric] Let_def mime_def[symmetric] prod.case h by simp
    then show False using assms(1) by simp
  qed
  then obtain out fs where c: "?conv = Some (out, fs)" by auto
  define x2 where "x2 = x1\<lparr>dataTypes := dts, xfields := fs\<rparr>"
  note d = done_u_converted[OF assms(2) x1_def h[unfolded mime_def] c x2_def, of g]
  have x2: "frozen x2" "fireGlobals x2 = fireGlobals x" "log x2 = log x" "cacheURL x2 = cacheURL x"
      "responseHeaders x2 = r_headers r"
    by (simp_all add: x2_def x1_def frozen_def done_called_def)
  show thesis
  proof (cases "\<exists>e. out = Escapes e")
    case True
    then obtain e where e: "out = Escapes e" by blast
    have "throws (x_conv s) \<or> dataFilter (x_conv s) \<noteq> None"
      by (rule convert_loop_escapes[OF c[unfolded ajaxConvert_def e]])
    then show ?thesis using thrown[of e x2] d assms(1) x2 e by simp
  next
    case False
    then have "done_u s r (x, g) = Some (finish s (r_status r) (r_text r) (verdict s (r_status r) (r_text r) out) x2
        (if is_success (r_status r) then remember_times s x2 g else g))"
      using d by (cases out) auto
    then show ?thesis
      using finished[of "verdict s (r_status r) (r_text r) out" x2
          "if is_success (r_status r) then remember_times s x2 g else g"] assms(1) x2
      by (auto simp: remember_times_active)
  qed
qed

lemma done_u_again: "done_called x \<Longrightarrow> done_u s r (x, g) = Some (x, g)"
  by (simp add: done_u_def)

section \<open>Relations that hold\<close>

definition proper :: "'r xsettings \<Rightarrow> bool" where
  "proper s \<longleftrightarrow> convs_ok (converters (x_conv s)) \<and> \<not> throws (x_conv s) \<and> dataFilter (x_conv s) = None"

text \<open>Settled once, by \<open>done\<close>; only settings whose converters may throw can leave it unsettled.\<close>

definition settled_once :: "'r xsettings \<Rightarrow> 'r xhr \<Rightarrow> bool" where
  "settled_once s x \<longleftrightarrow>
     (if done_called x
      then frozen x \<and> ((\<exists>v. settles x = [settled v, CompleteCalled (fst v)]) \<or>
                       settles x = [] \<and> \<not> proper s)
      else settles x = [])"

definition open_request :: "'r xhr \<Rightarrow> bool" where
  "open_request x \<longleftrightarrow> fireGlobals x \<and> \<not> done_called x"

definition balanced :: "'r xhr \<times> ajax_globals \<Rightarrow> int" where
  "balanced xg = active (snd xg) - (if open_request (fst xg) then 1 else 0)"

lemma quiet_settles: "quiet_step x x' \<Longrightarrow> settles x' = settles x"
  by (auto simp: quiet_step_def settles_def)

lemma quiet_frozen: "quiet_step x x' \<Longrightarrow> frozen x \<Longrightarrow> frozen x' \<and> xstatus x' = xstatus x"
  by (auto simp: quiet_step_def frozen_def)

lemma quiet_log: "quiet_step x x' \<Longrightarrow> set (log x) \<subseteq> set (log x')"
  by (auto simp: quiet_step_def)

lemma quiet_fields: "quiet_step x x' \<Longrightarrow> done_called x' = done_called x \<and> fireGlobals x' = fireGlobals x"
  by (simp add: quiet_step_def)

lemma done_fireGlobals: "done_u s r xg = Some xg' \<Longrightarrow> fireGlobals (fst xg') = fireGlobals (fst xg)"
proof -
  assume a: "done_u s r xg = Some xg'"
  obtain x g x' g' where xg: "xg = (x, g)" "xg' = (x', g')" by fastforce
  show ?thesis
  proof (cases "done_called x")
    case True
    then show ?thesis using a by (simp add: done_u_again xg)
  next
    case False
    from a[unfolded xg] False show ?thesis
      by (cases rule: done_u_cases) (use finish_facts xg in fastforce)+
  qed
qed

lemma done_settled_once:
  assumes "done_u s r xg = Some xg'" "settled_once s (fst xg)"
  shows "settled_once s (fst xg')"
proof -
  obtain x g x' g' where xg: "xg = (x, g)" "xg' = (x', g')" by fastforce
  show ?thesis
  proof (cases "done_called x")
    case True
    then show ?thesis using assms by (simp add: done_u_again xg)
  next
    case False
    then have e: "settles x = []" using assms(2) by (simp add: settled_once_def xg)
    from assms(1)[unfolded xg] False show ?thesis
    proof (cases rule: done_u_cases)
      case (thrown x2 e')
      then show ?thesis using e by (auto simp: xg settled_once_def settles_def frozen_def proper_def)
    next
      case (finished x2 g2 v)
      then have "settles x2 = []" using e by (simp add: settles_def)
      then have "frozen x' \<and> settles x' = [settled v, CompleteCalled (fst v)]"
        using finish_facts[OF finished(1,2)] by simp
      then show ?thesis by (auto simp: xg settled_once_def frozen_def simp del: split_paired_Ex)
    qed
  qed
qed

lemma done_balanced:
  assumes "done_u s r xg = Some xg'" "proper s"
  shows "balanced xg' = balanced xg"
proof -
  obtain x g x' g' where xg: "xg = (x, g)" "xg' = (x', g')" by fastforce
  show ?thesis
  proof (cases "done_called x")
    case True
    then show ?thesis using assms by (simp add: done_u_again xg)
  next
    case False
    from assms(1)[unfolded xg] False show ?thesis
    proof (cases rule: done_u_cases)
      case thrown
      then show ?thesis using assms(2) by (simp add: proper_def)
    next
      case (finished x2 g2 v)
      then show ?thesis using False finish_facts[OF finished(1,2)]
        by (simp add: xg balanced_def open_request_def frozen_def)
    qed
  qed
qed

interpretation fg: request_steps s "\<lambda>xg xg'. fireGlobals (fst xg') = fireGlobals (fst xg)" for s
  by unfold_locales (auto simp: quiet_fields done_fireGlobals)

interpretation frz: request_steps s "\<lambda>xg xg'. frozen (fst xg) \<longrightarrow>
    frozen (fst xg') \<and> snd xg' = snd xg \<and> settles (fst xg') = settles (fst xg) \<and> xstatus (fst xg') = xstatus (fst xg)"
  for s
proof unfold_locales
  show "frozen (fst xg) \<longrightarrow> frozen (fst xg') \<and> snd xg' = snd xg \<and> settles (fst xg') = settles (fst xg) \<and>
      xstatus (fst xg') = xstatus (fst xg)" if "done_u s r xg = Some xg'" for r and xg xg' :: "'a xhr \<times> ajax_globals"
    using that done_u_again[of "fst xg" s r "snd xg"] by (auto simp: frozen_def)
qed (auto simp: quiet_settles quiet_frozen)

lemma done_called_updates [simp]:
  "done_called (x\<lparr>cacheURL := c\<rparr>) = done_called x" "done_called (x\<lparr>fireGlobals := b\<rparr>) = done_called x"
  by (simp_all add: done_called_def)

lemma prepare_facts:
  "done_called (fst (prepare s (x, g))) = done_called x" "fireGlobals (fst (prepare s (x, g))) = x_global s"
  "active (snd (prepare s (x, g))) = (if x_global s then active g + 1 else active g)"
  "log (fst (prepare s (x, g))) = log x @ (if x_global s \<and> active g = 0 then [Triggered ''ajaxStart''] else [])"
  by (simp_all add: prepare_def Let_def default_headers_fields emit_def split: prod.split)
     (simp_all add: done_called_def)

text \<open>Relations that also hold for the start of a request.\<close>

locale request_relation = request_steps +
  assumes R_prepare: "\<not> done_called x \<Longrightarrow> \<not> fireGlobals x \<Longrightarrow> R (x, g) (prepare s (x, g))"
begin

lemma R_ajax:
  assumes "ajax s g = Some xg'"
  shows "R (initial_xhr s, g) xg'"
proof -
  obtain x g1 where x: "xcalls s (x_prefilters s) (initial_xhr s, g) = Some (x, g1)"
      "(if done_called x then Some (x, g1) else before_send s (prepare s (x, g1))) = Some xg'"
    using assms by (auto simp: ajax_def split: option.splits)
  have f: "\<not> fireGlobals x" using fg.R_xcalls[OF x(1)] by (simp add: initial_xhr_def)
  show ?thesis
  proof (cases "done_called x")
    case True
    then show ?thesis using x R_xcalls by simp
  next
    case False
    obtain x2 g2 where p: "prepare s (x, g1) = (x2, g2)" by fastforce
    have "\<not> done_called x2" using False prepare_facts(1)[of s x g1] p by simp
    then have "R (x2, g2) xg'" using x(2) False p R_before_send by simp
    then show ?thesis using R_xcalls[OF x(1)] R_prepare[OF False f, of g1] p R_trans by metis
  qed
qed

end

interpretation once: request_relation s "\<lambda>xg xg'. settled_once s (fst xg) \<longrightarrow> settled_once s (fst xg')" for s
proof unfold_locales
  show "settled_once s (fst (x, g)) \<longrightarrow> settled_once s (fst (x', g))" if "quiet_step x x'" for x x' g
    using that quiet_settles[OF that] quiet_frozen[OF that] quiet_fields[OF that] by (auto simp: settled_once_def)
  show "settled_once s (fst (x, g)) \<longrightarrow> settled_once s (fst (prepare s (x, g)))" if "\<not> done_called x" for x g
    using that by (simp add: settled_once_def prepare_facts settles_def)
qed (auto intro: done_settled_once)

interpretation counts: request_relation s "\<lambda>xg xg'. proper s \<longrightarrow> balanced xg' = balanced xg" for s
proof unfold_locales
  show "proper s \<longrightarrow> balanced (x', g) = balanced (x, g)" if "quiet_step x x'" for x x' g
    using quiet_fields[OF that] by (simp add: balanced_def open_request_def)
  show "proper s \<longrightarrow> balanced (prepare s (x, g)) = balanced (x, g)" if "\<not> done_called x" "\<not> fireGlobals x" for x g
    using that by (simp add: balanced_def open_request_def prepare_facts)
qed (auto simp: done_balanced)

section \<open>Every call returns\<close>

lemma done_total: "convs_ok (converters (x_conv s)) \<Longrightarrow> done_u s r xg \<noteq> None"
proof -
  assume ok: "convs_ok (converters (x_conv s))"
  have c: "ajaxConvert (x_conv s) (Suc (2 * length dts)) dts b v y \<noteq> None" for dts b v y
    using ajaxConvert_total[OF ok, of dts "Suc (2 * length dts)" b v y] by simp
  show ?thesis
    using c unfolding done_u_def
    by (simp add: Let_def del: not_None_eq split: prod.split option.split outcome.split)
qed

lemma abort_total: "convs_ok (converters (x_conv s)) \<Longrightarrow> abort s t xg \<noteq> None"
  using done_total[of s] by (simp add: abort_def Let_def del: not_None_eq split: prod.split)

lemma xcall_total: "convs_ok (converters (x_conv s)) \<Longrightarrow> xcall s c xg \<noteq> None"
  using abort_total[of s] by (cases c; cases xg) (simp_all del: not_None_eq)

lemma xcalls_total: "convs_ok (converters (x_conv s)) \<Longrightarrow> xcalls s cs xg \<noteq> None"
proof (induction cs arbitrary: xg)
  case (Cons c cs)
  then show ?case using xcall_total[of s c xg] by (cases "xcall s c xg") (simp_all del: not_None_eq)
qed simp

lemma send_total: "convs_ok (converters (x_conv s)) \<Longrightarrow> send s xg \<noteq> None"
  using done_total[of s]
  by (simp add: send_def Let_def del: not_None_eq split: prod.split option.split)

lemma open_transport_total: "convs_ok (converters (x_conv s)) \<Longrightarrow> open_transport s xg \<noteq> None"
  using done_total[of s] xcalls_total[of s] send_total[of s]
  by (simp add: open_transport_def Let_def del: not_None_eq split: prod.split option.split)

lemma before_send_total: "convs_ok (converters (x_conv s)) \<Longrightarrow> before_send s xg \<noteq> None"
  using xcalls_total[of s] open_transport_total[of s] abort_total[of s]
  by (simp add: before_send_def Let_def del: not_None_eq split: prod.split option.split)

lemma ajax_total: "convs_ok (converters (x_conv s)) \<Longrightarrow> ajax s g \<noteq> None"
  using xcalls_total[of s] before_send_total[of s]
  by (simp add: ajax_def Let_def del: not_None_eq split: prod.split option.split)

lemma later_step_total: "convs_ok (converters (x_conv s)) \<Longrightarrow> later_step s e xg \<noteq> None"
  using done_total[of s] xcall_total[of s] abort_total[of s] by (cases e) (simp_all del: not_None_eq)

lemma later_run_total: "convs_ok (converters (x_conv s)) \<Longrightarrow> later_run s es xg \<noteq> None"
proof (induction es arbitrary: xg)
  case (Cons e es)
  then show ?case using later_step_total[of s e xg] by (cases "later_step s e xg") (simp_all del: not_None_eq)
qed simp

lemma later_run_append:
  "later_run s (es @ es') xg = (case later_run s es xg of None \<Rightarrow> None | Some xg' \<Rightarrow> later_run s es' xg')"
  by (induction s es xg rule: later_run.induct) (auto split: option.split)

lemma done_u_done: "done_u s r (x, g) = Some (x', g') \<Longrightarrow> done_called x'"
proof (cases "done_called x")
  case False
  assume d: "done_u s r (x, g) = Some (x', g')"
  from d False show ?thesis
  proof (cases rule: done_u_cases)
    case (thrown x2 e)
    then show ?thesis by (simp add: frozen_def)
  next
    case (finished x2 g2 v)
    then show ?thesis using finish_facts[OF finished(1,2)] by (simp add: frozen_def)
  qed
qed (simp add: done_u_again)

lemma abort_done: "abort s t xg = Some (x', g') \<Longrightarrow> done_called x'"
  by (cases xg) (simp add: abort_def Let_def done_u_done)

section \<open>Several requests at once\<close>

type_synonym 'r system = "('r xsettings \<times> 'r xhr) list \<times> ajax_globals"

inductive sys_step :: "'r system \<Rightarrow> 'r system \<Rightarrow> bool" where
  sys_start: "proper s \<Longrightarrow> ajax s g = Some (x, g') \<Longrightarrow> sys_step (rs, g) (rs @ [(s, x)], g')"
| sys_later: "i < length rs \<Longrightarrow> rs ! i = (s, x) \<Longrightarrow> later_step s e (x, g) = Some (x', g') \<Longrightarrow>
    sys_step (rs, g) (rs[i := (s, x')], g')"

inductive_cases sys_stepE: "sys_step (rs, g) (rs', g')"

definition counted :: "'r system \<Rightarrow> bool" where
  "counted sys \<longleftrightarrow>
     (case sys of (rs, g) \<Rightarrow>
        active g = int (length (filter (\<lambda>(s, x). open_request x) rs)) \<and> list_all (\<lambda>(s, x). proper s) rs)"

lemma length_filter_update:
  "i < length xs \<Longrightarrow> length (filter P (xs[i := y])) + (if P (xs ! i) then 1 else 0) =
     length (filter P xs) + (if P y then 1 else 0)"
proof (induction xs arbitrary: i)
  case (Cons x xs)
  then show ?case by (cases i) auto
qed simp

lemma list_all_update_at: "list_all P xs \<Longrightarrow> P y \<Longrightarrow> list_all P (xs[i := y])"
  by (induction xs arbitrary: i) (auto split: nat.split)

lemma counted_step:
  assumes "sys_step sys sys'" "counted sys"
  shows "counted sys'"
  using assms
proof (cases rule: sys_step.cases)
  case (sys_start s g x g' rs)
  have "balanced (x, g') = balanced (initial_xhr s, g)" using counts.R_ajax[OF sys_start(4)] sys_start(3) by blast
  moreover have "balanced (initial_xhr s, g) = active g" by (simp add: balanced_def open_request_def initial_xhr_def)
  ultimately have "active g' = active g + (if open_request x then 1 else 0)" by (simp add: balanced_def)
  then show ?thesis using assms(2) sys_start(1,2,3) by (simp add: counted_def)
next
  case (sys_later i rs s x e g x' g')
  have "list_all (\<lambda>(s, x). proper s) rs" using assms(2) sys_later(1) by (simp add: counted_def)
  then have p: "proper s" using sys_later(3,4) by (auto simp: list_all_length)
  then have b: "balanced (x', g') = balanced (x, g)" using counts.R_later_step[OF sys_later(5)] by blast
  have "length (filter (\<lambda>(s, x). open_request x) (rs[i := (s, x')])) + (if open_request x then 1 else 0) =
      length (filter (\<lambda>(s, x). open_request x) rs) + (if open_request x' then 1 else 0)"
    using length_filter_update[OF sys_later(3), of "\<lambda>(s, x). open_request x" "(s, x')"] sys_later(4) by simp
  then show ?thesis using assms(2) sys_later(1,2) b p
    by (simp add: counted_def balanced_def list_all_update_at split: if_splits)
qed

lemma counted_steps: "sys_step\<^sup>*\<^sup>* sys sys' \<Longrightarrow> counted sys \<Longrightarrow> counted sys'"
  by (induction rule: rtranclp_induct) (auto intro: counted_step)

section \<open>Properties\<close>

definition sample_settings :: "nat xsettings" where
  "sample_settings =
     \<lparr>x_url = ''/search?q=1#top'', x_method = ''get'', x_data = None, x_processData = True,
      x_contentType = Some form_type, x_ownType = False, x_noCache = True, x_ifModified = True, x_async = True,
      x_timeout = 500, x_global = True, x_headers = [], x_types = [''json''], x_contents = default_contents,
      x_accepts = [(''*'', ''*/*''), (''json'', ''application/json, text/javascript'')],
      x_conv = number_settings, x_undefined = 0, x_mime = None, x_statusCode = [(404, [1, 2])],
      x_prefilters = [], x_beforeSend = Some ([SetHeader ''X-Mark'' ''1''], False), x_sendHandlers = [],
      x_transport = True, x_sendReply = None, x_sendThrows = None\<rparr>"

definition no_requests :: ajax_globals where
  "no_requests = \<lparr>active = 0, lastModified = [], etags = [], nonce = 17\<rparr>"

lemma proper_sample: "proper sample_settings"
  by (simp add: proper_def sample_settings_def number_settings_ok) (simp add: number_settings_def)

lemma sample_started: obtains x g where "ajax sample_settings no_requests = Some (x, g)"
  using ajax_total[of sample_settings no_requests] proper_sample unfolding proper_def by fastforce



text \<open>
  Every request can be ended: with proper settings \<open>jQuery.ajax\<close> and all later calls return, an
  abort leaves the request completed and settled, and whatever comes later changes neither its
  outcome nor the counter and tables that requests share.
\<close>

theorem abort_ends_request:
  assumes "proper s"
  shows "\<exists>xg x g' v. ajax s g = Some xg \<and> later_run s (es @ [Call (Abort t)]) xg = Some (x, g') \<and>
    settles x = [settled v, CompleteCalled (fst v)] \<and>
    (\<forall>es'. \<exists>x'. later_run s es' (x, g') = Some (x', g') \<and> settles x' = settles x \<and> xstatus x' = xstatus x)"
proof -
  have ok: "convs_ok (converters (x_conv s))" using assms by (simp add: proper_def)
  obtain xg where a: "ajax s g = Some xg" using ajax_total[OF ok, of g] by blast
  obtain xg1 where r: "later_run s es xg = Some xg1" using later_run_total[OF ok, of es xg] by blast
  obtain x g' where b: "abort s t xg1 = Some (x, g')" using abort_total[OF ok, of t xg1] by fastforce
  have run: "later_run s (es @ [Call (Abort t)]) xg = Some (x, g')"
    using later_run_append[of s es "[Call (Abort t)]" xg] r b by (cases xg1) simp
  have "settled_once s (initial_xhr s)" by (simp add: settled_once_def initial_xhr_def done_called_def settles_def)
  then have o: "settled_once s x" using once.R_ajax[OF a] once.R_later_run[OF run] by simp
  have d: "done_called x" using abort_done[OF b] .
  then have f: "frozen x" using o by (simp add: settled_once_def)
  obtain v where v: "settles x = [settled v, CompleteCalled (fst v)]"
    using o d assms by (auto simp: settled_once_def simp del: split_paired_Ex)
  have "\<exists>x'. later_run s es' (x, g') = Some (x', g') \<and> settles x' = settles x \<and> xstatus x' = xstatus x" for es'
  proof -
    obtain xg' where l: "later_run s es' (x, g') = Some xg'" using later_run_total[OF ok, of es' "(x, g')"] by blast
    then show ?thesis using frz.R_later_run[OF l] f by (cases xg') simp
  qed
  then show ?thesis using a run v by blast
qed

theorem abort_ends_request_witness:
  "\<exists>xg x g' v. ajax sample_settings no_requests = Some xg \<and>
     later_run sample_settings [TimerFires, Call (Abort ''enough'')] xg = Some (x, g') \<and>
     settles x = [settled v, CompleteCalled (fst v)]"
  using abort_ends_request[OF proper_sample, of no_requests "[TimerFires]" "''enough''"] unfolding append.simps by blast

text \<open>
  The counter of active requests is the number of requests with global events that are not
  completed, whatever the order in which requests start, reply, time out and are aborted, also when
  hooks abort them before they are sent.
\<close>

theorem active_counts_requests:
  assumes "sys_step\<^sup>*\<^sup>* ([], g0) (rs, g)" and "active g0 = 0"
  shows "active g = int (length (filter (\<lambda>(s, x). open_request x) rs))"
  using counted_steps[OF assms(1)] assms(2) by (simp add: counted_def)

theorem active_counts_requests_witness:
  "\<exists>x g. sys_step\<^sup>*\<^sup>* ([], no_requests) ([(sample_settings, x)], g) \<and> active g = (if open_request x then 1 else 0)"
proof -
  obtain x g where a: "ajax sample_settings no_requests = Some (x, g)" by (rule sample_started)
  have "sys_step ([], no_requests) ([] @ [(sample_settings, x)], g)" by (rule sys_start[OF proper_sample a])
  then have r: "sys_step\<^sup>*\<^sup>* ([], no_requests) ([(sample_settings, x)], g)" by (simp add: r_into_rtranclp)
  have "active g = (if open_request x then 1 else 0)"
    using active_counts_requests[OF r] by (simp add: no_requests_def)
  then show ?thesis using r by blast
qed

subsection \<open>Conditional requests\<close>

lemma set_header_value:
  assumes "completed x = None" "header_names_ok (sent_headers x)"
  shows "completed (setRequestHeader n v x) = None \<and> header_names_ok (sent_headers (setRequestHeader n v x)) \<and>
    header_value (sent_headers (setRequestHeader n v x)) name =
      (if to_lower name = to_lower n then Some v else header_value (sent_headers x) name)"
  using assms put_header_spec[OF assms(2)] by (simp add: setRequestHeader_def)

lemma set_headers_value:
  "completed x = None \<Longrightarrow> header_names_ok (sent_headers x) \<Longrightarrow> list_all (\<lambda>(n, v). to_lower n \<noteq> to_lower name) hs \<Longrightarrow>
     header_value (sent_headers (fold (\<lambda>(n, v). setRequestHeader n v) hs x)) name = header_value (sent_headers x) name"
proof (induction hs arbitrary: x)
  case (Cons h hs)
  then show ?case using set_header_value[of x "fst h" "snd h" name] by (auto simp: case_prod_beta)
qed simp

lemma if_modified_header:
  assumes "completed x = None" "sent_headers x = ([], [])" "x_ifModified s"
    and "obj_get (lastModified g) (cacheURL x) = Some m" "m \<noteq> ''''"
    and "list_all (\<lambda>(n, v). to_lower n \<noteq> ''if-modified-since'') (x_headers s)"
  shows "header_value (sent_headers (default_headers s d g x)) ''If-Modified-Since'' = Some m"
proof -
  have names: "to_lower ''If-Modified-Since'' = ''if-modified-since''" "to_lower ''If-None-Match'' = ''if-none-match''"
      "to_lower ''Content-Type'' = ''content-type''" "to_lower ''Accept'' = ''accept''"
    by code_simp+
  define ok where "ok y \<longleftrightarrow> completed y = None \<and> header_names_ok (sent_headers y) \<and>
      header_value (sent_headers y) ''If-Modified-Since'' = Some m" for y :: "'a xhr"
  have "header_names_ok ([], [])" by (simp add: header_names_ok_def get_empty)
  then have one: "ok (setRequestHeader ''If-Modified-Since'' m x)"
    using set_header_value[of x "''If-Modified-Since''" m "''If-Modified-Since''"] assms(1,2) by (simp add: ok_def)
  have keep: "ok (setRequestHeader n v y)" if "ok y" "to_lower n \<noteq> ''if-modified-since''" for n v y
    using set_header_value[of y n v "''If-Modified-Since''"] that names by (auto simp: ok_def)
  have t: "set_if ''If-Modified-Since'' (Some m) x = setRequestHeader ''If-Modified-Since'' m x"
    using assms(5) by (simp add: set_if_def truthy_text_def)
  have none_match: "ok (set_if ''If-None-Match'' e y)" if "ok y" for e y
    using keep[OF that, of "''If-None-Match''"] that names by (simp add: set_if_def split: option.split)
  define x1 where "x1 = set_if ''If-None-Match'' (obj_get (etags g) (cacheURL x)) (setRequestHeader ''If-Modified-Since'' m x)"
  define x2 where "x2 = (if d \<and> has_content (x_method s) \<and> x_contentType s \<noteq> None \<or> x_ownType s
      then setRequestHeader ''Content-Type'' (case x_contentType s of None \<Rightarrow> ''false'' | Some c \<Rightarrow> c) x1 else x1)"
  define x3 where "x3 = setRequestHeader ''Accept'' (accept_header s (dataTypes x)) x2"
  have "ok x1" using none_match[OF one] by (simp add: x1_def)
  then have "ok x2" using keep names by (simp add: x2_def)
  then have "ok x3" using keep names by (simp add: x3_def)
  moreover have "default_headers s d g x = fold (\<lambda>(n, v). setRequestHeader n v) (x_headers s) x3"
    using assms(3,4) t by (auto simp: default_headers_def Let_def x3_def x2_def x1_def)
  ultimately show ?thesis
    using set_headers_value[of x3 "''If-Modified-Since''" "x_headers s"] assms(6) names by (simp add: ok_def)
qed

lemma request_url_cache: "fst (snd (request_url s n)) = fst (snd (request_url s m))"
  by (simp add: request_url_def get_url_def post_url_def Let_def)

lemma remember_lastModified:
  assumes "x_ifModified s" "truthy_text (getResponseHeader ''Last-Modified'' x) = Some m"
  shows "obj_get (lastModified (remember_times s x g)) (cacheURL x) = Some m"
  using assms by (simp add: remember_times_def get_put Let_def split: option.split)

lemma prepare_sent:
  assumes "request_url s (nonce g) = (u, c, d, n)"
  shows "\<exists>y g1 e. fst (prepare s (initial_xhr s, g)) = default_headers s e g1 y \<and> cacheURL y = c \<and>
    completed y = None \<and> sent_headers y = ([], []) \<and> lastModified g1 = lastModified g"
proof (cases "x_global s")
  case True
  show ?thesis
    by (rule exI[of _ "emit (if active g = 0 then [Triggered ''ajaxStart''] else [])
          (initial_xhr s\<lparr>fireGlobals := True\<rparr>)\<lparr>cacheURL := c\<rparr>"],
        rule exI[of _ "g\<lparr>active := active g + 1\<rparr>"], rule exI[of _ "d \<noteq> None"])
       (use assms True in \<open>simp add: prepare_def Let_def initial_xhr_def emit_def\<close>)
next
  case False
  show ?thesis
    by (rule exI[of _ "initial_xhr s\<lparr>fireGlobals := False, cacheURL := c\<rparr>"], rule exI[of _ g],
        rule exI[of _ "d \<noteq> None"])
       (use assms False in \<open>simp add: prepare_def Let_def initial_xhr_def\<close>)
qed

text \<open>
  The time a successful response was last modified comes back in the next request with the same
  settings, under the same URL even when the anti-cache parameter makes the two URLs differ.
\<close>

theorem conditional_request:
  assumes "proper s" and "x_ifModified s" and "\<not> done_called x" and "is_success (r_status r)"
    and "cacheURL x = fst (snd (request_url s n))" and "done_u s r (x, g) = Some (x', g')"
    and "getResponseHeader ''Last-Modified'' x' = Some m" and "m \<noteq> ''''"
    and "list_all (\<lambda>(n, v). to_lower n \<noteq> ''if-modified-since'') (x_headers s)"
  shows "header_value (sent_headers (fst (prepare s (initial_xhr s, g')))) ''If-Modified-Since'' = Some m"
proof -
  from assms(6,3) have "obj_get (lastModified g') (fst (snd (request_url s n))) = Some m"
  proof (cases rule: done_u_cases)
    case thrown
    then show ?thesis using assms(1) by (simp add: proper_def)
  next
    case (finished x2 g2 v)
    have f: "lastModified g' = lastModified g2" "responseHeaders x' = responseHeaders x2" "done_called x'" "done_called x2"
      using finish_facts[OF finished(1,2)] finished(2) by (auto simp: frozen_def)
    then have "truthy_text (getResponseHeader ''Last-Modified'' x2) = Some m"
      using assms(7,8) by (simp add: getResponseHeader_def truthy_text_def)
    then show ?thesis using remember_lastModified[OF assms(2), of x2 m g] finished(6,8) f(1) assms(4,5) by simp
  qed
  moreover obtain u c d k where u: "request_url s (nonce g') = (u, c, d, k)" by (metis prod.exhaust)
  ultimately have "obj_get (lastModified g') c = Some m" using request_url_cache[of s n "nonce g'"] by simp
  moreover obtain y g1 e where "fst (prepare s (initial_xhr s, g')) = default_headers s e g1 y" "cacheURL y = c"
      "completed y = None" "sent_headers y = ([], [])" "lastModified g1 = lastModified g'"
    using prepare_sent[OF u] by blast
  ultimately show ?thesis using if_modified_header[of y s g1 m e] assms(2,8,9) by simp
qed

definition sample_reply :: "nat reply" where
  "sample_reply = \<lparr>r_status = 200, r_text = ''OK'', r_responses = Some [(''text'', 5)],
     r_headers = render_headers [(''Content-Type'', ''application/json''), (''Last-Modified'', ''Monday'')]\<rparr>"

theorem conditional_request_witness:
  "\<exists>x' g'. done_u sample_settings sample_reply
       (initial_xhr sample_settings\<lparr>cacheURL := ''/search?q=1''\<rparr>, no_requests) = Some (x', g') \<and>
     header_value (sent_headers (fst (prepare sample_settings (initial_xhr sample_settings, g')))) ''If-Modified-Since'' =
       Some ''Monday''"
proof -
  let ?x = "initial_xhr sample_settings\<lparr>cacheURL := ''/search?q=1''\<rparr>"
  obtain x' g' where d: "done_u sample_settings sample_reply (?x, no_requests) = Some (x', g')"
    using done_total[of sample_settings sample_reply "(?x, no_requests)"] proper_sample unfolding proper_def by fastforce
  have n: "\<not> done_called ?x" by (simp add: initial_xhr_def done_called_def)
  from d n have "responseHeaders x' = r_headers sample_reply"
  proof (cases rule: done_u_cases)
    case thrown
    then show ?thesis using proper_sample by (simp add: proper_def)
  next
    case (finished x2 g2 v)
    then show ?thesis using finish_facts[OF finished(1,2)] by simp
  qed
  moreover have "list_all header_ok [(''Content-Type'', ''application/json''), (''Last-Modified'', ''Monday'')]"
    by (simp add: header_ok_def line_break_def)
  moreover have "to_lower ''Content-Type'' = ''content-type''" "to_lower ''Last-Modified'' = ''last-modified''"
    by code_simp+
  ultimately have h: "getResponseHeader ''Last-Modified'' x' = Some ''Monday''"
    using done_u_done[OF d] by (simp add: getResponseHeader_def sample_reply_def parse_render)
  have u: "cacheURL ?x = fst (snd (request_url sample_settings 17))" by code_simp
  have s: "x_ifModified sample_settings" "is_success (r_status sample_reply)" "x_headers sample_settings = []"
    by (simp_all add: sample_settings_def sample_reply_def is_success_def)
  show ?thesis using conditional_request[OF proper_sample s(1) n s(2) u d h] d s(3) by auto
qed

subsection \<open>From the reply to the callbacks\<close>

text \<open>
  A request for JSON, or one without a data type whose answer is JSON, that is answered with a text
  under the default converters: the success callbacks get the parsed value, or the error callbacks
  get what the parser threw, and then the completion callbacks are called.
\<close>

theorem json_request:
  assumes "\<not> done_called x" and "truthy_text (mimeType x) = None" and "dataTypes x = [''*''] \<or> dataTypes x = [''json'']"
    and "word_from True ''json'' False mime" and "\<not> word_from True ''xml'' False mime"
    and "\<not> word_from False ''html'' False mime"
    and "list_all header_ok hs" and "r_headers r = render_headers hs"
    and "map_of (rev (map (\<lambda>(k, v). (to_lower k, v)) hs)) ''content-type'' = Some mime"
    and "r_status r = 200" and "r_responses r = Some [(''text'', t)]" and "map upper_char (x_method s) \<noteq> ''HEAD''"
    and "x_contents s = default_contents" and "converters (x_conv s) = default_converters str json xml"
    and "dataFilter (x_conv s) = None" and "\<not> throws (x_conv s)"
  shows "\<exists>x' g'. done_u s r (x, g) = Some (x', g') \<and>
    settles x' = settles x @
      (case json t of
         Inr v \<Rightarrow> [Resolved (Some v) ''success'', CompleteCalled ''success'']
       | Inl e \<Rightarrow> [Rejected ''parsererror'' (Conversion (Thrown e)), CompleteCalled ''parsererror''])"
proof -
  define x1 where "x1 = x\<lparr>completed := Some True, timer := False, transport := False,
      responseHeaders := r_headers r, readyState := (if r_status r > 0 then 4 else 0)\<rparr>"
  have "to_lower ''Content-Type'' = ''content-type''" by code_simp
  then have "getResponseHeader ''Content-Type'' x1 = Some mime"
    using assms(7,8,9) by (simp add: x1_def getResponseHeader_def done_called_def parse_render)
  then have m: "(case truthy_text (mimeType x1) of None \<Rightarrow> getResponseHeader ''Content-Type'' x1 | Some m \<Rightarrow> Some m) = Some mime"
    using assms(2) by (simp add: x1_def)
  note j = json_handled[OF assms(4-6,14-16,3), where t = t and x = "xfields x1" and n = 2]
  have h: "(case r_responses r of None \<Rightarrow> (dataTypes x1, None)
      | Some rs \<Rightarrow> ajaxHandleResponses (x_contents s) (converters (x_conv s))
          (case truthy_text (mimeType x1) of None \<Rightarrow> getResponseHeader ''Content-Type'' x1 | Some m \<Rightarrow> Some m)
          (dataTypes x1) rs) = ([''text'', ''json''], Some t)"
    using j unfolding m by (simp add: assms(11,13) x1_def)
  obtain out fs where c: "ajaxConvert (x_conv s) (Suc (2 * length [''text'', ''json''])) [''text'', ''json'']
        (is_success (r_status r)) (case Some t of None \<Rightarrow> x_undefined s | Some v \<Rightarrow> v) (xfields x1) = Some (out, fs)"
      "out = (case json t of Inr v \<Rightarrow> Success v | Inl e \<Rightarrow> ParserError (Thrown e))"
    using j assms(10) by (auto simp: is_success_def eval_nat_numeral)
  define x2 where "x2 = x1\<lparr>dataTypes := [''text'', ''json''], xfields := fs\<rparr>"
  have f: "frozen x2" "settles x2 = settles x" by (simp_all add: x2_def x1_def frozen_def done_called_def settles_def)
  obtain x' g' where fin: "finish s (r_status r) (r_text r) (verdict s (r_status r) (r_text r) out) x2
      (if is_success (r_status r) then remember_times s x2 g else g) = (x', g')" by fastforce
  have "done_u s r (x, g) = Some (x', g')"
    unfolding fin[symmetric] done_u_converted[OF assms(1) x1_def h c(1) x2_def, of g]
    by (cases "json t") (simp_all only: c(2) sum.case outcome.case)
  moreover have "settles x' = settles x @
      [settled (verdict s (r_status r) (r_text r) out), CompleteCalled (fst (verdict s (r_status r) (r_text r) out))]"
    using finish_facts[OF fin f(1)] f(2) by simp
  ultimately show ?thesis
    using c(2) assms(10,12) by (auto simp: verdict_def is_success_def settled_def split: sum.splits)
qed

theorem json_request_witness:
  "\<exists>x' g'. done_u sample_settings sample_reply (initial_xhr sample_settings, no_requests) = Some (x', g') \<and>
     settles x' = [Resolved (Some 105) ''success'', CompleteCalled ''success'']"
proof -
  have w: "word_from True ''json'' False ''application/json''" "\<not> word_from True ''xml'' False ''application/json''"
      "\<not> word_from False ''html'' False ''application/json''" by code_simp+
  have x: "\<not> done_called (initial_xhr sample_settings)" "truthy_text (mimeType (initial_xhr sample_settings)) = None"
      "dataTypes (initial_xhr sample_settings) = [''*''] \<or> dataTypes (initial_xhr sample_settings) = [''json'']"
    by (simp_all add: initial_xhr_def done_called_def sample_settings_def truthy_text_def)
  let ?hs = "[(''Content-Type'', ''application/json''), (''Last-Modified'', ''Monday'')]"
  have h: "list_all header_ok ?hs" "r_headers sample_reply = render_headers ?hs"
    by (simp_all add: header_ok_def line_break_def sample_reply_def)
  have n: "to_lower ''Content-Type'' = ''content-type''" "to_lower ''Last-Modified'' = ''last-modified''" by code_simp+
  have m: "map_of (rev (map (\<lambda>(k, v). (to_lower k, v)) ?hs)) ''content-type'' = Some ''application/json''"
    by (simp add: n)
  have r: "r_status sample_reply = 200" "r_responses sample_reply = Some [(''text'', 5)]" by (simp_all add: sample_reply_def)
  have u: "map upper_char (x_method sample_settings) \<noteq> ''HEAD''" by code_simp
  have c: "x_contents sample_settings = default_contents"
      "converters (x_conv sample_settings) = default_converters (\<lambda>n. n) (\<lambda>n. if n = 0 then Inl ''SyntaxError'' else Inr (n + 100)) Inr"
      "dataFilter (x_conv sample_settings) = None" "\<not> throws (x_conv sample_settings)"
    by (simp_all add: sample_settings_def number_settings_def)
  show ?thesis using json_request[OF x w h m r u c, of no_requests]
    by (simp add: initial_xhr_def settles_def)
qed

end
