(* ===== verification/JqData.thy ===== *)
theory JqData
  imports JsObject JqClass
begin

text \<open>
  Data attached to elements and objects in \<open>jquery.js\<close>: the stores of \<open>Data\<close>, keyed by camel-case
  names, and the values found in \<open>data-*\<close> attributes.  A value is never \<open>undefined\<close>, and a key is
  neither the empty text nor a name that every object inherits (\<open>constructor\<close>, \<open>toString\<close>).  Reading
  numbers and JSON from a text are parameters.
\<close>

section \<open>Names\<close>

definition is_lower :: "char \<Rightarrow> bool" where
  "is_lower c \<longleftrightarrow> (let n = of_char c :: nat in 97 \<le> n \<and> n \<le> 122)"

definition is_upper :: "char \<Rightarrow> bool" where
  "is_upper c \<longleftrightarrow> (let n = of_char c :: nat in 65 \<le> n \<and> n \<le> 90)"

definition to_upper_char :: "char \<Rightarrow> char" where
  "to_upper_char c = (if is_lower c then char_of (of_char c - 32 :: nat) else c)"

fun camel_dashes :: "string \<Rightarrow> string" where
  "camel_dashes (x # c # s) =
     (if x = CHR ''-'' \<and> is_lower c then to_upper_char c # camel_dashes s else x # camel_dashes (c # s))"
| "camel_dashes s = s"

definition camelCase :: "string \<Rightarrow> string" where
  "camelCase s = camel_dashes (if is_prefix ''-ms-'' s then drop 1 s else s)"

definition dashed :: "string \<Rightarrow> string" where
  "dashed key = to_lower (concat (map (\<lambda>c. if is_upper c then [CHR ''-'', c] else [c]) key))"

definition attr_name :: "string \<Rightarrow> string" where
  "attr_name key = ''data-'' @ dashed key"

section \<open>Stores\<close>

text \<open>
  The property \<open>expando\<close> of an owner: \<open>None\<close> when it is \<open>undefined\<close>.  An owner that does not accept
  data gets an empty cache that is not kept.
\<close>

type_synonym 'v store = "'v obj option"

definition acceptData :: "nat option \<Rightarrow> bool" where
  "acceptData nodeType \<longleftrightarrow> nodeType \<in> {Some 1, Some 9, None, Some 0}"

definition cache :: "bool \<Rightarrow> 'v store \<Rightarrow> 'v obj \<times> 'v store" where
  "cache accepts st = (case st of Some c \<Rightarrow> (c, st) | None \<Rightarrow> ([], if accepts then Some [] else None))"

definition data_set :: "bool \<Rightarrow> 'v store \<Rightarrow> string \<Rightarrow> 'v \<Rightarrow> 'v store" where
  "data_set accepts st key v =
     (case cache accepts st of (c, st') \<Rightarrow> map_option (\<lambda>_. obj_put c (camelCase key) v) st')"

definition data_set_all :: "bool \<Rightarrow> 'v store \<Rightarrow> 'v obj \<Rightarrow> 'v store" where
  "data_set_all accepts st props =
     (case cache accepts st of
        (c, st') \<Rightarrow> map_option (\<lambda>_. fold (\<lambda>(k, v) c. obj_put c (camelCase k) v) props c) st')"

definition data_get :: "'v store \<Rightarrow> string \<Rightarrow> 'v option" where
  "data_get st key = (case st of None \<Rightarrow> None | Some c \<Rightarrow> obj_get c (camelCase key))"

datatype removal = RemoveAll | RemoveNames "string list" | RemoveText string

definition removed_keys :: "'v obj \<Rightarrow> removal \<Rightarrow> string list" where
  "removed_keys c r =
     (case r of
        RemoveAll \<Rightarrow> []
      | RemoveNames ks \<Rightarrow> map camelCase ks
      | RemoveText t \<Rightarrow> if has_key c (camelCase t) then [camelCase t] else rnothtmlwhite (camelCase t))"

definition data_remove :: "'v store \<Rightarrow> removal \<Rightarrow> 'v store" where
  "data_remove st r =
     (case st of
        None \<Rightarrow> None
      | Some c \<Rightarrow>
          let c' = fold (\<lambda>k c. obj_delete c k) (rev (removed_keys c r)) c
          in if r = RemoveAll \<or> c' = [] then None else Some c')"

definition hasData :: "'v store \<Rightarrow> bool" where
  "hasData st \<longleftrightarrow> (case st of None \<Rightarrow> False | Some c \<Rightarrow> c \<noteq> [])"

text \<open>\<open>access\<close>: reading without a value, writing with one or with an object of properties.\<close>

datatype 'v access_args = ReadAll | Read string | Write string 'v | WriteAll "'v obj"

fun access :: "bool \<Rightarrow> 'v access_args \<Rightarrow> 'v store \<Rightarrow> 'v store" where
  "access accepts ReadAll st = snd (cache accepts st)"
| "access accepts (Read k) st = st"
| "access accepts (Write k v) st = data_set accepts st k v"
| "access accepts (WriteAll props) st = data_set_all accepts st props"

section \<open>Attributes\<close>

datatype 'v data = DTrue | DFalse | DNull | DText string | DValue 'v

record 'v source =
  number :: "string \<Rightarrow> 'v option"  \<comment> \<open>when the number prints as the text again\<close>
  json :: "string \<Rightarrow> 'v option"  \<comment> \<open>\<open>None\<close> when the parser throws\<close>

definition rbrace :: "string \<Rightarrow> bool" where
  "rbrace s \<longleftrightarrow> length s \<ge> 2 \<and>
     (hd s = CHR ''{'' \<and> last s = CHR ''}'' \<or> hd s = CHR ''['' \<and> last s = CHR '']'')"

text \<open>The text is kept when it looks like JSON and is not.\<close>

definition getData :: "'v source \<Rightarrow> string \<Rightarrow> 'v data" where
  "getData src s =
     (if s = ''true'' then DTrue else if s = ''false'' then DFalse else if s = ''null'' then DNull
      else (case number src s of
              Some n \<Rightarrow> DValue n
            | None \<Rightarrow>
                if rbrace s then (case json src s of Some v \<Rightarrow> DValue v | None \<Rightarrow> DText s) else DText s))"

record 'v node =
  node_kind :: "nat option"
  node_attrs :: "(string \<times> string) list"
  user_data :: "'v data store"
  has_data_attrs :: bool

definition dataAttr :: "'v source \<Rightarrow> string \<Rightarrow> 'v data option \<Rightarrow> 'v node \<Rightarrow> 'v data option \<times> 'v node" where
  "dataAttr src key d e =
     (if d = None \<and> node_kind e = Some 1
      then (case map_of (node_attrs e) (attr_name key) of
              None \<Rightarrow> (None, e)
            | Some t \<Rightarrow>
                (Some (getData src t), e\<lparr>user_data := data_set True (user_data e) key (getData src t)\<rparr>))
      else (d, e))"

definition read_data :: "'v source \<Rightarrow> string \<Rightarrow> 'v node \<Rightarrow> 'v data option \<times> 'v node" where
  "read_data src key e =
     (case data_get (user_data e) key of Some d \<Rightarrow> (Some d, e) | None \<Rightarrow> dataAttr src key None e)"

definition write_data :: "string \<Rightarrow> 'v data \<Rightarrow> 'v node \<Rightarrow> 'v node" where
  "write_data key v e = e\<lparr>user_data := data_set (acceptData (node_kind e)) (user_data e) key v\<rparr>"

text \<open>All values: each attribute is taken once, unless the cache already has its name.\<close>

definition take_attr :: "'v source \<Rightarrow> string \<Rightarrow> 'v node \<Rightarrow> 'v node" where
  "take_attr src name e =
     (if is_prefix ''data-'' name
      then let key = camelCase (drop 5 name)
           in snd (dataAttr src key (case user_data e of None \<Rightarrow> None | Some c \<Rightarrow> obj_get c key) e)
      else e)"

definition read_all :: "'v source \<Rightarrow> 'v node \<Rightarrow> 'v data obj \<times> 'v node" where
  "read_all src e =
     (let e1 = e\<lparr>user_data := snd (cache (acceptData (node_kind e)) (user_data e))\<rparr>;
          e2 = (if node_kind e = Some 1 \<and> \<not> has_data_attrs e
                then (fold (take_attr src) (rev (map fst (node_attrs e))) e1)\<lparr>has_data_attrs := True\<rparr> else e1)
      in (case user_data e2 of None \<Rightarrow> [] | Some c \<Rightarrow> c, e2))"

section \<open>Lemmas\<close>

lemma camel_dashes_plain: "CHR ''-'' \<notin> set s \<Longrightarrow> camel_dashes s = s"
  by (induction s rule: camel_dashes.induct) auto

lemma lower_upper_char:
  assumes "is_upper c"
  shows "is_lower (lower_char c)" "to_upper_char (lower_char c) = c" "lower_char c \<noteq> CHR ''-''"
proof -
  have c: "65 \<le> (of_char c :: nat)" "(of_char c :: nat) \<le> 90" using assms by (auto simp: is_upper_def Let_def)
  then have l: "of_char (lower_char c) = (of_char c + 32 :: nat)" by (simp add: lower_char_def Let_def)
  then show "is_lower (lower_char c)" using c by (simp add: is_lower_def Let_def)
  then show "to_upper_char (lower_char c) = c" using l by (simp add: to_upper_char_def)
  show "lower_char c \<noteq> CHR ''-''"
  proof
    assume "lower_char c = CHR ''-''"
    then have "of_char (lower_char c) = (of_char (CHR ''-'') :: nat)" by simp
    then show False using l c by simp
  qed
qed

text \<open>Keys that a \<open>data-*\<close> attribute can name: no dash, no capital letter outside ASCII.\<close>

definition camel_key :: "string \<Rightarrow> bool" where
  "camel_key key \<longleftrightarrow> list_all (\<lambda>c. c \<noteq> CHR ''-'' \<and> (is_upper c \<or> lower_char c = c)) key"

lemma dashed_Cons:
  "dashed (c # s) = (if is_upper c then CHR ''-'' # lower_char c # dashed s else lower_char c # dashed s)"
  by (simp add: dashed_def to_lower_def lower_char_def)

lemma camel_dashed: "camel_key key \<Longrightarrow> camel_dashes (dashed key) = key"
proof (induction key)
  case Nil
  then show ?case by (simp add: dashed_def to_lower_def)
next
  case (Cons c key)
  then have ih: "camel_dashes (dashed key) = key" and c: "c \<noteq> CHR ''-''" "is_upper c \<or> lower_char c = c"
    by (auto simp: camel_key_def)
  show ?case
  proof (cases "is_upper c")
    case True
    then show ?thesis using ih lower_upper_char[OF True] by (simp add: dashed_Cons)
  next
    case False
    then show ?thesis
      using ih c by (cases "dashed key") (auto simp: dashed_Cons)
  qed
qed

definition entries :: "'v store \<Rightarrow> string \<Rightarrow> 'v option" where
  "entries st = (case st of None \<Rightarrow> Map.empty | Some c \<Rightarrow> obj_get c)"

lemma data_get_entries: "data_get st key = entries st (camelCase key)"
  by (simp add: data_get_def entries_def split: option.split)

lemma entries_set: "entries (data_set True st key v) = (entries st)(camelCase key \<mapsto> v)"
  by (auto simp: data_set_def cache_def entries_def get_put get_empty split: option.splits)

lemma data_set_refused: "data_set False None key v = None"
  by (simp add: data_set_def cache_def)

lemma get_fold_delete: "obj_get (fold (\<lambda>k c. obj_delete c k) ks c) = (\<lambda>k. if k \<in> set ks then None else obj_get c k)"
  by (induction ks arbitrary: c) (auto simp: get_delete fun_eq_iff)

lemma obj_get_Nil_iff: "obj_get c = Map.empty \<longleftrightarrow> c = []"
  by (cases c) (auto simp: obj_get_def fun_eq_iff)

lemma entries_remove_names:
  "entries (data_remove st (RemoveNames ks)) = (\<lambda>k. if k \<in> camelCase ` set ks then None else entries st k)"
  by (auto simp: data_remove_def entries_def removed_keys_def get_fold_delete Let_def fun_eq_iff get_empty
      split: option.split) (metis get_fold_delete image_eqI obj_get_Nil_iff set_map set_rev)+

lemma read_data_stored: "entries (user_data e) (camelCase key) = Some d \<Longrightarrow> read_data src key e = (Some d, e)"
  by (simp add: read_data_def data_get_entries)

lemma camelCase_dashed: "camel_key key \<Longrightarrow> \<not> is_prefix ''-ms-'' (dashed key) \<Longrightarrow> camelCase (dashed key) = key"
  by (simp add: camelCase_def camel_dashed)

text \<open>A key that begins with \<open>Ms\<close> and a capital letter is not the one its attribute is read back under.\<close>

lemma ms_prefix_lost: "camelCase (dashed ''MsGap'') = ''msGap''"
  by code_simp

section \<open>Properties\<close>

text \<open>
  A store is a map from camel-case names: writing a value changes the value under the key's camel
  case only, reading sees the last value written, removing a list of keys removes exactly those, and
  a store whose last value is removed is gone.
\<close>

theorem data_store_map:
  "data_get (data_set True st key v) k = (if camelCase k = camelCase key then Some v else data_get st k) \<and>
   data_get (data_remove st (RemoveNames ks)) k =
     (if camelCase k \<in> camelCase ` set ks then None else data_get st k) \<and>
   data_get (data_remove st RemoveAll) k = None \<and>
   hasData (data_remove st r) = (data_remove st r \<noteq> None)"
  by (auto simp: data_get_entries entries_set entries_remove_names)
     (auto simp: data_remove_def hasData_def entries_def Let_def split: option.splits if_splits)

text \<open>
  The value of a \<open>data-*\<close> attribute is read once: the first read gives the value of the attribute
  named by the key's dashes, and later reads give the same value whatever becomes of the attributes.
  The name of that attribute is also what the key is found under when all attributes are read.
\<close>

theorem data_attribute_read_once:
  assumes "node_kind e = Some 1" and "data_get (user_data e) key = None"
    and "map_of (node_attrs e) (attr_name key) = Some t"
    and "camel_key key" and "\<not> is_prefix ''-ms-'' (dashed key)"
  shows "fst (read_data src key e) = Some (getData src t) \<and>
    read_data src' key (snd (read_data src key e)\<lparr>node_attrs := as\<rparr>) =
      (Some (getData src t), snd (read_data src key e)\<lparr>node_attrs := as\<rparr>) \<and>
    camelCase (drop 5 (attr_name key)) = key"
proof -
  have r: "read_data src key e =
      (Some (getData src t), e\<lparr>user_data := data_set True (user_data e) key (getData src t)\<rparr>)"
    using assms(1-3) by (simp add: read_data_def dataAttr_def)
  have "entries (user_data (snd (read_data src key e)\<lparr>node_attrs := as\<rparr>)) (camelCase key) = Some (getData src t)"
    by (simp add: r entries_set)
  then show ?thesis
    using read_data_stored[where src = src'] camelCase_dashed[OF assms(4,5)] by (simp add: r attr_name_def)
qed

definition sample_node :: "nat node" where
  "sample_node = \<lparr>node_kind = Some 1, node_attrs = [(''id'', ''x''), (''data-foo-bar'', ''true'')],
     user_data = None, has_data_attrs = False\<rparr>"

theorem data_attribute_read_once_witness:
  "fst (read_data \<lparr>number = Map.empty, json = Map.empty\<rparr> ''fooBar'' sample_node) = Some DTrue"
proof -
  have a: "attr_name ''fooBar'' = ''data-foo-bar''" "dashed ''fooBar'' = ''foo-bar''" "camel_key ''fooBar''"
    by code_simp+
  have "node_kind sample_node = Some 1" "data_get (user_data sample_node) ''fooBar'' = None"
      "map_of (node_attrs sample_node) (attr_name ''fooBar'') = Some ''true''"
      "\<not> is_prefix ''-ms-'' (dashed ''fooBar'')"
    by (simp_all add: sample_node_def data_get_def a)
  from data_attribute_read_once[OF this(1-3) a(3) this(4), of "\<lparr>number = Map.empty, json = Map.empty\<rparr>"]
  show ?thesis by (simp add: getData_def)
qed

end
