(* ===== verification/JqQueue.thy ===== *)
theory JqQueue
  imports Prelude
begin

text \<open>
  Queues of functions in \<open>jquery.js\<close> (\<open>queue\<close>, \<open>dequeue\<close>, \<open>_queueHooks\<close>, \<open>clearQueue\<close>, \<open>promise\<close>),
  for one type of queue of one element.  What a queued function does is a list of commands; nothing
  follows the call of the function in \<open>dequeue\<close> when there was one to call, so its commands are run in
  front of those that are left.  Each command takes one unit of fuel.
\<close>

section \<open>State\<close>

datatype entry = InProgress | Fn nat

datatype observation = Queued nat | Ran nat | PromiseResolved nat

record queues =
  stored :: "entry list option"
  waiting :: "nat list option"  \<comment> \<open>the hooks, with the promises that wait for \<open>empty\<close>\<close>
  stop_hook :: bool
  seen :: "observation list"

definition no_queue :: queues where
  "no_queue = \<lparr>stored = None, waiting = None, stop_hook = False, seen = []\<rparr>"

definition observe :: "observation list \<Rightarrow> queues \<Rightarrow> queues" where
  "observe os st = st\<lparr>seen := seen st @ os\<rparr>"

definition current :: "queues \<Rightarrow> entry list" where
  "current st = (case stored st of None \<Rightarrow> [] | Some q \<Rightarrow> q)"

definition queueHooks :: "queues \<Rightarrow> queues" where
  "queueHooks st = (case waiting st of None \<Rightarrow> st\<lparr>waiting := Some [], stop_hook := False\<rparr> | Some ps \<Rightarrow> st)"

text \<open>\<open>hooks.empty.fire()\<close>: the data is removed, then the promises are resolved.\<close>

definition fire_empty :: "queues \<Rightarrow> queues" where
  "fire_empty st =
     observe (case waiting st of None \<Rightarrow> [] | Some ps \<Rightarrow> map PromiseResolved ps)
       (st\<lparr>stored := None, waiting := None, stop_hook := False\<rparr>)"

section \<open>Commands\<close>

datatype qcmd = Push nat | Replace "nat list" | Next | Promise nat

text \<open>\<open>fx\<close>: whether the queue has the type \<open>fx\<close>.\<close>

definition dequeue :: "bool \<Rightarrow> (nat \<Rightarrow> qcmd list) \<Rightarrow> queues \<Rightarrow> queues \<times> qcmd list" where
  "dequeue fx beh st =
     (let st1 = queueHooks st;
          q = current st;
          q' = (case q of InProgress # r \<Rightarrow> r | _ \<Rightarrow> q)
      in case q' of
           Fn f # r \<Rightarrow>
             (observe [Ran f] (st1\<lparr>stored := Some (if fx then InProgress # r else r), stop_hook := False\<rparr>), beh f)
         | InProgress # r \<Rightarrow> (st1\<lparr>stored := Some r\<rparr>, [])
         | [] \<Rightarrow> (fire_empty st1, []))"

definition maybe_start :: "bool \<Rightarrow> queues \<Rightarrow> qcmd list" where
  "maybe_start fx st = (if fx \<and> (current st = [] \<or> hd (current st) \<noteq> InProgress) then [Next] else [])"

fun qstep :: "bool \<Rightarrow> (nat \<Rightarrow> qcmd list) \<Rightarrow> qcmd \<Rightarrow> queues \<Rightarrow> queues \<times> qcmd list" where
  "qstep fx beh (Push f) st =
     (let st1 = queueHooks (observe [Queued f] (st\<lparr>stored := Some (current st @ [Fn f])\<rparr>))
      in (st1, maybe_start fx st1))"
| "qstep fx beh (Replace fs) st =
     (let st1 = queueHooks (observe (map Queued fs) (st\<lparr>stored := Some (map Fn fs)\<rparr>))
      in (st1, maybe_start fx st1))"
| "qstep fx beh Next st = dequeue fx beh st"
| "qstep fx beh (Promise p) st =
     (case waiting st of
        None \<Rightarrow> (observe [PromiseResolved p] st, [])
      | Some ps \<Rightarrow> (st\<lparr>waiting := Some (ps @ [p])\<rparr>, []))"

fun qrun :: "bool \<Rightarrow> (nat \<Rightarrow> qcmd list) \<Rightarrow> nat \<Rightarrow> qcmd list \<Rightarrow> queues \<Rightarrow> queues option" where
  "qrun fx beh n [] st = Some st"
| "qrun fx beh 0 (c # cs) st = None"
| "qrun fx beh (Suc n) (c # cs) st =
     (case qstep fx beh c st of (st', cs') \<Rightarrow> qrun fx beh n (cs' @ cs) st')"

section \<open>What was queued, run and is left\<close>

definition called :: "queues \<Rightarrow> nat list" where
  "called st = concat (map (\<lambda>e. case e of Ran f \<Rightarrow> [f] | _ \<Rightarrow> []) (seen st))"

definition queued :: "queues \<Rightarrow> nat list" where
  "queued st = concat (map (\<lambda>e. case e of Queued f \<Rightarrow> [f] | _ \<Rightarrow> []) (seen st))"

definition resolved :: "queues \<Rightarrow> nat list" where
  "resolved st = concat (map (\<lambda>e. case e of PromiseResolved p \<Rightarrow> [p] | _ \<Rightarrow> []) (seen st))"

definition still_queued :: "queues \<Rightarrow> nat list" where
  "still_queued st = concat (map (\<lambda>e. case e of Fn f \<Rightarrow> [f] | InProgress \<Rightarrow> []) (current st))"

lemma queueHooks_fields [simp]:
  "stored (queueHooks st) = stored st" "seen (queueHooks st) = seen st" "current (queueHooks st) = current st"
  by (simp_all add: queueHooks_def current_def split: option.split)

lemma fire_empty_fields [simp]:
  "stored (fire_empty st) = None" "current (fire_empty st) = []" "waiting (fire_empty st) = None"
  by (simp_all add: fire_empty_def observe_def current_def)

lemma observed_waiting:
  "concat (map (\<lambda>e. case e of Ran f \<Rightarrow> [f] | _ \<Rightarrow> []) (map PromiseResolved ps)) = []"
  "concat (map (\<lambda>e. case e of Queued f \<Rightarrow> [f] | _ \<Rightarrow> []) (map PromiseResolved ps)) = []"
  "concat (map (\<lambda>e. case e of PromiseResolved p \<Rightarrow> [p] | _ \<Rightarrow> []) (map PromiseResolved ps)) = ps"
  by (induction ps) auto

lemma fire_empty_seen [simp]:
  "called (fire_empty st) = called st" "queued (fire_empty st) = queued st"
  "resolved (fire_empty st) = resolved st @ (case waiting st of None \<Rightarrow> [] | Some ps \<Rightarrow> ps)"
  by (cases "waiting st";
      simp add: fire_empty_def observe_def called_def queued_def resolved_def observed_waiting
        del: map_map concat_eq_Nil_conv)+

lemma current_updates [simp]:
  "current (st\<lparr>stored := Some q\<rparr>) = q" "current (observe os st) = current st"
  "current (st\<lparr>stop_hook := b\<rparr>) = current st" "current (st\<lparr>waiting := w\<rparr>) = current st"
  by (simp_all add: current_def observe_def)

text \<open>The sentinel is only ever in front.\<close>

definition sentinel_ok :: "queues \<Rightarrow> bool" where
  "sentinel_ok st \<longleftrightarrow> InProgress \<notin> set (tl (current st))"

definition first_in_first_out :: "queues \<Rightarrow> bool" where
  "first_in_first_out st \<longleftrightarrow> sentinel_ok st \<and> called st @ still_queued st = queued st"

fun no_replace :: "qcmd \<Rightarrow> bool" where
  "no_replace (Replace fs) = False"
| "no_replace _ = True"

lemma dequeue_cases:
  assumes "sentinel_ok st"
  obtains (empty) "current st = [] \<or> current st = [InProgress]" "dequeue fx beh st = (fire_empty (queueHooks st), [])"
  | (runs) f r where "current st = Fn f # r \<or> current st = InProgress # Fn f # r" "InProgress \<notin> set r"
      "dequeue fx beh st =
        (observe [Ran f] (queueHooks st\<lparr>stored := Some (if fx then InProgress # r else r), stop_hook := False\<rparr>), beh f)"
proof (cases "current st")
  case Nil
  then show ?thesis using empty by (simp add: dequeue_def)
next
  case (Cons e r)
  show ?thesis
  proof (cases e)
    case (Fn f)
    then show ?thesis using runs[of f r] Cons assms by (simp add: dequeue_def sentinel_ok_def)
  next
    case InProgress
    show ?thesis
    proof (cases r)
      case Nil
      then show ?thesis using empty Cons InProgress by (simp add: dequeue_def)
    next
      case (Cons e' r')
      then obtain f where "e' = Fn f" using \<open>current st = e # r\<close> assms by (cases e') (auto simp: sentinel_ok_def)
      then show ?thesis
        using runs[of f r'] Cons \<open>current st = e # r\<close> InProgress assms by (simp add: dequeue_def sentinel_ok_def)
    qed
  qed
qed

lemma seen_observed:
  "called (observe os st) = called st @ concat (map (\<lambda>e. case e of Ran f \<Rightarrow> [f] | _ \<Rightarrow> []) os)"
  "queued (observe os st) = queued st @ concat (map (\<lambda>e. case e of Queued f \<Rightarrow> [f] | _ \<Rightarrow> []) os)"
  "resolved (observe os st) = resolved st @ concat (map (\<lambda>e. case e of PromiseResolved p \<Rightarrow> [p] | _ \<Rightarrow> []) os)"
  by (simp_all add: called_def queued_def resolved_def observe_def)

lemma seen_fields [simp]:
  "called (queueHooks st) = called st" "queued (queueHooks st) = queued st" "resolved (queueHooks st) = resolved st"
  "called (st\<lparr>stored := q\<rparr>) = called st" "queued (st\<lparr>stored := q\<rparr>) = queued st" "resolved (st\<lparr>stored := q\<rparr>) = resolved st"
  "called (st\<lparr>stop_hook := b\<rparr>) = called st" "queued (st\<lparr>stop_hook := b\<rparr>) = queued st"
  "resolved (st\<lparr>stop_hook := b\<rparr>) = resolved st"
  "called (st\<lparr>waiting := w\<rparr>) = called st" "queued (st\<lparr>waiting := w\<rparr>) = queued st"
  by (simp_all add: called_def queued_def resolved_def)

lemma fifo_dequeue:
  assumes "first_in_first_out st"
  shows "first_in_first_out (fst (dequeue fx beh st))"
proof -
  have "sentinel_ok st" using assms by (simp add: first_in_first_out_def)
  then show ?thesis
  proof (cases rule: dequeue_cases[of st fx beh])
    case empty
    then have "still_queued st = []" by (auto simp: still_queued_def)
    then have "called st = queued st" using assms by (simp add: first_in_first_out_def)
    then show ?thesis using empty(2) by (simp add: first_in_first_out_def sentinel_ok_def still_queued_def)
  next
    case (runs f r)
    have "still_queued st = f # concat (map (\<lambda>e. case e of Fn f \<Rightarrow> [f] | InProgress \<Rightarrow> []) r)"
      using runs(1) by (auto simp: still_queued_def)
    moreover have "InProgress \<notin> set (tl r)" using runs(2) by (cases r) auto
    ultimately show ?thesis using assms runs(2,3)
      by (auto simp: first_in_first_out_def sentinel_ok_def still_queued_def seen_observed)
  qed
qed

lemma fifo_step:
  assumes "first_in_first_out st" "no_replace c"
  shows "first_in_first_out (fst (qstep fx beh c st))"
proof (cases c)
  case (Push f)
  then show ?thesis using assms(1)
    by (cases "current st") (auto simp: first_in_first_out_def sentinel_ok_def still_queued_def seen_observed Let_def)
next
  case (Promise p)
  then show ?thesis using assms(1)
    by (cases "waiting st") (auto simp: first_in_first_out_def sentinel_ok_def still_queued_def seen_observed)
qed (use assms fifo_dequeue in auto)

lemma new_commands: "list_all no_replace (snd (qstep fx beh c st))"
  if "\<And>f. list_all no_replace (beh f)"
  using that by (cases c)
    (auto simp: Let_def maybe_start_def dequeue_def split: option.split list.split entry.split)

lemma fifo_run:
  assumes "\<And>f. list_all no_replace (beh f)"
  shows "qrun fx beh n cs st = Some st' \<Longrightarrow> first_in_first_out st \<Longrightarrow> list_all no_replace cs \<Longrightarrow> first_in_first_out st'"
proof (induction n arbitrary: cs st)
  case 0
  then show ?case by (cases cs) auto
next
  case (Suc n)
  show ?case
  proof (cases cs)
    case (Cons c cs')
    obtain st1 new where s: "qstep fx beh c st = (st1, new)" by fastforce
    have "first_in_first_out st1" using fifo_step[of st c fx beh] Suc.prems(2,3) Cons s by simp
    moreover have "list_all no_replace new" using new_commands[where beh = beh, OF assms, of fx c st] s by simp
    ultimately show ?thesis using Suc.IH[of "new @ cs'" st1] Suc.prems(1,3) Cons s by simp
  qed (use Suc.prems in simp)
qed

text \<open>A queue of type \<open>fx\<close> that holds functions has one in progress, or is about to start one.\<close>

definition busy :: "qcmd list \<Rightarrow> queues \<Rightarrow> bool" where
  "busy cs st \<longleftrightarrow> sentinel_ok st \<and> (current st = [] \<or> hd (current st) = InProgress \<or> (\<exists>cs'. cs = Next # cs'))"

lemma busy_step:
  assumes "busy (c # cs) st" "qstep True beh c st = (st', new)"
  shows "busy (new @ cs) st'"
proof (cases c)
  case (Push f)
  then show ?thesis using assms
    by (cases "current st") (auto simp: busy_def sentinel_ok_def Let_def maybe_start_def)
next
  case (Replace fs)
  then show ?thesis using assms by (cases fs) (auto simp: busy_def sentinel_ok_def Let_def maybe_start_def)
next
  case Next
  have "sentinel_ok st" using assms(1) by (simp add: busy_def)
  then show ?thesis
    by (cases rule: dequeue_cases[of st True beh]) (use assms(2) Next in \<open>auto simp: busy_def sentinel_ok_def\<close>)
next
  case (Promise p)
  then show ?thesis using assms by (cases "waiting st") (auto simp: busy_def sentinel_ok_def)
qed

lemma busy_run: "qrun True beh n cs st = Some st' \<Longrightarrow> busy cs st \<Longrightarrow> busy [] st'"
proof (induction n arbitrary: cs st)
  case 0
  then show ?case by (cases cs) auto
next
  case (Suc n)
  show ?case
  proof (cases cs)
    case (Cons c cs')
    obtain st1 new where s: "qstep True beh c st = (st1, new)" by fastforce
    then have "busy (new @ cs') st1" using busy_step Suc.prems(2) Cons by blast
    then show ?thesis using Suc.IH[of "new @ cs'" st1] Suc.prems(1) Cons s by simp
  qed (use Suc.prems in simp)
qed

section \<open>Draining\<close>

text \<open>Functions that end later: each has called \<open>next\<close> by then.\<close>

lemma drain:
  assumes "\<And>f. beh f = []"
  shows "current st = InProgress # map Fn fs \<Longrightarrow> waiting st = Some ps \<Longrightarrow>
    \<exists>st'. qrun True beh (Suc (length fs)) (replicate (Suc (length fs)) Next) st = Some st' \<and>
      called st' = called st @ fs \<and> resolved st' = resolved st @ ps \<and> stored st' = None \<and> waiting st' = None"
proof (induction fs arbitrary: st)
  case Nil
  then show ?case by (auto simp: dequeue_def queueHooks_def)
next
  case (Cons f fs)
  define st1 where "st1 = observe [Ran f] (queueHooks st\<lparr>stored := Some (InProgress # map Fn fs), stop_hook := False\<rparr>)"
  have d: "dequeue True beh st = (st1, [])" using Cons.prems(1) assms by (simp add: dequeue_def st1_def)
  have "current st1 = InProgress # map Fn fs" "waiting st1 = Some ps" "called st1 = called st @ [f]" "resolved st1 = resolved st"
    using Cons.prems by (simp_all add: st1_def seen_observed) (simp_all add: observe_def queueHooks_def)
  with Cons.IH[of st1] show ?case by (simp add: d del: replicate_Suc) (simp add: d)
qed

lemma push_behind:
  "current st \<noteq> [] \<Longrightarrow> hd (current st) = InProgress \<Longrightarrow> waiting st = Some ps \<Longrightarrow>
    \<exists>st1. qrun True beh (length fs + n) (map Push fs @ cs) st = qrun True beh n cs st1 \<and>
      current st1 = current st @ map Fn fs \<and> waiting st1 = Some ps \<and> called st1 = called st \<and> resolved st1 = resolved st"
proof (induction fs arbitrary: st)
  case (Cons f fs)
  define st0 where "st0 = queueHooks (observe [Queued f] (st\<lparr>stored := Some (current st @ [Fn f])\<rparr>))"
  have w: "waiting (observe os x) = waiting x" for os x by (simp add: observe_def)
  have st0: "current st0 = current st @ [Fn f]" "waiting st0 = Some ps" "called st0 = called st" "resolved st0 = resolved st"
    using Cons.prems(3) by (simp_all add: st0_def seen_observed queueHooks_def w)
  then have "qstep True beh (Push f) st = (st0, [])"
    using Cons.prems(1,2) by (simp add: st0_def[symmetric] maybe_start_def Let_def)
  with Cons.IH[of st0] st0 Cons.prems show ?case by simp
qed auto

section \<open>Properties\<close>

text \<open>
  Functions are called in the order in which they were queued, each at most once, whatever they do
  themselves (queueing more, calling \<open>next\<close> at once, later or several times, waiting for promises), as
  long as nobody replaces the queue; and a queue of type \<open>fx\<close> that still holds functions has one in
  progress, so that none is forgotten, even when the queue was replaced.
\<close>

theorem queue_in_order:
  assumes "qrun fx beh n cs no_queue = Some st"
  shows "(list_all no_replace cs \<and> (\<forall>f. list_all no_replace (beh f)) \<longrightarrow> called st @ still_queued st = queued st) \<and>
    (fx \<and> current st \<noteq> [] \<longrightarrow> hd (current st) = InProgress)"
proof -
  have "first_in_first_out no_queue" "busy cs no_queue"
    by (simp_all add: first_in_first_out_def busy_def sentinel_ok_def no_queue_def current_def still_queued_def
        called_def queued_def)
  then show ?thesis
    using fifo_run[of beh fx n cs no_queue st] busy_run[of beh n cs no_queue st] assms
    by (cases fx) (auto simp: first_in_first_out_def busy_def)
qed

theorem queue_in_order_witness:
  "\<exists>st. qrun True (\<lambda>f. if f = 7 then [Push 9, Next] else []) 9 [Push 7, Push 8, Next] no_queue = Some st \<and>
     called st @ still_queued st = [7, 9, 8]"
proof -
  let ?beh = "\<lambda>f. if f = (7 :: nat) then [Push 9, Next] else []"
  obtain st where r: "qrun True ?beh 9 [Push 7, Push 8, Next] no_queue = Some st" "queued st = [7, 9, 8]"
    by (simp add: eval_nat_numeral no_queue_def current_def observe_def queueHooks_def maybe_start_def dequeue_def
        Let_def queued_def fire_empty_def)
  then show ?thesis using queue_in_order[OF r(1)] by auto
qed

text \<open>
  When the functions of an \<open>fx\<close> queue are queued and each ends later, calling \<open>next\<close>, then all of
  them are called in order, the promise that waited for the queue is resolved once, at the end, and
  nothing of the queue is left.
\<close>

theorem queue_drains:
  assumes "\<And>f. beh f = []"
  shows "\<exists>st. qrun True beh (2 * length fs + 4)
      (map Push (f # fs) @ Promise p # replicate (Suc (length fs)) Next) no_queue = Some st \<and>
    called st = f # fs \<and> resolved st = [p] \<and> stored st = None \<and> waiting st = None"
proof -
  let ?rest = "Promise p # replicate (Suc (length fs)) Next"
  define st1 where "st1 = \<lparr>stored = Some [InProgress], waiting = Some [], stop_hook = False, seen = [Queued f, Ran f]\<rparr>"
  have one: "qrun True beh (Suc (Suc m)) (Push f # cs) no_queue = qrun True beh m cs st1" for m cs
    using assms by (simp add: no_queue_def current_def observe_def queueHooks_def maybe_start_def dequeue_def Let_def st1_def)
  have st1: "current st1 \<noteq> []" "hd (current st1) = InProgress" "waiting st1 = Some []"
    by (simp_all add: st1_def current_def)
  obtain st2 where two: "qrun True beh (length fs + Suc (Suc (length fs))) (map Push fs @ ?rest) st1 =
        qrun True beh (Suc (Suc (length fs))) ?rest st2"
      "current st2 = current st1 @ map Fn fs" "waiting st2 = Some []" "called st2 = called st1" "resolved st2 = resolved st1"
    using push_behind[OF st1, of beh fs "Suc (Suc (length fs))" ?rest] by blast
  define st3 where "st3 = st2\<lparr>waiting := Some [p]\<rparr>"
  have st3: "current st3 = InProgress # map Fn fs" "waiting st3 = Some [p]" "called st3 = [f]" "resolved st3 = []"
    using two(2-5) by (simp_all add: st3_def) (simp_all add: st1_def current_def called_def resolved_def)
  have "qrun True beh (Suc (Suc (length fs))) ?rest st2 =
      qrun True beh (Suc (length fs)) (replicate (Suc (length fs)) Next) st3"
    using two(3) by (simp add: st3_def)
  moreover have "2 * length fs + 4 = Suc (Suc (length fs + Suc (Suc (length fs))))" by simp
  ultimately have "qrun True beh (2 * length fs + 4) (map Push (f # fs) @ ?rest) no_queue =
      qrun True beh (Suc (length fs)) (replicate (Suc (length fs)) Next) st3"
    by (simp only: list.map append_Cons one two(1))
  then show ?thesis using drain[where beh = beh, OF assms st3(1,2)] st3(3,4) by (simp only:) auto
qed

theorem queue_drains_witness:
  "\<exists>st. qrun True (\<lambda>f. []) 8 [Push 1, Push 2, Push 3, Promise 4, Next, Next, Next] no_queue = Some st \<and> called st = [1, 2, 3]"
  using queue_drains[of "\<lambda>f. []" "[2, 3]" 1 4] by (auto simp: eval_nat_numeral)

text \<open>
  Clearing the queue of a running animation removes the sentinel and resolves the promise at once, and
  the next function that is queued runs beside the one that has not ended.
\<close>

lemma cleared_while_running:
  "map_option (\<lambda>st. (resolved st, called st))
     (qrun True (\<lambda>f. []) 9 [Push 1, Promise 5, Replace [], Push 2] no_queue) = Some ([5], [1, 2])"
  by (simp add: eval_nat_numeral no_queue_def current_def observe_def queueHooks_def maybe_start_def dequeue_def
      Let_def fire_empty_def resolved_def called_def)

end
