(* ===== verification/JqParam.thy ===== *)
theory JqParam
  imports DocQuery
begin

text \<open>
  Serialisation of data in \<open>jquery.js\<close> (\<open>jQuery.param\<close>, \<open>buildParams\<close>), and what the query parser of
  \<open>doctools.js\<close> reads from it.  A scalar is known by its text; a function by the text of its result.
\<close>

datatype pdata = PNull | PText "nat list" | PArray "pdata list" | PObject "(nat list \<times> pdata) list"

text \<open>The text an array or object has where a scalar is expected.\<close>

fun text_of :: "pdata \<Rightarrow> nat list" where
  "text_of PNull = []"
| "text_of (PText s) = s"
| "text_of (PArray vs) = join [44] (map text_of vs)"
| "text_of (PObject ps) = codes ''[object Object]''"

definition rbracket :: "nat list \<Rightarrow> bool" where
  "rbracket s \<longleftrightarrow> length s \<ge> 2 \<and> drop (length s - 2) s = codes ''[]''"

definition index_text :: "nat \<Rightarrow> pdata \<Rightarrow> nat list" where
  "index_text i v = (case v of PArray vs \<Rightarrow> codes (dec i) | PObject ps \<Rightarrow> codes (dec i) | _ \<Rightarrow> [])"

definition nested :: "nat list \<Rightarrow> nat list \<Rightarrow> nat list" where
  "nested pre name = pre @ codes ''['' @ name @ codes '']''"

fun buildParams :: "bool \<Rightarrow> nat list \<Rightarrow> pdata \<Rightarrow> (nat list \<times> nat list) list"
  and buildArray :: "bool \<Rightarrow> nat list \<Rightarrow> nat \<Rightarrow> pdata list \<Rightarrow> (nat list \<times> nat list) list"
  and buildObject :: "bool \<Rightarrow> nat list \<Rightarrow> (nat list \<times> pdata) list \<Rightarrow> (nat list \<times> nat list) list" where
  "buildParams traditional pre (PArray vs) = buildArray traditional pre 0 vs"
| "buildParams traditional pre (PObject ps) =
     (if traditional then [(pre, text_of (PObject ps))] else buildObject traditional pre ps)"
| "buildParams traditional pre v = [(pre, text_of v)]"
| "buildArray traditional pre i [] = []"
| "buildArray traditional pre i (v # vs) =
     (if traditional \<or> rbracket pre then [(pre, text_of v)]
      else buildParams traditional (nested pre (index_text i v)) v) @
     buildArray traditional pre (Suc i) vs"
| "buildObject traditional pre [] = []"
| "buildObject traditional pre ((name, v) # ps) =
     buildParams traditional (nested pre name) v @ buildObject traditional pre ps"

definition param_pairs :: "bool \<Rightarrow> (nat list \<times> pdata) list \<Rightarrow> (nat list \<times> nat list) list" where
  "param_pairs traditional ps = concat (map (\<lambda>(k, v). buildParams traditional k v) ps)"

text \<open>\<open>None\<close>: the encoder throws, on half of a surrogate pair.\<close>

definition param :: "bool \<Rightarrow> (nat list \<times> pdata) list \<Rightarrow> nat list option" where
  "param traditional ps = map_option (join [38]) (encode_pairs (param_pairs traditional ps))"

text \<open>Form elements: an array of names and values.\<close>

definition param_form :: "(nat list \<times> pdata) list \<Rightarrow> nat list option" where
  "param_form elems = map_option (join [38]) (encode_pairs (map (\<lambda>(k, v). (k, text_of v)) elems))"

section \<open>Lemmas\<close>

definition scalars :: "pdata \<Rightarrow> nat list list" where
  "scalars v = (case v of PArray vs \<Rightarrow> map text_of vs | _ \<Rightarrow> [text_of v])"

lemma buildArray_traditional: "buildArray True k i vs = map (\<lambda>v. (k, text_of v)) vs"
  by (induction vs arbitrary: i) auto

lemma buildParams_traditional: "buildParams True k v = map (Pair k) (scalars v)"
  by (cases v) (auto simp: scalars_def buildArray_traditional)

lemma values_of_append: "values_of (a @ b) k = values_of a k @ values_of b k"
  by (simp add: values_of_def)

lemma values_of_key: "values_of (map (Pair k') vs) k = (if k = k' then vs else [])"
  by (induction vs) (auto simp: values_of_def)

lemma values_of_param_pairs:
  "distinct (map fst ps) \<Longrightarrow>
     values_of (param_pairs True ps) k = (case map_of ps k of None \<Rightarrow> [] | Some v \<Rightarrow> scalars v)"
proof (induction ps)
  case Nil
  then show ?case by (simp add: param_pairs_def values_of_def)
next
  case (Cons p ps)
  obtain k' v where p: "p = (k', v)" by fastforce
  have "param_pairs True (p # ps) = map (Pair k') (scalars v) @ param_pairs True ps"
    by (simp add: param_pairs_def p buildParams_traditional)
  moreover have "k = k' \<Longrightarrow> map_of ps k = None" using Cons.prems p by (auto simp: map_of_eq_None_iff)
  ultimately show ?case using Cons p by (simp add: values_of_append values_of_key)
qed

lemma param_query: "param t ps = Some q \<longleftrightarrow> query_string (param_pairs t ps) = Some (63 # q)"
  by (auto simp: param_def query_string_def)

lemma param_read:
  assumes "param t ps = Some q" "list_all good_pair (param_pairs t ps)" "param_pairs t ps \<noteq> []"
  shows "getQueryParameters (63 # q) = Inr (grouped (map spaced_pair (param_pairs t ps)))"
  using getQueryParameters_grouped[OF assms(2,3)] assms(1) by (simp add: param_query)

section \<open>Properties\<close>

text \<open>
  What \<open>jQuery.param\<close> writes is what \<open>$.getQueryParameters\<close> reads: the serialised pairs, grouped by
  name in order (plus signs read as spaces); with \<open>traditional\<close>, the values of a name are the texts
  of the array or scalar stored under it, in order.
\<close>

theorem param_roundtrip:
  assumes "param t ps = Some q" and "list_all good_pair (param_pairs t ps)" and "param_pairs t ps \<noteq> []"
  shows "getQueryParameters (63 # q) = Inr (grouped (map spaced_pair (param_pairs t ps))) \<and>
    (t \<and> distinct (map fst ps) \<longrightarrow>
      (\<forall>k. values_of (param_pairs t ps) k = (case map_of ps k of None \<Rightarrow> [] | Some v \<Rightarrow> scalars v)))"
  using param_read[OF assms] values_of_param_pairs[of ps] by (cases t) auto

definition sample_data :: "(nat list \<times> pdata) list" where
  "sample_data = [([97], PArray [PText [49], PNull]), ([98], PText [38])]"

theorem param_roundtrip_witness:
  "map (\<lambda>ps. (ps [97], ps [98]))
     (case map_option (\<lambda>q. getQueryParameters (63 # q)) (param True sample_data) of Some (Inr ps) \<Rightarrow> [ps] | _ \<Rightarrow> []) =
   [(Some [[49], []], Some [[38]])]"
proof -
  have pairs: "param_pairs True sample_data = [([97], [49]), ([97], []), ([98], [38])]"
    by (simp add: param_pairs_def sample_data_def)
  have i: "\<not> inherited [97]" "\<not> inherited [98]"
    by (simp_all add: inherited_def object_prototype_def codes_def)
  then have g: "list_all good_pair (param_pairs True sample_data)"
    by (simp add: pairs good_pair_def plus_to_space_def)
  obtain q where q: "param True sample_data = Some q"
    by (simp add: param_def pairs encode_pairs.simps encode_pair_def urlencode_def unreserved_def
        is_lead_def is_trail_def)
  show ?thesis using param_roundtrip[OF q g] q
    by (simp add: pairs grouped_def values_of_def spaced_pair_def plus_to_space_def)
qed

text \<open>Nested data: the path to each scalar is its name.\<close>

lemma nested_names:
  "buildParams False (codes ''a'') (PObject [(codes ''b'', PArray [PText [49], PArray [PText [50]]])]) =
     [(codes ''a[b][]'', [49]), (codes ''a[b][1][]'', [50])]"
proof -
  have "dec 0 = ''0''" "dec (Suc 0) = ''1''" by code_simp+
  then show ?thesis by (simp add: nested_def index_text_def rbracket_def codes_def)
qed

end
