(* ===== verification/JqCallbacks.thy ===== *)
theory JqCallbacks
  imports JqClass
begin

text \<open>
  Callback lists in \<open>jquery.js\<close> (\<open>jQuery.Callbacks\<close>).  A callback is any value; what a callback does is
  a program that may call the methods of the list that is firing it and look at their answers.  A
  firing that never ends is one for which no amount of fuel suffices.
\<close>

section \<open>Options\<close>

record cb_opts =
  once :: bool
  keep_memory :: bool
  unique :: bool
  stopOnFalse :: bool

definition createOptions :: "string \<Rightarrow> cb_opts" where
  "createOptions options =
     (let flags = rnothtmlwhite options
      in \<lparr>once = (''once'' \<in> set flags), keep_memory = (''memory'' \<in> set flags),
          unique = (''unique'' \<in> set flags), stopOnFalse = (''stopOnFalse'' \<in> set flags)\<rparr>)"

section \<open>State\<close>

text \<open>
  A value fired is a context with arguments.  \<open>memory\<close> is \<open>None\<close> when it is falsy; the list is \<open>None\<close>
  when it is the empty string that marks a spent list.
\<close>

record ('f, 'v) cbs =
  firing :: bool
  memory :: "'v option"
  fired :: bool
  locked :: bool
  cb_list :: "'f list option"
  queue :: "'v list"
  firingIndex :: int

definition Callbacks :: "('f, 'v) cbs" where
  "Callbacks = \<lparr>firing = False, memory = None, fired = False, locked = False, cb_list = Some [],
     queue = [], firingIndex = -1\<rparr>"

datatype 'f cb_arg = FunArg 'f | ListArg "'f cb_arg list" | OtherArg

datatype ('f, 'v) cmd =
    Add "'f cb_arg list" | Remove "'f list" | Has "'f option" | Empty | Disable | Disabled
  | Lock | Locked | FireWith 'v | Fired

text \<open>
  A callback: it returns whether its result is not \<open>false\<close>, throws, or calls a method and goes on.
\<close>

datatype ('f, 'v, 's) prog =
    Ret bool 's | Throw 's | Do "('f, 'v) cmd" "bool \<Rightarrow> ('f, 'v, 's) prog"

type_synonym ('f, 'v, 's) behaviour = "'f \<Rightarrow> 'v \<Rightarrow> 's \<Rightarrow> ('f, 'v, 's) prog"

definition listeners :: "('f, 'v) cbs \<Rightarrow> 'f list" where
  "listeners st = (case cb_list st of None \<Rightarrow> [] | Some l \<Rightarrow> l)"

section \<open>Methods\<close>

fun add_args :: "bool \<Rightarrow> 'f cb_arg list \<Rightarrow> 'f list \<Rightarrow> 'f list" where
  "add_args u [] l = l"
| "add_args u (FunArg f # as) l = add_args u as (if \<not> u \<or> f \<notin> set l then l @ [f] else l)"
| "add_args u (ListArg bs # as) l = add_args u as (add_args u bs l)"
| "add_args u (OtherArg # as) l = add_args u as l"

definition remove_at :: "nat \<Rightarrow> 'a list \<Rightarrow> 'a list" where
  "remove_at i l = take i l @ drop (Suc i) l"

definition inArray :: "'a \<Rightarrow> 'a list \<Rightarrow> nat \<Rightarrow> nat option" where
  "inArray a l start = map_option ((+) start) (first_pos (\<lambda>x. x = a) (drop start l))"

lemma inArray_bound: "inArray a l start = Some i \<Longrightarrow> start \<le> i \<and> i < length l \<and> l ! i = a"
  by (auto simp: inArray_def first_pos_drop_Some)

function remove_from_list :: "'f \<Rightarrow> nat \<Rightarrow> 'f list \<Rightarrow> int \<Rightarrow> 'f list \<times> int" where
  "remove_from_list a start l idx =
     (case inArray a l start of
        None \<Rightarrow> (l, idx)
      | Some i \<Rightarrow> remove_from_list a i (remove_at i l) (if int i \<le> idx then idx - 1 else idx))"
  by pat_completeness auto
termination
  by (relation "measure (\<lambda>(a, start, l, idx). length l)") (auto dest!: inArray_bound simp: remove_at_def)

declare remove_from_list.simps [simp del]

fun remove_all_args :: "'f list \<Rightarrow> ('f, 'v) cbs \<Rightarrow> ('f, 'v) cbs" where
  "remove_all_args [] st = st"
| "remove_all_args (a # as) st =
     remove_all_args as
       (case cb_list st of
          None \<Rightarrow> st
        | Some l \<Rightarrow> (case remove_from_list a 0 l (firingIndex st) of
                      (l', i) \<Rightarrow> st\<lparr>cb_list := Some l', firingIndex := i\<rparr>))"

text \<open>A method call: the state, the answer, and whether the code goes on to call \<open>fire\<close>.\<close>

fun exec_cmd :: "cb_opts \<Rightarrow> ('f, 'v) cmd \<Rightarrow> ('f, 'v) cbs \<Rightarrow> ('f, 'v) cbs \<times> bool \<times> bool" where
  "exec_cmd opts (Add as) st =
     (case cb_list st of
        None \<Rightarrow> (st, True, False)
      | Some l \<Rightarrow>
          let refire = (memory st \<noteq> None \<and> \<not> firing st);
              st1 = (if refire then st\<lparr>firingIndex := int (length l) - 1, queue := queue st @ [the (memory st)]\<rparr>
                     else st)
          in (st1\<lparr>cb_list := Some (add_args (unique opts) as l)\<rparr>, True, refire))"
| "exec_cmd opts (Remove as) st = (remove_all_args as st, True, False)"
| "exec_cmd opts (Has (Some f)) st = (st, f \<in> set (listeners st), False)"
| "exec_cmd opts (Has None) st = (st, length (listeners st) > 0, False)"
| "exec_cmd opts Empty st = ((if cb_list st \<noteq> None then st\<lparr>cb_list := Some []\<rparr> else st), True, False)"
| "exec_cmd opts Disable st =
     (st\<lparr>locked := True, queue := [], cb_list := None, memory := None\<rparr>, True, False)"
| "exec_cmd opts Disabled st = (st, cb_list st = None, False)"
| "exec_cmd opts Lock st =
     (let st1 = st\<lparr>locked := True, queue := []\<rparr>
      in (if memory st = None \<and> \<not> firing st then st1\<lparr>cb_list := None, memory := None\<rparr> else st1, True, False))"
| "exec_cmd opts Locked st = (st, locked st, False)"
| "exec_cmd opts (FireWith v) st =
     (if \<not> locked st then (st\<lparr>queue := queue st @ [v]\<rparr>, True, \<not> firing st) else (st, True, False))"
| "exec_cmd opts Fired st = (st, fired st, False)"

text \<open>
  A callback runs while the list is firing, so none of its calls fires the list again.  The result
  \<open>None\<close> is an exception.
\<close>

primrec run_prog :: "cb_opts \<Rightarrow> ('f, 'v, 's) prog \<Rightarrow> ('f, 'v) cbs \<Rightarrow> bool option \<times> 's \<times> ('f, 'v) cbs" where
  "run_prog opts (Ret b s) st = (Some b, s, st)"
| "run_prog opts (Throw s) st = (None, s, st)"
| "run_prog opts (Do c k) st =
     (case exec_cmd opts c st of (st', ans, start) \<Rightarrow> run_prog opts (k ans) st')"

section \<open>Firing\<close>

definition fire_end :: "cb_opts \<Rightarrow> ('f, 'v) cbs \<Rightarrow> ('f, 'v) cbs" where
  "fire_end opts st =
     (let st1 = st\<lparr>memory := (if keep_memory opts then memory st else None), firing := False\<rparr>
      in if locked st1 then st1\<lparr>cb_list := (if memory st1 \<noteq> None then Some [] else None)\<rparr> else st1)"

text \<open>
  The loops of \<open>fire\<close>.  The outer \<open>None\<close> is a lack of fuel; the flag says whether the firing came to
  its end.  An exception of a callback leaves \<open>fire\<close> at once, with the list as it stands.
\<close>

fun fire_loop ::
  "cb_opts \<Rightarrow> ('f, 'v, 's) behaviour \<Rightarrow> nat \<Rightarrow> ('f, 'v) cbs \<Rightarrow> 's \<Rightarrow>
   (('f, 'v) cbs \<times> bool \<times> 's) option" where
  "fire_loop opts beh 0 st s = None"
| "fire_loop opts beh (Suc n) st s =
     (let i = firingIndex st + 1
      in if i < int (length (listeners st))
         then (case memory st of
                 None \<Rightarrow> None
               | Some v \<Rightarrow>
                   (case run_prog opts (beh (listeners st ! nat i) v s) (st\<lparr>firingIndex := i\<rparr>) of
                      (None, s', st') \<Rightarrow> Some (st', False, s')
                    | (Some b, s', st') \<Rightarrow>
                        fire_loop opts beh n
                          (if \<not> b \<and> stopOnFalse opts
                           then st'\<lparr>firingIndex := int (length (listeners st')), memory := None\<rparr> else st') s'))
         else (case queue st of
                 [] \<Rightarrow> Some (fire_end opts (st\<lparr>firingIndex := -1\<rparr>), True, s)
               | v # vs \<Rightarrow>
                   fire_loop opts beh n (st\<lparr>firingIndex := -1, memory := Some v, queue := vs\<rparr>) s))"

definition fire ::
  "cb_opts \<Rightarrow> ('f, 'v, 's) behaviour \<Rightarrow> nat \<Rightarrow> ('f, 'v) cbs \<Rightarrow> 's \<Rightarrow>
   (('f, 'v) cbs \<times> bool \<times> 's) option" where
  "fire opts beh fuel st s =
     (let st1 = st\<lparr>locked := locked st \<or> once opts, fired := True, firing := True\<rparr>
      in case queue st1 of
           [] \<Rightarrow> Some (fire_end opts st1, True, s)
         | v # vs \<Rightarrow> fire_loop opts beh fuel (st1\<lparr>memory := Some v, queue := vs\<rparr>) s)"

text \<open>A method called from outside: its answer, or \<open>None\<close> for the exception of a callback.\<close>

definition call ::
  "cb_opts \<Rightarrow> ('f, 'v, 's) behaviour \<Rightarrow> nat \<Rightarrow> ('f, 'v) cmd \<Rightarrow> ('f, 'v) cbs \<Rightarrow> 's \<Rightarrow>
   (('f, 'v) cbs \<times> bool option \<times> 's) option" where
  "call opts beh fuel c st s =
     (case exec_cmd opts c st of
        (st', ans, start) \<Rightarrow>
          if start
          then map_option (\<lambda>(st'', ended, s'). (st'', if ended then Some ans else None, s'))
                 (fire opts beh fuel st' s)
          else Some (st', Some ans, s))"

section \<open>What is still to be called\<close>

definition pending :: "('f, 'v) cbs \<Rightarrow> 'f list" where
  "pending st = drop (nat (firingIndex st + 1)) (listeners st)"

lemma add_args_prefix: "\<exists>xs. add_args u as l = l @ xs"
proof (induction u as l rule: add_args.induct)
  case (3 u bs as l)
  then obtain xs ys where "add_args u bs l = l @ xs" "add_args u as (l @ xs) = (l @ xs) @ ys" by metis
  then show ?case by simp
qed (auto split: if_splits)

definition added :: "bool \<Rightarrow> 'f cb_arg list \<Rightarrow> 'f list \<Rightarrow> 'f list" where
  "added u as l = drop (length l) (add_args u as l)"

lemma add_args_added: "add_args u as l = l @ added u as l"
  using add_args_prefix[of u as l] by (auto simp: added_def)

lemma add_args_distinct: "distinct l \<Longrightarrow> distinct (add_args True as l)"
  by (induction True as l rule: add_args.induct) auto

lemma set_remove_at: "set (remove_at i l) \<subseteq> set l"
  by (auto simp: remove_at_def dest: in_set_takeD in_set_dropD)

lemma take_remove_at: "i \<le> length l \<Longrightarrow> take i (remove_at i l) = take i l"
  by (simp add: remove_at_def)

lemma filter_remove_at: "i < length l \<Longrightarrow> l ! i = a \<Longrightarrow> filter (\<lambda>x. x \<noteq> a) (remove_at i l) = filter (\<lambda>x. x \<noteq> a) l"
proof -
  assume "i < length l" "l ! i = a"
  then have "l = take i l @ a # drop (Suc i) l" using id_take_nth_drop by blast
  then have "filter (\<lambda>x. x \<noteq> a) l = filter (\<lambda>x. x \<noteq> a) (take i l @ a # drop (Suc i) l)" by simp
  then show ?thesis by (simp add: remove_at_def)
qed

lemma drop_remove_at:
  assumes "i < length l" "l ! i = a"
  shows "filter (\<lambda>x. x \<noteq> a) (drop (if i < k then k - 1 else k) (remove_at i l)) = filter (\<lambda>x. x \<noteq> a) (drop k l)"
proof (cases "i < k")
  case True
  then obtain j where k: "k = Suc (i + j)" by (metis less_iff_Suc_add)
  then have "drop (k - 1) (remove_at i l) = drop j (drop (Suc i) l)"
    using assms(1) by (simp add: remove_at_def)
  then show ?thesis using True k by (simp add: add.commute)
next
  case False
  have "drop k l = drop k (take i l) @ drop (k - min (length l) i) (l ! i # drop (Suc i) l)"
    by (subst id_take_nth_drop[OF assms(1)]) simp
  then show ?thesis using False assms by (simp add: remove_at_def min_def)
qed

lemma inArray_None: "inArray a l start = None \<Longrightarrow> a \<notin> set (drop start l)"
  by (auto simp: inArray_def first_pos_None)

lemma inArray_Some: "inArray a l start = Some i \<Longrightarrow> a \<notin> set (take start l) \<Longrightarrow> a \<notin> set (take i l)"
  by (auto simp: inArray_def first_pos_drop_Some in_set_conv_nth)
     (metis le_less_linear less_imp_add_positive nth_take order_less_trans)

text \<open>Removing a callback keeps the position: of those still to be called, only it is dropped.\<close>

lemma remove_from_list_correct:
  "a \<notin> set (take start l) \<Longrightarrow> -1 \<le> idx \<Longrightarrow> remove_from_list a start l idx = (l', i') \<Longrightarrow>
     l' = filter (\<lambda>x. x \<noteq> a) l \<and> -1 \<le> i' \<and>
     drop (nat (i' + 1)) l' = filter (\<lambda>x. x \<noteq> a) (drop (nat (idx + 1)) l)"
proof (induction a start l idx arbitrary: l' i' rule: remove_from_list.induct)
  case (1 a start l idx)
  show ?case
  proof (cases "inArray a l start")
    case None
    then have "a \<notin> set (drop start l)" by (rule inArray_None)
    moreover have "set l = set (take start l) \<union> set (drop start l)"
      by (metis append_take_drop_id set_append)
    ultimately have "a \<notin> set l" using "1.prems"(1) by blast
    then have "filter (\<lambda>x. x \<noteq> a) (drop k l) = drop k l" for k
      by (auto intro!: filter_True dest: in_set_dropD)
    from this this[of 0] show ?thesis
      using "1.prems"(2,3) None by (subst (asm) remove_from_list.simps) simp
  next
    case (Some i)
    have i: "start \<le> i" "i < length l" "l ! i = a" using inArray_bound[OF Some] by auto
    let ?idx = "if int i \<le> idx then idx - 1 else idx"
    have rec: "remove_from_list a i (remove_at i l) ?idx = (l', i')"
      using "1.prems"(3) Some by (subst (asm) remove_from_list.simps) simp
    have "a \<notin> set (take i (remove_at i l))"
      using inArray_Some[OF Some "1.prems"(1)] i(2) by (simp add: take_remove_at)
    moreover have "-1 \<le> ?idx" using "1.prems"(2) by auto
    ultimately have ih: "l' = filter (\<lambda>x. x \<noteq> a) (remove_at i l) \<and> -1 \<le> i' \<and>
        drop (nat (i' + 1)) l' = filter (\<lambda>x. x \<noteq> a) (drop (nat (?idx + 1)) (remove_at i l))"
      using "1.IH"[OF Some _ _ rec] by blast
    have "nat (?idx + 1) = (if i < nat (idx + 1) then nat (idx + 1) - 1 else nat (idx + 1))"
      using "1.prems"(2) by auto
    then have "filter (\<lambda>x. x \<noteq> a) (drop (nat (?idx + 1)) (remove_at i l)) = filter (\<lambda>x. x \<noteq> a) (drop (nat (idx + 1)) l)"
      using drop_remove_at[OF i(2,3), of "nat (idx + 1)"] by simp
    then show ?thesis using ih filter_remove_at[OF i(2,3)] by metis
  qed
qed

lemma remove_all_args_correct:
  "-1 \<le> firingIndex st \<Longrightarrow>
     listeners (remove_all_args as st) = filter (\<lambda>x. x \<notin> set as) (listeners st) \<and>
     pending (remove_all_args as st) = filter (\<lambda>x. x \<notin> set as) (pending st) \<and>
     -1 \<le> firingIndex (remove_all_args as st)"
proof (induction as arbitrary: st)
  case (Cons a as)
  define st1 where "st1 = (case cb_list st of
        None \<Rightarrow> st
      | Some l \<Rightarrow> (case remove_from_list a 0 l (firingIndex st) of
                    (l', i) \<Rightarrow> st\<lparr>cb_list := Some l', firingIndex := i\<rparr>))"
  have st1: "listeners st1 = filter (\<lambda>x. x \<noteq> a) (listeners st) \<and>
      pending st1 = filter (\<lambda>x. x \<noteq> a) (pending st) \<and> -1 \<le> firingIndex st1"
  proof (cases "cb_list st")
    case None
    then show ?thesis using Cons.prems by (simp add: st1_def listeners_def pending_def)
  next
    case (Some l)
    obtain l' i where r: "remove_from_list a 0 l (firingIndex st) = (l', i)" by fastforce
    have z: "a \<notin> set (take 0 l)" by simp
    have "l' = filter (\<lambda>x. x \<noteq> a) l" "-1 \<le> i"
        "drop (nat (i + 1)) l' = filter (\<lambda>x. x \<noteq> a) (drop (nat (firingIndex st + 1)) l)"
      using remove_from_list_correct[OF z Cons.prems r] by blast+
    then show ?thesis using Some r unfolding st1_def listeners_def pending_def by simp
  qed
  have "filter (\<lambda>x. x \<notin> set as) (filter (\<lambda>x. x \<noteq> a) xs) = filter (\<lambda>x. x \<notin> set (a # as)) xs" for xs
    by (simp add: conj_commute)
  then show ?case using Cons.IH[of st1] st1 by (simp add: st1_def[symmetric])
qed simp

section \<open>Invariants of a firing\<close>

text \<open>
  A property of the list that every method call keeps and that does not depend on where the firing
  stands is kept by every firing, whatever the callbacks do.
\<close>

lemma cbs_commute: "st\<lparr>fired := g, firing := f\<rparr> = st\<lparr>firing := f, fired := g\<rparr>"
  by simp

locale firing_invariant =
  fixes opts :: cb_opts and P :: "('f, 'v) cbs \<Rightarrow> bool"
  assumes P_cmd: "P st \<Longrightarrow> exec_cmd opts c st = (st', ans, start) \<Longrightarrow> P st'"
    and P_frame: "P st \<Longrightarrow> P (st\<lparr>firingIndex := i, memory := m, queue := q, firing := f, fired := g\<rparr>)"
    and P_lock: "P st \<Longrightarrow> P (st\<lparr>locked := locked st \<or> once opts\<rparr>)"
    and P_spent: "P st \<Longrightarrow> l = None \<or> l = Some [] \<Longrightarrow> P (st\<lparr>cb_list := l\<rparr>)"
begin

lemma P_fields:
  assumes "P st"
  shows "P (st\<lparr>firingIndex := i\<rparr>)" "P (st\<lparr>firingIndex := i, memory := m\<rparr>)"
    "P (st\<lparr>firingIndex := i, memory := m, queue := q\<rparr>)" "P (st\<lparr>memory := m, firing := f\<rparr>)"
    "P (st\<lparr>memory := m, queue := q\<rparr>)" "P (st\<lparr>fired := g, firing := f\<rparr>)"
  using P_frame[OF assms, where i = i and m = "memory st" and q = "queue st" and f = "firing st" and g = "fired st"]
    P_frame[OF assms, where i = i and m = m and q = "queue st" and f = "firing st" and g = "fired st"]
    P_frame[OF assms, where i = i and m = m and q = q and f = "firing st" and g = "fired st"]
    P_frame[OF assms, where i = "firingIndex st" and m = m and q = "queue st" and f = f and g = "fired st"]
    P_frame[OF assms, where i = "firingIndex st" and m = m and q = q and f = "firing st" and g = "fired st"]
    P_frame[OF assms, where i = "firingIndex st" and m = "memory st" and q = "queue st" and f = f and g = g]
  by (simp_all add: cbs_commute)

lemma P_prog: "run_prog opts p st = (b, s, st') \<Longrightarrow> P st \<Longrightarrow> P st'"
proof (induction p arbitrary: st)
  case (Do c k)
  obtain st1 ans start where c: "exec_cmd opts c st = (st1, ans, start)" by (metis prod_cases3)
  then have "P st1" using Do.prems(2) P_cmd by blast
  then show ?case using Do.IH[of "k ans" st1] Do.prems(1) c by simp
qed simp_all

lemma P_end: "P st \<Longrightarrow> P (fire_end opts st)"
  by (simp add: fire_end_def Let_def P_fields P_spent)

lemma P_loop: "fire_loop opts beh n st s = Some (st', e, s') \<Longrightarrow> P st \<Longrightarrow> P st'"
proof (induction n arbitrary: st s)
  case (Suc n)
  let ?i = "firingIndex st + 1"
  show ?case
  proof (cases "?i < int (length (listeners st))")
    case True
    obtain v where v: "memory st = Some v" using Suc.prems(1) True by (auto simp: Let_def split: option.splits)
    obtain b s1 st1 where r: "run_prog opts (beh (listeners st ! nat ?i) v s) (st\<lparr>firingIndex := ?i\<rparr>) = (b, s1, st1)"
      by (metis prod_cases3)
    have "P st1" using P_prog[OF r] Suc.prems(2) P_fields by blast
    then show ?thesis using Suc True v r P_fields by (auto simp: Let_def split: if_splits option.splits)
  next
    case False
    then show ?thesis using Suc P_fields P_end by (auto simp: Let_def split: list.splits)
  qed
qed simp

lemma P_fire: "fire opts beh n st s = Some (st', e, s') \<Longrightarrow> P st \<Longrightarrow> P st'"
proof -
  assume f: "fire opts beh n st s = Some (st', e, s')" and "P st"
  define st1 where "st1 = st\<lparr>locked := locked st \<or> once opts, fired := True, firing := True\<rparr>"
  have P1: "P st1" unfolding st1_def using P_fields(6)[OF P_lock] \<open>P st\<close> by blast
  show "P st'"
  proof (cases "queue st1")
    case Nil
    then have "st' = fire_end opts st1" using f by (simp add: fire_def Let_def st1_def)
    then show ?thesis using P_end[OF P1] by simp
  next
    case (Cons v vs)
    then have "fire_loop opts beh n (st1\<lparr>memory := Some v, queue := vs\<rparr>) s = Some (st', e, s')"
      using f by (simp add: fire_def Let_def st1_def)
    then show ?thesis by (rule P_loop) (rule P_fields(5)[OF P1])
  qed
qed

lemma P_call: "call opts beh n c st s = Some (st', ans, s') \<Longrightarrow> P st \<Longrightarrow> P st'"
proof -
  assume c: "call opts beh n c st s = Some (st', ans, s')" and "P st"
  obtain st1 a start where e: "exec_cmd opts c st = (st1, a, start)" by (metis prod_cases3)
  have P1: "P st1" using P_cmd[OF \<open>P st\<close> e] .
  show "P st'"
  proof (cases start)
    case True
    then show ?thesis using c e P_fire[OF _ P1] by (auto simp: call_def)
  next
    case False
    then show ?thesis using c e P1 by (simp add: call_def)
  qed
qed

end

lemma listeners_fields [simp]:
  "listeners (st\<lparr>firingIndex := i\<rparr>) = listeners st" "listeners (st\<lparr>memory := m\<rparr>) = listeners st"
  "listeners (st\<lparr>queue := q\<rparr>) = listeners st" "listeners (st\<lparr>firing := f\<rparr>) = listeners st"
  "listeners (st\<lparr>fired := g\<rparr>) = listeners st" "listeners (st\<lparr>locked := h\<rparr>) = listeners st"
  "listeners (st\<lparr>cb_list := l\<rparr>) = (case l of None \<Rightarrow> [] | Some xs \<Rightarrow> xs)"
  by (simp_all add: listeners_def)

lemma remove_from_list_distinct:
  "distinct l \<Longrightarrow> remove_from_list a start l idx = (l', i') \<Longrightarrow> distinct l'"
proof (induction a start l idx arbitrary: l' i' rule: remove_from_list.induct)
  case (1 a start l idx)
  have "distinct (remove_at i l)" for i
    using "1.prems"(1) set_take_disj_set_drop_if_distinct[of l i "Suc i"] by (simp add: remove_at_def)
  then show ?case
    using 1 by (subst (asm) (2) remove_from_list.simps) (auto split: option.splits)
qed

lemma distinct_remove_all_args: "distinct (listeners st) \<Longrightarrow> distinct (listeners (remove_all_args as st))"
proof (induction as arbitrary: st)
  case (Cons a as)
  then show ?case
    by (auto simp: listeners_def remove_from_list_distinct split: option.splits prod.splits intro!: Cons.IH)
qed simp

lemma distinct_cmd:
  "unique opts \<Longrightarrow> distinct (listeners st) \<Longrightarrow> exec_cmd opts c st = (st', ans, start) \<Longrightarrow> distinct (listeners st')"
proof -
  assume u: "unique opts" and d: "distinct (listeners st)" and e: "exec_cmd opts c st = (st', ans, start)"
  show ?thesis
  proof (cases c)
    case (Add as)
    show ?thesis
    proof (cases "cb_list st")
      case None
      then show ?thesis using e d Add by simp
    next
      case (Some l)
      then have "listeners st' = add_args True as l" using e u Add by (auto simp: Let_def)
      then show ?thesis using d Some by (simp add: add_args_distinct listeners_def)
    qed
  next
    case (Remove as)
    then show ?thesis using e distinct_remove_all_args[OF d, of as] by simp
  next
    case (Has f)
    then show ?thesis using e d by (cases f) auto
  qed (use e d in \<open>auto simp: Let_def split: if_splits\<close>)
qed

interpretation uniq: firing_invariant opts "\<lambda>st. unique opts \<longrightarrow> distinct (listeners st)" for opts
  by unfold_locales (auto simp: distinct_cmd)

lemma locked_remove [simp]: "locked (remove_all_args as st) = locked st"
  by (induction as st rule: remove_all_args.induct) (auto split: option.splits prod.splits)

lemma locked_cmd: "locked st \<Longrightarrow> exec_cmd opts c st = (st', ans, start) \<Longrightarrow> locked st'"
  by (induction opts c st rule: exec_cmd.induct) (auto simp: Let_def split: option.splits if_splits)

interpretation lck: firing_invariant opts locked for opts
  by unfold_locales (auto simp: locked_cmd)

section \<open>Firing callbacks that leave the list alone\<close>

definition quiet :: "('f, 'v, 's) behaviour \<Rightarrow> ('f \<Rightarrow> 'v \<Rightarrow> 's \<Rightarrow> bool) \<Rightarrow> ('f \<Rightarrow> 'v \<Rightarrow> 's \<Rightarrow> 's) \<Rightarrow> bool" where
  "quiet beh ok nxt \<longleftrightarrow> (\<forall>f v s. beh f v s = Ret (ok f v s) (nxt f v s))"

text \<open>The callbacks in order, up to the first that returns \<open>false\<close> if that stops the list.\<close>

fun run_until ::
  "bool \<Rightarrow> ('f \<Rightarrow> 'v \<Rightarrow> 's \<Rightarrow> bool) \<Rightarrow> ('f \<Rightarrow> 'v \<Rightarrow> 's \<Rightarrow> 's) \<Rightarrow> 'v \<Rightarrow> 'f list \<Rightarrow> 's \<Rightarrow> 's \<times> bool" where
  "run_until stop ok nxt v [] s = (s, False)"
| "run_until stop ok nxt v (f # fs) s =
     (if stop \<and> \<not> ok f v s then (nxt f v s, True) else run_until stop ok nxt v fs (nxt f v s))"

lemma run_until_all: "run_until False ok nxt v fs s = (fold (\<lambda>f. nxt f v) fs s, False)"
  by (induction fs arbitrary: s) auto

lemma memory_index: "st\<lparr>memory := m, firingIndex := i\<rparr> = st\<lparr>firingIndex := i, memory := m\<rparr>"
  by simp

lemma fire_loop_quiet:
  assumes q: "quiet beh ok nxt"
  shows "firingIndex st = int (length done) - 1 \<Longrightarrow> listeners st = done @ fs \<Longrightarrow> memory st = Some v \<Longrightarrow>
    queue st = [] \<Longrightarrow> length fs < n \<Longrightarrow>
    fire_loop opts beh n st s =
      (case run_until (stopOnFalse opts) ok nxt v fs s of
         (s', stopped) \<Rightarrow>
           Some (fire_end opts (st\<lparr>firingIndex := -1, memory := (if stopped then None else Some v)\<rparr>), True, s'))"
proof (induction fs arbitrary: "done" st s n)
  case Nil
  then obtain m where n: "n = Suc m" by (cases n) auto
  have "fire_end opts (st\<lparr>firingIndex := -1, memory := Some v\<rparr>) = fire_end opts (st\<lparr>firingIndex := -1\<rparr>)"
    using Nil(3) by (simp add: fire_end_def Let_def)
  with Nil n show ?case by simp
next
  case (Cons f fs)
  then obtain m where n: "n = Suc m" "length fs < m" by (cases n) auto
  have f: "listeners st ! nat (firingIndex st + 1) = f" "firingIndex st + 1 < int (length (listeners st))"
    using Cons.prems by simp_all
  let ?st1 = "st\<lparr>firingIndex := firingIndex st + 1\<rparr>"
  have beh: "beh f v s = Ret (ok f v s) (nxt f v s)" using q by (simp add: quiet_def)
  show ?case
  proof (cases "stopOnFalse opts \<and> \<not> ok f v s")
    case True
    obtain k where m: "m = Suc k" using n(2) by (cases m) auto
    have "fire_loop opts beh n st s =
        fire_loop opts beh m (?st1\<lparr>firingIndex := int (length (listeners st)), memory := None\<rparr>) (nxt f v s)"
      using True f beh Cons.prems(3) by (simp add: n)
    also have "\<dots> = Some (fire_end opts (st\<lparr>firingIndex := -1, memory := None\<rparr>), True, nxt f v s)"
      using Cons.prems(4) by (simp add: m memory_index)
    finally show ?thesis using True by simp
  next
    case False
    have "fire_loop opts beh n st s = fire_loop opts beh m ?st1 (nxt f v s)"
      using False f beh Cons.prems(3) by (auto simp add: n Let_def)
    also have "\<dots> = (case run_until (stopOnFalse opts) ok nxt v fs (nxt f v s) of
         (s', stopped) \<Rightarrow>
           Some (fire_end opts (?st1\<lparr>firingIndex := -1, memory := (if stopped then None else Some v)\<rparr>), True, s'))"
      by (rule Cons.IH[of "?st1" "done @ [f]"]) (use Cons.prems n in simp_all)
    also have "run_until (stopOnFalse opts) ok nxt v fs (nxt f v s) = run_until (stopOnFalse opts) ok nxt v (f # fs) s"
      using False by auto
    finally show ?thesis by simp
  qed
qed

definition idle :: "('f, 'v) cbs \<Rightarrow> bool" where
  "idle st \<longleftrightarrow> \<not> firing st \<and> queue st = [] \<and> firingIndex st = -1"

lemma idle_Callbacks: "idle Callbacks"
  by (simp add: idle_def Callbacks_def)

lemma firing_remove [simp]: "firing (remove_all_args as st) = firing st"
  by (induction as st rule: remove_all_args.induct) (auto split: option.splits prod.splits)

lemma firing_cmd: "exec_cmd opts c st = (st', ans, start) \<Longrightarrow> firing st' = firing st"
  by (induction opts c st rule: exec_cmd.induct) (auto simp: Let_def split: option.splits if_splits)

lemma firing_prog: "run_prog opts p st = (b, s, st') \<Longrightarrow> firing st' = firing st"
proof (induction p arbitrary: st)
  case (Do c k)
  obtain st1 ans start where c: "exec_cmd opts c st = (st1, ans, start)" by (metis prod_cases3)
  then have "run_prog opts (k ans) st1 = (b, s, st')" using Do.prems by simp
  then show ?case using Do.IH[OF rangeI] firing_cmd[OF c] by metis
qed simp_all

lemma idle_fire_end: "queue st = [] \<Longrightarrow> idle (fire_end opts (st\<lparr>firingIndex := -1\<rparr>))"
  by (simp add: idle_def fire_end_def Let_def)

text \<open>A firing that comes to its end leaves the list at rest, one that throws leaves it firing.\<close>

lemma fire_loop_end:
  "fire_loop opts beh n st s = Some (st', e, s') \<Longrightarrow> firing st \<Longrightarrow> if e then idle st' else firing st'"
proof (induction n arbitrary: st s)
  case (Suc n)
  let ?i = "firingIndex st + 1"
  show ?case
  proof (cases "?i < int (length (listeners st))")
    case True
    obtain v where v: "memory st = Some v" using Suc.prems(1) True by (auto simp: Let_def split: option.splits)
    obtain b s1 st1 where r: "run_prog opts (beh (listeners st ! nat ?i) v s) (st\<lparr>firingIndex := ?i\<rparr>) = (b, s1, st1)"
      by (metis prod_cases3)
    have "firing st1" using firing_prog[OF r] Suc.prems(2) by simp
    then show ?thesis
      using Suc.prems True v r
        Suc.IH[of "if \<not> the b \<and> stopOnFalse opts
          then st1\<lparr>firingIndex := int (length (listeners st1)), memory := None\<rparr> else st1" s1]
      by (cases b) (auto simp: Let_def split: if_splits)
  next
    case False
    show ?thesis
    proof (cases "queue st")
      case Nil
      then show ?thesis using Suc.prems(1) False idle_fire_end[of st opts] by (auto simp: Let_def)
    next
      case (Cons v vs)
      then show ?thesis
        using Suc.prems False Suc.IH[of "st\<lparr>firingIndex := -1, memory := Some v, queue := vs\<rparr>" s]
        by (auto simp: Let_def)
    qed
  qed
qed simp

text \<open>A list that is firing calls nothing, whatever method is called.\<close>

lemma stuck_call:
  assumes "firing st"
  shows "\<exists>st' ans. call opts beh n c st s = Some (st', Some ans, s) \<and> firing st'"
proof -
  obtain st1 a start where e: "exec_cmd opts c st = (st1, a, start)" by (metis prod_cases3)
  have "\<not> start"
    using e assms by (induction opts c st rule: exec_cmd.induct) (auto simp: Let_def split: option.splits if_splits)
  then show ?thesis using e assms firing_cmd[OF e] by (simp add: call_def)
qed

lemma remove_from_list_idle: "remove_from_list a start l (-1) = (l', i') \<Longrightarrow> i' = -1"
proof (induction a start l "-1 :: int" arbitrary: l' i' rule: remove_from_list.induct)
  case (1 a start l)
  then show ?case by (subst (asm) (2) remove_from_list.simps) (auto split: option.splits)
qed

lemma remove_all_args_idle: "firingIndex st = -1 \<Longrightarrow> firingIndex (remove_all_args as st) = -1"
proof (induction as arbitrary: st)
  case (Cons a as)
  then show ?case by (auto split: option.splits prod.splits dest: remove_from_list_idle intro!: Cons.IH)
qed simp

lemma remove_all_args_frame:
  "firing (remove_all_args as t) = firing t \<and> queue (remove_all_args as t) = queue t"
  by (induction as t rule: remove_all_args.induct) (auto split: option.splits prod.splits)

lemma call_fires:
  assumes "exec_cmd opts c st = (st1, a, True)" "idle st"
  shows "\<exists>v. queue st1 = [v] \<and> -1 \<le> firingIndex st1"
  using assms
  by (induction opts c st rule: exec_cmd.induct) (auto simp: Let_def idle_def split: option.splits if_splits)

lemma idle_cmd:
  assumes "exec_cmd opts c st = (st1, a, False)" "idle st"
  shows "idle st1"
proof (cases c)
  case (Remove as)
  have "\<not> firing st \<and> queue st = [] \<and> firingIndex st = -1" using assms(2) by (simp add: idle_def)
  moreover have "firing (remove_all_args as st) = firing st \<and> queue (remove_all_args as st) = queue st"
    by (rule remove_all_args_frame)
  moreover have "firingIndex (remove_all_args as st) = -1"
    using assms(2) by (simp add: remove_all_args_idle idle_def)
  moreover have "st1 = remove_all_args as st" using assms(1) Remove by simp
  ultimately show ?thesis by (simp add: idle_def)
next
  case (Has f)
  then show ?thesis using assms by (cases f) auto
qed (use assms in \<open>auto simp: Let_def idle_def split: option.splits if_splits\<close>)

lemma call_end:
  assumes "call opts beh n c st s = Some (st', r, s')" "idle st"
  shows "if r = None then firing st' else idle st'"
proof -
  obtain st1 a start where e: "exec_cmd opts c st = (st1, a, start)" by (metis prod_cases3)
  show ?thesis
  proof (cases start)
    case True
    then obtain v where q: "queue st1 = [v]" using call_fires[of opts c st st1 a] e True assms(2) by auto
    obtain st2 e' where "fire_loop opts beh n st2 s = Some (st', e', s')" "firing st2"
        "r = (if e' then Some a else None)"
      using assms(1) e True q by (auto simp: call_def fire_def Let_def)
    then show ?thesis using fire_loop_end by (cases e') fastforce+
  next
    case False
    then have "st' = st1" "r = Some a" using assms(1) e by (simp_all add: call_def)
    then show ?thesis using idle_cmd e False assms(2) by auto
  qed
qed

text \<open>
  Callbacks that neither add callbacks nor fire the list keep a firing short: what is still to be
  called only narrows.
\<close>

fun passive_cmd :: "('f, 'v) cmd \<Rightarrow> bool" where
  "passive_cmd (Add as) = False"
| "passive_cmd (FireWith v) = False"
| "passive_cmd c = True"

primrec passive_prog :: "('f, 'v, 's) prog \<Rightarrow> bool" where
  "passive_prog (Ret b s) = True"
| "passive_prog (Throw s) = True"
| "passive_prog (Do c k) = (passive_cmd c \<and> passive_prog (k True) \<and> passive_prog (k False))"

definition passive_beh :: "('f, 'v, 's) behaviour \<Rightarrow> bool" where
  "passive_beh beh \<longleftrightarrow> (\<forall>f v s. passive_prog (beh f v s))"

definition narrows :: "('f, 'v) cbs \<Rightarrow> ('f, 'v) cbs \<Rightarrow> bool" where
  "narrows st st' \<longleftrightarrow> length (pending st') \<le> length (pending st) \<and> (queue st = [] \<longrightarrow> queue st' = []) \<and>
     (-1 \<le> firingIndex st \<longrightarrow> -1 \<le> firingIndex st') \<and>
     ((memory st = None \<longrightarrow> pending st = []) \<longrightarrow> memory st' = None \<longrightarrow> pending st' = [])"

lemma memory_remove [simp]: "memory (remove_all_args as st) = memory st"
  by (induction as st rule: remove_all_args.induct) (auto split: option.splits prod.splits)

lemma narrows_cmd:
  assumes "exec_cmd opts c st = (st', ans, start)" "passive_cmd c" "-1 \<le> firingIndex st"
  shows "narrows st st'"
proof (cases c)
  case (Remove as)
  then have "st' = remove_all_args as st" using assms(1) by simp
  then show ?thesis
    using remove_all_args_correct[OF assms(3), of as] remove_all_args_frame[of as st]
    by (simp add: narrows_def)
next
  case (Has f)
  then show ?thesis using assms(1) by (cases f) (auto simp: narrows_def)
qed (use assms in \<open>auto simp: narrows_def pending_def listeners_def Let_def split: if_splits\<close>)

lemma narrows_trans: "narrows a b \<Longrightarrow> narrows b c \<Longrightarrow> narrows a c"
  by (auto simp: narrows_def)

lemma narrows_prog:
  "run_prog opts p st = (b, s, st') \<Longrightarrow> passive_prog p \<Longrightarrow> -1 \<le> firingIndex st \<Longrightarrow> narrows st st'"
proof (induction p arbitrary: st)
  case (Do c k)
  obtain st1 ans start where c: "exec_cmd opts c st = (st1, ans, start)" by (metis prod_cases3)
  have s1: "narrows st st1" using narrows_cmd[OF c] Do.prems by simp
  have "run_prog opts (k ans) st1 = (b, s, st')" using Do.prems(1) c by simp
  moreover have "passive_prog (k ans)" using Do.prems(2) by (cases ans) auto
  moreover have "-1 \<le> firingIndex st1" using s1 Do.prems(3) by (simp add: narrows_def)
  ultimately show ?case using Do.IH[of "k ans" st1] narrows_trans[OF s1] by blast
qed (simp_all add: narrows_def)

lemma fire_loop_ends:
  assumes p: "passive_beh beh"
  shows "-1 \<le> firingIndex st \<Longrightarrow> (memory st = None \<Longrightarrow> pending st = []) \<Longrightarrow> queue st = [] \<Longrightarrow>
    length (pending st) < n \<Longrightarrow> fire_loop opts beh n st s \<noteq> None"
proof (induction n arbitrary: st s)
  case (Suc n)
  let ?i = "firingIndex st + 1"
  let ?st = "st\<lparr>firingIndex := ?i\<rparr>"
  show ?case
  proof (cases "?i < int (length (listeners st))")
    case True
    then have pend: "length (pending st) = Suc (length (pending ?st))"
      using Suc.prems(1) by (simp add: pending_def nat_add_distrib Suc_diff_Suc)
    then obtain v where v: "memory st = Some v" using Suc.prems(2) by fastforce
    obtain b s1 st1 where r: "run_prog opts (beh (listeners st ! nat ?i) v s) ?st = (b, s1, st1)"
      by (metis prod_cases3)
    have "narrows ?st st1"
      using narrows_prog[OF r] p Suc.prems(1) by (simp add: passive_beh_def)
    then have st1: "length (pending st1) < n" "-1 \<le> firingIndex st1" "queue st1 = []"
        "memory st1 = None \<longrightarrow> pending st1 = []"
      using Suc.prems pend v by (auto simp: narrows_def)
    have stop: "pending (st1\<lparr>firingIndex := int (length (listeners st1)), memory := None\<rparr>) = []"
      by (simp add: pending_def)
    have "0 < n" using st1(1) by simp
    then show ?thesis
      using True v r st1 Suc.IH[of st1 s1]
        Suc.IH[of "st1\<lparr>firingIndex := int (length (listeners st1)), memory := None\<rparr>" s1] stop
      by (cases b) (auto simp: Let_def)
  next
    case False
    then show ?thesis using Suc.prems(3) by (simp add: Let_def)
  qed
qed simp

lemma call_ends:
  assumes "passive_beh beh" "idle st" "length (listeners (fst (exec_cmd opts c st))) < n"
  shows "call opts beh n c st s \<noteq> None"
proof -
  obtain st1 a start where e: "exec_cmd opts c st = (st1, a, start)" by (metis prod_cases3)
  show ?thesis
  proof (cases start)
    case True
    then obtain v where q: "queue st1 = [v]" "-1 \<le> firingIndex st1" using call_fires[of opts c st st1 a] e True assms(2) by auto
    let ?st = "st1\<lparr>locked := locked st1 \<or> once opts, fired := True, firing := True, memory := Some v, queue := []\<rparr>"
    have "length (pending ?st) < n" using assms(3) e by (simp add: pending_def)
    then have "fire_loop opts beh n ?st s \<noteq> None"
      using fire_loop_ends[OF assms(1), of ?st] q(2) by simp
    then show ?thesis using e True q(1) by (simp add: call_def fire_def Let_def)
  next
    case False
    then show ?thesis using e by (simp add: call_def)
  qed
qed

lemma call_FireWith:
  assumes "quiet beh ok nxt" "idle st" "\<not> locked st" "length (listeners st) < n"
  shows "\<exists>st'. call opts beh n (FireWith v) st s =
    Some (st', Some True, fst (run_until (stopOnFalse opts) ok nxt v (listeners st) s)) \<and>
    (locked st' \<longleftrightarrow> once opts) \<and> fired st' \<and>
    (memory st' = Some v \<longleftrightarrow>
       keep_memory opts \<and> \<not> snd (run_until (stopOnFalse opts) ok nxt v (listeners st) s))"
proof -
  let ?st1 = "st\<lparr>locked := once opts, fired := True, firing := True, memory := Some v, queue := []\<rparr>"
  obtain s' stopped where r: "run_until (stopOnFalse opts) ok nxt v (listeners st) s = (s', stopped)" by fastforce
  have "fire_loop opts beh n ?st1 s =
      Some (fire_end opts (?st1\<lparr>firingIndex := -1, memory := (if stopped then None else Some v)\<rparr>), True, s')"
    using fire_loop_quiet[OF assms(1), of ?st1 "[]" "listeners st" v n opts s] assms(2,4) r
    by (simp add: idle_def)
  moreover have "call opts beh n (FireWith v) st s = map_option (\<lambda>(st'', ended, s'). (st'', if ended then Some True else None, s')) (fire_loop opts beh n ?st1 s)"
    using assms(2,3) by (simp add: call_def fire_def Let_def idle_def)
  ultimately show ?thesis by (simp add: r fire_end_def Let_def)
qed

lemma call_Add_memory:
  assumes "quiet beh ok nxt" "idle st" "cb_list st = Some l" "memory st = Some v"
    and "length (added (unique opts) as l) < n"
  shows "\<exists>st'. call opts beh n (Add as) st s =
    Some (st', Some True, fst (run_until (stopOnFalse opts) ok nxt v (added (unique opts) as l) s))"
proof -
  let ?new = "added (unique opts) as l"
  let ?st1 = "st\<lparr>firingIndex := int (length l) - 1, cb_list := Some (l @ ?new),
      locked := locked st \<or> once opts, fired := True, firing := True, memory := Some v, queue := []\<rparr>"
  obtain s' stopped where r: "run_until (stopOnFalse opts) ok nxt v ?new s = (s', stopped)" by fastforce
  have "fire_loop opts beh n ?st1 s =
      Some (fire_end opts (?st1\<lparr>firingIndex := -1, memory := (if stopped then None else Some v)\<rparr>), True, s')"
    using fire_loop_quiet[OF assms(1), of ?st1 l ?new v n opts s] assms(5) r by simp
  moreover have "call opts beh n (Add as) st s = map_option (\<lambda>(st'', ended, s'). (st'', if ended then Some True else None, s')) (fire_loop opts beh n ?st1 s)"
    using assms(2,3,4) by (simp add: call_def fire_def Let_def idle_def add_args_added)
  ultimately show ?thesis by (simp add: r)
qed

section \<open>Properties\<close>

text \<open>
  C13. Firing an idle, unlocked list of callbacks that do not touch the list calls each of them once,
  in the order they were added, with the value fired, up to the first that returns \<open>false\<close> when
  \<open>stopOnFalse\<close> is set; enough fuel is one unit for each callback and one more.  With \<open>once\<close> the list
  is then locked, and with \<open>memory\<close> it remembers the value unless it was stopped.
\<close>

theorem fire_calls_in_order:
  assumes "quiet beh ok nxt" and "idle st" and "\<not> locked st" and "length (listeners st) < n"
  shows "\<exists>st'. call opts beh n (FireWith v) st s =
    Some (st', Some True, fst (run_until (stopOnFalse opts) ok nxt v (listeners st) s)) \<and>
    (locked st' \<longleftrightarrow> once opts) \<and> fired st' \<and>
    (memory st' = Some v \<longleftrightarrow>
       keep_memory opts \<and> \<not> snd (run_until (stopOnFalse opts) ok nxt v (listeners st) s))"
  by (rule call_FireWith[OF assms])

definition logging :: "(nat, nat, (nat \<times> nat) list) behaviour" where
  "logging f v s = Ret True (s @ [(f, v)])"

definition two_callbacks :: "(nat, nat) cbs" where
  "two_callbacks = Callbacks\<lparr>cb_list := Some [7, 8]\<rparr>"

lemma quiet_logging: "quiet logging (\<lambda>f v s. True) (\<lambda>f v s. s @ [(f, v)])"
  by (simp add: quiet_def logging_def)

theorem fire_calls_in_order_witness:
  "map_option (\<lambda>(st, ans, s). s) (call (createOptions ''once memory'') logging 3 (FireWith 5) two_callbacks []) =
     Some [(7, 5), (8, 5)]"
proof -
  have "idle two_callbacks" "\<not> locked two_callbacks" "listeners two_callbacks = [7, 8]"
    by (simp_all add: two_callbacks_def Callbacks_def idle_def listeners_def)
  then show ?thesis
    using fire_calls_in_order[OF quiet_logging, of two_callbacks 3 "createOptions ''once memory''" 5 "[]"]
    by (auto simp: run_until_all run_until.simps)
qed

text \<open>
  A callback added to a list that remembers a value is called with that value at once, and only
  the callbacks just added are; a callback that a \<open>unique\<close> list already holds is neither added nor
  called again.
\<close>

theorem add_replays_memory:
  assumes "quiet beh ok nxt" and "idle st" and "cb_list st = Some l" and "memory st = Some v"
    and "length (added (unique opts) as l) < n"
  shows "(\<exists>st'. call opts beh n (Add as) st s =
      Some (st', Some True, fst (run_until (stopOnFalse opts) ok nxt v (added (unique opts) as l) s))) \<and>
    added True [FunArg f] l = (if f \<in> set l then [] else [f])"
  using call_Add_memory[OF assms] by (auto simp: added_def)

theorem add_replays_memory_witness:
  "map_option (\<lambda>(st, ans, s). s)
     (call (createOptions ''memory unique'') logging 2 (Add [FunArg 8, FunArg 9]) (two_callbacks\<lparr>memory := Some 5\<rparr>) []) =
   Some [(9, 5)]"
proof -
  let ?st = "two_callbacks\<lparr>memory := Some 5\<rparr>" and ?o = "createOptions ''memory unique''"
  have st: "idle ?st" "cb_list ?st = Some [7, 8]" "memory ?st = Some 5"
    by (simp_all add: two_callbacks_def Callbacks_def idle_def listeners_def)
  have o: "unique ?o" by (simp add: createOptions_def rnothtmlwhite_def html_space_def)
  then have a: "added (unique ?o) [FunArg 8, FunArg 9] [7, 8 :: nat] = [9]" by (simp add: added_def)
  show ?thesis
    using add_replays_memory[OF quiet_logging st, where f = 0 and n = 2 and s = "[]" and opts = ?o and
        as = "[FunArg 8, FunArg 9]"] by (auto simp: a)
qed

text \<open>
  C14. A method called on a list at rest, whatever the callbacks it calls do, methods of the list and
  exceptions included: a list with \<open>unique\<close> never holds a callback twice and a lock is never undone.
  If no callback throws, the list is at rest again, with nothing queued.  If one does, the list is
  left in the middle of its firing, and from then on no method, \<open>fire\<close> included, calls a callback
  again.  When the callbacks neither add callbacks nor fire the list, the call ends, with one unit of
  fuel for each callback and one more.
\<close>

theorem callbacks_invariants:
  assumes "idle st" and "distinct (listeners st)"
  shows "(passive_beh beh \<longrightarrow> length (listeners (fst (exec_cmd opts c st))) < n \<longrightarrow> call opts beh n c st s \<noteq> None) \<and>
    (\<forall>st' r s'. call opts beh n c st s = Some (st', r, s') \<longrightarrow>
      (unique opts \<longrightarrow> distinct (listeners st')) \<and> (locked st \<longrightarrow> locked st') \<and>
      (r \<noteq> None \<longrightarrow> idle st') \<and>
      (r = None \<longrightarrow> firing st' \<and>
         (\<forall>m c' s2. \<exists>st2 ans. call opts beh m c' st' s2 = Some (st2, Some ans, s2) \<and> firing st2)))"
proof (intro conjI impI allI)
  fix st' r s'
  assume c: "call opts beh n c st s = Some (st', r, s')"
  show "distinct (listeners st')" if "unique opts" using uniq.P_call[OF c] assms(2) that by blast
  show "locked st'" if "locked st" using lck.P_call[OF c that] .
  show "idle st'" if "r \<noteq> None" using call_end[OF c assms(1)] that by simp
  show f: "firing st'" if "r = None" using call_end[OF c assms(1)] that by simp
  show "\<exists>st2 ans. call opts beh m c' st' s2 = Some (st2, Some ans, s2) \<and> firing st2" if "r = None" for m c' s2
    by (rule stuck_call[OF f[OF that]])
qed (rule call_ends[OF _ assms(1)])

text \<open>Of two callbacks the second throws; fired again, the list calls neither.\<close>

definition throwing :: "(nat, nat, (nat \<times> nat) list) behaviour" where
  "throwing f v s = (if f = 8 then Throw (s @ [(f, v)]) else Ret True (s @ [(f, v)]))"

theorem callbacks_invariants_witness:
  "\<exists>st1 st2. call (createOptions ''unique'') throwing 3 (FireWith 5) two_callbacks [] =
      Some (st1, None, [(7, 5), (8, 5)]) \<and>
    call (createOptions ''unique'') throwing 3 (FireWith 6) st1 [(7, 5), (8, 5)] =
      Some (st2, Some True, [(7, 5), (8, 5)])"
proof -
  let ?o = "createOptions ''unique''"
  have st: "idle two_callbacks" "distinct (listeners two_callbacks)"
    by (simp_all add: two_callbacks_def Callbacks_def idle_def listeners_def)
  obtain st1 where c: "call ?o throwing 3 (FireWith 5) two_callbacks [] = Some (st1, None, [(7, 5), (8, 5)])"
    by (simp add: call_def fire_def two_callbacks_def Callbacks_def listeners_def throwing_def
        numeral_3_eq_3 Let_def)
  then obtain st2 ans where c2: "call ?o throwing 3 (FireWith 6) st1 [(7, 5), (8, 5)] = Some (st2, Some ans, [(7, 5), (8, 5)])"
    using callbacks_invariants[OF st, of throwing ?o "FireWith 5" 3 "[]"] by blast
  then have ans by (auto simp: call_def split: prod.splits if_splits option.splits)
  with c c2 show ?thesis by auto
qed

text \<open>
  While a list is firing, removing callbacks drops exactly them from those still to be called, so
  that none is skipped or called twice; callbacks that are added come after them.
\<close>

theorem firing_position_kept:
  assumes "-1 \<le> firingIndex st" and "firing st" and "firingIndex st < int (length (listeners st))"
    and "cb_list st = Some l"
  shows "pending (fst (exec_cmd opts (Remove rs) st)) = filter (\<lambda>f. f \<notin> set rs) (pending st) \<and>
    pending (fst (exec_cmd opts (Add as) st)) = pending st @ added (unique opts) as l"
proof
  show "pending (fst (exec_cmd opts (Remove rs) st)) = filter (\<lambda>f. f \<notin> set rs) (pending st)"
    using remove_all_args_correct[OF assms(1), of rs] by simp
  show "pending (fst (exec_cmd opts (Add as) st)) = pending st @ added (unique opts) as l"
    using assms by (simp add: pending_def Let_def add_args_added listeners_def)
qed

theorem firing_position_kept_witness:
  "pending (fst (exec_cmd (createOptions ''unique'') (Remove [7]) (two_callbacks\<lparr>firing := True, firingIndex := 0\<rparr>))) = [8]"
proof -
  let ?st = "two_callbacks\<lparr>firing := True, firingIndex := 0\<rparr>"
  have "-1 \<le> firingIndex ?st" "firing ?st" "firingIndex ?st < int (length (listeners ?st))" "cb_list ?st = Some [7, 8]"
    by (simp_all add: two_callbacks_def)
  from firing_position_kept[OF this, of "createOptions ''unique''" "[7]" "[]"] show ?thesis by (simp add: pending_def two_callbacks_def)
qed

text \<open>
  Emptying the list does not move the position back: a callback added after that, in the same firing,
  is not called, although one added without emptying is.
\<close>

lemma empty_loses_added:
  assumes "0 \<le> firingIndex st" "cb_list st = Some l"
  shows "pending (fst (exec_cmd opts (Add [FunArg f]) (fst (exec_cmd opts Empty (st\<lparr>firing := True\<rparr>))))) = []"
  using assms by (simp add: pending_def Let_def)

end
