(* ===== verification/JqDeferred.thy ===== *)
theory JqDeferred
  imports JqCallbacks
begin

text \<open>
  Deferreds and promises in \<open>jquery.js\<close> (\<open>jQuery.Deferred\<close>, \<open>then\<close>, \<open>pipe\<close>, \<open>jQuery.when\<close>,
  \<open>adoptValue\<close>), as a machine with a stack of calls in progress: the six callback lists of a deferred
  are lists of theory \<open>JqCallbacks\<close>, a function of the program is a tree of calls that may look at the
  results and exceptions of the earlier ones, and timers wait until the stack is empty.  Values that
  are not objects of this module are scalars, taken as truthy; the context in which callbacks are
  called is not modelled.
\<close>

section \<open>Values and functions\<close>

datatype action = Notify | Resolve | Reject

text \<open>The lists of a deferred: the third and the fourth column of \<open>tuples\<close>.\<close>

datatype lref = Listeners action | Handlers action

datatype status = Pending | Resolved | Rejected

text \<open>
  \<open>Resolver\<close>: a closure of \<open>resolve(0, deferred, handler, special)\<close> within a call of \<open>then\<close>, which is
  the first number.  \<open>Settler\<close>: one of \<open>resolve(maxDepth, deferred, Identity, special)\<close>, or with
  \<open>Thrower\<close>; its numbers are the call of \<open>then\<close>, the depth and the deferred.  \<open>Act\<close>: \<open>notify\<close>, \<open>resolve\<close> or \<open>reject\<close> of a deferred.  \<open>Piped\<close>: the callback of
  \<open>pipe\<close>.  \<open>Update\<close>: a closure of \<open>updateFunc\<close> of a call of \<open>when\<close>.
\<close>

datatype val = Undefined | Scalar nat | TypeError | StateText status | Array "val list"
    | DeferredObj nat | PromiseObj nat | ThenableObj nat | FnVal fn
  and fn = User nat | Resolver nat nat handler bool | Settler nat nat nat bool bool | Act nat action
    | Piped nat action handler | Update nat nat
  and handler = Identity | Thrower | Handler fn

text \<open>What a list of a deferred holds: the callbacks it starts with, and those that were added.\<close>

datatype callback = SetState nat status | DisableList nat lref | LockList nat lref | FireList nat lref
  | Callback fn

text \<open>The deferred whose methods a value has.\<close>

fun promise_of :: "val \<Rightarrow> nat option" where
  "promise_of (DeferredObj d) = Some d"
| "promise_of (PromiseObj d) = Some d"
| "promise_of v = None"

definition thenable :: "val \<Rightarrow> bool" where
  "thenable v \<longleftrightarrow> promise_of v \<noteq> None \<or> (\<exists>u. v = ThenableObj u)"

lemma thenable_code [code]:
  "thenable v = (case v of DeferredObj d \<Rightarrow> True | PromiseObj d \<Rightarrow> True | ThenableObj u \<Rightarrow> True | _ \<Rightarrow> False)"
  by (cases v) (auto simp: thenable_def)

fun to_arg :: "val \<Rightarrow> callback cb_arg" where
  "to_arg (FnVal f) = FunArg (Callback f)"
| "to_arg (Array vs) = ListArg (map to_arg vs)"
| "to_arg v = OtherArg"

definition first_arg :: "val list \<Rightarrow> val" where
  "first_arg args = (case args of [] \<Rightarrow> Undefined | v # vs \<Rightarrow> v)"

text \<open>\<open>isFunction(f) ? f : Identity\<close> (or \<open>Thrower\<close>).\<close>

definition handler_of :: "val \<Rightarrow> handler \<Rightarrow> handler" where
  "handler_of v h = (case v of FnVal f \<Rightarrow> Handler f | _ \<Rightarrow> h)"

section \<open>State\<close>

record deferred =
  state :: status
  lists :: "lref \<Rightarrow> (callback, val list) cbs"

definition list_opts :: "lref \<Rightarrow> cb_opts" where
  "list_opts l =
     createOptions (if l = Listeners Notify \<or> l = Handlers Notify then ''memory'' else ''once memory'')"

definition initial_callbacks :: "nat \<Rightarrow> lref \<Rightarrow> callback list" where
  "initial_callbacks d l =
     (case l of
        Listeners Notify \<Rightarrow> [FireList d (Handlers Notify)]
      | Listeners Resolve \<Rightarrow>
          [SetState d Resolved, DisableList d (Listeners Reject), LockList d (Listeners Notify), FireList d (Handlers Resolve)]
      | Listeners Reject \<Rightarrow>
          [SetState d Rejected, DisableList d (Listeners Resolve), LockList d (Listeners Notify), FireList d (Handlers Reject)]
      | Handlers a \<Rightarrow> [])"

definition new_deferred :: "nat \<Rightarrow> deferred" where
  "new_deferred d =
     \<lparr>state = Pending, lists = (\<lambda>l. fst (exec_cmd (list_opts l) (Add (map FunArg (initial_callbacks d l))) Callbacks))\<rparr>"

record aggregate =
  remaining :: int
  resolveValues :: "val list"
  master :: nat

text \<open>
  Programs of the page.  An operation answers with a result (\<open>Inr\<close>) or an exception (\<open>Inl\<close>).  \<open>Fire\<close>:
  \<open>notify\<close>, \<open>resolve\<close>, \<open>reject\<close>; \<open>AddTo\<close>: \<open>progress\<close>, \<open>done\<close>, \<open>fail\<close>.
\<close>

datatype op = NewDeferred val | PromiseMethod val | StateMethod val | AddTo val action "val list"
  | Always val "val list" | Fire val action "val list" | Then val val val val | Pipe val val val val
  | When "val list" | CallFn val "val list"

datatype uprog = Finish val | Throw val | Op op "val + val \<Rightarrow> uprog"

text \<open>
  Calls in progress: a program waiting for its operation, the firing of a list, the call of a handler
  in \<open>mightThrow\<close>, the \<open>try\<close> of \<open>process\<close>, a call whose result is dropped, calls of \<open>add\<close> that are left
  before a value is returned, and the parts of \<open>pipe\<close>, \<open>adoptValue\<close> and \<open>when\<close> behind a call.
\<close>

datatype frame = Wait "val + val \<Rightarrow> uprog" | Firing nat lref | After nat nat nat handler bool "val list"
  | Catch nat nat nat handler "val list" | Discard | Rest "(nat \<times> lref \<times> callback cb_arg list) list" val
  | AfterPipe nat action | AdoptCatch fn | WhenAdopt nat nat val | WhenCheck nat nat | WhenLoop nat nat

datatype control = Run uprog | Call fn "val list" | Return val | Raise val | Quiet

datatype timer = Timer nat nat nat handler bool "val list"

datatype event = Called nat lref fn "val list" | HandlerCalled nat fn "val list" | Uncaught val

record config =
  deferreds :: "nat \<Rightarrow> deferred"
  next_deferred :: nat
  maxDepth :: "nat \<Rightarrow> nat"
  next_then :: nat
  aggregates :: "nat \<Rightarrow> aggregate"
  next_when :: nat
  timers :: "timer list"
  stack :: "frame list"
  control :: control
  log :: "event list"

text \<open>Objects have their initial state before they are created, too; creating one is counting it.\<close>

definition initial :: config where
  "initial = \<lparr>deferreds = new_deferred, next_deferred = 0, maxDepth = (\<lambda>t. 0), next_then = 0,
     aggregates = (\<lambda>w. \<lparr>remaining = 0, resolveValues = [], master = 0\<rparr>), next_when = 0,
     timers = [], stack = [], control = Quiet, log = []\<rparr>"

definition the_list :: "config \<Rightarrow> nat \<Rightarrow> lref \<Rightarrow> (callback, val list) cbs" where
  "the_list c d l = lists (deferreds c d) l"

definition set_list :: "nat \<Rightarrow> lref \<Rightarrow> (callback, val list) cbs \<Rightarrow> config \<Rightarrow> config" where
  "set_list d l st c =
     c\<lparr>deferreds := (deferreds c)(d := deferreds c d\<lparr>lists := (lists (deferreds c d))(l := st)\<rparr>)\<rparr>"

definition set_state :: "nat \<Rightarrow> status \<Rightarrow> config \<Rightarrow> config" where
  "set_state d s c = c\<lparr>deferreds := (deferreds c)(d := deferreds c d\<lparr>state := s\<rparr>)\<rparr>"

definition goto :: "control \<Rightarrow> config \<Rightarrow> config" where
  "goto k c = c\<lparr>control := k\<rparr>"

definition push :: "frame \<Rightarrow> config \<Rightarrow> config" where
  "push f c = c\<lparr>stack := f # stack c\<rparr>"

definition record_event :: "event \<Rightarrow> config \<Rightarrow> config" where
  "record_event e c = c\<lparr>log := log c @ [e]\<rparr>"

section \<open>Methods of the lists\<close>

text \<open>The beginning of \<open>fire\<close>, and whether the loop is entered.\<close>

definition fire_begin :: "cb_opts \<Rightarrow> ('f, 'v) cbs \<Rightarrow> ('f, 'v) cbs \<times> bool" where
  "fire_begin opts st =
     (let st1 = st\<lparr>locked := locked st \<or> once opts, fired := True, firing := True\<rparr>
      in case queue st1 of
           [] \<Rightarrow> (fire_end opts st1, False)
         | v # vs \<Rightarrow> (st1\<lparr>memory := Some v, queue := vs\<rparr>, True))"

text \<open>A call of a method of a list, with what it returns.\<close>

definition list_call :: "nat \<Rightarrow> lref \<Rightarrow> (callback, val list) cmd \<Rightarrow> val \<Rightarrow> config \<Rightarrow> config" where
  "list_call d l cmd ret c =
     (case exec_cmd (list_opts l) cmd (the_list c d l) of
        (st, ans, start) \<Rightarrow>
          (case (if start then fire_begin (list_opts l) st else (st, False)) of
             (st', enter) \<Rightarrow>
               if enter then goto (Return Undefined) (push (Firing d l) (push (Rest [] ret) (set_list d l st' c)))
               else goto (Return ret) (set_list d l st' c)))"

text \<open>One turn of the loops of \<open>fire\<close>, when the list is firing and its last callback has returned.\<close>

definition fire_callback :: "callback \<Rightarrow> nat \<Rightarrow> lref \<Rightarrow> val list \<Rightarrow> config \<Rightarrow> config" where
  "fire_callback cb d l args c =
     (case cb of
        Callback f \<Rightarrow> goto (Call f args) (record_event (Called d l f args) c)
      | SetState n s \<Rightarrow> goto (Return Undefined) (set_state n s c)
      | DisableList n m \<Rightarrow> goto (Return Undefined) (set_list n m (fst (exec_cmd (list_opts m) Disable (the_list c n m))) c)
      | LockList n m \<Rightarrow> goto (Return Undefined) (set_list n m (fst (exec_cmd (list_opts m) Lock (the_list c n m))) c)
      | FireList n m \<Rightarrow> list_call n m (FireWith args) Undefined c)"

definition fire_step :: "nat \<Rightarrow> lref \<Rightarrow> frame list \<Rightarrow> config \<Rightarrow> config" where
  "fire_step d l rest c =
     (let st = the_list c d l; i = firingIndex st + 1
      in if i < int (length (listeners st))
         then fire_callback (listeners st ! nat i) d l (case memory st of None \<Rightarrow> [] | Some v \<Rightarrow> v)
                (set_list d l (st\<lparr>firingIndex := i\<rparr>) c)
         else (case queue st of
                 [] \<Rightarrow> goto (Return Undefined) (set_list d l (fire_end (list_opts l) (st\<lparr>firingIndex := -1\<rparr>)) c\<lparr>stack := rest\<rparr>)
               | v # vs \<Rightarrow> goto (Return Undefined) (set_list d l (st\<lparr>firingIndex := -1, memory := Some v, queue := vs\<rparr>) c)))"

section \<open>Then\<close>

text \<open>The method \<open>then\<close> of deferred \<open>d\<close>: the promise of a new deferred.\<close>

definition do_then :: "nat \<Rightarrow> val \<Rightarrow> val \<Rightarrow> val \<Rightarrow> config \<Rightarrow> config" where
  "do_then d onFulfilled onRejected onProgress c =
     (let n = next_deferred c; t = next_then c;
          entry = (\<lambda>h special. [FunArg (Callback (Resolver t n h special))])
      in goto (Return Undefined)
           (push (Rest [(d, Handlers Notify, entry (handler_of onProgress Identity) True),
                        (d, Handlers Resolve, entry (handler_of onFulfilled Identity) False),
                        (d, Handlers Reject, entry (handler_of onRejected Thrower) False)] (PromiseObj n))
             (c\<lparr>next_deferred := Suc n, next_then := Suc t\<rparr>)))"

definition call_handler :: "nat \<Rightarrow> handler \<Rightarrow> val list \<Rightarrow> config \<Rightarrow> config" where
  "call_handler t h args c =
     (case h of
        Identity \<Rightarrow> goto (Return (first_arg args)) c
      | Thrower \<Rightarrow> goto (Raise (first_arg args)) c
      | Handler f \<Rightarrow> goto (Call f args) (record_event (HandlerCalled t f args) c))"

text \<open>\<open>process\<close> and the beginning of \<open>mightThrow\<close>.\<close>

definition process :: "nat \<Rightarrow> nat \<Rightarrow> nat \<Rightarrow> handler \<Rightarrow> bool \<Rightarrow> val list \<Rightarrow> config \<Rightarrow> config" where
  "process t depth d h special args c =
     (let c1 = push (if special then Discard else Catch t depth d h args) c
      in if depth < maxDepth c t then goto (Return Undefined) c1
         else call_handler t h args (push (After t depth d h special args) c1))"

definition call_then :: "val \<Rightarrow> val \<Rightarrow> val \<Rightarrow> val \<Rightarrow> config \<Rightarrow> config" where
  "call_then v f g p c =
     (case v of
        ThenableObj u \<Rightarrow> goto (Call (User u) [f, g, p]) c
      | _ \<Rightarrow> (case promise_of v of Some d \<Rightarrow> do_then d f g p c | None \<Rightarrow> goto (Raise TypeError) c))"

text \<open>\<open>mightThrow\<close> behind the call of the handler, which returned a value.\<close>

definition after_handler :: "nat \<Rightarrow> nat \<Rightarrow> nat \<Rightarrow> handler \<Rightarrow> bool \<Rightarrow> val list \<Rightarrow> val \<Rightarrow> config \<Rightarrow> config" where
  "after_handler t depth d h special args v c =
     (if v = PromiseObj d then goto (Raise TypeError) c
      else if thenable v
      then (if special
            then call_then v (FnVal (Settler t (maxDepth c t) d False True)) (FnVal (Settler t (maxDepth c t) d True True))
                   Undefined c
            else let m = Suc (maxDepth c t)
                 in call_then v (FnVal (Settler t m d False False)) (FnVal (Settler t m d True False))
                      (FnVal (Settler t m d False True)) (c\<lparr>maxDepth := (maxDepth c)(t := m)\<rparr>))
      else list_call d (Listeners (if special then Notify else Resolve))
             (FireWith (if h = Identity then args else [v])) Undefined c)"

text \<open>The handler threw, and \<open>process\<close> catches it.\<close>

definition caught :: "nat \<Rightarrow> nat \<Rightarrow> nat \<Rightarrow> handler \<Rightarrow> val list \<Rightarrow> val \<Rightarrow> config \<Rightarrow> config" where
  "caught t depth d h args e c =
     (if depth + 1 \<ge> maxDepth c t
      then list_call d (Listeners Reject) (FireWith (if h = Thrower then args else [e])) Undefined c
      else goto (Return Undefined) c)"

section \<open>Pipe and when\<close>

definition do_pipe :: "nat \<Rightarrow> val \<Rightarrow> val \<Rightarrow> val \<Rightarrow> config \<Rightarrow> config" where
  "do_pipe d fnDone fnFail fnProgress c =
     (let n = next_deferred c;
          entry = (\<lambda>a v. (d, Listeners a, [FunArg (Callback (Piped n a (handler_of v Identity)))]))
      in goto (Return Undefined)
           (push (Rest [entry Notify fnProgress, entry Resolve fnDone, entry Reject fnFail] (PromiseObj n))
             (c\<lparr>next_deferred := Suc n\<rparr>)))"

text \<open>The callback of \<open>pipe\<close> (\<open>Identity\<close>: there is no function), and what follows the function.\<close>

definition call_piped :: "nat \<Rightarrow> action \<Rightarrow> handler \<Rightarrow> val list \<Rightarrow> config \<Rightarrow> config" where
  "call_piped n a h args c =
     (case h of
        Handler f \<Rightarrow> goto (Call f args) (push (AfterPipe n a) c)
      | _ \<Rightarrow> list_call n (Listeners a) (FireWith args) Undefined c)"

definition after_pipe :: "nat \<Rightarrow> action \<Rightarrow> val \<Rightarrow> config \<Rightarrow> config" where
  "after_pipe n a v c =
     (case promise_of v of
        Some r \<Rightarrow>
          goto (Return Undefined)
            (push (Rest (map (\<lambda>b. (r, Listeners b, [FunArg (Callback (Act n b))])) [Notify, Resolve, Reject]) Undefined) c)
      | None \<Rightarrow> list_call n (Listeners a) (FireWith [v]) Undefined c)"

definition adoptValue :: "val \<Rightarrow> fn \<Rightarrow> fn \<Rightarrow> bool \<Rightarrow> config \<Rightarrow> config" where
  "adoptValue v resolve reject noValue c =
     (let c1 = push (AdoptCatch reject) c
      in case v of
           ThenableObj u \<Rightarrow> goto (Call (User u) [FnVal resolve, FnVal reject]) c1
         | _ \<Rightarrow> (case promise_of v of
                   Some r \<Rightarrow>
                     goto (Return Undefined)
                       (push (Rest [(r, Listeners Resolve, [FunArg (Callback resolve)]),
                                    (r, Listeners Reject, [FunArg (Callback reject)])] Undefined) c1)
                 | None \<Rightarrow> goto (Call resolve (if noValue then [] else [v])) c1))"

definition put_value :: "nat \<Rightarrow> val \<Rightarrow> val list \<Rightarrow> val list" where
  "put_value i v vs = (vs @ replicate (Suc i - length vs) Undefined)[i := v]"

definition value_at :: "nat \<Rightarrow> val list \<Rightarrow> val" where
  "value_at i vs = (if i < length vs then vs ! i else Undefined)"

definition call_update :: "nat \<Rightarrow> nat \<Rightarrow> val list \<Rightarrow> config \<Rightarrow> config" where
  "call_update w i args c =
     (let a = aggregates c w;
          v = (if length args > 1 then Array args else first_arg args);
          a' = a\<lparr>remaining := remaining a - 1, resolveValues := put_value i v (resolveValues a)\<rparr>;
          c' = c\<lparr>aggregates := (aggregates c)(w := a')\<rparr>
      in if remaining a' = 0
         then list_call (master a) (Listeners Resolve) (FireWith (resolveValues a')) Undefined c'
         else goto (Return Undefined) c')"

text \<open>The loop of \<open>when\<close>, with \<open>i\<close> arguments left.\<close>

definition when_loop :: "nat \<Rightarrow> nat \<Rightarrow> config \<Rightarrow> config" where
  "when_loop w i c =
     (let a = aggregates c w
      in case i of
           0 \<Rightarrow> goto (Return (PromiseObj (master a))) c
         | Suc j \<Rightarrow>
             adoptValue (value_at j (resolveValues a)) (Update w j) (Act (master a) Reject) False (push (WhenLoop w j) c))"

text \<open>
  With at most one argument, the master adopts it first: the frames hold what follows the call of
  \<open>done\<close> and the call of \<open>adoptValue\<close>.
\<close>

definition do_when :: "val list \<Rightarrow> config \<Rightarrow> config" where
  "do_when args c =
     (let n = next_deferred c; w = next_when c; i = length args;
          c1 = c\<lparr>next_deferred := Suc n, next_when := Suc w,
                 aggregates := (aggregates c)(w := \<lparr>remaining = int i, resolveValues = args, master = n\<rparr>)\<rparr>
      in if i \<le> 1
         then list_call n (Listeners Resolve) (Add [FunArg (Callback (Update w i))]) Undefined
                (push (WhenAdopt w i (first_arg args)) c1)
         else when_loop w i c1)"

definition when_adopt :: "nat \<Rightarrow> nat \<Rightarrow> val \<Rightarrow> config \<Rightarrow> config" where
  "when_adopt w i v c =
     (let n = master (aggregates c w)
      in adoptValue v (Act n Resolve) (Act n Reject) (i = 0) (push (WhenCheck w i) c))"

definition when_check :: "nat \<Rightarrow> nat \<Rightarrow> config \<Rightarrow> config" where
  "when_check w i c =
     (let a = aggregates c w
      in if state (deferreds c (master a)) = Pending \<or> thenable (value_at i (resolveValues a))
         then do_then (master a) Undefined Undefined Undefined c
         else when_loop w i c)"

section \<open>The machine\<close>

text \<open>Methods exist only on objects of this module; calling one on another value is a type error.\<close>

definition on_promise :: "val \<Rightarrow> (nat \<Rightarrow> config \<Rightarrow> config) \<Rightarrow> config \<Rightarrow> config" where
  "on_promise v k c = (case promise_of v of Some d \<Rightarrow> k d c | None \<Rightarrow> goto (Raise TypeError) c)"

definition perform :: "op \<Rightarrow> config \<Rightarrow> config" where
  "perform p c =
     (case p of
        NewDeferred v \<Rightarrow>
          (let n = next_deferred c; c1 = c\<lparr>next_deferred := Suc n\<rparr>
           in case v of
                Undefined \<Rightarrow> goto (Return (DeferredObj n)) c1
              | FnVal f \<Rightarrow> goto (Call f [DeferredObj n]) (push (Rest [] (DeferredObj n)) c1)
              | _ \<Rightarrow> goto (Raise TypeError) c1)
      | PromiseMethod v \<Rightarrow> on_promise v (\<lambda>d. goto (Return (PromiseObj d))) c
      | StateMethod v \<Rightarrow> on_promise v (\<lambda>d c. goto (Return (StateText (state (deferreds c d)))) c) c
      | AddTo v a fs \<Rightarrow> on_promise v (\<lambda>d. list_call d (Listeners a) (Add (map to_arg fs)) v) c
      | Always v fs \<Rightarrow>
          on_promise v (\<lambda>d. goto (Return Undefined) \<circ>
            push (Rest [(d, Listeners Resolve, map to_arg fs), (d, Listeners Reject, map to_arg fs)] v)) c
      | Fire v a args \<Rightarrow>
          (case v of DeferredObj d \<Rightarrow> list_call d (Listeners a) (FireWith args) v c | _ \<Rightarrow> goto (Raise TypeError) c)
      | Then v f g h \<Rightarrow> on_promise v (\<lambda>d. do_then d f g h) c
      | Pipe v f g h \<Rightarrow> on_promise v (\<lambda>d. do_pipe d f g h) c
      | When vs \<Rightarrow> do_when vs c
      | CallFn v args \<Rightarrow> (case v of FnVal f \<Rightarrow> goto (Call f args) c | _ \<Rightarrow> goto (Raise TypeError) c))"

text \<open>What the functions of the page do may depend on all that happened before.\<close>

type_synonym page = "event list \<Rightarrow> nat \<Rightarrow> val list \<Rightarrow> uprog"

definition set_timer :: "timer \<Rightarrow> config \<Rightarrow> config" where
  "set_timer r c = goto (Return Undefined) (c\<lparr>timers := timers c @ [r]\<rparr>)"

definition call_fn :: "page \<Rightarrow> fn \<Rightarrow> val list \<Rightarrow> config \<Rightarrow> config" where
  "call_fn beh f args c =
     (case f of
        User u \<Rightarrow> goto (Run (beh (log c) u args)) c
      | Resolver t d h special \<Rightarrow> set_timer (Timer t 0 d h special args) c
      | Settler t depth d throws special \<Rightarrow>
          (let h = (if throws then Thrower else Identity)
           in if depth > 0 then process t depth d h special args c
              else set_timer (Timer t depth d h special args) c)
      | Act d a \<Rightarrow> list_call d (Listeners a) (FireWith args) Undefined c
      | Piped n a h \<Rightarrow> call_piped n a h args c
      | Update w i \<Rightarrow> call_update w i args c)"

definition return_to :: "frame \<Rightarrow> frame list \<Rightarrow> val \<Rightarrow> config \<Rightarrow> config" where
  "return_to f rest v c =
     (let c' = c\<lparr>stack := rest\<rparr>
      in case f of
           Wait k \<Rightarrow> goto (Run (k (Inr v))) c'
         | Firing d l \<Rightarrow> fire_step d l rest c
         | After t depth d h special args \<Rightarrow> after_handler t depth d h special args v c'
         | Catch t depth d h args \<Rightarrow> goto (Return Undefined) c'
         | Discard \<Rightarrow> goto (Return Undefined) c'
         | Rest [] r \<Rightarrow> goto (Return r) c'
         | Rest ((d, l, as) # calls) r \<Rightarrow> list_call d l (Add as) Undefined (push (Rest calls r) c')
         | AfterPipe n a \<Rightarrow> after_pipe n a v c'
         | AdoptCatch g \<Rightarrow> goto (Return Undefined) c'
         | WhenAdopt w i u \<Rightarrow> when_adopt w i u c'
         | WhenCheck w i \<Rightarrow> when_check w i c'
         | WhenLoop w i \<Rightarrow> when_loop w i c')"

text \<open>An exception leaves the calls in progress, firings of lists included, up to one that catches it.\<close>

definition raise_to :: "frame \<Rightarrow> frame list \<Rightarrow> val \<Rightarrow> config \<Rightarrow> config" where
  "raise_to f rest e c =
     (let c' = c\<lparr>stack := rest\<rparr>
      in case f of
           Wait k \<Rightarrow> goto (Run (k (Inl e))) c'
         | Catch t depth d h args \<Rightarrow> caught t depth d h args e c'
         | AdoptCatch g \<Rightarrow> goto (Call g [e]) c'
         | _ \<Rightarrow> goto (Raise e) c')"

definition step :: "page \<Rightarrow> config \<Rightarrow> config" where
  "step beh c =
     (case control c of
        Run (Finish v) \<Rightarrow> goto (Return v) c
      | Run (Throw e) \<Rightarrow> goto (Raise e) c
      | Run (Op p k) \<Rightarrow> perform p (push (Wait k) c)
      | Call f args \<Rightarrow> call_fn beh f args c
      | Return v \<Rightarrow> (case stack c of [] \<Rightarrow> goto Quiet c | f # rest \<Rightarrow> return_to f rest v c)
      | Raise e \<Rightarrow> (case stack c of [] \<Rightarrow> goto Quiet (record_event (Uncaught e) c) | f # rest \<Rightarrow> raise_to f rest e c)
      | Quiet \<Rightarrow> c)"

text \<open>When nothing runs, the page may start a program, or the oldest timer expires.\<close>

definition start_program :: "uprog \<Rightarrow> config \<Rightarrow> config" where
  "start_program p c = (case control c of Quiet \<Rightarrow> goto (Run p) c | _ \<Rightarrow> c)"

definition tick :: "config \<Rightarrow> config" where
  "tick c =
     (case timers c of
        Timer t depth d h special args # ts \<Rightarrow>
          (case control c of Quiet \<Rightarrow> process t depth d h special args (c\<lparr>timers := ts\<rparr>) | _ \<Rightarrow> c)
      | [] \<Rightarrow> c)"

fun steps :: "page \<Rightarrow> nat \<Rightarrow> config \<Rightarrow> config" where
  "steps beh 0 c = c"
| "steps beh (Suc n) c = steps beh n (step beh c)"

inductive move :: "page \<Rightarrow> config \<Rightarrow> config \<Rightarrow> bool" for beh :: page where
  move_step: "move beh c (step beh c)"
| move_start: "move beh c (start_program p c)"
| move_tick: "move beh c (tick c)"

inductive_cases moveE: "move beh c c'"

abbreviation moves :: "page \<Rightarrow> config \<Rightarrow> config \<Rightarrow> bool" where
  "moves beh \<equiv> (move beh)\<^sup>*\<^sup>*"

definition reachable :: "page \<Rightarrow> config \<Rightarrow> bool" where
  "reachable beh c \<longleftrightarrow> moves beh initial c"

lemma moves_steps: "moves beh c (steps beh n c)"
  by (induction n arbitrary: c) (auto intro: move_step converse_rtranclp_into_rtranclp)

lemma reachable_initial: "reachable beh initial"
  by (simp add: reachable_def)

lemma reachable_move: "reachable beh c \<Longrightarrow> move beh c c' \<Longrightarrow> reachable beh c'"
  by (simp add: reachable_def)

lemma reachable_moves: "reachable beh c \<Longrightarrow> moves beh c c' \<Longrightarrow> reachable beh c'"
  by (simp add: reachable_def)

lemma steps_add: "steps beh (m + n) c = steps beh n (steps beh m c)"
  by (induction m arbitrary: c) auto

end
