(* ===== verification/JqPromise.thy ===== *)
theory JqPromise
  imports JqDeferred
begin

text \<open>
  What the machine of theory \<open>JqDeferred\<close> guarantees: a deferred is settled once and for all, and its
  callbacks on the other side are never called.
\<close>

section \<open>The lists\<close>

lemma list_opts_fields [simp]:
  "unique (list_opts l) = False" "keep_memory (list_opts l) = True" "stopOnFalse (list_opts l) = False"
  "once (list_opts l) = (l \<noteq> Listeners Notify \<and> l \<noteq> Handlers Notify)"
proof -
  have m: "rnothtmlwhite ''memory'' = [''memory'']"
    and o: "rnothtmlwhite ''once memory'' = [''once'', ''memory'']"
    by (simp_all add: rnothtmlwhite_def html_space_def)
  show "unique (list_opts l) = False" "keep_memory (list_opts l) = True" "stopOnFalse (list_opts l) = False"
    "once (list_opts l) = (l \<noteq> Listeners Notify \<and> l \<noteq> Handlers Notify)"
    by (auto simp: list_opts_def createOptions_def m o)
qed

text \<open>Arguments of \<open>add\<close> that hold functions of values only, never the callbacks a deferred starts with.\<close>

definition user_args :: "callback cb_arg list \<Rightarrow> bool" where
  "user_args as \<longleftrightarrow> (\<forall>l. \<exists>fs. add_args False as l = l @ map Callback fs)"

lemma user_argsE:
  assumes "user_args as"
  obtains fs where "add_args False as l = l @ map Callback fs"
  using assms by (auto simp: user_args_def)

lemma user_args_Nil: "user_args []"
  by (simp add: user_args_def exI[of _ "[]"])

lemma user_args_FunArg: "user_args as \<Longrightarrow> user_args (FunArg (Callback f) # as)"
  unfolding user_args_def
proof
  fix l
  assume "\<forall>l. \<exists>fs. add_args False as l = l @ map Callback fs"
  then obtain fs where "add_args False as (l @ [Callback f]) = (l @ [Callback f]) @ map Callback fs" by blast
  then have "add_args False (FunArg (Callback f) # as) l = l @ map Callback (f # fs)" by simp
  then show "\<exists>fs. add_args False (FunArg (Callback f) # as) l = l @ map Callback fs" by blast
qed

lemma user_args_ListArg: "user_args as \<Longrightarrow> user_args bs \<Longrightarrow> user_args (ListArg bs # as)"
  unfolding user_args_def
proof
  fix l
  assume as: "\<forall>l. \<exists>fs. add_args False as l = l @ map Callback fs"
    and bs: "\<forall>l. \<exists>fs. add_args False bs l = l @ map Callback fs"
  from bs obtain fs where f: "add_args False bs l = l @ map Callback fs" by blast
  from as obtain gs where "add_args False as (l @ map Callback fs) = (l @ map Callback fs) @ map Callback gs" by blast
  then have "add_args False (ListArg bs # as) l = l @ map Callback (fs @ gs)" using f by simp
  then show "\<exists>fs. add_args False (ListArg bs # as) l = l @ map Callback fs" by blast
qed

lemma user_args_OtherArg: "user_args as \<Longrightarrow> user_args (OtherArg # as)"
  by (simp add: user_args_def)

lemma user_args_values: "user_args (map to_arg vs)"
proof -
  have "user_args as \<Longrightarrow> user_args (to_arg v # as)" for v :: val and as
  proof (induction v arbitrary: as rule: to_arg.induct)
    case (2 vs)
    have "user_args (map to_arg ws)" if "set ws \<subseteq> set vs" for ws
      using that by (induction ws) (auto simp: user_args_Nil "2.IH")
    then show ?case using 2 by (simp add: user_args_ListArg)
  qed (simp_all add: user_args_FunArg user_args_OtherArg)
  then show ?thesis by (induction vs) (auto simp: user_args_Nil)
qed

section \<open>What the lists see of a step\<close>

definition firings :: "config \<Rightarrow> (nat \<times> lref) set" where
  "firings c = {(d, l). Firing d l \<in> set (stack c)}"

definition calls :: "config \<Rightarrow> (nat \<times> lref \<times> fn \<times> val list) set" where
  "calls c = {(d, l, f, args). Called d l f args \<in> set (log c)}"

text \<open>The lists and what was called from them are the same; no list has started to fire.\<close>

definition same_lists :: "config \<Rightarrow> config \<Rightarrow> bool" where
  "same_lists c c' \<longleftrightarrow> deferreds c' = deferreds c \<and> calls c' = calls c \<and> firings c' \<subseteq> firings c"

fun frame_ok :: "frame \<Rightarrow> bool" where
  "frame_ok (Rest cs r) = list_all (\<lambda>(d, l, as). user_args as) cs"
| "frame_ok f = True"

abbreviation rest_ok :: "config \<Rightarrow> bool" where
  "rest_ok c \<equiv> list_all frame_ok (stack c)"

lemma same_refl: "same_lists c c"
  by (simp add: same_lists_def)

lemma same_trans: "same_lists c c1 \<Longrightarrow> same_lists c1 c2 \<Longrightarrow> same_lists c c2"
  by (auto simp: same_lists_def)

lemma same_goto: "same_lists c (goto k c') = same_lists c c'"
  by (simp add: same_lists_def goto_def calls_def firings_def)

lemma same_push: "(\<forall>d l. f \<noteq> Firing d l) \<Longrightarrow> same_lists c (push f c') = same_lists c c'"
  by (auto simp: same_lists_def push_def calls_def firings_def)

lemma same_fields:
  "same_lists c (c'\<lparr>next_deferred := n\<rparr>) = same_lists c c'" "same_lists c (c'\<lparr>next_then := n\<rparr>) = same_lists c c'"
  "same_lists c (c'\<lparr>next_when := n\<rparr>) = same_lists c c'" "same_lists c (c'\<lparr>maxDepth := m\<rparr>) = same_lists c c'"
  "same_lists c (c'\<lparr>aggregates := g\<rparr>) = same_lists c c'" "same_lists c (c'\<lparr>timers := ts\<rparr>) = same_lists c c'"
  by (simp_all add: same_lists_def calls_def firings_def)

lemma calls_event: "calls (record_event e c) = calls c \<union> {(d, l, f, args). e = Called d l f args}"
  by (auto simp: calls_def record_event_def)

lemma same_event: "(\<forall>d l f args. e \<noteq> Called d l f args) \<Longrightarrow> same_lists c (record_event e c') = same_lists c c'"
proof -
  assume "\<forall>d l f args. e \<noteq> Called d l f args"
  then have "{(d, l, f, args). e = Called d l f args} = {}" by auto
  then have "calls (record_event e c') = calls c'" by (simp only: calls_event Un_empty_right)
  then show ?thesis by (simp add: same_lists_def record_event_def firings_def)
qed

lemma same_pop: "stack c = f # rest \<Longrightarrow> same_lists c (c\<lparr>stack := rest\<rparr>)"
  by (auto simp: same_lists_def calls_def firings_def)

lemmas same_simps = same_goto same_push same_fields same_event same_refl

lemma stack_simps [simp]:
  "stack (goto k c) = stack c" "stack (push f c) = f # stack c" "stack (record_event e c) = stack c"
  "control (goto k c) = k" "stack (set_list d l st c) = stack c" "stack (set_state d s c) = stack c"
  by (simp_all add: goto_def push_def record_event_def set_list_def set_state_def)

section \<open>Calls of \<open>add\<close> that are left\<close>

lemma rest_list_call [simp]: "rest_ok (list_call d l cmd r c) = rest_ok c"
  by (simp add: list_call_def split: prod.splits)

lemma rest_fields [simp]:
  "stack (c\<lparr>next_deferred := n\<rparr>) = stack c" "stack (c\<lparr>next_then := n\<rparr>) = stack c"
  "stack (c\<lparr>next_when := n\<rparr>) = stack c" "stack (c\<lparr>maxDepth := m\<rparr>) = stack c"
  "stack (c\<lparr>aggregates := g\<rparr>) = stack c" "stack (c\<lparr>timers := ts\<rparr>) = stack c"
  by simp_all

lemma rest_then [simp]: "rest_ok (do_then d f g p c) = rest_ok c"
  by (simp add: do_then_def Let_def user_args_FunArg user_args_Nil)

lemma rest_handler [simp]: "rest_ok (call_handler t h args c) = rest_ok c"
  by (simp add: call_handler_def split: handler.splits)

lemma rest_process [simp]: "rest_ok (process t depth d h special args c) = rest_ok c"
  by (simp add: process_def Let_def)

lemma rest_call_then [simp]: "rest_ok (call_then v f g p c) = rest_ok c"
  by (simp add: call_then_def split: val.splits option.splits)

lemma rest_after_handler [simp]: "rest_ok (after_handler t depth d h special args v c) = rest_ok c"
  by (simp add: after_handler_def Let_def)

lemma rest_caught [simp]: "rest_ok (caught t depth d h args e c) = rest_ok c"
  by (simp add: caught_def)

lemma rest_pipe [simp]: "rest_ok (do_pipe d f g p c) = rest_ok c"
  by (simp add: do_pipe_def Let_def user_args_FunArg user_args_Nil)

lemma rest_piped [simp]: "rest_ok (call_piped n a h args c) = rest_ok c"
  by (simp add: call_piped_def split: handler.splits)

lemma rest_after_pipe [simp]: "rest_ok (after_pipe n a v c) = rest_ok c"
  by (simp add: after_pipe_def user_args_FunArg user_args_Nil split: option.splits)

lemma rest_adopt [simp]: "rest_ok (adoptValue v f g b c) = rest_ok c"
  by (simp add: adoptValue_def Let_def user_args_FunArg user_args_Nil split: val.splits option.splits)

lemma rest_update [simp]: "rest_ok (call_update w i args c) = rest_ok c"
  by (simp add: call_update_def Let_def)

lemma rest_when_loop [simp]: "rest_ok (when_loop w i c) = rest_ok c"
  by (simp add: when_loop_def Let_def split: nat.splits)

lemma rest_when [simp]:
  "rest_ok (when_check w i c) = rest_ok c" "rest_ok (when_adopt w i v c) = rest_ok c" "rest_ok (do_when args c) = rest_ok c"
  by (simp_all add: when_check_def when_adopt_def do_when_def Let_def)

lemma rest_perform [simp]: "rest_ok (perform p c) = rest_ok c"
  by (simp add: perform_def on_promise_def Let_def user_args_values split: op.splits val.splits option.splits)

lemma rest_call_fn [simp]: "rest_ok (call_fn beh f args c) = rest_ok c"
  by (simp add: call_fn_def set_timer_def Let_def split: fn.splits)

lemma rest_fire_step: "stack c = f # rest \<Longrightarrow> rest_ok c \<Longrightarrow> rest_ok (fire_step d l rest c)"
  by (simp add: fire_step_def fire_callback_def Let_def split: callback.splits list.splits)

lemma rest_return: "stack c = f # rest \<Longrightarrow> rest_ok c \<Longrightarrow> rest_ok (return_to f rest v c)"
  by (cases "(f, rest, v, c)" rule: prod_cases4)
     (auto simp: return_to_def Let_def rest_fire_step split: frame.splits list.splits)

lemma rest_raise: "stack c = f # rest \<Longrightarrow> rest_ok c \<Longrightarrow> rest_ok (raise_to f rest e c)"
  by (simp add: raise_to_def Let_def split: frame.splits)

lemma rest_step: "rest_ok c \<Longrightarrow> rest_ok (step beh c)"
  by (auto simp: step_def rest_return rest_raise split: control.splits uprog.splits list.splits)

lemma rest_move: "move beh c c' \<Longrightarrow> rest_ok c \<Longrightarrow> rest_ok c'"
  by (erule moveE) (auto simp: rest_step start_program_def tick_def split: list.splits timer.splits control.splits)

lemma rest_reachable: "reachable beh c \<Longrightarrow> rest_ok c"
  unfolding reachable_def by (induction rule: rtranclp_induct) (auto simp: initial_def rest_move)

section \<open>Machine invariants\<close>

text \<open>
  \<open>P\<close> holds between any two steps; \<open>S\<close> is what holds of it while no list has just begun to fire.  A
  property that calls of \<open>add\<close> and \<open>fireWith\<close> and the firing of lists keep is kept by the machine.
\<close>

locale machine_invariant =
  fixes S P :: "config \<Rightarrow> bool"
  assumes S_same: "S c \<Longrightarrow> same_lists c c' \<Longrightarrow> S c'"
    and S_P: "S c \<Longrightarrow> P c"
    and P_S: "P c \<Longrightarrow> (\<forall>v d l rest. control c = Return v \<longrightarrow> stack c \<noteq> Firing d l # rest) \<Longrightarrow> S c"
    and P_add: "S c \<Longrightarrow> user_args as \<Longrightarrow> P (list_call d l (Add as) r c)"
    and P_fire: "S c \<Longrightarrow> P (list_call d (Listeners a) (FireWith args) r c)"
    and P_fire_step: "P c \<Longrightarrow> control c = Return v \<Longrightarrow> stack c = Firing d l # rest \<Longrightarrow> P (fire_step d l rest c)"
begin

lemma P_same: "S c \<Longrightarrow> same_lists c c' \<Longrightarrow> P c'"
  by (rule S_P) (rule S_same)

lemma P_fire_same: "S c \<Longrightarrow> same_lists c c' \<Longrightarrow> P (list_call d (Listeners a) (FireWith args) r c')"
  by (rule P_fire) (rule S_same)

lemma P_then: "S c \<Longrightarrow> P (do_then d f g p c)"
  by (erule P_same) (simp add: do_then_def Let_def same_simps)

lemma P_handler: "S c \<Longrightarrow> P (call_handler t h args c)"
  by (erule P_same) (simp add: call_handler_def same_simps split: handler.splits)

lemma P_process: "S c \<Longrightarrow> P (process t depth d h special args c)"
  unfolding process_def Let_def
  by (auto intro!: P_handler intro: S_same P_same simp: same_simps)

lemma P_call_then: "S c \<Longrightarrow> P (call_then v f g p c)"
  by (auto simp: call_then_def same_simps P_then intro: P_same split: val.splits option.splits)

lemma P_after_handler: "S c \<Longrightarrow> P (after_handler t depth d h special args v c)"
  unfolding after_handler_def Let_def
  by (auto intro!: P_call_then P_fire intro: S_same P_same simp: same_simps)

lemma P_caught: "S c \<Longrightarrow> P (caught t depth d h args e c)"
  by (auto simp: caught_def same_simps intro: P_fire P_same)

lemma P_pipe: "S c \<Longrightarrow> P (do_pipe d f g p c)"
  by (erule P_same) (simp add: do_pipe_def Let_def same_simps)

lemma P_piped: "S c \<Longrightarrow> P (call_piped n a h args c)"
  by (auto simp: call_piped_def same_simps intro: P_fire P_same split: handler.splits)

lemma P_after_pipe: "S c \<Longrightarrow> P (after_pipe n a v c)"
  by (auto simp: after_pipe_def same_simps intro: P_fire P_same split: option.splits)

lemma P_adopt: "S c \<Longrightarrow> P (adoptValue v f g b c)"
  by (erule P_same) (simp add: adoptValue_def Let_def same_simps split: val.splits option.splits)

lemma P_update: "S c \<Longrightarrow> P (call_update w i args c)"
  unfolding call_update_def Let_def
  by (auto intro!: P_fire intro: S_same P_same simp: same_simps)

lemma P_when_loop: "S c \<Longrightarrow> P (when_loop w i c)"
  unfolding when_loop_def Let_def
  by (auto intro!: P_adopt intro: S_same P_same simp: same_simps split: nat.splits)

lemma P_when_check: "S c \<Longrightarrow> P (when_check w i c)"
  by (auto simp: when_check_def Let_def P_then P_when_loop)

lemma P_when_adopt: "S c \<Longrightarrow> P (when_adopt w i v c)"
  unfolding when_adopt_def Let_def by (auto intro!: P_adopt intro: S_same simp: same_simps)

lemma P_when: "S c \<Longrightarrow> P (do_when args c)"
  unfolding do_when_def Let_def
  by (auto intro!: P_add P_when_loop user_args_FunArg user_args_Nil intro: S_same simp: same_simps)

lemma P_perform: "S c \<Longrightarrow> P (perform p c)"
  by (auto simp: perform_def on_promise_def Let_def same_simps P_then P_pipe P_when user_args_values
      intro: P_same P_add P_fire split: op.splits val.splits option.splits)

lemma P_call_fn: "S c \<Longrightarrow> P (call_fn beh f args c)"
  by (auto simp: call_fn_def set_timer_def Let_def same_simps P_process P_piped P_update intro: P_same P_fire split: fn.splits)

lemma P_return:
  assumes "P c" "control c = Return v" "stack c = f # rest" "rest_ok c"
  shows "P (return_to f rest v c)"
proof (cases "\<exists>d l. f = Firing d l")
  case True
  then show ?thesis using assms P_fire_step by (auto simp: return_to_def)
next
  case False
  then have S: "S (c\<lparr>stack := rest\<rparr>)" using assms P_S S_same same_pop by (metis list.inject)
  show ?thesis
  proof (cases f)
    case (Rest cs r)
    then show ?thesis
      using S assms(3,4) by (cases cs) (auto simp: return_to_def Let_def same_simps intro!: P_add intro: P_same S_same)
  qed (use False S in \<open>auto simp: return_to_def Let_def same_simps P_after_handler P_after_pipe P_when_adopt
        P_when_check P_when_loop intro: P_same\<close>)
qed

lemma P_raise: "S c \<Longrightarrow> stack c = f # rest \<Longrightarrow> P (raise_to f rest e c)"
proof -
  assume "S c" "stack c = f # rest"
  then have "S (c\<lparr>stack := rest\<rparr>)" using S_same same_pop by blast
  then show ?thesis by (auto simp: raise_to_def Let_def same_simps P_caught intro: P_same split: frame.splits)
qed

lemma P_step:
  assumes "P c" "rest_ok c"
  shows "P (step beh c)"
proof (cases "control c")
  case (Return v)
  show ?thesis
  proof (cases "stack c")
    case Nil
    then have "S c" using assms(1) P_S by simp
    then show ?thesis using Return Nil by (auto simp: step_def same_simps intro: P_same)
  qed (use Return assms P_return in \<open>simp add: step_def\<close>)
next
  case (Run p)
  then have "S c" using assms(1) P_S by simp
  then show ?thesis using Run
    by (cases p) (auto simp: step_def same_simps intro!: P_perform intro: P_same S_same)
next
  case (Raise e)
  then have "S c" using assms(1) P_S by simp
  then show ?thesis using Raise
    by (cases "stack c") (auto simp: step_def same_simps P_raise intro: P_same)
next
  case (Call f args)
  then have "S c" using assms(1) P_S by simp
  then show ?thesis using Call P_call_fn by (simp add: step_def)
qed (use assms in \<open>simp add: step_def\<close>)

lemma P_tick: "P c \<Longrightarrow> P (tick c)"
proof (cases "control c = Quiet")
  case True
  then show "P c \<Longrightarrow> P (tick c)"
    by (auto simp: tick_def same_simps split: list.splits timer.splits
        intro!: P_process intro: S_same dest!: P_S)
qed (auto simp: tick_def split: list.splits timer.splits control.splits)

lemma P_start: "P c \<Longrightarrow> P (start_program p c)"
proof (cases "control c = Quiet")
  case True
  then show "P c \<Longrightarrow> P (start_program p c)" by (auto simp: start_program_def same_simps dest!: P_S intro: P_same)
qed (simp add: start_program_def split: control.splits)

lemma P_move: "move beh c c' \<Longrightarrow> P c \<Longrightarrow> rest_ok c \<Longrightarrow> P c'"
  by (erule moveE) (auto simp: P_step P_start P_tick)

lemma P_moves: "moves beh c c' \<Longrightarrow> P c \<Longrightarrow> rest_ok c \<Longrightarrow> P c' \<and> rest_ok c'"
  by (induction rule: rtranclp_induct) (auto simp: P_move rest_move)

lemma P_reachable: "reachable beh c \<Longrightarrow> P initial \<Longrightarrow> P c"
  using P_moves[of beh initial c] by (simp add: reachable_def initial_def)

end

section \<open>Where the callbacks of a deferred are\<close>

text \<open>The callbacks a deferred starts with are in its own lists only.\<close>

definition own_callback :: "nat \<Rightarrow> lref \<Rightarrow> callback \<Rightarrow> bool" where
  "own_callback d l cb \<longleftrightarrow> cb \<in> set (initial_callbacks d l) \<or> (\<exists>f. cb = Callback f)"

definition lists_own :: "config \<Rightarrow> bool" where
  "lists_own c \<longleftrightarrow>
     (\<forall>d l. -1 \<le> firingIndex (the_list c d l) \<and> (\<forall>cb \<in> set (listeners (the_list c d l)). own_callback d l cb))"

text \<open>The list behind a method call.\<close>

definition called_list :: "lref \<Rightarrow> (callback, val list) cmd \<Rightarrow> (callback, val list) cbs \<Rightarrow> (callback, val list) cbs" where
  "called_list l cmd st =
     (case exec_cmd (list_opts l) cmd st of
        (st', ans, start) \<Rightarrow> if start then fst (fire_begin (list_opts l) st') else st')"

lemma the_list_simps [simp]:
  "the_list (goto k c) d l = the_list c d l" "the_list (push f c) d l = the_list c d l"
  "the_list (record_event e c) d l = the_list c d l" "the_list (set_state n s c) d l = the_list c d l"
  "the_list (c\<lparr>stack := fs\<rparr>) d l = the_list c d l"
  "the_list (set_list n m st c) d l = (if n = d \<and> m = l then st else the_list c d l)"
  by (auto simp: the_list_def goto_def push_def record_event_def set_state_def set_list_def)

lemma list_list_call [simp]:
  "the_list (list_call n m cmd r c) d l = (if n = d \<and> m = l then called_list m cmd (the_list c d l) else the_list c d l)"
  by (auto simp: list_call_def called_list_def split: prod.splits)

lemma listeners_end: "set (listeners (fire_end opts st)) \<subseteq> set (listeners st)"
  by (auto simp: fire_end_def Let_def listeners_def split: if_splits)

lemma listeners_begin: "set (listeners (fst (fire_begin opts st))) \<subseteq> set (listeners st)"
proof (cases "queue st")
  case Nil
  then show ?thesis
    using listeners_end[of opts "st\<lparr>locked := locked st \<or> once opts, fired := True, firing := True\<rparr>"]
    by (simp add: fire_begin_def Let_def)
qed (simp add: fire_begin_def Let_def)

lemma called_list_add:
  "user_args as \<Longrightarrow> cb \<in> set (listeners (called_list l (Add as) st)) \<Longrightarrow> cb \<in> set (listeners st) \<or> (\<exists>f. cb = Callback f)"
proof -
  assume as: "user_args as" and cb: "cb \<in> set (listeners (called_list l (Add as) st))"
  show ?thesis
  proof (cases "cb_list st")
    case None
    then show ?thesis using cb by (simp add: called_list_def)
  next
    case (Some xs)
    then obtain fs where fs: "add_args False as xs = xs @ map Callback fs" using as by (rule_tac user_argsE)
    obtain st' ans start where e: "exec_cmd (list_opts l) (Add as) st = (st', ans, start)" by (metis prod_cases3)
    have "listeners st' = xs @ map Callback fs" using e Some fs by (auto simp: Let_def)
    moreover have "cb \<in> set (listeners st')"
      using cb e listeners_begin[of "list_opts l" st'] by (auto simp: called_list_def split: if_splits)
    ultimately show ?thesis using Some by (auto simp: listeners_def)
  qed
qed

lemma called_list_fire: "set (listeners (called_list l (FireWith v) st)) \<subseteq> set (listeners st)"
  using listeners_begin[of "list_opts l" "st\<lparr>queue := queue st @ [v]\<rparr>"] by (auto simp: called_list_def)

lemma listeners_disable: "set (listeners (fst (exec_cmd opts Disable st))) \<subseteq> set (listeners st)"
  "set (listeners (fst (exec_cmd opts Lock st))) \<subseteq> set (listeners st)"
  by (auto simp: listeners_def Let_def)

lemma listeners_fire_callback:
  "set (listeners (the_list (fire_callback cb d l args c) d' l')) \<subseteq> set (listeners (the_list c d' l'))"
proof (cases cb)
  case (FireList n m)
  then show ?thesis using called_list_fire by (simp add: fire_callback_def)
next
  case (DisableList n m)
  then show ?thesis by (simp add: fire_callback_def listeners_disable(1) del: exec_cmd.simps)
next
  case (LockList n m)
  then show ?thesis by (simp add: fire_callback_def listeners_disable(2) del: exec_cmd.simps)
qed (simp_all add: fire_callback_def)

lemma listeners_fire_step:
  "set (listeners (the_list (fire_step d l rest c) d' l')) \<subseteq> set (listeners (the_list c d' l'))"
proof (cases "firingIndex (the_list c d l) + 1 < int (length (listeners (the_list c d l)))")
  case True
  let ?st = "the_list c d l"
  have "set (listeners (the_list (fire_step d l rest c) d' l')) \<subseteq>
      set (listeners (the_list (set_list d l (?st\<lparr>firingIndex := firingIndex ?st + 1\<rparr>) c) d' l'))"
    unfolding fire_step_def Let_def using True by (simp only: if_True listeners_fire_callback)
  also have "\<dots> \<subseteq> set (listeners (the_list c d' l'))" by simp
  finally show ?thesis .
next
  case False
  then show ?thesis
    using listeners_end[of "list_opts l" "the_list c d l\<lparr>firingIndex := -1\<rparr>"]
    by (auto simp: fire_step_def Let_def split: list.splits)
qed

lemma index_end [simp]: "firingIndex (fire_end opts st) = firingIndex st"
  by (simp add: fire_end_def Let_def)

lemma index_begin [simp]: "firingIndex (fst (fire_begin opts st)) = firingIndex st"
  by (simp add: fire_begin_def Let_def split: list.splits)

lemma index_called:
  "-1 \<le> firingIndex st \<Longrightarrow> -1 \<le> firingIndex (called_list l (Add as) st)"
  "-1 \<le> firingIndex st \<Longrightarrow> -1 \<le> firingIndex (called_list l (FireWith v) st)"
  by (auto simp: called_list_def Let_def split: option.splits)

lemma index_fire_callback:
  "-1 \<le> firingIndex (the_list c d' l') \<Longrightarrow> -1 \<le> firingIndex (the_list (fire_callback cb d l args c) d' l')"
  by (auto simp: fire_callback_def index_called(2) Let_def split: callback.splits)

lemma index_fire_step:
  assumes "-1 \<le> firingIndex (the_list c d l)" "-1 \<le> firingIndex (the_list c d' l')"
  shows "-1 \<le> firingIndex (the_list (fire_step d l rest c) d' l')"
  using assms by (auto simp: fire_step_def Let_def split: list.splits intro!: index_fire_callback)

lemma own_fire_step: "lists_own c \<Longrightarrow> lists_own (fire_step d l rest c)"
  using listeners_fire_step index_fire_step unfolding lists_own_def by blast

interpretation own: machine_invariant lists_own lists_own
proof
  show "lists_own c'" if "lists_own c" "same_lists c c'" for c c'
    using that by (simp add: lists_own_def same_lists_def the_list_def)
  show "lists_own (list_call d l (Add as) r c)" if "lists_own c" "user_args as" for c as d l r
    using that called_list_add[OF that(2)] index_called(1) unfolding lists_own_def own_callback_def
    by (auto split: if_splits) blast+
  show "lists_own (list_call d (Listeners a) (FireWith args) r c)" if "lists_own c" for c d a args r
    using that called_list_fire index_called(2) unfolding lists_own_def by (auto split: if_splits) blast+
qed (simp_all add: own_fire_step)

end
