(* ===== verification/JqSettle.thy ===== *)
theory JqSettle
  imports JqPromise
begin

text \<open>
  Settling a deferred (theory \<open>JqDeferred\<close>): once resolved or rejected it stays so, its callbacks on
  that side get the values it was settled with, and those of the other side are never called.
\<close>

section \<open>Lists that have not fired, have fired, and never will\<close>

definition virgin :: "callback list \<Rightarrow> (callback, val list) cbs \<Rightarrow> bool" where
  "virgin xs st \<longleftrightarrow> (\<exists>us. st = Callbacks\<lparr>cb_list := Some (xs @ map Callback us)\<rparr>)"

definition spent :: "val list \<Rightarrow> (callback, val list) cbs \<Rightarrow> bool" where
  "spent v st \<longleftrightarrow> locked st \<and> memory st = Some v \<and> queue st = []"

definition dead :: "(callback, val list) cbs \<Rightarrow> bool" where
  "dead st \<longleftrightarrow> locked st \<and> cb_list st = None \<and> memory st = None \<and> queue st = []"

lemma virginE:
  assumes "virgin xs st"
  obtains us where "cb_list st = Some (xs @ map Callback us)" "\<not> firing st" "memory st = None" "\<not> locked st"
    "queue st = []" "firingIndex st = -1" "listeners st = xs @ map Callback us"
  using assms by (auto simp: virgin_def Callbacks_def listeners_def)

lemma add_virgin: "virgin xs st \<Longrightarrow> user_args as \<Longrightarrow> virgin xs (called_list l (Add as) st) \<and> \<not> snd (snd (exec_cmd (list_opts l) (Add as) st))"
proof -
  assume v: "virgin xs st" and as: "user_args as"
  from v obtain us where st: "st = Callbacks\<lparr>cb_list := Some (xs @ map Callback us)\<rparr>" by (auto simp: virgin_def)
  obtain fs where "add_args False as (xs @ map Callback us) = (xs @ map Callback us) @ map Callback fs"
    using as by (rule user_argsE)
  then have e: "exec_cmd (list_opts l) (Add as) st =
      (Callbacks\<lparr>cb_list := Some (xs @ map Callback (us @ fs))\<rparr>, True, False)"
    by (simp add: st Callbacks_def)
  then have "called_list l (Add as) st = Callbacks\<lparr>cb_list := Some (xs @ map Callback (us @ fs))\<rparr>"
    by (simp only: called_list_def) simp
  then show ?thesis using e unfolding virgin_def by (metis snd_conv)
qed

lemma add_spent: "spent v st \<Longrightarrow> spent v (called_list l (Add as) st)"
  by (cases "cb_list st") (auto simp: spent_def called_list_def fire_begin_def Let_def)

lemma add_dead: "dead st \<Longrightarrow> exec_cmd opts (Add as) st = (st, True, False)"
  by (simp add: dead_def)

lemma fire_locked: "locked st \<Longrightarrow> exec_cmd opts (FireWith v) st = (st, True, False)"
  by simp

lemma fire_virgin:
  assumes "virgin xs st" "once (list_opts l)"
  shows "spent v (called_list l (FireWith v) st)" "firingIndex (called_list l (FireWith v) st) = -1"
    "\<exists>us. listeners (called_list l (FireWith v) st) = xs @ map Callback us"
  using assms by (auto simp: called_list_def fire_begin_def Let_def spent_def listeners_def elim!: virginE)

lemma disable_dead: "virgin xs st \<or> dead st \<Longrightarrow> dead (fst (exec_cmd opts Disable st))"
  by (auto simp: dead_def)

lemma spent_end: "spent v st \<Longrightarrow> spent v (fire_end (list_opts l) (st\<lparr>firingIndex := i\<rparr>))"
  by (simp add: spent_def fire_end_def Let_def)

section \<open>A deferred\<close>

definition opp :: "action \<Rightarrow> action" where
  "opp a = (case a of Resolve \<Rightarrow> Reject | Reject \<Rightarrow> Resolve | Notify \<Rightarrow> Notify)"

definition final :: "action \<Rightarrow> status" where
  "final a = (case a of Resolve \<Rightarrow> Resolved | Reject \<Rightarrow> Rejected | Notify \<Rightarrow> Pending)"

definition status_of :: "config \<Rightarrow> nat \<Rightarrow> status" where
  "status_of c d = state (deferreds c d)"

text \<open>The arguments with which callbacks of a side, of \<open>done\<close> and of \<open>then\<close> and \<open>pipe\<close>, were called.\<close>

definition called_with :: "config \<Rightarrow> nat \<Rightarrow> action \<Rightarrow> val list set" where
  "called_with c d a =
     {args. \<exists>f. (d, Listeners a, f, args) \<in> calls c \<or> (d, Handlers a, f, args) \<in> calls c}"

definition unfired :: "config \<Rightarrow> nat \<Rightarrow> action \<Rightarrow> bool" where
  "unfired c d a \<longleftrightarrow>
     virgin [] (the_list c d (Handlers a)) \<and> (d, Handlers a) \<notin> firings c"

definition side_open :: "config \<Rightarrow> nat \<Rightarrow> action \<Rightarrow> bool" where
  "side_open c d a \<longleftrightarrow>
     virgin (initial_callbacks d (Listeners a)) (the_list c d (Listeners a)) \<and> (d, Listeners a) \<notin> firings c \<and>
     unfired c d a \<and> called_with c d a = {}"

definition side_closed :: "config \<Rightarrow> nat \<Rightarrow> action \<Rightarrow> bool" where
  "side_closed c d a \<longleftrightarrow>
     dead (the_list c d (Listeners a)) \<and> (d, Listeners a) \<notin> firings c \<and> unfired c d a \<and> called_with c d a = {}"

definition is_open :: "config \<Rightarrow> nat \<Rightarrow> bool" where
  "is_open c d \<longleftrightarrow> status_of c d = Pending \<and> side_open c d Resolve \<and> side_open c d Reject"

definition is_settled :: "config \<Rightarrow> nat \<Rightarrow> action \<Rightarrow> val list \<Rightarrow> bool" where
  "is_settled c d a v \<longleftrightarrow>
     status_of c d = final a \<and> spent v (the_list c d (Listeners a)) \<and>
     (unfired c d a \<or> spent v (the_list c d (Handlers a))) \<and> called_with c d a \<subseteq> {v} \<and> side_closed c d (opp a)"

text \<open>Before the other side is disabled: no callback of the page has been called.\<close>

definition is_settling :: "config \<Rightarrow> nat \<Rightarrow> action \<Rightarrow> val list \<Rightarrow> bool" where
  "is_settling c d a v \<longleftrightarrow>
     (\<exists>w rest. control c = Return w \<and> stack c = Firing d (Listeners a) # rest) \<and>
     spent v (the_list c d (Listeners a)) \<and>
     (\<exists>us. listeners (the_list c d (Listeners a)) = initial_callbacks d (Listeners a) @ map Callback us) \<and>
     (firingIndex (the_list c d (Listeners a)) = -1 \<and> status_of c d = Pending \<or>
      firingIndex (the_list c d (Listeners a)) = 0 \<and> status_of c d = final a) \<and>
     unfired c d a \<and> called_with c d a = {} \<and> side_open c d (opp a)"

definition steady :: "nat \<Rightarrow> config \<Rightarrow> bool" where
  "steady d c \<longleftrightarrow> lists_own c \<and> (is_open c d \<or> (\<exists>a v. a \<noteq> Notify \<and> is_settled c d a v))"

definition settles_once :: "nat \<Rightarrow> config \<Rightarrow> bool" where
  "settles_once d c \<longleftrightarrow> steady d c \<or> lists_own c \<and> (\<exists>a v. a \<noteq> Notify \<and> is_settling c d a v)"

text \<open>Nothing of that depends on other deferreds or on the progress lists.\<close>

definition same_sides :: "nat \<Rightarrow> config \<Rightarrow> config \<Rightarrow> bool" where
  "same_sides d c c' \<longleftrightarrow>
     status_of c' d = status_of c d \<and>
     (\<forall>a. a \<noteq> Notify \<longrightarrow>
        the_list c' d (Listeners a) = the_list c d (Listeners a) \<and> the_list c' d (Handlers a) = the_list c d (Handlers a) \<and>
        ((d, Listeners a) \<in> firings c' \<longrightarrow> (d, Listeners a) \<in> firings c) \<and>
        ((d, Handlers a) \<in> firings c' \<longrightarrow> (d, Handlers a) \<in> firings c) \<and>
        called_with c' d a = called_with c d a)"

lemma opp_simps [simp]: "opp Resolve = Reject" "opp Reject = Resolve"
  by (simp_all add: opp_def)

lemma opp_Notify: "opp a = Notify \<longleftrightarrow> a = Notify"
  by (simp add: opp_def split: action.splits)

lemma same_sides_open: "same_sides d c c' \<Longrightarrow> a \<noteq> Notify \<Longrightarrow> side_open c d a \<Longrightarrow> side_open c' d a"
  by (auto simp: same_sides_def side_open_def unfired_def)

lemma same_sides_closed: "same_sides d c c' \<Longrightarrow> a \<noteq> Notify \<Longrightarrow> side_closed c d a \<Longrightarrow> side_closed c' d a"
  by (auto simp: same_sides_def side_closed_def unfired_def)

lemma same_sides_is_open: "same_sides d c c' \<Longrightarrow> is_open c d \<Longrightarrow> is_open c' d"
  by (auto simp: is_open_def same_sides_open) (simp add: same_sides_def)

lemma same_sides_is_settled: "same_sides d c c' \<Longrightarrow> a \<noteq> Notify \<Longrightarrow> is_settled c d a v \<Longrightarrow> is_settled c' d a v"
  using same_sides_closed[of d c c' "opp a"]
  by (auto simp: is_settled_def opp_Notify) (auto simp: same_sides_def unfired_def)

lemma steady_same_sides: "same_sides d c c' \<Longrightarrow> lists_own c' \<Longrightarrow> steady d c \<Longrightarrow> steady d c'"
  unfolding steady_def using same_sides_is_open same_sides_is_settled by blast

lemma same_lists_sides: "same_lists c c' \<Longrightarrow> same_sides d c c'"
  by (auto simp: same_lists_def same_sides_def status_of_def the_list_def called_with_def)

lemma calls_simps [simp]:
  "calls (goto k c) = calls c" "calls (push f c) = calls c" "calls (set_list d l st c) = calls c"
  "calls (set_state d s c) = calls c" "calls (c\<lparr>stack := fs\<rparr>) = calls c"
  by (simp_all add: calls_def goto_def push_def set_list_def set_state_def)

lemma firings_simps [simp]:
  "firings (goto k c) = firings c" "firings (set_list d l st c) = firings c"
  "firings (set_state d s c) = firings c" "firings (record_event e c) = firings c"
  by (simp_all add: firings_def goto_def set_list_def set_state_def record_event_def)

lemma firings_push [simp]: "firings (push f c) = firings c \<union> {(d, l). f = Firing d l}"
  by (auto simp: firings_def push_def)

lemma status_simps [simp]:
  "status_of (goto k c) d = status_of c d" "status_of (push f c) d = status_of c d"
  "status_of (record_event e c) d = status_of c d" "status_of (set_list n l st c) d = status_of c d"
  "status_of (c\<lparr>stack := fs\<rparr>) d = status_of c d"
  "status_of (set_state n s c) d = (if n = d then s else status_of c d)"
  by (simp_all add: status_of_def goto_def push_def record_event_def set_list_def set_state_def)

lemma called_with_simps [simp]:
  "called_with (goto k c) d a = called_with c d a" "called_with (push f c) d a = called_with c d a"
  "called_with (set_list n l st c) d a = called_with c d a" "called_with (set_state n s c) d a = called_with c d a"
  "called_with (c\<lparr>stack := fs\<rparr>) d a = called_with c d a"
  by (simp_all add: called_with_def)

lemma called_with_event:
  "called_with (record_event (Called n l f args) c) d a =
     called_with c d a \<union> (if n = d \<and> (l = Listeners a \<or> l = Handlers a) then {args} else {})"
  by (auto simp: called_with_def calls_event)

section \<open>Calls of the lists\<close>

lemma list_call_seen [simp]:
  "status_of (list_call n l cmd r c) d = status_of c d" "called_with (list_call n l cmd r c) d a = called_with c d a"
  by (simp_all add: list_call_def split: prod.splits)

lemma list_call_firings: "firings (list_call n l cmd r c) \<subseteq> firings c \<union> {(n, l)}"
  by (auto simp: list_call_def split: prod.splits)

lemma list_call_idle:
  "\<not> snd (snd (exec_cmd (list_opts l) cmd (the_list c n l))) \<Longrightarrow> firings (list_call n l cmd r c) = firings c"
  by (auto simp: list_call_def split: prod.splits)

lemma list_call_other:
  assumes "n \<noteq> d \<or> l = Listeners Notify \<or> l = Handlers Notify"
  shows "same_sides d c (list_call n l cmd r c)"
  using assms list_call_firings[of n l cmd r c] unfolding same_sides_def by auto

lemma side_open_Add:
  assumes "side_open c d a" "user_args as"
  shows "side_open (list_call d l (Add as) r c) d a"
proof -
  let ?c = "list_call d l (Add as) r c"
  have f: "(d, Listeners a) \<notin> firings ?c" "(d, Handlers a) \<notin> firings ?c"
    using assms list_call_firings[of d l "Add as" r c] list_call_idle[of l "Add as" c d r] add_virgin[OF _ assms(2)]
    by (cases "l = Listeners a \<or> l = Handlers a"; auto simp: side_open_def unfired_def)+
  then show ?thesis using assms add_virgin[OF _ assms(2)] by (auto simp: side_open_def unfired_def)
qed

lemma unfired_Add:
  assumes "unfired c d a" "user_args as"
  shows "unfired (list_call d l (Add as) r c) d a"
proof -
  let ?c = "list_call d l (Add as) r c"
  have "(d, Handlers a) \<notin> firings ?c"
    using assms list_call_firings[of d l "Add as" r c] list_call_idle[of l "Add as" c d r] add_virgin[OF _ assms(2)]
    by (cases "l = Handlers a") (auto simp: unfired_def)
  then show ?thesis using assms add_virgin[OF _ assms(2)] by (auto simp: unfired_def)
qed

lemma called_list_dead: "dead st \<Longrightarrow> called_list l (Add as) st = st"
  by (simp add: called_list_def add_dead del: exec_cmd.simps)

lemma side_closed_Add:
  assumes "side_closed c d a" "user_args as"
  shows "side_closed (list_call d l (Add as) r c) d a"
proof -
  let ?c = "list_call d l (Add as) r c"
  have "(d, Listeners a) \<notin> firings ?c"
    using assms list_call_firings[of d l "Add as" r c] list_call_idle[of l "Add as" c d r]
      add_dead[of "the_list c d (Listeners a)" "list_opts l" as]
    by (cases "l = Listeners a") (auto simp: side_closed_def simp del: exec_cmd.simps)
  then show ?thesis using assms unfired_Add[OF _ assms(2)] by (auto simp: side_closed_def called_list_dead)
qed

lemma settled_Add:
  assumes "is_settled c d a v" "a \<noteq> Notify" "user_args as"
  shows "is_settled (list_call n l (Add as) r c) d a v"
proof (cases "n = d")
  case False
  then show ?thesis using same_sides_is_settled[OF list_call_other] assms(1,2) by blast
next
  case True
  then show ?thesis
    using assms(1) side_closed_Add[OF _ assms(3), of c d "opp a" l r] unfired_Add[OF _ assms(3), of c d a l r]
    by (auto simp: is_settled_def add_spent)
qed

lemma steady_Add:
  assumes "steady d c" "user_args as"
  shows "steady d (list_call n l (Add as) r c)"
proof (cases "n = d")
  case False
  then show ?thesis
    using steady_same_sides[OF list_call_other] own.P_add[OF _ assms(2)] assms(1) by (auto simp: steady_def)
next
  case True
  let ?c = "list_call d l (Add as) r c"
  have own: "lists_own ?c" using own.P_add[OF _ assms(2)] assms(1) by (simp add: steady_def)
  show ?thesis
  proof (cases "is_open c d")
    case True
    then have "is_open ?c d" using side_open_Add[OF _ assms(2)] by (simp add: is_open_def)
    then show ?thesis using own \<open>n = d\<close> by (simp add: steady_def)
  next
    case False
    then obtain a v where a: "a \<noteq> Notify" "is_settled c d a v" using assms(1) by (auto simp: steady_def)
    then show ?thesis using own settled_Add[OF a(2,1) assms(2)] \<open>n = d\<close> unfolding steady_def by blast
  qed
qed

lemma fire_stops: "locked (the_list c d l) \<Longrightarrow> list_call d l (FireWith v) r c = goto (Return r) (set_list d l (the_list c d l) c)"
  by (simp add: list_call_def)

lemma set_list_same [simp]: "set_list d l (the_list c d l) c = c"
  by (simp add: set_list_def the_list_def)

lemma fire_starts:
  assumes "virgin xs (the_list c d l)"
  shows "list_call d l (FireWith v) r c =
    goto (Return Undefined) (push (Firing d l) (push (Rest [] r)
      (set_list d l (called_list l (FireWith v) (the_list c d l)) c)))"
  using assms by (auto simp: list_call_def called_list_def fire_begin_def Let_def elim!: virginE)

lemma settled_goto: "is_settled (goto k c) d a v = is_settled c d a v"
  by (simp add: is_settled_def side_closed_def unfired_def)

lemma settled_Fire:
  assumes "is_settled c d a v" "a \<noteq> Notify"
  shows "is_settled (list_call n (Listeners b) (FireWith w) r c) d a v"
proof (cases "n = d \<and> b \<noteq> Notify")
  case False
  then have "same_sides d c (list_call n (Listeners b) (FireWith w) r c)" by (intro list_call_other) auto
  then show ?thesis using same_sides_is_settled assms by blast
next
  case True
  then have "b = a \<or> b = opp a" using assms(2) by (cases a; cases b; simp)
  then have "locked (the_list c d (Listeners b))"
    using assms(1) by (auto simp: is_settled_def spent_def side_closed_def dead_def)
  then show ?thesis using True assms(1) by (simp add: fire_stops settled_goto)
qed

lemma steady_Fire:
  assumes "steady d c" "a \<noteq> Notify"
  shows "settles_once d (list_call d (Listeners a) (FireWith v) r c)"
proof -
  let ?c = "list_call d (Listeners a) (FireWith v) r c"
  have own: "lists_own ?c" using own.P_fire assms(1) by (simp add: steady_def)
  show ?thesis
  proof (cases "is_open c d")
    case True
    then have o: "side_open c d a" "side_open c d (opp a)" "status_of c d = Pending" "opp a \<noteq> a"
      using assms(2) by (cases a; simp add: is_open_def)+
    then have vg: "virgin (initial_callbacks d (Listeners a)) (the_list c d (Listeners a))" by (simp add: side_open_def)
    have "is_settling ?c d a v"
      using o fire_virgin[OF vg, where l = "Listeners a" and v = v] assms(2)
      unfolding fire_starts[OF vg] is_settling_def by (auto simp: side_open_def unfired_def)
    then show ?thesis using own assms(2) by (auto simp: settles_once_def)
  next
    case False
    then obtain b w where b: "b \<noteq> Notify" "is_settled c d b w" using assms(1) by (auto simp: steady_def)
    then show ?thesis using own settled_Fire[OF b(2,1)] unfolding settles_once_def steady_def by blast
  qed
qed

lemma own_cases:
  assumes "own_callback n l cb"
  shows "(\<exists>f. cb = Callback f) \<or>
    (\<exists>a. l = Listeners a \<and> (cb = FireList n (Handlers a) \<or>
      a \<noteq> Notify \<and> (cb = SetState n (final a) \<or> cb = DisableList n (Listeners (opp a)) \<or> cb = LockList n (Listeners Notify))))"
  using assms
  by (auto simp: own_callback_def initial_callbacks_def final_def split: lref.splits action.splits)

lemma same_sides_set_list:
  assumes "n \<noteq> d \<or> l = Listeners Notify \<or> l = Handlers Notify"
  shows "same_sides d c (goto k (set_list n l st c))"
  using assms by (auto simp: same_sides_def)

lemma fire_callback_other:
  assumes "own_callback n l cb" "n \<noteq> d \<or> l = Listeners Notify \<or> l = Handlers Notify"
  shows "same_sides d c (fire_callback cb n l args c)"
proof -
  consider f where "cb = Callback f" | a where "l = Listeners a" "cb = FireList n (Handlers a)"
    | "n \<noteq> d" "(\<exists>s. cb = SetState n s) \<or> (\<exists>m. cb = DisableList n m \<or> cb = LockList n m)"
    using own_cases[OF assms(1)] assms(2) by blast
  then show ?thesis
  proof cases
    case 1
    then show ?thesis
      using assms(2) by (auto simp: fire_callback_def same_sides_def called_with_event)
  next
    case 2
    then show ?thesis using list_call_other assms(2) by (auto simp: fire_callback_def)
  next
    case 3
    then show ?thesis by (auto simp: fire_callback_def same_sides_def)
  qed
qed

lemma same_sides_trans: "same_sides d c c1 \<Longrightarrow> same_sides d c1 c2 \<Longrightarrow> same_sides d c c2"
  unfolding same_sides_def by metis

lemma same_sides_pop:
  assumes "stack c = f # rest" "n \<noteq> d \<or> l = Listeners Notify \<or> l = Handlers Notify"
  shows "same_sides d c (goto k (set_list n l st c\<lparr>stack := rest\<rparr>))"
  using assms unfolding same_sides_def by (auto simp: firings_def goto_def set_list_def called_with_def calls_def status_of_def the_list_def)

lemma fire_step_other:
  assumes "lists_own c" "stack c = Firing n l # rest" "n \<noteq> d \<or> l = Listeners Notify \<or> l = Handlers Notify"
  shows "same_sides d c (fire_step n l rest c)"
proof -
  define st where "st = the_list c n l"
  show ?thesis
  proof (cases "firingIndex st + 1 < int (length (listeners st))")
    case True
    let ?cb = "listeners st ! nat (firingIndex st + 1)"
    let ?c = "set_list n l (st\<lparr>firingIndex := firingIndex st + 1\<rparr>) c"
    have "-1 \<le> firingIndex st" using assms(1) by (simp add: lists_own_def st_def)
    then have "?cb \<in> set (listeners st)" using True by (auto intro!: nth_mem)
    then have own: "own_callback n l ?cb" using assms(1) by (auto simp: lists_own_def st_def)
    have "same_sides d c ?c" using assms(3) by (auto simp: same_sides_def)
    then show ?thesis
      using same_sides_trans fire_callback_other[OF own assms(3)] True
      by (simp add: fire_step_def Let_def st_def[symmetric])
  next
    case False
    then show ?thesis
      using same_sides_pop[OF assms(2,3)] same_sides_set_list[OF assms(3)]
      by (auto simp: fire_step_def Let_def st_def[symmetric] split: list.splits)
  qed
qed

section \<open>Firing the lists of a settled deferred\<close>

lemma spent_index: "spent v st \<Longrightarrow> spent v (st\<lparr>firingIndex := i\<rparr>)"
  by (simp add: spent_def)

lemma opp_other: "a \<noteq> Notify \<Longrightarrow> opp a \<noteq> a"
  by (cases a) simp_all

lemma settled_event:
  "is_settled c d a v \<Longrightarrow> a \<noteq> Notify \<Longrightarrow> l = Listeners a \<or> l = Handlers a \<Longrightarrow>
     is_settled (record_event (Called d l f v) c) d a v"
  using opp_other[of a] by (auto simp: is_settled_def side_closed_def unfired_def called_with_event)

lemma settled_index:
  assumes "is_settled c d a v" "spent v (the_list c d l)" "l = Listeners a \<or> l = Handlers a" "spent v st" "a \<noteq> Notify"
  shows "is_settled (set_list d l st c) d a v"
  using assms by (cases a) (auto simp: is_settled_def side_closed_def unfired_def)

lemma settled_pop: "is_settled c d a v \<Longrightarrow> stack c = f # rest \<Longrightarrow> is_settled (c\<lparr>stack := rest\<rparr>) d a v"
  by (auto simp: is_settled_def side_closed_def unfired_def firings_def)

lemma settled_FireList:
  assumes "is_settled c d a v" "a \<noteq> Notify"
  shows "is_settled (list_call d (Handlers a) (FireWith v) r c) d a v"
proof (cases "locked (the_list c d (Handlers a))")
  case True
  then show ?thesis using assms(1) by (simp add: fire_stops settled_goto)
next
  case False
  then have u: "unfired c d a" using assms(1) by (auto simp: is_settled_def spent_def)
  then have vg: "virgin [] (the_list c d (Handlers a))" by (simp add: unfired_def)
  have "opp a \<noteq> a" using assms(2) by (rule opp_other)
  then show ?thesis
    using assms fire_virgin(1)[OF vg] unfolding fire_starts[OF vg]
    by (auto simp: is_settled_def side_closed_def unfired_def)
qed

lemma settled_fire_callback:
  assumes "is_settled c d a v" "a \<noteq> Notify" "own_callback d l cb" "l = Listeners a \<or> l = Handlers a"
  shows "is_settled (fire_callback cb d l v c) d a v"
proof -
  consider f where "cb = Callback f" | "cb = FireList d (Handlers a)" | "cb = SetState d (final a)"
    | "cb = DisableList d (Listeners (opp a))" | "cb = LockList d (Listeners Notify)"
    using own_cases[OF assms(3)] assms(4) by blast
  then show ?thesis
  proof cases
    case 1
    then show ?thesis using settled_event[OF assms(1,2,4)] by (simp add: fire_callback_def settled_goto)
  next
    case 2
    then show ?thesis using settled_FireList[OF assms(1,2)] by (simp add: fire_callback_def)
  next
    case 3
    then show ?thesis
      using assms(1) by (simp add: fire_callback_def is_settled_def side_closed_def unfired_def)
  next
    case 4
    have "dead (fst (exec_cmd (list_opts (Listeners (opp a))) Disable (the_list c d (Listeners (opp a)))))"
      using assms(1) by (intro disable_dead) (simp add: is_settled_def side_closed_def)
    moreover have "opp a \<noteq> a" using assms(2) by (rule opp_other)
    ultimately show ?thesis
      using assms(1) 4
      by (auto simp: fire_callback_def is_settled_def side_closed_def unfired_def simp del: exec_cmd.simps)
  next
    case 5
    have "opp a \<noteq> Notify" using assms(2) by (simp add: opp_Notify)
    then show ?thesis
      using assms(1,2) 5
      by (auto simp: fire_callback_def is_settled_def side_closed_def unfired_def simp del: exec_cmd.simps)
  qed
qed

lemma settled_fire_step:
  assumes "is_settled c d a v" "a \<noteq> Notify" "lists_own c" "stack c = Firing d l # rest"
    and l: "l = Listeners a \<or> l = Handlers a"
  shows "is_settled (fire_step d l rest c) d a v"
proof -
  define st where "st = the_list c d l"
  have "(d, l) \<in> firings c" using assms(4) by (simp add: firings_def)
  then have sp: "spent v st" using assms(1) l by (auto simp: is_settled_def unfired_def st_def)
  then have m: "memory st = Some v" "queue st = []" by (simp_all add: spent_def)
  show ?thesis
  proof (cases "firingIndex st + 1 < int (length (listeners st))")
    case True
    let ?cb = "listeners st ! nat (firingIndex st + 1)"
    let ?c = "set_list d l (st\<lparr>firingIndex := firingIndex st + 1\<rparr>) c"
    have "-1 \<le> firingIndex st" using assms(3) by (simp add: lists_own_def st_def)
    then have "?cb \<in> set (listeners st)" using True by (auto intro!: nth_mem)
    then have own: "own_callback d l ?cb" using assms(3) by (auto simp: lists_own_def st_def)
    have "is_settled ?c d a v"
      using settled_index[OF assms(1) _ l spent_index[OF sp] assms(2)] sp by (simp add: st_def)
    from settled_fire_callback[OF this assms(2) own l] show ?thesis
      using True m by (simp add: fire_step_def Let_def st_def[symmetric])
  next
    case False
    have "is_settled (set_list d l (fire_end (list_opts l) (st\<lparr>firingIndex := -1\<rparr>)) c) d a v"
      using settled_index[OF assms(1) _ l spent_end[OF sp] assms(2)] sp by (simp add: st_def)
    then have "is_settled (set_list d l (fire_end (list_opts l) (st\<lparr>firingIndex := -1\<rparr>)) c\<lparr>stack := rest\<rparr>) d a v"
      by (rule settled_pop) (simp add: assms(4))
    then show ?thesis
      using False m by (simp add: fire_step_def Let_def st_def[symmetric] settled_goto)
  qed
qed

text \<open>The first two callbacks: the state is set, the other side is disabled.\<close>

lemma settling_fire_step:
  assumes "is_settling c d a v" "a \<noteq> Notify" "stack c = Firing d (Listeners a) # rest"
  shows "status_of c d = Pending \<Longrightarrow> is_settling (fire_step d (Listeners a) rest c) d a v"
    and "status_of c d \<noteq> Pending \<Longrightarrow> is_settled (fire_step d (Listeners a) rest c) d a v"
proof -
  define st where "st = the_list c d (Listeners a)"
  have sp: "spent v st" and op: "side_open c d (opp a)" using assms(1) by (simp_all add: is_settling_def st_def)
  obtain us where us: "listeners st = initial_callbacks d (Listeners a) @ map Callback us"
    using assms(1) by (auto simp: is_settling_def st_def)
  have init: "initial_callbacks d (Listeners a) =
      [SetState d (final a), DisableList d (Listeners (opp a)), LockList d (Listeners Notify), FireList d (Handlers a)]"
    and fin: "final a \<noteq> Pending"
    using assms(2) by (cases a; simp add: initial_callbacks_def final_def)+
  have ne: "opp a \<noteq> a" using assms(2) by (rule opp_other)
  have m: "memory st = Some v" using sp by (simp add: spent_def)
  show "is_settling (fire_step d (Listeners a) rest c) d a v" if p: "status_of c d = Pending"
  proof -
    have "firingIndex st = -1" using assms(1) p fin by (auto simp: is_settling_def st_def)
    then have "fire_step d (Listeners a) rest c =
        goto (Return Undefined) (set_state d (final a) (set_list d (Listeners a) (st\<lparr>firingIndex := 0\<rparr>) c))"
      using us by (simp add: fire_step_def Let_def st_def[symmetric] init fire_callback_def)
    then show ?thesis
      using assms(1,3) us sp op ne
      by (auto simp: is_settling_def side_open_def unfired_def spent_index)
  qed
  show "is_settled (fire_step d (Listeners a) rest c) d a v" if p: "status_of c d \<noteq> Pending"
  proof -
    define dl where "dl = fst (exec_cmd (list_opts (Listeners (opp a))) Disable (the_list c d (Listeners (opp a))))"
    have i: "firingIndex st = 0" "status_of c d = final a" using assms(1) p by (auto simp: is_settling_def st_def)
    have fs: "fire_step d (Listeners a) rest c =
        goto (Return Undefined) (set_list d (Listeners (opp a)) dl (set_list d (Listeners a) (st\<lparr>firingIndex := 1\<rparr>) c))"
      using i us ne by (simp add: fire_step_def Let_def st_def[symmetric] init fire_callback_def dl_def del: exec_cmd.simps)
    have "dead dl" unfolding dl_def using op by (intro disable_dead) (auto simp: side_open_def)
    then show ?thesis
      unfolding fs using assms(1) sp op ne i(2)
      by (auto simp: is_settling_def is_settled_def side_open_def side_closed_def unfired_def spent_index)
  qed
qed

lemma settles_fire_step:
  assumes "settles_once d c" "control c = Return w" "stack c = Firing n l # rest"
  shows "settles_once d (fire_step n l rest c)"
proof -
  have own: "lists_own c" using assms(1) by (auto simp: settles_once_def steady_def)
  then have own': "lists_own (fire_step n l rest c)" by (rule own_fire_step)
  show ?thesis
  proof (cases "steady d c")
    case True
    show ?thesis
    proof (cases "n \<noteq> d \<or> l = Listeners Notify \<or> l = Handlers Notify")
      case o: True
      have "steady d (fire_step n l rest c)"
        using steady_same_sides[OF fire_step_other[OF own assms(3) o] own' True] .
      then show ?thesis by (simp add: settles_once_def)
    next
      case False
      then have "(n, l) \<in> firings c" "n = d" using assms(3) by (auto simp: firings_def)
      moreover obtain b where b: "b \<noteq> Notify" "l = Listeners b \<or> l = Handlers b" using False by (cases l) auto
      ultimately have "\<not> is_open c d" by (cases b) (auto simp: is_open_def side_open_def unfired_def)
      then obtain a v where a: "a \<noteq> Notify" "is_settled c d a v" using True by (auto simp: steady_def)
      have "b \<noteq> opp a"
        using a(2) b(2) \<open>(n, l) \<in> firings c\<close> \<open>n = d\<close> by (auto simp: is_settled_def side_closed_def unfired_def)
      then have "b = a" using a(1) b(1) by (cases a; cases b; simp)
      then have "is_settled (fire_step n l rest c) d a v"
        using settled_fire_step[OF a(2,1) own] assms(3) b(2) \<open>n = d\<close> by blast
      then show ?thesis using own' a(1) by (auto simp: settles_once_def steady_def)
    qed
  next
    case False
    then obtain a v where a: "a \<noteq> Notify" "is_settling c d a v" using assms(1) by (auto simp: settles_once_def)
    then have "n = d" "l = Listeners a" using assms(3) by (auto simp: is_settling_def)
    then show ?thesis
      using settling_fire_step[OF a(2,1)] own' a(1) assms(3) by (auto simp: settles_once_def steady_def)
  qed
qed

interpretation settle: machine_invariant "steady d" "settles_once d" for d
proof
  show "steady d c'" if "steady d c" "same_lists c c'" for c c'
    using that steady_same_sides[OF same_lists_sides] own.S_same unfolding steady_def by blast
  show "settles_once d c" if "steady d c" for c
    using that by (simp add: settles_once_def)
  show "steady d c" if "settles_once d c" "\<forall>v n l rest. control c = Return v \<longrightarrow> stack c \<noteq> Firing n l # rest" for c
    using that by (auto simp: settles_once_def is_settling_def)
  show "settles_once d (list_call n l (Add as) r c)" if "steady d c" "user_args as" for c as n l r
    using steady_Add[OF that] by (simp add: settles_once_def)
  show "settles_once d (list_call n (Listeners a) (FireWith args) r c)" if "steady d c" for c n a args r
  proof (cases "n = d \<and> a \<noteq> Notify")
    case True
    then show ?thesis using steady_Fire that by blast
  next
    case False
    then have "same_sides d c (list_call n (Listeners a) (FireWith args) r c)" by (intro list_call_other) auto
    then show ?thesis
      using that steady_same_sides own.P_fire unfolding settles_once_def by (auto simp: steady_def)
  qed
qed (rule settles_fire_step)

section \<open>A state that was reached stays\<close>

definition stays :: "nat \<Rightarrow> action \<Rightarrow> val list \<Rightarrow> config \<Rightarrow> bool" where
  "stays d a v c \<longleftrightarrow> lists_own c \<and> a \<noteq> Notify \<and> is_settled c d a v"

definition was_set :: "nat \<Rightarrow> action \<Rightarrow> val list \<Rightarrow> config \<Rightarrow> bool" where
  "was_set d a v c \<longleftrightarrow> stays d a v c \<or> lists_own c \<and> a \<noteq> Notify \<and> is_settling c d a v \<and> status_of c d \<noteq> Pending"

lemma was_set_fire_step:
  assumes "was_set d a v c" "stack c = Firing n l # rest"
  shows "was_set d a v (fire_step n l rest c)"
proof -
  have own: "lists_own c" and a: "a \<noteq> Notify" using assms(1) by (auto simp: was_set_def stays_def)
  then have own': "lists_own (fire_step n l rest c)" using own_fire_step by blast
  have "is_settled (fire_step n l rest c) d a v"
  proof (cases "is_settled c d a v")
    case True
    show ?thesis
    proof (cases "n \<noteq> d \<or> l = Listeners Notify \<or> l = Handlers Notify")
      case o: True
      show ?thesis by (rule same_sides_is_settled[OF fire_step_other[OF own assms(2) o] a True])
    next
      case False
      then obtain b where b: "b \<noteq> Notify" "l = Listeners b \<or> l = Handlers b" by (cases l) auto
      have "(n, l) \<in> firings c" "n = d" using assms(2) False by (auto simp: firings_def)
      then have "b \<noteq> opp a" using True b(2) by (auto simp: is_settled_def side_closed_def unfired_def)
      then have "b = a" using a b(1) by (cases a; cases b; simp)
      then show ?thesis using settled_fire_step[OF True a own] assms(2) b(2) \<open>n = d\<close> by blast
    qed
  next
    case False
    then have s: "is_settling c d a v" "status_of c d \<noteq> Pending" using assms(1) by (auto simp: was_set_def stays_def)
    then have "n = d" "l = Listeners a" using assms(2) by (auto simp: is_settling_def)
    then show ?thesis using settling_fire_step(2)[OF s(1) a _ s(2)] assms(2) by blast
  qed
  then show ?thesis using own' a by (simp add: was_set_def stays_def)
qed

interpretation kept: machine_invariant "stays d a v" "was_set d a v" for d a v
proof
  show "stays d a v c'" if "stays d a v c" "same_lists c c'" for c c'
    using that same_sides_is_settled[OF same_lists_sides] own.S_same unfolding stays_def by blast
  show "stays d a v c" if "was_set d a v c" "\<forall>v n l rest. control c = Return v \<longrightarrow> stack c \<noteq> Firing n l # rest" for c
    using that by (auto simp: was_set_def is_settling_def)
  show "was_set d a v (list_call n l (Add as) r c)" if "stays d a v c" "user_args as" for c as n l r
    using that settled_Add own.P_add unfolding was_set_def stays_def by blast
  show "was_set d a v (list_call n (Listeners b) (FireWith args) r c)" if "stays d a v c" for c n b args r
    using that settled_Fire own.P_fire unfolding was_set_def stays_def by blast
  show "was_set d a v c" if "stays d a v c" for c
    using that by (simp add: was_set_def)
qed (rule was_set_fire_step)

lemma initial_steady: "steady d initial"
proof -
  have l: "the_list initial n l = Callbacks\<lparr>cb_list := Some (initial_callbacks n l)\<rparr>" for n l
  proof -
    have "add_args False (map FunArg fs) [] = fs" for fs :: "callback list"
    proof -
      have "add_args False (map FunArg fs) xs = xs @ fs" for xs by (induction fs arbitrary: xs) simp_all
      then show ?thesis by simp
    qed
    then show ?thesis by (simp add: initial_def the_list_def new_deferred_def Callbacks_def)
  qed
  have "lists_own initial" by (auto simp: lists_own_def l listeners_def own_callback_def Callbacks_def)
  moreover have "virgin (initial_callbacks d m) (the_list initial d m)" for m
    by (auto simp: l virgin_def intro: exI[of _ "[]"])
  moreover have "initial_callbacks d (Handlers a) = []" for a by (simp add: initial_callbacks_def)
  moreover have "firings initial = {}" "calls initial = {}" "status_of initial d = Pending"
    by (simp_all add: initial_def firings_def calls_def status_of_def new_deferred_def)
  ultimately show ?thesis
    by (auto simp: steady_def is_open_def side_open_def unfired_def called_with_def) metis+
qed

lemma initial_open: "is_open initial d"
proof -
  have "status_of initial d = Pending" by (simp add: initial_def status_of_def new_deferred_def)
  moreover have "final a = Pending \<Longrightarrow> a = Notify" for a by (cases a) (simp_all add: final_def)
  ultimately show ?thesis using initial_steady[of d] unfolding steady_def is_settled_def by metis
qed

lemma reachable_settles: "reachable beh c \<Longrightarrow> settles_once d c"
  using settle.P_reachable initial_steady settle.S_P by blast

lemma was_set_facts:
  assumes "was_set d a v c"
  shows "status_of c d = final a" "called_with c d a \<subseteq> {v}" "called_with c d (opp a) = {}" "final a \<noteq> Pending"
proof -
  have a: "a \<noteq> Notify" using assms by (auto simp: was_set_def stays_def)
  then show f: "final a \<noteq> Pending" by (cases a) (simp_all add: final_def)
  show "status_of c d = final a" "called_with c d a \<subseteq> {v}" "called_with c d (opp a) = {}"
    using assms f by (auto simp: was_set_def stays_def is_settled_def is_settling_def side_closed_def side_open_def)
qed

lemma settle_cases:
  assumes "reachable beh c"
  obtains "status_of c d = Pending" "called_with c d Resolve = {}" "called_with c d Reject = {}"
  | a v where "a \<noteq> Notify" "was_set d a v c"
proof -
  consider "is_open c d" | a v where "a \<noteq> Notify" "lists_own c" "is_settled c d a v"
    | a v where "a \<noteq> Notify" "lists_own c" "is_settling c d a v"
    using reachable_settles[OF assms, of d] by (auto simp: settles_once_def steady_def)
  then show thesis
  proof cases
    case 1
    then show thesis using that(1) by (simp add: is_open_def side_open_def)
  next
    case (2 a v)
    then show thesis using that(2)[of a v] by (simp add: was_set_def stays_def)
  next
    case (3 a v)
    show thesis
    proof (cases "status_of c d = Pending")
      case True
      have "called_with c d a = {}" "called_with c d (opp a) = {}"
        using 3(3) by (simp_all add: is_settling_def side_open_def)
      then show thesis using that(1) True 3(1) by (cases a) simp_all
    qed (use 3 that(2)[of a v] in \<open>simp add: was_set_def\<close>)
  qed
qed

section \<open>Properties\<close>

text \<open>
  C8. A deferred is settled once and for all (Promises/A+ 2.1): callbacks on one side only are ever
  called, always with the same values and with the state to match; once the state is not pending,
  neither it nor the values change, whatever else the page does.
\<close>

theorem settled_once_for_all:
  assumes "reachable beh c"
  shows "(\<exists>a v. called_with c d a \<subseteq> {v} \<and> called_with c d (opp a) = {} \<and> a \<noteq> Notify \<and>
        (called_with c d a \<noteq> {} \<longrightarrow> status_of c d = final a)) \<and>
    (status_of c d \<noteq> Pending \<longrightarrow>
      (\<exists>v. \<forall>c'. moves beh c c' \<longrightarrow> status_of c' d = status_of c d \<and>
         called_with c' d Resolve \<union> called_with c' d Reject \<subseteq> {v}))"
proof (rule settle_cases[OF assms, of d])
  assume p: "status_of c d = Pending" "called_with c d Resolve = {}" "called_with c d Reject = {}"
  show ?thesis by (rule conjI; rule exI[of _ Resolve] impI) (simp_all add: p)
next
  fix a v
  assume a: "a \<noteq> Notify" and w: "was_set d a v c"
  have later: "status_of c' d = status_of c d \<and> called_with c' d Resolve \<union> called_with c' d Reject \<subseteq> {v}"
    if "moves beh c c'" for c'
  proof -
    have "was_set d a v c'" using kept.P_moves[OF that w] rest_reachable[OF assms] by blast
    from was_set_facts[OF this] was_set_facts(1)[OF w] show ?thesis using a by (cases a) auto
  qed
  show ?thesis
  proof
    show "\<exists>a v. called_with c d a \<subseteq> {v} \<and> called_with c d (opp a) = {} \<and> a \<noteq> Notify \<and>
        (called_with c d a \<noteq> {} \<longrightarrow> status_of c d = final a)"
      using was_set_facts[OF w] a by blast
  qed (use later in blast)
qed

text \<open>A deferred with the callback 1, resolved with 5, then rejected with 6; 2 is added for the failure.\<close>

definition sample_program :: uprog where
  "sample_program =
     Op (NewDeferred Undefined) (\<lambda>r. case r of Inl e \<Rightarrow> Throw e | Inr d \<Rightarrow>
       Op (AddTo d Resolve [FnVal (User 1)]) (\<lambda>_. Op (Fire d Resolve [Scalar 5]) (\<lambda>_.
         Op (Fire d Reject [Scalar 6]) (\<lambda>_. Op (AddTo d Reject [FnVal (User 2)]) (\<lambda>_. Finish d)))))"

definition sample_page :: page where
  "sample_page h u args = Finish (Scalar u)"

theorem settled_once_for_all_witness:
  "called_with (steps sample_page 40 (start_program sample_program initial)) 0 Resolve = {[Scalar 5]} \<and>
   called_with (steps sample_page 40 (start_program sample_program initial)) 0 Reject = {}"
proof -
  let ?c = "steps sample_page 40 (start_program sample_program initial)"
  have r: "reachable sample_page ?c"
    using reachable_moves[OF reachable_move[OF reachable_initial move_start] moves_steps] .
  have "log ?c = [Called 0 (Listeners Resolve) (User 1) [Scalar 5]]"
    by code_simp
  then have s: "[Scalar 5] \<in> called_with ?c 0 Resolve" by (auto simp: called_with_def calls_def)
  obtain a v where a: "called_with ?c 0 a \<subseteq> {v}" "called_with ?c 0 (opp a) = {}" "a \<noteq> Notify"
    using settled_once_for_all[OF r, of 0] by blast
  then have "a = Resolve" using s by (cases a) auto
  then show ?thesis using a s by auto
qed

end
