(* ===== verification/JqThen.thy ===== *)
theory JqThen
  imports JqSettle
begin

text \<open>
  What \<open>then\<close> and \<open>when\<close> do with handlers and values (theory \<open>JqDeferred\<close>): handlers run from timers
  only, what they return or throw settles the promise of \<open>then\<close>, and \<open>when\<close> collects the values of
  its arguments in their order.
\<close>

section \<open>Handlers run from timers\<close>

definition handlers_called :: "config \<Rightarrow> event list" where
  "handlers_called c = filter (\<lambda>e. case e of HandlerCalled t f args \<Rightarrow> True | _ \<Rightarrow> False) (log c)"

lemma log_simps [simp]:
  "log (goto k c) = log c" "log (push f c) = log c" "log (set_list d l st c) = log c"
  "log (set_state d s c) = log c" "log (set_timer r c) = log c" "log (record_event e c) = log c @ [e]"
  by (simp_all add: goto_def push_def set_list_def set_state_def set_timer_def record_event_def)

lemma log_list_call [simp]: "log (list_call d l cmd r c) = log c"
  by (simp add: list_call_def split: prod.splits)

lemma log_then [simp]: "log (do_then d f g p c) = log c" "log (do_pipe d f g p c) = log c"
  by (simp_all add: do_then_def do_pipe_def Let_def)

lemma log_call_then [simp]: "log (call_then v f g p c) = log c"
  by (simp add: call_then_def split: val.splits option.splits)

lemma log_after_handler [simp]: "log (after_handler t depth d h special args v c) = log c"
  by (simp add: after_handler_def Let_def)

lemma log_caught [simp]: "log (caught t depth d h args e c) = log c"
  by (simp add: caught_def)

lemma log_pipe [simp]: "log (call_piped n a h args c) = log c" "log (after_pipe n a v c) = log c"
  by (simp_all add: call_piped_def after_pipe_def split: handler.splits option.splits)

lemma log_adopt [simp]: "log (adoptValue v f g b c) = log c"
  by (simp add: adoptValue_def Let_def split: val.splits option.splits)

lemma log_when [simp]:
  "log (call_update w i args c) = log c" "log (when_loop w i c) = log c" "log (when_adopt w i v c) = log c"
  "log (do_when args c) = log c" "log (when_check w i c) = log c"
  by (simp_all add: call_update_def when_loop_def when_adopt_def do_when_def when_check_def Let_def split: nat.splits)

lemma log_perform [simp]: "log (perform p c) = log c"
  by (simp add: perform_def on_promise_def Let_def split: op.splits val.splits option.splits)

lemma handlers_process:
  "handlers_called (process t depth d h special args c) =
     handlers_called c @
     (case h of Handler f \<Rightarrow> if depth < maxDepth c t then [] else [HandlerCalled t f args] | _ \<Rightarrow> [])"
  by (simp add: handlers_called_def process_def call_handler_def Let_def split: handler.splits)

lemma handlers_call_fn: "handlers_called (call_fn beh f args c) = handlers_called c"
  by (auto simp: call_fn_def handlers_process Let_def split: fn.splits) (auto simp: handlers_called_def)

lemma handlers_fire_step: "handlers_called (fire_step d l rest c) = handlers_called c"
  by (auto simp: handlers_called_def fire_step_def fire_callback_def Let_def split: callback.splits list.splits)

lemma handlers_return: "handlers_called (return_to f rest v c) = handlers_called c"
proof (cases "\<exists>d l. f = Firing d l")
  case True
  then show ?thesis by (auto simp: return_to_def handlers_fire_step)
next
  case False
  then have "log (return_to f rest v c) = log c"
    by (auto simp: return_to_def Let_def split: frame.splits list.splits)
  then show ?thesis by (simp add: handlers_called_def)
qed

lemma handlers_raise: "handlers_called (raise_to f rest e c) = handlers_called c"
  by (simp add: handlers_called_def raise_to_def Let_def split: frame.splits)

lemma handlers_step: "handlers_called (step beh c) = handlers_called c"
  by (simp add: step_def handlers_call_fn handlers_return handlers_raise split: control.splits uprog.splits list.splits)
     (auto simp: handlers_called_def)

section \<open>When nothing runs, nothing is in progress\<close>

lemma runs_list_call [simp]: "control (list_call d l cmd r c) \<noteq> Quiet"
  by (simp add: list_call_def split: prod.splits)

lemma runs_then [simp]: "control (do_then d f g p c) \<noteq> Quiet" "control (do_pipe d f g p c) \<noteq> Quiet"
  by (simp_all add: do_then_def do_pipe_def Let_def)

lemma runs_handler [simp]: "control (call_handler t h args c) \<noteq> Quiet"
  by (simp add: call_handler_def split: handler.splits)

lemma runs_process [simp]: "control (process t depth d h special args c) \<noteq> Quiet"
  by (simp add: process_def Let_def)

lemma runs_call_then [simp]: "control (call_then v f g p c) \<noteq> Quiet"
  by (simp add: call_then_def split: val.splits option.splits)

lemma runs_after [simp]:
  "control (after_handler t depth d h special args v c) \<noteq> Quiet" "control (caught t depth d h args e c) \<noteq> Quiet"
  "control (call_piped n a h args c) \<noteq> Quiet" "control (after_pipe n a v c) \<noteq> Quiet"
  by (simp_all add: after_handler_def caught_def call_piped_def after_pipe_def Let_def split: handler.splits option.splits)

lemma runs_adopt [simp]: "control (adoptValue v f g b c) \<noteq> Quiet"
  by (simp add: adoptValue_def Let_def split: val.splits option.splits)

lemma runs_when [simp]:
  "control (call_update w i args c) \<noteq> Quiet" "control (when_loop w i c) \<noteq> Quiet"
  "control (when_adopt w i v c) \<noteq> Quiet" "control (do_when args c) \<noteq> Quiet" "control (when_check w i c) \<noteq> Quiet"
  by (simp_all add: call_update_def when_loop_def when_adopt_def do_when_def when_check_def Let_def split: nat.splits)

lemma runs_perform: "control (perform p c) \<noteq> Quiet"
  by (simp add: perform_def on_promise_def Let_def split: op.splits val.splits option.splits)

lemma runs_call_fn: "control (call_fn beh f args c) \<noteq> Quiet"
  by (simp add: call_fn_def set_timer_def Let_def split: fn.splits)

lemma runs_fire_step: "control (fire_step d l rest c) \<noteq> Quiet"
  by (simp add: fire_step_def fire_callback_def Let_def split: callback.splits list.splits)

lemma runs_return: "control (return_to f rest v c) \<noteq> Quiet"
  by (simp add: return_to_def Let_def runs_fire_step split: frame.splits list.splits)

lemma runs_raise: "control (raise_to f rest e c) \<noteq> Quiet"
  by (simp add: raise_to_def Let_def split: frame.splits)

lemma quiet_step: "control (step beh c) = Quiet \<Longrightarrow> control c = Quiet \<longrightarrow> stack c = [] \<Longrightarrow> stack (step beh c) = []"
  using runs_perform runs_call_fn runs_return runs_raise
  by (auto simp: step_def split: control.splits uprog.splits list.splits)

lemma quiet_reachable: "reachable beh c \<Longrightarrow> control c = Quiet \<Longrightarrow> stack c = []"
proof -
  have "moves beh c0 c \<Longrightarrow> (control c0 = Quiet \<longrightarrow> stack c0 = []) \<Longrightarrow> control c = Quiet \<longrightarrow> stack c = []" for c0
  proof (induction rule: rtranclp_induct)
    case (step c1 c2)
    then have q: "control c1 = Quiet \<longrightarrow> stack c1 = []" by blast
    consider "c2 = step beh c1" | p where "c2 = start_program p c1" | "c2 = tick c1"
      using step.hyps(2) by (rule moveE)
    then show ?case
    proof cases
      case 1
      then show ?thesis using quiet_step[of beh c1] q by blast
    next
      case (2 p)
      then show ?thesis using q by (auto simp: start_program_def split: control.splits)
    next
      case 3
      then show ?thesis using q by (auto simp: tick_def split: control.splits list.splits timer.splits)
    qed
  qed
  then show "reachable beh c \<Longrightarrow> control c = Quiet \<Longrightarrow> stack c = []"
    by (auto simp: reachable_def initial_def)
qed

lemma timers_process: "timers (process t depth d h special args c) = timers c"
  by (simp add: process_def call_handler_def Let_def push_def goto_def record_event_def split: handler.splits)

lemma handlers_tick:
  "handlers_called (tick c) = handlers_called c \<or>
    control c = Quiet \<and> (\<exists>t depth d f special args ts. timers c = Timer t depth d (Handler f) special args # ts \<and>
      timers (tick c) = ts \<and> handlers_called (tick c) = handlers_called c @ [HandlerCalled t f args])"
proof (cases "control c = Quiet \<and> timers c \<noteq> []")
  case True
  then obtain t depth d h special args ts where t: "timers c = Timer t depth d h special args # ts"
    by (metis list.exhaust timer.exhaust)
  have h: "handlers_called (c\<lparr>timers := ts\<rparr>) = handlers_called c" by (simp add: handlers_called_def)
  show ?thesis using True t
    by (auto simp: tick_def handlers_process timers_process h split: handler.splits)
next
  case False
  then show ?thesis by (auto simp: tick_def split: list.splits timer.splits control.splits)
qed

section \<open>What a handler returns settles the promise\<close>

text \<open>The deferred has the state and the values of a side.\<close>

definition settled_to :: "config \<Rightarrow> nat \<Rightarrow> action \<Rightarrow> val list \<Rightarrow> bool" where
  "settled_to c d a v \<longleftrightarrow> status_of c d = final a \<and> memory (the_list c d (Listeners a)) = Some v"

lemma initial_first: "a \<noteq> Notify \<Longrightarrow> \<exists>xs. initial_callbacks d (Listeners a) = SetState d (final a) # xs"
  by (cases a) (simp_all add: initial_callbacks_def final_def)

lemma fire_settles:
  assumes "is_open c d" "a \<noteq> Notify"
  shows "settled_to (step beh (list_call d (Listeners a) (FireWith v) r c)) d a v"
proof -
  have vg: "virgin (initial_callbacks d (Listeners a)) (the_list c d (Listeners a))"
    using assms by (cases a) (simp_all add: is_open_def side_open_def)
  obtain xs where xs: "initial_callbacks d (Listeners a) = SetState d (final a) # xs"
    using initial_first[OF assms(2)] by blast
  define st where "st = called_list (Listeners a) (FireWith v) (the_list c d (Listeners a))"
  define c1 where "c1 = push (Rest [] r) (set_list d (Listeners a) st c)"
  have st: "spent v st" "firingIndex st = -1" "\<exists>us. listeners st = initial_callbacks d (Listeners a) @ us"
    using fire_virgin[OF vg, where l = "Listeners a" and v = v] assms(2) unfolding st_def by auto
  have c1: "list_call d (Listeners a) (FireWith v) r c = goto (Return Undefined) (push (Firing d (Listeners a)) c1)"
    unfolding fire_starts[OF vg] c1_def st_def ..
  have st1: "the_list c1 d (Listeners a) = st" by (simp add: c1_def)
  have "step beh (list_call d (Listeners a) (FireWith v) r c) =
      goto (Return Undefined) (set_state d (final a)
        (set_list d (Listeners a) (st\<lparr>firingIndex := 0\<rparr>) (goto (Return Undefined) (push (Firing d (Listeners a)) c1))))"
    using st(2,3) by (auto simp: c1 step_def return_to_def fire_step_def fire_callback_def Let_def st1 xs)
  then show ?thesis using st(1) by (simp add: settled_to_def spent_def)
qed

lemma same_open: "is_open c d \<Longrightarrow> same_lists c c' \<Longrightarrow> is_open c' d"
  using same_lists_sides same_sides_is_open by blast

text \<open>The call of a handler of \<open>then\<close>, in the \<open>try\<close> of \<open>process\<close>.\<close>

definition handling :: "config \<Rightarrow> nat \<Rightarrow> nat \<Rightarrow> nat \<Rightarrow> handler \<Rightarrow> val list \<Rightarrow> frame list \<Rightarrow> bool" where
  "handling c t depth n h args fs \<longleftrightarrow> stack c = After t depth n h False args # Catch t depth n h args # fs"

lemma control_stack: "(c :: config)\<lparr>control := k, stack := fs\<rparr> = c\<lparr>stack := fs, control := k\<rparr>"
  by simp

lemma handled_value:
  assumes "handling c t depth n h args fs" "is_open c n" "control c = Return v" "v \<noteq> PromiseObj n" "\<not> thenable v"
  shows "settled_to (steps beh 2 c) n Resolve (if h = Identity then args else [v])"
proof -
  let ?c = "c\<lparr>stack := Catch t depth n h args # fs\<rparr>"
  have o: "is_open ?c n" using same_open[OF assms(2) same_pop] assms(1) by (simp add: handling_def)
  have "step beh c = list_call n (Listeners Resolve) (FireWith (if h = Identity then args else [v])) Undefined ?c"
    using assms by (simp add: step_def handling_def return_to_def after_handler_def)
  then show ?thesis using fire_settles[OF o, of Resolve] by (simp add: numeral_2_eq_2)
qed

lemma handled_exception:
  assumes "handling c t depth n h args fs" "is_open c n" "control c = Raise e" "maxDepth c t \<le> depth + 1"
  shows "settled_to (steps beh 3 c) n Reject (if h = Thrower then args else [e])"
proof -
  let ?c = "c\<lparr>stack := fs\<rparr>"
  have s: "same_lists c ?c" using assms(1) by (auto simp: handling_def same_lists_def calls_def firings_def)
  have "steps beh 2 c = list_call n (Listeners Reject) (FireWith (if h = Thrower then args else [e])) Undefined
      (goto (Raise e) ?c)"
    using assms by (simp add: step_def handling_def raise_to_def caught_def numeral_2_eq_2 goto_def control_stack)
  then have "steps beh 3 c = step beh (list_call n (Listeners Reject) (FireWith (if h = Thrower then args else [e]))
      Undefined (goto (Raise e) ?c))"
    using steps_add[of beh 2 1 c] by simp
  then show ?thesis using fire_settles[OF same_open[OF assms(2)], of "goto (Raise e) ?c" Reject] s
    by (simp add: same_goto)
qed

lemma handled_itself:
  assumes "handling c t depth n h args fs" "is_open c n" "control c = Return (PromiseObj n)" "maxDepth c t \<le> depth + 1"
    "h \<noteq> Thrower"
  shows "settled_to (steps beh 3 c) n Reject [TypeError]"
proof -
  let ?c = "c\<lparr>stack := fs\<rparr>"
  have s: "same_lists c ?c" using assms(1) by (auto simp: handling_def same_lists_def calls_def firings_def)
  have "steps beh 2 c = list_call n (Listeners Reject) (FireWith [TypeError]) Undefined (goto (Raise TypeError) ?c)"
    using assms by (simp add: step_def handling_def return_to_def raise_to_def caught_def numeral_2_eq_2 goto_def
        after_handler_def control_stack)
  then have "steps beh 3 c = step beh (list_call n (Listeners Reject) (FireWith [TypeError])
      Undefined (goto (Raise TypeError) ?c))"
    using steps_add[of beh 2 1 c] by simp
  then show ?thesis using fire_settles[OF same_open[OF assms(2)], of "goto (Raise TypeError) ?c" Reject] s
    by (simp add: same_goto)
qed

text \<open>A foreign thenable is told to settle the promise, and older values are disregarded from then on.\<close>

lemma handled_thenable:
  assumes "handling c t depth n h args fs" "control c = Return (ThenableObj u)"
  shows "control (step beh c) =
      Call (User u) [FnVal (Settler t (Suc (maxDepth c t)) n False False), FnVal (Settler t (Suc (maxDepth c t)) n True False),
        FnVal (Settler t (Suc (maxDepth c t)) n False True)] \<and>
    maxDepth (step beh c) t = Suc (maxDepth c t)"
  using assms by (simp add: step_def handling_def return_to_def after_handler_def call_then_def thenable_def Let_def goto_def)

text \<open>A settler for the current depth settles it at once; one for an older depth does nothing.\<close>

lemma settler_settles:
  assumes "control c = Call (Settler t (Suc k) n throws False) args" "is_open c n" "maxDepth c t = Suc k"
    "\<not> thenable (first_arg args)"
  shows "settled_to (steps beh (if throws then 4 else 3) c) n (if throws then Reject else Resolve) args"
proof (cases throws)
  case False
  let ?c = "goto (Return (first_arg args)) (push (After t (Suc k) n Identity False args) (push (Catch t (Suc k) n Identity args) c))"
  have s: "step beh c = ?c"
    using assms False by (simp add: step_def call_fn_def process_def call_handler_def goto_def push_def)
  have "first_arg args \<noteq> PromiseObj n" using assms(4) by (auto simp: thenable_def)
  then have "settled_to (steps beh 2 ?c) n Resolve args"
    using handled_value[of ?c t "Suc k" n Identity args "stack c" "first_arg args" beh] assms(2,4)
      same_open[OF assms(2), of ?c]
    by (simp add: handling_def same_simps)
  then show ?thesis using False s by (simp add: numeral_eq_Suc)
next
  case True
  let ?c = "goto (Raise (first_arg args)) (push (After t (Suc k) n Thrower False args) (push (Catch t (Suc k) n Thrower args) c))"
  have s: "step beh c = ?c"
    using assms True by (simp add: step_def call_fn_def process_def call_handler_def goto_def push_def)
  have "settled_to (steps beh 3 ?c) n Reject args"
    using handled_exception[of ?c t "Suc k" n Thrower args "stack c" "first_arg args" beh] assms(2,3)
      same_open[OF assms(2), of ?c]
    by (simp add: handling_def same_simps) (simp add: goto_def push_def)
  then show ?thesis using True s by (simp add: numeral_eq_Suc)
qed

lemma settler_too_late:
  assumes "control c = Call (Settler t (Suc k) n throws False) args" "Suc k < maxDepth c t"
  shows "steps beh 2 c = goto (Return Undefined) c"
  using assms by (simp add: numeral_2_eq_2 step_def call_fn_def process_def return_to_def goto_def push_def)

section \<open>Aggregates\<close>

definition update_value :: "val list \<Rightarrow> val" where
  "update_value args = (if length args > 1 then Array args else first_arg args)"

text \<open>The calls that the arguments of \<open>when\<close> make of their closures, in the order in which they are settled.\<close>

fun updates :: "nat \<Rightarrow> (nat \<times> val list) list \<Rightarrow> config \<Rightarrow> config" where
  "updates w [] c = c"
| "updates w ((i, args) # us) c = updates w us (call_update w i args c)"

lemma updates_append: "updates w (us @ vs) c = updates w vs (updates w us c)"
  by (induction w us c rule: updates.induct) auto

lemma put_value_inside: "i < length vs \<Longrightarrow> put_value i v vs = vs[i := v]"
  by (simp add: put_value_def)

definition put_all :: "(nat \<times> val list) list \<Rightarrow> val list \<Rightarrow> val list" where
  "put_all us vs = fold (\<lambda>(i, args) vs. vs[i := update_value args]) us vs"

lemma length_put_all [simp]: "length (put_all us vs) = length vs"
  by (induction us arbitrary: vs) (auto simp: put_all_def)

lemma put_all_nth:
  "distinct (map fst us) \<Longrightarrow> i < length vs \<Longrightarrow>
     put_all us vs ! i = (case map_of us i of None \<Rightarrow> vs ! i | Some args \<Rightarrow> update_value args)"
proof (induction us arbitrary: vs)
  case (Cons u us)
  obtain j args where u: "u = (j, args)" by fastforce
  have "put_all (u # us) vs ! i = (case map_of us i of None \<Rightarrow> vs[j := update_value args] ! i | Some args \<Rightarrow> update_value args)"
    using Cons by (simp add: put_all_def u)
  moreover have "i = j \<Longrightarrow> map_of us i = None" using Cons.prems(1) u by (auto simp: map_of_eq_None_iff)
  ultimately show ?case using Cons.prems(2) u by (auto split: option.splits)
qed (simp add: put_all_def)

lemma updates_open:
  assumes "aggregates c w = \<lparr>remaining = int (length us + r), resolveValues = vs, master = m\<rparr>" "0 < r"
    and "\<forall>u \<in> set us. fst u < length vs"
  shows "aggregates (updates w us c) w = \<lparr>remaining = int r, resolveValues = put_all us vs, master = m\<rparr> \<and>
    same_lists c (updates w us c)"
  using assms
proof (induction us arbitrary: c vs)
  case (Cons u us)
  obtain i args where u: "u = (i, args)" by fastforce
  let ?a = "\<lparr>remaining = int (length us + r), resolveValues = vs[i := update_value args], master = m\<rparr>"
  have c: "call_update w i args c = goto (Return Undefined) (c\<lparr>aggregates := (aggregates c)(w := ?a)\<rparr>)"
    using Cons.prems u by (auto simp: call_update_def Let_def put_value_inside update_value_def)
  have "aggregates (call_update w i args c) w = ?a" by (simp add: c goto_def)
  moreover have "same_lists c (call_update w i args c)" by (simp add: c same_simps)
  ultimately show ?case
    using Cons.IH[of "call_update w i args c"] Cons.prems same_trans by (simp add: u put_all_def)
qed (simp add: put_all_def same_refl)

lemma updates_settle:
  assumes "aggregates c w = \<lparr>remaining = int (length vs), resolveValues = vs, master = m\<rparr>" "is_open c m"
    and us: "distinct (map fst us)" "fst ` set us = {..<length vs}" "us \<noteq> []"
  shows "same_lists c (updates w (butlast us) c)"
    and "settled_to (step beh (updates w us c)) m Resolve (map (\<lambda>i. update_value (the (map_of us i))) [0..<length vs])"
proof -
  obtain us' i args where u: "us = us' @ [(i, args)]" using us(3) by (metis append_butlast_last_id surj_pair)
  have "length us = length vs" using us(1,2) by (metis card_lessThan distinct_card length_map set_map)
  then have n: "length vs = length us' + 1" by (simp add: u)
  have b: "\<forall>u \<in> set us. fst u < length vs" using us(2) by auto
  let ?c = "updates w us' c"
  have c: "aggregates ?c w = \<lparr>remaining = 1, resolveValues = put_all us' vs, master = m\<rparr>" "same_lists c ?c"
    using updates_open[of c w us' 1 vs m] assms(1) b n by (simp_all add: u)
  then show "same_lists c (updates w (butlast us) c)" by (simp add: u)
  have vals: "put_all us vs = map (\<lambda>i. update_value (the (map_of us i))) [0..<length vs]"
  proof (rule nth_equalityI)
    fix j
    assume j: "j < length (put_all us vs)"
    then have "j \<in> fst ` set us" using us(2) by simp
    then obtain a where "map_of us j = Some a" by (metis not_None_eq map_of_eq_None_iff)
    then show "put_all us vs ! j = map (\<lambda>i. update_value (the (map_of us i))) [0..<length vs] ! j"
      using put_all_nth[OF us(1), of j vs] j by simp
  qed simp
  let ?a = "\<lparr>remaining = 0, resolveValues = put_all us vs, master = m\<rparr>"
  have i: "i < length vs" using b by (simp add: u)
  have "put_all us vs = (put_all us' vs)[i := update_value args]" by (simp add: u put_all_def)
  then have "updates w us c = list_call m (Listeners Resolve) (FireWith (put_all us vs)) Undefined
      (?c\<lparr>aggregates := (aggregates ?c)(w := ?a)\<rparr>)"
    using i by (simp add: u updates_append call_update_def c(1) Let_def put_value_inside update_value_def)
  then show "settled_to (step beh (updates w us c)) m Resolve (map (\<lambda>i. update_value (the (map_of us i))) [0..<length vs])"
    using fire_settles[OF same_open[OF assms(2)], of _ Resolve] c(2) by (simp add: vals[symmetric] same_simps)
qed

section \<open>Properties\<close>

text \<open>
  C10. A handler given to \<open>then\<close> never runs before the code that is running has ended (Promises/A+
  2.2.4): it is called when a timer expires, with nothing else in progress, by the oldest timer, which
  is used up, and with the arguments it was scheduled with.
\<close>

theorem then_handlers_asynchronous:
  assumes "reachable beh c" and "move beh c c'"
  shows "handlers_called c' = handlers_called c \<or>
    control c = Quiet \<and> stack c = [] \<and>
    (\<exists>t depth d f special args ts. timers c = Timer t depth d (Handler f) special args # ts \<and> timers c' = ts \<and>
       handlers_called c' = handlers_called c @ [HandlerCalled t f args])"
  using assms(2)
proof (rule moveE)
  assume "c' = tick c"
  then show ?thesis using handlers_tick[of c] quiet_reachable[OF assms(1)] by auto
next
  fix p
  assume "c' = start_program p c"
  then show ?thesis by (simp add: handlers_called_def start_program_def split: control.splits)
qed (simp add: handlers_step)

text \<open>A deferred that is resolved with 5, with handler 1 for it.\<close>

definition then_program :: uprog where
  "then_program =
     Op (NewDeferred Undefined) (\<lambda>r. case r of Inl e \<Rightarrow> Throw e | Inr d \<Rightarrow>
       Op (Fire d Resolve [Scalar 5]) (\<lambda>_. Op (Then d (FnVal (User 1)) Undefined Undefined) (\<lambda>_. Finish d)))"

theorem then_handlers_asynchronous_witness:
  "handlers_called (steps sample_page 30 (start_program then_program initial)) = [] \<and>
   handlers_called (tick (steps sample_page 30 (start_program then_program initial))) = [HandlerCalled 0 (User 1) [Scalar 5]]"
proof -
  let ?c = "steps sample_page 30 (start_program then_program initial)"
  have r: "reachable sample_page ?c"
    using reachable_moves[OF reachable_move[OF reachable_initial move_start] moves_steps] .
  let ?e = "Called 0 (Handlers Resolve) (Resolver 0 1 (Handler (User 1)) False) [Scalar 5]"
  have l: "log ?c = [?e]" "log (tick ?c) = [?e, HandlerCalled 0 (User 1) [Scalar 5]]" by code_simp+
  then show ?thesis
    using then_handlers_asynchronous[OF r move_tick] by (auto simp: handlers_called_def)
qed

text \<open>
  C9. The resolution procedure of \<open>then\<close> (Promises/A+ 2.2.7, 2.3): when a handler has returned a value
  that is no thenable, the promise of \<open>then\<close> is resolved with it (the missing handler passes on all
  values); when it has thrown, the promise is rejected with the exception, and so it is when it
  returned that promise itself; a foreign thenable gets functions that settle the promise, and makes
  older ones of them void.
\<close>

theorem then_resolution:
  assumes "handling c t depth n h args fs" and "is_open c n"
  shows "(control c = Return v \<and> v \<noteq> PromiseObj n \<and> \<not> thenable v \<longrightarrow>
      settled_to (steps beh 2 c) n Resolve (if h = Identity then args else [v])) \<and>
    (control c = Raise e \<and> maxDepth c t \<le> depth + 1 \<longrightarrow>
      settled_to (steps beh 3 c) n Reject (if h = Thrower then args else [e])) \<and>
    (control c = Return (PromiseObj n) \<and> maxDepth c t \<le> depth + 1 \<and> h \<noteq> Thrower \<longrightarrow>
      settled_to (steps beh 3 c) n Reject [TypeError]) \<and>
    (control c = Return (ThenableObj u) \<longrightarrow>
      maxDepth (step beh c) t = Suc (maxDepth c t) \<and>
      control (step beh c) = Call (User u) [FnVal (Settler t (Suc (maxDepth c t)) n False False),
        FnVal (Settler t (Suc (maxDepth c t)) n True False), FnVal (Settler t (Suc (maxDepth c t)) n False True)])"
  using handled_value[OF assms] handled_exception[OF assms] handled_itself[OF assms] handled_thenable[OF assms(1)]
  by blast

definition handler_returned :: config where
  "handler_returned = initial\<lparr>stack := [After 0 0 1 (Handler (User 1)) False [Scalar 5], Catch 0 0 1 (Handler (User 1)) [Scalar 5]],
     control := Return (Scalar 7)\<rparr>"

theorem then_resolution_witness:
  "settled_to (steps sample_page 2 handler_returned) 1 Resolve [Scalar 7]"
proof -
  have h: "handling handler_returned 0 0 1 (Handler (User 1)) [Scalar 5] []" "control handler_returned = Return (Scalar 7)"
    by (simp_all add: handling_def handler_returned_def)
  have "same_sides 1 initial handler_returned"
    by (simp add: handler_returned_def same_sides_def status_of_def the_list_def firings_def called_with_def calls_def)
  then have "is_open handler_returned 1" using same_sides_is_open initial_open by blast
  then show ?thesis
    using then_resolution[OF h(1), of "Scalar 7" sample_page] h(2) by (simp add: thenable_def)
qed

text \<open>
  A function that settles the promise on behalf of a thenable does so while it is the latest one,
  and does nothing once a later thenable has taken over.
\<close>

theorem settlers_settle:
  assumes "control c = Call (Settler t (Suc k) n throws False) args"
  shows "(is_open c n \<and> maxDepth c t = Suc k \<and> \<not> thenable (first_arg args) \<longrightarrow>
      settled_to (steps beh (if throws then 4 else 3) c) n (if throws then Reject else Resolve) args) \<and>
    (Suc k < maxDepth c t \<longrightarrow> steps beh 2 c = goto (Return Undefined) c)"
  using settler_settles[OF assms] settler_too_late[OF assms] by blast

theorem settlers_settle_witness:
  "steps sample_page 2 (initial\<lparr>control := Call (Settler 0 1 1 False False) [Scalar 5], maxDepth := (\<lambda>t. 2)\<rparr>) =
     goto (Return Undefined) (initial\<lparr>control := Call (Settler 0 1 1 False False) [Scalar 5], maxDepth := (\<lambda>t. 2)\<rparr>)"
  using settlers_settle[of "initial\<lparr>control := Call (Settler 0 1 1 False False) [Scalar 5], maxDepth := (\<lambda>t. 2)\<rparr>"
      0 0 1 False "[Scalar 5]" sample_page] by simp

text \<open>
  \<open>jQuery.when\<close> resolves its master when the last of its arguments is resolved, and not before, with
  the values in the order of the arguments, whatever the order in which they were resolved, as long as
  each argument is resolved once.
\<close>

theorem when_collects:
  assumes "aggregates c w = \<lparr>remaining = int (length vs), resolveValues = vs, master = m\<rparr>" and "is_open c m"
    and "distinct (map fst us)" and "fst ` set us = {..<length vs}" and "us \<noteq> []"
  shows "status_of (updates w (butlast us) c) m = Pending \<and>
    settled_to (step beh (updates w us c)) m Resolve (map (\<lambda>i. update_value (the (map_of us i))) [0..<length vs])"
  using updates_settle[OF assms] same_open[OF assms(2)] by (auto simp: is_open_def)

definition two_arguments :: config where
  "two_arguments = initial\<lparr>aggregates := (\<lambda>w. \<lparr>remaining = 2, resolveValues = [PromiseObj 1, PromiseObj 2], master = 3\<rparr>)\<rparr>"

theorem when_collects_witness:
  "settled_to (step sample_page (updates 0 [(1, [Scalar 9]), (0, [Scalar 8, Scalar 7])] two_arguments)) 3 Resolve
     [Array [Scalar 8, Scalar 7], Scalar 9]"
proof -
  let ?us = "[(1, [Scalar 9]), (0, [Scalar 8, Scalar 7])]"
  have a: "aggregates two_arguments 0 =
      \<lparr>remaining = int (length [PromiseObj 1, PromiseObj 2]), resolveValues = [PromiseObj 1, PromiseObj 2], master = 3\<rparr>"
    by (simp add: two_arguments_def)
  have o: "is_open two_arguments 3" using same_open[OF initial_open] by (simp add: two_arguments_def same_simps)
  have "fst ` set ?us = {..<length [PromiseObj 1, PromiseObj 2]}" by auto
  from when_collects[OF a o _ this, of sample_page] show ?thesis
    by (simp add: update_value_def first_arg_def upt_rec)
qed

text \<open>A thenable that resolves twice counts for two: the master is resolved with a promise still open.\<close>

lemma when_counts_twice:
  "settled_to (step beh (updates 0 [(0, [Scalar 8]), (0, [Scalar 8])] two_arguments)) 3 Resolve [Scalar 8, PromiseObj 2]"
proof -
  let ?c = "two_arguments\<lparr>control := Return Undefined, aggregates := (aggregates two_arguments)(0 :=
      \<lparr>remaining = 0, resolveValues = [Scalar 8, PromiseObj 2], master = 3\<rparr>)\<rparr>"
  have "same_lists initial ?c" by (simp add: two_arguments_def same_lists_def calls_def firings_def)
  then have o: "is_open ?c 3" by (rule same_open[OF initial_open])
  have "updates 0 [(0, [Scalar 8]), (0, [Scalar 8])] two_arguments =
      list_call 3 (Listeners Resolve) (FireWith [Scalar 8, PromiseObj 2]) Undefined ?c"
    by (simp add: two_arguments_def call_update_def Let_def put_value_def first_arg_def goto_def)
  then show ?thesis using fire_settles[OF o, of Resolve] by simp
qed

text \<open>
  A callback of \<open>done\<close> that throws leaves its list firing for good: callbacks added later (here 2) are
  never called, although the deferred is resolved.
\<close>

definition throwing_page :: page where
  "throwing_page h u args = (if u = 1 then Throw (Scalar 0) else Finish Undefined)"

definition throwing_program :: uprog where
  "throwing_program =
     Op (NewDeferred Undefined) (\<lambda>r. case r of Inl e \<Rightarrow> Throw e | Inr d \<Rightarrow>
       Op (AddTo d Resolve [FnVal (User 1)]) (\<lambda>_. Op (Fire d Resolve [Scalar 5]) (\<lambda>_.
         Op (AddTo d Resolve [FnVal (User 2)]) (\<lambda>_. Finish d))))"

lemma throwing_callback_blocks:
  "map (\<lambda>c. (log c, state (deferreds c 0), length (stack c)))
     [steps throwing_page 60 (start_program throwing_program initial)] =
   [([Called 0 (Listeners Resolve) (User 1) [Scalar 5]], Resolved, 0)]"
  by code_simp

end
