(* ===== verification/JqEvent.thy ===== *)
theory JqEvent
  imports JsObject JsSort JsRegex JqCallbacks
begin

text \<open>
  Event handlers of elements in \<open>jquery.js\<close>: the registry that \<open>jQuery.event.add\<close> and
  \<open>jQuery.event.remove\<close> keep for an element, with types, namespaces and selectors.  Functions are
  numbers, with a \<open>guid\<close> of their own; a selector is \<open>None\<close> when it is falsy.  The names of namespaces
  hold no characters with a meaning in regular expressions, and the browser supports \<open>focusin\<close>, so that no
  special type has the hooks \<open>setup\<close>, \<open>teardown\<close>, \<open>add\<close> and \<open>remove\<close>.
\<close>

section \<open>Types and namespaces\<close>

text \<open>The default comparison of \<open>sort\<close>: by code units.\<close>

fun str_before :: "string \<Rightarrow> string \<Rightarrow> bool" where
  "str_before [] t = (t \<noteq> [])"
| "str_before (a # s) [] = False"
| "str_before (a # s) (b # t) = (of_char a < (of_char b :: nat) \<or> a = b \<and> str_before s t)"

definition str_cmp :: "string \<Rightarrow> string \<Rightarrow> int" where
  "str_cmp s t = (if str_before s t then -1 else if str_before t s then 1 else 0)"

text \<open>\<open>rtypenamespace\<close> on a text without white space: the type, and what follows the first dot if anything does.\<close>

definition rtypenamespace :: "string \<Rightarrow> string \<times> string option" where
  "rtypenamespace t =
     (case dropWhile (\<lambda>c. c \<noteq> CHR ''.'') t of
        [] \<Rightarrow> (t, None)
      | d # ns \<Rightarrow> (takeWhile (\<lambda>c. c \<noteq> CHR ''.'') t, if ns = [] then None else Some ns))"

definition namespaces_of :: "string option \<Rightarrow> string list" where
  "namespaces_of ns = array_sort str_cmp (split_char CHR ''.'' (case ns of None \<Rightarrow> [] | Some s \<Rightarrow> s))"

text \<open>
  \<open>new RegExp( "(^|\\.)" + namespaces.join( "\\.(?:.*\\.|)" ) + "(\\.|$)" )\<close>: what follows the first group,
  and the test, which looks for it at the start and behind each dot.
\<close>

definition rx_dot :: rx where
  "rx_dot = RClass (\<lambda>c. c = CHR ''.'')"

fun rx_namespaces :: "string list \<Rightarrow> rx" where
  "rx_namespaces [] = RAlt rx_dot REnd"
| "rx_namespaces [n] = RSeq (rx_lit n) (RAlt rx_dot REnd)"
| "rx_namespaces (n # ns) =
     RSeq (rx_lit n) (RSeq rx_dot (RSeq (RAlt (RSeq (RStar not_newline) rx_dot) REmpty) (rx_namespaces ns)))"

fun test_behind_dots :: "rx \<Rightarrow> string \<Rightarrow> bool" where
  "test_behind_dots r [] = False"
| "test_behind_dots r (c # s) = (c = CHR ''.'' \<and> test_front r s \<or> test_behind_dots r s)"

definition namespace_test :: "string list \<Rightarrow> string \<Rightarrow> bool" where
  "namespace_test ns s \<longleftrightarrow> test_front (rx_namespaces ns) s \<or> test_behind_dots (rx_namespaces ns) s"

definition delegateType :: "string \<Rightarrow> string" where
  "delegateType t =
     (if t = ''focus'' then ''focusin'' else if t = ''blur'' then ''focusout''
      else if t = ''mouseenter'' then ''mouseover'' else if t = ''mouseleave'' then ''mouseout''
      else if t = ''pointerenter'' then ''pointerover'' else if t = ''pointerleave'' then ''pointerout'' else t)"

definition bindType :: "string \<Rightarrow> string" where
  "bindType t = (if t = ''focus'' \<or> t = ''blur'' then t else delegateType t)"

definition registered_type :: "string option \<Rightarrow> string \<Rightarrow> string" where
  "registered_type sel t = (if sel \<noteq> None then delegateType t else bindType t)"

section \<open>The registry\<close>

record handle_obj =
  htype :: string
  origType :: string
  handler :: nat
  guid :: nat
  selector :: "string option"
  namespace :: string

record handlers =
  objs :: "handle_obj list"
  delegateCount :: int

record registry =
  events :: "handlers obj option"
  listening :: "string list"  \<comment> \<open>types with the listener of the element\<close>

definition splice_in :: "int \<Rightarrow> 'a \<Rightarrow> 'a list \<Rightarrow> 'a list" where
  "splice_in i x xs = take (nat i) xs @ x # drop (nat i) xs"

definition add_obj :: "handle_obj \<Rightarrow> handlers \<Rightarrow> handlers" where
  "add_obj h hs =
     (if selector h \<noteq> None
      then hs\<lparr>objs := splice_in (delegateCount hs) h (objs hs), delegateCount := delegateCount hs + 1\<rparr>
      else hs\<lparr>objs := objs hs @ [h]\<rparr>)"

text \<open>One type of \<open>add\<close>, and \<open>add\<close>, which goes through the types from the last to the first.\<close>

definition add_one :: "nat \<Rightarrow> nat \<Rightarrow> string option \<Rightarrow> string \<Rightarrow> registry \<Rightarrow> registry" where
  "add_one f g sel t reg =
     (case rtypenamespace t of
        (orig, ns) \<Rightarrow>
          if orig = [] then reg
          else
            let type = registered_type sel orig;
                evs = (case events reg of None \<Rightarrow> [] | Some evs \<Rightarrow> evs);
                h = \<lparr>htype = type, origType = orig, handler = f, guid = g, selector = sel,
                     namespace = join ''.'' (namespaces_of ns)\<rparr>
            in (case obj_get evs type of
                  None \<Rightarrow> reg\<lparr>events := Some (obj_put evs type (add_obj h \<lparr>objs = [], delegateCount = 0\<rparr>)),
                              listening := (if type \<in> set (listening reg) then listening reg else listening reg @ [type])\<rparr>
                | Some hs \<Rightarrow> reg\<lparr>events := Some (obj_put evs type (add_obj h hs))\<rparr>))"

definition type_list :: "string \<Rightarrow> string list" where
  "type_list types = (let ts = rnothtmlwhite types in if ts = [] then [[]] else ts)"

definition event_add :: "nat \<Rightarrow> nat \<Rightarrow> string option \<Rightarrow> string \<Rightarrow> registry \<Rightarrow> registry" where
  "event_add f g sel types reg =
     fold (add_one f g sel) (rev (type_list types))
       (case events reg of None \<Rightarrow> reg\<lparr>events := Some []\<rparr> | Some evs \<Rightarrow> reg)"

text \<open>What \<open>remove\<close> is asked for.\<close>

record request =
  req_guid :: "nat option"
  req_selector :: "string option"

definition selected :: "request \<Rightarrow> bool \<Rightarrow> string \<Rightarrow> string option \<Rightarrow> handle_obj \<Rightarrow> bool" where
  "selected r mapped orig ns h \<longleftrightarrow>
     (mapped \<or> orig = origType h) \<and>
     (case req_guid r of None \<Rightarrow> True | Some g \<Rightarrow> g = guid h) \<and>
     (case ns of None \<Rightarrow> True | Some s \<Rightarrow> namespace_test (namespaces_of ns) (namespace h)) \<and>
     (case req_selector r of
        None \<Rightarrow> True
      | Some s \<Rightarrow> selector h = Some s \<or> s = ''**'' \<and> selector h \<noteq> None)"

fun remove_loop :: "(handle_obj \<Rightarrow> bool) \<Rightarrow> nat \<Rightarrow> handlers \<Rightarrow> handlers" where
  "remove_loop P 0 hs = hs"
| "remove_loop P (Suc j) hs =
     (let h = objs hs ! j
      in remove_loop P j
           (if P h
            then hs\<lparr>objs := remove_at j (objs hs),
                    delegateCount := (if selector h \<noteq> None then delegateCount hs - 1 else delegateCount hs)\<rparr>
            else hs))"

definition remove_type :: "request \<Rightarrow> bool \<Rightarrow> string \<Rightarrow> string option \<Rightarrow> handlers obj \<Rightarrow> string list \<Rightarrow>
    handlers obj \<times> string list" where
  "remove_type r mapped orig ns evs ls =
     (let type = registered_type (req_selector r) orig
      in case obj_get evs type of
           None \<Rightarrow> (evs, ls)
         | Some hs \<Rightarrow>
             let hs' = remove_loop (selected r mapped orig ns) (length (objs hs)) hs
             in if objs hs \<noteq> [] \<and> objs hs' = []
                then (obj_delete evs type, filter (\<lambda>l. l \<noteq> type) ls)
                else (obj_put evs type hs', ls))"

text \<open>One type of \<open>remove\<close>; without a type, all registered types with the given namespaces.\<close>

definition remove_one :: "request \<Rightarrow> string \<Rightarrow> handlers obj \<times> string list \<Rightarrow> handlers obj \<times> string list" where
  "remove_one r t st =
     (case rtypenamespace t of
        (orig, ns) \<Rightarrow>
          if orig = [] then fold (\<lambda>type (evs, ls). remove_type r True type ns evs ls) (obj_keys (fst st)) st
          else remove_type r False orig ns (fst st) (snd st))"

definition event_remove :: "request \<Rightarrow> string \<Rightarrow> registry \<Rightarrow> registry" where
  "event_remove r types reg =
     (case events reg of
        None \<Rightarrow> reg
      | Some evs \<Rightarrow>
          (case fold (remove_one r) (rev (type_list types)) (evs, listening reg) of
             (evs', ls) \<Rightarrow> \<lparr>events = (if evs' = [] then None else Some evs'), listening = ls\<rparr>))"

section \<open>Namespaces are a subset\<close>

lemma split_at_dot: "split_char c (t @ c # x) = split_char c t @ split_char c x"
  by (induction t) (auto split: list.splits)

lemma split_front: "c \<notin> set n \<Longrightarrow> hd (split_char c s) = n \<longleftrightarrow> s = n \<or> (\<exists>r. s = n @ c # r)"
proof
  assume n: "c \<notin> set n" and h: "hd (split_char c s) = n"
  obtain ps where ps: "split_char c s = n # ps" using h by (metis list.exhaust_sel split_char_neq_Nil)
  have "s = join [c] (n # ps)" using join_split_char[of c s] ps by simp
  then show "s = n \<or> (\<exists>r. s = n @ c # r)" by (cases ps) auto
next
  assume n: "c \<notin> set n" and "s = n \<or> (\<exists>r. s = n @ c # r)"
  then show "hd (split_char c s) = n" by (auto simp: split_char_absent split_at_dot)
qed

text \<open>What a front match finds: the first component, then the others as a subsequence.\<close>

fun front_sub :: "'a list \<Rightarrow> 'a list \<Rightarrow> bool" where
  "front_sub (n # ns) (c # cs) = (n = c \<and> subseq ns cs)"
| "front_sub ns cs = False"

lemma front_sub_suffix:
  "ns \<noteq> [] \<Longrightarrow> (\<exists>as bs. cs = as @ bs \<and> front_sub ns bs) \<longleftrightarrow> subseq ns cs"
proof (induction cs)
  case Nil
  then show ?case by (cases ns) auto
next
  case (Cons c cs)
  obtain n ns' where ns: "ns = n # ns'" using Cons.prems by (cases ns) auto
  have "(\<exists>as bs. c # cs = as @ bs \<and> front_sub ns bs) \<longleftrightarrow> front_sub ns (c # cs) \<or> (\<exists>as bs. cs = as @ bs \<and> front_sub ns bs)"
    by (auto simp: Cons_eq_append_conv)
  also have "\<dots> \<longleftrightarrow> subseq ns (c # cs)"
    using Cons ns by (auto simp: subseq_Cons' dest: subseq_Cons')
  finally show ?case .
qed

lemma consumes_lit: "consumes (rx_lit a) (\<lambda>s x. s = a @ x)"
  unfolding consumes_def
proof (intro allI)
  fix cap :: "nat \<Rightarrow> string" and s x
  show "(\<exists>cap'. (cap', x) \<in> set (runs (rx_lit a) (cap, s))) \<longleftrightarrow> s = a @ x" by (simp add: runs_lit)
qed

lemma consumes_alt:
  assumes "consumes a A" "consumes b B"
  shows "consumes (RAlt a b) (\<lambda>s x. A s x \<or> B s x)"
  unfolding consumes_def by (simp add: ex_disj_distrib consumesD[OF assms(1)] consumesD[OF assms(2)])

lemma consumes_empty: "consumes REmpty (\<lambda>s x. x = s)"
  by (auto simp: consumes_def)

lemma consumes_dot: "consumes rx_dot (\<lambda>s x. s = CHR ''.'' # x)"
  unfolding rx_dot_def by (rule consumes_cong[OF consumes_class]) simp

lemma consumes_tail: "consumes (RAlt rx_dot REnd) (\<lambda>s x. s = CHR ''.'' # x \<or> s = [] \<and> x = [])"
  by (rule consumes_alt[OF consumes_dot consumes_end])

text \<open>\<open>(?:.*\.|)\<close> goes to the start of any later component.\<close>

lemma consumes_gap:
  "consumes (RAlt (RSeq (RStar not_newline) rx_dot) REmpty)
     (\<lambda>s x. (\<exists>t. s = t @ CHR ''.'' # x \<and> list_all not_newline t) \<or> x = s)"
  by (rule consumes_cong[OF consumes_alt[OF consumes_seq[OF consumes_star consumes_dot] consumes_empty]])
     (auto simp: list_all_iff)

lemma gap_components:
  assumes "list_all not_newline s"
  shows "(\<exists>x. ((\<exists>t. s = t @ CHR ''.'' # x \<and> list_all not_newline t) \<or> x = s) \<and> front_sub ns (split_char CHR ''.'' x)) \<longleftrightarrow>
    (\<exists>as bs. split_char CHR ''.'' s = as @ bs \<and> front_sub ns bs)"
proof
  assume "\<exists>x. ((\<exists>t. s = t @ CHR ''.'' # x \<and> list_all not_newline t) \<or> x = s) \<and> front_sub ns (split_char CHR ''.'' x)"
  then obtain x where x: "(\<exists>t. s = t @ CHR ''.'' # x) \<or> x = s" "front_sub ns (split_char CHR ''.'' x)" by blast
  from x(1) have "\<exists>as. split_char CHR ''.'' s = as @ split_char CHR ''.'' x"
    using split_at_dot by (metis append_Nil)
  then show "\<exists>as bs. split_char CHR ''.'' s = as @ bs \<and> front_sub ns bs" using x(2) by blast
next
  assume "\<exists>as bs. split_char CHR ''.'' s = as @ bs \<and> front_sub ns bs"
  then obtain as bs where ab: "split_char CHR ''.'' s = as @ bs" "front_sub ns bs" by blast
  let ?x = "join [CHR ''.''] bs"
  have bs: "bs \<noteq> []" using ab(2) by auto
  then have sx: "split_char CHR ''.'' ?x = bs"
    using ab(1) split_char_no_sep[of _ "CHR ''.''" s] by (intro split_char_join) auto
  have s: "s = join [CHR ''.''] (as @ bs)" using join_split_char[of "CHR ''.''" s] ab(1) by simp
  show "\<exists>x. ((\<exists>t. s = t @ CHR ''.'' # x \<and> list_all not_newline t) \<or> x = s) \<and> front_sub ns (split_char CHR ''.'' x)"
  proof (cases "as = []")
    case True
    then show ?thesis using s sx ab(2) by auto
  next
    case False
    then have "s = join [CHR ''.''] as @ CHR ''.'' # ?x"
      using s bs by (induction as arbitrary: s rule: induct_list012) (auto simp: neq_Nil_conv)
    then show ?thesis using sx ab(2) assms by (metis list_all_append)
  qed
qed

lemma test_namespaces:
  "ns \<noteq> [] \<Longrightarrow> \<forall>n \<in> set ns. CHR ''.'' \<notin> set n \<Longrightarrow>
     \<exists>R. consumes (rx_namespaces ns) R \<and>
       (\<forall>s. list_all not_newline s \<longrightarrow> (\<exists>x. R s x) \<longleftrightarrow> front_sub ns (split_char CHR ''.'' s))"
proof (induction ns rule: rx_namespaces.induct)
  case (2 n)
  let ?R = "\<lambda>s x. \<exists>m. s = n @ m \<and> (m = CHR ''.'' # x \<or> m = [] \<and> x = [])"
  have "front_sub [n] (split_char CHR ''.'' s) \<longleftrightarrow> hd (split_char CHR ''.'' s) = n" for s
    by (cases "split_char CHR ''.'' s") auto
  then have "(\<exists>x. ?R s x) \<longleftrightarrow> front_sub [n] (split_char CHR ''.'' s)" for s
    using split_front[of "CHR ''.''" n s] "2.prems" by auto
  moreover have "consumes (rx_namespaces [n]) ?R" by (simp add: consumes_seq[OF consumes_lit consumes_tail])
  ultimately show ?case by blast
next
  case (3 n m ns)
  obtain R where R: "consumes (rx_namespaces (m # ns)) R"
      "\<forall>s. list_all not_newline s \<longrightarrow> (\<exists>x. R s x) \<longleftrightarrow> front_sub (m # ns) (split_char CHR ''.'' s)"
    using 3 by auto
  define G where "G = (\<lambda>s x. (\<exists>t. s = t @ CHR ''.'' # x \<and> list_all not_newline t) \<or> x = s)"
  let ?R = "\<lambda>s x. \<exists>a. s = n @ a \<and> (\<exists>b. a = CHR ''.'' # b \<and> (\<exists>c. G b c \<and> R c x))"
  have "(\<exists>x. ?R s x) \<longleftrightarrow> front_sub (n # m # ns) (split_char CHR ''.'' s)" if nl: "list_all not_newline s" for s
  proof (cases "\<exists>b. s = n @ CHR ''.'' # b")
    case True
    then obtain b where b: "s = n @ CHR ''.'' # b" by blast
    then have nlb: "list_all not_newline b" using nl by simp
    then have "G b c \<Longrightarrow> list_all not_newline c" for c by (auto simp: G_def)
    then have h: "G b c \<Longrightarrow> (\<exists>x. R c x) \<longleftrightarrow> front_sub (m # ns) (split_char CHR ''.'' c)" for c
      using R(2) by blast
    have "(\<exists>x. ?R s x) \<longleftrightarrow> (\<exists>c. G b c \<and> (\<exists>x. R c x))" by (auto simp: b)
    also have "\<dots> \<longleftrightarrow> (\<exists>c. G b c \<and> front_sub (m # ns) (split_char CHR ''.'' c))"
      using h by blast
    also have "\<dots> \<longleftrightarrow> subseq (m # ns) (split_char CHR ''.'' b)"
      using gap_components[OF nlb] front_sub_suffix[of "m # ns"] by (simp add: G_def)
    also have "\<dots> \<longleftrightarrow> front_sub (n # m # ns) (split_char CHR ''.'' s)"
      using "3.prems" by (simp add: b split_char_append)
    finally show ?thesis .
  next
    case False
    then have "\<not> (\<exists>x. ?R s x)" by blast
    moreover have "\<not> front_sub (n # m # ns) (split_char CHR ''.'' s)"
    proof
      assume f: "front_sub (n # m # ns) (split_char CHR ''.'' s)"
      then have "hd (split_char CHR ''.'' s) = n" by (cases "split_char CHR ''.'' s") auto
      then have "s = n" using split_front[of "CHR ''.''" n s] "3.prems" False by auto
      then show False using f "3.prems" by (simp add: split_char_absent)
    qed
    ultimately show ?thesis by blast
  qed
  moreover have "consumes (rx_namespaces (n # m # ns)) ?R"
    by (simp add: consumes_seq[OF consumes_lit consumes_seq[OF consumes_dot consumes_seq[OF consumes_gap R(1)]]] G_def)
  ultimately show ?case by blast
qed simp

lemma test_behind_dots: "test_behind_dots r s \<longleftrightarrow> (\<exists>t x. s = t @ CHR ''.'' # x \<and> test_front r x)"
  by (induction s) (auto simp: Cons_eq_append_conv)

text \<open>The test is for a subsequence of the components.\<close>

lemma namespace_test_subseq:
  assumes "ns \<noteq> []" "\<forall>n \<in> set ns. CHR ''.'' \<notin> set n" "list_all not_newline s"
  shows "namespace_test ns s \<longleftrightarrow> subseq ns (split_char CHR ''.'' s)"
proof -
  obtain R where R: "consumes (rx_namespaces ns) R"
      "\<forall>s. list_all not_newline s \<longrightarrow> (\<exists>x. R s x) \<longleftrightarrow> front_sub ns (split_char CHR ''.'' s)"
    using test_namespaces[OF assms(1,2)] by blast
  have f: "list_all not_newline x \<Longrightarrow> test_front (rx_namespaces ns) x \<longleftrightarrow> front_sub ns (split_char CHR ''.'' x)" for x
    using test_front_consumes[OF R(1)] R(2) by blast
  let ?G = "\<lambda>x. (\<exists>t. s = t @ CHR ''.'' # x \<and> list_all not_newline t) \<or> x = s"
  have g: "?G x \<longleftrightarrow> (\<exists>t. s = t @ CHR ''.'' # x) \<or> x = s" for x using assms(3) by auto
  then have "namespace_test ns s \<longleftrightarrow> (\<exists>x. ?G x \<and> test_front (rx_namespaces ns) x)"
    unfolding namespace_test_def test_behind_dots g by blast
  also have "\<dots> \<longleftrightarrow> (\<exists>x. ?G x \<and> front_sub ns (split_char CHR ''.'' x))"
    using f assms(3) by (metis list_all_append list.pred_inject(2))
  also have "\<dots> \<longleftrightarrow> subseq ns (split_char CHR ''.'' s)"
    using gap_components[OF assms(3)] front_sub_suffix[OF assms(1)] by simp
  finally show ?thesis .
qed

section \<open>Sorted namespaces\<close>

lemma str_before_irrefl [simp]: "\<not> str_before s s"
  by (induction s) auto

lemma str_before_trans: "str_before s t \<Longrightarrow> str_before t u \<Longrightarrow> str_before s u"
proof (induction s t arbitrary: u rule: str_before.induct)
  case (1 t)
  then show ?case by (cases t; cases u) auto
next
  case (3 a s b t)
  then show ?case by (cases u) auto
qed simp

lemma str_before_total: "s \<noteq> t \<Longrightarrow> str_before s t \<or> str_before t s"
proof (induction s t rule: str_before.induct)
  case (3 a s b t)
  show ?case
  proof (cases "a = b")
    case False
    then have "of_char a < (of_char b :: nat) \<or> of_char b < (of_char a :: nat)"
      by (metis of_char_eq_iff linorder_neqE_nat)
    then show ?thesis by auto
  qed (use 3 in auto)
qed auto

lemma str_cmp_le: "str_cmp s t \<le> 0 \<longleftrightarrow> \<not> str_before t s"
  using str_before_trans[of s t s] by (auto simp: str_cmp_def)

lemma str_cmp_antisym: "str_cmp s t \<le> 0 \<Longrightarrow> str_cmp t s \<le> 0 \<Longrightarrow> s = t"
  using str_before_total by (auto simp: str_cmp_le)

lemma str_cmp_consistent: "consistent str_cmp S"
proof -
  have "\<not> str_before t s \<Longrightarrow> \<not> str_before u t \<Longrightarrow> \<not> str_before u s" for s t u
    using str_before_total[of t u] str_before_trans[of t u s] by blast
  moreover have "\<not> str_before t s \<or> \<not> str_before s t" for s t
    using str_before_trans[of s t s] by auto
  ultimately show ?thesis unfolding consistent_def str_cmp_le by blast
qed

lemma subseq_subset_mset:
  assumes "sorted_wrt (\<lambda>s t. str_cmp s t \<le> 0) ns" "sorted_wrt (\<lambda>s t. str_cmp s t \<le> 0) hs"
  shows "subseq ns hs \<longleftrightarrow> mset ns \<subseteq># mset hs"
proof
  show "mset ns \<subseteq># mset hs \<Longrightarrow> subseq ns hs"
    using assms
  proof (induction hs arbitrary: ns)
    case (Cons h hs)
    show ?case
    proof (cases ns)
      case (Cons n ns')
      show ?thesis
      proof (cases "n = h")
        case True
        then show ?thesis using Cons.IH[of ns'] Cons Cons.prems by simp
      next
        case False
        have "n \<in> set hs" using False Cons.prems(1) Cons by (auto dest!: mset_subset_eqD[of _ _ n])
        then have "str_cmp h n \<le> 0" using Cons.prems(3) by simp
        then have "h \<notin> set ns'" using False Cons.prems(2) str_cmp_antisym Cons by auto
        then have "h \<notin># mset ns" using Cons False by simp
        have "mset ns \<subseteq># mset hs"
        proof (rule mset_subset_eqI)
          fix x
          have "count (mset ns) x \<le> count (mset (h # hs)) x"
            using Cons.prems(1) by (rule mset_subset_eq_count)
          then show "count (mset ns) x \<le> count (mset hs) x"
            using not_in_iff[THEN iffD1, OF \<open>h \<notin># mset ns\<close>]
            by (cases "x = h") (simp_all del: count_mset_0_iff count_eq_zero_iff)
        qed
        then show ?thesis using Cons.IH[of ns] Cons.prems(2,3) by auto
      qed
    qed simp
  qed simp
next
  show "subseq ns hs \<Longrightarrow> mset ns \<subseteq># mset hs"
  proof (induction rule: list_emb.induct)
    case (list_emb_Cons xs ys y)
    then show ?case by (metis mset.simps(2) subset_mset.order_trans mset_subset_eq_add_right add_mset_add_single union_commute)
  qed simp_all
qed

text \<open>Namespaces hold no dots, and texts of types no newlines.\<close>

lemma namespaces_of_props:
  "namespaces_of ns \<noteq> []" "n \<in> set (namespaces_of ns) \<Longrightarrow> CHR ''.'' \<notin> set n"
  "sorted_wrt (\<lambda>s t. str_cmp s t \<le> 0) (namespaces_of ns)"
proof -
  show "namespaces_of ns \<noteq> []"
    unfolding namespaces_of_def by (metis asort.sort_length length_0_conv split_char_neq_Nil)
  show "n \<in> set (namespaces_of ns) \<Longrightarrow> CHR ''.'' \<notin> set n"
    unfolding namespaces_of_def asort.sort_set by (rule split_char_no_sep)
  show "sorted_wrt (\<lambda>s t. str_cmp s t \<le> 0) (namespaces_of ns)"
    unfolding namespaces_of_def by (rule asort.sort_sorted[OF str_cmp_consistent])
qed

lemma namespaces_of_mset:
  "mset (namespaces_of ns) = mset (split_char CHR ''.'' (case ns of None \<Rightarrow> [] | Some s \<Rightarrow> s))"
  unfolding namespaces_of_def by (rule asort.sort_mset)

lemma newlines_join: "list_all not_newline (join [CHR ''.''] ps) \<longleftrightarrow> list_all (list_all not_newline) ps"
  by (induction ps rule: induct_list012) (auto simp: not_newline_def)

lemma newlines_split: "list_all not_newline s \<Longrightarrow> p \<in> set (split_char CHR ''.'' s) \<Longrightarrow> list_all not_newline p"
  by (metis join_split_char list_all_iff newlines_join)

text \<open>Whether a handler with namespaces \<open>hs\<close> is one with namespaces \<open>ns\<close>, whatever their order.\<close>

lemma namespace_test_subset:
  assumes "list_all not_newline h"
  shows "namespace_test (namespaces_of ns) (join ''.'' (namespaces_of (Some h))) \<longleftrightarrow>
    mset (split_char CHR ''.'' (case ns of None \<Rightarrow> [] | Some s \<Rightarrow> s)) \<subseteq># mset (split_char CHR ''.'' h)"
proof -
  have "set (namespaces_of (Some h)) = set (split_char CHR ''.'' h)"
    using namespaces_of_mset[of "Some h"] by (metis option.simps(5) set_mset_mset)
  then have "\<forall>p \<in> set (namespaces_of (Some h)). list_all not_newline p"
    using newlines_split[OF assms] by simp
  then have "list_all not_newline (join [CHR ''.''] (namespaces_of (Some h)))"
    unfolding newlines_join by (subst list_all_iff)
  moreover have "split_char CHR ''.'' (join [CHR ''.''] (namespaces_of (Some h))) = namespaces_of (Some h)"
    using namespaces_of_props by (intro split_char_join)
  ultimately have "namespace_test (namespaces_of ns) (join [CHR ''.''] (namespaces_of (Some h))) \<longleftrightarrow>
      subseq (namespaces_of ns) (namespaces_of (Some h))"
    using namespace_test_subseq[of "namespaces_of ns"] namespaces_of_props(1,2) by simp
  also have "\<dots> \<longleftrightarrow> mset (namespaces_of ns) \<subseteq># mset (namespaces_of (Some h))"
    by (rule subseq_subset_mset) (rule namespaces_of_props(3))+
  finally show ?thesis by (simp add: namespaces_of_mset)
qed

section \<open>Removing handlers\<close>

lemma remove_loop_filter:
  "j \<le> length (objs hs) \<Longrightarrow>
     remove_loop P j hs =
       hs\<lparr>objs := filter (\<lambda>h. \<not> P h) (take j (objs hs)) @ drop j (objs hs),
          delegateCount := delegateCount hs - int (length (filter (\<lambda>h. P h \<and> selector h \<noteq> None) (take j (objs hs))))\<rparr>"
proof (induction j arbitrary: hs)
  case (Suc j)
  let ?h = "objs hs ! j"
  have t: "take (Suc j) (objs hs) = take j (objs hs) @ [?h]" using Suc.prems by (simp add: take_Suc_conv_app_nth)
  show ?case
  proof (cases "P ?h")
    case True
    have "take j (remove_at j (objs hs)) = take j (objs hs)" "drop j (remove_at j (objs hs)) = drop (Suc j) (objs hs)"
      using Suc.prems by (simp_all add: remove_at_def)
    then show ?thesis using True Suc.prems
      by (simp add: Suc.IH Let_def t remove_at_def)
  next
    case False
    have "drop j (objs hs) = ?h # drop (Suc j) (objs hs)" using Suc.prems by (simp add: Cons_nth_drop_Suc)
    then show ?thesis using False Suc.prems by (simp add: Suc.IH Let_def t)
  qed
qed simp

lemma remove_loop_all:
  "remove_loop P (length (objs hs)) hs =
     hs\<lparr>objs := filter (\<lambda>h. \<not> P h) (objs hs),
        delegateCount := delegateCount hs - int (length (filter (\<lambda>h. P h \<and> selector h \<noteq> None) (objs hs)))\<rparr>"
  by (simp add: remove_loop_filter)

section \<open>A registry in order\<close>

definition delegated :: "handle_obj \<Rightarrow> bool" where
  "delegated h \<longleftrightarrow> selector h \<noteq> None"

definition delegates_first :: "handlers \<Rightarrow> bool" where
  "delegates_first hs \<longleftrightarrow>
     (\<exists>as bs. objs hs = as @ bs \<and> list_all delegated as \<and> list_all (\<lambda>h. \<not> delegated h) bs \<and>
       delegateCount hs = int (length as))"

definition handlers_ok :: "string \<Rightarrow> handlers \<Rightarrow> bool" where
  "handlers_ok ty hs \<longleftrightarrow>
     objs hs \<noteq> [] \<and> delegates_first hs \<and>
     (\<forall>h \<in> set (objs hs). htype h = ty \<and> ty = registered_type (selector h) (origType h) \<and> origType h \<noteq> [])"

definition events_ok :: "handlers obj \<Rightarrow> string list \<Rightarrow> bool" where
  "events_ok evs ls \<longleftrightarrow>
     obj_wf evs \<and> set ls = set (obj_keys evs) \<and> (\<forall>ty hs. obj_get evs ty = Some hs \<longrightarrow> handlers_ok ty hs)"

definition registry_ok :: "registry \<Rightarrow> bool" where
  "registry_ok reg \<longleftrightarrow>
     (case events reg of None \<Rightarrow> listening reg = [] | Some evs \<Rightarrow> events_ok evs (listening reg))"

definition objs_of :: "handlers obj \<Rightarrow> string \<Rightarrow> handle_obj list" where
  "objs_of evs ty = (case obj_get evs ty of None \<Rightarrow> [] | Some hs \<Rightarrow> objs hs)"

definition handlers_of :: "registry \<Rightarrow> string \<Rightarrow> handle_obj list" where
  "handlers_of reg ty = (case events reg of None \<Rightarrow> [] | Some evs \<Rightarrow> objs_of evs ty)"

lemma registered_type_idem:
  "registered_type sel (delegateType t) = delegateType t" "registered_type None (registered_type sel t) = registered_type sel t"
  by (simp_all add: registered_type_def delegateType_def bindType_def)

lemma filter_delegated: "list_all delegated as \<Longrightarrow> filter (\<lambda>h. P h \<and> selector h \<noteq> None) as = filter P as"
  "list_all (\<lambda>h. \<not> delegated h) as \<Longrightarrow> filter (\<lambda>h. P h \<and> selector h \<noteq> None) as = []"
  by (induction as) (auto simp: delegated_def)

lemma handlers_ok_filter:
  assumes "handlers_ok ty hs" "filter (\<lambda>h. \<not> P h) (objs hs) \<noteq> []"
  shows "handlers_ok ty (remove_loop P (length (objs hs)) hs)"
proof -
  obtain as bs where ab: "objs hs = as @ bs" "list_all delegated as" "list_all (\<lambda>h. \<not> delegated h) bs"
      "delegateCount hs = int (length as)"
    using assms(1) by (auto simp: handlers_ok_def delegates_first_def)
  have "length as = length (filter P as) + length (filter (\<lambda>h. \<not> P h) as)"
    by (rule sum_length_filter_compl[symmetric])
  then have "delegateCount hs - int (length (filter (\<lambda>h. P h \<and> selector h \<noteq> None) (objs hs))) =
      int (length (filter (\<lambda>h. \<not> P h) as))"
    unfolding ab(1,4) filter_append filter_delegated(1)[OF ab(2)] filter_delegated(2)[OF ab(3)] by simp
  moreover have "filter (\<lambda>h. \<not> P h) (objs hs) = filter (\<lambda>h. \<not> P h) as @ filter (\<lambda>h. \<not> P h) bs"
    by (simp add: ab(1))
  ultimately have "delegates_first (remove_loop P (length (objs hs)) hs)"
    using list_all_filter[OF ab(2)] list_all_filter[OF ab(3)]
    unfolding delegates_first_def remove_loop_all by auto
  then show ?thesis using assms by (simp add: handlers_ok_def remove_loop_all)
qed

lemma handlers_ok_add:
  assumes "handlers_ok ty hs \<or> hs = \<lparr>objs = [], delegateCount = 0\<rparr>"
    and "htype h = ty" "ty = registered_type (selector h) (origType h)" "origType h \<noteq> []"
  shows "handlers_ok ty (add_obj h hs)"
    and "objs (add_obj h hs) = filter delegated (objs hs) @ (if delegated h then [h] else []) @
      filter (\<lambda>h. \<not> delegated h) (objs hs) @ (if delegated h then [] else [h])"
proof -
  obtain as bs where ab: "objs hs = as @ bs" "list_all delegated as" "list_all (\<lambda>h. \<not> delegated h) bs"
      "delegateCount hs = int (length as)"
    using assms(1) by (auto simp: handlers_ok_def delegates_first_def)
  have a: "objs (add_obj h hs) = as @ (if delegated h then [h] else []) @ bs @ (if delegated h then [] else [h])"
    using ab by (simp add: add_obj_def splice_in_def delegated_def)
  have "filter delegated (objs hs) = as" "filter (\<lambda>h. \<not> delegated h) (objs hs) = bs"
    using ab by (auto simp: list_all_iff filter_empty_conv)
  then show "objs (add_obj h hs) = filter delegated (objs hs) @ (if delegated h then [h] else []) @
      filter (\<lambda>h. \<not> delegated h) (objs hs) @ (if delegated h then [] else [h])"
    using a by simp
  have "delegateCount (add_obj h hs) = int (length (as @ (if delegated h then [h] else [])))"
    using ab(4) by (simp add: add_obj_def delegated_def)
  then have "delegates_first (add_obj h hs)"
    unfolding delegates_first_def a using ab(2,3)
    by (intro exI[of _ "as @ (if delegated h then [h] else [])"] exI[of _ "bs @ (if delegated h then [] else [h])"]) auto
  then show "handlers_ok ty (add_obj h hs)"
    using assms ab(1) a by (auto simp: handlers_ok_def)
qed

text \<open>What a request asks for, apart from the type.\<close>

definition wanted :: "request \<Rightarrow> string option \<Rightarrow> handle_obj \<Rightarrow> bool" where
  "wanted r ns h \<longleftrightarrow> selected r True [] ns h"

definition asked :: "request \<Rightarrow> string \<Rightarrow> handle_obj \<Rightarrow> bool" where
  "asked r t h \<longleftrightarrow>
     (case rtypenamespace t of
        (orig, ns) \<Rightarrow>
          (orig = [] \<or> orig = origType h \<and> htype h = registered_type (req_selector r) orig) \<and> wanted r ns h)"

lemma selected_wanted: "selected r mapped orig ns h \<longleftrightarrow> (mapped \<or> orig = origType h) \<and> wanted r ns h"
  by (auto simp: wanted_def selected_def)

lemma objs_of_put: "objs_of (obj_put evs k hs) ty = (if ty = k then objs hs else objs_of evs ty)"
  by (simp add: objs_of_def get_put)

lemma objs_of_delete: "objs_of (obj_delete evs k) ty = (if ty = k then [] else objs_of evs ty)"
  by (simp add: objs_of_def get_delete)

lemma remove_type_spec:
  assumes "events_ok evs ls" "remove_type r mapped orig ns evs ls = (evs', ls')"
  shows "events_ok evs' ls'"
    and "objs_of evs' ty = filter (\<lambda>h. \<not> (ty = registered_type (req_selector r) orig \<and> selected r mapped orig ns h)) (objs_of evs ty)"
proof -
  let ?type = "registered_type (req_selector r) orig" and ?P = "selected r mapped orig ns"
  have "events_ok evs' ls' \<and>
    objs_of evs' ty = filter (\<lambda>h. \<not> (ty = ?type \<and> ?P h)) (objs_of evs ty)"
  proof (cases "obj_get evs ?type")
    case None
    then show ?thesis using assms by (auto simp: remove_type_def objs_of_def)
  next
    case (Some hs)
    then have ok: "handlers_ok ?type hs" using assms(1) by (simp add: events_ok_def)
    then have ne: "objs hs \<noteq> []" by (simp add: handlers_ok_def)
    have o: "objs (remove_loop ?P (length (objs hs)) hs) = filter (\<lambda>h. \<not> ?P h) (objs hs)"
      by (simp add: remove_loop_all)
    have k: "?type \<in> set (obj_keys evs)" using Some by (metis has_key_get has_key_def option.distinct(1))
    show ?thesis
    proof (cases "filter (\<lambda>h. \<not> ?P h) (objs hs) = []")
      case True
      then have e: "evs' = obj_delete evs ?type" "ls' = filter (\<lambda>l. l \<noteq> ?type) ls"
        using assms(2) Some ne o by (simp_all add: remove_type_def Let_def)
      have "events_ok evs' ls'"
        using assms(1) by (auto simp: e events_ok_def obj_wf_delete keys_delete get_delete split: if_splits simp del: set_map)
      then show ?thesis using True Some by (auto simp: e objs_of_delete) (simp add: objs_of_def)
    next
      case False
      then have e: "evs' = obj_put evs ?type (remove_loop ?P (length (objs hs)) hs)" "ls' = ls"
        using assms(2) Some ne o by (simp_all add: remove_type_def Let_def)
      have "events_ok evs' ls'"
        using assms(1) handlers_ok_filter[OF ok False] k
        by (auto simp: e events_ok_def obj_wf_put keys_put get_put split: if_splits simp del: set_map)
      then show ?thesis using Some o by (auto simp: e objs_of_put) (simp add: objs_of_def)
    qed
  qed
  then show "events_ok evs' ls'" "objs_of evs' ty = filter (\<lambda>h. \<not> (ty = ?type \<and> ?P h)) (objs_of evs ty)" by blast+
qed

lemma objs_facts:
  assumes "events_ok evs ls" "h \<in> set (objs_of evs ty)"
  shows "htype h = ty" "ty = registered_type (selector h) (origType h)" "origType h \<noteq> []" "ty \<in> set (obj_keys evs)"
proof -
  obtain hs where hs: "obj_get evs ty = Some hs" "h \<in> set (objs hs)"
    using assms(2) by (cases "obj_get evs ty") (auto simp: objs_of_def)
  then have "handlers_ok ty hs" using assms(1) by (simp add: events_ok_def)
  then show "htype h = ty" "ty = registered_type (selector h) (origType h)" "origType h \<noteq> []"
    using hs(2) by (auto simp: handlers_ok_def)
  show "ty \<in> set (obj_keys evs)" using hs(1) by (metis has_key_get has_key_def option.distinct(1))
qed

text \<open>Without a type: a wanted handler is found under its own registered type.\<close>

lemma wanted_own_type:
  assumes "events_ok evs ls" "h \<in> set (objs_of evs ty)" "wanted r ns h"
  shows "registered_type (req_selector r) ty = ty"
proof (cases "req_selector r")
  case None
  then show ?thesis using objs_facts(2)[OF assms(1,2)] registered_type_idem(2) by metis
next
  case (Some s)
  then have "selector h \<noteq> None" using assms(3) by (auto simp: wanted_def selected_def)
  then have "ty = delegateType (origType h)" using objs_facts(2)[OF assms(1,2)] by (simp add: registered_type_def)
  then show ?thesis using registered_type_idem(1) by simp
qed

lemma remove_types_spec:
  assumes "events_ok evs ls"
    "fold (\<lambda>type (evs, ls). remove_type r True type ns evs ls) types (evs, ls) = (evs', ls')"
  shows "events_ok evs' ls' \<and>
    objs_of evs' ty = filter (\<lambda>h. \<not> (ty \<in> registered_type (req_selector r) ` set types \<and> wanted r ns h)) (objs_of evs ty)"
  using assms
proof (induction types arbitrary: evs ls)
  case (Cons t types)
  obtain evs1 ls1 where r: "remove_type r True t ns evs ls = (evs1, ls1)" by fastforce
  note spec = remove_type_spec[OF Cons.prems(1) r]
  have "fold (\<lambda>type (evs, ls). remove_type r True type ns evs ls) types (evs1, ls1) = (evs', ls')"
    using Cons.prems(2) r by simp
  from Cons.IH[OF spec(1) this] spec(2)[of ty]
  have "events_ok evs' ls'" "objs_of evs' ty = filter (\<lambda>h. \<not> (ty \<in> registered_type (req_selector r) ` set types \<and> wanted r ns h))
      (filter (\<lambda>h. \<not> (ty = registered_type (req_selector r) t \<and> wanted r ns h)) (objs_of evs ty))"
    by (simp_all add: selected_wanted)
  then show ?case by (auto intro: filter_cong)
qed simp

lemma remove_one_spec:
  assumes "events_ok evs ls" "remove_one r t (evs, ls) = (evs', ls')"
  shows "events_ok evs' ls' \<and> objs_of evs' ty = filter (\<lambda>h. \<not> asked r t h) (objs_of evs ty)"
proof -
  obtain orig ns where t: "rtypenamespace t = (orig, ns)" by fastforce
  show ?thesis
  proof (cases "orig = []")
    case True
    then have f: "fold (\<lambda>type (evs, ls). remove_type r True type ns evs ls) (obj_keys evs) (evs, ls) = (evs', ls')"
      using assms(2) t by (simp add: remove_one_def)
    have "(ty \<in> registered_type (req_selector r) ` set (obj_keys evs) \<and> wanted r ns h) = asked r t h"
      if "h \<in> set (objs_of evs ty)" for h
    proof (cases "wanted r ns h")
      case w: True
      have "ty = registered_type (req_selector r) ty" using wanted_own_type[OF assms(1) that w] by simp
      then have "ty \<in> registered_type (req_selector r) ` set (obj_keys evs)"
        using objs_facts(4)[OF assms(1) that] by (rule image_eqI)
      then show ?thesis using w t True by (simp add: asked_def)
    qed (use t True in \<open>simp add: asked_def\<close>)
    then have "filter (\<lambda>h. \<not> (ty \<in> registered_type (req_selector r) ` set (obj_keys evs) \<and> wanted r ns h)) (objs_of evs ty) =
        filter (\<lambda>h. \<not> asked r t h) (objs_of evs ty)" by (intro filter_cong) blast+
    then show ?thesis using remove_types_spec[OF assms(1) f, of ty] by simp
  next
    case False
    then have f: "remove_type r False orig ns evs ls = (evs', ls')" using assms(2) t by (simp add: remove_one_def)
    have "(ty = registered_type (req_selector r) orig \<and> selected r False orig ns h) = asked r t h"
      if "h \<in> set (objs_of evs ty)" for h
      using objs_facts(1)[OF assms(1) that] t False by (auto simp: asked_def selected_wanted)
    then have "filter (\<lambda>h. \<not> (ty = registered_type (req_selector r) orig \<and> selected r False orig ns h)) (objs_of evs ty) =
        filter (\<lambda>h. \<not> asked r t h) (objs_of evs ty)" by (intro filter_cong) blast+
    then show ?thesis using remove_type_spec(1)[OF assms(1) f] remove_type_spec(2)[OF assms(1) f, of ty] by simp
  qed
qed

lemma remove_all_spec:
  assumes "events_ok evs ls" "fold (remove_one r) ts (evs, ls) = (evs', ls')"
  shows "events_ok evs' ls' \<and> objs_of evs' ty = filter (\<lambda>h. \<not> (\<exists>t \<in> set ts. asked r t h)) (objs_of evs ty)"
  using assms
proof (induction ts arbitrary: evs ls)
  case (Cons t ts)
  obtain evs1 ls1 where r: "remove_one r t (evs, ls) = (evs1, ls1)" by fastforce
  then have "fold (remove_one r) ts (evs1, ls1) = (evs', ls')" using Cons.prems(2) by simp
  with Cons.IH[of evs1 ls1] remove_one_spec[OF Cons.prems(1) r, of ty]
  have "events_ok evs' ls'" "objs_of evs' ty = filter (\<lambda>h. \<not> (\<exists>t \<in> set ts. asked r t h))
      (filter (\<lambda>h. \<not> asked r t h) (objs_of evs ty))"
    by simp_all
  then show ?case by (auto intro: filter_cong)
qed simp

lemma event_remove_spec:
  assumes "registry_ok reg"
  shows "registry_ok (event_remove r types reg)"
    and "handlers_of (event_remove r types reg) ty =
      filter (\<lambda>h. \<not> (\<exists>t \<in> set (type_list types). asked r t h)) (handlers_of reg ty)"
proof -
  have "registry_ok (event_remove r types reg) \<and> handlers_of (event_remove r types reg) ty =
      filter (\<lambda>h. \<not> (\<exists>t \<in> set (type_list types). asked r t h)) (handlers_of reg ty)"
  proof (cases "events reg")
    case None
    then show ?thesis using assms by (simp add: event_remove_def handlers_of_def)
  next
    case (Some evs)
    then have ok: "events_ok evs (listening reg)" using assms by (simp add: registry_ok_def)
    obtain evs' ls' where f: "fold (remove_one r) (rev (type_list types)) (evs, listening reg) = (evs', ls')" by fastforce
    note spec = remove_all_spec[OF ok f, of ty]
    show ?thesis
    proof (cases "evs' = []")
      case True
      then have "ls' = []" using spec by (simp add: events_ok_def)
      then show ?thesis using True spec Some f
        by (simp add: event_remove_def registry_ok_def handlers_of_def) (simp add: objs_of_def get_empty)
    next
      case False
      then show ?thesis using spec Some f by (simp add: event_remove_def registry_ok_def handlers_of_def)
    qed
  qed
  then show "registry_ok (event_remove r types reg)" "handlers_of (event_remove r types reg) ty =
      filter (\<lambda>h. \<not> (\<exists>t \<in> set (type_list types). asked r t h)) (handlers_of reg ty)"
    by blast+
qed

section \<open>Adding handlers\<close>

text \<open>The handler that a type of \<open>add\<close> registers.\<close>

definition new_obj :: "nat \<Rightarrow> nat \<Rightarrow> string option \<Rightarrow> string \<Rightarrow> handle_obj" where
  "new_obj f g sel t =
     (case rtypenamespace t of
        (orig, ns) \<Rightarrow>
          \<lparr>htype = registered_type sel orig, origType = orig, handler = f, guid = g, selector = sel,
           namespace = join ''.'' (namespaces_of ns)\<rparr>)"

definition adds_to :: "string option \<Rightarrow> string \<Rightarrow> string \<Rightarrow> bool" where
  "adds_to sel ty t \<longleftrightarrow> fst (rtypenamespace t) \<noteq> [] \<and> registered_type sel (fst (rtypenamespace t)) = ty"

definition behind :: "handle_obj list \<Rightarrow> handle_obj list \<Rightarrow> handle_obj list" where
  "behind hs news =
     filter delegated hs @ filter delegated news @ filter (\<lambda>h. \<not> delegated h) hs @ filter (\<lambda>h. \<not> delegated h) news"

lemma objs_in_order: "events_ok evs ls \<Longrightarrow> behind (objs_of evs ty) [] = objs_of evs ty"
proof (cases "obj_get evs ty")
  case (Some hs)
  assume "events_ok evs ls"
  then have "delegates_first hs" using Some by (simp add: events_ok_def handlers_ok_def)
  then obtain as bs where "objs hs = as @ bs" "list_all delegated as" "list_all (\<lambda>h. \<not> delegated h) bs"
    by (auto simp: delegates_first_def)
  then have "filter delegated (objs hs) = as" "filter (\<lambda>h. \<not> delegated h) (objs hs) = bs" "objs hs = as @ bs"
    by (auto simp: list_all_iff filter_empty_conv)
  then show ?thesis using Some by (simp add: behind_def objs_of_def)
qed (simp add: behind_def objs_of_def)

lemma add_one_spec:
  assumes "events reg = Some evs" "events_ok evs (listening reg)"
  shows "\<exists>evs'. events (add_one f g sel t reg) = Some evs' \<and> events_ok evs' (listening (add_one f g sel t reg)) \<and>
    (\<forall>ty. objs_of evs' ty = behind (objs_of evs ty) (if adds_to sel ty t then [new_obj f g sel t] else []))"
proof -
  obtain orig ns where t: "rtypenamespace t = (orig, ns)" by fastforce
  show ?thesis
  proof (cases "orig = []")
    case True
    then show ?thesis using assms t objs_in_order[OF assms(2)] by (simp add: add_one_def adds_to_def)
  next
    case False
    let ?ty = "registered_type sel orig" and ?h = "new_obj f g sel t"
    let ?hs = "case obj_get evs ?ty of None \<Rightarrow> \<lparr>objs = [], delegateCount = 0\<rparr> | Some hs \<Rightarrow> hs"
    let ?reg = "add_one f g sel t reg"
    have h: "htype ?h = ?ty" "?ty = registered_type (selector ?h) (origType ?h)" "origType ?h \<noteq> []"
      using t False by (simp_all add: new_obj_def)
    have hs: "handlers_ok ?ty ?hs \<or> ?hs = \<lparr>objs = [], delegateCount = 0\<rparr>"
      using assms(2) by (auto simp: events_ok_def split: option.splits)
    note ok = handlers_ok_add[OF hs h]
    have e: "events ?reg = Some (obj_put evs ?ty (add_obj ?h ?hs))"
      using assms(1) t False by (simp add: add_one_def new_obj_def Let_def split: option.splits)
    have l: "set (listening ?reg) = insert ?ty (set (listening reg))"
    proof (cases "obj_get evs ?ty")
      case None
      then show ?thesis using assms(1) t False by (auto simp: add_one_def Let_def)
    next
      case (Some x)
      then have "?ty \<in> set (obj_keys evs)" by (metis has_key_get has_key_def option.distinct(1))
      then show ?thesis using Some assms t False by (auto simp: add_one_def Let_def events_ok_def)
    qed
    have "events_ok (obj_put evs ?ty (add_obj ?h ?hs)) (listening ?reg)"
      using assms(2) ok(1) l by (auto simp: events_ok_def obj_wf_put keys_put get_put split: if_splits simp del: set_map)
    moreover have "objs ?hs = objs_of evs ?ty" by (simp add: objs_of_def split: option.splits)
    then have "objs_of (obj_put evs ?ty (add_obj ?h ?hs)) ty =
        behind (objs_of evs ty) (if adds_to sel ty t then [?h] else [])" for ty
      using ok(2) objs_in_order[OF assms(2), of ty] t False
      by (auto simp: objs_of_put adds_to_def behind_def)
    ultimately show ?thesis using e by blast
  qed
qed

lemma behind_append: "behind (behind hs as) bs = behind hs (as @ bs)"
  by (simp add: behind_def)

lemma add_all_spec:
  assumes "events reg = Some evs" "events_ok evs (listening reg)"
  shows "\<exists>evs'. events (fold (add_one f g sel) ts reg) = Some evs' \<and>
    events_ok evs' (listening (fold (add_one f g sel) ts reg)) \<and>
    (\<forall>ty. objs_of evs' ty = behind (objs_of evs ty) (map (new_obj f g sel) (filter (adds_to sel ty) ts)))"
  using assms
proof (induction ts arbitrary: reg evs)
  case Nil
  then show ?case using objs_in_order by simp
next
  case (Cons t ts)
  obtain evs1 where e: "events (add_one f g sel t reg) = Some evs1" "events_ok evs1 (listening (add_one f g sel t reg))"
      "\<And>ty. objs_of evs1 ty = behind (objs_of evs ty) (if adds_to sel ty t then [new_obj f g sel t] else [])"
    using add_one_spec[OF Cons.prems] by blast
  obtain evs' where f: "events (fold (add_one f g sel) ts (add_one f g sel t reg)) = Some evs'"
      "events_ok evs' (listening (fold (add_one f g sel) ts (add_one f g sel t reg)))"
      "\<And>ty. objs_of evs' ty = behind (objs_of evs1 ty) (map (new_obj f g sel) (filter (adds_to sel ty) ts))"
    using Cons.IH[OF e(1,2)] by blast
  have "objs_of evs' ty = behind (objs_of evs ty) (map (new_obj f g sel) (filter (adds_to sel ty) (t # ts)))" for ty
    by (simp add: f(3) e(3) behind_append)
  then show ?case using f(1,2) by auto
qed

lemma event_add_spec:
  assumes "registry_ok reg"
  shows "registry_ok (event_add f g sel types reg)"
    and "handlers_of (event_add f g sel types reg) ty =
      behind (handlers_of reg ty) (map (new_obj f g sel) (filter (adds_to sel ty) (rev (type_list types))))"
proof -
  define reg1 where "reg1 = (case events reg of None \<Rightarrow> reg\<lparr>events := Some []\<rparr> | Some evs \<Rightarrow> reg)"
  obtain evs where e: "events reg1 = Some evs" "events_ok evs (listening reg1)" "\<And>ty. objs_of evs ty = handlers_of reg ty"
    using assms by (cases "events reg")
      (auto simp: reg1_def registry_ok_def handlers_of_def events_ok_def objs_of_def get_empty)
  obtain evs' where f: "events (event_add f g sel types reg) = Some evs'"
      "events_ok evs' (listening (event_add f g sel types reg))"
      "\<And>ty. objs_of evs' ty = behind (objs_of evs ty) (map (new_obj f g sel) (filter (adds_to sel ty) (rev (type_list types))))"
    using add_all_spec[OF e(1,2), of f g sel "rev (type_list types)"] unfolding event_add_def reg1_def by blast
  then show "registry_ok (event_add f g sel types reg)" "handlers_of (event_add f g sel types reg) ty =
      behind (handlers_of reg ty) (map (new_obj f g sel) (filter (adds_to sel ty) (rev (type_list types))))"
    by (simp_all add: registry_ok_def handlers_of_def e(3))
qed

section \<open>Adding, then removing\<close>

lemma token_newlines: "t \<in> set (type_list types) \<Longrightarrow> list_all not_newline t"
proof -
  assume t: "t \<in> set (type_list types)"
  have "token t \<or> t = []"
    using t tokens_are_tokens[of types] by (auto simp: type_list_def Let_def list_all_iff split: if_splits)
  then show ?thesis
    by (auto simp: token_def list_all_iff html_space_def not_newline_def)
qed

lemma rtypenamespace_newlines:
  assumes "rtypenamespace t = (orig, Some ns)" "list_all not_newline t"
  shows "list_all not_newline ns"
proof -
  have "\<exists>d. dropWhile (\<lambda>c. c \<noteq> CHR ''.'') t = d # ns"
    using assms(1) by (auto simp: rtypenamespace_def split: list.splits if_splits)
  then have "set ns \<subseteq> set t" by (metis set_dropWhileD set_subset_Cons subsetI subset_trans)
  then show ?thesis using assms(2) by (auto simp: list_all_iff)
qed

lemma new_obj_asked:
  assumes "t \<in> set (type_list types)" "fst (rtypenamespace t) \<noteq> []"
  shows "asked \<lparr>req_guid = Some g, req_selector = sel\<rparr> t (new_obj f g sel t)"
proof -
  obtain orig ns where t: "rtypenamespace t = (orig, ns)" by fastforce
  have "case ns of None \<Rightarrow> True | Some s \<Rightarrow> namespace_test (namespaces_of ns) (join ''.'' (namespaces_of ns))"
  proof (cases ns)
    case (Some s)
    then have "list_all not_newline s" using rtypenamespace_newlines t token_newlines[OF assms(1)] by blast
    then show ?thesis using namespace_test_subset[of s "Some s"] Some by simp
  qed simp
  then show ?thesis
    using t assms(2) by (auto simp: asked_def wanted_def selected_def new_obj_def split: option.splits)
qed

lemma add_remove:
  assumes "registry_ok reg" "\<And>h. h \<in> set (handlers_of reg ty) \<Longrightarrow> guid h \<noteq> g"
  shows "handlers_of (event_remove \<lparr>req_guid = Some g, req_selector = sel\<rparr> types (event_add f g sel types reg)) ty =
    handlers_of reg ty"
proof -
  let ?r = "\<lparr>req_guid = Some g, req_selector = sel\<rparr>"
  let ?news = "map (new_obj f g sel) (filter (adds_to sel ty) (rev (type_list types)))"
  let ?asked = "\<lambda>h. \<exists>t \<in> set (type_list types). asked ?r t h"
  have old: "\<not> ?asked h" if "h \<in> set (handlers_of reg ty)" for h
    using assms(2)[OF that] by (auto simp: asked_def wanted_def selected_def)
  have new: "?asked h" if "h \<in> set ?news" for h
  proof -
    obtain t where t: "h = new_obj f g sel t" "t \<in> set (type_list types)" "adds_to sel ty t" using \<open>h \<in> set ?news\<close> by auto
    then have "fst (rtypenamespace t) \<noteq> []" by (simp add: adds_to_def)
    then have "asked ?r t h" using new_obj_asked t(1,2) by simp
    then show ?thesis using t(2) by blast
  qed
  have "filter (\<lambda>h. \<not> ?asked h) (filter P (handlers_of reg ty)) = filter P (handlers_of reg ty)" for P
    using old by (intro filter_True) (simp add: filter_id_conv)
  moreover have "filter (\<lambda>h. \<not> ?asked h) (filter P ?news) = []" for P
    using new by (fastforce simp: filter_empty_conv)
  ultimately have "filter (\<lambda>h. \<not> ?asked h) (behind (handlers_of reg ty) ?news) = behind (handlers_of reg ty) []"
    unfolding behind_def by (simp only: filter_append filter.simps append_Nil append_Nil2)
  moreover have "behind (handlers_of reg ty) [] = handlers_of reg ty"
    using assms(1) objs_in_order by (cases "events reg") (auto simp: registry_ok_def handlers_of_def behind_def)
  ultimately show ?thesis
    unfolding event_remove_spec(2)[OF event_add_spec(1)[OF assms(1)]] event_add_spec(2)[OF assms(1)] by simp
qed

section \<open>Properties\<close>

text \<open>
  The regular expression that \<open>remove\<close> and \<open>trigger\<close> build from sorted namespaces tells exactly whether
  they are among the namespaces of a handler, whatever the order in which both were written.
\<close>

theorem namespaces_are_subset:
  assumes "list_all not_newline h"
  shows "namespace_test (namespaces_of (Some ns)) (join ''.'' (namespaces_of (Some h))) \<longleftrightarrow>
    mset (split_char CHR ''.'' ns) \<subseteq># mset (split_char CHR ''.'' h)"
  using namespace_test_subset[OF assms, of "Some ns"] by simp

theorem namespaces_are_subset_witness:
  "namespace_test (namespaces_of (Some ''c.a'')) (join ''.'' (namespaces_of (Some ''a.b.c''))) \<and>
   \<not> namespace_test (namespaces_of (Some ''ab'')) (join ''.'' (namespaces_of (Some ''a.b.c'')))"
proof -
  have n: "list_all not_newline ''a.b.c''" by (simp add: not_newline_def)
  show ?thesis
    unfolding namespaces_are_subset[OF n] by (simp add: subseteq_mset_def)
qed

text \<open>
  C18. \<open>remove\<close> drops exactly the handlers that one of the given types asks for: those with that type (any
  type, if only namespaces are given) and all of the namespaces, the function and the selector given.  The
  registry stays in order: delegated handlers in front and counted, no empty list, and a listener for
  exactly the types with handlers.
\<close>

theorem remove_exact:
  assumes "registry_ok reg"
  shows "registry_ok (event_remove r types reg) \<and>
    handlers_of (event_remove r types reg) ty =
      filter (\<lambda>h. \<not> (\<exists>t \<in> set (type_list types). asked r t h)) (handlers_of reg ty)"
  using event_remove_spec[OF assms] by blast

definition click_handler :: "nat \<Rightarrow> string \<Rightarrow> handle_obj" where
  "click_handler g ns = \<lparr>htype = ''click'', origType = ''click'', handler = g, guid = g, selector = None, namespace = ns\<rparr>"

definition sample_registry :: registry where
  "sample_registry = \<lparr>events = Some [(''click'', \<lparr>objs = [click_handler 1 ''a.b'', click_handler 2 ''b''], delegateCount = 0\<rparr>)],
     listening = [''click'']\<rparr>"

lemma sample_registry_ok: "registry_ok sample_registry"
  by (auto simp: registry_ok_def sample_registry_def events_ok_def obj_wf_def obj_get_def handlers_ok_def
      delegates_first_def click_handler_def delegated_def registered_type_def bindType_def delegateType_def split: if_splits)

theorem remove_exact_witness:
  "handlers_of (event_remove \<lparr>req_guid = None, req_selector = None\<rparr> ''click.a'' sample_registry) ''click'' =
     [click_handler 2 ''b'']"
proof -
  have "type_list ''click.a'' = [''click.a'']" "rtypenamespace ''click.a'' = (''click'', Some ''a'')"
    by (simp_all add: type_list_def rnothtmlwhite_def html_space_def rtypenamespace_def)
  moreover have "namespace_test (namespaces_of (Some ''a'')) ''a.b''" "\<not> namespace_test (namespaces_of (Some ''a'')) ''b''"
    by code_simp+
  ultimately show ?thesis
    using remove_exact[OF sample_registry_ok, of "\<lparr>req_guid = None, req_selector = None\<rparr>" "''click.a''" "''click''"]
    by (simp add: handlers_of_def objs_of_def sample_registry_def obj_get_def asked_def wanted_def selected_def
        click_handler_def registered_type_def bindType_def delegateType_def)
qed

text \<open>
  \<open>off\<close> undoes \<open>on\<close>: removing a function under the types and the selector it was added with leaves the
  handlers that were there before, in their order.
\<close>

theorem on_off_roundtrip:
  assumes "registry_ok reg" and "\<And>h. h \<in> set (handlers_of reg ty) \<Longrightarrow> guid h \<noteq> g"
  shows "handlers_of (event_remove \<lparr>req_guid = Some g, req_selector = sel\<rparr> types (event_add f g sel types reg)) ty =
      handlers_of reg ty \<and>
    handlers_of (event_add f g sel types reg) ty =
      behind (handlers_of reg ty) (map (new_obj f g sel) (filter (adds_to sel ty) (rev (type_list types))))"
  using add_remove[OF assms] event_add_spec(2)[OF assms(1)] by blast

theorem on_off_roundtrip_witness:
  "handlers_of (event_remove \<lparr>req_guid = Some 3, req_selector = Some ''p''\<rparr> ''click.x mouseenter''
     (event_add 3 3 (Some ''p'') ''click.x mouseenter'' sample_registry)) ''click'' = [click_handler 1 ''a.b'', click_handler 2 ''b'']"
proof -
  have h: "handlers_of sample_registry ''click'' = [click_handler 1 ''a.b'', click_handler 2 ''b'']"
    by (simp add: handlers_of_def objs_of_def sample_registry_def obj_get_def)
  have "guid h \<noteq> 3" if "h \<in> set (handlers_of sample_registry ''click'')" for h
    using that by (auto simp: h click_handler_def)
  from on_off_roundtrip[where ty = "''click''", OF sample_registry_ok this, where f = 3 and sel = "Some ''p''" and types = "''click.x mouseenter''"] show ?thesis by (simp add: h)
qed

text \<open>
  Without a selector, \<open>remove\<close> looks for handlers of \<open>focus\<close> under that type only: delegated ones, which
  are registered under \<open>focusin\<close>, stay, although those of \<open>click\<close> go.
\<close>

lemma off_keeps_delegated_focus:
  "\<not> asked \<lparr>req_guid = None, req_selector = None\<rparr> ''focus'' (new_obj f g (Some sel) ''focus'')"
  "asked \<lparr>req_guid = None, req_selector = None\<rparr> ''click'' (new_obj f g (Some sel) ''click'')"
  by (simp_all add: asked_def new_obj_def rtypenamespace_def registered_type_def delegateType_def bindType_def
      wanted_def selected_def)

end
