(* ===== verification/JqDispatch.thy ===== *)
theory JqDispatch
  imports JqEvent JqData
begin

text \<open>
  Delivery of events in \<open>jquery.js\<close>: \<open>jQuery.event.handlers\<close> finds the handlers for an element and its
  delegates, \<open>dispatch\<close> runs them, \<open>trigger\<close> goes up the document and then takes the default action.
  What a handler does is a parameter: the methods of the event it calls, what it returns, and how it
  changes the page, registries included.  The document is a parameter too: the ancestors of a node, itself
  first, their node types, and whether a node below \<open>this\<close> matches a selector.  Special types have their
  own functions here; the hook \<open>postDispatch\<close> of \<open>beforeunload\<close>, which copies the result to the event of
  the browser, is left out.  \<open>trigger\<close> is given a text, not an event.
\<close>

section \<open>Events and documents\<close>

datatype ret = NoResult | FalseResult | Result nat

datatype event_call = PreventDefault | StopPropagation | StopImmediate

record event =
  etype :: string
  target :: nat
  related :: "nat option"
  button :: int
  rnamespace :: "string list option"
  prevented :: bool
  stopped :: bool
  stopped_now :: bool
  result :: ret
  currentTarget :: nat
  delegateTarget :: nat
  handleObj :: "handle_obj option"

record dom =
  chain :: "nat \<Rightarrow> nat list"
  nodeType :: "nat \<Rightarrow> nat option"
  is_disabled :: "nat \<Rightarrow> bool"
  matches :: "string \<Rightarrow> nat \<Rightarrow> nat \<Rightarrow> bool"

record 'u page =
  regs :: "nat \<Rightarrow> registry"
  triggered :: "string option"
  user :: 'u

type_synonym 'u handler_code =
  "handle_obj \<Rightarrow> nat \<Rightarrow> event \<Rightarrow> 'u page \<Rightarrow> event_call list \<times> ret \<times> 'u page"

fun event_method :: "event_call \<Rightarrow> event \<Rightarrow> event" where
  "event_method PreventDefault e = e\<lparr>prevented := True\<rparr>"
| "event_method StopPropagation e = e\<lparr>stopped := True\<rparr>"
| "event_method StopImmediate e = e\<lparr>stopped_now := True, stopped := True\<rparr>"

section \<open>Finding the handlers\<close>

text \<open>The delegates that match a node; the answer for a selector is kept.\<close>

fun matched_loop :: "(string \<Rightarrow> bool) \<Rightarrow> (string \<times> bool) list \<Rightarrow> handle_obj list \<Rightarrow> handle_obj list" where
  "matched_loop test known [] = []"
| "matched_loop test known (h # hs) =
     (let sel = (case selector h of None \<Rightarrow> [] | Some s \<Rightarrow> s);
          known' = (case map_of known sel of None \<Rightarrow> (sel, test sel) # known | Some b \<Rightarrow> known);
          rest = matched_loop test known' hs
      in if map_of known' sel = Some True then h # rest else rest)"

definition handlers_queue :: "dom \<Rightarrow> nat \<Rightarrow> event \<Rightarrow> handlers \<Rightarrow> (nat \<times> handle_obj list) list" where
  "handlers_queue D this e hs =
     (let click = (etype e = ''click'');
          below = takeWhile (\<lambda>n. n \<noteq> this) (chain D (target e));
          visit = (\<lambda>cur. if nodeType D cur = Some 1 \<and> \<not> (click \<and> is_disabled D cur)
                         then (let m = matched_loop (\<lambda>sel. matches D sel this cur) [] (take (nat (delegateCount hs)) (objs hs))
                               in if m = [] then [] else [(cur, m)])
                         else [])
      in (if delegateCount hs \<noteq> 0 \<and> nodeType D (target e) \<notin> {None, Some 0} \<and> \<not> (click \<and> button e \<ge> 1)
          then concat (map visit below) else []) @
         (if delegateCount hs < int (length (objs hs)) then [(this, drop (nat (delegateCount hs)) (objs hs))] else []))"

section \<open>Running them\<close>

text \<open>\<open>mouseenter\<close> and its like are seen when the pointer comes from outside.\<close>

definition crossing_type :: "string \<Rightarrow> bool" where
  "crossing_type t \<longleftrightarrow> t \<in> {''mouseenter'', ''mouseleave'', ''pointerenter'', ''pointerleave''}"

definition crosses :: "dom \<Rightarrow> nat \<Rightarrow> event \<Rightarrow> bool" where
  "crosses D el e = (case related e of None \<Rightarrow> True | Some r \<Rightarrow> r \<noteq> el \<and> el \<notin> set (tl (chain D r)))"

definition note_return :: "ret \<Rightarrow> event \<Rightarrow> event" where
  "note_return r e =
     (case r of
        NoResult \<Rightarrow> e
      | FalseResult \<Rightarrow> e\<lparr>result := r, prevented := True, stopped := True\<rparr>
      | Result v \<Rightarrow> e\<lparr>result := r\<rparr>)"

definition call_handler :: "dom \<Rightarrow> 'u handler_code \<Rightarrow> nat \<Rightarrow> handle_obj \<Rightarrow> event \<times> 'u page \<Rightarrow> event \<times> 'u page" where
  "call_handler D code el h s =
     (case s of
        (e, p) \<Rightarrow>
          let e1 = e\<lparr>handleObj := Some h\<rparr>
          in if crossing_type (origType h)
             then (if crosses D el e1
                   then (case code h el (e1\<lparr>etype := origType h\<rparr>) p of
                           (calls, r, p') \<Rightarrow>
                             (note_return r (fold event_method calls (e1\<lparr>etype := delegateType (origType h)\<rparr>)), p'))
                   else (e1, p))
             else (case code h el e1 p of (calls, r, p') \<Rightarrow> (note_return r (fold event_method calls e1), p')))"

definition seen_by :: "event \<Rightarrow> handle_obj \<Rightarrow> bool" where
  "seen_by e h = (case rnamespace e of None \<Rightarrow> True | Some ns \<Rightarrow> namespace_test ns (namespace h))"

fun run_handlers :: "dom \<Rightarrow> 'u handler_code \<Rightarrow> nat \<Rightarrow> handle_obj list \<Rightarrow> event \<times> 'u page \<Rightarrow> event \<times> 'u page" where
  "run_handlers D code el [] s = s"
| "run_handlers D code el (h # hs) s =
     (if stopped_now (fst s) then s
      else run_handlers D code el hs (if seen_by (fst s) h then call_handler D code el h s else s))"

fun run_queue :: "dom \<Rightarrow> 'u handler_code \<Rightarrow> (nat \<times> handle_obj list) list \<Rightarrow> event \<times> 'u page \<Rightarrow> event \<times> 'u page" where
  "run_queue D code [] s = s"
| "run_queue D code ((el, hs) # q) s =
     (if stopped (fst s) then s
      else run_queue D code q (run_handlers D code el hs ((fst s)\<lparr>currentTarget := el\<rparr>, snd s)))"

definition registered :: "registry \<Rightarrow> string \<Rightarrow> handlers" where
  "registered reg ty =
     (case events reg of
        None \<Rightarrow> \<lparr>objs = [], delegateCount = 0\<rparr>
      | Some evs \<Rightarrow> (case obj_get evs ty of None \<Rightarrow> \<lparr>objs = [], delegateCount = 0\<rparr> | Some hs \<Rightarrow> hs))"

definition dispatch :: "dom \<Rightarrow> 'u handler_code \<Rightarrow> nat \<Rightarrow> event \<times> 'u page \<Rightarrow> event \<times> 'u page" where
  "dispatch D code this s =
     (let e = (fst s)\<lparr>delegateTarget := this\<rparr>
      in run_queue D code (handlers_queue D this e (registered (regs (snd s) this) (etype e))) (e, snd s))"

section \<open>Triggering\<close>

text \<open>
  What the document has besides handlers of this module: \<open>on...\<close> properties with their result, native methods
  with the name of an event (while one runs, the \<open>on...\<close> property of its element is off), and what the
  functions of the special types look at.
\<close>

record 'u natives =
  on_property :: "nat \<Rightarrow> string \<Rightarrow> (event \<Rightarrow> 'u page \<Rightarrow> ret \<times> 'u page) option"
  native_method :: "nat \<Rightarrow> string \<Rightarrow> ('u page \<Rightarrow> 'u page) option"
  active :: "'u page \<Rightarrow> nat option"  \<comment> \<open>\<open>safeActiveElement()\<close>\<close>
  is_checkbox :: "nat \<Rightarrow> bool"
  is_link :: "nat \<Rightarrow> bool"
  is_window :: "nat \<Rightarrow> bool"
  window_above :: "nat \<Rightarrow> nat \<Rightarrow> nat option"  \<comment> \<open>the window of a top node that is the document of the element\<close>

definition rfocusMorph :: "string \<Rightarrow> bool" where
  "rfocusMorph t \<longleftrightarrow> t = ''focusinfocus'' \<or> t = ''focusoutblur''"

text \<open>The functions of special types: \<open>Some\<close> page when \<open>trigger\<close> returns \<open>false\<close>.\<close>

definition special_trigger :: "'u natives \<Rightarrow> string \<Rightarrow> nat \<Rightarrow> 'u page \<Rightarrow> 'u page option" where
  "special_trigger N type el p =
     (if type = ''focus'' \<and> active N p \<noteq> Some el \<or> type = ''blur'' \<and> active N p = Some el \<or>
         type = ''click'' \<and> is_checkbox N el
      then (case native_method N el type of None \<Rightarrow> None | Some f \<Rightarrow> Some (f p))
      else None)"

definition special_default :: "'u natives \<Rightarrow> string \<Rightarrow> event \<Rightarrow> bool" where
  "special_default N type e = (if type = ''click'' then is_link N (target e) else False)"

definition event_path :: "dom \<Rightarrow> 'u natives \<Rightarrow> bool \<Rightarrow> string \<Rightarrow> nat \<Rightarrow> nat list" where
  "event_path D N onlyHandlers type el =
     (if \<not> onlyHandlers \<and> type \<noteq> ''load'' \<and> \<not> is_window N el
      then let up = (if rfocusMorph (delegateType type @ type) then chain D el else tl (chain D el))
           in el # up @ (case window_above N el (last (el # up)) of None \<Rightarrow> [] | Some w \<Rightarrow> [w])
      else [el])"

text \<open>The listener that \<open>add\<close> gives an element is there when the type is, and ignores what is being triggered.\<close>

definition has_type :: "registry \<Rightarrow> string \<Rightarrow> bool" where
  "has_type reg ty = (case events reg of None \<Rightarrow> False | Some evs \<Rightarrow> obj_get evs ty \<noteq> None)"

definition event_handle :: "dom \<Rightarrow> 'u handler_code \<Rightarrow> nat \<Rightarrow> event \<times> 'u page \<Rightarrow> event \<times> 'u page" where
  "event_handle D code el s =
     (if triggered (snd s) \<noteq> Some (etype (fst s)) then dispatch D code el s else s)"

definition native_handler :: "dom \<Rightarrow> 'u natives \<Rightarrow> nat \<Rightarrow> string \<Rightarrow> event \<times> 'u page \<Rightarrow> event \<times> 'u page" where
  "native_handler D N cur type s =
     (case (if CHR '':'' \<in> set type then None else on_property N cur type) of
        None \<Rightarrow> s
      | Some f \<Rightarrow>
          if acceptData (nodeType D cur)
          then (case f (fst s) (snd s) of
                  (r, p) \<Rightarrow> ((fst s)\<lparr>result := r, prevented := prevented (fst s) \<or> r = FalseResult\<rparr>, p))
          else s)"

fun fire_path :: "dom \<Rightarrow> 'u natives \<Rightarrow> 'u handler_code \<Rightarrow> string \<Rightarrow> bool \<Rightarrow> nat list \<Rightarrow> event \<times> 'u page \<Rightarrow> event \<times> 'u page" where
  "fire_path D N code type first [] s = s"
| "fire_path D N code type first (cur # path) s =
     (if stopped (fst s) then s
      else
        let e = (fst s)\<lparr>etype := (if first then bindType type else delegateType type)\<rparr>;
            s1 = (if has_type (regs (snd s) cur) (etype e) then event_handle D code cur (e, snd s) else (e, snd s))
        in fire_path D N code type False path (native_handler D N cur type s1))"

definition default_action :: "dom \<Rightarrow> 'u natives \<Rightarrow> bool \<Rightarrow> string \<Rightarrow> nat \<Rightarrow> event \<times> 'u page \<Rightarrow> event \<times> 'u page" where
  "default_action D N onlyHandlers type el s =
     (if \<not> onlyHandlers \<and> \<not> prevented (fst s) \<and> \<not> special_default N type (fst s) \<and> acceptData (nodeType D el) \<and>
         CHR '':'' \<notin> set type \<and> \<not> is_window N el
      then (case native_method N el type of
              None \<Rightarrow> s
            | Some f \<Rightarrow> (fst s, (f ((snd s)\<lparr>triggered := Some type\<rparr>))\<lparr>triggered := None\<rparr>))
      else s)"

definition fresh_event :: "string \<Rightarrow> string list \<Rightarrow> nat \<Rightarrow> event" where
  "fresh_event type ns el =
     \<lparr>etype = type, target = el, related = None, button = 0,
      rnamespace = (if join ''.'' ns = [] then None else Some ns),
      prevented = False, stopped = False, stopped_now = False, result = NoResult,
      currentTarget = el, delegateTarget = el, handleObj = None\<rparr>"

text \<open>The type of a trigger, and its namespaces in order.\<close>

definition trigger_type :: "string \<Rightarrow> string \<times> string list" where
  "trigger_type t =
     (if CHR ''.'' \<in> set t
      then (hd (split_char CHR ''.'' t), array_sort str_cmp (tl (split_char CHR ''.'' t))) else (t, []))"

definition trigger :: "dom \<Rightarrow> 'u natives \<Rightarrow> 'u handler_code \<Rightarrow> bool \<Rightarrow> string \<Rightarrow> nat \<Rightarrow> 'u page \<Rightarrow> event option \<times> 'u page" where
  "trigger D N code onlyHandlers t el p =
     (if nodeType D el \<in> {Some 3, Some 8} \<or> rfocusMorph (t @ (case triggered p of None \<Rightarrow> ''undefined'' | Some u \<Rightarrow> u))
      then (None, p)
      else
        case trigger_type t of
          (type, ns) \<Rightarrow>
            (case (if onlyHandlers then None else special_trigger N type el p) of
               Some p' \<Rightarrow> (None, p')
             | None \<Rightarrow>
                 case fire_path D N code type True (event_path D N onlyHandlers type el) (fresh_event type ns el, p) of
                   (e, p1) \<Rightarrow>
                     (case default_action D N onlyHandlers type el (e\<lparr>etype := type\<rparr>, p1) of (e', p') \<Rightarrow> (Some e', p'))))"

section \<open>One call only\<close>

text \<open>\<open>off\<close> of a dispatched event, as the functions of \<open>one\<close> call it.\<close>

definition off_event :: "handle_obj \<Rightarrow> registry \<Rightarrow> registry" where
  "off_event h reg =
     event_remove \<lparr>req_guid = Some (guid h), req_selector = selector h\<rparr>
       (if namespace h \<noteq> [] then origType h @ ''.'' @ namespace h else origType h) reg"

text \<open>The function that \<open>one\<close> registers, with the guid of the original.\<close>

definition one_wrapper :: "'u handler_code \<Rightarrow> 'u handler_code" where
  "one_wrapper orig h el e p =
     (case handleObj e of
        None \<Rightarrow> orig h el e p
      | Some ho \<Rightarrow>
          orig h el e (p\<lparr>regs := (regs p)(delegateTarget e := off_event ho (regs p (delegateTarget e)))\<rparr>))"

section \<open>What the queue holds\<close>

lemma matched_loop_filter:
  assumes "\<forall>(s, b) \<in> set known. b = test s"
  shows "matched_loop test known hs = filter (\<lambda>h. test (case selector h of None \<Rightarrow> [] | Some s \<Rightarrow> s)) hs"
  using assms
proof (induction hs arbitrary: known)
  case (Cons h hs)
  let ?sel = "case selector h of None \<Rightarrow> [] | Some s \<Rightarrow> s"
  let ?known = "case map_of known ?sel of None \<Rightarrow> (?sel, test ?sel) # known | Some b \<Rightarrow> known"
  have k: "\<forall>(s, b) \<in> set ?known. b = test s" using Cons.prems by (auto split: option.split)
  have "map_of known ?sel = Some b \<Longrightarrow> b = test ?sel" for b
    using Cons.prems map_of_SomeD by fastforce
  then have "map_of ?known ?sel = Some (test ?sel)" by (auto split: option.split)
  then show ?case using Cons.IH[OF k] by (simp add: Let_def)
qed simp

text \<open>The nodes below \<open>this\<close> whose delegates are looked for, and the delegates of one that match.\<close>

definition delegate_nodes :: "dom \<Rightarrow> nat \<Rightarrow> event \<Rightarrow> nat list" where
  "delegate_nodes D this e =
     (if nodeType D (target e) \<in> {None, Some 0} \<or> etype e = ''click'' \<and> button e \<ge> 1 then []
      else filter (\<lambda>n. nodeType D n = Some 1 \<and> \<not> (etype e = ''click'' \<and> is_disabled D n))
             (takeWhile (\<lambda>n. n \<noteq> this) (chain D (target e))))"

definition delegates_at :: "dom \<Rightarrow> nat \<Rightarrow> handle_obj list \<Rightarrow> nat \<Rightarrow> handle_obj list" where
  "delegates_at D this hs n =
     filter (\<lambda>h. case selector h of None \<Rightarrow> False | Some sel \<Rightarrow> matches D sel this n) hs"

lemma delegates_of_parts:
  assumes "objs hs = as @ bs" "list_all delegated as" "list_all (\<lambda>h. \<not> delegated h) bs"
  shows "delegates_at D this (objs hs) n = delegates_at D this as n"
    and "matched_loop (\<lambda>sel. matches D sel this n) [] as = delegates_at D this as n"
    and "filter (\<lambda>h. \<not> delegated h) (objs hs) = bs"
  using assms
  by (auto simp: delegates_at_def matched_loop_filter delegated_def list_all_iff filter_empty_conv
      intro!: filter_cong)

lemma queue_parts:
  assumes "delegates_first hs"
  shows "handlers_queue D this e hs =
    map (\<lambda>n. (n, delegates_at D this (objs hs) n))
      (filter (\<lambda>n. delegates_at D this (objs hs) n \<noteq> []) (delegate_nodes D this e)) @
    (case filter (\<lambda>h. \<not> delegated h) (objs hs) of [] \<Rightarrow> [] | d # ds \<Rightarrow> [(this, d # ds)])"
proof -
  obtain as bs where ab: "objs hs = as @ bs" "list_all delegated as" "list_all (\<lambda>h. \<not> delegated h) bs"
      "delegateCount hs = int (length as)"
    using assms by (auto simp: delegates_first_def)
  note parts = delegates_of_parts[OF ab(1,2,3)]
  have nodes: "concat (map (\<lambda>cur. if P cur then (let m = g cur in if m = [] then [] else [(cur, m)]) else []) ns) =
      map (\<lambda>n. (n, g n)) (filter (\<lambda>n. g n \<noteq> []) (filter P ns))" for P and g :: "nat \<Rightarrow> handle_obj list" and ns
    by (induction ns) (simp_all add: Let_def)
  have empty: "as = [] \<Longrightarrow> delegates_at D this as n = []" for n by (simp add: delegates_at_def)
  have "(case bs of [] \<Rightarrow> [] | d # ds \<Rightarrow> [(this, d # ds)]) = (if bs = [] then [] else [(this, bs)])"
    by (cases bs) auto
  then show ?thesis
    unfolding handlers_queue_def parts(1,3) Let_def
    using empty by (auto simp: ab(1,4) parts(2) delegate_nodes_def nodes[unfolded Let_def])
qed

section \<open>Delivery, handler by handler\<close>

definition visit :: "dom \<Rightarrow> 'u handler_code \<Rightarrow> nat \<Rightarrow> handle_obj \<Rightarrow> event \<times> 'u page \<Rightarrow> event \<times> 'u page" where
  "visit D code el h s =
     (let s1 = ((fst s)\<lparr>currentTarget := el\<rparr>, snd s) in if seen_by (fst s1) h then call_handler D code el h s1 else s1)"

text \<open>
  One list of handlers with their elements: \<open>stopImmediatePropagation\<close> ends it at once, \<open>stopPropagation\<close> when
  the next handler is of another element than the last one.
\<close>

fun deliver :: "dom \<Rightarrow> 'u handler_code \<Rightarrow> nat option \<Rightarrow> (nat \<times> handle_obj) list \<Rightarrow> event \<times> 'u page \<Rightarrow> event \<times> 'u page" where
  "deliver D code prev [] s = s"
| "deliver D code prev ((el, h) # r) s =
     (if stopped_now (fst s) \<or> stopped (fst s) \<and> prev \<noteq> Some el then s
      else deliver D code (Some el) r (visit D code el h s))"

lemma event_methods_keep:
  "currentTarget (fold event_method calls e) = currentTarget e"
  "target (fold event_method calls e) = target e"
  "stopped e \<Longrightarrow> stopped (fold event_method calls e)"
  "(stopped_now e \<longrightarrow> stopped e) \<Longrightarrow> stopped_now (fold event_method calls e) \<longrightarrow> stopped (fold event_method calls e)"
proof (induction calls arbitrary: e)
  case (Cons c calls)
  { case 1 then show ?case using Cons(1) by (cases c) simp_all next
    case 2 then show ?case using Cons(2) by (cases c) simp_all next
    case 3 then show ?case using Cons(3) by (cases c) simp_all next
    case 4 then show ?case using Cons(4)[of "event_method c e"] by (cases c) simp_all }
qed simp_all

lemma note_return_keeps:
  "currentTarget (note_return r e) = currentTarget e"
  "(stopped_now e \<longrightarrow> stopped e) \<Longrightarrow> stopped_now (note_return r e) \<longrightarrow> stopped (note_return r e)"
  by (simp_all add: note_return_def split: ret.split)

lemma call_handler_keeps:
  "currentTarget (fst (call_handler D code el h s)) = currentTarget (fst s)"
  "(stopped_now (fst s) \<longrightarrow> stopped (fst s)) \<Longrightarrow>
     stopped_now (fst (call_handler D code el h s)) \<longrightarrow> stopped (fst (call_handler D code el h s))"
proof -
  obtain e p where s: "s = (e, p)" by fastforce
  show "currentTarget (fst (call_handler D code el h s)) = currentTarget (fst s)"
    by (simp add: s call_handler_def Let_def note_return_keeps event_methods_keep split: prod.split)
  assume "stopped_now (fst s) \<longrightarrow> stopped (fst s)"
  then show "stopped_now (fst (call_handler D code el h s)) \<longrightarrow> stopped (fst (call_handler D code el h s))"
    by (auto simp: s call_handler_def Let_def split: prod.splits if_splits
        dest!: note_return_keeps(2)[rule_format, rotated] event_methods_keep(4)[rule_format, rotated])
qed

lemma visit_keeps:
  "stopped_now (fst s) \<longrightarrow> stopped (fst s) \<Longrightarrow> stopped_now (fst (visit D code el h s)) \<longrightarrow> stopped (fst (visit D code el h s))"
  by (simp add: visit_def Let_def call_handler_keeps)

lemma deliver_handlers:
  assumes "currentTarget (fst s) = el" "stopped_now (fst s) \<longrightarrow> stopped (fst s)"
  shows "deliver D code (Some el) (map (Pair el) hs @ rest) s = deliver D code (Some el) rest (run_handlers D code el hs s)"
    and "stopped_now (fst (run_handlers D code el hs s)) \<longrightarrow> stopped (fst (run_handlers D code el hs s))"
proof -
  have "deliver D code (Some el) (map (Pair el) hs @ rest) s = deliver D code (Some el) rest (run_handlers D code el hs s) \<and>
      (stopped_now (fst (run_handlers D code el hs s)) \<longrightarrow> stopped (fst (run_handlers D code el hs s)))"
    using assms
  proof (induction hs arbitrary: s)
    case (Cons h hs)
    show ?case
    proof (cases "stopped_now (fst s)")
      case True
      then show ?thesis using Cons.prems by (cases rest) auto
    next
      case False
      let ?s = "if seen_by (fst s) h then call_handler D code el h s else s"
      have c: "((fst s)\<lparr>currentTarget := el\<rparr>, snd s) = s" unfolding Cons.prems(1)[symmetric] by simp
      have v: "visit D code el h s = ?s" unfolding visit_def c Let_def ..
      have "currentTarget (fst ?s) = el" "stopped_now (fst ?s) \<longrightarrow> stopped (fst ?s)"
        using Cons.prems call_handler_keeps[where s = s] by simp_all
      from Cons.IH[OF this] show ?thesis using False v by simp
    qed
  qed simp
  then show "deliver D code (Some el) (map (Pair el) hs @ rest) s = deliver D code (Some el) rest (run_handlers D code el hs s)"
      "stopped_now (fst (run_handlers D code el hs s)) \<longrightarrow> stopped (fst (run_handlers D code el hs s))" by blast+
qed

lemma run_queue_deliver:
  assumes "stopped_now (fst s) \<longrightarrow> stopped (fst s)" "distinct (map fst q)" "\<forall>(el, hs) \<in> set q. hs \<noteq> [] \<and> prev \<noteq> Some el"
  shows "run_queue D code q s = deliver D code prev (concat (map (\<lambda>(el, hs). map (Pair el) hs) q)) s"
  using assms
proof (induction q arbitrary: prev s)
  case (Cons m q)
  obtain el h hs where m: "m = (el, h # hs)" using Cons.prems(3) by (cases m) (auto simp: neq_Nil_conv)
  let ?s = "((fst s)\<lparr>currentTarget := el\<rparr>, snd s)" and ?r = "concat (map (\<lambda>(el, hs). map (Pair el) hs) q)"
  show ?case
  proof (cases "stopped (fst s)")
    case True
    then show ?thesis using Cons.prems(3) m by simp
  next
    case False
    then have now: "\<not> stopped_now (fst s)" using Cons.prems(1) by blast
    have "run_queue D code (m # q) s = run_queue D code q (run_handlers D code el (h # hs) ?s)"
      using False by (simp add: m)
    also have "\<dots> = deliver D code (Some el) ?r (run_handlers D code el (h # hs) ?s)"
      using Cons.prems now False m
      by (intro Cons.IH deliver_handlers(2)) (auto simp: case_prod_unfold image_iff)
    also have "\<dots> = deliver D code (Some el) (map (Pair el) (h # hs) @ ?r) ?s"
      using now False by (intro deliver_handlers(1)[symmetric]) simp_all
    also have "\<dots> = deliver D code prev (concat (map (\<lambda>(el, hs). map (Pair el) hs) (m # q))) s"
      using now False by (simp add: m visit_def)
    finally show ?thesis .
  qed
qed simp

section \<open>Properties\<close>

lemma registered_objs: "objs (registered reg ty) = handlers_of reg ty"
  by (simp add: registered_def handlers_of_def objs_of_def split: option.split)

lemma registered_delegates_first: "registry_ok reg \<Longrightarrow> delegates_first (registered reg ty)"
  by (auto simp: registered_def registry_ok_def events_ok_def handlers_ok_def delegates_first_def split: option.splits)

lemma concat_nonempty: "concat (map f (filter (\<lambda>n. f n \<noteq> []) ns)) = concat (map f ns)"
  by (induction ns) auto

lemma distinct_delegate_nodes:
  "distinct (chain D (target e)) \<Longrightarrow> distinct (delegate_nodes D this e) \<and> this \<notin> set (delegate_nodes D this e)"
  by (auto simp: delegate_nodes_def dest: set_takeWhileD)

definition delivery :: "dom \<Rightarrow> nat \<Rightarrow> event \<Rightarrow> handle_obj list \<Rightarrow> (nat \<times> handle_obj) list" where
  "delivery D this e hs =
     concat (map (\<lambda>n. map (Pair n) (delegates_at D this hs n)) (delegate_nodes D this e)) @
     map (Pair this) (filter (\<lambda>h. \<not> delegated h) hs)"

lemma delivery_queue:
  assumes "delegates_first hs"
  shows "concat (map (\<lambda>(el, hs). map (Pair el) hs) (handlers_queue D this e hs)) = delivery D this e (objs hs)"
proof -
  have "concat (map (\<lambda>(el, hs). map (Pair el) hs) (case ds of [] \<Rightarrow> [] | d # ds' \<Rightarrow> [(this, d # ds')])) = map (Pair this) ds"
    for ds :: "handle_obj list" by (cases ds) simp_all
  moreover have "concat (map (\<lambda>(el, hs). map (Pair el) hs) (map (\<lambda>n. (n, g n)) (filter (\<lambda>n. g n \<noteq> []) ns))) =
      concat (map (\<lambda>n. map (Pair n) (g n)) ns)" for g :: "nat \<Rightarrow> handle_obj list" and ns
    using concat_nonempty[of "\<lambda>n. map (Pair n) (g n)" ns] by (simp add: o_def)
  ultimately show ?thesis unfolding queue_parts[OF assms] delivery_def map_append concat_append by presburger
qed

text \<open>
  C17. \<open>dispatch\<close> runs, nearest element first, for each element below \<open>this\<close> the delegated handlers whose
  selector it matches in the order they were added, then the handlers of \<open>this\<close> itself; an immediate stop
  ends the run before the next handler, a stop before the handlers of the next element.
\<close>

theorem dispatch_order:
  assumes "registry_ok (regs p this)" "distinct (chain D (target e))" "\<not> stopped e" "\<not> stopped_now e"
  shows "dispatch D code this (e, p) =
    deliver D code None (delivery D this e (handlers_of (regs p this) (etype e))) (e\<lparr>delegateTarget := this\<rparr>, p)"
proof -
  let ?e = "e\<lparr>delegateTarget := this\<rparr>" and ?hs = "registered (regs p this) (etype e)"
  have d: "delegates_first ?hs" by (rule registered_delegates_first[OF assms(1)])
  have "distinct (map fst (handlers_queue D this ?e ?hs))"
    using distinct_delegate_nodes[of D ?e this] assms(2) unfolding queue_parts[OF d]
    by (auto simp: o_def split: list.split)
  moreover have "\<forall>(el, hs) \<in> set (handlers_queue D this ?e ?hs). hs \<noteq> [] \<and> None \<noteq> Some el"
    unfolding queue_parts[OF d] by (auto split: list.split)
  ultimately have "run_queue D code (handlers_queue D this ?e ?hs) (?e, p) =
      deliver D code None (delivery D this ?e (objs ?hs)) (?e, p)"
    unfolding delivery_queue[OF d, symmetric] using assms(4) by (intro run_queue_deliver) simp_all
  then show ?thesis
    by (simp add: dispatch_def Let_def registered_objs delivery_def delegate_nodes_def)
qed

text \<open>A page with a log: a list item in a list in a document, and handlers on the document.\<close>

definition sample_dom :: dom where
  "sample_dom =
     \<lparr>chain = (\<lambda>n. if n = 3 then [3, 2, 1] else if n = 2 then [2, 1] else if n = 1 then [1] else []),
      nodeType = (\<lambda>n. if n = 1 then Some 9 else Some 1), is_disabled = (\<lambda>n. False),
      matches = (\<lambda>sel this n. sel = ''li'' \<and> n = 3 \<or> sel = ''ul'' \<and> n = 2)\<rparr>"

definition log_code :: "(nat \<Rightarrow> event_call list) \<Rightarrow> (nat \<times> nat) list handler_code" where
  "log_code calls h el e p = (calls (guid h), NoResult, p\<lparr>user := user p @ [(guid h, el)]\<rparr>)"

definition click_on :: "nat \<Rightarrow> string option \<Rightarrow> handle_obj" where
  "click_on g sel = \<lparr>htype = ''click'', origType = ''click'', handler = g, guid = g, selector = sel, namespace = []\<rparr>"

definition sample_page :: "(nat \<times> nat) list page" where
  "sample_page =
     \<lparr>regs = (\<lambda>n. if n = 1
         then \<lparr>events = Some [(''click'', \<lparr>objs = [click_on 1 (Some ''ul''), click_on 2 (Some ''li''), click_on 3 None], delegateCount = 2\<rparr>)],
               listening = [''click'']\<rparr>
         else \<lparr>events = None, listening = []\<rparr>),
      triggered = None, user = []\<rparr>"

lemma sample_page_ok: "registry_ok (regs sample_page 1)"
proof -
  have "delegates_first \<lparr>objs = [click_on 1 (Some ''ul''), click_on 2 (Some ''li''), click_on 3 None], delegateCount = 2\<rparr>"
    unfolding delegates_first_def
    by (intro exI[of _ "[click_on 1 (Some ''ul''), click_on 2 (Some ''li'')]"] exI[of _ "[click_on 3 None]"])
       (simp add: click_on_def delegated_def)
  then show ?thesis
    by (auto simp: registry_ok_def sample_page_def events_ok_def obj_wf_def obj_get_def handlers_ok_def
        click_on_def registered_type_def bindType_def delegateType_def split: if_splits)
qed

theorem dispatch_order_witness:
  "user (snd (dispatch sample_dom (log_code (\<lambda>g. [])) 1 (fresh_event ''click'' [] 3, sample_page))) = [(2, 3), (1, 2), (3, 1)] \<and>
   user (snd (dispatch sample_dom (log_code (\<lambda>g. if g = 1 then [StopPropagation] else [])) 1
     (fresh_event ''click'' [] 3, sample_page))) = [(2, 3), (1, 2)]"
proof -
  let ?e = "fresh_event ''click'' [] 3"
  have d: "delivery sample_dom 1 ?e (handlers_of (regs sample_page 1) (etype ?e)) =
      [(3, click_on 2 (Some ''li'')), (2, click_on 1 (Some ''ul'')), (1, click_on 3 None)]"
    by code_simp
  have e: "distinct (chain sample_dom (target ?e))" "\<not> stopped ?e" "\<not> stopped_now ?e"
    by (simp_all add: sample_dom_def fresh_event_def)
  show ?thesis
    unfolding dispatch_order[OF sample_page_ok e] d
    by (simp add: visit_def seen_by_def fresh_event_def call_handler_def log_code_def click_on_def crossing_type_def
        note_return_def Let_def sample_page_def)
qed

text \<open>While the default action runs, the listeners of the module ignore the type that was triggered.\<close>

lemma default_action_quiet:
  assumes "native_method N el type = Some (\<lambda>p. snd (fold (event_handle D code) nodes (e, p)))"
    and "etype e = type" "triggered (snd s) = None"
  shows "default_action D N onlyHandlers type el s = s"
proof -
  have "fold (event_handle D code) nodes (e, p) = (e, p)" if "triggered p = Some type" for p
    using that assms(2) by (induction nodes) (simp_all add: event_handle_def)
  moreover have "(snd s)\<lparr>triggered := None\<rparr> = snd s" unfolding assms(3)[symmetric] by simp
  ultimately show ?thesis by (simp add: default_action_def assms(1))
qed

text \<open>
  When the native method that \<open>trigger\<close> calls makes the browser fire the same event at any of the nodes, no
  handler runs a second time: the page is the one that the handlers on the path left.
\<close>

theorem trigger_fires_once:
  assumes "trigger_type t = (type, ns)" "special_trigger N type el p = None"
    and "nodeType D el \<notin> {Some 3, Some 8}" "\<not> rfocusMorph (t @ ''undefined'')" "triggered p = None"
    and "fire_path D N code type True (event_path D N False type el) (fresh_event type ns el, p) = (e, p1)" "triggered p1 = None"
    and "native_method N el type = Some (\<lambda>p. snd (fold (event_handle D code) nodes (b, p)))" "etype b = type"
  shows "trigger D N code False t el p = (Some (e\<lparr>etype := type\<rparr>), p1)"
  using assms(3-5,7) default_action_quiet[OF assms(8,9)] by (simp add: trigger_def assms(1,2,6))

definition sample_natives :: "(nat \<times> nat) list handler_code \<Rightarrow> (nat \<times> nat) list natives" where
  "sample_natives code =
     \<lparr>on_property = (\<lambda>n t. None),
      native_method = (\<lambda>n t. if t = ''click'' then Some (\<lambda>p. snd (fold (event_handle sample_dom code) [3, 2, 1] (fresh_event ''click'' [] 3, p))) else None),
      active = (\<lambda>p. None), is_checkbox = (\<lambda>n. False), is_link = (\<lambda>n. False), is_window = (\<lambda>n. False),
      window_above = (\<lambda>el n. if n = 1 then Some 0 else None)\<rparr>"

theorem trigger_fires_once_witness:
  "user (snd (trigger sample_dom (sample_natives (log_code (\<lambda>g. []))) (log_code (\<lambda>g. [])) False ''click'' 3 sample_page)) =
     [(2, 3), (1, 2), (3, 1)]"
proof -
  let ?code = "log_code (\<lambda>g. [])" and ?N = "sample_natives (log_code (\<lambda>g. []))"
  let ?s = "fire_path sample_dom ?N ?code ''click'' True (event_path sample_dom ?N False ''click'' 3) (fresh_event ''click'' [] 3, sample_page)"
  have t: "trigger_type ''click'' = (''click'', [])" "special_trigger ?N ''click'' 3 sample_page = None"
      "nodeType sample_dom 3 \<notin> {Some 3, Some 8}" "\<not> rfocusMorph (''click'' @ ''undefined'')" "triggered sample_page = None"
    by (simp_all add: trigger_type_def special_trigger_def sample_natives_def sample_dom_def rfocusMorph_def sample_page_def)
  have p: "triggered (snd ?s) = None" "user (snd ?s) = [(2, 3), (1, 2), (3, 1)]" by code_simp+
  have n: "native_method ?N 3 ''click'' =
      Some (\<lambda>p. snd (fold (event_handle sample_dom ?code) [3, 2, 1] (fresh_event ''click'' [] 3, p)))"
    by (simp add: sample_natives_def)
  have b: "etype (fresh_event ''click'' [] 3) = ''click''" by (simp add: fresh_event_def)
  have "?s = (fst ?s, snd ?s)" by simp
  from trigger_fires_once[OF t this p(1) n b] p(2) show ?thesis by simp
qed

section \<open>Handlers that unbind themselves\<close>

text \<open>The request of \<open>off\<close> for a dispatched event asks for the handler of the event.\<close>

lemma in_join: "x \<in> set (join [c] ps) \<Longrightarrow> x = c \<or> (\<exists>p \<in> set ps. x \<in> set p)"
  by (induction ps rule: induct_list012) auto

lemma in_split: "p \<in> set (split_char c s) \<Longrightarrow> x \<in> set p \<Longrightarrow> x \<in> set s"
proof -
  have "q \<in> set ps \<Longrightarrow> x \<in> set q \<Longrightarrow> x \<in> set (join [c] ps)" for q ps
    by (induction ps rule: induct_list012) auto
  then show "p \<in> set (split_char c s) \<Longrightarrow> x \<in> set p \<Longrightarrow> x \<in> set s" by (metis join_split_char)
qed

lemma rtypenamespace_type: "fst (rtypenamespace t) = takeWhile (\<lambda>c. c \<noteq> CHR ''.'') t"
proof (cases "dropWhile (\<lambda>c. c \<noteq> CHR ''.'') t")
  case Nil
  then have "takeWhile (\<lambda>c. c \<noteq> CHR ''.'') t = t"
    using takeWhile_dropWhile_id[of "\<lambda>c. c \<noteq> CHR ''.''" t] by (metis append_Nil2)
  then show ?thesis by (simp only: rtypenamespace_def Nil list.case fst_conv)
qed (simp add: rtypenamespace_def)

lemma in_namespaces:
  assumes "x \<in> set (join ''.'' (namespaces_of ns))"
  shows "x = CHR ''.'' \<or> (\<exists>s. ns = Some s \<and> x \<in> set s)"
proof -
  have s: "set (namespaces_of ns) = set (split_char CHR ''.'' (case ns of None \<Rightarrow> [] | Some s \<Rightarrow> s))"
    using namespaces_of_mset by (metis set_mset_mset)
  show ?thesis using in_join[OF assms] in_split[of _ "CHR ''.''" _ x] unfolding s by (cases ns) fastforce+
qed

lemma off_text:
  assumes "token t" "fst (rtypenamespace t) \<noteq> []"
    and h_def: "h = new_obj f g sel t"
    and txt_def: "txt = (if namespace h \<noteq> [] then origType h @ ''.'' @ namespace h else origType h)"
  shows "type_list txt = [txt]" "rtypenamespace txt = (origType h, if namespace h = [] then None else Some (namespace h))"
proof -
  obtain orig ns where t: "rtypenamespace t = (orig, ns)" by fastforce
  have orig: "orig = takeWhile (\<lambda>c. c \<noteq> CHR ''.'') t"
    using rtypenamespace_type[of t] t by simp
  have "x \<in> set s \<Longrightarrow> x \<in> set t" if "ns = Some s" for x s
  proof -
    assume x: "x \<in> set s"
    have "\<exists>d. dropWhile (\<lambda>c. c \<noteq> CHR ''.'') t = d # s"
      using t that by (auto simp: rtypenamespace_def split: list.splits if_splits)
    then show ?thesis using x by (metis list.set_intros(2) set_dropWhileD)
  qed
  then have chars: "x \<in> set (namespace h) \<Longrightarrow> x = CHR ''.'' \<or> x \<in> set t" for x
    using in_namespaces[of x ns] t by (auto simp: h_def new_obj_def)
  have o: "origType h = orig" using t by (simp add: h_def new_obj_def)
  have orig_chars: "c \<in> set orig \<Longrightarrow> c \<in> set t \<and> c \<noteq> CHR ''.''" for c using orig set_takeWhileD by fastforce
  then have "x \<in> set txt \<Longrightarrow> x = CHR ''.'' \<or> x \<in> set t" for x
    using chars by (auto simp: txt_def o split: if_splits)
  then have "list_all (\<lambda>c. \<not> html_space c) txt"
    using assms(1) by (auto simp: token_def list_all_iff html_space_def)
  moreover have "txt \<noteq> []" using assms(2) t o by (simp add: txt_def)
  ultimately have "token txt" by (simp add: token_def)
  then show "type_list txt = [txt]" using tokens_of_join[of "[txt]"] by (simp add: type_list_def)
  have "takeWhile (\<lambda>c. c \<noteq> CHR ''.'') (orig @ r) = orig @ takeWhile (\<lambda>c. c \<noteq> CHR ''.'') r"
    "dropWhile (\<lambda>c. c \<noteq> CHR ''.'') (orig @ r) = dropWhile (\<lambda>c. c \<noteq> CHR ''.'') r" for r
    using orig_chars by (auto simp: takeWhile_append2 dropWhile_append2)
  from this[of "''.'' @ namespace h"] this[of "[]"]
  show "rtypenamespace txt = (origType h, if namespace h = [] then None else Some (namespace h))"
    unfolding txt_def o rtypenamespace_def by (simp del: dropWhile_eq_Nil_conv)
qed

lemma off_asks_itself:
  assumes "token t" "fst (rtypenamespace t) \<noteq> []"
    and h_def: "h = new_obj f g sel t"
    and txt_def: "txt = (if namespace h \<noteq> [] then origType h @ ''.'' @ namespace h else origType h)"
  shows "asked \<lparr>req_guid = Some (guid h), req_selector = selector h\<rparr> txt h"
proof -
  obtain orig ns where t: "rtypenamespace t = (orig, ns)" by fastforce
  have h: "guid h = g" "selector h = sel" "htype h = registered_type sel (origType h)" "namespace h = join ''.'' (namespaces_of ns)"
    "origType h = orig"
    using t by (simp_all add: h_def new_obj_def)
  have "namespace_test (namespaces_of (Some (namespace h))) (namespace h)" if "namespace h \<noteq> []"
  proof (cases ns)
    case None
    then show ?thesis using that h(4) using namespaces_of_mset[of None] by simp
  next
    case (Some s)
    have "list_all not_newline t" using assms(1) by (auto simp: token_def list_all_iff html_space_def not_newline_def)
    then have "list_all not_newline s" using rtypenamespace_newlines t Some by blast
    moreover have "split_char CHR ''.'' (namespace h) = namespaces_of ns"
      unfolding h(4) using namespaces_of_props by (intro split_char_join)
    ultimately show ?thesis
      using namespace_test_subset[of s "Some (namespace h)"] namespaces_of_mset[of ns] Some by (simp add: h(4))
  qed
  then show ?thesis
    using off_text(2)[OF assms(1,2) h_def txt_def] h
    by (auto simp: asked_def wanted_def selected_def split: option.splits)
qed

text \<open>
  A function of \<open>one\<close> unbinds its own handler before it runs: afterwards the handler is not registered any
  more, the registry is in order, and the handlers of other functions or types are there as before.
\<close>

theorem one_unbinds:
  assumes "registry_ok (regs p this)" "h = new_obj f g sel t" "token t" "fst (rtypenamespace t) \<noteq> []"
    and "handleObj e = Some h" "delegateTarget e = this"
    and "\<And>h el e p. regs (snd (snd (orig h el e p))) = regs p"
  shows "registry_ok (regs (snd (snd (one_wrapper orig h el e p))) this) \<and>
    h \<notin> set (handlers_of (regs (snd (snd (one_wrapper orig h el e p))) this) ty) \<and>
    filter (\<lambda>k. guid k \<noteq> g \<or> origType k \<noteq> origType h) (handlers_of (regs (snd (snd (one_wrapper orig h el e p))) this) ty) =
      filter (\<lambda>k. guid k \<noteq> g \<or> origType k \<noteq> origType h) (handlers_of (regs p this) ty)"
proof -
  let ?txt = "if namespace h \<noteq> [] then origType h @ ''.'' @ namespace h else origType h"
  let ?r = "\<lparr>req_guid = Some (guid h), req_selector = selector h\<rparr>"
  have after: "regs (snd (snd (one_wrapper orig h el e p))) this = event_remove ?r ?txt (regs p this)"
    using assms(5-7) by (simp add: one_wrapper_def off_event_def)
  have asked: "asked ?r ?txt h" by (rule off_asks_itself[OF assms(3,4,2) refl])
  have texts: "type_list ?txt = [?txt]" "fst (rtypenamespace ?txt) = origType h"
    using off_text[OF assms(3,4,2) refl] by simp_all
  have hs: "handlers_of (event_remove ?r ?txt (regs p this)) ty = filter (\<lambda>k. \<not> asked ?r ?txt k) (handlers_of (regs p this) ty)"
    using event_remove_spec(2)[OF assms(1), of ?r ?txt ty] by (simp only: texts(1) list.set bex_simps insert_iff bex_empty ball_simps) simp
  have "origType h \<noteq> []" "guid h = g" using assms(2,4) by (simp_all add: new_obj_def split: prod.splits)
  then have others: "asked ?r ?txt k \<Longrightarrow> guid k = g \<and> origType k = origType h" for k
    using texts(2) by (auto simp: asked_def wanted_def selected_def split: prod.splits)
  have "filter (\<lambda>k. guid k \<noteq> g \<or> origType k \<noteq> origType h) (filter (\<lambda>k. \<not> asked ?r ?txt k) (handlers_of (regs p this) ty)) =
      filter (\<lambda>k. guid k \<noteq> g \<or> origType k \<noteq> origType h) (handlers_of (regs p this) ty)"
    unfolding filter_filter using others by (intro filter_cong) blast+
  then show ?thesis
    unfolding after hs using event_remove_spec(1)[OF assms(1)] asked by simp
qed

text \<open>Two handlers for clicks, of \<open>one\<close> and of \<open>on\<close>.\<close>

definition one_page :: "nat page" where
  "one_page =
     \<lparr>regs = (\<lambda>n. event_add 8 8 None ''click'' (event_add 7 7 None ''click.x'' \<lparr>events = None, listening = []\<rparr>)),
      triggered = None, user = 0\<rparr>"

theorem one_unbinds_witness:
  "handlers_of (regs one_page 1) ''click'' = [new_obj 7 7 None ''click.x'', new_obj 8 8 None ''click''] \<and>
   (let h = new_obj 7 7 None ''click.x'';
        e = (fresh_event ''click'' [] 1)\<lparr>handleObj := Some h\<rparr>;
        hs = handlers_of (regs (snd (snd (one_wrapper (\<lambda>h el e p. ([], NoResult, p)) h 1 e one_page))) 1) ''click''
    in h \<notin> set hs \<and> filter (\<lambda>k. guid k \<noteq> 7 \<or> origType k \<noteq> ''click'') hs = [new_obj 8 8 None ''click''])"
proof -
  let ?h = "new_obj 7 7 None ''click.x''"
  let ?e = "(fresh_event ''click'' [] 1)\<lparr>handleObj := Some ?h\<rparr>"
  have "registry_ok \<lparr>events = None, listening = []\<rparr>" by (simp add: registry_ok_def)
  then have ok: "registry_ok (regs one_page 1)" by (simp add: one_page_def event_add_spec(1))
  have hs: "handlers_of (regs one_page 1) ''click'' = [?h, new_obj 8 8 None ''click'']" by code_simp
  have t: "token ''click.x''" "fst (rtypenamespace ''click.x'') \<noteq> []" by code_simp+
  have e: "handleObj ?e = Some ?h" "delegateTarget ?e = 1" by (simp_all add: fresh_event_def)
  note one_unbinds[OF ok refl t e, where orig = "\<lambda>h el e p. ([], NoResult, p)" and el = 1 and ty = "''click''", unfolded hs]
  then have u: "?h \<notin> set (handlers_of (regs (snd (snd (one_wrapper (\<lambda>h el e p. ([], NoResult, p)) ?h 1 ?e one_page))) 1) ''click'')"
    "filter (\<lambda>k. guid k \<noteq> 7 \<or> origType k \<noteq> origType ?h)
       (handlers_of (regs (snd (snd (one_wrapper (\<lambda>h el e p. ([], NoResult, p)) ?h 1 ?e one_page))) 1) ''click'') =
     filter (\<lambda>k. guid k \<noteq> 7 \<or> origType k \<noteq> origType ?h) [?h, new_obj 8 8 None ''click'']"
    by (simp_all del: filter.simps)
  have o: "origType ?h = ''click''" "origType (new_obj 8 8 None ''click'') = ''click''" "guid ?h = 7"
      "guid (new_obj 8 8 None ''click'') = 8" by code_simp+
  show ?thesis unfolding hs Let_def using u by (simp add: o)
qed

text \<open>
  The guid tells functions apart, not registrations: when a handler of \<open>one\<close> without namespaces unbinds
  itself, the same function goes that \<open>on\<close> registered for the type.
\<close>

lemma one_removes_on:
  "asked \<lparr>req_guid = Some g, req_selector = None\<rparr> ''click'' (new_obj f g None ''click'')"
  "new_obj f g None ''click'' \<noteq> new_obj wrapped g None ''click'' \<longleftrightarrow> f \<noteq> wrapped"
  by (simp_all add: asked_def new_obj_def rtypenamespace_def registered_type_def bindType_def wanted_def selected_def)

end
