(* ===== verification/JqMatch.thy ===== *)
theory JqMatch
  imports JqClass
begin

text \<open>
  The matchers of the selector engine in \<open>jquery.js\<close> (Sizzle): \<open>addCombinator\<close>, which remembers on the
  elements what it found, \<open>elementMatcher\<close>, \<open>matcherFromTokens\<close> and the loop of \<open>matcherFromGroupMatchers\<close>
  over elements.  The nodes of a document are numbered in document order, so that the parent of a node and
  its previous sibling have smaller numbers.  Context and kind of document, which all closures pass on
  unchanged, are fixed when a matcher is made.
\<close>

section \<open>Documents\<close>

record document =
  parentNode :: "nat \<Rightarrow> nat option"
  previousSibling :: "nat \<Rightarrow> nat option"
  node_kind :: "nat \<Rightarrow> nat"  \<comment> \<open>\<open>nodeType\<close>\<close>
  node_name :: "nat \<Rightarrow> string"  \<comment> \<open>in lower case\<close>
  attribute :: "nat \<Rightarrow> string \<Rightarrow> string option"

text \<open>The values of \<open>elem\<close> in \<open>while ( (elem = elem[ dir ]) )\<close>.\<close>

function walk :: "(nat \<Rightarrow> nat option) \<Rightarrow> nat \<Rightarrow> nat list" where
  "walk step n = (case step n of None \<Rightarrow> [] | Some p \<Rightarrow> if p < n then p # walk step p else [])"
  by pat_completeness auto
termination
  by (relation "measure snd") auto

declare walk.simps [simp del]

record combinator =
  dir :: string
  next_name :: "string option"  \<comment> \<open>\<open>next\<close>\<close>
  first_only :: bool  \<comment> \<open>\<open>first\<close>\<close>

definition along :: "document \<Rightarrow> string \<Rightarrow> nat \<Rightarrow> nat list" where
  "along D d = walk (if d = ''parentNode'' then parentNode D else previousSibling D)"

text \<open>\<open>Expr.relative\<close>: the combinators \<open>>\<close>, blank, \<open>+\<close> and \<open>~\<close>.\<close>

datatype kind = Child | Descendant | Adjacent | Sibling

fun relative :: "kind \<Rightarrow> combinator" where
  "relative Child = \<lparr>dir = ''parentNode'', next_name = None, first_only = True\<rparr>"
| "relative Descendant = \<lparr>dir = ''parentNode'', next_name = None, first_only = False\<rparr>"
| "relative Adjacent = \<lparr>dir = ''previousSibling'', next_name = None, first_only = True\<rparr>"
| "relative Sibling = \<lparr>dir = ''previousSibling'', next_name = None, first_only = False\<rparr>"

section \<open>What elements remember\<close>

text \<open>
  An array \<open>newCache\<close> holds \<open>dirruns\<close>, the name of its combinator and the result; several elements share
  one, so the arrays have addresses.
\<close>

record caches =
  cells :: "(nat \<times> nat \<times> bool option) list"
  slots :: "nat \<times> string \<Rightarrow> nat option"  \<comment> \<open>\<open>uniqueCache[ key ]\<close> of an element\<close>
  dirruns :: nat

type_synonym matcher = "nat \<Rightarrow> caches \<Rightarrow> bool \<times> caches"

definition set_result :: "nat \<Rightarrow> bool option \<Rightarrow> caches \<Rightarrow> caches" where
  "set_result a r S = S\<lparr>cells := (cells S)[a := (fst (cells S ! a), fst (snd (cells S ! a)), r)]\<rparr>"

definition old_result :: "caches \<Rightarrow> string \<Rightarrow> nat \<Rightarrow> nat \<Rightarrow> bool option option" where
  "old_result S key doneName elem =
     (case slots S (elem, key) of
        None \<Rightarrow> None
      | Some a \<Rightarrow> (case cells S ! a of (run, name, r) \<Rightarrow> if run = dirruns S \<and> name = doneName then Some r else None))"

section \<open>Matchers\<close>

definition eligible :: "document \<Rightarrow> bool \<Rightarrow> nat \<Rightarrow> bool" where
  "eligible D checkNonElements n \<longleftrightarrow> node_kind D n = 1 \<or> checkNonElements"

fun first_match :: "document \<Rightarrow> bool \<Rightarrow> matcher \<Rightarrow> nat list \<Rightarrow> caches \<Rightarrow> bool \<times> caches" where
  "first_match D checkNonElements m [] S = (False, S)"
| "first_match D checkNonElements m (x # xs) S =
     (if eligible D checkNonElements x then m x S else first_match D checkNonElements m xs S)"

fun any_match :: "document \<Rightarrow> bool \<Rightarrow> matcher \<Rightarrow> nat list \<Rightarrow> caches \<Rightarrow> bool \<times> caches" where
  "any_match D checkNonElements m [] S = (False, S)"
| "any_match D checkNonElements m (x # xs) S =
     (if eligible D checkNonElements x
      then (case m x S of (b, S') \<Rightarrow> if b then (True, S') else any_match D checkNonElements m xs S')
      else any_match D checkNonElements m xs S)"

fun cached_match :: "document \<Rightarrow> bool \<Rightarrow> string option \<Rightarrow> string \<Rightarrow> nat \<Rightarrow> nat \<Rightarrow> matcher \<Rightarrow> nat list \<Rightarrow> caches \<Rightarrow> bool \<times> caches" where
  "cached_match D checkNonElements skip key doneName a m [] S = (False, S)"
| "cached_match D checkNonElements skip key doneName a m (x # xs) S =
     (if \<not> eligible D checkNonElements x then cached_match D checkNonElements skip key doneName a m xs S
      else if skip = Some (node_name D x)
      then (case xs of [] \<Rightarrow> (False, S) | y # ys \<Rightarrow> cached_match D checkNonElements skip key doneName a m ys S)
      else
        case old_result S key doneName x of
          Some r \<Rightarrow> (r = Some True, set_result a r S)
        | None \<Rightarrow>
            (case m x (S\<lparr>slots := (slots S)((x, key) := Some a)\<rparr>) of
               (b, S') \<Rightarrow>
                 (if b then (True, set_result a (Some b) S')
                  else cached_match D checkNonElements skip key doneName a m xs (set_result a (Some b) S'))))"

definition addCombinator :: "document \<Rightarrow> bool \<Rightarrow> matcher \<Rightarrow> combinator \<Rightarrow> bool \<Rightarrow> nat \<Rightarrow> matcher" where
  "addCombinator D xml m c base doneName elem S =
     (let key = (case next_name c of None \<Rightarrow> dir c | Some s \<Rightarrow> s);
          checkNonElements = (base \<and> key = ''parentNode'')
      in if first_only c then first_match D checkNonElements m (along D (dir c) elem) S
         else if xml then any_match D checkNonElements m (along D (dir c) elem) S
         else cached_match D checkNonElements (next_name c) key doneName (length (cells S)) m (along D (dir c) elem)
                (S\<lparr>cells := cells S @ [(dirruns S, doneName, None)]\<rparr>))"

fun all_match :: "matcher list \<Rightarrow> matcher" where
  "all_match [] e S = (True, S)"
| "all_match (m # ms) e S = (case m e S of (b, S') \<Rightarrow> if b then all_match ms e S' else (False, S'))"

definition elementMatcher :: "matcher list \<Rightarrow> matcher" where
  "elementMatcher ms = (if length ms > 1 then all_match (rev ms) else hd ms)"

section \<open>Filters\<close>

text \<open>Token filters; the texts of a selector here hold no backslashes, so there is nothing to unescape.\<close>

datatype filter_token =
  TAG string
| CLASS string
| ID string
| ATTR string string string  \<comment> \<open>name, operator (empty when there is none), value\<close>

definition sizzle_space :: "char \<Rightarrow> bool" where
  "sizzle_space c \<longleftrightarrow> of_char c \<in> {0x20, 9, 13, 10, 12 :: nat}"

text \<open>\<open>new RegExp( "(^|" + whitespace + ")" + className + "(" + whitespace + "|$)" )\<close>\<close>

definition word_at :: "string \<Rightarrow> string \<Rightarrow> bool" where
  "word_at w s \<longleftrightarrow> take (length w) s = w \<and> (case drop (length w) s of [] \<Rightarrow> True | c # r \<Rightarrow> sizzle_space c)"

fun word_behind :: "string \<Rightarrow> string \<Rightarrow> bool" where
  "word_behind w [] = False"
| "word_behind w (c # s) = (sizzle_space c \<and> word_at w s \<or> word_behind w s)"

definition class_pattern :: "string \<Rightarrow> string \<Rightarrow> bool" where
  "class_pattern w s \<longleftrightarrow> word_at w s \<or> word_behind w s"

text \<open>\<open>replace( rwhitespace, " " )\<close>\<close>

fun blank_runs :: "bool \<Rightarrow> string \<Rightarrow> string" where
  "blank_runs inside [] = []"
| "blank_runs inside (c # s) =
     (if sizzle_space c then (if inside then blank_runs True s else CHR 0x20 # blank_runs True s)
      else c # blank_runs False s)"

definition booleans :: "string list" where
  "booleans = [''checked'', ''selected'', ''async'', ''autofocus'', ''autoplay'', ''controls'', ''defer'', ''disabled'',
     ''hidden'', ''ismap'', ''loop'', ''multiple'', ''open'', ''readonly'', ''required'', ''scoped'']"

text \<open>\<open>Sizzle.attr\<close>, with the handles that \<open>addHandle\<close> and the attribute module put up for boolean attributes.\<close>

definition sizzle_attr :: "document \<Rightarrow> bool \<Rightarrow> nat \<Rightarrow> string \<Rightarrow> string option" where
  "sizzle_attr D xml e name =
     (if xml then attribute D e name
      else if to_lower name \<in> set booleans
      then (if attribute D e (to_lower name) \<noteq> None then Some (to_lower name) else None)
      else attribute D e (to_lower name))"

definition attr_filter :: "string option \<Rightarrow> string \<Rightarrow> string \<Rightarrow> bool" where
  "attr_filter res operator check =
     (case res of
        None \<Rightarrow> operator = ''!=''
      | Some result \<Rightarrow>
          if operator = [] then True
          else if operator = ''='' then result = check
          else if operator = ''!='' then result \<noteq> check
          else if operator = ''^='' then check \<noteq> [] \<and> str_index_of result check = 0
          else if operator = ''*='' then check \<noteq> [] \<and> str_index_of result check > -1
          else if operator = ''$='' then check \<noteq> [] \<and> slice_from result (- int (length check)) = check
          else if operator = ''~='' then str_index_of ('' '' @ blank_runs False result @ '' '') check > -1
          else if operator = ''|='' then result = check \<or> slice result 0 (int (length check) + 1) = check @ ''-''
          else False)"

definition Expr_filter :: "document \<Rightarrow> bool \<Rightarrow> filter_token \<Rightarrow> nat \<Rightarrow> bool" where
  "Expr_filter D xml f e =
     (case f of
        TAG t \<Rightarrow> t = ''*'' \<or> node_name D e = to_lower t
      | CLASS c \<Rightarrow> class_pattern c (case attribute D e ''class'' of None \<Rightarrow> [] | Some s \<Rightarrow> s)
      | ID i \<Rightarrow> attribute D e ''id'' = Some i
      | ATTR name operator check \<Rightarrow> attr_filter (sizzle_attr D xml e name) operator check)"

section \<open>Compiling a selector\<close>

datatype token = Filter filter_token | Combinator kind

datatype start = Node nat | Nodes "nat list"

text \<open>The first matcher: is the element reachable from the context?\<close>

definition context_matcher :: "document \<Rightarrow> bool \<Rightarrow> start \<Rightarrow> bool \<Rightarrow> combinator option \<Rightarrow> nat \<Rightarrow> matcher" where
  "context_matcher D xml ctx outermost leading n e S =
     (if leading = None \<and> (xml \<or> \<not> outermost) then (True, S)
      else
        let c = (case leading of None \<Rightarrow> relative Descendant | Some c \<Rightarrow> c)
        in (case ctx of
              Node x \<Rightarrow> addCombinator D xml (\<lambda>e S. (e = x, S)) c True n e S
            | Nodes xs \<Rightarrow> addCombinator D xml (\<lambda>e S. (e \<in> set xs, S)) c True (n + 1) e S))"

text \<open>The loop over the tokens; \<open>n\<close> is \<open>done\<close>, the name of the next combinator.\<close>

fun token_loop :: "document \<Rightarrow> bool \<Rightarrow> token list \<Rightarrow> matcher list \<Rightarrow> nat \<Rightarrow> matcher list \<times> nat" where
  "token_loop D xml [] ms n = (ms, n)"
| "token_loop D xml (Combinator t # ts) ms n =
     token_loop D xml ts [addCombinator D xml (elementMatcher ms) (relative t) False n] (n + 1)"
| "token_loop D xml (Filter f # ts) ms n = token_loop D xml ts (ms @ [\<lambda>e S. (Expr_filter D xml f e, S)]) n"

definition leading_relative :: "token list \<Rightarrow> combinator option" where
  "leading_relative ts = (case ts of Combinator t # _ \<Rightarrow> Some (relative t) | _ \<Rightarrow> None)"

definition matcherFromTokens :: "document \<Rightarrow> bool \<Rightarrow> start \<Rightarrow> bool \<Rightarrow> token list \<Rightarrow> nat \<Rightarrow> matcher \<times> nat" where
  "matcherFromTokens D xml ctx outermost ts n =
     (let leading = leading_relative ts
      in case token_loop D xml (if leading = None then ts else tl ts) [context_matcher D xml ctx outermost leading n] (n + 2) of
           (ms, n') \<Rightarrow> (elementMatcher ms, n'))"

text \<open>The groups of a selector are compiled from the last to the first.\<close>

fun compile_groups :: "document \<Rightarrow> bool \<Rightarrow> start \<Rightarrow> bool \<Rightarrow> token list list \<Rightarrow> nat \<Rightarrow> matcher list" where
  "compile_groups D xml ctx outermost [] n = []"
| "compile_groups D xml ctx outermost (ts # rest) n =
     (case matcherFromTokens D xml ctx outermost ts n of (m, n') \<Rightarrow> m # compile_groups D xml ctx outermost rest n')"

fun some_matcher :: "matcher list \<Rightarrow> matcher" where
  "some_matcher [] e S = (False, S)"
| "some_matcher (m # ms) e S = (case m e S of (b, S') \<Rightarrow> if b then (True, S') else some_matcher ms e S')"

fun matcher_loop :: "matcher list \<Rightarrow> nat list \<Rightarrow> caches \<Rightarrow> nat list \<times> caches" where
  "matcher_loop ms [] S = ([], S)"
| "matcher_loop ms (e # es) S =
     (case some_matcher ms e S of
        (b, S') \<Rightarrow> (case matcher_loop ms es S' of (r, S'') \<Rightarrow> (if b then e # r else r, S'')))"

text \<open>The outermost run over elements gets a number of its own.\<close>

definition superMatcher :: "matcher list \<Rightarrow> nat list \<Rightarrow> caches \<Rightarrow> nat list \<times> caches" where
  "superMatcher ms elems S = matcher_loop ms elems (S\<lparr>dirruns := dirruns S + 1\<rparr>)"

definition run_selector :: "document \<Rightarrow> bool \<Rightarrow> start \<Rightarrow> bool \<Rightarrow> token list list \<Rightarrow> nat \<Rightarrow> nat list \<Rightarrow> caches \<Rightarrow> nat list \<times> caches" where
  "run_selector D xml ctx outermost groups n elems S =
     superMatcher (compile_groups D xml ctx outermost (rev groups) n) elems S"

section \<open>Walks\<close>

text \<open>What the cache relies on: the way on from a node does not depend on how it was reached.\<close>

locale node_walk =
  fixes way :: "nat \<Rightarrow> nat list"
  assumes way_on: "way n = x # xs \<Longrightarrow> way x = xs"
    and way_down: "way n = x # xs \<Longrightarrow> x < n"
begin

definition on_way :: "nat list \<Rightarrow> bool" where
  "on_way xs \<longleftrightarrow> xs = [] \<or> way (hd xs) = tl xs"

lemma on_way_start: "on_way (way n)"
  by (cases "way n") (auto simp: on_way_def dest: way_on)

lemma on_way_Cons: "on_way (x # xs) \<longleftrightarrow> way x = xs"
  by (simp add: on_way_def)

lemma on_way_tl: "on_way (x # xs) \<Longrightarrow> on_way xs"
  using on_way_start[of x] by (simp add: on_way_Cons)

lemma way_smaller: "y \<in> set (way n) \<Longrightarrow> y < n"
proof (induction n rule: less_induct)
  case (less n)
  show ?case
  proof (cases "way n")
    case (Cons x xs)
    then have "way x = xs" "x < n" using way_on way_down by blast+
    then show ?thesis using less Cons by fastforce
  qed (use less.prems in simp)
qed

lemma on_way_fresh: "on_way (x # xs) \<Longrightarrow> x \<notin> set xs"
  using way_smaller[of x x] by (auto simp: on_way_Cons)

end

lemma walk_on: "walk f n = x # xs \<Longrightarrow> walk f x = xs \<and> x < n"
  by (subst (asm) walk.simps) (auto split: option.splits if_splits)

interpretation step: node_walk "walk f" for f
  by unfold_locales (auto dest: walk_on)

section \<open>What a matcher promises\<close>

text \<open>
  A matcher with predicate \<open>p\<close> owns a set \<open>N\<close> of names.  A remembered result of the current run under one of
  its names is what the combinator of that name says of the element (\<open>says\<close>); it leaves alone what others
  remember.
\<close>

definition wf :: "caches \<Rightarrow> bool" where
  "wf S \<longleftrightarrow> (\<forall>s a. slots S s = Some a \<longrightarrow> a < length (cells S)) \<and> (\<forall>c \<in> set (cells S). fst c \<le> dirruns S)"

definition name_at :: "caches \<Rightarrow> nat \<Rightarrow> nat" where
  "name_at S a = fst (snd (cells S ! a))"

definition remembers :: "(nat \<Rightarrow> nat \<Rightarrow> bool) \<Rightarrow> nat set \<Rightarrow> caches \<Rightarrow> bool" where
  "remembers says N S \<longleftrightarrow>
     (\<forall>e k a r name. slots S (e, k) = Some a \<longrightarrow> cells S ! a = (dirruns S, name, r) \<longrightarrow> name \<in> N \<longrightarrow>
        r = Some (says name e))"

definition leaves :: "nat set \<Rightarrow> caches \<Rightarrow> caches \<Rightarrow> bool" where
  "leaves N S S' \<longleftrightarrow>
     dirruns S' = dirruns S \<and> length (cells S) \<le> length (cells S') \<and>
     (\<forall>a < length (cells S). name_at S a \<notin> N \<longrightarrow> cells S' ! a = cells S ! a) \<and>
     (\<forall>a < length (cells S). name_at S' a = name_at S a) \<and>
     (\<forall>a < length (cells S'). length (cells S) \<le> a \<longrightarrow> name_at S' a \<in> N) \<and>
     (\<forall>s a. slots S' s = Some a \<longrightarrow> slots S s = Some a \<or> name_at S' a \<in> N)"

definition realises :: "(nat \<Rightarrow> nat \<Rightarrow> bool) \<Rightarrow> nat set \<Rightarrow> matcher \<Rightarrow> (nat \<Rightarrow> bool) \<Rightarrow> bool" where
  "realises says N m p \<longleftrightarrow>
     (\<forall>e S. wf S \<longrightarrow> remembers says N S \<longrightarrow>
        fst (m e S) = p e \<and> wf (snd (m e S)) \<and> remembers says N (snd (m e S)) \<and> leaves N S (snd (m e S)))"

lemma leaves_refl: "leaves N S S"
  by (simp add: leaves_def)

lemma leavesD:
  assumes "leaves N S S'"
  shows "dirruns S' = dirruns S" "length (cells S) \<le> length (cells S')"
    and "a < length (cells S) \<Longrightarrow> name_at S a \<notin> N \<Longrightarrow> cells S' ! a = cells S ! a"
    and "a < length (cells S) \<Longrightarrow> name_at S' a = name_at S a"
    and "a < length (cells S') \<Longrightarrow> length (cells S) \<le> a \<Longrightarrow> name_at S' a \<in> N"
    and "slots S' s = Some a \<Longrightarrow> slots S s = Some a \<or> name_at S' a \<in> N"
  using assms unfolding leaves_def by blast+

lemma leaves_trans:
  assumes "leaves N S S'" "leaves N S' S''" "wf S'"
  shows "leaves N S S''"
proof -
  note l = leavesD[OF assms(1)] and k = leavesD[OF assms(2)]
  have "cells S'' ! a = cells S ! a" if "a < length (cells S)" "name_at S a \<notin> N" for a
    using l(2) l(3,4)[of a] k(3)[of a] that by simp
  moreover have "name_at S'' a = name_at S a" if "a < length (cells S)" for a
    using l(2) l(4)[of a] k(4)[of a] that by simp
  moreover have "name_at S'' a \<in> N" if "a < length (cells S'')" "length (cells S) \<le> a" for a
    using l(5)[of a] k(4,5)[of a] that by (cases "a < length (cells S')") simp_all
  moreover have "slots S s = Some a \<or> name_at S'' a \<in> N" if "slots S'' s = Some a" for s a
  proof (cases "slots S' s = Some a")
    case True
    then have "a < length (cells S')" using assms(3) unfolding wf_def by blast
    then show ?thesis using l(6)[OF True] k(4)[of a] by simp
  qed (use k(6)[OF that] in blast)
  moreover have "dirruns S'' = dirruns S" "length (cells S) \<le> length (cells S'')" using l(1,2) k(1,2) by simp_all
  ultimately show ?thesis unfolding leaves_def by blast
qed

lemma leaves_mono: "leaves M S S' \<Longrightarrow> M \<subseteq> N \<Longrightarrow> leaves N S S'"
  unfolding leaves_def by blast

lemma realises_pure: "realises says N (\<lambda>e S. (p e, S)) p"
  by (simp add: realises_def leaves_refl)

text \<open>What is remembered under names of others stays right.\<close>

lemma remembers_left:
  assumes "leaves M S S'" "remembers says N S" "N \<inter> M = {}" "wf S" "wf S'"
  shows "remembers says N S'"
  unfolding remembers_def
proof (intro allI impI)
  fix e k a r name
  assume s: "slots S' (e, k) = Some a" "cells S' ! a = (dirruns S', name, r)" "name \<in> N"
  then have "name_at S' a \<notin> M" using assms(3) by (auto simp: name_at_def)
  then have o: "slots S (e, k) = Some a" using assms(1) s(1) unfolding leaves_def by blast
  then have a: "a < length (cells S)" using assms(4) by (auto simp: wf_def)
  then have "name_at S a \<notin> M" using assms(1) \<open>name_at S' a \<notin> M\<close> by (simp add: leaves_def)
  then have "cells S' ! a = cells S ! a" using assms(1) a by (simp add: leaves_def)
  then show "r = Some (says name e)"
    using assms(1,2) s(2,3) o by (simp add: remembers_def leaves_def)
qed

section \<open>The cache of a combinator\<close>

fun finds :: "document \<Rightarrow> bool \<Rightarrow> string option \<Rightarrow> (nat \<Rightarrow> bool) \<Rightarrow> nat list \<Rightarrow> bool" where
  "finds D check skip p [] = False"
| "finds D check skip p (x # xs) =
     (if \<not> eligible D check x then finds D check skip p xs
      else if skip = Some (node_name D x) then (case xs of [] \<Rightarrow> False | y # ys \<Rightarrow> finds D check skip p ys)
      else p x \<or> finds D check skip p xs)"

lemma name_set_result [simp]: "a < length (cells S) \<Longrightarrow> name_at (set_result a r S) b = name_at S b"
  by (cases "b = a") (simp_all add: set_result_def name_at_def)

lemma set_result_fields [simp]:
  "slots (set_result a r S) = slots S" "dirruns (set_result a r S) = dirruns S"
  "length (cells (set_result a r S)) = length (cells S)"
  by (simp_all add: set_result_def)

lemma wf_set_result [simp]: "wf S \<Longrightarrow> wf (set_result a r S)"
proof (cases "a < length (cells S)")
  case True
  assume "wf S"
  then have "fst (cells S ! a) \<le> dirruns S" using True by (simp add: wf_def)
  then have "\<forall>c \<in> set (cells (set_result a r S)). fst c \<le> dirruns S"
    using \<open>wf S\<close> by (auto simp: set_result_def wf_def dest!: set_update_subset_insert[THEN subsetD])
  then show ?thesis using \<open>wf S\<close> by (simp add: wf_def)
qed (simp add: set_result_def list_update_beyond)

lemma set_result_cells:
  "a < length (cells S) \<Longrightarrow>
     cells (set_result a r S) ! b = (if b = a then (fst (cells S ! a), fst (snd (cells S ! a)), r) else cells S ! b)"
  by (simp add: set_result_def)

lemma leaves_set_result: "a < length (cells S) \<Longrightarrow> name_at S a \<in> N \<Longrightarrow> leaves N S (set_result a r S)"
  by (auto simp: leaves_def set_result_cells)

lemma leaves_slot:
  assumes "name_at S a \<in> N"
  shows "leaves N S (S\<lparr>slots := (slots S)(s := Some a)\<rparr>)"
  using assms by (auto simp: leaves_def name_at_def)

text \<open>The state while an array is shared by the elements gone by: what is ahead decides for all of them.\<close>

definition walking :: "(nat \<Rightarrow> nat \<Rightarrow> bool) \<Rightarrow> nat set \<Rightarrow> nat \<Rightarrow> nat \<Rightarrow> nat list \<Rightarrow> bool \<Rightarrow> caches \<Rightarrow> bool" where
  "walking says N name a nodes ahead S \<longleftrightarrow>
     wf S \<and> remembers says N S \<and> name \<notin> N \<and> a < length (cells S) \<and>
     fst (cells S ! a) = dirruns S \<and> fst (snd (cells S ! a)) = name \<and>
     (\<forall>e k b r. slots S (e, k) = Some b \<longrightarrow> b \<noteq> a \<longrightarrow> cells S ! b = (dirruns S, name, r) \<longrightarrow> r = Some (says name e)) \<and>
     (\<forall>e k. slots S (e, k) = Some a \<longrightarrow> e \<notin> set nodes \<and> says name e = ahead \<and> snd (snd (cells S ! a)) = Some False)"

lemma walkingD:
  assumes "walking says N name a nodes ahead S"
  shows "wf S" "remembers says N S" "name \<notin> N" "a < length (cells S)"
    and "fst (cells S ! a) = dirruns S" "fst (snd (cells S ! a)) = name" "name_at S a = name"
    and "slots S (e, k) = Some b \<Longrightarrow> b \<noteq> a \<Longrightarrow> cells S ! b = (dirruns S, name, r) \<Longrightarrow> r = Some (says name e)"
    and "slots S (e, k) = Some a \<Longrightarrow> e \<notin> set nodes" "slots S (e, k) = Some a \<Longrightarrow> says name e = ahead"
    and "slots S (e, k) = Some a \<Longrightarrow> snd (snd (cells S ! a)) = Some False"
  using assms unfolding walking_def name_at_def by blast+

lemma walking_ends:
  assumes "walking says N name a nodes ahead S"
  shows "remembers says (insert name N) (set_result a (Some ahead) S)"
    and "\<not> ahead \<Longrightarrow> remembers says (insert name N) S"
proof -
  note w = walkingD[OF assms]
  show "remembers says (insert name N) (set_result a (Some ahead) S)"
    unfolding remembers_def
  proof (intro allI impI)
    fix e k b r n
    assume s: "slots (set_result a (Some ahead) S) (e, k) = Some b"
      "cells (set_result a (Some ahead) S) ! b = (dirruns (set_result a (Some ahead) S), n, r)" "n \<in> insert name N"
    show "r = Some (says n e)"
    proof (cases "b = a")
      case True
      then show ?thesis using s w(4,5,6) w(10)[of e k] by (simp add: set_result_cells)
    next
      case False
      then have c: "slots S (e, k) = Some b" "cells S ! b = (dirruns S, n, r)" using s w(4) by (simp_all add: set_result_cells)
      show ?thesis
      proof (cases "n = name")
        case True
        then show ?thesis using w(8)[OF c(1) False] c(2) by simp
      next
        case False
        then show ?thesis using s(3) c w(2) unfolding remembers_def by blast
      qed
    qed
  qed
  assume "\<not> ahead"
  show "remembers says (insert name N) S"
    unfolding remembers_def
  proof (intro allI impI)
    fix e k b r n
    assume s: "slots S (e, k) = Some b" "cells S ! b = (dirruns S, n, r)" "n \<in> insert name N"
    show "r = Some (says n e)"
    proof (cases "b = a")
      case True
      then show ?thesis using s w(6) w(10,11)[of e k] \<open>\<not> ahead\<close> by simp
    next
      case False
      then show ?thesis using s w(8)[OF s(1) False] w(2) unfolding remembers_def by blast
    qed
  qed
qed

lemma walking_skip: "walking says N name a nodes ahead S \<Longrightarrow> set nodes' \<subseteq> set nodes \<Longrightarrow> walking says N name a nodes' ahead S"
  unfolding walking_def by blast

text \<open>The call of the inner matcher on the next element.\<close>

lemma walking_call:
  assumes w: "walking says N name a (x # xs) ahead S" and m: "realises says N m p"
    and x: "x \<notin> set xs" "says name x = (p x \<or> rest)" "ahead = (p x \<or> rest)"
    and S1_def: "S1 = S\<lparr>slots := (slots S)((x, key) := Some a)\<rparr>"
  shows "fst (m x S1) = p x" "leaves (insert name N) S (snd (m x S1))" "wf (snd (m x S1))"
    "a < length (cells (snd (m x S1)))" "name_at (snd (m x S1)) a = name"
    and "p x \<Longrightarrow> remembers says (insert name N) (set_result a (Some True) (snd (m x S1)))"
    and "\<not> p x \<Longrightarrow> walking says N name a xs rest (set_result a (Some False) (snd (m x S1)))"
proof -
  note d = walkingD[OF w]
  let ?S2 = "snd (m x S1)"
  have s1: "cells S1 = cells S" "dirruns S1 = dirruns S" "\<And>s. slots S1 s = (if s = (x, key) then Some a else slots S s)"
    by (simp_all add: S1_def)
  have "wf S1" using d(1,4) unfolding wf_def by (auto simp: s1)
  moreover have "remembers says N S1"
    unfolding remembers_def
  proof (intro allI impI)
    fix e k b r n
    assume "slots S1 (e, k) = Some b" "cells S1 ! b = (dirruns S1, n, r)" "n \<in> N"
    then show "r = Some (says n e)"
      using d(2,3,6) unfolding remembers_def by (cases "(e, k) = (x, key)") (auto simp: s1)
  qed
  ultimately have r: "fst (m x S1) = p x" "wf ?S2" "remembers says N ?S2" "leaves N S1 ?S2"
    using m unfolding realises_def by blast+
  note l = leavesD[OF r(4)]
  have a: "a < length (cells ?S2)" "cells ?S2 ! a = cells S ! a" "dirruns ?S2 = dirruns S"
    using l(1,2) l(3)[of a] d(3,4,7) by (simp_all add: s1 name_at_def)
  have name: "name_at ?S2 a = name" using a(2) d(6) by (simp add: name_at_def)
  have "leaves (insert name N) S S1" unfolding S1_def by (rule leaves_slot) (simp add: d(7))
  then show "leaves (insert name N) S ?S2"
    using leaves_mono[OF r(4), of "insert name N"] \<open>wf S1\<close> by (auto intro: leaves_trans)
  show "fst (m x S1) = p x" "wf ?S2" "a < length (cells ?S2)" "name_at ?S2 a = name" by fact+
  have old: "slots S (e, k) = Some b \<and> cells S ! b = cells ?S2 ! b \<or> e = x \<and> b = a"
    if "slots ?S2 (e, k) = Some b" "name_at ?S2 b = name" for e k b
  proof -
    have "slots S1 (e, k) = Some b" using l(6)[OF that(1)] that(2) d(3) by blast
    moreover have "b < length (cells S1)" using calculation \<open>wf S1\<close> unfolding wf_def by blast
    ultimately show ?thesis using l(3,4)[of b] that(2) d(3) by (cases "(e, k) = (x, key)") (auto simp: s1)
  qed
  have A: "r = Some (says name e)"
    if "slots ?S2 (e, k) = Some b" "b \<noteq> a" "cells ?S2 ! b = (dirruns ?S2, name, r)" for e k b r
    using old[OF that(1)] that d(8)[of e k b r] a(3) by (auto simp: name_at_def)
  have B: "e \<notin> set xs \<and> says name e = ahead" if "slots ?S2 (e, k) = Some a" for e k
    using old[OF that name] d(9,10)[of e k] x by auto
  let ?S3 = "\<lambda>b. set_result a (Some b) ?S2"
  have rem: "remembers says N (?S3 b)" for b
    using r(3) d(3) d(6) a unfolding remembers_def by (auto simp: set_result_cells)
  have "walking says N name a xs ahead (?S3 False)"
    unfolding walking_def using rem r(2) d(3,5,6) a A B by (auto simp: set_result_cells)
  from walking_ends(1)[OF this] x(3) show "p x \<Longrightarrow> remembers says (insert name N) (?S3 True)"
    using a(1) by (simp add: set_result_def)
  show "\<not> p x \<Longrightarrow> walking says N name a xs rest (?S3 False)"
    using \<open>walking says N name a xs ahead (?S3 False)\<close> x(3) by simp
qed

definition outcome :: "(nat \<Rightarrow> nat \<Rightarrow> bool) \<Rightarrow> nat set \<Rightarrow> caches \<Rightarrow> bool \<Rightarrow> bool \<times> caches \<Rightarrow> bool" where
  "outcome says N S b R \<longleftrightarrow> fst R = b \<and> wf (snd R) \<and> remembers says N (snd R) \<and> leaves N S (snd R)"

lemma realises_outcome: "realises says N m p \<longleftrightarrow> (\<forall>e S. wf S \<longrightarrow> remembers says N S \<longrightarrow> outcome says N S (p e) (m e S))"
  by (simp add: realises_def outcome_def)

lemma outcome_mono:
  assumes "outcome says M S b R" "M \<subseteq> N" "wf S" "remembers says N S"
  shows "outcome says N S b R"
proof -
  have r: "fst R = b" "wf (snd R)" "remembers says M (snd R)" "leaves M S (snd R)"
    using assms(1) by (simp_all add: outcome_def)
  have "remembers says (N - M) S" using assms(4) unfolding remembers_def by blast
  then have "remembers says (N - M) (snd R)" using remembers_left[OF r(4)] assms(3) r(2) by blast
  then have "remembers says N (snd R)" using r(3) unfolding remembers_def by blast
  then show ?thesis using r leaves_mono assms(2) by (simp add: outcome_def)
qed

lemma realises_mono: "realises says M m p \<Longrightarrow> M \<subseteq> N \<Longrightarrow> realises says N m p"
  unfolding realises_outcome
proof (intro allI impI)
  fix e S
  assume a: "\<forall>e S. wf S \<longrightarrow> remembers says M S \<longrightarrow> outcome says M S (p e) (m e S)" "M \<subseteq> N" "wf S" "remembers says N S"
  then have "remembers says M S" unfolding remembers_def by blast
  then show "outcome says N S (p e) (m e S)" using a outcome_mono by blast
qed

lemma outcome_after: "leaves N S S' \<Longrightarrow> wf S' \<Longrightarrow> outcome says N S' b R \<Longrightarrow> outcome says N S b R"
  unfolding outcome_def by (blast intro: leaves_trans)

context node_walk
begin

lemma cached_match_outcome:
  assumes m: "realises says N m p" and says: "\<And>x. says name x = (p x \<or> finds D check skip p (way x))"
  shows "on_way nodes \<Longrightarrow> walking says N name a nodes (finds D check skip p nodes) S \<Longrightarrow>
    outcome says (insert name N) S (finds D check skip p nodes) (cached_match D check skip key name a m nodes S)"
proof (induction nodes arbitrary: S rule: measure_induct_rule[of length])
  case (less nodes)
  note w = walkingD[OF less.prems(2)]
  show ?case
  proof (cases nodes)
    case Nil
    then show ?thesis using walking_ends(2)[OF less.prems(2)] w(1) by (simp add: outcome_def leaves_refl)
  next
    case (Cons x xs)
    have way: "way x = xs" "on_way xs" "x \<notin> set xs"
      using less.prems(1) on_way_Cons on_way_tl on_way_fresh unfolding Cons by blast+
    consider "\<not> eligible D check x" | "eligible D check x" "skip = Some (node_name D x)"
      | "eligible D check x" "skip \<noteq> Some (node_name D x)" by blast
    then show ?thesis
    proof cases
      case 1
      then have "walking says N name a xs (finds D check skip p xs) S"
        using less.prems(2) walking_skip[of says N name a nodes _ S xs] by (auto simp: Cons)
      from less.IH[OF _ way(2) this] show ?thesis using 1 by (simp add: Cons)
    next
      case 2
      show ?thesis
      proof (cases xs)
        case Nil
        then show ?thesis using 2 walking_ends(2)[OF less.prems(2)] w(1) by (simp add: Cons outcome_def leaves_refl)
      next
        case (Cons y ys)
        then have "walking says N name a ys (finds D check skip p ys) S"
          using 2 less.prems(2) walking_skip[of says N name a nodes _ S ys] by (auto simp: \<open>nodes = x # xs\<close>)
        moreover have "on_way ys" using way(2) on_way_tl unfolding Cons by blast
        ultimately show ?thesis using 2 less.IH[of ys S] by (simp add: \<open>nodes = x # xs\<close> Cons)
      qed
    next
      case 3
      then have f: "finds D check skip p nodes = (p x \<or> finds D check skip p xs)" by (simp add: Cons)
      have sx: "says name x = (p x \<or> finds D check skip p xs)" by (simp add: says way(1))
      show ?thesis
      proof (cases "old_result S key name x")
        case (Some r)
        then obtain b where b: "slots S (x, key) = Some b" "cells S ! b = (dirruns S, name, r)"
          by (auto simp: old_result_def split: option.splits prod.splits if_splits)
        then have "b \<noteq> a" using w(9)[of x key] by (auto simp: Cons)
        then have "r = Some (finds D check skip p nodes)" using w(8)[OF b(1) _ b(2)] sx f by simp
        then show ?thesis
          using 3 Some walking_ends(1)[OF less.prems(2)] w(1,4,7) leaves_set_result[of a S "insert name N" r]
          by (simp add: Cons outcome_def f)
      next
        case None
        let ?S1 = "S\<lparr>slots := (slots S)((x, key) := Some a)\<rparr>" and ?S2 = "snd (m x (S\<lparr>slots := (slots S)((x, key) := Some a)\<rparr>))"
        note c = walking_call[OF less.prems(2)[unfolded Cons] m way(3) sx f[unfolded Cons] refl, of key]
        have l: "leaves (insert name N) S (set_result a r ?S2)" for r
          using leaves_trans[OF c(2) leaves_set_result[OF c(4), of "insert name N" r]] c(3,5) by simp
        show ?thesis
        proof (cases "p x")
          case True
          then have "cached_match D check skip key name a m nodes S = (True, set_result a (Some True) ?S2)"
            using 3 None c(1) by (simp add: Cons case_prod_unfold)
          then show ?thesis using True c(3,6) l f by (simp add: outcome_def)
        next
          case False
          then have "cached_match D check skip key name a m nodes S =
              cached_match D check skip key name a m xs (set_result a (Some False) ?S2)"
            using 3 None c(1) by (simp add: Cons case_prod_unfold)
          moreover have "finds D check skip p nodes = finds D check skip p xs" using f False by blast
          moreover have "outcome says (insert name N) (set_result a (Some False) ?S2) (finds D check skip p xs)
              (cached_match D check skip key name a m xs (set_result a (Some False) ?S2))"
            by (rule less.IH[OF _ way(2) c(7)[OF False]]) (simp add: Cons)
          ultimately show ?thesis using outcome_after[OF l[of "Some False"]] c(3) by simp
        qed
      qed
    qed
  qed
qed

end

lemma any_match_outcome:
  assumes "realises says N m p" "wf S" "remembers says N S"
  shows "outcome says N S (finds D check None p nodes) (any_match D check m nodes S)"
  using assms(2,3)
proof (induction nodes arbitrary: S)
  case (Cons x xs)
  show ?case
  proof (cases "eligible D check x")
    case True
    have o: "outcome says N S (p x) (m x S)" using assms(1) Cons.prems unfolding realises_outcome by blast
    then have r: "wf (snd (m x S))" "remembers says N (snd (m x S))" "leaves N S (snd (m x S))" "fst (m x S) = p x"
      by (simp_all add: outcome_def)
    have rest: "outcome says N S (finds D check None p xs) (any_match D check m xs (snd (m x S)))"
      by (rule outcome_after[OF r(3,1) Cons.IH[OF r(1,2)]])
    show ?thesis
    proof (cases "p x")
      case True
      then show ?thesis using \<open>eligible D check x\<close> r by (simp add: case_prod_unfold outcome_def)
    next
      case False
      then show ?thesis using \<open>eligible D check x\<close> r(4) rest by (simp add: case_prod_unfold)
    qed
  qed (use Cons in simp)
qed (simp add: outcome_def leaves_refl)

definition nearest :: "document \<Rightarrow> bool \<Rightarrow> (nat \<Rightarrow> bool) \<Rightarrow> nat list \<Rightarrow> bool" where
  "nearest D check p xs = (case List.find (eligible D check) xs of None \<Rightarrow> False | Some x \<Rightarrow> p x)"

lemma first_match_outcome:
  assumes "realises says N m p" "wf S" "remembers says N S"
  shows "outcome says N S (nearest D check p nodes) (first_match D check m nodes S)"
  using assms by (induction nodes) (auto simp: nearest_def realises_outcome outcome_def leaves_refl)

section \<open>Combinators\<close>

text \<open>What a combinator says of an element, given the predicate of what stands before it.\<close>

definition related :: "document \<Rightarrow> bool \<Rightarrow> combinator \<Rightarrow> bool \<Rightarrow> (nat \<Rightarrow> bool) \<Rightarrow> nat \<Rightarrow> bool" where
  "related D xml c base p e =
     (let check = (base \<and> (case next_name c of None \<Rightarrow> dir c | Some s \<Rightarrow> s) = ''parentNode'')
      in if first_only c then nearest D check p (along D (dir c) e)
         else finds D check (if xml then None else next_name c) p (along D (dir c) e))"

text \<open>What the arrays under its name say: the same of an element together with what is on its way.\<close>

definition here_or_on :: "document \<Rightarrow> combinator \<Rightarrow> bool \<Rightarrow> (nat \<Rightarrow> bool) \<Rightarrow> nat \<Rightarrow> bool" where
  "here_or_on D c base p e =
     (p e \<or> finds D (base \<and> (case next_name c of None \<Rightarrow> dir c | Some s \<Rightarrow> s) = ''parentNode'') (next_name c) p
        (along D (dir c) e))"

lemma addCombinator_realises:
  assumes m: "realises says N m p" and n: "n \<notin> N" and says: "says n = here_or_on D c base p"
  shows "realises says (insert n N) (addCombinator D xml m c base n) (related D xml c base p)"
  unfolding realises_outcome
proof (intro allI impI)
  fix e S
  assume S: "wf S" "remembers says (insert n N) S"
  define f where "f = (if dir c = ''parentNode'' then parentNode D else previousSibling D)"
  let ?key = "case next_name c of None \<Rightarrow> dir c | Some s \<Rightarrow> s"
  let ?check = "base \<and> ?key = ''parentNode''"
  have al: "along D (dir c) = walk f" by (simp add: along_def f_def)
  have N: "remembers says N S" using S(2) unfolding remembers_def by blast
  have mono: "outcome says N S b R \<Longrightarrow> outcome says (insert n N) S b R" for b R
    by (rule outcome_mono[OF _ subset_insertI S])
  show "outcome says (insert n N) S (related D xml c base p e) (addCombinator D xml m c base n e S)"
  proof (cases "first_only c \<or> xml")
    case True
    then show ?thesis
      using mono[OF first_match_outcome[OF m S(1) N, of D ?check "along D (dir c) e"]]
        mono[OF any_match_outcome[OF m S(1) N, of D ?check "along D (dir c) e"]]
      by (auto simp: addCombinator_def related_def Let_def)
  next
    case False
    let ?S0 = "S\<lparr>cells := cells S @ [(dirruns S, n, None)]\<rparr>" and ?a = "length (cells S)"
    have old: "slots S s = Some a \<Longrightarrow> a < ?a" for s a using S(1) unfolding wf_def by blast
    have "\<forall>c \<in> set (cells S). fst c \<le> dirruns S" using S(1) unfolding wf_def by blast
    then have wf0: "wf ?S0" using old unfolding wf_def by (fastforce intro: less_SucI)
    have "leaves (insert n N) S ?S0"
      by (auto simp: leaves_def name_at_def nth_append)
    moreover have "walking says N n ?a (walk f e) (finds D ?check (next_name c) p (walk f e)) ?S0"
      unfolding walking_def
    proof (intro conjI allI impI)
      show "remembers says N ?S0" using N old unfolding remembers_def by (fastforce simp: nth_append)
      fix e k b r
      show "slots ?S0 (e, k) = Some b \<Longrightarrow> b \<noteq> ?a \<Longrightarrow> cells ?S0 ! b = (dirruns ?S0, n, r) \<Longrightarrow> r = Some (says n e)"
        using S(2) old unfolding remembers_def by (fastforce simp: nth_append)
      show "slots ?S0 (e, k) = Some ?a \<Longrightarrow> e \<notin> set (walk f e')" "slots ?S0 (e, k) = Some ?a \<Longrightarrow> says n e = b'"
        "slots ?S0 (e, k) = Some ?a \<Longrightarrow> snd (snd (cells ?S0 ! ?a)) = Some False" for e' b'
        using old by fastforce+
    qed (use wf0 n in simp_all)
    moreover have "says n x = (p x \<or> finds D ?check (next_name c) p (walk f x))" for x
      by (simp add: says here_or_on_def al)
    ultimately have "outcome says (insert n N) S (finds D ?check (next_name c) p (walk f e))
        (cached_match D ?check (next_name c) ?key n ?a m (walk f e) ?S0)"
      using step.cached_match_outcome[OF m] step.on_way_start wf0 by (intro outcome_after[of "insert n N" S ?S0]) blast+
    then show ?thesis using False by (simp add: addCombinator_def related_def Let_def al)
  qed
qed

section \<open>Compiled selectors\<close>

lemma outcomeD:
  assumes "outcome says N S b R"
  shows "fst R = b" "wf (snd R)" "remembers says N (snd R)" "leaves N S (snd R)"
  using assms by (simp_all add: outcome_def)

lemma realisesD: "realises says N m p \<Longrightarrow> wf S \<Longrightarrow> remembers says N S \<Longrightarrow> outcome says N S (p e) (m e S)"
  unfolding realises_outcome by blast

lemma remembers_cong: "(\<And>n. n \<in> N \<Longrightarrow> says n = says' n) \<Longrightarrow> remembers says N S = remembers says' N S"
  unfolding remembers_def by metis

lemma realises_cong: "(\<And>n. n \<in> N \<Longrightarrow> says n = says' n) \<Longrightarrow> realises says N m p = realises says' N m p"
  unfolding realises_outcome outcome_def using remembers_cong by metis

lemma realises_says: "\<forall>n \<in> N. says n = says' n \<Longrightarrow> realises says N = realises says' N"
proof -
  assume "\<forall>n \<in> N. says n = says' n"
  then have "remembers says N = remembers says' N" by (intro ext) (rule remembers_cong, blast)
  then show ?thesis by (intro ext) (simp add: realises_def)
qed

lemma realises_upd: "n \<notin> N \<Longrightarrow> realises says N m p \<Longrightarrow> realises (says(n := q)) N m p"
proof -
  assume "n \<notin> N" "realises says N m p"
  then show ?thesis by (subst realises_cong[of N "says(n := q)" says]) auto
qed

lemma all_match_outcome:
  "list_all2 (realises says N) ms ps \<Longrightarrow> wf S \<Longrightarrow> remembers says N S \<Longrightarrow>
     outcome says N S (\<forall>p \<in> set ps. p e) (all_match ms e S)"
proof (induction ms ps arbitrary: S rule: list_all2_induct)
  case (Cons m ms p ps)
  note o = outcomeD[OF realisesD[OF Cons.hyps(1) Cons.prems, of e]]
  note rest = outcome_after[OF o(4,2) Cons.IH[OF o(2,3)]]
  show ?case
  proof (cases "p e")
    case True
    then show ?thesis using o(1) rest by (simp add: case_prod_unfold)
  next
    case False
    then show ?thesis using o by (simp add: case_prod_unfold outcome_def)
  qed
qed (simp add: outcome_def leaves_refl)

lemma elementMatcher_realises:
  assumes "list_all2 (realises says N) ms ps" "ms \<noteq> []"
  shows "realises says N (elementMatcher ms) (\<lambda>e. \<forall>p \<in> set ps. p e)"
  unfolding realises_outcome
proof (intro allI impI)
  fix e S
  assume S: "wf S" "remembers says N S"
  show "outcome says N S (\<forall>p \<in> set ps. p e) (elementMatcher ms e S)"
  proof (cases "length ms > 1")
    case True
    then show ?thesis
      using all_match_outcome[of says N "rev ms" "rev ps"] assms(1) S by (simp add: elementMatcher_def)
  next
    case False
    then obtain m where m: "ms = [m]" using assms(2) by (cases ms) auto
    then obtain p where "ms = [m]" "ps = [p]" using assms(1) by (auto simp: list_all2_Cons1)
    then show ?thesis using assms(1) realisesD[of says N m p S e] S by (simp add: elementMatcher_def)
  qed
qed

text \<open>A selector read from right to left, without a cache.\<close>

fun selects :: "document \<Rightarrow> bool \<Rightarrow> (nat \<Rightarrow> bool) \<Rightarrow> token list \<Rightarrow> nat \<Rightarrow> bool" where
  "selects D xml start [] e = start e"
| "selects D xml start (Filter f # ts) e = (Expr_filter D xml f e \<and> selects D xml start ts e)"
| "selects D xml start (Combinator k # ts) e = related D xml (relative k) False (selects D xml start ts) e"

lemma selects_Nil: "selects D xml start [] = start"
  by (rule ext) simp

lemma selects_append: "selects D xml start (as @ bs) = selects D xml (selects D xml start bs) as"
proof
  fix e show "selects D xml start (as @ bs) e = selects D xml (selects D xml start bs) as e"
  proof (induction as arbitrary: e)
    case (Cons t as)
    then have "selects D xml start (as @ bs) = selects D xml (selects D xml start bs) as" by blast
    then show ?case by (cases t) simp_all
  qed simp
qed

lemma selects_cong: "(\<And>e. start e = start' e) \<Longrightarrow> selects D xml start ts = selects D xml start' ts"
proof -
  assume "\<And>e. start e = start' e"
  then have "start = start'" by (rule ext)
  then show ?thesis by simp
qed

lemma token_loop_realises:
  assumes "list_all2 (realises says N) ms ps" "ms \<noteq> []" "\<And>k. k \<in> N \<Longrightarrow> l \<le> k \<and> k < n" "l \<le> n"
  shows "\<exists>says' N' ps'. list_all2 (realises says' N') (fst (token_loop D xml ts ms n)) ps' \<and>
    fst (token_loop D xml ts ms n) \<noteq> [] \<and> n \<le> snd (token_loop D xml ts ms n) \<and>
    (\<forall>k \<in> N'. l \<le> k \<and> k < snd (token_loop D xml ts ms n)) \<and>
    (\<forall>e. (\<forall>p \<in> set ps'. p e) = selects D xml (\<lambda>e. \<forall>p \<in> set ps. p e) (rev ts) e)"
  using assms
proof (induction ts arbitrary: says N ms ps n)
  case Nil
  then show ?case by auto
next
  case (Cons t ts)
  let ?all = "\<lambda>e. \<forall>p \<in> set ps. p e"
  show ?case
  proof (cases t)
    case (Filter f)
    have "list_all2 (realises says N) (ms @ [\<lambda>e S. (Expr_filter D xml f e, S)]) (ps @ [Expr_filter D xml f])"
      using Cons.prems(1) realises_pure by (simp add: list_all2_appendI)
    from Cons.IH[OF this _ Cons.prems(3,4)]
    have "\<exists>says' N' ps'. list_all2 (realises says' N') (fst (token_loop D xml (t # ts) ms n)) ps' \<and>
      fst (token_loop D xml (t # ts) ms n) \<noteq> [] \<and> n \<le> snd (token_loop D xml (t # ts) ms n) \<and>
      (\<forall>k \<in> N'. l \<le> k \<and> k < snd (token_loop D xml (t # ts) ms n)) \<and>
      (\<forall>e. (\<forall>p \<in> set ps'. p e) = selects D xml (\<lambda>e. \<forall>p \<in> set (ps @ [Expr_filter D xml f]). p e) (rev ts) e)"
      unfolding Filter token_loop.simps by blast
    moreover have "selects D xml (\<lambda>e. \<forall>p \<in> set (ps @ [Expr_filter D xml f]). p e) (rev ts) =
        selects D xml ?all (rev (t # ts))"
      unfolding rev.simps selects_append by (rule selects_cong) (auto simp: Filter)
    ultimately show ?thesis by (simp only:)
  next
    case (Combinator c)
    let ?says = "says(n := here_or_on D (relative c) False ?all)"
    have "n \<notin> N" using Cons.prems(3) by blast
    then have "realises ?says N (elementMatcher ms) ?all"
      using elementMatcher_realises[OF Cons.prems(1,2)] by (rule realises_upd)
    then have "list_all2 (realises ?says (insert n N)) [addCombinator D xml (elementMatcher ms) (relative c) False n]
        [related D xml (relative c) False ?all]"
      using addCombinator_realises[of ?says N _ ?all n D "relative c" False xml] \<open>n \<notin> N\<close> by simp
    moreover have "\<And>k. k \<in> insert n N \<Longrightarrow> l \<le> k \<and> k < n + 1" using Cons.prems(3,4) by fastforce
    moreover have "l \<le> n + 1" using Cons.prems(4) by simp
    ultimately have "\<exists>says' N' ps'. list_all2 (realises says' N') (fst (token_loop D xml (t # ts) ms n)) ps' \<and>
        fst (token_loop D xml (t # ts) ms n) \<noteq> [] \<and> n + 1 \<le> snd (token_loop D xml (t # ts) ms n) \<and>
        (\<forall>k \<in> N'. l \<le> k \<and> k < snd (token_loop D xml (t # ts) ms n)) \<and>
        (\<forall>e. (\<forall>p \<in> set ps'. p e) = selects D xml (\<lambda>e. \<forall>p \<in> set [related D xml (relative c) False ?all]. p e) (rev ts) e)"
      unfolding Combinator token_loop.simps by (intro Cons.IH) (blast | simp)+
    then obtain says' N' ps' where IH:
        "list_all2 (realises says' N') (fst (token_loop D xml (t # ts) ms n)) ps'"
        "fst (token_loop D xml (t # ts) ms n) \<noteq> []" "n + 1 \<le> snd (token_loop D xml (t # ts) ms n)"
        "\<forall>k \<in> N'. l \<le> k \<and> k < snd (token_loop D xml (t # ts) ms n)"
        "\<forall>e. (\<forall>p \<in> set ps'. p e) = selects D xml (\<lambda>e. \<forall>p \<in> set [related D xml (relative c) False ?all]. p e) (rev ts) e"
      by blast
    have eq: "selects D xml (\<lambda>e. \<forall>p \<in> set [related D xml (relative c) False ?all]. p e) (rev ts) =
        selects D xml ?all (rev (t # ts))"
      unfolding rev.simps selects_append by (rule selects_cong) (simp add: Combinator selects_Nil)
    note IH(5)[unfolded eq]
    moreover have "n \<le> snd (token_loop D xml (t # ts) ms n)" using IH(3) by simp
    ultimately show ?thesis using IH(1,2,4) by blast
  qed
qed

text \<open>What the first matcher says: nothing, or that the element is reachable from the context.\<close>

definition from_context :: "document \<Rightarrow> bool \<Rightarrow> start \<Rightarrow> bool \<Rightarrow> combinator option \<Rightarrow> nat \<Rightarrow> bool" where
  "from_context D xml ctx outermost leading e =
     (leading = None \<and> (xml \<or> \<not> outermost) \<or>
      related D xml (case leading of None \<Rightarrow> relative Descendant | Some c \<Rightarrow> c) True
        (\<lambda>e. case ctx of Node x \<Rightarrow> e = x | Nodes xs \<Rightarrow> e \<in> set xs) e)"

lemma context_matcher_realises:
  "\<exists>says N. realises says N (context_matcher D xml ctx outermost leading n) (from_context D xml ctx outermost leading) \<and>
     (\<forall>k \<in> N. n \<le> k \<and> k < n + 2)"
proof (cases "leading = None \<and> (xml \<or> \<not> outermost)")
  case True
  then have "context_matcher D xml ctx outermost leading n = (\<lambda>e S. (True, S))"
    "from_context D xml ctx outermost leading = (\<lambda>e. True)"
    by (auto intro!: ext simp: context_matcher_def from_context_def)
  then show ?thesis using realises_pure[of "\<lambda>_ _. True" "{}" "\<lambda>e. True"] by auto
next
  case False
  define c where "c = (case leading of None \<Rightarrow> relative Descendant | Some c \<Rightarrow> c)"
  define p where "p = (\<lambda>e. case ctx of Node x \<Rightarrow> e = x | Nodes xs \<Rightarrow> e \<in> set xs)"
  define k where "k = (case ctx of Node x \<Rightarrow> n | Nodes xs \<Rightarrow> n + 1)"
  have "realises (\<lambda>_. here_or_on D c True p) {} (\<lambda>e S. (p e, S)) p" by (rule realises_pure)
  then have "realises (\<lambda>_. here_or_on D c True p) {k} (addCombinator D xml (\<lambda>e S. (p e, S)) c True k) (related D xml c True p)"
    using addCombinator_realises[of "\<lambda>_. here_or_on D c True p" "{}"] by auto
  moreover have "context_matcher D xml ctx outermost leading n = addCombinator D xml (\<lambda>e S. (p e, S)) c True k"
    using False by (intro ext) (auto simp: context_matcher_def c_def p_def k_def Let_def split: start.split)
  moreover have "from_context D xml ctx outermost leading = related D xml c True p"
    using False by (intro ext) (auto simp: from_context_def c_def p_def)
  ultimately show ?thesis by (intro exI[of _ "\<lambda>_. here_or_on D c True p"] exI[of _ "{k}"]) (auto simp: k_def split: start.split)
qed

text \<open>What a group of a selector says of an element.\<close>

definition matches_group :: "document \<Rightarrow> bool \<Rightarrow> start \<Rightarrow> bool \<Rightarrow> token list \<Rightarrow> nat \<Rightarrow> bool" where
  "matches_group D xml ctx outermost ts =
     selects D xml (from_context D xml ctx outermost (leading_relative ts))
       (rev (if leading_relative ts = None then ts else tl ts))"

lemma matcherFromTokens_realises:
  "\<exists>says N. realises says N (fst (matcherFromTokens D xml ctx outermost ts n)) (matches_group D xml ctx outermost ts) \<and>
     (\<forall>k \<in> N. n \<le> k \<and> k < snd (matcherFromTokens D xml ctx outermost ts n)) \<and> n \<le> snd (matcherFromTokens D xml ctx outermost ts n)"
proof -
  let ?l = "leading_relative ts" and ?ts = "if leading_relative ts = None then ts else tl ts"
  let ?m = "context_matcher D xml ctx outermost ?l n" and ?p = "from_context D xml ctx outermost ?l"
  let ?r = "token_loop D xml ?ts [?m] (n + 2)"
  obtain says N where c: "realises says N ?m ?p" "\<forall>k \<in> N. n \<le> k \<and> k < n + 2"
    using context_matcher_realises by blast
  then have "list_all2 (realises says N) [?m] [?p]" by simp
  from token_loop_realises[OF this, of n "n + 2" D xml ?ts] c(2)
  obtain says' N' ps' where t: "list_all2 (realises says' N') (fst ?r) ps'" "fst ?r \<noteq> []" "n + 2 \<le> snd ?r"
      "\<forall>k \<in> N'. n \<le> k \<and> k < snd ?r" "\<forall>e. (\<forall>p \<in> set ps'. p e) = selects D xml (\<lambda>e. \<forall>p \<in> set [?p]. p e) (rev ?ts) e"
    by auto
  have "(\<lambda>e. \<forall>p \<in> set ps'. p e) = matches_group D xml ctx outermost ts"
    using t(5) by (intro ext) (simp add: matches_group_def)
  then have "realises says' N' (elementMatcher (fst ?r)) (matches_group D xml ctx outermost ts)"
    using elementMatcher_realises[OF t(1,2)] by simp
  moreover have "matcherFromTokens D xml ctx outermost ts n = (elementMatcher (fst ?r), snd ?r)"
    by (simp add: matcherFromTokens_def Let_def case_prod_unfold)
  ultimately show ?thesis using t(3,4) by (metis fst_conv snd_conv add_leD1)
qed

lemma compile_groups_realises:
  "\<exists>says N. list_all2 (realises says N) (compile_groups D xml ctx outermost groups n) (map (matches_group D xml ctx outermost) groups) \<and>
     (\<forall>k \<in> N. n \<le> k)"
proof (induction groups arbitrary: n)
  case (Cons ts groups)
  let ?r = "matcherFromTokens D xml ctx outermost ts n"
  obtain says N where a: "realises says N (fst ?r) (matches_group D xml ctx outermost ts)"
      "\<forall>k \<in> N. n \<le> k \<and> k < snd ?r" "n \<le> snd ?r" using matcherFromTokens_realises by blast
  obtain says' N' where b: "list_all2 (realises says' N') (compile_groups D xml ctx outermost groups (snd ?r))
      (map (matches_group D xml ctx outermost) groups)" "\<forall>k \<in> N'. snd ?r \<le> k"
    using Cons.IH by blast
  let ?says = "\<lambda>k. if k < snd ?r then says k else says' k"
  have "realises says N = realises ?says N" using a(2) by (intro realises_says) simp
  then have "realises ?says (N \<union> N') (fst ?r) (matches_group D xml ctx outermost ts)"
    using a(1) realises_mono[of ?says N _ _ "N \<union> N'"] by auto
  moreover have "realises says' N' = realises ?says N'" using b(2) by (intro realises_says) auto
  then have "list_all2 (realises ?says (N \<union> N')) (compile_groups D xml ctx outermost groups (snd ?r))
      (map (matches_group D xml ctx outermost) groups)"
    using list_all2_mono[OF b(1)] realises_mono[of ?says N' _ _ "N \<union> N'"] by auto
  ultimately have "list_all2 (realises ?says (N \<union> N')) (compile_groups D xml ctx outermost (ts # groups) n)
      (map (matches_group D xml ctx outermost) (ts # groups))"
    by (simp add: case_prod_unfold)
  then show ?case using a b(2) by (intro exI[of _ ?says] exI[of _ "N \<union> N'"]) auto
qed auto

section \<open>Running a selector\<close>

lemma some_matcher_outcome:
  "list_all2 (realises says N) ms ps \<Longrightarrow> wf S \<Longrightarrow> remembers says N S \<Longrightarrow>
     outcome says N S (\<exists>p \<in> set ps. p e) (some_matcher ms e S)"
proof (induction ms ps arbitrary: S rule: list_all2_induct)
  case (Cons m ms p ps)
  note o = outcomeD[OF realisesD[OF Cons.hyps(1) Cons.prems, of e]]
  note rest = outcome_after[OF o(4,2) Cons.IH[OF o(2,3)]]
  show ?case
  proof (cases "p e")
    case True
    then show ?thesis using o by (simp add: case_prod_unfold outcome_def)
  next
    case False
    then show ?thesis using o(1) rest by (simp add: case_prod_unfold)
  qed
qed (simp add: outcome_def leaves_refl)

lemma matcher_loop_filter:
  "list_all2 (realises says N) ms ps \<Longrightarrow> wf S \<Longrightarrow> remembers says N S \<Longrightarrow>
     fst (matcher_loop ms elems S) = filter (\<lambda>e. \<exists>p \<in> set ps. p e) elems \<and> wf (snd (matcher_loop ms elems S))"
proof (induction elems arbitrary: S)
  case (Cons e es)
  note o = outcomeD[OF some_matcher_outcome[OF Cons.prems, of e]]
  show ?case using Cons.IH[OF Cons.prems(1) o(2,3)] o(1) by (simp add: case_prod_unfold)
qed simp

text \<open>Nothing is remembered for a run that has just begun.\<close>

lemma new_run:
  assumes "wf S"
  shows "wf (S\<lparr>dirruns := dirruns S + 1\<rparr>)" "remembers says N (S\<lparr>dirruns := dirruns S + 1\<rparr>)"
proof -
  have old: "a < length (cells S) \<Longrightarrow> fst (cells S ! a) \<le> dirruns S" "slots S s = Some a \<Longrightarrow> a < length (cells S)" for a s
    using assms unfolding wf_def by (blast intro: nth_mem)+
  show "wf (S\<lparr>dirruns := dirruns S + 1\<rparr>)" using assms unfolding wf_def by fastforce
  show "remembers says N (S\<lparr>dirruns := dirruns S + 1\<rparr>)"
    unfolding remembers_def using old by fastforce
qed

section \<open>Properties\<close>

text \<open>The nodes that a combinator looks at.\<close>

definition related_nodes :: "document \<Rightarrow> bool \<Rightarrow> combinator \<Rightarrow> nat \<Rightarrow> nat list" where
  "related_nodes D base c e =
     (let ns = filter (eligible D (base \<and> dir c = ''parentNode'')) (along D (dir c) e)
      in if first_only c then take 1 ns else ns)"

lemma finds_plain: "finds D check None p xs \<longleftrightarrow> (\<exists>x \<in> set (filter (eligible D check) xs). p x)"
  by (induction xs) auto

lemma nearest_plain: "nearest D check p xs \<longleftrightarrow> (\<exists>x \<in> set (take 1 (filter (eligible D check) xs)). p x)"
  by (induction xs) (auto simp: nearest_def)

lemma related_iff: "next_name c = None \<Longrightarrow> related D xml c base p e \<longleftrightarrow> (\<exists>x \<in> set (related_nodes D base c e). p x)"
  by (simp add: related_def related_nodes_def Let_def finds_plain nearest_plain)

lemma next_name_relative [simp]: "next_name (relative k) = None"
  by (cases k) simp_all

lemma selects_Combinator:
  "selects D xml start (Combinator k # ts) e \<longleftrightarrow> (\<exists>x \<in> set (related_nodes D False (relative k) e). selects D xml start ts x)"
  by (simp add: related_iff)

lemma run_selector_filter:
  assumes "wf S"
  shows "fst (run_selector D xml ctx outermost groups n elems S) =
      filter (\<lambda>e. \<exists>ts \<in> set groups. matches_group D xml ctx outermost ts e) elems"
    and "wf (snd (run_selector D xml ctx outermost groups n elems S))"
proof -
  obtain says N where m: "list_all2 (realises says N) (compile_groups D xml ctx outermost (rev groups) n)
      (map (matches_group D xml ctx outermost) (rev groups))"
    using compile_groups_realises by blast
  from matcher_loop_filter[OF m new_run[OF assms], of elems]
  show "fst (run_selector D xml ctx outermost groups n elems S) =
      filter (\<lambda>e. \<exists>ts \<in> set groups. matches_group D xml ctx outermost ts e) elems"
    "wf (snd (run_selector D xml ctx outermost groups n elems S))"
    by (simp_all add: run_selector_def superMatcher_def)
qed

text \<open>
  C2. A compiled selector, with all it remembers on elements from this run and earlier ones, even of other
  selectors or before the document changed, keeps exactly the elements that one of its groups selects when
  read from right to left: an element passes the filters behind the last combinator, and some node the
  combinator leads to passes the rest, down to the context.
\<close>

theorem compiled_selector:
  assumes "wf S"
  shows "fst (run_selector D xml ctx outermost groups n elems S) =
      filter (\<lambda>e. \<exists>ts \<in> set groups. matches_group D xml ctx outermost ts e) elems \<and>
    wf (snd (run_selector D xml ctx outermost groups n elems S))"
  using run_selector_filter[OF assms] by blast

text \<open>A document with a division that holds a paragraph with two spans, and a third span beside it.\<close>

definition sample_document :: document where
  "sample_document =
     \<lparr>parentNode = (\<lambda>n. map_of [(1, 0), (2, 1), (3, 2), (4, 3), (5, 3), (6, 1)] n),
      previousSibling = (\<lambda>n. map_of [(5, 4), (6, 2)] n),
      node_kind = (\<lambda>n. if n = 0 then 9 else 1),
      node_name = (\<lambda>n. case map_of [(1, ''html''), (2, ''div''), (3, ''p'')] n of None \<Rightarrow> ''span'' | Some s \<Rightarrow> s),
      attribute = (\<lambda>n a. if n = 2 \<and> a = ''class'' then Some ''left wide'' else None)\<rparr>"

definition no_caches :: caches where
  "no_caches = \<lparr>cells = [], slots = (\<lambda>s. None), dirruns = 0\<rparr>"

theorem compiled_selector_witness:
  "fst (run_selector sample_document False (Node 0) False
     [[Filter (CLASS ''wide''), Combinator Descendant, Filter (TAG ''span'')]] 0 [1, 2, 3, 4, 5, 6] no_caches) = [4, 5]"
proof -
  have w: "wf no_caches" by (simp add: wf_def no_caches_def)
  show ?thesis unfolding compiled_selector[OF w, THEN conjunct1] by code_simp
qed

text \<open>The second span is answered by what the first left behind: no new array holds a result of its own.\<close>

lemma second_span_from_cache:
  "map (snd \<circ> snd) (cells (snd (run_selector sample_document False (Node 0) False
     [[Filter (CLASS ''wide''), Combinator Descendant, Filter (TAG ''span'')]] 0 [4, 5] no_caches))) = [Some True, Some True]"
  by code_simp

end
