(* ===== verification/JqSelect.thy ===== *)
theory JqSelect
  imports JqMatch
begin

text \<open>
  \<open>select\<close> of the selector engine in \<open>jquery.js\<close>: before it runs a compiled selector, it replaces the context
  by an element with a leading identifier, and takes candidates from the browser for a filter of the last
  compound.  \<open>order\<close> lists the nodes of the document; what the browser finds are the elements below a node, in
  that order.
\<close>

section \<open>Finding candidates\<close>

definition below :: "document \<Rightarrow> nat \<Rightarrow> nat \<Rightarrow> bool" where
  "below D c e \<longleftrightarrow> c \<in> set (along D ''parentNode'' e)"

text \<open>\<open>getElementsByTagName\<close>, \<open>getElementsByClassName\<close> and \<open>getElementById\<close> of the browser.\<close>

definition elements_below :: "document \<Rightarrow> nat list \<Rightarrow> nat \<Rightarrow> nat list" where
  "elements_below D order c = filter (\<lambda>e. node_kind D e = 1 \<and> below D c e) order"

definition element_by_id :: "document \<Rightarrow> nat list \<Rightarrow> string \<Rightarrow> nat option" where
  "element_by_id D order i = List.find (\<lambda>e. node_kind D e = 1 \<and> attribute D e ''id'' = Some i) order"

definition Expr_find :: "document \<Rightarrow> nat list \<Rightarrow> filter_token \<Rightarrow> nat \<Rightarrow> nat list option" where
  "Expr_find D order f c =
     (case f of
        ID i \<Rightarrow> (if node_kind D c = 9 then Some (case element_by_id D order i of None \<Rightarrow> [] | Some e \<Rightarrow> [e]) else None)
      | ATTR name operator check \<Rightarrow> None
      | _ \<Rightarrow> Some (filter (Expr_filter D False f) (elements_below D order c)))"

text \<open>\<open>rsibling.test\<close> on the text of the tokens, and \<open>matchExpr[ "needsContext" ]\<close>, for selectors without positions.\<close>

definition sibling_char :: "string \<Rightarrow> bool" where
  "sibling_char s \<longleftrightarrow> CHR ''+'' \<in> set s \<or> CHR ''~'' \<in> set s"

fun sibling_token :: "token \<Rightarrow> bool" where
  "sibling_token (Combinator k) = (k = Adjacent \<or> k = Sibling)"
| "sibling_token (Filter (ATTR name operator check)) = (operator = ''~='' \<or> sibling_char check)"
| "sibling_token (Filter f) = False"

definition needs_context :: "token list \<Rightarrow> bool" where
  "needs_context ts = (case ts of Combinator k # _ \<Rightarrow> k \<noteq> Descendant | _ \<Rightarrow> False)"

text \<open>The nodes among which the outermost run looks for elements.\<close>

definition outermost_node :: "document \<Rightarrow> bool \<Rightarrow> nat \<Rightarrow> nat" where
  "outermost_node D siblings c =
     (if siblings
      then (case parentNode D c of None \<Rightarrow> c | Some p \<Rightarrow> if node_kind D p \<in> {1, 9} then p else c)
      else c)"

section \<open>Reducing the work\<close>

text \<open>The identifier in front: the new context and the other tokens, or \<open>None\<close> when there is no such element.\<close>

definition reduce_context :: "document \<Rightarrow> nat list \<Rightarrow> nat \<Rightarrow> token list \<Rightarrow> (nat \<times> token list) option" where
  "reduce_context D order c ts =
     (case ts of
        Filter (ID i) # Combinator k # r \<Rightarrow>
          if r \<noteq> [] \<and> node_kind D c = 9
          then map_option (\<lambda>e. (e, Combinator k # r)) (element_by_id D order i)
          else Some (c, ts)
      | _ \<Rightarrow> Some (c, ts))"

text \<open>The loop over the last compound, from the end: the seed and the tokens left.\<close>

fun seed_loop :: "document \<Rightarrow> nat list \<Rightarrow> nat \<Rightarrow> token list \<Rightarrow> token list \<Rightarrow> (nat list \<times> token list) option" where
  "seed_loop D order c [] behind = None"
| "seed_loop D order c (Combinator k # rts) behind = None"
| "seed_loop D order c (Filter f # rts) behind =
     (case Expr_find D order f c of
        None \<Rightarrow> seed_loop D order c rts (Filter f # behind)
      | Some seed \<Rightarrow> Some (seed, rev rts @ behind))"

definition fetch_seed :: "document \<Rightarrow> nat list \<Rightarrow> nat \<Rightarrow> token list \<Rightarrow> (nat list \<times> token list) option" where
  "fetch_seed D order c ts =
     (if needs_context ts then None
      else seed_loop D order (case ts of Combinator k # _ \<Rightarrow> outermost_node D (k = Adjacent \<or> k = Sibling) c | _ \<Rightarrow> c) (rev ts) [])"

definition run_compiled :: "document \<Rightarrow> nat \<Rightarrow> nat \<Rightarrow> token list list \<Rightarrow> nat \<Rightarrow> nat list \<Rightarrow> caches \<Rightarrow> nat list \<times> caches" where
  "run_compiled D doc c groups n elems S = run_selector D False (Node c) (c \<noteq> doc) groups n elems S"

definition select_tokens :: "document \<Rightarrow> nat list \<Rightarrow> nat \<Rightarrow> nat \<Rightarrow> token list \<Rightarrow> nat \<Rightarrow> caches \<Rightarrow> nat list \<times> caches" where
  "select_tokens D order doc c ts n S =
     (case fetch_seed D order c ts of
        Some (seed, rest) \<Rightarrow> if seed = [] \<or> rest = [] then (seed, S) else run_compiled D doc c [rest] n seed S
      | None \<Rightarrow>
          run_compiled D doc c [ts] n (elements_below D order (outermost_node D (\<exists>t \<in> set ts. sibling_token t) c)) S)"

definition select :: "document \<Rightarrow> nat list \<Rightarrow> nat \<Rightarrow> nat \<Rightarrow> token list list \<Rightarrow> nat \<Rightarrow> caches \<Rightarrow> nat list \<times> caches" where
  "select D order doc c groups n S =
     (case groups of
        [ts] \<Rightarrow>
          (case reduce_context D order c ts of
             None \<Rightarrow> ([], S)
           | Some (c', ts') \<Rightarrow> select_tokens D order doc c' ts' n S)
      | _ \<Rightarrow>
          run_compiled D doc c groups n
            (elements_below D order (outermost_node D (\<exists>ts \<in> set groups. \<exists>t \<in> set ts. sibling_token t) c)) S)"

section \<open>Documents as the browser keeps them\<close>

definition document_ok :: "document \<Rightarrow> nat list \<Rightarrow> nat \<Rightarrow> bool" where
  "document_ok D order doc \<longleftrightarrow>
     distinct order \<and> node_kind D doc = 9 \<and>
     (\<forall>n p. parentNode D n = Some p \<longrightarrow> p < n \<and> node_kind D p \<in> {1, 9} \<and> (node_kind D p = 1 \<or> parentNode D p = None)) \<and>
     (\<forall>n m. previousSibling D n = Some m \<longrightarrow> m < n \<and> parentNode D n = parentNode D m \<and> parentNode D n \<noteq> None) \<and>
     (\<forall>e \<in> set order. node_kind D e = 1 \<longrightarrow> below D doc e) \<and>
     (\<forall>e \<in> set order. \<forall>d. \<forall>x \<in> set (along D d e). node_kind D x = 1 \<longrightarrow> x \<in> set order) \<and>
     (\<forall>x \<in> set order. \<forall>y \<in> set order. node_kind D x = 1 \<longrightarrow> node_kind D y = 1 \<longrightarrow>
        attribute D x ''id'' \<noteq> None \<longrightarrow> attribute D x ''id'' = attribute D y ''id'' \<longrightarrow> x = y)"

lemma document_okD:
  assumes "document_ok D order doc"
  shows "distinct order" "node_kind D doc = 9"
    and "parentNode D n = Some p \<Longrightarrow> p < n" "parentNode D n = Some p \<Longrightarrow> node_kind D p \<in> {1, 9}"
    and "parentNode D n = Some p \<Longrightarrow> node_kind D p \<noteq> 1 \<Longrightarrow> parentNode D p = None"
    and "previousSibling D n = Some m \<Longrightarrow> m < n" "previousSibling D n = Some m \<Longrightarrow> parentNode D n = parentNode D m"
    and "previousSibling D n = Some m \<Longrightarrow> parentNode D n \<noteq> None"
    and "e \<in> set order \<Longrightarrow> node_kind D e = 1 \<Longrightarrow> below D doc e"
    and "e \<in> set order \<Longrightarrow> x \<in> set (along D d e) \<Longrightarrow> node_kind D x = 1 \<Longrightarrow> x \<in> set order"
    and "e \<in> set order \<Longrightarrow> x \<in> set order \<Longrightarrow> node_kind D e = 1 \<Longrightarrow> node_kind D x = 1 \<Longrightarrow>
      attribute D e ''id'' = Some i \<Longrightarrow> attribute D x ''id'' = Some i \<Longrightarrow> e = x"
  using assms unfolding document_ok_def by (blast | simp)+

lemma along_parent:
  "along D ''parentNode'' n = (case parentNode D n of None \<Rightarrow> [] | Some p \<Rightarrow> if p < n then p # along D ''parentNode'' p else [])"
  unfolding along_def by (simp add: walk.simps[of "parentNode D" n] split: option.split)

lemma along_sibling:
  "along D ''previousSibling'' n =
     (case previousSibling D n of None \<Rightarrow> [] | Some p \<Rightarrow> if p < n then p # along D ''previousSibling'' p else [])"
  unfolding along_def by (simp add: walk.simps[of "previousSibling D" n] split: option.split)

lemma in_along_parent:
  assumes "x \<in> set (along D ''parentNode'' e)"
  obtains p where "parentNode D e = Some p" "p < e" "x = p \<or> x \<in> set (along D ''parentNode'' p)"
proof (cases "parentNode D e")
  case None
  then show thesis using assms by (subst (asm) along_parent) simp
next
  case (Some p)
  then show thesis using assms that by (subst (asm) along_parent) (simp split: if_splits)
qed

lemma in_along_sibling:
  assumes "x \<in> set (along D ''previousSibling'' e)"
  obtains p where "previousSibling D e = Some p" "p < e" "x = p \<or> x \<in> set (along D ''previousSibling'' p)"
proof (cases "previousSibling D e")
  case None
  then show thesis using assms by (subst (asm) along_sibling) simp
next
  case (Some p)
  then show thesis using assms that by (subst (asm) along_sibling) (simp split: if_splits)
qed

lemma below_trans: "x \<in> set (along D ''parentNode'' e) \<Longrightarrow> below D c x \<Longrightarrow> below D c e"
proof (induction e rule: less_induct)
  case (less e)
  obtain p where p: "parentNode D e = Some p" "p < e" "x = p \<or> x \<in> set (along D ''parentNode'' p)"
    by (rule in_along_parent[OF less.prems(1)])
  then have a: "along D ''parentNode'' e = p # along D ''parentNode'' p" by (simp add: along_parent[of D e])
  show ?case
  proof (cases "x = p")
    case True
    then show ?thesis using less.prems(2) a by (simp add: below_def)
  next
    case False
    then have "below D c p" using less.IH[OF p(2) _ less.prems(2)] p(3) by blast
    then show ?thesis using a by (simp add: below_def)
  qed
qed

lemma siblings_same_parent:
  assumes "document_ok D order doc"
  shows "x \<in> set (along D ''previousSibling'' e) \<Longrightarrow> parentNode D e = parentNode D x \<and> parentNode D e \<noteq> None"
proof (induction e rule: less_induct)
  case (less e)
  obtain m where m: "previousSibling D e = Some m" "m < e" "x = m \<or> x \<in> set (along D ''previousSibling'' m)"
    by (rule in_along_sibling[OF less.prems])
  then show ?case using less.IH[OF m(2)] document_okD(7,8)[OF assms m(1)] by auto
qed

lemma below_same_parent:
  assumes "document_ok D order doc" "parentNode D e = parentNode D x"
  shows "below D c e \<longleftrightarrow> below D c x"
proof -
  have "along D ''parentNode'' e = along D ''parentNode'' x"
  proof (cases "parentNode D x")
    case None
    then show ?thesis using assms(2) by (simp add: along_parent[of D e] along_parent[of D x])
  next
    case (Some p)
    then show ?thesis using assms(2) document_okD(3)[OF assms(1)] by (simp add: along_parent[of D e] along_parent[of D x])
  qed
  then show ?thesis by (simp add: below_def)
qed

section \<open>Where a selector can lead\<close>

lemma related_nodes_along: "x \<in> set (related_nodes D base c e) \<Longrightarrow> x \<in> set (along D (dir c) e)"
  by (auto simp: related_nodes_def Let_def dest: in_set_takeD split: if_splits)

lemma related_nodes_element: "x \<in> set (related_nodes D False c e) \<Longrightarrow> node_kind D x = 1"
  by (auto simp: related_nodes_def Let_def eligible_def dest: in_set_takeD split: if_splits)

lemma relative_dir: "dir (relative k) = (if k = Child \<or> k = Descendant then ''parentNode'' else ''previousSibling'')"
  by (cases k) simp_all

lemma below_related:
  assumes "document_ok D order doc" "x \<in> set (related_nodes D base (relative k) e)" "below D c x"
  shows "below D c e"
proof -
  note x = related_nodes_along[OF assms(2), unfolded relative_dir]
  show ?thesis
  proof (cases "k = Child \<or> k = Descendant")
    case True
    then show ?thesis using x below_trans assms(3) by simp
  next
    case False
    then show ?thesis using x siblings_same_parent[OF assms(1), of x e] below_same_parent[OF assms(1), of e x] assms(3) by simp
  qed
qed

lemma selects_scope:
  assumes "document_ok D order doc" "\<And>x. start x \<Longrightarrow> below D c x"
  shows "selects D xml start ts e \<Longrightarrow> below D c e"
proof (induction ts arbitrary: e)
  case (Cons t ts)
  then show ?case using below_related[OF assms(1)] by (cases t) (auto simp: related_iff)
qed (use assms(2) in simp)

lemma selects_cong_on:
  assumes "document_ok D order doc" "\<And>x. x \<in> set order \<Longrightarrow> node_kind D x = 1 \<Longrightarrow> start x = start' x"
  shows "e \<in> set order \<Longrightarrow> node_kind D e = 1 \<Longrightarrow> selects D xml start ts e = selects D xml start' ts e"
proof (induction ts arbitrary: e)
  case (Cons t ts)
  show ?case
  proof (cases t)
    case (Combinator k)
    have "x \<in> set order \<and> node_kind D x = 1" if "x \<in> set (related_nodes D False (relative k) e)" for x
      using related_nodes_element[OF that] related_nodes_along[OF that] document_okD(10)[OF assms(1) Cons.prems(1)] by blast
    then show ?thesis using Cons.IH by (simp add: Combinator related_iff)
  qed (use Cons in simp)
qed (use assms(2) in simp)

lemma selects_none: "\<not> selects D xml (\<lambda>x. False) ts e"
proof (induction ts arbitrary: e)
  case (Cons t ts)
  then show ?case by (cases t) (simp_all add: related_iff)
qed simp

text \<open>Elements that a group selects lie below the node where the run looks for them.\<close>

lemma below_parent: "document_ok D order doc \<Longrightarrow> parentNode D c = Some p \<Longrightarrow> below D p c"
  using document_okD(3)[of D order doc c p] by (simp add: below_def along_parent[of D c])

lemma outermost_below:
  assumes "document_ok D order doc" "below D c e"
  shows "below D (outermost_node D s c) e"
proof (cases "outermost_node D s c = c")
  case False
  then have "parentNode D c = Some (outermost_node D s c)" by (auto simp: outermost_node_def split: if_splits option.splits)
  then have "below D (outermost_node D s c) c" by (rule below_parent[OF assms(1)])
  then show ?thesis using below_trans[of c D e] assms(2) by (simp add: below_def[of D c])
qed (use assms in simp)

lemma outermost_sibling:
  assumes "document_ok D order doc" "c \<in> set (along D ''previousSibling'' e)"
  shows "below D (outermost_node D True c) e"
proof -
  obtain p where p: "parentNode D c = Some p" "parentNode D e = Some p" using siblings_same_parent[OF assms] by fastforce
  then have "outermost_node D True c = p" using document_okD(4)[OF assms(1) p(1)] by (auto simp: outermost_node_def)
  then show ?thesis using below_parent[OF assms(1) p(2)] by simp
qed

lemma leading_cases:
  "leading_relative ts = Some (relative k) \<Longrightarrow> hd ts = Combinator k \<and> ts \<noteq> []"
  by (cases ts; cases "hd ts") (auto simp: leading_relative_def relative.simps elim: relative.elims split: list.splits token.splits)

lemma leading_combinator:
  "leading_relative ts = (case ts of Combinator k # r \<Rightarrow> Some (relative k) | _ \<Rightarrow> None)"
  by (simp add: leading_relative_def)

definition starts_beside :: "token list \<Rightarrow> bool" where
  "starts_beside ts \<longleftrightarrow> (case ts of Combinator k # _ \<Rightarrow> k = Adjacent \<or> k = Sibling | _ \<Rightarrow> False)"

lemma group_below:
  assumes ok: "document_ok D order doc" and m: "matches_group D False (Node c) (c \<noteq> doc) ts e"
    and e: "e \<in> set order" "node_kind D e = 1" and ts: "\<not> starts_beside ts"
  shows "below D c e"
proof (cases "leading_relative ts = None \<and> c = doc")
  case True
  then show ?thesis using document_okD(9)[OF ok e] by blast
next
  case False
  have up: "below D c x" if "k = Child \<or> k = Descendant" "related D False (relative k) True (\<lambda>e. e = c) x" for k x
    using that related_nodes_along[of _ D True "relative k" x] by (auto simp: related_iff relative_dir below_def)
  have "below D c x" if "from_context D False (Node c) (c \<noteq> doc) (leading_relative ts) x" for x
  proof (cases "leading_relative ts")
    case None
    then have "related D False (relative Descendant) True (\<lambda>e. e = c) x" using that False by (simp add: from_context_def)
    then show ?thesis using up[of Descendant] by blast
  next
    case (Some l)
    then obtain k where k: "l = relative k" "\<not> (k = Adjacent \<or> k = Sibling)"
      using ts by (auto simp: leading_combinator starts_beside_def split: list.splits token.splits)
    then have "related D False (relative k) True (\<lambda>e. e = c) x" using that Some by (simp add: from_context_def)
    then show ?thesis using up[of k] k(2) by (cases k) blast+
  qed
  then show ?thesis using selects_scope[OF ok] m unfolding matches_group_def by blast
qed

lemma group_scope:
  assumes ok: "document_ok D order doc" and m: "matches_group D False (Node c) (c \<noteq> doc) ts e"
    and e: "e \<in> set order" "node_kind D e = 1" and s: "(\<exists>t \<in> set ts. sibling_token t) \<Longrightarrow> s"
  shows "below D (outermost_node D s c) e"
proof (cases "starts_beside ts")
  case False
  then show ?thesis using outermost_below[OF ok] group_below[OF ok m e] by blast
next
  case True
  then obtain k r where ts: "ts = Combinator k # r" "k = Adjacent \<or> k = Sibling"
    by (auto simp: starts_beside_def split: list.splits token.splits)
  then have "s" using s by auto
  have "below D (outermost_node D True c) x" if "from_context D False (Node c) (c \<noteq> doc) (leading_relative ts) x" for x
  proof -
    have "related D False (relative k) True (\<lambda>e. e = c) x" using that ts by (simp add: leading_combinator from_context_def)
    then have "c \<in> set (along D (dir (relative k)) x)" using related_nodes_along by (auto simp: related_iff)
    moreover have "dir (relative k) = ''previousSibling''" using ts(2) by auto
    ultimately show ?thesis using outermost_sibling[OF ok] by simp
  qed
  then have "below D (outermost_node D True c) e"
    using selects_scope[OF ok, of "from_context D False (Node c) (c \<noteq> doc) (leading_relative ts)"] m
    unfolding matches_group_def by blast
  then show ?thesis using \<open>s\<close> by simp
qed

definition matching :: "document \<Rightarrow> nat \<Rightarrow> nat \<Rightarrow> token list list \<Rightarrow> nat \<Rightarrow> bool" where
  "matching D doc c groups e \<longleftrightarrow> (\<exists>ts \<in> set groups. matches_group D False (Node c) (c \<noteq> doc) ts e)"

text \<open>Running over all elements below the outermost node.\<close>

lemma run_outermost:
  assumes "document_ok D order doc" "wf S" "(\<exists>ts \<in> set groups. \<exists>t \<in> set ts. sibling_token t) \<Longrightarrow> s"
  shows "fst (run_compiled D doc c groups n (elements_below D order (outermost_node D s c)) S) =
    filter (\<lambda>e. node_kind D e = 1 \<and> matching D doc c groups e) order"
proof -
  have "(node_kind D e = 1 \<and> below D (outermost_node D s c) e) \<and> matching D doc c groups e \<longleftrightarrow>
      node_kind D e = 1 \<and> matching D doc c groups e" if "e \<in> set order" for e
    using group_scope[OF assms(1) _ that] assms(3) unfolding matching_def by blast
  then show ?thesis
    unfolding run_compiled_def run_selector_filter(1)[OF assms(2)] elements_below_def filter_filter matching_def[symmetric]
    by (intro filter_cong) auto
qed

section \<open>Seeds\<close>

lemma selects_take_out:
  "list_all (\<lambda>t. \<exists>f. t = Filter f) bs \<Longrightarrow>
     selects D xml start (rev (as @ Filter f # bs)) e \<longleftrightarrow> Expr_filter D xml f e \<and> selects D xml start (rev (as @ bs)) e"
proof -
  have front: "selects D xml start (bs @ ts) e \<longleftrightarrow> selects D xml (\<lambda>_. True) bs e \<and> selects D xml start ts e"
    if "list_all (\<lambda>t. \<exists>f. t = Filter f) bs" for bs ts
    using that by (induction bs) auto
  assume bs: "list_all (\<lambda>t. \<exists>f. t = Filter f) bs"
  then have "list_all (\<lambda>t. \<exists>f. t = Filter f) (rev bs)" by simp
  note front[OF this, of "Filter f # rev as"] front[OF this, of "rev as"]
  then show ?thesis by auto
qed

lemma seed_loop_Some:
  assumes "seed_loop D order c rts behind = Some (seed, ts')" "list_all (\<lambda>t. \<exists>f. t = Filter f) behind"
  shows "\<exists>as f bs. rev rts @ behind = as @ Filter f # bs \<and> ts' = as @ bs \<and> list_all (\<lambda>t. \<exists>f. t = Filter f) bs \<and>
    Expr_find D order f c = Some seed"
  using assms
proof (induction D order c rts behind rule: seed_loop.induct)
  case (3 D order c f rts behind)
  show ?case
  proof (cases "Expr_find D order f c")
    case None
    then show ?thesis using 3 by simp
  next
    case (Some s)
    then show ?thesis using "3.prems" by (intro exI[of _ "rev rts"] exI[of _ f] exI[of _ behind]) simp
  qed
qed simp_all

lemma filter_single: "distinct xs \<Longrightarrow> x \<in> set xs \<Longrightarrow> filter (\<lambda>e. e = x) xs = [x]"
  by (induction xs) (auto simp: filter_empty_conv)

lemma Expr_find_elements:
  assumes ok: "document_ok D order doc" and c: "node_kind D c = 9 \<Longrightarrow> c = doc" and f: "Expr_find D order f c = Some seed"
  shows "seed = filter (Expr_filter D False f) (elements_below D order c)"
proof (cases f)
  case (ID i)
  then have c9: "node_kind D c = 9" and seed: "seed = (case element_by_id D order i of None \<Rightarrow> [] | Some e \<Rightarrow> [e])"
    using f by (auto simp: Expr_find_def split: if_splits)
  have r: "filter (Expr_filter D False f) (elements_below D order c) =
      filter (\<lambda>e. node_kind D e = 1 \<and> attribute D e ''id'' = Some i) order"
    using document_okD(9)[OF ok] c[OF c9] by (auto simp: elements_below_def Expr_filter_def ID intro!: filter_cong)
  show ?thesis
  proof (cases "element_by_id D order i")
    case None
    then have "filter (\<lambda>e. node_kind D e = 1 \<and> attribute D e ''id'' = Some i) order = []"
      by (auto simp: element_by_id_def find_None_iff filter_empty_conv)
    then show ?thesis using None by (simp add: seed r)
  next
    case (Some x)
    then have x: "x \<in> set order" "node_kind D x = 1" "attribute D x ''id'' = Some i"
      by (auto simp: element_by_id_def find_Some_iff)
    have "(node_kind D e = 1 \<and> attribute D e ''id'' = Some i) = (e = x)" if "e \<in> set order" for e
      using x document_okD(11)[OF ok that x(1) _ x(2) _ x(3)] by blast
    then have "filter (\<lambda>e. node_kind D e = 1 \<and> attribute D e ''id'' = Some i) order = filter (\<lambda>e. e = x) order"
      by (rule filter_cong[OF refl])
    also have "\<dots> = [x]" by (rule filter_single[OF document_okD(1)[OF ok] x(1)])
    finally show ?thesis using Some by (simp add: seed r)
  qed
qed (use f in \<open>simp_all add: Expr_find_def\<close>)

lemma matches_take_out:
  assumes "list_all (\<lambda>t. \<exists>f. t = Filter f) bs"
  shows "matches_group D xml ctx outermost (as @ Filter f # bs) e \<longleftrightarrow>
    Expr_filter D xml f e \<and> matches_group D xml ctx outermost (as @ bs) e"
proof -
  have l: "leading_relative (as @ Filter f # bs) = leading_relative (as @ bs)"
    using assms by (cases as; cases bs) (auto simp: leading_relative_def)
  show ?thesis
  proof (cases "leading_relative (as @ bs) = None")
    case True
    then show ?thesis using selects_take_out[OF assms, of D xml _ as f e] l by (simp add: matches_group_def)
  next
    case False
    then have "as \<noteq> []" using assms by (cases bs) (auto simp: leading_relative_def split: list.splits)
    obtain y where "leading_relative (as @ bs) = Some y" using False by blast
    then show ?thesis using \<open>as \<noteq> []\<close> selects_take_out[OF assms, of D xml _ "tl as" f e] l by (simp add: matches_group_def)
  qed
qed

lemma matches_Nil: "below D c e \<or> c = doc \<Longrightarrow> matches_group D False (Node c) (c \<noteq> doc) [] e"
  by (auto simp: matches_group_def leading_relative_def from_context_def related_iff related_nodes_def below_def eligible_def)

lemma select_tokens_filter:
  assumes ok: "document_ok D order doc" and S: "wf S" and c: "node_kind D c = 9 \<Longrightarrow> c = doc"
  shows "fst (select_tokens D order doc c ts n S) = filter (\<lambda>e. node_kind D e = 1 \<and> matching D doc c [ts] e) order"
proof (cases "fetch_seed D order c ts")
  case None
  then show ?thesis using run_outermost[OF ok S, of "[ts]"] by (simp add: select_tokens_def)
next
  case (Some r)
  obtain seed rest where r: "r = (seed, rest)" by fastforce
  have nc: "\<not> needs_context ts" using Some by (auto simp: fetch_seed_def)
  then have nb: "\<not> starts_beside ts" by (auto simp: needs_context_def starts_beside_def split: list.splits token.splits)
  have "(case ts of Combinator k # _ \<Rightarrow> outermost_node D (k = Adjacent \<or> k = Sibling) c | _ \<Rightarrow> c) = c"
    using nb by (auto simp: starts_beside_def outermost_node_def split: list.split token.split)
  then have "seed_loop D order c (rev ts) [] = Some (seed, rest)" using Some nc r by (simp add: fetch_seed_def)
  from seed_loop_Some[OF this]
  obtain as f bs where t: "ts = as @ Filter f # bs" "rest = as @ bs" "list_all (\<lambda>t. \<exists>f. t = Filter f) bs"
      "Expr_find D order f c = Some seed" by auto
  have seed: "seed = filter (Expr_filter D False f) (elements_below D order c)"
    by (rule Expr_find_elements[OF ok c t(4)])
  let ?m = "matches_group D False (Node c) (c \<noteq> doc)"
  have m: "?m ts e \<longleftrightarrow> Expr_filter D False f e \<and> ?m rest e" for e
    unfolding t(1,2) by (rule matches_take_out[OF t(3)])
  have all: "filter (\<lambda>e. node_kind D e = 1 \<and> ?m ts e) order = filter (?m rest) seed"
    unfolding seed elements_below_def filter_filter
    using group_below[OF ok _ _ _ nb] m by (intro filter_cong) auto
  have "filter (?m rest) seed = (if seed = [] \<or> rest = [] then seed else fst (run_compiled D doc c [rest] n seed S))"
  proof (cases "rest = []")
    case True
    have "?m rest e" if "e \<in> set seed" for e
      unfolding True using that by (intro matches_Nil) (simp add: seed elements_below_def)
    then have "filter (?m rest) seed = seed" by (intro filter_True) blast
    then show ?thesis using True by simp
  next
    case False
    then show ?thesis using run_selector_filter(1)[OF S, of D False "Node c" "c \<noteq> doc" "[rest]" n seed]
      by (simp add: run_compiled_def)
  qed
  then show ?thesis using Some r all by (simp add: select_tokens_def matching_def)
qed

section \<open>An identifier in front\<close>

lemma child_of_element:
  assumes ok: "document_ok D order doc" and x: "node_kind D x = 1"
  shows "x \<in> set (related_nodes D True (relative k) y) \<longleftrightarrow> x \<in> set (related_nodes D False (relative k) y)"
proof (cases "k = Child")
  case True
  have "x \<in> set (take 1 (along D ''parentNode'' y)) \<longleftrightarrow>
      x \<in> set (take 1 (filter (\<lambda>n. node_kind D n = 1) (along D ''parentNode'' y)))"
  proof (cases "along D ''parentNode'' y")
    case (Cons p ps)
    then obtain q where q: "parentNode D y = Some q" "q < y"
      using in_along_parent[of p D y] by auto
    then have "along D ''parentNode'' y = q # along D ''parentNode'' q" by (simp add: along_parent[of D y])
    then have p: "p = q" "ps = along D ''parentNode'' q" using Cons by (metis list.inject)+
    show ?thesis
    proof (cases "node_kind D p = 1")
      case False
      then have "ps = []" using p document_okD(5)[OF ok q(1)] by (simp add: along_parent[of D q])
      then show ?thesis using Cons False x by auto
    qed (simp add: Cons)
  qed simp
  then show ?thesis using True by (simp add: related_nodes_def eligible_def[abs_def] Let_def)
next
  case False
  then show ?thesis using x by (cases k) (auto simp: related_nodes_def eligible_def Let_def)
qed

lemma reduce_context_matching:
  assumes ok: "document_ok D order doc" and c: "node_kind D c = 9 \<Longrightarrow> c = doc"
    and e: "e \<in> set order" "node_kind D e = 1"
  shows "matching D doc c [ts] e \<longleftrightarrow>
    (case reduce_context D order c ts of None \<Rightarrow> False | Some (c', ts') \<Rightarrow> matching D doc c' [ts'] e)"
proof (cases "\<exists>i k r. ts = Filter (ID i) # Combinator k # r \<and> r \<noteq> [] \<and> node_kind D c = 9")
  case False
  then have "reduce_context D order c ts = Some (c, ts)"
    by (auto simp: reduce_context_def split: list.split token.split filter_token.split)
  then show ?thesis by simp
next
  case True
  then obtain i k r where ts: "ts = Filter (ID i) # Combinator k # r" "r \<noteq> []" "node_kind D c = 9" by blast
  let ?has = "\<lambda>x. attribute D x ''id'' = Some i"
  have full: "matching D doc c [ts] e \<longleftrightarrow> selects D False (related D False (relative k) False ?has) (rev r) e"
  proof -
    have "from_context D False (Node c) (c \<noteq> doc) None = (\<lambda>x. True)" using c[OF ts(3)] by (intro ext) (simp add: from_context_def)
    then have "matching D doc c [ts] e \<longleftrightarrow> selects D False (\<lambda>x. True) (rev r @ [Combinator k, Filter (ID i)]) e"
      by (simp add: matching_def matches_group_def ts(1) leading_relative_def)
    also have "selects D False (\<lambda>x. True) [Combinator k, Filter (ID i)] = related D False (relative k) False ?has"
      by (intro ext) (simp add: related_iff Expr_filter_def)
    then have "selects D False (\<lambda>x. True) (rev r @ [Combinator k, Filter (ID i)]) =
        selects D False (related D False (relative k) False ?has) (rev r)"
      by (simp add: selects_append)
    finally show ?thesis .
  qed
  have near: "x \<in> set order \<and> node_kind D x = 1"
    if "x \<in> set (related_nodes D False (relative k) y)" "y \<in> set order" for x y
    using related_nodes_element[OF that(1)] related_nodes_along[OF that(1)] document_okD(10)[OF ok that(2)] by blast
  show ?thesis
  proof (cases "element_by_id D order i")
    case None
    then have no: "\<not> ?has x" if "x \<in> set order" "node_kind D x = 1" for x
      using that by (auto simp: element_by_id_def find_None_iff)
    have "related D False (relative k) False ?has y = False" if "y \<in> set order" "node_kind D y = 1" for y
      using near[OF _ that(1)] no by (auto simp: related_iff)
    then have "\<not> matching D doc c [ts] e"
      unfolding full using selects_cong_on[OF ok, of "related D False (relative k) False ?has" "\<lambda>x. False" e] e selects_none by blast
    then show ?thesis using None ts by (simp add: reduce_context_def)
  next
    case (Some x)
    then have x: "x \<in> set order" "node_kind D x = 1" "?has x" by (auto simp: element_by_id_def find_Some_iff)
    have "related D False (relative k) False ?has y = from_context D False (Node x) (x \<noteq> doc) (Some (relative k)) y"
      if "y \<in> set order" "node_kind D y = 1" for y
    proof -
      have "(?has z) = (z = x)" if "z \<in> set (related_nodes D False (relative k) y)" for z
        using near[OF that \<open>y \<in> set order\<close>] x document_okD(11)[OF ok _ x(1) _ x(2) _ x(3)] by blast
      then have "related D False (relative k) False ?has y \<longleftrightarrow> x \<in> set (related_nodes D False (relative k) y)"
        using x(3) by (auto simp: related_iff)
      also have "\<dots> \<longleftrightarrow> x \<in> set (related_nodes D True (relative k) y)" by (rule child_of_element[OF ok x(2), symmetric])
      finally show ?thesis by (simp add: from_context_def related_iff)
    qed
    then have "matching D doc c [ts] e \<longleftrightarrow> selects D False (from_context D False (Node x) (x \<noteq> doc) (Some (relative k))) (rev r) e"
      unfolding full by (intro selects_cong_on[OF ok _ e])
    also have "\<dots> \<longleftrightarrow> matching D doc x [Combinator k # r] e"
      by (simp add: matching_def matches_group_def leading_relative_def)
    finally show ?thesis using Some ts by (simp add: reduce_context_def)
  qed
qed

section \<open>Properties\<close>

text \<open>
  C5. \<open>select\<close> finds exactly the elements of the document that the selector matches from its context, in
  document order, whichever way it takes: the identifier in front, a seed from the browser, or all elements
  below the outermost node; what earlier runs left on the elements does not matter.
\<close>

theorem select_exact:
  assumes "document_ok D order doc" "wf S" "node_kind D c = 9 \<Longrightarrow> c = doc"
  shows "fst (select D order doc c groups n S) = filter (\<lambda>e. node_kind D e = 1 \<and> matching D doc c groups e) order"
proof (cases "\<exists>ts. groups = [ts]")
  case False
  then have "select D order doc c groups n S = run_compiled D doc c groups n
      (elements_below D order (outermost_node D (\<exists>ts \<in> set groups. \<exists>t \<in> set ts. sibling_token t) c)) S"
    by (auto simp: select_def split: list.split)
  then show ?thesis using run_outermost[OF assms(1,2)] by simp
next
  case True
  then obtain ts where ts: "groups = [ts]" by blast
  note m = reduce_context_matching[OF assms(1,3), of _ ts]
  show ?thesis
  proof (cases "reduce_context D order c ts")
    case None
    then show ?thesis using m by (auto simp: ts select_def filter_empty_conv)
  next
    case (Some r)
    obtain c' ts' where r: "r = (c', ts')" by fastforce
    have "node_kind D c' = 9 \<Longrightarrow> c' = doc"
      using Some r assms(3)
      by (auto simp: reduce_context_def element_by_id_def find_Some_iff split: list.splits token.splits filter_token.splits if_splits)
    from select_tokens_filter[OF assms(1,2) this]
    have "fst (select D order doc c groups n S) = filter (\<lambda>e. node_kind D e = 1 \<and> matching D doc c' [ts'] e) order"
      using Some r by (simp add: ts select_def)
    also have "\<dots> = filter (\<lambda>e. node_kind D e = 1 \<and> matching D doc c groups e) order"
      using m Some r by (intro filter_cong) (auto simp: ts)
    finally show ?thesis .
  qed
qed

text \<open>The sample document with an identifier on the division.\<close>

definition main_document :: document where
  "main_document = sample_document\<lparr>attribute := (\<lambda>n a. if n = 2 \<and> a = ''id'' then Some ''main'' else None)\<rparr>"

lemma along_smaller: "x \<in> set (along D d e) \<Longrightarrow> x < e"
  unfolding along_def by (rule step.way_smaller)

lemma main_document_ok: "document_ok main_document [0, 1, 2, 3, 4, 5, 6] 0"
proof -
  have "x < 7 \<Longrightarrow> x \<in> set [0, 1, 2, 3, 4, 5, 6]" for x :: nat by auto
  then have "\<forall>e \<in> set [0, 1, 2, 3, 4, 5, 6]. \<forall>d. \<forall>x \<in> set (along main_document d e). x \<in> set [0, 1, 2, 3, 4, 5, 6]"
    using along_smaller by fastforce
  moreover have "\<forall>e \<in> set [0, 1, 2, 3, 4, 5, 6]. node_kind main_document e = 1 \<longrightarrow> below main_document 0 e"
    by code_simp
  ultimately show ?thesis
    by (auto simp: document_ok_def main_document_def sample_document_def split: if_splits)
qed

theorem select_exact_witness:
  "fst (select main_document [0, 1, 2, 3, 4, 5, 6] 0 0
     [[Filter (ID ''main''), Combinator Descendant, Filter (TAG ''span'')]] 0 no_caches) = [4, 5] \<and>
   fst (select main_document [0, 1, 2, 3, 4, 5, 6] 0 2
     [[Combinator Sibling, Filter (TAG ''span'')]] 0 no_caches) = [6]"
proof -
  have w: "wf no_caches" by (simp add: wf_def no_caches_def)
  have k: "node_kind main_document 2 \<noteq> 9" by (simp add: main_document_def sample_document_def)
  have "fst (select main_document [0, 1, 2, 3, 4, 5, 6] 0 0 gs 0 no_caches) =
      filter (\<lambda>e. node_kind main_document e = 1 \<and> matching main_document 0 0 gs e) [0, 1, 2, 3, 4, 5, 6]" for gs
    by (rule select_exact [OF main_document_ok w]) simp
  moreover have "fst (select main_document [0, 1, 2, 3, 4, 5, 6] 0 2 gs 0 no_caches) =
      filter (\<lambda>e. node_kind main_document e = 1 \<and> matching main_document 0 2 gs e) [0, 1, 2, 3, 4, 5, 6]" for gs
    by (rule select_exact [OF main_document_ok w]) (use k in simp)
  ultimately show ?thesis
    by (simp only:) code_simp
qed

end
