(* ===== verification/JqFx.thy ===== *)
theory JqFx
  imports Prelude Complex_Main
begin

text \<open>
  Animations in \<open>jquery.js\<close>: the list of timers and its loop \<open>jQuery.fx.tick\<close>, the functions \<open>tick\<close> and \<open>stop\<close> of
  an animation, \<open>animate\<close>, \<open>stop\<close> and \<open>finish\<close> on the queue \<open>fx\<close> of an element.  Elements are numbers, animated
  properties plain numbers, exact where the program has floating point.  Easing is a parameter.  The clock never
  shows \<open>0\<close> and never goes back.  Callbacks of the user, show and hide animations, delays and animations of other
  queues are left out.
\<close>

section \<open>State\<close>

text \<open>An animation, by its position in \<open>anims\<close>, stands for its function \<open>tick\<close> in the list of timers too.\<close>

record animation =
  elem :: nat
  startTime :: nat
  duration :: nat
  tweens :: "(string \<times> rat \<times> rat) list"  \<comment> \<open>property, start, end\<close>
  stopped :: bool
  settled :: bool  \<comment> \<open>its deferred is resolved or rejected, and \<open>tick.elem\<close> deleted\<close>

datatype entry = Busy | Job "(string \<times> rat) list" nat

record fx =
  anims :: "animation list"
  timers :: "nat list"
  queues :: "entry list list"
  style :: "nat \<Rightarrow> string \<Rightarrow> rat"
  inProgress :: bool
  fxNow :: "nat option"
  clock :: nat
  pending :: nat  \<comment> \<open>calls of \<open>schedule\<close> the browser still owes\<close>

type_synonym easing = "rat \<Rightarrow> rat"

section \<open>Tweens\<close>

definition tween_value :: "easing \<Rightarrow> nat \<Rightarrow> rat \<Rightarrow> rat \<Rightarrow> rat \<Rightarrow> rat" where
  "tween_value ease dur pct s t =
     (let eased = (if dur \<noteq> 0 then ease pct else pct) in (t - s) * eased + s)"

definition run_tween :: "easing \<Rightarrow> nat \<Rightarrow> rat \<Rightarrow> string \<times> rat \<times> rat \<Rightarrow> (string \<Rightarrow> rat) \<Rightarrow> string \<Rightarrow> rat" where
  "run_tween ease dur pct tw vals = (case tw of (prop, s, t) \<Rightarrow> vals(prop := tween_value ease dur pct s t))"

definition run_tweens :: "easing \<Rightarrow> animation \<Rightarrow> rat \<Rightarrow> fx \<Rightarrow> fx" where
  "run_tweens ease a pct st =
     st\<lparr>style := (style st)(elem a := fold (run_tween ease (duration a) pct) (tweens a) (style st (elem a)))\<rparr>"

section \<open>Queues\<close>

definition queue_of :: "fx \<Rightarrow> nat \<Rightarrow> entry list" where
  "queue_of st e = (if e < length (queues st) then queues st ! e else [])"

definition set_queue :: "nat \<Rightarrow> entry list \<Rightarrow> fx \<Rightarrow> fx" where
  "set_queue e q st = st\<lparr>queues := (queues st)[e := q]\<rparr>"

definition current_time :: "fx \<Rightarrow> nat" where
  "current_time st = (case fxNow st of None \<Rightarrow> clock st | Some t \<Rightarrow> t)"

text \<open>\<open>Animation\<close>: the tweens start from the current values; the timer is pushed.  \<open>boot\<close> is \<open>jQuery.fx.start\<close>.\<close>

definition new_animation :: "nat \<Rightarrow> (string \<times> rat) list \<Rightarrow> nat \<Rightarrow> fx \<Rightarrow> animation" where
  "new_animation e props d st =
     \<lparr>elem = e, startTime = current_time st, duration = d, tweens = map (\<lambda>(p, t). (p, style st e p, t)) props,
      stopped = False, settled = False\<rparr>"

definition Animation :: "(fx \<Rightarrow> fx) \<Rightarrow> nat \<Rightarrow> (string \<times> rat) list \<Rightarrow> nat \<Rightarrow> fx \<Rightarrow> fx" where
  "Animation boot e props d st =
     boot (st\<lparr>anims := anims st @ [new_animation e props d st], timers := timers st @ [length (anims st)],
              fxNow := Some (current_time st)\<rparr>)"

text \<open>\<open>jQuery.dequeue\<close> on the queue \<open>fx\<close>; every function in it is a \<open>doAnimation\<close> of \<open>animate\<close>.\<close>

definition fx_dequeue :: "(fx \<Rightarrow> fx) \<Rightarrow> nat \<Rightarrow> fx \<Rightarrow> fx" where
  "fx_dequeue boot e st =
     (let q = (case queue_of st e of Busy # r \<Rightarrow> r | q \<Rightarrow> q)
      in case q of
           Job props d # r \<Rightarrow> Animation boot e props d (set_queue e (Busy # r) st)
         | _ \<Rightarrow> set_queue e q st)"

section \<open>One animation\<close>

definition update_anim :: "(animation \<Rightarrow> animation) \<Rightarrow> nat \<Rightarrow> fx \<Rightarrow> fx" where
  "update_anim f i st = st\<lparr>anims := (anims st)[i := f (anims st ! i)]\<rparr>"

text \<open>Resolving the deferred deletes \<open>tick.elem\<close>, then calls \<open>opt.complete\<close>, which starts the next one.\<close>

definition resolve :: "(fx \<Rightarrow> fx) \<Rightarrow> nat \<Rightarrow> fx \<Rightarrow> fx" where
  "resolve boot i st =
     (if settled (anims st ! i) then st
      else fx_dequeue boot (elem (anims st ! i)) (update_anim (\<lambda>a. a\<lparr>settled := True\<rparr>) i st))"

definition percent :: "animation \<Rightarrow> nat \<Rightarrow> rat" where
  "percent a now =
     (let remaining = startTime a + duration a - now
      in 1 - (if duration a = 0 then 0 else of_nat remaining / of_nat (duration a)))"

text \<open>The function \<open>tick\<close> of an animation: whether there is more to do, and the state.\<close>

definition timer_fires :: "easing \<Rightarrow> nat \<Rightarrow> fx \<Rightarrow> bool \<times> fx" where
  "timer_fires ease i st =
     (let a = anims st ! i
      in if stopped a then (False, st)
         else
           let now = current_time st;
               st1 = run_tweens ease a (percent a now) (st\<lparr>fxNow := Some now\<rparr>)
           in if percent a now < 1 \<and> tweens a \<noteq> [] then (True, st1) else (False, resolve (\<lambda>st. st) i st1))"

definition stop_animation :: "easing \<Rightarrow> (fx \<Rightarrow> fx) \<Rightarrow> nat \<Rightarrow> bool \<Rightarrow> fx \<Rightarrow> fx" where
  "stop_animation ease boot i gotoEnd st =
     (let a = anims st ! i
      in if stopped a then st
         else
           let st1 = update_anim (\<lambda>a. a\<lparr>stopped := True\<rparr>) i st
           in if gotoEnd then resolve boot i (run_tweens ease a 1 st1)
              else update_anim (\<lambda>a. a\<lparr>settled := True\<rparr>) i st1)"

definition remove_timer :: "nat \<Rightarrow> fx \<Rightarrow> fx" where
  "remove_timer k st = st\<lparr>timers := take k (timers st) @ drop (Suc k) (timers st)\<rparr>"

section \<open>The loop over the timers\<close>

definition jobs :: "fx \<Rightarrow> nat" where
  "jobs st = sum_list (map (\<lambda>q. length (filter (\<lambda>j. j \<noteq> Busy) q)) (queues st))"

lemma style_fields [simp]:
  "timers (run_tweens ease a pct st) = timers st" "queues (run_tweens ease a pct st) = queues st"
  "anims (run_tweens ease a pct st) = anims st" "inProgress (run_tweens ease a pct st) = inProgress st"
  "fxNow (run_tweens ease a pct st) = fxNow st" "clock (run_tweens ease a pct st) = clock st"
  "pending (run_tweens ease a pct st) = pending st" "queue_of (run_tweens ease a pct st) e = queue_of st e"
  by (simp_all add: run_tweens_def queue_of_def)

lemma update_fields [simp]:
  "timers (update_anim f i st) = timers st" "queues (update_anim f i st) = queues st"
  "inProgress (update_anim f i st) = inProgress st" "style (update_anim f i st) = style st"
  "fxNow (update_anim f i st) = fxNow st" "clock (update_anim f i st) = clock st"
  "pending (update_anim f i st) = pending st" "queue_of (update_anim f i st) e = queue_of st e"
  "length (anims (update_anim f i st)) = length (anims st)"
  by (simp_all add: update_anim_def queue_of_def)

lemma queue_fields [simp]:
  "timers (set_queue e q st) = timers st" "anims (set_queue e q st) = anims st"
  "inProgress (set_queue e q st) = inProgress st" "style (set_queue e q st) = style st"
  "fxNow (set_queue e q st) = fxNow st" "clock (set_queue e q st) = clock st"
  "pending (set_queue e q st) = pending st" "length (queues (set_queue e q st)) = length (queues st)"
  "current_time (set_queue e q st) = current_time st"
  by (simp_all add: set_queue_def current_time_def split: option.split)

lemma queue_of_set [simp]:
  "queue_of (set_queue e q st) e' = (if e' = e \<and> e < length (queues st) then q else queue_of st e')"
  by (auto simp: queue_of_def set_queue_def)

lemma sum_list_update_nat:
  "i < length xs \<Longrightarrow> sum_list (xs[i := (y::nat)]) + xs ! i = sum_list xs + y"
  by (induction xs arbitrary: i) (auto split: nat.split)

lemma jobs_set_queue:
  assumes "e < length (queues st)"
  shows "jobs (set_queue e q st) + length (filter (\<lambda>j. j \<noteq> Busy) (queue_of st e)) =
    jobs st + length (filter (\<lambda>j. j \<noteq> Busy) q)"
  using sum_list_update_nat [of e "map (\<lambda>q. length (filter (\<lambda>j. j \<noteq> Busy) q)) (queues st)"
      "length (filter (\<lambda>j. j \<noteq> Busy) q)"] assms
  by (simp add: jobs_def set_queue_def queue_of_def map_update)

lemma jobs_frame [simp]:
  "jobs (run_tweens ease a pct st) = jobs st" "jobs (update_anim f i st) = jobs st"
  "jobs (st\<lparr>timers := ts\<rparr>) = jobs st" "jobs (st\<lparr>fxNow := t\<rparr>) = jobs st"
  "jobs (remove_timer k st) = jobs st"
  by (simp_all add: jobs_def remove_timer_def)

text \<open>\<open>jQuery.dequeue\<close> has two outcomes: nothing is waiting, or one job becomes the last timer.\<close>

lemma fx_dequeue_cases:
  fixes boot e st
  defines "q \<equiv> (case queue_of st e of Busy # r \<Rightarrow> r | q \<Rightarrow> q)"
  obtains (idle) "fx_dequeue boot e st = set_queue e q st" "\<And>props d r. q \<noteq> Job props d # r"
  | (starts) props d r where "q = Job props d # r" "e < length (queues st)"
      "fx_dequeue boot e st = Animation boot e props d (set_queue e (Busy # r) st)"
proof (cases "\<exists>props d r. q = Job props d # r")
  case True
  then obtain props d r where q: "q = Job props d # r"
    by blast
  have "e < length (queues st)"
  proof (rule ccontr)
    assume "\<not> e < length (queues st)"
    then have "q = []"
      by (simp add: q_def queue_of_def)
    with q show False
      by simp
  qed
  with q show ?thesis
    by (intro starts) (simp_all add: fx_dequeue_def Let_def q_def [symmetric])
next
  case False
  then show ?thesis
    by (intro idle) (simp_all add: fx_dequeue_def Let_def q_def [symmetric] split: list.split entry.split)
qed

lemma jobs_idle_step:
  assumes "q = (case queue_of st e of Busy # r \<Rightarrow> r | q \<Rightarrow> q)"
  shows "jobs (set_queue e q st) = jobs st"
proof (cases "e < length (queues st)")
  case True
  have "length (filter (\<lambda>j. j \<noteq> Busy) q) = length (filter (\<lambda>j. j \<noteq> Busy) (queue_of st e))"
    using assms by (auto split: list.splits entry.splits)
  with jobs_set_queue [OF True, of q] show ?thesis
    by simp
next
  case False
  then show ?thesis
    by (simp add: jobs_def set_queue_def list_update_beyond)
qed

lemma jobs_dequeue:
  obtains "timers (fx_dequeue (\<lambda>st. st) e st) = timers st" "jobs (fx_dequeue (\<lambda>st. st) e st) = jobs st"
  | x where "timers (fx_dequeue (\<lambda>st. st) e st) = timers st @ [x]" "Suc (jobs (fx_dequeue (\<lambda>st. st) e st)) = jobs st"
proof (cases rule: fx_dequeue_cases [where boot = "\<lambda>st. st" and e = e and st = st])
  case idle
  then show ?thesis
    by (intro that(1)) (simp_all add: jobs_idle_step)
next
  case (starts props d r)
  have "length (filter (\<lambda>j. j \<noteq> Busy) (queue_of st e)) = Suc (length (filter (\<lambda>j. j \<noteq> Busy) r))"
    using starts(1) by (auto split: list.splits entry.splits)
  with jobs_set_queue [OF starts(2), of "Busy # r"]
  have "Suc (jobs (set_queue e (Busy # r) st)) = jobs st"
    by simp
  then show ?thesis
    by (intro that(2)) (simp_all add: starts(3) Animation_def, simp add: jobs_def)
qed

lemma jobs_fires:
  obtains "timers (snd (timer_fires ease i st)) = timers st" "jobs (snd (timer_fires ease i st)) = jobs st"
  | x where "\<not> fst (timer_fires ease i st)" "timers (snd (timer_fires ease i st)) = timers st @ [x]"
      "Suc (jobs (snd (timer_fires ease i st))) = jobs st"
proof (cases "snd (timer_fires ease i st) = st \<or> fst (timer_fires ease i st) \<or> settled (anims st ! i)")
  case True
  then show ?thesis
    by (intro that(1)) (auto simp: timer_fires_def Let_def resolve_def split: if_splits)
next
  case False
  define u where "u = update_anim (\<lambda>a. a\<lparr>settled := True\<rparr>) i
    (run_tweens ease (anims st ! i) (percent (anims st ! i) (current_time st)) (st\<lparr>fxNow := Some (current_time st)\<rparr>))"
  have fires: "\<not> fst (timer_fires ease i st)"
    "snd (timer_fires ease i st) = fx_dequeue (\<lambda>st. st) (elem (anims st ! i)) u"
    using False by (auto simp: timer_fires_def Let_def resolve_def u_def split: if_splits)
  have "timers u = timers st" "jobs u = jobs st"
    by (simp_all add: u_def)
  with fires show ?thesis
    by (cases rule: jobs_dequeue [of "elem (anims st ! i)" u]) (auto intro: that)
qed

function tick_loop :: "easing \<Rightarrow> nat \<Rightarrow> fx \<Rightarrow> fx" where
  "tick_loop ease k st =
     (if k < length (timers st) then
        (case timer_fires ease (timers st ! k) st of
           (goes_on, st1) \<Rightarrow>
             if \<not> goes_on \<and> timers st1 ! k = timers st ! k then tick_loop ease k (remove_timer k st1)
             else tick_loop ease (Suc k) st1)
      else st)"
  by pat_completeness auto
termination
proof (relation "measure (\<lambda>(ease, k, st). (length (timers st) - k) + 2 * jobs st)", goal_cases)
  case 1
  show ?case
    by simp
next
  case (2 ease k st goes_on st1)
  from 2(2) have "timer_fires ease (timers st ! k) st = (goes_on, st1)"
    by simp
  with 2(1,3) show ?case
    by (cases rule: jobs_fires [of ease "timers st ! k" st]) (auto simp: remove_timer_def)
next
  case (3 ease k st goes_on st1)
  from 3(2) have "timer_fires ease (timers st ! k) st = (goes_on, st1)"
    by simp
  with 3(1,3) show ?case
    by (cases rule: jobs_fires [of ease "timers st ! k" st]) auto
qed

declare tick_loop.simps [simp del]

definition fx_tick :: "easing \<Rightarrow> fx \<Rightarrow> fx" where
  "fx_tick ease st =
     (let st1 = tick_loop ease 0 (st\<lparr>fxNow := Some (clock st)\<rparr>);
          st2 = (if timers st1 = [] then st1\<lparr>inProgress := False\<rparr> else st1)
      in st2\<lparr>fxNow := None\<rparr>)"

definition schedule :: "easing \<Rightarrow> fx \<Rightarrow> fx" where
  "schedule ease st = (if inProgress st then fx_tick ease (st\<lparr>pending := Suc (pending st)\<rparr>) else st)"

definition fx_start :: "easing \<Rightarrow> fx \<Rightarrow> fx" where
  "fx_start ease st = (if inProgress st then st else schedule ease (st\<lparr>inProgress := True\<rparr>))"

section \<open>The methods of an element\<close>

text \<open>\<open>doAnimation\<close>: an empty animation, and one that is being finished, ends at once.\<close>

definition doAnimation :: "easing \<Rightarrow> bool \<Rightarrow> nat \<Rightarrow> (string \<times> rat) list \<Rightarrow> nat \<Rightarrow> fx \<Rightarrow> fx" where
  "doAnimation ease finishing e props d st =
     (let i = length (anims st);
          st1 = Animation (fx_start ease) e props d st
      in if props = [] \<or> finishing then stop_animation ease (fx_start ease) i True st1 else st1)"

definition animate :: "easing \<Rightarrow> nat \<Rightarrow> (string \<times> rat) list \<Rightarrow> nat \<Rightarrow> fx \<Rightarrow> fx" where
  "animate ease e props d st =
     (if props = [] then doAnimation ease False e props d st
      else
        let q = queue_of st e @ [Job props d];
            st1 = set_queue e q st
        in if hd q \<noteq> Busy then fx_dequeue (fx_start ease) e st1 else st1)"

text \<open>The loop of \<open>stop\<close> and of \<open>finish\<close>, from the last timer down; whether it met a timer of the element.\<close>

fun stop_timers :: "easing \<Rightarrow> nat \<Rightarrow> bool \<Rightarrow> nat \<Rightarrow> fx \<Rightarrow> bool \<times> fx" where
  "stop_timers ease e gotoEnd 0 st = (False, st)"
| "stop_timers ease e gotoEnd (Suc index) st =
     (let i = timers st ! index
      in if elem (anims st ! i) = e \<and> \<not> settled (anims st ! i) then
           (True, snd (stop_timers ease e gotoEnd index
                         (remove_timer index (stop_animation ease (fx_start ease) i gotoEnd st))))
         else stop_timers ease e gotoEnd index st)"

definition fx_stop :: "easing \<Rightarrow> nat \<Rightarrow> bool \<Rightarrow> bool \<Rightarrow> fx \<Rightarrow> fx" where
  "fx_stop ease e clearQueue gotoEnd st =
     (let st1 = (if clearQueue then set_queue e [] st else st);
          r = stop_timers ease e gotoEnd (length (timers st1)) st1
      in if \<not> fst r \<or> \<not> gotoEnd then fx_dequeue (fx_start ease) e (snd r) else snd r)"

fun finish_jobs :: "easing \<Rightarrow> nat \<Rightarrow> entry list \<Rightarrow> fx \<Rightarrow> fx" where
  "finish_jobs ease e [] st = st"
| "finish_jobs ease e (Busy # q) st = finish_jobs ease e q st"
| "finish_jobs ease e (Job props d # q) st = finish_jobs ease e q (doAnimation ease True e props d st)"

definition fx_finish :: "easing \<Rightarrow> nat \<Rightarrow> fx \<Rightarrow> fx" where
  "fx_finish ease e st =
     (let queue = queue_of st e;
          st1 = set_queue e [] st
      in finish_jobs ease e queue (snd (stop_timers ease e True (length (timers st1)) st1)))"

section \<open>Events\<close>

datatype event = Animate nat "(string \<times> rat) list" nat | Stop nat bool bool | Finish nat | Frame | Forget | Pass nat

text \<open>
  \<open>Frame\<close> is the browser calling \<open>schedule\<close> back, \<open>Forget\<close> the timeout of \<open>createFxNow\<close>, \<open>Pass\<close> the clock going on.
\<close>

fun fx_step :: "easing \<Rightarrow> event \<Rightarrow> fx \<Rightarrow> fx" where
  "fx_step ease (Animate e props d) st = animate ease e props d st"
| "fx_step ease (Stop e clearQueue gotoEnd) st = fx_stop ease e clearQueue gotoEnd st"
| "fx_step ease (Finish e) st = fx_finish ease e st"
| "fx_step ease Frame st = (if pending st = 0 then st else schedule ease (st\<lparr>pending := pending st - 1\<rparr>))"
| "fx_step ease Forget st = st\<lparr>fxNow := None\<rparr>"
| "fx_step ease (Pass d) st = st\<lparr>clock := clock st + d\<rparr>"

definition fx_run :: "easing \<Rightarrow> event list \<Rightarrow> fx \<Rightarrow> fx" where
  "fx_run ease evs st = fold (fx_step ease) evs st"

definition fx_init :: "nat \<Rightarrow> (nat \<Rightarrow> string \<Rightarrow> rat) \<Rightarrow> nat \<Rightarrow> fx" where
  "fx_init n vals t =
     \<lparr>anims = [], timers = [], queues = replicate n [], style = vals, inProgress = False, fxNow = None, clock = t,
      pending = 0\<rparr>"


section \<open>Speeds and shortcuts\<close>

text \<open>
  \<open>jQuery.speed\<close> looks a name up with \<open>in\<close>, which also finds the names every object inherits: the duration is
  then a function.
\<close>

datatype speed = Millis nat | Name string | NoSpeed

datatype speed_value = Duration nat | Inherited string

definition object_names :: "string list" where
  "object_names = [''constructor'', ''hasOwnProperty'', ''isPrototypeOf'', ''propertyIsEnumerable'', ''toLocaleString'',
     ''toString'', ''valueOf'', ''__defineGetter__'', ''__defineSetter__'', ''__lookupGetter__'', ''__lookupSetter__'']"

definition speeds :: "string \<Rightarrow> nat option" where
  "speeds = [''slow'' \<mapsto> 600, ''fast'' \<mapsto> 200, ''_default'' \<mapsto> 400]"

definition speed_duration :: "bool \<Rightarrow> speed \<Rightarrow> speed_value" where
  "speed_duration fx_off s =
     (if fx_off then Duration 0
      else case s of
        Millis d \<Rightarrow> Duration d
      | Name x \<Rightarrow>
          (case speeds x of
             Some d \<Rightarrow> Duration d
           | None \<Rightarrow> if x \<in> set object_names then Inherited x else Duration 400)
      | NoSpeed \<Rightarrow> Duration 400)"

definition cssExpand :: "string list" where
  "cssExpand = [''Top'', ''Right'', ''Bottom'', ''Left'']"

function genFx_loop :: "bool \<Rightarrow> nat \<Rightarrow> string list \<Rightarrow> string list" where
  "genFx_loop includeWidth i attrs =
     (if i < 4 then
        let which = cssExpand ! i
        in genFx_loop includeWidth (i + (2 - (if includeWidth then 1 else 0))) (attrs @ [''padding'' @ which, ''margin'' @ which])
      else attrs)"
  by pat_completeness auto
termination
  by (relation "measure (\<lambda>(w, i, attrs). 4 - i)") (auto split: if_splits)

text \<open>The names that \<open>genFx\<close> gives the value \<open>type\<close>.\<close>

definition genFx :: "bool \<Rightarrow> string list" where
  "genFx includeWidth =
     genFx_loop includeWidth 0 [''height''] @ (if includeWidth then [''opacity'', ''width''] else [])"

declare genFx_loop.simps [simp del]

lemma genFx_sides:
  "set (genFx False) = {''height''} \<union> (\<lambda>(a, b). a @ b) ` ({''margin'', ''padding''} \<times> {''Top'', ''Bottom''})"
  "set (genFx True) = {''height'', ''width'', ''opacity''} \<union> (\<lambda>(a, b). a @ b) ` ({''margin'', ''padding''} \<times> set cssExpand)"
proof -
  have "genFx False = [''height'', ''paddingTop'', ''marginTop'', ''paddingBottom'', ''marginBottom'']"
    by code_simp
  then show "set (genFx False) = {''height''} \<union> (\<lambda>(a, b). a @ b) ` ({''margin'', ''padding''} \<times> {''Top'', ''Bottom''})"
    by auto
  have "genFx True = [''height'', ''paddingTop'', ''marginTop'', ''paddingRight'', ''marginRight'', ''paddingBottom'',
    ''marginBottom'', ''paddingLeft'', ''marginLeft'', ''opacity'', ''width'']"
    by code_simp
  then show "set (genFx True) = {''height'', ''width'', ''opacity''} \<union>
      (\<lambda>(a, b). a @ b) ` ({''margin'', ''padding''} \<times> set cssExpand)"
    by (auto simp: cssExpand_def)
qed

lemma speed_defaults:
  "speed_duration False (Name ''slow'') = Duration 600" "speed_duration False (Name ''quick'') = Duration 400"
  "speed_duration False (Name ''toString'') = Inherited ''toString''"
  by (simp_all add: speed_duration_def speeds_def object_names_def)

end
