(* ===== verification/JqFxRun.thy ===== *)
theory JqFxRun
  imports JqFx
begin

text \<open>
  The animations of \<open>JqFx\<close> over whole sequences of events: at most one runs on an element, exactly while its
  queue is marked; \<open>finish\<close> leaves the values the element was heading for; the loop runs dry.
\<close>

section \<open>The invariant\<close>

definition running :: "fx \<Rightarrow> nat \<Rightarrow> nat list" where
  "running st e = filter (\<lambda>i. elem (anims st ! i) = e \<and> \<not> settled (anims st ! i)) [0..<length (anims st)]"

definition timers_ok :: "fx \<Rightarrow> bool" where
  "timers_ok st =
     (distinct (timers st) \<and> (\<forall>i\<in>set (timers st). i < length (anims st)) \<and>
      (\<forall>i<length (anims st). \<not> settled (anims st ! i) \<longrightarrow> i \<in> set (timers st)) \<and>
      (\<forall>a\<in>set (anims st). (stopped a \<longrightarrow> settled a) \<and> elem a < length (queues st) \<and> startTime a \<le> clock st) \<and>
      current_time st \<le> clock st)"

text \<open>Only an element of \<open>W\<close> may have an animation that runs without a mark in its queue.\<close>

definition elem_ok :: "nat set \<Rightarrow> nat \<Rightarrow> fx \<Rightarrow> bool" where
  "elem_ok W e st =
     (case queue_of st e of
        [] \<Rightarrow> (if e \<in> W then length (running st e) \<le> 1 else running st e = [])
      | j # q \<Rightarrow> j = Busy \<and> Busy \<notin> set q \<and> length (running st e) = 1)"

definition fx_inv :: "nat set \<Rightarrow> fx \<Rightarrow> bool" where
  "fx_inv W st = (timers_ok st \<and> (\<forall>e. elem_ok W e st))"

lemma running_run_tweens [simp]: "running (run_tweens ease a pct st) e = running st e"
  by (simp add: running_def)

lemma running_frame [simp]:
  "running (st\<lparr>fxNow := t\<rparr>) e = running st e" "running (st\<lparr>timers := ts\<rparr>) e = running st e"
  "running (set_queue e' q st) e = running st e" "running (remove_timer k st) e = running st e"
  "running (st\<lparr>clock := c\<rparr>) e = running st e" "running (st\<lparr>pending := p\<rparr>) e = running st e"
  "running (st\<lparr>inProgress := b\<rparr>) e = running st e"
  by (simp_all add: running_def set_queue_def remove_timer_def)

lemma queue_frame [simp]:
  "queue_of (st\<lparr>fxNow := t\<rparr>) e = queue_of st e" "queue_of (st\<lparr>timers := ts\<rparr>) e = queue_of st e"
  "queue_of (remove_timer k st) e = queue_of st e"
  "queue_of (st\<lparr>clock := c\<rparr>) e = queue_of st e" "queue_of (st\<lparr>pending := p\<rparr>) e = queue_of st e"
  "queue_of (st\<lparr>inProgress := b\<rparr>) e = queue_of st e"
  by (simp_all add: queue_of_def remove_timer_def)

lemma in_running:
  "i \<in> set (running st e) \<longleftrightarrow> i < length (anims st) \<and> elem (anims st ! i) = e \<and> \<not> settled (anims st ! i)"
  by (auto simp: running_def)

lemma running_distinct: "distinct (running st e)"
  by (simp add: running_def)

lemma running_settle:
  assumes "settled (f (anims st ! i))" "elem (f (anims st ! i)) = elem (anims st ! i)" "i < length (anims st)"
  shows "running (update_anim f i st) e = removeAll i (running st e)"
proof -
  have "removeAll i (running st e) =
    filter (\<lambda>j. i \<noteq> j \<and> elem (anims st ! j) = e \<and> \<not> settled (anims st ! j)) [0..<length (anims st)]"
    by (simp add: running_def removeAll_filter_not_eq) (metis (no_types, lifting))
  also have "\<dots> = running (update_anim f i st) e"
    unfolding running_def update_anim_def using assms by (intro filter_cong) (auto simp: nth_list_update)
  finally show ?thesis
    by (rule sym)
qed

lemma running_Animation:
  "running (Animation (\<lambda>st. st) e' props d st) e = running st e @ (if e = e' then [length (anims st)] else [])"
  by (auto simp: running_def Animation_def new_animation_def nth_append intro!: filter_cong)


lemma timers_okD:
  assumes "timers_ok st"
  shows "distinct (timers st)" and "\<And>i. i \<in> set (timers st) \<Longrightarrow> i < length (anims st)"
    and "\<And>i. i < length (anims st) \<Longrightarrow> \<not> settled (anims st ! i) \<Longrightarrow> i \<in> set (timers st)"
    and "\<And>a. a \<in> set (anims st) \<Longrightarrow> stopped a \<Longrightarrow> settled a"
    and "\<And>a. a \<in> set (anims st) \<Longrightarrow> elem a < length (queues st)"
    and "\<And>a. a \<in> set (anims st) \<Longrightarrow> startTime a \<le> clock st" and "current_time st \<le> clock st"
  using assms unfolding timers_ok_def by blast+

lemma current_time_frame [simp]:
  "current_time (run_tweens ease a pct st) = current_time st" "current_time (update_anim f i st) = current_time st"
  "current_time (st\<lparr>timers := ts\<rparr>) = current_time st" "current_time (st\<lparr>fxNow := Some t\<rparr>) = t"
  "current_time (st\<lparr>pending := p\<rparr>) = current_time st" "current_time (st\<lparr>inProgress := b\<rparr>) = current_time st"
  "current_time (remove_timer k st) = current_time st"
  by (simp_all add: current_time_def remove_timer_def split: option.split)

lemma timers_ok_frame [simp]:
  "timers_ok (run_tweens ease a pct st) = timers_ok st"
  "timers_ok (set_queue e q st) = timers_ok st"
  "timers_ok (st\<lparr>pending := p\<rparr>) = timers_ok st" "timers_ok (st\<lparr>inProgress := b\<rparr>) = timers_ok st"
  by (simp_all add: timers_ok_def)

lemma timers_ok_fxNow: "timers_ok st \<Longrightarrow> t \<le> clock st \<Longrightarrow> timers_ok (st\<lparr>fxNow := Some t\<rparr>)"
  by (simp add: timers_ok_def)

lemma timers_ok_settle:
  assumes ok: "timers_ok st" and f: "settled (f (anims st ! i))" "elem (f (anims st ! i)) = elem (anims st ! i)"
      "startTime (f (anims st ! i)) = startTime (anims st ! i)" and i: "i < length (anims st)"
  shows "timers_ok (update_anim f i st)"
  unfolding timers_ok_def
proof (intro conjI ballI allI impI)
  show "distinct (timers (update_anim f i st))"
    using timers_okD(1) [OF ok] by simp
  show "j < length (anims (update_anim f i st))" if "j \<in> set (timers (update_anim f i st))" for j
    using timers_okD(2) [OF ok] that by simp
  show "j \<in> set (timers (update_anim f i st))"
    if "j < length (anims (update_anim f i st))" "\<not> settled (anims (update_anim f i st) ! j)" for j
    using timers_okD(3) [OF ok, of j] that f(1) by (cases "j = i") (auto simp: update_anim_def nth_list_update)
  show "current_time (update_anim f i st) \<le> clock (update_anim f i st)"
    using timers_okD(7) [OF ok] by simp
  fix a
  assume "a \<in> set (anims (update_anim f i st))"
  then have a: "a \<in> set (anims st) \<or> a = f (anims st ! i)"
    using set_update_subset_insert by (fastforce simp: update_anim_def)
  show "settled a" if "stopped a"
    using a f(1) that timers_okD(4) [OF ok] by blast
  show "elem a < length (queues (update_anim f i st))"
    using a f(2) i timers_okD(5) [OF ok] nth_mem by auto
  show "startTime a \<le> clock (update_anim f i st)"
    using a f(3) i timers_okD(6) [OF ok] nth_mem by auto
qed

lemma drop_middle: "distinct (us @ x # vs) \<Longrightarrow> set (us @ vs) = set (us @ x # vs) - {x} \<and> distinct (us @ vs)"
  by auto

lemma splice_distinct:
  assumes "distinct xs" "k < length xs"
  shows "set (take k xs @ drop (Suc k) xs) = set xs - {xs ! k}" "distinct (take k xs @ drop (Suc k) xs)"
  using drop_middle [of "take k xs" "xs ! k" "drop (Suc k) xs"] assms by (simp_all only: id_take_nth_drop [symmetric])

lemma timers_ok_remove:
  assumes ok: "timers_ok st" and k: "k < length (timers st)" and settled: "settled (anims st ! (timers st ! k))"
  shows "timers_ok (remove_timer k st)"
proof -
  have "set (timers (remove_timer k st)) = set (timers st) - {timers st ! k}" "distinct (timers (remove_timer k st))"
    using splice_distinct [OF timers_okD(1) [OF ok] k] by (simp_all add: remove_timer_def)
  then show ?thesis
    using ok settled unfolding timers_ok_def by (auto simp: remove_timer_def current_time_def split: option.splits)
qed

lemma timers_ok_Animation:
  assumes ok: "timers_ok st" and e: "e < length (queues st)"
  shows "timers_ok (Animation (\<lambda>st. st) e props d st)"
proof -
  have "length (anims st) \<notin> set (timers st)"
    using timers_okD(2) [OF ok] by blast
  then show ?thesis
    using ok e unfolding timers_ok_def
    by (auto simp: Animation_def new_animation_def nth_append less_Suc_eq)
qed

lemma queue_Animation [simp]: "queue_of (Animation (\<lambda>st. st) e' props d st) e = queue_of st e"
  by (simp add: Animation_def queue_of_def)

lemma queue_of_beyond: "\<not> e < length (queues st) \<Longrightarrow> queue_of st e = []"
  by (simp add: queue_of_def)

lemma inv_dequeue:
  assumes ok: "timers_ok st" and none: "running st e = []"
    and q: "Busy \<notin> set (case queue_of st e of Busy # r \<Rightarrow> r | q \<Rightarrow> q)"
    and others: "\<And>e'. e' \<noteq> e \<Longrightarrow> elem_ok W e' st"
  shows "fx_inv W (fx_dequeue (\<lambda>st. st) e st)"
proof (cases rule: fx_dequeue_cases [where boot = "\<lambda>st. st" and e = e and st = st])
  case idle
  let ?q = "case queue_of st e of Busy # r \<Rightarrow> r | q \<Rightarrow> q"
  have "?q = []"
    using idle(2) q by (cases ?q) (auto, metis entry.exhaust)
  moreover have "elem_ok W e' (set_queue e [] st)" for e'
    using none others [of e'] by (cases "e' = e") (auto simp: elem_ok_def queue_of_beyond split: list.splits)
  ultimately show ?thesis
    using ok by (simp add: fx_inv_def idle(1))
next
  case (starts props d r)
  have "Busy \<notin> set r"
    using q starts(1) by simp
  then have "elem_ok W e' (Animation (\<lambda>st. st) e props d (set_queue e (Busy # r) st))" for e'
    using none others [of e'] starts(2) by (cases "e' = e") (auto simp: elem_ok_def running_Animation split: list.splits)
  then show ?thesis
    using ok starts(2) by (simp add: fx_inv_def starts(3) timers_ok_Animation)
qed


lemma elem_ok_frame [simp]:
  "elem_ok W e (run_tweens ease a pct st) = elem_ok W e st" "elem_ok W e (st\<lparr>fxNow := t\<rparr>) = elem_ok W e st"
  "elem_ok W e (st\<lparr>timers := ts\<rparr>) = elem_ok W e st" "elem_ok W e (st\<lparr>clock := c\<rparr>) = elem_ok W e st"
  "elem_ok W e (st\<lparr>pending := p\<rparr>) = elem_ok W e st" "elem_ok W e (st\<lparr>inProgress := b\<rparr>) = elem_ok W e st"
  "elem_ok W e (remove_timer k st) = elem_ok W e st"
  by (simp_all add: elem_ok_def cong: list.case_cong)

lemma elem_ok_queue: "e' \<noteq> e \<Longrightarrow> elem_ok W e' (set_queue e q st) = elem_ok W e' st"
  by (simp add: elem_ok_def cong: list.case_cong)

lemma elem_okD:
  assumes "elem_ok W e st"
  shows "length (running st e) \<le> 1" "Busy \<notin> set (case queue_of st e of Busy # r \<Rightarrow> r | q \<Rightarrow> q)"
    "queue_of st e \<noteq> [] \<Longrightarrow> length (running st e) = 1"
    "queue_of st e = [] \<Longrightarrow> e \<notin> W \<Longrightarrow> running st e = []"
  using assms by (auto simp: elem_ok_def split: list.splits if_splits)

lemma at_most_one:
  assumes "elem_ok W e st" "i \<in> set (running st e)"
  shows "running st e = [i]"
  using elem_okD(1) [OF assms(1)] assms(2) by (cases "running st e") auto

text \<open>Settling an animation and starting the next one of its element keeps the invariant.\<close>

lemma inv_settle:
  assumes inv: "fx_inv W st" and i: "i < length (anims st)" "\<not> settled (anims st ! i)"
    and f: "settled (f (anims st ! i))" "elem (f (anims st ! i)) = elem (anims st ! i)"
      "startTime (f (anims st ! i)) = startTime (anims st ! i)"
  shows "timers_ok (update_anim f i st)" "running (update_anim f i st) (elem (anims st ! i)) = []"
    "\<And>e'. e' \<noteq> elem (anims st ! i) \<Longrightarrow> elem_ok W e' (update_anim f i st)"
proof -
  have ok: "timers_ok st" "\<And>e. elem_ok W e st"
    using inv by (simp_all add: fx_inv_def)
  show "timers_ok (update_anim f i st)"
    using ok(1) f i(1) by (rule timers_ok_settle)
  have "running st (elem (anims st ! i)) = [i]"
    using ok(2) i by (intro at_most_one) (auto simp: in_running)
  then show "running (update_anim f i st) (elem (anims st ! i)) = []"
    by (simp add: running_settle [of f st i, OF f(1,2) i(1)])
  show "elem_ok W e' (update_anim f i st)" if "e' \<noteq> elem (anims st ! i)" for e'
  proof -
    have "i \<notin> set (running st e')"
      using that by (simp add: in_running)
    then show ?thesis
      using ok(2) [of e'] by (simp add: elem_ok_def running_settle [of f st i, OF f(1,2) i(1)] removeAll_id split: list.splits if_splits)
  qed
qed

lemma inv_resolve_dequeue:
  assumes inv: "fx_inv W st" and i: "i < length (anims st)" "\<not> settled (anims st ! i)"
    and f: "settled (f (anims st ! i))" "elem (f (anims st ! i)) = elem (anims st ! i)"
      "startTime (f (anims st ! i)) = startTime (anims st ! i)"
  shows "fx_inv W (fx_dequeue (\<lambda>st. st) (elem (anims st ! i)) (update_anim f i st))"
proof (rule inv_dequeue)
  show "Busy \<notin> set (case queue_of (update_anim f i st) (elem (anims st ! i)) of Busy # r \<Rightarrow> r | q \<Rightarrow> q)"
    using inv elem_okD(2) [of W "elem (anims st ! i)" st] by (simp add: fx_inv_def)
qed (fact inv_settle [where f = f and st = st and i = i and W = W, OF assms])+

lemma fx_inv_fxNow: "fx_inv W st \<Longrightarrow> t \<le> clock st \<Longrightarrow> fx_inv W (st\<lparr>fxNow := Some t\<rparr>)"
  by (simp add: fx_inv_def timers_ok_fxNow)

lemma fx_inv_frame [simp]:
  "fx_inv W (run_tweens ease a pct st) = fx_inv W st" "fx_inv W (st\<lparr>pending := p\<rparr>) = fx_inv W st"
  "fx_inv W (st\<lparr>inProgress := b\<rparr>) = fx_inv W st"
  by (simp_all add: fx_inv_def)

lemma current_time_le: "fx_inv W st \<Longrightarrow> current_time st \<le> clock st"
  by (simp add: fx_inv_def timers_ok_def)

lemma inv_fires:
  assumes inv: "fx_inv W st" and i: "i \<in> set (timers st)"
  shows "fx_inv W (snd (timer_fires ease i st))"
    and "\<not> fst (timer_fires ease i st) \<Longrightarrow> settled (anims (snd (timer_fires ease i st)) ! i)"
proof -
  let ?a = "anims st ! i"
  let ?u = "run_tweens ease ?a (percent ?a (current_time st)) (st\<lparr>fxNow := Some (current_time st)\<rparr>)"
  have len: "i < length (anims st)"
    using inv i by (simp add: fx_inv_def timers_ok_def)
  have u: "fx_inv W ?u"
    using inv by (simp add: fx_inv_fxNow current_time_le)
  have dq: "settled (anims (fx_dequeue (\<lambda>st. st) e (update_anim (\<lambda>a. a\<lparr>settled := True\<rparr>) i ?u)) ! i)" for e
    using len by (cases rule: fx_dequeue_cases [where boot = "\<lambda>st. st" and e = e and st = "update_anim (\<lambda>a. a\<lparr>settled := True\<rparr>) i ?u"])
      (simp_all add: Animation_def nth_append update_anim_def)
  show "fx_inv W (snd (timer_fires ease i st))"
    using inv u inv_resolve_dequeue [OF u, of i "\<lambda>a. a\<lparr>settled := True\<rparr>"] len
    by (auto simp: timer_fires_def Let_def resolve_def)
  have "stopped ?a \<Longrightarrow> settled ?a"
    using inv len by (simp add: fx_inv_def timers_ok_def)
  then show "settled (anims (snd (timer_fires ease i st)) ! i)" if "\<not> fst (timer_fires ease i st)"
    using that dq by (auto simp: timer_fires_def Let_def resolve_def split: if_splits)
qed

lemma inv_tick_loop:
  assumes "fx_inv W st"
  shows "fx_inv W (tick_loop ease k st)"
  using assms
proof (induction ease k st rule: tick_loop.induct)
  case (1 ease k st)
  show ?case
  proof (cases "k < length (timers st)")
    case True
    obtain b u where r: "timer_fires ease (timers st ! k) st = (b, u)"
      by (rule prod.exhaust)
    have u: "fx_inv W u" "\<not> b \<Longrightarrow> settled (anims u ! (timers st ! k))"
      using inv_fires [OF "1.prems" nth_mem [OF True], of ease] by (simp_all add: r)
    have "length (timers u) \<ge> length (timers st)"
      by (cases rule: jobs_fires [of ease "timers st ! k" st]) (simp_all add: r)
    then have "timers_ok (remove_timer k u)" if "\<not> b" "timers u ! k = timers st ! k"
      using that u True by (intro timers_ok_remove) (auto simp: fx_inv_def)
    then have "fx_inv W (remove_timer k u)" if "\<not> b" "timers u ! k = timers st ! k"
      using that u(1) by (simp add: fx_inv_def)
    then show ?thesis
      using "1.IH" [OF True r [symmetric]] u(1) True by (subst tick_loop.simps) (simp add: r)
  qed (use "1.prems" in \<open>simp add: tick_loop.simps\<close>)
qed


section \<open>The loop runs while there are timers\<close>

definition loops :: "fx \<Rightarrow> bool" where
  "loops st = ((timers st \<noteq> [] \<longrightarrow> inProgress st) \<and> (inProgress st \<longrightarrow> 0 < pending st))"

text \<open>What no step of the loop changes.\<close>

definition same_loop :: "fx \<Rightarrow> fx \<Rightarrow> bool" where
  "same_loop st st' = (inProgress st' = inProgress st \<and> pending st' = pending st \<and> clock st' = clock st \<and>
     length (queues st') = length (queues st))"

lemma same_loop_dequeue: "same_loop st (fx_dequeue (\<lambda>st. st) e st)"
  by (cases rule: fx_dequeue_cases [where boot = "\<lambda>st. st" and e = e and st = st])
    (simp_all add: same_loop_def Animation_def)

lemma same_loop_fires: "same_loop st (snd (timer_fires ease i st))"
  using same_loop_dequeue [of "update_anim (\<lambda>a. a\<lparr>settled := True\<rparr>) i
      (run_tweens ease (anims st ! i) (percent (anims st ! i) (current_time st)) (st\<lparr>fxNow := Some (current_time st)\<rparr>))"]
  by (auto simp: timer_fires_def Let_def resolve_def same_loop_def)

lemma same_loop_tick_loop: "same_loop st (tick_loop ease k st)"
proof (induction ease k st rule: tick_loop.induct)
  case (1 ease k st)
  show ?case
  proof (cases "k < length (timers st)")
    case True
    obtain b u where r: "timer_fires ease (timers st ! k) st = (b, u)"
      by (rule prod.exhaust)
    have "same_loop st u"
      using same_loop_fires [of st ease "timers st ! k"] by (simp add: r)
    then show ?thesis
      using "1.IH" [OF True r [symmetric]] True
      by (subst tick_loop.simps) (simp add: r same_loop_def remove_timer_def)
  qed (simp add: tick_loop.simps same_loop_def)
qed

lemma fx_inv_forget: "fx_inv W st \<Longrightarrow> fx_inv W (st\<lparr>fxNow := None\<rparr>)"
  by (simp add: fx_inv_def timers_ok_def current_time_def)

lemma inv_tick:
  assumes "fx_inv W st"
  shows "fx_inv W (fx_tick ease st)" "inProgress st \<Longrightarrow> 0 < pending st \<Longrightarrow> loops (fx_tick ease st)"
proof -
  have "fx_inv W (tick_loop ease 0 (st\<lparr>fxNow := Some (clock st)\<rparr>))"
    using assms by (intro inv_tick_loop fx_inv_fxNow) simp_all
  then show "fx_inv W (fx_tick ease st)"
    by (auto simp: fx_tick_def Let_def intro: fx_inv_forget)
  show "loops (fx_tick ease st)" if "inProgress st" "0 < pending st"
    using that same_loop_tick_loop [of "st\<lparr>fxNow := Some (clock st)\<rparr>" ease 0]
    by (auto simp: fx_tick_def Let_def loops_def same_loop_def)
qed

lemma inv_start:
  assumes "fx_inv W st"
  shows "fx_inv W (fx_start ease st)" "inProgress st \<longrightarrow> 0 < pending st \<Longrightarrow> loops (fx_start ease st)"
  using assms inv_tick [of W "st\<lparr>inProgress := True, pending := Suc (pending st)\<rparr>" ease]
  by (auto simp: fx_start_def schedule_def loops_def)

lemma dequeue_boot:
  obtains "fx_dequeue boot e st = fx_dequeue (\<lambda>st. st) e st" "timers (fx_dequeue boot e st) = timers st"
  | "fx_dequeue boot e st = boot (fx_dequeue (\<lambda>st. st) e st)"
proof (cases "\<exists>props d r. (case queue_of st e of Busy # r \<Rightarrow> r | q \<Rightarrow> q) = Job props d # r")
  case True
  then show ?thesis
    by (intro that(2)) (auto simp: fx_dequeue_def Let_def Animation_def)
next
  case False
  let ?q = "case queue_of st e of Busy # r \<Rightarrow> r | q \<Rightarrow> q"
  from False have "fx_dequeue b e st = set_queue e ?q st" for b
    unfolding fx_dequeue_def Let_def by (cases ?q) (simp_all split: entry.split)
  then show ?thesis
    by (intro that(1)) simp_all
qed

lemma inv_dequeue_start:
  assumes "timers_ok st" "running st e = []" "Busy \<notin> set (case queue_of st e of Busy # r \<Rightarrow> r | q \<Rightarrow> q)"
    and "\<And>e'. e' \<noteq> e \<Longrightarrow> elem_ok W e' st" and "loops st"
  shows "fx_inv W (fx_dequeue (fx_start ease) e st)" "loops (fx_dequeue (fx_start ease) e st)"
proof -
  let ?u = "fx_dequeue (\<lambda>st. st) e st"
  have u: "fx_inv W ?u"
    using assms(1-4) by (rule inv_dequeue)
  have "inProgress ?u = inProgress st" "pending ?u = pending st"
    using same_loop_dequeue [of st e] by (simp_all add: same_loop_def)
  then have l: "inProgress ?u \<longrightarrow> 0 < pending ?u" "timers ?u = timers st \<Longrightarrow> loops ?u"
    using assms(5) by (simp_all add: loops_def)
  show "fx_inv W (fx_dequeue (fx_start ease) e st)"
    by (cases rule: dequeue_boot [of "fx_start ease" e st]) (simp_all add: u inv_start(1) [OF u])
  show "loops (fx_dequeue (fx_start ease) e st)"
    by (cases rule: dequeue_boot [of "fx_start ease" e st]) (simp_all add: l inv_start(2) [OF u])
qed

lemma loops_frame [simp]:
  "loops (run_tweens ease a pct st) = loops st" "loops (update_anim f i st) = loops st"
  "loops (set_queue e q st) = loops st" "loops (st\<lparr>clock := c\<rparr>) = loops st" "loops (st\<lparr>fxNow := t\<rparr>) = loops st"
  by (simp_all add: loops_def)

lemma loops_remove: "loops st \<Longrightarrow> loops (remove_timer k st)"
  by (auto simp: loops_def remove_timer_def)

text \<open>Starting the next animation while the loop is on calls nothing.\<close>

lemma inv_animate:
  assumes inv: "fx_inv {} st" and l: "loops st" and props: "props \<noteq> []"
  shows "fx_inv {} (animate ease e props d st)" "loops (animate ease e props d st)"
proof -
  let ?u = "set_queue e (queue_of st e @ [Job props d]) st"
  have ok: "timers_ok st" "\<And>e. elem_ok {} e st"
    using inv by (simp_all add: fx_inv_def)
  consider (beyond) "\<not> e < length (queues st)" | (idle) "queue_of st e = []" "e < length (queues st)"
    | (busy) r where "queue_of st e = Busy # r" "e < length (queues st)"
    using ok(2) [of e] by (auto simp: elem_ok_def split: list.splits)
  then have "fx_inv {} (animate ease e props d st) \<and> loops (animate ease e props d st)"
  proof cases
    case beyond
    then show ?thesis
      using inv l props by (simp add: animate_def queue_of_beyond fx_dequeue_def set_queue_def list_update_beyond Let_def)
  next
    case idle
    have "running ?u e = []"
      using elem_okD(4) [OF ok(2) idle(1)] by simp
    moreover have "\<And>e'. e' \<noteq> e \<Longrightarrow> elem_ok {} e' ?u"
      using ok(2) by (simp add: elem_ok_queue)
    ultimately show ?thesis
      using ok(1) l idle props inv_dequeue_start [of ?u e "{}" ease] by (simp add: animate_def Let_def)
  next
    case busy
    have "elem_ok {} e' ?u" for e'
      using ok(2) [of e] ok(2) [of e'] busy by (cases "e' = e") (auto simp: elem_ok_queue, auto simp: elem_ok_def)
    then show ?thesis
      using ok(1) l busy props by (simp add: animate_def Let_def fx_inv_def)
  qed
  then show "fx_inv {} (animate ease e props d st)" "loops (animate ease e props d st)"
    by simp_all
qed


section \<open>Stopping\<close>

abbreviation ended :: "animation \<Rightarrow> animation" where
  "ended a \<equiv> a\<lparr>stopped := True, settled := True\<rparr>"

lemma update_twice [simp]:
  "i < length (anims st) \<Longrightarrow> update_anim f i (update_anim g i st) = update_anim (\<lambda>a. f (g a)) i st"
  by (simp add: update_anim_def)

lemma update_run_tweens: "update_anim f i (run_tweens ease a pct st) = run_tweens ease a pct (update_anim f i st)"
  by (simp add: update_anim_def run_tweens_def)

lemma nth_update_anim [simp]:
  "i < length (anims st) \<Longrightarrow> anims (update_anim f i st) ! i = f (anims st ! i)"
  by (simp add: update_anim_def)

lemma dequeue_running_loop:
  assumes "inProgress st"
  shows "fx_dequeue (fx_start ease) e st = fx_dequeue (\<lambda>st. st) e st"
proof -
  have "inProgress (fx_dequeue (\<lambda>st. st) e st)"
    using same_loop_dequeue [of st e] assms by (simp add: same_loop_def)
  then show ?thesis
    by (cases rule: dequeue_boot [of "fx_start ease" e st]) (simp_all add: fx_start_def)
qed

lemma stop_goto:
  assumes "i < length (anims st)" "\<not> stopped (anims st ! i)" "\<not> settled (anims st ! i)" "inProgress st"
  shows "stop_animation ease (fx_start ease) i True st =
    fx_dequeue (\<lambda>st. st) (elem (anims st ! i)) (run_tweens ease (anims st ! i) 1 (update_anim ended i st))"
  using assms by (simp add: stop_animation_def Let_def resolve_def update_run_tweens dequeue_running_loop)

lemma stop_here:
  assumes "i < length (anims st)" "\<not> stopped (anims st ! i)"
  shows "stop_animation ease boot i False st = update_anim ended i st"
  using assms by (simp add: stop_animation_def Let_def)

lemma dequeue_extends:
  obtains ts as where "timers (fx_dequeue (\<lambda>st. st) e st) = timers st @ ts" "anims (fx_dequeue (\<lambda>st. st) e st) = anims st @ as"
  by (cases rule: fx_dequeue_cases [where boot = "\<lambda>st. st" and e = e and st = st]) (auto simp: Animation_def intro: that)

lemma stop_timers_none:
  assumes "\<And>j. j < n \<Longrightarrow> timers st ! j \<notin> set (running st e)" "\<And>j. j < n \<Longrightarrow> timers st ! j < length (anims st)"
  shows "stop_timers ease e gotoEnd n st = (False, st)"
  using assms by (induction n) (simp_all add: in_running Let_def)

lemma stop_timers_one:
  assumes ok: "timers_ok st" and one: "running st e = [i]" and l: "inProgress st"
    and k: "k < n" "n \<le> length (timers st)" "timers st ! k = i"
  shows "stop_timers ease e gotoEnd n st = (True, remove_timer k (stop_animation ease (fx_start ease) i gotoEnd st))"
  using k(1,2)
proof (induction n)
  case (Suc n)
  have i: "i < length (anims st)" "elem (anims st ! i) = e" "\<not> settled (anims st ! i)"
    using one in_running [of i st e] by simp_all
  then have unstopped: "\<not> stopped (anims st ! i)"
    using timers_okD(4) [OF ok] nth_mem by blast
  have others: "timers st ! j \<notin> set (running st e)" if "j < length (timers st)" "j \<noteq> k" for j
    using that k one timers_okD(1) [OF ok] by (auto simp: nth_eq_iff_index_eq)
  have bound: "timers st ! j < length (anims st)" if "j < length (timers st)" for j
    using timers_okD(2) [OF ok] that by simp
  show ?case
  proof (cases "n = k")
    case False
    then have "timers st ! n \<notin> set (running st e)" "timers st ! n < length (anims st)" "k < n"
      using Suc.prems others bound by auto
    then show ?thesis
      using Suc by (auto simp: in_running Let_def)
  next
    case True
    define u where "u = remove_timer k (stop_animation ease (fx_start ease) i gotoEnd st)"
    obtain ts as where u: "timers u = take k (timers st) @ ts" "anims u = (anims st)[i := ended (anims st ! i)] @ as"
    proof (cases gotoEnd)
      case True
      obtain ts as where "timers (stop_animation ease (fx_start ease) i gotoEnd st) = timers st @ ts"
        "anims (stop_animation ease (fx_start ease) i gotoEnd st) = (anims st)[i := ended (anims st ! i)] @ as"
        by (rule dequeue_extends [of e "run_tweens ease (anims st ! i) 1 (update_anim ended i st)"])
          (simp add: stop_goto i unstopped l True update_anim_def)
      then show ?thesis
        using k Suc.prems by (intro that [of "drop (Suc k) (timers st) @ ts" as]) (simp_all add: u_def remove_timer_def)
    next
      case False
      then show ?thesis
        by (intro that [of "drop (Suc k) (timers st)" "[]"])
          (simp_all add: u_def remove_timer_def stop_here i unstopped update_anim_def)
    qed
    have kl: "k < length (timers st)"
      using Suc.prems True by simp
    have "stop_timers ease e gotoEnd k u = (False, u)"
    proof (rule stop_timers_none)
      fix j
      assume j: "j < k"
      then have t: "timers u ! j = timers st ! j"
        using kl by (simp add: u nth_append)
      show "timers u ! j < length (anims u)"
        using bound [of j] j kl t by (simp add: u)
      have "timers st ! j \<notin> set (running st e)" "timers st ! j \<noteq> i"
        using others [of j] j kl one by auto
      then show "timers u ! j \<notin> set (running u e)"
        using bound [of j] j kl t by (auto simp: in_running u nth_append)
    qed
    then show ?thesis
      using True k(3) i by (simp add: Let_def u_def)
  qed
qed simp

lemma elem_ok_W: "e' \<noteq> e \<Longrightarrow> elem_ok {e} e' st = elem_ok {} e' st"
  by (simp add: elem_ok_def)

lemma inv_clear:
  assumes "fx_inv {} st"
  shows "fx_inv {e} (if b then set_queue e [] st else st)"
proof -
  have "elem_ok {e} e' (if b then set_queue e [] st else st)" for e'
    using assms elem_okD(1) [of "{}" e st]
    by (cases "e' = e") (auto simp: fx_inv_def elem_ok_queue elem_ok_W, auto simp: elem_ok_def queue_of_beyond split: list.splits)
  then show ?thesis
    using assms by (simp add: fx_inv_def)
qed


text \<open>What the loop of \<open>stop\<close> and \<open>finish\<close> leaves, when the queue is kept or has been emptied.\<close>

lemma stop_timers_cases:
  assumes inv: "fx_inv {e} st" and l: "loops st"
  obtains (idle) "running st e = []" "\<And>g. stop_timers ease e g (length (timers st)) st = (False, st)"
  | (one) i k where "i < length (anims st)" "elem (anims st ! i) = e" "\<not> settled (anims st ! i)"
      "inProgress st" "k < length (timers st)" "timers st ! k = i"
      "timers_ok (update_anim ended i st)" "running (update_anim ended i st) e = []"
      "\<And>e'. e' \<noteq> e \<Longrightarrow> elem_ok {} e' (update_anim ended i st)"
      "stop_timers ease e True (length (timers st)) st =
        (True, remove_timer k (fx_dequeue (\<lambda>st. st) e (run_tweens ease (anims st ! i) 1 (update_anim ended i st))))"
      "stop_timers ease e False (length (timers st)) st = (True, remove_timer k (update_anim ended i st))"
proof -
  have ok: "timers_ok st" and e: "elem_ok {e} e st"
    using inv by (simp_all add: fx_inv_def)
  show ?thesis
  proof (cases "running st e")
    case Nil
    then have "stop_timers ease e g (length (timers st)) st = (False, st)" for g
      using timers_okD(2) [OF ok] by (intro stop_timers_none) simp_all
    with Nil show ?thesis
      by (rule idle)
  next
    case (Cons i rest)
    then have one': "running st e = [i]" and i: "i < length (anims st)" "elem (anims st ! i) = e" "\<not> settled (anims st ! i)"
      using elem_okD(1) [OF e] in_running [of i st e] by simp_all
    have "i \<in> set (timers st)"
      using timers_okD(3) [OF ok] i by blast
    then obtain k where k: "k < length (timers st)" "timers st ! k = i"
      by (auto simp: in_set_conv_nth)
    then have p: "inProgress st"
      using l by (auto simp: loops_def)
    have unstopped: "\<not> stopped (anims st ! i)"
      using timers_okD(4) [OF ok] i nth_mem by blast
    note stop = stop_timers_one [OF ok one' p k(1) order.refl k(2)]
    have settle: "timers_ok (update_anim ended i st)" "running (update_anim ended i st) e = []"
      "\<And>e'. e' \<noteq> e \<Longrightarrow> elem_ok {e} e' (update_anim ended i st)"
      using inv_settle [OF inv i(1,3), of ended] by (simp_all add: i(2))
    show ?thesis
      using i p k settle(1,2) settle(3)
      by (intro one) (simp_all add: stop stop_goto stop_here unstopped elem_ok_W)
  qed
qed

lemma settled_dequeue:
  "i < length (anims st) \<Longrightarrow> settled (anims st ! i) \<Longrightarrow> settled (anims (fx_dequeue (\<lambda>st. st) e st) ! i)"
  by (rule dequeue_extends [of e st]) (simp add: nth_append)

lemma timers_dequeue [simp]:
  "k < length (timers st) \<Longrightarrow> timers (fx_dequeue (\<lambda>st. st) e st) ! k = timers st ! k"
  "k < length (timers st) \<Longrightarrow> k < length (timers (fx_dequeue (\<lambda>st. st) e st))"
  by (rule dequeue_extends [of e st], simp add: nth_append)+

lemma inv_remove:
  assumes "fx_inv W st" "k < length (timers st)" "settled (anims st ! (timers st ! k))"
  shows "fx_inv W (remove_timer k st)"
  using assms by (simp add: fx_inv_def timers_ok_remove)

lemma inv_stop:
  assumes inv: "fx_inv {} st" and l: "loops st"
  shows "fx_inv {} (fx_stop ease e clearQueue gotoEnd st)" "loops (fx_stop ease e clearQueue gotoEnd st)"
proof -
  define v where "v = (if clearQueue then set_queue e [] st else st)"
  have v: "fx_inv {e} v" "loops v"
    using inv_clear [OF inv, of e clearQueue] l by (simp_all add: v_def)
  have q: "Busy \<notin> set (case queue_of v e of Busy # r \<Rightarrow> r | q \<Rightarrow> q)"
    using v(1) elem_okD(2) [of "{e}" e v] by (simp add: fx_inv_def)
  have stop: "fx_stop ease e clearQueue g st =
    (let r = stop_timers ease e g (length (timers v)) v
     in if \<not> fst r \<or> \<not> g then fx_dequeue (fx_start ease) e (snd r) else snd r)" for g
    by (simp add: fx_stop_def Let_def v_def)
  have "fx_inv {} (fx_stop ease e clearQueue gotoEnd st) \<and> loops (fx_stop ease e clearQueue gotoEnd st)"
  using v proof (cases rule: stop_timers_cases [where ease = ease])
    case idle
    have "\<And>e'. e' \<noteq> e \<Longrightarrow> elem_ok {} e' v"
      using v(1) elem_ok_W [of _ e v] unfolding fx_inv_def by blast
    then have "fx_inv {} (fx_dequeue (fx_start ease) e v) \<and> loops (fx_dequeue (fx_start ease) e v)"
      using v idle(1) q by (intro conjI inv_dequeue_start) (simp_all add: fx_inv_def)
    then show ?thesis
      by (simp add: stop idle(2))
  next
    case (one i k)
    let ?u = "update_anim ended i v"
    show ?thesis
    proof (cases gotoEnd)
      case True
      let ?w = "run_tweens ease (anims v ! i) 1 ?u"
      have "fx_inv {} (fx_dequeue (\<lambda>st. st) e ?w)"
        using one(7,8,9) q by (intro inv_dequeue) simp_all
      then have "fx_inv {} (remove_timer k (fx_dequeue (\<lambda>st. st) e ?w))"
        using one(1,5,6) settled_dequeue [of i ?w e] by (intro inv_remove) simp_all
      moreover have "loops (fx_dequeue (\<lambda>st. st) e ?w)"
        using v(2) one(4) same_loop_dequeue [of ?w e] by (simp add: loops_def same_loop_def)
      ultimately show ?thesis
        by (simp add: stop True one(10) loops_remove)
    next
      case False
      have "timers_ok (remove_timer k ?u)"
        using one(1,5,6,7) by (intro timers_ok_remove) simp_all
      then have "fx_inv {} (fx_dequeue (fx_start ease) e (remove_timer k ?u)) \<and>
        loops (fx_dequeue (fx_start ease) e (remove_timer k ?u))"
        using one(8,9) q v(2) by (intro conjI inv_dequeue_start) (simp_all add: loops_remove)
      then show ?thesis
        by (simp add: stop False one(11))
    qed
  qed
  then show "fx_inv {} (fx_stop ease e clearQueue gotoEnd st)" "loops (fx_stop ease e clearQueue gotoEnd st)"
    by simp_all
qed


section \<open>Finishing\<close>

definition set_values :: "(string \<times> rat) list \<Rightarrow> (string \<Rightarrow> rat) \<Rightarrow> string \<Rightarrow> rat" where
  "set_values xs vals = fold (\<lambda>(p, t) vals. vals(p := t)) xs vals"

lemma set_values_apply: "set_values xs vals p = (case map_of (rev xs) p of None \<Rightarrow> vals p | Some t \<Rightarrow> t)"
proof (induction xs arbitrary: vals)
  case (Cons x xs)
  then show ?case
    by (cases x) (simp add: set_values_def map_add_def split: option.split)
qed (simp add: set_values_def)

lemma set_values_append: "set_values (xs @ ys) vals = set_values ys (set_values xs vals)"
  by (simp add: set_values_def)

lemma set_values_overwrite:
  assumes "map fst xs = map fst ys"
  shows "set_values xs (set_values ys vals) = set_values xs vals"
proof
  fix p
  have "fst ` set xs = fst ` set ys"
    using arg_cong [OF assms, of set] by simp
  then have "map_of (rev xs) p = None \<longleftrightarrow> map_of (rev ys) p = None"
    by (simp add: map_of_eq_None_iff)
  then show "set_values xs (set_values ys vals) p = set_values xs vals p"
    by (auto simp: set_values_apply split: option.split)
qed

definition tween_ends :: "animation \<Rightarrow> (string \<times> rat) list" where
  "tween_ends a = map (\<lambda>(p, s, t). (p, t)) (tweens a)"

lemma style_run:
  "style (run_tweens ease a pct st) = (style st)(elem a :=
    set_values (map (\<lambda>(p, s, t). (p, tween_value ease (duration a) pct s t)) (tweens a)) (style st (elem a)))"
proof -
  have "fold (run_tween ease d pct) tws v = set_values (map (\<lambda>(p, s, t). (p, tween_value ease d pct s t)) tws) v" for d tws v
    by (induction tws arbitrary: v) (auto simp: set_values_def run_tween_def)
  then show ?thesis
    by (simp add: run_tweens_def)
qed

lemma style_run_end:
  assumes "ease 1 = 1"
  shows "style (run_tweens ease a 1 st) = (style st)(elem a := set_values (tween_ends a) (style st (elem a)))"
  using assms by (simp add: style_run tween_ends_def tween_value_def Let_def)

lemma style_run_twice:
  assumes "ease 1 = 1" "style st = (style st')(elem a := set_values (map (\<lambda>(p, s, t). (p, f p s t)) (tweens a)) (style st' (elem a)))"
  shows "style (run_tweens ease a 1 st) = (style st')(elem a := set_values (tween_ends a) (style st' (elem a)))"
proof -
  have "map fst (tween_ends a) = map fst (map (\<lambda>(p, s, t). (p, f p s t)) (tweens a))"
    by (auto simp: tween_ends_def)
  then show ?thesis
    by (simp add: style_run_end [where ease = ease, OF assms(1)] assms(2) set_values_overwrite)
qed

lemma tick_single:
  assumes z: "timers z = [n]" "n < length (anims z)" "\<not> stopped (anims z ! n)" "\<not> settled (anims z ! n)"
    and q: "queue_of z (elem (anims z ! n)) = []"
  obtains pct where "tick_loop ease 0 z = run_tweens ease (anims z ! n) pct (z\<lparr>fxNow := Some (current_time z)\<rparr>)"
  | pct where "tick_loop ease 0 z = remove_timer 0 (set_queue (elem (anims z ! n)) []
      (run_tweens ease (anims z ! n) pct (update_anim (\<lambda>a. a\<lparr>settled := True\<rparr>) n (z\<lparr>fxNow := Some (current_time z)\<rparr>))))"
proof -
  let ?a = "anims z ! n"
  let ?pct = "percent ?a (current_time z)"
  let ?u = "run_tweens ease ?a ?pct (z\<lparr>fxNow := Some (current_time z)\<rparr>)"
  let ?v = "set_queue (elem ?a) [] (run_tweens ease ?a ?pct
    (update_anim (\<lambda>a. a\<lparr>settled := True\<rparr>) n (z\<lparr>fxNow := Some (current_time z)\<rparr>)))"
  show ?thesis
  proof (cases "?pct < 1 \<and> tweens ?a \<noteq> []")
    case True
    then have "tick_loop ease 0 z = tick_loop ease (Suc 0) ?u"
      using z by (subst tick_loop.simps) (simp add: timer_fires_def Let_def)
    also have "\<dots> = ?u"
      using z by (subst tick_loop.simps) simp
    finally show ?thesis
      by (rule that(1))
  next
    case False
    then have "timer_fires ease n z = (False, ?v)"
      using z q by (simp add: timer_fires_def Let_def resolve_def fx_dequeue_def update_run_tweens)
    then have "tick_loop ease 0 z = tick_loop ease 0 (remove_timer 0 ?v)"
      using z by (subst tick_loop.simps) simp
    also have "\<dots> = remove_timer 0 ?v"
      using z by (subst tick_loop.simps) (simp add: remove_timer_def)
    finally show ?thesis
      by (rule that(2))
  qed
qed


text \<open>An element at rest: nothing runs and nothing waits.\<close>

definition at_rest :: "nat \<Rightarrow> fx \<Rightarrow> bool" where
  "at_rest e st = (queue_of st e = [] \<and> running st e = [])"

text \<open>What the new animation of an element at rest looks like once the loop has been started.\<close>

lemma started:
  assumes inv: "fx_inv {} st" and l: "loops st" and rest: "at_rest e st" and e: "e < length (queues st)"
    and n_def: "n = length (anims st)" and a_def: "a = new_animation e props d st"
    and u_def: "u = Animation (fx_start ease) e props d st"
  shows "fx_inv {e} u" and "loops u" and "queue_of u e = []" and "n < length (anims u)"
    and "anims u ! n = a \<or> anims u ! n = a\<lparr>settled := True\<rparr>" and "\<forall>i\<in>set (running u e). i = n"
    and "\<exists>pct. style u = (style st)(e := set_values (map (\<lambda>(p, s, t). (p, tween_value ease d pct s t)) (tweens a)) (style st e))
      \<or> style u = style st"
proof -
  let ?s = "Animation (\<lambda>st. st) e props d st"
  have u: "u = fx_start ease ?s"
    by (simp add: u_def Animation_def)
  have a: "elem a = e" "\<not> stopped a" "\<not> settled a" "duration a = d"
    by (simp_all add: a_def new_animation_def)
  have s: "anims ?s = anims st @ [a]" "timers ?s = timers st @ [n]" "queue_of ?s e = []" "style ?s = style st"
    "inProgress ?s = inProgress st" "pending ?s = pending st"
    using rest by (simp_all add: Animation_def n_def a_def at_rest_def) (auto simp: queue_of_def split: if_splits)
  have s': "running ?s e = [n]" "timers_ok ?s"
    using rest inv e by (simp_all add: running_Animation at_rest_def timers_ok_Animation fx_inv_def n_def)
  have "elem_ok {e} e' ?s" for e'
    using inv s(3) s'(1) by (cases "e' = e") (simp_all add: fx_inv_def elem_ok_def running_Animation cong: list.case_cong)
  then have inv_s: "fx_inv {e} ?s"
    using s'(2) by (simp add: fx_inv_def)
  show "fx_inv {e} u" "loops u"
    using inv_start [OF inv_s, of ease] l s(5,6) by (simp_all add: u loops_def)
  have "queue_of u e = [] \<and> n < length (anims u) \<and> (anims u ! n = a \<or> anims u ! n = a\<lparr>settled := True\<rparr>) \<and>
    (\<forall>i\<in>set (running u e). i = n) \<and>
    (\<exists>pct. style u = (style st)(e := set_values (map (\<lambda>(p, s, t). (p, tween_value ease d pct s t)) (tweens a)) (style st e))
      \<or> style u = style st)"
  proof (cases "inProgress st")
    case True
    then show ?thesis
      using s s'(1) by (simp add: u fx_start_def n_def)
  next
    case False
    then have t: "timers st = []"
      using l by (auto simp: loops_def)
    define z where "z = ?s\<lparr>inProgress := True, pending := Suc (pending st), fxNow := Some (clock ?s)\<rparr>"
    have u': "queue_of u e = queue_of (tick_loop ease 0 z) e" "anims u = anims (tick_loop ease 0 z)"
      "style u = style (tick_loop ease 0 z)" "running u e = running (tick_loop ease 0 z) e"
      using False s by (simp_all add: u fx_start_def schedule_def fx_tick_def Let_def running_def queue_of_def z_def)
    have z: "anims z ! n = a" "queue_of z e = []" "style z = style st" "running z e = [n]"
      using s s'(1) t by (simp_all add: n_def nth_append z_def)
    have p: "timers z = [n]" "n < length (anims z)" "\<not> stopped (anims z ! n)" "\<not> settled (anims z ! n)"
      "queue_of z (elem (anims z ! n)) = []"
      using s t z a by (simp_all add: n_def z_def)
    show ?thesis
      using p
    proof (cases rule: tick_single [where ease = ease])
      case (1 pct)
      then show ?thesis
        using p z a by (auto simp: u' style_run)
    next
      case (2 pct)
      let ?w = "z\<lparr>fxNow := Some (current_time z)\<rparr>"
      have "running (update_anim (\<lambda>a. a\<lparr>settled := True\<rparr>) n ?w) e = []"
        using p(2) z(4) by (subst running_settle) simp_all
      then show ?thesis
        using 2 p z a by (auto simp: u' style_run) (auto simp: remove_timer_def style_run)
    qed
  qed
  then show "queue_of u e = []" "n < length (anims u)" "anims u ! n = a \<or> anims u ! n = a\<lparr>settled := True\<rparr>"
    "\<forall>i\<in>set (running u e). i = n"
    "\<exists>pct. style u = (style st)(e := set_values (map (\<lambda>(p, s, t). (p, tween_value ease d pct s t)) (tweens a)) (style st e))
      \<or> style u = style st"
    by blast+
qed


lemma length_queues_start [simp]: "length (queues (fx_start ease st)) = length (queues st)"
  using same_loop_tick_loop [of "st\<lparr>inProgress := True, pending := Suc (pending st), fxNow := Some (clock st)\<rparr>" ease 0]
  by (simp add: fx_start_def schedule_def fx_tick_def Let_def same_loop_def)

lemma tween_ends_new: "tween_ends (new_animation e props d st) = props"
  by (induction props) (auto simp: tween_ends_def new_animation_def)

lemma elem_ok_rest: "at_rest e st \<Longrightarrow> elem_ok {} e st"
  by (simp add: at_rest_def elem_ok_def)

lemma fx_inv_rest:
  assumes "fx_inv {e} st" "at_rest e st"
  shows "fx_inv {} st"
  using assms elem_ok_rest [of e st] elem_ok_W [of _ e st] unfolding fx_inv_def by metis

lemma doAnimation_finishing:
  assumes inv: "fx_inv {} st" and l: "loops st" and rest: "at_rest e st" and e: "e < length (queues st)"
    and one: "ease 1 = 1" and y_def: "y = doAnimation ease True e props d st"
  shows "fx_inv {} y" and "loops y" and "at_rest e y" and "length (queues y) = length (queues st)"
    and "style y = (style st)(e := set_values props (style st e))"
proof -
  define n a u where n_def: "n = length (anims st)" and a_def: "a = new_animation e props d st"
    and u_def: "u = Animation (fx_start ease) e props d st"
  note u = started [OF inv l rest e n_def a_def u_def]
  have y: "y = stop_animation ease (fx_start ease) n True u"
    by (simp add: y_def doAnimation_def Let_def n_def u_def)
  have a: "elem a = e" "\<not> stopped a" "\<not> settled a" "duration a = d" "tween_ends a = props"
    by (simp_all add: a_def tween_ends_new) (simp_all add: new_animation_def)
  have un: "\<not> stopped (anims u ! n)" "elem (anims u ! n) = e" "tween_ends (anims u ! n) = props"
    "tweens (anims u ! n) = tweens a"
    using u(5) a by (auto simp: tween_ends_def)
  have lens: "length (queues u) = length (queues st)"
    by (simp add: u_def Animation_def)
  have sty: "style (run_tweens ease (anims u ! n) 1 w) = (style st)(e := set_values props (style st e))"
    if w: "style w = style u" for w
  proof -
    consider pct where "style u = (style st)(e := set_values (map (\<lambda>(p, s, t). (p, tween_value ease d pct s t)) (tweens a)) (style st e))"
      | "style u = style st"
      using u(7) by blast
    then show ?thesis
    proof cases
      case (1 pct)
      then show ?thesis
        using style_run_twice [where st = w and st' = st and a = "anims u ! n" and f = "\<lambda>p. tween_value ease d pct" and ease = ease, OF one] un w
        by simp
    next
      case 2
      then show ?thesis
        using style_run_end [where st = w and a = "anims u ! n" and ease = ease, OF one] un w by simp
    qed
  qed
  have "fx_inv {e} y \<and> loops y \<and> at_rest e y \<and> length (queues y) = length (queues st) \<and>
    style y = (style st)(e := set_values props (style st e))"
  proof (cases "settled (anims u ! n)")
    case True
    let ?w = "update_anim (\<lambda>a. a\<lparr>stopped := True\<rparr>) n u"
    have y': "y = run_tweens ease (anims u ! n) 1 ?w"
      using True un u(4) by (simp add: y stop_animation_def Let_def resolve_def)
    have "running u e = []"
      using True u(6) in_running [of _ u e] by (metis list.set_intros(1) neq_Nil_conv)
    moreover have run: "running ?w e' = running u e'" for e'
      using True u(4) in_running [of n u e'] by (subst running_settle) (simp_all add: removeAll_id)
    moreover have "elem_ok {e} e' ?w = elem_ok {e} e' u" for e'
      by (simp add: elem_ok_def run cong: list.case_cong)
    moreover have "timers_ok ?w"
      using u(1,4) True by (intro timers_ok_settle) (simp_all add: fx_inv_def)
    ultimately show ?thesis
      using u(1,2,3) lens sty [of ?w] by (simp add: y' fx_inv_def at_rest_def)
  next
    case False
    let ?w = "run_tweens ease (anims u ! n) 1 (update_anim ended n u)"
    have "n \<in> set (timers u)"
      using u(1,4) False timers_okD(3) by (simp add: fx_inv_def)
    then have p: "inProgress u"
      using u(2) by (auto simp: loops_def)
    have y': "y = set_queue e [] ?w"
      using p False un u(3,4) by (simp add: y stop_goto fx_dequeue_def)
    have settle: "timers_ok (update_anim ended n u)" "running (update_anim ended n u) e = []"
      "\<And>e'. e' \<noteq> e \<Longrightarrow> elem_ok {e} e' (update_anim ended n u)"
      using inv_settle [where f = ended, OF u(1,4) False] un by simp_all
    have "elem_ok {e} e' y" for e'
      using settle(2,3) u(3) by (cases "e' = e") (simp_all add: y' elem_ok_queue, simp add: elem_ok_def)
    then show ?thesis
      using settle(1,2) u(2,3) lens sty [of "update_anim ended n u"]
      by (simp add: y' fx_inv_def at_rest_def)
  qed
  then show "fx_inv {} y" "loops y" "at_rest e y" "length (queues y) = length (queues st)"
    "style y = (style st)(e := set_values props (style st e))"
    using fx_inv_rest by blast+
qed


fun job_values :: "entry \<Rightarrow> (string \<times> rat) list" where
  "job_values Busy = []"
| "job_values (Job props d) = props"

text \<open>The values an element is heading for: those of its running animation, then those of the queue.\<close>

definition targets :: "fx \<Rightarrow> nat \<Rightarrow> (string \<times> rat) list" where
  "targets st e = concat (map (\<lambda>i. tween_ends (anims st ! i)) (running st e)) @ concat (map job_values (queue_of st e))"

lemma finish_jobs_rest:
  assumes "fx_inv {} st" "loops st" "at_rest e st" "q = [] \<or> e < length (queues st)" "ease 1 = 1"
  shows "fx_inv {} (finish_jobs ease e q st) \<and> loops (finish_jobs ease e q st) \<and> at_rest e (finish_jobs ease e q st) \<and>
    style (finish_jobs ease e q st) = (style st)(e := set_values (concat (map job_values q)) (style st e))"
  using assms
proof (induction ease e q st rule: finish_jobs.induct)
  case (1 ease e st)
  then show ?case
    by (simp add: set_values_def)
next
  case (2 ease e q st)
  then show ?case
    by auto
next
  case (3 ease e props d q st)
  have e: "e < length (queues st)"
    using "3.prems"(4) by simp
  note y = doAnimation_finishing [where ease = ease and props = props and d = d, OF "3.prems"(1-3) e "3.prems"(5) refl]
  show ?case
    using "3.IH" [OF y(1-3) _ "3.prems"(5)] y(4,5) e by (simp add: set_values_append fun_eq_iff)
qed

lemma finish_spec:
  assumes inv: "fx_inv {} st" and l: "loops st" and one: "ease 1 = 1"
  shows "fx_inv {} (fx_finish ease e st) \<and> loops (fx_finish ease e st) \<and> at_rest e (fx_finish ease e st) \<and>
    style (fx_finish ease e st) = (style st)(e := set_values (targets st e) (style st e))"
proof -
  define v x where "v = set_queue e [] st" and "x = snd (stop_timers ease e True (length (timers v)) v)"
  have v: "fx_inv {e} v" "loops v"
    using inv_clear [OF inv, of e True] l by (simp_all add: v_def)
  have vq: "queue_of v e = []" "running v e = running st e" "anims v = anims st" "style v = style st"
    by (simp_all add: v_def queue_of_beyond)
  have x: "fx_inv {} x \<and> loops x \<and> at_rest e x \<and> length (queues x) = length (queues st) \<and>
    style x = (style st)(e := set_values (concat (map (\<lambda>i. tween_ends (anims st ! i)) (running st e))) (style st e))"
    using v
  proof (cases rule: stop_timers_cases [where ease = ease])
    case idle
    then have "at_rest e v" "x = v"
      using vq by (simp_all add: at_rest_def x_def)
    then show ?thesis
      using v vq idle(1) fx_inv_rest [OF v(1)] by (simp add: set_values_def v_def)
  next
    case (one i k)
    let ?u = "update_anim ended i v"
    let ?w = "run_tweens ease (anims v ! i) 1 ?u"
    have x': "x = remove_timer k (set_queue e [] ?w)"
      using vq(1) by (simp add: x_def one(10) fx_dequeue_def)
    have "running v e = [i]"
      using v(1) one(1,2,3) in_running at_most_one unfolding fx_inv_def by blast
    then have "style x = (style st)(e := set_values (concat (map (\<lambda>i. tween_ends (anims st ! i)) (running st e))) (style st e))"
      using vq one(2) style_run_end [where ease = ease and a = "anims v ! i" and st = ?u, OF \<open>ease 1 = 1\<close>]
      by (simp add: x' remove_timer_def)
    moreover have rest: "at_rest e x"
      using one(8) vq(1) by (simp add: x' at_rest_def)
    moreover have "elem_ok {} e' x" for e'
      using one(9) [of e'] elem_ok_rest [OF rest] by (cases "e' = e") (simp_all add: x' elem_ok_queue)
    moreover have "timers_ok x"
      using one(1,5,6,7) unfolding x' by (intro timers_ok_remove) simp_all
    moreover have "loops x"
      using v(2) by (simp add: x' loops_remove)
    moreover have "length (queues x) = length (queues st)"
      by (simp add: x' remove_timer_def v_def)
    ultimately show ?thesis
      by (simp add: fx_inv_def)
  qed
  have "queue_of st e = [] \<or> e < length (queues x)"
    using x queue_of_beyond [of e st] by argo
  then have "fx_inv {} (finish_jobs ease e (queue_of st e) x) \<and> loops (finish_jobs ease e (queue_of st e) x) \<and>
    at_rest e (finish_jobs ease e (queue_of st e) x) \<and>
    style (finish_jobs ease e (queue_of st e) x) =
      (style x)(e := set_values (concat (map job_values (queue_of st e))) (style x e))"
    using x one by (intro finish_jobs_rest) simp_all
  moreover have "fx_finish ease e st = finish_jobs ease e (queue_of st e) x"
    by (simp add: fx_finish_def Let_def v_def x_def)
  ultimately show ?thesis
    using x by (simp add: targets_def set_values_append fun_eq_iff)
qed


section \<open>All events\<close>

text \<open>No event animates towards nothing.\<close>

fun has_props :: "event \<Rightarrow> bool" where
  "has_props (Animate e props d) = (props \<noteq> [])"
| "has_props ev = True"

definition fx_ok :: "fx \<Rightarrow> bool" where
  "fx_ok st = (fx_inv {} st \<and> loops st)"

lemma fx_ok_step:
  assumes ok: "fx_ok st" and ev: "has_props ev" and one: "ease 1 = 1"
  shows "fx_ok (fx_step ease ev st)"
proof (cases ev)
  case (Animate e props d)
  then show ?thesis
    using ok ev inv_animate [of st props ease e d] by (simp add: fx_ok_def)
next
  case (Stop e clearQueue gotoEnd)
  then show ?thesis
    using ok inv_stop [of st ease e clearQueue gotoEnd] by (simp add: fx_ok_def)
next
  case (Finish e)
  then show ?thesis
    using ok finish_spec [where ease = ease and e = e and st = st, OF _ _ one] by (simp add: fx_ok_def)
next
  case Frame
  then show ?thesis
    using ok inv_tick [of "{}" st ease]
    by (cases "inProgress st") (auto simp: fx_ok_def schedule_def loops_def)
next
  case Forget
  then show ?thesis
    using ok by (simp add: fx_ok_def fx_inv_forget)
next
  case (Pass d)
  have "timers_ok (st\<lparr>clock := clock st + d\<rparr>)" if "timers_ok st"
    using that unfolding timers_ok_def by (auto simp: current_time_def split: option.splits)
  then show ?thesis
    using ok Pass by (simp add: fx_ok_def fx_inv_def)
qed

lemma fx_ok_init: "fx_ok (fx_init n vals t)"
  by (simp add: fx_ok_def fx_inv_def timers_ok_def elem_ok_def loops_def fx_init_def running_def queue_of_def current_time_def)

lemma fx_ok_run:
  assumes "\<forall>ev\<in>set evs. has_props ev" "ease 1 = 1"
  shows "fx_ok (fx_run ease evs (fx_init n vals t))"
proof -
  have "fx_ok (fold (fx_step ease) evs st)" if "fx_ok st" for st
    using that assms(1) by (induction evs arbitrary: st) (simp_all add: fx_ok_step assms(2))
  then show ?thesis
    by (simp add: fx_run_def fx_ok_init)
qed


section \<open>Every animation ends\<close>

definition bounded :: "nat \<Rightarrow> fx \<Rightarrow> bool" where
  "bounded d st =
     ((\<forall>a\<in>set (anims st). duration a \<le> d) \<and>
      (\<forall>q\<in>set (queues st). \<forall>j\<in>set q. case j of Busy \<Rightarrow> True | Job props d' \<Rightarrow> d' \<le> d))"

text \<open>The first \<open>n\<close> animations are due; all time comes from \<open>fxNow\<close>.\<close>

definition due :: "nat \<Rightarrow> nat \<Rightarrow> fx \<Rightarrow> bool" where
  "due n t st = (fxNow st = Some t \<and> n \<le> length (anims st) \<and>
     (\<forall>i<n. startTime (anims st ! i) + duration (anims st ! i) \<le> t))"

lemma due_dequeue: "due n t st \<Longrightarrow> due n t (fx_dequeue (\<lambda>st. st) e st)"
  by (cases rule: fx_dequeue_cases [where boot = "\<lambda>st. st" and e = e and st = st])
    (auto simp: due_def Animation_def current_time_def set_queue_def nth_append)

lemma due_settle: "due n t st \<Longrightarrow> due n t (update_anim (\<lambda>a. a\<lparr>settled := True\<rparr>) i st)"
  by (cases "i < length (anims st)") (auto simp: due_def update_anim_def nth_list_update list_update_beyond)

lemma bounded_settle:
  assumes "bounded d st" "i < length (anims st)"
  shows "bounded d (update_anim (\<lambda>a. a\<lparr>settled := True\<rparr>) i st)"
proof -
  have "duration a \<le> d" if "a \<in> set ((anims st)[i := (anims st ! i)\<lparr>settled := True\<rparr>])" for a
    using that assms nth_mem [OF assms(2)] set_update_subset_insert [of "anims st" i] unfolding bounded_def by fastforce
  then show ?thesis
    using assms(1) by (simp add: bounded_def update_anim_def)
qed

lemma percent_due: "startTime a + duration a \<le> t \<Longrightarrow> percent a t = 1"
  by (simp add: percent_def)

lemma bounded_dequeue:
  assumes "bounded d st"
  shows "bounded d (fx_dequeue (\<lambda>st. st) e st)"
proof (cases "e < length (queues st)")
  case False
  then have "fx_dequeue (\<lambda>st. st) e st = st"
    by (simp add: fx_dequeue_def queue_of_beyond set_queue_def list_update_beyond)
  with assms show ?thesis
    by simp
next
  case True
  have q: "\<forall>j\<in>set (queue_of st e). case j of Busy \<Rightarrow> True | Job props d' \<Rightarrow> d' \<le> d"
    using assms True nth_mem [OF True] unfolding bounded_def queue_of_def by auto
  have upd: "bounded d (set_queue e q' st)" if "\<forall>j\<in>set q'. case j of Busy \<Rightarrow> True | Job props d' \<Rightarrow> d' \<le> d" for q'
    using assms that set_update_subset_insert [of "queues st" e q'] unfolding bounded_def set_queue_def
    by (auto simp del: split_paired_All)
  show ?thesis
  proof (cases rule: fx_dequeue_cases [where boot = "\<lambda>st. st" and e = e and st = st])
    case idle
    then show ?thesis
      using q by (auto intro!: upd split: list.splits entry.splits)
  next
    case (starts props d' r)
    have "bounded d (set_queue e (Busy # r) st)" "d' \<le> d"
      using q starts(1) by (auto intro!: upd split: list.splits entry.splits)
    then show ?thesis
      by (simp add: starts(3) bounded_def Animation_def new_animation_def)
  qed
qed

text \<open>Every start of an animation takes a job from a queue.\<close>

lemma jobs_anims_dequeue:
  "jobs (fx_dequeue (\<lambda>st. st) e st) + length (anims (fx_dequeue (\<lambda>st. st) e st)) = jobs st + length (anims st)"
proof (cases rule: fx_dequeue_cases [where boot = "\<lambda>st. st" and e = e and st = st])
  case idle
  then show ?thesis
    by (simp add: jobs_idle_step)
next
  case (starts props d r)
  have "length (filter (\<lambda>j. j \<noteq> Busy) (queue_of st e)) = Suc (length (filter (\<lambda>j. j \<noteq> Busy) r))"
    using starts(1) by (auto split: list.splits entry.splits)
  with jobs_set_queue [OF starts(2), of "Busy # r"]
  have "Suc (jobs (set_queue e (Busy # r) st)) = jobs st"
    by simp
  moreover have "jobs (Animation (\<lambda>st. st) e props d (set_queue e (Busy # r) st)) = jobs (set_queue e (Busy # r) st)"
    by (simp add: Animation_def jobs_def)
  ultimately show ?thesis
    by (simp add: starts(3)) (simp add: Animation_def)
qed

text \<open>What one timer keeps: the due animations, the bound, and jobs plus animations.\<close>

definition carries :: "nat \<Rightarrow> nat \<Rightarrow> nat \<Rightarrow> fx \<Rightarrow> fx \<Rightarrow> bool" where
  "carries n t d st st' = ((due n t st \<longrightarrow> due n t st') \<and> (bounded d st \<longrightarrow> bounded d st') \<and>
     jobs st' + length (anims st') = jobs st + length (anims st))"

lemma carries_fires:
  assumes "fxNow st = Some t" "i < length (anims st)"
  shows "carries n t d st (snd (timer_fires ease i st))"
proof -
  let ?u = "run_tweens ease (anims st ! i) (percent (anims st ! i) t) st"
  let ?v = "update_anim (\<lambda>a. a\<lparr>settled := True\<rparr>) i ?u"
  have u: "st\<lparr>fxNow := Some t\<rparr> = st" "current_time st = t"
    using assms(1) by (simp_all add: current_time_def)
  have "due n t st \<longrightarrow> due n t ?u" "bounded d st \<longrightarrow> bounded d ?u"
    by (simp_all add: due_def bounded_def)
  moreover have "due n t ?u \<longrightarrow> due n t ?v" "bounded d ?u \<longrightarrow> bounded d ?v"
    using assms(2) by (simp_all add: due_settle bounded_settle)
  moreover have "jobs (fx_dequeue (\<lambda>st. st) e ?v) + length (anims (fx_dequeue (\<lambda>st. st) e ?v)) = jobs st + length (anims st)" for e
    using jobs_anims_dequeue [of e ?v] by simp
  ultimately show ?thesis
    unfolding timer_fires_def Let_def resolve_def carries_def u
    by (auto simp: due_dequeue bounded_dequeue)
qed


lemma due_fires:
  assumes "due n t st" "i < n"
  shows "\<not> fst (timer_fires ease i st)"
  using assms by (auto simp: timer_fires_def Let_def due_def current_time_def percent_due)

lemma timers_fires:
  assumes "k < length (timers st)"
  shows "timers (snd (timer_fires ease i st)) ! k = timers st ! k" "length (timers st) \<le> length (timers (snd (timer_fires ease i st)))"
  using assms by (cases rule: jobs_fires [of ease i st]; simp add: nth_append)+

lemma carries_trans: "carries n t d st st' \<Longrightarrow> carries n t d st' st'' \<Longrightarrow> carries n t d st st''"
  by (simp add: carries_def)

lemma carries_remove: "carries n t d st (remove_timer k st)"
  by (simp add: carries_def due_def bounded_def remove_timer_def)

text \<open>The loop removes every timer that is due when it starts.\<close>

lemma tick_loop_due:
  assumes "fx_inv W st" "due n t st" "k \<le> length (timers st)" "\<forall>j<k. n \<le> timers st ! j"
  shows "carries n t d st (tick_loop ease k st) \<and> (\<forall>i\<in>set (timers (tick_loop ease k st)). n \<le> i)"
  using assms
proof (induction ease k st rule: tick_loop.induct)
  case (1 ease k st)
  show ?case
  proof (cases "k < length (timers st)")
    case False
    then have "k = length (timers st)"
      using "1.prems"(3) by simp
    then show ?thesis
      using "1.prems"(4) by (subst (1 2) tick_loop.simps) (auto simp: carries_def in_set_conv_nth)
  next
    case True
    let ?i = "timers st ! k"
    obtain b u where r: "timer_fires ease ?i st = (b, u)"
      by (rule prod.exhaust)
    have "timers_ok st"
      using "1.prems"(1) by (simp add: fx_inv_def)
    then have i: "?i \<in> set (timers st)" "?i < length (anims st)"
      using True timers_okD(2) [of st ?i] by simp_all
    have u: "fx_inv W u" "\<not> b \<Longrightarrow> settled (anims u ! ?i)"
      using inv_fires [OF "1.prems"(1) i(1), of ease] by (simp_all add: r)
    have c: "carries n t d st u"
      using carries_fires [of st t ?i n d ease] i(2) "1.prems"(2) by (simp add: r due_def)
    have t: "timers u ! j = timers st ! j" if "j \<le> k" for j
      using timers_fires(1) [of j st ease ?i] that True by (simp add: r)
    have len: "length (timers st) \<le> length (timers u)"
      using timers_fires(2) [OF True, of ease ?i] by (simp add: r)
    show ?thesis
    proof (cases b)
      case b: True
      then have "n \<le> ?i"
        using due_fires [OF "1.prems"(2), of ?i ease] r by (metis fst_conv not_le)
      then have "\<forall>j<Suc k. n \<le> timers u ! j"
        using "1.prems"(4) t by (auto simp: less_Suc_eq)
      then have "carries n t d u (tick_loop ease (Suc k) u) \<and> (\<forall>i\<in>set (timers (tick_loop ease (Suc k) u)). n \<le> i)"
        using "1.IH"(2) [OF True r [symmetric]] b u(1) c "1.prems"(2) len True by (simp add: carries_def)
      moreover have "tick_loop ease k st = tick_loop ease (Suc k) u"
        using True b by (subst tick_loop.simps) (simp add: r)
      ultimately show ?thesis
        using c carries_trans by metis
    next
      case b: False
      let ?v = "remove_timer k u"
      have v: "fx_inv W ?v" "k \<le> length (timers ?v)" "\<forall>j<k. n \<le> timers ?v ! j"
        using u b t len True "1.prems"(4) inv_remove [of W u k] by (simp_all add: remove_timer_def nth_append)
      have cv: "carries n t d st ?v"
        using c carries_remove carries_trans by blast
      then have "due n t ?v"
        using "1.prems"(2) by (simp add: carries_def)
      then have "carries n t d ?v (tick_loop ease k ?v) \<and> (\<forall>i\<in>set (timers (tick_loop ease k ?v)). n \<le> i)"
        using "1.IH"(1) [OF True r [symmetric]] b t v by simp
      moreover have "tick_loop ease k st = tick_loop ease k ?v"
        using True b t by (subst tick_loop.simps) (simp add: r)
      ultimately show ?thesis
        using cv carries_trans by metis
    qed
  qed
qed

definition drained :: "fx \<Rightarrow> bool" where
  "drained st = (timers st = [] \<and> (\<forall>q\<in>set (queues st). q = []) \<and> \<not> inProgress st)"

lemma no_timers_no_jobs:
  assumes "fx_inv {} st" "timers st = []"
  shows "\<forall>q\<in>set (queues st). q = []"
proof
  fix q
  assume "q \<in> set (queues st)"
  then obtain e where e: "e < length (queues st)" "q = queue_of st e"
    by (auto simp: in_set_conv_nth queue_of_def)
  have "running st e = []"
    using assms by (auto simp: fx_inv_def timers_ok_def running_def filter_empty_conv)
  then show "q = []"
    using assms(1) elem_okD(3) [of "{}" e st] e by (auto simp: fx_inv_def)
qed

lemma tick_drains:
  assumes inv: "fx_inv {} st" and b: "bounded d st" and time: "\<forall>a\<in>set (anims st). startTime a + d \<le> clock st"
  shows "bounded d (fx_tick ease st)" "drained (fx_tick ease st) \<or> jobs (fx_tick ease st) < jobs st"
proof -
  let ?z = "st\<lparr>fxNow := Some (clock st)\<rparr>"
  let ?n = "length (anims st)"
  let ?l = "tick_loop ease 0 ?z"
  have "startTime a + duration a \<le> clock st" if "a \<in> set (anims st)" for a
    using b time that unfolding bounded_def by fastforce
  then have "due ?n (clock st) ?z"
    by (simp add: due_def)
  moreover have "fx_inv {} ?z"
    using inv by (simp add: fx_inv_fxNow)
  ultimately have l: "carries ?n (clock st) d ?z ?l" "\<forall>i\<in>set (timers ?l). ?n \<le> i" "fx_inv {} ?l"
    using tick_loop_due [of "{}" ?z ?n "clock st" 0 d ease] inv_tick_loop by simp_all
  have same: "bounded d (fx_tick ease st) = bounded d ?l" "jobs (fx_tick ease st) = jobs ?l" "timers (fx_tick ease st) = timers ?l"
    "queues (fx_tick ease st) = queues ?l"
    by (simp_all add: fx_tick_def Let_def bounded_def jobs_def)
  show "bounded d (fx_tick ease st)"
  proof -
    have "bounded d ?z"
      using b by (simp add: bounded_def)
    then show ?thesis
      using l(1) unfolding carries_def same by blast
  qed
  show "drained (fx_tick ease st) \<or> jobs (fx_tick ease st) < jobs st"
  proof (cases "timers ?l = []")
    case True
    then have "\<not> inProgress (fx_tick ease st)"
      by (simp add: fx_tick_def Let_def)
    then show ?thesis
      using True no_timers_no_jobs [OF l(3)] by (simp add: drained_def same)
  next
    case False
    then obtain i where i: "i \<in> set (timers ?l)"
      by (cases "timers ?l") auto
    then have "?n \<le> i" "i < length (anims ?l)"
      using l(2,3) by (auto simp: fx_inv_def timers_ok_def)
    then have "?n < length (anims ?l)"
      by simp
    moreover have "jobs ?l + length (anims ?l) = jobs st + ?n"
      using l(1) by (simp add: carries_def)
    ultimately show ?thesis
      by (simp add: same)
  qed
qed


definition rounds :: "nat \<Rightarrow> nat \<Rightarrow> event list" where
  "rounds d n = concat (replicate n [Pass d, Frame])"

lemma fx_run_append: "fx_run ease (evs @ evs') st = fx_run ease evs' (fx_run ease evs st)"
  by (simp add: fx_run_def)

lemma round_drains:
  assumes ok: "fx_ok st" and b: "bounded d st" and one: "ease 1 = 1"
  defines "st' \<equiv> fx_run ease [Pass d, Frame] st"
  shows "fx_ok st'" "bounded d st'" "drained st' \<or> jobs st' < jobs st" "drained st \<Longrightarrow> drained st'"
proof -
  let ?p = "st\<lparr>clock := clock st + d\<rparr>"
  have p: "fx_ok ?p"
    using fx_ok_step [OF ok, of "Pass d" ease] one by simp
  show ok': "fx_ok st'"
    using fx_ok_step [OF p, of Frame ease] one by (simp add: st'_def fx_run_def)
  show "drained st'" if "drained st"
    using that by (simp add: st'_def fx_run_def drained_def schedule_def)
  have "bounded d st' \<and> (drained st' \<or> jobs st' < jobs st)"
  proof (cases "inProgress st")
    case False
    then have "timers st = []"
      using ok by (auto simp: fx_ok_def loops_def)
    moreover from this have "\<forall>q\<in>set (queues st). q = []"
      using ok no_timers_no_jobs by (auto simp: fx_ok_def)
    ultimately show ?thesis
      using False b by (simp add: st'_def fx_run_def schedule_def drained_def bounded_def)
  next
    case True
    then have pend: "0 < pending st"
      using ok by (auto simp: fx_ok_def loops_def)
    let ?z = "?p\<lparr>pending := Suc (pending st - 1)\<rparr>"
    have z: "fx_inv {} ?z" "bounded d ?z" "\<forall>a\<in>set (anims ?z). startTime a + d \<le> clock ?z" "jobs ?z = jobs st"
      using p b ok by (simp_all add: fx_ok_def bounded_def fx_inv_def timers_ok_def jobs_def)
    have "st' = fx_tick ease ?z"
      using True pend by (simp add: st'_def fx_run_def schedule_def)
    then show ?thesis
      using tick_drains [OF z(1-3), of ease] z(4) by simp
  qed
  then show "bounded d st'" "drained st' \<or> jobs st' < jobs st"
    by simp_all
qed

lemma rounds_drain:
  assumes "fx_ok st" "bounded d st" "ease 1 = 1" "drained st \<or> jobs st < n"
  shows "drained (fx_run ease (rounds d n) st)"
  using assms
proof (induction n arbitrary: st)
  case (Suc n)
  let ?s = "fx_run ease [Pass d, Frame] st"
  have "fx_run ease (rounds d (Suc n)) st = fx_run ease (rounds d n) ?s"
    by (simp add: rounds_def fx_run_def)
  moreover note r = round_drains [where ease = ease, OF Suc.prems(1-3)]
  have "drained ?s \<or> jobs ?s < n"
    using r(3,4) Suc.prems(4) by linarith
  ultimately show ?case
    using Suc.IH [OF r(1,2) Suc.prems(3)] by simp
qed (simp add: rounds_def fx_run_def)

section \<open>Properties\<close>



text \<open>
  C15. \<open>finish\<close> on an element leaves its properties with the values that its running animation and then, in order, the
  queued ones were heading for, leaves other elements alone, empties the queue and leaves nothing running.
\<close>

theorem finish_reaches_end:
  assumes "\<forall>ev\<in>set evs. has_props ev" "ease 1 = 1" "st = fx_run ease evs (fx_init n vals t)"
  shows "style (fx_finish ease e st) = (style st)(e := set_values (targets st e) (style st e)) \<and>
    running (fx_finish ease e st) e = [] \<and> queue_of (fx_finish ease e st) e = []"
  using finish_spec [where ease = ease and st = st and e = e] fx_ok_run [where ease = ease, OF assms(1,2), of n vals t] assms(2,3)
  by (simp add: fx_ok_def at_rest_def)

lemma finish_reaches_end_witness:
  "let st = fx_run (\<lambda>x. x) [Animate 0 [(''left'', 5)] 100, Animate 0 [(''left'', 8)] 100, Pass 30, Frame]
      (fx_init 1 (\<lambda>_ _. 0) 7)
   in style (fx_finish (\<lambda>x. x) 0 st) = (style st)(0 := set_values (targets st 0) (style st 0)) \<and>
    running (fx_finish (\<lambda>x. x) 0 st) 0 = [] \<and> queue_of (fx_finish (\<lambda>x. x) 0 st) 0 = []"
  unfolding Let_def by (rule finish_reaches_end [OF _ _ refl]) simp_all

text \<open>
  When no duration exceeds \<open>d\<close>, one frame of the browser after every \<open>d\<close> milliseconds empties all queues: after more
  frames than there are queued animations no timer is left and the loop is off.
\<close>

theorem animations_end:
  assumes "\<forall>ev\<in>set evs. has_props ev" "ease 1 = 1" "st = fx_run ease evs (fx_init n vals t)" "bounded d st" "jobs st < k"
  shows "drained (fx_run ease (rounds d k) st)"
  using rounds_drain [of st d ease k] fx_ok_run [where ease = ease, OF assms(1,2), of n vals t] assms by simp

lemma animations_end_witness:
  "drained (fx_run (\<lambda>x. x) (rounds 100 2) (fx_run (\<lambda>x. x)
    [Animate 0 [(''left'', 5)] 100, Animate 0 [(''left'', 8)] 100] (fx_init 1 (\<lambda>_ _. 0) 7)))"
  by (rule animations_end [OF _ _ refl]) (simp_all, code_simp+)

text \<open>An empty animation starts the next one of the queue while another still runs.\<close>

lemma empty_animation_overtakes:
  "let st = fx_run (\<lambda>x. x) [Animate 0 [(''left'', 5)] 100, Animate 0 [(''left'', 8)] 100, Animate 0 [] 0]
      (fx_init 1 (\<lambda>_ _. 0) 7)
   in running st 0 = [0, 2]"
  by code_simp

lemma loops_pile_up:
  "pending (fx_run (\<lambda>x. x) [Animate 0 [(''left'', 5)] 0, Animate 0 [(''left'', 8)] 0, Animate 0 [(''left'', 9)] 50]
     (fx_init 1 (\<lambda>_ _. 0) 7)) = 3"
  by code_simp

end
