(* ===== verification/JqTraverse.thy ===== *)
theory JqTraverse
  imports JsSort
begin

text \<open>
  Walking over a document in \<open>jquery.js\<close>: sets of nodes with the sets they came from, the loops \<open>dir\<close> and
  \<open>siblings\<close>, the methods made from them, \<open>filter\<close>, \<open>not\<close>, \<open>has\<close>, \<open>closest\<close>, \<open>index\<close>, \<open>find\<close>, and the sort into
  document order.  Nodes are numbered in document order, from the document itself; a node knows its kind
  (\<open>nodeType\<close>) and its parent, and the links between siblings follow.  A selector stands for the predicate the
  selector engine decides.
\<close>

section \<open>Documents\<close>

record page =
  kinds :: "nat list"
  parents :: "nat option list"

definition kind_of :: "page \<Rightarrow> nat \<Rightarrow> nat" where
  "kind_of P n = (if n < length (kinds P) then kinds P ! n else 0)"

definition parent_of :: "page \<Rightarrow> nat \<Rightarrow> nat option" where
  "parent_of P n = (if n < length (parents P) then parents P ! n else None)"

text \<open>Parents come before their children, and documents (kind \<open>9\<close>) have none.\<close>

definition page_ok :: "page \<Rightarrow> bool" where
  "page_ok P = (length (parents P) = length (kinds P) \<and>
     (\<forall>n\<in>set [0..<length (kinds P)]. case parent_of P n of None \<Rightarrow> True | Some p \<Rightarrow> p < n \<and> kind_of P n \<noteq> 9))"

definition nextSibling :: "page \<Rightarrow> nat \<Rightarrow> nat option" where
  "nextSibling P n =
     (case parent_of P n of
        None \<Rightarrow> None
      | Some p \<Rightarrow> List.find (\<lambda>m. parent_of P m = Some p) [Suc n..<length (kinds P)])"

definition prevSibling :: "page \<Rightarrow> nat \<Rightarrow> nat option" where
  "prevSibling P n =
     (case parent_of P n of
        None \<Rightarrow> None
      | Some p \<Rightarrow> List.find (\<lambda>m. parent_of P m = Some p) (rev [0..<n]))"

definition childNodes :: "page \<Rightarrow> nat \<Rightarrow> nat list" where
  "childNodes P n = filter (\<lambda>m. parent_of P m = Some n) [0..<length (kinds P)]"

definition firstChild :: "page \<Rightarrow> nat \<Rightarrow> nat option" where
  "firstChild P n = (case childNodes P n of [] \<Rightarrow> None | c # _ \<Rightarrow> Some c)"

text \<open>The nodes that \<open>elem = elem[ dir ]\<close> goes through; the number of nodes is fuel enough.\<close>

fun chain :: "(nat \<Rightarrow> nat option) \<Rightarrow> nat \<Rightarrow> nat \<Rightarrow> nat list" where
  "chain step 0 n = []"
| "chain step (Suc k) n = (case step n of None \<Rightarrow> [] | Some m \<Rightarrow> m # chain step k m)"

datatype direction = Up | Forward | Back

definition link :: "page \<Rightarrow> direction \<Rightarrow> nat \<Rightarrow> nat option" where
  "link P d = (case d of Up \<Rightarrow> parent_of P | Forward \<Rightarrow> nextSibling P | Back \<Rightarrow> prevSibling P)"

definition nodes_along :: "page \<Rightarrow> direction \<Rightarrow> nat \<Rightarrow> nat list" where
  "nodes_along P d n = chain (link P d) (length (kinds P)) n"

definition contains :: "page \<Rightarrow> nat \<Rightarrow> nat \<Rightarrow> bool" where
  "contains P a b = (a \<in> set (nodes_along P Up b))"

section \<open>Document order\<close>

definition sortOrder :: "nat \<Rightarrow> nat \<Rightarrow> int" where
  "sortOrder a b = (if a = b then 0 else if a < b then -1 else 1)"

fun duplicates :: "nat \<Rightarrow> nat list \<Rightarrow> nat list" where
  "duplicates i (x # y # xs) = (if x = y then i # duplicates (Suc i) (y # xs) else duplicates (Suc i) (y # xs))"
| "duplicates i xs = []"

definition splice_all :: "nat list \<Rightarrow> nat list \<Rightarrow> nat list" where
  "splice_all ds xs = foldr (\<lambda>d xs. take d xs @ drop (Suc d) xs) ds xs"

text \<open>
  \<open>detect\<close> is \<open>support.detectDuplicates\<close>: the comparison is known to meet every pair of equal neighbours, so that
  \<open>hasDuplicate\<close> tells whether there are duplicates.
\<close>

definition uniqueSort :: "bool \<Rightarrow> nat list \<Rightarrow> nat list" where
  "uniqueSort detect results =
     (let hasDuplicate = (\<not> detect \<or> \<not> distinct results);
          sorted = array_sort sortOrder results
      in if hasDuplicate then splice_all (duplicates 0 sorted) sorted else sorted)"

section \<open>Sets of nodes\<close>

datatype jq = JQ (elems: "nat list") (prevObject: "jq option")

definition pushStack :: "jq \<Rightarrow> nat list \<Rightarrow> jq" where
  "pushStack s xs = JQ xs (Some s)"

definition jq_end :: "jq \<Rightarrow> jq" where
  "jq_end s = (case prevObject s of None \<Rightarrow> JQ [] None | Some p \<Rightarrow> p)"

definition jq_get :: "jq \<Rightarrow> int \<Rightarrow> nat option" where
  "jq_get s num =
     (let i = (if num < 0 then num + int (length (elems s)) else num)
      in if 0 \<le> i \<and> i < int (length (elems s)) then Some (elems s ! nat i) else None)"

definition jq_eq :: "jq \<Rightarrow> int \<Rightarrow> jq" where
  "jq_eq s i =
     (let len = int (length (elems s)); j = i + (if i < 0 then len else 0)
      in pushStack s (if j \<ge> 0 \<and> j < len then [elems s ! nat j] else []))"


definition jq_last :: "jq \<Rightarrow> jq" where
  "jq_last s = jq_eq s (-1)"

definition jq_slice :: "jq \<Rightarrow> int \<Rightarrow> int \<Rightarrow> jq" where
  "jq_slice s a b = pushStack s (slice (elems s) a b)"

text \<open>\<open>jQuery.grep\<close> and \<open>jQuery.map\<close> on arrays; a callback that returns an array contributes its items.\<close>

fun grep_from :: "nat \<Rightarrow> (nat \<Rightarrow> nat \<Rightarrow> bool) \<Rightarrow> bool \<Rightarrow> nat list \<Rightarrow> nat list" where
  "grep_from i callback invert [] = []"
| "grep_from i callback invert (x # xs) =
     (let callbackInverse = (\<not> callback x i)
      in if callbackInverse \<noteq> (\<not> invert) then x # grep_from (Suc i) callback invert xs
         else grep_from (Suc i) callback invert xs)"

definition grep :: "nat list \<Rightarrow> (nat \<Rightarrow> nat \<Rightarrow> bool) \<Rightarrow> nat list" where
  "grep xs callback = grep_from 0 callback False xs"

definition jq_map :: "nat list \<Rightarrow> (nat \<Rightarrow> nat list) \<Rightarrow> nat list" where
  "jq_map xs callback = concat (map callback xs)"

section \<open>Filters\<close>

datatype qualifier =
  Test "nat \<Rightarrow> nat \<Rightarrow> bool"  \<comment> \<open>a function of the node and its index\<close>
| Node nat
| Nodes "nat list"
| Simple "nat \<Rightarrow> bool"  \<comment> \<open>a selector that \<open>risSimple\<close> matches\<close>
| Complex "nat \<Rightarrow> bool"

definition jQuery_filter :: "page \<Rightarrow> (nat \<Rightarrow> bool) \<Rightarrow> nat list \<Rightarrow> bool \<Rightarrow> nat list" where
  "jQuery_filter P expr xs invert =
     (let sel = (if invert then (\<lambda>n. \<not> expr n) else expr)
      in case xs of
           [elem] \<Rightarrow>
             if kind_of P elem = 1 then (if sel elem then [elem] else [])
             else filter sel (grep xs (\<lambda>n i. kind_of P n = 1))
         | _ \<Rightarrow> filter sel (grep xs (\<lambda>n i. kind_of P n = 1)))"

definition winnow :: "page \<Rightarrow> nat list \<Rightarrow> qualifier \<Rightarrow> bool \<Rightarrow> nat list" where
  "winnow P xs qualifier invert =
     (case qualifier of
        Test f \<Rightarrow> grep xs (\<lambda>n i. f n i \<noteq> invert)
      | Node m \<Rightarrow> grep xs (\<lambda>n i. (n = m) \<noteq> invert)
      | Nodes ms \<Rightarrow> grep xs (\<lambda>n i. (n \<in> set ms) \<noteq> invert)
      | Simple sel \<Rightarrow> jQuery_filter P sel xs invert
      | Complex sel \<Rightarrow>
          let found = jQuery_filter P sel xs False
          in grep xs (\<lambda>n i. (n \<in> set found) \<noteq> invert \<and> kind_of P n = 1))"

definition jq_filter :: "page \<Rightarrow> jq \<Rightarrow> qualifier \<Rightarrow> jq" where
  "jq_filter P s q = pushStack s (winnow P (elems s) q False)"

definition jq_not :: "page \<Rightarrow> jq \<Rightarrow> qualifier \<Rightarrow> jq" where
  "jq_not P s q = pushStack s (winnow P (elems s) q True)"

definition jq_is :: "page \<Rightarrow> jq \<Rightarrow> qualifier \<Rightarrow> bool" where
  "jq_is P s q = (winnow P (elems s) q False \<noteq> [])"

definition jq_has :: "page \<Rightarrow> jq \<Rightarrow> nat list \<Rightarrow> jq" where
  "jq_has P s targets = jq_filter P s (Test (\<lambda>n i. \<exists>t\<in>set targets. contains P n t))"

section \<open>Walks\<close>

text \<open>\<open>dir\<close>: the elements on the way, up to the document or an element that \<open>until\<close> accepts.\<close>

fun dir_loop :: "page \<Rightarrow> qualifier option \<Rightarrow> nat list \<Rightarrow> nat list" where
  "dir_loop P until [] = []"
| "dir_loop P until (elem # rest) =
     (if kind_of P elem = 9 then []
      else if kind_of P elem = 1 then
        (if (case until of None \<Rightarrow> False | Some q \<Rightarrow> jq_is P (JQ [elem] None) q) then []
         else elem # dir_loop P until rest)
      else dir_loop P until rest)"

definition jq_dir :: "page \<Rightarrow> direction \<Rightarrow> qualifier option \<Rightarrow> nat \<Rightarrow> nat list" where
  "jq_dir P d until elem = dir_loop P until (nodes_along P d elem)"

definition siblings :: "page \<Rightarrow> nat option \<Rightarrow> nat option \<Rightarrow> nat list" where
  "siblings P start elem =
     (case start of
        None \<Rightarrow> []
      | Some n \<Rightarrow> filter (\<lambda>m. kind_of P m = 1 \<and> Some m \<noteq> elem) (n # nodes_along P Forward n))"

definition sibling :: "page \<Rightarrow> direction \<Rightarrow> nat \<Rightarrow> nat option" where
  "sibling P d cur = List.find (\<lambda>m. kind_of P m = 1) (nodes_along P d cur)"

datatype traversal = Parent | Parents | ParentsUntil | Next | Prev | NextAll | PrevAll | NextUntil | PrevUntil | Siblings
  | Children | Contents

definition list_of :: "nat option \<Rightarrow> nat list" where
  "list_of x = (case x of None \<Rightarrow> [] | Some n \<Rightarrow> [n])"

fun traversal_fn :: "page \<Rightarrow> traversal \<Rightarrow> qualifier option \<Rightarrow> nat \<Rightarrow> nat list" where
  "traversal_fn P Parent until elem =
     list_of (case parent_of P elem of None \<Rightarrow> None | Some p \<Rightarrow> if kind_of P p \<noteq> 11 then Some p else None)"
| "traversal_fn P Parents until elem = jq_dir P Up None elem"
| "traversal_fn P ParentsUntil until elem = jq_dir P Up until elem"
| "traversal_fn P Next until elem = list_of (sibling P Forward elem)"
| "traversal_fn P Prev until elem = list_of (sibling P Back elem)"
| "traversal_fn P NextAll until elem = jq_dir P Forward None elem"
| "traversal_fn P PrevAll until elem = jq_dir P Back None elem"
| "traversal_fn P NextUntil until elem = jq_dir P Forward until elem"
| "traversal_fn P PrevUntil until elem = jq_dir P Back until elem"
| "traversal_fn P Siblings until elem =
     siblings P (case parent_of P elem of None \<Rightarrow> None | Some p \<Rightarrow> firstChild P p) (Some elem)"
| "traversal_fn P Children until elem = siblings P (firstChild P elem) None"
| "traversal_fn P Contents until elem = childNodes P elem"

definition guaranteedUnique :: "traversal \<Rightarrow> bool" where
  "guaranteedUnique m = (m \<in> {Children, Contents, Next, Prev})"

definition rparentsprev :: "traversal \<Rightarrow> bool" where
  "rparentsprev m = (m \<in> {Parents, ParentsUntil, PrevUntil, PrevAll})"

definition traverse :: "page \<Rightarrow> bool \<Rightarrow> traversal \<Rightarrow> jq \<Rightarrow> qualifier option \<Rightarrow> (nat \<Rightarrow> bool) option \<Rightarrow> jq" where
  "traverse P detect name s until selector =
     (let matched = jq_map (elems s) (traversal_fn P name until);
          matched = (case selector of None \<Rightarrow> matched | Some sel \<Rightarrow> jQuery_filter P sel matched False);
          matched =
            (if length (elems s) > 1 then
               let m = (if \<not> guaranteedUnique name then uniqueSort detect matched else matched)
               in if rparentsprev name then rev m else m
             else matched)
      in pushStack s matched)"

text \<open>\<open>found\<close> gives what the selector engine finds below a node, in document order.\<close>

definition jq_find :: "bool \<Rightarrow> (nat \<Rightarrow> nat list) \<Rightarrow> jq \<Rightarrow> jq" where
  "jq_find detect found s =
     (let ret = concat (map found (elems s))
      in pushStack s (if length (elems s) > 1 then uniqueSort detect ret else ret))"

definition accepts :: "page \<Rightarrow> qualifier \<Rightarrow> nat \<Rightarrow> bool" where
  "accepts P q cur =
     (case q of
        Nodes targets \<Rightarrow> cur \<in> set targets
      | Node t \<Rightarrow> cur = t
      | Simple sel \<Rightarrow> kind_of P cur = 1 \<and> sel cur
      | Complex sel \<Rightarrow> kind_of P cur = 1 \<and> sel cur
      | Test f \<Rightarrow> False)"

fun closest_loop :: "page \<Rightarrow> nat option \<Rightarrow> qualifier \<Rightarrow> nat list \<Rightarrow> nat list" where
  "closest_loop P context q [] = []"
| "closest_loop P context q (cur # up) =
     (if Some cur = context then []
      else if kind_of P cur < 11 \<and> accepts P q cur then [cur]
      else closest_loop P context q up)"

definition closest :: "page \<Rightarrow> bool \<Rightarrow> nat option \<Rightarrow> qualifier \<Rightarrow> jq \<Rightarrow> jq" where
  "closest P detect context q s =
     (let matched = concat (map (\<lambda>n. closest_loop P context q (n # nodes_along P Up n)) (elems s))
      in pushStack s (if length matched > 1 then uniqueSort detect matched else matched))"

definition indexOf :: "nat list \<Rightarrow> nat \<Rightarrow> int" where
  "indexOf xs x = (case first_pos (\<lambda>y. y = x) xs of None \<Rightarrow> -1 | Some i \<Rightarrow> int i)"


definition index_of_first :: "nat list \<Rightarrow> jq \<Rightarrow> int" where
  "index_of_first others s = (case elems s of [] \<Rightarrow> -1 | n # _ \<Rightarrow> indexOf others n)"

definition jq_add :: "bool \<Rightarrow> jq \<Rightarrow> nat list \<Rightarrow> jq" where
  "jq_add detect s xs = pushStack s (uniqueSort detect (elems s @ xs))"

definition addBack :: "page \<Rightarrow> bool \<Rightarrow> jq \<Rightarrow> qualifier option \<Rightarrow> jq" where
  "addBack P detect s selector =
     jq_add detect s
       (case prevObject s of
          None \<Rightarrow> []
        | Some p \<Rightarrow> (case selector of None \<Rightarrow> elems p | Some q \<Rightarrow> elems (jq_filter P p q)))"

section \<open>The sort\<close>

lemma duplicates_Suc: "duplicates (Suc i) xs = map Suc (duplicates i xs)"
  by (induction i xs rule: duplicates.induct) simp_all

lemma splice_all_Suc: "splice_all (map Suc ds) (x # xs) = x # splice_all ds xs"
  by (induction ds) (simp_all add: splice_all_def)

lemma splice_duplicates: "splice_all (duplicates 0 xs) xs = remdups_adj xs"
proof (induction xs rule: remdups_adj.induct)
  case (3 x y xs)
  have "splice_all (duplicates (Suc 0) (y # xs)) (x # y # xs) = x # splice_all (duplicates 0 (y # xs)) (y # xs)"
    by (simp add: duplicates_Suc splice_all_Suc)
  then show ?case
    using 3 by (cases "x = y") (simp_all, simp add: splice_all_def)
qed (simp_all add: splice_all_def)

lemma sortOrder_consistent: "consistent sortOrder S"
  by (rule consistent_key [where key = id]) (simp add: sortOrder_def)

lemma sorted_by_order: "sorted (array_sort sortOrder xs)"
proof -
  have "sorted_wrt (\<lambda>a b. sortOrder a b \<le> 0) (array_sort sortOrder xs)"
    by (rule asort.sort_sorted) (rule sortOrder_consistent)
  then show ?thesis
    by (rule sorted_wrt_mono_rel [rotated]) (simp add: sortOrder_def split: if_splits)
qed

lemma sorted_remdups_adj: "sorted (xs :: nat list) \<Longrightarrow> sorted (remdups_adj xs) \<and> distinct (remdups_adj xs)"
  by (induction xs rule: remdups_adj.induct) (auto simp: less_le)

lemma uniqueSort_exact: "uniqueSort detect xs = sorted_list_of_set (set xs)"
proof -
  let ?s = "array_sort sortOrder xs"
  have "sorted (uniqueSort detect xs) \<and> distinct (uniqueSort detect xs) \<and> set (uniqueSort detect xs) = set xs"
    using sorted_remdups_adj [OF sorted_by_order, of xs] sorted_by_order [of xs]
      mset_eq_imp_distinct_iff [OF asort.sort_mset, of sortOrder xs]
    by (auto simp: uniqueSort_def Let_def splice_duplicates asort.sort_set)
  then show ?thesis
    by (metis sorted_list_of_set_unique finite_set sorted_list_of_set.idem_if_sorted_distinct)
qed

section \<open>Loops as sets\<close>

lemma grep_from_filter:
  "grep_from i callback False xs = map snd (filter (\<lambda>(k, x). callback x k) (index_from i xs))"
  by (induction xs arbitrary: i) simp_all

lemma grep_plain: "grep xs (\<lambda>n i. p n) = filter p xs"
proof -
  have "grep_from k (\<lambda>n i. p n) False xs = filter p xs" for k
    by (induction xs arbitrary: k) simp_all
  then show ?thesis
    by (simp add: grep_def)
qed

lemma jQuery_filter_plain: "jQuery_filter P expr xs invert = filter (\<lambda>n. kind_of P n = 1 \<and> (expr n \<noteq> invert)) xs"
  by (auto simp: jQuery_filter_def grep_plain Let_def filter_empty_conv split: list.split intro!: filter_cong)


lemma chain_fuel:
  assumes "\<And>a b. step a = Some b \<Longrightarrow> \<mu> b < (\<mu> a :: nat)" "\<mu> n \<le> k" "\<mu> n \<le> k'"
  shows "chain step k n = chain step k' n"
  using assms(2,3)
proof (induction k arbitrary: n k')
  case 0
  then have "step n = None"
    using assms(1) [of n] by (cases "step n") auto
  then show ?case
    by (cases k') simp_all
next
  case (Suc k)
  show ?case
  proof (cases "step n")
    case (Some m)
    then have "\<mu> m < \<mu> n"
      by (rule assms(1))
    then obtain k'' where "k' = Suc k''" "\<mu> m \<le> k" "\<mu> m \<le> k''"
      using Suc.prems by (cases k') auto
    then show ?thesis
      using Suc.IH [of m k''] Some by simp
  qed (cases k'; simp)
qed

lemma find_upt:
  "List.find p [a..<b] = Some m \<Longrightarrow> a \<le> m \<and> m < b \<and> p m \<and> filter p [a..<b] = m # filter p [Suc m..<b]"
  "List.find p [a..<b] = None \<Longrightarrow> filter p [a..<b] = []"
proof (induction "b - a" arbitrary: a)
  case 0
  { case 1 with 0 show ?case by simp }
  { case 2 with 0 show ?case by simp }
next
  case (Suc k)
  have ab: "[a..<b] = a # [Suc a..<b]" "k = b - Suc a" "a < b"
    using Suc.hyps(3) by (simp_all add: upt_conv_Cons)
  { case 1 with ab Suc.hyps(1) [of "Suc a"] show ?case by (auto split: if_splits) }
  { case 2 with ab Suc.hyps(2) [of "Suc a"] show ?case by (auto split: if_splits) }
qed

lemma find_downto:
  "List.find p (rev [0..<n]) = Some m \<Longrightarrow> m < n \<and> p m \<and> filter p (rev [0..<n]) = m # filter p (rev [0..<m])"
  "List.find p (rev [0..<n]) = None \<Longrightarrow> filter p (rev [0..<n]) = []"
  by (induction n) (auto split: if_splits)

lemma parent_less: "page_ok P \<Longrightarrow> parent_of P n = Some p \<Longrightarrow> p < n \<and> n < length (kinds P)"
  by (cases "n < length (kinds P)") (auto simp: page_ok_def parent_of_def split: option.splits)

lemma nodes_along_step:
  assumes "page_ok P"
  shows "nodes_along P d n = (case link P d n of None \<Rightarrow> [] | Some m \<Rightarrow> m # nodes_along P d m)"
proof -
  let ?N = "length (kinds P)"
  obtain \<mu> :: "nat \<Rightarrow> nat" where \<mu>: "\<And>a b. link P d a = Some b \<Longrightarrow> \<mu> b < \<mu> a" "\<And>a. a < ?N \<Longrightarrow> \<mu> a \<le> ?N"
  proof (cases "d = Forward")
    case True
    then show ?thesis
      by (intro that [of "\<lambda>n. ?N - n"]) (auto simp: link_def nextSibling_def dest!: find_upt(1) split: option.splits)
  next
    case False
    then show ?thesis
      using parent_less [OF assms]
      by (intro that [of id]) (cases d; auto simp: link_def prevSibling_def dest!: find_downto(1) split: option.splits)+
  qed
  show ?thesis
  proof (cases "link P d n")
    case None
    then show ?thesis
      by (cases ?N) (simp_all add: nodes_along_def)
  next
    case (Some m)
    then have "parent_of P n \<noteq> None"
      by (cases d) (auto simp: link_def nextSibling_def prevSibling_def split: option.splits)
    then have n: "n < ?N"
      using parent_less [OF assms] by auto
    then obtain k where k: "?N = Suc k"
      by (cases ?N) auto
    have "\<mu> m < \<mu> n" "\<mu> n \<le> ?N"
      using \<mu>(1) [OF Some] \<mu>(2) [OF n] by simp_all
    then have "chain (link P d) k m = chain (link P d) ?N m"
      using k by (intro chain_fuel [where \<mu> = \<mu>]) (use \<mu>(1) in auto)
    then show ?thesis
      using Some k by (simp add: nodes_along_def)
  qed
qed


text \<open>The ways along siblings, and upwards.\<close>

lemma forward_nodes:
  assumes "page_ok P" "parent_of P n = Some p"
  shows "nodes_along P Forward n = filter (\<lambda>m. parent_of P m = Some p) [Suc n..<length (kinds P)]"
  using assms(2)
proof (induction "length (kinds P) - n" arbitrary: n rule: less_induct)
  case less
  show ?case
  proof (cases "nextSibling P n")
    case None
    then show ?thesis
      using less.prems by (simp add: nodes_along_step [OF assms(1), of Forward n] link_def nextSibling_def find_upt(2))
  next
    case (Some m)
    then have m: "Suc n \<le> m" "m < length (kinds P)" "parent_of P m = Some p"
      "filter (\<lambda>m. parent_of P m = Some p) [Suc n..<length (kinds P)] =
        m # filter (\<lambda>m. parent_of P m = Some p) [Suc m..<length (kinds P)]"
      using less.prems find_upt(1) [of "\<lambda>m. parent_of P m = Some p" "Suc n" "length (kinds P)" m]
      by (simp_all add: nextSibling_def)
    then show ?thesis
      using less.hyps [of m] Some by (simp add: nodes_along_step [OF assms(1), of Forward n] link_def)
  qed
qed

lemma backward_nodes:
  assumes "page_ok P" "parent_of P n = Some p"
  shows "nodes_along P Back n = filter (\<lambda>m. parent_of P m = Some p) (rev [0..<n])"
  using assms(2)
proof (induction n rule: less_induct)
  case (less n)
  show ?case
  proof (cases "prevSibling P n")
    case None
    then show ?thesis
      using less.prems find_downto(2) [of "\<lambda>m. parent_of P m = Some p" n]
      by (simp add: nodes_along_step [OF assms(1), of Back n] link_def prevSibling_def)
  next
    case (Some m)
    then have m: "m < n" "parent_of P m = Some p"
      "filter (\<lambda>m. parent_of P m = Some p) (rev [0..<n]) = m # filter (\<lambda>m. parent_of P m = Some p) (rev [0..<m])"
      using less.prems find_downto(1) [of "\<lambda>m. parent_of P m = Some p" n m] by (simp_all add: prevSibling_def)
    then show ?thesis
      using less.IH [of m] Some by (simp add: nodes_along_step [OF assms(1), of Back n] link_def)
  qed
qed

lemma no_siblings:
  assumes "page_ok P" "parent_of P n = None"
  shows "nodes_along P Forward n = []" "nodes_along P Back n = []"
  using assms by (simp_all add: nodes_along_step link_def nextSibling_def prevSibling_def)

definition child_parent :: "page \<Rightarrow> (nat \<times> nat) set" where
  "child_parent P = {(n, p). parent_of P n = Some p}"

lemma up_nodes:
  assumes "page_ok P"
  shows "nodes_along P Up n = (case parent_of P n of None \<Rightarrow> [] | Some p \<Rightarrow> p # nodes_along P Up p)"
  by (subst nodes_along_step [OF assms]) (simp add: link_def)

lemma trancl_step: "(n, m) \<in> r\<^sup>+ \<longleftrightarrow> (\<exists>p. (n, p) \<in> r \<and> (m = p \<or> (p, m) \<in> r\<^sup>+))"
  by (metis converse_tranclE r_into_trancl trancl_into_trancl2)

lemma ancestors:
  assumes "page_ok P"
  shows "m \<in> set (nodes_along P Up n) \<longleftrightarrow> (n, m) \<in> (child_parent P)\<^sup>+"
proof (induction n rule: less_induct)
  case (less n)
  show ?case
  proof (cases "parent_of P n")
    case None
    then have "(n, m) \<notin> (child_parent P)\<^sup>+"
      by (auto simp: child_parent_def dest: tranclD)
    then show ?thesis
      using None by (simp add: up_nodes [OF assms, of n])
  next
    case (Some p)
    then have "(n, m) \<in> (child_parent P)\<^sup>+ \<longleftrightarrow> m = p \<or> (p, m) \<in> (child_parent P)\<^sup>+"
      using trancl_step [of n m "child_parent P"] by (auto simp: child_parent_def)
    then show ?thesis
      using Some less.IH [of p] parent_less [OF assms Some] by (simp add: up_nodes [OF assms, of n])
  qed
qed

definition ahead :: "direction \<Rightarrow> nat \<Rightarrow> nat \<Rightarrow> bool" where
  "ahead d u m = (if d = Forward then u < m else m < u)"

lemma document_no_parent:
  assumes "page_ok P" "kind_of P n = 9"
  shows "parent_of P n = None"
proof (cases "n < length (kinds P)")
  case True
  then have "n \<in> set [0..<length (kinds P)]"
    by simp
  with assms show ?thesis
    unfolding page_ok_def by (cases "parent_of P n") fastforce+
next
  case False
  with assms(1) show ?thesis
    by (simp add: page_ok_def parent_of_def)
qed

lemma nodes_in_order:
  assumes "page_ok P"
  shows "sorted_wrt (\<lambda>u m. ahead d u m \<and> kind_of P u \<noteq> 9) (nodes_along P d n)"
proof (cases d)
  case Up
  have "sorted_wrt (\<lambda>u m. m < u \<and> kind_of P u \<noteq> 9) (n # nodes_along P Up n)" for n
  proof (induction n rule: less_induct)
    case (less n)
    show ?case
    proof (cases "parent_of P n")
      case (Some p)
      then have "p < n" "sorted_wrt (\<lambda>u m. m < u \<and> kind_of P u \<noteq> 9) (p # nodes_along P Up p)" "kind_of P n \<noteq> 9"
        using less.IH parent_less [OF assms Some] document_no_parent [OF assms, of n] by auto
      then show ?thesis
        by (simp add: up_nodes [OF assms, of n] Some) (use order.strict_trans in blast)
    qed (simp add: up_nodes [OF assms, of n])
  qed
  from this [of n] show ?thesis
    by (simp add: Up ahead_def)
next
  case Forward
  show ?thesis
  proof (cases "parent_of P n")
    case (Some p)
    have "sorted_wrt (\<lambda>u m. u < m) (filter (\<lambda>m. parent_of P m = Some p) [Suc n..<length (kinds P)])"
      by (intro sorted_wrt_filter) simp
    then show ?thesis
      using document_no_parent [OF assms]
      by (simp add: Forward forward_nodes [OF assms Some] ahead_def) (rule sorted_wrt_mono_rel [rotated], assumption, auto)
  qed (simp add: Forward no_siblings [OF assms])
next
  case Back
  show ?thesis
  proof (cases "parent_of P n")
    case (Some p)
    have "sorted_wrt (\<lambda>u m. m < u) (filter (\<lambda>m. parent_of P m = Some p) (rev [0..<n]))"
      by (intro sorted_wrt_filter) (simp add: sorted_wrt_rev)
    then show ?thesis
      using document_no_parent [OF assms]
      by (simp add: Back backward_nodes [OF assms Some] ahead_def) (rule sorted_wrt_mono_rel [rotated], assumption, auto)
  qed (simp add: Back no_siblings [OF assms])
qed

text \<open>The nodes on the way from \<open>n\<close>, without loops.\<close>

definition way :: "page \<Rightarrow> direction \<Rightarrow> nat \<Rightarrow> nat \<Rightarrow> bool" where
  "way P d n m =
     (if d = Up then (n, m) \<in> (child_parent P)\<^sup>+
      else parent_of P n \<noteq> None \<and> parent_of P m = parent_of P n \<and> ahead d n m)"

lemma way_nodes:
  assumes "page_ok P"
  shows "set (nodes_along P d n) = {m. way P d n m}"
proof (cases "d = Up")
  case True
  then show ?thesis
    using ancestors [OF assms] by (auto simp: way_def)
next
  case False
  show ?thesis
  proof (cases "parent_of P n")
    case None
    then show ?thesis
      using False no_siblings [OF assms None] by (cases d) (auto simp: way_def)
  next
    case (Some p)
    then show ?thesis
      using False forward_nodes [OF assms Some] backward_nodes [OF assms Some] parent_less [OF assms]
      by (cases d) (auto simp: way_def ahead_def)
  qed
qed

lemma takeWhile_sorted:
  assumes "sorted_wrt lt xs" "\<And>u m. lt u m \<Longrightarrow> \<not> lt m u"
  shows "m \<in> set (takeWhile Q xs) \<longleftrightarrow> m \<in> set xs \<and> Q m \<and> (\<forall>u\<in>set xs. lt u m \<longrightarrow> Q u)"
  using assms(1)
proof (induction xs)
  case (Cons x xs)
  then have "\<not> lt x x" "\<And>y. y \<in> set xs \<Longrightarrow> lt x y \<and> \<not> lt y x"
    using assms(2) by auto
  with Cons show ?case
    by auto
qed simp

definition stops :: "page \<Rightarrow> qualifier option \<Rightarrow> nat \<Rightarrow> bool" where
  "stops P until m = (kind_of P m = 1 \<and> (case until of None \<Rightarrow> False | Some q \<Rightarrow> jq_is P (JQ [m] None) q))"

lemma dir_loop_filter:
  "dir_loop P until xs =
    filter (\<lambda>m. kind_of P m = 1) (takeWhile (\<lambda>m. kind_of P m \<noteq> 9 \<and> \<not> stops P until m) xs)"
  by (induction xs) (simp_all add: stops_def)

text \<open>An element on the way, with nothing that stops the walk up to it.\<close>

definition reached :: "page \<Rightarrow> direction \<Rightarrow> qualifier option \<Rightarrow> nat \<Rightarrow> nat \<Rightarrow> bool" where
  "reached P d until n m =
     (way P d n m \<and> kind_of P m = 1 \<and> \<not> stops P until m \<and> (\<forall>u. way P d n u \<and> ahead d u m \<longrightarrow> \<not> stops P until u))"

lemma dir_reached:
  assumes "page_ok P"
  shows "set (jq_dir P d until n) = {m. reached P d until n m}" "sorted_wrt (ahead d) (jq_dir P d until n)"
proof -
  have s: "sorted_wrt (ahead d) (nodes_along P d n)"
    using nodes_in_order [OF assms] by (rule sorted_wrt_mono_rel [rotated]) simp
  have doc: "kind_of P u \<noteq> 9" if "u \<in> set (nodes_along P d n)" "m \<in> set (nodes_along P d n)" "ahead d u m" for u m
  proof -
    note h = that
    obtain i j where ij: "i < length (nodes_along P d n)" "j < length (nodes_along P d n)"
      "u = nodes_along P d n ! i" "m = nodes_along P d n ! j"
      using h(1,2) by (auto simp: in_set_conv_nth)
    have "i < j"
    proof (rule ccontr)
      assume "\<not> i < j"
      then have "u = m \<or> ahead d m u"
        using ij s by (cases "i = j") (auto simp: sorted_wrt_iff_nth_less)
      with h(3) show False
        by (auto simp: ahead_def split: if_splits)
    qed
    with ij nodes_in_order [OF assms, of d n] show ?thesis
      by (auto simp: sorted_wrt_iff_nth_less)
  qed
  have asym: "ahead d u m \<Longrightarrow> \<not> ahead d m u" for u m
    by (auto simp: ahead_def split: if_splits)
  have "set (jq_dir P d until n) =
    {m. kind_of P m = 1 \<and> m \<in> set (nodes_along P d n) \<and> (kind_of P m \<noteq> 9 \<and> \<not> stops P until m) \<and>
      (\<forall>u\<in>set (nodes_along P d n). ahead d u m \<longrightarrow> kind_of P u \<noteq> 9 \<and> \<not> stops P until u)}"
    unfolding jq_dir_def dir_loop_filter using takeWhile_sorted [OF s asym] by auto
  also have "\<dots> = {m. reached P d until n m}"
    using doc by (auto simp: reached_def way_nodes [OF assms])
  finally show "set (jq_dir P d until n) = {m. reached P d until n m}" .
  show "sorted_wrt (ahead d) (jq_dir P d until n)"
    unfolding jq_dir_def dir_loop_filter
    by (intro sorted_wrt_filter sorted_wrt_takeWhile s)
qed


lemma find_first:
  assumes "sorted_wrt lt xs" "\<And>u m. lt u m \<Longrightarrow> \<not> lt m u"
  shows "List.find p xs = Some m \<longleftrightarrow> m \<in> set xs \<and> p m \<and> (\<forall>u\<in>set xs. lt u m \<longrightarrow> \<not> p u)"
  using assms(1)
proof (induction xs)
  case (Cons x xs)
  then have "\<not> lt x x" "\<And>y. y \<in> set xs \<Longrightarrow> lt x y \<and> \<not> lt y x"
    using assms(2) by auto
  with Cons show ?case
    by auto
qed simp

lemma children_nodes:
  assumes "page_ok P" "firstChild P n = Some c"
  shows "c # nodes_along P Forward c = childNodes P n"
proof -
  obtain r where r: "childNodes P n = c # r"
    using assms(2) by (auto simp: firstChild_def split: list.splits)
  then have "c \<in> set (childNodes P n)"
    by simp
  then have c: "parent_of P c = Some n" "c < length (kinds P)"
    by (simp_all add: childNodes_def)
  have "[0..<length (kinds P)] = [0..<c] @ c # [Suc c..<length (kinds P)]"
    using c(2) by (metis upt_add_eq_append less_imp_add_positive upt_conv_Cons le_add1 add_0)
  moreover have "filter (\<lambda>m. parent_of P m = Some n) [0..<c] = []"
  proof (rule ccontr)
    assume "filter (\<lambda>m. parent_of P m = Some n) [0..<c] \<noteq> []"
    then obtain x xs where x: "filter (\<lambda>m. parent_of P m = Some n) [0..<c] = x # xs"
      by (cases "filter (\<lambda>m. parent_of P m = Some n) [0..<c]") auto
    then have "x = c"
      using r calculation by (simp add: childNodes_def)
    moreover have "x < c"
      using arg_cong [OF x, of set] by auto
    ultimately show False
      by simp
  qed
  ultimately show ?thesis
    using c(1) forward_nodes [OF assms(1) c(1)] by (simp add: childNodes_def)
qed

lemma siblings_children:
  assumes "page_ok P"
  shows "siblings P (firstChild P n) elem = filter (\<lambda>m. kind_of P m = 1 \<and> Some m \<noteq> elem) (childNodes P n)"
proof (cases "firstChild P n")
  case None
  then show ?thesis
    by (simp add: siblings_def firstChild_def split: list.splits)
next
  case (Some c)
  then show ?thesis
    using children_nodes [OF assms Some] by (simp add: siblings_def del: filter.simps)
qed

text \<open>The relations that the methods follow, without loops.\<close>

fun related :: "page \<Rightarrow> traversal \<Rightarrow> qualifier option \<Rightarrow> nat \<Rightarrow> nat \<Rightarrow> bool" where
  "related P Parent until n m = (parent_of P n = Some m \<and> kind_of P m \<noteq> 11)"
| "related P Parents until n m = reached P Up None n m"
| "related P ParentsUntil until n m = reached P Up until n m"
| "related P Next until n m = (way P Forward n m \<and> kind_of P m = 1 \<and> (\<forall>u. way P Forward n u \<and> u < m \<longrightarrow> kind_of P u \<noteq> 1))"
| "related P Prev until n m = (way P Back n m \<and> kind_of P m = 1 \<and> (\<forall>u. way P Back n u \<and> m < u \<longrightarrow> kind_of P u \<noteq> 1))"
| "related P NextAll until n m = reached P Forward None n m"
| "related P PrevAll until n m = reached P Back None n m"
| "related P NextUntil until n m = reached P Forward until n m"
| "related P PrevUntil until n m = reached P Back until n m"
| "related P Siblings until n m = (parent_of P n \<noteq> None \<and> parent_of P m = parent_of P n \<and> m \<noteq> n \<and> kind_of P m = 1)"
| "related P Children until n m = (parent_of P m = Some n \<and> kind_of P m = 1)"
| "related P Contents until n m = (parent_of P m = Some n)"

definition direction_of :: "traversal \<Rightarrow> direction" where
  "direction_of name = (if rparentsprev name then Back else Forward)"

lemma sibling_related:
  assumes "page_ok P"
  shows "set (list_of (sibling P d n)) = {m. way P d n m \<and> kind_of P m = 1 \<and> (\<forall>u. way P d n u \<and> ahead d u m \<longrightarrow> kind_of P u \<noteq> 1)}"
proof -
  have s: "sorted_wrt (ahead d) (nodes_along P d n)"
    using nodes_in_order [OF assms] by (rule sorted_wrt_mono_rel [rotated]) simp
  have asym: "ahead d u m \<Longrightarrow> \<not> ahead d m u" for u m
    by (auto simp: ahead_def split: if_splits)
  have "m \<in> set (list_of (sibling P d n)) \<longleftrightarrow> sibling P d n = Some m" for m
    by (cases "sibling P d n") (auto simp: list_of_def)
  then show ?thesis
    using find_first [OF s asym, where p = "\<lambda>m. kind_of P m = 1"] by (auto simp: sibling_def way_nodes [OF assms])
qed

lemma traversal_fn_related:
  assumes "page_ok P"
  shows "set (traversal_fn P name until n) = {m. related P name until n m}"
proof (cases name)
  case Siblings
  then show ?thesis
    using parent_less [OF assms]
    by (cases "parent_of P n") (auto simp: siblings_children [OF assms] childNodes_def, simp add: siblings_def)
next
  case Children
  then show ?thesis
    using parent_less [OF assms] by (auto simp: siblings_children [OF assms] childNodes_def)
next
  case Contents
  then show ?thesis
    using parent_less [OF assms] by (auto simp: childNodes_def)
next
  case Parent
  then show ?thesis
    by (auto simp: list_of_def split: option.splits)
next
  case Next
  then show ?thesis
    by (simp add: sibling_related [OF assms] ahead_def)
next
  case Prev
  then show ?thesis
    by (simp add: sibling_related [OF assms] ahead_def)
qed (simp_all add: dir_reached [OF assms])

lemma traversal_fn_order:
  assumes "page_ok P"
  shows "sorted_wrt (ahead (direction_of name)) (traversal_fn P name until n)"
proof -
  have "ahead Up = ahead Back"
    by (auto simp: ahead_def fun_eq_iff)
  moreover have fil: "sorted_wrt (ahead Forward) (filter p (childNodes P n))" for p n
  proof -
    have "ahead Forward = (<)"
      by (simp add: ahead_def fun_eq_iff)
    then show ?thesis
      unfolding childNodes_def by (simp add: sorted_wrt_filter)
  qed
  moreover have "sorted_wrt (ahead Forward) (siblings P (firstChild P p) e)" for p e
    unfolding siblings_children [OF assms] by (rule fil)
  moreover have "sorted_wrt (ahead Forward) (childNodes P n)"
    using fil [of "\<lambda>m. True"] by simp
  moreover have "sorted_wrt R (list_of x)" for R x
    by (simp add: list_of_def split: option.split)
  moreover have "siblings P None e = []" for e
    by (simp add: siblings_def)
  ultimately show ?thesis
    using dir_reached(2) [OF assms, of Up None n] dir_reached(2) [OF assms, of Up until n] dir_reached(2) [OF assms]
    by (cases name; cases "parent_of P n"; simp add: direction_of_def rparentsprev_def del: filter.simps)
qed

text \<open>What the selector given to a method lets through.\<close>

definition wanted :: "page \<Rightarrow> (nat \<Rightarrow> bool) option \<Rightarrow> nat \<Rightarrow> bool" where
  "wanted P selector m = (case selector of None \<Rightarrow> True | Some sel \<Rightarrow> kind_of P m = 1 \<and> sel m)"

definition matched_nodes :: "page \<Rightarrow> traversal \<Rightarrow> jq \<Rightarrow> qualifier option \<Rightarrow> (nat \<Rightarrow> bool) option \<Rightarrow> nat list" where
  "matched_nodes P name s until selector =
     filter (wanted P selector) (concat (map (traversal_fn P name until) (elems s)))"

lemma traverse_matched:
  "elems (traverse P detect name s until selector) =
     (let xs = matched_nodes P name s until selector;
          ys = (if guaranteedUnique name then xs else sorted_list_of_set (set xs))
      in if length (elems s) > 1 then (if rparentsprev name then rev ys else ys) else xs)"
proof -
  have "filter (wanted P None) = (\<lambda>xs. xs)" "wanted P (Some f) = (\<lambda>n. kind_of P n = 1 \<and> f n)" for f
    by (simp_all add: wanted_def fun_eq_iff)
  then show ?thesis
    by (cases selector) (simp_all add: traverse_def matched_nodes_def jq_map_def Let_def pushStack_def uniqueSort_exact
      jQuery_filter_plain)
qed

lemma set_matched:
  assumes "page_ok P"
  shows "set (matched_nodes P name s until selector) =
    {m. (\<exists>n\<in>set (elems s). related P name until n m) \<and> wanted P selector m}"
  using traversal_fn_related [OF assms] by (auto simp: matched_nodes_def)

lemma short_sorted: "length xs \<le> 1 \<Longrightarrow> sorted_list_of_set (set xs) = (xs :: nat list)"
  by (cases xs) simp_all


text \<open>\<open>closest\<close>: the first node from \<open>n\<close> upwards that is accepted, below the context.\<close>

definition good :: "page \<Rightarrow> qualifier \<Rightarrow> nat \<Rightarrow> bool" where
  "good P q m = (kind_of P m < 11 \<and> accepts P q m)"

definition nearest :: "page \<Rightarrow> nat option \<Rightarrow> qualifier \<Rightarrow> nat \<Rightarrow> nat \<Rightarrow> bool" where
  "nearest P limit q n m =
     ((m = n \<or> way P Up n m) \<and> good P q m \<and> limit \<noteq> Some m \<and>
      (\<forall>u. (u = n \<or> way P Up n u) \<and> m < u \<longrightarrow> limit \<noteq> Some u \<and> \<not> good P q u))"

lemma closest_loop_first:
  assumes "sorted_wrt (\<lambda>u m. m < u) xs"
  shows "set (closest_loop P limit q xs) =
    {m \<in> set xs. good P q m \<and> limit \<noteq> Some m \<and> (\<forall>u\<in>set xs. m < u \<longrightarrow> limit \<noteq> Some u \<and> \<not> good P q u)}"
  using assms
proof (induction xs)
  case (Cons x xs)
  then have "\<forall>y\<in>set xs. y < x" "\<not> x < x"
    by simp_all
  with Cons show ?case
    by (auto simp: good_def dest: order.asym)
qed simp

lemma closest_loop_nearest:
  assumes "page_ok P"
  shows "set (closest_loop P limit q (n # nodes_along P Up n)) = {m. nearest P limit q n m}"
proof -
  have "sorted_wrt (ahead Up) (nodes_along P Up n)"
    using nodes_in_order [OF assms] by (rule sorted_wrt_mono_rel [rotated]) simp
  moreover have "m < n" if "m \<in> set (nodes_along P Up n)" for m
    using that
  proof (induction n rule: less_induct)
    case (less n)
    then obtain p where p: "parent_of P n = Some p" "m = p \<or> m \<in> set (nodes_along P Up p)"
      by (cases "parent_of P n") (simp_all add: up_nodes [OF assms, of n])
    then show ?case
      using less.IH [of p] parent_less [OF assms p(1)] by auto
  qed
  moreover have "ahead Up = (\<lambda>u m. m < u)"
    by (simp add: ahead_def fun_eq_iff)
  ultimately have "sorted_wrt (\<lambda>u m. m < u) (n # nodes_along P Up n)"
    by simp
  from closest_loop_first [OF this] show ?thesis
    by (auto simp: nearest_def way_nodes [OF assms])
qed

definition by_selector :: "qualifier \<Rightarrow> bool" where
  "by_selector q = (case q of Simple sel \<Rightarrow> True | Complex sel \<Rightarrow> True | _ \<Rightarrow> False)"

lemma grep_partition:
  "mset (grep xs (\<lambda>n i. f n i \<noteq> False)) + mset (grep xs (\<lambda>n i. f n i \<noteq> True)) = mset xs"
proof -
  have "mset (grep_from k (\<lambda>n i. f n i \<noteq> False) False xs) + mset (grep_from k (\<lambda>n i. f n i \<noteq> True) False xs) = mset xs" for k
    by (induction xs arbitrary: k) simp_all
  then show ?thesis
    by (simp add: grep_def)
qed

text \<open>
  A document with a paragraph, a text and a paragraph in its body.
\<close>

definition paragraph_page :: page where
  "paragraph_page = \<lparr>kinds = [9, 1, 1, 3, 1], parents = [None, Some 0, Some 1, Some 1, Some 1]\<rparr>"

lemma paragraph_page_ok: "page_ok paragraph_page"
  by code_simp

text \<open>\<open>next\<close> is listed as giving unique sets, but from a text and the element before it the same element is found twice.\<close>

lemma next_finds_twice:
  "elems (traverse paragraph_page True Next (JQ [2, 3] None) None None) = [4, 4]"
proof -
  have "nodes_along paragraph_page Forward 2 = [3, 4]" "nodes_along paragraph_page Forward 3 = [4]"
    by code_simp+
  then show ?thesis
    by (simp add: traverse_def jq_map_def sibling_def list_of_def pushStack_def guaranteedUnique_def rparentsprev_def
      kind_of_def paragraph_page_def)
qed

section \<open>Properties\<close>




text \<open>
  \<open>next\<close>, \<open>prev\<close> and \<open>children\<close> of distinct elements, and \<open>contents\<close>, give exactly the related nodes, each once.
\<close>

theorem unique_from_elements:
  assumes "page_ok P" "guaranteedUnique name" "distinct (elems s)" "\<forall>n\<in>set (elems s). kind_of P n = 1"
  shows "distinct (elems (traverse P detect name s until selector)) \<and>
    set (elems (traverse P detect name s until selector)) =
      {m. (\<exists>n\<in>set (elems s). related P name until n m) \<and> wanted P selector m}"
proof -
  have one: "distinct (traversal_fn P name until n)" for n
  proof -
    have "sorted_wrt (\<lambda>u m. u \<noteq> m) (traversal_fn P name until n)"
      using traversal_fn_order [OF assms(1)] by (rule sorted_wrt_mono_rel [rotated]) (auto simp: ahead_def split: if_splits)
    then show ?thesis
      by (simp add: distinct_conv_nth sorted_wrt_iff_nth_less) (metis nat_neq_iff)
  qed
  have apart: "n = n'" if "n \<in> set (elems s)" "n' \<in> set (elems s)" "related P name until n m" "related P name until n' m" for n n' m
  proof -
    have "kind_of P n = 1" "kind_of P n' = 1"
      using assms(4) that(1,2) by blast+
    then show ?thesis
      using assms(2) that(3,4) by (cases name) (force simp: guaranteedUnique_def way_def ahead_def not_less_iff_gr_or_eq)+
  qed
  have "distinct (concat (map (traversal_fn P name until) xs))" if "distinct xs" "set xs \<subseteq> set (elems s)" for xs
    using that
  proof (induction xs)
    case (Cons x xs)
    moreover have "set (traversal_fn P name until x) \<inter> set (traversal_fn P name until y) = {}" if "y \<in> set xs" for y
      using apart [of x y] that Cons.prems by (auto simp: traversal_fn_related [OF assms(1)])
    ultimately show ?case
      using one by auto
  qed simp
  then have "distinct (matched_nodes P name s until selector)"
    using assms(3) by (simp add: matched_nodes_def)
  moreover have "\<not> rparentsprev name"
    using assms(2) by (cases name) (simp_all add: guaranteedUnique_def rparentsprev_def)
  ultimately show ?thesis
    using assms(2) by (simp add: traverse_matched set_matched [OF assms(1)] Let_def)
qed

lemma unique_from_elements_witness:
  "distinct (elems (traverse paragraph_page True Next (JQ [2, 4] None) None None)) \<and>
   set (elems (traverse paragraph_page True Next (JQ [2, 4] None) None None)) =
     {m. (\<exists>n\<in>set [2, 4]. related paragraph_page Next None n m) \<and> wanted paragraph_page None m}"
  using unique_from_elements [OF paragraph_page_ok, of Next "JQ [2, 4] None" True None None]
  by (simp add: guaranteedUnique_def) (simp add: kind_of_def paragraph_page_def)

text \<open>
  C19. \<open>closest\<close> gives for each node of the set the nearest node from it upwards, itself included, that is accepted
  below the context: each once and in document order.
\<close>

theorem closest_exact:
  assumes "page_ok P"
  shows "elems (closest P detect limit q s) = sorted_list_of_set {m. \<exists>n\<in>set (elems s). nearest P limit q n m}"
proof -
  let ?m = "concat (map (\<lambda>n. closest_loop P limit q (n # nodes_along P Up n)) (elems s))"
  have set: "set ?m = {m. \<exists>n\<in>set (elems s). nearest P limit q n m}"
    unfolding set_concat set_map image_image closest_loop_nearest [OF assms] by auto
  show ?thesis
  proof (cases "length ?m > 1")
    case True
    then show ?thesis
      unfolding closest_def Let_def pushStack_def uniqueSort_exact set [symmetric] by simp
  next
    case False
    then have "?m = sorted_list_of_set (set ?m)"
      by (intro short_sorted [symmetric]) linarith
    then show ?thesis
      using False unfolding closest_def Let_def pushStack_def set [symmetric] by simp
  qed
qed

lemma closest_exact_witness:
  "elems (closest paragraph_page True None (Nodes [0, 1]) (JQ [4, 2] None)) =
    sorted_list_of_set {m. \<exists>n\<in>set [4, 2]. nearest paragraph_page None (Nodes [0, 1]) n m}"
  using closest_exact [OF paragraph_page_ok, of True None "Nodes [0, 1]" "JQ [4, 2] None"] by simp

text \<open>
  \<open>filter\<close> and \<open>not\<close> with the same argument share out the nodes of the set between them; with a selector, its
  elements only.
\<close>

theorem filter_not_partition:
  "mset (elems (jq_filter P s q)) + mset (elems (jq_not P s q)) =
    mset (filter (\<lambda>n. by_selector q \<longrightarrow> kind_of P n = 1) (elems s))"
proof (cases q)
  case (Test f)
  then show ?thesis
    using grep_partition [of "elems s" f] by (simp add: jq_filter_def jq_not_def pushStack_def winnow_def by_selector_def)
next
  case (Node m)
  then show ?thesis
    using grep_partition [of "elems s" "\<lambda>n i. n = m"] by (simp add: jq_filter_def jq_not_def pushStack_def winnow_def by_selector_def)
next
  case (Nodes ms)
  then show ?thesis
    using grep_partition [of "elems s" "\<lambda>n i. n \<in> set ms"]
    by (simp add: jq_filter_def jq_not_def pushStack_def winnow_def by_selector_def)
next
  case (Simple sel)
  have "mset (filter (\<lambda>n. kind_of P n = 1 \<and> sel n) xs) + mset (filter (\<lambda>n. kind_of P n = 1 \<and> \<not> sel n) xs) =
    mset (filter (\<lambda>n. kind_of P n = 1) xs)" for xs
    by (induction xs) auto
  then show ?thesis
    by (simp add: Simple jq_filter_def jq_not_def pushStack_def winnow_def by_selector_def jQuery_filter_plain)
next
  case (Complex sel)
  have "mset (filter (\<lambda>n. n \<in> A \<and> kind_of P n = 1) xs) + mset (filter (\<lambda>n. n \<notin> A \<and> kind_of P n = 1) xs) =
    mset (filter (\<lambda>n. kind_of P n = 1) xs)" for xs A
    by (induction xs) auto
  then show ?thesis
    by (simp add: Complex jq_filter_def jq_not_def pushStack_def winnow_def by_selector_def grep_plain Let_def)
qed



text \<open>\<open>end\<close> undoes every method that makes a new set.\<close>

lemma end_undoes: "jq_end (pushStack s xs) = s"
  by (simp add: jq_end_def pushStack_def)

lemma find_union:
  assumes "\<And>n. sorted (found n)" "\<And>n. distinct (found n)"
  shows "elems (jq_find detect found s) = sorted_list_of_set (\<Union>n\<in>set (elems s). set (found n))"
proof (cases "length (elems s) > 1")
  case True
  then show ?thesis
    by (simp add: jq_find_def pushStack_def uniqueSort_exact)
next
  case False
  then consider "elems s = []" | n where "elems s = [n]"
    by (cases "elems s") auto
  then show ?thesis
    using assms by cases (simp_all add: jq_find_def pushStack_def sorted_list_of_set.idem_if_sorted_distinct)
qed

end
