(* ===== verification/JqForm.thy ===== *)
theory JqForm
  imports JqMatch JsObject
begin

text \<open>
  Attributes, properties and the values of form controls in \<open>jquery.js\<close>: \<open>attr\<close> with the hooks for \<open>type\<close> and for
  boolean attributes, \<open>removeAttr\<close>, the names and the hook of \<open>prop\<close>, \<open>val\<close> with its hooks for options, selects,
  radio buttons and checkboxes, \<open>serializeArray\<close>, and \<open>access\<close>, which spreads a method over a set.  Elements are
  those of an HTML document, so names of attributes are kept in lower case; names are ASCII.
\<close>

section \<open>Elements\<close>

record opt =
  value_attr :: "string option"
  opt_text :: string
  opt_selected :: bool
  opt_disabled :: bool
  group_disabled :: bool  \<comment> \<open>its parent is a disabled \<open>optgroup\<close>\<close>

record control =
  nodeType :: nat
  nodeName :: string
  type_prop :: "string option"  \<comment> \<open>the property \<open>type\<close>\<close>
  name_prop :: string
  attrs :: "string obj"
  value_prop :: "string option"
  checked :: bool
  disabled :: bool
  href :: bool
  content :: string  \<comment> \<open>the text of the element\<close>
  options :: "opt list"

definition getAttribute :: "control \<Rightarrow> string \<Rightarrow> string option" where
  "getAttribute e name = obj_get (attrs e) (to_lower name)"

definition setAttribute :: "string \<Rightarrow> string \<Rightarrow> control \<Rightarrow> control" where
  "setAttribute name v e = e\<lparr>attrs := obj_put (attrs e) (to_lower name) v\<rparr>"

definition removeAttribute :: "string \<Rightarrow> control \<Rightarrow> control" where
  "removeAttribute name e = e\<lparr>attrs := obj_delete (attrs e) (to_lower name)\<rparr>"

section \<open>Attributes\<close>

datatype attr_value = VNull | VBool bool | VText string

definition text_of_value :: "attr_value \<Rightarrow> string" where
  "text_of_value v = (case v of VNull \<Rightarrow> ''null'' | VBool b \<Rightarrow> if b then ''true'' else ''false'' | VText s \<Rightarrow> s)"

definition is_boolean :: "string \<Rightarrow> bool" where
  "is_boolean name = (to_lower name \<in> set booleans)"

definition removeAttr :: "string \<Rightarrow> control \<Rightarrow> control" where
  "removeAttr v e = (if nodeType e = 1 then fold removeAttribute (rnothtmlwhite v) e else e)"

text \<open>The handle of boolean attributes: the name itself when the attribute is there.\<close>

definition bool_handle :: "control \<Rightarrow> string \<Rightarrow> string option" where
  "bool_handle e name = (if getAttribute e name \<noteq> None then Some (to_lower name) else None)"

definition find_attr :: "control \<Rightarrow> string \<Rightarrow> string option" where
  "find_attr e name = (if is_boolean name then bool_handle e name else getAttribute e name)"

definition text_like :: "control \<Rightarrow> bool" where
  "text_like e = (nodeType e \<in> {3, 8, 2})"

definition attr_get :: "control \<Rightarrow> string \<Rightarrow> string option" where
  "attr_get e name = (if text_like e then None else find_attr e name)"

text \<open>
  \<open>radioValue\<close> is \<open>support.radioValue\<close>; where it is false, an input that becomes a radio button has its value
  replaced by \<open>lost\<close>.
\<close>

definition set_type :: "bool \<Rightarrow> string \<Rightarrow> string \<Rightarrow> control \<Rightarrow> control" where
  "set_type radioValue lost v e =
     (let e1 = (setAttribute ''type'' v e)\<lparr>type_prop := Some v\<rparr>
      in if \<not> radioValue \<and> v = ''radio'' \<and> to_lower (nodeName e) = ''input'' then e1\<lparr>value_prop := Some lost\<rparr> else e1)"

definition type_hook :: "bool \<Rightarrow> string \<Rightarrow> attr_value \<Rightarrow> control \<Rightarrow> control option" where
  "type_hook radioValue lost v e =
     (if \<not> radioValue \<and> v = VText ''radio'' \<and> to_lower (nodeName e) = ''input''
      then
        let e1 = set_type radioValue lost ''radio'' e
        in Some (case value_prop e of
             Some (c # s) \<Rightarrow> e1\<lparr>value_prop := Some (c # s)\<rparr>
           | _ \<Rightarrow> e1)
      else None)"

definition boolHook :: "attr_value \<Rightarrow> string \<Rightarrow> control \<Rightarrow> control" where
  "boolHook v name e = (if v = VBool False then removeAttr name e else setAttribute name name e)"

definition attr_set :: "bool \<Rightarrow> string \<Rightarrow> string \<Rightarrow> attr_value \<Rightarrow> control \<Rightarrow> control" where
  "attr_set radioValue lost name v e =
     (if text_like e then e
      else if v = VNull then removeAttr name e
      else if to_lower name = ''type'' then
        (case type_hook radioValue lost v e of Some e' \<Rightarrow> e' | None \<Rightarrow> set_type radioValue lost (text_of_value v) e)
      else if is_boolean name then boolHook v name e
      else setAttribute name (text_of_value v) e)"

section \<open>Properties\<close>

definition camel_names :: "string list" where
  "camel_names = [''tabIndex'', ''readOnly'', ''maxLength'', ''cellSpacing'', ''cellPadding'', ''rowSpan'', ''colSpan'',
     ''useMap'', ''frameBorder'', ''contentEditable'']"

definition propFix :: "string \<Rightarrow> string" where
  "propFix name =
     (case map_of ([(''for'', ''htmlFor''), (''class'', ''className'')] @ map (\<lambda>n. (to_lower n, n)) camel_names) name of
        Some n \<Rightarrow> n
      | None \<Rightarrow> name)"

text \<open>\<open>parseInt( text, 10 )\<close>; \<open>None\<close> is \<open>NaN\<close>.\<close>

fun digits :: "int \<Rightarrow> string \<Rightarrow> int" where
  "digits n [] = n"
| "digits n (c # s) =
     (let k = of_char c :: int in if 48 \<le> k \<and> k \<le> 57 then digits (10 * n + (k - 48)) s else n)"

definition starts_digit :: "string \<Rightarrow> bool" where
  "starts_digit s = (case s of [] \<Rightarrow> False | c # _ \<Rightarrow> 48 \<le> (of_char c :: int) \<and> (of_char c :: int) \<le> 57)"

definition parse_int :: "string \<Rightarrow> int option" where
  "parse_int s =
     (case dropWhile is_space s of
        [] \<Rightarrow> None
      | c # r \<Rightarrow>
          if c = CHR ''-'' then (if starts_digit r then Some (- digits 0 r) else None)
          else if c = CHR ''+'' then (if starts_digit r then Some (digits 0 r) else None)
          else if starts_digit (c # r) then Some (digits 0 (c # r)) else None)"

definition tab_index :: "control \<Rightarrow> int option" where
  "tab_index e =
     (case find_attr e ''tabindex'' of
        Some (c # s) \<Rightarrow> parse_int (c # s)
      | _ \<Rightarrow>
          if to_lower (nodeName e) \<in> {''input'', ''select'', ''textarea'', ''button''} \<or>
             to_lower (nodeName e) \<in> {''a'', ''area''} \<and> href e
          then Some 0 else Some (-1))"

section \<open>Values\<close>

definition option_value :: "opt \<Rightarrow> string" where
  "option_value x = (case value_attr x of Some v \<Rightarrow> v | None \<Rightarrow> stripAndCollapse (opt_text x))"

definition selectedIndex :: "opt list \<Rightarrow> int" where
  "selectedIndex os = (case first_pos opt_selected os of None \<Rightarrow> -1 | Some i \<Rightarrow> int i)"

definition usable :: "opt \<Rightarrow> bool" where
  "usable x = (\<not> opt_disabled x \<and> \<not> group_disabled x)"

datatype val_result = NoValue | Text string | Texts "string list"

text \<open>The loop of \<open>select.get\<close> over the options from \<open>i\<close> to \<open>max\<close>.\<close>

fun select_loop :: "int \<Rightarrow> opt list \<Rightarrow> nat \<Rightarrow> string list" where
  "select_loop index [] i = []"
| "select_loop index (x # os) i =
     (if (opt_selected x \<or> int i = index) \<and> usable x then option_value x # select_loop index os (Suc i)
      else select_loop index os (Suc i))"

definition select_get :: "bool \<Rightarrow> opt list \<Rightarrow> val_result" where
  "select_get one os =
     (let index = selectedIndex os
      in if index < 0 then (if one then NoValue else Texts [])
         else if one then
           (case select_loop index [os ! nat index] (nat index) of v # _ \<Rightarrow> Text v | [] \<Rightarrow> NoValue)
         else Texts (select_loop index os 0))"

text \<open>
  The browser keeps one option of a drop-down list selected: choosing one clears the others, and clearing the last
  one chooses the first option that is not disabled.
\<close>

definition choose_first :: "opt list \<Rightarrow> opt list" where
  "choose_first os =
     (case first_pos (\<lambda>x. \<not> opt_disabled x) os of None \<Rightarrow> os | Some i \<Rightarrow> os[i := (os ! i)\<lparr>opt_selected := True\<rparr>])"

definition set_selected :: "bool \<Rightarrow> nat \<Rightarrow> bool \<Rightarrow> opt list \<Rightarrow> opt list" where
  "set_selected one i b os =
     (if \<not> one then os[i := (os ! i)\<lparr>opt_selected := b\<rparr>]
      else if b then (map (\<lambda>x. x\<lparr>opt_selected := False\<rparr>) os)[i := (os ! i)\<lparr>opt_selected := True\<rparr>]
      else
        let os1 = os[i := (os ! i)\<lparr>opt_selected := False\<rparr>]
        in if \<exists>x\<in>set os1. opt_selected x then os1 else choose_first os1)"

fun select_set_loop :: "bool \<Rightarrow> string list \<Rightarrow> nat \<Rightarrow> bool \<Rightarrow> opt list \<Rightarrow> bool \<times> opt list" where
  "select_set_loop one values 0 optionSet os = (optionSet, os)"
| "select_set_loop one values (Suc i) optionSet os =
     (let b = (option_value (os ! i) \<in> set values)
      in select_set_loop one values i (b \<or> optionSet) (set_selected one i b os))"

definition select_set :: "bool \<Rightarrow> string list \<Rightarrow> opt list \<Rightarrow> opt list" where
  "select_set one values os =
     (case select_set_loop one values (length os) False os of
        (optionSet, os1) \<Rightarrow> if optionSet then os1 else map (\<lambda>x. x\<lparr>opt_selected := False\<rparr>) os1)"

datatype hook = OptionHook | SelectHook | CheckHook

definition hook_named :: "string \<Rightarrow> hook option" where
  "hook_named k =
     (if k = ''option'' then Some OptionHook
      else if k = ''select'' then Some SelectHook
      else if k = ''radio'' \<or> k = ''checkbox'' then Some CheckHook
      else None)"

definition val_hook :: "control \<Rightarrow> hook option" where
  "val_hook e =
     (case (case type_prop e of None \<Rightarrow> None | Some t \<Rightarrow> hook_named t) of
        Some h \<Rightarrow> Some h
      | None \<Rightarrow> hook_named (to_lower (nodeName e)))"

definition is_one :: "control \<Rightarrow> bool" where
  "is_one e = (type_prop e = Some ''select-one'')"

text \<open>\<open>checkOn\<close> is \<open>support.checkOn\<close>.\<close>

definition plain_value :: "control \<Rightarrow> val_result" where
  "plain_value e = (case value_prop e of Some s \<Rightarrow> Text (filter (\<lambda>c. c \<noteq> CHR 0x0D) s) | None \<Rightarrow> Text [])"

definition val_get :: "bool \<Rightarrow> control \<Rightarrow> val_result" where
  "val_get checkOn e =
     (case val_hook e of
        Some OptionHook \<Rightarrow>
          Text (case find_attr e ''value'' of Some v \<Rightarrow> v | None \<Rightarrow> stripAndCollapse (content e))
      | Some SelectHook \<Rightarrow> select_get (is_one e) (options e)
      | Some CheckHook \<Rightarrow>
          if checkOn then plain_value e
          else if getAttribute e ''value'' = None then Text ''on''
          else (case value_prop e of Some s \<Rightarrow> Text s | None \<Rightarrow> plain_value e)
      | None \<Rightarrow> plain_value e)"

datatype val_arg = ANull | AText string | AList "string option list"

definition arg_texts :: "string option list \<Rightarrow> string list" where
  "arg_texts vs = map (\<lambda>v. case v of None \<Rightarrow> [] | Some s \<Rightarrow> s) vs"

definition result_text :: "val_result \<Rightarrow> string option" where
  "result_text r = (case r of Text s \<Rightarrow> Some s | _ \<Rightarrow> None)"

definition val_set :: "bool \<Rightarrow> val_arg \<Rightarrow> control \<Rightarrow> control" where
  "val_set checkOn v e =
     (if nodeType e \<noteq> 1 then e
      else
        let texts = (case v of ANull \<Rightarrow> [[]] | AText s \<Rightarrow> [s] | AList vs \<Rightarrow> arg_texts vs);
            assigned = e\<lparr>value_prop := Some (join '','' texts)\<rparr>
        in case val_hook e of
             Some SelectHook \<Rightarrow> e\<lparr>options := select_set (is_one e) texts (options e)\<rparr>
           | Some CheckHook \<Rightarrow>
               (case v of
                  AList vs \<Rightarrow>
                    e\<lparr>checked := (case result_text (val_get checkOn e) of None \<Rightarrow> False | Some s \<Rightarrow> s \<in> set texts)\<rparr>
                | _ \<Rightarrow> assigned)
           | _ \<Rightarrow> assigned)"

section \<open>Serialisation\<close>

text \<open>\<open>replace( /\r?\n/g, "\r\n" )\<close>\<close>

fun crlf :: "string \<Rightarrow> string" where
  "crlf [] = []"
| "crlf (c # s) =
     (if c = CHR 0x0D then
        (case s of
           d # r \<Rightarrow> if d = CHR 0x0A then CHR 0x0D # CHR 0x0A # crlf r else c # crlf s
         | [] \<Rightarrow> [c])
      else if c = CHR 0x0A then CHR 0x0D # CHR 0x0A # crlf s
      else c # crlf s)"

definition rsubmittable :: "string \<Rightarrow> bool" where
  "rsubmittable s =
     (\<exists>p\<in>set [''input'', ''select'', ''textarea'', ''keygen'']. take (length p) (to_lower s) = p)"

definition rsubmitterTypes :: "string \<Rightarrow> bool" where
  "rsubmitterTypes s = (to_lower s \<in> {''submit'', ''button'', ''image'', ''reset'', ''file''})"

definition rcheckableType :: "string \<Rightarrow> bool" where
  "rcheckableType s = (to_lower s \<in> {''checkbox'', ''radio''})"

definition submitted :: "control \<Rightarrow> bool" where
  "submitted e =
     (let type = (case type_prop e of None \<Rightarrow> ''undefined'' | Some t \<Rightarrow> t)
      in name_prop e \<noteq> [] \<and> \<not> disabled e \<and> rsubmittable (nodeName e) \<and> \<not> rsubmitterTypes type \<and>
         (checked e \<or> \<not> rcheckableType type))"

definition entries_of :: "bool \<Rightarrow> control \<Rightarrow> (string \<times> string) list" where
  "entries_of checkOn e =
     (case val_get checkOn e of
        NoValue \<Rightarrow> []
      | Texts vs \<Rightarrow> map (\<lambda>v. (name_prop e, crlf v)) vs
      | Text v \<Rightarrow> [(name_prop e, crlf v)])"

datatype form_node = Form "control list" | Control control

definition serializeArray :: "bool \<Rightarrow> form_node list \<Rightarrow> (string \<times> string) list" where
  "serializeArray checkOn nodes =
     (let all = concat (map (\<lambda>n. case n of Form es \<Rightarrow> es | Control e \<Rightarrow> [e]) nodes)
      in concat (map (entries_of checkOn) (filter submitted all)))"

section \<open>Access\<close>

text \<open>\<open>access\<close> when it sets: a value for all, or a function of the index and the current value.\<close>

datatype 'v setter = Raw 'v | Computed "nat \<Rightarrow> 'v option \<Rightarrow> 'v"

fun access_loop :: "('e \<Rightarrow> 'v option) \<Rightarrow> ('v \<Rightarrow> 'e \<Rightarrow> 'e) \<Rightarrow> 'v setter \<Rightarrow> nat \<Rightarrow> 'e list \<Rightarrow> 'e list" where
  "access_loop get put v i [] = []"
| "access_loop get put v i (e # es) =
     put (case v of Raw x \<Rightarrow> x | Computed f \<Rightarrow> f i (get e)) e # access_loop get put v (Suc i) es"

definition access_set :: "(string \<Rightarrow> 'e \<Rightarrow> 'v option) \<Rightarrow> (string \<Rightarrow> 'v \<Rightarrow> 'e \<Rightarrow> 'e) \<Rightarrow> string \<Rightarrow> 'v setter \<Rightarrow> 'e list \<Rightarrow> 'e list" where
  "access_set get put key v es = access_loop (get key) (put key) v 0 es"

definition access_map :: "(string \<Rightarrow> 'e \<Rightarrow> 'v option) \<Rightarrow> (string \<Rightarrow> 'v \<Rightarrow> 'e \<Rightarrow> 'e) \<Rightarrow> (string \<times> 'v setter) list \<Rightarrow> 'e list \<Rightarrow> 'e list" where
  "access_map get put kvs es = fold (\<lambda>(key, v) es. access_set get put key v es) kvs es"

definition access_get :: "(string \<Rightarrow> 'e \<Rightarrow> 'v option) \<Rightarrow> string \<Rightarrow> 'e list \<Rightarrow> 'v option" where
  "access_get get key es = (case es of [] \<Rightarrow> None | e # _ \<Rightarrow> get key e)"

section \<open>Selects\<close>

abbreviation clear :: "opt \<Rightarrow> opt" where
  "clear x \<equiv> x\<lparr>opt_selected := False\<rparr>"

abbreviation hit :: "string list \<Rightarrow> opt \<Rightarrow> bool" where
  "hit values x \<equiv> option_value x \<in> set values"

definition pick :: "nat \<Rightarrow> opt list \<Rightarrow> opt list" where
  "pick k os = (map clear os)[k := (os ! k)\<lparr>opt_selected := True\<rparr>]"

lemma option_value_selected [simp]: "option_value (x\<lparr>opt_selected := b\<rparr>) = option_value x"
  by (simp add: option_value_def split: option.split)

lemma usable_selected [simp]: "usable (x\<lparr>opt_selected := b\<rparr>) = usable x"
  by (simp add: usable_def)

lemma multi_loop:
  assumes "n \<le> length os"
  shows "select_set_loop False values n b os =
    (b \<or> (\<exists>x\<in>set (take n os). hit values x),
     map (\<lambda>x. x\<lparr>opt_selected := hit values x\<rparr>) (take n os) @ drop n os)"
  using assms
proof (induction n arbitrary: b os)
  case (Suc n)
  let ?os = "os[n := (os ! n)\<lparr>opt_selected := hit values (os ! n)\<rparr>]"
  have "take (Suc n) os = take n os @ [os ! n]" "drop n ?os = (os ! n)\<lparr>opt_selected := hit values (os ! n)\<rparr> # drop (Suc n) os"
    "take n ?os = take n os"
    using Suc.prems by (simp_all add: take_Suc_conv_app_nth Cons_nth_drop_Suc [symmetric])
  then show ?case
    using Suc.IH [of ?os "hit values (os ! n) \<or> b"] Suc.prems by (auto simp: set_selected_def Let_def)
qed simp

lemma select_loop_filter:
  assumes "index = selectedIndex os"
  shows "select_loop index os 0 = map option_value (filter (\<lambda>x. opt_selected x \<and> usable x) os)"
proof -
  have "select_loop index (drop i os) i = map option_value (filter (\<lambda>x. opt_selected x \<and> usable x) (drop i os))" if "i \<le> length os" for i
    using that
  proof (induction "length os - i" arbitrary: i)
    case (Suc k)
    then have d: "drop i os = os ! i # drop (Suc i) os" "i < length os"
      by (simp_all add: Cons_nth_drop_Suc)
    have "int i = index \<Longrightarrow> opt_selected (os ! i)"
      using assms by (auto simp: selectedIndex_def first_pos_Some split: option.splits)
    moreover have "select_loop index (drop (Suc i) os) (Suc i) =
      map option_value (filter (\<lambda>x. opt_selected x \<and> usable x) (drop (Suc i) os))"
      using Suc.hyps(2) d(2) by (intro Suc.hyps(1)) simp_all
    ultimately show ?case
      by (auto simp: d(1))
  qed simp
  from this [of 0] show ?thesis
    by simp
qed

lemma length_pick [simp]: "length (pick k os) = length os"
  by (simp add: pick_def)

lemma nth_pick:
  "j < length os \<Longrightarrow> pick k os ! j = (os ! j)\<lparr>opt_selected := (j = k)\<rparr>"
  by (cases "j = k") (simp_all add: pick_def)

lemma pick_pick: "j < length os \<Longrightarrow> k < length os \<Longrightarrow> pick j (pick k os) = pick j os"
  by (rule nth_equalityI) (simp_all add: nth_pick)

lemma pick_same:
  assumes "map clear os' = map clear os" "k < length os"
  shows "pick k os' = pick k os"
proof (rule nth_equalityI)
  have l: "length os' = length os"
    using arg_cong [OF assms(1), of length] by simp
  then show "length (pick k os') = length (pick k os)"
    by simp
  fix j
  assume "j < length (pick k os')"
  then have j: "j < length os" "j < length os'"
    using l by simp_all
  then have "clear (os' ! j) = clear (os ! j)"
    using arg_cong [OF assms(1), of "\<lambda>xs. xs ! j"] by simp
  then have "(clear (os' ! j))\<lparr>opt_selected := (j = k)\<rparr> = (clear (os ! j))\<lparr>opt_selected := (j = k)\<rparr>"
    by simp
  then show "pick k os' ! j = pick k os ! j"
    using j by (simp add: nth_pick)
qed

lemma set_selected_pick:
  assumes "i < k" "k < length os"
  shows "set_selected True i False (pick k os) = pick k os"
proof -
  have "(pick k os)[i := (pick k os ! i)\<lparr>opt_selected := False\<rparr>] = pick k os"
    using assms by (simp add: nth_pick list_update_same_conv)
  moreover have "opt_selected (pick k os ! k)" "pick k os ! k \<in> set (pick k os)"
    using assms nth_mem [of k "pick k os"] by (simp_all add: nth_pick)
  ultimately show ?thesis
    by (auto simp: set_selected_def Let_def)
qed

lemma set_selected_true: "i < length os \<Longrightarrow> set_selected True i True os = pick i os"
  by (simp add: set_selected_def pick_def)

lemma first_pos_snoc:
  "first_pos P (xs @ [x]) = (case first_pos P xs of Some j \<Rightarrow> Some j | None \<Rightarrow> if P x then Some (length xs) else None)"
  by (induction xs) (simp_all split: option.split)

lemma first_pos_take_Suc:
  "n < length xs \<Longrightarrow> first_pos P (take (Suc n) xs) =
    (case first_pos P (take n xs) of Some j \<Rightarrow> Some j | None \<Rightarrow> if P (xs ! n) then Some n else None)"
  by (simp add: take_Suc_conv_app_nth first_pos_snoc split: option.split)

lemma one_loop_picked:
  assumes "n \<le> k" "k < length os"
  shows "select_set_loop True values n True (pick k os) =
    (True, pick (case first_pos (hit values) (take n os) of Some j \<Rightarrow> j | None \<Rightarrow> k) os)"
  using assms
proof (induction n arbitrary: k)
  case (Suc n)
  then have n: "n < length os" "n < k"
    by simp_all
  show ?case
  proof (cases "hit values (os ! n)")
    case True
    then have "select_set_loop True values (Suc n) True (pick k os) = select_set_loop True values n True (pick n os)"
      using n Suc.prems by (simp add: nth_pick Let_def set_selected_true pick_pick)
    then show ?thesis
      using Suc.IH [of n] n True by (simp add: first_pos_take_Suc split: option.split)
  next
    case False
    then have "select_set_loop True values (Suc n) True (pick k os) = select_set_loop True values n True (pick k os)"
      using n Suc.prems by (simp add: nth_pick Let_def set_selected_pick)
    then show ?thesis
      using Suc.IH [of k] n Suc.prems False by (simp add: first_pos_take_Suc split: option.split)
  qed
qed (simp add: first_pos_None [THEN iffD2])


lemma clear_update: "map clear (xs[i := (xs ! i)\<lparr>opt_selected := b\<rparr>]) = map clear xs"
proof (cases "i < length xs")
  case True
  then have "map clear (xs[i := (xs ! i)\<lparr>opt_selected := b\<rparr>]) = (map clear xs)[i := map clear xs ! i]"
    by (simp add: map_update)
  then show ?thesis
    by simp
qed (simp add: list_update_beyond)

lemma one_loop_start:
  assumes "n \<le> length os" "map clear os = map clear os0"
  obtains os1 where
    "select_set_loop True values n False os = (first_pos (hit values) (take n os0) \<noteq> None, os1)"
    "map clear os1 = map clear os0"
    "\<And>j. first_pos (hit values) (take n os0) = Some j \<Longrightarrow> os1 = pick j os0"
proof -
  have len: "length os = length os0"
    using arg_cong [OF assms(2), of length] by simp
  have hits: "hit values (os ! i) = hit values (os0 ! i)" if "i < length os" for i
    using arg_cong [OF assms(2), of "\<lambda>xs. option_value (xs ! i)"] that len by simp
  have "\<exists>os1. select_set_loop True values n False os = (first_pos (hit values) (take n os0) \<noteq> None, os1) \<and>
    map clear os1 = map clear os0 \<and> (\<forall>j. first_pos (hit values) (take n os0) = Some j \<longrightarrow> os1 = pick j os0)"
    using assms len hits
  proof (induction n arbitrary: os)
    case (Suc n)
    have n: "n < length os" "n < length os0"
      using Suc.prems(1,3) by simp_all
    show ?case
    proof (cases "hit values (os0 ! n)")
      case True
      then have "select_set_loop True values (Suc n) False os = select_set_loop True values n True (pick n os)"
        using n Suc.prems(4) by (simp add: Let_def set_selected_true)
      also have "\<dots> = (True, pick (case first_pos (hit values) (take n os) of Some j \<Rightarrow> j | None \<Rightarrow> n) os)"
        using n by (intro one_loop_picked) simp_all
      also have "first_pos (hit values) (take n os) = first_pos (hit values) (take n os0)"
      proof -
        have "map (hit values) (take n os) = map (hit values) (take n os0)"
          using Suc.prems n by (intro nth_equalityI) simp_all
        moreover have "first_pos P xs = first_pos id (map P xs)" for P :: "opt \<Rightarrow> bool" and xs
          by (induction xs) simp_all
        ultimately show ?thesis
          by metis
      qed
      finally have "select_set_loop True values (Suc n) False os =
        (True, pick (case first_pos (hit values) (take n os0) of Some j \<Rightarrow> j | None \<Rightarrow> n) os)" .
      moreover have "pick j os = pick j os0" if "j \<le> n" for j
        using that n Suc.prems(2) by (intro pick_same) simp_all
      moreover have "j \<le> n" if "first_pos (hit values) (take n os0) = Some j" for j
        using that by (simp add: first_pos_Some)
      moreover have "map clear (pick j os0) = map clear os0" if "j \<le> n" for j
        using that n by (intro nth_equalityI) (simp_all add: nth_pick)
      ultimately show ?thesis
        using n True by (auto simp: first_pos_take_Suc split: option.split)
    next
      case False
      define os' where "os' = set_selected True n False os"
      have c: "map clear (choose_first xs) = map clear xs" for xs
        by (simp add: choose_first_def clear_update split: option.split)
      have "map clear (os[n := clear (os ! n)]) = map clear os"
        by (rule clear_update)
      then have os': "map clear os' = map clear os0"
        using Suc.prems(2) by (simp add: os'_def set_selected_def Let_def c)
      then have l: "length os' = length os0"
        by (metis length_map)
      have h: "hit values (os' ! i) = hit values (os0 ! i)" if "i < length os'" for i
        using arg_cong [OF os', of "\<lambda>xs. option_value (xs ! i)"] that l by simp
      have loop: "select_set_loop True values (Suc n) False os = select_set_loop True values n False os'"
        using False n Suc.prems(4) by (simp add: os'_def Let_def)
      have fp: "first_pos (hit values) (take (Suc n) os0) = first_pos (hit values) (take n os0)"
        using False n by (simp add: first_pos_take_Suc split: option.split)
      show ?thesis
        unfolding loop fp by (rule Suc.IH) (use os' l n h in simp_all)
    qed
  qed (simp add: first_pos_None [THEN iffD2])
  then show ?thesis
    using that by blast
qed

lemma no_options_selected: "selectedIndex (map clear os) = -1"
  by (simp add: selectedIndex_def first_pos_None [THEN iffD2])

section \<open>Properties\<close>

text \<open>
  The value of a select just set: of a list of choices, the values of the options that are not disabled and whose
  value was given, in the order of the options; of a drop-down list, the value of the first option whose value was
  given, unless it is disabled.
\<close>

theorem select_set_get:
  "select_get False (select_set False values os) =
     Texts (map option_value (filter (\<lambda>x. option_value x \<in> set values \<and> usable x) os)) \<and>
   select_get True (select_set True values os) =
     (case List.find (\<lambda>x. option_value x \<in> set values) os of
        Some x \<Rightarrow> if usable x then Text (option_value x) else NoValue
      | None \<Rightarrow> NoValue)"
proof (rule conjI)
  let ?sel = "map (\<lambda>x. x\<lparr>opt_selected := hit values x\<rparr>) os"
  have "select_set False values os = ?sel"
    by (auto simp: select_set_def multi_loop)
  moreover have "select_get False ?sel = Texts (select_loop (selectedIndex ?sel) ?sel 0)"
  proof (cases "selectedIndex ?sel < 0")
    case True
    then have "filter (\<lambda>x. opt_selected x \<and> usable x) ?sel = []"
      by (auto simp: selectedIndex_def first_pos_None filter_empty_conv split: option.splits)
    then show ?thesis
      using True by (simp add: select_get_def select_loop_filter [OF refl])
  qed (simp add: select_get_def)
  ultimately show "select_get False (select_set False values os) =
      Texts (map option_value (filter (\<lambda>x. hit values x \<and> usable x) os))"
    by (simp add: select_loop_filter [OF refl] filter_map o_def)
next
  obtain os1 where os1: "select_set_loop True values (length os) False os = (first_pos (hit values) os \<noteq> None, os1)"
    "map clear os1 = map clear os" "\<And>j. first_pos (hit values) os = Some j \<Longrightarrow> os1 = pick j os"
    by (rule one_loop_start [of "length os" os os "values"]) simp_all
  show "select_get True (select_set True values os) =
    (case List.find (hit values) os of Some x \<Rightarrow> if usable x then Text (option_value x) else NoValue | None \<Rightarrow> NoValue)"
  proof (cases "first_pos (hit values) os")
    case None
    then have "select_set True values os = map clear os" "List.find (hit values) os = None"
      using os1 by (simp_all add: select_set_def first_pos_None find_None_iff)
    then show ?thesis
      by (simp add: select_get_def no_options_selected)
  next
    case (Some j)
    then have j: "j < length os" "hit values (os ! j)" "\<forall>k<j. \<not> hit values (os ! k)"
      by (simp_all add: first_pos_Some)
    then have find: "List.find (hit values) os = Some (os ! j)"
      by (auto simp: find_Some_iff)
    have "first_pos opt_selected (pick j os) = Some j"
      using j by (simp add: first_pos_Some nth_pick)
    then have "selectedIndex (pick j os) = int j"
      by (simp add: selectedIndex_def)
    moreover have "select_set True values os = pick j os"
      using Some os1 by (simp add: select_set_def)
    ultimately show ?thesis
      using j(1) by (simp add: select_get_def Let_def nth_pick find)
  qed
qed

lemma rnothtmlwhite_word:
  assumes "\<forall>c\<in>set w. \<not> html_space c" "w \<noteq> []"
  shows "rnothtmlwhite w = [w]"
proof -
  have "tokens_loop cur w = (if cur @ w = [] then [] else [cur @ w])" for cur
    using assms(1) by (induction w arbitrary: cur) auto
  then show ?thesis
    using assms(2) by (simp add: rnothtmlwhite_def)
qed

lemma boolean_word:
  assumes "is_boolean name"
  shows "rnothtmlwhite name = [name]"
proof (rule rnothtmlwhite_word)
  have "to_lower name \<in> set booleans"
    using assms by (simp add: is_boolean_def)
  moreover have "list_all (\<lambda>w. w \<noteq> [] \<and> list_all (\<lambda>c. \<not> html_space c) w) booleans"
    by code_simp
  ultimately have w: "to_lower name \<noteq> []" "\<forall>c\<in>set (to_lower name). \<not> html_space c"
    by (auto simp: list_all_iff)
  then show "name \<noteq> []"
    by (auto simp: to_lower_def)
  have "lower_char c = c" if "html_space c" for c
    using that by (auto simp: html_space_def lower_char_def)
  then show "\<forall>c\<in>set name. \<not> html_space c"
    using w(2) by (force simp: to_lower_def)
qed

lemma getAttribute_set: "getAttribute (setAttribute n v e) m = (if to_lower m = to_lower n then Some v else getAttribute e m)"
  by (simp add: getAttribute_def setAttribute_def obj_simps)

lemma getAttribute_remove: "getAttribute (removeAttribute n e) m = (if to_lower m = to_lower n then None else getAttribute e m)"
  by (simp add: getAttribute_def removeAttribute_def obj_simps)

lemma nodeType_frame [simp]:
  "nodeType (setAttribute n v e) = nodeType e" "nodeType (removeAttribute n e) = nodeType e"
  by (simp_all add: setAttribute_def removeAttribute_def)

lemma removeAttr_get:
  assumes "nodeType e = 1"
  shows "getAttribute (removeAttr v e) m =
    (if to_lower m \<in> to_lower ` set (rnothtmlwhite v) then None else getAttribute e m)"
proof -
  have "getAttribute (fold removeAttribute ns e) m = (if to_lower m \<in> to_lower ` set ns then None else getAttribute e m)" for ns
    by (induction ns arbitrary: e) (auto simp: getAttribute_remove)
  then show ?thesis
    using assms by (simp add: removeAttr_def)
qed

lemma nodeType_removeAttr [simp]: "nodeType (removeAttr v e) = nodeType e"
proof -
  have "nodeType (fold removeAttribute ns e) = nodeType e" for ns
    by (induction ns arbitrary: e) simp_all
  then show ?thesis
    by (simp add: removeAttr_def)
qed

text \<open>
  Setting an attribute of an element: a text is read back, and only that attribute changes; a boolean attribute is
  read back as its own name, and is gone when set to \<open>false\<close>; with \<open>null\<close> every attribute is gone that the name
  lists.
\<close>

theorem attr_set_get:
  assumes "nodeType e = 1" "to_lower name \<noteq> ''type''"
  shows "attr_get (attr_set rv lost name v e) m =
    (if v = VNull then (if to_lower m \<in> to_lower ` set (rnothtmlwhite name) then None else attr_get e m)
     else if to_lower m \<noteq> to_lower name then attr_get e m
     else if is_boolean name then (if v = VBool False then None else Some (to_lower name))
     else Some (text_of_value v))"
proof -
  have b: "is_boolean m = is_boolean name" if "to_lower m = to_lower name"
    using that by (simp add: is_boolean_def)
  show ?thesis
    using assms b boolean_word [of name]
    by (auto simp: attr_get_def attr_set_def text_like_def find_attr_def bool_handle_def boolHook_def getAttribute_set
      removeAttr_get)
qed

definition text_field :: control where
  "text_field = \<lparr>nodeType = 1, nodeName = ''INPUT'', type_prop = Some ''text'', name_prop = ''q'', attrs = [],
     value_prop = Some ''a'', checked = False, disabled = False, href = False, content = [], options = []\<rparr>"

lemma attr_set_get_witness:
  "attr_get (attr_set True [] ''Checked'' (VBool True) text_field) ''checked'' = Some ''checked'' \<and>
   attr_get (attr_set True [] ''title'' (VText ''x'') text_field) ''Title'' = Some ''x''"
proof -
  have t: "nodeType text_field = 1" "to_lower ''Checked'' \<noteq> ''type''" "to_lower ''title'' \<noteq> ''type''"
    by (simp add: text_field_def, code_simp+)
  have "to_lower ''checked'' = to_lower ''Checked''" "to_lower ''Title'' = to_lower ''title''" "is_boolean ''Checked''"
    "\<not> is_boolean ''title''" "to_lower ''Checked'' = ''checked''"
    by code_simp+
  then show ?thesis
    using attr_set_get [OF t(1,2), of True "[]" "VBool True" "''checked''"]
      attr_set_get [OF t(1,3), of True "[]" "VText ''x''" "''Title''"]
    by (simp add: text_of_value_def)
qed

text \<open>An input keeps a value that is not empty when it becomes a radio button, whatever the browser does to it.\<close>

lemma type_keeps_value:
  assumes "nodeType e = 1" "to_lower name = ''type''" "value_prop e = Some (c # s)"
  shows "value_prop (attr_set radioValue lost name (VText ''radio'') e) = Some (c # s)"
  using assms by (simp add: attr_set_def text_like_def type_hook_def set_type_def setAttribute_def Let_def text_of_value_def)

text \<open>Line ends are normalised once and for all.\<close>

lemma crlf_head: "d \<noteq> CHR 0x0A \<Longrightarrow> \<exists>r'. crlf (d # r) = d # r'"
  by (cases r) simp_all

lemma crlf_idem: "crlf (crlf s) = crlf s"
proof (induction "length s" arbitrary: s rule: less_induct)
  case less
  show ?case
  proof (cases s)
    case (Cons c r)
    show ?thesis
    proof (cases "c = CHR 0x0D \<and> r \<noteq> [] \<and> hd r \<noteq> CHR 0x0A")
      case True
      then obtain d t where r: "r = d # t" "d \<noteq> CHR 0x0A"
        by (cases r) auto
      then obtain r' where r': "crlf r = d # r'"
        using crlf_head by blast
      have "crlf s = c # crlf r"
        using Cons True r by simp
      moreover have "crlf (c # crlf r) = c # crlf (crlf r)"
        using True r r' by simp
      ultimately show ?thesis
        using less [of r] Cons by simp
    next
      case False
      then consider "c = CHR 0x0D" "r = []" | t where "c = CHR 0x0D" "r = CHR 0x0A # t" | "c = CHR 0x0A"
        | "c \<noteq> CHR 0x0D" "c \<noteq> CHR 0x0A"
        by (cases r) auto
      then show ?thesis
        using less [of r] less [of "tl r"] Cons by cases simp_all
    qed
  qed simp
qed

lemma serializeArray_lines:
  assumes "(n, v) \<in> set (serializeArray checkOn nodes)"
  shows "n \<noteq> [] \<and> crlf v = v"
proof -
  obtain e where e: "submitted e" "(n, v) \<in> set (entries_of checkOn e)"
    using assms by (auto simp: serializeArray_def Let_def)
  then have "n = name_prop e \<and> crlf v = v"
    by (cases "val_get checkOn e") (auto simp: entries_of_def crlf_idem)
  then show ?thesis
    using e(1) by (simp add: submitted_def Let_def)
qed

text \<open>A setter reaches every element, with its position and its own value.\<close>

lemma access_set_nth:
  "i < length es \<Longrightarrow> access_set get put key v es ! i =
    put key (case v of Raw x \<Rightarrow> x | Computed f \<Rightarrow> f i (get key (es ! i))) (es ! i)"
proof -
  have "access_loop g p v k es ! i = p (case v of Raw x \<Rightarrow> x | Computed f \<Rightarrow> f (k + i) (g (es ! i))) (es ! i)"
    if "i < length es" for g p k and es :: "'a list"
    using that by (induction es arbitrary: i k) (auto simp: nth_Cons split: nat.split setter.split)
  then show "i < length es \<Longrightarrow> access_set get put key v es ! i =
    put key (case v of Raw x \<Rightarrow> x | Computed f \<Rightarrow> f i (get key (es ! i))) (es ! i)"
    by (simp add: access_set_def split: setter.split)
qed

end
