(* ===== verification/JqReady.thy ===== *)
theory JqReady
  imports Prelude
begin

text \<open>
  \<open>jQuery.ready\<close> and \<open>jQuery.holdReady\<close> in \<open>jquery.js\<close>: the flag \<open>isReady\<close>, the counter \<open>readyWait\<close>, and the moment at
  which the deferred \<open>readyList\<close> is resolved, as a machine over the events of a page.
\<close>

section \<open>State\<close>

record ready_state =
  isReady :: bool
  readyWait :: int
  resolutions :: nat  \<comment> \<open>how often \<open>readyList.resolveWith\<close> was called\<close>
  listening :: bool  \<comment> \<open>\<open>completed\<close> waits for \<open>DOMContentLoaded\<close> and \<open>load\<close>\<close>
  ready_timer :: bool  \<comment> \<open>\<open>window.setTimeout( jQuery.ready )\<close> is pending\<close>

text \<open>When the page is loaded before the script, \<open>ready\<close> comes from a timer.\<close>

definition ready_init :: "bool \<Rightarrow> ready_state" where
  "ready_init loaded =
     \<lparr>isReady = False, readyWait = 1, resolutions = 0, listening = \<not> loaded, ready_timer = loaded\<rparr>"

text \<open>\<open>jQuery.ready( wait )\<close>; a counter of \<open>0\<close> is false.\<close>

definition ready :: "bool \<Rightarrow> ready_state \<Rightarrow> ready_state" where
  "ready wait st =
     (let st1 = (if wait then st\<lparr>readyWait := readyWait st - 1\<rparr> else st)
      in if (if wait then readyWait st1 \<noteq> 0 else isReady st1) then st1
         else
           let st2 = st1\<lparr>isReady := True\<rparr>;
               st3 = (if \<not> wait then st2\<lparr>readyWait := readyWait st2 - 1\<rparr> else st2)
           in if \<not> wait \<and> readyWait st3 > 0 then st3
              else st3\<lparr>resolutions := resolutions st3 + 1\<rparr>)"

definition holdReady :: "bool \<Rightarrow> ready_state \<Rightarrow> ready_state" where
  "holdReady hold st = (if hold then st\<lparr>readyWait := readyWait st + 1\<rparr> else ready True st)"

definition completed :: "ready_state \<Rightarrow> ready_state" where
  "completed st = ready False (st\<lparr>listening := False\<rparr>)"

section \<open>Events\<close>

datatype event = Hold | Release | Loaded

text \<open>\<open>Loaded\<close> is \<open>DOMContentLoaded\<close>, \<open>load\<close> or the timer, whichever the page waits for.\<close>

fun ready_step :: "event \<Rightarrow> ready_state \<Rightarrow> ready_state" where
  "ready_step Hold st = holdReady True st"
| "ready_step Release st = holdReady False st"
| "ready_step Loaded st =
     (if listening st then completed st
      else if ready_timer st then ready False (st\<lparr>ready_timer := False\<rparr>)
      else st)"

definition ready_run :: "event list \<Rightarrow> ready_state \<Rightarrow> ready_state" where
  "ready_run evs st = fold ready_step evs st"

text \<open>Releases that outnumber the holds before them are not asked for.\<close>

fun balanced :: "nat \<Rightarrow> event list \<Rightarrow> bool" where
  "balanced n [] = True"
| "balanced n (Hold # evs) = balanced (Suc n) evs"
| "balanced n (Release # evs) = (n > 0 \<and> balanced (n - 1) evs)"
| "balanced n (Loaded # evs) = balanced n evs"

definition open_holds :: "event list \<Rightarrow> int" where
  "open_holds evs = int (count_list evs Hold) - int (count_list evs Release)"

text \<open>The first moment at which the page is loaded and no hold is open.\<close>

definition free :: "event list \<Rightarrow> bool" where
  "free evs = (Loaded \<in> set evs \<and> open_holds evs = 0)"

section \<open>The invariant\<close>

text \<open>What is true of the state after events, with \<open>n\<close> holds open; \<open>l\<close> tells whether the page is loaded.\<close>

definition ready_inv :: "bool \<Rightarrow> nat \<Rightarrow> ready_state \<Rightarrow> bool" where
  "ready_inv l n st =
     (isReady st = l \<and> readyWait st = int n + (if l then 0 else 1) \<and> (listening st \<or> ready_timer st \<longleftrightarrow> \<not> l) \<and>
      \<not> (listening st \<and> ready_timer st) \<and> (\<not> l \<longrightarrow> resolutions st = 0))"

lemma ready_inv_init: "ready_inv False 0 (ready_init loaded)"
  by (simp add: ready_inv_def ready_init_def)

lemma hold_inv: "ready_inv l n st \<Longrightarrow> ready_inv l (Suc n) (ready_step Hold st) \<and> resolutions (ready_step Hold st) = resolutions st"
  by (auto simp: ready_inv_def holdReady_def)

lemma release_inv:
  "ready_inv l (Suc n) st \<Longrightarrow> ready_inv l n (ready_step Release st) \<and>
    resolutions (ready_step Release st) = resolutions st + (if l \<and> n = 0 then 1 else 0)"
  by (auto simp: ready_inv_def holdReady_def ready_def Let_def)

lemma loaded_inv:
  "ready_inv l n st \<Longrightarrow> ready_inv True n (ready_step Loaded st) \<and>
    resolutions (ready_step Loaded st) = resolutions st + (if \<not> l \<and> n = 0 then 1 else 0)"
  by (auto simp: ready_inv_def completed_def ready_def Let_def)

text \<open>The times at which the page becomes free: it was not before, or a hold is released again.\<close>

fun openings :: "bool \<Rightarrow> nat \<Rightarrow> event list \<Rightarrow> nat" where
  "openings l n [] = 0"
| "openings l n (Hold # evs) = openings l (Suc n) evs"
| "openings l n (Release # evs) = (if l \<and> n = 1 then 1 else 0) + openings l (n - 1) evs"
| "openings l n (Loaded # evs) = (if \<not> l \<and> n = 0 then 1 else 0) + openings True n evs"

lemma ready_run_inv:
  assumes "ready_inv l n st" "balanced n evs"
  shows "\<exists>m. ready_inv (l \<or> Loaded \<in> set evs) m (ready_run evs st) \<and> int m = int n + open_holds evs \<and>
    resolutions (ready_run evs st) = resolutions st + openings l n evs"
  using assms
proof (induction evs arbitrary: l n st)
  case Nil
  then show ?case
    by (auto simp: ready_run_def open_holds_def)
next
  case (Cons ev evs)
  have run: "ready_run (ev # evs) st = ready_run evs (ready_step ev st)" for ev
    by (simp add: ready_run_def)
  show ?case
  proof (cases ev)
    case Hold
    then show ?thesis
      using Cons.IH [of l "Suc n" "ready_step Hold st"] Cons.prems hold_inv [of l n st]
      by (auto simp: run open_holds_def)
  next
    case Release
    then obtain k where k: "n = Suc k"
      using Cons.prems(2) by (cases n) auto
    then show ?thesis
      using Cons.IH [of l k "ready_step Release st"] Cons.prems release_inv [of l k st] Release
      by (auto simp: run open_holds_def)
  next
    case Loaded
    then show ?thesis
      using Cons.IH [of True n "ready_step Loaded st"] Cons.prems loaded_inv [of l n st]
      by (auto simp: run open_holds_def)
  qed
qed

lemma openings_pos: "balanced n evs \<Longrightarrow> l \<or> Loaded \<in> set evs \<Longrightarrow> int n + open_holds evs = 0 \<Longrightarrow> \<not> (l \<and> n = 0) \<Longrightarrow> 0 < openings l n evs"
proof (induction l n evs rule: openings.induct)
  case (2 l n evs)
  then show ?case
    by (simp add: open_holds_def)
next
  case (3 l n evs)
  then show ?case
    by (cases n) (auto simp: open_holds_def)
next
  case (4 l n evs)
  then show ?case
    by (auto simp: open_holds_def)
qed (simp add: open_holds_def)

lemma openings_none:
  "balanced n evs \<Longrightarrow> 0 < openings l n evs \<Longrightarrow>
    \<exists>k\<le>length evs. (l \<or> Loaded \<in> set (take k evs)) \<and> int n + open_holds (take k evs) = 0"
proof (induction l n evs rule: openings.induct)
  case (2 l n evs)
  then obtain k where "k \<le> length evs" "(l \<or> Loaded \<in> set (take k evs)) \<and> int (Suc n) + open_holds (take k evs) = 0"
    by auto
  then show ?case
    by (intro exI [of _ "Suc k"]) (simp add: open_holds_def)
next
  case (3 l n evs)
  show ?case
  proof (cases "l \<and> n = 1")
    case True
    then show ?thesis
      by (intro exI [of _ "Suc 0"]) (simp add: open_holds_def)
  next
    case False
    then obtain k where "k \<le> length evs" "(l \<or> Loaded \<in> set (take k evs)) \<and> int (n - 1) + open_holds (take k evs) = 0"
      using 3 by auto
    then show ?thesis
      using 3(2) by (intro exI [of _ "Suc k"]) (simp add: open_holds_def of_nat_diff)
  qed
next
  case (4 l n evs)
  show ?case
  proof (cases "\<not> l \<and> n = 0")
    case True
    then show ?thesis
      by (intro exI [of _ "Suc 0"]) (simp add: open_holds_def)
  next
    case False
    then obtain k where "k \<le> length evs" "int n + open_holds (take k evs) = 0"
      using 4 by auto
    then show ?thesis
      by (intro exI [of _ "Suc k"]) (simp add: open_holds_def)
  qed
qed simp

section \<open>Properties\<close>

text \<open>
  When no release lacks its hold, the ready callbacks run exactly when there has been a moment at which the page was
  loaded and no hold was open; nothing runs before.
\<close>

theorem ready_when_free:
  assumes "balanced 0 evs"
  shows "0 < resolutions (ready_run evs (ready_init loaded)) \<longleftrightarrow> (\<exists>k\<le>length evs. free (take k evs))"
proof -
  have r: "resolutions (ready_run evs (ready_init loaded)) = openings False 0 evs"
    using ready_run_inv [OF ready_inv_init assms, of loaded] by (auto simp: ready_init_def)
  show ?thesis
  proof
    assume "0 < resolutions (ready_run evs (ready_init loaded))"
    then show "\<exists>k\<le>length evs. free (take k evs)"
      using openings_none [OF assms, of False] by (auto simp: r free_def)
  next
    assume "\<exists>k\<le>length evs. free (take k evs)"
    then obtain k where k: "free (take k evs)"
      by blast
    have b: "balanced n (take k evs)" if "balanced n evs" for n
      using that by (induction n evs arbitrary: k rule: balanced.induct) (auto simp: take_Cons split: nat.split)
    have mono: "openings l n (take k evs) \<le> openings l n evs" for l n
      by (induction l n evs arbitrary: k rule: openings.induct) (auto simp: take_Cons split: nat.split intro: le_trans)
    have "0 < openings False 0 (take k evs)"
      using openings_pos [OF b [OF assms], of False] k by (simp add: free_def)
    then show "0 < resolutions (ready_run evs (ready_init loaded))"
      using mono [of False 0] by (simp add: r)
  qed
qed

lemma ready_when_free_witness:
  "0 < resolutions (ready_run [Hold, Loaded, Release] (ready_init False)) \<longleftrightarrow>
    (\<exists>k\<le>length [Hold, Loaded, Release]. free (take k [Hold, Loaded, Release]))"
  by (rule ready_when_free) simp

text \<open>A release without a hold makes the page ready before it is loaded.\<close>

lemma early_release: "resolutions (ready_run [Release] (ready_init False)) = 1"
  by (simp add: ready_run_def ready_init_def holdReady_def ready_def)

text \<open>A hold once the page is ready and its release resolve the deferred a second time, which has no effect.\<close>

lemma late_hold: "resolutions (ready_run [Loaded, Hold, Release] (ready_init False)) = 2"
  by (simp add: ready_run_def ready_init_def holdReady_def ready_def completed_def)

end
