(* ===== verification/JqNth.thy ===== *)
theory JqNth
  imports JqTraverse JsRegex
begin

text \<open>
  The filters of positions in \<open>jquery.js\<close> (Sizzle): \<open>:first-child\<close>, \<open>:nth-last-of-type(2n+1)\<close> and so on.
  \<open>matchExpr.CHILD\<close> and \<open>preFilter.CHILD\<close> read the argument, \<open>filter.CHILD\<close> finds the position of an element,
  remembering positions on elements for the rest of a run.
\<close>

section \<open>Reading the argument\<close>

text \<open>The groups of \<open>matchExpr.CHILD\<close>, from 1 to 8; a group that took no part is empty.\<close>

definition ci :: "string \<Rightarrow> rx" where
  "ci s = foldr (\<lambda>c r. RSeq (RClass (\<lambda>x. lower_char x = c)) r) s REmpty"

definition css_space :: "char \<Rightarrow> bool" where
  "css_space c \<longleftrightarrow> of_char c \<in> {0x20, 9, 13, 10, 12 :: nat}"

definition rx_space :: rx where
  "rx_space = RStar css_space"

definition rx_sign :: rx where
  "rx_sign = RAlt (RClass (\<lambda>c. c = CHR ''+'' \<or> c = CHR ''-'')) REmpty"

definition rx_char :: "char \<Rightarrow> rx" where
  "rx_char c = RClass (\<lambda>x. x = c)"

fun rx_seq :: "rx list \<Rightarrow> rx" where
  "rx_seq [] = REmpty"
| "rx_seq [r] = r"
| "rx_seq (r # s # rs) = RSeq r (rx_seq (s # rs))"

fun rx_alt :: "rx list \<Rightarrow> rx" where
  "rx_alt [] = RClass (\<lambda>_. False)"
| "rx_alt [r] = r"
| "rx_alt (r # s # rs) = RAlt r (rx_alt (s # rs))"

definition rx_argument :: rx where
  "rx_argument =
     RGroup 3 (rx_alt
       [ci ''even'', ci ''odd'',
        rx_seq
         [RGroup 4 (rx_alt [rx_seq [RGroup 5 rx_sign, RGroup 6 (RStar is_digit), ci ''n''], REmpty]), rx_space,
          rx_alt [rx_seq [RGroup 7 rx_sign, rx_space, RGroup 8 (RSeq (RClass is_digit) (RStar is_digit))], REmpty]]])"

definition rx_CHILD :: rx where
  "rx_CHILD =
     rx_seq
       [rx_char CHR '':'', RGroup 1 (rx_alt (map ci [''only'', ''first'', ''last'', ''nth'', ''nth-last''])),
        rx_char CHR ''-'', RGroup 2 (rx_alt (map ci [''child'', ''of-type''])),
        rx_alt [rx_seq [rx_char CHR ''('', rx_space, rx_argument, rx_space, rx_char CHR '')''], REmpty]]"

text \<open>Of a signed run of digits; \<open>+\<close> before it is the number it stands for.\<close>

definition signed_value :: "string \<Rightarrow> string \<Rightarrow> int" where
  "signed_value s ds = (if s = ''-'' then - int (dec_value ds) else int (dec_value ds))"

text \<open>\<open>preFilter.CHILD\<close>: type, what, and the numbers of \<open>xn+y\<close>; \<open>None\<close> when \<open>Sizzle.error\<close> raises.\<close>

definition preFilter_CHILD :: "(nat \<Rightarrow> string) \<Rightarrow> (string \<times> string \<times> int \<times> int) option" where
  "preFilter_CHILD g =
     (let type = to_lower (g 1)
      in if slice type 0 3 = ''nth''
         then if g 3 = [] then None
              else Some (type, g 2,
                (if g 4 \<noteq> [] then (if g 6 = [] then signed_value (g 5) ''1'' else signed_value (g 5) (g 6))
                 else if g 3 = ''even'' \<or> g 3 = ''odd'' then 2 else 0),
                (if g 7 @ g 8 \<noteq> [] then signed_value (g 7) (g 8) else if g 3 = ''odd'' then 1 else 0))
         else if g 3 \<noteq> [] then None
         else Some (type, g 2, 0, 0))"

section \<open>The filter\<close>

text \<open>
  What elements remember: a parent, under \<open>nth\<close>, the run, the index among all child nodes and the position of
  the element found last; an element, under \<open>nth-last\<close>, the run and its position from the end.
\<close>

record memory =
  this_run :: nat  \<comment> \<open>\<open>dirruns\<close>\<close>
  found_at :: "nat \<Rightarrow> (nat \<times> nat \<times> nat) option"
  counted :: "nat \<Rightarrow> (nat \<times> nat) option"

definition last_child :: "page \<Rightarrow> nat \<Rightarrow> nat option" where
  "last_child P n = (case childNodes P n of [] \<Rightarrow> None | c # r \<Rightarrow> Some (last (c # r)))"

text \<open>What \<open>start.pop()\<close> begins with, and all that follows it in direction \<open>dir\<close>.\<close>

definition from_start :: "page \<Rightarrow> bool \<Rightarrow> direction \<Rightarrow> nat \<Rightarrow> nat list" where
  "from_start P forward d p =
     (case (if forward then firstChild P p else last_child P p) of None \<Rightarrow> [] | Some c \<Rightarrow> c # nodes_along P d c)"

text \<open>The loop that seeks \<open>elem\<close>, with \<open>nodeIndex\<close> and \<open>diff\<close> for the next node.\<close>

fun seek_loop :: "page \<Rightarrow> nat \<Rightarrow> nat list \<Rightarrow> nat \<Rightarrow> nat \<Rightarrow> (nat \<times> nat) option" where
  "seek_loop P elem [] nodeIndex diff = None"
| "seek_loop P elem (n # ns) nodeIndex diff =
     (if kind_of P n = 1
      then if n = elem then Some (nodeIndex, diff + 1) else seek_loop P elem ns (nodeIndex + 1) (diff + 1)
      else seek_loop P elem ns (nodeIndex + 1) diff)"

definition seek :: "page \<Rightarrow> nat \<Rightarrow> nat \<Rightarrow> memory \<Rightarrow> nat \<times> memory" where
  "seek P elem p S =
     (let again = seek_loop P elem (from_start P True Forward p) 0 0;
          found =
            (case found_at S p of
               Some (r, i, d) \<Rightarrow>
                 if r = this_run S \<and> i \<noteq> 0 \<and> i < length (childNodes P p)
                 then case seek_loop P elem (nodes_along P Forward (childNodes P p ! i)) (i + 1) d of
                        Some x \<Rightarrow> Some x
                      | None \<Rightarrow> again
                 else again
             | None \<Rightarrow> again)
      in case found of
           Some (i, d) \<Rightarrow> (d, S\<lparr>found_at := (found_at S)(p := Some (this_run S, i, d))\<rparr>)
         | None \<Rightarrow> (0, S))"

text \<open>The same loop for the other types: each node that counts is remembered with its number.\<close>

fun count_loop :: "(nat \<Rightarrow> bool) \<Rightarrow> bool \<Rightarrow> nat \<Rightarrow> nat list \<Rightarrow> nat \<Rightarrow> memory \<Rightarrow> nat option \<times> memory" where
  "count_loop counts useCache elem [] diff S = (None, S)"
| "count_loop counts useCache elem (n # ns) diff S =
     (if counts n
      then let S' = (if useCache then S\<lparr>counted := (counted S)(n := Some (this_run S, diff + 1))\<rparr> else S)
           in if n = elem then (Some (diff + 1), S') else count_loop counts useCache elem ns (diff + 1) S'
      else count_loop counts useCache elem ns diff S)"

text \<open>
  A cache may be used outside XML when the name does not matter.  There \<open>node\<close> is \<open>elem\<close> from the start, so that
  the loop first goes on from \<open>elem\<close> itself, counting from nothing, and starts over at the end.
\<close>

definition count :: "page \<Rightarrow> (nat \<Rightarrow> bool) \<Rightarrow> bool \<Rightarrow> bool \<Rightarrow> direction \<Rightarrow> nat \<Rightarrow> nat \<Rightarrow> memory \<Rightarrow> nat \<times> memory" where
  "count P counts useCache forward d elem p S =
     (let cached = (case counted S elem of
                      Some (r, k) \<Rightarrow> if useCache \<and> r = this_run S then Some k else None
                    | None \<Rightarrow> None)
      in case cached of
           Some k \<Rightarrow> (k, S)
         | None \<Rightarrow>
             (case count_loop counts useCache elem (if useCache then nodes_along P d elem else []) 0 S of
                (Some k, S1) \<Rightarrow> (k, S1)
              | (None, S1) \<Rightarrow>
                  (case count_loop counts useCache elem (from_start P forward d p) 0 S1 of
                     (Some k, S2) \<Rightarrow> (k, S2)
                   | (None, S2) \<Rightarrow> (0, S2))))"

text \<open>\<open>diff === first || ( diff % first === 0 && diff / first >= 0 )\<close> after \<open>diff -= last\<close> (here \<open>offset\<close>); the remainder of a division by 0 is no number.\<close>

definition in_cycle :: "int \<Rightarrow> int \<Rightarrow> int \<Rightarrow> bool" where
  "in_cycle diff first offset =
     (let d = diff - offset in d = first \<or> first \<noteq> 0 \<and> first dvd d \<and> d div first \<ge> 0)"

text \<open>The loop of \<open>first\<close>, \<open>last\<close> and \<open>only\<close>; \<open>only\<close> turns round once.\<close>

definition alone :: "page \<Rightarrow> (nat \<Rightarrow> bool) \<Rightarrow> string \<Rightarrow> direction \<Rightarrow> nat \<Rightarrow> bool" where
  "alone P counts type d e =
     (if list_ex counts (nodes_along P d e) then False
      else if type = ''only'' then \<not> list_ex counts (nodes_along P Forward e)
      else True)"

text \<open>\<open>names\<close> gives \<open>nodeName\<close> in lower case.\<close>

definition CHILD_filter :: "page \<Rightarrow> (nat \<Rightarrow> string) \<Rightarrow> bool \<Rightarrow> string \<times> string \<times> int \<times> int \<Rightarrow> nat \<Rightarrow> memory \<Rightarrow> bool \<times> memory" where
  "CHILD_filter P names xml args elem S =
     (case args of (type, what, first, offset) \<Rightarrow>
        let simple = (slice type 0 3 \<noteq> ''nth'');
            forward = (slice_from type (-4) \<noteq> ''last'');
            ofType = (what = ''of-type'');
            d = (if simple \<noteq> forward then Forward else Back);
            useCache = (\<not> xml \<and> \<not> ofType);
            counts = (\<lambda>n. if ofType then names n = names elem else kind_of P n = 1)
        in if first = 1 \<and> offset = 0 then (parent_of P elem \<noteq> None, S)
           else case parent_of P elem of
             None \<Rightarrow> (False, S)
           | Some p \<Rightarrow>
               if simple then (alone P counts type d elem, S)
               else case (if forward \<and> useCache then seek P elem p S
                          else count P counts useCache forward d elem p S) of
                 (diff, S') \<Rightarrow> (in_cycle (int diff) first offset, S'))"

text \<open>A run over elements, one after the other.\<close>

fun CHILD_run :: "page \<Rightarrow> (nat \<Rightarrow> string) \<Rightarrow> bool \<Rightarrow> string \<times> string \<times> int \<times> int \<Rightarrow> nat list \<Rightarrow> memory \<Rightarrow> nat list \<times> memory" where
  "CHILD_run P names xml args [] S = ([], S)"
| "CHILD_run P names xml args (e # es) S =
     (case CHILD_filter P names xml args e S of
        (b, S') \<Rightarrow> (case CHILD_run P names xml args es S' of (r, S'') \<Rightarrow> (if b then e # r else r, S'')))"

section \<open>Positions\<close>

definition brothers :: "page \<Rightarrow> nat \<Rightarrow> (nat \<Rightarrow> bool) \<Rightarrow> nat set" where
  "brothers P p counts = {m. parent_of P m = Some p \<and> counts m}"

text \<open>The position of an element among its siblings that count, from either end.\<close>

definition position :: "page \<Rightarrow> nat \<Rightarrow> (nat \<Rightarrow> bool) \<Rightarrow> bool \<Rightarrow> nat \<Rightarrow> nat" where
  "position P p counts forward e = card {m \<in> brothers P p counts. if forward then m \<le> e else e \<le> m}"

definition selected :: "page \<Rightarrow> (nat \<Rightarrow> string) \<Rightarrow> string \<times> string \<times> int \<times> int \<Rightarrow> nat \<Rightarrow> bool" where
  "selected P names args e =
     (case args of (type, what, first, offset) \<Rightarrow>
        let counts = (\<lambda>m. if what = ''of-type'' then names m = names e else kind_of P m = 1)
        in \<exists>p. parent_of P e = Some p \<and>
             (if type = ''first'' then position P p counts True e = 1
              else if type = ''last'' then position P p counts False e = 1
              else if type = ''only'' then brothers P p counts = {e}
              else \<exists>n\<ge>0. int (position P p counts (type = ''nth'') e) = first * n + offset))"

section \<open>Child nodes\<close>

lemma childNodes_sorted: "sorted_wrt (<) (childNodes P p)"
  by (simp add: childNodes_def sorted_wrt_filter)

lemma childNodes_set: "page_ok P \<Longrightarrow> m \<in> set (childNodes P p) \<longleftrightarrow> parent_of P m = Some p"
  using parent_less by (auto simp: childNodes_def)

lemma child_split:
  assumes "page_ok P" "parent_of P e = Some p"
  obtains as bs where "childNodes P p = as @ e # bs" "\<And>m. m \<in> set as \<Longrightarrow> m < e" "\<And>m. m \<in> set bs \<Longrightarrow> e < m"
proof -
  obtain as bs where s: "childNodes P p = as @ e # bs"
    using childNodes_set [OF assms(1), of e p] assms(2) by (meson split_list)
  have "sorted_wrt (<) (as @ e # bs)"
    using childNodes_sorted [of P p] s by simp
  then show ?thesis
    using s that by (auto simp: sorted_wrt_append)
qed

lemma filter_split:
  assumes "xs = as @ e # bs" "sorted_wrt (<) (xs :: nat list)"
  shows "filter (\<lambda>m. m < e) xs = as" "filter (\<lambda>m. e < m) xs = bs"
  using assms by (auto simp: sorted_wrt_append filter_id_conv filter_empty_conv)

lemma split_unique:
  assumes "as @ e # bs = as' @ e # bs'" "sorted_wrt (<) (as @ e # (bs :: nat list))"
  shows "as = as'" "bs = bs'"
  using assms filter_split by metis+

lemma siblings_split:
  assumes "page_ok P" "childNodes P p = as @ e # bs"
  shows "nodes_along P Forward e = bs" "nodes_along P Back e = rev as"
proof -
  have e: "parent_of P e = Some p"
    using childNodes_set [OF assms(1), of e p] assms(2) by simp
  let ?q = "\<lambda>m. parent_of P m = Some p" and ?N = "length (kinds P)"
  have N: "e < ?N"
    using parent_less [OF assms(1) e] by simp
  then have c: "childNodes P p = filter ?q [0..<e] @ e # filter ?q [Suc e..<?N]"
    using e upt_add_eq_append [of 0 e "?N - e"] by (simp add: childNodes_def upt_conv_Cons)
  then have "as = filter ?q [0..<e]" "bs = filter ?q [Suc e..<?N]"
    using split_unique [of as e bs] childNodes_sorted [of P p] assms(2) by auto
  then show "nodes_along P Forward e = bs" "nodes_along P Back e = rev as"
    using forward_nodes [OF assms(1) e] backward_nodes [OF assms(1) e] by (simp_all add: rev_filter)
qed

lemma from_start_first: "page_ok P \<Longrightarrow> from_start P True Forward p = childNodes P p"
  using children_nodes [of P p] by (auto simp: from_start_def firstChild_def split: option.split list.splits)

lemma from_start_last:
  assumes "page_ok P"
  shows "from_start P False Back p = rev (childNodes P p)"
proof (cases "childNodes P p" rule: rev_cases)
  case (snoc ys y)
  then have "nodes_along P Back y = rev ys"
    using siblings_split(2) [OF assms, of p ys y "[]"] by simp
  then show ?thesis
    using snoc by (cases ys) (auto simp: from_start_def last_child_def)
qed (simp add: from_start_def last_child_def)

lemma position_split:
  assumes "page_ok P" "childNodes P p = as @ e # bs" "counts e"
  shows "position P p counts True e = length (filter counts as) + 1"
    "position P p counts False e = length (filter counts bs) + 1"
    "brothers P p counts = set (filter counts as) \<union> {e} \<union> set (filter counts bs)"
proof -
  have s: "sorted_wrt (<) (as @ e # bs)"
    using childNodes_sorted [of P p] assms(2) by simp
  then have d: "distinct (as @ e # bs)"
    by (simp add: strict_sorted_iff)
  have "parent_of P m = Some p \<longleftrightarrow> m \<in> set (as @ e # bs)" for m
    using childNodes_set [OF assms(1), of m p] assms(2) by simp
  then have b: "brothers P p counts = set (filter counts (as @ e # bs))"
    unfolding brothers_def set_filter by blast
  have "{m \<in> brothers P p counts. m \<le> e} = insert e (set (filter counts as))"
    "{m \<in> brothers P p counts. e \<le> m} = insert e (set (filter counts bs))"
    using b s assms(3) by (auto simp: sorted_wrt_append)
  then show "position P p counts True e = length (filter counts as) + 1"
    "position P p counts False e = length (filter counts bs) + 1"
    using d distinct_card [OF distinct_filter, of as counts] distinct_card [OF distinct_filter, of bs counts]
    by (simp_all add: position_def)
  show "brothers P p counts = set (filter counts as) \<union> {e} \<union> set (filter counts bs)"
    using b assms(3) by auto
qed

section \<open>The loops\<close>

lemma seek_loop_hit:
  "e \<notin> set as \<Longrightarrow> kind_of P e = 1 \<Longrightarrow>
   seek_loop P e (as @ e # bs) i d = Some (i + length as, d + length (filter (\<lambda>m. kind_of P m = 1) as) + 1)"
  by (induction as arbitrary: i d) auto

lemma seek_loop_miss: "e \<notin> set ns \<Longrightarrow> seek_loop P e ns i d = None"
  by (induction ns arbitrary: i d) auto

text \<open>What a parent remembers of this run is the position of the child node at the index.\<close>

definition found_ok :: "page \<Rightarrow> memory \<Rightarrow> bool" where
  "found_ok P S \<longleftrightarrow>
     (\<forall>p i d. found_at S p = Some (this_run S, i, d) \<longrightarrow> i < length (childNodes P p) \<longrightarrow>
        d = length (filter (\<lambda>m. kind_of P m = 1) (take (i + 1) (childNodes P p))))"

lemma seek_exact:
  assumes P: "page_ok P" and c: "childNodes P p = as @ e # bs" and e: "kind_of P e = 1" and S: "found_ok P S"
  shows "seek P e p S =
    (length (filter (\<lambda>m. kind_of P m = 1) as) + 1,
     S\<lparr>found_at := (found_at S)(p := Some (this_run S, length as, length (filter (\<lambda>m. kind_of P m = 1) as) + 1))\<rparr>)"
proof -
  let ?d = "length (filter (\<lambda>m. kind_of P m = 1) as) + 1"
  have d: "distinct (as @ e # bs)"
    using childNodes_sorted [of P p] c by (simp add: strict_sorted_iff)
  then have again: "seek_loop P e (from_start P True Forward p) 0 0 = Some (length as, ?d)"
    using seek_loop_hit [of e as P bs 0 0] e by (simp add: from_start_first [OF P] c)
  have early: "seek_loop P e (nodes_along P Forward (childNodes P p ! i)) (i + 1) k \<in> {None, Some (length as, ?d)}"
    if i: "i < length (childNodes P p)" and k: "found_at S p = Some (this_run S, i, k)" for i k
  proof -
    let ?cs = "childNodes P p"
    have "?cs = take i ?cs @ ?cs ! i # drop (i + 1) ?cs"
      using i by (simp add: id_take_nth_drop)
    then have along: "nodes_along P Forward (?cs ! i) = drop (i + 1) ?cs"
      by (rule siblings_split(1) [OF P])
    have kd: "k = length (filter (\<lambda>m. kind_of P m = 1) (take (i + 1) ?cs))"
      using S i k by (auto simp: found_ok_def)
    show ?thesis
    proof (cases "i < length as")
      case True
      then have "drop (i + 1) ?cs = drop (i + 1) as @ e # bs" "take (i + 1) ?cs = take (i + 1) as"
        by (simp_all add: c)
      moreover have "filter (\<lambda>m. kind_of P m = 1) as =
          filter (\<lambda>m. kind_of P m = 1) (take (i + 1) as) @ filter (\<lambda>m. kind_of P m = 1) (drop (i + 1) as)"
        by (metis append_take_drop_id filter_append)
      moreover have "e \<notin> set (drop (i + 1) as)"
        using d in_set_dropD by fastforce
      ultimately show ?thesis
        using seek_loop_hit [of e "drop (i + 1) as" P bs "i + 1" k] e True along kd by simp
    next
      case False
      then have "drop (i + 1) ?cs = drop (i - length as) bs"
        by (simp add: c Suc_diff_le)
      moreover have "e \<notin> set (drop (i - length as) bs)"
        using d in_set_dropD by fastforce
      ultimately show ?thesis
        using along seek_loop_miss by simp
    qed
  qed
  show ?thesis
  proof (cases "found_at S p")
    case None
    then show ?thesis
      using again by (simp add: seek_def)
  next
    case (Some x)
    obtain r i k where x: "x = (r, i, k)"
      by (cases x)
    show ?thesis
    proof (cases "r = this_run S \<and> i \<noteq> 0 \<and> i < length (childNodes P p)")
      case True
      then show ?thesis
        using early [of i k] again Some x by (auto simp: seek_def)
    next
      case False
      then show ?thesis
        using again Some x by (auto simp: seek_def)
    qed
  qed
qed

lemma seek_keeps:
  assumes "page_ok P" "childNodes P p = as @ e # bs" "kind_of P e = 1" "found_ok P S"
  shows "found_ok P (snd (seek P e p S))"
  using assms(4) by (auto simp: seek_exact [OF assms] found_ok_def assms(2,3))

text \<open>Numbers that the counting loop leaves on the nodes it passes.\<close>

fun numbered :: "(nat \<Rightarrow> bool) \<Rightarrow> nat list \<Rightarrow> nat \<Rightarrow> nat \<Rightarrow> nat option" where
  "numbered counts [] k m = None"
| "numbered counts (n # ns) k m =
     (if counts n then if m = n then Some (k + 1) else numbered counts ns (k + 1) m else numbered counts ns k m)"

lemma numbered_notin: "m \<notin> set ns \<Longrightarrow> numbered counts ns k m = None"
  by (induction ns arbitrary: k) auto

lemma numbered_split:
  "m \<notin> set xs \<Longrightarrow> m \<notin> set ys \<Longrightarrow>
   numbered counts (xs @ m # ys) k m = (if counts m then Some (k + length (filter counts xs) + 1) else None)"
  by (induction xs arbitrary: k) (auto simp: numbered_notin)

definition note_numbers :: "memory \<Rightarrow> (nat \<Rightarrow> nat option) \<Rightarrow> memory" where
  "note_numbers S f = S\<lparr>counted := (\<lambda>m. case f m of None \<Rightarrow> counted S m | Some k \<Rightarrow> Some (this_run S, k))\<rparr>"

lemma numbered_Cons:
  "numbered counts (n # ns) k = (if counts n then (numbered counts ns (k + 1))(n := Some (k + 1)) else numbered counts ns k)"
  by (auto simp: fun_eq_iff)

lemma note_step:
  "f n = None \<Longrightarrow> note_numbers (S\<lparr>counted := (counted S)(n := Some (this_run S, k))\<rparr>) f = note_numbers S (f(n := Some k))"
  by (auto simp: note_numbers_def fun_eq_iff split: option.split)

lemma note_none: "note_numbers S (\<lambda>m. None) = S"
  by (simp add: note_numbers_def)

lemma numbered_Nil: "numbered counts [] k = (\<lambda>m. None)"
  by (simp add: fun_eq_iff)

lemma count_loop_miss:
  "e \<notin> set ns \<Longrightarrow> distinct ns \<Longrightarrow>
   count_loop counts u e ns k S = (None, if u then note_numbers S (numbered counts ns k) else S)"
proof (induction ns arbitrary: k S)
  case (Cons n ns)
  then show ?case
    by (simp add: Let_def numbered_Cons note_step numbered_notin del: numbered.simps)
qed (simp add: note_none numbered_Nil del: numbered.simps)

lemma count_loop_hit:
  "e \<notin> set as \<Longrightarrow> distinct as \<Longrightarrow> counts e \<Longrightarrow>
   count_loop counts u e (as @ e # bs) k S =
     (Some (k + length (filter counts as) + 1), if u then note_numbers S (numbered counts (as @ [e]) k) else S)"
proof (induction as arbitrary: k S)
  case (Cons n ns)
  then show ?case
    by (simp add: Let_def numbered_Cons note_step numbered_notin del: numbered.simps)
next
  case Nil
  then show ?case
    using note_step [of "\<lambda>m. None" e S "k + 1"]
    by (simp add: Let_def numbered_Cons numbered_Nil note_none del: numbered.simps)
qed

abbreviation (input) is_element :: "page \<Rightarrow> nat \<Rightarrow> bool" where
  "is_element P m \<equiv> kind_of P m = 1"

text \<open>What elements from \<open>low\<close> on remember of this run is their position from the end.\<close>

definition counted_from :: "page \<Rightarrow> nat \<Rightarrow> memory \<Rightarrow> bool" where
  "counted_from P low S \<longleftrightarrow>
     (\<forall>m k p. low \<le> m \<longrightarrow> counted S m = Some (this_run S, k) \<longrightarrow> parent_of P m = Some p \<longrightarrow> is_element P m \<longrightarrow>
        k = position P p (is_element P) False m)"

lemma count_uncached:
  assumes "page_ok P" "childNodes P p = as @ e # bs" "counts e"
  shows "count P counts False forward (if forward then Forward else Back) e p S = (position P p counts forward e, S)"
proof -
  have d: "distinct (as @ e # bs)"
    using childNodes_sorted [of P p] assms(2) by (simp add: strict_sorted_iff)
  have "from_start P forward (if forward then Forward else Back) p = (if forward then as @ e # bs else rev bs @ e # rev as)"
    using from_start_first [OF assms(1)] from_start_last [OF assms(1)] assms(2) by simp
  then show ?thesis
    using d assms(3) count_loop_hit [of e as counts False bs 0 S] count_loop_hit [of e "rev bs" counts False "rev as" 0 S]
      position_split [where counts = counts, OF assms]
    by (cases "counted S e") (auto simp: count_def rev_filter [symmetric])
qed

lemma numbered_from_end:
  assumes "page_ok P" "childNodes P p = as @ e # bs" "is_element P e" "numbered (is_element P) (rev bs @ [e]) 0 m = Some k"
  shows "parent_of P m = Some p \<and> k = position P p (is_element P) False m"
proof -
  have "m \<in> set (e # bs)"
    using assms(4) numbered_notin [of m "rev bs @ [e]"] by fastforce
  then obtain xs ys where s: "e # bs = xs @ m # ys"
    by (meson split_list)
  then have c: "childNodes P p = (as @ xs) @ m # ys"
    using assms(2) by simp
  then have d: "m \<notin> set (rev ys)" "m \<notin> set (rev xs)"
    using childNodes_sorted [of P p] by (auto simp: sorted_wrt_append)
  have r: "rev bs @ [e] = rev ys @ m # rev xs"
    using arg_cong [OF s, of rev] by simp
  then have m: "is_element P m" "k = length (filter (is_element P) ys) + 1"
    using numbered_split [OF d, of "is_element P" 0] assms(4)
    by (auto split: if_splits simp: rev_filter [symmetric])
  then show ?thesis
    using position_split(2) [OF assms(1) c, of "is_element P"] childNodes_set [OF assms(1), of m p] c by simp
qed

lemma counted_fresh: "numbered counts ns k m = Some i \<Longrightarrow> m \<in> set ns"
  using numbered_notin by fastforce

lemma counted_from_mono: "counted_from P low S \<Longrightarrow> low \<le> e \<Longrightarrow> counted_from P e S"
  unfolding counted_from_def by (meson order.trans)

lemma counted_from_cong: "counted S' = counted S \<Longrightarrow> this_run S' = this_run S \<Longrightarrow> counted_from P low S' = counted_from P low S"
  by (simp only: counted_from_def)

lemma found_ok_cong: "found_at S' = found_at S \<Longrightarrow> this_run S' = this_run S \<Longrightarrow> found_ok P S' = found_ok P S"
  by (simp only: found_ok_def)

lemma count_from_end:
  assumes P: "page_ok P" and c: "childNodes P p = as @ e # bs" and e: "is_element P e"
    and low: "low \<le> e" and S: "counted_from P low S"
  shows "fst (count P (is_element P) True False Back e p S) = position P p (is_element P) False e"
    "counted_from P e (snd (count P (is_element P) True False Back e p S))"
    "found_at (snd (count P (is_element P) True False Back e p S)) = found_at S"
    "this_run (snd (count P (is_element P) True False Back e p S)) = this_run S"
proof -
  let ?el = "is_element P"
  have pe: "parent_of P e = Some p"
    using childNodes_set [OF P, of e p] c by simp
  have d: "distinct (as @ e # bs)" and ord: "\<And>m. m \<in> set as \<Longrightarrow> m < e"
    using childNodes_sorted [of P p] c by (auto simp: strict_sorted_iff sorted_wrt_append)
  have "fst (count P ?el True False Back e p S) = position P p ?el False e \<and>
    counted_from P e (snd (count P ?el True False Back e p S)) \<and>
    found_at (snd (count P ?el True False Back e p S)) = found_at S \<and>
    this_run (snd (count P ?el True False Back e p S)) = this_run S"
  proof (cases "\<exists>k. counted S e = Some (this_run S, k)")
    case True
    then obtain k where k: "counted S e = Some (this_run S, k)"
      by blast
    then have "k = position P p ?el False e"
      using S low pe e by (simp add: counted_from_def)
    moreover have "counted_from P e S"
      using S low by (rule counted_from_mono)
    ultimately show ?thesis
      using k by (simp add: count_def)
  next
    case False
    let ?S1 = "note_numbers S (numbered ?el (rev as) 0)"
    let ?S2 = "note_numbers ?S1 (numbered ?el (rev bs @ [e]) 0)"
    have "(case counted S e of Some (r, k) \<Rightarrow> if True \<and> r = this_run S then Some k else None | None \<Rightarrow> None) = None"
      using False by (auto split: option.split)
    moreover have "count_loop ?el True e (nodes_along P Back e) 0 S = (None, ?S1)"
      using count_loop_miss [of e "rev as" ?el True 0 S] siblings_split(2) [OF P c] d by simp
    moreover have "count_loop ?el True e (from_start P False Back p) 0 ?S1 = (Some (position P p ?el False e), ?S2)"
      using count_loop_hit [of e "rev bs" ?el True "rev as" 0 ?S1] from_start_last [OF P, of p] c d e
        position_split(2) [OF P c, of ?el] by (simp add: rev_filter [symmetric])
    ultimately have r: "count P ?el True False Back e p S = (position P p ?el False e, ?S2)"
      by (simp only: count_def Let_def if_True option.case prod.case)
    have "counted_from P e ?S2"
      unfolding counted_from_def
    proof (intro allI impI)
      fix m k q
      assume m: "e \<le> m" "counted ?S2 m = Some (this_run ?S2, k)" "parent_of P m = Some q" "is_element P m"
      show "k = position P q ?el False m"
      proof (cases "numbered ?el (rev bs @ [e]) 0 m")
        case (Some i)
        then show ?thesis
          using numbered_from_end [OF P c e Some] m(2,3) by (simp add: note_numbers_def)
      next
        case None
        have "numbered ?el (rev as) 0 m = None"
          using counted_fresh [of ?el "rev as" 0 m] ord m(1) by (cases "numbered ?el (rev as) 0 m") fastforce+
        then have "counted S m = Some (this_run S, k)"
          using m(2) None by (simp add: note_numbers_def)
        then show ?thesis
          using S low m(1,3,4) by (simp add: counted_from_def)
      qed
    qed
    then show ?thesis
      using r by (simp add: note_numbers_def)
  qed
  then show "fst (count P ?el True False Back e p S) = position P p ?el False e"
    "counted_from P e (snd (count P ?el True False Back e p S))"
    "found_at (snd (count P ?el True False Back e p S)) = found_at S"
    "this_run (snd (count P ?el True False Back e p S)) = this_run S"
    by simp_all
qed

section \<open>The filter finds positions\<close>

lemma in_cycle_exact: "in_cycle d x y \<longleftrightarrow> (\<exists>n\<ge>0. d = x * n + y)"
proof
  assume c: "in_cycle d x y"
  consider "d - y = x" | "x \<noteq> 0" "x dvd (d - y)" "(d - y) div x \<ge> 0"
    using c by (auto simp: in_cycle_def Let_def)
  then show "\<exists>n\<ge>0. d = x * n + y"
  proof cases
    case 1
    then show ?thesis
      by (intro exI [of _ 1]) simp
  next
    case 2
    then show ?thesis
      by (intro exI [of _ "(d - y) div x"]) simp
  qed
next
  assume "\<exists>n\<ge>0. d = x * n + y"
  then show "in_cycle d x y"
    by (auto simp: in_cycle_def Let_def)
qed

definition args_ok :: "string \<times> string \<times> int \<times> int \<Rightarrow> bool" where
  "args_ok args =
     (case args of (type, what, first, offset) \<Rightarrow>
        what \<in> {''child'', ''of-type''} \<and>
        (type \<in> {''nth'', ''nth-last''} \<or> type \<in> {''first'', ''last'', ''only''} \<and> first = 0 \<and> offset = 0))"

text \<open>What the run may rely on from the element \<open>low\<close> on.\<close>

definition memory_ok :: "page \<Rightarrow> nat \<Rightarrow> memory \<Rightarrow> bool" where
  "memory_ok P low S \<longleftrightarrow> found_ok P S \<and> counted_from P low S"

lemma alone_exact:
  assumes "page_ok P" "parent_of P e = Some p" "counts e"
  shows "alone P counts ''first'' Back e \<longleftrightarrow> position P p counts True e = 1"
    "alone P counts ''last'' Forward e \<longleftrightarrow> position P p counts False e = 1"
    "alone P counts ''only'' Back e \<longleftrightarrow> brothers P p counts = {e}"
proof -
  obtain as bs where c: "childNodes P p = as @ e # bs" and o: "\<And>m. m \<in> set as \<Longrightarrow> m < e" "\<And>m. m \<in> set bs \<Longrightarrow> e < m"
    using child_split [OF assms(1,2)] by blast
  note s = siblings_split [OF assms(1) c] position_split [where counts = counts, OF assms(1) c assms(3)]
  show "alone P counts ''first'' Back e \<longleftrightarrow> position P p counts True e = 1"
    "alone P counts ''last'' Forward e \<longleftrightarrow> position P p counts False e = 1"
    by (simp_all add: s alone_def list_ex_iff filter_empty_conv)
  show "alone P counts ''only'' Back e \<longleftrightarrow> brothers P p counts = {e}"
  proof -
    have "alone P counts ''only'' Back e \<longleftrightarrow> (\<forall>m\<in>set as \<union> set bs. \<not> counts m)"
      by (auto simp: s alone_def list_ex_iff)
    moreover have "e \<notin> set as \<union> set bs"
      using o by blast
    ultimately show ?thesis
      by (auto simp: s)
  qed
qed

lemma seek_position:
  assumes "page_ok P" "parent_of P e = Some p" "is_element P e" "memory_ok P low S" "low \<le> e"
  shows "fst (seek P e p S) = position P p (is_element P) True e"
    "memory_ok P e (snd (seek P e p S))" "this_run (snd (seek P e p S)) = this_run S"
proof -
  obtain as bs where c: "childNodes P p = as @ e # bs"
    by (rule child_split [OF assms(1,2)])
  have S: "found_ok P S" "counted_from P e S"
    using assms(4) counted_from_mono [OF _ assms(5)] unfolding memory_ok_def by blast+
  note x = seek_exact [OF assms(1) c assms(3) S(1)]
  show "fst (seek P e p S) = position P p (is_element P) True e" "this_run (snd (seek P e p S)) = this_run S"
    using x position_split(1) [OF assms(1) c, of "is_element P"] assms(3) by simp_all
  show "memory_ok P e (snd (seek P e p S))"
    using seek_keeps [OF assms(1) c assms(3) S(1)] S(2) counted_from_cong [of "snd (seek P e p S)" S P e]
    by (simp add: memory_ok_def x)
qed

lemma count_position:
  assumes "page_ok P" "parent_of P e = Some p" "counts e" "memory_ok P low S" "low \<le> e"
    and "u \<Longrightarrow> counts = is_element P \<and> \<not> forward"
  shows "fst (count P counts u forward (if forward then Forward else Back) e p S) = position P p counts forward e"
    "memory_ok P e (snd (count P counts u forward (if forward then Forward else Back) e p S))"
    "this_run (snd (count P counts u forward (if forward then Forward else Back) e p S)) = this_run S"
proof -
  obtain as bs where c: "childNodes P p = as @ e # bs"
    by (rule child_split [OF assms(1,2)])
  let ?r = "count P counts u forward (if forward then Forward else Back) e p S"
  have S: "found_ok P S" "counted_from P low S" "counted_from P e S"
    using assms(4) counted_from_mono [OF _ assms(5)] unfolding memory_ok_def by blast+
  have "fst ?r = position P p counts forward e \<and> memory_ok P e (snd ?r) \<and> this_run (snd ?r) = this_run S"
  proof (cases u)
    case True
    with assms(6) have u: "counts = is_element P" "\<not> forward"
      by auto
    then have "is_element P e"
      using assms(3) by simp
    note r = count_from_end [OF assms(1) c this assms(5) S(2)]
    show ?thesis
      using True u S(1) r found_ok_cong [OF r(3,4), of P] by (simp add: memory_ok_def)
  next
    case False
    then show ?thesis
      using count_uncached [where counts = counts and forward = forward and S = S, OF assms(1) c assms(3)] S
      by (simp add: memory_ok_def)
  qed
  then show "fst ?r = position P p counts forward e" "memory_ok P e (snd ?r)" "this_run (snd ?r) = this_run S"
    by simp_all
qed

lemma type_flags:
  "slice ''first'' 0 3 \<noteq> ''nth''" "slice ''last'' 0 3 \<noteq> ''nth''" "slice ''only'' 0 3 \<noteq> ''nth''"
  "slice ''nth'' 0 3 = ''nth''" "slice ''nth-last'' 0 3 = ''nth''"
  "slice_from ''first'' (-4) \<noteq> ''last''" "slice_from ''last'' (-4) = ''last''" "slice_from ''only'' (-4) \<noteq> ''last''"
  "slice_from ''nth'' (-4) \<noteq> ''last''" "slice_from ''nth-last'' (-4) = ''last''" "''nth-last'' \<noteq> ''nth''"
  by code_simp+

lemma simple_filter:
  assumes "page_ok P" "is_element P e" "args_ok (type, what, first, offset)" "type \<in> {''first'', ''last'', ''only''}"
  shows "CHILD_filter P names xml (type, what, first, offset) e S = (selected P names (type, what, first, offset) e, S)"
proof (cases "parent_of P e")
  case (Some p)
  let ?counts = "\<lambda>n. if what = ''of-type'' then names n = names e else kind_of P n = 1"
  have "?counts e"
    using assms(2) by simp
  note a = alone_exact [where counts = ?counts, OF assms(1) Some this]
  have z: "first = 0" "offset = 0"
    using assms(3,4) by (auto simp: args_ok_def)
  consider "type = ''first''" | "type = ''last''" | "type = ''only''"
    using assms(4) by blast
  then show ?thesis
    using a z Some by cases (simp_all add: CHILD_filter_def selected_def type_flags)
qed (use assms in \<open>auto simp: CHILD_filter_def selected_def args_ok_def Let_def\<close>)

lemma nth_filter:
  assumes "page_ok P" "is_element P e" "what \<in> {''child'', ''of-type''}" "type \<in> {''nth'', ''nth-last''}"
    and "memory_ok P low S" "low \<le> e"
  shows "fst (CHILD_filter P names xml (type, what, first, offset) e S) = selected P names (type, what, first, offset) e"
    "memory_ok P e (snd (CHILD_filter P names xml (type, what, first, offset) e S))"
proof -
  let ?r = "CHILD_filter P names xml (type, what, first, offset) e S"
  have S: "memory_ok P e S"
    using assms(5) counted_from_mono [OF _ assms(6)] unfolding memory_ok_def by blast
  have "fst ?r = selected P names (type, what, first, offset) e \<and> memory_ok P e (snd ?r)"
  proof (cases "parent_of P e")
    case None
    then show ?thesis
      using S by (simp add: CHILD_filter_def selected_def Let_def)
  next
    case (Some p)
    let ?counts = "\<lambda>n. if what = ''of-type'' then names n = names e else kind_of P n = 1"
    let ?forward = "type = ''nth''"
    let ?u = "\<not> xml \<and> what \<noteq> ''of-type''"
    have ce: "?counts e"
      using assms(2) by simp
    have sel: "selected P names (type, what, first, offset) e \<longleftrightarrow> in_cycle (int (position P p ?counts ?forward e)) first offset"
      using assms(4) Some by (auto simp: selected_def in_cycle_exact Let_def)
    show ?thesis
    proof (cases "first = 1 \<and> offset = 0")
      case True
      then have "in_cycle (int (position P p ?counts ?forward e)) first offset"
        unfolding in_cycle_exact by (intro exI [of _ "int (position P p ?counts ?forward e)"]) simp
      then show ?thesis
        using True Some S sel by (simp add: CHILD_filter_def)
    next
      case False
      define seeks where "seeks \<longleftrightarrow> ?forward \<and> ?u"
      have r: "?r = (case (if seeks then seek P e p S
            else count P ?counts ?u ?forward (if ?forward then Forward else Back) e p S) of
          (diff, S') \<Rightarrow> (in_cycle (int diff) first offset, S'))"
        using assms(4) False Some unfolding seeks_def
        by (elim insertE emptyE) (simp_all only: CHILD_filter_def prod.case Let_def type_flags option.case if_False if_True
            refl simp_thms HOL.if_cancel)
      show ?thesis
      proof (cases seeks)
        case True
        then have "?counts = is_element P" ?forward
          by (auto simp: seeks_def)
        then show ?thesis
          using seek_position [OF assms(1) Some assms(2,5,6)] r True sel by (simp add: case_prod_unfold)
      next
        case False
        have "?u \<Longrightarrow> ?counts = is_element P \<and> \<not> ?forward"
          using False by (auto simp: seeks_def)
        then show ?thesis
          using count_position [where counts = ?counts and u = ?u and forward = ?forward, OF assms(1) Some ce assms(5,6)]
            r False sel by (simp add: case_prod_unfold)
      qed
    qed
  qed
  then show "fst ?r = selected P names (type, what, first, offset) e" "memory_ok P e (snd ?r)"
    by simp_all
qed

lemma CHILD_filter_exact:
  assumes "page_ok P" "is_element P e" "args_ok args" "memory_ok P low S" "low \<le> e"
  shows "fst (CHILD_filter P names xml args e S) = selected P names args e"
    "memory_ok P e (snd (CHILD_filter P names xml args e S))"
proof -
  obtain type what first offset where a: "args = (type, what, first, offset)"
    by (metis prod_cases4)
  have S: "memory_ok P e S"
    using assms(4) counted_from_mono [OF _ assms(5)] unfolding memory_ok_def by blast
  consider "type \<in> {''first'', ''last'', ''only''}" | "type \<in> {''nth'', ''nth-last''}" "what \<in> {''child'', ''of-type''}"
    using assms(3) a by (auto simp: args_ok_def)
  then have "fst (CHILD_filter P names xml args e S) = selected P names args e \<and>
      memory_ok P e (snd (CHILD_filter P names xml args e S))"
  proof cases
    case 1
    then show ?thesis
      using simple_filter [OF assms(1,2) assms(3) [unfolded a] 1] S a by simp
  next
    case 2
    then show ?thesis
      using nth_filter [OF assms(1,2) 2(2,1) assms(4,5)] a by simp
  qed
  then show "fst (CHILD_filter P names xml args e S) = selected P names args e"
    "memory_ok P e (snd (CHILD_filter P names xml args e S))"
    by simp_all
qed

lemma selected_nth:
  assumes "type \<in> {''nth'', ''nth-last''}"
  shows "selected P names (type, what, a, b) e \<longleftrightarrow>
    (\<exists>p. parent_of P e = Some p \<and>
      (\<exists>n\<ge>0. int (position P p (\<lambda>m. if what = ''of-type'' then names m = names e else kind_of P m = 1) (type = ''nth'') e) = a * n + b))"
  using assms by (elim insertE emptyE) (simp_all add: selected_def)

lemma CHILD_run_exact:
  assumes "page_ok P" "args_ok args" "memory_ok P low S" "\<forall>e\<in>set es. is_element P e \<and> low \<le> e" "sorted es"
  shows "fst (CHILD_run P names xml args es S) = filter (selected P names args) es"
  using assms(3-5)
proof (induction es arbitrary: low S)
  case (Cons e es)
  have e: "is_element P e" "low \<le> e"
    using Cons.prems(2) by simp_all
  note f = CHILD_filter_exact [OF assms(1) e(1) assms(2) Cons.prems(1) e(2), of names xml]
  have "fst (CHILD_run P names xml args es (snd (CHILD_filter P names xml args e S))) = filter (selected P names args) es"
    using Cons.IH [OF f(2)] Cons.prems(2,3) by simp
  then show ?case
    using f(1) by (simp add: case_prod_unfold Let_def)
qed simp

section \<open>Arguments as texts\<close>

definition sign_text :: "int \<Rightarrow> string" where
  "sign_text a = (if a < 0 then ''-'' else ''+'')"

definition number_text :: "int \<Rightarrow> string" where
  "number_text a = sign_text a @ dec (nat \<bar>a\<bar>)"

definition argument_text :: "int \<Rightarrow> int \<Rightarrow> string" where
  "argument_text a b = number_text a @ ''n'' @ number_text b"

definition nth_text :: "string \<Rightarrow> string \<Rightarrow> int \<Rightarrow> int \<Rightarrow> string" where
  "nth_text type what a b = '':'' @ type @ ''-'' @ what @ ''('' @ argument_text a b @ '')''"

lemma signed_value_text [simp]: "signed_value (sign_text a) (dec (nat \<bar>a\<bar>)) = a"
  by (simp add: signed_value_def sign_text_def)

lemma leads_sign: "leads rx_sign (cap, sign_text a @ s) (cap, s)"
  unfolding rx_sign_def by (rule leads_left) (simp add: leads_def sign_text_def)

lemma leads_digits: "(case s of [] \<Rightarrow> True | c # _ \<Rightarrow> \<not> is_digit c) \<Longrightarrow> leads (RStar is_digit) (cap, dec n @ s) (cap, s)"
  using dec_digits by (intro leads_star) auto

lemma leads_some_digits:
  assumes "case s of [] \<Rightarrow> True | c # _ \<Rightarrow> \<not> is_digit c"
  shows "leads (RSeq (RClass is_digit) (RStar is_digit)) (cap, dec n @ s) (cap, s)"
proof -
  obtain c t where d: "dec n = c # t"
    by (cases "dec n") auto
  then have "is_digit c" "\<forall>x\<in>set t. is_digit x"
    using dec_digits [of _ n] by auto
  then show ?thesis
    unfolding d append_Cons using leads_star [OF _ assms] by (intro leads_seq [OF leads_class]) auto
qed

lemma leads_no_space:
  "(case s of [] \<Rightarrow> True | c # _ \<Rightarrow> \<not> css_space c) \<Longrightarrow> leads rx_space (cap, s) (cap, s)"
  unfolding rx_space_def using leads_star [of "[]" css_space s cap] by simp

lemma sign_first: "sign_text a @ s = (if a < 0 then CHR ''-'' else CHR ''+'') # s"
  by (simp add: sign_text_def)

lemma digit_first:
  obtains c t where "dec n @ s = c # t" "is_digit c"
  using dec_digits [of _ n] by (cases "dec n") auto

lemma not_space_digit: "is_digit c \<Longrightarrow> \<not> css_space c"
  by (auto simp: is_digit_def css_space_def)

lemma leads_space_digits: "leads rx_space (cap, dec n @ s) (cap, dec n @ s)"
  by (rule digit_first [of n s]) (use leads_no_space not_space_digit in auto)

lemma leads_space_sign: "leads rx_space (cap, sign_text a @ s) (cap, sign_text a @ s)"
  by (rule leads_no_space) (simp add: sign_text_def css_space_def)

lemma leads_word: "leads (ci [c]) (cap, c # s) (cap, s)" if "lower_char c = c"
  using that by (simp add: leads_def ci_def)

lemma leads_argument:
  "\<exists>cap'. leads rx_argument (cap, argument_text a b @ CHR '')'' # s) (cap', CHR '')'' # s) \<and>
     cap' 1 = cap 1 \<and> cap' 2 = cap 2 \<and> cap' 3 = argument_text a b \<and> cap' 4 = number_text a @ ''n'' \<and>
     cap' 5 = sign_text a \<and> cap' 6 = dec (nat \<bar>a\<bar>) \<and> cap' 7 = sign_text b \<and> cap' 8 = dec (nat \<bar>b\<bar>)"
proof -
  let ?rparen = "CHR '')'' # s"
  let ?n = "dec (nat \<bar>a\<bar>)" and ?m = "dec (nat \<bar>b\<bar>)"
  let ?rest = "sign_text b @ ?m @ ?rparen"
  let ?c1 = "cap(5 := sign_text a, 6 := ?n, 4 := number_text a @ ''n'')"
  let ?c2 = "?c1(7 := sign_text b, 8 := ?m)"
  let ?text = "argument_text a b @ ?rparen"
  have t: "?text = (number_text a @ ''n'') @ ?rest" "?text = sign_text a @ ?n @ ''n'' @ ?rest"
    by (simp_all add: argument_text_def number_text_def)
  have "leads (rx_seq [RGroup 5 rx_sign, RGroup 6 (RStar is_digit), ci ''n'']) (cap, ?text)
      (cap(5 := sign_text a, 6 := ?n), ?rest)"
    unfolding t(2) rx_seq.simps
    by (rule leads_seq [OF leads_capture [OF leads_sign] leads_seq [OF leads_capture [OF leads_digits]]])
       (use leads_word [of "CHR ''n''"] in \<open>simp_all add: lower_char_def is_digit_def\<close>)
  then have x: "leads (RGroup 4 (rx_alt [rx_seq [RGroup 5 rx_sign, RGroup 6 (RStar is_digit), ci ''n''], REmpty])) (cap, ?text)
      (?c1, ?rest)"
    unfolding t(1) rx_alt.simps by (intro leads_capture leads_left)
  have "leads (rx_seq [RGroup 7 rx_sign, rx_space, RGroup 8 (RSeq (RClass is_digit) (RStar is_digit))]) (?c1, ?rest) (?c2, ?rparen)"
    unfolding rx_seq.simps
    by (rule leads_seq [OF leads_capture [OF leads_sign] leads_seq [OF leads_space_digits leads_capture [OF leads_some_digits]]])
       (simp add: is_digit_def)
  then have y: "leads (rx_alt [rx_seq [RGroup 7 rx_sign, rx_space, RGroup 8 (RSeq (RClass is_digit) (RStar is_digit))], REmpty])
      (?c1, ?rest) (?c2, ?rparen)"
    unfolding rx_alt.simps by (rule leads_left)
  have none: "runs (ci ''even'') (cap, ?text) = []" "runs (ci ''odd'') (cap, ?text) = []"
    by (simp_all add: t(2) ci_def sign_text_def lower_char_def)
  have "leads (rx_alt
       [ci ''even'', ci ''odd'',
        rx_seq
         [RGroup 4 (rx_alt [rx_seq [RGroup 5 rx_sign, RGroup 6 (RStar is_digit), ci ''n''], REmpty]), rx_space,
          rx_alt [rx_seq [RGroup 7 rx_sign, rx_space, RGroup 8 (RSeq (RClass is_digit) (RStar is_digit))], REmpty]]])
      (cap, argument_text a b @ ?rparen) (?c2, ?rparen)"
    unfolding rx_alt.simps(3) [of "ci ''even''"] rx_alt.simps(3) [of "ci ''odd''"] rx_alt.simps(2)
      rx_seq.simps(3) [of "RGroup 4 _"] rx_seq.simps(3) [of rx_space "rx_alt _"] rx_seq.simps(2) [of "rx_alt _"]
    by (intro leads_right [OF none(1)] leads_right [OF none(2)] leads_seq [OF x] leads_seq [OF leads_space_sign y])
  from leads_capture [OF this, of 3] show ?thesis
    unfolding rx_argument_def [symmetric] by (intro exI conjI) (assumption, simp_all)
qed

text \<open>The words in front of the parenthesis.\<close>

definition rx_kind :: "rx \<Rightarrow> rx" where
  "rx_kind r = RSeq (RGroup 1 (rx_alt (map ci [''only'', ''first'', ''last'', ''nth'', ''nth-last''])))
     (RSeq (rx_char CHR ''-'') (RSeq (RGroup 2 (rx_alt (map ci [''child'', ''of-type'']))) r))"

lemma rx_CHILD_unfold:
  "rx_CHILD = RSeq (rx_char CHR '':'')
     (rx_kind (RAlt (RSeq (rx_char CHR ''('') (RSeq rx_space (RSeq rx_argument (RSeq rx_space (rx_char CHR '')''))))) REmpty))"
  by (simp add: rx_CHILD_def rx_kind_def)

lemma leads_kind:
  assumes "type \<in> {''only'', ''first'', ''last'', ''nth'', ''nth-last''}" "what \<in> {''child'', ''of-type''}"
    and "leads r (cap(1 := type, 2 := what), s) st"
  shows "leads (rx_kind r) (cap, type @ CHR ''-'' # what @ s) st"
  using assms
  by (auto simp: leads_def rx_kind_def ci_def rx_char_def lower_char_def)

lemma reads_nth:
  assumes "type \<in> {''nth'', ''nth-last''}" "what \<in> {''child'', ''of-type''}"
  shows "\<exists>g. exec_front rx_CHILD (nth_text type what a b @ s) = Some (g, s) \<and> preFilter_CHILD g = Some (type, what, a, b) \<and>
     g 3 = argument_text a b"
proof -
  let ?cap = "(\<lambda>_. [])(1 := type, 2 := what)"
  obtain g where g: "leads rx_argument (?cap, argument_text a b @ CHR '')'' # s) (g, CHR '')'' # s)"
    "g 1 = type" "g 2 = what" "g 3 = argument_text a b" "g 4 = number_text a @ ''n''"
    "g 5 = sign_text a" "g 6 = dec (nat \<bar>a\<bar>)" "g 7 = sign_text b" "g 8 = dec (nat \<bar>b\<bar>)"
    using leads_argument [of ?cap a b s] by auto
  have sp: "leads rx_space (?cap, argument_text a b @ CHR '')'' # s) (?cap, argument_text a b @ CHR '')'' # s)"
    "leads rx_space (g, CHR '')'' # s) (g, CHR '')'' # s)"
    using leads_space_sign [of ?cap a] by (simp add: argument_text_def number_text_def) (simp add: leads_no_space css_space_def)
  have c: "leads (rx_char x) (cap, x # t) (cap, t)" for x cap t
    unfolding rx_char_def by (rule leads_class) simp
  have "leads (RSeq (rx_char CHR ''('') (RSeq rx_space (RSeq rx_argument (RSeq rx_space (rx_char CHR '')'')))))
      (?cap, CHR ''('' # argument_text a b @ CHR '')'' # s) (g, s)"
    by (rule leads_seq [OF c leads_seq [OF sp(1) leads_seq [OF g(1) leads_seq [OF sp(2) c]]]])
  then have "leads (rx_kind (RAlt (RSeq (rx_char CHR ''('') (RSeq rx_space (RSeq rx_argument (RSeq rx_space (rx_char CHR '')''))))) REmpty))
      (\<lambda>_. [], type @ CHR ''-'' # what @ CHR ''('' # argument_text a b @ CHR '')'' # s) (g, s)"
    using assms by (intro leads_kind leads_left) auto
  then have "leads rx_CHILD (\<lambda>_. [], nth_text type what a b @ s) (g, s)"
    unfolding rx_CHILD_unfold using leads_seq [OF c] by (simp add: nth_text_def)
  moreover have "preFilter_CHILD g = Some (type, what, a, b)"
  proof -
    have "to_lower type = type" "slice type 0 3 = ''nth''"
      using assms(1) by (auto simp: to_lower_def lower_char_def type_flags)
    moreover have "argument_text a b \<noteq> []"
      by (simp add: argument_text_def)
    ultimately show ?thesis
      using g(2-) by (simp add: preFilter_CHILD_def Let_def)
  qed
  ultimately show ?thesis
    using leads_front g(4) by blast
qed

lemma reads_simple:
  assumes "type \<in> {''first'', ''last'', ''only''}" "what \<in> {''child'', ''of-type''}" "case s of [] \<Rightarrow> True | c # _ \<Rightarrow> c \<noteq> CHR ''(''"
  shows "\<exists>g. exec_front rx_CHILD ('':'' @ type @ ''-'' @ what @ s) = Some (g, s) \<and> preFilter_CHILD g = Some (type, what, 0, 0)"
proof -
  let ?cap = "(\<lambda>_. [])(1 := type, 2 := what)"
  have c: "leads (rx_char x) (cap, x # t) (cap, t)" for x cap t
    unfolding rx_char_def by (rule leads_class) simp
  have "runs (RSeq (rx_char CHR ''('') r) (?cap, s) = []" for r
    using assms(3) by (cases s) (simp_all add: rx_char_def)
  then have "leads (rx_kind (RAlt (RSeq (rx_char CHR ''('') (RSeq rx_space (RSeq rx_argument (RSeq rx_space (rx_char CHR '')''))))) REmpty))
      (\<lambda>_. [], type @ CHR ''-'' # what @ s) (?cap, s)"
    using assms(1,2) by (intro leads_kind leads_right leads_empty) auto
  then have "leads rx_CHILD (\<lambda>_. [], '':'' @ type @ ''-'' @ what @ s) (?cap, s)"
    unfolding rx_CHILD_unfold using leads_seq [OF c] by simp
  moreover have "preFilter_CHILD ?cap = Some (type, what, 0, 0)"
    using assms(1) by (auto simp: preFilter_CHILD_def Let_def to_lower_def lower_char_def type_flags)
  ultimately show ?thesis
    using leads_front by blast
qed

section \<open>Properties\<close>

definition fresh :: "memory \<Rightarrow> bool" where
  "fresh S \<longleftrightarrow> (\<forall>p i d. found_at S p \<noteq> Some (this_run S, i, d)) \<and> (\<forall>m k. counted S m \<noteq> Some (this_run S, k))"

lemma fresh_ok: "fresh S \<Longrightarrow> memory_ok P low S"
  by (simp add: fresh_def memory_ok_def found_ok_def counted_from_def)

text \<open>
  C12. A filter \<open>:nth-child(an+b)\<close> (or \<open>nth-last\<close>, \<open>of-type\<close>), read from its text and run over elements in document
  order, keeps exactly the elements whose position among their siblings is \<open>a * n + b\<close> for some natural \<open>n\<close>; what it remembers on the way
  never changes an answer.
\<close>

theorem nth_filter_exact:
  assumes "page_ok P" "type \<in> {''nth'', ''nth-last''}" "what \<in> {''child'', ''of-type''}"
    and "fresh S" "sorted es" "\<forall>e\<in>set es. kind_of P e = 1"
  shows "\<exists>g args. exec_front rx_CHILD (nth_text type what a b) = Some (g, []) \<and> preFilter_CHILD g = Some args \<and>
     set (fst (CHILD_run P names xml args es S)) =
       {e \<in> set es. \<exists>p n. n \<ge> 0 \<and> parent_of P e = Some p \<and>
          int (position P p (\<lambda>m. if what = ''of-type'' then names m = names e else kind_of P m = 1) (type = ''nth'') e) = a * n + b}"
proof -
  let ?args = "(type, what, a, b)"
  obtain g where g: "exec_front rx_CHILD (nth_text type what a b) = Some (g, [])" "preFilter_CHILD g = Some ?args"
    using reads_nth [OF assms(2,3), of a b "[]"] by auto
  have "fst (CHILD_run P names xml ?args es S) = filter (selected P names ?args) es"
    using assms by (intro CHILD_run_exact [OF assms(1) _ fresh_ok, where low = 0]) (auto simp: args_ok_def)
  then have "set (fst (CHILD_run P names xml ?args es S)) = {e \<in> set es. selected P names ?args e}"
    by simp
  also have "\<dots> = {e \<in> set es. \<exists>p n. n \<ge> 0 \<and> parent_of P e = Some p \<and>
          int (position P p (\<lambda>m. if what = ''of-type'' then names m = names e else kind_of P m = 1) (type = ''nth'') e) = a * n + b}"
    using selected_nth [OF assms(2), of P names what a b] by blast
  finally show ?thesis
    using g by blast
qed

text \<open>Of a body with three paragraphs, the first and the third are in odd places.\<close>

definition three_paragraphs :: page where
  "three_paragraphs = \<lparr>kinds = [9, 1, 1, 1, 1], parents = [None, Some 0, Some 1, Some 1, Some 1]\<rparr>"

definition new_run :: memory where
  "new_run = \<lparr>this_run = 1, found_at = \<lambda>_. None, counted = \<lambda>_. None\<rparr>"

lemma three_ok: "page_ok three_paragraphs" "fresh new_run"
  by code_simp (simp add: fresh_def new_run_def)

lemma nth_filter_exact_witness:
  "\<exists>g args. exec_front rx_CHILD (nth_text ''nth'' ''child'' 2 1) = Some (g, []) \<and> preFilter_CHILD g = Some args \<and>
     set (fst (CHILD_run three_paragraphs (\<lambda>_. ''p'') False args [2, 3, 4] new_run)) =
       {e \<in> set [2, 3, 4]. \<exists>p n. n \<ge> 0 \<and> parent_of three_paragraphs e = Some p \<and>
          int (position three_paragraphs p (\<lambda>m. if ''child'' = ''of-type'' then ''p'' = ''p'' else kind_of three_paragraphs m = 1)
            (''nth'' = ''nth'') e) = 2 * n + 1}"
proof (rule nth_filter_exact)
  show "\<forall>e\<in>set [2, 3, 4]. kind_of three_paragraphs e = 1"
    by code_simp
qed (simp_all add: three_ok)

text \<open>
  The last paragraph before the first: counting from the last one begins at its previous sibling and leaves wrong
  numbers on the paragraphs before it, so that the first paragraph is not the third from the end.
\<close>

lemma nth_last_goes_wrong:
  "selected three_paragraphs (\<lambda>_. ''p'') (''nth-last'', ''child'', 0, 3) 2"
  "fst (CHILD_filter three_paragraphs (\<lambda>_. ''p'') False (''nth-last'', ''child'', 0, 3) 2 new_run)"
  "\<not> fst (CHILD_filter three_paragraphs (\<lambda>_. ''p'') False (''nth-last'', ''child'', 0, 3) 2
      (snd (CHILD_filter three_paragraphs (\<lambda>_. ''p'') False (''nth-last'', ''child'', 0, 1) 4 new_run)))"
proof -
  have "fst (CHILD_filter three_paragraphs (\<lambda>_. ''p'') False (''nth-last'', ''child'', 0, 3) 2 new_run) =
      selected three_paragraphs (\<lambda>_. ''p'') (''nth-last'', ''child'', 0, 3) 2"
    by (rule CHILD_filter_exact(1) [OF three_ok(1) _ _ fresh_ok [OF three_ok(2)], where low = 0]) code_simp+
  moreover show "fst (CHILD_filter three_paragraphs (\<lambda>_. ''p'') False (''nth-last'', ''child'', 0, 3) 2 new_run)"
    by code_simp
  ultimately show "selected three_paragraphs (\<lambda>_. ''p'') (''nth-last'', ''child'', 0, 3) 2"
    by simp
qed code_simp

text \<open>The regular expression accepts \<open>EVEN\<close>, the comparison that follows does not: the numbers become 0 and 0.\<close>

lemma even_in_capitals:
  "map_option (\<lambda>(g, r). (preFilter_CHILD g, r)) (exec_front rx_CHILD '':nth-child(EVEN)'') = Some (Some (''nth'', ''child'', 0, 0), [])"
  "map_option (\<lambda>(g, r). (preFilter_CHILD g, r)) (exec_front rx_CHILD '':nth-child(even)'') = Some (Some (''nth'', ''child'', 2, 0), [])"
  by code_simp+

end
