(* ===== verification/JqEscape.thy ===== *)
theory JqEscape
  imports JsUri JsRegex
begin

text \<open>
  Escapes in selectors of \<open>jquery.js\<close> (Sizzle): \<open>runescape\<close> and \<open>funescape\<close>, which resolve them, and
  \<open>rcssescape\<close> and \<open>fcssescape\<close> behind \<open>jQuery.escapeSelector\<close>.  Texts are lists of UTF-16 code units.
\<close>

unbundle bit_operations_syntax

section \<open>Resolving escapes\<close>

definition css_blank :: "nat \<Rightarrow> bool" where
  "css_blank u \<longleftrightarrow> u \<in> {0x20, 9, 13, 10, 12}"

definition line_end :: "nat \<Rightarrow> bool" where
  "line_end u \<longleftrightarrow> u \<in> {10, 13, 0x2028, 0x2029}"

text \<open>Up to six hexadecimal digits.\<close>

fun take_hex :: "nat \<Rightarrow> nat list \<Rightarrow> nat list" where
  "take_hex 0 s = []"
| "take_hex (Suc n) [] = []"
| "take_hex (Suc n) (u # s) = (if hex_value u \<noteq> None then u # take_hex n s else [])"

definition hex_number :: "nat list \<Rightarrow> nat" where
  "hex_number ds = foldl (\<lambda>v u. 16 * v + the (hex_value u)) 0 ds"

text \<open>\<open>funescape\<close> of a number.\<close>

definition code_units :: "nat \<Rightarrow> nat list" where
  "code_units v =
     (if v < 0x10000 then [v]
      else let high = v - 0x10000 in [drop_bit 10 high OR 0xD800, (high AND 0x3FF) OR 0xDC00])"

definition skip_blank :: "nat list \<Rightarrow> nat list" where
  "skip_blank s = (case s of [] \<Rightarrow> [] | u # r \<Rightarrow> if css_blank u then r else s)"

lemma length_take_hex: "length (take_hex n s) \<le> length s"
  by (induction n s rule: take_hex.induct) auto

lemma length_skip_blank: "length (skip_blank s) \<le> length s"
  by (simp add: skip_blank_def split: list.split)

text \<open>\<open>s.replace( runescape, funescape )\<close>\<close>

function unescape :: "nat list \<Rightarrow> nat list" where
  "unescape [] = []"
| "unescape (u # s) =
     (if u \<noteq> 92 then u # unescape s
      else
        let ds = take_hex 6 s
        in if ds \<noteq> [] then code_units (hex_number ds) @ unescape (skip_blank (drop (length ds) s))
           else case s of
             [] \<Rightarrow> [u]
           | c # r \<Rightarrow> if css_blank c \<or> \<not> line_end c then c # unescape r else u # unescape s)"
  by pat_completeness auto
termination
proof (relation "measure length", goal_cases)
  case (3 u s ds)
  have "length (skip_blank (drop (length ds) s)) \<le> length s"
    using length_skip_blank [of "drop (length ds) s"] by simp
  then show ?case
    by simp
qed auto

section \<open>Escaping\<close>

fun hex_text :: "nat \<Rightarrow> nat list" where
  "hex_text n =
     (let d = (\<lambda>k. if k < 10 then 48 + k else 87 + k)
      in if n < 16 then [d n] else hex_text (n div 16) @ [d (n mod 16)])"

declare hex_text.simps [simp del]

definition digit_unit :: "nat \<Rightarrow> bool" where
  "digit_unit u \<longleftrightarrow> 48 \<le> u \<and> u \<le> 57"

text \<open>\<open>\w\<close>\<close>

definition word_unit :: "nat \<Rightarrow> bool" where
  "word_unit u \<longleftrightarrow> digit_unit u \<or> 65 \<le> u \<and> u \<le> 90 \<or> 97 \<le> u \<and> u \<le> 122 \<or> u = 95"

text \<open>\<open>fcssescape\<close> of a code point and of another character.\<close>

definition as_code_point :: "nat \<Rightarrow> nat list" where
  "as_code_point u = (if u = 0 then [0xFFFD] else 92 # hex_text u @ [32])"

definition escape_unit :: "nat \<Rightarrow> nat list" where
  "escape_unit u =
     (if u \<le> 0x1f \<or> u = 0x7f then as_code_point u
      else if u < 0x7f \<and> \<not> word_unit u \<and> u \<noteq> 45 then [92, u]
      else [u])"

definition escape_units :: "nat list \<Rightarrow> nat list" where
  "escape_units s = concat (map escape_unit s)"

text \<open>\<open>Sizzle.escape\<close>; a digit at the front, or behind a minus sign there, is escaped as a code point.\<close>

definition css_escape :: "nat list \<Rightarrow> nat list" where
  "css_escape s =
     (case s of
        [] \<Rightarrow> []
      | u # r \<Rightarrow>
          if digit_unit u then as_code_point u @ escape_units r
          else if u = 45
          then (case r of
                  [] \<Rightarrow> [92, 45]
                | d # r' \<Rightarrow> if digit_unit d then u # as_code_point d @ escape_units r' else escape_units s)
          else escape_units s)"

section \<open>Facts\<close>

lemma hex_value_low: "k < 16 \<Longrightarrow> hex_value (if k < 10 then 48 + k else 87 + k) = Some k"
  by (auto simp: hex_value_def)

lemma take_hex_steps:
  "take_hex 6 (u # s) = (if hex_value u \<noteq> None then u # take_hex 5 s else [])"
  "take_hex 5 (u # s) = (if hex_value u \<noteq> None then u # take_hex 4 s else [])"
  "take_hex 4 (u # s) = (if hex_value u \<noteq> None then u # take_hex 3 s else [])"
  using take_hex.simps(3) [of 5 u s] take_hex.simps(3) [of 4 u s] take_hex.simps(3) [of 3 u s] by simp_all

lemma hex_text_small: "u < 256 \<Longrightarrow> take_hex 6 (hex_text u @ 32 # s) = hex_text u \<and> hex_number (hex_text u) = u \<and> hex_text u \<noteq> []"
proof -
  assume u: "u < 256"
  let ?d = "\<lambda>k. if k < 10 then 48 + k else 87 + k :: nat"
  have b: "hex_value 32 = None"
    by (simp add: hex_value_def)
  show ?thesis
  proof (cases "u < 16")
    case True
    then have h: "hex_text u = [?d u]"
      by (simp add: hex_text.simps [of u])
    show ?thesis
      unfolding h using hex_value_low [OF True] b by (simp add: hex_number_def take_hex_steps split del: if_split)
  next
    case False
    then have "u div 16 < 16"
      using u by auto
    then have h: "hex_text u = [?d (u div 16), ?d (u mod 16)]"
      using False by (simp add: hex_text.simps [of u] hex_text.simps [of "u div 16"] Let_def)
    have v: "hex_value (?d (u div 16)) = Some (u div 16)" "hex_value (?d (u mod 16)) = Some (u mod 16)"
      using \<open>u div 16 < 16\<close> by (intro hex_value_low; simp)+
    show ?thesis
      unfolding h using v b by (simp add: hex_number_def take_hex_steps split del: if_split)
  qed
qed

lemma unescape_code_point: "0 < u \<Longrightarrow> u < 256 \<Longrightarrow> unescape (as_code_point u @ s) = u # unescape s"
  using hex_text_small [of u s] by (simp add: as_code_point_def code_units_def skip_blank_def css_blank_def)

lemma unescape_unit:
  assumes "0 < u"
  shows "unescape (escape_unit u @ s) = u # unescape s"
proof -
  consider "u \<le> 0x1f \<or> u = 0x7f" | "\<not> (u \<le> 0x1f \<or> u = 0x7f)" "u < 0x7f \<and> \<not> word_unit u \<and> u \<noteq> 45"
    | "\<not> (u \<le> 0x1f \<or> u = 0x7f)" "\<not> (u < 0x7f \<and> \<not> word_unit u \<and> u \<noteq> 45)"
    by blast
  then show ?thesis
  proof cases
    case 1
    then show ?thesis
      using assms unescape_code_point [of u s] by (auto simp: escape_unit_def)
  next
    case 2
    then have "hex_value u = None"
      by (auto simp: hex_value_def word_unit_def digit_unit_def)
    then have "take_hex 6 (u # s) = []"
      by (simp add: take_hex_steps)
    moreover have "css_blank u \<or> \<not> line_end u"
      using 2(2) by (auto simp: css_blank_def line_end_def)
    ultimately show ?thesis
      using 2 by (simp add: escape_unit_def)
  next
    case 3
    then have "u \<noteq> 92"
      by (auto simp: word_unit_def digit_unit_def)
    moreover have "escape_unit u = [u]"
      using 3 by (simp add: escape_unit_def)
    ultimately show ?thesis
      by simp
  qed
qed

lemma unescape_units: "0 \<notin> set s \<Longrightarrow> unescape (escape_units s @ t) = s @ unescape t"
  by (induction s) (simp_all add: escape_units_def unescape_unit)

text \<open>Resolving the escapes of \<open>jQuery.escapeSelector\<close> gives the text back; only \<open>NUL\<close> is lost.\<close>

lemma css_escape_roundtrip:
  assumes "0 \<notin> set s"
  shows "unescape (css_escape s) = s"
proof (cases s)
  case (Cons u r)
  have u: "0 < u" "0 \<notin> set r"
    using assms Cons by auto
  have d: "digit_unit x \<Longrightarrow> 0 < x \<and> x < 256" for x
    by (simp add: digit_unit_def)
  have e: "unescape (escape_units s) = s"
    using unescape_units [OF assms, of "[]"] by simp
  have t: "unescape (escape_units r') = r'" if "0 \<notin> set r'" for r'
    using unescape_units [OF that, of "[]"] by simp
  show ?thesis
  proof (cases "digit_unit u")
    case True
    then show ?thesis
      using Cons d unescape_code_point u t by (simp add: css_escape_def)
  next
    case False
    show ?thesis
    proof (cases "u = 45")
      case True
      show ?thesis
      proof (cases r)
        case Nil
        then show ?thesis
          using Cons True by (simp add: css_escape_def digit_unit_def hex_value_def take_hex_steps line_end_def)
      next
        case (Cons d' r')
        then show ?thesis
          using \<open>s = u # r\<close> True False d unescape_code_point u t e by (simp add: css_escape_def)
      qed
    next
      case neq: False
      then show ?thesis
        using Cons False e by (simp add: css_escape_def)
    qed
  qed
qed (simp add: css_escape_def)

lemma nul_is_lost: "unescape (css_escape [0]) = [0xFFFD]"
  by (simp add: css_escape_def escape_units_def escape_unit_def as_code_point_def digit_unit_def)

end
