(* ===== verification/JqTokenize.thy ===== *)
theory JqTokenize
  imports JqNth JqEscape JqMatch
begin

text \<open>
  The tokenizer of \<open>jquery.js\<close> (Sizzle): the regular expressions \<open>matchExpr\<close>, the pre-filters of attributes and pseudo-classes,
  \<open>tokenize\<close> with its cache, and \<open>toSelector\<close>.  Selectors are texts of characters below 256; what a pre-filter
  takes out of them may hold any code unit.
\<close>

section \<open>Caches of limited size\<close>

record 'v cache =
  cache_keys :: "string list"
  cache_entries :: "string \<Rightarrow> 'v option"

definition createCache :: "'v cache" where
  "createCache = \<lparr>cache_keys = [], cache_entries = \<lambda>_. None\<rparr>"

definition cache_put :: "nat \<Rightarrow> string \<Rightarrow> 'v \<Rightarrow> 'v cache \<Rightarrow> 'v cache" where
  "cache_put cacheLength key v c =
     (let keys = cache_keys c @ [key @ '' ''];
          c' = (if length keys > cacheLength
                then \<lparr>cache_keys = tl keys, cache_entries = (cache_entries c)(hd keys := None)\<rparr>
                else \<lparr>cache_keys = keys, cache_entries = cache_entries c\<rparr>)
      in c'\<lparr>cache_entries := (cache_entries c')(key @ '' '' := Some v)\<rparr>)"

definition cache_get :: "string \<Rightarrow> 'v cache \<Rightarrow> 'v option" where
  "cache_get key c = cache_entries c (key @ '' '')"

section \<open>Regular expressions\<close>

definition rx_escape :: rx where
  "rx_escape = RSeq (rx_char CHR 0x5C) (RClass not_newline)"

definition name_char :: "char \<Rightarrow> bool" where
  "name_char c \<longleftrightarrow> word_unit (of_char c) \<or> c = CHR ''-''"

definition rx_name_unit :: rx where
  "rx_name_unit = rx_alt [rx_escape, RClass name_char, RClass (\<lambda>c. (of_char c :: nat) > 0xa0)]"

definition rx_identifier :: rx where
  "rx_identifier = RSeq rx_name_unit (RMany rx_name_unit)"

text \<open>The text between two quotes.\<close>

definition rx_quoted :: "nat \<Rightarrow> char \<Rightarrow> rx" where
  "rx_quoted n q =
     rx_seq [rx_char q, RGroup n (RMany (rx_alt [rx_escape, RClass (\<lambda>c. c \<noteq> CHR 0x5C \<and> c \<noteq> q)])), rx_char q]"

text \<open>\<open>attributes\<close>, whose groups are numbered from \<open>n + 1\<close>.\<close>

definition rx_attributes :: "nat \<Rightarrow> rx" where
  "rx_attributes n =
     rx_seq
       [rx_char CHR ''['', rx_space, RGroup (n + 1) rx_identifier,
        rx_alt
          [rx_seq
             [rx_space,
              RGroup (n + 2) (RSeq (ROpt (RClass (\<lambda>c. c \<in> set ''*^$|!~''))) (rx_char CHR ''='')),
              rx_space,
              rx_alt [rx_quoted (n + 3) (CHR 0x27), rx_quoted (n + 4) (CHR 0x22), RGroup (n + 5) rx_identifier]],
           REmpty],
        rx_space, rx_char CHR '']'']"

definition rx_pseudos :: rx where
  "rx_pseudos =
     rx_seq
       [rx_char CHR '':'', RGroup 1 rx_identifier,
        rx_alt
          [rx_seq
             [rx_char CHR ''('',
              RGroup 2
                (rx_alt
                  [RGroup 3 (rx_alt [rx_quoted 4 (CHR 0x27), rx_quoted 5 (CHR 0x22)]),
                   RGroup 6 (RMany (rx_alt [rx_escape, RClass (\<lambda>c. c \<notin> {CHR 0x5C, CHR ''('', CHR '')'', CHR ''['', CHR '']''}), rx_attributes 6])),
                   RStar not_newline]),
              rx_char CHR '')''],
           REmpty]]"

definition rcomma :: rx where
  "rcomma = rx_seq [rx_space, rx_char CHR '','', rx_space]"

definition rcombinators :: rx where
  "rcombinators =
     rx_seq
       [rx_space, RGroup 1 (RAlt (RClass (\<lambda>c. c \<in> set ''>+~'')) (RClass css_space)), rx_space]"

definition rx_ID :: rx where
  "rx_ID = RSeq (rx_char CHR ''#'') (RGroup 1 rx_identifier)"

definition rx_CLASS :: rx where
  "rx_CLASS = RSeq (rx_char CHR ''.'') (RGroup 1 rx_identifier)"

definition rx_TAG :: rx where
  "rx_TAG = RGroup 1 (RAlt rx_identifier (rx_char CHR ''*''))"

text \<open>\<open>matchExpr\<close>; the types in the order of the properties of \<open>Expr.filter\<close>, \<open>ID\<close> being added last.\<close>

datatype ftype = TAG_type | CLASS_type | ATTR_type | CHILD_type | PSEUDO_type | ID_type

definition filter_types :: "ftype list" where
  "filter_types = [TAG_type, CLASS_type, ATTR_type, CHILD_type, PSEUDO_type, ID_type]"

fun matchExpr :: "ftype \<Rightarrow> rx" where
  "matchExpr TAG_type = rx_TAG"
| "matchExpr CLASS_type = rx_CLASS"
| "matchExpr ATTR_type = rx_attributes 0"
| "matchExpr CHILD_type = rx_CHILD"
| "matchExpr PSEUDO_type = rx_pseudos"
| "matchExpr ID_type = rx_ID"

section \<open>Tokens\<close>

definition units :: "string \<Rightarrow> nat list" where
  "units s = map of_char s"

text \<open>
  A token: a combinator, or a filter with the groups handed on to it.  A group that took no part in the match is
  empty; for \<open>CHILD\<close> the numbers have been read.
\<close>

datatype item =
  Combined kind
| Captured ftype "nat list list"
| Numbers string string string int int  \<comment> \<open>type, what, argument, first, last\<close>

record tok =
  tok_value :: string
  tok_item :: item

definition toSelector :: "tok list \<Rightarrow> string" where
  "toSelector ts = concat (map tok_value ts)"

text \<open>The type of a combinator: white space is cast to a blank.\<close>

definition kind_of_text :: "string \<Rightarrow> kind" where
  "kind_of_text s =
     (if s = ''>'' then Child else if s = ''+'' then Adjacent else if s = ''~'' then Sibling else Descendant)"

section \<open>Pre-filters\<close>

text \<open>The text that is left of the match, and the token; or an error, or \<open>null\<close>.\<close>

datatype pre = Raised | Skip | Kept string item

definition first_text :: "string list \<Rightarrow> string" where
  "first_text ss = (case filter (\<lambda>s. s \<noteq> []) ss of [] \<Rightarrow> [] | s # _ \<Rightarrow> s)"

definition preFilter_ATTR :: "string \<Rightarrow> (nat \<Rightarrow> string) \<Rightarrow> pre" where
  "preFilter_ATTR whole g =
     (let check = unescape (units (first_text [g 3, g 4, g 5]))
      in Kept whole (Captured ATTR_type
           [unescape (units (g 1)), units (g 2), if g 2 = ''~='' then 32 # check @ [32] else check]))"

definition preFilter_child :: "string \<Rightarrow> (nat \<Rightarrow> string) \<Rightarrow> pre" where
  "preFilter_child whole g =
     (case preFilter_CHILD g of
        None \<Rightarrow> Raised
      | Some (type, what, first, offset) \<Rightarrow> Kept whole (Numbers type what (g 3) first offset))"

text \<open>\<open>indexOf\<close> from a position on, where \<open>-1\<close> means that there is none.\<close>

definition index_from_text :: "string \<Rightarrow> string \<Rightarrow> nat \<Rightarrow> int" where
  "index_from_text s pat n = (case find_sub pat (drop n s) of None \<Rightarrow> -1 | Some i \<Rightarrow> int (n + i))"

text \<open>\<open>parse\<close> is \<open>tokenize( \<dots>, true )\<close>: the number of characters left, or an error.\<close>

definition preFilter_PSEUDO :: "(string \<Rightarrow> nat option) \<Rightarrow> string \<Rightarrow> (nat \<Rightarrow> string) \<Rightarrow> pre" where
  "preFilter_PSEUDO parse whole g =
     (let unquoted = (if g 6 = [] then g 2 else []);
          kept = (\<lambda>w a. Kept w (Captured PSEUDO_type [units (g 1), units a]))
      in if test_front rx_CHILD whole then Skip
         else if g 3 \<noteq> [] then kept whole (first_text [g 4, g 5])
         else if unquoted \<noteq> [] \<and> test_search rx_pseudos unquoted
         then (case parse unquoted of
                 None \<Rightarrow> Raised
               | Some excess \<Rightarrow>
                   if excess = 0 then kept whole (g 2)
                   else
                     let e = index_from_text unquoted '')'' (length unquoted - excess) - int (length unquoted)
                     in if e = 0 then kept whole (g 2) else kept (slice whole 0 e) (slice unquoted 0 e))
         else kept whole (g 2))"

fun preFilter :: "(string \<Rightarrow> nat option) \<Rightarrow> ftype \<Rightarrow> string \<Rightarrow> (nat \<Rightarrow> string) \<Rightarrow> pre" where
  "preFilter parse ATTR_type whole g = preFilter_ATTR whole g"
| "preFilter parse CHILD_type whole g = preFilter_child whole g"
| "preFilter parse PSEUDO_type whole g = preFilter_PSEUDO parse whole g"
| "preFilter parse t whole g = Kept whole (Captured t [units (g 1)])"

section \<open>The loop\<close>

fun filter_pass :: "(string \<Rightarrow> nat option) \<Rightarrow> ftype list \<Rightarrow> string \<Rightarrow> bool \<Rightarrow> tok list \<Rightarrow> (string \<times> bool \<times> tok list) option" where
  "filter_pass parse [] soFar matched tokens = Some (soFar, matched, tokens)"
| "filter_pass parse (t # ts) soFar matched tokens =
     (case exec_front (matchExpr t) soFar of
        None \<Rightarrow> filter_pass parse ts soFar matched tokens
      | Some (g, rest) \<Rightarrow>
          (case preFilter parse t (take (length soFar - length rest) soFar) g of
             Raised \<Rightarrow> None
           | Skip \<Rightarrow> filter_pass parse ts soFar matched tokens
           | Kept v i \<Rightarrow>
               filter_pass parse ts (drop (length v) soFar) (v \<noteq> []) (tokens @ [\<lparr>tok_value = v, tok_item = i\<rparr>])))"

definition combinator_step :: "string \<Rightarrow> tok list \<Rightarrow> string \<times> bool \<times> tok list" where
  "combinator_step soFar tokens =
     (case exec_front rcombinators soFar of
        None \<Rightarrow> (soFar, False, tokens)
      | Some (g, rest) \<Rightarrow>
          let v = take (length soFar - length rest) soFar
          in (drop (length v) soFar, v \<noteq> [], tokens @ [\<lparr>tok_value = v, tok_item = Combined (kind_of_text (g 1))\<rparr>]))"

definition tok_body :: "(string \<Rightarrow> nat option) \<Rightarrow> string \<Rightarrow> tok list \<Rightarrow> (string \<times> bool \<times> tok list) option" where
  "tok_body parse soFar tokens =
     (case combinator_step soFar tokens of (s, m, ts) \<Rightarrow> filter_pass parse filter_types s m ts)"

text \<open>A comma opens a group; one at the end is not consumed.\<close>

definition comma_step :: "string \<Rightarrow> tok list list \<Rightarrow> tok list \<Rightarrow> string \<times> tok list list \<times> tok list" where
  "comma_step soFar groups tokens =
     (case exec_front rcomma soFar of
        None \<Rightarrow> (soFar, groups, tokens)
      | Some (g, rest) \<Rightarrow> (if rest = [] then soFar else rest, groups @ [tokens], []))"

lemma preFilter_shortens: "preFilter parse t whole g = Kept v i \<Longrightarrow> length v \<le> length whole"
proof (cases t)
  case PSEUDO_type
  moreover assume "preFilter parse t whole g = Kept v i"
  ultimately show ?thesis
    by (auto simp: preFilter_PSEUDO_def Let_def slice_def split: if_splits option.splits)
qed (auto simp: preFilter_ATTR_def preFilter_child_def Let_def split: option.splits)

lemma exec_front_shorter: "exec_front r s = Some (g, rest) \<Longrightarrow> length rest \<le> length s"
  using exec_front_suffix by fastforce

lemma filter_pass_shortens:
  "filter_pass parse ts s m toks = Some (s', m', toks') \<Longrightarrow> length s' \<le> length s \<and> (m' \<longrightarrow> m \<or> length s' < length s)"
proof (induction parse ts s m toks arbitrary: s' m' toks' rule: filter_pass.induct)
  case (2 parse t ts s m toks)
  show ?case
  proof (cases "exec_front (matchExpr t) s")
    case None
    then show ?thesis
      using 2 by simp
  next
    case (Some x)
    obtain g rest where x: "x = (g, rest)"
      by (cases x)
    show ?thesis
    proof (cases "preFilter parse t (take (length s - length rest) s) g")
      case (Kept v i)
      have "length v \<le> length s"
        using preFilter_shortens [OF Kept] by simp
      moreover have "length s' \<le> length (drop (length v) s) \<and> (m' \<longrightarrow> v \<noteq> [] \<or> length s' < length (drop (length v) s))"
        using 2(3) [OF Some x [symmetric] Kept] 2(4) Some x Kept by simp
      ultimately show ?thesis
        by (cases v) auto
    next
      case Skip
      then show ?thesis
        using 2(2) [OF Some x [symmetric] Skip] 2(4) Some x by simp
    next
      case Raised
      then show ?thesis
        using 2(4) Some x by simp
    qed
  qed
qed simp

lemma tok_body_shortens:
  assumes "tok_body parse s toks = Some (s', m', toks')"
  shows "length s' \<le> length s \<and> (m' \<longrightarrow> length s' < length s)"
proof (cases "exec_front rcombinators s")
  case None
  then show ?thesis
    using filter_pass_shortens [of parse filter_types s False toks s' m' toks'] assms
    by (simp add: tok_body_def combinator_step_def)
next
  case (Some x)
  obtain g rest where x: "x = (g, rest)"
    by (cases x)
  obtain v where v: "v = take (length s - length rest) s" "length v \<le> length s"
    by simp
  have "filter_pass parse filter_types (drop (length v) s) (v \<noteq> [])
      (toks @ [\<lparr>tok_value = v, tok_item = Combined (kind_of_text (g 1))\<rparr>]) = Some (s', m', toks')"
    using assms Some x by (simp add: tok_body_def combinator_step_def Let_def v(1))
  from filter_pass_shortens [OF this] v(2) show ?thesis
    by (cases v) auto
qed

lemma comma_step_shortens: "comma_step s gs ts = (s', gs', ts') \<Longrightarrow> length s' \<le> length s"
  by (auto simp: comma_step_def split: option.splits prod.splits if_splits dest: exec_front_shorter)

text \<open>\<open>initial\<close>: nothing has been matched yet, so that the group is opened without a comma.\<close>

function tok_loop ::
  "(string \<Rightarrow> nat option) \<Rightarrow> bool \<Rightarrow> string \<Rightarrow> tok list list \<Rightarrow> tok list \<Rightarrow> (string \<times> tok list list) option" where
  "tok_loop parse initial soFar groups tokens =
     (if soFar = [] then Some ([], if initial then [] else groups @ [tokens])
      else
        case (if initial then (soFar, groups, []) else comma_step soFar groups tokens) of
          (s, gs, ts) \<Rightarrow>
            (case tok_body parse s ts of
               None \<Rightarrow> None
             | Some (s', m, ts') \<Rightarrow> if m then tok_loop parse False s' gs ts' else Some (s', gs @ [ts'])))"
  by pat_completeness auto
termination
  by (relation "measure (\<lambda>(parse, initial, s, gs, ts). length s)")
     (auto dest!: tok_body_shortens comma_step_shortens comma_step_shortens [OF sym] split: if_splits)

declare tok_loop.simps [simp del]

text \<open>
  The recursion of the pre-filter of pseudo-classes is on the argument, a shorter text, so that the length of
  the selector bounds its depth.  A cached argument is known to be valid.
\<close>

fun parse_only :: "nat \<Rightarrow> (string \<Rightarrow> bool) \<Rightarrow> string \<Rightarrow> nat option" where
  "parse_only 0 cached s = Some 0"
| "parse_only (Suc k) cached s =
     (if cached s then Some 0
      else case tok_loop (parse_only k cached) True s [] [] of None \<Rightarrow> None | Some (rest, groups) \<Rightarrow> Some (length rest))"

text \<open>\<open>tokenize\<close> without \<open>parseOnly\<close>; \<open>None\<close> is \<open>Sizzle.error\<close>.\<close>

definition tokenize :: "string \<Rightarrow> tok list list cache \<Rightarrow> tok list list option \<times> tok list list cache" where
  "tokenize selector c =
     (case cache_get selector c of
        Some groups \<Rightarrow> (Some groups, c)
      | None \<Rightarrow>
          (case tok_loop (parse_only (length selector) (\<lambda>s. cache_get s c \<noteq> None)) True selector [] [] of
             None \<Rightarrow> (None, c)
           | Some (rest, groups) \<Rightarrow> if rest \<noteq> [] then (None, c) else (Some groups, cache_put 50 selector groups c)))"

section \<open>Depth of the recursion\<close>

lemma pseudo_argument_shorter:
  assumes "exec_front rx_pseudos s = Some (g, rest)"
  shows "length (g 2) < length s"
proof -
  obtain r where r: "rx_pseudos = RSeq (rx_char CHR '':'') r"
    by (simp add: rx_pseudos_def)
  have "(g, rest) \<in> set (runs rx_pseudos (\<lambda>_. [], s))"
    using exec_front_run [OF assms] .
  then obtain c t where "s = c # t" "(g, rest) \<in> set (runs r (\<lambda>_. [], t))"
    by (cases s) (auto simp: r rx_char_def split: if_splits)
  then show ?thesis
    using runs_captures [of "(g, rest)" r "(\<lambda>_. [], t)" 2] by simp
qed

lemma preFilter_cong:
  assumes "exec_front (matchExpr t) s = Some (g, rest)" "\<And>u. length u < length s \<Longrightarrow> parse u = parse' u"
  shows "preFilter parse t whole g = preFilter parse' t whole g"
proof (cases t)
  case PSEUDO_type
  then have "parse (g 2) = parse' (g 2)"
    using assms pseudo_argument_shorter by simp
  then show ?thesis
    using PSEUDO_type by (simp add: preFilter_PSEUDO_def Let_def)
qed simp_all

lemma filter_pass_cong:
  "(\<And>u. length u < length s \<Longrightarrow> parse u = parse' u) \<Longrightarrow> filter_pass parse ts s m toks = filter_pass parse' ts s m toks"
proof (induction parse ts s m toks rule: filter_pass.induct)
  case (2 parse t ts s m toks)
  show ?case
  proof (cases "exec_front (matchExpr t) s")
    case None
    then show ?thesis
      using 2(1) [OF None 2(4)] by simp
  next
    case (Some x)
    obtain g rest where x: "x = (g, rest)"
      by (cases x)
    let ?w = "take (length s - length rest) s"
    have p: "preFilter parse t ?w g = preFilter parse' t ?w g"
      using preFilter_cong [of t s g rest] Some x 2(4) by blast
    show ?thesis
    proof (cases "preFilter parse t ?w g")
      case (Kept v i)
      have "filter_pass parse ts (drop (length v) s) (v \<noteq> []) (toks @ [\<lparr>tok_value = v, tok_item = i\<rparr>]) =
        filter_pass parse' ts (drop (length v) s) (v \<noteq> []) (toks @ [\<lparr>tok_value = v, tok_item = i\<rparr>])"
        by (rule 2(3) [OF Some x [symmetric] Kept]) (use 2(4) in simp)
      then show ?thesis
        using Some x p [symmetric] Kept by simp
    next
      case Skip
      then show ?thesis
        using 2(2) [OF Some x [symmetric] Skip 2(4)] Some x p by simp
    next
      case Raised
      then show ?thesis
        using Some x p by simp
    qed
  qed
qed simp

lemma tok_body_cong:
  assumes "\<And>u. length u < length s \<Longrightarrow> parse u = parse' u"
  shows "tok_body parse s toks = tok_body parse' s toks"
proof (cases "exec_front rcombinators s")
  case None
  then show ?thesis
    using filter_pass_cong [OF assms] by (simp add: tok_body_def combinator_step_def)
next
  case (Some x)
  obtain g rest where x: "x = (g, rest)"
    by (cases x)
  have "filter_pass parse ts (drop n s) m toks' = filter_pass parse' ts (drop n s) m toks'" for ts n m toks'
    by (rule filter_pass_cong) (use assms in simp)
  then show ?thesis
    using Some x by (simp add: tok_body_def combinator_step_def Let_def)
qed

lemma tok_loop_cong:
  "(\<And>u. length u < length s \<Longrightarrow> parse u = parse' u) \<Longrightarrow> tok_loop parse i s gs ts = tok_loop parse' i s gs ts"
proof (induction "length s" arbitrary: i s gs ts rule: less_induct)
  case less
  show ?case
  proof (cases "s = []")
    case False
    obtain s1 gs1 ts1 where c: "(if i then (s, gs, []) else comma_step s gs ts) = (s1, gs1, ts1)"
      by (cases "if i then (s, gs, []) else comma_step s gs ts") auto
    then have l: "length s1 \<le> length s"
      using comma_step_shortens [of s gs ts s1 gs1 ts1] by (auto split: if_splits)
    have b: "tok_body parse s1 ts1 = tok_body parse' s1 ts1"
      by (rule tok_body_cong) (use less.prems l in simp)
    show ?thesis
    proof (cases "tok_body parse s1 ts1")
      case None
      then show ?thesis
        using False c b by (simp add: tok_loop.simps [of _ i s])
    next
      case (Some x)
      obtain s2 m ts2 where x: "x = (s2, m, ts2)"
        by (cases x) auto
      have "m \<Longrightarrow> tok_loop parse False s2 gs1 ts2 = tok_loop parse' False s2 gs1 ts2"
        using tok_body_shortens [of parse s1 ts1 s2 m ts2] Some x l less.prems by (intro less.hyps) auto
      then show ?thesis
        using False c b [symmetric] Some x by (simp add: tok_loop.simps [of _ i s])
    qed
  qed (simp add: tok_loop.simps)
qed

text \<open>Any depth greater than the length of the text gives the same answer.\<close>

lemma parse_only_depth: "length s < k \<Longrightarrow> length s < k' \<Longrightarrow> parse_only k cached s = parse_only k' cached s"
proof (induction k arbitrary: k' s)
  case (Suc k)
  then obtain j where j: "k' = Suc j"
    by (cases k') auto
  have "tok_loop (parse_only k cached) True s [] [] = tok_loop (parse_only j cached) True s [] []"
  proof (rule tok_loop_cong)
    fix u :: string
    assume "length u < length s"
    then show "parse_only k cached u = parse_only j cached u"
      using Suc.prems j by (intro Suc.IH) simp_all
  qed
  then show ?case
    by (simp add: j)
qed simp

section \<open>Nothing of the text is lost\<close>

definition comma_text :: "string \<Rightarrow> bool" where
  "comma_text c \<longleftrightarrow> (\<exists>a b. c = a @ '','' @ b \<and> list_all css_space a \<and> list_all css_space b)"

text \<open>The text is the texts of the tokens, group by group, with commas between the groups.\<close>

fun written :: "tok list list \<Rightarrow> string \<Rightarrow> bool" where
  "written [] s \<longleftrightarrow> s = []"
| "written [g] s \<longleftrightarrow> s = toSelector g"
| "written (g # g' # gs) s \<longleftrightarrow> (\<exists>c t. s = toSelector g @ c @ t \<and> comma_text c \<and> written (g' # gs) t)"

lemma toSelector_append [simp]: "toSelector (a @ b) = toSelector a @ toSelector b"
  by (simp add: toSelector_def)

lemma toSelector_simps [simp]: "toSelector [] = []" "toSelector (t # ts) = tok_value t @ toSelector ts"
  by (simp_all add: toSelector_def)

lemma written_extend: "written (gs @ [ts]) p \<Longrightarrow> written (gs @ [ts @ new]) (p @ toSelector new)"
proof (induction gs arbitrary: p)
  case (Cons g gs)
  then obtain h r where h: "gs @ [ts] = h # r"
    by (cases "gs @ [ts]") auto
  with Cons.prems obtain c t where c: "p = toSelector g @ c @ t" "comma_text c" "written (gs @ [ts]) t"
    by auto
  obtain h' r' where h': "gs @ [ts @ new] = h' # r'"
    by (cases "gs @ [ts @ new]") auto
  show ?case
    using c Cons.IH [OF c(3)] unfolding append_Cons h' written.simps(3) by auto
qed simp

lemma written_comma: "written (gs @ [ts]) p \<Longrightarrow> comma_text c \<Longrightarrow> written (gs @ [ts, []]) (p @ c)"
proof (induction gs arbitrary: p)
  case (Cons g gs)
  then obtain h r where h: "gs @ [ts] = h # r"
    by (cases "gs @ [ts]") auto
  with Cons.prems obtain d t where d: "p = toSelector g @ d @ t" "comma_text d" "written (gs @ [ts]) t"
    by auto
  obtain h' r' where h': "gs @ [ts, []] = h' # r'"
    by (cases "gs @ [ts, []]") auto
  show ?case
    using d Cons.IH [OF d(3) Cons.prems(2)] unfolding append_Cons h' written.simps(3) by auto
qed auto

lemma preFilter_prefix: "preFilter parse t whole g = Kept v i \<Longrightarrow> \<exists>k. v = take k whole"
proof (cases t)
  case PSEUDO_type
  moreover assume "preFilter parse t whole g = Kept v i"
  moreover have "\<exists>k. slice whole 0 e = take k whole" for e
    by (simp add: slice_def rel_index_def) blast
  moreover have "\<exists>k. whole = take k whole"
    by (rule exI [of _ "length whole"]) simp
  ultimately show ?thesis
    by (auto simp: preFilter_PSEUDO_def Let_def split: if_splits option.splits)
qed (auto simp: preFilter_ATTR_def preFilter_child_def Let_def split: option.splits intro: exI [of _ "length whole"])

lemma filter_pass_writes:
  "filter_pass parse ts s m toks = Some (s', m', toks') \<Longrightarrow> \<exists>new. toks' = toks @ new \<and> s = toSelector new @ s'"
proof (induction parse ts s m toks arbitrary: s' m' toks' rule: filter_pass.induct)
  case (2 parse t ts s m toks)
  show ?case
  proof (cases "exec_front (matchExpr t) s")
    case None
    then show ?thesis
      using 2 by simp
  next
    case (Some x)
    obtain g rest where x: "x = (g, rest)"
      by (cases x)
    show ?thesis
    proof (cases "preFilter parse t (take (length s - length rest) s) g")
      case (Kept v i)
      obtain k where "v = take k (take (length s - length rest) s)"
        using preFilter_prefix [OF Kept] by blast
      then have v: "s = v @ drop (length v) s"
        by (simp add: min_def)
      have "filter_pass parse ts (drop (length v) s) (v \<noteq> []) (toks @ [\<lparr>tok_value = v, tok_item = i\<rparr>]) = Some (s', m', toks')"
        using 2(4) Some x Kept by simp
      from 2(3) [OF Some x [symmetric] Kept this] obtain new
        where new: "toks' = (toks @ [\<lparr>tok_value = v, tok_item = i\<rparr>]) @ new" "drop (length v) s = toSelector new @ s'"
        by blast
      have "s = v @ toSelector new @ s'"
        using v unfolding new(2) .
      then show ?thesis
        by (intro exI [of _ "\<lparr>tok_value = v, tok_item = i\<rparr> # new"]) (simp add: new(1))
    next
      case Skip
      then show ?thesis
        using 2(2) [OF Some x [symmetric] Skip] 2(4) Some x by simp
    next
      case Raised
      then show ?thesis
        using 2(4) Some x by simp
    qed
  qed
qed simp

lemma tok_body_writes:
  assumes "tok_body parse s toks = Some (s', m', toks')"
  shows "\<exists>new. toks' = toks @ new \<and> s = toSelector new @ s'"
proof (cases "exec_front rcombinators s")
  case None
  then show ?thesis
    using filter_pass_writes [of parse filter_types s False toks s' m' toks'] assms
    by (simp add: tok_body_def combinator_step_def)
next
  case (Some x)
  obtain g rest where x: "x = (g, rest)"
    by (cases x)
  obtain v where v: "v = take (length s - length rest) s" "s = v @ drop (length v) s"
    by simp
  let ?t = "\<lparr>tok_value = v, tok_item = Combined (kind_of_text (g 1))\<rparr>"
  have "filter_pass parse filter_types (drop (length v) s) (v \<noteq> []) (toks @ [?t]) = Some (s', m', toks')"
    using assms Some x by (simp add: tok_body_def combinator_step_def Let_def v(1))
  from filter_pass_writes [OF this] obtain new where new: "toks' = (toks @ [?t]) @ new" "drop (length v) s = toSelector new @ s'"
    by blast
  have "s = v @ toSelector new @ s'"
    using v(2) unfolding new(2) .
  then show ?thesis
    by (intro exI [of _ "?t # new"]) (simp add: new(1))
qed

lemma space_runs: "st' \<in> set (runs rx_space (cap, s)) \<longleftrightarrow> (\<exists>a r. s = a @ r \<and> st' = (cap, r) \<and> list_all css_space a)"
  by (auto simp: rx_space_def star_ends_set list_all_iff)

lemma comma_runs:
  assumes "exec_front rcomma s = Some (g, rest)"
  shows "\<exists>c. s = c @ rest \<and> comma_text c"
proof -
  have "(g, rest) \<in> set (runs rcomma (\<lambda>_. [], s))"
    using exec_front_run [OF assms] .
  then obtain a t b where "s = a @ CHR '','' # t" "list_all css_space a" "t = b @ rest" "list_all css_space b"
    by (auto simp: rcomma_def rx_char_def space_runs split: list.splits if_splits)
  then show ?thesis
    by (intro exI [of _ "a @ '','' @ b"]) (auto simp: comma_text_def)
qed

text \<open>A comma at the end stays, whatever follows: nothing else begins with it.\<close>

definition dead :: "string \<Rightarrow> bool" where
  "dead s \<longleftrightarrow> (\<exists>a b. s = a @ CHR '','' # b \<and> list_all css_space a \<and> list_all css_space b)"

definition no_front :: "string \<Rightarrow> bool" where
  "no_front s \<longleftrightarrow> (case s of [] \<Rightarrow> True | c # _ \<Rightarrow> css_space c \<or> c = CHR '','')"

lemma blank_chars: "css_space c \<or> c = CHR '','' \<Longrightarrow>
  \<not> name_char c \<and> c \<noteq> CHR 0x5C \<and> (of_char c :: nat) \<le> 0xa0 \<and>
  c \<notin> {CHR ''*'', CHR ''.'', CHR ''#'', CHR ''['', CHR '':''}"
  by (auto simp: css_space_def name_char_def word_unit_def digit_unit_def)

lemma name_unit_none:
  "runs rx_name_unit (cap, s) = [] \<longleftrightarrow>
    (case s of [] \<Rightarrow> True
     | c # r \<Rightarrow> \<not> name_char c \<and> (of_char c :: nat) \<le> 0xa0 \<and> (c = CHR 0x5C \<longrightarrow> (case r of [] \<Rightarrow> True | d # _ \<Rightarrow> \<not> not_newline d)))"
  by (auto simp: rx_name_unit_def rx_escape_def rx_char_def split: list.split)

lemma identifier_none: "runs rx_name_unit (cap, s) = [] \<Longrightarrow> runs rx_identifier (cap, s) = []"
  by (simp add: rx_identifier_def)

lemma no_filter: "no_front s \<Longrightarrow> exec_front (matchExpr t) s = None"
proof -
  assume s: "no_front s"
  have "runs (matchExpr t) (cap, s) = []" for cap
  proof (cases s)
    case Nil
    have i: "runs rx_identifier (cap, []) = []" for cap
      by (rule identifier_none) (simp add: name_unit_none)
    show ?thesis
      unfolding Nil
      by (cases t) (simp_all add: rx_TAG_def rx_CLASS_def rx_ID_def rx_attributes_def rx_CHILD_def rx_pseudos_def rx_char_def i)
  next
    case (Cons c r)
    note c = blank_chars [of c]
    have b: "css_space c \<or> c = CHR '',''"
      using s Cons by (simp add: no_front_def)
    have i: "runs rx_identifier (cap, c # r) = []" for cap
      by (rule identifier_none) (use c [OF b] in \<open>simp add: name_unit_none\<close>)
    have n: "c \<noteq> CHR ''*''" "c \<noteq> CHR ''.''" "c \<noteq> CHR ''#''" "c \<noteq> CHR ''[''" "c \<noteq> CHR '':''"
      using c [OF b] by auto
    show ?thesis
      unfolding Cons
      by (cases t) (simp_all add: rx_TAG_def rx_CLASS_def rx_ID_def rx_attributes_def rx_CHILD_def rx_pseudos_def rx_char_def i n)
  qed
  then show "exec_front (matchExpr t) s = None"
    by (simp add: exec_front_def)
qed

lemma filter_pass_none: "no_front s \<Longrightarrow> filter_pass parse ts s m toks = Some (s, m, toks)"
  by (induction ts) (simp_all add: no_filter)

lemma dead_no_front: "dead s \<Longrightarrow> no_front s \<and> s \<noteq> []"
proof -
  assume "dead s"
  then obtain a b where "s = a @ CHR '','' # b" "list_all css_space a"
    by (auto simp: dead_def)
  then show ?thesis
    by (cases a) (simp_all add: no_front_def)
qed

lemma combinator_runs:
  assumes "exec_front rcombinators s = Some (g, rest)"
  shows "\<exists>v. s = v @ rest \<and> (\<forall>c\<in>set v. css_space c \<or> c \<in> set ''>+~'')"
proof -
  have "(g, rest) \<in> set (runs rcombinators (\<lambda>_. [], s))"
    using exec_front_run [OF assms] .
  then obtain a c t b where "s = a @ c # t" "list_all css_space a" "c \<in> set ''>+~'' \<or> css_space c" "t = b @ rest" "list_all css_space b"
    by (auto simp: rcombinators_def space_runs split: list.splits if_splits)
  then show ?thesis
    by (intro exI [of _ "a @ c # b"]) (auto simp: list_all_iff)
qed

lemma dead_suffix:
  assumes "dead (v @ rest)" "CHR '','' \<notin> set v"
  shows "dead rest"
proof -
  obtain a b where ab: "v @ rest = a @ CHR '','' # b" "list_all css_space a" "list_all css_space b"
    using assms(1) by (auto simp: dead_def)
  then consider us where "a = v @ us" "rest = us @ CHR '','' # b" | us where "v = a @ us" "us @ rest = CHR '','' # b"
    by (auto simp: append_eq_append_conv2)
  then show ?thesis
  proof cases
    case 1
    then show ?thesis
      using ab by (auto simp: dead_def)
  next
    case 2
    then have "us = []"
      using assms(2) by (cases us) auto
    then show ?thesis
      using 2 ab(3) unfolding dead_def by (intro exI [of _ "[]"] exI [of _ b]) simp
  qed
qed

lemma dead_body:
  assumes "dead s" "tok_body parse s toks = Some (s', m, toks')"
  shows "dead s'"
proof (cases "exec_front rcombinators s")
  case None
  then show ?thesis
    using assms filter_pass_none [of s] dead_no_front [of s] by (simp add: tok_body_def combinator_step_def)
next
  case (Some x)
  obtain g rest where x: "x = (g, rest)"
    by (cases x)
  obtain v where v: "s = v @ rest" "\<forall>c\<in>set v. css_space c \<or> c \<in> set ''>+~''"
    using combinator_runs Some x by blast
  then have "CHR '','' \<notin> set v"
    by (auto simp: css_space_def)
  then have d: "dead rest"
    using dead_suffix assms(1) v(1) by blast
  have "drop (length (take (length s - length rest) s)) s = rest"
    by (simp add: v(1))
  then have "filter_pass parse filter_types rest (take (length s - length rest) s \<noteq> [])
      (toks @ [\<lparr>tok_value = take (length s - length rest) s, tok_item = Combined (kind_of_text (g 1))\<rparr>]) = Some (s', m, toks')"
    using assms(2) Some x by (simp add: tok_body_def combinator_step_def Let_def)
  then show ?thesis
    using d filter_pass_none [of rest] dead_no_front [of rest] by simp
qed

lemma comma_all:
  assumes "comma_text s" "exec_front rcomma s = Some (g, rest)"
  shows "rest = []"
proof -
  obtain a b where ab: "s = a @ '','' @ b" "list_all css_space a" "list_all css_space b"
    using assms(1) by (auto simp: comma_text_def)
  have "leads rx_space (cap, a @ CHR '','' # b) (cap, CHR '','' # b)" for cap
    unfolding rx_space_def by (rule leads_star) (use ab in \<open>simp_all add: list_all_iff css_space_def\<close>)
  moreover have "leads (rx_char CHR '','') (cap, CHR '','' # b) (cap, b)" for cap
    unfolding rx_char_def by (rule leads_class) simp
  moreover have "leads rx_space (cap, b) (cap, [])" for cap
    unfolding rx_space_def using leads_star [of b css_space "[]" cap] ab(3) by (simp add: list_all_iff)
  ultimately have "leads rcomma (\<lambda>_. [], s) (\<lambda>_. [], [])"
    unfolding rcomma_def rx_seq.simps by (intro leads_seq) (simp_all add: ab(1))
  then show ?thesis
    using leads_front assms(2) by fastforce
qed

lemma dead_loop: "dead s \<Longrightarrow> tok_loop parse False s gs ts = Some (r, res) \<Longrightarrow> r \<noteq> []"
proof (induction "length s" arbitrary: s gs ts rule: less_induct)
  case less
  have ne: "s \<noteq> []"
    using dead_no_front [OF less.prems(1)] by blast
  obtain s1 gs1 ts1 where c: "comma_step s gs ts = (s1, gs1, ts1)"
    by (cases "comma_step s gs ts") auto
  have "s1 = s"
  proof (cases "exec_front rcomma s")
    case None
    then show ?thesis
      using c by (simp add: comma_step_def)
  next
    case (Some x)
    obtain g rest where x: "x = (g, rest)"
      by (cases x)
    have "comma_text s"
      using less.prems(1) by (auto simp: dead_def comma_text_def)
    then have "rest = []"
      using comma_all Some x by blast
    then show ?thesis
      using c Some x by (simp add: comma_step_def)
  qed
  moreover obtain s2 m ts2 where b: "tok_body parse s1 ts1 = Some (s2, m, ts2)"
    using less.prems(2) ne c by (cases "tok_body parse s1 ts1") (auto simp: tok_loop.simps [of _ _ s])
  ultimately have d: "dead s2"
    using dead_body less.prems(1) by blast
  show ?case
  proof (cases m)
    case True
    then show ?thesis
      using less.hyps [of s2 gs1 ts2] less.prems(2) tok_body_shortens [OF b] b c d ne \<open>s1 = s\<close>
      by (simp add: tok_loop.simps [of _ _ s])
  next
    case False
    then show ?thesis
      using less.prems(2) b c dead_no_front [OF d] ne by (simp add: tok_loop.simps [of _ _ s])
  qed
qed

lemma tok_loop_writes:
  "tok_loop parse i s gs ts = Some ([], res) \<Longrightarrow> (i \<longrightarrow> gs = []) \<Longrightarrow>
   (\<not> i \<Longrightarrow> written (gs @ [ts]) p) \<Longrightarrow> (i \<Longrightarrow> p = []) \<Longrightarrow> written res (p @ s)"
proof (induction "length s" arbitrary: i s gs ts p rule: less_induct)
  case less
  show ?case
  proof (cases "s = []")
    case True
    then show ?thesis
      using less.prems by (cases i) (auto simp: tok_loop.simps)
  next
    case False
    obtain s1 gs1 ts1 where c: "(if i then (s, gs, []) else comma_step s gs ts) = (s1, gs1, ts1)"
      by (cases "if i then (s, gs, []) else comma_step s gs ts") auto
    obtain s2 m ts2 where b: "tok_body parse s1 ts1 = Some (s2, m, ts2)"
      using less.prems(1) False c by (cases "tok_body parse s1 ts1") (auto simp: tok_loop.simps [of _ i s])
    have r: "(if m then tok_loop parse False s2 gs1 ts2 else Some (s2, gs1 @ [ts2])) = Some ([], res)"
      using less.prems(1) False c b by (simp add: tok_loop.simps [of _ i s])
    have "\<exists>p1. written (gs1 @ [ts1]) p1 \<and> p @ s = p1 @ s1"
    proof (cases i)
      case True
      then show ?thesis
        using c less.prems(2,4) by auto
    next
      case noti: False
      show ?thesis
      proof (cases "exec_front rcomma s")
        case None
        then show ?thesis
          using c noti less.prems(3) by (auto simp: comma_step_def)
      next
        case (Some x)
        obtain g rest where x: "x = (g, rest)"
          by (cases x)
        obtain d where d: "s = d @ rest" "comma_text d"
          using comma_runs Some x by blast
        show ?thesis
        proof (cases "rest = []")
          case True
          then have "dead s"
            using d by (auto simp: dead_def comma_text_def)
          moreover have "s1 = s"
            using c noti Some x True by (simp add: comma_step_def)
          ultimately have "dead s2"
            using dead_body b by blast
          then have False
            using r dead_no_front [of s2] dead_loop [of s2 parse gs1 ts2 "[]" res] by (auto split: if_splits)
          then show ?thesis ..
        next
          case ne: False
          then have "s1 = rest" "gs1 = gs @ [ts]" "ts1 = []"
            using c noti Some x by (simp_all add: comma_step_def)
          then show ?thesis
            using written_comma [OF less.prems(3) [OF noti] d(2)] d(1) by auto
        qed
      qed
    qed
    then obtain p1 where p1: "written (gs1 @ [ts1]) p1" "p @ s = p1 @ s1"
      by blast
    obtain new where new: "ts2 = ts1 @ new" "s1 = toSelector new @ s2"
      using tok_body_writes [OF b] by blast
    have w: "written (gs1 @ [ts2]) (p1 @ toSelector new)"
      using written_extend [OF p1(1)] new(1) by simp
    have e: "p @ s = (p1 @ toSelector new) @ s2"
      using p1(2) new(2) by simp
    show ?thesis
    proof (cases m)
      case True
      have "length s2 < length s"
        using tok_body_shortens [OF b] True c comma_step_shortens [of s gs ts s1 gs1 ts1] by (auto split: if_splits)
      then have "written res ((p1 @ toSelector new) @ s2)"
        using less.hyps [of s2 False gs1 ts2 "p1 @ toSelector new"] r True w by simp
      then show ?thesis
        using e by simp
    next
      case False
      then show ?thesis
        using r w e by simp
    qed
  qed
qed

section \<open>The cache\<close>

text \<open>What is cached was tokenized; keys are distinct and not too many.\<close>

definition plain :: "string \<Rightarrow> (string \<times> tok list list) option" where
  "plain s = tok_loop (parse_only (length s) (\<lambda>_. False)) True s [] []"

definition cache_ok :: "tok list list cache \<Rightarrow> bool" where
  "cache_ok c \<longleftrightarrow>
     distinct (cache_keys c) \<and> length (cache_keys c) \<le> 50 \<and> dom (cache_entries c) = set (cache_keys c) \<and>
     (\<forall>s groups. cache_get s c = Some groups \<longrightarrow> plain s = Some ([], groups))"

lemma plain_deeper:
  assumes "length s \<le> k"
  shows "tok_loop (parse_only k (\<lambda>_. False)) True s [] [] = plain s"
  unfolding plain_def
proof (rule tok_loop_cong)
  fix u :: string
  assume "length u < length s"
  then show "parse_only k (\<lambda>_. False) u = parse_only (length s) (\<lambda>_. False) u"
    using assms by (intro parse_only_depth) simp_all
qed

lemma cached_parse:
  assumes "\<And>u. cached u \<Longrightarrow> \<exists>groups. plain u = Some ([], groups)"
  shows "length s < k \<Longrightarrow> parse_only k cached s = parse_only k (\<lambda>_. False) s"
proof (induction k arbitrary: s)
  case (Suc k)
  have "tok_loop (parse_only k cached) True s [] [] = tok_loop (parse_only k (\<lambda>_. False)) True s [] []"
  proof (rule tok_loop_cong)
    fix u :: string
    assume "length u < length s"
    then show "parse_only k cached u = parse_only k (\<lambda>_. False) u"
      using Suc.prems by (intro Suc.IH) simp
  qed
  also have "\<dots> = plain s"
    using Suc.prems by (intro plain_deeper) simp
  finally have t: "tok_loop (parse_only k cached) True s [] [] = plain s" .
  have "tok_loop (parse_only k (\<lambda>_. False)) True s [] [] = plain s"
    using Suc.prems by (intro plain_deeper) simp
  then show ?case
    using t assms [of s] by (cases "cached s") auto
qed simp

lemma tokenize_plain:
  assumes "cache_ok c"
  shows "fst (tokenize s c) = (case plain s of Some ([], groups) \<Rightarrow> Some groups | _ \<Rightarrow> None)"
proof (cases "cache_get s c")
  case None
  have "tok_loop (parse_only (length s) (\<lambda>s. cache_get s c \<noteq> None)) True s [] [] = plain s"
    unfolding plain_def
  proof (rule tok_loop_cong)
    fix u :: string
    assume "length u < length s"
    then show "parse_only (length s) (\<lambda>s. cache_get s c \<noteq> None) u = parse_only (length s) (\<lambda>_. False) u"
      using assms by (intro cached_parse) (auto simp: cache_ok_def)
  qed
  then show ?thesis
    using None by (auto simp: tokenize_def split: option.split list.split)
next
  case (Some groups)
  then show ?thesis
    using assms by (simp add: tokenize_def cache_ok_def)
qed

lemma cache_get_put:
  "cache_get s (cache_put n key v c) =
    (if s = key then Some v
     else if length (cache_keys c) + 1 > n \<and> s @ '' '' = hd (cache_keys c @ [key @ '' '']) then None
     else cache_get s c)"
  by (auto simp: cache_get_def cache_put_def Let_def)

lemma cache_put_ok:
  assumes "cache_ok c" "cache_get key c = None" "plain key = Some ([], groups)"
  shows "cache_ok (cache_put 50 key groups c)"
proof -
  let ?k = "key @ '' ''"
  have k: "?k \<notin> set (cache_keys c)" "distinct (cache_keys c)" "length (cache_keys c) \<le> 50"
    "dom (cache_entries c) = set (cache_keys c)"
    using assms(1,2) by (auto simp: cache_ok_def cache_get_def)
  have e: "\<forall>s g. cache_get s (cache_put 50 key groups c) = Some g \<longrightarrow> plain s = Some ([], g)"
    using assms(1,3) by (auto simp: cache_get_put cache_ok_def split: if_splits)
  show ?thesis
  proof (cases "length (cache_keys c) + 1 > 50")
    case True
    then obtain x xs where x: "cache_keys c = x # xs"
      by (cases "cache_keys c") auto
    then have "cache_keys (cache_put 50 key groups c) = xs @ [?k]"
      "cache_entries (cache_put 50 key groups c) = (cache_entries c)(x := None, ?k := Some groups)"
      using True by (simp_all add: cache_put_def Let_def)
    then show ?thesis
      using e k x by (auto simp: cache_ok_def)
  next
    case False
    then have "cache_keys (cache_put 50 key groups c) = cache_keys c @ [?k]"
      "cache_entries (cache_put 50 key groups c) = (cache_entries c)(?k := Some groups)"
      by (simp_all add: cache_put_def Let_def)
    then show ?thesis
      using e k False by (auto simp: cache_ok_def)
  qed
qed

lemma tokenize_cache:
  assumes "cache_ok c"
  shows "cache_ok (snd (tokenize s c))"
proof (cases "cache_get s c")
  case None
  have f: "fst (tokenize s c) = (case plain s of Some ([], groups) \<Rightarrow> Some groups | _ \<Rightarrow> None)"
    by (rule tokenize_plain [OF assms])
  show ?thesis
  proof (cases "fst (tokenize s c)")
    case None
    then show ?thesis
      using assms \<open>cache_get s c = None\<close> by (auto simp: tokenize_def split: option.splits if_splits)
  next
    case (Some groups)
    then have "plain s = Some ([], groups)" "snd (tokenize s c) = cache_put 50 s groups c"
      using f \<open>cache_get s c = None\<close> by (auto simp: tokenize_def split: option.splits if_splits list.splits)
    then show ?thesis
      using cache_put_ok [OF assms \<open>cache_get s c = None\<close>] by simp
  qed
qed (use assms in \<open>simp add: tokenize_def\<close>)

lemma createCache_ok: "cache_ok createCache"
  by (simp add: cache_ok_def createCache_def cache_get_def)

section \<open>Selectors written from their parts\<close>

text \<open>
  Pieces of a selector and how they are written; names are escaped.  A name the tokenizer reads back is not
  empty, does not begin with a digit, also not behind a minus sign, and holds no control characters.
\<close>

datatype piece =
  Comma
| Comb kind
| Any
| Tag string
| Class string
| Id string
| Nth string string int int

definition escape_text :: "string \<Rightarrow> string" where
  "escape_text n = map char_of (css_escape (units n))"

definition kind_text :: "kind \<Rightarrow> string" where
  "kind_text k = (case k of Child \<Rightarrow> '' > '' | Descendant \<Rightarrow> '' '' | Adjacent \<Rightarrow> '' + '' | Sibling \<Rightarrow> '' ~ '')"

fun piece_text :: "piece \<Rightarrow> string" where
  "piece_text Comma = '', ''"
| "piece_text (Comb k) = kind_text k"
| "piece_text Any = ''*''"
| "piece_text (Tag n) = escape_text n"
| "piece_text (Class n) = ''.'' @ escape_text n"
| "piece_text (Id n) = ''#'' @ escape_text n"
| "piece_text (Nth type what a b) = nth_text type what a b"

definition pieces_text :: "piece list \<Rightarrow> string" where
  "pieces_text ps = concat (map piece_text ps)"

definition plain_char :: "char \<Rightarrow> bool" where
  "plain_char c \<longleftrightarrow> (let u = of_char c :: nat in 0x1f < u \<and> (u < 0x7f \<or> 0xa0 < u))"

definition plain_name :: "string \<Rightarrow> bool" where
  "plain_name n \<longleftrightarrow>
     list_all plain_char n \<and>
     (case n of [] \<Rightarrow> False | c # r \<Rightarrow> \<not> is_digit c \<and> (c = CHR ''-'' \<longrightarrow> (case r of [] \<Rightarrow> True | d # _ \<Rightarrow> \<not> is_digit d)))"

fun piece_ok :: "piece \<Rightarrow> bool" where
  "piece_ok (Tag n) = plain_name n"
| "piece_ok (Class n) = plain_name n"
| "piece_ok (Id n) = plain_name n"
| "piece_ok (Nth type what a b) = (type \<in> {''nth'', ''nth-last''} \<and> what \<in> {''child'', ''of-type''})"
| "piece_ok p = True"

definition is_start :: "piece \<Rightarrow> bool" where
  "is_start p = (case p of Any \<Rightarrow> True | Tag n \<Rightarrow> True | _ \<Rightarrow> False)"

definition is_join :: "piece \<Rightarrow> bool" where
  "is_join p = (case p of Comma \<Rightarrow> True | Comb k \<Rightarrow> True | _ \<Rightarrow> False)"

text \<open>A tag stands first; commas and combinators stand between other pieces.\<close>

fun follows_ok :: "piece list \<Rightarrow> bool" where
  "follows_ok (p # q # ps) = ((is_join p \<longrightarrow> \<not> is_join q) \<and> (is_start q \<longrightarrow> is_join p) \<and> follows_ok (q # ps))"
| "follows_ok [p] = (\<not> is_join p)"
| "follows_ok [] = True"

definition selector_ok :: "piece list \<Rightarrow> bool" where
  "selector_ok ps \<longleftrightarrow> list_all piece_ok ps \<and> follows_ok ps \<and> (case ps of [] \<Rightarrow> False | p # _ \<Rightarrow> \<not> is_join p)"

text \<open>The tokens of the pieces.\<close>

fun piece_item :: "piece \<Rightarrow> item" where
  "piece_item (Comb k) = Combined k"
| "piece_item Any = Captured TAG_type [units ''*'']"
| "piece_item (Tag n) = Captured TAG_type [units (escape_text n)]"
| "piece_item (Class n) = Captured CLASS_type [units (escape_text n)]"
| "piece_item (Id n) = Captured ID_type [units (escape_text n)]"
| "piece_item (Nth type what a b) = Numbers type what (argument_text a b) a b"
| "piece_item Comma = Captured TAG_type []"

definition piece_tok :: "piece \<Rightarrow> tok" where
  "piece_tok p = \<lparr>tok_value = piece_text p, tok_item = piece_item p\<rparr>"

fun piece_groups :: "piece list \<Rightarrow> tok list \<Rightarrow> tok list list" where
  "piece_groups [] ts = [ts]"
| "piece_groups (p # ps) ts = (if p = Comma then ts # piece_groups ps [] else piece_groups ps (ts @ [piece_tok p]))"

subsection \<open>Names\<close>

definition unit_text :: "char \<Rightarrow> string" where
  "unit_text c = map char_of (escape_unit (of_char c))"

lemma minus_char: "(of_char c :: nat) = 45 \<longleftrightarrow> c = CHR ''-''"
  using of_char_eq_iff [of c "CHR ''-''", where ?'a = nat] by simp

lemma char_codes: "char_of (92 :: nat) = CHR 0x5C" "char_of (45 :: nat) = CHR ''-''"
  by code_simp+

lemma plain_unit:
  assumes "plain_char c"
  shows "unit_text c = [c] \<and> (name_char c \<or> of_char c > (0xa0 :: nat)) \<or> unit_text c = [CHR 0x5C, c] \<and> not_newline c"
proof -
  have u: "0x1f < (of_char c :: nat)" "(of_char c :: nat) < 0x7f \<or> 0xa0 < (of_char c :: nat)"
    using assms by (simp_all add: plain_char_def Let_def)
  note d = minus_char [of c]
  have n: "not_newline c"
    using u(1) by (auto simp: not_newline_def)
  show ?thesis
    using u n d by (auto simp: unit_text_def escape_unit_def name_char_def char_codes)
qed

lemma leads_unit:
  assumes "plain_char c"
  shows "leads rx_name_unit (cap, unit_text c @ t) (cap, t)"
  using plain_unit [OF assms]
proof (elim disjE conjE)
  assume "unit_text c = [CHR 0x5C, c]" "not_newline c"
  then show ?thesis
    by (simp add: leads_def rx_name_unit_def rx_escape_def rx_char_def)
next
  assume u: "unit_text c = [c]" "name_char c"
  then have "c \<noteq> CHR 0x5C"
    by (auto simp: name_char_def word_unit_def digit_unit_def)
  then show ?thesis
    using u by (simp add: leads_def rx_name_unit_def rx_escape_def rx_char_def)
next
  assume u: "unit_text c = [c]" "(of_char c :: nat) > 0xa0"
  then have "c \<noteq> CHR 0x5C"
    by auto
  then show ?thesis
    using u by (simp add: leads_def rx_name_unit_def rx_escape_def rx_char_def)
qed

lemma escape_plain:
  assumes "plain_name n"
  shows "escape_text n = concat (map unit_text n) \<or> n = ''-'' \<and> escape_text n = [CHR 0x5C, CHR ''-'']"
proof -
  have e: "map char_of (escape_units (units s)) = concat (map unit_text s)" for s
    by (simp add: escape_units_def units_def unit_text_def [abs_def] map_concat comp_def)
  have d: "digit_unit (of_char c) = is_digit c" for c
    by (simp add: digit_unit_def is_digit_def)
  obtain c r where n: "n = c # r" "\<not> is_digit c"
    using assms by (auto simp: plain_name_def split: list.splits)
  note m = minus_char [of c]
  show ?thesis
  proof (cases "c = CHR ''-''")
    case True
    then show ?thesis
      using e [of n] d assms n by (cases r) (simp_all add: escape_text_def css_escape_def units_def plain_name_def digit_unit_def char_codes)
  next
    case False
    then show ?thesis
      using e [of n] d m n by (simp add: escape_text_def css_escape_def units_def)
  qed
qed

definition stops :: "string \<Rightarrow> bool" where
  "stops s \<longleftrightarrow> (case s of [] \<Rightarrow> True | c # _ \<Rightarrow> \<not> name_char c \<and> c \<noteq> CHR 0x5C \<and> (of_char c :: nat) \<le> 0xa0)"

lemma stops_none: "stops s \<Longrightarrow> runs rx_name_unit (cap, s) = []"
  by (auto simp: stops_def name_unit_none split: list.splits)

lemma leads_identifier:
  assumes "plain_name n" "stops s"
  shows "leads rx_identifier (cap, escape_text n @ s) (cap, s)"
  using escape_plain [OF assms(1)]
proof (elim disjE conjE)
  assume e: "escape_text n = concat (map unit_text n)"
  obtain c r where n: "n = c # r" "plain_char c" "list_all plain_char r"
    using assms(1) by (auto simp: plain_name_def split: list.splits)
  have "leads (RMany rx_name_unit) (cap, concat (map unit_text r) @ s) (cap, s)"
  proof (rule leads_many)
    fix u t
    assume "u \<in> set (map unit_text r)"
    then obtain d where "u = unit_text d" "plain_char d"
      using n(3) by (auto simp: list_all_iff)
    then show "u \<noteq> [] \<and> leads rx_name_unit (cap, u @ t) (cap, t)"
      using leads_unit [of d] plain_unit [of d] by auto
  qed (rule stops_none [OF assms(2)])
  then have "leads rx_identifier (cap, unit_text c @ concat (map unit_text r) @ s) (cap, s)"
    unfolding rx_identifier_def by (rule leads_seq [OF leads_unit [OF n(2)]])
  then show ?thesis
    unfolding e by (simp add: n(1))
next
  assume e: "escape_text n = [CHR 0x5C, CHR ''-'']"
  have "leads rx_name_unit (cap, [CHR 0x5C, CHR ''-''] @ s) (cap, s)"
    by (simp add: leads_def rx_name_unit_def rx_escape_def rx_char_def not_newline_def)
  moreover have "leads (RMany rx_name_unit) (cap, s) (cap, s)"
    using leads_many [of "[]" rx_name_unit cap s] stops_none [OF assms(2)] by simp
  ultimately show ?thesis
    unfolding rx_identifier_def e by (rule leads_seq)
qed

subsection \<open>Pieces are read back\<close>

lemma leads_char: "leads (rx_char c) (cap, c # s) (cap, s)"
  unfolding rx_char_def by (rule leads_class) simp

lemma leads_name:
  assumes "n \<noteq> []" "list_all name_char n" "stops s"
  shows "leads rx_identifier (cap, n @ s) (cap, s)"
proof -
  have u: "leads rx_name_unit (cap, [c] @ t) (cap, t)" if "name_char c" for c t
  proof -
    have "c \<noteq> CHR 0x5C"
      using that by (auto simp: name_char_def word_unit_def digit_unit_def)
    then show ?thesis
      using that by (simp add: leads_def rx_name_unit_def rx_escape_def rx_char_def)
  qed
  obtain c r where n: "n = c # r" "name_char c" "list_all name_char r"
    using assms by (cases n) auto
  have "leads (RMany rx_name_unit) (cap, concat (map (\<lambda>c. [c]) r) @ s) (cap, s)"
    by (rule leads_many) (use n(3) u stops_none [OF assms(3)] in \<open>auto simp: list_all_iff\<close>)
  then have "leads rx_identifier (cap, [c] @ r @ s) (cap, s)"
    unfolding rx_identifier_def by (intro leads_seq [OF u [OF n(2)]]) simp
  then show ?thesis
    by (simp add: n(1))
qed

lemma escape_first:
  assumes "plain_name n"
  obtains c r where "escape_text n = c # r" "name_char c \<or> c = CHR 0x5C \<or> (of_char c :: nat) > 0xa0"
  using escape_plain [OF assms]
proof (elim disjE conjE)
  assume e: "escape_text n = concat (map unit_text n)"
  obtain c r where n: "n = c # r" "plain_char c"
    using assms by (auto simp: plain_name_def split: list.splits)
  show ?thesis
    using plain_unit [OF n(2)] that e n(1) by auto
qed (use that in simp)

lemma name_first:
  assumes "name_char c \<or> c = CHR 0x5C \<or> (of_char c :: nat) > 0xa0"
  shows "\<not> css_space c" "c \<notin> set '',>+~*.#[:''"
  using assms by (auto simp: name_char_def word_unit_def digit_unit_def css_space_def)

fun piece_type :: "piece \<Rightarrow> ftype" where
  "piece_type (Class n) = CLASS_type"
| "piece_type (Id n) = ID_type"
| "piece_type (Nth type what a b) = CHILD_type"
| "piece_type p = TAG_type"

lemma pseudo_of_nth:
  assumes "type \<in> {''nth'', ''nth-last''}" "what \<in> {''child'', ''of-type''}"
  shows "\<exists>g. exec_front rx_pseudos (nth_text type what a b @ s) = Some (g, s)"
proof -
  let ?n = "type @ ''-'' @ what" and ?c = "\<lambda>_. [] :: string"
  let ?piece = "rx_alt [rx_escape, RClass (\<lambda>c. c \<notin> {CHR 0x5C, CHR ''('', CHR '')'', CHR ''['', CHR '']''}), rx_attributes 6]"
  let ?arg = "argument_text a b"
  have n: "?n \<noteq> []" "list_all name_char ?n"
    using assms by (auto simp: name_char_def word_unit_def digit_unit_def)
  have name: "leads (RGroup 1 rx_identifier) (?c, ?n @ CHR ''('' # ?arg @ CHR '')'' # s) (?c(1 := ?n), CHR ''('' # ?arg @ CHR '')'' # s)"
    by (intro leads_capture leads_name n) (simp add: stops_def name_char_def word_unit_def digit_unit_def)
  have chars: "c \<in> set ?arg \<Longrightarrow> is_digit c \<or> c \<in> set ''+-n''" for c
    using dec_digits by (auto simp: argument_text_def number_text_def sign_text_def split: if_splits)
  have ok: "c \<in> set ?arg \<Longrightarrow> c \<notin> {CHR 0x5C, CHR ''('', CHR '')'', CHR ''['', CHR '']''}" for c
    using chars [of c] by (auto simp: is_digit_def)
  have piece: "leads ?piece (cap, [c] @ t) (cap, t)" if "c \<notin> {CHR 0x5C, CHR ''('', CHR '')'', CHR ''['', CHR '']''}" for c t cap
    using that by (simp add: leads_def rx_escape_def rx_char_def)
  have "leads (RMany ?piece) (cap, concat (map (\<lambda>c. [c]) ?arg) @ CHR '')'' # s) (cap, CHR '')'' # s)" for cap
    by (rule leads_many) (use piece ok in \<open>auto simp: rx_escape_def rx_char_def rx_attributes_def\<close>)
  then have many: "leads (RGroup 6 (RMany ?piece)) (cap, ?arg @ CHR '')'' # s) (cap(6 := ?arg), CHR '')'' # s)" for cap
    by (intro leads_capture) simp
  have none: "runs (RGroup 3 (rx_alt [rx_quoted 4 (CHR 0x27), rx_quoted 5 (CHR 0x22)])) (cap, ?arg @ CHR '')'' # s) = []" for cap
    by (simp add: argument_text_def number_text_def sign_text_def rx_quoted_def rx_char_def)
  have alts: "leads (RGroup 2 (rx_alt [RGroup 3 (rx_alt [rx_quoted 4 (CHR 0x27), rx_quoted 5 (CHR 0x22)]), RGroup 6 (RMany ?piece), RStar not_newline]))
      (cap, ?arg @ CHR '')'' # s) (cap(6 := ?arg, 2 := ?arg), CHR '')'' # s)" for cap
    unfolding rx_alt.simps(3) [of "RGroup 3 _"] rx_alt.simps(3) [of "RGroup 6 _"]
    by (intro leads_capture leads_right [OF none] leads_left many)
  have "leads rx_pseudos (?c, CHR '':'' # ?n @ CHR ''('' # ?arg @ CHR '')'' # s) (?c(1 := ?n, 6 := ?arg, 2 := ?arg), s)"
    unfolding rx_pseudos_def rx_seq.simps rx_alt.simps(2,3) [of "RSeq _ _"]
      rx_alt.simps(3) [of "RSeq (rx_char CHR ''('') _"]
    by (intro leads_seq [OF leads_char leads_seq [OF name]] leads_left leads_seq [OF leads_char leads_seq [OF alts leads_char]])
  then show ?thesis
    using leads_front by (fastforce simp: nth_text_def)
qed

lemma exec_none: "(\<And>cap. runs r (cap, s) = []) \<Longrightarrow> exec_front r s = None"
  by (simp add: exec_front_def)

lemma front_none:
  assumes "t \<noteq> TAG_type" "c \<notin> set ''.[:#''"
  shows "exec_front (matchExpr t) (c # s) = None"
  by (rule exec_none)
     (use assms in \<open>cases t; simp add: rx_CLASS_def rx_ID_def rx_attributes_def rx_CHILD_def rx_pseudos_def rx_char_def\<close>)

lemma tag_none:
  assumes "c \<in> set ''.#:''"
  shows "exec_front (matchExpr TAG_type) (c # s) = None"
proof -
  have "\<not> name_char c" "(of_char c :: nat) \<le> 0xa0" "c \<noteq> CHR 0x5C" "c \<noteq> CHR ''*''"
    using assms by (auto simp: name_char_def word_unit_def digit_unit_def)
  then have "runs rx_identifier (cap, c # s) = []" for cap
    by (intro identifier_none) (simp add: name_unit_none)
  then show ?thesis
    using \<open>c \<noteq> CHR ''*''\<close> by (intro exec_none) (simp add: rx_TAG_def rx_char_def)
qed

lemma other_none:
  assumes "(c, t0) \<in> {(CHR ''.'', CLASS_type), (CHR ''#'', ID_type)}" "t \<noteq> t0"
  shows "exec_front (matchExpr t) (c # s) = None"
proof (cases t)
  case TAG_type
  then show ?thesis
    using tag_none [of c s] assms by auto
qed (rule exec_none, use assms in \<open>auto simp: rx_CLASS_def rx_ID_def rx_attributes_def rx_CHILD_def rx_pseudos_def rx_char_def\<close>)+

lemma colon_none: "t \<notin> {CHILD_type, PSEUDO_type} \<Longrightarrow> exec_front (matchExpr t) (CHR '':'' # s) = None"
  using tag_none [of "CHR '':''" s]
  by (cases t) (simp_all add: exec_front_def rx_CLASS_def rx_ID_def rx_attributes_def rx_char_def)

definition one_pass :: "(string \<Rightarrow> nat option) \<Rightarrow> ftype \<Rightarrow> string \<Rightarrow> (string \<times> tok) option option" where
  "one_pass parse t s =
     (case exec_front (matchExpr t) s of
        None \<Rightarrow> Some None
      | Some (g, rest) \<Rightarrow>
          (case preFilter parse t (take (length s - length rest) s) g of
             Raised \<Rightarrow> None
           | Skip \<Rightarrow> Some None
           | Kept v i \<Rightarrow> Some (Some (drop (length v) s, \<lparr>tok_value = v, tok_item = i\<rparr>))))"

lemma filter_pass_one:
  "one_pass parse t s = Some None \<Longrightarrow> filter_pass parse (t # ts) s m toks = filter_pass parse ts s m toks"
  "one_pass parse t s = Some (Some (s', k)) \<Longrightarrow> filter_pass parse (t # ts) s m toks = filter_pass parse ts s' (tok_value k \<noteq> []) (toks @ [k])"
  by (auto simp: one_pass_def split: option.splits pre.splits)

lemma capture_value: "take (length (v @ s) - length s) (v @ s) = v"
  by simp

lemma one_pass_kept:
  assumes "exec_front (matchExpr t) (v @ s) = Some (g, s)" "preFilter parse t v g = Kept v i"
  shows "one_pass parse t (v @ s) = Some (Some (s, \<lparr>tok_value = v, tok_item = i\<rparr>))"
  using assms by (simp add: one_pass_def)

text \<open>Each piece is matched by its own type and passed over by the others.\<close>

lemma piece_kept:
  assumes "piece_ok p" "\<not> is_join p" "stops s"
  shows "one_pass parse (piece_type p) (piece_text p @ s) = Some (Some (s, piece_tok p))"
proof (cases p)
  case (Tag n)
  have "leads rx_TAG (\<lambda>_. [], escape_text n @ s) ((\<lambda>_. [])(1 := escape_text n), s)"
    unfolding rx_TAG_def by (intro leads_capture leads_left leads_identifier) (use assms Tag in simp_all)
  from one_pass_kept [where t = TAG_type and parse = parse, OF leads_front [OF this [folded matchExpr.simps(1)]]]
  show ?thesis
    by (simp add: Tag piece_tok_def)
next
  case Any
  have "runs rx_identifier (cap, CHR ''*'' # s) = []" for cap
    by (rule identifier_none) (simp add: name_unit_none name_char_def word_unit_def digit_unit_def)
  then have "leads rx_TAG (\<lambda>_. [], ''*'' @ s) ((\<lambda>_. [])(1 := ''*''), s)"
    unfolding rx_TAG_def by (intro leads_capture leads_right) (simp_all add: leads_char)
  from one_pass_kept [where t = TAG_type and parse = parse, OF leads_front [OF this [folded matchExpr.simps(1)]]]
  show ?thesis
    by (simp add: Any piece_tok_def)
next
  case (Class n)
  have "leads rx_CLASS (\<lambda>_. [], (CHR ''.'' # escape_text n) @ s) ((\<lambda>_. [])(1 := escape_text n), s)"
    unfolding rx_CLASS_def append_Cons
    by (intro leads_seq [OF leads_char] leads_capture leads_identifier) (use assms Class in simp_all)
  from one_pass_kept [where t = CLASS_type and parse = parse, OF leads_front [OF this [folded matchExpr.simps(2)]]]
  show ?thesis
    by (simp add: Class piece_tok_def)
next
  case (Id n)
  have "leads rx_ID (\<lambda>_. [], (CHR ''#'' # escape_text n) @ s) ((\<lambda>_. [])(1 := escape_text n), s)"
    unfolding rx_ID_def append_Cons
    by (intro leads_seq [OF leads_char] leads_capture leads_identifier) (use assms Id in simp_all)
  from one_pass_kept [where t = ID_type and parse = parse, OF leads_front [OF this [folded matchExpr.simps(6)]]]
  show ?thesis
    by (simp add: Id piece_tok_def)
next
  case (Nth type what a b)
  then obtain g where g: "exec_front rx_CHILD (nth_text type what a b @ s) = Some (g, s)"
    "preFilter_CHILD g = Some (type, what, a, b)" "g 3 = argument_text a b"
    using reads_nth [of type what a b s] assms(1) by auto
  from one_pass_kept [where t = CHILD_type and parse = parse, OF g(1) [folded matchExpr.simps(4)]] g(2,3)
  show ?thesis
    by (simp add: Nth piece_tok_def preFilter_child_def)
qed (use assms(2) in \<open>simp_all add: is_join_def\<close>)

lemma piece_passed:
  assumes "piece_ok p" "\<not> is_join p" "stops s" "t \<noteq> piece_type p" "\<not> is_start p \<or> t \<noteq> TAG_type"
  shows "one_pass parse t (piece_text p @ s) = Some None"
proof (cases p)
  case (Tag n)
  then obtain c r where "escape_text n = c # r" "c \<notin> set '',>+~*.#[:''"
    using assms(1) name_first(2) by (auto elim: escape_first)
  then show ?thesis
    using front_none [of t c "r @ s"] assms(4) Tag by (simp add: one_pass_def)
next
  case Any
  then show ?thesis
    using front_none [of t "CHR ''*''" s] assms(4) by (simp add: one_pass_def)
next
  case (Class n)
  then show ?thesis
    using other_none [of "CHR ''.''" CLASS_type t] assms(4) by (simp add: one_pass_def)
next
  case (Id n)
  then show ?thesis
    using other_none [of "CHR ''#''" ID_type t] assms(4) by (simp add: one_pass_def)
next
  case (Nth type what a b)
  show ?thesis
  proof (cases "t = PSEUDO_type")
    case True
    obtain g where g: "exec_front rx_pseudos (nth_text type what a b @ s) = Some (g, s)"
      using pseudo_of_nth [of type what a b s] assms(1) Nth by auto
    have "exec_front rx_CHILD (nth_text type what a b) \<noteq> None"
      using reads_nth [of type what a b "[]"] assms(1) Nth by auto
    then have "test_front rx_CHILD (nth_text type what a b)"
      by (auto simp: test_front_def exec_front_def)
    then show ?thesis
      using True Nth g by (simp add: one_pass_def preFilter_PSEUDO_def)
  next
    case False
    then show ?thesis
      using colon_none [of t] assms(4) Nth by (simp add: one_pass_def nth_text_def)
  qed
qed (use assms(2) in \<open>simp_all add: is_join_def\<close>)

subsection \<open>Whole selectors\<close>

definition later :: "piece \<Rightarrow> bool" where
  "later p \<longleftrightarrow> \<not> is_join p \<and> \<not> is_start p"

lemma pieces_text_simps [simp]: "pieces_text [] = []" "pieces_text (p # ps) = piece_text p @ pieces_text ps"
  "pieces_text (ps @ qs) = pieces_text ps @ pieces_text qs"
  by (simp_all add: pieces_text_def)

lemma piece_first:
  assumes "piece_ok p" "\<not> is_join p"
  obtains c r where "piece_text p = c # r" "\<not> css_space c" "c \<notin> set '',>+~''"
proof (cases p)
  case (Tag n)
  then obtain c r where "escape_text n = c # r" "name_char c \<or> c = CHR 0x5C \<or> (of_char c :: nat) > 0xa0"
    using assms(1) by (auto elim: escape_first)
  then show ?thesis
    using that [of c r] name_first [of c] Tag by simp
qed (use assms that in \<open>auto simp: is_join_def css_space_def nth_text_def\<close>)

lemma text_not_empty: "piece_ok p \<Longrightarrow> \<not> is_join p \<Longrightarrow> piece_text p \<noteq> []"
  by (metis list.distinct(1) piece_first)

lemma later_stops: "piece_ok p \<Longrightarrow> later p \<Longrightarrow> stops (piece_text p @ s)"
  by (cases p) (auto simp: later_def is_join_def is_start_def stops_def name_char_def word_unit_def digit_unit_def nth_text_def)

lemma join_stops: "is_join p \<Longrightarrow> stops (piece_text p @ s) \<and> no_front (piece_text p @ s)"
  by (cases p) (auto simp: is_join_def stops_def no_front_def name_char_def word_unit_def digit_unit_def css_space_def kind_text_def
      split: kind.split)

text \<open>What may follow a piece that is not a join.\<close>

definition after_ok :: "piece list \<Rightarrow> bool" where
  "after_ok ps \<longleftrightarrow> list_all piece_ok ps \<and> follows_ok ps \<and> (case ps of [] \<Rightarrow> True | p # _ \<Rightarrow> \<not> is_start p)"

lemma after_stops: "after_ok ps \<Longrightarrow> stops (pieces_text ps)"
  using later_stops join_stops by (cases ps) (auto simp: after_ok_def later_def stops_def)

lemma follows_tail: "follows_ok (p # ps) \<Longrightarrow> follows_ok ps"
  by (cases ps) auto

lemma after_tail:
  assumes "list_all piece_ok (p # ps)" "follows_ok (p # ps)" "\<not> is_join p"
  shows "after_ok ps"
  using assms by (cases ps) (auto simp: after_ok_def)

text \<open>One pass over filter types takes some of the pieces at the front, and at least one if its type is among them.\<close>

lemma pass_pieces:
  assumes "after_ok ps"
  shows "\<exists>ps1 ps2. ps = ps1 @ ps2 \<and> list_all later ps1 \<and> after_ok ps2 \<and>
    filter_pass parse ts (pieces_text ps) m toks = Some (pieces_text ps2, m \<or> ps1 \<noteq> [], toks @ map piece_tok ps1) \<and>
    (ps \<noteq> [] \<and> later (hd ps) \<and> piece_type (hd ps) \<in> set ts \<longrightarrow> ps1 \<noteq> [])"
  using assms
proof (induction ts arbitrary: ps m toks)
  case Nil
  then show ?case
    by - (rule exI [of _ "[]"], rule exI [of _ ps], simp)
next
  case (Cons t ts)
  show ?case
  proof (cases "ps \<noteq> [] \<and> later (hd ps)")
    case False
    then have "no_front (pieces_text ps)"
      using join_stops Cons.prems by (cases ps) (auto simp: later_def after_ok_def no_front_def)
    then have "filter_pass parse (t # ts) (pieces_text ps) m toks = Some (pieces_text ps, m, toks)"
      by (rule filter_pass_none)
    then show ?thesis
      using Cons.prems False by - (rule exI [of _ "[]"], rule exI [of _ ps], auto)
  next
    case True
    then obtain p qs where ps: "ps = p # qs" "later p"
      by (cases ps) auto
    then have p: "piece_ok p" "\<not> is_join p" "\<not> is_start p"
      using Cons.prems by (auto simp: after_ok_def later_def)
    have q: "after_ok qs"
      using Cons.prems ps p(2) after_tail [of p qs] by (simp add: after_ok_def)
    show ?thesis
    proof (cases "t = piece_type p")
      case True
      have f: "filter_pass parse (t # ts) (pieces_text ps) m toks =
          filter_pass parse ts (pieces_text qs) True (toks @ [piece_tok p])"
        using filter_pass_one(2) [OF piece_kept [OF p(1,2) after_stops [OF q], where parse = parse], of ts m toks]
          text_not_empty [OF p(1,2)] by (simp add: ps True piece_tok_def)
      obtain ps1 ps2 where r: "qs = ps1 @ ps2" "list_all later ps1" "after_ok ps2"
        "filter_pass parse ts (pieces_text qs) True (toks @ [piece_tok p]) =
          Some (pieces_text ps2, True, (toks @ [piece_tok p]) @ map piece_tok ps1)"
        using Cons.IH [OF q, of True "toks @ [piece_tok p]"] unfolding simp_thms by blast
      then show ?thesis
        using f ps by - (rule exI [of _ "p # ps1"], rule exI [of _ ps2], simp)
    next
      case False
      have "one_pass parse t (piece_text p @ pieces_text qs) = Some None"
        using piece_passed [OF p(1,2) after_stops [OF q] False] p(3) by blast
      then have f: "filter_pass parse (t # ts) (pieces_text ps) m toks = filter_pass parse ts (pieces_text ps) m toks"
        using filter_pass_one(1) [of parse t "pieces_text ps" ts m toks] by (simp add: ps)
      obtain ps1 ps2 where r: "ps = ps1 @ ps2 \<and> list_all later ps1 \<and> after_ok ps2 \<and>
          filter_pass parse ts (pieces_text ps) m toks = Some (pieces_text ps2, m \<or> ps1 \<noteq> [], toks @ map piece_tok ps1) \<and>
          (ps \<noteq> [] \<and> later (hd ps) \<and> piece_type (hd ps) \<in> set ts \<longrightarrow> ps1 \<noteq> [])"
        using Cons.IH [OF Cons.prems, of m toks] by blast
      have set: "piece_type (hd ps) \<in> set (t # ts) \<longleftrightarrow> piece_type (hd ps) \<in> set ts"
        using False ps(1) by simp
      show ?thesis
        unfolding f set using r by blast
    qed
  qed
qed

lemma all_types: "t \<in> set filter_types"
  by (cases t) (simp_all add: filter_types_def)

text \<open>A tag, if there is one, is taken first.\<close>

lemma pass_compound:
  assumes "ps \<noteq> []" "\<not> is_join (hd ps)" "list_all piece_ok ps" "follows_ok ps"
  shows "\<exists>ps1 ps2. ps = ps1 @ ps2 \<and> ps1 \<noteq> [] \<and> Comma \<notin> set ps1 \<and> after_ok ps2 \<and>
    filter_pass parse filter_types (pieces_text ps) m toks = Some (pieces_text ps2, True, toks @ map piece_tok ps1)"
proof (cases "is_start (hd ps)")
  case False
  then have "after_ok ps"
    using assms by (cases ps) (auto simp: after_ok_def)
  then obtain ps1 ps2 where r: "ps = ps1 @ ps2" "list_all later ps1" "after_ok ps2"
    "filter_pass parse filter_types (pieces_text ps) m toks = Some (pieces_text ps2, m \<or> ps1 \<noteq> [], toks @ map piece_tok ps1)"
    "ps1 \<noteq> []"
    using pass_pieces [of ps parse filter_types m toks] assms(1,2) False all_types unfolding later_def by blast
  have "Comma \<notin> set ps1"
    using r(2) by (auto simp: list_all_iff later_def is_join_def)
  then show ?thesis
    using r by - (rule exI [of _ ps1], rule exI [of _ ps2], simp)
next
  case True
  obtain p qs where ps: "ps = p # qs"
    using assms(1) by (cases ps) auto
  have p: "piece_ok p" "\<not> is_join p" "is_start p" "piece_type p = TAG_type"
    using assms True ps by (auto simp: is_start_def split: piece.splits)
  have q: "after_ok qs"
    using assms ps after_tail [of p qs] by simp
  obtain ts where ts: "filter_types = TAG_type # ts"
    by (simp add: filter_types_def)
  note text_not_empty [OF p(1,2)]
  then have f: "filter_pass parse filter_types (pieces_text ps) m toks = filter_pass parse ts (pieces_text qs) True (toks @ [piece_tok p])"
    using filter_pass_one(2) [OF piece_kept [OF p(1,2) after_stops [OF q], where parse = parse], of ts m toks]
    by (simp add: ps ts p(4) piece_tok_def)
  obtain ps1 ps2 where r: "qs = ps1 @ ps2" "list_all later ps1" "after_ok ps2"
    "filter_pass parse ts (pieces_text qs) True (toks @ [piece_tok p]) =
      Some (pieces_text ps2, True, (toks @ [piece_tok p]) @ map piece_tok ps1)"
    using pass_pieces [OF q, of parse ts True "toks @ [piece_tok p]"] unfolding simp_thms by blast
  have "Comma \<notin> set (p # ps1)"
    using r(2) p(2) by (auto simp: list_all_iff later_def is_join_def)
  then show ?thesis
    using f r ps by - (rule exI [of _ "p # ps1"], rule exI [of _ ps2], simp)
qed

text \<open>Combinators and commas.\<close>

lemma comb_read:
  assumes "\<not> css_space c" "c \<notin> set ''>+~''"
  shows "\<exists>g. exec_front rcombinators (kind_text k @ c # s) = Some (g, c # s) \<and> kind_of_text (g 1) = k"
  using assms
  by (cases k)
    (simp_all add: exec_front_def rcombinators_def kind_text_def rx_space_def css_space_def kind_of_text_def)

lemma comb_none: "stops s \<Longrightarrow> (case s of [] \<Rightarrow> True | c # _ \<Rightarrow> \<not> css_space c \<and> c \<notin> set ''>+~'') \<Longrightarrow> exec_front rcombinators s = None"
  by (cases s) (simp_all add: exec_front_def rcombinators_def rx_space_def)

lemma comma_read: "\<not> css_space c \<Longrightarrow> \<exists>g. exec_front rcomma ('', '' @ c # s) = Some (g, c # s)"
  by (simp add: exec_front_def rcomma_def rx_space_def rx_char_def css_space_def)

lemma comma_none:
  assumes "\<not> css_space c" "c \<noteq> CHR '',''"
  shows "exec_front rcomma (c # s) = None" "exec_front rcomma (kind_text k @ c # s) = None"
  using assms
  by (simp_all add: exec_front_def rcomma_def rx_space_def rx_char_def css_space_def kind_text_def split: kind.split)

lemma text_first:
  assumes "ps \<noteq> []" "\<not> is_join (hd ps)" "list_all piece_ok ps"
  obtains c r where "pieces_text ps = c # r" "\<not> css_space c" "c \<notin> set '',>+~''"
proof -
  obtain p qs where ps: "ps = p # qs" "piece_ok p" "\<not> is_join p"
    using assms by (cases ps) auto
  obtain c r where "piece_text p = c # r" "\<not> css_space c" "c \<notin> set '',>+~''"
    by (rule piece_first [OF ps(2,3)])
  then show ?thesis
    using that [of c "r @ pieces_text qs"] ps(1) by simp
qed

lemma body_pieces:
  assumes "ps \<noteq> []" "hd ps \<noteq> Comma" "list_all piece_ok ps" "follows_ok ps"
  shows "\<exists>ps1 ps2. ps = ps1 @ ps2 \<and> ps1 \<noteq> [] \<and> Comma \<notin> set ps1 \<and> after_ok ps2 \<and>
    tok_body parse (pieces_text ps) toks = Some (pieces_text ps2, True, toks @ map piece_tok ps1)"
proof (cases "is_join (hd ps)")
  case False
  obtain c r where c: "pieces_text ps = c # r" "\<not> css_space c" "c \<notin> set '',>+~''"
    by (rule text_first [OF assms(1) False assms(3)])
  then have "exec_front rcombinators (pieces_text ps) = None"
    by (simp add: exec_front_def rcombinators_def rx_space_def)
  then have "tok_body parse (pieces_text ps) toks = filter_pass parse filter_types (pieces_text ps) False toks"
    by (simp add: tok_body_def combinator_step_def)
  then show ?thesis
    using pass_compound [OF assms(1) False assms(3,4), of parse False toks] by simp
next
  case True
  then obtain k qs where ps: "ps = Comb k # qs"
    using assms(1,2) by (cases ps) (auto simp: is_join_def split: piece.splits)
  have q: "qs \<noteq> []" "\<not> is_join (hd qs)" "list_all piece_ok qs" "follows_ok qs"
    using assms ps by (cases qs; auto simp: is_join_def)+
  obtain c r where c: "pieces_text qs = c # r" "\<not> css_space c" "c \<notin> set '',>+~''"
    by (rule text_first [OF q(1-3)])
  then obtain g where g: "exec_front rcombinators (pieces_text ps) = Some (g, pieces_text qs)" "kind_of_text (g 1) = k"
    using comb_read [of c k r] ps by auto
  have "tok_body parse (pieces_text ps) toks = filter_pass parse filter_types (pieces_text qs) True (toks @ [piece_tok (Comb k)])"
    using g by (simp add: tok_body_def combinator_step_def Let_def ps piece_tok_def kind_text_def split: kind.split)
  moreover obtain ps1 ps2 where "qs = ps1 @ ps2" "ps1 \<noteq> []" "Comma \<notin> set ps1" "after_ok ps2"
    "filter_pass parse filter_types (pieces_text qs) True (toks @ [piece_tok (Comb k)]) =
      Some (pieces_text ps2, True, (toks @ [piece_tok (Comb k)]) @ map piece_tok ps1)"
    using pass_compound [OF q, of parse True "toks @ [piece_tok (Comb k)]"] by blast
  ultimately show ?thesis
    using ps by - (rule exI [of _ "Comb k # ps1"], rule exI [of _ ps2], simp)
qed

lemma piece_groups_append: "Comma \<notin> set ps1 \<Longrightarrow> piece_groups (ps1 @ ps2) ts = piece_groups ps2 (ts @ map piece_tok ps1)"
  by (induction ps1 arbitrary: ts) auto

lemma join_not_empty: "is_join p \<Longrightarrow> piece_text p \<noteq> []"
  by (cases p) (simp_all add: is_join_def kind_text_def split: kind.split)

lemma text_empty: "list_all piece_ok ps \<Longrightarrow> pieces_text ps = [] \<longleftrightarrow> ps = []"
  using text_not_empty join_not_empty by (cases ps) auto

lemma loop_pieces: "after_ok ps \<Longrightarrow> tok_loop parse False (pieces_text ps) gs ts = Some ([], gs @ piece_groups ps ts)"
proof (induction "length ps" arbitrary: ps gs ts rule: less_induct)
  case less
  have ok: "list_all piece_ok ps" "follows_ok ps"
    using less.prems by (auto simp: after_ok_def)
  show ?case
  proof (cases "ps = []")
    case True
    then show ?thesis
      by (simp add: tok_loop.simps)
  next
    case False
    then have ne: "pieces_text ps \<noteq> []"
      using text_empty [OF ok(1)] by simp
    obtain qs gs1 ts1 where q: "comma_step (pieces_text ps) gs ts = (pieces_text qs, gs1, ts1)" "qs \<noteq> []" "hd qs \<noteq> Comma"
      "list_all piece_ok qs" "follows_ok qs" "length qs \<le> length ps" "gs @ piece_groups ps ts = gs1 @ piece_groups qs ts1"
    proof (cases "hd ps = Comma")
      case True
      then obtain qs where ps: "ps = Comma # qs"
        using False by (cases ps) auto
      have q: "qs \<noteq> []" "\<not> is_join (hd qs)" "list_all piece_ok qs" "follows_ok qs"
        using ok ps by (cases qs; auto simp: is_join_def)+
      obtain c r where c: "pieces_text qs = c # r" "\<not> css_space c" "c \<notin> set '',>+~''"
        by (rule text_first [OF q(1-3)])
      then have "comma_step (pieces_text ps) gs ts = (pieces_text qs, gs @ [ts], [])"
        using comma_read [of c r] ps by (auto simp: comma_step_def)
      moreover have "hd qs \<noteq> Comma"
        using q(2) by (auto simp: is_join_def)
      ultimately show ?thesis
        using q ps that [of qs "gs @ [ts]" "[]"] by simp
    next
      case hd: False
      have "exec_front rcomma (pieces_text ps) = None"
      proof (cases "is_join (hd ps)")
        case True
        then obtain k qs where ps: "ps = Comb k # qs"
          using False hd by (cases ps) (auto simp: is_join_def split: piece.splits)
        have q: "qs \<noteq> []" "\<not> is_join (hd qs)" "list_all piece_ok qs"
          using ok ps by (cases qs; auto simp: is_join_def)+
        obtain c r where "pieces_text qs = c # r" "\<not> css_space c" "c \<notin> set '',>+~''"
          by (rule text_first [OF q])
        then show ?thesis
          using comma_none(2) [of c k r] ps by auto
      next
        case nj: False
        obtain c r where "pieces_text ps = c # r" "\<not> css_space c" "c \<notin> set '',>+~''"
          by (rule text_first [OF False nj ok(1)])
        then show ?thesis
          using comma_none(1) [of c r] by auto
      qed
      then have "comma_step (pieces_text ps) gs ts = (pieces_text ps, gs, ts)"
        by (simp add: comma_step_def)
      then show ?thesis
        using that [of ps gs ts] False hd ok by simp
    qed
    obtain ps1 ps2 where r: "qs = ps1 @ ps2" "ps1 \<noteq> []" "Comma \<notin> set ps1" "after_ok ps2"
      "tok_body parse (pieces_text qs) ts1 = Some (pieces_text ps2, True, ts1 @ map piece_tok ps1)"
      using body_pieces [OF q(2-5), of parse ts1] by blast
    have "length ps2 < length ps"
      using r(1,2) q(6) by (cases ps1) auto
    then have "tok_loop parse False (pieces_text ps2) gs1 (ts1 @ map piece_tok ps1) =
        Some ([], gs1 @ piece_groups ps2 (ts1 @ map piece_tok ps1))"
      using less.hyps r(4) by blast
    then show ?thesis
      using ne q(1,7) r(1,3,5) by (simp add: tok_loop.simps [of _ _ "pieces_text ps"] piece_groups_append)
  qed
qed

section \<open>Properties\<close>

text \<open>
  Whatever the cache holds, a tokenized selector is the texts of its tokens and the commas between the groups,
  nothing added and nothing lost, and the cache stays a cache of at most fifty tokenized selectors.
\<close>

theorem tokenize_lossless:
  assumes "cache_ok c" "tokenize selector c = (Some groups, c')"
  shows "written groups selector \<and> cache_ok c' \<and> length (cache_keys c') \<le> 50"
proof -
  have "fst (tokenize selector c) = Some groups"
    using assms(2) by simp
  then have "plain selector = Some ([], groups)"
    using tokenize_plain [OF assms(1), of selector] by (auto split: option.splits list.splits)
  then have "written groups ([] @ selector)"
    using tok_loop_writes [of _ True selector "[]" "[]" groups "[]"] by (simp add: plain_def)
  moreover have "cache_ok c'"
    using tokenize_cache [OF assms(1), of selector] assms(2) by simp
  ultimately show ?thesis
    by (simp add: cache_ok_def)
qed

text \<open>
  C6. A selector written from tags, classes, identifiers, positions, combinators and commas, its names escaped, is
  read back as the tokens of its pieces, whatever the cache holds.
\<close>

theorem tokenize_roundtrip:
  assumes "cache_ok c" "selector_ok ps"
  shows "fst (tokenize (pieces_text ps) c) = Some (piece_groups ps [])"
proof -
  have ps: "ps \<noteq> []" "\<not> is_join (hd ps)" "list_all piece_ok ps" "follows_ok ps"
    using assms(2) by (auto simp: selector_ok_def split: list.splits)
  then have "hd ps \<noteq> Comma"
    by (auto simp: is_join_def)
  let ?parse = "parse_only (length (pieces_text ps)) (\<lambda>_. False)"
  obtain ps1 ps2 where r: "ps = ps1 @ ps2" "Comma \<notin> set ps1" "after_ok ps2"
    "tok_body ?parse (pieces_text ps) [] = Some (pieces_text ps2, True, [] @ map piece_tok ps1)"
    using body_pieces [OF ps(1) \<open>hd ps \<noteq> Comma\<close> ps(3,4), of ?parse "[]"] by blast
  have "plain (pieces_text ps) = tok_loop ?parse False (pieces_text ps2) [] (map piece_tok ps1)"
    using r(4) text_empty [OF ps(3)] ps(1) unfolding plain_def by (subst tok_loop.simps) simp
  also have "\<dots> = Some ([], piece_groups ps [])"
    using loop_pieces [OF r(3), of ?parse "[]" "map piece_tok ps1"] piece_groups_append [OF r(2), of ps2 "[]"] r(1) by simp
  finally show ?thesis
    using tokenize_plain [OF assms(1)] by simp
qed

text \<open>Examples.\<close>

definition sample_selector :: "piece list" where
  "sample_selector =
     [Tag ''ul'', Comb Child, Any, Class ''a.b'', Nth ''nth-last'' ''child'' 2 1, Comb Descendant, Id ''c d'', Comma,
      Class ''-'', Comb Sibling, Tag ''p'']"

lemma sample_text:
  "pieces_text sample_selector = ''ul > *.a'' @ [CHR 0x5C] @ ''.b:nth-last-child(+2n+1) #c'' @ [CHR 0x5C] @ '' d, .'' @ [CHR 0x5C] @ ''- ~ p''"
  by code_simp

lemma tokenize_roundtrip_witness:
  "fst (tokenize (pieces_text sample_selector) createCache) = Some (piece_groups sample_selector [])"
  by (rule tokenize_roundtrip [OF createCache_ok]) code_simp

lemma tokenize_lossless_witness:
  "\<exists>groups c'. tokenize '':not(.x) , *'' createCache = (Some groups, c') \<and> written groups '':not(.x) , *'' \<and> cache_ok c' \<and>
     length (cache_keys c') \<le> 50"
proof -
  have "fst (tokenize '':not(.x) , *'' createCache) \<noteq> None"
    by code_simp
  then obtain groups c' where "tokenize '':not(.x) , *'' createCache = (Some groups, c')"
    by (metis option.exhaust surjective_pairing)
  then show ?thesis
    using tokenize_lossless [OF createCache_ok] by blast
qed

text \<open>
  A name that begins with a digit is escaped as a code point and a blank, of which the blank is not part of an
  identifier: the tokenizer reads the rest of the name as a tag behind a combinator.
\<close>

lemma escaped_digit:
  "map_option (map (map tok_item)) (fst (tokenize (''#'' @ escape_text ''1a'') createCache)) =
     Some [[Captured ID_type [units ([CHR 0x5C] @ ''31'')], Combined Descendant, Captured TAG_type [units ''a'']]]"
  by code_simp

end
