(* ===== verification/Spec2Isabelle.thy ===== *)
theory Spec2Isabelle
  imports UArray UEqual UFunc UText SearchState DocTools DocHighlight WsTemplate JqXhr JqData JqQueue JqParam JqThen
    JqDispatch JqSelect JqFxRun JqTraverse JqForm JqReady JqTokenize
begin

text \<open>
  Verification library for the JavaScript of the repository.

  \<^bold>\<open>The program.\<close>  The repository is a thesis on Scheme servers; its JavaScript serves the generated
  documentation, all of it under \<open>src/doc/python/build/html/_static\<close>.  \<open>doctools.js\<close> starts on every page: it
  reads the query string, marks search words and binds keys and toggle buttons.  \<open>searchtools.js\<close> runs the
  search page: it splits and stems a query, looks the words up in the index, ranks what it finds and fetches
  excerpts.  \<open>websupport.js\<close> is the widget for comments on paragraphs: it keeps the windows of comments in
  step with a server.  All three stand on \<open>underscore.js\<close> (functions on collections) and \<open>jquery.js\<close>
  (elements, events, requests), whose logic is modelled here as well.

  \<^bold>\<open>The language.\<close>  \<open>Prelude\<close>: rewrite collections and generic facts.  \<open>JsLib\<close>: numbers, primitive values,
  both equalities, strings and arrays.  \<open>JsObject\<close>: objects as dictionaries in enumeration order, with the
  locale \<open>prop_store\<close> for what clients rely on.  \<open>JsSort\<close>: \<open>sort\<close>, of which only a sorted permutation is
  promised for a consistent comparison (locale \<open>comparison_sort\<close>, interpreted on an insertion sort and, in \<open>UColl\<close>, on one that reverses equal
  elements; the theorem on \<open>_.sortBy\<close> is about every such sort).  \<open>JsRegex\<close>:
  regular expressions with backtracking.  \<open>JsUri\<close>: percent encoding.

  \<^bold>\<open>underscore.js.\<close>  \<open>UColl\<close> (each, map, reduce, sortBy, groupBy and so on), \<open>UArray\<close> (ends, flatten, uniq,
  searches, zip, range), \<open>UObject\<close> (keys, extend, pick, invert, matching), \<open>UEqual\<close> (\<open>isEqual\<close> on a heap with
  sharing and cycles: it ends, and decides equality of the unfolded trees), \<open>UFunc\<close> (partial, memoize,
  throttle and debounce as state machines over a clock), \<open>UText\<close> (escaping, identifiers, chaining, the
  template compiler).

  \<^bold>\<open>searchtools.js.\<close>  \<open>Stemmer\<close> (Porter's algorithm with its regular expressions), \<open>SearchSplit\<close> (the
  splitter of queries), \<open>Search\<close> (reading a query, the lookup among objects and terms, ranking, excerpts),
  \<open>SearchState\<close> (the \<open>Search\<close> object: a query before or after the index has loaded).

  \<^bold>\<open>doctools.js.\<close>  \<open>DocQuery\<close> (query strings and links that highlight), \<open>DocHighlight\<close> (marking words in a
  document tree), \<open>DocTools\<close> (browser test, translations, toggles, navigation).

  \<^bold>\<open>websupport.js.\<close>  \<open>WsComments\<close> (trees of comments, sorting, the lists on the page and back),
  \<open>WsPage\<close> (the widget as a state machine; answers of the server are events), \<open>WsTemplate\<close> (templates, links).

  \<^bold>\<open>jquery.js.\<close>  \<open>JqClass\<close> (class attributes as texts, refining lists of tokens), \<open>JqCallbacks\<close> (callback
  lists, with callbacks that change the list that is firing), \<open>JqData\<close> and \<open>JqQueue\<close> (data and queues of
  elements), \<open>JqParam\<close> (serialisation), \<open>JqAjaxData\<close>, \<open>JqAjaxConvert\<close>, \<open>JqRequest\<close> and \<open>JqXhr\<close> (a request
  from its options to its end), \<open>JqDeferred\<close> (deferreds as a machine with a stack of calls and timers),
  \<open>JqPromise\<close>, \<open>JqSettle\<close> and \<open>JqThen\<close> (what that machine guarantees), \<open>JqEvent\<close> (the registry of handlers) and
  \<open>JqDispatch\<close> (delivery and triggering).  The selector engine: \<open>JqEscape\<close> (escapes in selectors), \<open>JqTokenize\<close>
  (the tokenizer with its cache), \<open>JqMatch\<close> (the compiled matchers, with what they remember on elements),
  \<open>JqNth\<close> (filters of positions), \<open>JqSelect\<close> (the choice of candidates).  \<open>JqTraverse\<close> (walking over a document, the
  sort into document order), \<open>JqForm\<close> (attributes, properties, values of form controls), \<open>JqFx\<close> and \<open>JqFxRun\<close>
  (animations on the queue of an element, over whole runs), \<open>JqReady\<close> (the moment a page is ready).

  \<^bold>\<open>How the parts meet.\<close>  \<open>websupport.js\<close> and \<open>searchtools.js\<close> send requests (\<open>JqXhr\<close>), whose outcome is told
  through callback lists (\<open>JqCallbacks\<close>); deferreds and queues use the same lists (\<open>JqDeferred\<close>, \<open>JqQueue\<close>
  build on theory \<open>JqCallbacks\<close>); events use class-like token lists and sorting (\<open>JqEvent\<close> builds on
  \<open>JsSort\<close> and \<open>JsRegex\<close>); the query string that \<open>JqParam\<close> writes is the one \<open>DocQuery\<close> reads.

  \<^bold>\<open>What the lemmas show.\<close>  Each theory first translates the code, then proves what its operations keep
  (well-formed objects, registries, callback lists, pages), then its properties: functional behaviour on all
  branches, round trips of encoders and decoders, equivalence of the code with a plain reference (stable
  sorting, tree equality, refinement of class texts by token lists, delivery of events handler by handler),
  termination of the loops, safety and progress of the state machines over all reachable states.  A witness
  after a property applies it to concrete data.

  \<^bold>\<open>Loops and fuel.\<close>  Loops that count or consume their input are structural or carry a measure.  \<open>isEqual\<close>
  uses fuel: pairs on its stack are distinct, so the number of pairs of addresses bounds the depth, and the
  theorem on termination shows that this much is enough.  Firing a callback list and running the commands of a
  queue use fuel because callbacks may go on for ever; the theorems on them give the bound when they do not.
  The conversion of a response has fuel because a converter may ask for itself; with proper settings two
  units for each data type and one more are enough (\<open>ajaxConvert_ends\<close>).  The links between nodes
  (\<open>JqTraverse\<close>) are followed for as many steps as there are nodes, and a star of a regular expression for as
  many rounds as there are characters.  The machine of
  deferreds is a step relation, as is the widget; nothing there needs a bound.

  \<^bold>\<open>Errors.\<close>  A branch that raises is a value: \<open>None\<close> or \<open>Inl\<close>, as each theory says.  A callback of a callback
  list may throw, which leaves the list in the middle of its firing; a deferred catches what its handlers
  throw.  The sort of search results raises when a result without a title meets another of its score.

  \<^bold>\<open>Parameters.\<close>  What the browser or the server does is an argument of the definitions: answers of
  requests, the clock, the document around an element, native methods of elements, functions of the user.
  Where a property needs an assumption on one of them, its witness uses a concrete function.

  \<^bold>\<open>Limits of the models.\<close>  Objects are read without the members of \<open>Object.prototype\<close>: a key such as
  \<open>constructor\<close> or \<open>__proto__\<close> is one like any other (\<open>JsObject\<close>, \<open>UObject\<close>, and the words looked up in
  \<open>Search\<close>).  The sources of \<open>_.extend\<close> are taken as they are before the call, so the target is not one of
  them.  Values compared by \<open>_.contains\<close> and \<open>_.uniq\<close> are primitive or references: a boxed number is no \<open>NaN\<close>.
  Criteria of \<open>_.sortBy\<close> are linearly ordered, and names of properties are numbers only in the notation of
  array indices.  Texts of \<open>UText\<close>, \<open>DocQuery\<close> and \<open>Ws\<close> theories are lists of characters below 256, so the two
  line separators of Unicode do not occur.  The comments of \<open>WsComments\<close> have numbers where the page sorts by
  them and texts elsewhere.  Elements of \<open>DocHighlight\<close> carry a number that stands for their identity; what
  is proved of highlighting is proved of the trees.

  \<^bold>\<open>Not modelled.\<close>  The Python and C programs and the texts of the thesis are not JavaScript.  Of
  \<open>jquery.js\<close>: pseudo-classes other than those of positions, selectors with positional filters, manipulation of
  documents, computed styles, positions on the screen, and the transports of requests, which mostly pass
  values to the browser and back.  \<open>searchindex.js\<close> is generated data.  Of the modelled files, the functions
  that only move values between elements and the browser, and the hooks for particular old browsers.
\<close>

end
